(* ===== verification/Prelude.thy ===== *)
theory Prelude
  imports Main "HOL-Library.Word" "HOL-Library.Monad_Syntax"
begin

text \<open>
  Shared material of the development: names for the C integer types, the way faults are
  modelled, little-endian access to byte buffers, and the word, list and loop lemmas
  that the component theories use.

  A C function that can panic, or that would read or write outside an object, returns an
  \<open>option\<close>: \<open>None\<close> is the panic or the fault.  Error codes that the C code returns are
  ordinary values.
\<close>

unbundle bit_operations_syntax

type_synonym u8 = "8 word"
type_synonym u16 = "16 word"
type_synonym u32 = "32 word"
type_synonym u64 = "64 word"
type_synonym bytes = "8 word list"

named_theorems word_loop \<comment> \<open>measures of counting loops on machine words\<close>

subsection \<open>Counting loops on words\<close>

lemma unat_Suc_of_less:
  fixes x y :: "'a::len word"
  assumes "x < y"
  shows "unat (x + 1) = Suc (unat x)"
proof -
  have "1 + x \<noteq> 0"
    using assms by (metis add.commute max_word_wrap word_not_simps(3))
  then show ?thesis
    using unatSuc [of x] by (simp add: add.commute)
qed

lemma unat_sub_Suc_less [word_loop]:
  fixes x y :: "'a::len word"
  assumes "x < y"
  shows "unat (y - (x + 1)) < unat (y - x)"
proof -
  have S: "unat (x + 1) = Suc (unat x)"
    using assms by (rule unat_Suc_of_less)
  then have "x + 1 \<le> y"
    using assms by (simp add: word_le_nat_alt word_less_nat_alt)
  with S assms show ?thesis
    by (simp add: unat_sub word_less_nat_alt word_le_nat_alt)
qed

lemma atLeastLessThan_Suc_word:
  fixes p l :: "'a::len word"
  assumes "p < l"
  shows "insert p {p + 1 ..< l} = {p ..< l}"
proof -
  have *: "p + 1 \<le> q \<longleftrightarrow> p < q" for q
    unfolding word_le_nat_alt word_less_nat_alt unat_Suc_of_less [OF assms] Suc_le_eq ..
  show ?thesis
    using assms unfolding set_eq_iff insert_iff atLeastLessThan_iff * by (metis order_le_less)
qed

lemma unat_less: "unat (x :: 'a::len word) < 2 ^ LENGTH('a)"
  by (rule unsigned_less)

lemma unat_of_nat_less: "k < 2 ^ LENGTH('a) \<Longrightarrow> unat (of_nat k :: 'a::len word) = k"
  by (simp add: unat_of_nat)

lemma card_lessThan_word: "card {..< n :: 'a::len word} = unat n"
proof -
  have "k \<in> unat ` {..< n}" if "k < unat n" for k
  proof -
    have "k < 2 ^ LENGTH('a)" using that unsigned_less [of n] by (rule less_trans)
    then have k: "unat (of_nat k :: 'a word) = k" by (rule unat_of_nat_less)
    then have "of_nat k < n" using that by (simp only: word_less_nat_alt)
    with k show ?thesis by (metis image_eqI lessThan_iff)
  qed
  then have "unat ` {..< n} = {..< unat n}" by (auto simp only: word_less_nat_alt)
  moreover have "card (unat ` {..< n}) = card {..< n}"
    by (intro card_image inj_onI) (rule word_unat_eq_iff [THEN iffD2])
  ultimately show ?thesis by simp
qed

end
