(* ===== verification/Bootinfo.thy ===== *)
theory Bootinfo
  imports Prelude
begin

text \<open>
  The boot information block that the loader hands to the kernel
  (\<^verbatim>\<open>include/os/bootinfo.h\<close>): the structures, the UEFI memory types and the constants of
  the memory layout.  The loader's memory map is an array of descriptors in memory;
  \<open>memory_map\<close> gives the descriptor stored at a byte offset of that array.
\<close>

definition OS_EARLY_DIRECT_MAP_SIZE :: u64 where
  "OS_EARLY_DIRECT_MAP_SIZE = 64 * 1024 * 1024 * 1024"

definition OS_PAGE_SIZE :: u64 where
  "OS_PAGE_SIZE = 4096"

record os_framebuffer_info =
  fb_base :: u64
  fb_width :: u32
  fb_height :: u32
  fb_pixels_per_scanline :: u32
  fb_format :: u32
  fb_red_mask :: u32
  fb_green_mask :: u32
  fb_blue_mask :: u32
  fb_reserved_mask :: u32

record os_uefi_memory_descriptor =
  md_type :: u32
  md_pad :: u32
  md_physical_start :: u64
  md_virtual_start :: u64
  md_number_of_pages :: u64
  md_attribute :: u64

definition OS_EFI_LOADER_CODE :: u32 where "OS_EFI_LOADER_CODE = 1"
definition OS_EFI_LOADER_DATA :: u32 where "OS_EFI_LOADER_DATA = 2"
definition OS_EFI_BOOT_SERVICES_CODE :: u32 where "OS_EFI_BOOT_SERVICES_CODE = 3"
definition OS_EFI_BOOT_SERVICES_DATA :: u32 where "OS_EFI_BOOT_SERVICES_DATA = 4"
definition OS_EFI_CONVENTIONAL_MEMORY :: u32 where "OS_EFI_CONVENTIONAL_MEMORY = 7"

lemmas efi_type_defs = OS_EFI_LOADER_CODE_def OS_EFI_LOADER_DATA_def
  OS_EFI_BOOT_SERVICES_CODE_def OS_EFI_BOOT_SERVICES_DATA_def OS_EFI_CONVENTIONAL_MEMORY_def

record os_boot_info =
  bi_magic :: u64
  bi_version :: u32
  bi_size :: u32
  bi_flags :: u64
  bi_rsdp :: u64
  memory_map :: "u64 \<Rightarrow> os_uefi_memory_descriptor"
  memory_map_size :: u64
  memory_descriptor_size :: u64
  memory_descriptor_version :: u32
  bi_reserved0 :: u32
  framebuffer :: os_framebuffer_info
  kernel_phys_start :: u64
  kernel_phys_end :: u64
  kernel_virt_start :: u64
  kernel_virt_end :: u64
  direct_map_base :: u64
  bi_direct_map_size :: u64
  page_table_root :: u64

end
