(* ===== verification/Pmm.thy ===== *)
theory Pmm
  imports Bootinfo
begin

text \<open>
  The physical page allocator (\<^verbatim>\<open>kernel/mem/pmm.c\<close>): one bit per 4 KiB page of the first
  64 GiB, set when the page is in use, and a counter of the free pages.

  The spin lock of the C code makes each public operation one atomic step; the lock itself
  is the subject of another theory.  The bitmap is indexed by word number, as the C array is.
\<close>

subsection \<open>Model\<close>

definition PMM_MAX_PHYS_BYTES :: u64 where
  "PMM_MAX_PHYS_BYTES = OS_EARLY_DIRECT_MAP_SIZE"

definition PMM_MAX_PAGES :: u64 where
  "PMM_MAX_PAGES = PMM_MAX_PHYS_BYTES div OS_PAGE_SIZE"

definition BITMAP_WORD_BITS :: u64 where
  "BITMAP_WORD_BITS = 64"

definition PMM_BITMAP_WORDS :: u64 where
  "PMM_BITMAP_WORDS = PMM_MAX_PAGES div BITMAP_WORD_BITS"

definition PMM_ALLOC_FAILED :: u64 where
  "PMM_ALLOC_FAILED = - 1"

record pmm =
  pmm_bitmap :: "u64 \<Rightarrow> u64"
  pmm_total :: u64
  pmm_free :: u64

definition bitmap_set :: "u64 \<Rightarrow> pmm \<Rightarrow> pmm" where
  "bitmap_set page s =
     s\<lparr>pmm_bitmap := (pmm_bitmap s)(page div BITMAP_WORD_BITS :=
       pmm_bitmap s (page div BITMAP_WORD_BITS) OR push_bit (unat (page mod BITMAP_WORD_BITS)) 1)\<rparr>"

definition bitmap_clear :: "u64 \<Rightarrow> pmm \<Rightarrow> pmm" where
  "bitmap_clear page s =
     s\<lparr>pmm_bitmap := (pmm_bitmap s)(page div BITMAP_WORD_BITS :=
       pmm_bitmap s (page div BITMAP_WORD_BITS) AND
         NOT (push_bit (unat (page mod BITMAP_WORD_BITS)) 1))\<rparr>"

definition bitmap_test :: "u64 \<Rightarrow> pmm \<Rightarrow> bool" where
  "bitmap_test page s \<longleftrightarrow>
     (pmm_bitmap s (page div BITMAP_WORD_BITS) AND
        push_bit (unat (page mod BITMAP_WORD_BITS)) 1) \<noteq> 0"

text \<open>The loop of \<open>mark_range_free\<close>: clears the set bits of \<open>[page, last_page)\<close>.\<close>

function mark_free_loop :: "u64 \<Rightarrow> u64 \<Rightarrow> pmm \<Rightarrow> pmm" where
  "mark_free_loop page last_page s =
     (if page < last_page then
        mark_free_loop (page + 1) last_page
          (if bitmap_test page s
           then (bitmap_clear page s)\<lparr>pmm_free := pmm_free s + 1\<rparr> else s)
      else s)"
  by pat_completeness auto
termination
  by (relation "measure (\<lambda>(p, l, s). unat (l - p))") (auto intro: word_loop)

definition mark_range_free :: "u64 \<Rightarrow> u64 \<Rightarrow> pmm \<Rightarrow> pmm" where
  "mark_range_free start stop s =
     (if PMM_MAX_PHYS_BYTES \<le> start then s
      else
        let stop = (if PMM_MAX_PHYS_BYTES < stop then PMM_MAX_PHYS_BYTES else stop);
            first_page = (start + OS_PAGE_SIZE - 1) div OS_PAGE_SIZE;
            last_page = stop div OS_PAGE_SIZE
        in mark_free_loop first_page last_page s)"

function mark_used_loop :: "u64 \<Rightarrow> u64 \<Rightarrow> pmm \<Rightarrow> pmm" where
  "mark_used_loop page last_page s =
     (if page < last_page then
        mark_used_loop (page + 1) last_page
          (if \<not> bitmap_test page s
           then (bitmap_set page s)\<lparr>pmm_free := pmm_free s - 1\<rparr> else s)
      else s)"
  by pat_completeness auto
termination
  by (relation "measure (\<lambda>(p, l, s). unat (l - p))") (auto intro: word_loop)

definition mark_range_used :: "u64 \<Rightarrow> u64 \<Rightarrow> pmm \<Rightarrow> pmm" where
  "mark_range_used start stop s =
     (if PMM_MAX_PHYS_BYTES \<le> start then s
      else
        let stop = (if PMM_MAX_PHYS_BYTES < stop then PMM_MAX_PHYS_BYTES else stop);
            first_page = start div OS_PAGE_SIZE;
            last_page = (stop + OS_PAGE_SIZE - 1) div OS_PAGE_SIZE
        in mark_used_loop first_page last_page s)"

definition desc_usable :: "os_uefi_memory_descriptor \<Rightarrow> bool" where
  "desc_usable desc \<longleftrightarrow>
     md_type desc = OS_EFI_CONVENTIONAL_MEMORY \<or>
     md_type desc = OS_EFI_LOADER_CODE \<or>
     md_type desc = OS_EFI_BOOT_SERVICES_CODE \<or>
     md_type desc = OS_EFI_BOOT_SERVICES_DATA"

text \<open>
  The walk over the loader's memory map.  It is a partial function: with a descriptor size
  of 0 the C loop never leaves the first descriptor.
\<close>

partial_function (option) pmm_init_loop :: "os_boot_info \<Rightarrow> u64 \<Rightarrow> pmm \<Rightarrow> pmm option" where
  "pmm_init_loop bi offset s =
     (if offset < memory_map_size bi then
        pmm_init_loop bi (offset + memory_descriptor_size bi)
          (let desc = memory_map bi offset in
           if desc_usable desc then
             let start = md_physical_start desc;
                 stop = start + md_number_of_pages desc * OS_PAGE_SIZE
             in mark_range_free start stop s
           else s)
      else Some s)"

text \<open>\<open>None\<close>: the panic \<^verbatim>\<open>PMM found no free pages\<close>, or a memory map that is never left.\<close>

definition pmm_init :: "os_boot_info \<Rightarrow> pmm option" where
  "pmm_init bi =
     do {
       s \<leftarrow> pmm_init_loop bi 0
             \<lparr>pmm_bitmap = (\<lambda>_. - 1), pmm_total = PMM_MAX_PAGES, pmm_free = 0\<rparr>;
       let s = mark_range_used 0 0x100000 s;
       let s = mark_range_used (kernel_phys_start bi) (kernel_phys_end bi) s;
       let s = mark_range_used (page_table_root bi) (page_table_root bi + OS_PAGE_SIZE) s;
       if pmm_free s = 0 then None else Some s
     }"

text \<open>\<^verbatim>\<open>__builtin_ctzll\<close>: the number of trailing zero bits.\<close>

definition builtin_ctzll :: "u64 \<Rightarrow> u64" where
  "builtin_ctzll w = of_nat (length (takeWhile (\<lambda>n. \<not> bit w n) [0..<64]))"

function pmm_alloc_loop :: "u64 \<Rightarrow> pmm \<Rightarrow> u64 \<times> pmm" where
  "pmm_alloc_loop wd s =
     (if wd < PMM_BITMAP_WORDS then
        if pmm_bitmap s wd = - 1 then pmm_alloc_loop (wd + 1) s
        else
          let b = builtin_ctzll (NOT (pmm_bitmap s wd));
              page = wd * BITMAP_WORD_BITS + b
          in (page * OS_PAGE_SIZE,
              s\<lparr>pmm_bitmap := (pmm_bitmap s)(wd := pmm_bitmap s wd OR push_bit (unat b) 1),
                pmm_free := pmm_free s - 1\<rparr>)
      else (PMM_ALLOC_FAILED, s))"
  by pat_completeness auto
termination
  by (relation "measure (\<lambda>(w, s). unat (PMM_BITMAP_WORDS - w))") (auto intro: word_loop)

definition pmm_alloc_page :: "pmm \<Rightarrow> u64 \<times> pmm" where
  "pmm_alloc_page s = pmm_alloc_loop 0 s"

text \<open>\<open>None\<close>: one of the panics \<^verbatim>\<open>invalid PMM free\<close> and \<^verbatim>\<open>double PMM free\<close>.\<close>

definition pmm_free_page :: "u64 \<Rightarrow> pmm \<Rightarrow> pmm option" where
  "pmm_free_page physical_address s =
     (if physical_address mod OS_PAGE_SIZE \<noteq> 0 \<or> PMM_MAX_PHYS_BYTES \<le> physical_address
      then None
      else
        let page = physical_address div OS_PAGE_SIZE in
        if \<not> bitmap_test page s then None
        else Some ((bitmap_clear page s)\<lparr>pmm_free := pmm_free s + 1\<rparr>))"

definition pmm_total_pages :: "pmm \<Rightarrow> u64" where
  "pmm_total_pages s = pmm_total s"

definition pmm_free_pages :: "pmm \<Rightarrow> u64" where
  "pmm_free_pages s = pmm_free s"

definition pmm_address_in_range :: "u64 \<Rightarrow> bool" where
  "pmm_address_in_range physical_address \<longleftrightarrow> physical_address < PMM_MAX_PHYS_BYTES"

declare mark_free_loop.simps [simp del] mark_used_loop.simps [simp del]
  pmm_alloc_loop.simps [simp del]

lemmas pmm_consts = PMM_MAX_PHYS_BYTES_def PMM_MAX_PAGES_def BITMAP_WORD_BITS_def
  PMM_BITMAP_WORDS_def OS_PAGE_SIZE_def OS_EARLY_DIRECT_MAP_SIZE_def

lemma PMM_MAX_PAGES_eq: "PMM_MAX_PAGES = 0x1000000"
  by (simp add: pmm_consts)

lemma PMM_BITMAP_WORDS_eq: "PMM_BITMAP_WORDS = 0x40000"
  by (simp add: pmm_consts)

lemma PMM_MAX_PHYS_BYTES_eq: "PMM_MAX_PHYS_BYTES = 0x1000000000"
  by (simp add: pmm_consts)

subsection \<open>The bitmap as a set of pages\<close>

lemma word_div_mod_64_eq:
  fixes p q :: u64
  shows "p div 64 = q div 64 \<and> unat (p mod 64) = unat (q mod 64) \<longleftrightarrow> p = q"
proof
  assume h: "p div 64 = q div 64 \<and> unat (p mod 64) = unat (q mod 64)"
  then have "p mod 64 = q mod 64" by (metis word_unat_eq_iff)
  with h show "p = q" by (metis div_mult_mod_eq)
qed simp

lemma unat_mod_64: "unat (p mod (64::u64)) < 64"
  by (simp add: unat_mod)

lemma and_exp_neq_0:
  fixes w :: u64
  assumes "n < 64"
  shows "(w AND 2 ^ n) \<noteq> 0 \<longleftrightarrow> bit w n"
  using assms by (auto simp: bit_eq_iff [of "w AND 2 ^ n"] bit_simps)

lemma bitmap_test_bit:
  "bitmap_test p s \<longleftrightarrow> bit (pmm_bitmap s (p div 64)) (unat (p mod 64))"
  by (simp add: bitmap_test_def BITMAP_WORD_BITS_def and_exp_neq_0 unat_mod_64)

lemma bitmap_test_set [simp]: "bitmap_test q (bitmap_set p s) \<longleftrightarrow> q = p \<or> bitmap_test q s"
  using word_div_mod_64_eq [of p q] unat_mod_64 [of p] unat_mod_64 [of q]
  by (auto simp: bitmap_test_bit bitmap_set_def BITMAP_WORD_BITS_def bit_simps)

lemma bitmap_test_clear [simp]: "bitmap_test q (bitmap_clear p s) \<longleftrightarrow> q \<noteq> p \<and> bitmap_test q s"
  using word_div_mod_64_eq [of p q] unat_mod_64 [of p] unat_mod_64 [of q]
  by (auto simp: bitmap_test_bit bitmap_clear_def BITMAP_WORD_BITS_def bit_simps)

definition free_set :: "pmm \<Rightarrow> u64 set" where
  "free_set s = {p. p < PMM_MAX_PAGES \<and> \<not> bitmap_test p s}"

definition pmm_inv :: "pmm \<Rightarrow> bool" where
  "pmm_inv s \<longleftrightarrow> pmm_free s = of_nat (card (free_set s)) \<and> pmm_total s = PMM_MAX_PAGES"

lemma finite_free_set [simp]: "finite (free_set s)"
  by simp

lemma card_free_set_le: "card (free_set s) \<le> 0x1000000"
proof -
  have "free_set s \<subseteq> {..< 0x1000000}" by (auto simp: free_set_def PMM_MAX_PAGES_eq)
  then have "card (free_set s) \<le> card {..< (0x1000000 :: u64)}" by (intro card_mono) simp
  then show ?thesis by (simp add: card_lessThan_word)
qed

lemma free_set_clear:
  "p < PMM_MAX_PAGES \<Longrightarrow> free_set (bitmap_clear p s) = insert p (free_set s)"
  by (auto simp: free_set_def)

lemma free_set_set: "free_set (bitmap_set p s) = free_set s - {p}"
  by (auto simp: free_set_def)

lemma bitmap_fields [simp]:
  "pmm_free (bitmap_set p s) = pmm_free s" "pmm_total (bitmap_set p s) = pmm_total s"
  "pmm_free (bitmap_clear p s) = pmm_free s" "pmm_total (bitmap_clear p s) = pmm_total s"
  by (simp_all add: bitmap_set_def bitmap_clear_def)

lemma bitmap_test_free_upd [simp]: "bitmap_test p (s\<lparr>pmm_free := n\<rparr>) = bitmap_test p s"
  by (simp add: bitmap_test_def)

lemma free_set_free_upd [simp]: "free_set (s\<lparr>pmm_free := n\<rparr>) = free_set s"
  by (simp add: free_set_def)

lemma pmm_inv_clear:
  assumes "pmm_inv s" "bitmap_test p s" "p < PMM_MAX_PAGES"
  shows "pmm_inv ((bitmap_clear p s)\<lparr>pmm_free := pmm_free s + 1\<rparr>)"
  using assms by (simp add: pmm_inv_def free_set_clear card_insert_if) (simp add: free_set_def)

lemma pmm_inv_set:
  assumes "pmm_inv s" "p \<in> free_set s"
  shows "pmm_inv ((bitmap_set p s)\<lparr>pmm_free := pmm_free s - 1\<rparr>)"
proof -
  have "card (free_set s) = Suc (card (free_set s - {p}))"
    by (rule card.remove [OF finite_free_set assms(2)])
  then show ?thesis using assms(1) by (simp add: pmm_inv_def free_set_set)
qed

subsection \<open>Ranges\<close>

lemma mark_free_loop_spec:
  assumes "pmm_inv s" "l \<le> PMM_MAX_PAGES"
  shows "pmm_inv (mark_free_loop p l s) \<and>
    free_set (mark_free_loop p l s) = free_set s \<union> {p ..< l}"
  using assms
proof (induction p l s rule: mark_free_loop.induct)
  case (1 p l s)
  let ?s = "if bitmap_test p s then (bitmap_clear p s)\<lparr>pmm_free := pmm_free s + 1\<rparr> else s"
  show ?case
  proof (cases "p < l")
    case True
    then have m: "p < PMM_MAX_PAGES" using "1.prems" by simp
    have "pmm_inv ?s" using m "1.prems" by (simp add: pmm_inv_clear)
    moreover have "free_set ?s = insert p (free_set s)"
      using m by (auto simp: free_set_clear) (auto simp: free_set_def)
    moreover have "mark_free_loop p l s = mark_free_loop (p + 1) l ?s"
      using True by (subst mark_free_loop.simps) simp
    ultimately show ?thesis
      using "1.IH" [OF True] "1.prems" atLeastLessThan_Suc_word [OF True] by auto
  next
    case False
    then show ?thesis using "1.prems" by (simp add: mark_free_loop.simps [of p l s])
  qed
qed


lemma mark_used_loop_spec:
  assumes "pmm_inv s" "l \<le> PMM_MAX_PAGES"
  shows "pmm_inv (mark_used_loop p l s) \<and>
    free_set (mark_used_loop p l s) = free_set s - {p ..< l}"
  using assms
proof (induction p l s rule: mark_used_loop.induct)
  case (1 p l s)
  let ?s = "if \<not> bitmap_test p s then (bitmap_set p s)\<lparr>pmm_free := pmm_free s - 1\<rparr> else s"
  show ?case
  proof (cases "p < l")
    case True
    then have m: "p < PMM_MAX_PAGES" using "1.prems" by simp
    have "pmm_inv ?s" using m "1.prems" by (simp add: pmm_inv_set free_set_def)
    moreover have "free_set ?s = free_set s - {p}"
      using m by (auto simp: free_set_set) (auto simp: free_set_def)
    moreover have "mark_used_loop p l s = mark_used_loop (p + 1) l ?s"
      using True by (subst mark_used_loop.simps) simp
    ultimately show ?thesis
      using "1.IH" [OF True] "1.prems" atLeastLessThan_Suc_word [OF True] by auto
  next
    case False
    then show ?thesis using "1.prems" by (simp add: mark_used_loop.simps [of p l s])
  qed
qed

definition page_within :: "u64 \<Rightarrow> u64 \<Rightarrow> u64 \<Rightarrow> bool" where
  "page_within p start stop \<longleftrightarrow>
     unat start \<le> 4096 * unat p \<and> 4096 * unat p + 4096 \<le> unat stop"

definition page_meets :: "u64 \<Rightarrow> u64 \<Rightarrow> u64 \<Rightarrow> bool" where
  "page_meets p start stop \<longleftrightarrow>
     unat start < 4096 * unat p + 4096 \<and> 4096 * unat p < unat stop"

lemma unat_round_up:
  fixes x :: u64
  assumes "unat x \<le> 0x1000000000"
  shows "unat ((x + 4096 - 1) div 4096) = (unat x + 4095) div 4096"
proof -
  have eq: "x + 4096 - 1 = x + 4095" by simp
  have "unat (x + 4095) = unat x + 4095"
    using assms by (subst unat_add_lem [THEN iffD1]) simp_all
  then show ?thesis unfolding eq by (simp add: unat_div)
qed

lemma div_page_simps:
  fixes x p :: nat
  shows "(x + 4095) div 4096 \<le> p \<longleftrightarrow> x \<le> 4096 * p"
    and "p < x div 4096 \<longleftrightarrow> 4096 * p + 4096 \<le> x"
    and "x div 4096 \<le> p \<longleftrightarrow> x < 4096 * p + 4096"
    and "p < (x + 4095) div 4096 \<longleftrightarrow> 4096 * p < x"
  by linarith+

lemma mark_range_free_spec:
  assumes "pmm_inv s"
  shows "pmm_inv (mark_range_free start stop s) \<and>
    free_set (mark_range_free start stop s) =
      free_set s \<union> {p. p < PMM_MAX_PAGES \<and> page_within p start stop}"
proof (cases "PMM_MAX_PHYS_BYTES \<le> start")
  case True
  then have "\<not> page_within p start stop" if "p < PMM_MAX_PAGES" for p
    using that by (auto simp: page_within_def PMM_MAX_PHYS_BYTES_eq PMM_MAX_PAGES_eq
        word_le_nat_alt word_less_nat_alt)
  with True assms show ?thesis by (auto simp: mark_range_free_def)
next
  case False
  define e where "e = (if PMM_MAX_PHYS_BYTES < stop then PMM_MAX_PHYS_BYTES else stop)"
  have e: "unat e = min 0x1000000000 (unat stop)"
    by (simp add: e_def PMM_MAX_PHYS_BYTES_eq word_less_nat_alt min_def)
  have st: "unat start < 0x1000000000"
    using False by (simp add: PMM_MAX_PHYS_BYTES_eq word_le_nat_alt)
  let ?f = "(start + 4096 - 1) div 4096" and ?l = "e div 4096"
  have f: "unat ?f = (unat start + 4095) div 4096" using st by (intro unat_round_up) simp
  have l: "unat ?l = unat e div 4096" by (simp add: unat_div)
  have "?l \<le> PMM_MAX_PAGES" using l e by (simp add: word_le_nat_alt PMM_MAX_PAGES_eq)
  moreover have "{?f ..< ?l} = {p. p < PMM_MAX_PAGES \<and> page_within p start stop}"
    unfolding set_eq_iff atLeastLessThan_iff mem_Collect_eq word_le_nat_alt word_less_nat_alt
      page_within_def f l div_page_simps e PMM_MAX_PAGES_eq by auto
  ultimately show ?thesis
    using mark_free_loop_spec [OF assms, of ?l ?f] False
    by (simp add: mark_range_free_def Let_def OS_PAGE_SIZE_def flip: e_def)
qed

lemma mark_range_used_spec:
  assumes "pmm_inv s"
  shows "pmm_inv (mark_range_used start stop s) \<and>
    free_set (mark_range_used start stop s) = free_set s - {p. page_meets p start stop}"
proof (cases "PMM_MAX_PHYS_BYTES \<le> start")
  case True
  then have "\<not> page_meets p start stop" if "p \<in> free_set s" for p
    using that by (auto simp: page_meets_def PMM_MAX_PHYS_BYTES_eq PMM_MAX_PAGES_eq free_set_def
        word_le_nat_alt word_less_nat_alt)
  with True assms show ?thesis by (auto simp: mark_range_used_def)
next
  case False
  define e where "e = (if PMM_MAX_PHYS_BYTES < stop then PMM_MAX_PHYS_BYTES else stop)"
  have e: "unat e = min 0x1000000000 (unat stop)"
    by (simp add: e_def PMM_MAX_PHYS_BYTES_eq word_less_nat_alt min_def)
  have st: "unat start < 0x1000000000"
    using False by (simp add: PMM_MAX_PHYS_BYTES_eq word_le_nat_alt)
  let ?f = "start div 4096" and ?l = "(e + 4096 - 1) div 4096"
  have f: "unat ?f = unat start div 4096" by (simp add: unat_div)
  have l: "unat ?l = (unat e + 4095) div 4096" using e by (intro unat_round_up) simp
  have "?l \<le> PMM_MAX_PAGES" using l e by (simp add: word_le_nat_alt PMM_MAX_PAGES_eq)
  moreover have "p \<in> {?f ..< ?l} \<longleftrightarrow> page_meets p start stop" if "p < PMM_MAX_PAGES" for p
    using that st
    unfolding atLeastLessThan_iff word_le_nat_alt word_less_nat_alt
      page_meets_def f l div_page_simps e PMM_MAX_PAGES_eq by auto
  then have "free_set s - {?f ..< ?l} = free_set s - {p. page_meets p start stop}"
    by (auto simp: free_set_def)
  ultimately show ?thesis
    using mark_used_loop_spec [OF assms, of ?l ?f] False
    by (simp add: mark_range_used_def Let_def OS_PAGE_SIZE_def flip: e_def)
qed


subsection \<open>Allocation and release\<close>

lemma builtin_ctzll_NOT:
  fixes w :: u64
  assumes "w \<noteq> - 1"
  defines "k \<equiv> unat (builtin_ctzll (NOT w))"
  shows "k < 64" "\<not> bit w k" "i < k \<Longrightarrow> bit w i"
proof -
  let ?t = "takeWhile (\<lambda>n. \<not> bit (NOT w) n) [0..<64]"
  obtain n where n: "n < 64" "\<not> bit w n"
    using assms(1) by (auto simp: bit_eq_iff [of w] bit_simps)
  then have "?t \<noteq> [0..<64]"
    by (auto simp: takeWhile_eq_all_conv bit_not_iff)
  then have lt: "length ?t < 64"
    using length_takeWhile_le [of _ "[0..<64]"] takeWhile_eq_take by (metis diff_zero le_neq_implies_less length_upt take_all_iff order_refl)
  then have k: "k = length ?t"
    by (simp add: k_def builtin_ctzll_def unat_of_nat)
  with lt show "k < 64" by simp
  have "\<not> \<not> bit (NOT w) ([0..<64] ! length ?t)"
    using nth_length_takeWhile [of "\<lambda>n. \<not> bit (NOT w) n" "[0..<64]"] lt by simp
  then show "\<not> bit w k" using lt k by (simp add: bit_not_iff)
  show "bit w i" if "i < k"
  proof -
    have "?t ! i = i" using that k lt by (simp add: takeWhile_nth)
    then have "\<not> bit (NOT w) i"
      using that k nth_mem [of i ?t] set_takeWhileD by metis
    then show ?thesis using that k lt by (simp add: bit_not_iff)
  qed
qed

lemma page_div_mod:
  fixes wd b :: u64
  assumes "wd < PMM_BITMAP_WORDS" "unat b < 64"
  shows "unat (wd * 64 + b) = unat wd * 64 + unat b"
    "(wd * 64 + b) div 64 = wd" "(wd * 64 + b) mod 64 = b" "wd * 64 + b < PMM_MAX_PAGES"
proof -
  have w: "unat wd < 0x40000" using assms(1) by (simp add: PMM_BITMAP_WORDS_eq word_less_nat_alt)
  have m: "unat (wd * 64) = unat wd * 64" using w by (subst unat_mult_lem [THEN iffD1]) simp_all
  show u: "unat (wd * 64 + b) = unat wd * 64 + unat b"
    using w assms(2) m by (subst unat_add_lem [THEN iffD1]) simp_all
  show "(wd * 64 + b) div 64 = wd" "(wd * 64 + b) mod 64 = b"
    using assms(2) by (simp_all only: word_unat_eq_iff unat_div unat_mod u) simp_all
  show "wd * 64 + b < PMM_MAX_PAGES"
    using w assms(2) by (simp only: word_less_nat_alt u PMM_MAX_PAGES_eq) simp
qed

lemma pmm_alloc_loop_spec:
  assumes "\<And>p. p div 64 < wd \<Longrightarrow> bitmap_test p s"
  shows "if free_set s = {} then pmm_alloc_loop wd s = (PMM_ALLOC_FAILED, s)
    else \<exists>p \<in> free_set s. (\<forall>q \<in> free_set s. p \<le> q) \<and>
      pmm_alloc_loop wd s = (p * OS_PAGE_SIZE, (bitmap_set p s)\<lparr>pmm_free := pmm_free s - 1\<rparr>)"
  using assms
proof (induction wd s rule: pmm_alloc_loop.induct)
  case (1 wd s)
  show ?case
  proof (cases "wd < PMM_BITMAP_WORDS")
    case False
    have "p div 64 < PMM_BITMAP_WORDS" if "p < PMM_MAX_PAGES" for p
      using that by (simp add: PMM_MAX_PAGES_eq PMM_BITMAP_WORDS_eq word_less_nat_alt unat_div)
    with False 1(2) have "free_set s = {}"
      by (auto simp: free_set_def) (meson not_le order_less_le_trans)
    with False show ?thesis by (simp add: pmm_alloc_loop.simps [of wd s])
  next
    case True
    show ?thesis
    proof (cases "pmm_bitmap s wd = - 1")
      case full: True
      have "bitmap_test p s" if "p div 64 < wd + 1" for p
      proof (cases "p div 64 < wd")
        case False
        then have "p div 64 = wd"
          using that unat_Suc_of_less [OF True] by (simp add: word_less_nat_alt word_unat_eq_iff)
        then show ?thesis using full unat_mod_64 by (simp add: bitmap_test_bit)
      qed (rule 1(2))
      with 1(1) [OF True full] True full show ?thesis
        by (simp add: pmm_alloc_loop.simps [of wd s])
    next
      case free: False
      define b where "b = builtin_ctzll (NOT (pmm_bitmap s wd))"
      note ctz = builtin_ctzll_NOT [OF free, folded b_def]
      note pg = page_div_mod [OF True ctz(1)]
      let ?p = "wd * 64 + b"
      have "?p \<in> free_set s" using pg ctz(2) by (simp add: free_set_def bitmap_test_bit)
      moreover have "?p \<le> q" if q: "q \<in> free_set s" for q
      proof (rule ccontr)
        assume "\<not> ?p \<le> q"
        then have lt: "unat q < unat wd * 64 + unat b"
          using pg(1) by (simp only: word_le_nat_alt not_le)
        have nt: "\<not> bitmap_test q s" using q by (simp add: free_set_def)
        then have "\<not> q div 64 < wd" using 1(2) by blast
        then have "\<not> unat q div 64 < unat wd" by (simp add: word_less_nat_alt unat_div)
        then have "unat q div 64 = unat wd \<and> unat q mod 64 < unat b"
          using lt ctz(1) div_mult_mod_eq [of "unat q" 64] by linarith
        then have d: "q div 64 = wd" and m: "unat (q mod 64) < unat b"
          by (simp_all add: word_unat_eq_iff unat_div unat_mod)
        from ctz(3) [OF m] d nt show False by (simp add: bitmap_test_bit)
      qed
      moreover have "pmm_alloc_loop wd s =
          (?p * OS_PAGE_SIZE, (bitmap_set ?p s)\<lparr>pmm_free := pmm_free s - 1\<rparr>)"
        using True free pg
        by (simp add: pmm_alloc_loop.simps [of wd s] Let_def BITMAP_WORD_BITS_def bitmap_set_def
            flip: b_def)
      ultimately show ?thesis by auto
    qed
  qed
qed


lemma page_addr:
  assumes "p < PMM_MAX_PAGES"
  shows "unat (p * OS_PAGE_SIZE) = 4096 * unat p" "p * OS_PAGE_SIZE mod OS_PAGE_SIZE = 0"
    "p * OS_PAGE_SIZE div OS_PAGE_SIZE = p" "p * OS_PAGE_SIZE < PMM_MAX_PHYS_BYTES"
    "p * OS_PAGE_SIZE \<noteq> PMM_ALLOC_FAILED"
proof -
  have p: "unat p < 0x1000000" using assms by (simp add: PMM_MAX_PAGES_eq word_less_nat_alt)
  show u: "unat (p * OS_PAGE_SIZE) = 4096 * unat p"
    using p by (subst unat_mult_lem [THEN iffD1]) (simp_all add: OS_PAGE_SIZE_def)
  show "p * OS_PAGE_SIZE mod OS_PAGE_SIZE = 0" "p * OS_PAGE_SIZE div OS_PAGE_SIZE = p"
    by (simp_all only: word_unat_eq_iff unat_div unat_mod u) (simp_all add: OS_PAGE_SIZE_def)
  show lt: "p * OS_PAGE_SIZE < PMM_MAX_PHYS_BYTES"
    using p by (simp only: word_less_nat_alt u PMM_MAX_PHYS_BYTES_eq) simp
  show "p * OS_PAGE_SIZE \<noteq> PMM_ALLOC_FAILED"
    using lt by (auto simp: PMM_ALLOC_FAILED_def PMM_MAX_PHYS_BYTES_eq)
qed

lemma page_of_addr: "a < PMM_MAX_PHYS_BYTES \<Longrightarrow> a div OS_PAGE_SIZE < PMM_MAX_PAGES"
  unfolding PMM_MAX_PAGES_eq PMM_MAX_PHYS_BYTES_eq OS_PAGE_SIZE_def word_less_nat_alt unat_div
  by (rule less_mult_imp_div_less) simp

text \<open>The free pages by address, and the invariant-preserving view of the two operations.\<close>

definition avail :: "pmm \<Rightarrow> u64 set" where
  "avail s = {a. a < PMM_MAX_PHYS_BYTES \<and> a mod OS_PAGE_SIZE = 0 \<and>
     \<not> bitmap_test (a div OS_PAGE_SIZE) s}"

lemma avail_eq: "avail s = (\<lambda>p. p * OS_PAGE_SIZE) ` free_set s"
proof
  show "(\<lambda>p. p * OS_PAGE_SIZE) ` free_set s \<subseteq> avail s"
    by (auto simp: avail_def free_set_def page_addr)
  show "avail s \<subseteq> (\<lambda>p. p * OS_PAGE_SIZE) ` free_set s"
  proof
    fix a assume a: "a \<in> avail s"
    then have "a = (a div OS_PAGE_SIZE) * OS_PAGE_SIZE"
      using div_mult_mod_eq [of a OS_PAGE_SIZE] by (simp add: avail_def)
    moreover have "a div OS_PAGE_SIZE \<in> free_set s"
      using a by (simp add: avail_def free_set_def page_of_addr)
    ultimately show "a \<in> (\<lambda>p. p * OS_PAGE_SIZE) ` free_set s" by (rule image_eqI)
  qed
qed

lemma pmm_alloc_page_none:
  "avail s = {} \<Longrightarrow> pmm_alloc_page s = (PMM_ALLOC_FAILED, s)"
  using pmm_alloc_loop_spec [of 0 s] by (simp add: pmm_alloc_page_def avail_eq)

lemma inj_on_page_addr: "inj_on (\<lambda>p. p * OS_PAGE_SIZE) (free_set s)"
  by (rule inj_on_inverseI [where g = "\<lambda>a. a div OS_PAGE_SIZE"])
    (simp add: free_set_def page_addr)

lemma pmm_alloc_page_some:
  assumes "avail s \<noteq> {}"
  obtains p where "p \<in> free_set s" "\<And>q. q \<in> free_set s \<Longrightarrow> p \<le> q"
    "pmm_alloc_page s = (p * OS_PAGE_SIZE, (bitmap_set p s)\<lparr>pmm_free := pmm_free s - 1\<rparr>)"
    "p * OS_PAGE_SIZE \<in> avail s" "p * OS_PAGE_SIZE \<noteq> PMM_ALLOC_FAILED"
    "avail ((bitmap_set p s)\<lparr>pmm_free := pmm_free s - 1\<rparr>) = avail s - {p * OS_PAGE_SIZE}"
proof -
  from assms have "free_set s \<noteq> {}" by (simp add: avail_eq)
  with pmm_alloc_loop_spec [of 0 s] obtain p where p: "p \<in> free_set s"
    "\<And>q. q \<in> free_set s \<Longrightarrow> p \<le> q"
    "pmm_alloc_page s = (p * OS_PAGE_SIZE, (bitmap_set p s)\<lparr>pmm_free := pmm_free s - 1\<rparr>)"
    by (auto simp: pmm_alloc_page_def)
  moreover have "avail ((bitmap_set p s)\<lparr>pmm_free := pmm_free s - 1\<rparr>) = avail s - {p * OS_PAGE_SIZE}"
    using inj_on_image_set_diff [OF inj_on_page_addr [of s], where A = "free_set s" and B = "{p}"] p(1)
    by (simp add: avail_eq free_set_set)
  moreover have "p * OS_PAGE_SIZE \<noteq> PMM_ALLOC_FAILED"
    using p(1) by (simp add: free_set_def page_addr)
  ultimately show ?thesis using that p(1) by (simp add: avail_eq)
qed

lemma pmm_free_page_ok:
  assumes "pmm_inv s" "a < PMM_MAX_PHYS_BYTES" "a mod OS_PAGE_SIZE = 0" "a \<notin> avail s"
  obtains s' where "pmm_free_page a s = Some s'" "pmm_inv s'" "avail s' = insert a (avail s)"
proof -
  let ?p = "a div OS_PAGE_SIZE"
  let ?s = "(bitmap_clear ?p s)\<lparr>pmm_free := pmm_free s + 1\<rparr>"
  have a: "?p * OS_PAGE_SIZE = a"
    using assms(3) div_mult_mod_eq [of a OS_PAGE_SIZE] by simp
  have p: "?p < PMM_MAX_PAGES"
    using assms(2) by (rule page_of_addr)
  have t: "bitmap_test ?p s" using assms(2-4) by (simp add: avail_def)
  have "avail ?s = insert a (avail s)"
    using p a by (simp add: avail_eq free_set_clear)
  then show ?thesis
    using that [of ?s] assms(1-3) t p by (simp add: pmm_free_page_def Let_def pmm_inv_clear)
qed


subsection \<open>The interface to the clients of the allocator\<close>

text \<open>
  What the page tables, the heap, the file system and the loader rely on: a set of pages
  on offer, an allocation that takes one of them or fails when there is none, and a
  release that puts a page back and refuses a page that is already on offer.
\<close>

locale page_allocator =
  fixes alloc :: "'s \<Rightarrow> u64 \<times> 's"
    and release :: "u64 \<Rightarrow> 's \<Rightarrow> 's option"
    and pinv :: "'s \<Rightarrow> bool"
    and pages :: "'s \<Rightarrow> u64 set"
    and frames :: "u64 set"
    and failed :: u64
  assumes alloc_empty: "pinv s \<Longrightarrow> pages s = {} \<Longrightarrow> alloc s = (failed, s)"
    and alloc_takes: "pinv s \<Longrightarrow> pages s \<noteq> {} \<Longrightarrow>
      \<exists>a s'. alloc s = (a, s') \<and> a \<in> pages s \<and> pages s' = pages s - {a} \<and> pinv s'"
    and release_gives: "pinv s \<Longrightarrow> a \<in> frames \<Longrightarrow> a \<notin> pages s \<Longrightarrow>
      \<exists>s'. release a s = Some s' \<and> pages s' = insert a (pages s) \<and> pinv s'"
    and release_twice: "a \<in> pages s \<Longrightarrow> release a s = None"
    and pages_frames: "pages s \<subseteq> frames"
    and failed_no_frame: "failed \<notin> frames"
begin

lemma alloc_cases:
  assumes "pinv s"
  obtains (fail) "alloc s = (failed, s)" "pages s = {}"
  | (ok) a s' where "alloc s = (a, s')" "a \<in> pages s" "a \<in> frames" "a \<noteq> failed"
      "pages s' = pages s - {a}" "pinv s'"
  using alloc_empty [OF assms] alloc_takes [OF assms] pages_frames [of s] failed_no_frame
  by (cases "pages s = {}") (simp, blast)

lemma alloc_pinv:
  assumes "pinv s" "alloc s = (a, s')"
  shows "pinv s'"
  using assms(1) by (cases rule: alloc_cases) (use assms in auto)

lemma bounce:
  assumes "pinv s" "alloc s = (a, s')" "a \<noteq> failed"
  obtains s'' where "release a s' = Some s''" "pages s'' = pages s" "pinv s''"
  using assms(1)
proof (cases rule: alloc_cases)
  case fail
  then show ?thesis using assms by simp
next
  case (ok b t)
  then have t: "a = b" "s' = t" using assms by simp_all
  with ok have "a \<in> frames" "a \<notin> pages s'" "pinv s'" by simp_all
  then obtain s'' where "release a s' = Some s''" "pages s'' = insert a (pages s')" "pinv s''"
    using release_gives by blast
  then show ?thesis using that ok t by (simp add: insert_absorb)
qed

lemma alloc_alloc_distinct:
  assumes "pinv s" "alloc s = (a, s')" "alloc s' = (b, s'')" "a \<noteq> failed" "b \<noteq> failed"
  shows "a \<noteq> b"
  using assms(1)
proof (cases rule: alloc_cases)
  case (ok c t)
  then have t: "pages s' = pages s - {a}" "pinv s'" using assms by simp_all
  from t(2) show ?thesis by (cases rule: alloc_cases) (use assms t in auto)
qed (use assms in simp)

end

definition page_frames :: "u64 set" where
  "page_frames = {a. a < PMM_MAX_PHYS_BYTES \<and> a mod OS_PAGE_SIZE = 0}"

interpretation pmm_pages: page_allocator pmm_alloc_page pmm_free_page pmm_inv avail page_frames
  PMM_ALLOC_FAILED
proof
  fix s :: pmm and a :: u64
  show "avail s = {} \<Longrightarrow> pmm_alloc_page s = (PMM_ALLOC_FAILED, s)"
    by (rule pmm_alloc_page_none)
  show "\<exists>a s'. pmm_alloc_page s = (a, s') \<and> a \<in> avail s \<and> avail s' = avail s - {a} \<and> pmm_inv s'"
    if "pmm_inv s" "avail s \<noteq> {}"
    using that(2) by (rule pmm_alloc_page_some) (use that(1) in \<open>auto simp: pmm_inv_set\<close>)
  show "\<exists>s'. pmm_free_page a s = Some s' \<and> avail s' = insert a (avail s) \<and> pmm_inv s'"
    if "pmm_inv s" "a \<in> page_frames" "a \<notin> avail s"
    using that pmm_free_page_ok [of s a] by (auto simp: page_frames_def)
  show "a \<in> avail s \<Longrightarrow> pmm_free_page a s = None"
    by (simp add: avail_def pmm_free_page_def)
  show "avail s \<subseteq> page_frames" unfolding avail_def page_frames_def by blast
  show "PMM_ALLOC_FAILED \<notin> page_frames"
    by (simp add: page_frames_def PMM_ALLOC_FAILED_def PMM_MAX_PHYS_BYTES_eq)
qed

lemma bitmap_clear_set:
  assumes "p \<in> free_set s"
  shows "bitmap_clear p ((bitmap_set p s)\<lparr>pmm_free := n\<rparr>) = s\<lparr>pmm_free := n\<rparr>"
proof -
  let ?w = "p div 64" and ?b = "unat (p mod 64)"
  have "\<not> bit (pmm_bitmap s ?w) ?b" using assms by (simp add: free_set_def bitmap_test_bit)
  then have "(pmm_bitmap s ?w OR 2 ^ ?b) AND NOT (2 ^ ?b) = pmm_bitmap s ?w"
    using unat_mod_64 [of p] by (auto intro!: bit_word_eqI simp: bit_simps)
  then show ?thesis
    by (simp add: bitmap_clear_def bitmap_set_def BITMAP_WORD_BITS_def fun_upd_idem)
qed

text \<open>
  C7: A successful allocation returns the lowest free page, takes exactly that page out of
  the free set and decrements the counter; with no free page the result is
  \<open>PMM_ALLOC_FAILED\<close> and nothing changes.  The counter stays equal to the number of
  clear bits.
\<close>

theorem pmm_alloc_page_correct:
  assumes "pmm_inv s"
  shows "if avail s = {} then pmm_alloc_page s = (PMM_ALLOC_FAILED, s)
    else \<exists>a s'. pmm_alloc_page s = (a, s') \<and> a \<in> avail s \<and> (\<forall>b \<in> avail s. a \<le> b) \<and>
      avail s' = avail s - {a} \<and> pmm_inv s' \<and> pmm_free_pages s' = pmm_free_pages s - 1"
proof (cases "avail s = {}")
  case False
  then obtain p where p: "p \<in> free_set s" "\<And>q. q \<in> free_set s \<Longrightarrow> p \<le> q"
    "pmm_alloc_page s = (p * OS_PAGE_SIZE, (bitmap_set p s)\<lparr>pmm_free := pmm_free s - 1\<rparr>)"
    "p * OS_PAGE_SIZE \<in> avail s" "p * OS_PAGE_SIZE \<noteq> PMM_ALLOC_FAILED"
    "avail ((bitmap_set p s)\<lparr>pmm_free := pmm_free s - 1\<rparr>) = avail s - {p * OS_PAGE_SIZE}"
    by (rule pmm_alloc_page_some) (rule that)
  have "p * OS_PAGE_SIZE \<le> q * OS_PAGE_SIZE" if "q \<in> free_set s" for q
    using p(1) that p(2) [OF that]
    by (simp add: word_le_nat_alt page_addr free_set_def)
  then have "\<forall>b \<in> avail s. p * OS_PAGE_SIZE \<le> b" by (auto simp: avail_eq)
  then show ?thesis
    using False p pmm_inv_set [OF assms p(1)] by (simp add: pmm_free_pages_def)
qed (simp add: pmm_alloc_page_none)

text \<open>
  Releasing the page that an allocation just returned gives back the very state the
  allocation started from.
\<close>

lemma pmm_alloc_free_roundtrip:
  assumes "pmm_inv s" "pmm_alloc_page s = (a, s')" "a \<noteq> PMM_ALLOC_FAILED"
  shows "pmm_free_page a s' = Some s"
proof -
  have "avail s \<noteq> {}" using assms pmm_alloc_page_none by auto
  then obtain p where p: "p \<in> free_set s"
    "pmm_alloc_page s = (p * OS_PAGE_SIZE, (bitmap_set p s)\<lparr>pmm_free := pmm_free s - 1\<rparr>)"
    by (metis pmm_alloc_page_some)
  then have "p < PMM_MAX_PAGES" by (simp add: free_set_def)
  with p assms(2) show ?thesis
    by (auto simp: pmm_free_page_def Let_def page_addr bitmap_clear_set dest: leD)
qed


subsection \<open>Start-up\<close>

definition desc_offsets :: "os_boot_info \<Rightarrow> u64 \<Rightarrow> u64 set" where
  "desc_offsets bi off =
     {d. \<exists>k. unat d = unat off + k * unat (memory_descriptor_size bi)} \<inter> {..< memory_map_size bi}"

definition desc_pages :: "os_uefi_memory_descriptor \<Rightarrow> u64 set" where
  "desc_pages d = {p. p < PMM_MAX_PAGES \<and> desc_usable d \<and>
     page_within p (md_physical_start d)
       (md_physical_start d + md_number_of_pages d * OS_PAGE_SIZE)}"

definition memory_map_ok :: "os_boot_info \<Rightarrow> bool" where
  "memory_map_ok bi \<longleftrightarrow> memory_descriptor_size bi \<noteq> 0 \<and>
     unat (memory_map_size bi) + unat (memory_descriptor_size bi) \<le> 2 ^ 64"

lemma desc_offsets_step:
  assumes "memory_map_ok bi" "off < memory_map_size bi"
  shows "unat (off + memory_descriptor_size bi) = unat off + unat (memory_descriptor_size bi)"
    "desc_offsets bi off = insert off (desc_offsets bi (off + memory_descriptor_size bi))"
proof -
  show u: "unat (off + memory_descriptor_size bi) = unat off + unat (memory_descriptor_size bi)"
    using assms by (subst unat_add_lem [THEN iffD1])
      (simp_all add: memory_map_ok_def word_less_nat_alt)
  have "(\<exists>k. unat d = unat off + k * unat (memory_descriptor_size bi)) \<longleftrightarrow> d = off \<or>
    (\<exists>k. unat d = unat off + unat (memory_descriptor_size bi) +
      k * unat (memory_descriptor_size bi))" for d
  proof
    assume "\<exists>k. unat d = unat off + k * unat (memory_descriptor_size bi)"
    then obtain k where "unat d = unat off + k * unat (memory_descriptor_size bi)" by blast
    then show "d = off \<or> (\<exists>k. unat d = unat off + unat (memory_descriptor_size bi) +
      k * unat (memory_descriptor_size bi))"
      by (cases k) (auto simp: word_unat_eq_iff)
  next
    assume "d = off \<or> (\<exists>k. unat d = unat off + unat (memory_descriptor_size bi) +
      k * unat (memory_descriptor_size bi))"
    then show "\<exists>k. unat d = unat off + k * unat (memory_descriptor_size bi)"
      by (auto intro: exI [of _ 0] exI [of _ "Suc _"])
  qed
  then show "desc_offsets bi off = insert off (desc_offsets bi (off + memory_descriptor_size bi))"
    using assms(2) by (auto simp: desc_offsets_def u)
qed

lemma pmm_init_loop_spec:
  assumes "memory_map_ok bi" "pmm_inv s"
  shows "\<exists>s'. pmm_init_loop bi off s = Some s' \<and> pmm_inv s' \<and>
    free_set s' = free_set s \<union> (\<Union>d \<in> desc_offsets bi off. desc_pages (memory_map bi d))"
  using assms(2)
proof (induction "unat (memory_map_size bi) - unat off" arbitrary: off s rule: less_induct)
  case less
  show ?case
  proof (cases "off < memory_map_size bi")
    case False
    then have "desc_offsets bi off = {}"
      by (auto simp: desc_offsets_def word_less_nat_alt)
    with False less.prems show ?thesis by (simp add: pmm_init_loop.simps [of bi off])
  next
    case True
    let ?d = "memory_map bi off" and ?off = "off + memory_descriptor_size bi"
    define t where "t = (if desc_usable ?d then mark_range_free (md_physical_start ?d)
      (md_physical_start ?d + md_number_of_pages ?d * OS_PAGE_SIZE) s else s)"
    have t: "pmm_inv t" "free_set t = free_set s \<union> desc_pages ?d"
      using less.prems mark_range_free_spec [OF less.prems, of "md_physical_start ?d"]
      by (auto simp: t_def desc_pages_def)
    note step = desc_offsets_step [OF assms(1) True]
    have "0 < unat (memory_descriptor_size bi)"
      using assms(1) by (simp add: memory_map_ok_def unat_gt_0)
    then have "unat (memory_map_size bi) - unat ?off < unat (memory_map_size bi) - unat off"
      using True step(1) by (simp add: word_less_nat_alt)
    note IH = less.hyps [OF this t(1)]
    have "pmm_init_loop bi off s = pmm_init_loop bi ?off t"
      using True by (simp add: pmm_init_loop.simps [of bi off] t_def Let_def)
    with IH show ?thesis using t(2) step(2) by (simp add: Un_assoc)
  qed
qed


lemma card_free_set_0: "pmm_inv s \<Longrightarrow> pmm_free s = 0 \<longleftrightarrow> free_set s = {}"
  using card_free_set_le [of s]
  by (auto simp: pmm_inv_def word_unat_eq_iff unat_of_nat card_eq_0_iff)

text \<open>
  C8: After start-up the free pages are exactly the pages that lie inside a usable range
  of the loader's memory map and meet neither the first mebibyte, nor the kernel image,
  nor the root page table; the counter equals their number.  The only way not to return
  is the panic for an empty set.
\<close>

theorem pmm_init_correct:
  assumes "memory_map_ok bi"
  defines "usable \<equiv> (\<Union>d \<in> desc_offsets bi 0. desc_pages (memory_map bi d))"
    and "reserved \<equiv> {p. page_meets p 0 0x100000 \<or>
           page_meets p (kernel_phys_start bi) (kernel_phys_end bi) \<or>
           page_meets p (page_table_root bi) (page_table_root bi + OS_PAGE_SIZE)}"
  shows "if usable - reserved = {} then pmm_init bi = None
    else \<exists>s. pmm_init bi = Some s \<and> pmm_inv s \<and> free_set s = usable - reserved"
proof -
  let ?s0 = "\<lparr>pmm_bitmap = (\<lambda>_. - 1), pmm_total = PMM_MAX_PAGES, pmm_free = 0\<rparr>"
  have "free_set ?s0 = {}" using unat_mod_64 by (auto simp: free_set_def bitmap_test_bit)
  then have "pmm_inv ?s0" by (simp add: pmm_inv_def)
  then obtain s1 where s1: "pmm_init_loop bi 0 ?s0 = Some s1" "pmm_inv s1" "free_set s1 = usable"
    using pmm_init_loop_spec [OF assms(1), of ?s0 0] \<open>free_set ?s0 = {}\<close>
    by (auto simp: usable_def)
  define s2 where "s2 = mark_range_used (page_table_root bi) (page_table_root bi + OS_PAGE_SIZE)
    (mark_range_used (kernel_phys_start bi) (kernel_phys_end bi) (mark_range_used 0 0x100000 s1))"
  have "pmm_inv s2 \<and> free_set s2 = usable - reserved"
    using mark_range_used_spec s1(2,3) by (auto simp: s2_def reserved_def)
  moreover have "pmm_init bi = (if pmm_free s2 = 0 then None else Some s2)"
    by (simp add: pmm_init_def s1 s2_def)
  ultimately show ?thesis using card_free_set_0 [of s2] by auto
qed


text \<open>
  C9: A release succeeds exactly for the address of a page in use; a misaligned address, an
  address beyond the managed range and a page that is already free all panic.
\<close>

theorem pmm_free_page_correct:
  assumes "pmm_inv s"
  shows "case pmm_free_page a s of
      None \<Rightarrow> a mod OS_PAGE_SIZE \<noteq> 0 \<or> \<not> pmm_address_in_range a \<or> a \<in> avail s
    | Some s' \<Rightarrow> a mod OS_PAGE_SIZE = 0 \<and> pmm_address_in_range a \<and> a \<notin> avail s \<and>
        avail s' = insert a (avail s) \<and> pmm_inv s' \<and>
        pmm_free_pages s' = pmm_free_pages s + 1"
proof (cases "a \<in> page_frames \<and> a \<notin> avail s")
  case True
  then obtain s' where "pmm_free_page a s = Some s'" "avail s' = insert a (avail s)" "pmm_inv s'"
    using pmm_pages.release_gives [OF assms] by blast
  moreover from this have "pmm_free s' = pmm_free s + 1"
    by (auto simp: pmm_free_page_def Let_def split: if_splits)
  ultimately show ?thesis
    using True by (simp add: page_frames_def pmm_address_in_range_def pmm_free_pages_def)
next
  case False
  then have "pmm_free_page a s = None"
    by (auto simp: page_frames_def avail_def pmm_free_page_def Let_def)
  then show ?thesis using False by (auto simp: page_frames_def pmm_address_in_range_def)
qed


subsection \<open>Instances\<close>

text \<open>A machine with one free page, number 3, and a small machine at start-up.\<close>

definition pmm_ex :: pmm where
  "pmm_ex = (bitmap_clear 3
     \<lparr>pmm_bitmap = (\<lambda>_. - 1), pmm_total = PMM_MAX_PAGES, pmm_free = 0\<rparr>)\<lparr>pmm_free := 1\<rparr>"

lemma free_set_full: "free_set \<lparr>pmm_bitmap = (\<lambda>_. - 1), pmm_total = t, pmm_free = n\<rparr> = {}"
  using unat_mod_64 by (auto simp: free_set_def bitmap_test_bit)

lemma pmm_ex_free_set: "free_set pmm_ex = {3}"
  by (simp add: pmm_ex_def free_set_clear free_set_full PMM_MAX_PAGES_eq)

lemma pmm_ex_avail: "avail pmm_ex = {0x3000}"
  by (simp add: avail_eq pmm_ex_free_set OS_PAGE_SIZE_def)

lemma pmm_ex_inv: "pmm_inv pmm_ex"
  by (simp add: pmm_inv_def pmm_ex_free_set) (simp add: pmm_ex_def)

definition boot_info_ex :: os_boot_info where
  "boot_info_ex =
     \<lparr>bi_magic = 0x4f53424f4f54494e, bi_version = 1, bi_size = 0, bi_flags = 0, bi_rsdp = 0,
      memory_map = (\<lambda>_. \<lparr>md_type = 7, md_pad = 0, md_physical_start = 0, md_virtual_start = 0,
        md_number_of_pages = 0x400, md_attribute = 0\<rparr>),
      memory_map_size = 48, memory_descriptor_size = 48, memory_descriptor_version = 1,
      bi_reserved0 = 0,
      framebuffer = \<lparr>fb_base = 0, fb_width = 0, fb_height = 0, fb_pixels_per_scanline = 0,
        fb_format = 0, fb_red_mask = 0, fb_green_mask = 0, fb_blue_mask = 0,
        fb_reserved_mask = 0\<rparr>,
      kernel_phys_start = 0x200000, kernel_phys_end = 0x300000,
      kernel_virt_start = 0xffffffff80000000, kernel_virt_end = 0xffffffff80100000,
      direct_map_base = 0xffff800000000000, bi_direct_map_size = OS_EARLY_DIRECT_MAP_SIZE,
      page_table_root = 0x300000\<rparr>"

theorem pmm_alloc_page_correct_witness:
  "pmm_inv pmm_ex \<and>
   (\<exists>s'. pmm_alloc_page pmm_ex = (0x3000, s') \<and> avail s' = {} \<and> pmm_inv s' \<and>
      pmm_free_pages s' = 0)"
  using pmm_alloc_page_correct [OF pmm_ex_inv] pmm_ex_inv
  by (auto simp: pmm_ex_avail pmm_free_pages_def) (simp add: pmm_ex_def)

theorem pmm_alloc_free_roundtrip_witness:
  "\<exists>a s'. pmm_alloc_page pmm_ex = (a, s') \<and> a \<noteq> PMM_ALLOC_FAILED \<and>
     pmm_free_page a s' = Some pmm_ex"
proof -
  obtain p where "pmm_alloc_page pmm_ex =
      (p * OS_PAGE_SIZE, (bitmap_set p pmm_ex)\<lparr>pmm_free := pmm_free pmm_ex - 1\<rparr>)"
    "p * OS_PAGE_SIZE \<noteq> PMM_ALLOC_FAILED"
    by (rule pmm_alloc_page_some [of pmm_ex]) (simp add: pmm_ex_avail, rule that)
  then show ?thesis using pmm_alloc_free_roundtrip [OF pmm_ex_inv] by blast
qed

theorem pmm_free_page_correct_witness:
  "pmm_inv pmm_ex \<and> pmm_free_page 0x3000 pmm_ex = None \<and> pmm_free_page 0x4001 pmm_ex = None \<and>
   (\<exists>s'. pmm_free_page 0x4000 pmm_ex = Some s' \<and> avail s' = {0x4000, 0x3000})"
proof -
  note c = pmm_free_page_correct [OF pmm_ex_inv]
  have "pmm_free_page 0x3000 pmm_ex = None"
    using c [of "0x3000"] by (cases "pmm_free_page 0x3000 pmm_ex") (auto simp: pmm_ex_avail)
  moreover have "pmm_free_page 0x4001 pmm_ex = None"
    using c [of "0x4001"] by (cases "pmm_free_page 0x4001 pmm_ex") (auto simp: OS_PAGE_SIZE_def)
  moreover have "\<exists>s'. pmm_free_page 0x4000 pmm_ex = Some s' \<and> avail s' = {0x4000, 0x3000}"
    using c [of "0x4000"] by (cases "pmm_free_page 0x4000 pmm_ex")
      (auto simp: pmm_ex_avail OS_PAGE_SIZE_def pmm_address_in_range_def PMM_MAX_PHYS_BYTES_eq)
  ultimately show ?thesis using pmm_ex_inv by blast
qed

theorem pmm_init_correct_witness:
  "memory_map_ok boot_info_ex \<and>
   (\<exists>s. pmm_init boot_info_ex = Some s \<and> pmm_inv s \<and> 0x3f0 \<in> free_set s \<and>
      0x80 \<notin> free_set s \<and> 0x280 \<notin> free_set s)"
proof -
  have ok: "memory_map_ok boot_info_ex" by (simp add: memory_map_ok_def boot_info_ex_def)
  have "0 \<in> desc_offsets boot_info_ex 0"
    by (auto simp: desc_offsets_def boot_info_ex_def)
  then have "0x3f0 \<in> (\<Union>d \<in> desc_offsets boot_info_ex 0. desc_pages (memory_map boot_info_ex d))"
    by (auto simp: desc_pages_def desc_usable_def efi_type_defs page_within_def boot_info_ex_def
        OS_PAGE_SIZE_def PMM_MAX_PAGES_eq intro!: bexI [of _ 0])
  then show ?thesis
    using pmm_init_correct [OF ok] ok
    by (auto simp: page_meets_def boot_info_ex_def OS_PAGE_SIZE_def split: if_splits)
qed

end
