(* ===== verification/Cred.thy ===== *)
theory Cred
  imports Prelude
begin

text \<open>
  Process credentials (\<^verbatim>\<open>kernel/security/cred.c\<close>): real, effective and saved user and group
  ids, the calls that change them, and the file permission check.
\<close>

subsection \<open>Model\<close>

record cred =
  cr_uid :: u32
  cr_gid :: u32
  cr_euid :: u32
  cr_egid :: u32
  cr_suid :: u32
  cr_sgid :: u32

definition cred_init :: "u32 \<Rightarrow> u32 \<Rightarrow> cred" where
  "cred_init uid gid =
     \<lparr>cr_uid = uid, cr_gid = gid, cr_euid = uid, cr_egid = gid, cr_suid = uid, cr_sgid = gid\<rparr>"

definition cred_setuid :: "cred \<Rightarrow> u32 \<Rightarrow> bool \<times> cred" where
  "cred_setuid c new_uid =
     (if cr_euid c = 0 then
        (True, c\<lparr>cr_uid := new_uid, cr_euid := new_uid, cr_suid := new_uid\<rparr>)
      else if new_uid = cr_uid c \<or> new_uid = cr_suid c then (True, c\<lparr>cr_euid := new_uid\<rparr>)
      else (False, c))"

definition cred_seteuid :: "cred \<Rightarrow> u32 \<Rightarrow> bool \<times> cred" where
  "cred_seteuid c new_uid =
     (if cr_euid c = 0 \<or> new_uid = cr_uid c \<or> new_uid = cr_euid c \<or> new_uid = cr_suid c
      then (True, c\<lparr>cr_euid := new_uid\<rparr>)
      else (False, c))"

definition cred_setgid :: "cred \<Rightarrow> u32 \<Rightarrow> bool \<times> cred" where
  "cred_setgid c new_gid =
     (if cr_euid c = 0 then
        (True, c\<lparr>cr_gid := new_gid, cr_egid := new_gid, cr_sgid := new_gid\<rparr>)
      else if new_gid = cr_gid c \<or> new_gid = cr_sgid c then (True, c\<lparr>cr_egid := new_gid\<rparr>)
      else (False, c))"

definition cred_setegid :: "cred \<Rightarrow> u32 \<Rightarrow> bool \<times> cred" where
  "cred_setegid c new_gid =
     (if cr_euid c = 0 \<or> new_gid = cr_gid c \<or> new_gid = cr_egid c \<or> new_gid = cr_sgid c
      then (True, c\<lparr>cr_egid := new_gid\<rparr>)
      else (False, c))"

definition cred_check :: "cred \<Rightarrow> u32 \<Rightarrow> u32 \<Rightarrow> u16 \<Rightarrow> u8 \<Rightarrow> bool" where
  "cred_check c fuid fgid mode access =
     (if cr_euid c = 0 then True
      else
        let bits = (if cr_euid c = fuid then ucast (drop_bit 6 mode AND 7)
                    else if cr_egid c = fgid then ucast (drop_bit 3 mode AND 7)
                    else ucast (mode AND 7)) :: u8
        in (bits AND access) = access)"

subsection \<open>Credential changes as a transition system\<close>

text \<open>One successful or refused call of a process.\<close>

inductive cred_step :: "cred \<Rightarrow> cred \<Rightarrow> bool" where
  setuid: "cred_step c (snd (cred_setuid c u))"
| seteuid: "cred_step c (snd (cred_seteuid c u))"
| setgid: "cred_step c (snd (cred_setgid c g))"
| setegid: "cred_step c (snd (cred_setegid c g))"

inductive_cases cred_stepE: "cred_step c c'"

abbreviation cred_steps :: "cred \<Rightarrow> cred \<Rightarrow> bool" where
  "cred_steps \<equiv> cred_step\<^sup>*\<^sup>*"

definition cred_uids :: "cred \<Rightarrow> u32 set" where
  "cred_uids c = {cr_uid c, cr_euid c, cr_suid c}"

definition cred_gids :: "cred \<Rightarrow> u32 set" where
  "cred_gids c = {cr_gid c, cr_egid c, cr_sgid c}"

lemmas cred_call_defs = cred_setuid_def cred_seteuid_def cred_setgid_def cred_setegid_def

lemma cred_step_unprivileged:
  assumes "cred_step c c'" "0 \<notin> cred_uids c"
  shows "cred_uids c' \<subseteq> cred_uids c \<and> cred_gids c' \<subseteq> cred_gids c \<and>
    cr_uid c' = cr_uid c \<and> cr_suid c' = cr_suid c \<and> cr_gid c' = cr_gid c \<and> cr_sgid c' = cr_sgid c"
  using assms
  by (elim cred_stepE) (auto simp: cred_call_defs cred_uids_def cred_gids_def split: if_splits)

lemma cred_steps_unprivileged:
  assumes "cred_steps c c'" "0 \<notin> cred_uids c"
  shows "cred_uids c' \<subseteq> cred_uids c \<and> cred_gids c' \<subseteq> cred_gids c"
  using assms
proof (induction rule: rtranclp_induct)
  case (step y z)
  then have "0 \<notin> cred_uids y" by auto
  from cred_step_unprivileged [OF step.hyps(2) this] step show ?case by blast
qed simp

text \<open>
  C11: A process none of whose user ids is 0 cannot gain an id it does not hold already,
  whatever sequence of credential calls it makes; in particular it never becomes root.
\<close>

theorem cred_no_escalation:
  assumes "cred_steps c c'" "0 \<notin> cred_uids c"
  shows "cred_uids c' \<subseteq> cred_uids c \<and> cred_gids c' \<subseteq> cred_gids c \<and> cr_euid c' \<noteq> 0"
  using cred_steps_unprivileged [OF assms] assms(2) by (auto simp: cred_uids_def)

text \<open>
  The set-uid calls as the header documents them.  A root \<open>setuid\<close> to another user is
  permanent: no later sequence of calls gives back user id 0.  A root \<open>seteuid\<close> is
  temporary: with a saved id of 0 the process can return to 0 and is then as before.
\<close>

lemma cred_drop_privilege:
  assumes "cr_euid c = 0" "u \<noteq> 0"
  shows "(\<exists>c'. cred_setuid c u = (True, c') \<and> (\<forall>c''. cred_steps c' c'' \<longrightarrow> 0 \<notin> cred_uids c'')) \<and>
    (\<exists>d. cred_seteuid c u = (True, d) \<and> cr_euid d = u \<and>
       cred_seteuid d 0 = (if cr_suid c = 0 \<or> cr_uid c = 0 then (True, c) else (False, d)))"
proof
  define c' where "c' = snd (cred_setuid c u)"
  have "cred_setuid c u = (True, c')" "0 \<notin> cred_uids c'"
    using assms by (auto simp: c'_def cred_setuid_def cred_uids_def)
  then show "\<exists>c'. cred_setuid c u = (True, c') \<and> (\<forall>c''. cred_steps c' c'' \<longrightarrow> 0 \<notin> cred_uids c'')"
    using cred_steps_unprivileged by blast
  show "\<exists>d. cred_seteuid c u = (True, d) \<and> cr_euid d = u \<and>
       cred_seteuid d 0 = (if cr_suid c = 0 \<or> cr_uid c = 0 then (True, c) else (False, d))"
    using assms by (auto simp: cred_seteuid_def)
qed

subsection \<open>The permission check\<close>

definition perm_shift :: "cred \<Rightarrow> u32 \<Rightarrow> u32 \<Rightarrow> nat" where
  "perm_shift c fuid fgid = (if cr_euid c = fuid then 6 else if cr_egid c = fgid then 3 else 0)"

lemma bit_7: "bit (7 :: 'a::len word) n \<longleftrightarrow> n < LENGTH('a) \<and> n < 3"
proof -
  have *: "(7 :: 'a word) = mask 3" by (simp add: mask_eq_exp_minus_1)
  show ?thesis unfolding * by (simp only: bit_mask_iff) auto
qed

lemma and_eq_right_iff: "(a AND b) = (b :: 'a::len word) \<longleftrightarrow> (\<forall>n. bit b n \<longrightarrow> bit a n)"
  by (metis and.commute bit_and_iff bit_eq_iff)

text \<open>
  C12: The permission check grants an access to root always, and to any other process
  exactly when each requested bit is one of read, write and execute and is set in the one
  class of the mode (owner, else group, else other) that applies to the process.
\<close>

theorem cred_check_correct:
  "cred_check c fuid fgid mode access \<longleftrightarrow>
     cr_euid c = 0 \<or>
     (\<forall>n. bit access n \<longrightarrow> n < 3 \<and> bit mode (n + perm_shift c fuid fgid))"
proof -
  have b: "bit (ucast (drop_bit k mode AND 7) :: u8) n \<longleftrightarrow> n < 3 \<and> bit mode (n + k)" if "k \<le> 6" for k n
    using that by (simp only: bit_ucast_iff bit_and_iff bit_drop_bit_eq o_apply bit_7)
      (auto simp: add.commute)
  have "bit (ucast (mode AND 7) :: u8) n \<longleftrightarrow> n < 3 \<and> bit mode n" for n
    using b [of 0] by simp
  then show ?thesis
    by (auto simp: cred_check_def perm_shift_def and_eq_right_iff b Let_def)
qed

subsection \<open>Instances\<close>

theorem cred_no_escalation_witness:
  "cred_steps (cred_init 1000 1000) (snd (cred_seteuid (cred_init 1000 1000) 1000)) \<and>
   0 \<notin> cred_uids (cred_init 1000 1000) \<and>
   cr_euid (snd (cred_seteuid (cred_init 1000 1000) 1000)) \<noteq> 0"
proof -
  have s: "cred_steps (cred_init 1000 1000) (snd (cred_seteuid (cred_init 1000 1000) 1000))"
    by (intro r_into_rtranclp cred_step.seteuid)
  have u: "0 \<notin> cred_uids (cred_init 1000 1000)" by (simp add: cred_uids_def cred_init_def)
  from s u cred_no_escalation [OF s u] show ?thesis by blast
qed

theorem cred_drop_privilege_witness:
  "\<exists>d. cred_seteuid (cred_init 0 0) 1000 = (True, d) \<and> cr_euid d = 1000 \<and>
     cred_seteuid d 0 = (True, cred_init 0 0)"
  using cred_drop_privilege [of "cred_init 0 0" 1000] by (simp add: cred_init_def)

theorem cred_check_correct_witness:
  "bit (2 :: u8) 1 \<and> \<not> bit (420 :: u16) (1 + perm_shift (cred_init 1000 1000) 0 0) \<and>
   \<not> cred_check (cred_init 1000 1000) 0 0 420 2"
proof -
  have b: "bit (2 :: u8) 1" "\<not> bit (420 :: u16) (1 + perm_shift (cred_init 1000 1000) 0 0)"
    by (simp_all add: bit_iff_odd_drop_bit perm_shift_def cred_init_def)
  moreover have "cr_euid (cred_init 1000 1000) \<noteq> 0" by (simp add: cred_init_def)
  ultimately show ?thesis
    using cred_check_correct [of "cred_init 1000 1000" 0 0 420 2] by blast
qed

end
