(* ===== verification/Interfaces.thy ===== *)
theory Interfaces
  imports Prelude
begin

text \<open>
  Two contracts that several components of the kernel share, stated once as locales with the
  facts their clients use: tables of reusable slots (file descriptors, open files, pipes,
  sockets, connections) and bounded byte queues (pipe buffers, receive buffers).
\<close>

subsection \<open>Tables of slots\<close>

text \<open>
  The C code scans an array for the first unused entry.  \<open>first_free lo cap used\<close> is that
  scan over the indices \<open>lo, \<dots>, cap - 1\<close>.
\<close>

definition first_free :: "nat \<Rightarrow> nat \<Rightarrow> (nat \<Rightarrow> bool) \<Rightarrow> nat option" where
  "first_free lo cap used = find (\<lambda>i. \<not> used i) [lo..<cap]"

lemma first_free_None: "first_free lo cap used = None \<longleftrightarrow> (\<forall>i. lo \<le> i \<and> i < cap \<longrightarrow> used i)"
  by (auto simp: first_free_def find_None_iff)

lemma first_free_Some:
  "first_free lo cap used = Some i \<longleftrightarrow>
     lo \<le> i \<and> i < cap \<and> \<not> used i \<and> (\<forall>j. lo \<le> j \<and> j < i \<longrightarrow> used j)"
proof
  assume "first_free lo cap used = Some i"
  then obtain k where k: "k < cap - lo" "i = lo + k" "\<not> used i"
    "\<And>j. j < k \<Longrightarrow> used (lo + j)"
    by (auto simp: first_free_def find_Some_iff)
  have "used j" if "lo \<le> j" "j < i" for j
    using k(4) [of "j - lo"] that k(2) by simp
  with k show "lo \<le> i \<and> i < cap \<and> \<not> used i \<and> (\<forall>j. lo \<le> j \<and> j < i \<longrightarrow> used j)" by auto
next
  assume i: "lo \<le> i \<and> i < cap \<and> \<not> used i \<and> (\<forall>j. lo \<le> j \<and> j < i \<longrightarrow> used j)"
  then show "first_free lo cap used = Some i"
    by (auto simp: first_free_def find_Some_iff intro!: exI [of _ "i - lo"])
qed

lemma first_free_less: "first_free lo cap used = Some i \<Longrightarrow> i < cap"
  by (simp add: first_free_Some)

lemma first_free_cong:
  "(\<And>i. i < cap \<Longrightarrow> used i = used' i) \<Longrightarrow> first_free lo cap used = first_free lo cap used'"
  unfolding first_free_def by (rule find_cong) auto

locale slot_table =
  fixes lo cap :: nat
    and used :: "'t \<Rightarrow> nat \<Rightarrow> bool"
    and grab :: "'t \<Rightarrow> int \<times> 't"
    and drop_slot :: "nat \<Rightarrow> 't \<Rightarrow> 't"
    and tinv :: "'t \<Rightarrow> bool"
  assumes grab_law: "tinv t \<Longrightarrow>
      (case first_free lo cap (used t) of
         None \<Rightarrow> grab t = (- 1, t)
       | Some i \<Rightarrow> \<exists>t'. grab t = (int i, t') \<and> tinv t' \<and> used t' = (used t)(i := True))"
    and drop_law: "tinv t \<Longrightarrow> i < cap \<Longrightarrow>
      tinv (drop_slot i t) \<and> used (drop_slot i t) = (used t)(i := False)"
begin

lemma grab_cases:
  assumes "tinv t"
  obtains (full) "grab t = (- 1, t)" "\<And>i. lo \<le> i \<Longrightarrow> i < cap \<Longrightarrow> used t i"
  | (slot) i t' where "grab t = (int i, t')" "lo \<le> i" "i < cap" "\<not> used t i"
      "\<And>j. lo \<le> j \<Longrightarrow> j < i \<Longrightarrow> used t j" "tinv t'" "used t' = (used t)(i := True)"
proof (cases "first_free lo cap (used t)")
  case None
  then have "grab t = (- 1, t)" using grab_law [OF assms] by simp
  with None show ?thesis using full by (simp add: first_free_None)
next
  case (Some i)
  with grab_law [OF assms] obtain t' where t': "grab t = (int i, t')" "tinv t'"
    "used t' = (used t)(i := True)" by auto
  with Some show ?thesis using slot [of i t'] by (simp add: first_free_Some)
qed

lemma grab_fresh:
  assumes "tinv t" "grab t = (n, t')" "n \<noteq> - 1"
  shows "int lo \<le> n \<and> n < int cap \<and> \<not> used t (nat n) \<and> tinv t' \<and> used t' = (used t)(nat n := True)"
  using assms(1) by (cases rule: grab_cases) (use assms in auto)

lemma grab_grab_distinct:
  assumes "tinv t" "grab t = (n, t')" "grab t' = (m, t'')" "n \<noteq> - 1" "m \<noteq> - 1"
  shows "n \<noteq> m"
  using grab_fresh [OF assms(1,2,4)] grab_fresh [of t' m t''] assms by auto

lemma grab_drop:
  assumes "tinv t" "grab t = (n, t')" "n \<noteq> - 1"
  shows "tinv (drop_slot (nat n) t') \<and> used (drop_slot (nat n) t') = used t"
proof -
  have "tinv t'" "nat n < cap" "\<not> used t (nat n)" "used t' = (used t)(nat n := True)"
    using grab_fresh [OF assms] by auto
  then show ?thesis using drop_law [of t' "nat n"] by (simp add: fun_upd_idem)
qed

lemma drop_then_grab:
  assumes "tinv t" "lo \<le> i" "i < cap"
  obtains n t' where "grab (drop_slot i t) = (n, t')" "int lo \<le> n" "n \<le> int i"
proof -
  have d: "tinv (drop_slot i t)" "\<not> used (drop_slot i t) i"
    using drop_law [OF assms(1,3)] by simp_all
  from d(1) show ?thesis
  proof (cases rule: grab_cases)
    case full
    then show ?thesis using assms d by blast
  next
    case (slot j t')
    then have "j \<le> i" using assms d(2) not_le by blast
    then show ?thesis using that slot by simp
  qed
qed

end

subsection \<open>Ring buffers\<close>

text \<open>The \<open>n\<close> bytes stored in the ring \<open>buf\<close> from position \<open>h\<close> on.\<close>

definition ring :: "bytes \<Rightarrow> nat \<Rightarrow> nat \<Rightarrow> bytes" where
  "ring buf h n = map (\<lambda>i. buf ! ((h + i) mod length buf)) [0..<n]"

lemma length_ring [simp]: "length (ring buf h n) = n"
  by (simp add: ring_def)

lemma ring_0 [simp]: "ring buf h 0 = []"
  by (simp add: ring_def)

lemma ring_push:
  assumes "n < length buf"
  shows "ring (buf[(h + n) mod length buf := b]) h (Suc n) = ring buf h n @ [b]"
proof (rule nth_equalityI)
  fix i assume "i < length (ring (buf[(h + n) mod length buf := b]) h (Suc n))"
  then have i: "i \<le> n" by simp
  have "(h + i) mod length buf \<noteq> (h + n) mod length buf" if "i < n"
  proof
    assume "(h + i) mod length buf = (h + n) mod length buf"
    then have "length buf dvd (h + n) - (h + i)" using that by (intro mod_eq_dvd_iff_nat [THEN iffD1]) simp_all
    then have "length buf dvd n - i" by simp
    then show False using that assms by (auto dest!: dvd_imp_le)
  qed
  moreover have "(h + n) mod length buf < length buf" using assms by (intro mod_less_divisor) linarith
  ultimately show "ring (buf[(h + n) mod length buf := b]) h (Suc n) ! i = (ring buf h n @ [b]) ! i"
    using i by (cases "i = n") (auto simp: ring_def nth_append)
qed simp

lemma ring_pop: "ring buf h (Suc n) = buf ! (h mod length buf) # ring buf ((h + 1) mod length buf) n"
  by (simp add: ring_def upt_conv_Cons map_Suc_upt [symmetric] mod_simps o_def del: upt_Suc)

subsection \<open>Bounded byte queues\<close>

datatype queue_op = Push bytes | Pop nat

text \<open>
  A run of a queue: the bytes it accepted, the bytes it delivered and the final queue.
\<close>

fun queue_run :: "('q \<Rightarrow> bytes \<Rightarrow> nat \<times> 'q) \<Rightarrow> ('q \<Rightarrow> nat \<Rightarrow> bytes \<times> 'q) \<Rightarrow>
    'q \<Rightarrow> queue_op list \<Rightarrow> bytes \<times> bytes \<times> 'q" where
  "queue_run push pop q [] = ([], [], q)"
| "queue_run push pop q (Push bs # ops) =
     (let (n, q') = push q bs; (i, d, q'') = queue_run push pop q' ops in (take n bs @ i, d, q''))"
| "queue_run push pop q (Pop k # ops) =
     (let (bs, q') = pop q k; (i, d, q'') = queue_run push pop q' ops in (i, bs @ d, q''))"

locale byte_queue =
  fixes push :: "'q \<Rightarrow> bytes \<Rightarrow> nat \<times> 'q"
    and pop :: "'q \<Rightarrow> nat \<Rightarrow> bytes \<times> 'q"
    and contents :: "'q \<Rightarrow> bytes"
    and qinv :: "'q \<Rightarrow> bool"
    and capacity :: nat
  assumes push_law: "qinv q \<Longrightarrow> \<exists>q'. qinv q' \<and>
      push q bs = (min (length bs) (capacity - length (contents q)), q') \<and>
      contents q' = contents q @ take (capacity - length (contents q)) bs"
    and pop_law: "qinv q \<Longrightarrow> \<exists>q'. qinv q' \<and> pop q k = (take k (contents q), q') \<and>
      contents q' = drop k (contents q)"
    and bounded: "qinv q \<Longrightarrow> length (contents q) \<le> capacity"
begin

lemma pop_push_all:
  assumes "qinv q" "contents q = []" "length bs \<le> capacity"
  shows "\<exists>q' q''. push q bs = (length bs, q') \<and> pop q' (length bs) = (bs, q'') \<and> contents q'' = []"
proof -
  obtain q' where q': "qinv q'" "push q bs = (length bs, q')" "contents q' = bs"
    using push_law [OF assms(1), of bs] assms by (auto simp: min_def)
  with pop_law [OF q'(1), of "length bs"] show ?thesis by auto
qed

text \<open>Whatever the interleaving, what comes out is what went in, in order and without loss.\<close>

lemma fifo:
  assumes "qinv q" "queue_run push pop q ops = (i, d, q')"
  shows "contents q @ i = d @ contents q' \<and> qinv q'"
  using assms
proof (induction ops arbitrary: q i d)
  case Nil
  then show ?case by simp
next
  case (Cons op ops)
  show ?case
  proof (cases op)
    case (Push bs)
    let ?n = "capacity - length (contents q)"
    obtain q1 where q1: "qinv q1" "push q bs = (min (length bs) ?n, q1)"
      "contents q1 = contents q @ take ?n bs" using push_law [OF Cons.prems(1)] by blast
    obtain i1 d1 q2 where r: "queue_run push pop q1 ops = (i1, d1, q2)" by (metis prod_cases3)
    have "take (min (length bs) ?n) bs = take ?n bs" by (simp add: min_def)
    with Cons.prems(2) Push q1 r have "i = take ?n bs @ i1" "d = d1" "q' = q2" by simp_all
    with Cons.IH [OF q1(1)] r q1(3) show ?thesis by simp
  next
    case (Pop k)
    obtain q1 where q1: "qinv q1" "pop q k = (take k (contents q), q1)"
      "contents q1 = drop k (contents q)" using pop_law [OF Cons.prems(1)] by blast
    obtain i1 d1 q2 where r: "queue_run push pop q1 ops = (i1, d1, q2)" by (metis prod_cases3)
    with Cons.prems(2) Pop q1 have "i = i1" "d = take k (contents q) @ d1" "q' = q2" by simp_all
    with Cons.IH [OF q1(1)] r q1(3) show ?thesis
      by (metis append.assoc append_take_drop_id)
  qed
qed

end

end
