(* ===== verification/Fd.thy ===== *)
theory Fd
  imports Interfaces
begin

text \<open>
  The per-process descriptor table (\<^verbatim>\<open>kernel/proc/fd.c\<close>): 32 entries, each closed or open on
  a file, a socket or one end of a pipe.  Descriptors and ids are C \<open>int\<close>s.
\<close>

subsection \<open>Model\<close>

definition MAX_FDS :: nat where
  "MAX_FDS = 32"

datatype fd_type_t = FD_NONE | FD_FILE | FD_SOCKET | FD_PIPE_READ | FD_PIPE_WRITE

record fd_entry =
  fd_open :: bool
  fde_type :: fd_type_t
  fde_id :: int

record fd_table =
  fds :: "fd_entry list"

definition fd_closed :: fd_entry where
  "fd_closed = \<lparr>fd_open = False, fde_type = FD_NONE, fde_id = 0\<rparr>"

definition fd_table_init :: fd_table where
  "fd_table_init = \<lparr>fds = replicate MAX_FDS fd_closed\<rparr>"

definition fd_is_open :: "fd_table \<Rightarrow> nat \<Rightarrow> bool" where
  "fd_is_open t i = fd_open (fds t ! i)"

definition fd_put :: "nat \<Rightarrow> fd_type_t \<Rightarrow> int \<Rightarrow> fd_table \<Rightarrow> fd_table" where
  "fd_put i ty n t = t\<lparr>fds := (fds t)[i := \<lparr>fd_open = True, fde_type = ty, fde_id = n\<rparr>]\<rparr>"

definition fd_alloc :: "int \<Rightarrow> fd_table \<Rightarrow> int \<times> fd_table" where
  "fd_alloc vfs_fd t =
     (case first_free 3 MAX_FDS (fd_is_open t) of
        Some i \<Rightarrow> (int i, fd_put i FD_FILE vfs_fd t)
      | None \<Rightarrow> (- 1, t))"

definition fd_alloc_socket :: "int \<Rightarrow> fd_table \<Rightarrow> int \<times> fd_table" where
  "fd_alloc_socket sock_idx t =
     (case first_free 0 MAX_FDS (fd_is_open t) of
        Some i \<Rightarrow> (int i, fd_put i FD_SOCKET sock_idx t)
      | None \<Rightarrow> (- 1, t))"

definition fd_alloc_pipe :: "int \<Rightarrow> fd_type_t \<Rightarrow> fd_table \<Rightarrow> int \<times> fd_table" where
  "fd_alloc_pipe pipe_idx ty t =
     (case first_free 3 MAX_FDS (fd_is_open t) of
        Some i \<Rightarrow> (int i, fd_put i ty pipe_idx t)
      | None \<Rightarrow> (- 1, t))"

definition fd_valid :: "fd_table \<Rightarrow> int \<Rightarrow> bool" where
  "fd_valid t fd \<longleftrightarrow> \<not> (fd < 0 \<or> int MAX_FDS \<le> fd \<or> \<not> fd_open (fds t ! nat fd))"

definition fd_to_vfs :: "fd_table \<Rightarrow> int \<Rightarrow> int" where
  "fd_to_vfs t fd =
     (if \<not> fd_valid t fd then - 1
      else if fde_type (fds t ! nat fd) \<noteq> FD_FILE then - 1
      else fde_id (fds t ! nat fd))"

definition fd_type :: "fd_table \<Rightarrow> int \<Rightarrow> fd_type_t" where
  "fd_type t fd = (if \<not> fd_valid t fd then FD_NONE else fde_type (fds t ! nat fd))"

definition fd_id :: "fd_table \<Rightarrow> int \<Rightarrow> int" where
  "fd_id t fd = (if \<not> fd_valid t fd then - 1 else fde_id (fds t ! nat fd))"

definition fd_set :: "int \<Rightarrow> fd_type_t \<Rightarrow> int \<Rightarrow> fd_table \<Rightarrow> int \<times> fd_table" where
  "fd_set slot ty n t =
     (if slot < 0 \<or> int MAX_FDS \<le> slot then (- 1, t) else (slot, fd_put (nat slot) ty n t))"

definition fd_free :: "int \<Rightarrow> fd_table \<Rightarrow> fd_table" where
  "fd_free fd t =
     (if fd < 0 \<or> int MAX_FDS \<le> fd then t else t\<lparr>fds := (fds t)[nat fd := fd_closed]\<rparr>)"

subsection \<open>The table as a slot table\<close>

definition fd_inv :: "fd_table \<Rightarrow> bool" where
  "fd_inv t \<longleftrightarrow> length (fds t) = MAX_FDS"

text \<open>Which slots are taken; indices beyond the table are not slots.\<close>

definition fd_used :: "fd_table \<Rightarrow> nat \<Rightarrow> bool" where
  "fd_used t i \<longleftrightarrow> i < MAX_FDS \<and> fd_is_open t i"

lemma first_free_fd_used: "first_free lo MAX_FDS (fd_is_open t) = first_free lo MAX_FDS (fd_used t)"
  by (rule first_free_cong) (simp add: fd_used_def)

lemma fd_inv_put [simp]: "fd_inv t \<Longrightarrow> fd_inv (fd_put i ty n t)"
  by (simp add: fd_inv_def fd_put_def)

lemma fd_used_put: "fd_inv t \<Longrightarrow> i < MAX_FDS \<Longrightarrow> fd_used (fd_put i ty n t) = (fd_used t)(i := True)"
  by (auto simp: fd_used_def fd_is_open_def fd_put_def fd_inv_def nth_list_update fun_eq_iff)

lemma fd_used_free: "fd_inv t \<Longrightarrow> i < MAX_FDS \<Longrightarrow>
    fd_inv (fd_free (int i) t) \<and> fd_used (fd_free (int i) t) = (fd_used t)(i := False)"
  by (auto simp: fd_used_def fd_is_open_def fd_free_def fd_inv_def fd_closed_def nth_list_update
      fun_eq_iff)

lemmas fd_slot_simps = first_free_fd_used fd_used_put [OF _ first_free_less] fd_used_free

interpretation fd_files: slot_table 3 MAX_FDS fd_used "fd_alloc v" "\<lambda>i. fd_free (int i)" fd_inv for v
  by standard (auto simp: fd_alloc_def fd_slot_simps split: option.split)

interpretation fd_sockets: slot_table 0 MAX_FDS fd_used "fd_alloc_socket v" "\<lambda>i. fd_free (int i)" fd_inv
  for v
  by standard (auto simp: fd_alloc_socket_def fd_slot_simps split: option.split)

interpretation fd_pipes: slot_table 3 MAX_FDS fd_used "fd_alloc_pipe v ty" "\<lambda>i. fd_free (int i)" fd_inv
  for v ty
  by standard (auto simp: fd_alloc_pipe_def fd_slot_simps split: option.split)

subsection \<open>What the lookups return\<close>

lemma fd_lookup_put:
  assumes "fd_inv t" "i < MAX_FDS"
  shows "fd_type (fd_put i ty n t) fd = (if fd = int i then ty else fd_type t fd)"
    "fd_id (fd_put i ty n t) fd = (if fd = int i then n else fd_id t fd)"
  using assms
  by (auto simp: fd_type_def fd_id_def fd_valid_def fd_put_def fd_inv_def nth_list_update)

lemma fd_to_vfs_eq: "fd_to_vfs t fd = (if fd_type t fd = FD_FILE then fd_id t fd else - 1)"
  by (simp add: fd_to_vfs_def fd_type_def fd_id_def)

lemma fd_lookup_free:
  assumes "fd_inv t"
  shows "fd_type (fd_free d t) fd = (if fd = d then FD_NONE else fd_type t fd)"
    "fd_id (fd_free d t) fd = (if fd = d then - 1 else fd_id t fd)"
  using assms
  by (auto simp: fd_type_def fd_id_def fd_valid_def fd_free_def fd_closed_def fd_inv_def
      nth_list_update)

text \<open>
  C13: Opening a file gives the lowest closed descriptor from 3 on, or -1 when all of them are
  open.  Through the new descriptor the table returns the open file's number, every other
  descriptor keeps its kind and number, and closing it again restores the table's contents
  for every descriptor.
\<close>

theorem fd_alloc_correct:
  assumes "fd_inv t" "fd_alloc v t = (n, t')"
  shows "if n = - 1 then t' = t \<and> (\<forall>i. 3 \<le> i \<and> i < MAX_FDS \<longrightarrow> fd_used t i)
    else 3 \<le> n \<and> n < int MAX_FDS \<and> \<not> fd_used t (nat n) \<and> fd_inv t' \<and>
      (\<forall>i. 3 \<le> i \<and> int i < n \<longrightarrow> fd_used t i) \<and>
      fd_to_vfs t' n = v \<and>
      (\<forall>fd. fd \<noteq> n \<longrightarrow> fd_type t' fd = fd_type t fd \<and> fd_id t' fd = fd_id t fd) \<and>
      (\<forall>fd. fd_type (fd_free n t') fd = fd_type t fd \<and> fd_id (fd_free n t') fd = fd_id t fd)"
  using assms(1)
proof (cases rule: fd_files.grab_cases [where v = v])
  case full
  then show ?thesis using assms by auto
next
  case (slot i u)
  then have n: "n = int i" and u: "t' = u" using assms(2) by auto
  have t': "t' = fd_put i FD_FILE v t"
    using assms(2) n by (auto simp: fd_alloc_def split: option.splits)
  have "fd_type t n = FD_NONE" "fd_id t n = - 1"
    using slot(3,4) n by (auto simp: fd_type_def fd_id_def fd_valid_def fd_used_def fd_is_open_def)
  then have "fd_type (fd_free n t') fd = fd_type t fd \<and> fd_id (fd_free n t') fd = fd_id t fd" for fd
    using slot(3) assms(1) n t' by (simp add: fd_lookup_free fd_lookup_put)
  moreover have "fd_type t' fd = fd_type t fd \<and> fd_id t' fd = fd_id t fd" if "fd \<noteq> n" for fd
    using slot(3) assms(1) n t' that by (simp add: fd_lookup_put)
  moreover have "fd_to_vfs t' n = v"
    using slot(3) assms(1) n t' by (simp add: fd_to_vfs_eq fd_lookup_put)
  ultimately show ?thesis using slot n u by auto
qed

text \<open>
  A socket takes the lowest closed descriptor from 0 on: in a fresh table it becomes
  descriptor 0, which \<^verbatim>\<open>sys_read\<close> and \<^verbatim>\<open>sys_write\<close> reserve for the terminal.
\<close>

lemma fd_alloc_socket_takes_stdin:
  "\<exists>t'. fd_alloc_socket s fd_table_init = (0, t') \<and> fd_type t' 0 = FD_SOCKET \<and> fd_id t' 0 = s"
proof -
  have i: "fd_inv fd_table_init" by (simp add: fd_inv_def fd_table_init_def)
  have f: "first_free 0 MAX_FDS (fd_is_open fd_table_init) = Some 0"
    by (simp add: first_free_Some fd_is_open_def fd_table_init_def fd_closed_def MAX_FDS_def)
  show ?thesis
    using fd_lookup_put [OF i, of 0 FD_SOCKET s 0] f by (simp add: fd_alloc_socket_def) (simp add: MAX_FDS_def)
qed

subsection \<open>Instances\<close>

theorem fd_alloc_correct_witness:
  "fd_inv fd_table_init \<and>
   (\<exists>t'. fd_alloc 7 fd_table_init = (3, t') \<and> fd_to_vfs t' 3 = 7 \<and> fd_type t' 4 = FD_NONE)"
proof -
  have i: "fd_inv fd_table_init" by (simp add: fd_inv_def fd_table_init_def)
  have f: "first_free 3 MAX_FDS (fd_is_open fd_table_init) = Some 3"
    by (simp add: first_free_Some fd_is_open_def fd_table_init_def fd_closed_def MAX_FDS_def)
  then have a: "fd_alloc 7 fd_table_init = (3, fd_put 3 FD_FILE 7 fd_table_init)"
    by (simp add: fd_alloc_def)
  moreover have "fd_type fd_table_init 4 = FD_NONE"
    by (simp add: fd_type_def fd_valid_def fd_table_init_def fd_closed_def MAX_FDS_def)
  ultimately show ?thesis using i fd_alloc_correct [OF i a] by auto
qed

end
