(* ===== verification/Pipe.thy ===== *)
theory Pipe
  imports Interfaces
begin

text \<open>
  Kernel pipes (\<^verbatim>\<open>kernel/proc/pipe.c\<close>): a table of 8 ring buffers of 4096 bytes.  The pipe
  lock makes every operation one atomic step.  A write takes the bytes it is given as a list;
  a read returns the bytes it stores in the caller's buffer.
\<close>

subsection \<open>Model\<close>

definition PIPE_BUF :: u32 where
  "PIPE_BUF = 4096"

definition MAX_PIPES :: nat where
  "MAX_PIPES = 8"

record pipe =
  p_in_use :: bool
  p_buf :: bytes
  p_head :: u32
  p_count :: u32
  p_write_closed :: bool
  p_read_closed :: bool

type_synonym pipes = "pipe list"

definition pipe_zero :: pipe where
  "pipe_zero = \<lparr>p_in_use = False, p_buf = replicate (unat PIPE_BUF) 0, p_head = 0, p_count = 0,
     p_write_closed = False, p_read_closed = False\<rparr>"

definition pipes_init :: pipes where
  "pipes_init = replicate MAX_PIPES pipe_zero"

definition pipe_alloc :: "pipes \<Rightarrow> int \<times> pipes" where
  "pipe_alloc s_pipes =
     (case first_free 0 MAX_PIPES (\<lambda>i. p_in_use (s_pipes ! i)) of
        Some i \<Rightarrow> (int i, s_pipes[i := pipe_zero\<lparr>p_in_use := True\<rparr>])
      | None \<Rightarrow> (- 1, s_pipes))"

definition pipe_bad_idx :: "int \<Rightarrow> bool" where
  "pipe_bad_idx idx \<longleftrightarrow> idx < 0 \<or> int MAX_PIPES \<le> idx"

definition pipe_free :: "int \<Rightarrow> pipes \<Rightarrow> pipes" where
  "pipe_free idx s_pipes =
     (if pipe_bad_idx idx then s_pipes
      else s_pipes[nat idx := (s_pipes ! nat idx)\<lparr>p_in_use := False\<rparr>])"

text \<open>The copy loop of \<open>pipe_write\<close>: \<open>written\<close> counts the bytes stored so far.\<close>

fun pipe_write_loop :: "pipe \<Rightarrow> bytes \<Rightarrow> nat \<Rightarrow> nat \<times> pipe" where
  "pipe_write_loop p [] written = (written, p)"
| "pipe_write_loop p (b # bs) written =
     (if p_count p < PIPE_BUF then
        let wp = (p_head p + p_count p) mod PIPE_BUF
        in pipe_write_loop (p\<lparr>p_buf := (p_buf p)[unat wp := b], p_count := p_count p + 1\<rparr>) bs
             (Suc written)
      else (written, p))"

definition pipe_write :: "int \<Rightarrow> bytes \<Rightarrow> pipes \<Rightarrow> int \<times> pipes" where
  "pipe_write idx buf s_pipes =
     (if pipe_bad_idx idx then (- 1, s_pipes)
      else
        let p = s_pipes ! nat idx in
        if \<not> p_in_use p \<or> p_read_closed p then (- 1, s_pipes)
        else
          let (written, p') = pipe_write_loop p buf 0
          in (int written, s_pipes[nat idx := p']))"

fun pipe_read_loop :: "pipe \<Rightarrow> nat \<Rightarrow> bytes \<times> pipe" where
  "pipe_read_loop p 0 = ([], p)"
| "pipe_read_loop p (Suc n) =
     (let b = p_buf p ! unat (p_head p);
          (bs, p') = pipe_read_loop (p\<lparr>p_head := (p_head p + 1) mod PIPE_BUF\<rparr>) n
      in (b # bs, p'))"

text \<open>Result: the return value and the bytes stored in the caller's buffer.\<close>

definition pipe_read :: "int \<Rightarrow> u32 \<Rightarrow> pipes \<Rightarrow> (int \<times> bytes) \<times> pipes" where
  "pipe_read idx len s_pipes =
     (if pipe_bad_idx idx then ((- 1, []), s_pipes)
      else
        let p = s_pipes ! nat idx in
        if \<not> p_in_use p then ((- 1, []), s_pipes)
        else if p_count p = 0 then ((if p_write_closed p then 0 else - 2, []), s_pipes)
        else
          let n = (if len < p_count p then len else p_count p);
              (bs, p') = pipe_read_loop p (unat n)
          in ((int (unat n), bs), s_pipes[nat idx := p'\<lparr>p_count := p_count p' - n\<rparr>]))"

definition pipe_close_write :: "int \<Rightarrow> pipes \<Rightarrow> pipes" where
  "pipe_close_write idx s_pipes =
     (if pipe_bad_idx idx then s_pipes
      else
        let p = s_pipes ! nat idx in
        if p_in_use p then
          s_pipes[nat idx := p\<lparr>p_write_closed := True,
            p_in_use := (if p_read_closed p then False else p_in_use p)\<rparr>]
        else s_pipes)"

definition pipe_close_read :: "int \<Rightarrow> pipes \<Rightarrow> pipes" where
  "pipe_close_read idx s_pipes =
     (if pipe_bad_idx idx then s_pipes
      else
        let p = s_pipes ! nat idx in
        if p_in_use p then
          s_pipes[nat idx := p\<lparr>p_read_closed := True,
            p_in_use := (if p_write_closed p then False else p_in_use p)\<rparr>]
        else s_pipes)"

subsection \<open>A pipe buffer is a byte queue\<close>

definition pipe_inv :: "pipe \<Rightarrow> bool" where
  "pipe_inv p \<longleftrightarrow> length (p_buf p) = 4096 \<and> p_head p < PIPE_BUF \<and> p_count p \<le> PIPE_BUF"

definition pipe_contents :: "pipe \<Rightarrow> bytes" where
  "pipe_contents p = ring (p_buf p) (unat (p_head p)) (unat (p_count p))"

lemma pipe_inv_nat:
  "pipe_inv p \<longleftrightarrow> length (p_buf p) = 4096 \<and> unat (p_head p) < 4096 \<and> unat (p_count p) \<le> 4096"
  by (simp add: pipe_inv_def PIPE_BUF_def word_less_nat_alt word_le_nat_alt)

lemma length_pipe_contents [simp]: "length (pipe_contents p) = unat (p_count p)"
  by (simp add: pipe_contents_def)

lemma unat_mod_4096: "unat ((x + y) mod (4096 :: u32)) = (unat x + unat y) mod 4096"
  by (simp add: unat_mod unat_word_ariths mod_mod_cancel)

lemma pipe_write_loop_spec:
  assumes "pipe_inv p"
  shows "\<exists>p'. pipe_write_loop p bs w = (w + min (length bs) (4096 - unat (p_count p)), p') \<and>
    pipe_inv p' \<and> pipe_contents p' = pipe_contents p @ take (4096 - unat (p_count p)) bs \<and>
    p_in_use p' = p_in_use p \<and> p_write_closed p' = p_write_closed p \<and>
    p_read_closed p' = p_read_closed p"
  using assms
proof (induction p bs w rule: pipe_write_loop.induct)
  case (1 p w)
  then show ?case by simp
next
  case (2 p b bs w)
  define n where "n = 4096 - unat (p_count p)"
  show ?case
  proof (cases "p_count p < PIPE_BUF")
    case True
    define q where "q = p\<lparr>p_buf := (p_buf p)[unat ((p_head p + p_count p) mod PIPE_BUF) := b],
      p_count := p_count p + 1\<rparr>"
    have lt: "unat (p_count p) < 4096" using True by (simp add: PIPE_BUF_def word_less_nat_alt)
    have c: "unat (p_count q) = Suc (unat (p_count p))"
      using unat_Suc_of_less [OF True] by (simp add: q_def)
    have i: "pipe_inv q" using "2.prems" c lt by (auto simp: pipe_inv_nat q_def)
    have "pipe_contents q = pipe_contents p @ [b]"
      using ring_push [of "unat (p_count p)" "p_buf p" "unat (p_head p)" b] "2.prems" c lt
      by (simp add: pipe_contents_def pipe_inv_nat q_def PIPE_BUF_def unat_mod_4096)
    moreover have "4096 - unat (p_count p) = Suc (4096 - unat (p_count q))" using c lt by simp
    ultimately show ?thesis
      using "2.IH" [OF True refl] i True by (simp add: q_def Let_def)
  next
    case False
    then have "unat (p_count p) = 4096"
      using "2.prems" by (simp add: pipe_inv_nat PIPE_BUF_def word_less_nat_alt)
    with False "2.prems" show ?thesis by simp
  qed
qed


lemma pipe_read_loop_spec:
  assumes "length (p_buf p) = 4096" "unat (p_head p) < 4096"
  shows "\<exists>h. pipe_read_loop p n = (ring (p_buf p) (unat (p_head p)) n, p\<lparr>p_head := h\<rparr>) \<and>
    unat h = (unat (p_head p) + n) mod 4096"
  using assms
proof (induction p n rule: pipe_read_loop.induct)
  case (1 p)
  then show ?case by (intro exI [of _ "p_head p"]) simp
next
  case (2 p n)
  define q where "q = p\<lparr>p_head := (p_head p + 1) mod PIPE_BUF\<rparr>"
  have h: "unat (p_head q) = (unat (p_head p) + 1) mod 4096"
    by (simp add: q_def PIPE_BUF_def unat_mod_4096)
  obtain h' where "pipe_read_loop q n = (ring (p_buf q) (unat (p_head q)) n, q\<lparr>p_head := h'\<rparr>)"
    "unat h' = (unat (p_head q) + n) mod 4096"
    using "2.IH" [OF refl] "2.prems" h by (auto simp: q_def)
  then show ?case
    using "2.prems" h ring_pop [of "p_buf p" "unat (p_head p)" n]
    by (intro exI [of _ h']) (simp add: q_def mod_simps)
qed

lemma ring_take: "k \<le> n \<Longrightarrow> ring b h k = take k (ring b h n)"
  by (simp add: ring_def take_map take_upt)

lemma ring_drop:
  assumes "k \<le> n"
  shows "ring b ((h + k) mod length b) (n - k) = drop k (ring b h n)"
proof (rule nth_equalityI)
  fix i assume "i < length (ring b ((h + k) mod length b) (n - k))"
  then have "k + i < n" "i < n - k" using assms by simp_all
  then show "ring b ((h + k) mod length b) (n - k) ! i = drop k (ring b h n) ! i"
    using assms by (simp add: ring_def mod_simps add.assoc)
qed simp

definition pipes_inv :: "pipes \<Rightarrow> bool" where
  "pipes_inv s \<longleftrightarrow> length s = MAX_PIPES \<and> (\<forall>p \<in> set s. pipe_inv p)"

definition pipe_live :: "int \<Rightarrow> pipes \<Rightarrow> bool" where
  "pipe_live idx s \<longleftrightarrow> pipes_inv s \<and> \<not> pipe_bad_idx idx \<and> p_in_use (s ! nat idx) \<and>
     \<not> p_read_closed (s ! nat idx)"

lemma pipes_inv_nth: "pipes_inv s \<Longrightarrow> \<not> pipe_bad_idx idx \<Longrightarrow> nat idx < length s \<and> pipe_inv (s ! nat idx)"
  by (auto simp: pipes_inv_def pipe_bad_idx_def)

lemma pipes_inv_upd: "pipes_inv s \<Longrightarrow> pipe_inv p \<Longrightarrow> pipes_inv (s[i := p])"
  by (auto simp: pipes_inv_def dest: set_update_subset_insert [THEN subsetD])

lemma pipe_write_live:
  assumes "pipe_live idx s"
  obtains p' where "pipe_write idx bs s =
      (int (min (length bs) (4096 - unat (p_count (s ! nat idx)))), s[nat idx := p'])"
    "pipe_live idx (s[nat idx := p'])" "p_write_closed p' = p_write_closed (s ! nat idx)"
    "pipe_contents p' = pipe_contents (s ! nat idx) @
       take (4096 - unat (p_count (s ! nat idx))) bs"
proof -
  let ?p = "s ! nat idx"
  have i: "nat idx < length s" "pipe_inv ?p"
    using assms pipes_inv_nth by (auto simp: pipe_live_def)
  obtain p' where p': "pipe_write_loop ?p bs 0 = (min (length bs) (4096 - unat (p_count ?p)), p')"
    "pipe_inv p'" "pipe_contents p' = pipe_contents ?p @ take (4096 - unat (p_count ?p)) bs"
    "p_in_use p' = p_in_use ?p" "p_write_closed p' = p_write_closed ?p"
    "p_read_closed p' = p_read_closed ?p"
    using pipe_write_loop_spec [OF i(2), of bs 0] by auto
  then show ?thesis
    using that [of p'] assms i by (simp add: pipe_live_def pipe_write_def Let_def pipes_inv_upd)
qed

lemma pipe_read_live:
  assumes "pipes_inv s" "\<not> pipe_bad_idx idx" "p_in_use (s ! nat idx)"
  obtains (empty) "pipe_contents (s ! nat idx) = []"
    "pipe_read idx len s = ((if p_write_closed (s ! nat idx) then 0 else - 2, []), s)"
  | (data) p' where "pipe_contents (s ! nat idx) \<noteq> []"
    "pipe_read idx len s =
      ((int (min (unat len) (unat (p_count (s ! nat idx)))),
        take (unat len) (pipe_contents (s ! nat idx))), s[nat idx := p'])"
    "pipe_inv p'" "pipe_contents p' = drop (unat len) (pipe_contents (s ! nat idx))"
    "p_in_use p'" "p_write_closed p' = p_write_closed (s ! nat idx)"
    "p_read_closed p' = p_read_closed (s ! nat idx)"
proof (cases "p_count (s ! nat idx) = 0")
  case True
  then show ?thesis using assms empty by (simp add: pipe_read_def Let_def pipe_contents_def)
next
  case False
  let ?p = "s ! nat idx"
  define n where "n = (if len < p_count ?p then len else p_count ?p)"
  have un: "unat n = min (unat len) (unat (p_count ?p))"
    by (simp add: n_def word_less_nat_alt min_def)
  have i: "nat idx < length s" "pipe_inv ?p" using assms(1,2) pipes_inv_nth by auto
  then obtain h where h: "pipe_read_loop ?p (unat n) =
      (ring (p_buf ?p) (unat (p_head ?p)) (unat n), ?p\<lparr>p_head := h\<rparr>)"
    "unat h = (unat (p_head ?p) + unat n) mod 4096"
    using pipe_read_loop_spec [of ?p "unat n"] by (auto simp: pipe_inv_nat)
  define p' where "p' = ?p\<lparr>p_head := h, p_count := p_count ?p - n\<rparr>"
  have le: "unat n \<le> unat (p_count ?p)" using un by simp
  then have c: "unat (p_count p') = unat (p_count ?p) - unat n"
    by (simp add: p'_def unat_sub word_le_nat_alt)
  have "ring (p_buf ?p) (unat (p_head ?p)) (unat n) = take (unat len) (pipe_contents ?p)"
    using ring_take [OF le] un by (simp add: pipe_contents_def min_def)
  moreover have "pipe_contents p' = drop (unat len) (pipe_contents ?p)"
    using ring_drop [OF le, of "p_buf ?p" "unat (p_head ?p)"] i(2) un h(2) c
    by (simp add: pipe_contents_def pipe_inv_nat p'_def min_def split: if_splits)
  moreover have "pipe_inv p'" using i(2) h(2) c
    by (auto simp: pipe_inv_nat p'_def intro: le_trans [OF diff_le_self])
  moreover have "pipe_contents ?p \<noteq> []"
    using False by (metis length_pipe_contents length_0_conv unat_0_iff)
  ultimately show ?thesis
    using data [of p'] assms False h un uint_nat [of n]
    by (simp add: pipe_read_def Let_def p'_def flip: n_def)
qed


text \<open>Writing to and reading from an open pipe, as queue operations on the pipe table.\<close>

definition pipe_push :: "int \<Rightarrow> pipes \<Rightarrow> bytes \<Rightarrow> nat \<times> pipes" where
  "pipe_push idx s bs = (let (n, s') = pipe_write idx bs s in (nat n, s'))"

definition pipe_pop :: "int \<Rightarrow> pipes \<Rightarrow> nat \<Rightarrow> bytes \<times> pipes" where
  "pipe_pop idx s k = (let ((n, bs), s') = pipe_read idx (of_nat (min k 4096)) s in (bs, s'))"

interpretation pipe_q: byte_queue "pipe_push idx" "pipe_pop idx"
  "\<lambda>s. pipe_contents (s ! nat idx)" "pipe_live idx" 4096 for idx
proof
  fix s bs k
  assume l: "pipe_live idx s"
  have i: "nat idx < length s" "pipe_inv (s ! nat idx)"
    using l pipes_inv_nth by (auto simp: pipe_live_def)
  show "length (pipe_contents (s ! nat idx)) \<le> 4096" using i by (simp add: pipe_inv_nat)
  from l show "\<exists>s'. pipe_live idx s' \<and>
      pipe_push idx s bs = (min (length bs) (4096 - length (pipe_contents (s ! nat idx))), s') \<and>
      pipe_contents (s' ! nat idx) = pipe_contents (s ! nat idx) @
        take (4096 - length (pipe_contents (s ! nat idx))) bs"
    by (rule pipe_write_live [of _ _ bs]) (use i in \<open>simp add: pipe_push_def\<close>)
  have k: "unat (of_nat (min k 4096) :: u32) = min k 4096"
    by (rule unat_of_nat_less) simp
  have c: "unat (p_count (s ! nat idx)) \<le> 4096" using i by (simp add: pipe_inv_nat)
  have t: "take (min k 4096) (pipe_contents (s ! nat idx)) = take k (pipe_contents (s ! nat idx))"
    "drop (min k 4096) (pipe_contents (s ! nat idx)) = drop k (pipe_contents (s ! nat idx))"
    using c by (simp_all add: min_def)
  from l have "pipes_inv s" "\<not> pipe_bad_idx idx" "p_in_use (s ! nat idx)"
    by (simp_all add: pipe_live_def)
  then show "\<exists>s'. pipe_live idx s' \<and>
      pipe_pop idx s k = (take k (pipe_contents (s ! nat idx)), s') \<and>
      pipe_contents (s' ! nat idx) = drop k (pipe_contents (s ! nat idx))"
  proof (cases rule: pipe_read_live [of s idx "of_nat (min k 4096)"])
    case empty
    then show ?thesis using l by (simp add: pipe_pop_def)
  next
    case (data p')
    then show ?thesis
      using l i k t by (simp add: pipe_pop_def pipe_live_def pipes_inv_upd)
  qed
qed

definition pipe_used :: "pipes \<Rightarrow> nat \<Rightarrow> bool" where
  "pipe_used s i \<longleftrightarrow> i < MAX_PIPES \<and> p_in_use (s ! i)"

lemma pipe_inv_zero [simp]: "pipe_inv (pipe_zero\<lparr>p_in_use := b\<rparr>)"
  by (simp add: pipe_inv_nat pipe_zero_def PIPE_BUF_def)

interpretation pipe_slots: slot_table 0 MAX_PIPES pipe_used pipe_alloc "\<lambda>i. pipe_free (int i)" pipes_inv
proof
  fix s :: pipes
  assume inv: "pipes_inv s"
  have f: "first_free 0 MAX_PIPES (\<lambda>i. p_in_use (s ! i)) = first_free 0 MAX_PIPES (pipe_used s)"
    by (rule first_free_cong) (simp add: pipe_used_def)
  show "case first_free 0 MAX_PIPES (pipe_used s) of
      None \<Rightarrow> pipe_alloc s = (- 1, s)
    | Some i \<Rightarrow> \<exists>t'. pipe_alloc s = (int i, t') \<and> pipes_inv t' \<and> pipe_used t' = (pipe_used s)(i := True)"
  proof (cases "first_free 0 MAX_PIPES (pipe_used s)")
    case (Some i)
    then have "i < MAX_PIPES" by (rule first_free_less)
    moreover have "pipes_inv (s[i := pipe_zero\<lparr>p_in_use := True\<rparr>])"
      using inv by (simp add: pipes_inv_upd)
    ultimately show ?thesis
      using Some f inv by (auto simp: pipe_alloc_def pipe_used_def pipes_inv_def [of s]
          nth_list_update fun_eq_iff)
  qed (simp add: pipe_alloc_def f)
  fix i assume i: "i < MAX_PIPES"
  then have "pipe_inv (s ! i)" using inv by (simp add: pipes_inv_def)
  then have "pipe_inv ((s ! i)\<lparr>p_in_use := False\<rparr>)" by (simp add: pipe_inv_def)
  then have "pipes_inv (s[i := (s ! i)\<lparr>p_in_use := False\<rparr>])" using inv by (simp add: pipes_inv_upd)
  then show "pipes_inv (pipe_free (int i) s) \<and> pipe_used (pipe_free (int i) s) = (pipe_used s)(i := False)"
    using inv i by (auto simp: pipe_free_def pipe_bad_idx_def pipe_used_def pipes_inv_def [of s]
        nth_list_update fun_eq_iff)
qed

text \<open>
  C10: A pipe is a loss-free byte stream.  Whatever the sequence of writes and reads on an
  open pipe, the bytes buffered before followed by the bytes the writes accepted are the bytes
  the reads delivered followed by the bytes still buffered; at most 4096 bytes stay buffered.
\<close>

theorem pipe_stream:
  assumes "pipe_live idx s" "queue_run (pipe_push idx) (pipe_pop idx) s ops = (accepted, delivered, s')"
  shows "pipe_contents (s ! nat idx) @ accepted = delivered @ pipe_contents (s' ! nat idx) \<and>
    length (pipe_contents (s' ! nat idx)) \<le> 4096 \<and> pipe_live idx s'"
  using pipe_q.fifo [OF assms] pipe_q.bounded by blast

text \<open>
  The return value of a read tells the three cases apart: bytes are delivered when some
  are buffered (as many as fit), end of file is reported only for an empty pipe whose write end
  is closed, and an empty pipe that can still be written reports \<open>-2\<close>; in the last two
  cases nothing changes.  A read changes no other pipe.
\<close>

lemma pipe_read_result:
  assumes "pipes_inv s" "\<not> pipe_bad_idx idx" "p_in_use (s ! nat idx)"
    "pipe_read idx len s = ((n, bs), s')"
  shows "(if pipe_contents (s ! nat idx) = []
          then n = (if p_write_closed (s ! nat idx) then 0 else - 2) \<and> bs = [] \<and> s' = s
          else n = int (length bs) \<and> bs = take (unat len) (pipe_contents (s ! nat idx))) \<and>
    pipe_contents (s' ! nat idx) = drop (length bs) (pipe_contents (s ! nat idx)) \<and>
    pipes_inv s' \<and> (\<forall>j. j \<noteq> nat idx \<longrightarrow> s' ! j = s ! j)"
  using assms(1-3)
proof (cases rule: pipe_read_live [of s idx len])
  case empty
  then show ?thesis using assms by auto
next
  case (data p')
  have "nat idx < length s" using assms(1,2) pipes_inv_nth by blast
  then show ?thesis
    using assms data by (auto simp: pipes_inv_upd min_def)
qed

subsection \<open>Instances\<close>

definition pipes_ex :: pipes where
  "pipes_ex = snd (pipe_alloc pipes_init)"

lemma pipes_init_inv: "pipes_inv pipes_init"
  using pipe_inv_zero [of False] by (simp add: pipes_inv_def pipes_init_def pipe_zero_def)

lemma pipes_ex_eq: "pipes_ex = pipes_init[0 := pipe_zero\<lparr>p_in_use := True\<rparr>]"
proof -
  have "first_free 0 MAX_PIPES (\<lambda>i. p_in_use (pipes_init ! i)) = Some 0"
    by (simp add: first_free_Some pipes_init_def MAX_PIPES_def pipe_zero_def)
  then show ?thesis by (simp add: pipes_ex_def pipe_alloc_def)
qed

lemma pipes_ex_0: "pipes_ex ! 0 = pipe_zero\<lparr>p_in_use := True\<rparr>"
  by (simp add: pipes_ex_eq pipes_init_def MAX_PIPES_def)

lemma pipes_ex_live: "pipe_live 0 pipes_ex"
proof -
  have "pipes_inv pipes_ex" by (simp add: pipes_ex_eq pipes_inv_upd pipes_init_inv)
  then show ?thesis
    by (simp add: pipe_live_def pipe_bad_idx_def MAX_PIPES_def pipes_ex_0 pipe_zero_def)
qed

theorem pipe_stream_witness:
  "pipe_live 0 pipes_ex \<and>
   (\<exists>a d s'. queue_run (pipe_push 0) (pipe_pop 0) pipes_ex [Push [1, 2, 3], Pop 2] = (a, d, s') \<and>
      a = d @ pipe_contents (s' ! 0))"
proof -
  obtain a d s' where r: "queue_run (pipe_push 0) (pipe_pop 0) pipes_ex [Push [1, 2, 3], Pop 2] = (a, d, s')"
    by (metis prod_cases3)
  have "pipe_contents (pipes_ex ! 0) = []"
    by (simp add: pipes_ex_0 pipe_contents_def pipe_zero_def)
  with pipe_stream [OF pipes_ex_live r] r pipes_ex_live show ?thesis by auto
qed

theorem pipe_read_result_witness:
  "pipes_inv pipes_ex \<and> (\<exists>s'. pipe_read 0 16 pipes_ex = ((- 2, []), s') \<and> s' = pipes_ex)"
proof -
  have p: "pipes_inv pipes_ex" "\<not> pipe_bad_idx 0" "p_in_use (pipes_ex ! nat 0)"
    using pipes_ex_live by (simp_all add: pipe_live_def)
  obtain n bs s' where r: "pipe_read 0 16 pipes_ex = ((n, bs), s')" by (metis prod.collapse)
  have "pipe_contents (pipes_ex ! 0) = []" "\<not> p_write_closed (pipes_ex ! 0)"
    by (simp_all add: pipes_ex_0 pipe_contents_def pipe_zero_def)
  with pipe_read_result [OF p r] r p(1) show ?thesis by simp
qed

end
