(* ===== verification/Bytes.thy ===== *)
theory Bytes
  imports Prelude
begin

text \<open>
  Integers as byte sequences, in the byte order of the processor (little endian) and of the
  network (big endian), byte-addressed memory with access to 64-bit words, and bounded access to buffers.
\<close>

subsection \<open>Little endian\<close>

fun le_word :: "bytes \<Rightarrow> 'a::len word" where
  "le_word [] = 0"
| "le_word (b # bs) = ucast b OR push_bit 8 (le_word bs)"

definition le_bytes :: "nat \<Rightarrow> 'a::len word \<Rightarrow> bytes" where
  "le_bytes n w = map (\<lambda>i. ucast (drop_bit (8 * i) w)) [0..<n]"

lemma length_le_bytes [simp]: "length (le_bytes n w) = n"
  by (simp add: le_bytes_def)

lemma le_bytes_0 [simp]: "le_bytes 0 w = []"
  by (simp add: le_bytes_def)

lemma le_bytes_Suc: "le_bytes (Suc n) w = ucast w # le_bytes n (drop_bit 8 w)"
  by (simp add: le_bytes_def map_upt_Suc drop_bit_drop_bit add.commute del: upt_Suc)

lemma nth_le_bytes: "i < n \<Longrightarrow> le_bytes n w ! i = ucast (drop_bit (8 * i) w)"
  by (simp add: le_bytes_def)

lemma bit_le_word:
  "bit (le_word bs :: 'a::len word) n \<longleftrightarrow>
     n < LENGTH('a) \<and> n div 8 < length bs \<and> bit (bs ! (n div 8)) (n mod 8)"
proof (induction bs arbitrary: n)
  case (Cons b bs)
  show ?case
  proof (cases "n < 8")
    case True
    then show ?thesis by (auto simp: bit_simps)
  next
    case False
    then have n: "n div 8 = Suc ((n - 8) div 8)" "n mod 8 = (n - 8) mod 8"
      using le_div_geq [of 8 n] le_mod_geq [of 8 n] by simp_all
    have "\<not> bit b n" using False bit_imp_le_length [of b n] by auto
    then show ?thesis using False by (auto simp: bit_simps Cons.IH n simp del: One_nat_def)
  qed
qed simp

lemma le_word_le_bytes [simp]:
  assumes "LENGTH('a) \<le> 8 * n"
  shows "le_word (le_bytes n w) = (w :: 'a::len word)"
proof (rule bit_word_eqI)
  fix k assume k: "k < LENGTH('a)"
  then have "k div 8 < n" using assms by auto
  then show "bit (le_word (le_bytes n w) :: 'a word) k = bit w k"
    using k by (simp add: bit_le_word nth_le_bytes bit_simps)
qed

lemma le_bytes_le_word [simp]:
  assumes "8 * length bs \<le> LENGTH('a)"
  shows "le_bytes (length bs) (le_word bs :: 'a::len word) = bs"
proof (rule nth_equalityI)
  fix i assume "i < length (le_bytes (length bs) (le_word bs :: 'a word))"
  then have i: "i < length bs" by simp
  show "le_bytes (length bs) (le_word bs :: 'a word) ! i = bs ! i"
  proof (rule bit_word_eqI)
    fix k assume k: "k < LENGTH(8)"
    then have "8 * i + k < LENGTH('a)" "(8 * i + k) div 8 = i" "(8 * i + k) mod 8 = k"
      using i assms by auto
    then show "bit (le_bytes (length bs) (le_word bs :: 'a word) ! i) k = bit (bs ! i) k"
      using i k by (simp add: nth_le_bytes bit_simps bit_le_word)
  qed
qed simp

subsection \<open>Big endian\<close>

definition be_word :: "bytes \<Rightarrow> 'a::len word" where
  "be_word bs = le_word (rev bs)"

definition be_bytes :: "nat \<Rightarrow> 'a::len word \<Rightarrow> bytes" where
  "be_bytes n w = rev (le_bytes n w)"

lemma length_be_bytes [simp]: "length (be_bytes n w) = n"
  by (simp add: be_bytes_def)

lemma be_word_be_bytes [simp]:
  "LENGTH('a) \<le> 8 * n \<Longrightarrow> be_word (be_bytes n w) = (w :: 'a::len word)"
  by (simp add: be_word_def be_bytes_def)

lemma be_bytes_be_word [simp]:
  assumes "8 * length bs \<le> LENGTH('a)"
  shows "be_bytes (length bs) (be_word bs :: 'a::len word) = bs"
  using le_bytes_le_word [of "rev bs", where 'a = 'a] assms
  by (simp add: be_word_def be_bytes_def)

subsection \<open>Memory\<close>

type_synonym mem = "u64 \<Rightarrow> u8"

definition ld_bytes :: "mem \<Rightarrow> u64 \<Rightarrow> nat \<Rightarrow> bytes" where
  "ld_bytes m a n = map (\<lambda>i. m (a + of_nat i)) [0..<n]"

definition st_bytes :: "u64 \<Rightarrow> bytes \<Rightarrow> mem \<Rightarrow> mem" where
  "st_bytes a bs m = (\<lambda>x. if unat (x - a) < length bs then bs ! unat (x - a) else m x)"

definition ld64 :: "mem \<Rightarrow> u64 \<Rightarrow> u64" where
  "ld64 m a = le_word (ld_bytes m a 8)"

definition st64 :: "u64 \<Rightarrow> u64 \<Rightarrow> mem \<Rightarrow> mem" where
  "st64 a v = st_bytes a (le_bytes 8 v)"

lemma length_ld_bytes [simp]: "length (ld_bytes m a n) = n"
  by (simp add: ld_bytes_def)

lemma nth_ld_bytes: "i < n \<Longrightarrow> ld_bytes m a n ! i = m (a + of_nat i)"
  by (simp add: ld_bytes_def)

lemma ld_bytes_st_same [simp]:
  assumes "length bs < 2 ^ 64"
  shows "ld_bytes (st_bytes a bs m) a (length bs) = bs"
proof (rule nth_equalityI)
  fix i assume "i < length (ld_bytes (st_bytes a bs m) a (length bs))"
  then have i: "i < length bs" by simp
  then have "unat (of_nat i :: u64) = i" using assms by (intro unat_of_nat_less) simp
  then show "ld_bytes (st_bytes a bs m) a (length bs) ! i = bs ! i"
    using i by (simp add: nth_ld_bytes st_bytes_def)
qed simp

lemma ld64_st64_same [simp]: "ld64 (st64 a v m) a = v"
  using ld_bytes_st_same [of "le_bytes 8 v" a m] by (simp add: ld64_def st64_def)

lemma ld_bytes_cong:
  "(\<And>i. i < n \<Longrightarrow> m (a + of_nat i) = m' (a + of_nat i)) \<Longrightarrow> ld_bytes m a n = ld_bytes m' a n"
  by (simp add: ld_bytes_def)

text \<open>A store does not reach a byte range that ends before it or begins after it.\<close>

lemma out_of_range:
  fixes x a :: u64
  assumes "unat x < unat a \<or> unat a + n \<le> unat x" "unat a + n \<le> 2 ^ 64"
  shows "\<not> unat (x - a) < n"
proof -
  have x: "unat x < 2 ^ 64" using unsigned_less [of x] by simp
  show ?thesis
  proof (cases "a \<le> x")
    case True
    then show ?thesis using assms by (auto simp: unat_sub word_le_nat_alt)
  next
    case False
    then have lt: "unat x < unat a" by (simp add: word_le_nat_alt not_le)
    have "unat (x - a) = unat x + 2 ^ 64 - unat a"
      using lt unsigned_less [of a] by (simp add: unat_sub_if')
    then show ?thesis using assms(2) lt x by simp
  qed
qed

lemma st_bytes_other:
  assumes "unat x < unat a \<or> unat a + length bs \<le> unat x" "unat a + length bs \<le> 2 ^ 64"
  shows "st_bytes a bs m x = m x"
  using out_of_range [OF assms] by (simp add: st_bytes_def)

lemma ld64_st64_other:
  assumes "unat b + 8 \<le> unat a \<or> unat a + 8 \<le> unat b" "unat a + 8 \<le> 2 ^ 64" "unat b + 8 \<le> 2 ^ 64"
  shows "ld64 (st64 a v m) b = ld64 m b"
proof -
  have "st_bytes a (le_bytes 8 v) m (b + of_nat i) = m (b + of_nat i)" if "i < 8" for i
  proof (rule st_bytes_other)
    have "unat (of_nat i :: u64) = i" using that by (intro unat_of_nat_less) simp
    then have "unat (b + of_nat i) = unat b + i"
      using that assms(3) by (subst unat_add_lem [THEN iffD1]) auto
    then show "unat (b + of_nat i) < unat a \<or> unat a + length (le_bytes 8 v) \<le> unat (b + of_nat i)"
      using assms(1) that by auto
    show "unat a + length (le_bytes 8 v) \<le> 2 ^ 64" using assms by simp
  qed
  then show ?thesis
    unfolding ld64_def st64_def by (simp cong: ld_bytes_cong)
qed

subsection \<open>Buffers\<close>

text \<open>Access to a buffer of known length; outside it the access faults.\<close>

definition put :: "nat \<Rightarrow> bytes \<Rightarrow> bytes \<Rightarrow> bytes option" where
  "put off bs buf = (if off + length bs \<le> length buf
     then Some (take off buf @ bs @ drop (off + length bs) buf) else None)"

definition slice :: "nat \<Rightarrow> nat \<Rightarrow> bytes \<Rightarrow> bytes option" where
  "slice off n buf = (if off + n \<le> length buf then Some (take n (drop off buf)) else None)"

lemma le_word_zeros: "le_word (replicate n 0) = 0"
  by (induction n) simp_all

lemma length_put: "put off bs buf = Some buf' \<Longrightarrow> length buf' = length buf"
  by (auto simp: put_def split: if_splits)

lemma put_ok: "off + length bs \<le> length buf \<Longrightarrow> put off bs buf = Some (take off buf @ bs @ drop (off + length bs) buf)"
  by (simp add: put_def)

lemma slice_ok: "off + n \<le> length buf \<Longrightarrow> slice off n buf = Some (take n (drop off buf))"
  by (simp add: slice_def)

text \<open>A field of a structure stored in little endian: \<open>n\<close> bytes at offset \<open>off\<close>.\<close>

definition fld :: "nat \<Rightarrow> nat \<Rightarrow> bytes \<Rightarrow> 'a::len word" where
  "fld off n b = le_word (take n (drop off b))"

definition rd8 :: "bytes \<Rightarrow> nat \<Rightarrow> u8 option" where
  "rd8 d p = (if p < length d then Some (d ! p) else None)"

lemma rd8_ok [simp]: "p < length d \<Longrightarrow> rd8 d p = Some (d ! p)"
  by (simp add: rd8_def)

end
