(* ===== verification/Kstring.thy ===== *)
theory Kstring
  imports Bytes
begin

text \<open>
  The memory and string routines of the kernel (\<^verbatim>\<open>kernel/lib/string.c\<close>).  A pointer is a
  64-bit address into a byte memory; \<open>size_t\<close> counters are 64-bit words.  The routines that
  run until they find a terminator are partial functions: they return \<open>None\<close> when they
  never meet one.
\<close>

subsection \<open>Memory routines\<close>

function memset_loop :: "u64 \<Rightarrow> u8 \<Rightarrow> u64 \<Rightarrow> u64 \<Rightarrow> mem \<Rightarrow> mem" where
  "memset_loop dest v count i m =
     (if i < count then memset_loop dest v count (i + 1) (m(dest + i := v)) else m)"
  by pat_completeness auto
termination
  by (relation "measure (\<lambda>(dest, v, count, i, m). unat (count - i))") (auto simp: word_loop)

definition memset :: "u64 \<Rightarrow> int \<Rightarrow> u64 \<Rightarrow> mem \<Rightarrow> mem" where
  "memset dest value count m = memset_loop dest (word_of_int value) count 0 m"

function memcpy_loop :: "u64 \<Rightarrow> u64 \<Rightarrow> u64 \<Rightarrow> u64 \<Rightarrow> mem \<Rightarrow> mem" where
  "memcpy_loop dest src count i m =
     (if i < count then memcpy_loop dest src count (i + 1) (m(dest + i := m (src + i))) else m)"
  by pat_completeness auto
termination
  by (relation "measure (\<lambda>(dest, src, count, i, m). unat (count - i))") (auto simp: word_loop)

definition memcpy :: "u64 \<Rightarrow> u64 \<Rightarrow> u64 \<Rightarrow> mem \<Rightarrow> mem" where
  "memcpy dest src count m = memcpy_loop dest src count 0 m"

lemma unat_pred_less: "i \<noteq> 0 \<Longrightarrow> unat (i - 1 :: 'a::len word) < unat i"
  by (simp add: unat_minus_one unat_gt_0 word_neq_0_conv)

function memmove_down :: "u64 \<Rightarrow> u64 \<Rightarrow> u64 \<Rightarrow> mem \<Rightarrow> mem" where
  "memmove_down dest src i m =
     (if i \<noteq> 0 then memmove_down dest src (i - 1) (m(dest + (i - 1) := m (src + (i - 1)))) else m)"
  by pat_completeness auto
termination
  by (relation "measure (\<lambda>(dest, src, i, m). unat i)") (auto simp: unat_pred_less)

definition memmove :: "u64 \<Rightarrow> u64 \<Rightarrow> u64 \<Rightarrow> mem \<Rightarrow> mem" where
  "memmove dest src count m =
     (if dest = src \<or> count = 0 then m
      else if dest < src then memcpy_loop dest src count 0 m
      else memmove_down dest src count m)"

function memcmp_loop :: "u64 \<Rightarrow> u64 \<Rightarrow> u64 \<Rightarrow> u64 \<Rightarrow> mem \<Rightarrow> int" where
  "memcmp_loop a b count i m =
     (if i < count then
        if m (a + i) \<noteq> m (b + i) then uint (m (a + i)) - uint (m (b + i))
        else memcmp_loop a b count (i + 1) m
      else 0)"
  by pat_completeness auto
termination
  by (relation "measure (\<lambda>(a, b, count, i, m). unat (count - i))") (auto simp: word_loop)

definition memcmp :: "u64 \<Rightarrow> u64 \<Rightarrow> u64 \<Rightarrow> mem \<Rightarrow> int" where
  "memcmp lhs rhs count m = memcmp_loop lhs rhs count 0 m"

declare memset_loop.simps [simp del] memcpy_loop.simps [simp del] memmove_down.simps [simp del]
  memcmp_loop.simps [simp del]

subsection \<open>String routines\<close>

partial_function (option) strlen_loop :: "mem \<Rightarrow> u64 \<Rightarrow> u64 \<Rightarrow> u64 option" where
  "strlen_loop m text len =
     (if m (text + len) \<noteq> 0 then strlen_loop m text (len + 1) else Some len)"

definition strlen :: "mem \<Rightarrow> u64 \<Rightarrow> u64 option" where
  "strlen m text = strlen_loop m text 0"

partial_function (option) strcmp :: "mem \<Rightarrow> u64 \<Rightarrow> u64 \<Rightarrow> int option" where
  "strcmp m a b =
     (if m a \<noteq> 0 \<and> m a = m b then strcmp m (a + 1) (b + 1)
      else Some (uint (m a) - uint (m b)))"

function strncpy_copy :: "u64 \<Rightarrow> u64 \<Rightarrow> u64 \<Rightarrow> u64 \<Rightarrow> mem \<Rightarrow> u64 \<times> mem" where
  "strncpy_copy dst src n i m =
     (if i < n \<and> m (src + i) \<noteq> 0
      then strncpy_copy dst src n (i + 1) (m(dst + i := m (src + i)))
      else (i, m))"
  by pat_completeness auto
termination
  by (relation "measure (\<lambda>(dst, src, n, i, m). unat (n - i))") (auto simp: word_loop)

declare strncpy_copy.simps [simp del]

definition strncpy :: "u64 \<Rightarrow> u64 \<Rightarrow> u64 \<Rightarrow> mem \<Rightarrow> mem" where
  "strncpy dst src n m =
     (let (i, m) = strncpy_copy dst src n 0 m in memset_loop dst 0 n i m)"

definition strncat :: "u64 \<Rightarrow> u64 \<Rightarrow> u64 \<Rightarrow> mem \<Rightarrow> mem option" where
  "strncat dst src n m = do {
     l \<leftarrow> strlen m dst;
     let (i, m) = strncpy_copy (dst + l) src n 0 m;
     Some (m(dst + l + i := 0))
   }"

subsection \<open>What the memory routines do\<close>

text \<open>Bytes \<open>i, \<dots>, n - 1\<close> of the range at \<open>d\<close> replaced by \<open>f\<close>.\<close>

definition upd_range :: "u64 \<Rightarrow> u64 \<Rightarrow> u64 \<Rightarrow> (u64 \<Rightarrow> u8) \<Rightarrow> mem \<Rightarrow> mem" where
  "upd_range d i n f m = (\<lambda>x. if i \<le> x - d \<and> x - d < n then f (x - d) else m x)"

lemma upd_range_empty: "\<not> i < n \<Longrightarrow> upd_range d i n f m = m"
  by (auto simp: upd_range_def fun_eq_iff)

lemma word_le_Suc_less:
  fixes i n k :: "'a::len word"
  assumes "i < n"
  shows "i + 1 \<le> k \<longleftrightarrow> i < k"
  unfolding word_le_nat_alt word_less_nat_alt unat_Suc_of_less [OF assms] Suc_le_eq ..

lemma upd_range_step:
  assumes "i < n"
  shows "upd_range d (i + 1) n f (m(d + i := f i)) = upd_range d i n f m"
proof
  fix x
  have "x = d + i \<longleftrightarrow> x - d = i" by (auto simp: algebra_simps)
  then show "upd_range d (i + 1) n f (m(d + i := f i)) x = upd_range d i n f m x"
    using assms by (auto simp: upd_range_def word_le_Suc_less [OF assms])
qed

lemma memset_loop_range: "memset_loop d v n i m = upd_range d i n (\<lambda>_. v) m"
proof (induction d v n i m rule: memset_loop.induct)
  case (1 d v n i m)
  show ?case
  proof (cases "i < n")
    case True
    show ?thesis
      using 1 [OF True] upd_range_step [OF True, of d "\<lambda>_. v" m] True
      by (simp only: memset_loop.simps [of d v n i m] if_True)
  qed (simp add: memset_loop.simps [of d v n i m] upd_range_empty)
qed

lemma upd_range_st_bytes: "upd_range d 0 n (\<lambda>k. bs ! unat k) m = st_bytes d bs m" if "length bs = unat n"
  using that by (simp add: upd_range_def st_bytes_def fun_eq_iff word_less_nat_alt)

lemma memset_eq: "memset d v n m = st_bytes d (replicate (unat n) (word_of_int v)) m"
  by (subst upd_range_st_bytes [symmetric, of _ n])
    (auto simp: memset_def memset_loop_range upd_range_def fun_eq_iff word_less_nat_alt)

text \<open>
  The upward copy is right when no byte is written before it is read: each source byte
  either lies outside the part of the destination already written or is not behind it.
\<close>

lemma memcpy_loop_range:
  assumes "\<And>j k. i \<le> j \<Longrightarrow> j < k \<Longrightarrow> k < n \<Longrightarrow> src + k \<noteq> dst + j"
  shows "memcpy_loop dst src n i m = upd_range dst i n (\<lambda>k. m (src + k)) m"
  using assms
proof (induction dst src n i m rule: memcpy_loop.induct)
  case (1 d s n i m)
  show ?case
  proof (cases "i < n")
    case True
    let ?m = "m(d + i := m (s + i))"
    have "memcpy_loop d s n (i + 1) ?m = upd_range d (i + 1) n (\<lambda>k. ?m (s + k)) ?m"
    proof (rule 1(1) [OF True])
      fix j k assume "i + 1 \<le> j" "j < k" "k < n"
      then show "s + k \<noteq> d + j" using 1(2) [of j k] word_le_Suc_less [OF True, of j] by simp
    qed
    also have "\<dots> = upd_range d (i + 1) n (\<lambda>k. m (s + k)) ?m"
      using 1(2) [of i] word_le_Suc_less [OF True] by (auto simp: upd_range_def fun_eq_iff)
    also have "\<dots> = upd_range d i n (\<lambda>k. m (s + k)) m"
      by (rule upd_range_step [OF True, where f = "\<lambda>k. m (s + k)"])
    finally show ?thesis using True by (simp add: memcpy_loop.simps [of d s n i m])
  qed (simp add: memcpy_loop.simps [of d s n i m] upd_range_empty)
qed

lemma memmove_down_range:
  assumes "\<And>j k. j < k \<Longrightarrow> k < n \<Longrightarrow> src + j \<noteq> dst + k"
  shows "memmove_down dst src n m = upd_range dst 0 n (\<lambda>k. m (src + k)) m"
  using assms
proof (induction dst src n m rule: memmove_down.induct)
  case (1 d s n m)
  show ?case
  proof (cases "n = 0")
    case False
    let ?m = "m(d + (n - 1) := m (s + (n - 1)))"
    have lt: "k < n \<longleftrightarrow> k < n - 1 \<or> k = n - 1" for k
    proof -
      have "unat n = Suc (unat (n - 1))" using False by (simp add: unat_minus_one unat_gt_0)
      then show ?thesis by (auto simp: word_less_nat_alt less_Suc_eq word_unat_eq_iff)
    qed
    have ne: "s + k \<noteq> d + (n - 1)" if "k < n - 1" for k using 1(2) [OF that] lt by auto
    have "memmove_down d s (n - 1) ?m = upd_range d 0 (n - 1) (\<lambda>k. ?m (s + k)) ?m"
      using 1(2) lt by (intro 1(1) [OF False]) auto
    also have "\<dots> = upd_range d 0 (n - 1) (\<lambda>k. m (s + k)) ?m"
      using ne by (auto simp: upd_range_def fun_eq_iff)
    also have "\<dots> = upd_range d 0 n (\<lambda>k. m (s + k)) m"
    proof
      fix x
      have "x = d + (n - 1) \<longleftrightarrow> x - d = n - 1" by (auto simp: algebra_simps)
      then show "upd_range d 0 (n - 1) (\<lambda>k. m (s + k)) ?m x = upd_range d 0 n (\<lambda>k. m (s + k)) m x"
        by (auto simp: upd_range_def lt [of "x - d"])
    qed
    finally show ?thesis using False by (simp add: memmove_down.simps [of d s n m])
  qed (simp add: memmove_down.simps [of d s 0 m] upd_range_empty)
qed

text \<open>Two ranges that do not wrap around the end of the address space.\<close>

definition in_space :: "u64 \<Rightarrow> u64 \<Rightarrow> bool" where
  "in_space a n \<longleftrightarrow> unat a + unat n \<le> 2 ^ 64"

lemma in_space_add: "in_space a n \<Longrightarrow> k < n \<Longrightarrow> unat (a + k) = unat a + unat k"
  by (simp add: in_space_def word_less_nat_alt unat_add_lem [THEN iffD1])

lemma upd_range_copy:
  "upd_range d 0 n (\<lambda>k. m (s + k)) m = st_bytes d (ld_bytes m s (unat n)) m"
  by (auto simp: upd_range_def st_bytes_def fun_eq_iff word_less_nat_alt nth_ld_bytes)

definition disjoint_ranges :: "u64 \<Rightarrow> u64 \<Rightarrow> u64 \<Rightarrow> bool" where
  "disjoint_ranges a b n \<longleftrightarrow> unat a + unat n \<le> unat b \<or> unat b + unat n \<le> unat a"

lemma memcpy_eq:
  assumes "in_space d n" "in_space s n" "disjoint_ranges d s n"
  shows "memcpy d s n m = st_bytes d (ld_bytes m s (unat n)) m"
  unfolding memcpy_def upd_range_copy [symmetric]
proof (rule memcpy_loop_range)
  fix j k assume "0 \<le> j" "j < k" "k < n"
  then have "unat (s + k) = unat s + unat k" "unat (d + j) = unat d + unat j"
    "unat j < unat n" "unat k < unat n"
    using in_space_add assms(1,2) by (auto simp: word_less_nat_alt)
  then show "s + k \<noteq> d + j" using assms(3) by (auto simp: disjoint_ranges_def dest: arg_cong [where f = unat])
qed

text \<open>
  C14: \<open>memmove\<close> copies correctly whether or not the two ranges overlap: afterwards the
  destination holds the bytes that the source held before, and no byte outside the
  destination has changed.
\<close>

theorem memmove_correct:
  assumes "in_space dest count" "in_space src count"
  shows "memmove dest src count m = st_bytes dest (ld_bytes m src (unat count)) m"
proof -
  have d: "unat (dest + k) = unat dest + unat k" "unat (src + k) = unat src + unat k" if "k < count" for k
    using in_space_add [OF _ that] assms by auto
  consider "dest = src \<or> count = 0" | "dest < src" "count \<noteq> 0" | "src < dest" "count \<noteq> 0" by force
  then show ?thesis
  proof cases
    case 1
    then show ?thesis
      by (auto simp: memmove_def upd_range_copy [symmetric] upd_range_def fun_eq_iff)
  next
    case 2
    have "memcpy_loop dest src count 0 m = upd_range dest 0 count (\<lambda>k. m (src + k)) m"
    proof (rule memcpy_loop_range)
      fix j k assume "0 \<le> j" "j < k" "k < count"
      then have "unat (dest + j) < unat (src + k)" using 2(1) d [of j] d [of k] by (simp add: word_less_nat_alt)
      then show "src + k \<noteq> dest + j" by auto
    qed
    then show ?thesis using 2 by (auto simp: memmove_def upd_range_copy)
  next
    case 3
    have "memmove_down dest src count m = upd_range dest 0 count (\<lambda>k. m (src + k)) m"
    proof (rule memmove_down_range)
      fix j k assume "j < k" "k < count"
      then have "unat (src + j) < unat (dest + k)" using 3(1) d [of j] d [of k] by (simp add: word_less_nat_alt)
      then show "src + j \<noteq> dest + k" by auto
    qed
    then show ?thesis using 3 by (auto simp: memmove_def upd_range_copy)
  qed
qed

lemma memcmp_loop_zero:
  "memcmp_loop a b n i m = 0 \<longleftrightarrow> (\<forall>k. i \<le> k \<and> k < n \<longrightarrow> m (a + k) = m (b + k))"
proof (induction a b n i m rule: memcmp_loop.induct)
  case (1 a b n i m)
  show ?case
  proof (cases "i < n")
    case True
    then have "i \<le> k \<longleftrightarrow> k = i \<or> i + 1 \<le> k" for k by (auto simp: word_le_Suc_less [OF True])
    moreover have "uint (m (a + i)) - uint (m (b + i)) = 0 \<longleftrightarrow> m (a + i) = m (b + i)"
      by (simp add: word_uint_eq_iff)
    ultimately show ?thesis using 1 True by (auto simp: memcmp_loop.simps [of a b n i m])
  qed (auto simp: memcmp_loop.simps [of a b n i m])
qed

lemma memcmp_eq: "memcmp a b n m = 0 \<longleftrightarrow> ld_bytes m a (unat n) = ld_bytes m b (unat n)"
proof -
  have "(\<forall>k. k < n \<longrightarrow> m (a + k) = m (b + k)) \<longleftrightarrow> (\<forall>i < unat n. m (a + of_nat i) = m (b + of_nat i))"
  proof (intro iffI allI impI)
    fix i assume *: "\<forall>k. k < n \<longrightarrow> m (a + k) = m (b + k)" "i < unat n"
    then have "i < 2 ^ LENGTH(64)" using less_trans [OF _ unsigned_less] by blast
    then have "of_nat i < n" using *(2) by (simp only: word_less_nat_alt unat_of_nat_less)
    with * show "m (a + of_nat i) = m (b + of_nat i)" by blast
  next
    fix k assume *: "\<forall>i < unat n. m (a + of_nat i) = m (b + of_nat i)" "k < n"
    then show "m (a + k) = m (b + k)"
      by (elim allE [of _ "unat k"]) (simp add: word_less_nat_alt)
  qed
  then show ?thesis
    by (auto simp: memcmp_def memcmp_loop_zero list_eq_iff_nth_eq nth_ld_bytes)
qed

subsection \<open>What the string routines do\<close>

text \<open>The C string \<open>s\<close> (without its terminator) is stored at \<open>p\<close>.\<close>

definition cstr :: "mem \<Rightarrow> u64 \<Rightarrow> bytes \<Rightarrow> bool" where
  "cstr m p s \<longleftrightarrow> unat p + length s < 2 ^ 64 \<and> ld_bytes m p (length s) = s \<and> 0 \<notin> set s \<and>
     m (p + of_nat (length s)) = 0"

lemma cstr_nth:
  assumes "cstr m p s" "i < length s"
  shows "m (p + of_nat i) = s ! i \<and> s ! i \<noteq> 0"
proof -
  have "s ! i \<in> set s" using assms(2) by simp
  moreover have "m (p + of_nat i) = s ! i"
    using assms nth_ld_bytes [of i "length s" m p] by (simp add: cstr_def)
  ultimately show ?thesis using assms(1) by (auto simp: cstr_def)
qed

lemma cstr_end: "cstr m p s \<Longrightarrow> m (p + of_nat (length s)) = 0"
  by (simp add: cstr_def)

lemma strlen_loop_cstr:
  assumes "cstr m p s" "i \<le> length s"
  shows "strlen_loop m p (of_nat i) = Some (of_nat (length s))"
  using assms(2)
proof (induction i rule: inc_induct)
  case base
  then show ?case using cstr_end [OF assms(1)] by (simp add: strlen_loop.simps)
next
  case (step i)
  then show ?case
    using cstr_nth [OF assms(1) step(2)]
    by (subst strlen_loop.simps) (simp add: add.commute)
qed

lemma strlen_cstr: "cstr m p s \<Longrightarrow> strlen m p = Some (of_nat (length s))"
  using strlen_loop_cstr [of m p s 0] by (simp add: strlen_def)

lemma cstr_Cons: "cstr m p (c # s) \<Longrightarrow> m p = c \<and> c \<noteq> 0 \<and> cstr m (p + 1) s"
proof -
  assume a: "cstr m p (c # s)"
  have "m p = c \<and> c \<noteq> 0" using cstr_nth [OF a, of 0] by simp
  moreover have "unat (p + 1) = Suc (unat p)"
    using a by (subst unat_add_lem [THEN iffD1]) (simp_all add: cstr_def)
  moreover have "ld_bytes m (p + 1) (length s) = s"
  proof (rule nth_equalityI)
    fix i assume "i < length (ld_bytes m (p + 1) (length s))"
    then show "ld_bytes m (p + 1) (length s) ! i = s ! i"
      using cstr_nth [OF a, of "Suc i"] by (simp add: nth_ld_bytes algebra_simps)
  qed simp
  ultimately show ?thesis using a by (auto simp: cstr_def algebra_simps)
qed

text \<open>
  \<open>strcmp\<close> terminates on two C strings and returns 0 exactly when they are equal;
  otherwise the result is the difference of the first bytes that differ, the terminator
  counting as 0.
\<close>

lemma strcmp_correct:
  assumes "cstr m a s" "cstr m b t"
  shows "\<exists>r. strcmp m a b = Some r \<and> (r = 0 \<longleftrightarrow> s = t) \<and>
    (s \<noteq> t \<longrightarrow> (\<exists>p x y. s @ [0] = p @ x \<and> t @ [0] = p @ y \<and> x \<noteq> [] \<and> y \<noteq> [] \<and> hd x \<noteq> hd y \<and>
       r = uint (hd x) - uint (hd y)))"
  using assms
proof (induction s arbitrary: a b t)
  case Nil
  then have a: "m a = 0" using cstr_end [of m a "[]"] by simp
  show ?case
  proof (cases t)
    case (Cons c t')
    then have "m b = c" "c \<noteq> 0" using cstr_Cons [of m b c t'] Nil(2) by simp_all
    moreover from this have "strcmp m a b = Some (uint (0 :: u8) - uint c)"
      using a by (subst strcmp.simps) simp
    moreover have "uint c \<noteq> 0" using \<open>c \<noteq> 0\<close> by (simp add: word_uint_eq_iff)
    moreover have "\<exists>p x y. [] @ [0] = p @ x \<and> t @ [0] = p @ y \<and> x \<noteq> [] \<and> y \<noteq> [] \<and> hd x \<noteq> hd y \<and>
        uint (0 :: u8) - uint c = uint (hd x) - uint (hd y)"
      using Cons \<open>c \<noteq> 0\<close>
      by (intro exI [of _ "[]"] exI [of _ "[0 :: u8]"] exI [of _ "t @ [0]"]) simp
    ultimately show ?thesis using Cons by simp
  next
    case Nil2: Nil
    then show ?thesis using a cstr_end [OF Nil(2)] by (subst strcmp.simps) simp
  qed
next
  case (Cons c s)
  then have a: "m a = c" "c \<noteq> 0" "cstr m (a + 1) s" using cstr_Cons [of m a c s] by simp_all
  show ?case
  proof (cases "\<exists>t'. t = c # t'")
    case True
    then obtain t' where t: "t = c # t'" by blast
    then have b: "m b = c" "cstr m (b + 1) t'" using cstr_Cons [of m b c t'] Cons(3) by simp_all
    obtain r where r: "strcmp m (a + 1) (b + 1) = Some r" "r = 0 \<longleftrightarrow> s = t'"
      "s \<noteq> t' \<longrightarrow> (\<exists>p x y. s @ [0] = p @ x \<and> t' @ [0] = p @ y \<and> x \<noteq> [] \<and> y \<noteq> [] \<and> hd x \<noteq> hd y \<and>
        r = uint (hd x) - uint (hd y))"
      using Cons.IH [OF a(3) b(2)] by blast
    have "strcmp m a b = Some r" using a b r by (subst strcmp.simps) simp
    moreover have "\<exists>p x y. (c # s) @ [0] = p @ x \<and> t @ [0] = p @ y \<and> x \<noteq> [] \<and> y \<noteq> [] \<and> hd x \<noteq> hd y \<and>
        r = uint (hd x) - uint (hd y)" if "s \<noteq> t'"
    proof -
      from r(3) that obtain p x y where "s @ [0] = p @ x" "t' @ [0] = p @ y" "x \<noteq> []" "y \<noteq> []"
        "hd x \<noteq> hd y" "r = uint (hd x) - uint (hd y)" by blast
      then show ?thesis using t
        by (intro exI [of _ "c # p"] exI [of _ x] exI [of _ y]) simp
    qed
    ultimately show ?thesis using r(2) t by simp
  next
    case False
    have b: "m b \<noteq> c" "hd (t @ [0]) = m b"
    proof -
      show "m b \<noteq> c"
        using False cstr_Cons [of m b "hd t" "tl t"] Cons(3) cstr_end [of m b "[]"] a(2) by (cases t) auto
      show "hd (t @ [0]) = m b"
        using cstr_Cons [of m b "hd t" "tl t"] Cons(3) cstr_end [of m b "[]"] by (cases t) auto
    qed
    then have "uint c - uint (m b) \<noteq> 0" by (simp add: word_uint_eq_iff)
    moreover have "strcmp m a b = Some (uint c - uint (m b))"
      using a b by (subst strcmp.simps) simp
    moreover have "\<exists>p x y. (c # s) @ [0] = p @ x \<and> t @ [0] = p @ y \<and> x \<noteq> [] \<and> y \<noteq> [] \<and> hd x \<noteq> hd y \<and>
        uint c - uint (m b) = uint (hd x) - uint (hd y)"
      using b by (intro exI [of _ "[]"] exI [of _ "(c # s) @ [0 :: u8]"] exI [of _ "t @ [0]"]) simp
    ultimately show ?thesis using False by auto
  qed
qed

text \<open>No byte of the destination range is a byte of the string at \<open>src\<close>.\<close>

definition apart :: "u64 \<Rightarrow> nat \<Rightarrow> u64 \<Rightarrow> nat \<Rightarrow> bool" where
  "apart dst k src n \<longleftrightarrow> (\<forall>i \<le> k. \<forall>j \<le> n. dst + of_nat i \<noteq> src + of_nat j)"

lemma strncpy_copy_cstr:
  assumes "cstr m src s" "apart dst k src (length s)" "k = min (unat n) (length s)" "i \<le> k"
    "\<And>j. i \<le> j \<Longrightarrow> j \<le> length s \<Longrightarrow> m' (src + of_nat j) = m (src + of_nat j)"
  shows "strncpy_copy dst src n (of_nat i) m' =
    (of_nat k, upd_range dst (of_nat i) (of_nat k) (\<lambda>j. m (src + j)) m')"
  using assms(4,5)
proof (induction i arbitrary: m' rule: inc_induct)
  case base
  have k: "unat (of_nat k :: u64) = k"
    using assms(3) unat_less [of n] by (intro unat_of_nat_less) simp
  have "\<not> (of_nat k < n \<and> m' (src + of_nat k) \<noteq> 0)"
    using base [of k] assms(3) cstr_end [OF assms(1)] k by (auto simp: word_less_nat_alt min_def split: if_splits)
  then show ?case by (simp only: strncpy_copy.simps [of dst src n "of_nat k" m'] if_False upd_range_empty less_irrefl not_False_eq_True)
next
  case (step i)
  have k: "unat (of_nat j :: u64) = j" if "j \<le> k" for j
    using assms(3) that unat_less [of n] by (intro unat_of_nat_less) simp
  have i: "i < length s" "of_nat i < n" "(of_nat i :: u64) < of_nat k"
    using step(2) assms(3) k [of i] k [of k] by (simp_all add: word_less_nat_alt)
  let ?m = "m'(dst + of_nat i := m (src + of_nat i))"
  have src: "m' (src + of_nat i) = m (src + of_nat i)" "m (src + of_nat i) \<noteq> 0"
    using step(4) [of i] i(1) cstr_nth [OF assms(1) i(1)] by simp_all
  have "strncpy_copy dst src n (of_nat (Suc i)) ?m =
      (of_nat k, upd_range dst (of_nat (Suc i)) (of_nat k) (\<lambda>j. m (src + j)) ?m)"
  proof (rule step.IH)
    fix j assume "Suc i \<le> j" "j \<le> length s"
    moreover from this have "src + of_nat j \<noteq> dst + of_nat i"
      using assms(2) step(2) by (simp add: apart_def) (metis less_imp_le)
    ultimately show "?m (src + of_nat j) = m (src + of_nat j)" using step(4) [of j] by simp
  qed
  moreover have "upd_range dst (of_nat (Suc i)) (of_nat k) (\<lambda>j. m (src + j)) ?m =
      upd_range dst (of_nat i) (of_nat k) (\<lambda>j. m (src + j)) m'"
    using upd_range_step [OF i(3), of dst "\<lambda>j. m (src + j)" m'] by (simp add: add.commute)
  ultimately show ?case
    using i src by (subst strncpy_copy.simps) (simp add: add.commute)
qed

text \<open>
  \<open>strncat\<close> terminates and appends at most \<open>n\<close> bytes of the source string to the
  destination string, terminated; nothing outside the appended bytes and their terminator
  changes.
\<close>

lemma strncat_correct:
  assumes "cstr m dst a" "cstr m src b" "k = min (unat n) (length b)"
    "unat dst + length a + k < 2 ^ 64" "apart (dst + of_nat (length a)) k src (length b)"
  shows "\<exists>m'. strncat dst src n m = Some m' \<and> cstr m' dst (a @ take (unat n) b) \<and>
    (\<forall>x. unat x < unat dst + length a \<or> unat dst + length a + k < unat x \<longrightarrow> m' x = m x)"
proof -
  let ?d = "dst + of_nat (length a)"
  define m1 where "m1 = upd_range ?d 0 (of_nat k) (\<lambda>j. m (src + j)) m"
  define m' where "m' = m1(?d + of_nat k := 0)"
  have un: "unat (of_nat j :: u64) = j" if "j \<le> length a + k" for j
    using assms(4) that by (intro unat_of_nat_less) simp
  have d: "unat (dst + of_nat j) = unat dst + j" if "j \<le> length a + k" for j
    using assms(4) that un [OF that] by (subst unat_add_lem [THEN iffD1]) simp_all
  have copy: "strncpy_copy ?d src n 0 m = (of_nat k, m1)"
    using strncpy_copy_cstr [OF assms(2,5,3), of 0 m] by (simp add: m1_def)
  have res: "strncat dst src n m = Some m'"
    by (simp add: strncat_def strlen_cstr [OF assms(1)] copy m'_def)
  have off: "dst + of_nat j - ?d = of_nat (j - length a)" if "length a \<le> j" for j
    using that by (simp add: of_nat_diff)
  have before: "m' x = m x" if "unat x < unat dst + length a" for x
  proof -
    have "x < ?d" using that d [of "length a"] by (simp add: word_less_nat_alt)
    then have "\<not> x - ?d < of_nat k"
      using that assms(4) d [of "length a"] un [of k] unsigned_less [of x]
      by (auto simp: word_less_nat_alt unat_sub_if')
    moreover have "x \<noteq> ?d + of_nat k"
      using that d [of "length a + k"] by (auto simp: add.assoc)
    ultimately show ?thesis by (simp add: m'_def m1_def upd_range_def)
  qed
  have after: "m' x = m x" if "unat dst + length a + k < unat x" for x
  proof -
    have "?d \<le> x" using that d [of "length a"] by (simp add: word_le_nat_alt)
    then have "\<not> x - ?d < of_nat k"
      using that d [of "length a"] un [of k] by (auto simp: word_less_nat_alt word_le_nat_alt unat_sub)
    moreover have "x \<noteq> ?d + of_nat k"
      using that d [of "length a + k"] by (auto simp: add.assoc)
    ultimately show ?thesis by (simp add: m'_def m1_def upd_range_def)
  qed
  have new: "m' (dst + of_nat j) = b ! (j - length a)" if "length a \<le> j" "j < length a + k" for j
  proof -
    have "dst + of_nat j \<noteq> dst + of_nat (length a + k)"
      using d [of j] d [of "length a + k"] that by (metis add_left_cancel less_imp_le_nat less_irrefl order_refl)
    then have "m' (dst + of_nat j) = m1 (dst + of_nat j)" by (simp add: m'_def add.assoc)
    also have "\<dots> = m (src + of_nat (j - length a))"
      using that off [of j] un [of "j - length a"] un [of k]
      by (simp add: m1_def upd_range_def word_less_nat_alt) linarith
    also have "\<dots> = b ! (j - length a)"
      using that assms(3) by (intro cstr_nth [THEN conjunct1, OF assms(2)]) simp
    finally show ?thesis .
  qed
  have "ld_bytes m' dst (length a + k) = a @ take (unat n) b"
  proof (rule nth_equalityI)
    fix i assume "i < length (ld_bytes m' dst (length a + k))"
    then have i: "i < length a + k" by simp
    show "ld_bytes m' dst (length a + k) ! i = (a @ take (unat n) b) ! i"
    proof (cases "i < length a")
      case True
      then show ?thesis
        using i d [of i] before [of "dst + of_nat i"] cstr_nth [OF assms(1) True]
        by (simp add: nth_ld_bytes nth_append)
    next
      case False
      then show ?thesis using i new [of i] assms(3) by (simp add: nth_ld_bytes nth_append)
    qed
  qed (simp add: assms(3))
  moreover have "0 \<notin> set (a @ take (unat n) b)"
    using assms(1,2) by (auto simp: cstr_def dest: in_set_takeD)
  ultimately have "cstr m' dst (a @ take (unat n) b)"
    using assms(3,4) by (simp add: cstr_def min.commute m'_def add.assoc)
  with res before after show ?thesis by blast
qed

subsection \<open>Instances\<close>

definition kmem_ex :: mem where
  "kmem_ex = st_bytes 0x1000 [97, 0] (st_bytes 0x2000 [98, 99, 0] (\<lambda>_. 7))"

lemma kmem_ex_cstr: "cstr kmem_ex 0x1000 [97]" "cstr kmem_ex 0x2000 [98, 99]"
  by (simp_all add: cstr_def ld_bytes_def kmem_ex_def st_bytes_def)

theorem memmove_correct_witness:
  "in_space 0x1001 2 \<and> in_space 0x1000 2 \<and>
   memmove 0x1001 0x1000 2 kmem_ex = st_bytes 0x1001 [97, 0] kmem_ex"
proof -
  have p: "in_space 0x1001 2" "in_space 0x1000 2" by (simp_all add: in_space_def)
  have "ld_bytes kmem_ex 0x1000 2 = [97, 0]"
    by (simp add: ld_bytes_def kmem_ex_def st_bytes_def upt_rec)
  with p memmove_correct [OF p, of kmem_ex] show ?thesis by simp
qed

theorem strcmp_correct_witness:
  "cstr kmem_ex 0x1000 [97] \<and> cstr kmem_ex 0x2000 [98, 99] \<and>
   (\<exists>r. strcmp kmem_ex 0x1000 0x2000 = Some r \<and> r \<noteq> 0)"
  using strcmp_correct [OF kmem_ex_cstr] kmem_ex_cstr by auto

theorem strncat_correct_witness:
  "cstr kmem_ex 0x1000 [97] \<and> cstr kmem_ex 0x2000 [98, 99] \<and>
   apart (0x1000 + of_nat (length [97 :: u8])) 1 0x2000 (length [98 :: u8, 99]) \<and>
   (\<exists>m'. strncat 0x1000 0x2000 1 kmem_ex = Some m' \<and> cstr m' 0x1000 [97, 98])"
proof -
  have a: "apart (0x1000 + of_nat (length [97 :: u8])) 1 0x2000 (length [98 :: u8, 99])"
    unfolding apart_def
  proof (intro allI impI)
    fix i j :: nat assume "i \<le> 1" "j \<le> length [98 :: u8, 99]"
    then have "i = 0 \<or> i = 1" "j = 0 \<or> j = 1 \<or> j = 2" by auto
    then show "0x1000 + of_nat (length [97 :: u8]) + of_nat i \<noteq> (0x2000 :: u64) + of_nat j" by auto
  qed
  from strncat_correct [OF kmem_ex_cstr, of 1 1, OF _ _ a] a kmem_ex_cstr show ?thesis by auto
qed

end
