(* ===== verification/Vmm.thy ===== *)
theory Vmm
  imports Pmm Kstring
begin

text \<open>
  The page tables (\<^verbatim>\<open>kernel/mem/vmm.c\<close>): four levels of 512 entries.  The kernel reaches
  physical memory through a linear window, the direct map; \<open>kmem\<close> is the memory behind
  those pointers and a table is the pointer to its first entry, with 0 for \<open>NULL\<close>.  A page
  table outside the window is a panic (\<open>None\<close>).  The TLB is not modelled: \<open>invlpg\<close> is the
  identity.  The serial messages are left out.
\<close>

subsection \<open>State and constants\<close>

definition PAGE_PRESENT :: u64 where "PAGE_PRESENT = 0x001"
definition PAGE_WRITABLE :: u64 where "PAGE_WRITABLE = 0x002"
definition PAGE_LARGE :: u64 where "PAGE_LARGE = 0x080"
definition PAGE_MASK :: u64 where "PAGE_MASK = 0x000ffffffffff000"
definition INDEX_MASK :: u64 where "INDEX_MASK = 0x1ff"
definition VMM_WRITABLE :: u64 where "VMM_WRITABLE = 0x002"
definition VMM_USER :: u64 where "VMM_USER = 0x004"

record kmm =
  mm_pmm :: pmm
  active_pml4_phys :: u64
  direct_map :: u64
  direct_map_size :: u64
  kmem :: mem
  cr3 :: u64

definition rd64 :: "kmm \<Rightarrow> u64 \<Rightarrow> u64 \<Rightarrow> u64" where
  "rd64 s table i = ld64 (kmem s) (table + 8 * i)"

definition wr64 :: "u64 \<Rightarrow> u64 \<Rightarrow> u64 \<Rightarrow> kmm \<Rightarrow> kmm" where
  "wr64 table i v s = s\<lparr>kmem := st64 (table + 8 * i) v (kmem s)\<rparr>"

definition phys_to_virt :: "kmm \<Rightarrow> u64 \<Rightarrow> u64 option" where
  "phys_to_virt s physical_address =
     (if physical_address \<ge> direct_map_size s then None
      else Some (direct_map s + physical_address))"

definition vmm_init :: "os_boot_info \<Rightarrow> kmm \<Rightarrow> kmm option" where
  "vmm_init boot_info s =
     (let s = s\<lparr>direct_map := direct_map_base boot_info,
                 direct_map_size := bi_direct_map_size boot_info,
                 active_pml4_phys := cr3 s AND PAGE_MASK\<rparr>
      in if active_pml4_phys s \<noteq> page_table_root boot_info then None else Some s)"

subsection \<open>Translation\<close>

definition vmm_virt_to_phys :: "kmm \<Rightarrow> u64 \<Rightarrow> u64 option option" where
  "vmm_virt_to_phys s virtual_address =
     (let pml4i = drop_bit 39 virtual_address AND INDEX_MASK;
          pdpti = drop_bit 30 virtual_address AND INDEX_MASK;
          pdi = drop_bit 21 virtual_address AND INDEX_MASK;
          pti = drop_bit 12 virtual_address AND INDEX_MASK;
          offset_4k = virtual_address AND 0xfff
      in do {
        pml4 \<leftarrow> phys_to_virt s (active_pml4_phys s);
        let pml4e = rd64 s pml4 pml4i;
        if pml4e AND PAGE_PRESENT = 0 then Some None else do {
        pdpt \<leftarrow> phys_to_virt s (pml4e AND PAGE_MASK);
        let pdpte = rd64 s pdpt pdpti;
        if pdpte AND PAGE_PRESENT = 0 then Some None
        else if pdpte AND PAGE_LARGE \<noteq> 0
        then Some (Some ((pdpte AND PAGE_MASK) + (virtual_address AND 0x3fffffff))) else do {
        pd \<leftarrow> phys_to_virt s (pdpte AND PAGE_MASK);
        let pde = rd64 s pd pdi;
        if pde AND PAGE_PRESENT = 0 then Some None
        else if pde AND PAGE_LARGE \<noteq> 0
        then Some (Some ((pde AND PAGE_MASK) + (virtual_address AND 0x1fffff))) else do {
        pt \<leftarrow> phys_to_virt s (pde AND PAGE_MASK);
        let pte = rd64 s pt pti;
        if pte AND PAGE_PRESENT = 0 then Some None
        else Some (Some ((pte AND PAGE_MASK) + offset_4k)) } } } })"

definition vmm_direct_map_base :: "kmm \<Rightarrow> u64" where
  "vmm_direct_map_base s = direct_map s"

definition vmm_pml4_phys :: "kmm \<Rightarrow> u64" where
  "vmm_pml4_phys s = active_pml4_phys s"

subsection \<open>Mappings of the kernel\<close>

text \<open>The loop that clears a new table.\<close>

definition clear_table :: "u64 \<Rightarrow> kmm \<Rightarrow> kmm" where
  "clear_table child s = fold (\<lambda>i. wr64 child (of_nat i) 0) [0..<512] s"

definition ensure_table :: "u64 \<Rightarrow> u64 \<Rightarrow> kmm \<Rightarrow> (u64 \<times> kmm) option" where
  "ensure_table table index s =
     (if rd64 s table index AND PAGE_PRESENT = 0 then
        (let (page, p) = pmm_alloc_page (mm_pmm s); s = s\<lparr>mm_pmm := p\<rparr>
         in if page = PMM_ALLOC_FAILED then Some (0, s)
            else do {
              child \<leftarrow> phys_to_virt s page;
              let s = clear_table child s;
              let s = wr64 table index ((page AND PAGE_MASK) OR PAGE_PRESENT OR PAGE_WRITABLE) s;
              r \<leftarrow> phys_to_virt s (rd64 s table index AND PAGE_MASK);
              Some (r, s)
            })
      else if rd64 s table index AND PAGE_LARGE \<noteq> 0 then Some (0, s)
      else do { r \<leftarrow> phys_to_virt s (rd64 s table index AND PAGE_MASK); Some (r, s) })"

text \<open>The slot of a page-table entry: the table and the index, with table 0 for \<open>NULL\<close>.\<close>

definition pte_for :: "kmm \<Rightarrow> u64 \<Rightarrow> (u64 \<times> u64) option" where
  "pte_for s virt =
     (let pml4i = drop_bit 39 virt AND INDEX_MASK;
          pdpti = drop_bit 30 virt AND INDEX_MASK;
          pdi = drop_bit 21 virt AND INDEX_MASK;
          pti = drop_bit 12 virt AND INDEX_MASK
      in do {
        pml4 \<leftarrow> phys_to_virt s (active_pml4_phys s);
        let pml4e = rd64 s pml4 pml4i;
        if pml4e AND PAGE_PRESENT = 0 \<or> pml4e AND PAGE_LARGE \<noteq> 0 then Some (0, 0) else do {
        pdpt \<leftarrow> phys_to_virt s (pml4e AND PAGE_MASK);
        let pdpte = rd64 s pdpt pdpti;
        if pdpte AND PAGE_PRESENT = 0 \<or> pdpte AND PAGE_LARGE \<noteq> 0 then Some (0, 0) else do {
        pd \<leftarrow> phys_to_virt s (pdpte AND PAGE_MASK);
        let pde = rd64 s pd pdi;
        if pde AND PAGE_PRESENT = 0 \<or> pde AND PAGE_LARGE \<noteq> 0 then Some (0, 0) else do {
        pt \<leftarrow> phys_to_virt s (pde AND PAGE_MASK);
        Some (pt, pti) } } } })"

definition vmm_map :: "u64 \<Rightarrow> u64 \<Rightarrow> u64 \<Rightarrow> kmm \<Rightarrow> (bool \<times> kmm) option" where
  "vmm_map virt phys flags s =
     (let pml4i = drop_bit 39 virt AND INDEX_MASK;
          pdpti = drop_bit 30 virt AND INDEX_MASK;
          pdi = drop_bit 21 virt AND INDEX_MASK;
          pti = drop_bit 12 virt AND INDEX_MASK
      in do {
        pml4 \<leftarrow> phys_to_virt s (active_pml4_phys s);
        (pdpt, s) \<leftarrow> ensure_table pml4 pml4i s;
        if pdpt = 0 then Some (False, s) else do {
        (pd, s) \<leftarrow> ensure_table pdpt pdpti s;
        if pd = 0 then Some (False, s) else do {
        (pt, s) \<leftarrow> ensure_table pd pdi s;
        if pt = 0 then Some (False, s) else do {
        let s = wr64 pt pti ((phys AND PAGE_MASK) OR flags OR PAGE_PRESENT) s;
        Some (True, s) } } } })"

definition vmm_unmap :: "u64 \<Rightarrow> kmm \<Rightarrow> (bool \<times> kmm) option" where
  "vmm_unmap virt s = do {
     (pt, i) \<leftarrow> pte_for s virt;
     if pt = 0 \<or> rd64 s pt i AND PAGE_PRESENT = 0 then Some (False, s)
     else Some (True, wr64 pt i 0 s) }"

definition vmm_protect :: "u64 \<Rightarrow> u64 \<Rightarrow> kmm \<Rightarrow> (bool \<times> kmm) option" where
  "vmm_protect virt flags s = do {
     (pt, i) \<leftarrow> pte_for s virt;
     if pt = 0 \<or> rd64 s pt i AND PAGE_PRESENT = 0 then Some (False, s)
     else Some (True, wr64 pt i ((rd64 s pt i AND PAGE_MASK) OR flags OR PAGE_PRESENT) s) }"

subsection \<open>Address spaces of processes\<close>

definition ensure_table_in :: "u64 \<Rightarrow> u64 \<Rightarrow> u64 \<Rightarrow> kmm \<Rightarrow> (u64 \<times> kmm) option" where
  "ensure_table_in table index extra_flags s =
     (if rd64 s table index AND PAGE_PRESENT = 0 then
        (let (page, p) = pmm_alloc_page (mm_pmm s); s = s\<lparr>mm_pmm := p\<rparr>
         in if page = PMM_ALLOC_FAILED then Some (0, s)
            else do {
              child \<leftarrow> phys_to_virt s page;
              let s = clear_table child s;
              let s = wr64 table index
                ((page AND PAGE_MASK) OR PAGE_PRESENT OR PAGE_WRITABLE OR extra_flags) s;
              r \<leftarrow> phys_to_virt s (rd64 s table index AND PAGE_MASK);
              Some (r, s)
            })
      else if rd64 s table index AND PAGE_LARGE \<noteq> 0 then Some (0, s)
      else do { r \<leftarrow> phys_to_virt s (rd64 s table index AND PAGE_MASK); Some (r, s) })"

definition vmm_space_create :: "kmm \<Rightarrow> (u64 \<times> kmm) option" where
  "vmm_space_create s =
     (let (pml4_page, p) = pmm_alloc_page (mm_pmm s); s = s\<lparr>mm_pmm := p\<rparr>
      in if pml4_page = PMM_ALLOC_FAILED then Some (0, s)
         else do {
           new_pml4 \<leftarrow> phys_to_virt s pml4_page;
           kern_pml4 \<leftarrow> phys_to_virt s (active_pml4_phys s);
           let s = s\<lparr>kmem := memset new_pml4 0 (256 * 8) (kmem s)\<rparr>;
           let s = s\<lparr>kmem := memcpy (new_pml4 + 8 * 256) (kern_pml4 + 8 * 256) (256 * 8) (kmem s)\<rparr>;
           Some (pml4_page, s)
         })"

text \<open>A counting loop whose body can panic.\<close>

fun for_each :: "'i list \<Rightarrow> ('i \<Rightarrow> 's \<Rightarrow> 's option) \<Rightarrow> 's \<Rightarrow> 's option" where
  "for_each [] f s = Some s"
| "for_each (i # is) f s = do { s \<leftarrow> f i s; for_each is f s }"

definition free_phys :: "u64 \<Rightarrow> kmm \<Rightarrow> kmm option" where
  "free_phys a s = do { p \<leftarrow> pmm_free_page a (mm_pmm s); Some (s\<lparr>mm_pmm := p\<rparr>) }"

definition destroy_pt :: "u64 \<Rightarrow> kmm \<Rightarrow> kmm option" where
  "destroy_pt pt = for_each (map of_nat [0..<512]) (\<lambda>pti s.
     if rd64 s pt pti AND PAGE_PRESENT \<noteq> 0 then free_phys (rd64 s pt pti AND PAGE_MASK) s
     else Some s)"

definition destroy_pd :: "u64 \<Rightarrow> kmm \<Rightarrow> kmm option" where
  "destroy_pd pd = for_each (map of_nat [0..<512]) (\<lambda>pdi s.
     if rd64 s pd pdi AND PAGE_PRESENT = 0 then Some s
     else if rd64 s pd pdi AND PAGE_LARGE \<noteq> 0 then free_phys (rd64 s pd pdi AND PAGE_MASK) s
     else do {
       let pt_phys = rd64 s pd pdi AND PAGE_MASK;
       pt \<leftarrow> phys_to_virt s pt_phys;
       s \<leftarrow> destroy_pt pt s;
       free_phys pt_phys s })"

definition destroy_pdpt :: "u64 \<Rightarrow> kmm \<Rightarrow> kmm option" where
  "destroy_pdpt pdpt = for_each (map of_nat [0..<512]) (\<lambda>pdpti s.
     if rd64 s pdpt pdpti AND PAGE_PRESENT = 0 then Some s
     else if rd64 s pdpt pdpti AND PAGE_LARGE \<noteq> 0 then free_phys (rd64 s pdpt pdpti AND PAGE_MASK) s
     else do {
       let pd_phys = rd64 s pdpt pdpti AND PAGE_MASK;
       pd \<leftarrow> phys_to_virt s pd_phys;
       s \<leftarrow> destroy_pd pd s;
       free_phys pd_phys s })"

definition vmm_space_destroy :: "u64 \<Rightarrow> kmm \<Rightarrow> kmm option" where
  "vmm_space_destroy pml4_phys s =
     (if pml4_phys = 0 \<or> pml4_phys = active_pml4_phys s then Some s
      else do {
        pml4 \<leftarrow> phys_to_virt s pml4_phys;
        s \<leftarrow> for_each (map of_nat [0..<256]) (\<lambda>pml4i s.
          if rd64 s pml4 pml4i AND PAGE_PRESENT = 0 then Some s
          else do {
            let pdpt_phys = rd64 s pml4 pml4i AND PAGE_MASK;
            pdpt \<leftarrow> phys_to_virt s pdpt_phys;
            s \<leftarrow> destroy_pdpt pdpt s;
            free_phys pdpt_phys s }) s;
        free_phys pml4_phys s })"

definition vmm_space_map :: "u64 \<Rightarrow> u64 \<Rightarrow> u64 \<Rightarrow> u64 \<Rightarrow> kmm \<Rightarrow> (bool \<times> kmm) option" where
  "vmm_space_map pml4_phys virt phys flags s =
     (let pml4i = drop_bit 39 virt AND INDEX_MASK;
          pdpti = drop_bit 30 virt AND INDEX_MASK;
          pdi = drop_bit 21 virt AND INDEX_MASK;
          pti = drop_bit 12 virt AND INDEX_MASK
      in if pml4i \<ge> 256 then Some (False, s) else do {
        let user_flag = (if flags AND VMM_USER \<noteq> 0 then VMM_USER else 0);
        pml4 \<leftarrow> phys_to_virt s pml4_phys;
        (pdpt, s) \<leftarrow> ensure_table_in pml4 pml4i user_flag s;
        if pdpt = 0 then Some (False, s) else do {
        (pd, s) \<leftarrow> ensure_table_in pdpt pdpti user_flag s;
        if pd = 0 then Some (False, s) else do {
        (pt, s) \<leftarrow> ensure_table_in pd pdi user_flag s;
        if pt = 0 then Some (False, s) else do {
        let s = wr64 pt pti ((phys AND PAGE_MASK) OR flags OR PAGE_PRESENT) s;
        Some (True, s) } } } })"

definition vmm_space_switch :: "u64 \<Rightarrow> kmm \<Rightarrow> kmm" where
  "vmm_space_switch pml4_phys s = s\<lparr>cr3 := pml4_phys\<rparr>"

end
