(* ===== verification/Paging.thy ===== *)
theory Paging
  imports Vmm
begin

text \<open>
  What the page tables mean.  A set of address spaces is described by the entries of all
  tables, a function from table frames and indices to entries: which frames are tables of
  which level, and what a virtual address translates to.  The invariant makes the tables
  of all spaces one forest over distinct frames; the two elementary changes of the code,
  linking a new empty table and writing a leaf entry, keep it and change translations
  exactly where they should.
\<close>

subsection \<open>Entries\<close>

definition present :: "u64 \<Rightarrow> bool" where
  "present e \<longleftrightarrow> e AND PAGE_PRESENT \<noteq> 0"

definition large :: "u64 \<Rightarrow> bool" where
  "large e \<longleftrightarrow> e AND PAGE_LARGE \<noteq> 0"

lemma bit_PAGE_MASK: "bit PAGE_MASK n \<longleftrightarrow> 12 \<le> n \<and> n < 52"
proof -
  have *: "PAGE_MASK = push_bit 12 (mask 40)"
    by (simp add: PAGE_MASK_def mask_eq_exp_minus_1 push_bit_eq_mult)
  show ?thesis unfolding * by (auto simp: bit_push_bit_iff bit_mask_iff)
qed

lemma present_bit: "present e \<longleftrightarrow> bit e 0"
  using and_exp_neq_0 [of 0 e] by (simp add: present_def PAGE_PRESENT_def)

lemma large_bit: "large e \<longleftrightarrow> bit e 7"
  using and_exp_neq_0 [of 7 e] by (simp add: large_def PAGE_LARGE_def)

lemma not_present_0 [simp]: "\<not> present 0"
  by (simp add: present_def)

text \<open>The frame that an entry refers to.\<close>

definition frame :: "u64 \<Rightarrow> u64" where
  "frame e = e AND PAGE_MASK"

lemma frame_mask:
  assumes "c \<in> page_frames"
  shows "c AND PAGE_MASK = c"
proof (rule bit_word_eqI)
  fix n assume "n < LENGTH(64)"
  have c: "c < 0x1000000000" "c mod 4096 = 0"
    using assms unfolding page_frames_def PMM_MAX_PHYS_BYTES_eq OS_PAGE_SIZE_def by blast+
  have "take_bit 36 c = c" using c(1) by (simp add: take_bit_eq_mod word_unat_eq_iff unat_mod word_less_nat_alt)
  then have "n < 36" if "bit c n" using that by (metis bit_take_bit_iff)
  moreover have "take_bit 12 c = c mod 4096" by (simp add: take_bit_eq_mod)
  then have "take_bit 12 c = 0" unfolding c(2) .
  then have "12 \<le> n" if "bit c n" using that by (metis bit_0_eq bit_take_bit_iff bot_apply bot_bool_def not_le)
  ultimately show "bit (c AND PAGE_MASK) n = bit c n"
    by (auto simp: bit_and_iff bit_PAGE_MASK)
qed

lemma frame_entry:
  assumes "c \<in> page_frames" "flags AND PAGE_MASK = 0"
  shows "frame ((c AND PAGE_MASK) OR flags) = c"
  using assms by (simp add: frame_def frame_mask bit.conj_disj_distrib2)

subsection \<open>Tables and translation\<close>

type_synonym entries = "u64 \<Rightarrow> u64 \<Rightarrow> u64"

text \<open>At depth 3, in the last table, the size bit has another meaning and is ignored.\<close>

definition child :: "nat \<Rightarrow> u64 \<Rightarrow> u64 option" where
  "child d e = (if present e \<and> (d = 3 \<or> \<not> large e) then Some (frame e) else None)"

fun tab :: "entries \<Rightarrow> nat \<Rightarrow> u64 \<Rightarrow> u64 list \<Rightarrow> u64 option" where
  "tab E d t [] = Some t"
| "tab E d t (i # is) = (case child d (E t i) of None \<Rightarrow> None | Some c \<Rightarrow> tab E (Suc d) c is)"

lemma tab_snoc:
  "tab E d t (q @ [i]) = (case tab E d t q of None \<Rightarrow> None | Some f \<Rightarrow> child (d + length q) (E f i))"
  by (induction q arbitrary: d t) (auto split: option.splits)

definition idx :: "nat \<Rightarrow> u64 \<Rightarrow> u64" where
  "idx k va = drop_bit (12 + 9 * k) va AND INDEX_MASK"

lemma idx_less [simp]: "idx k va < 512"
proof -
  have "idx k va \<le> INDEX_MASK" by (simp add: idx_def word_and_le1)
  then show ?thesis by (rule le_less_trans) (simp add: INDEX_MASK_def)
qed

fun walk :: "entries \<Rightarrow> nat \<Rightarrow> u64 \<Rightarrow> u64 \<Rightarrow> u64 option" where
  "walk E 0 t va =
     (if present (E t (idx 0 va)) then Some (frame (E t (idx 0 va)) + (va AND mask 12)) else None)"
| "walk E (Suc k) t va =
     (let e = E t (idx (Suc k) va)
      in if \<not> present e then None
         else if k < 2 \<and> large e then Some (frame e + (va AND mask (12 + 9 * Suc k)))
         else walk E k (frame e) va)"

definition translate :: "entries \<Rightarrow> u64 \<Rightarrow> u64 \<Rightarrow> u64 option" where
  "translate E root va = walk E 3 root va"

text \<open>The indices on the way to the table of level \<open>k\<close>.\<close>

definition pre :: "u64 \<Rightarrow> nat \<Rightarrow> u64 list" where
  "pre va k = map (\<lambda>j. idx (3 - j) va) [0..<3 - k]"

lemma pre_3 [simp]: "pre va 3 = []"
  by (simp add: pre_def)

lemma length_pre [simp]: "length (pre va k) = 3 - k"
  by (simp add: pre_def)

lemma pre_step: "k < 3 \<Longrightarrow> pre va k = pre va (Suc k) @ [idx (Suc k) va]"
proof -
  assume "k < 3"
  then have "3 - k = Suc (3 - Suc k)" "3 - (3 - Suc k) = Suc k" by simp_all
  then show ?thesis by (simp only: pre_def upt_Suc_append map_append le0 list.map)
qed

lemma pre_0: "pre va 0 = [idx 3 va, idx 2 va, idx 1 va]"
  by (simp add: pre_def upt_rec)

definition idxs :: "u64 \<Rightarrow> u64 list" where
  "idxs va = [idx 3 va, idx 2 va, idx 1 va, idx 0 va]"

subsection \<open>The forest of tables\<close>

definition pth :: "u64 list \<Rightarrow> bool" where
  "pth q \<longleftrightarrow> (\<forall>i \<in> set q. i < 512)"

lemma pth_simps [simp]: "pth []" "pth (i # q) \<longleftrightarrow> i < 512 \<and> pth q" "pth (p @ q) \<longleftrightarrow> pth p \<and> pth q"
  by (auto simp: pth_def)

lemma pth_pre [simp]: "pth (pre va k)"
  by (auto simp: pth_def pre_def)

text \<open>
  The frames a space owns: the kernel space its tables, a process space its root, the tables
  below the lower half of the root and the pages these map.
\<close>

definition owned :: "u64 \<Rightarrow> u64 \<Rightarrow> u64 list \<Rightarrow> bool" where
  "owned K r q \<longleftrightarrow> pth q \<and> (if r = K then length q \<le> 3 else length q \<le> 4 \<and> (q \<noteq> [] \<longrightarrow> hd q < 256))"

lemma owned_butlast: "owned K r (q @ [i]) \<Longrightarrow> owned K r q"
  by (cases q) (auto simp: owned_def split: if_splits)

lemma owned_Nil [simp]: "owned K r []"
  by (simp add: owned_def)

definition pt_inv :: "entries \<Rightarrow> u64 set \<Rightarrow> u64 \<Rightarrow> u64 set \<Rightarrow> bool" where
  "pt_inv E A K R \<longleftrightarrow> K \<notin> R \<and>
     (\<forall>r \<in> insert K R. \<forall>q f. owned K r q \<longrightarrow> tab E 0 r q = Some f \<longrightarrow> f \<in> page_frames - A) \<and>
     (\<forall>r \<in> insert K R. \<forall>r' \<in> insert K R. \<forall>q q' f. owned K r q \<longrightarrow> owned K r' q' \<longrightarrow>
        tab E 0 r q = Some f \<longrightarrow> tab E 0 r' q' = Some f \<longrightarrow> r = r' \<and> q = q') \<and>
     (\<forall>r \<in> insert K R. \<forall>i < 512. present (E r i) \<longrightarrow> \<not> large (E r i)) \<and>
     (\<forall>r \<in> R. \<forall>i < 512. 256 \<le> i \<longrightarrow> present (E r i) \<longrightarrow> E r i = E K i) \<and>
     (\<forall>r \<in> R. \<forall>q f i. owned K r q \<longrightarrow> q \<noteq> [] \<longrightarrow> length q \<le> 2 \<longrightarrow> tab E 0 r q = Some f \<longrightarrow> i < 512 \<longrightarrow>
        present (E f i) \<longrightarrow> \<not> large (E f i))"

lemma pt_invD:
  assumes "pt_inv E A K R" "r \<in> insert K R"
  shows "K \<notin> R"
    "owned K r q \<Longrightarrow> tab E 0 r q = Some f \<Longrightarrow> f \<in> page_frames \<and> f \<notin> A"
    "r' \<in> insert K R \<Longrightarrow> owned K r q \<Longrightarrow> owned K r' q' \<Longrightarrow> tab E 0 r q = Some f \<Longrightarrow>
       tab E 0 r' q' = Some f \<Longrightarrow> r = r' \<and> q = q'"
    "i < 512 \<Longrightarrow> present (E r i) \<Longrightarrow> \<not> large (E r i)"
    "r \<in> R \<Longrightarrow> i < 512 \<Longrightarrow> 256 \<le> i \<Longrightarrow> present (E r i) \<Longrightarrow> E r i = E K i"
    "r \<in> R \<Longrightarrow> owned K r q \<Longrightarrow> q \<noteq> [] \<Longrightarrow> length q \<le> 2 \<Longrightarrow> tab E 0 r q = Some f \<Longrightarrow> i < 512 \<Longrightarrow>
       present (E f i) \<Longrightarrow> \<not> large (E f i)"
  using assms unfolding pt_inv_def by blast+

lemma pt_invI:
  assumes "K \<notin> R"
    "\<And>r q f. r \<in> insert K R \<Longrightarrow> owned K r q \<Longrightarrow> tab E 0 r q = Some f \<Longrightarrow> f \<in> page_frames - A"
    "\<And>r r' q q' f. r \<in> insert K R \<Longrightarrow> r' \<in> insert K R \<Longrightarrow> owned K r q \<Longrightarrow> owned K r' q' \<Longrightarrow>
       tab E 0 r q = Some f \<Longrightarrow> tab E 0 r' q' = Some f \<Longrightarrow> r = r' \<and> q = q'"
    "\<And>r i. r \<in> insert K R \<Longrightarrow> i < 512 \<Longrightarrow> present (E r i) \<Longrightarrow> \<not> large (E r i)"
    "\<And>r i. r \<in> R \<Longrightarrow> i < 512 \<Longrightarrow> 256 \<le> i \<Longrightarrow> present (E r i) \<Longrightarrow> E r i = E K i"
    "\<And>r q f i. r \<in> R \<Longrightarrow> owned K r q \<Longrightarrow> q \<noteq> [] \<Longrightarrow> length q \<le> 2 \<Longrightarrow> tab E 0 r q = Some f \<Longrightarrow>
       i < 512 \<Longrightarrow> present (E f i) \<Longrightarrow> \<not> large (E f i)"
  shows "pt_inv E A K R"
  unfolding pt_inv_def
proof (intro conjI ballI allI impI)
  fix r r' q q' f
  assume "r \<in> insert K R" "r' \<in> insert K R" "owned K r q" "owned K r' q'"
    "tab E 0 r q = Some f" "tab E 0 r' q' = Some f"
  from assms(3) [OF this] show "r = r'" "q = q'" by simp_all
qed (fact assms)+

text \<open>
  The upper half of a process space is shared with the kernel: every table is owned by
  some space, at the same depth.
\<close>

lemma tab_owner:
  assumes "pt_inv E A K R" "r \<in> insert K R" "pth q" "length q \<le> 3" "tab E 0 r q = Some f"
  obtains r' where "r' \<in> insert K R" "owned K r' q" "tab E 0 r' q = Some f"
    "r' = r \<or> (r' = K \<and> q \<noteq> [] \<and> 256 \<le> hd q)"
proof (cases "owned K r q")
  case True
  then show ?thesis using that assms by blast
next
  case False
  then obtain i p where q: "q = i # p" using assms by (cases q) auto
  have r: "r \<in> R" "256 \<le> i" "i < 512"
    using False assms(2-4) q by (auto simp: owned_def not_less split: if_splits)
  have "present (E r i)" using assms(5) q by (auto simp: child_def split: option.splits if_splits)
  then have "E r i = E K i" using pt_invD(5) [OF assms(1,2)] r by simp
  then have "tab E 0 K q = Some f" using assms(5) q by simp
  moreover have "owned K K q" using assms(3,4) by (simp add: owned_def)
  ultimately show ?thesis using that [of K] r q by simp
qed

lemma tab_frame:
  assumes "pt_inv E A K R" "r \<in> insert K R" "pth q" "length q \<le> 3" "tab E 0 r q = Some f"
  shows "f \<in> page_frames \<and> f \<notin> A"
  using assms by (rule tab_owner) (use pt_invD(2) [OF assms(1)] in blast)

lemma tab_depth:
  assumes "pt_inv E A K R" "r \<in> insert K R" "pth q" "length q \<le> 3" "tab E 0 r q = Some f"
    "r' \<in> insert K R" "owned K r' q'" "tab E 0 r' q' = Some f"
  shows "q = q'"
  using assms(1-5) by (rule tab_owner) (use pt_invD(3) [OF assms(1)] assms(6-8) in blast)

subsection \<open>Linking a new table\<close>

text \<open>
  \<open>linkable\<close> describes the slot \<open>i\<close> of table \<open>t\<close>, which does not refer to a table yet, and a
  free frame \<open>c\<close>; \<open>linked\<close> says that \<open>c\<close> has been cleared and entered into the slot.
\<close>

definition linkable :: "entries \<Rightarrow> u64 set \<Rightarrow> u64 \<Rightarrow> u64 set \<Rightarrow> u64 \<Rightarrow> u64 list \<Rightarrow> u64 \<Rightarrow> u64 \<Rightarrow> u64 \<Rightarrow> bool" where
  "linkable E A K R r p t i c \<longleftrightarrow> pt_inv E A K R \<and> r \<in> insert K R \<and> owned K r (p @ [i]) \<and> length p \<le> 2 \<and>
     tab E 0 r p = Some t \<and> \<not> present (E t i) \<and> c \<in> A \<and> c \<in> page_frames"

definition linked :: "entries \<Rightarrow> entries \<Rightarrow> u64 \<Rightarrow> u64 \<Rightarrow> u64 \<Rightarrow> bool" where
  "linked E E' t i c \<longleftrightarrow> (\<exists>e. present e \<and> \<not> large e \<and> frame e = c \<and>
     (\<forall>f \<in> page_frames. \<forall>j < 512. E' f j = (if f = c then 0 else if f = t \<and> j = i then e else E f j)))"

lemma tab_link:
  assumes l: "linkable E A K R r p t i c" "linked E E' t i c" and r': "r' \<in> insert K R"
    and q: "pth q" "length q \<le> 4"
  shows "tab E' 0 r' q = Some f \<longleftrightarrow>
    tab E 0 r' q = Some f \<or> (f = c \<and> (\<exists>p'. q = p' @ [i] \<and> tab E 0 r' p' = Some t))"
  using q
proof (induction q arbitrary: f rule: rev_induct)
  case (snoc j q)
  have i: "pt_inv E A K R" "r \<in> insert K R" "owned K r p" "tab E 0 r p = Some t" "length p \<le> 2"
    "\<not> present (E t i)" "c \<in> A" "c \<in> page_frames"
    using l(1) owned_butlast by (auto simp: linkable_def)
  obtain e where e: "present e" "\<not> large e" "frame e = c"
    "\<And>g j. g \<in> page_frames \<Longrightarrow> j < 512 \<Longrightarrow> E' g j = (if g = c then 0 else if g = t \<and> j = i then e else E g j)"
    using l(2) by (auto simp: linked_def)
  have q: "pth q" "length q \<le> 3" "j < 512" using snoc.prems by auto
  have IH: "tab E' 0 r' q = Some g \<longleftrightarrow>
      tab E 0 r' q = Some g \<or> (g = c \<and> (\<exists>p'. q = p' @ [i] \<and> tab E 0 r' p' = Some t))" for g
    using snoc.IH q by simp
  show ?case
  proof (cases "tab E 0 r' q")
    case (Some g)
    then have g: "g \<in> page_frames" "g \<noteq> c" using tab_frame [OF i(1) r' q(1,2)] i(7) by auto
    have T: "tab E' 0 r' q = Some g" using IH Some by simp
    show ?thesis
    proof (cases "g = t \<and> j = i")
      case True
      then have "q = p" using tab_depth [OF i(1) r' q(1,2) _ i(2,3,4)] Some by simp
      then show ?thesis
        using True T Some g q(3) e i(5,6) by (auto simp: tab_snoc child_def)
    next
      case False
      then show ?thesis using T Some g q(3) e(4) [OF g(1) q(3)] by (auto simp: tab_snoc)
    qed
  next
    case None
    have "tab E' 0 r' (q @ [j]) = None"
    proof (cases "tab E' 0 r' q")
      case (Some g)
      then have "g = c" using IH None by simp
      then show ?thesis using Some e(4) [OF i(8) q(3)] by (simp add: tab_snoc child_def)
    qed (simp add: tab_snoc)
    then show ?thesis using None by (simp add: tab_snoc)
  qed
qed simp

lemma linked_slot:
  assumes "linkable E A K R r p t i c" "linked E E' t i c" "f \<in> page_frames" "f \<notin> A" "j < 512"
  shows "f = t \<and> j = i \<and> \<not> large (E' f j) \<or> (f \<noteq> t \<or> j \<noteq> i) \<and> E' f j = E f j"
proof -
  have "f \<noteq> c" using assms(1,4) unfolding linkable_def by blast
  moreover obtain e where "\<not> large e"
    "E' f j = (if f = c then 0 else if f = t \<and> j = i then e else E f j)"
    using assms(2,3,5) unfolding linked_def by blast
  ultimately show ?thesis by (cases "f = t \<and> j = i") simp_all
qed

lemma pt_inv_link:
  assumes l: "linkable E A K R r p t i c" "linked E E' t i c"
  shows "pt_inv E' (A - {c}) K R \<and> tab E' 0 r (p @ [i]) = Some c"
proof -
  have i: "pt_inv E A K R" "r \<in> insert K R" "owned K r (p @ [i])" "owned K r p" "tab E 0 r p = Some t"
    "length p \<le> 2" "\<not> present (E t i)" "c \<in> A" "c \<in> page_frames"
    using l(1) owned_butlast by (auto simp: linkable_def)
  note inv = pt_invD [OF i(1)]
  note T = tab_link [OF l]
  have T': "tab E' 0 r' q = Some f \<longleftrightarrow>
      tab E 0 r' q = Some f \<or> (f = c \<and> (\<exists>p'. q = p' @ [i] \<and> tab E 0 r' p' = Some t))"
    if "r' \<in> insert K R" "owned K r' q" for r' q f
    using T [OF that(1), of q f] that(2) by (auto simp: owned_def split: if_splits)
  have K: "K \<notin> R" using inv(1) [OF i(2)] .
  have roots: "r' \<in> page_frames" "r' \<notin> A" if "r' \<in> insert K R" for r'
    using inv(2) [OF that, of "[]"] by auto
  have 1: "f \<in> page_frames - (A - {c})" if "r' \<in> insert K R" "owned K r' q" "tab E' 0 r' q = Some f" for r' q f
    using T' [OF that(1,2)] that(3) inv(2) [OF that(1,2)] i(9) by auto
  have 2: "r1 = r2 \<and> q1 = q2" if a: "r1 \<in> insert K R" "r2 \<in> insert K R" "owned K r1 q1" "owned K r2 q2"
    "tab E' 0 r1 q1 = Some f" "tab E' 0 r2 q2 = Some f" for r1 r2 q1 q2 f
  proof (cases "f = c")
    case True
    have "tab E 0 r1 q1 \<noteq> Some c" "tab E 0 r2 q2 \<noteq> Some c"
      using inv(2) [OF a(1,3)] inv(2) [OF a(2,4)] i(8) by auto
    then obtain p1 p2 where "q1 = p1 @ [i]" "tab E 0 r1 p1 = Some t" "q2 = p2 @ [i]" "tab E 0 r2 p2 = Some t"
      using T' [OF a(1,3), of c] T' [OF a(2,4), of c] a(5,6) True by auto
    then show ?thesis using inv(3) [OF a(1,2), of p1 p2 t] a(3,4) owned_butlast by auto
  next
    case False
    then show ?thesis using inv(3) [OF a(1-4)] T' a by auto
  qed
  have 3: "\<not> large (E' r' j)" if "r' \<in> insert K R" "j < 512" "present (E' r' j)" for r' j
    using linked_slot [OF l roots [OF that(1)] that(2)] inv(4) [OF that(1,2)] that(3) by auto
  have 4: "E' r' j = E' K j" if a: "r' \<in> R" "j < 512" "256 \<le> j" "present (E' r' j)" for r' j
  proof -
    have "\<not> (r' = t \<and> j = i)"
    proof
      assume *: "r' = t \<and> j = i"
      then have "r' = r \<and> [] = p" using inv(3) [of r' r "[]" p t] a(1) i(2,4,5) by simp
      moreover have "r \<noteq> K" using calculation a(1) K by auto
      ultimately show False using i(3) a(3) * by (auto simp: owned_def)
    qed
    then have "E' r' j = E r' j" "present (E r' j)"
      using linked_slot [OF l roots [of r'] a(2)] a(1,4) by auto
    then have e: "E' r' j = E K j" "present (E K j)" using inv(5) [of r' j] a by auto
    moreover have "E' K j = E K j"
      using e(2) roots [of K] i(7-9) l(2) a(2) by (auto simp: linked_def)
    ultimately show ?thesis by simp
  qed
  have 5: "\<not> large (E' f j)" if a: "r' \<in> R" "owned K r' q" "q \<noteq> []" "length q \<le> 2" "tab E' 0 r' q = Some f"
    "j < 512" "present (E' f j)" for r' q f j
  proof -
    have "f \<noteq> c" using a(6,7) l(2) i(9) by (auto simp: linked_def)
    then have o: "tab E 0 r' q = Some f" using T' [of r' q f] a by auto
    then have "f \<in> page_frames" "f \<notin> A" using inv(2) [of r' q f] a by auto
    from linked_slot [OF l this a(6)] show ?thesis
      using inv(6) [of r' q f j] a o by auto
  qed
  have "pt_inv E' (A - {c}) K R"
    by (rule pt_invI) (fact K 1 2 3 4 5)+
  moreover have "tab E' 0 r (p @ [i]) = Some c" using T' [OF i(2,3)] i(5) by simp
  ultimately show ?thesis ..
qed

lemma walk_clear: "(\<And>j. j < 512 \<Longrightarrow> E c j = 0) \<Longrightarrow> walk E k c va = None"
  by (cases k) simp_all

lemma walk_link:
  assumes l: "linkable E A K R r p t i c" "linked E E' t i c" and r': "r' \<in> insert K R"
    and q: "pth q" "length q + k = 3" "tab E 0 r' q = Some f"
  shows "walk E' k f va = walk E k f va"
  using q
proof (induction k arbitrary: q f)
  case 0
  have i: "pt_inv E A K R" "r \<in> insert K R" "owned K r p" "tab E 0 r p = Some t" "length p \<le> 2" "c \<in> A"
    using l(1) owned_butlast by (auto simp: linkable_def)
  have "f \<noteq> t" using tab_depth [OF i(1) r' _ _ _ i(2,3), of q] 0 i(4,5) by auto
  moreover have "f \<in> page_frames" "f \<noteq> c" using tab_frame [OF i(1) r', of q f] 0 i(6) by auto
  ultimately show ?case using l(2) by (auto simp: linked_def)
next
  case (Suc k)
  have i: "pt_inv E A K R" "\<not> present (E t i)" "c \<in> A" "c \<in> page_frames"
    using l(1) by (auto simp: linkable_def)
  let ?j = "idx (Suc k) va"
  obtain e where e: "present e" "\<not> large e" "frame e = c"
    "\<And>g j. g \<in> page_frames \<Longrightarrow> j < 512 \<Longrightarrow> E' g j = (if g = c then 0 else if g = t \<and> j = i then e else E g j)"
    using l(2) by (auto simp: linked_def)
  have f: "f \<in> page_frames" "f \<noteq> c" using tab_frame [OF i(1) r' Suc(2) _ Suc(4)] Suc(3) i(3) by auto
  show ?case
  proof (cases "f = t \<and> ?j = i")
    case True
    then have "E' f ?j = e" using e(4) [OF f(1) idx_less [of "Suc k" va]] f(2) by simp
    then have "walk E' (Suc k) f va = None"
      using e i(4) by (simp add: Let_def walk_clear)
    then show ?thesis using True i(2) by simp
  next
    case False
    then have same: "E' f ?j = E f ?j" using e(4) [OF f(1), of ?j] f(2) by auto
    have "walk E' k (frame (E f ?j)) va = walk E k (frame (E f ?j)) va"
      if p: "present (E f ?j)" and lg: "\<not> (k < 2 \<and> large (E f ?j))"
    proof (rule Suc.IH)
      have "f = r'" if "\<not> k < 2"
        using Suc(3,4) that by (cases q) auto
      then have "\<not> large (E f ?j)" using lg p pt_invD(4) [OF i(1) r', of ?j] by auto
      then show "tab E 0 r' (q @ [?j]) = Some (frame (E f ?j))"
        using Suc(4) p by (simp add: tab_snoc child_def)
    qed (use Suc in auto)
    then show ?thesis using same by (simp add: Let_def)
  qed
qed

lemma translate_link:
  assumes "linkable E A K R r p t i c" "linked E E' t i c" "r' \<in> insert K R"
  shows "translate E' r' va = translate E r' va"
  using walk_link [OF assms, of "[]" 3] by (simp add: translate_def)

subsection \<open>Writing a leaf entry\<close>

definition leaf_slot :: "entries \<Rightarrow> u64 set \<Rightarrow> u64 \<Rightarrow> u64 set \<Rightarrow> u64 \<Rightarrow> u64 list \<Rightarrow> u64 \<Rightarrow> bool" where
  "leaf_slot E A K R r p t \<longleftrightarrow> pt_inv E A K R \<and> r \<in> insert K R \<and> owned K r p \<and> length p = 3 \<and>
     tab E 0 r p = Some t"

definition leaf_set :: "entries \<Rightarrow> entries \<Rightarrow> u64 \<Rightarrow> u64 \<Rightarrow> u64 \<Rightarrow> bool" where
  "leaf_set E E' t i e \<longleftrightarrow>
     (\<forall>f \<in> page_frames. \<forall>j < 512. E' f j = (if f = t \<and> j = i then e else E f j))"

lemma leaf_slotD:
  assumes "leaf_slot E A K R r p t" "leaf_set E E' t i e" "r' \<in> insert K R" "pth q" "length q \<le> 3"
    "tab E 0 r' q = Some f" "j < 512"
  shows "E' f j = (if q = p \<and> f = t \<and> j = i then e else E f j)"
proof -
  have i: "pt_inv E A K R" "r \<in> insert K R" "owned K r p" "length p = 3" "tab E 0 r p = Some t"
    using assms(1) by (auto simp: leaf_slot_def)
  have "f \<in> page_frames" using tab_frame [OF i(1) assms(3-6)] by simp
  moreover have "q = p" if "f = t" using tab_depth [OF i(1) assms(3-6) i(2,3)] i(5) that by simp
  ultimately show ?thesis using assms(2,7) by (auto simp: leaf_set_def)
qed

lemma tab_leaf:
  assumes l: "leaf_slot E A K R r p t" "leaf_set E E' t i e" and r': "r' \<in> insert K R"
    and q: "pth q" "length q \<le> 3"
  shows "tab E' 0 r' q = tab E 0 r' q"
  using q
proof (induction q rule: rev_induct)
  case (snoc j q)
  then have q: "pth q" "length q \<le> 3" "j < 512" "q \<noteq> p" and IH: "tab E' 0 r' q = tab E 0 r' q"
    using l(1) by (auto simp: leaf_slot_def)
  show ?case
    using leaf_slotD [OF l r' q(1,2) _ q(3)] q(4) IH by (auto simp: tab_snoc split: option.split)
qed simp

lemma tab_leaf4:
  assumes l: "leaf_slot E A K R r p t" "leaf_set E E' t i e" and r': "r' \<in> insert K R"
    and q: "owned K r' (q @ [j])" "length q = 3"
  shows "tab E' 0 r' (q @ [j]) = (if r' = r \<and> q = p \<and> j = i then child 3 e else tab E 0 r' (q @ [j]))"
proof -
  have i: "pt_inv E A K R" "r \<in> insert K R" "owned K r p" "tab E 0 r p = Some t"
    using l(1) by (auto simp: leaf_slot_def)
  have o: "owned K r' q" "pth q" "j < 512" using q owned_butlast by (auto simp: owned_def)
  have "r' = r" if "tab E 0 r' q = Some t"
    using pt_invD(3) [OF i(1) r' i(2) o(1) i(3) that i(4)] by simp
  moreover have "tab E' 0 r' q = tab E 0 r' q" using tab_leaf [OF l r' o(2)] q(2) by simp
  moreover have "E' f j = (if q = p \<and> f = t \<and> j = i then e else E f j)" if "tab E 0 r' q = Some f" for f
    using leaf_slotD [OF l r' o(2) _ that o(3)] q(2) by simp
  ultimately show ?thesis
    using q(2) i(4) by (cases "tab E 0 r' q") (auto simp: tab_snoc)
qed

text \<open>
  Writing a leaf keeps the forest when, for a process space, the page it maps belongs to no
  space yet.
\<close>

lemma pt_inv_leaf:
  assumes l: "leaf_slot E A K R r p t" "leaf_set E E' t i e" "i < 512"
    and fresh: "r \<noteq> K \<Longrightarrow> present e \<Longrightarrow> frame e \<in> page_frames \<and> frame e \<notin> A \<and>
      (\<forall>r' q. r' \<in> insert K R \<longrightarrow> owned K r' q \<longrightarrow> tab E 0 r' q \<noteq> Some (frame e))"
  shows "pt_inv E' A K R"
proof -
  have i: "pt_inv E A K R" "r \<in> insert K R" "owned K r p" "length p = 3" "tab E 0 r p = Some t"
    using l(1) by (auto simp: leaf_slot_def)
  note inv = pt_invD [OF i(1)]
  have T: "tab E' 0 r' q = Some f \<longleftrightarrow>
      (if r' = r \<and> q = p @ [i] then present e \<and> f = frame e else tab E 0 r' q = Some f)"
    if r': "r' \<in> insert K R" and o: "owned K r' q" for r' q f
  proof (cases "length q \<le> 3")
    case True
    then show ?thesis using tab_leaf [OF l(1,2) r'] o i(4) by (auto simp: owned_def)
  next
    case False
    then obtain q' j where "q = q' @ [j]" "length q' = 3"
      using o by (cases q rule: rev_cases) (auto simp: owned_def split: if_splits)
    then show ?thesis using tab_leaf4 [OF l(1,2) r', of q' j] o by (auto simp: child_def)
  qed
  have nK: "r \<noteq> K" if "owned K r (p @ [i])" using that i(4) by (auto simp: owned_def)
  have root: "E' r' j = E r' j" if "r' \<in> insert K R" "j < 512" for r' j
    using leaf_slotD [OF l(1,2) that(1), of "[]" r' j] that i(4) by auto
  have K: "K \<notin> R" using inv(1) [OF i(2)] .
  have 1: "f \<in> page_frames - A" if a: "r' \<in> insert K R" "owned K r' q" "tab E' 0 r' q = Some f" for r' q f
    using a T [OF a(1,2), of f] inv(2) [OF a(1,2), of f] fresh nK by (auto split: if_splits)
  have 2: "r1 = r2 \<and> q1 = q2" if a: "r1 \<in> insert K R" "r2 \<in> insert K R" "owned K r1 q1" "owned K r2 q2"
    "tab E' 0 r1 q1 = Some f" "tab E' 0 r2 q2 = Some f" for r1 r2 q1 q2 f
  proof -
    have "tab E 0 r1 q1 = Some f \<or> r1 = r \<and> q1 = p @ [i] \<and> present e \<and> f = frame e"
      "tab E 0 r2 q2 = Some f \<or> r2 = r \<and> q2 = p @ [i] \<and> present e \<and> f = frame e"
      using T [OF a(1,3), of f] T [OF a(2,4), of f] a(5,6) by (auto split: if_splits)
    then show ?thesis
      using inv(3) [OF a(1-4), of f] fresh nK a(1-4) by blast
  qed
  have 3: "\<not> large (E' r' j)" if "r' \<in> insert K R" "j < 512" "present (E' r' j)" for r' j
    using inv(4) [OF that(1,2)] that(3) root [OF that(1,2)] by simp
  have 4: "E' r' j = E' K j" if a: "r' \<in> R" "j < 512" "256 \<le> j" "present (E' r' j)" for r' j
    using inv(5) [of r' j] a root [of r' j] root [of K j] by simp
  have 5: "\<not> large (E' f j)" if a: "r' \<in> R" "owned K r' q" "q \<noteq> []" "length q \<le> 2" "tab E' 0 r' q = Some f"
    "j < 512" "present (E' f j)" for r' q f j
  proof -
    have "q \<noteq> p @ [i]" using a(4) i(4) by auto
    then have o: "tab E 0 r' q = Some f" using T [of r' q f] a by simp
    moreover have "pth q" using a(2) by (simp add: owned_def)
    ultimately have "E' f j = E f j"
      using leaf_slotD [OF l(1,2) _ _ _ o a(6)] a(1,4) i(4) by auto
    then show ?thesis using inv(6) [of r' q f j] a o by auto
  qed
  show "pt_inv E' A K R" by (rule pt_invI) (fact K 1 2 3 4 5)+
qed

text \<open>An address whose last table is \<open>t\<close> is translated by the entry there.\<close>

lemma walk_tab:
  assumes "pt_inv E A K R" "r \<in> insert K R" "k \<le> 3" "tab E 0 r (pre va 0) = Some t"
    "tab E 0 r (pre va k) = Some f"
  shows "walk E k f va = walk E 0 t va"
  using assms(3,5)
proof (induction k arbitrary: f)
  case (Suc k)
  have *: "\<exists>g. tab E 0 r (pre va k) = Some g" if "k \<le> 3" for k
    using that
  proof (induction k)
    case (Suc k)
    then show ?case using pre_step [of k va] by (auto simp: tab_snoc split: option.splits)
  qed (use assms(4) in simp)
  from * [of k] Suc.prems obtain g where g: "tab E 0 r (pre va k) = Some g" by auto
  then have "child (2 - k) (E f (idx (Suc k) va)) = Some g"
    using Suc.prems pre_step [of k va] by (simp add: tab_snoc)
  then have "present (E f (idx (Suc k) va))" "\<not> large (E f (idx (Suc k) va))"
    "g = frame (E f (idx (Suc k) va))"
    by (auto simp: child_def split: if_splits)
  then show ?case using Suc.IH [OF _ g] Suc.prems by (simp add: Let_def)
qed (use assms(4) in simp)

lemma translate_tab:
  assumes "pt_inv E A K R" "r \<in> insert K R" "tab E 0 r (pre va 0) = Some t"
  shows "translate E r va = walk E 0 t va"
  using walk_tab [OF assms(1,2) _ assms(3), of 3 r] by (simp add: translate_def)

lemma walk_leaf:
  assumes l: "leaf_slot E A K R r p t" "leaf_set E E' t i e" and r': "r' \<in> insert K R"
    and k: "k \<le> 3" "tab E 0 r' (pre va k) = Some f"
    and miss: "\<not> (tab E 0 r' (pre va 0) = Some t \<and> idx 0 va = i)"
  shows "walk E' k f va = walk E k f va"
  using k
proof (induction k arbitrary: f)
  case 0
  then show ?case using leaf_slotD [OF l r', of "pre va 0" f "idx 0 va"] miss by auto
next
  case (Suc k)
  have i: "pt_inv E A K R" "length p = 3" using l(1) by (auto simp: leaf_slot_def)
  let ?j = "idx (Suc k) va"
  have same: "E' f ?j = E f ?j"
    using leaf_slotD [OF l r', of "pre va (Suc k)" f ?j] Suc.prems i(2) by auto
  have "walk E' k (frame (E f ?j)) va = walk E k (frame (E f ?j)) va"
    if p: "present (E f ?j)" and lg: "\<not> (k < 2 \<and> large (E f ?j))"
  proof (rule Suc.IH)
    have "f = r'" if "\<not> k < 2" using Suc.prems that by (cases "k = 2") auto
    then have "\<not> large (E f ?j)" using lg p pt_invD(4) [OF i(1) r', of ?j] by auto
    then show "tab E 0 r' (pre va k) = Some (frame (E f ?j))"
      using Suc.prems p pre_step [of k va] by (simp add: tab_snoc child_def)
  qed (use Suc.prems in simp)
  then show ?case using same by (simp add: Let_def)
qed

lemma translate_leaf:
  assumes "leaf_slot E A K R r p t" "leaf_set E E' t i e" "r' \<in> insert K R"
    "\<not> (tab E 0 r' (pre va 0) = Some t \<and> idx 0 va = i)"
  shows "translate E' r' va = translate E r' va"
  using walk_leaf [OF assms(1-3) _ _ assms(4), of 3 r'] by (simp add: translate_def)

end
