(* ===== verification/Spaces.thy ===== *)
theory Spaces
  imports Paging
begin

text \<open>
  The operations of the page-table code keep the forest of tables and change translations as
  intended: the kernel maps, unmaps and looks up pages, process spaces are created, filled
  and destroyed.
\<close>

subsection \<open>Tables in memory\<close>

definition ent :: "kmm \<Rightarrow> entries" where
  "ent s f i = rd64 s (direct_map s + f) i"

definition mm_ok :: "kmm \<Rightarrow> bool" where
  "mm_ok s \<longleftrightarrow> pmm_inv (mm_pmm s) \<and> PMM_MAX_PHYS_BYTES \<le> direct_map_size s \<and> direct_map s \<noteq> 0 \<and>
     unat (direct_map s) + unat (direct_map_size s) \<le> 2 ^ 64"

definition mm_inv :: "u64 set \<Rightarrow> kmm \<Rightarrow> bool" where
  "mm_inv R s \<longleftrightarrow> mm_ok s \<and> pt_inv (ent s) (avail (mm_pmm s)) (active_pml4_phys s) R"

lemma page_frame_nat:
  assumes "f \<in> page_frames"
  obtains n where "unat f = 4096 * n" "unat f < 2 ^ 36"
proof -
  have f: "f < 0x1000000000" "f mod 4096 = 0"
    using assms unfolding page_frames_def PMM_MAX_PHYS_BYTES_eq OS_PAGE_SIZE_def by blast+
  have "unat (f mod 4096) = unat f mod 4096" by (simp add: unat_mod)
  then have "unat f mod 4096 = 0" using f(2) by (metis unat_0)
  then have "unat f = 4096 * (unat f div 4096)" by (metis mult_div_mod_eq add.right_neutral)
  moreover have "unat f < 2 ^ 36" using f(1) by (simp add: word_less_nat_alt)
  ultimately show ?thesis using that by blast
qed

lemma frames_apart:
  assumes "f \<in> page_frames" "h \<in> page_frames" "f \<noteq> h"
  shows "unat f + 4096 \<le> unat h \<or> unat h + 4096 \<le> unat f"
proof -
  obtain m where m: "unat f = 4096 * m" using assms(1) by (rule page_frame_nat)
  obtain n where n: "unat h = 4096 * n" using assms(2) by (rule page_frame_nat)
  have "m \<noteq> n" using assms(3) m n by (auto simp: word_unat_eq_iff)
  then have "Suc m \<le> n \<or> Suc n \<le> m" by linarith
  then show ?thesis unfolding m n by linarith
qed

lemma mm_ok_bound:
  assumes "mm_ok s" "f \<in> page_frames" "n \<le> 4096"
  shows "unat (direct_map s) + unat f + n \<le> 2 ^ 64"
proof -
  obtain m where m: "unat f = 4096 * m" "unat f < 2 ^ 36" using assms(2) by (rule page_frame_nat)
  then have "unat f + 4096 \<le> 2 ^ 36" by simp
  moreover have "unat PMM_MAX_PHYS_BYTES = 2 ^ 36" by (simp add: PMM_MAX_PHYS_BYTES_eq)
  then have "2 ^ 36 \<le> unat (direct_map_size s)" using assms(1) by (simp add: mm_ok_def word_le_nat_alt)
  ultimately show ?thesis using assms(1,3) by (simp add: mm_ok_def)
qed

lemma unat_slot:
  assumes "mm_ok s" "f \<in> page_frames" "i < 512"
  shows "unat (direct_map s + f + 8 * i) = unat (direct_map s) + unat f + 8 * unat i"
proof -
  have i: "unat i < 512" using assms(3) by (simp add: word_less_nat_alt)
  have "unat (direct_map s) + unat f + 8 * unat i < 2 ^ 64"
    using mm_ok_bound [OF assms(1,2), of 4096] i by linarith
  then have "unat (direct_map s + f) = unat (direct_map s) + unat f"
    "unat (8 * i) = 8 * unat i"
    by (simp_all add: unat_add_lem [THEN iffD1] unat_mult_lem [THEN iffD1])
  then show ?thesis
    using \<open>unat (direct_map s) + unat f + 8 * unat i < 2 ^ 64\<close>
    by (simp add: unat_add_lem [THEN iffD1])
qed

lemma slots_apart:
  assumes "mm_ok s" "f \<in> page_frames" "g \<in> page_frames" "i < 512" "j < 512" "\<not> (f = g \<and> i = j)"
  shows "unat (direct_map s + f + 8 * i) + 8 \<le> unat (direct_map s + g + 8 * j) \<or>
    unat (direct_map s + g + 8 * j) + 8 \<le> unat (direct_map s + f + 8 * i)"
proof -
  obtain m where m: "unat f = 4096 * m" using assms(2) by (rule page_frame_nat)
  obtain n where n: "unat g = 4096 * n" using assms(3) by (rule page_frame_nat)
  have "unat i < 512" "unat j < 512" using assms(4,5) by (simp_all add: word_less_nat_alt)
  moreover have "m \<noteq> n \<or> unat i \<noteq> unat j" using assms(6) m n by (auto simp: word_unat_eq_iff)
  moreover have "4096 * m + 4096 \<le> 4096 * n" if "m < n" using that by simp
  moreover have "4096 * n + 4096 \<le> 4096 * m" if "n < m" using that by simp
  ultimately show ?thesis
    unfolding unat_slot [OF assms(1,2,4)] unat_slot [OF assms(1,3,5)] m n
    by (cases m n rule: linorder_cases) linarith+
qed

lemma slot_bound:
  assumes "mm_ok s" "f \<in> page_frames" "i < 512"
  shows "unat (direct_map s + f + 8 * i) + 8 \<le> 2 ^ 64"
proof -
  have "unat i < 512" using assms(3) by (simp add: word_less_nat_alt)
  then show ?thesis
    using mm_ok_bound [OF assms(1,2), of 4096] unat_slot [OF assms] by linarith
qed

lemma wr64_sel [simp]:
  "mm_pmm (wr64 t i v s) = mm_pmm s" "active_pml4_phys (wr64 t i v s) = active_pml4_phys s"
  "direct_map (wr64 t i v s) = direct_map s" "direct_map_size (wr64 t i v s) = direct_map_size s"
  "cr3 (wr64 t i v s) = cr3 s"
  by (simp_all add: wr64_def)

lemma mm_ok_wr64 [simp]: "mm_ok (wr64 t i v s) = mm_ok s"
  by (simp add: mm_ok_def)

lemma ent_wr64:
  assumes "mm_ok s" "f \<in> page_frames" "g \<in> page_frames" "i < 512" "j < 512"
  shows "ent (wr64 (direct_map s + f) i v s) g j = (if g = f \<and> j = i then v else ent s g j)"
proof (cases "g = f \<and> j = i")
  case False
  then show ?thesis
    using slots_apart [OF assms(1-5)] slot_bound [OF assms(1,2,4)] slot_bound [OF assms(1,3,5)]
    by (subst ent_def) (auto simp: rd64_def wr64_def ent_def intro: ld64_st64_other)
qed (simp add: ent_def rd64_def wr64_def)

lemma clear_table_sel [simp]:
  "mm_pmm (clear_table t s) = mm_pmm s" "active_pml4_phys (clear_table t s) = active_pml4_phys s"
  "direct_map (clear_table t s) = direct_map s" "direct_map_size (clear_table t s) = direct_map_size s"
  "cr3 (clear_table t s) = cr3 s"
proof -
  have "mm_pmm (fold (\<lambda>i. wr64 t (of_nat i) 0) is s) = mm_pmm s \<and>
    active_pml4_phys (fold (\<lambda>i. wr64 t (of_nat i) 0) is s) = active_pml4_phys s \<and>
    direct_map (fold (\<lambda>i. wr64 t (of_nat i) 0) is s) = direct_map s \<and>
    direct_map_size (fold (\<lambda>i. wr64 t (of_nat i) 0) is s) = direct_map_size s \<and>
    cr3 (fold (\<lambda>i. wr64 t (of_nat i) 0) is s) = cr3 s" for "is"
    by (induction "is" arbitrary: s) simp_all
  then show "mm_pmm (clear_table t s) = mm_pmm s" "active_pml4_phys (clear_table t s) = active_pml4_phys s"
  "direct_map (clear_table t s) = direct_map s" "direct_map_size (clear_table t s) = direct_map_size s"
  "cr3 (clear_table t s) = cr3 s"
    by (simp_all add: clear_table_def)
qed

lemma mm_ok_clear_table [simp]: "mm_ok (clear_table t s) = mm_ok s"
  by (simp add: mm_ok_def)

lemma ent_clear_table:
  assumes "mm_ok s" "c \<in> page_frames" "g \<in> page_frames" "j < 512"
  shows "ent (clear_table (direct_map s + c) s) g j = (if g = c then 0 else ent s g j)"
proof -
  have "ent (fold (\<lambda>i. wr64 (direct_map s + c) (of_nat i) 0) [0..<n] s) g j =
      (if g = c \<and> unat j < n then 0 else ent s g j) \<and>
      mm_ok (fold (\<lambda>i. wr64 (direct_map s + c) (of_nat i) 0) [0..<n] s) \<and>
      direct_map (fold (\<lambda>i. wr64 (direct_map s + c) (of_nat i) 0) [0..<n] s) = direct_map s" if "n \<le> 512" for n
    using that
  proof (induction n)
    case (Suc n)
    let ?s = "fold (\<lambda>i. wr64 (direct_map s + c) (of_nat i) 0) [0..<n] s"
    have n: "unat (of_nat n :: u64) = n" using Suc(2) by (intro unat_of_nat_less) simp
    then have "(of_nat n :: u64) < 512" using Suc(2) by (simp add: word_less_nat_alt)
    moreover have "j = of_nat n \<longleftrightarrow> unat j = n" using n by auto
    ultimately show ?case
      using Suc ent_wr64 [of ?s c g "of_nat n" j 0] assms by (auto simp: less_Suc_eq)
  qed (use assms in simp)
  from this [of 512] show ?thesis using assms(4) by (simp add: clear_table_def word_less_nat_alt)
qed

lemma phys_to_virt_frame:
  assumes "mm_ok s" "f \<in> page_frames"
  shows "phys_to_virt s f = Some (direct_map s + f)" "direct_map s + f \<noteq> 0"
proof -
  have "f < direct_map_size s"
    using assms less_le_trans by (auto simp: mm_ok_def page_frames_def)
  then show "phys_to_virt s f = Some (direct_map s + f)" by (simp add: phys_to_virt_def)
  have "unat (direct_map s + f) = unat (direct_map s) + unat f"
    using unat_slot [OF assms, of 0] by simp
  moreover have "unat (direct_map s) \<noteq> 0" using assms(1) by (simp add: mm_ok_def unat_eq_0)
  ultimately show "direct_map s + f \<noteq> 0" by (metis add_is_0 unat_0)
qed

subsection \<open>Growing a space by empty tables\<close>

text \<open>The frames that belong to the space with root \<open>r\<close>.\<close>

definition space_frames :: "u64 \<Rightarrow> kmm \<Rightarrow> u64 set" where
  "space_frames r s = {f. \<exists>q. owned (active_pml4_phys s) r q \<and> tab (ent s) 0 r q = Some f}"

text \<open>The frames of its tables alone, without those of the pages it maps.\<close>

definition table_frames :: "u64 \<Rightarrow> kmm \<Rightarrow> u64 set" where
  "table_frames r s = {f. \<exists>q. owned (active_pml4_phys s) r q \<and> length q \<le> 3 \<and> tab (ent s) 0 r q = Some f}"

text \<open>The byte at an offset of a page frame.\<close>

definition frame_byte :: "kmm \<Rightarrow> u64 \<Rightarrow> u64 \<Rightarrow> u8" where
  "frame_byte s f off = kmem s (direct_map s + f + off)"

definition same_frame :: "kmm \<Rightarrow> kmm \<Rightarrow> u64 \<Rightarrow> bool" where
  "same_frame s s' f \<longleftrightarrow> (\<forall>off < 4096. frame_byte s' f off = frame_byte s f off)"

text \<open>
  From \<open>s\<close> to \<open>s'\<close> free pages have become empty tables of the space \<open>r\<close>; no translation
  of any space has changed, and no page in use but the tables of \<open>r\<close>.
\<close>

definition same_regs :: "kmm \<Rightarrow> kmm \<Rightarrow> bool" where
  "same_regs s s' \<longleftrightarrow> active_pml4_phys s' = active_pml4_phys s \<and> direct_map s' = direct_map s \<and>
     direct_map_size s' = direct_map_size s \<and> cr3 s' = cr3 s"

definition grow :: "u64 set \<Rightarrow> u64 \<Rightarrow> kmm \<Rightarrow> kmm \<Rightarrow> bool" where
  "grow R r s s' \<longleftrightarrow> mm_inv R s' \<and> same_regs s s' \<and> avail (mm_pmm s') \<subseteq> avail (mm_pmm s) \<and>
     (\<forall>r' \<in> insert (active_pml4_phys s) R. \<forall>va. translate (ent s') r' va = translate (ent s) r' va) \<and>
     (\<forall>r' \<in> insert (active_pml4_phys s) R. space_frames r' s' =
        (if r' = r then space_frames r' s \<union> (avail (mm_pmm s) - avail (mm_pmm s')) else space_frames r' s)) \<and>
     table_frames r s \<subseteq> table_frames r s' \<and>
     (\<forall>f \<in> page_frames. f \<notin> avail (mm_pmm s) \<longrightarrow> f \<notin> table_frames r s' \<longrightarrow> same_frame s s' f)"

lemma grow_refl: "mm_inv R s \<Longrightarrow> grow R r s s"
  by (simp add: grow_def same_regs_def same_frame_def)

lemma same_frame_trans: "same_frame s s' f \<Longrightarrow> same_frame s' s'' f \<Longrightarrow> same_frame s s'' f"
  by (simp add: same_frame_def)

lemma grow_trans:
  assumes "grow R r s s'" "grow R r s' s''"
  shows "grow R r s s''"
proof -
  have "same_frame s s'' f" if f: "f \<in> page_frames" "f \<notin> avail (mm_pmm s)" "f \<notin> table_frames r s''" for f
  proof -
    have "f \<notin> avail (mm_pmm s')" "f \<notin> table_frames r s'" using assms f unfolding grow_def by blast+
    then show ?thesis using assms f unfolding grow_def by (blast intro: same_frame_trans)
  qed
  moreover have "table_frames r s \<subseteq> table_frames r s''" using assms unfolding grow_def by blast
  ultimately show ?thesis using assms unfolding grow_def same_regs_def by (elim conjE) (intro conjI; (assumption | auto))
qed

lemma unat_frame_byte:
  assumes "mm_ok s" "f \<in> page_frames" "off < 4096"
  shows "unat (direct_map s + f + off) = unat (direct_map s) + unat f + unat off"
proof -
  have i: "unat off < 4096" using assms(3) by (simp add: word_less_nat_alt)
  have b: "unat (direct_map s) + unat f + unat off < 2 ^ 64"
    using mm_ok_bound [OF assms(1,2), of 4096] i by linarith
  then have "unat (direct_map s + f) = unat (direct_map s) + unat f" by (simp add: unat_add_lem [THEN iffD1])
  then show ?thesis using b by (simp add: unat_add_lem [THEN iffD1])
qed

lemma same_frame_wr64:
  assumes ok: "mm_ok s" and f: "f \<in> page_frames" and g: "g \<in> page_frames" and "g \<noteq> f" and i: "i < 512"
  shows "same_frame s (wr64 (direct_map s + f) i v s) g"
  unfolding same_frame_def frame_byte_def
proof (intro allI impI)
  fix off :: u64 assume off: "off < 4096"
  have u: "unat off < 4096" "unat i < 512" using off i by (simp_all add: word_less_nat_alt)
  have "unat f + 4096 \<le> unat g \<or> unat g + 4096 \<le> unat f" using frames_apart [OF f g] assms(4) by auto
  then show "kmem (wr64 (direct_map s + f) i v s) (direct_map (wr64 (direct_map s + f) i v s) + g + off) =
      kmem s (direct_map s + g + off)"
    using u slot_bound [OF ok f i] unat_slot [OF ok f i] unat_frame_byte [OF ok g off]
    by (simp add: wr64_def st64_def) (intro st_bytes_other; simp; linarith)
qed

lemma same_frame_clear_table:
  assumes ok: "mm_ok s" and f: "f \<in> page_frames" and g: "g \<in> page_frames" and ne: "g \<noteq> f"
  shows "same_frame s (clear_table (direct_map s + f) s) g"
proof -
  have "same_frame s (fold (\<lambda>i. wr64 (direct_map s + f) (of_nat i) 0) [0..<n] s) g \<and>
      mm_ok (fold (\<lambda>i. wr64 (direct_map s + f) (of_nat i) 0) [0..<n] s) \<and>
      direct_map (fold (\<lambda>i. wr64 (direct_map s + f) (of_nat i) 0) [0..<n] s) = direct_map s" if "n \<le> 512" for n
    using that
  proof (induction n)
    case (Suc n)
    let ?s = "fold (\<lambda>i. wr64 (direct_map s + f) (of_nat i) 0) [0..<n] s"
    have "unat (of_nat n :: u64) = n" using Suc(2) by (intro unat_of_nat_less) simp
    then have "(of_nat n :: u64) < 512" using Suc(2) by (simp add: word_less_nat_alt)
    then show ?case
      using Suc same_frame_wr64 [of ?s f g "of_nat n" 0] f g ne by (auto intro: same_frame_trans)
  qed (simp add: same_frame_def ok)
  from this [of 512] show ?thesis by (simp add: clear_table_def)
qed

lemma same_frame_pmm [simp]: "same_frame (s\<lparr>mm_pmm := p\<rparr>) s' f = same_frame s s' f"
  by (simp add: same_frame_def frame_byte_def)

definition entry_flags :: "u64 \<Rightarrow> bool" where
  "entry_flags x \<longleftrightarrow> x AND PAGE_MASK = 0 \<and> \<not> large x"

lemma entry_flags_simps [simp]: "entry_flags 0" "entry_flags VMM_USER" "entry_flags PAGE_PRESENT"
  "entry_flags PAGE_WRITABLE"
  by (simp_all add: entry_flags_def large_def PAGE_LARGE_def PAGE_MASK_def VMM_USER_def
      PAGE_PRESENT_def PAGE_WRITABLE_def)

lemma entry_flags_or [simp]: "entry_flags x \<Longrightarrow> entry_flags y \<Longrightarrow> entry_flags (x OR y)"
  by (auto simp: entry_flags_def bit.conj_disj_distrib2 large_bit bit_or_iff)

lemma table_entry:
  assumes "c \<in> page_frames" "entry_flags x"
  defines "e \<equiv> (c AND PAGE_MASK) OR PAGE_PRESENT OR PAGE_WRITABLE OR x"
  shows "present e" "\<not> large e" "frame e = c"
proof -
  have x: "entry_flags (PAGE_PRESENT OR PAGE_WRITABLE OR x)" using assms(2) by simp
  show "frame e = c"
    using frame_entry [OF assms(1)] x by (simp add: e_def entry_flags_def or.assoc)
  show "present e" by (simp add: e_def present_bit bit_or_iff PAGE_PRESENT_def)
  have "\<not> bit (c AND PAGE_MASK) 7" by (simp add: bit_and_iff bit_PAGE_MASK)
  then show "\<not> large e" using x by (simp add: e_def entry_flags_def large_bit bit_or_iff or.assoc)
qed

lemma mm_ok_alloc:
  assumes "mm_ok s" "pmm_alloc_page (mm_pmm s) = (a, p)"
  shows "mm_ok (s\<lparr>mm_pmm := p\<rparr>)"
  using assms pmm_pages.alloc_pinv by (auto simp: mm_ok_def)

lemma ent_pmm [simp]: "ent (s\<lparr>mm_pmm := p\<rparr>) = ent s"
  by (simp add: ent_def rd64_def fun_eq_iff)

lemma tab_mem_frames:
  assumes "mm_inv R s" "r \<in> insert (active_pml4_phys s) R" "owned (active_pml4_phys s) r q"
    "tab (ent s) 0 r q = Some f"
  shows "f \<in> page_frames" "f \<notin> avail (mm_pmm s)"
  using assms pt_invD(2) [of "ent s" "avail (mm_pmm s)" "active_pml4_phys s" R r q f]
  by (simp_all add: mm_inv_def)

lemma grow_link:
  assumes inv: "mm_inv R s" and r: "r \<in> insert (active_pml4_phys s) R"
    and o: "owned (active_pml4_phys s) r (p @ [i])" "length p \<le> 2" "tab (ent s) 0 r p = Some t"
    and np: "\<not> present (ent s t i)" and x: "entry_flags x"
    and al: "pmm_alloc_page (mm_pmm s) = (c, m)" "c \<noteq> PMM_ALLOC_FAILED"
  defines "s' \<equiv> wr64 (direct_map s + t) i ((c AND PAGE_MASK) OR PAGE_PRESENT OR PAGE_WRITABLE OR x)
    (clear_table (direct_map s + c) (s\<lparr>mm_pmm := m\<rparr>))"
  shows "grow R r s s'" "tab (ent s') 0 r (p @ [i]) = Some c" "c \<in> page_frames"
    "frame (ent s' t i) = c"
proof -
  let ?K = "active_pml4_phys s" and ?A = "avail (mm_pmm s)"
  let ?s1 = "s\<lparr>mm_pmm := m\<rparr>"
  have ok: "mm_ok s" and pt: "pt_inv (ent s) ?A ?K R" using inv by (auto simp: mm_inv_def)
  have "pmm_inv (mm_pmm s)" using ok by (simp add: mm_ok_def)
  then have c: "c \<in> ?A" "c \<in> page_frames" "avail m = ?A - {c}"
    by (cases rule: pmm_pages.alloc_cases; use al in simp)+
  have ok1: "mm_ok ?s1" by (rule mm_ok_alloc [OF ok al(1)])
  have t: "t \<in> page_frames" "i < 512" "t \<notin> ?A"
    using tab_mem_frames [OF inv r owned_butlast [OF o(1)] o(3)] o(1) by (auto simp: owned_def)
  let ?e = "(c AND PAGE_MASK) OR PAGE_PRESENT OR PAGE_WRITABLE OR x"
  note e = table_entry [OF c(2) x]
  have E: "ent s' g j = (if g = c then 0 else if g = t \<and> j = i then ?e else ent s g j)"
    if "g \<in> page_frames" "j < 512" for g j
  proof -
    have "ent (clear_table (direct_map s + c) ?s1) g j = (if g = c then 0 else ent s g j)"
      using ent_clear_table [OF ok1 c(2) that] by simp
    moreover have "ent s' g j = (if g = t \<and> j = i then ?e else ent (clear_table (direct_map s + c) ?s1) g j)"
      using ent_wr64 [of "clear_table (direct_map s + c) ?s1" t g i j] ok1 that t by (simp add: s'_def)
    ultimately show ?thesis using c(1) t(3) by auto
  qed
  have lk: "linkable (ent s) ?A ?K R r p t i c"
    using pt r o np c by (simp add: linkable_def)
  have ln: "linked (ent s) (ent s') t i c"
    using E e by (auto simp: linked_def)
  have pt': "pt_inv (ent s') (?A - {c}) ?K R" and T: "tab (ent s') 0 r (p @ [i]) = Some c"
    using pt_inv_link [OF lk ln] by auto
  have regs: "mm_pmm s' = m" "active_pml4_phys s' = ?K" "direct_map s' = direct_map s"
    "direct_map_size s' = direct_map_size s" "cr3 s' = cr3 s" "mm_ok s'"
    using ok1 by (simp_all add: s'_def)
  have inv': "mm_inv R s'" using regs pt' c(3) by (simp add: mm_inv_def)
  have "space_frames r' s' = (if r' = r then space_frames r' s \<union> (?A - avail m) else space_frames r' s)"
    if r': "r' \<in> insert ?K R" for r'
  proof -
    have diff: "?A - avail m = {c}" using c by auto
    have new: "(\<exists>q. owned ?K r' q \<and> (\<exists>p'. q = p' @ [i] \<and> tab (ent s) 0 r' p' = Some t)) \<longleftrightarrow> r' = r"
      using pt_invD(3) [OF pt r' r _ owned_butlast [OF o(1)] _ o(3)] o owned_butlast by metis
    have "space_frames r' s' = {f. \<exists>q. owned ?K r' q \<and> (tab (ent s) 0 r' q = Some f \<or>
        f = c \<and> (\<exists>p'. q = p' @ [i] \<and> tab (ent s) 0 r' p' = Some t))}"
      using tab_link [OF lk ln r'] regs by (auto simp: space_frames_def owned_def split: if_splits)
    also have "\<dots> = space_frames r' s \<union> (if r' = r then {c} else {})"
      using new unfolding space_frames_def by auto
    finally show ?thesis using diff by simp
  qed
  moreover have "table_frames r s \<subseteq> table_frames r s'"
    using tab_link [OF lk ln r] regs by (auto simp: table_frames_def owned_def split: if_splits)
  moreover have "same_frame s s' f" if f: "f \<in> page_frames" "f \<notin> ?A" "f \<notin> table_frames r s'" for f
  proof -
    have "t \<in> table_frames r s'"
      using tab_link [OF lk ln r, of p] o owned_butlast [OF o(1)] regs
      by (auto simp: table_frames_def owned_def split: if_splits)
    then have "f \<noteq> t" "f \<noteq> c" using f c(1) by auto
    then show ?thesis
      using same_frame_clear_table [OF ok1 c(2) f(1)]
        same_frame_wr64 [of "clear_table (direct_map s + c) ?s1" t f i ?e] ok1 t f(1)
      by (auto simp: s'_def intro: same_frame_trans)
  qed
  ultimately show "grow R r s s'"
    using inv' regs translate_link [OF lk ln] c(3) by (simp add: grow_def same_regs_def)
  show "tab (ent s') 0 r (p @ [i]) = Some c" "c \<in> page_frames" by (fact T c(2))+
  show "frame (ent s' t i) = c" using E [OF t(1,2)] e(3) c(1) t(3) by auto
qed

lemma ensure_table_in_spec:
  assumes inv: "mm_inv R s" and r: "r \<in> insert (active_pml4_phys s) R"
    and o: "owned (active_pml4_phys s) r (p @ [i])" "length p \<le> 2" "tab (ent s) 0 r p = Some t"
    and x: "entry_flags x"
  obtains (fail) s' where "ensure_table_in (direct_map s + t) i x s = Some (0, s')" "grow R r s s'"
      "avail (mm_pmm s') = {} \<or> s' = s \<and> present (ent s t i) \<and> large (ent s t i)"
  | (ok) c s' where "ensure_table_in (direct_map s + t) i x s = Some (direct_map s + c, s')"
      "grow R r s s'" "tab (ent s') 0 r (p @ [i]) = Some c" "direct_map s + c \<noteq> 0"
proof -
  have mm: "mm_ok s" using inv by (simp add: mm_inv_def)
  have rd: "rd64 s (direct_map s + t) i = ent s t i" by (simp add: ent_def)
  show ?thesis
  proof (cases "present (ent s t i)")
    case False
    obtain c m where al: "pmm_alloc_page (mm_pmm s) = (c, m)" by fastforce
    show ?thesis
    proof (cases "c = PMM_ALLOC_FAILED")
      case True
      have "m = mm_pmm s" "avail (mm_pmm s) = {}"
        using mm al True pmm_pages.alloc_cases [of "mm_pmm s"] by (auto simp: mm_ok_def)
      then show ?thesis
        using fail [of s] False al True grow_refl [OF inv]
        by (simp add: ensure_table_in_def rd present_def)
    next
      case ne: False
      let ?s' = "wr64 (direct_map s + t) i ((c AND PAGE_MASK) OR PAGE_PRESENT OR PAGE_WRITABLE OR x)
        (clear_table (direct_map s + c) (s\<lparr>mm_pmm := m\<rparr>))"
      note g = grow_link [OF inv r o False x al ne]
      have "mm_ok (s\<lparr>mm_pmm := m\<rparr>)" by (rule mm_ok_alloc [OF mm al])
      then have v: "phys_to_virt (s\<lparr>mm_pmm := m\<rparr>) c = Some (direct_map s + c)" "direct_map s + c \<noteq> 0"
        using phys_to_virt_frame [OF _ g(3)] by force+
      have "rd64 ?s' (direct_map s + t) i AND PAGE_MASK = c"
        using g(4) by (simp add: frame_def ent_def)
      moreover have "phys_to_virt ?s' c = Some (direct_map s + c)"
        using v(1) by (simp add: phys_to_virt_def split: if_splits)
      ultimately have "ensure_table_in (direct_map s + t) i x s = Some (direct_map s + c, ?s')"
        using False al ne v by (simp add: ensure_table_in_def rd present_def)
      then show ?thesis using ok g v by blast
    qed
  next
    case True
    show ?thesis
    proof (cases "large (ent s t i)")
      case True
      then show ?thesis
        using fail [of s] \<open>present (ent s t i)\<close> grow_refl [OF inv]
        by (simp add: ensure_table_in_def rd present_def large_def)
    next
      case False
      let ?c = "frame (ent s t i)"
      have T: "tab (ent s) 0 r (p @ [i]) = Some ?c"
        using o(3) True False by (simp add: tab_snoc child_def)
      then have "?c \<in> page_frames" using tab_mem_frames [OF inv r o(1)] by simp
      then have "phys_to_virt s ?c = Some (direct_map s + ?c)" "direct_map s + ?c \<noteq> 0"
        using phys_to_virt_frame [OF mm] by simp_all
      then show ?thesis
        using ok [of ?c s] T True False grow_refl [OF inv]
        by (simp add: ensure_table_in_def rd present_def large_def frame_def)
    qed
  qed
qed

subsection \<open>Mapping a page\<close>

text \<open>The part that mapping into the kernel space and into a process space share.\<close>

definition map_path :: "u64 \<Rightarrow> u64 \<Rightarrow> u64 \<Rightarrow> u64 \<Rightarrow> kmm \<Rightarrow> (bool \<times> kmm) option" where
  "map_path root virt e x s = do {
     pml4 \<leftarrow> phys_to_virt s root;
     (pdpt, s) \<leftarrow> ensure_table_in pml4 (idx 3 virt) x s;
     if pdpt = 0 then Some (False, s) else do {
     (pd, s) \<leftarrow> ensure_table_in pdpt (idx 2 virt) x s;
     if pd = 0 then Some (False, s) else do {
     (pt, s) \<leftarrow> ensure_table_in pd (idx 1 virt) x s;
     if pt = 0 then Some (False, s) else Some (True, wr64 pt (idx 0 virt) e s) } } }"

lemma ensure_table_eq: "ensure_table t i s = ensure_table_in t i 0 s"
  by (simp add: ensure_table_def ensure_table_in_def Let_def split: prod.split)

lemma idx_eqs:
  "drop_bit 39 va AND INDEX_MASK = idx 3 va" "drop_bit 30 va AND INDEX_MASK = idx 2 va"
  "drop_bit 21 va AND INDEX_MASK = idx 1 va" "drop_bit 12 va AND INDEX_MASK = idx 0 va"
  by (simp_all add: idx_def)

lemma vmm_map_eq:
  "vmm_map virt phys flags s =
     map_path (active_pml4_phys s) virt ((phys AND PAGE_MASK) OR flags OR PAGE_PRESENT) 0 s"
  by (simp add: vmm_map_def map_path_def ensure_table_eq idx_eqs Let_def cong: if_cong)

lemma vmm_space_map_eq:
  "vmm_space_map r virt phys flags s =
     (if 256 \<le> idx 3 virt then Some (False, s)
      else map_path r virt ((phys AND PAGE_MASK) OR flags OR PAGE_PRESENT)
        (if flags AND VMM_USER \<noteq> 0 then VMM_USER else 0) s)"
  by (simp add: vmm_space_map_def map_path_def idx_eqs Let_def cong: if_cong)

definition mappable :: "u64 \<Rightarrow> u64 \<Rightarrow> u64 \<Rightarrow> bool" where
  "mappable K r va \<longleftrightarrow> r = K \<or> idx 3 va < 256"

lemma owned_pre:
  assumes "mappable K r va" "k < 3"
  shows "owned K r (pre va (Suc k) @ [idx (Suc k) va])"
proof -
  have "hd (pre va k) = idx 3 va" using assms(2) by (simp add: pre_def hd_map)
  then show ?thesis
    using assms pre_step [of k va] by (auto simp: owned_def mappable_def)
qed

lemma tab_next:
  "tab E 0 r (pre va (Suc k)) = Some f \<Longrightarrow> k < 3 \<Longrightarrow>
     tab E 0 r (pre va k) = child (2 - k) (E f (idx (Suc k) va))"
  using pre_step [of k va] by (simp add: tab_snoc)

lemma translate_unfold:
  "translate E r va =
     (let e3 = E r (idx 3 va); e2 = E (frame e3) (idx 2 va);
          e1 = E (frame e2) (idx 1 va); e0 = E (frame e1) (idx 0 va)
      in if \<not> present e3 then None else if \<not> present e2 then None
         else if large e2 then Some (frame e2 + (va AND 0x3fffffff))
         else if \<not> present e1 then None
         else if large e1 then Some (frame e1 + (va AND 0x1fffff))
         else if \<not> present e0 then None else Some (frame e0 + (va AND 0xfff)))"
proof -
  have m: "mask 12 = (0xfff :: u64)" "mask 30 = (0x3fffffff :: u64)" "mask 21 = (0x1fffff :: u64)"
    by (simp_all add: mask_eq_exp_minus_1)
  have "translate E r va = walk E (Suc (Suc (Suc 0))) r va" by (simp add: translate_def numeral_3_eq_3)
  then show ?thesis by (simp add: Let_def m numeral_3_eq_3 numeral_2_eq_2)
qed

lemma large_translates:
  assumes "tab E 0 r (pre va k) = Some t" "present (E t (idx k va))" "large (E t (idx k va))" "k = 1 \<or> k = 2"
  shows "translate E r va \<noteq> None"
proof -
  have "tab E 0 r (pre va (Suc (Suc (Suc 0)))) = Some r" by (simp add: numeral_3_eq_3 [symmetric])
  note n = tab_next [OF this, simplified]
  from assms(4) show ?thesis
  proof
    assume k: "k = 2"
    then have "child 0 (E r (idx 3 va)) = Some t"
      using n assms(1) by (simp add: numeral_2_eq_2 numeral_3_eq_3)
    then show ?thesis using assms(2,3) k by (auto simp: translate_unfold Let_def child_def split: if_splits)
  next
    assume k: "k = 1"
    obtain u where u: "tab E 0 r (pre va (Suc (Suc 0))) = Some u" "child 1 (E u (idx 2 va)) = Some t"
      using assms(1) k pre_step [of 1 va] tab_snoc [of E 0 r "pre va 2" "idx 2 va"]
      by (auto simp: numeral_2_eq_2 split: option.splits)
    then have "child 0 (E r (idx 3 va)) = Some u" using n by (simp add: numeral_3_eq_3)
    then show ?thesis using assms(2,3) k u(2)
      by (auto simp: translate_unfold Let_def child_def split: if_splits)
  qed
qed

lemma map_path_grow:
  assumes inv: "mm_inv R s" and r: "r \<in> insert (active_pml4_phys s) R"
    and va: "mappable (active_pml4_phys s) r va" and x: "entry_flags x"
  obtains (fail) s' where "map_path r va e x s = Some (False, s')" "grow R r s s'"
      "avail (mm_pmm s') = {} \<or> r \<notin> R \<and> translate (ent s') r va \<noteq> None"
  | (ok) t s' where "map_path r va e x s = Some (True, wr64 (direct_map s + t) (idx 0 va) e s')"
      "grow R r s s'" "tab (ent s') 0 r (pre va 0) = Some t"
proof -
  let ?K = "active_pml4_phys s" and ?dm = "direct_map s"
  note o = owned_pre [OF va]
  have step: "r \<in> insert (active_pml4_phys s') R" "direct_map s' = ?dm" "mm_inv R s'"
    "\<And>k. k < 3 \<Longrightarrow> owned (active_pml4_phys s') r (pre va (Suc k) @ [idx (Suc k) va])"
    if "grow R r s s'" for s'
    using that r o by (auto simp: grow_def same_regs_def)
  have user: "r \<notin> R" if g: "grow R r s s'" and t: "tab (ent s') 0 r (pre va k) = Some t" and k: "k = 1 \<or> k = 2"
    and pl: "present (ent s' t (idx k va))" "large (ent s' t (idx k va))" for s' k t
  proof
    assume "r \<in> R"
    have pt: "pt_inv (ent s') (avail (mm_pmm s')) ?K R" using g by (auto simp: grow_def mm_inv_def same_regs_def)
    have "owned ?K r (pre va k)" using o [of k] pre_step [of k va] k by auto
    moreover have "pre va k \<noteq> []" "length (pre va k) \<le> 2" using k by (auto simp flip: length_0_conv)
    ultimately show False using pt_invD(6) [OF pt insertI2 [OF \<open>r \<in> R\<close>] \<open>r \<in> R\<close> _ _ _ t] pl by simp
  qed
  have ok0: "mm_ok s" using inv by (simp add: mm_inv_def)
  have "r \<in> page_frames" using tab_mem_frames [OF inv r, of "[]"] by simp
  then have v0: "phys_to_virt s r = Some (?dm + r)" using phys_to_virt_frame [OF ok0] by simp
  have t0: "tab (ent s) 0 r (pre va 3) = Some r" by simp
  show ?thesis
  proof (cases rule: ensure_table_in_spec [OF inv r _ _ t0 x, of "idx 3 va"])
    case 1 show ?case using o [of 2] by (simp add: numeral_3_eq_3 numeral_2_eq_2)
  next
    case 2 show ?case by simp
  next
    case (3 s1)
    then have "avail (mm_pmm s1) = {}"
      using pt_invD(4) [of "ent s" "avail (mm_pmm s)" ?K R r "idx 3 va"] inv r by (auto simp: mm_inv_def)
    then show ?thesis using fail v0 3(1,2) by (simp add: map_path_def)
  next
    case (4 t1 s1)
    note g1 = 4(2) and e1 = 4
    have t1: "tab (ent s1) 0 r (pre va 2) = Some t1" using 4(3) pre_step [of 2 va] by simp
    show ?thesis
    proof (cases rule: ensure_table_in_spec [OF step(3) [OF g1] step(1) [OF g1] _ _ t1 x, of "idx 2 va"])
      case 1 show ?case using step(4) [OF g1, of 1] by (simp add: numeral_2_eq_2)
    next
      case 2 show ?case by simp
    next
      case (3 s2)
      have "avail (mm_pmm s2) = {} \<or> r \<notin> R \<and> translate (ent s2) r va \<noteq> None"
        using 3(3) large_translates [OF t1] user [OF g1 t1] by auto
      then show ?thesis using 3(1,2) fail [of s2] v0 e1 step(2) [OF g1] grow_trans [OF g1] by (simp add: map_path_def)
    next
      case (4 t2 s2)
      note e2 = 4 and g2 = grow_trans [OF g1 4(2)]
      have t2: "tab (ent s2) 0 r (pre va 1) = Some t2"
        using 4(3) pre_step [of 1 va] by (simp add: numeral_2_eq_2)
      show ?thesis
      proof (cases rule: ensure_table_in_spec [OF step(3) [OF g2] step(1) [OF g2] _ _ t2 x, of "idx 1 va"])
        case 1 show ?case using step(4) [OF g2, of 0] by simp
      next
        case 2 show ?case by simp
      next
        case (3 s3)
        have "avail (mm_pmm s3) = {} \<or> r \<notin> R \<and> translate (ent s3) r va \<noteq> None"
          using 3(3) large_translates [OF t2] user [OF g2 t2] by auto
        then show ?thesis
          using 3(1,2) fail [of s3] v0 e1 e2 step(2) [OF g1] step(2) [OF g2] grow_trans [OF g2]
          by (simp add: map_path_def)
      next
        case (4 t3 s3)
        have "tab (ent s3) 0 r (pre va 0) = Some t3"
          using 4(3) pre_step [of 0 va] by simp
        then show ?thesis
          using ok [of t3 s3] v0 e1 e2 4 step(2) [OF g1] step(2) [OF g2] grow_trans [OF g2 4(2)]
          by (simp add: map_path_def)
      qed
    qed
  qed
qed

lemma mm_inv_root: "mm_inv R s \<Longrightarrow> active_pml4_phys s \<notin> R"
  by (simp add: mm_inv_def pt_inv_def)

lemma leaf_ok:
  fixes e :: u64
  assumes inv: "mm_inv R s" and r: "r \<in> insert (active_pml4_phys s) R"
    and va: "mappable (active_pml4_phys s) r va" and t: "tab (ent s) 0 r (pre va 0) = Some t"
  defines "s' \<equiv> wr64 (direct_map s + t) (idx 0 va) e s"
  shows "leaf_slot (ent s) (avail (mm_pmm s)) (active_pml4_phys s) R r (pre va 0) t"
    "leaf_set (ent s) (ent s') t (idx 0 va) e" "t \<in> page_frames"
proof -
  have o: "owned (active_pml4_phys s) r (pre va 0)"
    using owned_pre [OF va, of 0] pre_step [of 0 va] by simp
  show tf: "t \<in> page_frames" using tab_mem_frames [OF inv r o t] by simp
  show "leaf_slot (ent s) (avail (mm_pmm s)) (active_pml4_phys s) R r (pre va 0) t"
    using inv r o t by (simp add: leaf_slot_def mm_inv_def)
  show "leaf_set (ent s) (ent s') t (idx 0 va) e"
    using ent_wr64 [of s t] tf inv by (simp add: leaf_set_def s'_def mm_inv_def)
qed

lemma leaf_translate:
  fixes e :: u64
  assumes inv: "mm_inv R s" and r: "r \<in> insert (active_pml4_phys s) R"
    and va: "mappable (active_pml4_phys s) r va" and t: "tab (ent s) 0 r (pre va 0) = Some t"
  defines "s' \<equiv> wr64 (direct_map s + t) (idx 0 va) e s"
  shows "idxs va' = idxs va \<Longrightarrow> mm_inv R s' \<Longrightarrow>
      translate (ent s') r va' = (if present e then Some (frame e + (va' AND mask 12)) else None)"
    "r' \<in> insert (active_pml4_phys s) R \<Longrightarrow>
      idxs va' \<noteq> idxs va \<or> (r' \<noteq> r \<and> (r \<noteq> active_pml4_phys s \<or> idx 3 va < 256)) \<Longrightarrow>
      translate (ent s') r' va' = translate (ent s) r' va'"
proof -
  let ?K = "active_pml4_phys s"
  note l = leaf_ok(1) [OF inv r va t] leaf_ok(2) [OF inv r va t, of e, folded s'_def]
    leaf_ok(3) [OF inv r va t]
  have pt: "pt_inv (ent s) (avail (mm_pmm s)) ?K R" using inv by (simp add: mm_inv_def)
  have o: "owned ?K r (pre va 0)" using l(1) by (simp add: leaf_slot_def)
  show "translate (ent s') r va' = (if present e then Some (frame e + (va' AND mask 12)) else None)"
    if a: "idxs va' = idxs va" "mm_inv R s'"
  proof -
    have p: "pre va' 0 = pre va 0" "idx 0 va' = idx 0 va" using a(1) by (simp_all add: pre_0 idxs_def)
    have pt': "pt_inv (ent s') (avail (mm_pmm s)) ?K R" using a(2) by (simp add: mm_inv_def s'_def)
    have "tab (ent s') 0 r (pre va' 0) = Some t"
      using tab_leaf [OF l(1,2) r, of "pre va' 0"] t p by simp
    from translate_tab [OF pt' r this] show ?thesis
      using l(2,3) p idx_less [of 0 va] by (simp add: leaf_set_def)
  qed
  show "translate (ent s') r' va' = translate (ent s) r' va'"
    if a: "r' \<in> insert ?K R" "idxs va' \<noteq> idxs va \<or> (r' \<noteq> r \<and> (r \<noteq> ?K \<or> idx 3 va < 256))"
  proof (rule translate_leaf [OF l(1,2) a(1)], rule notI)
    assume h: "tab (ent s) 0 r' (pre va' 0) = Some t \<and> idx 0 va' = idx 0 va"
    from h have h1: "tab (ent s) 0 r' (pre va' 0) = Some t" ..
    obtain r2 where r2: "r2 \<in> insert ?K R" "owned ?K r2 (pre va' 0)" "tab (ent s) 0 r2 (pre va' 0) = Some t"
      "r2 = r' \<or> (r2 = ?K \<and> pre va' 0 \<noteq> [] \<and> 256 \<le> hd (pre va' 0))"
      by (rule tab_owner [OF pt a(1) _ _ h1]) auto
    then have "r2 = r" "pre va' 0 = pre va 0"
      using pt_invD(3) [OF pt r2(1) r r2(2) o r2(3) t] by simp_all
    moreover from this have "idxs va' = idxs va" "idx 3 va' = idx 3 va"
      using h by (auto simp: pre_0 idxs_def)
    ultimately show False using a(2) r2(4) by (auto simp: pre_0)
  qed
qed

lemma leaf_mm_inv:
  assumes inv: "mm_inv R s" and r: "r \<in> insert (active_pml4_phys s) R"
    and va: "mappable (active_pml4_phys s) r va" and t: "tab (ent s) 0 r (pre va 0) = Some t"
    and fresh: "r \<noteq> active_pml4_phys s \<Longrightarrow> present e \<Longrightarrow> frame e \<in> page_frames \<and>
      frame e \<notin> avail (mm_pmm s) \<and> (\<forall>r' \<in> insert (active_pml4_phys s) R. frame e \<notin> space_frames r' s)"
  shows "mm_inv R (wr64 (direct_map s + t) (idx 0 va) e s)"
proof -
  note l = leaf_ok(1) [OF inv r va t] leaf_ok(2) [OF inv r va t, of e]
  have "pt_inv (ent (wr64 (direct_map s + t) (idx 0 va) e s)) (avail (mm_pmm s)) (active_pml4_phys s) R"
    using fresh by (intro pt_inv_leaf [OF l(1,2)]) (auto simp: space_frames_def)
  then show ?thesis using inv by (simp add: mm_inv_def)
qed

subsection \<open>Looking up a page\<close>

lemma kernel_table:
  assumes "mm_inv R s" "tab (ent s) 0 (active_pml4_phys s) (pre va k) = Some f"
  shows "phys_to_virt s f = Some (direct_map s + f)" "direct_map s + f \<noteq> 0"
proof -
  have "owned (active_pml4_phys s) (active_pml4_phys s) (pre va k)" by (simp add: owned_def)
  then have "f \<in> page_frames" using tab_mem_frames [OF assms(1) insertI1 _ assms(2)] by simp
  then show "phys_to_virt s f = Some (direct_map s + f)" "direct_map s + f \<noteq> 0"
    using phys_to_virt_frame assms(1) by (auto simp: mm_inv_def)
qed

lemma kernel_root_not_large:
  assumes "mm_inv R s" "present (ent s (active_pml4_phys s) i)" "i < 512"
  shows "\<not> large (ent s (active_pml4_phys s) i)"
  using assms pt_invD(4) [OF _ insertI1] by (auto simp: mm_inv_def)

lemma vmm_virt_to_phys_eq:
  assumes "mm_inv R s"
  shows "vmm_virt_to_phys s va = Some (translate (ent s) (active_pml4_phys s) va)"
proof -
  let ?K = "active_pml4_phys s" and ?E = "ent s"
  have rd: "rd64 s (direct_map s + f) i = ?E f i" for f i by (simp add: ent_def)
  have fr: "e AND PAGE_MASK = frame e" "e AND PAGE_PRESENT = 0 \<longleftrightarrow> \<not> present e"
    "e AND PAGE_LARGE = 0 \<longleftrightarrow> \<not> large e" for e
    by (simp_all add: frame_def present_def large_def)
  note unf = vmm_virt_to_phys_def idx_eqs Let_def rd fr translate_unfold
  have t3: "tab ?E 0 ?K (pre va 3) = Some ?K" by simp
  note v3 = kernel_table [OF assms t3]
  let ?e3 = "?E ?K (idx 3 va)"
  show ?thesis
  proof (cases "present ?e3")
    case p3: True
    then have t2: "tab ?E 0 ?K (pre va 2) = Some (frame ?e3)"
      using tab_next [of ?E ?K va 2 ?K] kernel_root_not_large [OF assms p3] t3
      by (simp add: child_def numeral_3_eq_3)
    note v2 = kernel_table [OF assms t2]
    let ?e2 = "?E (frame ?e3) (idx 2 va)"
    show ?thesis
    proof (cases "present ?e2 \<and> \<not> large ?e2")
      case p2: True
      then have t1: "tab ?E 0 ?K (pre va 1) = Some (frame ?e2)"
        using tab_next [of ?E ?K va 1 "frame ?e3"] t2 by (simp add: child_def numeral_2_eq_2)
      note v1 = kernel_table [OF assms t1]
      let ?e1 = "?E (frame ?e2) (idx 1 va)"
      show ?thesis
      proof (cases "present ?e1 \<and> \<not> large ?e1")
        case p1: True
        then have t0: "tab ?E 0 ?K (pre va 0) = Some (frame ?e1)"
          using tab_next [of ?E ?K va 0 "frame ?e2"] t1 by (simp add: child_def)
        note v0 = kernel_table [OF assms t0]
        show ?thesis using v3 v2 v1 v0 p3 p2 p1 by (simp add: unf)
      qed (use v3 v2 v1 p3 p2 in \<open>auto simp: unf\<close>)
    qed (use v3 v2 p3 in \<open>auto simp: unf\<close>)
  qed (use v3 in \<open>simp add: unf\<close>)
qed

lemma pte_for_eq:
  assumes "mm_inv R s"
  shows "pte_for s va = Some (case tab (ent s) 0 (active_pml4_phys s) (pre va 0) of
    None \<Rightarrow> (0, 0) | Some t \<Rightarrow> (direct_map s + t, idx 0 va))"
proof -
  let ?K = "active_pml4_phys s" and ?E = "ent s"
  have rd: "rd64 s (direct_map s + f) i = ?E f i" for f i by (simp add: ent_def)
  have fr: "e AND PAGE_MASK = frame e" "e AND PAGE_PRESENT = 0 \<longleftrightarrow> \<not> present e"
    "e AND PAGE_LARGE = 0 \<longleftrightarrow> \<not> large e" for e
    by (simp_all add: frame_def present_def large_def)
  note unf = pte_for_def idx_eqs Let_def rd fr
  have t3: "tab ?E 0 ?K (pre va 3) = Some ?K" by simp
  note v3 = kernel_table [OF assms t3]
  let ?e3 = "?E ?K (idx 3 va)"
  have p: "pre va 0 = [idx 3 va, idx 2 va, idx 1 va]" by (rule pre_0)
  show ?thesis
  proof (cases "present ?e3 \<and> \<not> large ?e3")
    case p3: True
    then have t2: "tab ?E 0 ?K (pre va 2) = Some (frame ?e3)"
      using tab_next [of ?E ?K va 2 ?K] t3 by (simp add: child_def numeral_3_eq_3)
    note v2 = kernel_table [OF assms t2]
    let ?e2 = "?E (frame ?e3) (idx 2 va)"
    show ?thesis
    proof (cases "present ?e2 \<and> \<not> large ?e2")
      case p2: True
      then have t1: "tab ?E 0 ?K (pre va 1) = Some (frame ?e2)"
        using tab_next [of ?E ?K va 1 "frame ?e3"] t2 by (simp add: child_def numeral_2_eq_2)
      note v1 = kernel_table [OF assms t1]
      let ?e1 = "?E (frame ?e2) (idx 1 va)"
      show ?thesis
      proof (cases "present ?e1 \<and> \<not> large ?e1")
        case p1: True
        then have t0: "tab ?E 0 ?K (pre va 0) = Some (frame ?e1)"
          using tab_next [of ?E ?K va 0 "frame ?e2"] t1 by (simp add: child_def)
        note v0 = kernel_table [OF assms t0]
        show ?thesis using v3 v2 v1 v0 p3 p2 p1 t0 by (simp add: unf)
      qed (use v3 v2 v1 p3 p2 p in \<open>auto simp: unf child_def\<close>)
    qed (use v3 v2 p3 p in \<open>auto simp: unf child_def\<close>)
  qed (use v3 p in \<open>auto simp: unf child_def\<close>)
qed

lemma leaf_space_frames_kernel:
  fixes e :: u64
  assumes inv: "mm_inv R s" and r: "r \<in> insert (active_pml4_phys s) R"
    and va: "mappable (active_pml4_phys s) K va" and t: "tab (ent s) 0 K (pre va 0) = Some t"
    and K: "K = active_pml4_phys s"
  shows "space_frames r (wr64 (direct_map s + t) (idx 0 va) e s) = space_frames r s"
proof -
  let ?s = "wr64 (direct_map s + t) (idx 0 va) e s"
  have Ki: "K \<in> insert (active_pml4_phys s) R" using K by simp
  note l = leaf_ok(1) [OF inv Ki va t] leaf_ok(2) [OF inv Ki va t, of e]
  have "tab (ent ?s) 0 r q = tab (ent s) 0 r q" if o: "owned (active_pml4_phys s) r q" for q
  proof (cases "length q \<le> 3")
    case True
    then show ?thesis using tab_leaf [OF l r, of q] o by (simp add: owned_def)
  next
    case False
    then obtain q' j where "q = q' @ [j]" "length q' = 3" "r \<noteq> K"
      using o K by (cases q rule: rev_cases) (auto simp: owned_def split: if_splits)
    then show ?thesis using tab_leaf4 [OF l r, of q' j] o by simp
  qed
  then show ?thesis by (auto simp: space_frames_def)
qed

lemma vmm_map_spec:
  assumes "mm_inv R s" "flags AND PAGE_MASK = 0" "phys \<in> page_frames"
  shows "\<exists>ok s'. vmm_map virt phys flags s = Some (ok, s') \<and> mm_inv R s' \<and> same_regs s s' \<and>
    avail (mm_pmm s') \<subseteq> avail (mm_pmm s) \<and>
    (\<forall>r \<in> insert (active_pml4_phys s) R. space_frames r s' \<subseteq> space_frames r s \<union> avail (mm_pmm s)) \<and>
    (\<not> ok \<longrightarrow> avail (mm_pmm s') = {} \<or> vmm_virt_to_phys s virt \<noteq> Some None) \<and>
    (\<forall>va. vmm_virt_to_phys s' va =
       (if ok \<and> idxs va = idxs virt then Some (Some (phys + (va AND 0xfff)))
        else vmm_virt_to_phys s va)) \<and>
    (\<forall>r \<in> R. \<forall>va. idx 3 va < 256 \<or> \<not> ok \<longrightarrow> translate (ent s') r va = translate (ent s) r va)"
proof -
  let ?K = "active_pml4_phys s" and ?e = "(phys AND PAGE_MASK) OR flags OR PAGE_PRESENT"
  have m: "mappable ?K ?K virt" by (simp add: mappable_def)
  have e: "present ?e" "frame ?e = phys"
    using frame_entry [OF assms(3), of "flags OR PAGE_PRESENT"] assms(2)
    by (simp_all add: present_bit bit_or_iff PAGE_PRESENT_def PAGE_MASK_def bit.conj_disj_distrib2 or.assoc)
  show ?thesis
  proof (cases rule: map_path_grow [OF assms(1) insertI1 m entry_flags_simps(1), where e = ?e])
    case (1 s')
    then show ?thesis
      using vmm_virt_to_phys_eq [of R s'] vmm_virt_to_phys_eq [OF assms(1)]
      by (intro exI [of _ False] exI [of _ s']) (auto simp: vmm_map_eq grow_def same_regs_def split: if_splits)
  next
    case (2 t s')
    let ?s = "wr64 (direct_map s + t) (idx 0 virt) ?e s'"
    have g: "mm_inv R s'" "active_pml4_phys s' = ?K" "direct_map s' = direct_map s"
      "\<And>r va. r \<in> insert ?K R \<Longrightarrow> translate (ent s') r va = translate (ent s) r va"
      using 2(2) by (auto simp: grow_def same_regs_def)
    have args: "?K \<in> insert (active_pml4_phys s') R" "mappable (active_pml4_phys s') ?K virt"
      using g(2) by (auto simp: mappable_def)
    have inv': "mm_inv R ?s"
      using leaf_mm_inv [OF g(1) args 2(3), of ?e] g(2,3) by simp
    note tr = leaf_translate [OF g(1) args 2(3), where e = ?e, unfolded g(2,3)]
    have 3: "vmm_virt_to_phys ?s va = (if idxs va = idxs virt then Some (Some (phys + (va AND 0xfff)))
        else vmm_virt_to_phys s va)" for va
      using tr(1) [of va] tr(2) [of ?K va] inv' e g(2,4)
      by (auto simp: vmm_virt_to_phys_eq [OF inv'] vmm_virt_to_phys_eq [OF assms(1)] mask_eq_exp_minus_1)
    have 4: "translate (ent ?s) r va = translate (ent s) r va" if "r \<in> R" "idx 3 va < 256" for r va
    proof -
      have "r \<noteq> ?K" using that(1) mm_inv_root [OF assms(1)] by auto
      moreover have "idx 3 virt < 256" if "idxs va = idxs virt"
        using that \<open>idx 3 va < 256\<close> by (simp add: idxs_def)
      ultimately show ?thesis using tr(2) [of r va] that g(4) by auto
    qed
    have 5: "avail (mm_pmm ?s) \<subseteq> avail (mm_pmm s)" "same_regs s ?s"
      using 2(2) by (simp_all add: grow_def same_regs_def)
    have 6: "space_frames r ?s \<subseteq> space_frames r s \<union> avail (mm_pmm s)" if "r \<in> insert ?K R" for r
    proof -
      have "space_frames r ?s = space_frames r s'"
        using leaf_space_frames_kernel [OF g(1) _ args(2) 2(3) g(2) [symmetric], of r ?e] that g(2,3) by simp
      moreover have "space_frames r s' \<subseteq> space_frames r s \<union> avail (mm_pmm s)"
        using 2(2) that by (auto simp: grow_def split: if_splits)
      ultimately show ?thesis by simp
    qed
    show ?thesis
      using 2(1) inv' 3 4 5 6 unfolding vmm_map_eq by (intro exI [of _ True] exI [of _ ?s]) simp
  qed
qed


text \<open>
  Unmapping a page reports whether the page was mapped with its own page-table entry.
  If so, its addresses translate to nothing afterwards; every other translation of the
  kernel stays, and no page is given back.
\<close>

lemma vmm_unmap_correct:
  assumes "mm_inv R s"
  shows "\<exists>ok s'. vmm_unmap virt s = Some (ok, s') \<and> mm_inv R s' \<and> mm_pmm s' = mm_pmm s \<and>
    (\<forall>va. vmm_virt_to_phys s' va =
       (if ok \<and> idxs va = idxs virt then Some None else vmm_virt_to_phys s va)) \<and>
    (ok \<longleftrightarrow> (\<exists>t. tab (ent s) 0 (active_pml4_phys s) (pre virt 0) = Some t \<and> present (ent s t (idx 0 virt)))) \<and>
    (ok \<longrightarrow> vmm_virt_to_phys s virt \<noteq> Some None) \<and> (\<not> ok \<longrightarrow> s' = s)"
proof (cases "\<exists>t. tab (ent s) 0 (active_pml4_phys s) (pre virt 0) = Some t \<and> present (ent s t (idx 0 virt))")
  case False
  then have "vmm_unmap virt s = Some (False, s)"
    by (auto simp: vmm_unmap_def pte_for_eq [OF assms] ent_def present_def split: option.split)
  then show ?thesis using assms False by (intro exI [of _ False] exI [of _ s]) simp
next
  case True
  let ?K = "active_pml4_phys s"
  from True obtain t where t: "tab (ent s) 0 ?K (pre virt 0) = Some t" "present (ent s t (idx 0 virt))"
    by blast
  let ?s = "wr64 (direct_map s + t) (idx 0 virt) 0 s"
  have m: "mappable ?K ?K virt" by (simp add: mappable_def)
  have u: "vmm_unmap virt s = Some (True, ?s)"
    using t kernel_table [OF assms t(1)]
    by (simp add: vmm_unmap_def pte_for_eq [OF assms] ent_def present_def)
  have inv': "mm_inv R ?s" using leaf_mm_inv [OF assms insertI1 m t(1), of 0] by simp
  note tr = leaf_translate [OF assms insertI1 m t(1), where e = 0]
  have "vmm_virt_to_phys ?s va = (if idxs va = idxs virt then Some None else vmm_virt_to_phys s va)" for va
    using tr(1) [of va] tr(2) [of ?K va] inv'
    by (auto simp: vmm_virt_to_phys_eq [OF inv'] vmm_virt_to_phys_eq [OF assms])
  moreover have "vmm_virt_to_phys s virt \<noteq> Some None"
    using translate_tab [of "ent s" "avail (mm_pmm s)" ?K R ?K virt t] t assms
    by (simp add: vmm_virt_to_phys_eq [OF assms] mm_inv_def)
  ultimately show ?thesis using u inv' True by (intro exI [of _ True] exI [of _ ?s]) simp
qed

subsection \<open>Process spaces\<close>

lemma leaf_space_frames:
  fixes e :: u64
  assumes inv: "mm_inv R s" and r: "r \<in> R" and va: "idx 3 va < 256"
    and t: "tab (ent s) 0 r (pre va 0) = Some t" and r': "r' \<in> insert (active_pml4_phys s) R"
  defines "s' \<equiv> wr64 (direct_map s + t) (idx 0 va) e s"
  shows "r' \<noteq> r \<Longrightarrow> space_frames r' s' = space_frames r' s"
    "r' = r \<Longrightarrow> present e \<Longrightarrow> translate (ent s) r va = None \<Longrightarrow>
       space_frames r s' = insert (frame e) (space_frames r s)"
    "r' = r \<Longrightarrow> space_frames r s' \<subseteq> insert (frame e) (space_frames r s)"
proof -
  let ?K = "active_pml4_phys s" and ?p = "pre va 0 @ [idx 0 va]"
  have rK: "r \<noteq> ?K" using r mm_inv_root [OF inv] by auto
  have m: "mappable ?K r va" using va by (simp add: mappable_def)
  have ri: "r \<in> insert ?K R" using r by simp
  have pt: "pt_inv (ent s) (avail (mm_pmm s)) ?K R" using inv by (simp add: mm_inv_def)
  note l = leaf_ok(1) [OF inv ri m t] leaf_ok(2) [OF inv ri m t, of e, folded s'_def]
  have o: "owned ?K r ?p" using rK va by (simp add: owned_def pre_0)
  have K': "active_pml4_phys s' = ?K" by (simp add: s'_def)
  have T: "tab (ent s') 0 r' q = Some f \<longleftrightarrow>
      (if r' = r \<and> q = ?p then present e \<and> f = frame e else tab (ent s) 0 r' q = Some f)"
    if o': "owned ?K r' q" for q f
  proof (cases "length q \<le> 3")
    case True
    then show ?thesis using tab_leaf [OF l r', of q] o' by (auto simp: owned_def)
  next
    case False
    then obtain q' j where "q = q' @ [j]" "length q' = 3"
      using o' by (cases q rule: rev_cases) (auto simp: owned_def split: if_splits)
    then show ?thesis using tab_leaf4 [OF l r', of q' j] o' by (auto simp: child_def)
  qed
  show "space_frames r' s' = space_frames r' s" if "r' \<noteq> r"
    using T that by (auto simp: space_frames_def K')
  show "space_frames r s' \<subseteq> insert (frame e) (space_frames r s)" if "r' = r"
    using T that by (auto simp: space_frames_def K' split: if_splits)
  show "space_frames r s' = insert (frame e) (space_frames r s)"
    if a: "r' = r" "present e" "translate (ent s) r va = None"
  proof -
    have "tab (ent s) 0 r ?p = None"
      using translate_tab [OF pt ri t] a(3) t by (auto simp: tab_snoc child_def split: if_splits)
    then have T2: "tab (ent s') 0 r q = Some f \<longleftrightarrow>
        q = ?p \<and> f = frame e \<or> tab (ent s) 0 r q = Some f" if "owned ?K r q" for q f
      using T [of q f] a(1,2) that by (cases "q = ?p") auto
    have "(\<exists>q. owned ?K r q \<and> tab (ent s') 0 r q = Some f) \<longleftrightarrow>
        f = frame e \<or> (\<exists>q. owned ?K r q \<and> tab (ent s) 0 r q = Some f)" for f
      using T2 [of _ f] o by blast
    then show ?thesis unfolding space_frames_def K' by auto
  qed
qed

lemma vmm_space_map_spec:
  assumes "mm_inv R s" "r \<in> R" "phys \<in> page_frames" "phys \<notin> avail (mm_pmm s)"
    "\<forall>r' \<in> insert (active_pml4_phys s) R. phys \<notin> space_frames r' s" "flags AND PAGE_MASK = 0"
  shows "\<exists>ok s'. vmm_space_map r virt phys flags s = Some (ok, s') \<and> mm_inv R s' \<and>
    (256 \<le> idx 3 virt \<longrightarrow> \<not> ok \<and> s' = s) \<and> avail (mm_pmm s') \<subseteq> avail (mm_pmm s) \<and>
    (\<not> ok \<longrightarrow> 256 \<le> idx 3 virt \<or> avail (mm_pmm s') = {}) \<and>
    (\<forall>va. translate (ent s') r va =
       (if ok \<and> idxs va = idxs virt then Some (phys + (va AND 0xfff)) else translate (ent s) r va)) \<and>
    (\<forall>r' \<in> insert (active_pml4_phys s) R. r' \<noteq> r \<longrightarrow> space_frames r' s' = space_frames r' s \<and>
       (\<forall>va. translate (ent s') r' va = translate (ent s) r' va)) \<and>
    (translate (ent s) r virt = None \<longrightarrow> space_frames r s' =
       space_frames r s \<union> (avail (mm_pmm s) - avail (mm_pmm s')) \<union> (if ok then {phys} else {}))"
proof (cases "256 \<le> idx 3 virt")
  case True
  then show ?thesis
    using assms(1) by (intro exI [of _ False] exI [of _ s]) (simp add: vmm_space_map_eq)
next
  case False
  then have lo: "idx 3 virt < 256" "\<not> 256 \<le> idx 3 virt" by simp_all
  let ?K = "active_pml4_phys s" and ?e = "(phys AND PAGE_MASK) OR flags OR PAGE_PRESENT"
  let ?x = "if flags AND VMM_USER \<noteq> 0 then VMM_USER else 0"
  have m: "mappable ?K r virt" using lo by (simp add: mappable_def)
  have r: "r \<in> insert ?K R" and rK: "r \<noteq> ?K" using assms(2) mm_inv_root [OF assms(1)] by auto
  have x: "entry_flags ?x" by simp
  have e: "present ?e" "frame ?e = phys"
    using frame_entry [OF assms(3), of "flags OR PAGE_PRESENT"] assms(6)
    by (simp_all add: present_bit bit_or_iff PAGE_PRESENT_def PAGE_MASK_def bit.conj_disj_distrib2 or.assoc)
  have eq: "vmm_space_map r virt phys flags s = map_path r virt ?e ?x s"
    using lo by (simp add: vmm_space_map_eq)
  show ?thesis
  proof (cases rule: map_path_grow [OF assms(1) r m x, where e = ?e])
    case (1 s')
    then have "mm_inv R s'" "avail (mm_pmm s') \<subseteq> avail (mm_pmm s)"
      "\<And>r' va. r' \<in> insert ?K R \<Longrightarrow> translate (ent s') r' va = translate (ent s) r' va"
      "\<And>r'. r' \<in> insert ?K R \<Longrightarrow> space_frames r' s' =
        (if r' = r then space_frames r' s \<union> (avail (mm_pmm s) - avail (mm_pmm s')) else space_frames r' s)"
      by (auto simp: grow_def)
    then show ?thesis using 1 eq r lo assms(2) by (intro exI [of _ False] exI [of _ s']) simp
  next
    case (2 t s')
    let ?s = "wr64 (direct_map s + t) (idx 0 virt) ?e s'"
    have g: "mm_inv R s'" "active_pml4_phys s' = ?K" "direct_map s' = direct_map s"
      "avail (mm_pmm s') \<subseteq> avail (mm_pmm s)"
      "\<And>r va. r \<in> insert ?K R \<Longrightarrow> translate (ent s') r va = translate (ent s) r va"
      "\<And>r'. r' \<in> insert ?K R \<Longrightarrow> space_frames r' s' =
        (if r' = r then space_frames r' s \<union> (avail (mm_pmm s) - avail (mm_pmm s')) else space_frames r' s)"
      using 2(2) by (auto simp: grow_def same_regs_def)
    have r1: "r \<in> insert (active_pml4_phys s') R" and m1: "mappable (active_pml4_phys s') r virt"
      using r m g(2) by simp_all
    have inv': "mm_inv R ?s"
    proof -
      have "phys \<notin> space_frames r' s'" if "r' \<in> insert ?K R" for r'
        using g(6) [OF that] assms(4,5) that by auto
      then show ?thesis
        using leaf_mm_inv [OF g(1) r1 m1 2(3), of ?e] g(2,3,4) e assms(3,4) by auto
    qed
    note tr = leaf_translate [OF g(1) r1 m1 2(3), where e = ?e, unfolded g(2,3)]
    note sf = leaf_space_frames [OF g(1) assms(2) _ 2(3), where e = ?e, unfolded g(2,3)]
    have 3: "translate (ent ?s) r va =
        (if idxs va = idxs virt then Some (phys + (va AND 0xfff)) else translate (ent s) r va)" for va
      using tr(1) [of va] tr(2) [of r va] inv' e g(5) [OF r] r by (auto simp: mask_eq_exp_minus_1)
    have 4: "space_frames r' ?s = space_frames r' s"
      "translate (ent ?s) r' va = translate (ent s) r' va" if "r' \<in> insert ?K R" "r' \<noteq> r" for r' va
      using sf(1) [of r'] tr(2) [of r' va] g(5) [of r'] g(6) [of r'] that lo rK by auto
    have 5: "space_frames r ?s = space_frames r s \<union> (avail (mm_pmm s) - avail (mm_pmm s')) \<union> {phys}"
      if "translate (ent s) r virt = None"
      using sf(2) [of r] that r lo e g(5) [OF r] g(6) [OF r] by auto
    show ?thesis
      using 2(1) eq inv' 3 4 5 lo g(4) by (intro exI [of _ True] exI [of _ ?s]) simp
  qed
qed

text \<open>
  C6: Mapping a page into a process space affects that page of that space only.  A request
  for the upper half is refused without any effect.  Otherwise the call never panics; if it
  succeeds, the page translates to the given frame, and every other address of the space
  and every address of every other space, the kernel's included, translates as before;
  the frame and the new tables are what the space gains.  If it fails for lack of memory,
  no translation changes.
\<close>

theorem vmm_space_map_correct:
  assumes "mm_inv R s" "r \<in> R" "phys \<in> page_frames" "phys \<notin> avail (mm_pmm s)"
    "\<forall>r' \<in> insert (active_pml4_phys s) R. phys \<notin> space_frames r' s" "flags AND PAGE_MASK = 0"
  shows "\<exists>ok s'. vmm_space_map r virt phys flags s = Some (ok, s') \<and> mm_inv R s' \<and>
    (256 \<le> idx 3 virt \<longrightarrow> \<not> ok \<and> s' = s) \<and> avail (mm_pmm s') \<subseteq> avail (mm_pmm s) \<and>
    (\<not> ok \<longrightarrow> 256 \<le> idx 3 virt \<or> avail (mm_pmm s') = {}) \<and>
    (\<forall>va. translate (ent s') r va =
       (if ok \<and> idxs va = idxs virt then Some (phys + (va AND 0xfff)) else translate (ent s) r va)) \<and>
    (\<forall>r' \<in> insert (active_pml4_phys s) R. r' \<noteq> r \<longrightarrow> space_frames r' s' = space_frames r' s \<and>
       (\<forall>va. translate (ent s') r' va = translate (ent s) r' va)) \<and>
    (translate (ent s) r virt = None \<longrightarrow> space_frames r s' =
       space_frames r s \<union> (avail (mm_pmm s) - avail (mm_pmm s')) \<union> (if ok then {phys} else {}))"
  using vmm_space_map_spec [OF assms] .

subsection \<open>Creating a space\<close>

lemma unat_add_of_nat:
  assumes "unat (b :: u64) + i < 2 ^ 64"
  shows "unat (b + of_nat i) = unat b + i"
proof -
  have "unat (of_nat i :: u64) = i" using assms by (intro unat_of_nat_less) simp
  then show ?thesis using assms by (subst unat_add_lem [THEN iffD1]) simp_all
qed

lemma ld_bytes_st_in:
  assumes "unat b = unat a + k" "k + n \<le> length bs" "unat a + length bs \<le> 2 ^ 64"
  shows "ld_bytes (st_bytes a bs m) b n = take n (drop k bs)"
proof (rule nth_equalityI)
  fix i assume "i < length (ld_bytes (st_bytes a bs m) b n)"
  then have i: "i < n" by simp
  then have "unat (b + of_nat i) = unat a + k + i"
    using assms unat_add_of_nat [of b i] by simp
  then have "unat (b + of_nat i - a) = k + i"
    by (subst unat_sub) (simp_all add: word_le_nat_alt)
  then show "ld_bytes (st_bytes a bs m) b n ! i = take n (drop k bs) ! i"
    using i assms by (simp add: nth_ld_bytes st_bytes_def)
qed (use assms in simp)

lemma ld_bytes_st_out:
  assumes "unat b + n \<le> unat a \<or> unat a + length bs \<le> unat b" "unat a + length bs \<le> 2 ^ 64"
    "unat b + n \<le> 2 ^ 64"
  shows "ld_bytes (st_bytes a bs m) b n = ld_bytes m b n"
proof (rule ld_bytes_cong)
  fix i assume "i < n"
  then show "st_bytes a bs m (b + of_nat i) = m (b + of_nat i)"
    using assms unat_add_of_nat [of b i] by (intro st_bytes_other) auto
qed

lemma take_drop_ld_bytes:
  "k + n \<le> l \<Longrightarrow> take n (drop k (ld_bytes m a l)) = ld_bytes m (a + of_nat k) n"
  by (rule nth_equalityI) (simp_all add: nth_ld_bytes add.assoc)

lemma ent_space_create:
  assumes ok: "mm_ok s" and n: "n \<in> page_frames" "k \<in> page_frames" "n \<noteq> k"
    and g: "g \<in> page_frames" "j < 512"
  defines "m1 \<equiv> memset (direct_map s + n) 0 (256 * 8) (kmem s)"
  defines "s' \<equiv> s\<lparr>kmem := memcpy (direct_map s + n + 8 * 256) (direct_map s + k + 8 * 256) (256 * 8) m1\<rparr>"
  shows "ent s' g j = (if g = n then if j < 256 then 0 else ent s k j else ent s g j)"
proof -
  let ?dm = "direct_map s"
  have base: "unat (?dm + f + of_nat i) = unat ?dm + unat f + i" if "f \<in> page_frames" "i < 4096" for f i
  proof -
    have "unat (?dm + f) = unat ?dm + unat f" using unat_slot [OF ok that(1), of 0] by simp
    then show ?thesis
      using mm_ok_bound [OF ok that(1), of 4096] that(2) unat_add_of_nat [of "?dm + f" i] by simp
  qed
  have b0: "unat (?dm + f) = unat ?dm + unat f" if "f \<in> page_frames" for f
    using base [OF that, of 0] by simp
  have bh: "unat (?dm + f + 8 * 256) = unat ?dm + unat f + 2048" if "f \<in> page_frames" for f
    using base [OF that, of 2048] by simp
  have bound: "unat ?dm + unat f + 4096 \<le> 2 ^ 64" if "f \<in> page_frames" for f
    using mm_ok_bound [OF ok that, of 4096] by simp
  have cj: "unat (?dm + f + 8 * i) = unat ?dm + unat f + 8 * unat i"
    if "f \<in> page_frames" "i < 512" for f i by (rule unat_slot [OF ok that])
  note sep = frames_apart
  have m1: "m1 = st_bytes (?dm + n) (replicate 2048 0) (kmem s)" by (simp add: m1_def memset_eq)
  have m2: "kmem s' = st_bytes (?dm + n + 8 * 256) (ld_bytes m1 (?dm + k + 8 * 256) 2048) m1"
    using sep [OF n] bh [OF n(1)] bh [OF n(2)] bound [OF n(1)] bound [OF n(2)]
    by (simp add: s'_def, subst memcpy_eq) (auto simp: in_space_def disjoint_ranges_def)
  have ld: "ent t f i = le_word (ld_bytes (kmem t) (direct_map t + f + 8 * i) 8)" for t f i
    by (simp add: ent_def rd64_def ld64_def)
  have jn: "unat j < 512" using g(2) by (simp add: word_less_nat_alt)
  have jlt: "j < 256 \<longleftrightarrow> unat j < 256" by (simp add: word_less_nat_alt)
  have dm': "direct_map s' = ?dm" by (simp add: s'_def)
  have src: "ld_bytes m1 (?dm + k + 8 * i) 8 = ld_bytes (kmem s) (?dm + k + 8 * i) 8" if "i < 512" for i
    using sep [OF n] cj [OF n(2) that] b0 [OF n(1)] bound [OF n(1)] bound [OF n(2)] that
    by (subst m1, intro ld_bytes_st_out) (auto simp: word_less_nat_alt)
  show ?thesis
  proof (cases "g = n")
    case False
    note far = sep [OF g(1) n(1) False] cj [OF g] bound [OF n(1)] bound [OF g(1)] jn
    have "ld_bytes (kmem s') (?dm + g + 8 * j) 8 = ld_bytes m1 (?dm + g + 8 * j) 8"
      using far bh [OF n(1)] unfolding m2 by (intro ld_bytes_st_out) auto
    also have "\<dots> = ld_bytes (kmem s) (?dm + g + 8 * j) 8"
      using far b0 [OF n(1)] unfolding m1 by (intro ld_bytes_st_out) auto
    finally show ?thesis using False by (simp add: ld dm')
  next
    case True
    show ?thesis
    proof (cases "j < 256")
      case lo: True
      have "ld_bytes (kmem s') (?dm + n + 8 * j) 8 = ld_bytes m1 (?dm + n + 8 * j) 8"
        using cj [OF n(1) g(2)] bh [OF n(1)] bound [OF n(1)] lo unfolding m2
        by (intro ld_bytes_st_out) (auto simp: jlt)
      also have "\<dots> = take 8 (drop (8 * unat j) (replicate 2048 0))"
        using cj [OF n(1) g(2)] b0 [OF n(1)] bound [OF n(1)] lo unfolding m1
        by (intro ld_bytes_st_in) (auto simp: jlt)
      also have "\<dots> = replicate 8 0" using lo jlt by simp
      finally show ?thesis using True lo by (simp add: ld dm' le_word_zeros)
    next
      case hi: False
      have "ld_bytes (kmem s') (?dm + n + 8 * j) 8 =
          take 8 (drop (8 * unat j - 2048) (ld_bytes m1 (?dm + k + 8 * 256) 2048))"
        using cj [OF n(1) g(2)] bh [OF n(1)] bound [OF n(1)] hi jn unfolding m2
        by (intro ld_bytes_st_in) (auto simp: jlt)
      also have "\<dots> = ld_bytes m1 (?dm + k + 8 * 256 + of_nat (8 * unat j - 2048)) 8"
        using hi jn by (intro take_drop_ld_bytes) (auto simp: jlt)
      also have "?dm + k + 8 * 256 + of_nat (8 * unat j - 2048) = ?dm + k + 8 * j"
        using hi by (simp add: jlt of_nat_diff)
      finally show ?thesis using True hi src [OF g(2)] by (simp add: ld dm')
    qed
  qed
qed

text \<open>A space looks the same in two memories that agree on all its tables.\<close>

definition same_tables :: "entries \<Rightarrow> entries \<Rightarrow> u64 \<Rightarrow> bool" where
  "same_tables E E' r \<longleftrightarrow> (\<forall>q f j. pth q \<longrightarrow> length q \<le> 3 \<longrightarrow> tab E 0 r q = Some f \<longrightarrow> j < 512 \<longrightarrow> E' f j = E f j)"

lemma same_tablesD:
  "same_tables E E' r \<Longrightarrow> pth q \<Longrightarrow> length q \<le> 3 \<Longrightarrow> tab E 0 r q = Some f \<Longrightarrow> j < 512 \<Longrightarrow> E' f j = E f j"
  by (simp add: same_tables_def)

lemma tab_same:
  assumes "same_tables E E' r" "pth q" "length q \<le> 4"
  shows "tab E' 0 r q = tab E 0 r q"
  using assms(2,3)
proof (induction q rule: rev_induct)
  case (snoc j q)
  then show ?case
    using same_tablesD [OF assms(1), of q _ j] by (auto simp: tab_snoc split: option.split)
qed simp

lemma walk_same:
  assumes same: "same_tables E E' r" and nl: "\<And>i. i < 512 \<Longrightarrow> present (E r i) \<Longrightarrow> \<not> large (E r i)"
    and q: "pth q" "length q + k = 3" "tab E 0 r q = Some f"
  shows "walk E' k f va = walk E k f va"
  using q
proof (induction k arbitrary: q f)
  case 0
  then show ?case using same_tablesD [OF same, of q f "idx 0 va"] by simp
next
  case (Suc k)
  let ?j = "idx (Suc k) va"
  have same': "E' f ?j = E f ?j" using same_tablesD [OF same Suc(2) _ Suc(4)] Suc(3) by simp
  have "walk E' k (frame (E f ?j)) va = walk E k (frame (E f ?j)) va"
    if p: "present (E f ?j)" and lg: "\<not> (k < 2 \<and> large (E f ?j))"
  proof (rule Suc.IH)
    have "f = r" if "\<not> k < 2" using Suc(3,4) that by (cases q) auto
    then have "\<not> large (E f ?j)" using lg p nl [of ?j] by auto
    then show "tab E 0 r (q @ [?j]) = Some (frame (E f ?j))"
      using Suc(4) p by (simp add: tab_snoc child_def)
  qed (use Suc in auto)
  then show ?case using same' by (simp add: Let_def)
qed

lemma translate_same:
  assumes "same_tables E E' r" "\<And>i. i < 512 \<Longrightarrow> present (E r i) \<Longrightarrow> \<not> large (E r i)"
  shows "translate E' r va = translate E r va"
  using walk_same [OF assms, of "[]" 3 r] by (simp add: translate_def)

lemma pt_inv_create:
  assumes pt: "pt_inv E A K R" and n: "n \<in> A" "n \<in> page_frames"
    and E': "\<forall>g \<in> page_frames. \<forall>j < 512.
      E' g j = (if g = n then if j < 256 then 0 else E K j else E g j)"
  shows "pt_inv E' (A - {n}) K (insert n R)" "n \<notin> insert K R"
    "\<And>r. r \<in> insert K R \<Longrightarrow> same_tables E E' r"
    "translate E' n va = (if idx 3 va < 256 then None else translate E K va)"
    "\<And>q f. owned K n q \<Longrightarrow> tab E' 0 n q = Some f \<Longrightarrow> q = [] \<and> f = n"
proof -
  note inv = pt_invD [OF pt]
  have fr: "r \<in> page_frames" "r \<notin> A" if "r \<in> insert K R" for r
    using inv(2) [OF that, of "[]" r] by auto
  show nR: "n \<notin> insert K R" using fr n(1) by blast
  show same: "same_tables E E' r" if "r \<in> insert K R" for r
    unfolding same_tables_def
  proof (intro allI impI)
    fix q f j assume "pth q" "length q \<le> 3" "tab E 0 r q = Some f" "j < (512 :: u64)"
    moreover from this have "f \<in> page_frames" "f \<noteq> n"
      using tab_frame [OF pt that, of q f] n(1) by auto
    ultimately show "E' f j = E f j" using E' by simp
  qed
  have En: "E' n j = (if j < 256 then 0 else E K j)" if "j < 512" for j using E' n(2) that by simp
  have root: "E' r j = E r j" if "r \<in> insert K R" "j < 512" for r j
    using same_tablesD [OF same [OF that(1)], of "[]" r j] that by simp
  have K: "K \<notin> R" using inv(1) [OF insertI1] .
  show tn: "q = [] \<and> f = n" if "owned K n q" "tab E' 0 n q = Some f" for q f
    using that nR En by (cases q) (auto simp: owned_def child_def)
  have T: "tab E' 0 r q = tab E 0 r q" if "r \<in> insert K R" "owned K r q" for r q
    using tab_same [OF same [OF that(1)], of q] that(2) by (auto simp: owned_def split: if_splits)
  show "translate E' n va = (if idx 3 va < 256 then None else translate E K va)"
  proof (cases "idx 3 va < 256")
    case True
    then show ?thesis using En [of "idx 3 va"] by (simp add: translate_unfold)
  next
    case False
    then have "translate E' n va = translate E' K va"
      using En [of "idx 3 va"] root [of K "idx 3 va"] by (simp add: translate_unfold)
    then show ?thesis using False translate_same [OF same [OF insertI1] inv(4) [OF insertI1]] by simp
  qed
  have 1: "f \<in> page_frames - (A - {n})"
    if a: "r \<in> insert K (insert n R)" "owned K r q" "tab E' 0 r q = Some f" for r q f
  proof (cases "r = n")
    case True
    then show ?thesis using tn a n(2) by auto
  next
    case False
    then show ?thesis using T [of r q] inv(2) [of r q f] a by auto
  qed
  have 2: "r = r' \<and> q = q'" if a: "r \<in> insert K (insert n R)" "r' \<in> insert K (insert n R)"
    "owned K r q" "owned K r' q'" "tab E' 0 r q = Some f" "tab E' 0 r' q' = Some f" for r r' q q' f
  proof -
    have old: "f \<noteq> n" if "x \<in> insert K R" "owned K x y" "tab E' 0 x y = Some f" for x y
      using T [OF that(1,2)] that inv(2) [OF that(1,2), of f] n(1) by auto
    show ?thesis
      using a tn [of q f] tn [of q' f] old [of r q] old [of r' q'] inv(3) [of r r' q q' f] T
      by (cases "r = n"; cases "r' = n") auto
  qed
  have 3: "\<not> large (E' r i)" if a: "r \<in> insert K (insert n R)" "i < 512" "present (E' r i)" for r i
    using a En [of i] inv(4) [of r i] inv(4) [of K i] root [of r i]
    by (cases "r = n") (auto split: if_splits)
  have 4: "E' r i = E' K i" if a: "r \<in> insert n R" "i < 512" "256 \<le> i" "present (E' r i)" for r i
    using a En [of i] inv(5) [of r i] root [of r i] root [of K i] by (cases "r = n") auto
  have 5: "\<not> large (E' f i)" if a: "r \<in> insert n R" "owned K r q" "q \<noteq> []" "length q \<le> 2"
    "tab E' 0 r q = Some f" "i < 512" "present (E' f i)" for r q f i
  proof -
    have r: "r \<in> R" using tn a by auto
    then have t: "tab E 0 r q = Some f" "pth q" using T [of r q] a by (auto simp: owned_def)
    then have "E' f i = E f i" using same_tablesD [OF same [of r], of q f i] r a by simp
    then show ?thesis using inv(6) [of r q f i] r t a by simp
  qed
  have K': "K \<notin> insert n R" using K nR by auto
  show "pt_inv E' (A - {n}) K (insert n R)" by (rule pt_invI) (fact K' 1 2 3 4 5)+
qed

lemma vmm_space_create_spec:
  assumes "mm_inv R s" "0 \<notin> avail (mm_pmm s)"
  shows "\<exists>r s'. vmm_space_create s = Some (r, s') \<and>
    (if avail (mm_pmm s) = {} then r = 0 \<and> s' = s
     else r \<noteq> 0 \<and> r \<in> avail (mm_pmm s) \<and> avail (mm_pmm s') = avail (mm_pmm s) - {r} \<and>
       mm_inv (insert r R) s' \<and> space_frames r s' = {r} \<and>
       (\<forall>va. translate (ent s') r va =
          (if idx 3 va < 256 then None else translate (ent s) (active_pml4_phys s) va)) \<and>
       (\<forall>r' \<in> insert (active_pml4_phys s) R. space_frames r' s' = space_frames r' s \<and>
          (\<forall>va. translate (ent s') r' va = translate (ent s) r' va)))"
proof -
  let ?K = "active_pml4_phys s" and ?A = "avail (mm_pmm s)"
  have ok: "mm_ok s" and pt: "pt_inv (ent s) ?A ?K R" using assms by (auto simp: mm_inv_def)
  have pinv: "pmm_inv (mm_pmm s)" using ok by (simp add: mm_ok_def)
  from pinv show ?thesis
  proof (cases rule: pmm_pages.alloc_cases)
    case fail
    then show ?thesis by (simp add: vmm_space_create_def)
  next
    case (ok n m)
    let ?s1 = "s\<lparr>mm_pmm := m\<rparr>"
    have ok1: "mm_ok ?s1" using mm_ok_alloc [OF \<open>mm_ok s\<close> ok(1)] .
    have k: "?K \<in> page_frames" "?K \<notin> ?A" using tab_mem_frames [OF assms(1) insertI1, of "[]"] by auto
    then have ne: "n \<noteq> ?K" using ok(2) by auto
    define s' where "s' = ?s1\<lparr>kmem := memcpy (direct_map s + n + 8 * 256) (direct_map s + ?K + 8 * 256) (256 * 8)
      (memset (direct_map s + n) 0 (256 * 8) (kmem s))\<rparr>"
    have E: "\<forall>g \<in> page_frames. \<forall>j < 512.
        ent s' g j = (if g = n then if j < 256 then 0 else ent s ?K j else ent s g j)"
      using ent_space_create [OF ok1 ok(3) k(1) ne] by (simp add: s'_def)
    note c = pt_inv_create [OF pt ok(2,3) E]
    have regs: "mm_pmm s' = m" "active_pml4_phys s' = ?K" "mm_ok s'"
      using ok1 by (simp_all add: s'_def mm_ok_def)
    have "vmm_space_create s = Some (n, s')"
      using ok phys_to_virt_frame [OF ok1 ok(3)] phys_to_virt_frame [OF ok1 k(1)]
      by (simp add: vmm_space_create_def s'_def)
    moreover have "n \<noteq> 0" using ok(2) assms(2) by auto
    moreover have "mm_inv (insert n R) s'" using c(1) regs ok(5) by (simp add: mm_inv_def)
    moreover have "space_frames n s' = {n}"
      using c(5) regs(2) by (auto simp: space_frames_def intro!: exI [of _ "[]"])
    moreover have "translate (ent s') r' va = translate (ent s) r' va" if "r' \<in> insert ?K R" for r' va
      using translate_same [OF c(3) [OF that]] pt_invD(4) [OF pt that] by blast
    moreover have "space_frames r' s' = space_frames r' s" if "r' \<in> insert ?K R" for r'
    proof -
      have "tab (ent s') 0 r' q = tab (ent s) 0 r' q" if "owned ?K r' q" for q
        using tab_same [OF c(3) [OF \<open>r' \<in> insert ?K R\<close>], of q] that
        by (auto simp: owned_def split: if_splits)
      then show ?thesis by (auto simp: space_frames_def regs(2))
    qed
    ultimately show ?thesis using ok c(4) regs(1) by (intro exI [of _ n] exI [of _ s']) auto
  qed
qed

text \<open>
  Creating a process space never panics.  On success the new space has an empty lower half,
  shares the kernel's upper half, owns exactly its root page, and the tables of all spaces
  stay well formed with their translations unchanged; the result 0 without any change is
  returned when no page is free.
\<close>

lemma vmm_space_create_correct:
  assumes "mm_inv R s" "0 \<notin> avail (mm_pmm s)"
  shows "\<exists>r s'. vmm_space_create s = Some (r, s') \<and>
    (if avail (mm_pmm s) = {} then r = 0 \<and> s' = s
     else r \<noteq> 0 \<and> r \<in> avail (mm_pmm s) \<and> avail (mm_pmm s') = avail (mm_pmm s) - {r} \<and>
       mm_inv (insert r R) s' \<and> space_frames r s' = {r} \<and>
       (\<forall>va. translate (ent s') r va =
          (if idx 3 va < 256 then None else translate (ent s) (active_pml4_phys s) va)) \<and>
       (\<forall>r' \<in> insert (active_pml4_phys s) R. space_frames r' s' = space_frames r' s \<and>
          (\<forall>va. translate (ent s') r' va = translate (ent s) r' va)))"
  using vmm_space_create_spec [OF assms] .

subsection \<open>Destroying a space\<close>

text \<open>The frames below a table, and the tables under which destruction works.\<close>

definition sub :: "entries \<Rightarrow> nat \<Rightarrow> u64 \<Rightarrow> u64 set" where
  "sub E d t = {f. \<exists>q. q \<noteq> [] \<and> pth q \<and> d + length q \<le> 4 \<and> tab E d t q = Some f}"

definition tree :: "entries \<Rightarrow> nat \<Rightarrow> u64 \<Rightarrow> bool" where
  "tree E d t \<longleftrightarrow>
     (\<forall>q q' f. pth q \<longrightarrow> pth q' \<longrightarrow> d + length q \<le> 4 \<longrightarrow> d + length q' \<le> 4 \<longrightarrow>
        tab E d t q = Some f \<longrightarrow> tab E d t q' = Some f \<longrightarrow> q = q') \<and>
     (\<forall>q f. pth q \<longrightarrow> d + length q \<le> 4 \<longrightarrow> tab E d t q = Some f \<longrightarrow> f \<in> page_frames) \<and>
     (\<forall>q f i. pth q \<longrightarrow> d + length q \<le> 2 \<longrightarrow> tab E d t q = Some f \<longrightarrow> i < 512 \<longrightarrow>
        present (E f i) \<longrightarrow> \<not> large (E f i))"

lemma treeD:
  assumes "tree E d t"
  shows "pth q \<Longrightarrow> pth q' \<Longrightarrow> d + length q \<le> 4 \<Longrightarrow> d + length q' \<le> 4 \<Longrightarrow>
      tab E d t q = Some f \<Longrightarrow> tab E d t q' = Some f \<Longrightarrow> q = q'"
    "pth q \<Longrightarrow> d + length q \<le> 4 \<Longrightarrow> tab E d t q = Some f \<Longrightarrow> f \<in> page_frames"
    "pth q \<Longrightarrow> d + length q \<le> 2 \<Longrightarrow> tab E d t q = Some f \<Longrightarrow> i < 512 \<Longrightarrow> present (E f i) \<Longrightarrow> \<not> large (E f i)"
  using assms unfolding tree_def by blast+

definition branch :: "entries \<Rightarrow> nat \<Rightarrow> u64 \<Rightarrow> u64 \<Rightarrow> u64 set" where
  "branch E d t i = (case child d (E t i) of None \<Rightarrow> {} | Some c \<Rightarrow> insert c (sub E (Suc d) c))"

lemma branch_iff:
  assumes "d \<le> 3" "i < 512"
  shows "f \<in> branch E d t i \<longleftrightarrow> (\<exists>q. pth q \<and> Suc d + length q \<le> 4 \<and> tab E d t (i # q) = Some f)"
proof (cases "child d (E t i)")
  case (Some c)
  show ?thesis
  proof
    assume "f \<in> branch E d t i"
    then consider "f = c" | q where "pth q" "Suc d + length q \<le> 4" "tab E (Suc d) c q = Some f"
      using Some by (auto simp: branch_def sub_def)
    then show "\<exists>q. pth q \<and> Suc d + length q \<le> 4 \<and> tab E d t (i # q) = Some f"
      using Some assms(1) by cases (auto intro: exI [of _ "[]"])
  next
    assume "\<exists>q. pth q \<and> Suc d + length q \<le> 4 \<and> tab E d t (i # q) = Some f"
    then obtain q where "pth q" "Suc d + length q \<le> 4" "tab E (Suc d) c q = Some f" using Some by auto
    then show "f \<in> branch E d t i"
      using Some by (cases "q = []") (auto simp: branch_def sub_def)
  qed
qed (simp add: branch_def)

lemma sub_branches: "d \<le> 3 \<Longrightarrow> sub E d t = (\<Union>i \<in> {i. i < 512}. branch E d t i)"
proof (rule set_eqI)
  fix f assume d: "d \<le> 3"
  have "f \<in> sub E d t \<longleftrightarrow> (\<exists>i q. i < 512 \<and> pth q \<and> Suc d + length q \<le> 4 \<and> tab E d t (i # q) = Some f)"
  proof
    assume "f \<in> sub E d t"
    then obtain q where "q \<noteq> []" "pth q" "d + length q \<le> 4" "tab E d t q = Some f"
      by (auto simp: sub_def)
    then show "\<exists>i q. i < 512 \<and> pth q \<and> Suc d + length q \<le> 4 \<and> tab E d t (i # q) = Some f"
      by (intro exI [of _ "hd q"] exI [of _ "tl q"], cases q) auto
  next
    assume "\<exists>i q. i < 512 \<and> pth q \<and> Suc d + length q \<le> 4 \<and> tab E d t (i # q) = Some f"
    then obtain i q where "i < 512" "pth q" "Suc d + length q \<le> 4" "tab E d t (i # q) = Some f" by blast
    then show "f \<in> sub E d t" unfolding sub_def by (intro CollectI exI [of _ "i # q"]) simp
  qed
  then show "f \<in> sub E d t \<longleftrightarrow> f \<in> (\<Union>i \<in> {i. i < 512}. branch E d t i)"
    by (auto simp: branch_iff [OF d] simp del: tab.simps)
qed

lemma branches_disjoint:
  assumes "tree E d t" "d \<le> 3" "i < 512" "j < 512" "i \<noteq> j"
  shows "branch E d t i \<inter> branch E d t j = {}"
proof (rule ccontr)
  assume "branch E d t i \<inter> branch E d t j \<noteq> {}"
  then obtain f q q' where "pth q" "Suc d + length q \<le> 4" "tab E d t (i # q) = Some f"
    "pth q'" "Suc d + length q' \<le> 4" "tab E d t (j # q') = Some f"
    using branch_iff [OF assms(2)] assms(3,4) by blast
  then have "i # q = j # q'"
    using assms(3,4) by (intro treeD(1) [OF assms(1)]) simp_all
  then show False using assms(5) by simp
qed

lemma tree_child:
  assumes t: "tree E d t" "d \<le> 3" "i < 512" and c: "child d (E t i) = Some c"
  shows "tree E (Suc d) c" "c \<in> page_frames" "c \<notin> sub E (Suc d) c"
proof -
  have T: "tab E (Suc d) c q = tab E d t (i # q)" for q using c by simp
  have inj: "q = q'" if "pth q" "pth q'" "Suc d + length q \<le> 4" "Suc d + length q' \<le> 4"
    "tab E (Suc d) c q = Some f" "tab E (Suc d) c q' = Some f" for q q' f
  proof -
    have "i # q = i # q'"
      using t(3) that unfolding T by (intro treeD(1) [OF t(1)]) simp_all
    then show ?thesis by simp
  qed
  have fr: "f \<in> page_frames" if "pth q" "Suc d + length q \<le> 4" "tab E (Suc d) c q = Some f" for q f
    using treeD(2) [OF t(1), of "i # q" f] t(3) that unfolding T by simp
  have nl: "\<not> large (E f j)" if "pth q" "Suc d + length q \<le> 2" "tab E (Suc d) c q = Some f" "j < 512"
    "present (E f j)" for q f j
    using treeD(3) [OF t(1), of "i # q" f j] t(3) that unfolding T by simp
  show "tree E (Suc d) c" using inj fr nl unfolding tree_def by blast
  show "c \<in> page_frames" using fr [of "[]" c] t(2) by simp
  show "c \<notin> sub E (Suc d) c"
  proof
    assume "c \<in> sub E (Suc d) c"
    then obtain q where "q \<noteq> []" "pth q" "Suc d + length q \<le> 4" "tab E (Suc d) c q = Some c"
      by (auto simp: sub_def)
    then show False using inj [of q "[]" c] t(2) by simp
  qed
qed

text \<open>A step that only releases the pages \<open>X\<close>.\<close>

definition freed :: "kmm \<Rightarrow> kmm \<Rightarrow> u64 set \<Rightarrow> bool" where
  "freed s s' X \<longleftrightarrow> same_regs s s' \<and> kmem s' = kmem s \<and> pmm_inv (mm_pmm s') \<and>
     avail (mm_pmm s') = avail (mm_pmm s) \<union> X"

lemma freed_refl: "pmm_inv (mm_pmm s) \<Longrightarrow> freed s s {}"
  by (simp add: freed_def same_regs_def)

lemma freed_trans: "freed s s' X \<Longrightarrow> freed s' s'' Y \<Longrightarrow> freed s s'' (X \<union> Y)"
  by (auto simp: freed_def same_regs_def)

lemma freedD:
  assumes "freed s s' X"
  shows "ent s' = ent s" "direct_map s' = direct_map s" "direct_map_size s' = direct_map_size s"
    "active_pml4_phys s' = active_pml4_phys s" "kmem s' = kmem s" "mm_ok s \<Longrightarrow> mm_ok s'"
    "avail (mm_pmm s') = avail (mm_pmm s) \<union> X" "pmm_inv (mm_pmm s')" "cr3 s' = cr3 s"
proof -
  show "ent s' = ent s" using assms by (intro ext) (simp add: freed_def same_regs_def ent_def rd64_def)
qed (use assms in \<open>simp_all add: freed_def same_regs_def mm_ok_def\<close>)

lemma free_phys_freed:
  assumes "pmm_inv (mm_pmm s)" "a \<in> page_frames" "a \<notin> avail (mm_pmm s)"
  shows "\<exists>s'. free_phys a s = Some s' \<and> freed s s' {a}"
  using pmm_pages.release_gives [OF assms] by (auto simp: free_phys_def freed_def same_regs_def)

lemma for_each_freed:
  assumes "\<And>i s1 X. i \<in> set is \<Longrightarrow> freed s s1 X \<Longrightarrow> avail (mm_pmm s1) \<inter> S i = {} \<Longrightarrow>
      \<exists>s2. f i s1 = Some s2 \<and> freed s1 s2 (S i)"
    and "distinct is" "\<And>i j. i \<in> set is \<Longrightarrow> j \<in> set is \<Longrightarrow> i \<noteq> j \<Longrightarrow> S i \<inter> S j = {}"
    and "freed s s1 X" "\<And>i. i \<in> set is \<Longrightarrow> avail (mm_pmm s1) \<inter> S i = {}"
  shows "\<exists>s2. for_each is f s1 = Some s2 \<and> freed s1 s2 (\<Union>i \<in> set is. S i)"
  using assms
proof (induction "is" arbitrary: s1 X)
  case Nil
  then show ?case using freed_refl [of s1] by (simp add: freed_def)
next
  case (Cons i "is")
  obtain s2 where s2: "f i s1 = Some s2" "freed s1 s2 (S i)"
    using Cons.prems(1) [OF _ Cons.prems(4), of i] Cons.prems(5) [of i] by auto
  have "\<exists>s3. for_each is f s2 = Some s3 \<and> freed s2 s3 (\<Union>i \<in> set is. S i)"
  proof (rule Cons.IH)
    show "freed s s2 (X \<union> S i)" using Cons.prems(4) s2(2) by (rule freed_trans)
    show "avail (mm_pmm s2) \<inter> S j = {}" if "j \<in> set is" for j
    proof -
      have "i \<noteq> j" using Cons.prems(2) that by auto
      then have "S i \<inter> S j = {}" "avail (mm_pmm s1) \<inter> S j = {}"
        using Cons.prems(3) [of i j] Cons.prems(5) [of j] that by simp_all
      then show ?thesis unfolding freedD(7) [OF s2(2)] by blast
    qed
    show "distinct is" using Cons.prems(2) by simp
    show "S j \<inter> S k = {}" if "j \<in> set is" "k \<in> set is" "j \<noteq> k" for j k
      using Cons.prems(3) [of j k] that by simp
    show "\<exists>s2. f j s1 = Some s2 \<and> freed s1 s2 (S j)"
      if "j \<in> set is" "freed s s1 X" "avail (mm_pmm s1) \<inter> S j = {}" for j s1 X
      using Cons.prems(1) [of j s1 X] that by simp
  qed
  then obtain s3 where s3: "for_each is f s2 = Some s3" "freed s2 s3 (\<Union>i \<in> set is. S i)" by blast
  have "freed s1 s3 (S i \<union> (\<Union>i \<in> set is. S i))" using s2(2) s3(2) by (rule freed_trans)
  then show ?case using s2(1) s3(1) by simp
qed

lemma index_list:
  assumes "n \<le> 512"
  shows "distinct (map of_nat [0..<n] :: u64 list)" "set (map of_nat [0..<n]) = {i :: u64. unat i < n}"
proof -
  have u: "unat (of_nat k :: u64) = k" if "k < n" for k
    using that assms by (intro unat_of_nat_less) simp
  have "inj_on (of_nat :: nat \<Rightarrow> u64) {0..<n}"
    by (rule inj_on_inverseI [where g = unat]) (simp add: u)
  then show "distinct (map of_nat [0..<n] :: u64 list)" by (simp add: distinct_map)
  have "i \<in> of_nat ` {0..<n}" if "unat i < n" for i :: u64
    using that by (intro image_eqI [of _ _ "unat i"]) simp_all
  then show "set (map of_nat [0..<n]) = {i :: u64. unat i < n}" using u by auto
qed

definition destroys :: "kmm \<Rightarrow> nat \<Rightarrow> (u64 \<Rightarrow> kmm \<Rightarrow> kmm option) \<Rightarrow> bool" where
  "destroys s0 d D \<longleftrightarrow> (\<forall>t s X. freed s0 s X \<longrightarrow> tree (ent s0) d t \<longrightarrow> avail (mm_pmm s) \<inter> sub (ent s0) d t = {} \<longrightarrow>
     (\<exists>s'. D (direct_map s0 + t) s = Some s' \<and> freed s s' (sub (ent s0) d t)))"

lemma for_each_branches:
  assumes ok: "mm_ok s0" "freed s0 s X" "tree (ent s0) d t" "d \<le> 3" "n \<le> 512"
    and dis: "\<And>i. unat i < n \<Longrightarrow> avail (mm_pmm s) \<inter> branch (ent s0) d t i = {}"
    and body: "\<And>i s1 X. i < 512 \<Longrightarrow> freed s0 s1 X \<Longrightarrow> avail (mm_pmm s1) \<inter> branch (ent s0) d t i = {} \<Longrightarrow>
      \<exists>s2. f i s1 = Some s2 \<and> freed s1 s2 (branch (ent s0) d t i)"
  shows "\<exists>s'. for_each (map of_nat [0..<n]) f s = Some s' \<and>
    freed s s' (\<Union>i \<in> {i. unat i < n}. branch (ent s0) d t i)"
proof -
  have lt: "i < 512" if "unat i < n" for i :: u64 using that ok(5) by (simp add: word_less_nat_alt)
  have "\<exists>s'. for_each (map of_nat [0..<n]) f s = Some s' \<and>
      freed s s' (\<Union>i \<in> set (map of_nat [0..<n]). branch (ent s0) d t i)"
  proof (rule for_each_freed [OF _ index_list(1) [OF ok(5)] _ ok(2)])
    fix i s1 X assume "i \<in> set (map of_nat [0..<n])" "freed s0 s1 X"
      "avail (mm_pmm s1) \<inter> branch (ent s0) d t i = {}"
    then show "\<exists>s2. f i s1 = Some s2 \<and> freed s1 s2 (branch (ent s0) d t i)"
      using lt body unfolding index_list(2) [OF ok(5)] by blast
  next
    fix i j :: u64 assume "i \<in> set (map of_nat [0..<n])" "j \<in> set (map of_nat [0..<n])" "i \<noteq> j"
    then show "branch (ent s0) d t i \<inter> branch (ent s0) d t j = {}"
      using branches_disjoint [OF ok(3,4)] lt unfolding index_list(2) [OF ok(5)] by blast
  next
    fix i :: u64 assume "i \<in> set (map of_nat [0..<n])"
    then show "avail (mm_pmm s) \<inter> branch (ent s0) d t i = {}"
      using dis unfolding index_list(2) [OF ok(5)] by blast
  qed
  then show ?thesis unfolding index_list(2) [OF ok(5)] .
qed

lemma entry_tests:
  "e AND PAGE_MASK = frame e" "e AND PAGE_PRESENT = 0 \<longleftrightarrow> \<not> present e"
  "e AND PAGE_LARGE = 0 \<longleftrightarrow> \<not> large e"
  by (simp_all add: frame_def present_def large_def)

lemma rd64_freed:
  assumes "freed s0 s X"
  shows "rd64 s (direct_map s0 + t) i = ent s0 t i"
  using assms by (simp add: freed_def same_regs_def ent_def rd64_def)

lemma destroy_pt_ok:
  assumes "mm_ok s0"
  shows "destroys s0 3 destroy_pt"
  unfolding destroys_def
proof (intro allI impI)
  fix t s X
  assume a: "freed s0 s X" "tree (ent s0) 3 t" "avail (mm_pmm s) \<inter> sub (ent s0) 3 t = {}"
  let ?f = "\<lambda>pti s. if rd64 s (direct_map s0 + t) pti AND PAGE_PRESENT \<noteq> 0
    then free_phys (rd64 s (direct_map s0 + t) pti AND PAGE_MASK) s else Some s"
  have nosub: "sub (ent s0) 4 c = {}" for c by (auto simp: sub_def)
  have sub: "sub (ent s0) 3 t = (\<Union>i \<in> {i. unat i < 512}. branch (ent s0) 3 t i)"
    using sub_branches [of 3 "ent s0" t] by (simp add: word_less_nat_alt)
  have "\<exists>s'. for_each (map of_nat [0..<512]) ?f s = Some s' \<and>
      freed s s' (\<Union>i \<in> {i. unat i < 512}. branch (ent s0) 3 t i)"
  proof (rule for_each_branches [OF assms a(1,2)])
    fix i :: u64 assume "unat i < 512"
    then show "avail (mm_pmm s) \<inter> branch (ent s0) 3 t i = {}" using a(3) unfolding sub by blast
  next
    fix i s1 X assume b: "i < 512" "freed s0 s1 X" "avail (mm_pmm s1) \<inter> branch (ent s0) 3 t i = {}"
    have pinv: "pmm_inv (mm_pmm s1)" using freedD(8) [OF b(2)] .
    show "\<exists>s2. ?f i s1 = Some s2 \<and> freed s1 s2 (branch (ent s0) 3 t i)"
    proof (cases "present (ent s0 t i)")
      case True
      then have c: "child 3 (ent s0 t i) = Some (frame (ent s0 t i))" by (simp add: child_def)
      have "frame (ent s0 t i) \<in> page_frames" using tree_child(2) [OF a(2) _ b(1) c] by simp
      then show ?thesis
        using free_phys_freed [OF pinv] b(3) True c
        by (simp add: rd64_freed [OF b(2)] entry_tests branch_def nosub)
    next
      case False
      then show ?thesis
        using freed_refl [OF pinv] by (simp add: rd64_freed [OF b(2)] entry_tests branch_def child_def)
    qed
  qed simp_all
  then show "\<exists>s'. destroy_pt (direct_map s0 + t) s = Some s' \<and> freed s s' (sub (ent s0) 3 t)"
    unfolding destroy_pt_def sub .
qed

text \<open>The body of the loops over the upper tables.\<close>

definition destroy_body :: "(u64 \<Rightarrow> kmm \<Rightarrow> kmm option) \<Rightarrow> u64 \<Rightarrow> u64 \<Rightarrow> kmm \<Rightarrow> kmm option" where
  "destroy_body D t i s =
     (if rd64 s t i AND PAGE_PRESENT = 0 then Some s
      else do {
        v \<leftarrow> phys_to_virt s (rd64 s t i AND PAGE_MASK);
        s' \<leftarrow> D v s;
        free_phys (rd64 s t i AND PAGE_MASK) s' })"

lemma destroy_body_ok:
  assumes ok: "mm_ok s0" "freed s0 s1 X"
    and t: "present (ent s0 t i) \<Longrightarrow> \<not> large (ent s0 t i)"
      "\<And>c. child d (ent s0 t i) = Some c \<Longrightarrow>
        tree (ent s0) (Suc d) c \<and> c \<in> page_frames \<and> c \<notin> sub (ent s0) (Suc d) c"
    and D: "destroys s0 (Suc d) D" and dis: "avail (mm_pmm s1) \<inter> branch (ent s0) d t i = {}"
  shows "\<exists>s2. destroy_body D (direct_map s0 + t) i s1 = Some s2 \<and> freed s1 s2 (branch (ent s0) d t i)"
proof (cases "present (ent s0 t i)")
  case True
  let ?c = "frame (ent s0 t i)"
  have c: "child d (ent s0 t i) = Some ?c" using True t(1) by (simp add: child_def)
  then have tc: "tree (ent s0) (Suc d) ?c" "?c \<in> page_frames" "?c \<notin> sub (ent s0) (Suc d) ?c"
    using t(2) by blast+
  have br: "branch (ent s0) d t i = insert ?c (sub (ent s0) (Suc d) ?c)" using c by (simp add: branch_def)
  obtain s2 where s2: "D (direct_map s0 + ?c) s1 = Some s2" "freed s1 s2 (sub (ent s0) (Suc d) ?c)"
    using D ok(2) tc(1) dis br unfolding destroys_def by blast
  have "?c \<notin> avail (mm_pmm s2)" using freedD(7) [OF s2(2)] dis br tc(3) by auto
  then obtain s3 where s3: "free_phys ?c s2 = Some s3" "freed s2 s3 {?c}"
    using free_phys_freed [OF freedD(8) [OF s2(2)] tc(2)] by blast
  have "freed s1 s3 (sub (ent s0) (Suc d) ?c \<union> {?c})" using s2(2) s3(2) by (rule freed_trans)
  moreover have "phys_to_virt s1 ?c = Some (direct_map s0 + ?c)"
    using phys_to_virt_frame(1) [OF freedD(6) [OF ok(2,1)] tc(2)] freedD(2) [OF ok(2)] by simp
  ultimately show ?thesis
    using True s2(1) s3(1) by (simp add: destroy_body_def rd64_freed [OF ok(2)] entry_tests br)
next
  case False
  then show ?thesis
    using freed_refl [OF freedD(8) [OF ok(2)]]
    by (simp add: destroy_body_def rd64_freed [OF ok(2)] entry_tests branch_def child_def)
qed

lemma destroy_level_ok:
  assumes ok: "mm_ok s0" and d: "d \<le> 2" and D: "destroys s0 (Suc d) D"
    and f: "\<And>t i s X. freed s0 s X \<Longrightarrow> i < 512 \<Longrightarrow> \<not> (present (ent s0 t i) \<and> large (ent s0 t i)) \<Longrightarrow>
      f (direct_map s0 + t) i s = destroy_body D (direct_map s0 + t) i s"
  shows "destroys s0 d (\<lambda>t. for_each (map of_nat [0..<512]) (f t))"
  unfolding destroys_def
proof (intro allI impI)
  fix t s X
  assume a: "freed s0 s X" "tree (ent s0) d t" "avail (mm_pmm s) \<inter> sub (ent s0) d t = {}"
  have d3: "d \<le> 3" using d by simp
  have sub: "sub (ent s0) d t = (\<Union>i \<in> {i. unat i < 512}. branch (ent s0) d t i)"
    using sub_branches [OF d3, of "ent s0" t] by (simp add: word_less_nat_alt)
  have "\<exists>s'. for_each (map of_nat [0..<512]) (f (direct_map s0 + t)) s = Some s' \<and>
      freed s s' (\<Union>i \<in> {i. unat i < 512}. branch (ent s0) d t i)"
  proof (rule for_each_branches [OF ok a(1,2) d3])
    fix i :: u64 assume "unat i < 512"
    then show "avail (mm_pmm s) \<inter> branch (ent s0) d t i = {}" using a(3) unfolding sub by blast
  next
    fix i s1 X assume b: "i < 512" "freed s0 s1 X" "avail (mm_pmm s1) \<inter> branch (ent s0) d t i = {}"
    have nl: "\<not> (present (ent s0 t i) \<and> large (ent s0 t i))"
      using treeD(3) [OF a(2), of "[]" t i] d b(1) by auto
    have "\<exists>s2. destroy_body D (direct_map s0 + t) i s1 = Some s2 \<and> freed s1 s2 (branch (ent s0) d t i)"
      using nl tree_child [OF a(2) d3 b(1)] by (intro destroy_body_ok [OF ok b(2) _ _ D b(3)]) auto
    then show "\<exists>s2. f (direct_map s0 + t) i s1 = Some s2 \<and> freed s1 s2 (branch (ent s0) d t i)"
      using f [OF b(2,1) nl] by simp
  qed simp
  then show "\<exists>s'. for_each (map of_nat [0..<512]) (f (direct_map s0 + t)) s = Some s' \<and>
      freed s s' (sub (ent s0) d t)"
    unfolding sub .
qed

lemma destroy_pd_ok: "mm_ok s0 \<Longrightarrow> destroys s0 2 destroy_pd"
  unfolding destroy_pd_def
  by (rule destroy_level_ok [where D = destroy_pt])
    (simp_all add: destroy_pt_ok destroy_body_def rd64_freed entry_tests Let_def numeral_3_eq_3 [symmetric])

lemma destroy_pdpt_ok: "mm_ok s0 \<Longrightarrow> destroys s0 1 destroy_pdpt"
  unfolding destroy_pdpt_def
  by (rule destroy_level_ok [where D = destroy_pd])
    (simp_all add: destroy_pd_ok [simplified numeral_2_eq_2] destroy_body_def rd64_freed entry_tests Let_def)

text \<open>The lower half of a process space.\<close>

lemma owned_user:
  assumes "K \<notin> R" "r \<in> R" "i < 256" "pth q" "length q \<le> 3"
  shows "owned K r (i # q)"
proof -
  have "i < 512" using assms(3) by (rule less_trans) simp
  then show ?thesis using assms by (auto simp: owned_def)
qed

lemma user_child:
  assumes pt: "pt_inv E A K R" and r: "r \<in> R" "i < 256" and c: "child 0 (E r i) = Some c"
  shows "tree E 1 c \<and> c \<in> page_frames \<and> c \<notin> sub E 1 c"
proof -
  note inv = pt_invD [OF pt insertI2 [OF r(1)]]
  have T: "tab E 1 c q = tab E 0 r (i # q)" for q using c by simp
  have o: "owned K r (i # q)" if "pth q" "1 + length q \<le> 4" for q
    using owned_user [OF inv(1) r that(1)] that(2) by simp
  have inj: "q = q'" if "pth q" "pth q'" "1 + length q \<le> 4" "1 + length q' \<le> 4"
    "tab E 1 c q = Some f" "tab E 1 c q' = Some f" for q q' f
    using inv(3) [OF insertI2 [OF r(1)] o o] that unfolding T by blast
  have fr: "f \<in> page_frames" if "pth q" "1 + length q \<le> 4" "tab E 1 c q = Some f" for q f
    using inv(2) [OF o] that unfolding T by blast
  have nl: "\<not> large (E f j)" if "pth q" "1 + length q \<le> 2" "tab E 1 c q = Some f" "j < 512"
    "present (E f j)" for q f j
    using inv(6) [OF r(1) o [of q]] that unfolding T by simp
  have "tree E 1 c" using inj fr nl unfolding tree_def by blast
  moreover have "c \<notin> sub E 1 c"
  proof
    assume "c \<in> sub E 1 c"
    then obtain q where "q \<noteq> []" "pth q" "1 + length q \<le> 4" "tab E 1 c q = Some c"
      by (auto simp: sub_def)
    then show False using inj [of q "[]" c] by simp
  qed
  ultimately show ?thesis using fr [of "[]" c] by simp
qed

lemma user_branches:
  assumes pt: "pt_inv E A K R" and r: "r \<in> R"
  shows "\<And>i j. i < 256 \<Longrightarrow> j < 256 \<Longrightarrow> i \<noteq> j \<Longrightarrow> branch E 0 r i \<inter> branch E 0 r j = {}"
    "\<And>i. i < 256 \<Longrightarrow> A \<inter> branch E 0 r i = {}" "\<And>i. i < 256 \<Longrightarrow> r \<notin> branch E 0 r i"
    "{f. \<exists>q. owned K r q \<and> tab E 0 r q = Some f} = insert r (\<Union>i \<in> {i. i < 256}. branch E 0 r i)"
proof -
  note inv = pt_invD [OF pt insertI2 [OF r]]
  have b: "f \<in> branch E 0 r i \<longleftrightarrow> (\<exists>q. pth q \<and> length q \<le> 3 \<and> tab E 0 r (i # q) = Some f)" if "i < 256" for i f
    using branch_iff [of 0 i f E r] less_trans [OF that, of 512] by (simp del: tab.simps)
  have o: "owned K r (i # q)" if "i < 256" "pth q" "length q \<le> 3" for i q
    by (rule owned_user [OF inv(1) r that])
  show "branch E 0 r i \<inter> branch E 0 r j = {}" if ij: "i < 256" "j < 256" "i \<noteq> j" for i j
  proof (rule ccontr)
    assume "branch E 0 r i \<inter> branch E 0 r j \<noteq> {}"
    then obtain f q q' where q: "pth q" "length q \<le> 3" "tab E 0 r (i # q) = Some f"
      "pth q'" "length q' \<le> 3" "tab E 0 r (j # q') = Some f"
      using b ij(1,2) by blast
    then have "i # q = j # q'"
      using inv(3) [OF insertI2 [OF r] o [OF ij(1) q(1,2)] o [OF ij(2) q(4,5)] q(3,6)] by simp
    then show False using ij(3) by simp
  qed
  show "A \<inter> branch E 0 r i = {}" if "i < 256" for i
    using b [OF that] inv(2) [OF o [OF that]] by blast
  show "r \<notin> branch E 0 r i" if i: "i < 256" for i
  proof
    assume "r \<in> branch E 0 r i"
    then obtain q where q: "pth q" "length q \<le> 3" "tab E 0 r (i # q) = Some r" using b [OF i] by blast
    show False using inv(3) [OF insertI2 [OF r] o [OF i q(1,2)] owned_Nil q(3)] by simp
  qed
  show "{f. \<exists>q. owned K r q \<and> tab E 0 r q = Some f} = insert r (\<Union>i \<in> {i. i < 256}. branch E 0 r i)"
  proof (rule set_eqI)
    fix f
    have "(\<exists>q. owned K r q \<and> tab E 0 r q = Some f) \<longleftrightarrow>
        f = r \<or> (\<exists>i q. i < 256 \<and> pth q \<and> length q \<le> 3 \<and> tab E 0 r (i # q) = Some f)"
    proof
      assume "\<exists>q. owned K r q \<and> tab E 0 r q = Some f"
      then obtain q where q: "owned K r q" "tab E 0 r q = Some f" by blast
      show "f = r \<or> (\<exists>i q. i < 256 \<and> pth q \<and> length q \<le> 3 \<and> tab E 0 r (i # q) = Some f)"
      proof (cases q)
        case (Cons i p)
        have "r \<noteq> K" using r inv(1) by auto
        then have "i < 256" "pth p" "length p \<le> 3" using q(1) Cons by (auto simp: owned_def)
        then show ?thesis using q(2) Cons by blast
      qed (use q in simp)
    next
      assume "f = r \<or> (\<exists>i q. i < 256 \<and> pth q \<and> length q \<le> 3 \<and> tab E 0 r (i # q) = Some f)"
      then show "\<exists>q. owned K r q \<and> tab E 0 r q = Some f" using o owned_Nil tab.simps(1) by metis
    qed
    then show "f \<in> {f. \<exists>q. owned K r q \<and> tab E 0 r q = Some f} \<longleftrightarrow>
        f \<in> insert r (\<Union>i \<in> {i. i < 256}. branch E 0 r i)"
      by (auto simp: b simp del: tab.simps)
  qed
qed

lemma pt_inv_remove:
  assumes pt: "pt_inv E A K R" and r: "r \<in> R"
  shows "pt_inv E (A \<union> {f. \<exists>q. owned K r q \<and> tab E 0 r q = Some f}) K (R - {r})"
proof -
  note inv = pt_invD [OF pt]
  have 1: "f \<in> page_frames - (A \<union> {f. \<exists>q. owned K r q \<and> tab E 0 r q = Some f})"
    if a: "r' \<in> insert K (R - {r})" "owned K r' q" "tab E 0 r' q = Some f" for r' q f
  proof -
    have r': "r' \<in> insert K R" "r' \<noteq> r" using a(1) r inv(1) [OF insertI1] by auto
    have "tab E 0 r p \<noteq> Some f" if "owned K r p" for p
      using inv(3) [OF r'(1) insertI2 [OF r] a(2) that a(3)] r'(2) by blast
    then show ?thesis using inv(2) [OF r'(1) a(2,3)] by blast
  qed
  have K: "K \<notin> R - {r}" using inv(1) [OF insertI1] by simp
  have up: "r' \<in> insert K R" if "r' \<in> insert K (R - {r})" for r' using that by auto
  have 2: "r1 = r2 \<and> q1 = q2" if "r1 \<in> insert K (R - {r})" "r2 \<in> insert K (R - {r})" "owned K r1 q1"
    "owned K r2 q2" "tab E 0 r1 q1 = Some f" "tab E 0 r2 q2 = Some f" for r1 r2 q1 q2 f
    using inv(3) [OF up [OF that(1)] up [OF that(2)] that(3-6)] .
  have 3: "\<not> large (E r' i)" if "r' \<in> insert K (R - {r})" "i < 512" "present (E r' i)" for r' i
    using inv(4) [OF up [OF that(1)] that(2,3)] .
  have 4: "E r' i = E K i" if "r' \<in> R - {r}" "i < 512" "256 \<le> i" "present (E r' i)" for r' i
    using inv(5) [of r' i] that by blast
  have 5: "\<not> large (E f i)" if "r' \<in> R - {r}" "owned K r' q" "q \<noteq> []" "length q \<le> 2" "tab E 0 r' q = Some f"
    "i < 512" "present (E f i)" for r' q f i
    using inv(6) [of r' q f i] that by blast
  show ?thesis by (rule pt_invI) (fact K 1 2 3 4 5)+
qed

lemma vmm_space_destroy_spec:
  assumes "mm_inv R s" "r \<in> R" "r \<noteq> 0"
  shows "\<exists>s'. vmm_space_destroy r s = Some s' \<and> freed s s' (space_frames r s) \<and>
    avail (mm_pmm s) \<inter> space_frames r s = {} \<and> mm_inv (R - {r}) s'"
proof -
  let ?K = "active_pml4_phys s" and ?E = "ent s" and ?A = "avail (mm_pmm s)"
  have ok: "mm_ok s" and pt: "pt_inv ?E ?A ?K R" using assms(1) by (auto simp: mm_inv_def)
  have pinv: "pmm_inv (mm_pmm s)" using ok by (simp add: mm_ok_def)
  have rK: "r \<noteq> ?K" using assms(2) mm_inv_root [OF assms(1)] by auto
  note ub = user_branches [OF pt assms(2)]
  have frames: "space_frames r s = insert r (\<Union>i \<in> {i. i < 256}. branch ?E 0 r i)"
    using ub(4) by (simp add: space_frames_def)
  have rf: "r \<in> page_frames" "r \<notin> ?A" using tab_mem_frames [OF assms(1) insertI2 [OF assms(2)], of "[]" r] by auto
  have ix: "set (map of_nat [0..<256]) = {i :: u64. i < 256}"
    using index_list(2) [of 256] by (simp add: word_less_nat_alt)
  let ?f = "destroy_body destroy_pdpt (direct_map s + r)"
  have "\<exists>s2. for_each (map of_nat [0..<256]) ?f s = Some s2 \<and>
      freed s s2 (\<Union>i \<in> set (map of_nat [0..<256]). branch ?E 0 r i)"
  proof (rule for_each_freed [OF _ index_list(1) _ freed_refl [OF pinv]])
    fix i s1 X assume b: "i \<in> set (map of_nat [0..<256])" "freed s s1 X" "avail (mm_pmm s1) \<inter> branch ?E 0 r i = {}"
    have i: "i < 256" "i < 512" using b(1) less_trans [of i 256 512] unfolding ix by simp_all
    show "\<exists>s2. ?f i s1 = Some s2 \<and> freed s1 s2 (branch ?E 0 r i)"
    proof (rule destroy_body_ok [OF ok b(2) _ _ _ b(3)])
      show "destroys s (Suc 0) destroy_pdpt" using destroy_pdpt_ok [OF ok] by simp
      show "\<not> large (?E r i)" if "present (?E r i)"
        using pt_invD(4) [OF pt insertI2 [OF assms(2)] i(2) that] .
    qed (use user_child [OF pt assms(2) i(1)] in simp)
  next
    fix i j :: u64 assume "i \<in> set (map of_nat [0..<256])" "j \<in> set (map of_nat [0..<256])" "i \<noteq> j"
    then show "branch ?E 0 r i \<inter> branch ?E 0 r j = {}" using ub(1) unfolding ix by simp
  next
    fix i :: u64 assume "i \<in> set (map of_nat [0..<256])"
    then show "?A \<inter> branch ?E 0 r i = {}" using ub(2) unfolding ix by simp
  qed simp
  then obtain s2 where s2: "for_each (map of_nat [0..<256]) ?f s = Some s2"
    "freed s s2 (\<Union>i \<in> {i. i < 256}. branch ?E 0 r i)" unfolding ix by blast
  have "r \<notin> avail (mm_pmm s2)" using freedD(7) [OF s2(2)] rf(2) ub(3) by auto
  then obtain s3 where s3: "free_phys r s2 = Some s3" "freed s2 s3 {r}"
    using free_phys_freed [OF freedD(8) [OF s2(2)] rf(1)] by blast
  have f3: "freed s s3 (space_frames r s)"
    using freed_trans [OF s2(2) s3(2)] unfolding frames by simp
  have "vmm_space_destroy r s = Some s3"
    using assms(3) rK phys_to_virt_frame [OF ok rf(1)] s2(1) s3(1)
    by (simp add: vmm_space_destroy_def destroy_body_def [abs_def] Let_def cong: if_cong)
  moreover have "mm_inv (R - {r}) s3"
    using pt_inv_remove [OF pt assms(2)] freedD [OF f3] ok by (simp add: mm_inv_def space_frames_def)
  moreover have "?A \<inter> space_frames r s = {}" using rf(2) ub(2) unfolding frames by blast
  ultimately show ?thesis using f3 by (intro exI [of _ s3]) simp
qed

text \<open>
  C5: Destroying a process space never panics, frees every page the space owns (its root, its
  tables and the pages it maps) exactly once and no other page, and leaves the tables and
  translations of all remaining spaces as they are.
\<close>

theorem vmm_space_destroy_correct:
  assumes "mm_inv R s" "r \<in> R" "r \<noteq> 0"
  shows "\<exists>s'. vmm_space_destroy r s = Some s' \<and>
    avail (mm_pmm s') = avail (mm_pmm s) \<union> space_frames r s \<and>
    avail (mm_pmm s) \<inter> space_frames r s = {} \<and> mm_inv (R - {r}) s' \<and> kmem s' = kmem s \<and>
    (\<forall>r' va. translate (ent s') r' va = translate (ent s) r' va)"
proof -
  obtain s' where s': "vmm_space_destroy r s = Some s'" "freed s s' (space_frames r s)"
    "avail (mm_pmm s) \<inter> space_frames r s = {}" "mm_inv (R - {r}) s'"
    using vmm_space_destroy_spec [OF assms] by blast
  then show ?thesis using freedD [OF s'(2)] by (intro exI [of _ s']) simp
qed

text \<open>Changing the free pages without touching those of any space.\<close>

lemma mm_inv_pmm:
  assumes inv: "mm_inv R s" and p: "pmm_inv p"
    and dis: "\<And>r. r \<in> insert (active_pml4_phys s) R \<Longrightarrow> space_frames r s \<inter> avail p = {}"
  shows "mm_inv R (s\<lparr>mm_pmm := p\<rparr>)"
proof -
  let ?K = "active_pml4_phys s"
  have pt: "pt_inv (ent s) (avail (mm_pmm s)) ?K R" using inv by (simp add: mm_inv_def)
  note P = pt_invD [OF pt]
  have fr: "f \<in> page_frames - avail p"
    if "r \<in> insert ?K R" "owned ?K r q" "tab (ent s) 0 r q = Some f" for r q f
    using pt_invD(2) [OF pt that] dis [OF that(1)] that by (auto simp: space_frames_def)
  have "pt_inv (ent s) (avail p) ?K R"
  proof (rule pt_invI)
    show "?K \<notin> R" by (rule P(1) [OF insertI1])
    show "\<And>r i. r \<in> R \<Longrightarrow> i < 512 \<Longrightarrow> 256 \<le> i \<Longrightarrow> present (ent s r i) \<Longrightarrow> ent s r i = ent s ?K i"
      using P(5) by (meson insertI2)
    show "\<And>r q f i. r \<in> R \<Longrightarrow> owned ?K r q \<Longrightarrow> q \<noteq> [] \<Longrightarrow> length q \<le> 2 \<Longrightarrow> tab (ent s) 0 r q = Some f \<Longrightarrow>
       i < 512 \<Longrightarrow> present (ent s f i) \<Longrightarrow> \<not> large (ent s f i)"
      using P(6) by (meson insertI2)
  qed (rule fr, assumption+, rule P(3), assumption+, rule P(4))
  then show ?thesis using inv p by (simp add: mm_inv_def mm_ok_def)
qed

subsection \<open>Instances\<close>

text \<open>A machine with one free page, an empty kernel space and an empty process space.\<close>

definition mm_ex :: kmm where
  "mm_ex = \<lparr>mm_pmm = pmm_ex, active_pml4_phys = 0x1000, direct_map = 0xffff800000000000,
     direct_map_size = 0x1000000000, kmem = (\<lambda>_. 0), cr3 = 0x1000\<rparr>"

lemma mm_ex_sel: "mm_pmm mm_ex = pmm_ex" "active_pml4_phys mm_ex = 0x1000"
  by (simp_all add: mm_ex_def)

lemma ent_mm_ex [simp]: "ent mm_ex f i = 0"
  using le_word_zeros [of 8] by (simp add: ent_def rd64_def ld64_def ld_bytes_def mm_ex_def
      map_replicate_const)

lemma tab_mm_ex: "tab (ent mm_ex) 0 r q = (if q = [] then Some r else None)"
  by (cases q) (simp_all add: child_def)

lemma mm_ex_inv: "mm_inv {0x2000} mm_ex"
proof -
  have "mm_ok mm_ex"
    by (simp add: mm_ok_def mm_ex_def pmm_ex_inv PMM_MAX_PHYS_BYTES_eq)
  moreover have "pt_inv (ent mm_ex) (avail (mm_pmm mm_ex)) (active_pml4_phys mm_ex) {0x2000}"
    by (rule pt_invI) (auto simp: tab_mm_ex mm_ex_sel pmm_ex_avail page_frames_def OS_PAGE_SIZE_def
        PMM_MAX_PHYS_BYTES_eq split: if_splits)
  ultimately show ?thesis by (simp add: mm_inv_def)
qed

lemma mm_ex_frames: "space_frames r mm_ex = {r}"
  by (auto simp: space_frames_def tab_mm_ex split: if_splits)

lemma translate_mm_ex: "translate (ent mm_ex) r va = None"
  by (simp add: translate_unfold)

lemma mm_ex_page: "0x5000 \<in> page_frames"
  by (simp add: page_frames_def OS_PAGE_SIZE_def PMM_MAX_PHYS_BYTES_eq)

text \<open>
  A second example state: the tables at \<open>0x1000\<close>, \<open>0x4000\<close>, \<open>0x5000\<close> and \<open>0x6000\<close> map the
  page at \<open>0xffff900000000000\<close> to the frame at \<open>0x7000\<close>.
\<close>

definition mm_tab :: "u64 \<Rightarrow> kmm" where
  "mm_tab e = wr64 (direct_map mm_ex + 0x6000) 0 e (wr64 (direct_map mm_ex + 0x5000) 0 0x6003
     (wr64 (direct_map mm_ex + 0x4000) 0 0x5003 (wr64 (direct_map mm_ex + 0x1000) 288 0x4003 mm_ex)))"

lemma mm_tab_sel [simp]: "mm_pmm (mm_tab e) = pmm_ex" "active_pml4_phys (mm_tab e) = 0x1000"
  "direct_map (mm_tab e) = direct_map mm_ex"
  by (simp_all add: mm_tab_def mm_ex_sel)

lemma mm_ex_ok: "mm_ok mm_ex"
  using mm_ex_inv by (simp add: mm_inv_def)

lemma mm_tab_ok: "mm_ok (mm_tab e)"
  using mm_ex_ok by (simp add: mm_tab_def)

lemma ex_frames:
  "0x1000 \<in> page_frames" "0x4000 \<in> page_frames" "0x5000 \<in> page_frames" "0x6000 \<in> page_frames"
  "0x7000 \<in> page_frames"
  by (simp_all add: page_frames_def OS_PAGE_SIZE_def PMM_MAX_PHYS_BYTES_eq)

lemma ent_mm_tab:
  assumes "f \<in> page_frames" "i < 512"
  shows "ent (mm_tab e) f i = (if f = 0x6000 \<and> i = 0 then e else if f = 0x5000 \<and> i = 0 then 0x6003
    else if f = 0x4000 \<and> i = 0 then 0x5003 else if f = 0x1000 \<and> i = 288 then 0x4003 else 0)"
proof -
  note w = ent_wr64 [OF _ _ assms(1) _ assms(2)]
  let ?d = "direct_map mm_ex"
  let ?s1 = "wr64 (?d + 0x1000) 288 0x4003 mm_ex"
  let ?s2 = "wr64 (?d + 0x4000) 0 0x5003 ?s1"
  let ?s3 = "wr64 (?d + 0x5000) 0 0x6003 ?s2"
  have 1: "ent ?s1 f i = (if f = 0x1000 \<and> i = 288 then 0x4003 else 0)"
    using w [of mm_ex "0x1000" 288 "0x4003"] mm_ex_ok ex_frames by simp
  have 2: "ent ?s2 f i = (if f = 0x4000 \<and> i = 0 then 0x5003 else ent ?s1 f i)"
    using w [of ?s1 "0x4000" 0 "0x5003"] by (simp add: mm_ex_ok ex_frames)
  have 3: "ent ?s3 f i = (if f = 0x5000 \<and> i = 0 then 0x6003 else ent ?s2 f i)"
    using w [of ?s2 "0x5000" 0 "0x6003"] by (simp add: mm_ex_ok ex_frames)
  have "ent (mm_tab e) f i = (if f = 0x6000 \<and> i = 0 then e else ent ?s3 f i)"
    unfolding mm_tab_def using w [of ?s3 "0x6000" 0 e] by (simp add: mm_ex_ok ex_frames)
  then show ?thesis unfolding 1 2 3 .
qed

lemma ex_entries:
  "present 0x4003" "present 0x5003" "present 0x6003" "present 0x7003" "\<not> present 0"
  "\<not> large 0x4003" "\<not> large 0x5003" "\<not> large 0x6003" "\<not> large 0x7003"
  "frame 0x4003 = 0x4000" "frame 0x5003 = 0x5000" "frame 0x6003 = 0x6000" "frame 0x7003 = 0x7000"
  by (simp_all add: present_def large_def frame_def PAGE_PRESENT_def PAGE_LARGE_def PAGE_MASK_def)

lemma child_ex_entries:
  "child d 0x4003 = Some 0x4000" "child d 0x5003 = Some 0x5000" "child d 0x6003 = Some 0x6000" "child d 0 = None"
  by (simp_all add: child_def ex_entries)

lemma tab_mm_tab:
  assumes "tab (ent (mm_tab e)) 0 0x1000 q = Some f" "pth q" "length q \<le> 3"
  shows "(q, f) \<in> {([], 0x1000), ([288], 0x4000), ([288, 0], 0x5000), ([288, 0, 0], 0x6000)}"
proof (cases q)
  case (Cons a q1)
  show ?thesis
  proof (cases q1)
    case Nil
    then show ?thesis using assms Cons
      by (auto simp: ent_mm_tab ex_frames child_ex_entries split: if_splits)
  next
    case c2: (Cons b q2)
    show ?thesis
    proof (cases q2)
      case Nil
      then show ?thesis using assms Cons c2
        by (auto simp: ent_mm_tab ex_frames child_ex_entries split: if_splits)
    next
      case (Cons c q3)
      then have "q3 = []" using assms(3) \<open>q = a # q1\<close> c2 by simp
      then show ?thesis using assms \<open>q = a # q1\<close> c2 Cons
        by (auto simp: ent_mm_tab ex_frames child_ex_entries split: if_splits)
    qed
  qed
qed (use assms in simp)

lemma mm_tab_inv: "mm_inv {} (mm_tab e)"
proof -
  have o: "owned 0x1000 0x1000 q \<Longrightarrow> pth q \<and> length q \<le> 3" for q by (simp add: owned_def)
  have "pt_inv (ent (mm_tab e)) {0x3000} 0x1000 {}"
  proof (rule pt_invI)
    fix r q f assume "r \<in> insert 0x1000 {}" "owned 0x1000 r q" "tab (ent (mm_tab e)) 0 r q = Some f"
    then show "f \<in> page_frames - {0x3000}" using tab_mm_tab [of e q f] o [of q] ex_frames by auto
  next
    fix r r' q q' f
    assume "r \<in> insert 0x1000 {}" "r' \<in> insert 0x1000 {}" "owned 0x1000 r q" "owned 0x1000 r' q'"
      "tab (ent (mm_tab e)) 0 r q = Some f" "tab (ent (mm_tab e)) 0 r' q' = Some f"
    then show "r = r' \<and> q = q'" using tab_mm_tab [of e q f] tab_mm_tab [of e q' f] o [of q] o [of q'] by auto
  next
    fix r i assume "r \<in> insert (0x1000 :: u64) {}" "i < 512" "present (ent (mm_tab e) r i)"
    then show "\<not> large (ent (mm_tab e) r i)" by (simp add: ent_mm_tab ex_frames ex_entries split: if_splits)
  qed auto
  then show ?thesis using mm_tab_ok by (simp add: mm_inv_def pmm_ex_avail)
qed

lemma mm_tab_translate:
  "vmm_virt_to_phys (mm_tab 0x7003) 0xffff900000000000 = Some (Some 0x7000)"
  "vmm_virt_to_phys (mm_tab 0) 0xffff900000000000 = Some None"
  by (simp_all add: vmm_virt_to_phys_eq [OF mm_tab_inv] translate_unfold Let_def idx_def INDEX_MASK_def
      ent_mm_tab ex_frames ex_entries)


theorem vmm_unmap_correct_witness:
  "mm_inv {} (mm_tab 0x7003) \<and> (\<exists>s'. vmm_unmap 0xffff900000000000 (mm_tab 0x7003) = Some (True, s') \<and>
     vmm_virt_to_phys (mm_tab 0x7003) 0xffff900000000000 = Some (Some 0x7000) \<and>
     vmm_virt_to_phys s' 0xffff900000000000 = Some None)"
proof -
  have "tab (ent (mm_tab 0x7003)) 0 0x1000 (pre 0xffff900000000000 0) = Some 0x6000"
    by (simp add: pre_def upt_rec idx_def INDEX_MASK_def ent_mm_tab ex_frames child_ex_entries)
  moreover have "present (ent (mm_tab 0x7003) 0x6000 (idx 0 0xffff900000000000))"
    by (simp add: idx_def INDEX_MASK_def ent_mm_tab ex_frames ex_entries)
  moreover obtain ok s' where u: "vmm_unmap 0xffff900000000000 (mm_tab 0x7003) = Some (ok, s')"
    "\<forall>va. vmm_virt_to_phys s' va = (if ok \<and> idxs va = idxs 0xffff900000000000 then Some None
       else vmm_virt_to_phys (mm_tab 0x7003) va)"
    "ok \<longleftrightarrow> (\<exists>t. tab (ent (mm_tab 0x7003)) 0 0x1000 (pre 0xffff900000000000 0) = Some t \<and>
       present (ent (mm_tab 0x7003) t (idx 0 0xffff900000000000)))"
    using vmm_unmap_correct [OF mm_tab_inv, of "0xffff900000000000" "0x7003"] unfolding mm_tab_sel by blast
  ultimately have "ok" by blast
  then show ?thesis using u(1) u(2) [rule_format, of "0xffff900000000000"] mm_tab_inv mm_tab_translate(1)
    by simp
qed

theorem vmm_space_map_correct_witness:
  "mm_inv {0x2000} mm_ex \<and> 0x5000 \<in> page_frames \<and> 0x5000 \<notin> avail (mm_pmm mm_ex) \<and>
   (\<exists>ok s'. vmm_space_map 0x2000 0x400000 0x5000 VMM_USER mm_ex = Some (ok, s') \<and> mm_inv {0x2000} s')"
proof -
  have f: "VMM_USER AND PAGE_MASK = 0" by (simp add: VMM_USER_def PAGE_MASK_def)
  have a: "0x5000 \<notin> avail (mm_pmm mm_ex)" by (simp add: mm_ex_def pmm_ex_avail)
  have n: "\<forall>r' \<in> insert (active_pml4_phys mm_ex) {0x2000}. 0x5000 \<notin> space_frames r' mm_ex"
    by (simp add: mm_ex_frames mm_ex_sel)
  have r: "0x2000 \<in> {0x2000 :: u64}" by simp
  obtain ok s' where "vmm_space_map 0x2000 0x400000 0x5000 VMM_USER mm_ex = Some (ok, s')"
    "mm_inv {0x2000} s'"
    using vmm_space_map_correct [OF mm_ex_inv r mm_ex_page a n f, of "0x400000"]
    by (elim exE conjE)
  then show ?thesis using mm_ex_inv mm_ex_page a by simp
qed

theorem vmm_space_create_correct_witness:
  "mm_inv {0x2000} mm_ex \<and> 0 \<notin> avail (mm_pmm mm_ex) \<and>
   (\<exists>s'. vmm_space_create mm_ex = Some (0x3000, s') \<and> mm_inv {0x3000, 0x2000} s' \<and>
      space_frames 0x3000 s' = {0x3000})"
proof -
  have a: "0 \<notin> avail (mm_pmm mm_ex)" "avail (mm_pmm mm_ex) = {0x3000}"
    by (simp_all add: mm_ex_def pmm_ex_avail)
  from vmm_space_create_correct [OF mm_ex_inv a(1)] a mm_ex_inv show ?thesis by auto
qed

theorem vmm_space_destroy_correct_witness:
  "mm_inv {0x2000} mm_ex \<and>
   (\<exists>s'. vmm_space_destroy 0x2000 mm_ex = Some s' \<and> avail (mm_pmm s') = {0x3000, 0x2000})"
proof -
  have a: "avail (mm_pmm mm_ex) = {0x3000}" by (simp add: mm_ex_def pmm_ex_avail)
  from vmm_space_destroy_correct [OF mm_ex_inv, of "0x2000"] show ?thesis
    using mm_ex_inv by (auto simp: a mm_ex_frames)
qed

end
