(* ===== verification/Kheap.thy ===== *)
theory Kheap
  imports Spaces
begin

text \<open>
  The kernel heap (\<^verbatim>\<open>kernel/mem/heap.c\<close>): a region of virtual memory that grows page by
  page, tiled by blocks with a header each; the free blocks form a doubly linked list.
  The headers are a store of \<open>block\<close> records by address, pointers are 64-bit addresses
  with 0 for \<open>NULL\<close>.  Each public operation runs under the heap lock and is atomic.  A panic
  is \<open>None\<close>, and so is a search that never ends.
\<close>

subsection \<open>State\<close>

definition HEAP_VIRT_BASE :: u64 where "HEAP_VIRT_BASE = 0xffff900000000000"
definition HEAP_MAGIC :: u32 where "HEAP_MAGIC = 0xc0de4ea1"
definition BLOCK_FREE :: u32 where "BLOCK_FREE = 0"
definition BLOCK_USED :: u32 where "BLOCK_USED = 1"
definition BLOCK_SIZE :: u64 where "BLOCK_SIZE = 40"
definition MIN_SPLIT :: u64 where "MIN_SPLIT = BLOCK_SIZE + 16"

record block =
  b_magic :: u32
  b_flags :: u32
  b_size :: u64
  b_prev :: u64
  b_next_free :: u64
  b_prev_free :: u64

record heap =
  hp_mm :: kmm
  hp_blk :: "u64 \<Rightarrow> block"
  free_list :: u64
  heap_last :: u64
  heap_end :: u64

definition hset :: "u64 \<Rightarrow> (block \<Rightarrow> block) \<Rightarrow> heap \<Rightarrow> heap" where
  "hset a f h = h\<lparr>hp_blk := (hp_blk h)(a := f (hp_blk h a))\<rparr>"

subsection \<open>Operations\<close>

definition free_list_add :: "u64 \<Rightarrow> heap \<Rightarrow> heap" where
  "free_list_add b h =
     (let h = hset b (\<lambda>x. x\<lparr>b_next_free := free_list h\<rparr>) h;
          h = hset b (\<lambda>x. x\<lparr>b_prev_free := 0\<rparr>) h;
          h = (if free_list h \<noteq> 0 then hset (free_list h) (\<lambda>x. x\<lparr>b_prev_free := b\<rparr>) h else h)
      in h\<lparr>free_list := b\<rparr>)"

definition free_list_remove :: "u64 \<Rightarrow> heap \<Rightarrow> heap" where
  "free_list_remove b h =
     (let h = (if b_prev_free (hp_blk h b) \<noteq> 0
               then hset (b_prev_free (hp_blk h b)) (\<lambda>x. x\<lparr>b_next_free := b_next_free (hp_blk h b)\<rparr>) h
               else h\<lparr>free_list := b_next_free (hp_blk h b)\<rparr>);
          h = (if b_next_free (hp_blk h b) \<noteq> 0
               then hset (b_next_free (hp_blk h b)) (\<lambda>x. x\<lparr>b_prev_free := b_prev_free (hp_blk h b)\<rparr>) h
               else h);
          h = hset b (\<lambda>x. x\<lparr>b_next_free := 0\<rparr>) h
      in hset b (\<lambda>x. x\<lparr>b_prev_free := 0\<rparr>) h)"

definition block_next_mem :: "u64 \<Rightarrow> heap \<Rightarrow> u64" where
  "block_next_mem b h =
     (let n = b + b_size (hp_blk h b) in if n \<ge> heap_end h then 0 else n)"

definition expand :: "heap \<Rightarrow> (bool \<times> heap) option" where
  "expand h =
     (let (page, p) = pmm_alloc_page (mm_pmm (hp_mm h));
          h = h\<lparr>hp_mm := (hp_mm h)\<lparr>mm_pmm := p\<rparr>\<rparr>
      in if page = PMM_ALLOC_FAILED then Some (False, h) else do {
        (ok, mm) \<leftarrow> vmm_map (heap_end h) page VMM_WRITABLE (hp_mm h);
        let h = h\<lparr>hp_mm := mm\<rparr>;
        if \<not> ok then do {
          p \<leftarrow> pmm_free_page page (mm_pmm (hp_mm h));
          Some (False, h\<lparr>hp_mm := (hp_mm h)\<lparr>mm_pmm := p\<rparr>\<rparr>)
        } else do {
          let b = heap_end h;
          let h = h\<lparr>heap_end := heap_end h + OS_PAGE_SIZE\<rparr>;
          if heap_last h \<noteq> 0 \<and> b_flags (hp_blk h (heap_last h)) = BLOCK_FREE then do {
            let h = free_list_remove (heap_last h) h;
            let h = hset (heap_last h) (\<lambda>x. x\<lparr>b_size := b_size x + OS_PAGE_SIZE\<rparr>) h;
            Some (True, free_list_add (heap_last h) h)
          } else do {
            let h = hset b (\<lambda>_. \<lparr>b_magic = HEAP_MAGIC, b_flags = BLOCK_FREE, b_size = OS_PAGE_SIZE,
              b_prev = heap_last h, b_next_free = 0, b_prev_free = 0\<rparr>) h;
            let h = h\<lparr>heap_last := b\<rparr>;
            Some (True, free_list_add b h)
          }
        }
      })"

definition heap_init :: "heap \<Rightarrow> heap option" where
  "heap_init h =
     (let h = h\<lparr>heap_end := HEAP_VIRT_BASE, heap_last := 0, free_list := 0\<rparr>
      in do { (ok, h) \<leftarrow> expand h; if \<not> ok then None else Some h })"

text \<open>The first block of the free list that is large enough, or 0.\<close>

partial_function (option) first_fit :: "heap \<Rightarrow> u64 \<Rightarrow> u64 \<Rightarrow> u64 option" where
  "first_fit h tot b =
     (if b \<noteq> 0 \<and> b_size (hp_blk h b) < tot then first_fit h tot (b_next_free (hp_blk h b))
      else Some b)"

function expand_pages :: "u64 \<Rightarrow> u64 \<Rightarrow> heap \<Rightarrow> (bool \<times> heap) option" where
  "expand_pages i pages h =
     (if i < pages then do {
        (ok, h) \<leftarrow> expand h;
        if \<not> ok then Some (False, h) else expand_pages (i + 1) pages h
      } else Some (True, h))"
  by pat_completeness auto
termination
  by (relation "measure (\<lambda>(i, pages, h). unat (pages - i))") (auto simp: word_loop)

declare expand_pages.simps [simp del]

definition kmalloc_take :: "u64 \<Rightarrow> u64 \<Rightarrow> heap \<Rightarrow> u64 \<times> heap" where
  "kmalloc_take tot b h =
     (let h =
        (if b_size (hp_blk h b) \<ge> tot + MIN_SPLIT then
           (let tail = b + tot;
                h = hset tail (\<lambda>_. \<lparr>b_magic = HEAP_MAGIC, b_flags = BLOCK_FREE,
                  b_size = b_size (hp_blk h b) - tot, b_prev = b,
                  b_next_free = 0, b_prev_free = 0\<rparr>) h;
                after = block_next_mem tail h;
                h = (if after \<noteq> 0 then hset after (\<lambda>x. x\<lparr>b_prev := tail\<rparr>) h else h);
                h = (if heap_last h = b then h\<lparr>heap_last := tail\<rparr> else h);
                h = hset b (\<lambda>x. x\<lparr>b_size := tot\<rparr>) h;
                h = free_list_remove b h
            in free_list_add tail h)
         else free_list_remove b h);
        h = hset b (\<lambda>x. x\<lparr>b_flags := BLOCK_USED\<rparr>) h
      in (b + BLOCK_SIZE, h))"

definition kmalloc_locked :: "u64 \<Rightarrow> heap \<Rightarrow> (u64 \<times> heap) option" where
  "kmalloc_locked sz h =
     (if sz > - 1 - BLOCK_SIZE - 16 then Some (0, h) else do {
        let sz = (sz + 15) AND NOT 15;
        let tot = sz + BLOCK_SIZE;
        b \<leftarrow> first_fit h tot (free_list h);
        if b \<noteq> 0 then Some (kmalloc_take tot b h) else do {
          let pages = (tot + OS_PAGE_SIZE - 1) div OS_PAGE_SIZE;
          (ok, h) \<leftarrow> expand_pages 0 pages h;
          if \<not> ok then Some (0, h) else do {
            b \<leftarrow> first_fit h tot (free_list h);
            if b = 0 then Some (0, h) else Some (kmalloc_take tot b h)
          }
        }
      })"

definition kmalloc :: "u64 \<Rightarrow> heap \<Rightarrow> (u64 \<times> heap) option" where
  "kmalloc sz h = (if sz = 0 then Some (0, h) else kmalloc_locked sz h)"

definition merge_next :: "u64 \<Rightarrow> u64 \<Rightarrow> heap \<Rightarrow> heap" where
  "merge_next b n h =
     (let h = hset b (\<lambda>x. x\<lparr>b_size := b_size x + b_size (hp_blk h n)\<rparr>) h;
          h = (if heap_last h = n then h\<lparr>heap_last := b\<rparr> else h);
          after = block_next_mem b h
      in if after \<noteq> 0 then hset after (\<lambda>x. x\<lparr>b_prev := b\<rparr>) h else h)"

definition kfree_locked :: "u64 \<Rightarrow> heap \<Rightarrow> heap option" where
  "kfree_locked ptr h =
     (let b = ptr - BLOCK_SIZE
      in if b_magic (hp_blk h b) \<noteq> HEAP_MAGIC \<or> b_flags (hp_blk h b) \<noteq> BLOCK_USED then None
         else
           (let h = hset b (\<lambda>x. x\<lparr>b_flags := BLOCK_FREE\<rparr>) h;
                n = block_next_mem b h;
                h = (if n \<noteq> 0 \<and> b_magic (hp_blk h n) = HEAP_MAGIC \<and> b_flags (hp_blk h n) = BLOCK_FREE
                     then merge_next b n (free_list_remove n h) else h);
                p = b_prev (hp_blk h b)
            in if p \<noteq> 0 \<and> b_magic (hp_blk h p) = HEAP_MAGIC \<and> b_flags (hp_blk h p) = BLOCK_FREE
               then Some (free_list_add p (merge_next p b (free_list_remove p h)))
               else Some (free_list_add b h)))"

definition kfree :: "u64 \<Rightarrow> heap \<Rightarrow> heap option" where
  "kfree ptr h = (if ptr = 0 then Some h else kfree_locked ptr h)"

subsection \<open>The free list\<close>

text \<open>
  \<open>dll B p x ys\<close>: starting with \<open>x\<close>, whose predecessor is \<open>p\<close>, the blocks \<open>ys\<close> are linked
  in both directions.
\<close>

fun dll :: "(u64 \<Rightarrow> block) \<Rightarrow> u64 \<Rightarrow> u64 \<Rightarrow> u64 list \<Rightarrow> bool" where
  "dll B p x [] \<longleftrightarrow> x = 0"
| "dll B p x (y # ys) \<longleftrightarrow> x = y \<and> y \<noteq> 0 \<and> b_prev_free (B y) = p \<and> dll B y (b_next_free (B y)) ys"

definition links :: "block \<Rightarrow> u64 \<times> u64" where
  "links x = (b_next_free x, b_prev_free x)"

definition core :: "block \<Rightarrow> u32 \<times> u32 \<times> u64 \<times> u64" where
  "core x = (b_magic x, b_flags x, b_size x, b_prev x)"

lemma dll_cong: "(\<And>y. y \<in> set ys \<Longrightarrow> links (B' y) = links (B y)) \<Longrightarrow> dll B' p x ys = dll B p x ys"
  by (induction ys arbitrary: p x) (auto simp: links_def)

lemma dll_zero: "dll B p x ys \<Longrightarrow> 0 \<notin> set ys"
  by (induction ys arbitrary: p x) auto

lemma dll_last:
  "dll B p x (ys @ [y]) \<Longrightarrow> b_next_free (B y) = 0"
  by (induction ys arbitrary: p x) auto

lemma hset_blk [simp]: "hp_blk (hset a f h) = (hp_blk h)(a := f (hp_blk h a))"
  and hset_sel [simp]: "free_list (hset a f h) = free_list h" "heap_last (hset a f h) = heap_last h"
    "heap_end (hset a f h) = heap_end h" "hp_mm (hset a f h) = hp_mm h"
  by (simp_all add: hset_def)

lemma free_list_add_sel [simp]:
  "heap_last (free_list_add b h) = heap_last h" "heap_end (free_list_add b h) = heap_end h"
  "hp_mm (free_list_add b h) = hp_mm h" "free_list (free_list_add b h) = b"
  "core (hp_blk (free_list_add b h) x) = core (hp_blk h x)"
  by (simp_all add: free_list_add_def Let_def core_def)

lemma free_list_remove_sel [simp]:
  "heap_last (free_list_remove b h) = heap_last h" "heap_end (free_list_remove b h) = heap_end h"
  "hp_mm (free_list_remove b h) = hp_mm h"
  "core (hp_blk (free_list_remove b h) x) = core (hp_blk h x)"
  by (simp_all add: free_list_remove_def Let_def core_def)

lemma core_sel:
  "core x = core y \<Longrightarrow> b_magic x = b_magic y \<and> b_flags x = b_flags y \<and> b_size x = b_size y \<and> b_prev x = b_prev y"
  by (simp add: core_def)

lemma dll_add:
  assumes "dll (hp_blk h) 0 (free_list h) fl" "b \<notin> set fl" "b \<noteq> 0" "distinct fl"
  shows "dll (hp_blk (free_list_add b h)) 0 b (b # fl)"
proof (cases fl)
  case Nil
  then show ?thesis using assms by (simp add: free_list_add_def Let_def)
next
  case (Cons y ys)
  have f: "free_list h = y" "y \<noteq> 0" "y \<noteq> b" using assms Cons by auto
  let ?B = "hp_blk (free_list_add b h)"
  have "links (?B z) = links (hp_blk h z)" if "z \<in> set ys" for z
    using that assms Cons f by (auto simp: free_list_add_def Let_def links_def)
  then have "dll ?B y (b_next_free (hp_blk h y)) ys"
    using assms(1) Cons dll_cong [of ys ?B "hp_blk h"] by simp
  then show ?thesis
    using f Cons assms by (simp add: free_list_add_def Let_def)
qed

text \<open>Taking a block out of the middle of the list.\<close>

definition unlink :: "u64 \<Rightarrow> (u64 \<Rightarrow> block) \<Rightarrow> u64 \<Rightarrow> block" where
  "unlink b B =
     (let B1 = (if b_prev_free (B b) \<noteq> 0
                then B(b_prev_free (B b) := (B (b_prev_free (B b)))\<lparr>b_next_free := b_next_free (B b)\<rparr>) else B);
          B2 = (if b_next_free (B1 b) \<noteq> 0
                then B1(b_next_free (B1 b) := (B1 (b_next_free (B1 b)))\<lparr>b_prev_free := b_prev_free (B1 b)\<rparr>) else B1)
      in B2(b := (B2 b)\<lparr>b_next_free := 0, b_prev_free := 0\<rparr>))"

lemma free_list_remove_blk: "hp_blk (free_list_remove b h) = unlink b (hp_blk h)"
  by (auto simp: free_list_remove_def unlink_def Let_def)

lemma free_list_remove_head:
  "free_list (free_list_remove b h) =
     (if b_prev_free (hp_blk h b) \<noteq> 0 then free_list h else b_next_free (hp_blk h b))"
  by (simp add: free_list_remove_def Let_def)

lemma dll_prev:
  assumes "dll B p x (ys @ b # zs)"
  shows "b_prev_free (B b) = (if ys = [] then p else last ys)"
    "b_next_free (B b) = (if zs = [] then 0 else hd zs)"
  using assms by (induction ys arbitrary: p x; cases zs; auto)+

lemma dll_unlink:
  assumes "dll B p x (ys @ b # zs)" "distinct (ys @ b # zs)" "p \<notin> set (ys @ b # zs)"
    and B': "\<And>y. y \<in> set ys \<Longrightarrow> b_prev_free (B' y) = b_prev_free (B y)"
      "\<And>y. y \<in> set (butlast ys) \<Longrightarrow> b_next_free (B' y) = b_next_free (B y)"
      "ys \<noteq> [] \<Longrightarrow> b_next_free (B' (last ys)) = b_next_free (B b)"
      "\<And>y. y \<in> set zs \<Longrightarrow> b_next_free (B' y) = b_next_free (B y)"
      "\<And>y. y \<in> set (tl zs) \<Longrightarrow> b_prev_free (B' y) = b_prev_free (B y)"
      "zs \<noteq> [] \<Longrightarrow> b_prev_free (B' (hd zs)) = b_prev_free (B b)"
  shows "dll B' p (if ys = [] then b_next_free (B b) else x) (ys @ zs)"
  using assms
proof (induction ys arbitrary: p x)
  case Nil
  show ?case
  proof (cases zs)
    case (Cons z zs')
    have "dll B' z (b_next_free (B z)) zs' = dll B z (b_next_free (B z)) zs'"
      using Nil(7,8) Cons by (intro dll_cong) (auto simp: links_def)
    then show ?thesis using Nil Cons by simp
  qed (use Nil in simp)
next
  case (Cons y ys)
  have "dll B' y (if ys = [] then b_next_free (B b) else b_next_free (B y)) (ys @ zs)"
  proof (rule Cons.IH)
    show "b_next_free (B' z) = b_next_free (B z)" if "z \<in> set (butlast ys)" for z
      using Cons.prems(5) [of z] that by (cases ys) auto
    show "b_next_free (B' (last ys)) = b_next_free (B b)" if "ys \<noteq> []"
      using Cons.prems(6) that by simp
  qed (use Cons.prems in auto)
  moreover have "b_next_free (B' y) = (if ys = [] then b_next_free (B b) else b_next_free (B y))"
    using Cons.prems(5,6) by auto
  ultimately show ?case using Cons.prems(1,4) by simp
qed

lemma unlink_sel:
  assumes "b_prev_free (B b) \<noteq> b" "b_next_free (B b) \<noteq> b"
  shows "b_next_free (unlink b B y) = (if y = b then 0
      else if y = b_prev_free (B b) \<and> y \<noteq> 0 then b_next_free (B b) else b_next_free (B y))"
    "b_prev_free (unlink b B y) = (if y = b then 0
      else if y = b_next_free (B b) \<and> y \<noteq> 0 then b_prev_free (B b) else b_prev_free (B y))"
  using assms by (simp_all add: unlink_def Let_def)

lemma unlink_links:
  assumes "dll B 0 x (ys @ b # zs)" "distinct (ys @ b # zs)"
  shows "dll (unlink b B) 0 (if ys = [] then b_next_free (B b) else x) (ys @ zs)"
proof (rule dll_unlink [OF assms])
  have z: "0 \<notin> set (ys @ b # zs)" using assms(1) by (rule dll_zero)
  then show "0 \<notin> set (ys @ b # zs)" .
  have pn: "b_prev_free (B b) = (if ys = [] then 0 else last ys)"
    "b_next_free (B b) = (if zs = [] then 0 else hd zs)"
    using dll_prev [OF assms(1)] by simp_all
  have lz: "ys \<noteq> [] \<Longrightarrow> last ys \<in> set ys" "zs \<noteq> [] \<Longrightarrow> hd zs \<in> set zs" by simp_all
  have ne: "b_prev_free (B b) \<noteq> b" "b_next_free (B b) \<noteq> b"
    using pn lz z assms(2) by (auto split: if_splits)
  note u = unlink_sel [of B b, OF ne]
  have dis: "b \<notin> set ys" "b \<notin> set zs" "set ys \<inter> set zs = {}" using assms(2) by auto
  have ys: "y \<noteq> b \<and> y \<noteq> 0 \<and> y \<noteq> b_next_free (B b)" if "y \<in> set ys" for y
    using that z dis pn(2) lz(2) by (cases "zs = []") auto
  have zs: "y \<noteq> b \<and> y \<noteq> 0 \<and> y \<noteq> b_prev_free (B b)" if "y \<in> set zs" for y
  proof -
    have "y \<notin> set ys" using that dis by blast
    then show ?thesis using that z dis pn(1) lz(1) by (cases "ys = []") auto
  qed
  show "b_prev_free (unlink b B y) = b_prev_free (B y)" if "y \<in> set ys" for y
    using ys [OF that] by (simp add: u)
  show "b_next_free (unlink b B y) = b_next_free (B y)" if y: "y \<in> set (butlast ys)" for y
  proof -
    have "distinct (butlast ys @ [last ys])" using y assms(2) by (cases "ys = []") simp_all
    then have "y \<noteq> last ys" using y by auto
    then show ?thesis using ys [OF in_set_butlastD [OF y]] pn(1) by (auto simp: u)
  qed
  show "b_next_free (unlink b B (last ys)) = b_next_free (B b)" if "ys \<noteq> []"
    using ys [OF lz(1) [OF that]] that pn(1) by (simp add: u)
  show "b_next_free (unlink b B y) = b_next_free (B y)" if "y \<in> set zs" for y
    using zs [OF that] by (simp add: u)
  show "b_prev_free (unlink b B y) = b_prev_free (B y)" if y: "y \<in> set (tl zs)" for y
  proof -
    have "y \<noteq> hd zs" "zs \<noteq> []" using y assms(2) by (cases zs; auto)+
    moreover have "y \<in> set zs" using y by (cases zs) auto
    ultimately show ?thesis using zs pn(2) by (simp add: u)
  qed
  show "b_prev_free (unlink b B (hd zs)) = b_prev_free (B b)" if "zs \<noteq> []"
    using zs [OF lz(2) [OF that]] that pn(2) by (simp add: u)
qed

lemma dll_remove:
  assumes "dll (hp_blk h) 0 (free_list h) fl" "distinct fl" "b \<in> set fl"
  shows "dll (hp_blk (free_list_remove b h)) 0 (free_list (free_list_remove b h)) (remove1 b fl)"
proof -
  obtain ys zs where fl: "fl = ys @ b # zs" using assms(3) by (meson split_list)
  then have r: "remove1 b fl = ys @ zs" using assms(2) by (simp add: remove1_append)
  have z: "0 \<notin> set fl" using assms(1) by (rule dll_zero)
  have "b_prev_free (hp_blk h b) = (if ys = [] then 0 else last ys)"
    using dll_prev(1) assms(1) fl by blast
  moreover have "last ys \<noteq> 0" if "ys \<noteq> []" using z fl last_in_set [OF that] by auto
  moreover have "ys = [] \<Longrightarrow> free_list h = b" using assms(1) fl by simp
  ultimately show ?thesis
    using unlink_links [of "hp_blk h" "free_list h" ys b zs] assms(1,2) fl r
    by (auto simp: free_list_remove_blk free_list_remove_head split: if_splits)
qed

text \<open>The search terminates: it returns the first block that fits, or 0.\<close>

lemma first_fit_dll:
  assumes "dll (hp_blk h) p x fl"
  shows "first_fit h tot x = Some (case find (\<lambda>b. \<not> b_size (hp_blk h b) < tot) fl of None \<Rightarrow> 0 | Some b \<Rightarrow> b)"
  using assms
proof (induction fl arbitrary: p x)
  case Nil
  then show ?case by (subst first_fit.simps) simp
next
  case (Cons y ys)
  then show ?case by (subst first_fit.simps) auto
qed

subsection \<open>The tiling of the heap by blocks\<close>

definition blk_ok :: "block \<Rightarrow> bool" where
  "blk_ok x \<longleftrightarrow> b_magic x = HEAP_MAGIC \<and> b_flags x \<in> {BLOCK_FREE, BLOCK_USED} \<and>
     56 \<le> unat (b_size x) \<and> 8 dvd unat (b_size x)"

fun tiles :: "(u64 \<Rightarrow> block) \<Rightarrow> nat \<Rightarrow> nat \<Rightarrow> u64 \<Rightarrow> u64 list \<Rightarrow> bool" where
  "tiles B a e p [] \<longleftrightarrow> a = e"
| "tiles B a e p (b # bs) \<longleftrightarrow> unat b = a \<and> blk_ok (B b) \<and> b_prev (B b) = p \<and>
     tiles B (a + unat (b_size (B b))) e b bs"

definition lastp :: "u64 \<Rightarrow> u64 list \<Rightarrow> u64" where
  "lastp p bs = (if bs = [] then p else last bs)"

lemma lastp_simps [simp]: "lastp p [] = p" "lastp p (b # bs) = lastp b bs" "lastp p (bs @ [b]) = b"
  by (simp_all add: lastp_def)

lemma tiles_append:
  "tiles B a e p (xs @ ys) \<longleftrightarrow> (\<exists>m. tiles B a m p xs \<and> tiles B m e (lastp p xs) ys)"
  by (induction xs arbitrary: a p) auto

lemma core_blk_ok: "core x = core y \<Longrightarrow> blk_ok x = blk_ok y"
  by (simp add: core_def blk_ok_def)

lemma tiles_cong:
  "(\<And>b. b \<in> set bs \<Longrightarrow> core (B' b) = core (B b)) \<Longrightarrow> tiles B' a e p bs = tiles B a e p bs"
proof (induction bs arbitrary: a p)
  case (Cons b bs)
  then have c: "core (B' b) = core (B b)" by simp
  have "tiles B' a' e p' bs = tiles B a' e p' bs" for a' p' using Cons by simp
  then show ?case using core_blk_ok [OF c] core_sel [OF c] by simp
qed simp

lemma tiles_keep:
  "tiles B a e p bs \<Longrightarrow> \<forall>b \<in> set bs. core (B' b) = core (B b) \<Longrightarrow> tiles B' a e p bs"
  using tiles_cong [of bs B' B] by simp

lemma tiles_bounds:
  assumes "tiles B a e p bs"
  shows "a \<le> e" "b \<in> set bs \<Longrightarrow> a \<le> unat b \<and> unat b + unat (b_size (B b)) \<le> e \<and> blk_ok (B b)"
proof -
  have "a \<le> e \<and> (\<forall>b \<in> set bs. a \<le> unat b \<and> unat b + unat (b_size (B b)) \<le> e \<and> blk_ok (B b))"
    using assms by (induction bs arbitrary: a p) fastforce+
  then show "a \<le> e" "b \<in> set bs \<Longrightarrow> a \<le> unat b \<and> unat b + unat (b_size (B b)) \<le> e \<and> blk_ok (B b)"
    by blast+
qed

lemma tiles_distinct:
  assumes "tiles B a e p bs"
  shows "distinct bs"
  using assms
proof (induction bs arbitrary: a p)
  case (Cons b bs)
  have "b \<notin> set bs"
    using tiles_bounds(2) [of B "a + unat (b_size (B b))" e b bs b] Cons.prems by (auto simp: blk_ok_def)
  then show ?case using Cons by auto
qed simp

lemma tiles_apart:
  assumes "tiles B a e p bs" "b \<in> set bs" "c \<in> set bs" "b \<noteq> c"
  shows "unat b + unat (b_size (B b)) \<le> unat c \<or> unat c + unat (b_size (B c)) \<le> unat b"
  using assms
proof (induction bs arbitrary: a p)
  case (Cons d bs)
  then have t: "tiles B (a + unat (b_size (B d))) e d bs" "unat d = a" by auto
  show ?case
  proof (cases "b = d \<or> c = d")
    case True
    then show ?thesis
      using Cons.prems(2-4) tiles_bounds(2) [OF t(1), of b] tiles_bounds(2) [OF t(1), of c] t(2) by auto
  qed (use Cons t in auto)
qed simp

lemma tiles_mid:
  "tiles B a e p (xs @ b # ys) \<longleftrightarrow> tiles B a (unat b) p xs \<and> blk_ok (B b) \<and> b_prev (B b) = lastp p xs \<and>
     tiles B (unat b + unat (b_size (B b))) e b ys"
  by (auto simp: tiles_append)

lemma block_next_mem_tiles:
  assumes t: "tiles (hp_blk h) (unat b + unat (b_size (hp_blk h b))) (unat (heap_end h)) p ys"
  shows "block_next_mem b h = (if ys = [] then 0 else hd ys)"
proof -
  let ?n = "unat b + unat (b_size (hp_blk h b))"
  have "?n \<le> unat (heap_end h)" using tiles_bounds(1) [OF t] .
  then have n: "unat (b + b_size (hp_blk h b)) = ?n"
    using unat_less [of "heap_end h"] by (intro unat_add_lem [THEN iffD1]) simp
  show ?thesis
  proof (cases ys)
    case Nil
    then show ?thesis using t n by (simp add: block_next_mem_def Let_def word_le_nat_alt)
  next
    case (Cons c cs)
    then have "unat c = ?n" "unat c + unat (b_size (hp_blk h c)) \<le> unat (heap_end h)" "blk_ok (hp_blk h c)"
      using t tiles_bounds(2) [OF t, of c] by auto
    then have "b + b_size (hp_blk h b) = c" "\<not> heap_end h \<le> c"
      using n by (auto simp: word_unat_eq_iff word_le_nat_alt blk_ok_def)
    then show ?thesis using Cons by (simp add: block_next_mem_def Let_def)
  qed
qed

definition is_free :: "(u64 \<Rightarrow> block) \<Rightarrow> u64 \<Rightarrow> bool" where
  "is_free B b \<longleftrightarrow> b_flags (B b) = BLOCK_FREE"

text \<open>
  The representation: the blocks \<open>bs\<close> tile the heap, the last one is known, and the free list
  \<open>fl\<close> holds the free blocks apart from those of \<open>X\<close>, which an operation is working on.
\<close>

definition rep :: "heap \<Rightarrow> u64 list \<Rightarrow> u64 list \<Rightarrow> u64 set \<Rightarrow> bool" where
  "rep h bs fl X \<longleftrightarrow> tiles (hp_blk h) (unat HEAP_VIRT_BASE) (unat (heap_end h)) 0 bs \<and>
     heap_last h = lastp 0 bs \<and> dll (hp_blk h) 0 (free_list h) fl \<and> distinct fl \<and>
     set fl = {b \<in> set bs. is_free (hp_blk h) b} - X"

lemma repD:
  assumes "rep h bs fl X"
  shows "tiles (hp_blk h) (unat HEAP_VIRT_BASE) (unat (heap_end h)) 0 bs" "heap_last h = lastp 0 bs"
    "dll (hp_blk h) 0 (free_list h) fl" "distinct fl" "set fl = {b \<in> set bs. is_free (hp_blk h) b} - X"
    "distinct bs" "\<And>b. b \<in> set bs \<Longrightarrow> b \<noteq> 0"
proof -
  show t: "tiles (hp_blk h) (unat HEAP_VIRT_BASE) (unat (heap_end h)) 0 bs" "heap_last h = lastp 0 bs"
    "dll (hp_blk h) 0 (free_list h) fl" "distinct fl" "set fl = {b \<in> set bs. is_free (hp_blk h) b} - X"
    using assms by (simp_all add: rep_def)
  show "distinct bs" using tiles_distinct [OF t(1)] .
  show "b \<noteq> 0" if "b \<in> set bs" for b
    using tiles_bounds(2) [OF t(1) that] by (auto simp: HEAP_VIRT_BASE_def)
qed

lemma rep_remove:
  assumes "rep h bs fl X" "b \<in> set fl"
  shows "rep (free_list_remove b h) bs (remove1 b fl) (insert b X)"
proof -
  note r = repD [OF assms(1)]
  have "tiles (hp_blk (free_list_remove b h)) (unat HEAP_VIRT_BASE) (unat (heap_end h)) 0 bs"
    using r(1) tiles_cong [of bs "hp_blk (free_list_remove b h)" "hp_blk h"] by simp
  moreover have "is_free (hp_blk (free_list_remove b h)) c = is_free (hp_blk h) c" for c
    using core_sel [OF free_list_remove_sel(4) [of b h c]] by (simp add: is_free_def)
  ultimately show ?thesis
    using r dll_remove [OF r(3,4) assms(2)] by (auto simp: rep_def)
qed

lemma rep_add:
  assumes "rep h bs fl X" "b \<in> set bs" "is_free (hp_blk h) b" "b \<in> X"
  shows "rep (free_list_add b h) bs (b # fl) (X - {b})"
proof -
  note r = repD [OF assms(1)]
  have "tiles (hp_blk (free_list_add b h)) (unat HEAP_VIRT_BASE) (unat (heap_end h)) 0 bs"
    using r(1) tiles_cong [of bs "hp_blk (free_list_add b h)" "hp_blk h"] by simp
  moreover have "is_free (hp_blk (free_list_add b h)) c = is_free (hp_blk h) c" for c
    using core_sel [OF free_list_add_sel(5) [of b h c]] by (simp add: is_free_def)
  moreover have "b \<notin> set fl" using r(5) assms(4) by blast
  ultimately show ?thesis
    using r dll_add [OF r(3) _ r(7) [OF assms(2)] r(4)] assms(2-4) by (auto simp: rep_def)
qed

text \<open>Changes of a header that keep the address and the size.\<close>

lemma rep_flags:
  assumes "rep h bs fl X" "b \<in> set bs" "fg \<in> {BLOCK_FREE, BLOCK_USED}" "b \<notin> set fl"
    "X' = (if fg = BLOCK_FREE then insert b X else X - {b})"
  shows "rep (hset b (\<lambda>x. x\<lparr>b_flags := fg\<rparr>) h) bs fl X'"
proof -
  note r = repD [OF assms(1)]
  let ?h = "hset b (\<lambda>x. x\<lparr>b_flags := fg\<rparr>) h"
  obtain xs ys where bs: "bs = xs @ b # ys" using assms(2) by (meson split_list)
  then have d: "b \<notin> set xs" "b \<notin> set ys" using r(6) by auto
  have "tiles (hp_blk ?h) (unat HEAP_VIRT_BASE) (unat (heap_end h)) 0 bs"
    using r(1) d assms(3) unfolding bs tiles_mid
    by (auto simp: blk_ok_def elim!: tiles_keep)
  moreover have "dll (hp_blk ?h) 0 (free_list h) fl"
    using r(3) dll_cong [of fl "hp_blk ?h" "hp_blk h"] by (simp add: links_def)
  moreover have "set fl = {c \<in> set bs. is_free (hp_blk ?h) c} - X'"
    using r(5) assms(2-5) by (auto simp: is_free_def BLOCK_FREE_def BLOCK_USED_def)
  ultimately show ?thesis using r by (simp add: rep_def)
qed

lemma tiles_prev:
  assumes "tiles B a e p ys" "\<And>c. c \<in> set (tl ys) \<Longrightarrow> core (B' c) = core (B c)"
    "ys \<noteq> [] \<Longrightarrow> core (B' (hd ys)) = core ((B (hd ys))\<lparr>b_prev := q\<rparr>)"
  shows "tiles B' a e q ys"
proof (cases ys)
  case (Cons c cs)
  have c: "core (B' c) = core ((B c)\<lparr>b_prev := q\<rparr>)" using assms(3) Cons by simp
  have "blk_ok (B' c) = blk_ok (B c)" using core_blk_ok [OF c] by (simp add: blk_ok_def)
  then show ?thesis
    using assms(1,2) Cons core_sel [OF c] tiles_cong [of cs B' B] by simp
qed (use assms in simp)

text \<open>Two neighbours become one block.\<close>

lemma rep_merge:
  assumes "rep h (xs @ b # n # ys) fl X" "b \<in> X" "n \<in> X" "is_free (hp_blk h) b" "is_free (hp_blk h) n"
  shows "rep (merge_next b n h) (xs @ b # ys) fl (X - {n})" (is "rep ?h' _ _ _")
    and "is_free (hp_blk (merge_next b n h)) c = is_free (hp_blk h) c"
    and "hp_mm (merge_next b n h) = hp_mm h" "heap_end (merge_next b n h) = heap_end h"
    "b_prev (hp_blk (merge_next b n h) b) = b_prev (hp_blk h b)"
    "b_size (hp_blk (merge_next b n h) c) = (if c = b then b_size (hp_blk h b) + b_size (hp_blk h n)
       else b_size (hp_blk h c))"
    "b_magic (hp_blk (merge_next b n h) c) = b_magic (hp_blk h c)"
proof -
  note r = repD [OF assms(1)]
  have d: "b \<notin> set xs" "n \<notin> set xs" "b \<noteq> n" "b \<notin> set ys" "n \<notin> set ys" "distinct ys" using r(6) by auto
  have dxy: "set xs \<inter> set ys = {}" using r(6) by auto
  have t: "tiles (hp_blk h) (unat HEAP_VIRT_BASE) (unat b) 0 xs" "blk_ok (hp_blk h b)"
    "b_prev (hp_blk h b) = lastp 0 xs" "unat n = unat b + unat (b_size (hp_blk h b))" "blk_ok (hp_blk h n)"
    "tiles (hp_blk h) (unat b + unat (b_size (hp_blk h b)) + unat (b_size (hp_blk h n))) (unat (heap_end h)) n ys"
    using r(1) by (auto simp: tiles_mid)
  have sz: "unat (b_size (hp_blk h b) + b_size (hp_blk h n)) = unat (b_size (hp_blk h b)) + unat (b_size (hp_blk h n))"
    using tiles_bounds(1) [OF t(6)] unat_less [of "heap_end h"] by (intro unat_add_lem [THEN iffD1]) simp
  define h1 where "h1 = (let h1 = hset b (\<lambda>x. x\<lparr>b_size := b_size x + b_size (hp_blk h n)\<rparr>) h
     in if heap_last h1 = n then h1\<lparr>heap_last := b\<rparr> else h1)"
  have h1: "hp_blk h1 = (hp_blk h)(b := (hp_blk h b)\<lparr>b_size := b_size (hp_blk h b) + b_size (hp_blk h n)\<rparr>)"
    "heap_end h1 = heap_end h" "hp_mm h1 = hp_mm h" "free_list h1 = free_list h"
    "heap_last h1 = (if heap_last h = n then b else heap_last h)"
    by (simp_all add: h1_def Let_def)
  have c1: "core (hp_blk h1 c) = core (hp_blk h c)" if "c \<noteq> b" for c using that by (simp add: h1)
  have okb: "blk_ok (hp_blk h1 b)" using t(2,5) sz by (simp add: h1 blk_ok_def)
  define a where "a = (if ys = [] then 0 else hd ys)"
  have t1: "tiles (hp_blk h1) (unat HEAP_VIRT_BASE) (unat b) 0 xs"
    using t(1) by (rule tiles_keep) (metis c1 d(1))
  have t2: "tiles (hp_blk h1) (unat b + unat (b_size (hp_blk h1 b))) (unat (heap_end h1)) n ys"
  proof (rule tiles_keep)
    show "tiles (hp_blk h) (unat b + unat (b_size (hp_blk h1 b))) (unat (heap_end h1)) n ys"
      using t(6) sz by (simp add: h1 add.assoc)
    show "\<forall>c \<in> set ys. core (hp_blk h1 c) = core (hp_blk h c)" by (metis c1 d(4))
  qed
  have nx: "block_next_mem b h1 = a" unfolding a_def by (rule block_next_mem_tiles [OF t2])
  have a: "a \<in> set ys \<or> a = 0 \<and> ys = []" "a \<notin> set xs" "a \<noteq> b" "ys \<noteq> [] \<Longrightarrow> a \<noteq> 0"
  proof -
    show "a \<in> set ys \<or> a = 0 \<and> ys = []" by (simp add: a_def)
    then show "a \<notin> set xs" "a \<noteq> b" "ys \<noteq> [] \<Longrightarrow> a \<noteq> 0" using d(4) dxy r(7) by auto
  qed
  have m: "merge_next b n h = (if a \<noteq> 0 then hset a (\<lambda>x. x\<lparr>b_prev := b\<rparr>) h1 else h1)"
  proof -
    have "merge_next b n h = (if block_next_mem b h1 \<noteq> 0
        then hset (block_next_mem b h1) (\<lambda>x. x\<lparr>b_prev := b\<rparr>) h1 else h1)"
      unfolding merge_next_def h1_def Let_def by (rule refl)
    then show ?thesis unfolding nx .
  qed
  have blk: "hp_blk ?h' c = (if c = a \<and> a \<noteq> 0 then (hp_blk h1 c)\<lparr>b_prev := b\<rparr> else hp_blk h1 c)" for c
    by (simp add: m)
  have regs: "heap_end ?h' = heap_end h" "hp_mm ?h' = hp_mm h" "free_list ?h' = free_list h"
    "heap_last ?h' = (if heap_last h = n then b else heap_last h)"
    by (simp_all add: m h1)
  have "tiles (hp_blk ?h') (unat HEAP_VIRT_BASE) (unat (heap_end h)) 0 (xs @ b # ys)"
    unfolding tiles_mid
  proof (intro conjI)
    show "tiles (hp_blk ?h') (unat HEAP_VIRT_BASE) (unat b) 0 xs"
      using t1 by (rule tiles_keep) (use a(2) in \<open>auto simp: blk\<close>)
    show "blk_ok (hp_blk ?h' b)" "b_prev (hp_blk ?h' b) = lastp 0 xs"
      using okb t(3) a(3) by (simp_all add: blk) (simp add: h1)
    have "tiles (hp_blk ?h') (unat b + unat (b_size (hp_blk h1 b))) (unat (heap_end h1)) b ys"
      using a(4) d(6) by (intro tiles_prev [OF t2]) (cases ys; auto simp: blk a_def)+
    then show "tiles (hp_blk ?h') (unat b + unat (b_size (hp_blk ?h' b))) (unat (heap_end h)) b ys"
      using a(3) by (simp add: blk h1(2))
  qed
  moreover have "heap_last ?h' = lastp 0 (xs @ b # ys)"
  proof (cases ys rule: rev_cases)
    case Nil
    then show ?thesis using r(2) regs by (simp add: lastp_def)
  next
    case (snoc ys' c)
    then have "heap_last h = c" "c \<noteq> n" using r(2) d(5) by (auto simp: lastp_def)
    then show ?thesis using regs snoc by (simp add: lastp_def)
  qed
  moreover have "dll (hp_blk ?h') 0 (free_list ?h') fl"
    using r(3) dll_cong [of fl "hp_blk ?h'" "hp_blk h"] by (auto simp: blk h1 links_def regs)
  moreover show free: "is_free (hp_blk ?h') c = is_free (hp_blk h) c" for c
    by (auto simp: is_free_def blk h1)
  moreover have "set fl = {c \<in> set (xs @ b # ys). is_free (hp_blk ?h') c} - (X - {n})"
    using r(5) d assms(2,3) unfolding free by auto
  ultimately show "rep ?h' (xs @ b # ys) fl (X - {n})" using r(4) regs by (simp add: rep_def)
  show "hp_mm ?h' = hp_mm h" "heap_end ?h' = heap_end h" by (fact regs)+
  show "b_prev (hp_blk ?h' b) = b_prev (hp_blk h b)" using a(3) by (simp add: blk) (simp add: h1)
  show "b_size (hp_blk ?h' c) = (if c = b then b_size (hp_blk h b) + b_size (hp_blk h n) else b_size (hp_blk h c))"
    "b_magic (hp_blk ?h' c) = b_magic (hp_blk h c)"
    by (auto simp: blk h1)
qed

text \<open>A block is cut in two; the second part is a new free block.\<close>

definition split_block :: "u64 \<Rightarrow> u64 \<Rightarrow> heap \<Rightarrow> heap" where
  "split_block tot b h =
     (let tail = b + tot;
          h = hset tail (\<lambda>_. \<lparr>b_magic = HEAP_MAGIC, b_flags = BLOCK_FREE,
            b_size = b_size (hp_blk h b) - tot, b_prev = b, b_next_free = 0, b_prev_free = 0\<rparr>) h;
          after = block_next_mem tail h;
          h = (if after \<noteq> 0 then hset after (\<lambda>x. x\<lparr>b_prev := tail\<rparr>) h else h);
          h = (if heap_last h = b then h\<lparr>heap_last := tail\<rparr> else h)
      in hset b (\<lambda>x. x\<lparr>b_size := tot\<rparr>) h)"

lemma kmalloc_take_eq:
  "kmalloc_take tot b h =
     (b + BLOCK_SIZE, hset b (\<lambda>x. x\<lparr>b_flags := BLOCK_USED\<rparr>)
        (if tot + MIN_SPLIT \<le> b_size (hp_blk h b)
         then free_list_add (b + tot) (free_list_remove b (split_block tot b h))
         else free_list_remove b h))"
  by (simp add: kmalloc_take_def split_block_def Let_def)

lemma rep_split:
  assumes "rep h (xs @ b # ys) fl {}" "is_free (hp_blk h) b"
    and sz: "56 \<le> unat tot" "8 dvd unat tot" "unat tot + 56 \<le> unat (b_size (hp_blk h b))"
  defines "t \<equiv> b + tot"
  shows "rep (split_block tot b h) (xs @ b # t # ys) fl {t}" (is "rep ?h' _ _ _")
    and "t \<notin> set (xs @ b # ys)" "unat t = unat b + unat tot"
    and "hp_mm (split_block tot b h) = hp_mm h" "heap_end (split_block tot b h) = heap_end h"
    and "\<And>c. c \<noteq> t \<Longrightarrow> b_flags (hp_blk (split_block tot b h) c) = b_flags (hp_blk h c) \<and>
        (c \<noteq> b \<longrightarrow> b_size (hp_blk (split_block tot b h) c) = b_size (hp_blk h c))"
    "b_size (hp_blk (split_block tot b h) b) = tot" "is_free (hp_blk (split_block tot b h)) t"
proof -
  note r = repD [OF assms(1)]
  have d: "b \<notin> set xs" "b \<notin> set ys" "distinct ys" "set xs \<inter> set ys = {}" using r(6) by auto
  have t: "tiles (hp_blk h) (unat HEAP_VIRT_BASE) (unat b) 0 xs" "blk_ok (hp_blk h b)"
    "b_prev (hp_blk h b) = lastp 0 xs"
    "tiles (hp_blk h) (unat b + unat (b_size (hp_blk h b))) (unat (heap_end h)) b ys"
    using r(1) by (auto simp: tiles_mid)
  have e: "unat b + unat (b_size (hp_blk h b)) \<le> unat (heap_end h)" using tiles_bounds(1) [OF t(4)] .
  show ut: "unat t = unat b + unat tot"
    unfolding t_def using e sz unat_less [of "heap_end h"] by (intro unat_add_lem [THEN iffD1]) simp
  have us: "unat (b_size (hp_blk h b) - tot) = unat (b_size (hp_blk h b)) - unat tot"
    using sz by (intro unat_sub) (simp add: word_le_nat_alt)
  show tn: "t \<notin> set (xs @ b # ys)"
  proof
    assume "t \<in> set (xs @ b # ys)"
    then show False
      using tiles_apart [OF r(1), of b t] ut sz tiles_bounds(2) [OF t(4), of t] tiles_bounds(2) [OF t(1), of t]
      by (auto simp: word_unat_eq_iff)
  qed
  have t0: "t \<noteq> 0" using ut sz r(7) [of b] by (auto simp: word_unat_eq_iff)
  define h1 where "h1 = hset t (\<lambda>_. \<lparr>b_magic = HEAP_MAGIC, b_flags = BLOCK_FREE,
    b_size = b_size (hp_blk h b) - tot, b_prev = b, b_next_free = 0, b_prev_free = 0\<rparr>) h"
  have c1: "hp_blk h1 c = (if c = t then \<lparr>b_magic = HEAP_MAGIC, b_flags = BLOCK_FREE,
    b_size = b_size (hp_blk h b) - tot, b_prev = b, b_next_free = 0, b_prev_free = 0\<rparr> else hp_blk h c)" for c
    by (simp add: h1_def)
  have sum: "unat t + unat (b_size (hp_blk h1 t)) = unat b + unat (b_size (hp_blk h b))"
    using ut us sz by (simp add: h1_def)
  have t2: "tiles (hp_blk h1) (unat t + unat (b_size (hp_blk h1 t))) (unat (heap_end h1)) b ys"
  proof (rule tiles_keep)
    show "tiles (hp_blk h) (unat t + unat (b_size (hp_blk h1 t))) (unat (heap_end h1)) b ys"
      using t(4) sum by (simp add: h1_def)
    show "\<forall>c \<in> set ys. core (hp_blk h1 c) = core (hp_blk h c)" using tn by (auto simp: c1)
  qed
  define a where "a = (if ys = [] then 0 else hd ys)"
  have nx: "block_next_mem t h1 = a" unfolding a_def by (rule block_next_mem_tiles [OF t2])
  have a: "a \<notin> set xs" "a \<noteq> b" "a \<noteq> t" "ys \<noteq> [] \<Longrightarrow> a \<noteq> 0"
  proof -
    have "a \<in> set ys \<or> a = 0" by (simp add: a_def)
    then show "a \<notin> set xs" "a \<noteq> b" "a \<noteq> t" using d tn t0 r(7) by auto
    show "ys \<noteq> [] \<Longrightarrow> a \<noteq> 0" using r(7) [of a] by (simp add: a_def)
  qed
  have m: "?h' = (let h2 = (if a \<noteq> 0 then hset a (\<lambda>x. x\<lparr>b_prev := t\<rparr>) h1 else h1);
      h3 = (if heap_last h2 = b then h2\<lparr>heap_last := t\<rparr> else h2) in hset b (\<lambda>x. x\<lparr>b_size := tot\<rparr>) h3)"
  proof -
    have "?h' = (let h2 = (if block_next_mem t h1 \<noteq> 0 then hset (block_next_mem t h1) (\<lambda>x. x\<lparr>b_prev := t\<rparr>) h1 else h1);
        h3 = (if heap_last h2 = b then h2\<lparr>heap_last := t\<rparr> else h2) in hset b (\<lambda>x. x\<lparr>b_size := tot\<rparr>) h3)"
      unfolding split_block_def h1_def t_def Let_def by (rule refl)
    then show ?thesis unfolding nx .
  qed
  have blk: "hp_blk ?h' c = (if c = b then (hp_blk h b)\<lparr>b_size := tot\<rparr>
      else if c = a \<and> a \<noteq> 0 then (hp_blk h1 c)\<lparr>b_prev := t\<rparr> else hp_blk h1 c)" for c
    using a(2) tn by (auto simp: m Let_def c1)
  have regs: "heap_end ?h' = heap_end h" "hp_mm ?h' = hp_mm h" "free_list ?h' = free_list h"
    "heap_last ?h' = (if heap_last h = b then t else heap_last h)"
    by (simp_all add: m Let_def h1_def)
  have bt: "b \<noteq> t" using tn by auto
  have "tiles (hp_blk ?h') (unat HEAP_VIRT_BASE) (unat (heap_end h)) 0 (xs @ b # t # ys)"
    unfolding tiles_mid
  proof (intro conjI)
    show "tiles (hp_blk ?h') (unat HEAP_VIRT_BASE) (unat b) 0 xs"
      using t(1) by (rule tiles_keep) (use a(1) d(1) tn in \<open>auto simp: blk c1\<close>)
    show "blk_ok (hp_blk ?h' b)" "b_prev (hp_blk ?h' b) = lastp 0 xs"
      using t(2,3) sz by (simp_all add: blk blk_ok_def)
    have ht: "hp_blk ?h' t = hp_blk h1 t" using a(3) bt by (simp add: blk)
    have okt: "blk_ok (hp_blk ?h' t)" "b_prev (hp_blk ?h' t) = b"
      using t(2) sz us dvd_diff_nat [of 8 "unat (b_size (hp_blk h b))" "unat tot"]
      by (auto simp: ht blk_ok_def h1_def)
    have "tiles (hp_blk ?h') (unat t + unat (b_size (hp_blk h1 t))) (unat (heap_end h1)) t ys"
    proof (rule tiles_prev [OF t2])
      fix c assume "c \<in> set (tl ys)"
      then have "c \<in> set ys" "c \<noteq> a" using d(3) by (cases ys; auto simp: a_def)+
      then show "core (hp_blk ?h' c) = core (hp_blk h1 c)" using d(2) by (auto simp: blk)
    next
      assume "ys \<noteq> []"
      then show "core (hp_blk ?h' (hd ys)) = core ((hp_blk h1 (hd ys))\<lparr>b_prev := t\<rparr>)"
        using a(2,4) by (simp add: blk a_def)
    qed
    then show "tiles (hp_blk ?h') (unat b + unat (b_size (hp_blk ?h' b))) (unat (heap_end h)) b (t # ys)"
      using okt ut by (simp add: ht) (simp add: blk h1_def)
  qed
  moreover have "heap_last ?h' = lastp 0 (xs @ b # t # ys)"
  proof (cases ys rule: rev_cases)
    case Nil
    then show ?thesis using r(2) regs by (simp add: lastp_def)
  next
    case (snoc ys' c)
    then have "heap_last h = c" "c \<noteq> b" using r(2) d(2) by (auto simp: lastp_def)
    then show ?thesis using regs snoc by (simp add: lastp_def)
  qed
  moreover have "links (hp_blk ?h' c) = links (hp_blk h c)" if "c \<in> set fl" for c
  proof -
    have "c \<noteq> t" using that r(5) tn by auto
    then show ?thesis using a(2,3) by (auto simp: blk c1 links_def)
  qed
  then have "dll (hp_blk ?h') 0 (free_list ?h') fl"
    using r(3) dll_cong [of fl "hp_blk ?h'" "hp_blk h"] regs by simp
  moreover have free: "is_free (hp_blk ?h') c = (if c = t then True else is_free (hp_blk h) c)" for c
    using bt by (auto simp: is_free_def blk c1)
  then have "set fl = {c \<in> set (xs @ b # t # ys). is_free (hp_blk ?h') c} - {t}"
    using r(5) tn by auto
  ultimately show "rep ?h' (xs @ b # t # ys) fl {t}" using r(4) regs by (simp add: rep_def)
  show "hp_mm ?h' = hp_mm h" "heap_end ?h' = heap_end h" by (fact regs)+
  show "b_flags (hp_blk ?h' c) = b_flags (hp_blk h c) \<and> (c \<noteq> b \<longrightarrow> b_size (hp_blk ?h' c) = b_size (hp_blk h c))"
    if "c \<noteq> t" for c using that a(2,3) by (auto simp: blk c1)
  show "b_size (hp_blk ?h' b) = tot" by (simp add: blk)
  show "is_free (hp_blk ?h') t" by (simp add: free)
qed

subsection \<open>The allocated regions\<close>

text \<open>The allocated regions: the usable size by the address handed out.\<close>

definition live :: "(u64 \<Rightarrow> block) \<Rightarrow> u64 list \<Rightarrow> u64 \<Rightarrow> nat option" where
  "live B bs p = (if p - BLOCK_SIZE \<in> set bs \<and> \<not> is_free B (p - BLOCK_SIZE)
     then Some (unat (b_size (B (p - BLOCK_SIZE))) - 40) else None)"

lemma live_cong:
  assumes "\<And>c. c \<in> set bs \<or> c \<in> set bs' \<Longrightarrow>
      (c \<in> set bs' \<and> \<not> is_free B' c \<longleftrightarrow> c \<in> set bs \<and> \<not> is_free B c) \<and>
      (c \<in> set bs \<longrightarrow> \<not> is_free B c \<longrightarrow> b_size (B' c) = b_size (B c))"
  shows "live B' bs' = live B bs"
proof
  fix p
  show "live B' bs' p = live B bs p" using assms [of "p - BLOCK_SIZE"] by (auto simp: live_def)
qed

lemma live_update:
  assumes "\<And>c. c \<noteq> b \<Longrightarrow> (c \<in> set bs' \<and> \<not> is_free B' c \<longleftrightarrow> c \<in> set bs \<and> \<not> is_free B c) \<and>
      (c \<in> set bs \<longrightarrow> \<not> is_free B c \<longrightarrow> b_size (B' c) = b_size (B c))"
  shows "live B' bs' = (live B bs)(b + BLOCK_SIZE := live B' bs' (b + BLOCK_SIZE))"
proof
  fix p
  have "p - BLOCK_SIZE = b \<longleftrightarrow> p = b + BLOCK_SIZE" by (auto simp: algebra_simps)
  then show "live B' bs' p = ((live B bs)(b + BLOCK_SIZE := live B' bs' (b + BLOCK_SIZE))) p"
    using assms [of "p - BLOCK_SIZE"] by (auto simp: live_def)
qed

lemma core_free: "core (B' c) = core (B c) \<Longrightarrow> is_free B' c = is_free B c \<and> b_size (B' c) = b_size (B c)"
  by (simp add: core_def is_free_def)

lemma take_whole:
  assumes r: "rep h bs fl {}" and b: "b \<in> set fl"
  defines "h' \<equiv> hset b (\<lambda>x. x\<lparr>b_flags := BLOCK_USED\<rparr>) (free_list_remove b h)"
  shows "rep h' bs (remove1 b fl) {}"
    "live (hp_blk h') bs = (live (hp_blk h) bs)(b + BLOCK_SIZE \<mapsto> unat (b_size (hp_blk h b)) - 40)"
    "hp_mm h' = hp_mm h" "heap_end h' = heap_end h"
proof -
  have bb: "b \<in> set bs" using repD(5) [OF r] b by auto
  show "rep h' bs (remove1 b fl) {}"
    unfolding h'_def using repD(4) [OF r]
    by (intro rep_flags [OF rep_remove [OF r b] bb]) (auto simp: BLOCK_USED_def BLOCK_FREE_def)
  have c: "is_free (hp_blk (free_list_remove b h)) c = is_free (hp_blk h) c"
    "b_size (hp_blk (free_list_remove b h) c) = b_size (hp_blk h c)" for c
    using core_free [of "hp_blk (free_list_remove b h)" c "hp_blk h"] by simp_all
  have "live (hp_blk h') bs = (live (hp_blk h) bs)(b + BLOCK_SIZE := live (hp_blk h') bs (b + BLOCK_SIZE))"
    using c by (intro live_update) (auto simp: h'_def is_free_def)
  moreover have "live (hp_blk h') bs (b + BLOCK_SIZE) = Some (unat (b_size (hp_blk h b)) - 40)"
    using bb c by (simp add: live_def h'_def is_free_def BLOCK_USED_def BLOCK_FREE_def)
  ultimately show "live (hp_blk h') bs = (live (hp_blk h) bs)(b + BLOCK_SIZE \<mapsto> unat (b_size (hp_blk h b)) - 40)"
    by simp
  show "hp_mm h' = hp_mm h" "heap_end h' = heap_end h" by (simp_all add: h'_def)
qed

lemma kmalloc_take_ok:
  assumes r: "rep h bs fl {}" and b: "b \<in> set fl"
    and sz: "56 \<le> unat tot" "8 dvd unat tot" "unat tot \<le> unat (b_size (hp_blk h b))" "unat tot + 56 < 2 ^ 64"
  obtains h' bs' fl' n where "kmalloc_take tot b h = (b + BLOCK_SIZE, h')" "rep h' bs' fl' {}"
    "live (hp_blk h') bs' = (live (hp_blk h) bs)(b + BLOCK_SIZE \<mapsto> n)" "unat tot - 40 \<le> n"
    "live (hp_blk h) bs (b + BLOCK_SIZE) = None" "hp_mm h' = hp_mm h" "heap_end h' = heap_end h"
proof -
  have bb: "b \<in> set bs" "is_free (hp_blk h) b" using repD(5) [OF r] b by auto
  then have none: "live (hp_blk h) bs (b + BLOCK_SIZE) = None" by (simp add: live_def)
  have ms: "unat (tot + MIN_SPLIT) = unat tot + 56"
    using sz(4) by (subst unat_add_lem [THEN iffD1]) (simp_all add: MIN_SPLIT_def BLOCK_SIZE_def)
  show ?thesis
  proof (cases "tot + MIN_SPLIT \<le> b_size (hp_blk h b)")
    case False
    note w = take_whole [OF r b]
    show ?thesis
      by (rule that [OF _ w(1,2) _ none w(3,4)]) (use False sz(3) in \<open>simp_all add: kmalloc_take_eq\<close>)
  next
    case True
    obtain xs ys where bs: "bs = xs @ b # ys" using bb(1) by (meson split_list)
    have big: "unat tot + 56 \<le> unat (b_size (hp_blk h b))" using True ms by (simp add: word_le_nat_alt)
    let ?t = "b + tot" and ?h1 = "split_block tot b h"
    note sp = rep_split [OF r [unfolded bs] bb(2) sz(1,2) big]
    have bf: "is_free (hp_blk ?h1) b" using sp(6) [of b] bb(2) sp(2) by (auto simp: is_free_def)
    define h2 where "h2 = free_list_add ?t (free_list_remove b ?h1)"
    have c2: "core (hp_blk h2 c) = core (hp_blk ?h1 c)" for c by (simp add: h2_def)
    have r2: "rep h2 (xs @ b # ?t # ys) (?t # remove1 b fl) {b}"
    proof -
      have r1: "rep (free_list_remove b ?h1) (xs @ b # ?t # ys) (remove1 b fl) {b, ?t}"
        using rep_remove [OF sp(1) b] .
      have "is_free (hp_blk (free_list_remove b ?h1)) ?t"
        using sp(8) core_free [of "hp_blk (free_list_remove b ?h1)" ?t "hp_blk ?h1"] by simp
      then have "rep h2 (xs @ b # ?t # ys) (?t # remove1 b fl) ({b, ?t} - {?t})"
        unfolding h2_def by (intro rep_add [OF r1]) simp_all
      moreover have "{b, ?t} - {?t} = {b}" using sp(2) by auto
      ultimately show ?thesis by simp
    qed
    define h3 where "h3 = hset b (\<lambda>x. x\<lparr>b_flags := BLOCK_USED\<rparr>) h2"
    have bn: "b \<notin> set (?t # remove1 b fl)" using repD(4,5) [OF r2] by auto
    have r3: "rep h3 (xs @ b # ?t # ys) (?t # remove1 b fl) {}"
      unfolding h3_def using bn
      by (intro rep_flags [OF r2]) (auto simp: BLOCK_USED_def BLOCK_FREE_def)
    have B3: "is_free (hp_blk h3) c = (c \<noteq> b \<and> is_free (hp_blk ?h1) c)"
      "b_size (hp_blk h3 c) = b_size (hp_blk ?h1 c)" for c
      using core_free [of "hp_blk h2" c "hp_blk ?h1"] c2 [of c] by (auto simp: h3_def is_free_def BLOCK_USED_def BLOCK_FREE_def)
    have "live (hp_blk h3) (xs @ b # ?t # ys) =
        (live (hp_blk h) bs)(b + BLOCK_SIZE := live (hp_blk h3) (xs @ b # ?t # ys) (b + BLOCK_SIZE))"
    proof (rule live_update)
      fix c assume "c \<noteq> b"
      then show "(c \<in> set (xs @ b # ?t # ys) \<and> \<not> is_free (hp_blk h3) c \<longleftrightarrow>
          c \<in> set bs \<and> \<not> is_free (hp_blk h) c) \<and>
          (c \<in> set bs \<longrightarrow> \<not> is_free (hp_blk h) c \<longrightarrow> b_size (hp_blk h3 c) = b_size (hp_blk h c))"
        using sp(2,6,8) B3 unfolding bs by (cases "c = ?t") (auto simp: is_free_def)
    qed
    moreover have "live (hp_blk h3) (xs @ b # ?t # ys) (b + BLOCK_SIZE) = Some (unat tot - 40)"
      using B3 sp(7) by (simp add: live_def)
    ultimately have lv: "live (hp_blk h3) (xs @ b # ?t # ys) = (live (hp_blk h) bs)(b + BLOCK_SIZE \<mapsto> unat tot - 40)"
      by simp
    show ?thesis
      by (rule that [OF _ r3 lv _ none])
        (use True sp(4,5) in \<open>simp_all add: kmalloc_take_eq h3_def h2_def\<close>)
  qed
qed

lemma live_same_core:
  "(\<And>c. core (B' c) = core (B c)) \<Longrightarrow> live B' bs = live B bs"
  by (intro live_cong) (auto simp: core_def is_free_def)

text \<open>Joining a free block \<open>b\<close> with its free right neighbour keeps the allocated regions.\<close>

lemma join_ok:
  assumes r: "rep h (xs @ b # n # ys) fl {x}" and x: "x \<in> {b, n}" "y \<in> {b, n}" "x \<noteq> y"
    and f: "is_free (hp_blk h) b" "is_free (hp_blk h) n"
  defines "h' \<equiv> merge_next b n (free_list_remove y h)"
  shows "\<exists>fl'. rep h' (xs @ b # ys) fl' {b}" "live (hp_blk h') (xs @ b # ys) = live (hp_blk h) (xs @ b # n # ys)"
    "is_free (hp_blk h') c = is_free (hp_blk h) c" "hp_mm h' = hp_mm h" "heap_end h' = heap_end h"
    "b_prev (hp_blk h' b) = b_prev (hp_blk h b)" "b_magic (hp_blk h' c) = b_magic (hp_blk h c)"
proof -
  let ?h1 = "free_list_remove y h"
  have y: "y \<in> set fl" using repD(5) [OF r] x f by auto
  have r1: "rep ?h1 (xs @ b # n # ys) (remove1 y fl) {b, n}"
    using rep_remove [OF r y] x by (auto simp: insert_commute)
  have c1: "core (hp_blk ?h1 c) = core (hp_blk h c)" for c by simp
  have f1: "is_free (hp_blk ?h1) c = is_free (hp_blk h) c" for c
    using core_free [of "hp_blk ?h1" c "hp_blk h"] c1 by blast
  note m = rep_merge [OF r1, folded h'_def]
  have bn: "b \<in> {b, n}" "n \<in> {b, n}" "is_free (hp_blk ?h1) b" "is_free (hp_blk ?h1) n" using f f1 by auto
  note m = m [OF bn]
  have d: "b \<noteq> n" using repD(6) [OF r] by auto
  show ff: "is_free (hp_blk h') c = is_free (hp_blk h) c" for c using m(2) f1 by simp
  have "{b, n} - {n} = {b}" using d by auto
  then show "\<exists>fl'. rep h' (xs @ b # ys) fl' {b}" using m(1) by auto
  have "live (hp_blk h') (xs @ b # ys) = live (hp_blk ?h1) (xs @ b # n # ys)"
    using m(2,6) bn(3,4) by (intro live_cong) auto
  also have "\<dots> = live (hp_blk h) (xs @ b # n # ys)" by (rule live_same_core) (rule c1)
  finally show "live (hp_blk h') (xs @ b # ys) = live (hp_blk h) (xs @ b # n # ys)" .
  show "hp_mm h' = hp_mm h" "heap_end h' = heap_end h" using m(3,4) by simp_all
  show "b_prev (hp_blk h' b) = b_prev (hp_blk h b)" using m(5) core_sel [OF c1 [of b]] by simp
  show "b_magic (hp_blk h' c) = b_magic (hp_blk h c)" using m(7) core_sel [OF c1 [of c]] by simp
qed

lemma rep_magic: "rep h bs fl X \<Longrightarrow> c \<in> set bs \<Longrightarrow> b_magic (hp_blk h c) = HEAP_MAGIC"
  using repD(1) tiles_bounds(2) by (fastforce simp: blk_ok_def)

lemma kfree_join_next:
  assumes r: "rep h (xs @ b # ys) fl {b}" and f: "is_free (hp_blk h) b"
  defines "n \<equiv> block_next_mem b h"
  defines "h' \<equiv> (if n \<noteq> 0 \<and> b_magic (hp_blk h n) = HEAP_MAGIC \<and> b_flags (hp_blk h n) = BLOCK_FREE
    then merge_next b n (free_list_remove n h) else h)"
  obtains ys' fl' where "rep h' (xs @ b # ys') fl' {b}" "is_free (hp_blk h') b"
    "live (hp_blk h') (xs @ b # ys') = live (hp_blk h) (xs @ b # ys)" "hp_mm h' = hp_mm h"
    "heap_end h' = heap_end h"
proof -
  have "tiles (hp_blk h) (unat b + unat (b_size (hp_blk h b))) (unat (heap_end h)) b ys"
    using repD(1) [OF r] by (simp add: tiles_mid)
  then have n: "n = (if ys = [] then 0 else hd ys)" unfolding n_def by (rule block_next_mem_tiles)
  show ?thesis
  proof (cases "ys \<noteq> [] \<and> is_free (hp_blk h) (hd ys)")
    case True
    then obtain zs where ys: "ys = n # zs" using n by (cases ys) auto
    have nf: "is_free (hp_blk h) n" using True ys by simp
    have nz: "n \<noteq> 0" "b_magic (hp_blk h n) = HEAP_MAGIC" "n \<noteq> b"
      using repD(6,7) [OF r] rep_magic [OF r, of n] ys by auto
    have h': "h' = merge_next b n (free_list_remove n h)" using nz nf by (simp add: h'_def is_free_def)
    note j = join_ok [OF r [unfolded ys], of n, folded h', OF _ _ _ f nf]
    from j(1) nz(3) obtain fl' where "rep h' (xs @ b # zs) fl' {b}" by auto
    then show ?thesis using that j(2-5) nz(3) f ys by auto
  next
    case False
    then have "h' = h" using n by (auto simp: h'_def is_free_def)
    then show ?thesis using that r f by simp
  qed
qed

lemma kfree_locked_ok:
  assumes r: "rep h bs fl {}" and b: "b \<in> set bs" "\<not> is_free (hp_blk h) b"
  obtains h' bs' fl' where "kfree_locked (b + BLOCK_SIZE) h = Some h'" "rep h' bs' fl' {}"
    "live (hp_blk h') bs' = (live (hp_blk h) bs)(b + BLOCK_SIZE := None)"
    "hp_mm h' = hp_mm h" "heap_end h' = heap_end h"
proof -
  obtain xs ys where bs: "bs = xs @ b # ys" using b(1) by (meson split_list)
  have used: "b_magic (hp_blk h b) = HEAP_MAGIC" "b_flags (hp_blk h b) = BLOCK_USED"
    using tiles_bounds(2) [OF repD(1) [OF r] b(1)] b(2) by (auto simp: blk_ok_def is_free_def)
  define h1 where "h1 = hset b (\<lambda>x. x\<lparr>b_flags := BLOCK_FREE\<rparr>) h"
  have "b \<notin> set fl" using repD(5) [OF r] b(2) by auto
  then have r1: "rep h1 (xs @ b # ys) fl {b}"
    using rep_flags [OF r b(1), of BLOCK_FREE "{b}"] by (simp add: h1_def bs)
  have f1: "is_free (hp_blk h1) b" by (simp add: h1_def is_free_def)
  have l1: "live (hp_blk h1) (xs @ b # ys) = (live (hp_blk h) bs)(b + BLOCK_SIZE := None)"
  proof -
    have "live (hp_blk h1) bs = (live (hp_blk h) bs)(b + BLOCK_SIZE := live (hp_blk h1) bs (b + BLOCK_SIZE))"
      by (rule live_update) (auto simp: h1_def is_free_def)
    then show ?thesis using f1 by (simp add: live_def bs)
  qed
  define n where "n = block_next_mem b h1"
  define h2 where "h2 = (if n \<noteq> 0 \<and> b_magic (hp_blk h1 n) = HEAP_MAGIC \<and> b_flags (hp_blk h1 n) = BLOCK_FREE
    then merge_next b n (free_list_remove n h1) else h1)"
  obtain ys2 fl2 where r2: "rep h2 (xs @ b # ys2) fl2 {b}" and f2: "is_free (hp_blk h2) b"
    and l2: "live (hp_blk h2) (xs @ b # ys2) = live (hp_blk h1) (xs @ b # ys)"
    and s2: "hp_mm h2 = hp_mm h1" "heap_end h2 = heap_end h1"
    using kfree_join_next [OF r1 f1, folded n_def, folded h2_def] by blast
  have p: "b_prev (hp_blk h2 b) = lastp 0 xs" using repD(1) [OF r2] by (simp add: tiles_mid)
  let ?p = "lastp 0 xs"
  have K: "kfree_locked (b + BLOCK_SIZE) h =
      (if ?p \<noteq> 0 \<and> b_magic (hp_blk h2 ?p) = HEAP_MAGIC \<and> b_flags (hp_blk h2 ?p) = BLOCK_FREE
       then Some (free_list_add ?p (merge_next ?p b (free_list_remove ?p h2))) else Some (free_list_add b h2))"
  proof -
    have "kfree_locked (b + BLOCK_SIZE) h =
      (if b_prev (hp_blk h2 b) \<noteq> 0 \<and> b_magic (hp_blk h2 (b_prev (hp_blk h2 b))) = HEAP_MAGIC \<and>
         b_flags (hp_blk h2 (b_prev (hp_blk h2 b))) = BLOCK_FREE
       then Some (free_list_add (b_prev (hp_blk h2 b))
         (merge_next (b_prev (hp_blk h2 b)) b (free_list_remove (b_prev (hp_blk h2 b)) h2)))
       else Some (free_list_add b h2))"
      unfolding kfree_locked_def h2_def n_def h1_def Let_def using used
      by (simp only: add_diff_cancel_right' simp_thms if_False)
    then show ?thesis unfolding p .
  qed
  have s1: "hp_mm h1 = hp_mm h" "heap_end h1 = heap_end h" by (simp_all add: h1_def)
  show ?thesis
  proof (cases "xs \<noteq> [] \<and> is_free (hp_blk h2) (last xs)")
    case True
    then obtain ws p where xs: "xs = ws @ [p]" by (cases xs rule: rev_cases) auto
    have pf: "is_free (hp_blk h2) p" using True xs by simp
    have r2': "rep h2 (ws @ p # b # ys2) fl2 {b}" using r2 xs by simp
    have pz: "p \<noteq> 0" "b_magic (hp_blk h2 p) = HEAP_MAGIC" "p \<noteq> b"
      using repD(6,7) [OF r2'] rep_magic [OF r2', of p] by auto
    define h3 where "h3 = merge_next p b (free_list_remove p h2)"
    note j = join_ok [OF r2', of p, folded h3_def, OF _ _ _ pf f2]
    from j(1) pz(3) obtain fl3 where r3: "rep h3 (ws @ p # ys2) fl3 {p}" by auto
    have f3: "is_free (hp_blk h3) p" using j(3) pz(3) pf by auto
    have "rep (free_list_add p h3) (ws @ p # ys2) (p # fl3) ({p} - {p})"
      by (intro rep_add [OF r3]) (use f3 in simp_all)
    moreover have "live (hp_blk (free_list_add p h3)) (ws @ p # ys2) = live (hp_blk h3) (ws @ p # ys2)"
      by (rule live_same_core) simp
    moreover have "live (hp_blk h3) (ws @ p # ys2) = live (hp_blk h2) (xs @ b # ys2)"
      using j(2) pz(3) xs by auto
    moreover have "kfree_locked (b + BLOCK_SIZE) h = Some (free_list_add p h3)"
      using K pz pf xs by (simp add: h3_def is_free_def)
    ultimately show ?thesis
      using that l1 l2 s1 s2 j(4,5) pz(3) by auto
  next
    case False
    then have "kfree_locked (b + BLOCK_SIZE) h = Some (free_list_add b h2)"
      using K by (auto simp: lastp_def is_free_def)
    moreover have "rep (free_list_add b h2) (xs @ b # ys2) (b # fl2) ({b} - {b})"
      by (intro rep_add [OF r2]) (use f2 in simp_all)
    moreover have "live (hp_blk (free_list_add b h2)) (xs @ b # ys2) = live (hp_blk h2) (xs @ b # ys2)"
      by (rule live_same_core) simp
    ultimately show ?thesis using that l1 l2 s1 s2 by simp
  qed
qed

subsection \<open>Growing the heap\<close>

lemma free_list_remove_end:
  "free_list_remove b (h\<lparr>heap_end := e\<rparr>) = (free_list_remove b h)\<lparr>heap_end := e\<rparr>"
  by (simp add: free_list_remove_def hset_def Let_def)

lemma rep_extend:
  assumes r: "rep h (xs @ [b]) fl {b}" and e: "unat (heap_end h) + 4096 < 2 ^ 64"
  defines "h' \<equiv> hset b (\<lambda>x. x\<lparr>b_size := b_size x + OS_PAGE_SIZE\<rparr>) (h\<lparr>heap_end := heap_end h + OS_PAGE_SIZE\<rparr>)"
  shows "rep h' (xs @ [b]) fl {b}" "is_free (hp_blk h') c = is_free (hp_blk h) c"
    "unat (b_size (hp_blk h' b)) = unat (b_size (hp_blk h b)) + 4096"
    "c \<noteq> b \<Longrightarrow> b_size (hp_blk h' c) = b_size (hp_blk h c)"
proof -
  note t = repD [OF r]
  have d: "b \<notin> set xs" using t(6) by simp
  have tb: "tiles (hp_blk h) (unat HEAP_VIRT_BASE) (unat b) 0 xs" "blk_ok (hp_blk h b)"
    "b_prev (hp_blk h b) = lastp 0 xs" "unat b + unat (b_size (hp_blk h b)) = unat (heap_end h)"
    using t(1) by (simp_all add: tiles_mid)
  have e': "unat (heap_end h + OS_PAGE_SIZE) = unat (heap_end h) + 4096"
    using e by (subst unat_add_lem [THEN iffD1]) (simp_all add: OS_PAGE_SIZE_def)
  have s': "unat (b_size (hp_blk h b) + OS_PAGE_SIZE) = unat (b_size (hp_blk h b)) + 4096"
    using e tb(4) by (subst unat_add_lem [THEN iffD1]) (simp_all add: OS_PAGE_SIZE_def)
  have blk: "hp_blk h' = (hp_blk h)(b := (hp_blk h b)\<lparr>b_size := b_size (hp_blk h b) + OS_PAGE_SIZE\<rparr>)"
    by (simp add: h'_def)
  show free: "is_free (hp_blk h') c = is_free (hp_blk h) c" for c by (simp add: is_free_def blk)
  show "unat (b_size (hp_blk h' b)) = unat (b_size (hp_blk h b)) + 4096" using s' by (simp add: blk)
  show "c \<noteq> b \<Longrightarrow> b_size (hp_blk h' c) = b_size (hp_blk h c)" by (simp add: blk)
  have "tiles (hp_blk h') (unat HEAP_VIRT_BASE) (unat b) 0 xs"
    using tb(1) by (rule tiles_keep) (use d in \<open>auto simp: blk\<close>)
  moreover have "blk_ok (hp_blk h' b)" using tb(2) s' by (auto simp: blk blk_ok_def)
  ultimately have "tiles (hp_blk h') (unat HEAP_VIRT_BASE) (unat (heap_end h')) 0 (xs @ [b])"
    using tb(3,4) e' s' by (simp add: tiles_mid) (simp add: blk h'_def)
  moreover have "dll (hp_blk h') 0 (free_list h') fl"
    using t(3) dll_cong [of fl "hp_blk h'" "hp_blk h"] by (auto simp: h'_def links_def)
  ultimately show "rep h' (xs @ [b]) fl {b}"
    using t(2,4,5) free by (auto simp: rep_def h'_def)
qed

lemma rep_append:
  assumes r: "rep h bs fl {}" and e: "unat (heap_end h) + 4096 < 2 ^ 64"
  defines "b \<equiv> heap_end h"
  defines "h' \<equiv> (hset b (\<lambda>_. \<lparr>b_magic = HEAP_MAGIC, b_flags = BLOCK_FREE, b_size = OS_PAGE_SIZE,
    b_prev = heap_last h, b_next_free = 0, b_prev_free = 0\<rparr>) (h\<lparr>heap_end := heap_end h + OS_PAGE_SIZE\<rparr>))\<lparr>heap_last := b\<rparr>"
  shows "rep h' (bs @ [b]) fl {b}" "is_free (hp_blk h') b" "b \<notin> set bs"
    "c \<noteq> b \<Longrightarrow> hp_blk h' c = hp_blk h c" "b_size (hp_blk h' b) = OS_PAGE_SIZE"
proof -
  note t = repD [OF r]
  show bn: "b \<notin> set bs"
    using tiles_bounds(2) [OF t(1), of b] by (auto simp: b_def blk_ok_def)
  have e': "unat (heap_end h + OS_PAGE_SIZE) = unat (heap_end h) + 4096"
    using e by (subst unat_add_lem [THEN iffD1]) (simp_all add: OS_PAGE_SIZE_def)
  have blk: "hp_blk h' = (hp_blk h)(b := \<lparr>b_magic = HEAP_MAGIC, b_flags = BLOCK_FREE, b_size = OS_PAGE_SIZE,
    b_prev = heap_last h, b_next_free = 0, b_prev_free = 0\<rparr>)" by (simp add: h'_def)
  show "is_free (hp_blk h') b" "b_size (hp_blk h' b) = OS_PAGE_SIZE" by (simp_all add: blk is_free_def)
  show "c \<noteq> b \<Longrightarrow> hp_blk h' c = hp_blk h c" by (simp add: blk)
  have "tiles (hp_blk h') (unat HEAP_VIRT_BASE) (unat b) 0 bs"
    using t(1) unfolding b_def [symmetric] by (rule tiles_keep) (use bn in \<open>auto simp: blk\<close>)
  moreover have "blk_ok (hp_blk h' b)"
    by (simp add: blk blk_ok_def OS_PAGE_SIZE_def)
  ultimately have "tiles (hp_blk h') (unat HEAP_VIRT_BASE) (unat (heap_end h')) 0 (bs @ [b])"
    using t(2) e' by (simp add: tiles_mid) (simp add: blk h'_def b_def OS_PAGE_SIZE_def)
  moreover have "dll (hp_blk h') 0 (free_list h') fl"
  proof -
    have "links (hp_blk h' y) = links (hp_blk h y)" if "y \<in> set fl" for y
      using that t(5) bn by (auto simp: blk links_def)
    then show ?thesis using t(3) dll_cong [of fl "hp_blk h'" "hp_blk h"] by (simp add: h'_def)
  qed
  moreover have "set fl = {c \<in> set (bs @ [b]). is_free (hp_blk h') c} - {b}"
    using t(5) bn by (auto simp: blk is_free_def)
  ultimately show "rep h' (bs @ [b]) fl {b}" using t(4) by (simp add: rep_def h'_def)
qed

text \<open>The part of \<open>expand\<close> after the new page has been mapped.\<close>

definition grow_heap :: "heap \<Rightarrow> heap" where
  "grow_heap h =
     (let b = heap_end h;
          h = h\<lparr>heap_end := heap_end h + OS_PAGE_SIZE\<rparr>
      in if heap_last h \<noteq> 0 \<and> b_flags (hp_blk h (heap_last h)) = BLOCK_FREE then
           (let h = free_list_remove (heap_last h) h;
                h = hset (heap_last h) (\<lambda>x. x\<lparr>b_size := b_size x + OS_PAGE_SIZE\<rparr>) h
            in free_list_add (heap_last h) h)
         else
           (let h = hset b (\<lambda>_. \<lparr>b_magic = HEAP_MAGIC, b_flags = BLOCK_FREE, b_size = OS_PAGE_SIZE,
              b_prev = heap_last h, b_next_free = 0, b_prev_free = 0\<rparr>) h;
                h = h\<lparr>heap_last := b\<rparr>
            in free_list_add b h))"

text \<open>The size of the free block at the end of the heap.\<close>

definition tail_free :: "heap \<Rightarrow> nat" where
  "tail_free h = (if heap_last h \<noteq> 0 \<and> is_free (hp_blk h) (heap_last h)
     then unat (b_size (hp_blk h (heap_last h))) else 0)"

lemma grow_heap_ok:
  assumes r: "rep h bs fl {}" and e: "unat (heap_end h) + 4096 < 2 ^ 64"
  obtains bs' fl' where "rep (grow_heap h) bs' fl' {}" "live (hp_blk (grow_heap h)) bs' = live (hp_blk h) bs"
    "tail_free (grow_heap h) = tail_free h + 4096" "hp_mm (grow_heap h) = hp_mm h"
    "heap_end (grow_heap h) = heap_end h + OS_PAGE_SIZE"
proof -
  note t = repD [OF r]
  show ?thesis
  proof (cases "bs \<noteq> [] \<and> is_free (hp_blk h) (last bs)")
    case True
    then obtain xs b where bs: "bs = xs @ [b]" by (cases bs rule: rev_cases) auto
    have l: "heap_last h = b" "b \<noteq> 0" "is_free (hp_blk h) b" using t(2,7) True bs by auto
    have bf: "b \<in> set fl" using t(5) bs l by simp
    define h1 where "h1 = free_list_remove b h"
    have r1: "rep h1 (xs @ [b]) (remove1 b fl) {b}" using rep_remove [OF r bf] bs by (simp add: h1_def)
    have c1: "core (hp_blk h1 c) = core (hp_blk h c)" for c by (simp add: h1_def)
    have e1: "unat (heap_end h1) + 4096 < 2 ^ 64" using e by (simp add: h1_def)
    note x = rep_extend [OF r1 e1]
    define h2 where "h2 = hset b (\<lambda>x. x\<lparr>b_size := b_size x + OS_PAGE_SIZE\<rparr>) (h1\<lparr>heap_end := heap_end h1 + OS_PAGE_SIZE\<rparr>)"
    have f2: "is_free (hp_blk h2) b" using x(2) [of b] core_free [of "hp_blk h1" b "hp_blk h"] c1 l(3) by (simp add: h2_def)
    have r2: "rep (free_list_add b h2) (xs @ [b]) (b # remove1 b fl) ({b} - {b})"
      using rep_add [OF x(1), of b] f2 by (simp add: h2_def)
    have g: "grow_heap h = free_list_add b h2"
      using l by (simp add: grow_heap_def Let_def is_free_def free_list_remove_end h2_def h1_def)
    have "live (hp_blk (free_list_add b h2)) bs = live (hp_blk h2) bs"
      by (rule live_same_core) simp
    also have "\<dots> = live (hp_blk h1) bs"
      using x(2,4) f2 by (intro live_cong) (auto simp: h2_def)
    also have "\<dots> = live (hp_blk h) bs" by (rule live_same_core) (rule c1)
    finally have lv: "live (hp_blk (grow_heap h)) bs = live (hp_blk h) bs" by (simp add: g)
    have "tail_free (grow_heap h) = tail_free h + 4096"
    proof -
      have "heap_last (grow_heap h) = b" using l(1) by (simp add: g h2_def h1_def)
      moreover have "is_free (hp_blk (grow_heap h)) b" "b_size (hp_blk (grow_heap h) b) = b_size (hp_blk h2 b)"
        using f2 core_free [of "hp_blk (grow_heap h)" b "hp_blk h2"] by (simp_all add: g)
      moreover have "unat (b_size (hp_blk h2 b)) = unat (b_size (hp_blk h b)) + 4096"
        using x(3) core_free [of "hp_blk h1" b "hp_blk h"] c1 by (simp add: h2_def)
      ultimately show ?thesis using l by (simp add: tail_free_def)
    qed
    then show ?thesis using that [of bs] r2 lv bs by (simp add: g h2_def h1_def)
  next
    case False
    let ?b = "heap_end h"
    note x = rep_append [OF r e]
    define h1 where "h1 = (hset ?b (\<lambda>_. \<lparr>b_magic = HEAP_MAGIC, b_flags = BLOCK_FREE, b_size = OS_PAGE_SIZE,
      b_prev = heap_last h, b_next_free = 0, b_prev_free = 0\<rparr>) (h\<lparr>heap_end := heap_end h + OS_PAGE_SIZE\<rparr>))\<lparr>heap_last := ?b\<rparr>"
    note x = x [folded h1_def]
    have nf: "\<not> (heap_last h \<noteq> 0 \<and> b_flags (hp_blk h (heap_last h)) = BLOCK_FREE)"
      using False t(2) by (auto simp: lastp_def is_free_def)
    then have g: "grow_heap h = free_list_add ?b h1"
      by (auto simp: grow_heap_def Let_def h1_def)
    have r1: "rep (free_list_add ?b h1) (bs @ [?b]) (?b # fl) ({?b} - {?b})"
      using rep_add [OF x(1), of ?b] x(2) by simp
    have "live (hp_blk (free_list_add ?b h1)) (bs @ [?b]) = live (hp_blk h1) (bs @ [?b])"
      by (rule live_same_core) simp
    also have "\<dots> = live (hp_blk h) bs"
    proof (rule live_cong)
      fix c assume "c \<in> set bs \<or> c \<in> set (bs @ [?b])"
      then show "(c \<in> set (bs @ [?b]) \<and> \<not> is_free (hp_blk h1) c \<longleftrightarrow> c \<in> set bs \<and> \<not> is_free (hp_blk h) c) \<and>
        (c \<in> set bs \<longrightarrow> \<not> is_free (hp_blk h) c \<longrightarrow> b_size (hp_blk h1 c) = b_size (hp_blk h c))"
        using x(2,3) x(4) [of c] by (cases "c = ?b") (auto simp: is_free_def)
    qed
    finally have lv: "live (hp_blk (grow_heap h)) (bs @ [?b]) = live (hp_blk h) bs" by (simp add: g)
    have "tail_free (grow_heap h) = tail_free h + 4096"
    proof -
      have z: "?b \<noteq> 0" using repD(7) [OF x(1), of ?b] by simp
      have "heap_last (grow_heap h) = ?b" by (simp add: g h1_def)
      moreover have "is_free (hp_blk (grow_heap h)) ?b" "b_size (hp_blk (grow_heap h) ?b) = OS_PAGE_SIZE"
        using x(2,5) core_free [of "hp_blk (grow_heap h)" ?b "hp_blk h1"]
        by (simp_all add: g)
      ultimately show ?thesis using nf z by (auto simp: tail_free_def is_free_def OS_PAGE_SIZE_def)
    qed
    then show ?thesis using that [of "bs @ [?b]"] r1 lv by (simp add: g h1_def)
  qed
qed

subsection \<open>The pages behind the heap\<close>

lemma bit_idx: "bit (idx k va) n \<longleftrightarrow> n < 9 \<and> bit va (12 + 9 * k + n)"
proof -
  have *: "INDEX_MASK = mask 9" by (simp add: INDEX_MASK_def mask_eq_exp_minus_1)
  show ?thesis unfolding idx_def *
    by (auto simp: bit_and_iff bit_drop_bit_eq bit_mask_iff dest: bit_imp_le_length)
qed

lemma idxs_bit:
  assumes "idxs a = idxs b" "12 \<le> n" "n < 48"
  shows "bit a n = bit b n"
proof -
  define k where "k = (n - 12) div 9"
  define j where "j = (n - 12) mod 9"
  have n: "n = 12 + 9 * k + j" "j < 9" "k < 4"
    using assms(2,3) mult_div_mod_eq [of 9 "n - 12"] by (auto simp: k_def j_def)
  then have "k = 0 \<or> k = 1 \<or> k = 2 \<or> k = 3" by linarith
  then have "idx k a = idx k b" using assms(1) by (auto simp: idxs_def)
  then show ?thesis using bit_idx [of k a j] bit_idx [of k b j] n by simp
qed

lemma idxs_inj:
  assumes "idxs a = idxs b" "drop_bit 48 a = drop_bit 48 b" "take_bit 12 a = take_bit 12 b"
  shows "a = b"
proof (rule bit_word_eqI)
  fix n assume n: "n < LENGTH(64)"
  consider "n < 12" | "12 \<le> n" "n < 48" | "48 \<le> n" by linarith
  then show "bit a n = bit b n"
  proof cases
    case 1
    then show ?thesis using assms(3) bit_take_bit_iff [of 12 a n] bit_take_bit_iff [of 12 b n] by simp
  next
    case 2
    then show ?thesis using assms(1) idxs_bit by blast
  next
    case 3
    have "bit (drop_bit 48 a) (n - 48) = bit (drop_bit 48 b) (n - 48)" unfolding assms(2) ..
    then show ?thesis using 3 by (simp add: bit_drop_bit_eq)
  qed
qed

definition heap_page :: "nat \<Rightarrow> u64" where
  "heap_page k = HEAP_VIRT_BASE + of_nat (4096 * k)"

lemma unat_heap_page:
  assumes "k \<le> 2 ^ 24"
  shows "unat (heap_page k) = unat HEAP_VIRT_BASE + 4096 * k"
  unfolding heap_page_def using assms by (intro unat_add_of_nat) (simp add: HEAP_VIRT_BASE_def)

lemma heap_page_idxs:
  assumes "j \<le> 2 ^ 24" "k \<le> 2 ^ 24" "idxs (heap_page j) = idxs (heap_page k)"
  shows "j = k"
proof -
  have d: "drop_bit 48 (heap_page i) = 0xffff" "take_bit 12 (heap_page i) = 0" if "i \<le> 2 ^ 24" for i
  proof -
    have u: "unat (heap_page i) = 0xffff900000000000 + 4096 * i"
      using unat_heap_page [OF that] by (simp add: HEAP_VIRT_BASE_def)
    have "(0xffff900000000000 + 4096 * i) div 281474976710656 = 0xffff"
      using that by (intro div_nat_eqI) simp_all
    then have "unat (drop_bit 48 (heap_page i)) = 0xffff"
      by (simp add: drop_bit_eq_div unat_div u)
    then show "drop_bit 48 (heap_page i) = 0xffff" by (simp add: word_unat_eq_iff)
    have "0xffff900000000000 + 4096 * i = 4096 * (0xffff900000000 + i)" by simp
    then have "(0xffff900000000000 + 4096 * i) mod 4096 = 0" by (metis mod_mult_self1_is_0)
    then have "unat (take_bit 12 (heap_page i)) = 0"
      by (simp add: take_bit_eq_mod unat_mod u)
    then show "take_bit 12 (heap_page i) = 0" by (simp add: word_unat_eq_iff)
  qed
  have "heap_page j = heap_page k" using idxs_inj [OF assms(3)] d assms by simp
  then show ?thesis using unat_heap_page assms by (metis add_left_cancel mult_cancel1 zero_neq_numeral)
qed

lemma card_page_frames: "finite page_frames" "card page_frames \<le> 2 ^ 24"
proof -
  have sub: "page_frames \<subseteq> (\<lambda>k. of_nat (4096 * k)) ` {..< 2 ^ 24}"
  proof
    fix f assume "f \<in> page_frames"
    then obtain n where "unat f = 4096 * n" "unat f < 2 ^ 36" by (rule page_frame_nat)
    then show "f \<in> (\<lambda>k. of_nat (4096 * k)) ` {..< 2 ^ 24}"
      by (intro image_eqI [of _ _ n]) (metis word_of_nat_eq_iff of_nat_unat ucast_id, simp)
  qed
  show "finite page_frames" using sub by (rule finite_subset) simp
  have "card page_frames \<le> card ((\<lambda>k. of_nat (4096 * k) :: u64) ` {..< (2 :: nat) ^ 24})"
    using sub by (rule card_mono [rotated]) simp
  also have "\<dots> \<le> 2 ^ 24" using card_image_le [of "{..< (2 :: nat) ^ 24}"] by simp
  finally show "card page_frames \<le> 2 ^ 24" .
qed

definition backed :: "heap \<Rightarrow> u64 list \<Rightarrow> bool" where
  "backed h fs \<longleftrightarrow> heap_end h = heap_page (length fs) \<and> distinct fs \<and>
     set fs \<subseteq> page_frames - avail (mm_pmm (hp_mm h)) \<and>
     (\<forall>k < length fs. vmm_virt_to_phys (hp_mm h) (heap_page k) = Some (Some (fs ! k)))"

lemma backed_length:
  assumes "distinct fs" "set fs \<subseteq> page_frames"
  shows "length fs \<le> 2 ^ 24"
  using card_mono [OF card_page_frames(1) assms(2)] card_page_frames(2) distinct_card [OF assms(1)] by simp

definition apart :: "u64 set \<Rightarrow> heap \<Rightarrow> u64 list \<Rightarrow> bool" where
  "apart R h fs \<longleftrightarrow> (\<forall>r \<in> R. set fs \<inter> space_frames r (hp_mm h) = {})"

text \<open>
  The heap invariant: well-formed page tables, every page of the heap mapped to a frame of
  its own that is not free and belongs to no process, and a tiling whose allocated blocks are
  the regions \<open>L\<close>.
\<close>

definition heap_ok :: "u64 set \<Rightarrow> heap \<Rightarrow> (u64 \<Rightarrow> nat option) \<Rightarrow> bool" where
  "heap_ok R h L \<longleftrightarrow> mm_inv R (hp_mm h) \<and> (\<exists>fs. backed h fs \<and> apart R h fs) \<and>
     (\<exists>bs fl. rep h bs fl {} \<and> live (hp_blk h) bs = L)"

lemma expand_cases:
  assumes "pmm_alloc_page (mm_pmm (hp_mm h)) = (page, p)"
  defines "mm \<equiv> (hp_mm h)\<lparr>mm_pmm := p\<rparr>"
  shows "page = PMM_ALLOC_FAILED \<Longrightarrow> expand h = Some (False, h\<lparr>hp_mm := mm\<rparr>)"
    "page \<noteq> PMM_ALLOC_FAILED \<Longrightarrow> vmm_map (heap_end h) page VMM_WRITABLE mm = Some (False, mm') \<Longrightarrow>
      pmm_free_page page (mm_pmm mm') = Some p' \<Longrightarrow> expand h = Some (False, h\<lparr>hp_mm := mm'\<lparr>mm_pmm := p'\<rparr>\<rparr>)"
    "page \<noteq> PMM_ALLOC_FAILED \<Longrightarrow> vmm_map (heap_end h) page VMM_WRITABLE mm = Some (True, mm') \<Longrightarrow>
      expand h = Some (True, grow_heap (h\<lparr>hp_mm := mm'\<rparr>))"
  using assms by (simp_all add: expand_def grow_heap_def Let_def)

lemma rep_mm: "rep (h\<lparr>hp_mm := mm\<rparr>) bs fl X = rep h bs fl X"
  by (simp add: rep_def)

lemma vmm_virt_to_phys_pmm: "vmm_virt_to_phys (s\<lparr>mm_pmm := p\<rparr>) va = vmm_virt_to_phys s va"
proof -
  have e: "phys_to_virt (s\<lparr>mm_pmm := p\<rparr>) = phys_to_virt s" "rd64 (s\<lparr>mm_pmm := p\<rparr>) = rd64 s"
    by (simp_all add: fun_eq_iff phys_to_virt_def rd64_def)
  show ?thesis unfolding vmm_virt_to_phys_def e by simp
qed

lemma space_frames_pmm [simp]: "space_frames r (s\<lparr>mm_pmm := p\<rparr>) = space_frames r s"
  by (simp add: space_frames_def)

lemma space_frames_avail:
  "mm_inv R s \<Longrightarrow> r \<in> insert (active_pml4_phys s) R \<Longrightarrow> space_frames r s \<inter> avail (mm_pmm s) = {}"
  unfolding space_frames_def using tab_mem_frames(2) [of R s r] by blast

text \<open>
  Growth can fail only when at most one page of memory is left or the page after the heap is
  mapped already.
\<close>

definition heap_stuck :: "heap \<Rightarrow> bool" where
  "heap_stuck h \<longleftrightarrow> card (avail (mm_pmm (hp_mm h))) \<le> 1 \<or> vmm_virt_to_phys (hp_mm h) (heap_end h) \<noteq> Some None"

lemma expand_ok:
  assumes ok: "heap_ok R h L"
  shows "\<exists>r h'. expand h = Some (r, h') \<and> heap_ok R h' L \<and> (r \<longrightarrow> tail_free h' = tail_free h + 4096) \<and>
    (\<not> r \<longrightarrow> heap_stuck h')"
proof -
  let ?s = "hp_mm h" and ?A = "avail (mm_pmm (hp_mm h))"
  obtain fs bs fl where inv: "mm_inv R ?s" and bk: "backed h fs" and ap: "apart R h fs" and r: "rep h bs fl {}"
    and L: "live (hp_blk h) bs = L"
    using ok by (auto simp: heap_ok_def)
  have pinv: "pmm_inv (mm_pmm ?s)" using inv by (simp add: mm_inv_def mm_ok_def)
  from pinv show ?thesis
  proof (cases rule: pmm_pages.alloc_cases)
    case fail
    then have "expand h = Some (False, h\<lparr>hp_mm := ?s\<lparr>mm_pmm := mm_pmm ?s\<rparr>\<rparr>)"
      by (intro expand_cases(1)) auto
    moreover have "heap_stuck h" using fail by (simp add: heap_stuck_def)
    ultimately show ?thesis using ok by (intro exI [of _ False] exI [of _ h]) simp
  next
    case (ok page p)
    let ?s1 = "?s\<lparr>mm_pmm := p\<rparr>"
    have disj: "space_frames r ?s \<inter> avail p = {}" "page \<notin> space_frames r ?s"
      if "r \<in> insert (active_pml4_phys ?s) R" for r
      using space_frames_avail [OF inv that] ok(2,5) by auto
    have inv1: "mm_inv R ?s1" using disj by (intro mm_inv_pmm [OF inv ok(6)]) simp
    have wr: "VMM_WRITABLE AND PAGE_MASK = 0" by (simp add: VMM_WRITABLE_def PAGE_MASK_def)
    obtain b s2 where m: "vmm_map (heap_end h) page VMM_WRITABLE ?s1 = Some (b, s2)" "mm_inv R s2"
      "same_regs ?s1 s2" "avail (mm_pmm s2) \<subseteq> avail p"
      "\<not> b \<longrightarrow> avail (mm_pmm s2) = {} \<or> vmm_virt_to_phys ?s (heap_end h) \<noteq> Some None"
      "\<forall>r \<in> insert (active_pml4_phys ?s) R. space_frames r s2 \<subseteq> space_frames r ?s \<union> avail p"
      "\<forall>va. vmm_virt_to_phys s2 va = (if b \<and> idxs va = idxs (heap_end h)
         then Some (Some (page + (va AND 0xfff))) else vmm_virt_to_phys ?s va)"
      using vmm_map_spec [OF inv1 wr ok(3), of "heap_end h"] unfolding vmm_virt_to_phys_pmm by auto
    have fs: "heap_end h = heap_page (length fs)" "distinct fs" "set fs \<subseteq> page_frames" "set fs \<inter> ?A = {}"
      "\<And>k. k < length fs \<Longrightarrow> vmm_virt_to_phys ?s (heap_page k) = Some (Some (fs ! k))"
      using bk by (auto simp: backed_def)
    have pf: "page \<notin> set fs" "page \<notin> avail p" using fs(4) ok(2,5) by auto
    have len: "length (fs @ [page]) \<le> 2 ^ 24"
      using fs(2,3) pf(1) ok(3) by (intro backed_length) auto
    have K2: "active_pml4_phys s2 = active_pml4_phys ?s" using m(3) by (simp add: same_regs_def)
    have ap2: "set fs \<inter> space_frames r s2 = {}" "page \<notin> space_frames r s2" if "r \<in> R" for r
    proof -
      have "space_frames r s2 \<subseteq> space_frames r ?s \<union> avail p" using m(6) that by blast
      moreover have "set fs \<inter> space_frames r ?s = {}" using ap that by (simp add: apart_def)
      ultimately show "set fs \<inter> space_frames r s2 = {}" "page \<notin> space_frames r s2"
        using fs(4) ok(5) pf(2) disj(2) [of r] that by auto
    qed
    show ?thesis
    proof (cases b)
      case False
      have "page \<notin> avail (mm_pmm s2)" using m(4) pf(2) by blast
      moreover have "pmm_inv (mm_pmm s2)" using m(2) by (simp add: mm_inv_def mm_ok_def)
      ultimately obtain p' where p': "pmm_free_page page (mm_pmm s2) = Some p'"
        "avail p' = insert page (avail (mm_pmm s2))" "pmm_inv p'"
        using pmm_pages.release_gives [OF _ ok(3)] by blast
      let ?h = "h\<lparr>hp_mm := s2\<lparr>mm_pmm := p'\<rparr>\<rparr>"
      have e: "expand h = Some (False, ?h)"
        using expand_cases(2) [OF ok(1) ok(4)] m(1) False p'(1) by simp
      have "space_frames r s2 \<inter> avail p' = {}" if "r \<in> insert (active_pml4_phys s2) R" for r
      proof -
        have r: "r \<in> insert (active_pml4_phys ?s) R" using that K2 by simp
        have "page \<notin> space_frames r s2" using m(6) disj(2) [OF r] r pf(2) by blast
        then show ?thesis using space_frames_avail [OF m(2) that] p'(2) by auto
      qed
      then have inv': "mm_inv R (s2\<lparr>mm_pmm := p'\<rparr>)" by (intro mm_inv_pmm [OF m(2) p'(3)])
      have "avail p' \<subseteq> ?A" using p'(2) m(4) ok(2,5) by auto
      then have "backed ?h fs"
        using fs m(7) False by (auto simp: backed_def vmm_virt_to_phys_pmm)
      moreover have "apart R ?h fs" using ap2(1) by (simp add: apart_def space_frames_def)
      ultimately have "heap_ok R ?h L" using inv' r L by (auto simp: heap_ok_def rep_mm)
      moreover have "heap_stuck ?h" using m(5,7) False p'(2) by (auto simp: heap_stuck_def vmm_virt_to_phys_pmm)
      ultimately show ?thesis using e by (intro exI [of _ False] exI [of _ ?h]) simp
    next
      case True
      let ?h = "h\<lparr>hp_mm := s2\<rparr>"
      have e: "expand h = Some (True, grow_heap ?h)"
        using expand_cases(3) [OF ok(1) ok(4)] m(1) True by simp
      have end_lt: "unat (heap_end h) = unat HEAP_VIRT_BASE + 4096 * length fs"
        using fs(1) len unat_heap_page [of "length fs"] by simp
      have room: "unat (heap_end ?h) + 4096 < 2 ^ 64"
        using end_lt len by (simp add: HEAP_VIRT_BASE_def)
      have r2: "rep ?h bs fl {}" using r by (simp add: rep_mm)
      have tl: "tail_free ?h = tail_free h" by (simp add: tail_free_def)
      obtain bs' fl' where "rep (grow_heap ?h) bs' fl' {}"
        "live (hp_blk (grow_heap ?h)) bs' = live (hp_blk ?h) bs"
        "tail_free (grow_heap ?h) = tail_free ?h + 4096" "hp_mm (grow_heap ?h) = hp_mm ?h"
        "heap_end (grow_heap ?h) = heap_end ?h + OS_PAGE_SIZE"
        by (rule grow_heap_ok [OF r2 room])
      then have g: "rep (grow_heap ?h) bs' fl' {}" "live (hp_blk (grow_heap ?h)) bs' = L"
        "tail_free (grow_heap ?h) = tail_free h + 4096" "hp_mm (grow_heap ?h) = s2"
        "heap_end (grow_heap ?h) = heap_end h + OS_PAGE_SIZE"
        using L tl by simp_all
      have "backed (grow_heap ?h) (fs @ [page])"
        unfolding backed_def g(4,5)
      proof (intro conjI allI impI)
        show "heap_end h + OS_PAGE_SIZE = heap_page (length (fs @ [page]))"
          by (simp add: fs(1) heap_page_def OS_PAGE_SIZE_def algebra_simps)
        show "distinct (fs @ [page])" using fs(2) pf(1) by simp
        show "set (fs @ [page]) \<subseteq> page_frames - avail (mm_pmm s2)"
          using fs(3,4) ok(2,3,5) m(4) by auto
        fix k assume k: "k < length (fs @ [page])"
        show "vmm_virt_to_phys s2 (heap_page k) = Some (Some ((fs @ [page]) ! k))"
        proof (cases "k = length fs")
          case True
          have "heap_page k AND 0xfff = 0"
          proof -
            have "unat (heap_page k) = 4096 * (0xffff900000000 + k)"
              using unat_heap_page [of k] k len by (simp add: HEAP_VIRT_BASE_def)
            then have "unat (heap_page k) mod 4096 = 0" by simp
            then have "take_bit 12 (heap_page k) = 0"
              by (simp add: take_bit_eq_mod word_unat_eq_iff unat_mod)
            moreover have "(0xfff :: u64) = mask 12" by (simp add: mask_eq_exp_minus_1)
            ultimately show ?thesis by (simp add: take_bit_eq_mask)
          qed
          then show ?thesis using m(7) \<open>b\<close> fs(1) True by simp
        next
          case False
          then have "idxs (heap_page k) \<noteq> idxs (heap_end h)"
            using heap_page_idxs [of k "length fs"] k len fs(1) by auto
          then show ?thesis using m(7) fs(5) k False by (simp add: nth_append)
        qed
      qed
      moreover have "apart R (grow_heap ?h) (fs @ [page])" using ap2 g(4) by (auto simp: apart_def)
      ultimately have "heap_ok R (grow_heap ?h) L" using g m(2) by (auto simp: heap_ok_def)
      then show ?thesis using e g(3) by (intro exI [of _ True] exI [of _ "grow_heap ?h"]) simp
    qed
  qed
qed

end
