(* ===== verification/Allocator.thy ===== *)
theory Allocator
  imports Prelude
begin

text \<open>
  The contract of a memory allocator, as the kernel heap satisfies it, and
  what its clients get from it.  The state of an allocator is described by the map \<open>L\<close> from
  the addresses handed out to the usable size of the region there.
\<close>

text \<open>
  The states that a client can reach from \<open>s0\<close> by requests and releases, when it releases only
  what it holds, with the size it asked for of each region it holds.  Address 0 is the null
  pointer, the answer to a request that fails.
\<close>

inductive alloc_session ::
  "(u64 \<Rightarrow> 's \<Rightarrow> (u64 \<times> 's) option) \<Rightarrow> (u64 \<Rightarrow> 's \<Rightarrow> 's option) \<Rightarrow> 's \<Rightarrow> 's \<Rightarrow> (u64 \<Rightarrow> nat option) \<Rightarrow> bool"
  for alloc release s0 where
  start: "alloc_session alloc release s0 s0 Map.empty"
| alloc: "alloc_session alloc release s0 s L \<Longrightarrow> alloc sz s = Some (p, s') \<Longrightarrow>
    alloc_session alloc release s0 s' (if p = 0 then L else L(p \<mapsto> unat sz))"
| release: "alloc_session alloc release s0 s L \<Longrightarrow> L p \<noteq> None \<Longrightarrow> release p s = Some s' \<Longrightarrow>
    alloc_session alloc release s0 s' (L(p := None))"

locale allocator =
  fixes inv :: "'s \<Rightarrow> (u64 \<Rightarrow> nat option) \<Rightarrow> bool"
    and alloc :: "u64 \<Rightarrow> 's \<Rightarrow> (u64 \<times> 's) option"
    and release :: "u64 \<Rightarrow> 's \<Rightarrow> 's option"
    and lo hi :: "'s \<Rightarrow> nat"
  assumes disjoint: "inv s L \<Longrightarrow> L p = Some n \<Longrightarrow> L q = Some m \<Longrightarrow> p \<noteq> q \<Longrightarrow>
      unat p + n \<le> unat q \<or> unat q + m \<le> unat p"
    and inside: "inv s L \<Longrightarrow> L p = Some n \<Longrightarrow> lo s \<le> unat p \<and> unat p + n \<le> hi s"
    and alloc_law: "inv s L \<Longrightarrow> \<exists>p s'. alloc sz s = Some (p, s') \<and>
      (if p = 0 then inv s' L else L p = None \<and> (\<exists>n. unat sz \<le> n \<and> inv s' (L(p \<mapsto> n))))"
    and release_law: "inv s L \<Longrightarrow> L p \<noteq> None \<Longrightarrow> \<exists>s'. release p s = Some s' \<and> inv s' (L(p := None))"
begin

lemma session_inv:
  assumes "alloc_session alloc release s0 s L" "inv s0 Map.empty"
  shows "\<exists>U. inv s U \<and> dom U = dom L \<and> (\<forall>p n. L p = Some n \<longrightarrow> (\<exists>m \<ge> n. U p = Some m))"
  using assms
proof (induction rule: alloc_session.induct)
  case start
  then show ?case by auto
next
  case (alloc s L sz p s')
  then obtain U where U: "inv s U" "dom U = dom L" "\<And>p n. L p = Some n \<Longrightarrow> \<exists>m \<ge> n. U p = Some m" by blast
  show ?case
  proof (cases "p = 0")
    case True
    then have "inv s' U" using alloc_law [OF U(1), of sz] alloc.hyps(2) by auto
    then show ?thesis using U True by auto
  next
    case False
    then obtain n where n: "unat sz \<le> n" "inv s' (U(p \<mapsto> n))"
      using alloc_law [OF U(1), of sz] alloc.hyps(2) by auto
    then have "inv s' (U(p \<mapsto> n)) \<and> dom (U(p \<mapsto> n)) = dom (L(p \<mapsto> unat sz)) \<and>
        (\<forall>q k. (L(p \<mapsto> unat sz)) q = Some k \<longrightarrow> (\<exists>m \<ge> k. (U(p \<mapsto> n)) q = Some m))"
      using U by simp
    then show ?thesis unfolding if_not_P [OF False] by (intro exI [of _ "U(p \<mapsto> n)"])
  qed
next
  case (release s L p s')
  then obtain U where U: "inv s U" "dom U = dom L" "\<And>p n. L p = Some n \<Longrightarrow> \<exists>m \<ge> n. U p = Some m" by blast
  have "U p \<noteq> None" using U(2) release.hyps(2) by (auto simp: dom_def)
  then have "inv s' (U(p := None))" using release_law [OF U(1), of p] release.hyps(3) by auto
  then have "inv s' (U(p := None)) \<and> dom (U(p := None)) = dom (L(p := None)) \<and>
      (\<forall>q k. (L(p := None)) q = Some k \<longrightarrow> (\<exists>m \<ge> k. (U(p := None)) q = Some m))"
    using U by simp
  then show ?case by (intro exI [of _ "U(p := None)"])
qed

text \<open>
  No session ends in a fault: every request is answered and every region held can be released.
\<close>

lemma session_progress:
  assumes "alloc_session alloc release s0 s L" "inv s0 Map.empty"
  shows "\<exists>p s'. alloc sz s = Some (p, s')" "L p \<noteq> None \<Longrightarrow> \<exists>s'. release p s = Some s'"
proof -
  obtain U where U: "inv s U" "dom U = dom L" using session_inv [OF assms] by blast
  show "\<exists>p s'. alloc sz s = Some (p, s')" using alloc_law [OF U(1)] by blast
  show "\<exists>s'. release p s = Some s'" if "L p \<noteq> None"
    using release_law [OF U(1), of p] that U(2) by (auto simp: dom_def)
qed

lemma session_regions:
  assumes "alloc_session alloc release s0 s L" "inv s0 Map.empty" "L p = Some n"
  shows "lo s \<le> unat p \<and> unat p + n \<le> hi s"
    "L q = Some m \<Longrightarrow> p \<noteq> q \<Longrightarrow> unat p + n \<le> unat q \<or> unat q + m \<le> unat p"
proof -
  obtain U where U: "inv s U" "\<And>p n. L p = Some n \<Longrightarrow> \<exists>m \<ge> n. U p = Some m"
    using session_inv [OF assms(1,2)] by blast
  obtain n' where n: "n \<le> n'" "U p = Some n'" using U(2) assms(3) by blast
  show "lo s \<le> unat p \<and> unat p + n \<le> hi s" using inside [OF U(1) n(2)] n(1) by simp
  show "unat p + n \<le> unat q \<or> unat q + m \<le> unat p" if q: "L q = Some m" "p \<noteq> q"
  proof -
    obtain m' where m: "m \<le> m'" "U q = Some m'" using U(2) q(1) by blast
    show ?thesis using disjoint [OF U(1) n(2) m(2) q(2)] n(1) m(1) by linarith
  qed
qed

end

end
