(* ===== verification/Kalloc.thy ===== *)
theory Kalloc
  imports Kheap Allocator
begin

text \<open>
  Correctness of \<^verbatim>\<open>kmalloc\<close> and \<^verbatim>\<open>kfree\<close> over the page-backed heap: the sizes computed for a
  request, growth by as many pages as it needs, and the heap as an instance of the allocator
  contract.
\<close>

subsection \<open>Sizes\<close>

lemma round16:
  fixes sz :: u64
  assumes "unat sz + 15 < 2 ^ 64"
  shows "unat ((sz + 15) AND NOT 15) = (unat sz + 15) div 16 * 16"
proof -
  have u: "unat (sz + 15) = unat sz + 15" using assms by (subst unat_add_lem [THEN iffD1]) simp_all
  have "(sz + 15) AND NOT 15 = (sz + 15) AND NOT (mask 4)" by (simp add: mask_eq_exp_minus_1)
  also have "\<dots> = push_bit 4 (drop_bit 4 (sz + 15))"
    by (rule bit_word_eqI) (auto simp: bit_simps)
  also have "\<dots> = sz + 15 - take_bit 4 (sz + 15)"
    using bits_ident [of 4 "sz + 15"] by (simp add: eq_diff_eq)
  finally have e: "(sz + 15) AND NOT 15 = sz + 15 - take_bit 4 (sz + 15)" .
  have t: "unat (take_bit 4 (sz + 15)) = (unat sz + 15) mod 16"
    by (simp add: take_bit_eq_mod unat_mod u)
  have "take_bit 4 (sz + 15) \<le> sz + 15" unfolding word_le_nat_alt t u by simp
  then have "unat (sz + 15 - take_bit 4 (sz + 15)) = unat sz + 15 - (unat sz + 15) mod 16"
    by (simp add: unat_sub t u)
  then show ?thesis unfolding e by (simp add: minus_mod_eq_div_mult)
qed

lemma kmalloc_total:
  fixes sz :: u64
  assumes "sz \<noteq> 0" "\<not> sz > - 1 - BLOCK_SIZE - 16"
  defines "tot \<equiv> ((sz + 15) AND NOT 15) + BLOCK_SIZE"
  shows "56 \<le> unat tot" "8 dvd unat tot" "unat sz \<le> unat tot - 40" "unat tot < unat sz + 56"
proof -
  have "- 1 - BLOCK_SIZE - 16 = 0xffffffffffffffc7" by (simp add: BLOCK_SIZE_def)
  then have s: "unat sz \<le> 0xffffffffffffffc7" using assms(2) by (simp add: word_le_nat_alt not_less)
  then have r: "unat ((sz + 15) AND NOT 15) = (unat sz + 15) div 16 * 16" by (intro round16) simp
  have le: "(unat sz + 15) div 16 * 16 \<le> 0xffffffffffffffd0" using s by simp
  have t: "unat tot = (unat sz + 15) div 16 * 16 + 40"
    unfolding tot_def using r le by (subst unat_add_lem [THEN iffD1]) (simp_all add: BLOCK_SIZE_def)
  have pos: "0 < unat sz" using assms(1) by (simp add: unat_gt_0)
  then have "1 \<le> (unat sz + 15) div 16" by simp
  then show "56 \<le> unat tot" unfolding t by simp
  show "8 dvd unat tot" unfolding t by presburger
  show "unat sz \<le> unat tot - 40" "unat tot < unat sz + 56" unfolding t by simp_all
qed

lemma kmalloc_pages:
  fixes tot :: u64
  assumes "unat tot + 4096 \<le> 2 ^ 64"
  shows "unat tot \<le> 4096 * unat ((tot + OS_PAGE_SIZE - 1) div OS_PAGE_SIZE)"
proof -
  have "unat (tot + 4095) = unat tot + 4095"
    using assms by (subst unat_add_lem [THEN iffD1]) simp_all
  moreover have "(tot + OS_PAGE_SIZE - 1) div OS_PAGE_SIZE = (tot + 4095) div 4096"
    by (simp add: OS_PAGE_SIZE_def algebra_simps)
  ultimately have "unat ((tot + OS_PAGE_SIZE - 1) div OS_PAGE_SIZE) = (unat tot + 4095) div 4096"
    by (simp add: unat_div)
  then show ?thesis by simp
qed

subsection \<open>Growth by several pages\<close>

lemma expand_pages_ok:
  assumes "heap_ok R h L" "i \<le> pages"
  shows "\<exists>ok h'. expand_pages i pages h = Some (ok, h') \<and> heap_ok R h' L \<and>
    (ok \<longrightarrow> tail_free h' = tail_free h + 4096 * unat (pages - i)) \<and>
    (\<not> ok \<longrightarrow> heap_stuck h')"
  using assms
proof (induction i pages h rule: expand_pages.induct)
  case (1 i pages h)
  show ?case
  proof (cases "i < pages")
    case False
    then have "i = pages" using 1(3) by simp
    then have "expand_pages i pages h = Some (True, h)" by (subst expand_pages.simps) simp
    then show ?thesis using 1(2) \<open>i = pages\<close> by (intro exI [of _ True] exI [of _ h]) simp
  next
    case True
    obtain r h1 where e: "expand h = Some (r, h1)" "heap_ok R h1 L" "r \<longrightarrow> tail_free h1 = tail_free h + 4096"
      "\<not> r \<longrightarrow> heap_stuck h1"
      using expand_ok [OF 1(2)] by blast
    show ?thesis
    proof (cases r)
      case False
      then show ?thesis using e True 1(2) by (subst expand_pages.simps) auto
    next
      case r: True
      have le: "i + 1 \<le> pages"
        using True unat_Suc_of_less [OF True] by (simp add: word_le_nat_alt word_less_nat_alt)
      have un: "unat (pages - i) = Suc (unat (pages - (i + 1)))"
        using True le unat_Suc_of_less [OF True]
        by (simp add: unat_sub word_less_nat_alt word_le_nat_alt less_imp_le)
      obtain ok h' where i: "expand_pages (i + 1) pages h1 = Some (ok, h')" "heap_ok R h' L"
        "ok \<longrightarrow> tail_free h' = tail_free h1 + 4096 * unat (pages - (i + 1))"
        "\<not> ok \<longrightarrow> heap_stuck h'"
        using 1(1) [OF True e(1) refl] e(2) le r by auto
      have "expand_pages i pages h = Some (ok, h')" using e(1) r i(1) True by (subst expand_pages.simps) simp
      then show ?thesis using i e(3) r un by (intro exI [of _ ok] exI [of _ h']) auto
    qed
  qed
qed

subsection \<open>Requests\<close>

lemma heap_okE:
  assumes "heap_ok R h L"
  obtains fs bs fl where "mm_inv R (hp_mm h)" "backed h fs" "rep h bs fl {}" "live (hp_blk h) bs = L" "apart R h fs"
  using assms unfolding heap_ok_def by blast

lemma take_heap_ok:
  assumes ok: "heap_ok R h L" and sz: "56 \<le> unat tot" "8 dvd unat tot" "unat n \<le> unat tot - 40"
    and ff: "first_fit h tot (free_list h) = Some b" "b \<noteq> 0"
  obtains h' m where "kmalloc_take tot b h = (b + BLOCK_SIZE, h')" "b + BLOCK_SIZE \<noteq> 0"
    "L (b + BLOCK_SIZE) = None" "unat n \<le> m" "heap_ok R h' (L(b + BLOCK_SIZE \<mapsto> m))"
proof -
  obtain fs bs fl where h: "mm_inv R (hp_mm h)" "backed h fs" "rep h bs fl {}" "live (hp_blk h) bs = L" "apart R h fs"
    using ok by (rule heap_okE)
  have "find (\<lambda>b. \<not> b_size (hp_blk h b) < tot) fl = Some b"
    using ff first_fit_dll [OF repD(3) [OF h(3)], of tot] by (auto split: option.splits)
  then have b: "b \<in> set fl" "tot \<le> b_size (hp_blk h b)" by (auto simp: find_Some_iff)
  have bb: "b \<in> set bs" using b(1) repD(5) [OF h(3)] by auto
  have bd: "unat HEAP_VIRT_BASE \<le> unat b" "unat b + unat (b_size (hp_blk h b)) \<le> unat (heap_end h)"
    using tiles_bounds(2) [OF repD(1) [OF h(3)] bb] by auto
  have le: "unat tot \<le> unat (b_size (hp_blk h b))" using b(2) by (simp add: word_le_nat_alt)
  have small: "unat tot + 56 < 2 ^ 64"
    using bd le unat_less [of "heap_end h"] by (simp add: HEAP_VIRT_BASE_def)
  have "unat b + 40 < 2 ^ 64" using bd le sz(1) unat_less [of "heap_end h"] by simp
  then have "unat (b + BLOCK_SIZE) = unat b + 40"
    by (subst unat_add_lem [THEN iffD1]) (simp_all add: BLOCK_SIZE_def)
  then have nz: "b + BLOCK_SIZE \<noteq> 0" by auto
  obtain h' bs' fl' m where t: "kmalloc_take tot b h = (b + BLOCK_SIZE, h')" "rep h' bs' fl' {}"
    "live (hp_blk h') bs' = (live (hp_blk h) bs)(b + BLOCK_SIZE \<mapsto> m)" "unat tot - 40 \<le> m"
    "live (hp_blk h) bs (b + BLOCK_SIZE) = None" "hp_mm h' = hp_mm h" "heap_end h' = heap_end h"
    by (rule kmalloc_take_ok [OF h(3) b(1) sz(1,2) le small])
  have "backed h' fs" "apart R h' fs" using h(2,5) t(6,7) by (simp_all add: backed_def apart_def)
  then have "heap_ok R h' (L(b + BLOCK_SIZE \<mapsto> m))"
    unfolding heap_ok_def using t(2,3,6) h(1,4) by auto
  moreover have "unat n \<le> m" using t(4) sz(3) by simp
  ultimately show ?thesis using that t(1,5) nz h(4) by blast
qed

lemma first_fit_returns:
  assumes "heap_ok R h L"
  obtains b where "first_fit h tot (free_list h) = Some b"
  using assms first_fit_dll by (metis heap_okE repD(3))

lemma first_fit_tail:
  assumes "heap_ok R h L" "unat tot \<le> tail_free h" "0 < unat tot"
  shows "first_fit h tot (free_list h) \<noteq> Some 0"
proof -
  obtain bs fl where r: "rep h bs fl {}" using assms(1) by (rule heap_okE)
  note t = repD [OF r]
  let ?l = "heap_last h"
  have l: "?l \<noteq> 0" "is_free (hp_blk h) ?l" "unat tot \<le> unat (b_size (hp_blk h ?l))"
    using assms(2,3) by (auto simp: tail_free_def split: if_splits)
  have "?l \<in> set bs" using l(1) t(2) by (auto simp: lastp_def split: if_splits)
  then have "?l \<in> set fl" using t(5) l(2) by auto
  then have "find (\<lambda>b. \<not> b_size (hp_blk h b) < tot) fl \<noteq> None"
    using l(3) by (auto simp: find_None_iff word_less_nat_alt)
  moreover have "b \<noteq> 0" if "b \<in> set fl" for b using that t(5,7) by auto
  ultimately show ?thesis
    unfolding first_fit_dll [OF t(3)] by (auto simp: find_Some_iff split: option.splits dest: nth_mem)
qed

lemma kmalloc_spec:
  assumes ok: "heap_ok R h L"
  shows "\<exists>p h'. kmalloc sz h = Some (p, h') \<and>
    (if p = 0 then heap_ok R h' L \<and>
         (sz = 0 \<or> unat sz + 4152 > 2 ^ 64 \<or> heap_stuck h')
     else L p = None \<and> (\<exists>n. unat sz \<le> n \<and> heap_ok R h' (L(p \<mapsto> n))))"
proof (cases "sz = 0 \<or> sz > - 1 - BLOCK_SIZE - 16")
  case True
  then have "sz = 0 \<or> unat sz + 4152 > 2 ^ 64"
    by (auto simp: BLOCK_SIZE_def word_less_nat_alt)
  moreover have "kmalloc sz h = Some (0, h)" using True by (auto simp: kmalloc_def kmalloc_locked_def)
  ultimately show ?thesis using ok by auto
next
  case False
  define tot where "tot = ((sz + 15) AND NOT 15) + BLOCK_SIZE"
  define pages where "pages = (tot + OS_PAGE_SIZE - 1) div OS_PAGE_SIZE"
  have t: "56 \<le> unat tot" "8 dvd unat tot" "unat sz \<le> unat tot - 40" "unat tot < unat sz + 56"
    using kmalloc_total [of sz] False by (auto simp: tot_def)
  have km: "kmalloc sz h = first_fit h tot (free_list h) \<bind> (\<lambda>b.
      if b \<noteq> 0 then Some (kmalloc_take tot b h) else
        expand_pages 0 pages h \<bind> (\<lambda>(ok, h). if \<not> ok then Some (0, h) else
          first_fit h tot (free_list h) \<bind> (\<lambda>b.
            if b = 0 then Some (0, h) else Some (kmalloc_take tot b h))))"
    unfolding kmalloc_def kmalloc_locked_def tot_def pages_def Let_def using False by simp
  obtain b where b: "first_fit h tot (free_list h) = Some b" using first_fit_returns [OF ok] .
  show ?thesis
  proof (cases "b = 0")
    case False
    obtain h' m where "kmalloc_take tot b h = (b + BLOCK_SIZE, h')" "b + BLOCK_SIZE \<noteq> 0"
      "L (b + BLOCK_SIZE) = None" "unat sz \<le> m" "heap_ok R h' (L(b + BLOCK_SIZE \<mapsto> m))"
      by (rule take_heap_ok [OF ok t(1-3) b False])
    then show ?thesis using km b False by auto
  next
    case b0: True
    obtain r h1 where e: "expand_pages 0 pages h = Some (r, h1)" "heap_ok R h1 L"
      "r \<longrightarrow> tail_free h1 = tail_free h + 4096 * unat (pages - 0)"
      "\<not> r \<longrightarrow> heap_stuck h1"
      using expand_pages_ok [OF ok, of 0 pages] by auto
    show ?thesis
    proof (cases r)
      case False
      then have "kmalloc sz h = Some (0, h1)" using km b b0 e(1) by simp
      then show ?thesis using e(2,4) False by auto
    next
      case r: True
      obtain c where c: "first_fit h1 tot (free_list h1) = Some c" using first_fit_returns [OF e(2)] .
      have k2: "kmalloc sz h = (if c = 0 then Some (0, h1) else Some (kmalloc_take tot c h1))"
        using km b b0 e(1) r c by simp
      show ?thesis
      proof (cases "c = 0")
        case True
        have "unat sz + 4152 > 2 ^ 64"
        proof (rule ccontr)
          assume "\<not> ?thesis"
          then have "unat tot \<le> 4096 * unat pages"
            unfolding pages_def using t(4) by (intro kmalloc_pages) simp
          then have "unat tot \<le> tail_free h1" using e(3) r by simp
          then show False using first_fit_tail [OF e(2), of tot] t(1) c True by simp
        qed
        then show ?thesis using k2 True e(2) by simp
      next
        case False
        obtain h' m where "kmalloc_take tot c h1 = (c + BLOCK_SIZE, h')" "c + BLOCK_SIZE \<noteq> 0"
          "L (c + BLOCK_SIZE) = None" "unat sz \<le> m" "heap_ok R h' (L(c + BLOCK_SIZE \<mapsto> m))"
          by (rule take_heap_ok [OF e(2) t(1-3) c False])
        then show ?thesis using k2 False by auto
      qed
    qed
  qed
qed

subsection \<open>Releases\<close>

lemma live_block:
  assumes r: "rep h bs fl {}" and l: "live (hp_blk h) bs p = Some n"
  shows "p - BLOCK_SIZE \<in> set bs" "\<not> is_free (hp_blk h) (p - BLOCK_SIZE)"
    "unat p = unat (p - BLOCK_SIZE) + 40" "unat p + n = unat (p - BLOCK_SIZE) + unat (b_size (hp_blk h (p - BLOCK_SIZE)))"
    "unat HEAP_VIRT_BASE + 40 \<le> unat p" "unat p + n \<le> unat (heap_end h)" "16 \<le> n"
proof -
  let ?b = "p - BLOCK_SIZE"
  show b: "?b \<in> set bs" "\<not> is_free (hp_blk h) ?b" using l by (simp_all add: live_def split: if_splits)
  have n: "n = unat (b_size (hp_blk h ?b)) - 40" using l by (simp add: live_def split: if_splits)
  have k: "unat HEAP_VIRT_BASE \<le> unat ?b" "unat ?b + unat (b_size (hp_blk h ?b)) \<le> unat (heap_end h)"
    "56 \<le> unat (b_size (hp_blk h ?b))"
    using tiles_bounds(2) [OF repD(1) [OF r] b(1)] by (auto simp: blk_ok_def)
  have "unat ?b + 40 < 2 ^ 64" using k unat_less [of "heap_end h"] by simp
  then have "unat (?b + BLOCK_SIZE) = unat ?b + 40"
    by (subst unat_add_lem [THEN iffD1]) (simp_all add: BLOCK_SIZE_def)
  then show u: "unat p = unat ?b + 40" by simp
  then show e: "unat p + n = unat ?b + unat (b_size (hp_blk h ?b))" using n k(3) by simp
  show "unat HEAP_VIRT_BASE + 40 \<le> unat p" "unat p + n \<le> unat (heap_end h)" "16 \<le> n"
    using u e k n by simp_all
qed

lemma kfree_spec:
  assumes ok: "heap_ok R h L" and p: "L p \<noteq> None"
  shows "\<exists>h'. kfree p h = Some h' \<and> heap_ok R h' (L(p := None))"
proof -
  obtain fs bs fl where h: "mm_inv R (hp_mm h)" "backed h fs" "rep h bs fl {}" "live (hp_blk h) bs = L" "apart R h fs"
    using ok by (rule heap_okE)
  obtain n where n: "live (hp_blk h) bs p = Some n" using p h(4) by auto
  note l = live_block [OF h(3) n]
  obtain h' bs' fl' where k: "kfree_locked (p - BLOCK_SIZE + BLOCK_SIZE) h = Some h'" "rep h' bs' fl' {}"
    "live (hp_blk h') bs' = (live (hp_blk h) bs)(p - BLOCK_SIZE + BLOCK_SIZE := None)"
    "hp_mm h' = hp_mm h" "heap_end h' = heap_end h"
    by (rule kfree_locked_ok [OF h(3) l(1,2)])
  have "backed h' fs" "apart R h' fs" using h(2,5) k(4,5) by (simp_all add: backed_def apart_def)
  then have "heap_ok R h' (L(p := None))" unfolding heap_ok_def using k(2-4) h(1,4) by auto
  moreover have "p \<noteq> 0" using l(3) by auto
  ultimately show ?thesis using k(1) by (simp add: kfree_def)
qed

lemma live_disjoint:
  assumes ok: "heap_ok R h L" and p: "L p = Some n" and q: "L q = Some m" and "p \<noteq> q"
  shows "unat p + n \<le> unat q \<or> unat q + m \<le> unat p"
proof -
  obtain fs bs fl where h: "rep h bs fl {}" "live (hp_blk h) bs = L" "apart R h fs" using ok by (rule heap_okE)
  note lp = live_block [OF h(1) p [folded h(2)]] and lq = live_block [OF h(1) q [folded h(2)]]
  have "p - BLOCK_SIZE \<noteq> q - BLOCK_SIZE" using assms(4) by simp
  then have "unat (p - BLOCK_SIZE) + unat (b_size (hp_blk h (p - BLOCK_SIZE))) \<le> unat (q - BLOCK_SIZE) \<or>
     unat (q - BLOCK_SIZE) + unat (b_size (hp_blk h (q - BLOCK_SIZE))) \<le> unat (p - BLOCK_SIZE)"
    by (rule tiles_apart [OF repD(1) [OF h(1)] lp(1) lq(1)])
  then show ?thesis using lp(3,4) lq(3,4) by linarith
qed

interpretation kh: allocator "heap_ok R" kmalloc kfree "\<lambda>_. unat HEAP_VIRT_BASE" "\<lambda>h. unat (heap_end h)" for R
proof
  fix s L p n q m assume "heap_ok R s L" "L p = Some n" "L q = Some m" "p \<noteq> q"
  then show "unat p + n \<le> unat q \<or> unat q + m \<le> unat p" by (rule live_disjoint)
next
  fix s L p n assume a: "heap_ok R s L" "L p = Some n"
  obtain fs bs fl where h: "rep s bs fl {}" "live (hp_blk s) bs = L" using a(1) by (rule heap_okE)
  show "unat HEAP_VIRT_BASE \<le> unat p \<and> unat p + n \<le> unat (heap_end s)"
    using live_block(5,6) [OF h(1) a(2) [folded h(2)]] by simp
next
  fix s L sz assume "heap_ok R s L"
  then show "\<exists>p s'. kmalloc sz s = Some (p, s') \<and>
      (if p = 0 then heap_ok R s' L else L p = None \<and> (\<exists>n. unat sz \<le> n \<and> heap_ok R s' (L(p \<mapsto> n))))"
    using kmalloc_spec [of R s L sz] by (auto split: if_splits)
next
  fix s L p assume "heap_ok R s L" "L p \<noteq> None"
  then show "\<exists>s'. kfree p s = Some s' \<and> heap_ok R s' (L(p := None))" by (rule kfree_spec)
qed

text \<open>The heap does not lose memory when the address space of a process goes away.\<close>

lemma heap_ok_destroy:
  assumes ok: "heap_ok R h L" and r: "r \<in> R" "r \<noteq> 0"
  shows "\<exists>mm. vmm_space_destroy r (hp_mm h) = Some mm \<and> heap_ok (R - {r}) (h\<lparr>hp_mm := mm\<rparr>) L \<and>
    freed (hp_mm h) mm (space_frames r (hp_mm h))"
proof -
  obtain fs bs fl where h: "mm_inv R (hp_mm h)" "backed h fs" "rep h bs fl {}" "live (hp_blk h) bs = L" "apart R h fs"
    using ok by (rule heap_okE)
  obtain mm where mm: "vmm_space_destroy r (hp_mm h) = Some mm" "freed (hp_mm h) mm (space_frames r (hp_mm h))"
    "mm_inv (R - {r}) mm" using vmm_space_destroy_spec [OF h(1) r] by blast
  note f = freedD [OF mm(2)]
  have "vmm_virt_to_phys mm va = vmm_virt_to_phys (hp_mm h) va" for va
    using vmm_virt_to_phys_eq [OF mm(3)] vmm_virt_to_phys_eq [OF h(1)] f(1,4) by simp
  moreover have "set fs \<inter> space_frames r (hp_mm h) = {}" using h(5) r by (simp add: apart_def)
  ultimately have "backed (h\<lparr>hp_mm := mm\<rparr>) fs" using h(2) f(7) by (auto simp: backed_def)
  moreover have "apart (R - {r}) (h\<lparr>hp_mm := mm\<rparr>) fs" using h(5) f(1,4) by (simp add: apart_def space_frames_def)
  ultimately have "heap_ok (R - {r}) (h\<lparr>hp_mm := mm\<rparr>) L" unfolding heap_ok_def using mm(3) h(3,4) by (auto simp: rep_mm)
  then show ?thesis using mm by blast
qed

subsection \<open>Properties of the heap\<close>

text \<open>
  C2: A request never panics and always returns.  A region that it hands out was not allocated
  before, is at least as large as asked, and all other regions stay as they are.  The answer is
  the null pointer only for a request of no bytes or of nearly the whole address space, or
  when the heap cannot grow: at most one page of memory is left, or the page after the heap is
  mapped already.  Then no region changes.
\<close>

theorem kmalloc_correct:
  assumes "heap_ok R h L"
  shows "\<exists>p h'. kmalloc sz h = Some (p, h') \<and>
    (if p = 0 then heap_ok R h' L \<and>
         (sz = 0 \<or> unat sz + 4152 > 2 ^ 64 \<or> heap_stuck h')
     else L p = None \<and> (\<exists>n. unat sz \<le> n \<and> heap_ok R h' (L(p \<mapsto> n))))"
  using kmalloc_spec [OF assms] .

lemma flags_merge_next [simp]: "b_flags (hp_blk (merge_next b n h) c) = b_flags (hp_blk h c)"
  by (simp add: merge_next_def hset_def Let_def)

lemma flags_free_list [simp]:
  "b_flags (hp_blk (free_list_add b h) c) = b_flags (hp_blk h c)"
  "b_flags (hp_blk (free_list_remove b h) c) = b_flags (hp_blk h c)"
  by (simp_all add: free_list_add_def free_list_remove_def hset_def Let_def)

lemma kfree_flags:
  assumes "kfree p h = Some h'" "p \<noteq> 0"
  shows "b_flags (hp_blk h' (p - BLOCK_SIZE)) = BLOCK_FREE"
  using assms by (auto simp: kfree_def kfree_locked_def Let_def hset_def split: if_splits)

text \<open>
  C3: Releasing a region that is allocated never panics, makes exactly that region
  unallocated, and releasing it a second time at once is detected and panics.
\<close>

theorem kfree_correct:
  assumes "heap_ok R h L" "L p \<noteq> None"
  shows "\<exists>h'. kfree p h = Some h' \<and> heap_ok R h' (L(p := None)) \<and> kfree p h' = None"
proof -
  obtain h' where h': "kfree p h = Some h'" "heap_ok R h' (L(p := None))" using kfree_spec [OF assms] by blast
  have "p \<noteq> 0" using assms heap_okE live_block(3) by (metis add_is_0 option.exhaust unat_0 zero_neq_numeral)
  moreover then have "b_flags (hp_blk h' (p - BLOCK_SIZE)) = BLOCK_FREE" using kfree_flags h'(1) by blast
  ultimately have "kfree p h' = None"
    by (simp add: kfree_def kfree_locked_def Let_def BLOCK_FREE_def BLOCK_USED_def)
  then show ?thesis using h' by blast
qed

lemma heap_init_spec:
  assumes "mm_inv R (hp_mm h)"
  shows "case heap_init h of Some h' \<Rightarrow> heap_ok R h' Map.empty \<and> tail_free h' = 4096
    | None \<Rightarrow> \<exists>h'. expand (h\<lparr>heap_end := HEAP_VIRT_BASE, heap_last := 0, free_list := 0\<rparr>) = Some (False, h') \<and>
        heap_stuck h'"
proof -
  let ?h = "h\<lparr>heap_end := HEAP_VIRT_BASE, heap_last := 0, free_list := 0\<rparr>"
  have "rep ?h [] [] {}" by (simp add: rep_def)
  moreover have "live (hp_blk ?h) [] = Map.empty" by (rule ext) (simp add: live_def)
  moreover have "backed ?h []" "apart R ?h []" by (simp_all add: backed_def heap_page_def apart_def)
  ultimately have "heap_ok R ?h Map.empty" using assms unfolding heap_ok_def by fastforce
  then obtain r h' where "expand ?h = Some (r, h')" "heap_ok R h' Map.empty"
    "r \<longrightarrow> tail_free h' = tail_free ?h + 4096" "\<not> r \<longrightarrow> heap_stuck h'"
    using expand_ok by blast
  moreover have "tail_free ?h = 0" by (simp add: tail_free_def)
  ultimately show ?thesis by (simp add: heap_init_def)
qed

text \<open>
  Starting the heap on well-formed page tables gives a heap without allocated regions; it
  panics only when the heap cannot grow by its first page.
\<close>

lemma heap_init_correct:
  assumes "mm_inv R (hp_mm h)"
  shows "case heap_init h of Some h' \<Rightarrow> heap_ok R h' Map.empty \<and> tail_free h' = 4096
    | None \<Rightarrow> \<exists>h'. expand (h\<lparr>heap_end := HEAP_VIRT_BASE, heap_last := 0, free_list := 0\<rparr>) = Some (False, h') \<and>
        heap_stuck h'"
  using heap_init_spec [OF assms] .

text \<open>
  C1: However a client of a freshly started heap mixes requests and releases, as long as it
  releases only what it holds, no operation panics, every region it holds lies inside the heap,
  and no two of them overlap.
\<close>

theorem heap_sessions_safe:
  assumes "mm_inv R (hp_mm h0)" "heap_init h0 = Some h1" "alloc_session kmalloc kfree h1 h L"
  shows "(\<exists>p h'. kmalloc sz h = Some (p, h')) \<and> (L p \<noteq> None \<longrightarrow> (\<exists>h'. kfree p h = Some h')) \<and>
    (L p = Some n \<longrightarrow> unat HEAP_VIRT_BASE \<le> unat p \<and> unat p + n \<le> unat (heap_end h)) \<and>
    (L p = Some n \<longrightarrow> L q = Some m \<longrightarrow> p \<noteq> q \<longrightarrow> unat p + n \<le> unat q \<or> unat q + m \<le> unat p)"
proof -
  have ok: "heap_ok R h1 Map.empty" using heap_init_spec [OF assms(1)] assms(2) by simp
  note s = kh.session_progress [OF assms(3) ok] kh.session_regions [OF assms(3) ok]
  show ?thesis using s by blast
qed

subsection \<open>Examples\<close>

text \<open>A heap of one page that is allocated as a whole.\<close>

definition heap_ex :: heap where
  "heap_ex = \<lparr>hp_mm = mm_tab 0x7003, hp_blk = (\<lambda>_. \<lparr>b_magic = HEAP_MAGIC, b_flags = BLOCK_USED, b_size = 4096,
     b_prev = 0, b_next_free = 0, b_prev_free = 0\<rparr>), free_list = 0, heap_last = HEAP_VIRT_BASE,
     heap_end = HEAP_VIRT_BASE + 4096\<rparr>"

lemma heap_ex_ok: "heap_ok {} heap_ex [HEAP_VIRT_BASE + 40 \<mapsto> 4056]"
proof -
  have "rep heap_ex [HEAP_VIRT_BASE] [] {}"
    by (simp add: rep_def heap_ex_def blk_ok_def HEAP_VIRT_BASE_def is_free_def BLOCK_FREE_def BLOCK_USED_def)
  moreover have "live (hp_blk heap_ex) [HEAP_VIRT_BASE] = [HEAP_VIRT_BASE + 40 \<mapsto> 4056]"
  proof
    fix p
    have "p - 40 = HEAP_VIRT_BASE \<longleftrightarrow> p = HEAP_VIRT_BASE + 40" by (auto simp: algebra_simps)
    then show "live (hp_blk heap_ex) [HEAP_VIRT_BASE] p = [HEAP_VIRT_BASE + 40 \<mapsto> 4056] p"
      by (simp add: live_def heap_ex_def is_free_def BLOCK_FREE_def BLOCK_USED_def BLOCK_SIZE_def)
  qed
  moreover have "backed heap_ex [0x7000]"
    using mm_tab_translate(1) ex_frames
    by (simp add: backed_def heap_ex_def heap_page_def HEAP_VIRT_BASE_def pmm_ex_avail)
  moreover have "mm_inv {} (hp_mm heap_ex)" "apart {} heap_ex [0x7000]"
    using mm_tab_inv by (simp_all add: heap_ex_def apart_def)
  ultimately show ?thesis unfolding heap_ok_def by blast
qed

theorem kmalloc_correct_witness:
  "heap_ok {} heap_ex [HEAP_VIRT_BASE + 40 \<mapsto> 4056] \<and> (\<exists>p h'. kmalloc 100 heap_ex = Some (p, h') \<and>
     p \<noteq> HEAP_VIRT_BASE + 40)"
proof -
  obtain p h' where k: "kmalloc 100 heap_ex = Some (p, h')"
    "if p = 0 then heap_ok {} h' [HEAP_VIRT_BASE + 40 \<mapsto> 4056] \<and>
       ((100 :: u64) = 0 \<or> unat (100 :: u64) + 4152 > 2 ^ 64 \<or> heap_stuck h')
     else [HEAP_VIRT_BASE + 40 \<mapsto> 4056 :: nat] p = None \<and>
       (\<exists>n. unat (100 :: u64) \<le> n \<and> heap_ok {} h' ([HEAP_VIRT_BASE + 40 \<mapsto> 4056] (p \<mapsto> n)))"
    using kmalloc_correct [OF heap_ex_ok, of 100] by blast
  have "HEAP_VIRT_BASE + 40 \<noteq> 0" by (simp add: HEAP_VIRT_BASE_def)
  then have "p \<noteq> HEAP_VIRT_BASE + 40" using k(2) by (auto split: if_splits)
  then show ?thesis using k(1) heap_ex_ok by blast
qed

theorem kfree_correct_witness:
  "heap_ok {} heap_ex [HEAP_VIRT_BASE + 40 \<mapsto> 4056] \<and>
   (\<exists>h'. kfree (HEAP_VIRT_BASE + 40) heap_ex = Some h' \<and> heap_ok {} h' Map.empty \<and>
      kfree (HEAP_VIRT_BASE + 40) h' = None)"
  using kfree_correct [OF heap_ex_ok, of "HEAP_VIRT_BASE + 40"] heap_ex_ok by simp

text \<open>The start of the heap on tables that have room for its first page.\<close>

definition heap_start :: heap where
  "heap_start = heap_ex\<lparr>hp_mm := mm_tab 0\<rparr>"

lemma heap_start_inv: "mm_inv {} (hp_mm heap_start)"
  using mm_tab_inv by (simp add: heap_start_def)

lemma heap_start_map:
  "\<exists>s'. vmm_map HEAP_VIRT_BASE 0x3000 VMM_WRITABLE ((mm_tab 0)\<lparr>mm_pmm := p\<rparr>) = Some (True, s')"
proof -
  let ?s = "(mm_tab 0)\<lparr>mm_pmm := p\<rparr>"
  have rd: "rd64 ?s (direct_map mm_ex + f) i = ent (mm_tab 0) f i" for f i
    by (simp add: ent_def rd64_def)
  have pv: "phys_to_virt ?s f = Some (direct_map mm_ex + f)" "direct_map mm_ex + f \<noteq> 0" if "f \<in> page_frames" for f
    using phys_to_virt_frame [OF mm_tab_ok that, of 0] by (simp_all add: phys_to_virt_def split: if_splits)
  have "ensure_table_in (direct_map mm_ex + 0x1000) 288 0 ?s = Some (direct_map mm_ex + 0x4000, ?s)"
    "ensure_table_in (direct_map mm_ex + 0x4000) 0 0 ?s = Some (direct_map mm_ex + 0x5000, ?s)"
    "ensure_table_in (direct_map mm_ex + 0x5000) 0 0 ?s = Some (direct_map mm_ex + 0x6000, ?s)"
    using ex_frames pv by (simp_all add: ensure_table_in_def rd ent_mm_tab PAGE_PRESENT_def PAGE_LARGE_def PAGE_MASK_def)
  moreover have "idx 3 HEAP_VIRT_BASE = 288" "idx 2 HEAP_VIRT_BASE = 0" "idx 1 HEAP_VIRT_BASE = 0"
    by (simp_all add: idx_def INDEX_MASK_def HEAP_VIRT_BASE_def)
  ultimately show ?thesis using ex_frames pv by (simp add: vmm_map_eq map_path_def)
qed

lemma heap_start_init: "\<exists>h'. heap_init heap_start = Some h'"
proof -
  obtain p where p: "pmm_alloc_page pmm_ex = (0x3000, p)"
    using pmm_pages.alloc_cases [OF pmm_ex_inv] pmm_ex_avail by (metis insert_not_empty singletonD)
  obtain s' where s': "vmm_map HEAP_VIRT_BASE 0x3000 VMM_WRITABLE ((mm_tab 0)\<lparr>mm_pmm := p\<rparr>) = Some (True, s')"
    using heap_start_map by blast
  let ?h = "heap_start\<lparr>heap_end := HEAP_VIRT_BASE, heap_last := 0, free_list := 0\<rparr>"
  have "expand ?h = Some (True, grow_heap (?h\<lparr>hp_mm := s'\<rparr>))"
    using p s' by (intro expand_cases(3) [of _ "0x3000" p]) (simp_all add: heap_start_def PMM_ALLOC_FAILED_def)
  then show ?thesis by (simp add: heap_init_def)
qed

theorem heap_init_correct_witness:
  "mm_inv {} (hp_mm heap_start) \<and> (\<exists>h'. heap_init heap_start = Some h' \<and> heap_ok {} h' Map.empty)"
  using heap_init_correct [OF heap_start_inv] heap_start_init heap_start_inv by (auto split: option.splits)

theorem heap_sessions_safe_witness:
  "\<exists>h1 p h. mm_inv {} (hp_mm heap_start) \<and> heap_init heap_start = Some h1 \<and> kmalloc 100 h1 = Some (p, h) \<and>
     alloc_session kmalloc kfree h1 h (if p = 0 then Map.empty else [p \<mapsto> 100]) \<and>
     (p \<noteq> 0 \<longrightarrow> unat HEAP_VIRT_BASE \<le> unat p \<and> unat p + 100 \<le> unat (heap_end h) \<and> kfree p h \<noteq> None)"
proof -
  obtain h1 where h1: "heap_init heap_start = Some h1" using heap_start_init by blast
  obtain p h where k: "kmalloc 100 h1 = Some (p, h)"
    using heap_sessions_safe [OF heap_start_inv h1 alloc_session.start, of 100] by blast
  have s: "alloc_session kmalloc kfree h1 h (if p = 0 then Map.empty else [p \<mapsto> 100])"
    using alloc_session.alloc [OF alloc_session.start, of kmalloc 100 h1 p h kfree] k by (auto split: if_splits)
  show ?thesis
    using heap_start_inv h1 k s heap_sessions_safe [OF heap_start_inv h1 s, of 100 p 100] by auto
qed

end
