(* ===== verification/Netstate.thy ===== *)
theory Netstate
  imports Bytes Interfaces
begin

text \<open>
  The state of the network stack: the static variables of the files of \<^verbatim>\<open>kernel/net\<close> and the
  registered network card.  Buffers are byte lists.  Reading or writing outside a buffer is
  \<open>None\<close>.

  The card is a parameter of the stack (function pointers in \<open>nic_t\<close>): the frames that
  successive calls of its \<open>recv\<close> deliver are \<open>n_rx\<close>, an empty frame standing for none; the
  frames handed to \<open>send\<close> are collected in \<open>n_tx\<close>, and \<open>n_txok\<close> is what \<open>send\<close> answers.
\<close>

subsection \<open>Connections\<close>

datatype tcp_state_t =
  TCP_CLOSED | TCP_SYN_SENT | TCP_ESTABLISHED | TCP_FIN_WAIT_1 | TCP_FIN_WAIT_2
  | TCP_CLOSE_WAIT | TCP_TIME_WAIT

definition TCP_RXBUF :: u32 where "TCP_RXBUF = 4096"
definition MAX_CONNS :: nat where "MAX_CONNS = 4"

record tcp_conn =
  tc_in_use :: bool
  tc_state :: tcp_state_t
  tc_dst_ip :: u32
  tc_dst_port :: u16
  tc_src_port :: u16
  snd_seq :: u32
  snd_una :: u32
  rcv_nxt :: u32
  rcv_win :: u16
  rxbuf :: bytes
  rxbuf_head :: u32
  rxbuf_tail :: u32

subsection \<open>ARP cache and UDP bindings\<close>

definition ARP_TABLE_SIZE :: nat where "ARP_TABLE_SIZE = 32"

record arp_entry =
  ae_ip :: u32
  ae_mac :: bytes
  ae_valid :: bool

definition MAX_BINDS :: nat where "MAX_BINDS = 16"

text \<open>The functions that are ever bound to a port.\<close>

datatype udp_recv_fn = Dns_recv_cb | Dhcp_recv_offer | Dhcp_recv_ack

record udp_bind_t =
  ub_port :: u16
  ub_fn :: udp_recv_fn
  ub_ctx :: u64
  ub_used :: bool

definition MAX_SOCKETS :: nat where "MAX_SOCKETS = 8"

subsection \<open>The state\<close>

record net =
  n_nic :: "bytes option" \<comment> \<open>the address of the registered card\<close>
  n_rx :: "bytes list"
  n_tx :: "bytes list"
  n_txok :: "bytes list \<Rightarrow> bytes \<Rightarrow> bool"
  s_frame :: bytes
  s_table :: "arp_entry list"
  s_ip :: u32
  s_netmask :: u32
  s_gateway :: u32
  s_dns :: u32
  s_id :: u16
  s_binds :: "udp_bind_t list"
  s_conns :: "tcp_conn list"
  s_next_port :: u16
  s_socks :: "nat option list"
  s_used :: "bool list"
  s_got_reply :: bool
  s_resolved_ip :: u32
  s_query_id :: u16
  s_got_offer :: bool
  s_got_ack :: bool
  s_offered_ip :: u32
  s_server_ip :: u32
  d_subnet :: u32
  d_gateway :: u32
  d_dns :: u32
  s_xid :: u32

definition nic_send :: "bytes \<Rightarrow> net \<Rightarrow> bool \<times> net" where
  "nic_send f s = (n_txok s (n_tx s) f, s\<lparr>n_tx := n_tx s @ [f]\<rparr>)"

definition nic_recv :: "nat \<Rightarrow> net \<Rightarrow> bytes \<times> net" where
  "nic_recv max_len s = (case n_rx s of [] \<Rightarrow> ([], s) | f # fs \<Rightarrow> (take max_len f, s\<lparr>n_rx := fs\<rparr>))"

text \<open>The static variables before the first call.\<close>

definition arp_zero :: arp_entry where
  "arp_zero = \<lparr>ae_ip = 0, ae_mac = replicate 6 0, ae_valid = False\<rparr>"

definition bind_zero :: udp_bind_t where
  "bind_zero = \<lparr>ub_port = 0, ub_fn = Dns_recv_cb, ub_ctx = 0, ub_used = False\<rparr>"

definition conn_zero :: tcp_conn where
  "conn_zero = \<lparr>tc_in_use = False, tc_state = TCP_CLOSED, tc_dst_ip = 0, tc_dst_port = 0, tc_src_port = 0,
     snd_seq = 0, snd_una = 0, rcv_nxt = 0, rcv_win = 0, rxbuf = replicate 4096 0, rxbuf_head = 0, rxbuf_tail = 0\<rparr>"

definition net_zero :: "bytes option \<Rightarrow> bytes list \<Rightarrow> (bytes list \<Rightarrow> bytes \<Rightarrow> bool) \<Rightarrow> net" where
  "net_zero nic rx txok = \<lparr>n_nic = nic, n_rx = rx, n_tx = [], n_txok = txok, s_frame = replicate 1528 0,
     s_table = replicate ARP_TABLE_SIZE arp_zero, s_ip = 0, s_netmask = 0, s_gateway = 0, s_dns = 0, s_id = 0,
     s_binds = replicate MAX_BINDS bind_zero, s_conns = replicate MAX_CONNS conn_zero, s_next_port = 49152,
     s_socks = replicate MAX_SOCKETS None, s_used = replicate MAX_SOCKETS False,
     s_got_reply = False, s_resolved_ip = 0, s_query_id = 0, s_got_offer = False, s_got_ack = False,
     s_offered_ip = 0, s_server_ip = 0, d_subnet = 0, d_gateway = 0, d_dns = 0, s_xid = 0\<rparr>"

end
