(* ===== verification/Checksum.thy ===== *)
theory Checksum
  imports Bytes
begin

text \<open>
  The internet checksum (\<^verbatim>\<open>kernel/net/checksum.c\<close>) and the byte swaps of
  \<^verbatim>\<open>kernel/net/eth.h\<close>.  The loops run over the bytes of the buffer; sums are 32-bit words.
\<close>

subsection \<open>Byte order\<close>

definition htons :: "u16 \<Rightarrow> u16" where
  "htons x = push_bit 8 x OR drop_bit 8 x"

definition ntohs :: "u16 \<Rightarrow> u16" where
  "ntohs x = htons x"

definition htonl :: "u32 \<Rightarrow> u32" where
  "htonl x = drop_bit 24 (x AND 0xff000000) OR drop_bit 8 (x AND 0x00ff0000)
     OR push_bit 8 (x AND 0x0000ff00) OR push_bit 24 (x AND 0x000000ff)"

definition ntohl :: "u32 \<Rightarrow> u32" where
  "ntohl x = htonl x"

subsection \<open>The checksum routines\<close>

fun csum_add :: "u32 \<Rightarrow> bytes \<Rightarrow> u32" where
  "csum_add s (a # b # bs) = csum_add (s + (push_bit 8 (ucast a) OR ucast b)) bs"
| "csum_add s [a] = s + push_bit 8 (ucast a)"
| "csum_add s [] = s"

function csum_fold :: "u32 \<Rightarrow> u32" where
  "csum_fold s = (if drop_bit 16 s \<noteq> 0 then csum_fold ((s AND 0xffff) + drop_bit 16 s) else s)"
  by pat_completeness auto

lemma fold_step:
  fixes s :: u32
  shows "unat ((s AND 0xffff) + drop_bit 16 s) = unat s mod 65536 + unat s div 65536"
proof -
  have a: "unat (s AND 0xffff) = unat s mod 65536"
  proof -
    have "s AND 0xffff = take_bit 16 s" by (simp add: take_bit_eq_mask mask_eq_exp_minus_1)
    then show ?thesis by (simp add: take_bit_eq_mod unat_mod)
  qed
  have d: "unat (drop_bit 16 s) = unat s div 65536"
    by (simp add: drop_bit_eq_div unat_div)
  have "unat s < 2 ^ 32" using unat_less [of s] by simp
  then have "unat s mod 65536 + unat s div 65536 < 2 ^ 32" by simp
  then show ?thesis
    using a d by (subst unat_add_lem [THEN iffD1]) simp_all
qed

lemma drop16_nonzero: "drop_bit 16 (s :: u32) \<noteq> 0 \<longleftrightarrow> 65536 \<le> unat s"
proof -
  have "unat (drop_bit 16 s) = unat s div 65536" by (simp add: drop_bit_eq_div unat_div)
  then show ?thesis by (metis div_eq_0_iff not_less unat_0 word_unat_eq_iff zero_neq_numeral)
qed

termination csum_fold
proof (relation "measure unat")
  fix s :: u32 assume "drop_bit 16 s \<noteq> 0"
  then have "65536 \<le> unat s" by (simp only: drop16_nonzero)
  then have "unat s mod 65536 + unat s div 65536 < unat s"
    using div_mult_mod_eq [of "unat s" 65536] by linarith
  then show "((s AND 0xffff) + drop_bit 16 s, s) \<in> measure unat" by (simp add: fold_step)
qed simp

declare csum_fold.simps [simp del]

definition ip_checksum :: "bytes \<Rightarrow> u16" where
  "ip_checksum data = ucast (NOT (csum_fold (csum_add 0 data)))"

definition pseudo_hdr :: "u32 \<Rightarrow> u32 \<Rightarrow> u8 \<Rightarrow> u16 \<Rightarrow> bytes" where
  "pseudo_hdr src_ip dst_ip proto seg_len =
     le_bytes 4 src_ip @ le_bytes 4 dst_ip @ [0, proto] @ le_bytes 2 (drop_bit 8 seg_len OR push_bit 8 seg_len)"

definition ip_pseudo_checksum :: "u32 \<Rightarrow> u32 \<Rightarrow> u8 \<Rightarrow> bytes \<Rightarrow> u16" where
  "ip_pseudo_checksum src_ip dst_ip proto segment =
     (let sum = csum_add 0 (pseudo_hdr src_ip dst_ip proto (of_nat (length segment)));
          sum = csum_add sum segment
      in ucast (NOT (csum_fold sum)))"

subsection \<open>Byte order lemmas\<close>

lemma htons_be [simp]: "le_bytes 2 (htons x) = be_bytes 2 x"
  by (simp add: le_bytes_def be_bytes_def upt_rec htons_def) (auto intro!: bit_word_eqI simp: bit_simps)

lemma swap_seg_len: "drop_bit 8 x OR push_bit 8 x = htons x"
  by (simp add: htons_def or.commute)

lemma htonl_masks:
  "htonl x = drop_bit 24 (x AND push_bit 24 (mask 8)) OR drop_bit 8 (x AND push_bit 16 (mask 8))
     OR push_bit 8 (x AND push_bit 8 (mask 8)) OR push_bit 24 (x AND mask 8)"
  by (simp add: htonl_def mask_eq_exp_minus_1 push_bit_eq_mult)

lemma htonl_be [simp]: "le_bytes 4 (htonl x) = be_bytes 4 x"
  by (simp add: le_bytes_def be_bytes_def upt_rec htonl_masks) (auto intro!: bit_word_eqI simp: bit_simps)

lemma be_bytes_cong: "le_bytes n x = le_bytes n y \<Longrightarrow> LENGTH('a) \<le> 8 * n \<Longrightarrow> (x :: 'a::len word) = y"
  by (metis le_word_le_bytes)

lemma ntohs_htons [simp]: "ntohs (htons x) = x"
proof (rule be_bytes_cong [of 2])
  show "le_bytes 2 (ntohs (htons x)) = le_bytes 2 x"
    using htons_be [of "htons x"] htons_be [of x] by (simp add: ntohs_def be_bytes_def)
qed simp

lemma ntohl_htonl [simp]: "ntohl (htonl x) = x"
proof (rule be_bytes_cong [of 4])
  show "le_bytes 4 (ntohl (htonl x)) = le_bytes 4 x"
    using htonl_be [of "htonl x"] htonl_be [of x] by (simp add: ntohl_def be_bytes_def)
qed simp

lemma ntohs_be_bytes [simp]: "ntohs (le_word (be_bytes 2 x)) = x"
  by (simp flip: htons_be)

lemma ntohl_be_bytes [simp]: "ntohl (le_word (be_bytes 4 x)) = x"
  by (simp flip: htonl_be)

subsection \<open>The sum of the 16-bit words of a buffer\<close>

fun wsum :: "bytes \<Rightarrow> nat" where
  "wsum (a # b # bs) = 256 * unat a + unat b + wsum bs"
| "wsum [a] = 256 * unat a"
| "wsum [] = 0"

lemma unat_u8: "unat (a :: u8) \<le> 255"
  using unat_less [of a] by simp

lemma wsum_bound: "wsum bs \<le> 65535 * ((length bs + 1) div 2)"
proof (induction bs rule: wsum.induct)
  case (1 a b bs)
  have "256 * unat a + unat b \<le> 65535" using unat_u8 [of a] unat_u8 [of b] by linarith
  then show ?case using 1 by simp
next
  case (2 a)
  then show ?case using unat_u8 [of a] by simp
qed simp

lemma wsum_append: "even (length xs) \<Longrightarrow> wsum (xs @ ys) = wsum xs + wsum ys"
  by (induction xs rule: wsum.induct) simp_all

lemma unat_ucast_u8: "unat (ucast (b :: u8) :: u32) = unat b"
  using unat_u8 [of b] by (simp add: unsigned_ucast_eq take_bit_nat_eq_self)

lemma word16: "unat ((push_bit 8 (ucast (a :: u8)) OR ucast (b :: u8)) :: u32) = 256 * unat a + unat b"
proof -
  let ?w = "(push_bit 8 (ucast a) OR ucast b) :: u32"
  have t: "take_bit 8 ?w = ucast b" "drop_bit 8 ?w = ucast a"
    using bit_imp_le_length [of a] bit_imp_le_length [of b]
    by (auto intro!: bit_word_eqI simp: bit_simps) (fastforce simp: not_less)+
  have "unat (take_bit 8 ?w) = unat ?w mod 256" "unat (drop_bit 8 ?w) = unat ?w div 256"
    by (simp_all add: take_bit_eq_mod unat_mod drop_bit_eq_div unat_div)
  then have "unat ?w mod 256 = unat b" "unat ?w div 256 = unat a"
    unfolding t by (simp_all add: unat_ucast_u8)
  then show ?thesis using div_mult_mod_eq [of "unat ?w" 256] by simp
qed

lemma word16_single: "unat (push_bit 8 (ucast (a :: u8)) :: u32) = 256 * unat a"
  using word16 [of a 0] by simp

lemma unat_csum_add:
  "unat s + wsum bs < 2 ^ 32 \<Longrightarrow> unat (csum_add s bs) = unat s + wsum bs"
proof (induction s bs rule: csum_add.induct)
  case (1 s a b bs)
  have u: "unat (s + (push_bit 8 (ucast a) OR ucast b)) = unat s + (256 * unat a + unat b)"
    using 1(2) by (subst unat_add_lem [THEN iffD1]) (simp_all add: word16)
  then show ?case using 1 by simp
next
  case (2 s a)
  then show ?case by (simp add: word16_single unat_add_lem [THEN iffD1])
qed simp

text \<open>The ones-complement value of a sum, in the range 1 to 65535 for a positive sum.\<close>

definition ones :: "nat \<Rightarrow> nat" where
  "ones n = (if n = 0 then 0 else (n - 1) mod 65535 + 1)"

lemma ones_le: "ones n \<le> 65535"
  using mod_less_divisor [of 65535 "n - 1"] by (simp add: ones_def Suc_le_eq)

lemma ones_small: "n \<le> 65535 \<Longrightarrow> ones n = n"
  by (simp add: ones_def)

lemma ones_fold: "65536 \<le> n \<Longrightarrow> ones (n mod 65536 + n div 65536) = ones n"
proof -
  assume n: "65536 \<le> n"
  let ?m = "n mod 65536 + n div 65536"
  have m: "1 \<le> ?m" "n = ?m + 65535 * (n div 65536)" using n div_mult_mod_eq [of n 65536] by linarith+
  then have "n - 1 = (?m - 1) + 65535 * (n div 65536)" by linarith
  then have "(n - 1) mod 65535 = (?m - 1) mod 65535" by (metis mod_mult_self2)
  moreover have "?m \<noteq> 0" "n \<noteq> 0" using m n by linarith+
  ultimately show ?thesis by (simp add: ones_def)
qed

lemma ones_eq_65535: "ones n = 65535 \<longleftrightarrow> 0 < n \<and> n mod 65535 = 0"
proof (cases "n = 0")
  case False
  have "(n - 1) mod 65535 = 65534 \<longleftrightarrow> n mod 65535 = 0"
    using False mod_Suc [of "n - 1" 65535] by (auto split: if_splits)
  then show ?thesis using False by (simp add: ones_def)
qed (simp add: ones_def)

lemma ones_mod: "ones n mod 65535 = n mod 65535"
proof (cases "n = 0")
  case False
  then show ?thesis by (simp add: ones_def mod_Suc_eq)
qed (simp add: ones_def)

lemma unat_csum_fold: "unat (csum_fold s) = ones (unat s)"
proof (induction s rule: csum_fold.induct)
  case (1 s)
  show ?case
  proof (cases "drop_bit 16 s \<noteq> 0")
    case True
    then have "65536 \<le> unat s" by (simp only: drop16_nonzero)
    then show ?thesis using 1 [OF True] True ones_fold [of "unat s"]
      by (subst csum_fold.simps) (simp add: fold_step)
  next
    case False
    then have "unat s \<le> 65535" using drop16_nonzero [of s] by linarith
    moreover have "csum_fold s = s" using False by (subst csum_fold.simps) simp
    ultimately show ?thesis by (simp add: ones_small)
  qed
qed

lemma unat_complement:
  fixes s :: u32
  assumes "unat s \<le> 65535"
  shows "unat (ucast (NOT s) :: u16) = 65535 - unat s"
proof -
  have "NOT s = - 1 - s" by (simp add: not_eq_complement)
  then have "unat (NOT s) = unat (- 1 :: u32) - unat s" by (simp only: unat_sub word_order.extremum)
  moreover have "unat (- 1 :: u32) = 65535 + 65536 * 65535" by (simp add: unsigned_minus_1_eq_mask mask_eq_exp_minus_1)
  ultimately have "unat (NOT s) = 65535 - unat s + 65536 * 65535" using assms by linarith
  then have "unat (NOT s) mod 65536 = (65535 - unat s) mod 65536" by (simp only: mod_mult_self2)
  then show ?thesis by (simp add: unsigned_ucast_eq take_bit_eq_mod)
qed

lemma ip_checksum_ones:
  assumes "wsum data < 2 ^ 32"
  shows "unat (ip_checksum data) = 65535 - ones (wsum data)"
  using assms unat_complement [of "csum_fold (csum_add 0 data)"] unat_csum_add [of 0 data] ones_le
  by (simp add: ip_checksum_def unat_csum_fold)

lemma short_sum: "length bs \<le> 65536 \<Longrightarrow> wsum bs < 2 ^ 32"
  using wsum_bound [of bs] by (intro le_less_trans [OF wsum_bound]) simp

lemma be_bytes_2: "be_bytes 2 (c :: u16) = [ucast (drop_bit 8 c), ucast c]"
  by (simp add: be_bytes_def le_bytes_def upt_rec)

lemma wsum_be_bytes: "wsum (be_bytes 2 (c :: u16) @ bs) = unat c + wsum bs"
proof -
  have "unat (ucast (drop_bit 8 c) :: u8) = unat c div 256"
    using unat_less [of c] by (simp add: unsigned_ucast_eq drop_bit_eq_div unat_div take_bit_nat_eq_self)
  moreover have "unat (ucast c :: u8) = unat c mod 256"
    by (simp add: unsigned_ucast_eq take_bit_eq_mod)
  ultimately show ?thesis using mult_div_mod_eq [of 256 "unat c"] by (simp add: be_bytes_2)
qed

lemma ip_checksum_zero:
  assumes "wsum data < 2 ^ 32"
  shows "ip_checksum data = 0 \<longleftrightarrow> 0 < wsum data \<and> wsum data mod 65535 = 0"
proof -
  have "ip_checksum data = 0 \<longleftrightarrow> unat (ip_checksum data) = 0" by (simp add: unat_eq_0)
  also have "\<dots> \<longleftrightarrow> ones (wsum data) = 65535" using ip_checksum_ones [OF assms] ones_le [of "wsum data"] by linarith
  finally show ?thesis by (simp add: ones_eq_65535)
qed

lemma complement_sum:
  assumes "c = 65535 - ones n"
  shows "0 < n + c \<and> (n + c) mod 65535 = 0"
proof (cases "n = 0")
  case False
  have "ones n \<le> 65535" by (rule ones_le)
  then have "(n + c) mod 65535 = (ones n + c) mod 65535" using ones_mod [of n] by (metis mod_add_left_eq)
  also have "\<dots> = 0" using ones_le [of n] assms by simp
  finally show ?thesis using False by simp
qed (use assms in \<open>simp add: ones_def\<close>)

lemma checksum_field:
  assumes "even (length xs)" "length (xs @ [0, 0] @ ys) \<le> 65535"
  defines "c \<equiv> ip_checksum (xs @ [0, 0] @ ys)"
  shows "ip_checksum (xs @ be_bytes 2 c @ ys) = 0"
    "(65535 - unat c) mod 65535 = wsum (xs @ [0, 0] @ ys) mod 65535"
proof -
  have l: "wsum (xs @ [0, 0] @ ys) < 2 ^ 32" "wsum (xs @ be_bytes 2 c @ ys) < 2 ^ 32"
    using assms(2) short_sum [of "xs @ [0, 0] @ ys"] short_sum [of "xs @ be_bytes 2 c @ ys"] by simp_all
  have w: "wsum (xs @ be_bytes 2 c @ ys) = wsum (xs @ [0, 0] @ ys) + unat c"
    using assms(1) by (simp add: wsum_append wsum_be_bytes)
  have c: "unat c = 65535 - ones (wsum (xs @ [0, 0] @ ys))" unfolding c_def by (rule ip_checksum_ones [OF l(1)])
  show "ip_checksum (xs @ be_bytes 2 c @ ys) = 0"
    unfolding ip_checksum_zero [OF l(2)] w by (rule complement_sum [OF c])
  show "(65535 - unat c) mod 65535 = wsum (xs @ [0, 0] @ ys) mod 65535"
    using c ones_le ones_mod by simp
qed



end
