(* ===== verification/Link.thy ===== *)
theory Link
  imports Netstate Checksum
begin

text \<open>
  Sending Ethernet frames (\<^verbatim>\<open>kernel/net/eth.c\<close>) and the ARP cache (\<^verbatim>\<open>kernel/net/arp.c\<close>).
\<close>

subsection \<open>Frames\<close>

definition ETH_HLEN :: nat where "ETH_HLEN = 14"
definition ETH_MAX_FRAME :: nat where "ETH_MAX_FRAME = 1514"
definition ETHERTYPE_ARP :: u16 where "ETHERTYPE_ARP = 0x0806"
definition ETHERTYPE_IPV4 :: u16 where "ETHERTYPE_IPV4 = 0x0800"
definition ETH_BROADCAST :: bytes where "ETH_BROADCAST = [0xff, 0xff, 0xff, 0xff, 0xff, 0xff]"

text \<open>
  The frame is put together in a static buffer; what follows a short payload in the padding up
  to 60 bytes is what earlier frames left there.
\<close>

definition eth_send :: "bytes \<Rightarrow> u16 \<Rightarrow> bytes \<Rightarrow> net \<Rightarrow> (bool \<times> net) option" where
  "eth_send dst_mac ethertype payload s = (case n_nic s of None \<Rightarrow> Some (False, s) | Some mac \<Rightarrow>
     if length payload + ETH_HLEN > ETH_MAX_FRAME + ETH_HLEN then Some (False, s) else do {
       f \<leftarrow> put 0 dst_mac (s_frame s);
       f \<leftarrow> put 6 mac f;
       f \<leftarrow> put 12 (le_bytes 2 (htons ethertype)) f;
       f \<leftarrow> put ETH_HLEN payload f;
       let total = ETH_HLEN + length payload;
       let total = (if total < 60 then 60 else total);
       frm \<leftarrow> slice 0 total f;
       Some (nic_send frm (s\<lparr>s_frame := f\<rparr>))
     })"

subsection \<open>The ARP cache\<close>

definition find_entry :: "u32 \<Rightarrow> net \<Rightarrow> nat option" where
  "find_entry ip s = find (\<lambda>i. ae_valid (s_table s ! i) \<and> ae_ip (s_table s ! i) = ip) [0..<ARP_TABLE_SIZE]"

definition arp_insert :: "u32 \<Rightarrow> bytes \<Rightarrow> net \<Rightarrow> net" where
  "arp_insert ip mac s =
     (let i = (case find_entry ip s of Some i \<Rightarrow> i | None \<Rightarrow>
          (case find (\<lambda>i. \<not> ae_valid (s_table s ! i)) [0..<ARP_TABLE_SIZE] of Some i \<Rightarrow> i | None \<Rightarrow> 0))
      in s\<lparr>s_table := (s_table s)[i := \<lparr>ae_ip = ip, ae_mac = mac, ae_valid = True\<rparr>]\<rparr>)"

definition ARP_HW_ETHERNET :: u16 where "ARP_HW_ETHERNET = 1"
definition ARP_PROTO_IP :: u16 where "ARP_PROTO_IP = 0x0800"
definition ARP_OP_REQUEST :: u16 where "ARP_OP_REQUEST = 1"
definition ARP_OP_REPLY :: u16 where "ARP_OP_REPLY = 2"

record arp_pkt =
  ar_hw_type :: u16
  ar_proto_type :: u16
  ar_hw_len :: u8
  ar_proto_len :: u8
  ar_op :: u16
  ar_sender_mac :: bytes
  ar_sender_ip :: u32
  ar_target_mac :: bytes
  ar_target_ip :: u32

text \<open>The packed layout of the structure; the fields hold what is in memory.\<close>

definition arp_pkt_bytes :: "arp_pkt \<Rightarrow> bytes" where
  "arp_pkt_bytes a = le_bytes 2 (ar_hw_type a) @ le_bytes 2 (ar_proto_type a) @ [ar_hw_len a, ar_proto_len a] @
     le_bytes 2 (ar_op a) @ ar_sender_mac a @ le_bytes 4 (ar_sender_ip a) @ ar_target_mac a @ le_bytes 4 (ar_target_ip a)"

definition arp_pkt_at :: "bytes \<Rightarrow> arp_pkt option" where
  "arp_pkt_at p = do {
     hw \<leftarrow> slice 0 2 p; pr \<leftarrow> slice 2 2 p; hl \<leftarrow> slice 4 1 p; pl \<leftarrow> slice 5 1 p; op \<leftarrow> slice 6 2 p;
     sm \<leftarrow> slice 8 6 p; si \<leftarrow> slice 14 4 p; tm \<leftarrow> slice 18 6 p; ti \<leftarrow> slice 24 4 p;
     Some \<lparr>ar_hw_type = le_word hw, ar_proto_type = le_word pr, ar_hw_len = hd hl, ar_proto_len = hd pl,
       ar_op = le_word op, ar_sender_mac = sm, ar_sender_ip = le_word si, ar_target_mac = tm,
       ar_target_ip = le_word ti\<rparr> }"

definition arp_recv :: "bytes \<Rightarrow> net \<Rightarrow> net option" where
  "arp_recv pkt s = (if length pkt < 28 then Some s else do {
     a \<leftarrow> arp_pkt_at pkt;
     if ntohs (ar_hw_type a) \<noteq> ARP_HW_ETHERNET then Some s
     else if ntohs (ar_proto_type a) \<noteq> ARP_PROTO_IP then Some s
     else do {
       let s = arp_insert (ar_sender_ip a) (ar_sender_mac a) s;
       if ntohs (ar_op a) = ARP_OP_REQUEST then
         if s_ip s = 0 \<or> ar_target_ip a \<noteq> s_ip s then Some s
         else (case n_nic s of None \<Rightarrow> Some s | Some mac \<Rightarrow> do {
           let reply = \<lparr>ar_hw_type = htons ARP_HW_ETHERNET, ar_proto_type = htons ARP_PROTO_IP,
             ar_hw_len = 6, ar_proto_len = 4, ar_op = htons ARP_OP_REPLY, ar_sender_mac = mac,
             ar_sender_ip = s_ip s, ar_target_mac = ar_sender_mac a, ar_target_ip = ar_sender_ip a\<rparr>;
           (_, s) \<leftarrow> eth_send (ar_sender_mac a) ETHERTYPE_ARP (arp_pkt_bytes reply) s;
           Some s })
       else Some s
     } })"

definition arp_lookup :: "u32 \<Rightarrow> net \<Rightarrow> (bytes option \<times> net) option" where
  "arp_lookup ip s = (case find_entry ip s of Some i \<Rightarrow> Some (Some (ae_mac (s_table s ! i)), s)
     | None \<Rightarrow> (case n_nic s of None \<Rightarrow> Some (None, s) | Some mac \<Rightarrow> do {
         let req = \<lparr>ar_hw_type = htons ARP_HW_ETHERNET, ar_proto_type = htons ARP_PROTO_IP,
           ar_hw_len = 6, ar_proto_len = 4, ar_op = htons ARP_OP_REQUEST, ar_sender_mac = mac,
           ar_sender_ip = s_ip s, ar_target_mac = replicate 6 0, ar_target_ip = ip\<rparr>;
         (_, s) \<leftarrow> eth_send ETH_BROADCAST ETHERTYPE_ARP (arp_pkt_bytes req) s;
         Some (None, s) }))"


subsection \<open>Invariant\<close>

definition conn_inv :: "tcp_conn \<Rightarrow> bool" where
  "conn_inv c \<longleftrightarrow> length (rxbuf c) = 4096 \<and> rxbuf_head c < TCP_RXBUF \<and> rxbuf_tail c < TCP_RXBUF"

definition net_inv :: "net \<Rightarrow> bool" where
  "net_inv s \<longleftrightarrow> length (s_frame s) = 1528 \<and> length (s_table s) = ARP_TABLE_SIZE \<and>
     (\<forall>e \<in> set (s_table s). length (ae_mac e) = 6) \<and> (\<forall>mac. n_nic s = Some mac \<longrightarrow> length mac = 6) \<and>
     length (s_binds s) = MAX_BINDS \<and> length (s_conns s) = MAX_CONNS \<and> (\<forall>c \<in> set (s_conns s). conn_inv c) \<and>
     length (s_socks s) = MAX_SOCKETS \<and> length (s_used s) = MAX_SOCKETS \<and>
     (\<forall>i. Some i \<in> set (s_socks s) \<longrightarrow> i < MAX_CONNS)"

lemma net_inv_zero:
  "(\<And>mac. nic = Some mac \<Longrightarrow> length mac = 6) \<Longrightarrow> net_inv (net_zero nic rx txok)"
  by (auto simp: net_inv_def net_zero_def arp_zero_def conn_zero_def conn_inv_def TCP_RXBUF_def MAX_SOCKETS_def)

text \<open>Sending changes the frame buffer, the packet counter and the frames sent only.\<close>

definition sent :: "net \<Rightarrow> net \<Rightarrow> bool" where
  "sent s s' \<longleftrightarrow> (\<exists>f tx n. s' = s\<lparr>s_frame := f, n_tx := n_tx s @ tx, s_id := n\<rparr> \<and> length f = length (s_frame s))"

lemma sent_refl [simp]: "sent s s"
  unfolding sent_def by (intro exI [of _ "s_frame s"] exI [of _ "[]"] exI [of _ "s_id s"]) simp

lemma sent_trans: "sent s s' \<Longrightarrow> sent s' s'' \<Longrightarrow> sent s s''"
proof -
  assume "sent s s'" "sent s' s''"
  then obtain f tx n f' tx' n' where "s' = s\<lparr>s_frame := f, n_tx := n_tx s @ tx, s_id := n\<rparr>" "length f = length (s_frame s)"
    "s'' = s'\<lparr>s_frame := f', n_tx := n_tx s' @ tx', s_id := n'\<rparr>" "length f' = length (s_frame s')"
    unfolding sent_def by blast
  then have "s'' = s\<lparr>s_frame := f', n_tx := n_tx s @ (tx @ tx'), s_id := n'\<rparr>" "length f' = length (s_frame s)"
    by simp_all
  then show "sent s s''" unfolding sent_def by blast
qed

lemma sentD:
  assumes "sent s s'"
  shows "n_nic s' = n_nic s" "n_rx s' = n_rx s" "s_table s' = s_table s" "s_ip s' = s_ip s"
    "s_netmask s' = s_netmask s" "s_gateway s' = s_gateway s" "s_dns s' = s_dns s" "s_binds s' = s_binds s"
    "s_conns s' = s_conns s" "s_socks s' = s_socks s" "s_used s' = s_used s" "s_next_port s' = s_next_port s"
    "length (s_frame s') = length (s_frame s)" "net_inv s' = net_inv s"
    "\<exists>tx. n_tx s' = n_tx s @ tx"
  using assms by (auto simp: sent_def net_inv_def)

text \<open>The frame that goes out, with the padding that the buffer happens to hold.\<close>

definition eth_frame :: "bytes \<Rightarrow> bytes \<Rightarrow> bytes \<Rightarrow> u16 \<Rightarrow> bytes \<Rightarrow> bytes" where
  "eth_frame old dst src et payload = take (max 60 (14 + length payload))
     (dst @ src @ be_bytes 2 et @ payload @ drop (14 + length payload) old)"

lemma eth_send_spec:
  assumes inv: "net_inv s" and d: "length dst = 6"
  shows "\<exists>ok s'. eth_send dst et payload s = Some (ok, s') \<and> sent s s' \<and>
    (case n_nic s of Some mac \<Rightarrow> length payload \<le> 1514 \<longrightarrow>
         n_tx s' = n_tx s @ [eth_frame (s_frame s) dst mac et payload] \<and>
         ok = n_txok s (n_tx s) (eth_frame (s_frame s) dst mac et payload)
     | None \<Rightarrow> \<not> ok \<and> s' = s) \<and>
    (1514 < length payload \<longrightarrow> \<not> ok \<and> s' = s)"
proof (cases "n_nic s")
  case None
  then show ?thesis by (intro exI [of _ False] exI [of _ s]) (simp add: eth_send_def)
next
  case (Some mac)
  have m: "length mac = 6" and f: "length (s_frame s) = 1528" using inv Some by (auto simp: net_inv_def)
  show ?thesis
  proof (cases "1514 < length payload")
    case True
    then show ?thesis using Some
      by (intro exI [of _ False] exI [of _ s]) (simp add: eth_send_def ETH_HLEN_def ETH_MAX_FRAME_def)
  next
    case False
    let ?f = "dst @ mac @ be_bytes 2 et @ payload @ drop (14 + length payload) (s_frame s)"
    have p: "put 0 dst (s_frame s) = Some (dst @ drop 6 (s_frame s))" using f d by (simp add: put_def)
    have q: "put 6 mac (dst @ drop 6 (s_frame s)) = Some (dst @ mac @ drop 12 (s_frame s))"
      using f d m by (simp add: put_def)
    have r: "put 12 (le_bytes 2 (htons et)) (dst @ mac @ drop 12 (s_frame s)) =
        Some (dst @ mac @ be_bytes 2 et @ drop 14 (s_frame s))"
      using f d m by (simp add: put_def)
    have t: "put ETH_HLEN payload (dst @ mac @ be_bytes 2 et @ drop 14 (s_frame s)) = Some ?f"
      using f d m False by (simp add: put_def ETH_HLEN_def add.commute)
    have l: "length ?f = 1528" using f d m False by simp
    have u: "slice 0 60 ?f = Some (eth_frame (s_frame s) dst mac et payload)" if "length payload < 46"
      using l that by (simp add: slice_def eth_frame_def max_def)
    have v: "slice 0 (14 + length payload) ?f = Some (eth_frame (s_frame s) dst mac et payload)"
      if "\<not> length payload < 46"
      using l that False by (simp add: slice_def eth_frame_def max_def)
    have "eth_send dst et payload s =
        Some (nic_send (eth_frame (s_frame s) dst mac et payload) (s\<lparr>s_frame := ?f\<rparr>))"
      using Some False p q r t u v
      by (cases "length payload < 46") (simp_all add: eth_send_def ETH_HLEN_def ETH_MAX_FRAME_def)
    moreover have "sent s (s\<lparr>s_frame := ?f, n_tx := n_tx s @ [eth_frame (s_frame s) dst mac et payload]\<rparr>)"
      unfolding sent_def using l f
      by (intro exI [of _ ?f] exI [of _ "[eth_frame (s_frame s) dst mac et payload]"] exI [of _ "s_id s"]) simp
    ultimately show ?thesis using Some False by (simp add: nic_send_def)
  qed
qed

subsection \<open>The cache\<close>

lemma find_upt_Some:
  "find P [0..<n] = Some i \<longleftrightarrow> i < n \<and> P i \<and> (\<forall>j < i. \<not> P j)"
  using first_free_Some [of 0 n "\<lambda>i. \<not> P i" i] by (simp add: first_free_def)

lemma find_upt_None: "find P [0..<n] = None \<longleftrightarrow> (\<forall>i < n. \<not> P i)"
  by (auto simp: find_None_iff)

lemma option_eqI: "(\<And>x. a = Some x \<longleftrightarrow> b = Some x) \<Longrightarrow> a = b"
  by (metis not_None_eq)

text \<open>The address cached for an IP address, if any.\<close>

definition cached :: "net \<Rightarrow> u32 \<Rightarrow> bytes option" where
  "cached s ip = map_option (\<lambda>i. ae_mac (s_table s ! i)) (find_entry ip s)"

definition arp_slot :: "u32 \<Rightarrow> net \<Rightarrow> nat" where
  "arp_slot ip s = (case find_entry ip s of Some i \<Rightarrow> i | None \<Rightarrow>
     (case find (\<lambda>i. \<not> ae_valid (s_table s ! i)) [0..<ARP_TABLE_SIZE] of Some i \<Rightarrow> i | None \<Rightarrow> 0))"

lemma arp_insert_slot:
  "arp_insert ip mac s = s\<lparr>s_table := (s_table s)[arp_slot ip s := \<lparr>ae_ip = ip, ae_mac = mac, ae_valid = True\<rparr>]\<rparr>"
  by (simp add: arp_insert_def arp_slot_def)

lemma arp_slot_less: "arp_slot ip s < ARP_TABLE_SIZE"
  by (auto simp: arp_slot_def find_entry_def ARP_TABLE_SIZE_def find_upt_Some split: option.split)

lemma arp_insert_inv: "net_inv s \<Longrightarrow> length mac = 6 \<Longrightarrow> net_inv (arp_insert ip mac s)"
  by (auto simp: net_inv_def arp_insert_slot dest!: set_update_subset_insert [THEN subsetD])

text \<open>No IP address has two entries.\<close>

definition arp_unique :: "net \<Rightarrow> bool" where
  "arp_unique s \<longleftrightarrow> (\<forall>i < ARP_TABLE_SIZE. \<forall>j < ARP_TABLE_SIZE. ae_valid (s_table s ! i) \<longrightarrow> ae_valid (s_table s ! j) \<longrightarrow>
     ae_ip (s_table s ! i) = ae_ip (s_table s ! j) \<longrightarrow> i = j)"

lemma find_entry_iff:
  assumes "arp_unique s"
  shows "find_entry ip s = Some i \<longleftrightarrow> i < ARP_TABLE_SIZE \<and> ae_valid (s_table s ! i) \<and> ae_ip (s_table s ! i) = ip"
proof
  assume r: "i < ARP_TABLE_SIZE \<and> ae_valid (s_table s ! i) \<and> ae_ip (s_table s ! i) = ip"
  then obtain j where j: "find_entry ip s = Some j" using find_upt_None unfolding find_entry_def by fastforce
  then have "j < ARP_TABLE_SIZE \<and> ae_valid (s_table s ! j) \<and> ae_ip (s_table s ! j) = ip"
    by (auto simp: find_entry_def find_upt_Some)
  then have "j = i" using r assms by (auto simp: arp_unique_def)
  then show "find_entry ip s = Some i" using j by simp
qed (auto simp: find_entry_def find_upt_Some)

lemma arp_slot_hit:
  assumes "arp_unique s" "i < ARP_TABLE_SIZE" "ae_valid (s_table s ! i)" "ae_ip (s_table s ! i) = ip"
  shows "arp_slot ip s = i"
  using find_entry_iff [OF assms(1), of ip i] assms by (simp add: arp_slot_def)

text \<open>
  The cache answers with the address that was inserted last for an IP address.  An
  insertion forgets another address only when all entries are in use, and then exactly the one
  in the first entry; the cache never holds two entries for one IP address.
\<close>

lemma arp_insert_correct:
  assumes "net_inv s" "arp_unique s"
  shows "arp_unique (arp_insert ip mac s) \<and> cached (arp_insert ip mac s) ip = Some mac \<and>
    (\<forall>ip'. ip' \<noteq> ip \<longrightarrow> cached (arp_insert ip mac s) ip' =
       (if cached s ip = None \<and> (\<forall>i < ARP_TABLE_SIZE. ae_valid (s_table s ! i)) \<and> ae_ip (s_table s ! 0) = ip'
        then None else cached s ip'))"
proof -
  let ?s = "arp_insert ip mac s"
  define k where "k = arp_slot ip s"
  have len: "length (s_table s) = ARP_TABLE_SIZE" using assms(1) by (simp add: net_inv_def)
  have kl: "k < ARP_TABLE_SIZE" unfolding k_def by (rule arp_slot_less)
  have t: "s_table ?s ! i = (if i = k then \<lparr>ae_ip = ip, ae_mac = mac, ae_valid = True\<rparr> else s_table s ! i)"
    if "i < ARP_TABLE_SIZE" for i
    using that len by (simp add: arp_insert_slot k_def)
  have hit: "k = i" if "i < ARP_TABLE_SIZE" "ae_valid (s_table s ! i)" "ae_ip (s_table s ! i) = ip" for i
    unfolding k_def using arp_slot_hit [OF assms(2) that] .
  have u: "arp_unique ?s"
    unfolding arp_unique_def
  proof (intro allI impI)
    fix i j assume ij: "i < ARP_TABLE_SIZE" "j < ARP_TABLE_SIZE" "ae_valid (s_table ?s ! i)" "ae_valid (s_table ?s ! j)"
      "ae_ip (s_table ?s ! i) = ae_ip (s_table ?s ! j)"
    have only: "l = k" if "l < ARP_TABLE_SIZE" "ae_valid (s_table ?s ! l)" "ae_ip (s_table ?s ! l) = ip" for l
    proof (rule ccontr)
      assume "l \<noteq> k"
      then have e: "s_table ?s ! l = s_table s ! l" using t [OF that(1)] by simp
      have "k = l" using that unfolding e by (intro hit)
      then show False using \<open>l \<noteq> k\<close> by simp
    qed
    show "i = j"
    proof (cases "i = k \<or> j = k")
      case True
      then have "ae_ip (s_table ?s ! i) = ip \<or> ae_ip (s_table ?s ! j) = ip" using t [OF kl] by auto
      then have "ae_ip (s_table ?s ! i) = ip" "ae_ip (s_table ?s ! j) = ip" using ij(5) by auto
      then show ?thesis using only [OF ij(1,3)] only [OF ij(2,4)] by simp
    next
      case False
      then show ?thesis using ij t [of i] t [of j] assms(2) by (auto simp: arp_unique_def)
    qed
  qed
  have same: "find_entry ip ?s = Some k" using find_entry_iff [OF u, of ip k] kl t by simp
  have other: "cached ?s ip' = (if cached s ip = None \<and> (\<forall>i < ARP_TABLE_SIZE. ae_valid (s_table s ! i)) \<and>
      ae_ip (s_table s ! 0) = ip' then None else cached s ip')" if ne: "ip' \<noteq> ip" for ip'
  proof (cases "find_entry ip' s = Some k")
    case True
    then have kk: "ae_valid (s_table s ! k)" "ae_ip (s_table s ! k) = ip'" by (auto simp: find_entry_def find_upt_Some)
    have n: "find_entry ip s = None"
    proof (rule ccontr)
      assume "find_entry ip s \<noteq> None"
      then obtain j where j: "find_entry ip s = Some j" by auto
      then have "k = j" by (simp add: k_def arp_slot_def)
      then show False using kk ne j by (auto simp: find_entry_def find_upt_Some)
    qed
    have full: "\<forall>i < ARP_TABLE_SIZE. ae_valid (s_table s ! i)"
    proof (rule ccontr)
      assume "\<not> ?thesis"
      then obtain j where j: "find (\<lambda>i. \<not> ae_valid (s_table s ! i)) [0..<ARP_TABLE_SIZE] = Some j"
        using find_upt_None [of "\<lambda>i. \<not> ae_valid (s_table s ! i)" ARP_TABLE_SIZE] by auto
      then have "k = j" using n by (simp add: k_def arp_slot_def)
      then show False using kk j by (simp add: find_upt_Some)
    qed
    then have z: "k = 0"
      using n find_upt_None [of "\<lambda>i. \<not> ae_valid (s_table s ! i)" ARP_TABLE_SIZE] by (simp add: k_def arp_slot_def)
    have "find_entry ip' ?s \<noteq> Some i" for i
      using find_entry_iff [OF u, of ip' i] find_entry_iff [OF assms(2), of ip' i] True t ne by auto
    then have "find_entry ip' ?s = None" by (cases "find_entry ip' ?s") auto
    moreover have "cached s ip = None \<and> (\<forall>i < ARP_TABLE_SIZE. ae_valid (s_table s ! i)) \<and> ae_ip (s_table s ! 0) = ip'"
      using n full z kk by (simp add: cached_def)
    ultimately show ?thesis unfolding cached_def by simp
  next
    case False
    have iff: "find_entry ip' ?s = Some i \<longleftrightarrow> find_entry ip' s = Some i" for i
    proof (cases "i = k")
      case True
      then show ?thesis using find_entry_iff [OF u, of ip' k] t [OF kl] ne False by auto
    next
      case ik: False
      then have "s_table ?s ! i = s_table s ! i" if "i < ARP_TABLE_SIZE" using t [OF that] by simp
      then show ?thesis using find_entry_iff [OF u, of ip' i] find_entry_iff [OF assms(2), of ip' i] by auto
    qed
    have eq: "find_entry ip' ?s = find_entry ip' s" using iff by (rule option_eqI)
    have m: "ae_mac (s_table ?s ! i) = ae_mac (s_table s ! i)" if "find_entry ip' s = Some i" for i
      using that False t [of i] by (auto simp: find_entry_def find_upt_Some)
    have not: "\<not> (cached s ip = None \<and> (\<forall>i < ARP_TABLE_SIZE. ae_valid (s_table s ! i)) \<and> ae_ip (s_table s ! 0) = ip')"
    proof
      assume a: "cached s ip = None \<and> (\<forall>i < ARP_TABLE_SIZE. ae_valid (s_table s ! i)) \<and> ae_ip (s_table s ! 0) = ip'"
      then have "k = 0" using find_upt_None [of "\<lambda>i. \<not> ae_valid (s_table s ! i)" ARP_TABLE_SIZE]
        by (simp add: k_def arp_slot_def cached_def)
      then show False using a False find_entry_iff [OF assms(2), of ip' 0] by (simp add: ARP_TABLE_SIZE_def)
    qed
    have "cached ?s ip' = cached s ip'" unfolding cached_def eq using m by (cases "find_entry ip' s") simp_all
    then show ?thesis unfolding if_not_P [OF not] .
  qed
  have "cached ?s ip = Some mac" using same t [OF kl] by (simp add: cached_def)
  then show ?thesis using u by (intro conjI allI impI) (assumption | rule other)+
qed

subsection \<open>Lookup and incoming packets\<close>

lemma length_arp_pkt_bytes:
  "length (ar_sender_mac a) = 6 \<Longrightarrow> length (ar_target_mac a) = 6 \<Longrightarrow> length (arp_pkt_bytes a) = 28"
  by (simp add: arp_pkt_bytes_def)

lemma arp_pkt_at_bytes:
  "length (ar_sender_mac a) = 6 \<Longrightarrow> length (ar_target_mac a) = 6 \<Longrightarrow> arp_pkt_at (arp_pkt_bytes a) = Some a"
  by (simp add: arp_pkt_at_def arp_pkt_bytes_def slice_def)

lemma arp_pkt_at_ok:
  assumes "28 \<le> length p"
  shows "\<exists>a. arp_pkt_at p = Some a \<and> length (ar_sender_mac a) = 6 \<and> length (ar_target_mac a) = 6"
  using assms by (simp add: arp_pkt_at_def slice_def)

lemma cached_length:
  assumes "net_inv s" "cached s ip = Some m"
  shows "length m = 6"
  using assms by (auto simp: cached_def find_entry_def find_upt_Some net_inv_def)

lemma arp_lookup_spec:
  assumes inv: "net_inv s"
  shows "\<exists>s'. arp_lookup ip s = Some (cached s ip, s') \<and> sent s s' \<and> (cached s ip \<noteq> None \<longrightarrow> s' = s)"
proof (cases "find_entry ip s")
  case (Some i)
  then show ?thesis by (simp add: arp_lookup_def cached_def)
next
  case None
  show ?thesis
  proof (cases "n_nic s")
    case n: None
    then show ?thesis using None by (simp add: arp_lookup_def cached_def)
  next
    case (Some mac)
    obtain ok s' where "eth_send ETH_BROADCAST ETHERTYPE_ARP (arp_pkt_bytes
        \<lparr>ar_hw_type = htons ARP_HW_ETHERNET, ar_proto_type = htons ARP_PROTO_IP,
           ar_hw_len = 6, ar_proto_len = 4, ar_op = htons ARP_OP_REQUEST, ar_sender_mac = mac,
           ar_sender_ip = s_ip s, ar_target_mac = replicate 6 0, ar_target_ip = ip\<rparr>) s = Some (ok, s')" "sent s s'"
      using eth_send_spec [OF inv, of ETH_BROADCAST] unfolding ETH_BROADCAST_def by fastforce
    then show ?thesis using None Some by (simp add: arp_lookup_def cached_def)
  qed
qed

text \<open>What an incoming packet may change besides the ARP cache.\<close>

definition cache_upd :: "net \<Rightarrow> net \<Rightarrow> bool" where
  "cache_upd s s' \<longleftrightarrow> (\<exists>ip mac. length mac = 6 \<and> sent (arp_insert ip mac s) s')"

lemma cache_updD:
  assumes "cache_upd s s'"
  shows "n_nic s' = n_nic s" "n_rx s' = n_rx s" "s_ip s' = s_ip s" "s_binds s' = s_binds s" "s_conns s' = s_conns s"
    "s_socks s' = s_socks s" "s_used s' = s_used s" "net_inv s \<Longrightarrow> net_inv s'"
proof -
  obtain ip mac where m: "length mac = 6" "sent (arp_insert ip mac s) s'" using assms by (auto simp: cache_upd_def)
  note d = sentD [OF m(2)]
  show "n_nic s' = n_nic s" "n_rx s' = n_rx s" "s_ip s' = s_ip s" "s_binds s' = s_binds s" "s_conns s' = s_conns s"
    "s_socks s' = s_socks s" "s_used s' = s_used s"
    using d by (simp_all add: arp_insert_slot)
  show "net_inv s'" if "net_inv s" using d(14) arp_insert_inv [OF that m(1)] by simp
qed

lemma arp_recv_spec:
  assumes inv: "net_inv s"
  shows "\<exists>s'. arp_recv pkt s = Some s' \<and> (s' = s \<or> cache_upd s s')"
proof (cases "length pkt < 28")
  case True
  then show ?thesis by (simp add: arp_recv_def)
next
  case False
  then obtain a where a: "arp_pkt_at pkt = Some a" "length (ar_sender_mac a) = 6" "length (ar_target_mac a) = 6"
    using arp_pkt_at_ok [of pkt] by auto
  let ?s = "arp_insert (ar_sender_ip a) (ar_sender_mac a) s"
  have inv1: "net_inv ?s" using arp_insert_inv [OF inv a(2)] .
  have u: "cache_upd s s'" if "sent ?s s'" for s' using a(2) that by (auto simp: cache_upd_def)
  have e: "\<exists>ok s'. eth_send (ar_sender_mac a) ETHERTYPE_ARP p ?s = Some (ok, s') \<and> sent ?s s'" for p
    using eth_send_spec [OF inv1 a(2)] by blast
  show ?thesis
  proof (cases "ntohs (ar_hw_type a) = ARP_HW_ETHERNET \<and> ntohs (ar_proto_type a) = ARP_PROTO_IP")
    case False
    then show ?thesis using a(1) \<open>\<not> length pkt < 28\<close> by (auto simp: arp_recv_def)
  next
    case t: True
    show ?thesis
    proof (cases "ntohs (ar_op a) = ARP_OP_REQUEST \<and> s_ip ?s \<noteq> 0 \<and> ar_target_ip a = s_ip ?s \<and> n_nic ?s \<noteq> None")
      case True
      then obtain mac where mac: "n_nic ?s = Some mac" by auto
      obtain ok s' where s': "eth_send (ar_sender_mac a) ETHERTYPE_ARP (arp_pkt_bytes
          \<lparr>ar_hw_type = htons ARP_HW_ETHERNET, ar_proto_type = htons ARP_PROTO_IP,
             ar_hw_len = 6, ar_proto_len = 4, ar_op = htons ARP_OP_REPLY, ar_sender_mac = mac,
             ar_sender_ip = s_ip ?s, ar_target_mac = ar_sender_mac a, ar_target_ip = ar_sender_ip a\<rparr>) ?s = Some (ok, s')"
        "sent ?s s'"
        using e by blast
      then have "arp_recv pkt s = Some s'"
        using a(1) t True mac \<open>\<not> length pkt < 28\<close> by (simp add: arp_recv_def Let_def)
      then show ?thesis using u s'(2) by blast
    next
      case False
      then have "arp_recv pkt s = Some ?s"
        using a(1) t \<open>\<not> length pkt < 28\<close> by (auto simp: arp_recv_def Let_def split: option.split)
      then show ?thesis using u by fastforce
    qed
  qed
qed

text \<open>A stack with a card and nothing else.\<close>

definition net_ex :: net where
  "net_ex = net_zero (Some [2, 0, 0, 0, 0, 1]) [] (\<lambda>_ _. True)"

lemma net_ex_inv: "net_inv net_ex"
  unfolding net_ex_def by (rule net_inv_zero) simp

lemma net_ex_unique: "arp_unique net_ex"
  by (simp add: arp_unique_def net_ex_def net_zero_def arp_zero_def)

theorem arp_insert_correct_witness:
  "net_inv net_ex \<and> arp_unique net_ex \<and> cached (arp_insert 9 [2, 0, 0, 0, 0, 2] net_ex) 9 = Some [2, 0, 0, 0, 0, 2]"
  using arp_insert_correct [OF net_ex_inv net_ex_unique] net_ex_inv net_ex_unique by blast

end
