(* ===== verification/Ip.thy ===== *)
theory Ip
  imports Link
begin

text \<open>
  IPv4 (\<^verbatim>\<open>kernel/net/ipv4.c\<close>, the sending half), ICMP echo (\<^verbatim>\<open>kernel/net/icmp.c\<close>) and UDP
  (\<^verbatim>\<open>kernel/net/udp.c\<close>, bindings and sending).  Addresses are the 32-bit values that the C code
  reads from memory, so their bytes in memory are in network order.
\<close>

subsection \<open>IPv4\<close>

definition IP_PROTO_ICMP :: u8 where "IP_PROTO_ICMP = 1"
definition IP_PROTO_TCP :: u8 where "IP_PROTO_TCP = 6"
definition IP_PROTO_UDP :: u8 where "IP_PROTO_UDP = 17"

record ip_hdr =
  ih_ver_ihl :: u8
  ih_dscp_ecn :: u8
  ih_total_length :: u16
  ih_id :: u16
  ih_flags_frag :: u16
  ih_ttl :: u8
  ih_protocol :: u8
  ih_checksum :: u16
  ih_src :: u32
  ih_dst :: u32

definition ip_hdr_bytes :: "ip_hdr \<Rightarrow> bytes" where
  "ip_hdr_bytes h = [ih_ver_ihl h, ih_dscp_ecn h] @ le_bytes 2 (ih_total_length h) @ le_bytes 2 (ih_id h) @
     le_bytes 2 (ih_flags_frag h) @ [ih_ttl h, ih_protocol h] @ le_bytes 2 (ih_checksum h) @
     le_bytes 4 (ih_src h) @ le_bytes 4 (ih_dst h)"

definition ip_hdr_at :: "bytes \<Rightarrow> ip_hdr option" where
  "ip_hdr_at p = do {
     vi \<leftarrow> slice 0 1 p; de \<leftarrow> slice 1 1 p; tl \<leftarrow> slice 2 2 p; id \<leftarrow> slice 4 2 p; ff \<leftarrow> slice 6 2 p;
     tt \<leftarrow> slice 8 1 p; pr \<leftarrow> slice 9 1 p; ck \<leftarrow> slice 10 2 p; sr \<leftarrow> slice 12 4 p; ds \<leftarrow> slice 16 4 p;
     Some \<lparr>ih_ver_ihl = hd vi, ih_dscp_ecn = hd de, ih_total_length = le_word tl, ih_id = le_word id,
       ih_flags_frag = le_word ff, ih_ttl = hd tt, ih_protocol = hd pr, ih_checksum = le_word ck,
       ih_src = le_word sr, ih_dst = le_word ds\<rparr> }"

definition ipv4_our_ip :: "net \<Rightarrow> u32" where "ipv4_our_ip s = s_ip s"
definition ipv4_gateway :: "net \<Rightarrow> u32" where "ipv4_gateway s = s_gateway s"
definition ipv4_dns :: "net \<Rightarrow> u32" where "ipv4_dns s = s_dns s"

definition ipv4_set_config :: "u32 \<Rightarrow> u32 \<Rightarrow> u32 \<Rightarrow> u32 \<Rightarrow> net \<Rightarrow> net" where
  "ipv4_set_config ip netmask gateway dns s =
     s\<lparr>s_ip := ip, s_netmask := netmask, s_gateway := gateway, s_dns := dns\<rparr>"

definition ipv4_send :: "u32 \<Rightarrow> u8 \<Rightarrow> bytes \<Rightarrow> net \<Rightarrow> (bool \<times> net) option" where
  "ipv4_send dst_ip proto payload s =
     (if 20 + length payload > 1500 then Some (False, s) else do {
        let s = s\<lparr>s_id := s_id s + 1\<rparr>;
        let hdr = \<lparr>ih_ver_ihl = 0x45, ih_dscp_ecn = 0, ih_total_length = htons (of_nat (20 + length payload)),
          ih_id = htons (s_id s), ih_flags_frag = 0, ih_ttl = 64, ih_protocol = proto, ih_checksum = 0,
          ih_src = s_ip s, ih_dst = dst_ip\<rparr>;
        let hdr = hdr\<lparr>ih_checksum := htons (ip_checksum (ip_hdr_bytes hdr))\<rparr>;
        buf \<leftarrow> put 0 (ip_hdr_bytes hdr) (replicate 1500 0);
        buf \<leftarrow> put 20 payload buf;
        let next_hop = (if s_gateway s \<noteq> 0 \<and> dst_ip AND s_netmask s \<noteq> s_ip s AND s_netmask s
          then s_gateway s else dst_ip);
        (dst_mac, s) \<leftarrow> (if dst_ip = 0xffffffff \<or> dst_ip = 0 then Some (Some ETH_BROADCAST, s)
          else arp_lookup next_hop s);
        (case dst_mac of None \<Rightarrow> Some (False, s)
         | Some dst_mac \<Rightarrow> do {
             pkt \<leftarrow> slice 0 (20 + length payload) buf;
             eth_send dst_mac ETHERTYPE_IPV4 pkt s })
      })"

subsection \<open>ICMP\<close>

definition ICMP_ECHO_REQUEST :: u8 where "ICMP_ECHO_REQUEST = 8"
definition ICMP_ECHO_REPLY :: u8 where "ICMP_ECHO_REPLY = 0"

record icmp_hdr =
  ic_type :: u8
  ic_code :: u8
  ic_checksum :: u16
  ic_id :: u16
  ic_seq :: u16

definition icmp_hdr_at :: "bytes \<Rightarrow> icmp_hdr option" where
  "icmp_hdr_at p = do {
     t \<leftarrow> slice 0 1 p; c \<leftarrow> slice 1 1 p; k \<leftarrow> slice 2 2 p; i \<leftarrow> slice 4 2 p; q \<leftarrow> slice 6 2 p;
     Some \<lparr>ic_type = hd t, ic_code = hd c, ic_checksum = le_word k, ic_id = le_word i, ic_seq = le_word q\<rparr> }"

definition icmp_recv :: "u32 \<Rightarrow> bytes \<Rightarrow> net \<Rightarrow> net option" where
  "icmp_recv src_ip pkt s = (if length pkt < 8 then Some s else do {
     hdr \<leftarrow> icmp_hdr_at pkt;
     if ic_type hdr = ICMP_ECHO_REQUEST \<and> ic_code hdr = 0 then
       if length pkt > 1024 then Some s else do {
         reply \<leftarrow> put 0 pkt (replicate 1024 0);
         reply \<leftarrow> put 0 [ICMP_ECHO_REPLY] reply;
         reply \<leftarrow> put 2 (le_bytes 2 (0 :: u16)) reply;
         r \<leftarrow> slice 0 (length pkt) reply;
         reply \<leftarrow> put 2 (le_bytes 2 (htons (ip_checksum r))) reply;
         r \<leftarrow> slice 0 (length pkt) reply;
         (_, s) \<leftarrow> ipv4_send src_ip IP_PROTO_ICMP r s;
         Some s }
     else Some s })"

subsection \<open>UDP\<close>

record udp_hdr =
  uh_src_port :: u16
  uh_dst_port :: u16
  uh_length :: u16
  uh_checksum :: u16

definition udp_hdr_bytes :: "udp_hdr \<Rightarrow> bytes" where
  "udp_hdr_bytes h = le_bytes 2 (uh_src_port h) @ le_bytes 2 (uh_dst_port h) @ le_bytes 2 (uh_length h) @
     le_bytes 2 (uh_checksum h)"

definition udp_hdr_at :: "bytes \<Rightarrow> udp_hdr option" where
  "udp_hdr_at p = do {
     sp \<leftarrow> slice 0 2 p; dp \<leftarrow> slice 2 2 p; ln \<leftarrow> slice 4 2 p; ck \<leftarrow> slice 6 2 p;
     Some \<lparr>uh_src_port = le_word sp, uh_dst_port = le_word dp, uh_length = le_word ln, uh_checksum = le_word ck\<rparr> }"

definition udp_bind :: "u16 \<Rightarrow> udp_recv_fn \<Rightarrow> u64 \<Rightarrow> net \<Rightarrow> net" where
  "udp_bind port fn ctx s = (case find (\<lambda>i. \<not> ub_used (s_binds s ! i)) [0..<MAX_BINDS] of None \<Rightarrow> s
     | Some i \<Rightarrow> s\<lparr>s_binds := (s_binds s)[i := \<lparr>ub_port = port, ub_fn = fn, ub_ctx = ctx, ub_used = True\<rparr>]\<rparr>)"

definition udp_unbind :: "u16 \<Rightarrow> net \<Rightarrow> net" where
  "udp_unbind port s =
     s\<lparr>s_binds := map (\<lambda>b. if ub_used b \<and> ub_port b = port then b\<lparr>ub_used := False\<rparr> else b) (s_binds s)\<rparr>"

definition udp_send :: "u32 \<Rightarrow> u16 \<Rightarrow> u16 \<Rightarrow> bytes \<Rightarrow> net \<Rightarrow> (bool \<times> net) option" where
  "udp_send dst_ip src_port dst_port data s =
     (if 8 + length data > 1472 then Some (False, s) else do {
        let hdr = \<lparr>uh_src_port = htons src_port, uh_dst_port = htons dst_port,
          uh_length = htons (of_nat (8 + length data)), uh_checksum = 0\<rparr>;
        buf \<leftarrow> put 0 (udp_hdr_bytes hdr) (replicate 1472 0);
        buf \<leftarrow> put 8 data buf;
        pkt \<leftarrow> slice 0 (8 + length data) buf;
        let csum = ip_pseudo_checksum (ipv4_our_ip s) dst_ip IP_PROTO_UDP pkt;
        buf \<leftarrow> put 0 (udp_hdr_bytes (hdr\<lparr>uh_checksum := htons csum\<rparr>)) buf;
        pkt \<leftarrow> slice 0 (8 + length data) buf;
        ipv4_send dst_ip IP_PROTO_UDP pkt s
      })"

subsection \<open>Headers\<close>

lemma length_ip_hdr_bytes [simp]: "length (ip_hdr_bytes h) = 20"
  by (simp add: ip_hdr_bytes_def)

lemma ip_hdr_at_bytes [simp]: "ip_hdr_at (ip_hdr_bytes h @ p) = Some h"
  by (simp add: ip_hdr_at_def ip_hdr_bytes_def slice_def)

lemma ip_hdr_at_ok: "20 \<le> length p \<Longrightarrow> \<exists>h. ip_hdr_at p = Some h"
  by (simp add: ip_hdr_at_def slice_def)

lemma length_udp_hdr_bytes [simp]: "length (udp_hdr_bytes h) = 8"
  by (simp add: udp_hdr_bytes_def)

lemma udp_hdr_at_bytes [simp]: "udp_hdr_at (udp_hdr_bytes h @ p) = Some h"
  by (simp add: udp_hdr_at_def udp_hdr_bytes_def slice_def)

lemma udp_hdr_at_ok: "8 \<le> length p \<Longrightarrow> \<exists>h. udp_hdr_at p = Some h"
  by (simp add: udp_hdr_at_def slice_def)

lemma icmp_hdr_at_ok: "8 \<le> length p \<Longrightarrow> \<exists>h. icmp_hdr_at p = Some h"
  by (simp add: icmp_hdr_at_def slice_def)

lemma ip_hdr_checksum:
  assumes "ih_checksum h = 0"
  shows "ip_checksum (ip_hdr_bytes (h\<lparr>ih_checksum := htons (ip_checksum (ip_hdr_bytes h))\<rparr>)) = 0"
proof -
  let ?x = "[ih_ver_ihl h, ih_dscp_ecn h] @ le_bytes 2 (ih_total_length h) @ le_bytes 2 (ih_id h) @
     le_bytes 2 (ih_flags_frag h) @ [ih_ttl h, ih_protocol h]"
  let ?y = "le_bytes 4 (ih_src h) @ le_bytes 4 (ih_dst h)"
  have z: "le_bytes 2 (0 :: u16) = [0, 0]" by (simp add: le_bytes_def upt_rec)
  have "ip_hdr_bytes h = ?x @ [0, 0] @ ?y" using assms by (simp add: ip_hdr_bytes_def z)
  moreover have "ip_hdr_bytes (h\<lparr>ih_checksum := htons c\<rparr>) = ?x @ be_bytes 2 c @ ?y" for c
    by (simp add: ip_hdr_bytes_def)
  ultimately show ?thesis using checksum_field [of ?x ?y] by simp
qed

subsection \<open>Sending\<close>

text \<open>The host that a packet is handed to, and the packet.\<close>

definition route :: "net \<Rightarrow> u32 \<Rightarrow> u32" where
  "route s dst = (if s_gateway s \<noteq> 0 \<and> dst AND s_netmask s \<noteq> s_ip s AND s_netmask s then s_gateway s else dst)"

definition hop_mac :: "net \<Rightarrow> u32 \<Rightarrow> bytes option" where
  "hop_mac s dst = (if dst = 0xffffffff \<or> dst = 0 then Some ETH_BROADCAST else cached s (route s dst))"

definition ip_packet :: "net \<Rightarrow> u32 \<Rightarrow> u8 \<Rightarrow> bytes \<Rightarrow> bytes" where
  "ip_packet s dst proto payload =
     (let h = \<lparr>ih_ver_ihl = 0x45, ih_dscp_ecn = 0, ih_total_length = htons (of_nat (20 + length payload)),
        ih_id = htons (s_id s + 1), ih_flags_frag = 0, ih_ttl = 64, ih_protocol = proto, ih_checksum = 0,
        ih_src = s_ip s, ih_dst = dst\<rparr>
      in ip_hdr_bytes (h\<lparr>ih_checksum := htons (ip_checksum (ip_hdr_bytes h))\<rparr>) @ payload)"

lemma length_ip_packet [simp]: "length (ip_packet s dst proto payload) = 20 + length payload"
  by (simp add: ip_packet_def Let_def)

lemma net_inv_id [simp]: "net_inv (s\<lparr>s_id := n\<rparr>) = net_inv s"
  by (simp add: net_inv_def)

lemma cached_id [simp]: "cached (s\<lparr>s_id := n\<rparr>) ip = cached s ip"
  by (simp add: cached_def find_entry_def)

lemma sent_id: "sent (s\<lparr>s_id := n\<rparr>) s' \<Longrightarrow> sent s s'"
  by (auto simp: sent_def)

lemma two_puts:
  assumes "length a + length b \<le> n"
  shows "put 0 a (replicate n 0) \<bind> put (length a) b \<bind> slice 0 (length a + length b) = Some (a @ b)"
  using assms by (simp add: put_def slice_def)

lemma put_buffer:
  assumes "length h = k" "k + length d \<le> n"
  shows "put 0 h (replicate n 0) = Some (h @ replicate (n - k) 0)"
    "put k d (h @ replicate (n - k) 0) = Some (h @ d @ replicate (n - k - length d) 0)"
    "slice 0 (k + length d) (h @ d @ r) = Some (h @ d)"
    "length h' = k \<Longrightarrow> put 0 h' (h @ d @ r) = Some (h' @ d @ r)"
  using assms by (simp_all add: put_def slice_def)

lemma packet_built:
  assumes "length b = 20" "length payload \<le> 1480"
  shows "put 0 b (replicate 1500 0) \<bind> (\<lambda>buf. put 20 payload buf \<bind> (\<lambda>buf. X \<bind> (\<lambda>(m, s).
      case m of None \<Rightarrow> Some (False, s) | Some m \<Rightarrow> slice 0 (20 + length payload) buf \<bind> (\<lambda>pkt. E m pkt s)))) =
    X \<bind> (\<lambda>(m, s). case m of None \<Rightarrow> Some (False, s) | Some m \<Rightarrow> E m (b @ payload) s)"
proof -
  have "20 + length payload \<le> 1500" using assms(2) by simp
  note p = put_buffer [OF assms(1) this]
  show ?thesis unfolding p(1) bind.bind_lunit p(2) p(3) ..
qed

lemma ipv4_send_eq:
  assumes "length payload \<le> 1480"
  shows "ipv4_send dst proto payload s =
    (if dst = 0xffffffff \<or> dst = 0 then Some (Some ETH_BROADCAST, s\<lparr>s_id := s_id s + 1\<rparr>)
     else arp_lookup (route s dst) (s\<lparr>s_id := s_id s + 1\<rparr>)) \<bind> (\<lambda>(m, s1).
       case m of None \<Rightarrow> Some (False, s1) | Some m \<Rightarrow> eth_send m ETHERTYPE_IPV4 (ip_packet s dst proto payload) s1)"
proof -
  have n: "\<not> 20 + length payload > 1500" using assms by simp
  have sels: "s_id (s\<lparr>s_id := n\<rparr>) = n" "s_ip (s\<lparr>s_id := n\<rparr>) = s_ip s" "s_gateway (s\<lparr>s_id := n\<rparr>) = s_gateway s"
    "s_netmask (s\<lparr>s_id := n\<rparr>) = s_netmask s" for n by simp_all
  show ?thesis
    unfolding ipv4_send_def Let_def if_not_P [OF n] ip_packet_def route_def sels
    by (subst packet_built) (rule length_ip_hdr_bytes assms refl)+
qed

lemma ipv4_send_cases:
  assumes inv: "net_inv s" and "length payload \<le> 1480"
  shows "case hop_mac s dst of
      None \<Rightarrow> \<exists>s'. ipv4_send dst proto payload s = Some (False, s') \<and> sent s s'
    | Some m \<Rightarrow> length m = 6 \<and> ipv4_send dst proto payload s =
        eth_send m ETHERTYPE_IPV4 (ip_packet s dst proto payload) (s\<lparr>s_id := s_id s + 1\<rparr>)"
proof (cases "dst = 0xffffffff \<or> dst = 0")
  case True
  then show ?thesis using ipv4_send_eq [OF assms(2)] by (auto simp: hop_mac_def ETH_BROADCAST_def)
next
  case False
  let ?s = "s\<lparr>s_id := s_id s + 1\<rparr>"
  have hm: "hop_mac s dst = cached s (route s dst)" using False by (simp add: hop_mac_def)
  obtain s' where l: "arp_lookup (route s dst) ?s = Some (cached s (route s dst), s')" "sent ?s s'"
    "cached s (route s dst) \<noteq> None \<longrightarrow> s' = ?s"
    using arp_lookup_spec [of ?s "route s dst"] inv by auto
  show ?thesis
  proof (cases "cached s (route s dst)")
    case None
    then show ?thesis
      using l False hm sent_id [OF l(2)] unfolding ipv4_send_eq [OF assms(2)] by simp
  next
    case (Some m)
    then show ?thesis
      using l False hm cached_length [OF inv Some] unfolding ipv4_send_eq [OF assms(2)] by simp
  qed
qed

lemma ipv4_send_spec:
  assumes "net_inv s"
  shows "\<exists>ok s'. ipv4_send dst proto payload s = Some (ok, s') \<and> sent s s'"
proof (cases "length payload \<le> 1480")
  case False
  then show ?thesis by (intro exI [of _ False] exI [of _ s]) (simp add: ipv4_send_def)
next
  case True
  note c = ipv4_send_cases [OF assms True, of dst proto]
  show ?thesis
  proof (cases "hop_mac s dst")
    case None
    then show ?thesis using c by auto
  next
    case (Some m)
    then have m: "length m = 6" "ipv4_send dst proto payload s =
        eth_send m ETHERTYPE_IPV4 (ip_packet s dst proto payload) (s\<lparr>s_id := s_id s + 1\<rparr>)" using c by simp_all
    then show ?thesis
      using eth_send_spec [of "s\<lparr>s_id := s_id s + 1\<rparr>" m] assms sent_id unfolding m(2) by fastforce
  qed
qed

lemma ipv4_send_frame:
  assumes "net_inv s" "n_nic s = Some mac" "length payload \<le> 1480" "hop_mac s dst = Some m"
  shows "\<exists>ok s' h. ipv4_send dst proto payload s = Some (ok, s') \<and> sent s s' \<and>
    n_tx s' = n_tx s @ [eth_frame (s_frame s) m mac ETHERTYPE_IPV4 (ip_hdr_bytes h @ payload)] \<and>
    ip_checksum (ip_hdr_bytes h) = 0 \<and> ih_src h = s_ip s \<and> ih_dst h = dst \<and> ih_protocol h = proto \<and>
    ih_ver_ihl h = 0x45 \<and> ntohs (ih_total_length h) = of_nat (20 + length payload)"
proof -
  let ?h0 = "\<lparr>ih_ver_ihl = 0x45, ih_dscp_ecn = 0, ih_total_length = htons (of_nat (20 + length payload)),
        ih_id = htons (s_id s + 1), ih_flags_frag = 0, ih_ttl = 64, ih_protocol = proto, ih_checksum = 0,
        ih_src = s_ip s, ih_dst = dst\<rparr>"
  let ?h = "?h0\<lparr>ih_checksum := htons (ip_checksum (ip_hdr_bytes ?h0))\<rparr>"
  let ?s = "s\<lparr>s_id := s_id s + 1\<rparr>"
  have e: "length m = 6" "ipv4_send dst proto payload s = eth_send m ETHERTYPE_IPV4 (ip_packet s dst proto payload) ?s"
    using ipv4_send_cases [OF assms(1,3), of dst proto] assms(4) by simp_all
  have p: "ip_packet s dst proto payload = ip_hdr_bytes ?h @ payload" by (simp add: ip_packet_def Let_def)
  have inv: "net_inv ?s" and nic: "n_nic ?s = Some mac" using assms(1,2) by simp_all
  obtain ok s' where s': "eth_send m ETHERTYPE_IPV4 (ip_packet s dst proto payload) ?s = Some (ok, s')" "sent ?s s'"
    "n_tx s' = n_tx s @ [eth_frame (s_frame s) m mac ETHERTYPE_IPV4 (ip_packet s dst proto payload)]"
    using eth_send_spec [OF inv e(1), of ETHERTYPE_IPV4 "ip_packet s dst proto payload"] nic assms(3) by auto
  have "ip_checksum (ip_hdr_bytes ?h) = 0" by (rule ip_hdr_checksum) simp
  then show ?thesis
    using s' e(2) p sent_id [OF s'(2)]
    by (intro exI [of _ ok] exI [of _ s'] exI [of _ ?h]) simp
qed

text \<open>
  C21: A packet that fits and whose next hop is known leaves in exactly one frame, addressed to
  the gateway when the destination is outside the own network and to the destination
  otherwise.  The frame carries a header with our address, the destination, the protocol and
  the length, whose checksum verifies, followed by the payload.
\<close>

theorem ipv4_send_correct:
  assumes "net_inv s" "n_nic s = Some mac" "length payload \<le> 1480" "hop_mac s dst = Some m"
  shows "\<exists>ok s' h. ipv4_send dst proto payload s = Some (ok, s') \<and> sent s s' \<and>
    n_tx s' = n_tx s @ [eth_frame (s_frame s) m mac ETHERTYPE_IPV4 (ip_hdr_bytes h @ payload)] \<and>
    ip_checksum (ip_hdr_bytes h) = 0 \<and> ih_src h = s_ip s \<and> ih_dst h = dst \<and> ih_protocol h = proto \<and>
    ih_ver_ihl h = 0x45 \<and> ntohs (ih_total_length h) = of_nat (20 + length payload)"
  using ipv4_send_frame [OF assms] .

definition net_arp :: net where
  "net_arp = net_ex\<lparr>s_table := \<lparr>ae_ip = 9, ae_mac = [2, 0, 0, 0, 0, 2], ae_valid = True\<rparr> # replicate 31 arp_zero\<rparr>"

lemma net_arp_inv: "net_inv net_arp"
  using net_ex_inv by (auto simp: net_arp_def net_inv_def ARP_TABLE_SIZE_def arp_zero_def)

theorem ipv4_send_correct_witness:
  "net_inv net_arp \<and> hop_mac net_arp 9 = Some [2, 0, 0, 0, 0, 2] \<and>
   (\<exists>ok s'. ipv4_send 9 IP_PROTO_UDP [1, 2, 3] net_arp = Some (ok, s') \<and> length (n_tx s') = 1)"
proof -
  have h: "hop_mac net_arp 9 = Some [2, 0, 0, 0, 0, 2]"
    by (simp add: hop_mac_def route_def cached_def find_entry_def net_arp_def net_ex_def net_zero_def
        ARP_TABLE_SIZE_def upt_rec)
  have n: "n_nic net_arp = Some [2, 0, 0, 0, 0, 1]" "n_tx net_arp = []"
    by (simp_all add: net_arp_def net_ex_def net_zero_def)
  show ?thesis
    using ipv4_send_correct [OF net_arp_inv n(1), of "[1, 2, 3]" 9 _ IP_PROTO_UDP] h n net_arp_inv by fastforce
qed

subsection \<open>Echo and datagrams\<close>

lemma icmp_recv_spec:
  assumes inv: "net_inv s"
  shows "\<exists>s'. icmp_recv src pkt s = Some s' \<and> sent s s'"
proof (cases "length pkt < 8")
  case True
  then show ?thesis by (simp add: icmp_recv_def)
next
  case False
  then obtain h where h: "icmp_hdr_at pkt = Some h" using icmp_hdr_at_ok [of pkt] by auto
  show ?thesis
  proof (cases "ic_type h = ICMP_ECHO_REQUEST \<and> ic_code h = 0 \<and> length pkt \<le> 1024")
    case True
    let ?b = "pkt @ replicate (1024 - length pkt) 0"
    have "put 0 pkt (replicate 1024 0) = Some ?b" using True by (simp add: put_def)
    moreover obtain b1 where b1: "put 0 [ICMP_ECHO_REPLY] ?b = Some b1" "length b1 = 1024"
      using True put_ok [of 0 "[ICMP_ECHO_REPLY]" ?b] length_put by fastforce
    moreover obtain b2 where b2: "put 2 (le_bytes 2 (0 :: u16)) b1 = Some b2" "length b2 = 1024"
      using b1 put_ok [of 2 "le_bytes 2 (0 :: u16)" b1] length_put by fastforce
    moreover obtain r where "slice 0 (length pkt) b2 = Some r"
      using b2 True slice_ok [of 0 "length pkt" b2] by simp
    moreover obtain b3 where b3: "put 2 (le_bytes 2 (htons (ip_checksum r))) b2 = Some b3" "length b3 = 1024"
      using b2 put_ok [of 2 "le_bytes 2 (htons (ip_checksum r))" b2] length_put by fastforce
    moreover obtain r' where "slice 0 (length pkt) b3 = Some r'"
      using b3 True slice_ok [of 0 "length pkt" b3] by simp
    moreover obtain ok s' where "ipv4_send src IP_PROTO_ICMP r' s = Some (ok, s')" "sent s s'"
      using ipv4_send_spec [OF inv] by blast
    ultimately show ?thesis using False True h by (simp add: icmp_recv_def)
  next
    case c: False
    then show ?thesis using False h by (auto simp: icmp_recv_def)
  qed
qed

definition udp_packet :: "net \<Rightarrow> u32 \<Rightarrow> u16 \<Rightarrow> u16 \<Rightarrow> bytes \<Rightarrow> bytes" where
  "udp_packet s dst sp dp data =
     (let h = \<lparr>uh_src_port = htons sp, uh_dst_port = htons dp, uh_length = htons (of_nat (8 + length data)),
        uh_checksum = 0\<rparr>
      in udp_hdr_bytes (h\<lparr>uh_checksum := htons (ip_pseudo_checksum (s_ip s) dst IP_PROTO_UDP (udp_hdr_bytes h @ data))\<rparr>) @ data)"

lemma udp_send_eq:
  assumes "length data \<le> 1464"
  shows "udp_send dst sp dp data s = ipv4_send dst IP_PROTO_UDP (udp_packet s dst sp dp data) s"
proof -
  let ?h = "\<lparr>uh_src_port = htons sp, uh_dst_port = htons dp, uh_length = htons (of_nat (8 + length data)),
        uh_checksum = 0\<rparr>"
  have l: "length (udp_hdr_bytes ?h) = 8" by simp
  have "8 + length data \<le> 1472" using assms by simp
  note p = put_buffer [OF l this]
  show ?thesis
    using assms p put_buffer(3) [of "udp_hdr_bytes (?h\<lparr>uh_checksum := c\<rparr>)" 8 data 1472 for c]
    unfolding udp_send_def Let_def ipv4_our_ip_def udp_packet_def by simp
qed

lemma udp_send_spec:
  assumes "net_inv s"
  shows "\<exists>ok s'. udp_send dst sp dp data s = Some (ok, s') \<and> sent s s'"
proof (cases "length data \<le> 1464")
  case True
  then show ?thesis using ipv4_send_spec [OF assms] by (simp add: udp_send_eq)
next
  case False
  then show ?thesis by (intro exI [of _ False] exI [of _ s]) (simp add: udp_send_def)
qed

lemma udp_bind_inv: "net_inv s \<Longrightarrow> net_inv (udp_bind port fn ctx s)"
  by (simp add: udp_bind_def net_inv_def split: option.split)

lemma udp_unbind_inv: "net_inv s \<Longrightarrow> net_inv (udp_unbind port s)"
  by (simp add: udp_unbind_def net_inv_def)

lemma ipv4_set_config_inv: "net_inv s \<Longrightarrow> net_inv (ipv4_set_config ip nm gw dns s)"
  by (simp add: ipv4_set_config_def net_inv_def)

end
