(* ===== verification/Resolver.thy ===== *)
theory Resolver
  imports Ip
begin

text \<open>
  The callbacks that parse DNS replies (\<^verbatim>\<open>kernel/net/dns.c\<close>) and DHCP replies
  (\<^verbatim>\<open>kernel/net/dhcp.c\<close>), and the construction of the messages sent.  A pointer into a message
  is its offset; a read outside the message is \<open>None\<close>.
\<close>

subsection \<open>DNS replies\<close>

definition DNS_PORT :: u16 where "DNS_PORT = 53"
definition DNS_QR_RESPONSE :: u16 where "DNS_QR_RESPONSE = 0x8000"
definition DNS_RD :: u16 where "DNS_RD = 0x0100"
definition DNS_TYPE_A :: u16 where "DNS_TYPE_A = 1"
definition DNS_CLASS_IN :: u16 where "DNS_CLASS_IN = 1"

record dns_hdr =
  dh_id :: u16
  dh_flags :: u16
  dh_qdcount :: u16
  dh_ancount :: u16
  dh_nscount :: u16
  dh_arcount :: u16

definition dns_hdr_bytes :: "dns_hdr \<Rightarrow> bytes" where
  "dns_hdr_bytes h = le_bytes 2 (dh_id h) @ le_bytes 2 (dh_flags h) @ le_bytes 2 (dh_qdcount h) @
     le_bytes 2 (dh_ancount h) @ le_bytes 2 (dh_nscount h) @ le_bytes 2 (dh_arcount h)"

definition dns_hdr_at :: "bytes \<Rightarrow> dns_hdr option" where
  "dns_hdr_at p = do {
     a \<leftarrow> slice 0 2 p; b \<leftarrow> slice 2 2 p; c \<leftarrow> slice 4 2 p; d \<leftarrow> slice 6 2 p; e \<leftarrow> slice 8 2 p; f \<leftarrow> slice 10 2 p;
     Some \<lparr>dh_id = le_word a, dh_flags = le_word b, dh_qdcount = le_word c, dh_ancount = le_word d,
       dh_nscount = le_word e, dh_arcount = le_word f\<rparr> }"

text \<open>Skipping the labels of the question: the loop, and the step over the final null label.\<close>

function dns_skip_qname :: "bytes \<Rightarrow> nat \<Rightarrow> nat option" where
  "dns_skip_qname d p = (if p < length d then do {
     b \<leftarrow> rd8 d p;
     if b \<noteq> 0 then (if b AND 0xc0 = 0xc0 then Some (p + 2) else dns_skip_qname d (p + 1 + unat b))
     else Some (p + 1) } else Some p)"
  by pat_completeness auto
termination by (relation "measure (\<lambda>(d, p). length d - p)") auto

declare dns_skip_qname.simps [simp del]

text \<open>Skipping the name of an answer that does not start with a pointer.\<close>

function dns_skip_name :: "bytes \<Rightarrow> nat \<Rightarrow> nat option" where
  "dns_skip_name d p = (if p < length d then do {
     b \<leftarrow> rd8 d p;
     if b \<noteq> 0 then dns_skip_name d (p + 1 + unat b) else Some (p + 1) } else Some p)"
  by pat_completeness auto
termination by (relation "measure (\<lambda>(d, p). length d - p)") auto

declare dns_skip_name.simps [simp del]

text \<open>The answer records that are left, \<open>n\<close> of them, from offset \<open>p\<close> on.\<close>

fun dns_answers :: "bytes \<Rightarrow> nat \<Rightarrow> nat \<Rightarrow> net \<Rightarrow> net option" where
  "dns_answers d 0 p s = Some s"
| "dns_answers d (Suc n) p s = (if \<not> p < length d then Some s else do {
     b \<leftarrow> rd8 d p;
     p \<leftarrow> (if b AND 0xc0 = 0xc0 then Some (p + 2) else dns_skip_name d p);
     if int (length d) - int p < 10 then Some s else do {
       rt \<leftarrow> slice p 2 d;
       rl \<leftarrow> slice (p + 8) 2 d;
       let rtype = (be_word rt :: u16);
       let rdlen = (be_word rl :: u16);
       let p = p + 10;
       if rtype = DNS_TYPE_A \<and> rdlen = 4 \<and> int (length d) - int p \<ge> 4 then do {
         ip \<leftarrow> slice p 4 d;
         Some (s\<lparr>s_resolved_ip := le_word ip, s_got_reply := True\<rparr>) }
       else dns_answers d n (p + unat rdlen) s } })"

definition dns_recv_cb :: "u32 \<Rightarrow> u16 \<Rightarrow> bytes \<Rightarrow> u64 \<Rightarrow> net \<Rightarrow> net option" where
  "dns_recv_cb src_ip src_port data ctx s = (if length data < 12 then Some s else do {
     hdr \<leftarrow> dns_hdr_at data;
     if ntohs (dh_id hdr) \<noteq> s_query_id s then Some s
     else if ntohs (dh_flags hdr) AND DNS_QR_RESPONSE = 0 then Some s
     else if ntohs (dh_ancount hdr) = 0 then Some s
     else do {
       p \<leftarrow> dns_skip_qname data 12;
       dns_answers data (unat (ntohs (dh_ancount hdr))) (p + 4) s } })"

subsection \<open>DNS queries\<close>

definition dot :: u8 where "dot = 46"

lemma rest_shorter: "xs \<noteq> [] \<Longrightarrow> length (drop 1 (dropWhile P xs)) < length xs"
proof -
  assume "xs \<noteq> []"
  then have "0 < length xs" by simp
  then show ?thesis using length_dropWhile_le [of P xs] unfolding length_drop by arith
qed

text \<open>
  The loop that encodes the host name, with the write position and the buffer; the label
  length is a byte, so a label of 256 or more characters is cut.
\<close>

function dns_qname :: "bytes \<Rightarrow> nat \<Rightarrow> bytes \<Rightarrow> (nat \<times> bytes) option" where
  "dns_qname host p buf = (if host = [] then Some (p, buf) else do {
     let lab = takeWhile (\<lambda>c. c \<noteq> dot) host;
     let rest = dropWhile (\<lambda>c. c \<noteq> dot) host;
     let lablen = (of_nat (length lab) :: u8);
     buf \<leftarrow> put p [lablen] buf;
     src \<leftarrow> slice 0 (unat lablen) host;
     buf \<leftarrow> put (p + 1) src buf;
     dns_qname (drop 1 rest) (p + 1 + unat lablen) buf })"
  by pat_completeness auto
termination
proof (relation "measure (\<lambda>(h, p, b). length h)")
  fix host :: bytes and p :: nat and buf :: bytes and lab rest lablen buf1 src buf2
  assume "host \<noteq> []" "rest = dropWhile (\<lambda>c. c \<noteq> dot) host"
  then show "((drop 1 rest, p + 1 + unat (lablen :: u8), buf2), host, p, buf) \<in> measure (\<lambda>(h, p, b). length h)"
    using rest_shorter [OF \<open>host \<noteq> []\<close>, of "\<lambda>c. c \<noteq> dot"] by (simp only: in_measure prod.case)
qed simp

declare dns_qname.simps [simp del]

definition dns_query :: "u16 \<Rightarrow> bytes \<Rightarrow> bytes option" where
  "dns_query qid host = do {
     let hdr = \<lparr>dh_id = htons qid, dh_flags = htons DNS_RD, dh_qdcount = htons 1, dh_ancount = 0,
       dh_nscount = 0, dh_arcount = 0\<rparr>;
     buf \<leftarrow> put 0 (dns_hdr_bytes hdr) (replicate 512 0);
     (p, buf) \<leftarrow> dns_qname host 12 buf;
     buf \<leftarrow> put p [0, 0, ucast DNS_TYPE_A, 0, ucast DNS_CLASS_IN] buf;
     slice 0 (p + 5) buf }"

subsection \<open>DHCP\<close>

definition DHCP_DISCOVER :: u8 where "DHCP_DISCOVER = 1"
definition DHCP_OFFER :: u8 where "DHCP_OFFER = 2"
definition DHCP_REQUEST :: u8 where "DHCP_REQUEST = 3"
definition DHCP_ACK :: u8 where "DHCP_ACK = 5"
definition DHCP_PORT_SERVER :: u16 where "DHCP_PORT_SERVER = 67"
definition DHCP_PORT_CLIENT :: u16 where "DHCP_PORT_CLIENT = 68"
definition DHCP_MAGIC :: u32 where "DHCP_MAGIC = 0x63825363"

text \<open>
  The message is a packed structure of 548 bytes; the offsets of the members used are those of
  \<open>dhcp_msg_t\<close>.
\<close>

definition dhcp_size :: nat where "dhcp_size = 548"
definition dhcp_options :: nat where "dhcp_options = 240"

definition write_opt :: "u8 \<Rightarrow> bytes \<Rightarrow> nat \<times> bytes \<Rightarrow> (nat \<times> bytes) option" where
  "write_opt code data pm = (case pm of (p, m) \<Rightarrow> do {
     m \<leftarrow> put p [code] m;
     m \<leftarrow> put (p + 1) [of_nat (length data)] m;
     m \<leftarrow> put (p + 2) data m;
     Some (p + 2 + length data, m) })"

definition dhcp_common :: "bytes \<Rightarrow> net \<Rightarrow> bytes option" where
  "dhcp_common mac s = do {
     let m = replicate dhcp_size 0;
     m \<leftarrow> put 0 [1, 1, 6] m;
     m \<leftarrow> put 4 (le_bytes 4 (s_xid s)) m;
     m \<leftarrow> put 10 (le_bytes 2 (htons 0x8000)) m;
     m \<leftarrow> put 28 mac m;
     put 236 (le_bytes 4 (htonl DHCP_MAGIC)) m }"

definition build_discover :: "bytes \<Rightarrow> net \<Rightarrow> bytes option" where
  "build_discover mac s = do {
     m \<leftarrow> dhcp_common mac s;
     pm \<leftarrow> write_opt 53 [DHCP_DISCOVER] (dhcp_options, m);
     (p, m) \<leftarrow> write_opt 55 [1, 3, 6, 15] pm;
     put p [255] m }"

definition build_request :: "bytes \<Rightarrow> u32 \<Rightarrow> u32 \<Rightarrow> net \<Rightarrow> bytes option" where
  "build_request mac offered server s = do {
     m \<leftarrow> dhcp_common mac s;
     pm \<leftarrow> write_opt 53 [DHCP_REQUEST] (dhcp_options, m);
     pm \<leftarrow> write_opt 50 (le_bytes 4 offered) pm;
     (p, m) \<leftarrow> write_opt 54 (le_bytes 4 server) pm;
     put p [255] m }"

record dhcp_vals =
  dv_type :: u8
  dv_subnet :: u32
  dv_router :: u32
  dv_dns :: u32
  dv_server :: u32

text \<open>The \<open>switch\<close> over the code of an option whose value starts at \<open>p\<close>.\<close>

definition dhcp_option :: "bytes \<Rightarrow> u8 \<Rightarrow> u8 \<Rightarrow> nat \<Rightarrow> dhcp_vals \<Rightarrow> dhcp_vals option" where
  "dhcp_option m code ln p v =
     (if code = 53 then do { t \<leftarrow> rd8 m p; Some (v\<lparr>dv_type := t\<rparr>) }
      else if code = 1 \<and> ln \<ge> 4 then do { x \<leftarrow> slice p 4 m; Some (v\<lparr>dv_subnet := le_word x\<rparr>) }
      else if code = 3 \<and> ln \<ge> 4 then do { x \<leftarrow> slice p 4 m; Some (v\<lparr>dv_router := le_word x\<rparr>) }
      else if code = 6 \<and> ln \<ge> 4 then do { x \<leftarrow> slice p 4 m; Some (v\<lparr>dv_dns := le_word x\<rparr>) }
      else if code = 54 \<and> ln \<ge> 4 then do { x \<leftarrow> slice p 4 m; Some (v\<lparr>dv_server := le_word x\<rparr>) }
      else Some v)"

text \<open>The loop over the options, which end with code 255 or with the structure.\<close>

function dhcp_loop :: "bytes \<Rightarrow> nat \<Rightarrow> dhcp_vals \<Rightarrow> dhcp_vals option" where
  "dhcp_loop m p v = (if \<not> p < dhcp_size then Some v else do {
     code \<leftarrow> rd8 m p;
     if code = 255 then Some v
     else if code = 0 then dhcp_loop m (p + 1) v
     else if p + 1 \<ge> dhcp_size then Some v
     else do {
       ln \<leftarrow> rd8 m (p + 1);
       if p + 2 + unat ln > dhcp_size then Some v
       else do {
         v \<leftarrow> dhcp_option m code ln (p + 2) v;
         dhcp_loop m (p + 2 + unat ln) v } } })"
  by pat_completeness auto
termination by (relation "measure (\<lambda>(m, p, v). dhcp_size - p)") auto

declare dhcp_loop.simps [simp del]

definition parse_options :: "bytes \<Rightarrow> u8 \<Rightarrow> net \<Rightarrow> net option" where
  "parse_options m expected_type s = do {
     v \<leftarrow> dhcp_loop m dhcp_options \<lparr>dv_type = 0, dv_subnet = 0, dv_router = 0, dv_dns = 0, dv_server = s_server_ip s\<rparr>;
     let s = s\<lparr>s_server_ip := dv_server v\<rparr>;
     yi \<leftarrow> slice 16 4 m;
     if dv_type v = DHCP_OFFER \<and> expected_type = DHCP_OFFER then
       Some (s\<lparr>s_offered_ip := le_word yi, d_subnet := dv_subnet v, d_gateway := dv_router v,
         d_dns := dv_dns v, s_got_offer := True\<rparr>)
     else if dv_type v = DHCP_ACK \<and> expected_type = DHCP_ACK then
       Some (s\<lparr>s_offered_ip := le_word yi,
         d_subnet := (if dv_subnet v \<noteq> 0 then dv_subnet v else d_subnet s),
         d_gateway := (if dv_router v \<noteq> 0 then dv_router v else d_gateway s),
         d_dns := (if dv_dns v \<noteq> 0 then dv_dns v else d_dns s), s_got_ack := True\<rparr>)
     else Some s }"

definition dhcp_recv :: "u8 \<Rightarrow> bytes \<Rightarrow> net \<Rightarrow> net option" where
  "dhcp_recv expected_type data s = (if length data < dhcp_size then Some s else do {
     xid \<leftarrow> slice 4 4 data;
     magic \<leftarrow> slice 236 4 data;
     if le_word xid \<noteq> s_xid s then Some s
     else if ntohl (le_word magic) \<noteq> DHCP_MAGIC then Some s
     else parse_options data expected_type s })"

definition dhcp_recv_offer :: "u32 \<Rightarrow> u16 \<Rightarrow> bytes \<Rightarrow> u64 \<Rightarrow> net \<Rightarrow> net option" where
  "dhcp_recv_offer src_ip src_port data ctx s = dhcp_recv DHCP_OFFER data s"

definition dhcp_recv_ack :: "u32 \<Rightarrow> u16 \<Rightarrow> bytes \<Rightarrow> u64 \<Rightarrow> net \<Rightarrow> net option" where
  "dhcp_recv_ack src_ip src_port data ctx s = dhcp_recv DHCP_ACK data s"

subsection \<open>Receiving datagrams\<close>

definition call_fn :: "udp_recv_fn \<Rightarrow> u32 \<Rightarrow> u16 \<Rightarrow> bytes \<Rightarrow> u64 \<Rightarrow> net \<Rightarrow> net option" where
  "call_fn fn = (case fn of Dns_recv_cb \<Rightarrow> dns_recv_cb | Dhcp_recv_offer \<Rightarrow> dhcp_recv_offer
     | Dhcp_recv_ack \<Rightarrow> dhcp_recv_ack)"

fun udp_deliver :: "nat list \<Rightarrow> u32 \<Rightarrow> u16 \<Rightarrow> u16 \<Rightarrow> bytes \<Rightarrow> net \<Rightarrow> net option" where
  "udp_deliver [] src_ip sport dport data s = Some s"
| "udp_deliver (i # is) src_ip sport dport data s = do {
     let b = s_binds s ! i;
     s \<leftarrow> (if ub_used b \<and> ub_port b = dport then call_fn (ub_fn b) src_ip sport data (ub_ctx b) s else Some s);
     udp_deliver is src_ip sport dport data s }"

definition udp_recv :: "u32 \<Rightarrow> u32 \<Rightarrow> bytes \<Rightarrow> net \<Rightarrow> net option" where
  "udp_recv src_ip dst_ip pkt s = (if length pkt < 8 then Some s else do {
     hdr \<leftarrow> udp_hdr_at pkt;
     let dport = ntohs (uh_dst_port hdr);
     let dlen = ntohs (uh_length hdr) - 8;
     if unat dlen > length pkt - 8 then Some s else do {
       data \<leftarrow> slice 8 (unat dlen) pkt;
       udp_deliver [0..<MAX_BINDS] src_ip (ntohs (uh_src_port hdr)) dport data s } })"

subsection \<open>Parsing never leaves the message\<close>

lemma dns_skip_qname_total: "\<exists>q. dns_skip_qname d p = Some q"
proof (induction d p rule: dns_skip_qname.induct)
  case (1 d p)
  then show ?case by (subst dns_skip_qname.simps) simp
qed

lemma dns_skip_name_total: "\<exists>q. dns_skip_name d p = Some q"
proof (induction d p rule: dns_skip_name.induct)
  case (1 d p)
  then show ?case by (subst dns_skip_name.simps) simp
qed

definition resolved :: "net \<Rightarrow> net \<Rightarrow> bool" where
  "resolved s s' \<longleftrightarrow> s' = s \<or> (\<exists>ip. s' = s\<lparr>s_resolved_ip := ip, s_got_reply := True\<rparr>)"

lemma dns_answers_spec: "\<exists>s'. dns_answers d n p s = Some s' \<and> resolved s s'"
proof (induction n arbitrary: p)
  case (Suc n)
  show ?case
  proof (cases "p < length d")
    case False
    then show ?thesis by (simp add: resolved_def)
  next
    case True
    obtain q where q: "(if d ! p AND 0xc0 = 0xc0 then Some (p + 2) else dns_skip_name d p) = Some q"
      using dns_skip_name_total [of d p] by (cases "d ! p AND 0xc0 = 0xc0") auto
    show ?thesis
    proof (cases "int (length d) - int q < 10")
      case c: True
      then show ?thesis using True q by (simp add: resolved_def)
    next
      case False
      then have sl: "slice q 2 d = Some (take 2 (drop q d))" "slice (q + 8) 2 d = Some (take 2 (drop (q + 8) d))"
        by (simp_all add: slice_def)
      let ?rd = "be_word (take 2 (drop (q + 8) d)) :: u16"
      obtain s' where s': "dns_answers d n (q + 10 + unat ?rd) s = Some s'" "resolved s s'" using Suc by blast
      show ?thesis
      proof (cases "be_word (take 2 (drop q d)) = DNS_TYPE_A \<and> ?rd = 4 \<and> int (length d) - int (q + 10) \<ge> 4")
        case c: True
        then have "slice (q + 10) 4 d = Some (take 4 (drop (q + 10) d))" by (simp add: slice_def)
        then have "dns_answers d (Suc n) p s =
            Some (s\<lparr>s_resolved_ip := le_word (take 4 (drop (q + 10) d)), s_got_reply := True\<rparr>)"
          using True q False sl c by (simp add: Let_def)
        then show ?thesis unfolding resolved_def by blast
      next
        case c: False
        have "dns_answers d (Suc n) p s = dns_answers d n (q + 10 + unat ?rd) s"
          using True q False sl c by (auto simp: Let_def)
        then show ?thesis using s' by simp
      qed
    qed
  qed
qed (simp add: resolved_def)

lemma dns_hdr_at_ok: "12 \<le> length p \<Longrightarrow> \<exists>h. dns_hdr_at p = Some h"
  by (simp add: dns_hdr_at_def slice_def)

lemma length_dns_hdr_bytes [simp]: "length (dns_hdr_bytes h) = 12"
  by (simp add: dns_hdr_bytes_def)

lemma dns_hdr_at_bytes [simp]: "dns_hdr_at (dns_hdr_bytes h @ p) = Some h"
  by (simp add: dns_hdr_at_def dns_hdr_bytes_def slice_def)

lemma dns_recv_cb_spec: "\<exists>s'. dns_recv_cb ip sp data ctx s = Some s' \<and> resolved s s'"
proof (cases "length data < 12")
  case True
  then show ?thesis by (simp add: dns_recv_cb_def resolved_def)
next
  case False
  then obtain h where h: "dns_hdr_at data = Some h" using dns_hdr_at_ok [of data] by auto
  obtain q where q: "dns_skip_qname data 12 = Some q" using dns_skip_qname_total by blast
  obtain s' where "dns_answers data (unat (ntohs (dh_ancount h))) (q + 4) s = Some s'" "resolved s s'"
    using dns_answers_spec by blast
  then show ?thesis using False h q by (simp add: dns_recv_cb_def resolved_def)
qed

lemma dhcp_option_ok:
  assumes "p + unat ln \<le> dhcp_size" "dhcp_size < length m"
  shows "\<exists>v'. dhcp_option m code ln p v = Some v'"
proof (cases "4 \<le> ln")
  case True
  then have "slice p 4 m = Some (take 4 (drop p m))" using assms by (simp add: slice_def word_le_nat_alt)
  then show ?thesis using assms by (simp add: dhcp_option_def)
next
  case False
  then show ?thesis using assms by (simp add: dhcp_option_def)
qed

lemma dhcp_loop_total:
  assumes "dhcp_size < length m"
  shows "\<exists>v'. dhcp_loop m p v = Some v'"
  using assms
proof (induction m p v rule: dhcp_loop.induct)
  case (1 m p v)
  show ?case
  proof (cases "p < dhcp_size \<and> m ! p \<noteq> 255")
    case False
    then show ?thesis using 1(3) by (subst dhcp_loop.simps) auto
  next
    case t: True
    then have r: "rd8 m p = Some (m ! p)" using 1(3) by simp
    show ?thesis
    proof (cases "m ! p = 0")
      case True
      then show ?thesis using 1(1) [OF _ r] t r 1(3) by (subst dhcp_loop.simps) simp
    next
      case nz: False
      show ?thesis
      proof (cases "p + 1 < dhcp_size \<and> p + 2 + unat (m ! (p + 1)) \<le> dhcp_size")
        case False
        then show ?thesis using t r nz 1(3) by (subst dhcp_loop.simps) auto
      next
        case True
        then have r2: "rd8 m (p + 1) = Some (m ! (p + 1))" using 1(3) by simp
        have le: "p + 2 + unat (m ! (p + 1)) \<le> dhcp_size" using True by simp
        obtain v1 where v1: "dhcp_option m (m ! p) (m ! (p + 1)) (p + 2) v = Some v1"
          using dhcp_option_ok [OF le 1(3)] by blast
        obtain v' where "dhcp_loop m (p + 2 + unat (m ! (p + 1))) v1 = Some v'"
          using 1(2) [OF _ r _ nz _ r2 _ v1] t True 1(3) by auto
        then show ?thesis using t r nz r2 True v1 by (subst dhcp_loop.simps) simp
      qed
    qed
  qed
qed

subsection \<open>Queries\<close>

text \<open>The encoding of a host name as labels.\<close>

function enc_name :: "bytes \<Rightarrow> bytes" where
  "enc_name host = (if host = [] then [] else
     (let lab = takeWhile (\<lambda>c. c \<noteq> dot) host
      in of_nat (length lab) # take (unat (of_nat (length lab) :: u8)) lab @
         enc_name (drop 1 (dropWhile (\<lambda>c. c \<noteq> dot) host))))"
  by pat_completeness auto
termination
proof (relation "measure length")
  fix host :: bytes and lab assume "host \<noteq> []"
  from rest_shorter [OF this, of "\<lambda>c. c \<noteq> dot"]
  show "(drop 1 (dropWhile (\<lambda>c. c \<noteq> dot) host), host) \<in> measure length" by (simp only: in_measure)
qed simp

declare enc_name.simps [simp del]

lemma lablen_le: "unat (of_nat n :: u8) \<le> n"
  by (simp add: unat_of_nat take_bit_eq_mod)

lemma take_takeWhile: "n \<le> length (takeWhile P xs) \<Longrightarrow> take n xs = take n (takeWhile P xs)"
  by (metis append_take_drop_id takeWhile_dropWhile_id take_append take_eq_Nil2 append_Nil2 diff_is_0_eq)

lemma length_enc_name: "length (enc_name host) \<le> length host + 1"
proof (induction host rule: enc_name.induct)
  case (1 host)
  show ?case
  proof (cases "host = []")
    case True
    then show ?thesis by (simp add: enc_name.simps)
  next
    case False
    let ?P = "\<lambda>c. c \<noteq> dot"
    let ?lab = "takeWhile ?P host" and ?rest = "dropWhile ?P host"
    have l: "length host = length ?lab + length ?rest" by (metis length_append takeWhile_dropWhile_id)
    have ll: "unat (of_nat (length ?lab) :: u8) \<le> length ?lab" by (rule lablen_le)
    have e: "length (enc_name host) = 1 + unat (of_nat (length ?lab) :: u8) + length (enc_name (drop 1 ?rest))"
      using False ll by (subst enc_name.simps) (simp add: Let_def)
    show ?thesis
    proof (cases "?rest = []")
      case True
      have "enc_name (drop 1 ?rest) = []" unfolding True by (simp add: enc_name.simps)
      then show ?thesis using e ll l by simp
    next
      case False
      then have "length (drop 1 ?rest) + 1 = length ?rest" by (cases ?rest) auto
      moreover have "length (enc_name (drop 1 ?rest)) \<le> length (drop 1 ?rest) + 1"
        using 1 [OF \<open>host \<noteq> []\<close> refl] .
      ultimately show ?thesis using e ll l by linarith
    qed
  qed
qed

lemma dns_qname_enc:
  assumes "length (enc_name host) \<le> length t"
  shows "dns_qname host (length a) (a @ t) =
    Some (length a + length (enc_name host), a @ enc_name host @ drop (length (enc_name host)) t)"
  using assms
proof (induction host arbitrary: a t rule: enc_name.induct)
  case (1 host)
  show ?case
  proof (cases "host = []")
    case True
    then show ?thesis by (subst dns_qname.simps) (simp add: enc_name.simps)
  next
    case False
    let ?P = "\<lambda>c. c \<noteq> dot"
    let ?lab = "takeWhile ?P host" and ?rest = "dropWhile ?P host"
    define c where "c = (of_nat (length ?lab) :: u8)"
    define l where "l = take (unat c) ?lab"
    define r where "r = enc_name (drop 1 ?rest)"
    have ll: "unat c \<le> length ?lab" unfolding c_def by (rule lablen_le)
    have l: "length l = unat c" using ll by (simp add: l_def)
    have tk: "take (unat c) host = l" using take_takeWhile [OF ll] by (simp add: l_def)
    have lh: "unat c \<le> length host" using ll length_takeWhile_le [of ?P host] by linarith
    have e: "enc_name host = c # l @ r"
      using False by (subst enc_name.simps) (simp add: Let_def c_def l_def r_def)
    then have t: "1 + length l + length r \<le> length t" using 1(2) by simp
    have p1: "put (length a) [c] (a @ t) = Some ((a @ [c]) @ drop 1 t)"
      using t by (simp add: put_def)
    have p2: "put (length a + 1) l ((a @ [c]) @ drop 1 t) = Some ((a @ c # l) @ drop (1 + length l) t)"
      using t by (simp add: put_def)
    have sl: "slice 0 (unat c) host = Some l" using lh tk by (simp add: slice_def)
    have step: "dns_qname host (length a) (a @ t) =
        dns_qname (drop 1 ?rest) (length (a @ c # l)) ((a @ c # l) @ drop (1 + length l) t)"
      using False p1 p2 sl l by (subst dns_qname.simps) (simp add: Let_def c_def [symmetric])
    have "length (enc_name (drop 1 ?rest)) \<le> length (drop (1 + length l) t)"
      unfolding r_def [symmetric] using t by simp
    from 1(1) [OF False refl this, of "a @ c # l"]
    show ?thesis unfolding step r_def [symmetric] e by (simp add: add.commute add.left_commute)
  qed
qed

lemma dns_query_eq:
  assumes "length host \<le> 494"
  shows "dns_query qid host = Some (dns_hdr_bytes \<lparr>dh_id = htons qid, dh_flags = htons DNS_RD, dh_qdcount = htons 1,
    dh_ancount = 0, dh_nscount = 0, dh_arcount = 0\<rparr> @ enc_name host @ [0, 0, 1, 0, 1])"
proof -
  let ?h = "dns_hdr_bytes \<lparr>dh_id = htons qid, dh_flags = htons DNS_RD, dh_qdcount = htons 1,
    dh_ancount = 0, dh_nscount = 0, dh_arcount = 0\<rparr>"
  let ?n = "length (enc_name host)"
  have n: "?n \<le> 495" using length_enc_name [of host] assms by linarith
  have p: "put 0 ?h (replicate 512 0) = Some (?h @ replicate 500 0)" by (simp add: put_def)
  have q: "dns_qname host 12 (?h @ replicate 500 0) = Some (12 + ?n, (?h @ enc_name host) @ replicate (500 - ?n) 0)"
    using dns_qname_enc [of host "replicate 500 0" ?h] n by simp
  have r: "put (12 + ?n) [0, 0, 1, 0, 1] ((?h @ enc_name host) @ replicate (500 - ?n) 0) =
      Some ((?h @ enc_name host) @ [0, 0, 1, 0, 1] @ replicate (495 - ?n) 0)"
    using n by (simp add: put_def)
  have t: "slice 0 (12 + ?n + 5) ((?h @ enc_name host) @ [0, 0, 1, 0, 1] @ replicate (495 - ?n) 0) =
      Some (?h @ enc_name host @ [0, 0, 1, 0, 1])"
    using n by (simp add: slice_def)
  show ?thesis
    using p q r t by (simp add: dns_query_def Let_def DNS_TYPE_A_def DNS_CLASS_IN_def)
qed

text \<open>A host name is a sequence of labels joined by dots.\<close>

fun host_name :: "bytes list \<Rightarrow> bytes" where
  "host_name [] = []"
| "host_name [l] = l"
| "host_name (l # m # ls) = l @ dot # host_name (m # ls)"

definition good_label :: "bytes \<Rightarrow> bool" where
  "good_label l \<longleftrightarrow> l \<noteq> [] \<and> length l < 64 \<and> dot \<notin> set l"

definition enc_labels :: "bytes list \<Rightarrow> bytes" where
  "enc_labels ls = concat (map (\<lambda>l. of_nat (length l) # l) ls)"

lemma unat_label: "good_label l \<Longrightarrow> unat (of_nat (length l) :: u8) = length l"
  by (simp add: good_label_def unat_of_nat take_bit_nat_eq_self)

lemma enc_name_host:
  "\<forall>l \<in> set ls. good_label l \<Longrightarrow> enc_name (host_name ls) = enc_labels ls"
proof (induction ls rule: host_name.induct)
  case 1
  then show ?case by (simp add: enc_name.simps enc_labels_def)
next
  case (2 l)
  then have g: "good_label l" by simp
  then have "\<forall>c \<in> set l. c \<noteq> dot" by (auto simp: good_label_def)
  then have l: "l \<noteq> []" "takeWhile (\<lambda>c. c \<noteq> dot) l = l" "dropWhile (\<lambda>c. c \<noteq> dot) l = []"
    using g by (simp_all add: good_label_def takeWhile_eq_all_conv dropWhile_eq_Nil_conv)
  have "enc_name l = of_nat (length l) # take (unat (of_nat (length l) :: u8)) l @ enc_name (drop 1 [])"
    using l(1) by (subst enc_name.simps) (simp only: Let_def l(2,3) if_False)
  then show ?case using unat_label [OF g] enc_name.simps [of "[]"] by (simp add: enc_labels_def)
next
  case (3 l m ls)
  then have "\<forall>c \<in> set l. c \<noteq> dot" by (auto simp: good_label_def)
  then have l: "takeWhile (\<lambda>c. c \<noteq> dot) (l @ dot # x) = l" "dropWhile (\<lambda>c. c \<noteq> dot) (l @ dot # x) = dot # x" for x
    by (simp_all add: takeWhile_append2 dropWhile_append2)
  show ?case using unat_label [of l] 3 l
    by (subst enc_name.simps) (simp add: Let_def enc_labels_def)
qed

lemma label_byte:
  assumes "good_label l"
  shows "(of_nat (length l) :: u8) \<noteq> 0" "(of_nat (length l) :: u8) AND 0xc0 \<noteq> 0xc0"
proof -
  let ?b = "of_nat (length l) :: u8"
  have u: "unat ?b = length l" "0 < length l" "length l < 64" using unat_label [OF assms] assms by (auto simp: good_label_def)
  then show "?b \<noteq> 0" by (metis less_numeral_extra(3) unat_0)
  have t: "?b = take_bit 6 ?b" by (simp add: take_bit_eq_mod word_unat_eq_iff unat_mod u)
  have m: "(0xc0 :: u8) = push_bit 6 (mask 2)" by (simp add: mask_eq_exp_minus_1 push_bit_eq_mult)
  have "take_bit 6 w AND push_bit 6 (mask 2) = 0" for w :: u8
    by (rule bit_word_eqI) (simp add: bit_simps)
  then have "?b AND 0xc0 = 0" using t m by metis
  then show "?b AND 0xc0 \<noteq> 0xc0" by simp
qed

lemma skip_labels:
  "\<forall>l \<in> set ls. good_label l \<Longrightarrow>
     dns_skip_qname (a @ enc_labels ls @ 0 # t) (length a) = Some (length a + length (enc_labels ls) + 1)"
proof (induction ls arbitrary: a)
  case Nil
  then show ?case by (subst dns_skip_qname.simps) (simp add: enc_labels_def nth_append)
next
  case (Cons l ls)
  let ?b = "of_nat (length l) :: u8"
  have g: "good_label l" using Cons.prems by simp
  have e: "enc_labels (l # ls) = ?b # l @ enc_labels ls" by (simp add: enc_labels_def)
  have "dns_skip_qname (a @ enc_labels (l # ls) @ 0 # t) (length a) =
      dns_skip_qname ((a @ ?b # l) @ enc_labels ls @ 0 # t) (length (a @ ?b # l))"
    using label_byte [OF g] unat_label [OF g] by (subst dns_skip_qname.simps) (simp add: e nth_append)
  also have "\<dots> = Some (length (a @ ?b # l) + length (enc_labels ls) + 1)"
    using Cons.prems by (intro Cons.IH) simp
  finally show ?case by (simp add: e)
qed

lemma slice_append: "slice (length a + i) n (a @ b) = slice i n b"
  by (simp add: slice_def)

lemma dns_answer_rec:
  assumes "length ct = 6" "length ip = 4"
  shows "dns_answers (a @ [0xc0, 0x0c, 0, 1] @ ct @ [0, 4] @ ip @ rest) (Suc k) (length a) s =
    Some (s\<lparr>s_resolved_ip := le_word ip, s_got_reply := True\<rparr>)"
proof -
  define d where "d = a @ [0xc0, 0x0c, 0, 1] @ ct @ [0, 4] @ ip @ rest"
  have b: "rd8 d (length a) = Some 0xc0" by (simp add: rd8_def d_def nth_append)
  have l: "length a < length d" "\<not> int (length d) - int (length a + 2) < 10"
    "int (length d) - int (length a + 2 + 10) \<ge> 4"
    using assms by (simp_all add: d_def)
  have s1: "slice (length a + 2) 2 d = Some [0, 1]" "slice (length a + 2 + 8) 2 d = Some [0, 4]"
    "slice (length a + 2 + 10) 4 d = Some ip"
    using slice_append [of a 2 2] slice_append [of a 10 2] slice_append [of a 12 4] assms
    by (simp_all add: d_def slice_def add.assoc)
  have w: "be_word [0, 1] = (1 :: u16)" "be_word [0, 4] = (4 :: u16)" by (simp_all add: be_word_def)
  show ?thesis
    unfolding d_def [symmetric] using b l s1 by (simp add: Let_def DNS_TYPE_A_def w)
qed



lemma dhcp_pad:
  "(\<forall>i. p \<le> i \<and> i < p + n \<longrightarrow> m ! i = 0) \<Longrightarrow> p + n < dhcp_size \<Longrightarrow> dhcp_size \<le> length m \<Longrightarrow>
     dhcp_loop m p v = dhcp_loop m (p + n) v"
proof (induction n arbitrary: p)
  case (Suc n)
  have "dhcp_loop m p v = dhcp_loop m (p + 1) v" using Suc.prems by (subst dhcp_loop.simps) simp
  also have "\<dots> = dhcp_loop m (p + 1 + n) v" using Suc.prems by (intro Suc.IH) auto
  finally show ?case by simp
qed simp

text \<open>
  C0: A DHCP reply can make the option parser read the byte after the message: the message type
  option with length 0 as the last option is accepted, and its value is read from beyond the
  option area.
\<close>

theorem dhcp_overread:
  "\<exists>data. length data = dhcp_size \<and> dhcp_recv_offer src sp data ctx s = None"
proof -
  let ?a = "replicate 4 0 @ le_bytes 4 (s_xid s) @ replicate 228 0 @ le_bytes 4 (htonl DHCP_MAGIC)"
  let ?d = "?a @ replicate 306 0 @ [53, 0]"
  let ?v = "\<lparr>dv_type = 0, dv_subnet = 0, dv_router = 0, dv_dns = 0, dv_server = s_server_ip s\<rparr>"
  have a: "length ?a = 240" by simp
  have n: "?d ! (240 + i) = (replicate 306 0 @ [53, 0]) ! i" for i using a nth_append_length_plus [of ?a] by metis
  have len: "length ?d = 548" by simp
  have z: "\<forall>i. 240 \<le> i \<and> i < 240 + 306 \<longrightarrow> ?d ! i = 0"
  proof (intro allI impI)
    fix i :: nat assume "240 \<le> i \<and> i < 240 + 306"
    then obtain j where j: "i = 240 + j" "j < 306" by (metis add_less_cancel_left le_Suc_ex)
    then show "?d ! i = 0" unfolding j(1) n by (simp add: nth_append)
  qed
  have b: "?d ! 546 = 53" "?d ! 547 = 0" using n [of 306] n [of 307] by (simp_all add: nth_append)
  have "dhcp_loop ?d 240 ?v = dhcp_loop ?d (240 + 306) ?v"
    using z len by (intro dhcp_pad) (simp_all add: dhcp_size_def)
  also have "\<dots> = None"
    using b len by (subst dhcp_loop.simps) (simp add: dhcp_size_def rd8_def dhcp_option_def)
  finally have "dhcp_loop ?d 240 ?v = None" .
  moreover have "slice 4 4 ?d = Some (le_bytes 4 (s_xid s))" "slice 236 4 ?d = Some (le_bytes 4 (htonl DHCP_MAGIC))"
    by (simp_all add: slice_def)
  ultimately have "dhcp_recv_offer src sp ?d ctx s = None"
    using len by (simp add: dhcp_recv_offer_def dhcp_recv_def parse_options_def dhcp_options_def dhcp_size_def)
  then show ?thesis using len by (intro exI [of _ ?d]) (simp add: dhcp_size_def)
qed

subsection \<open>Callbacks\<close>

text \<open>The callbacks change the answers that their clients wait for only.\<close>

definition app_clear :: "net \<Rightarrow> net" where
  "app_clear s = s\<lparr>s_got_reply := False, s_resolved_ip := 0, s_got_offer := False, s_got_ack := False,
     s_offered_ip := 0, s_server_ip := 0, d_subnet := 0, d_gateway := 0, d_dns := 0\<rparr>"

definition app_upd :: "net \<Rightarrow> net \<Rightarrow> bool" where
  "app_upd s s' \<longleftrightarrow> app_clear s' = app_clear s"

lemma app_upd_refl [simp]: "app_upd s s"
  by (simp add: app_upd_def)

lemma app_upd_trans: "app_upd s s' \<Longrightarrow> app_upd s' s'' \<Longrightarrow> app_upd s s''"
  by (simp add: app_upd_def)

lemma app_updD:
  assumes "app_upd s s'"
  shows "n_nic s' = n_nic s" "n_rx s' = n_rx s" "n_tx s' = n_tx s" "s_frame s' = s_frame s" "s_table s' = s_table s"
    "s_ip s' = s_ip s" "s_binds s' = s_binds s" "s_conns s' = s_conns s" "s_socks s' = s_socks s" "s_used s' = s_used s"
    "net_inv s' = net_inv s"
proof -
  have c: "n_nic (app_clear x) = n_nic x" "n_rx (app_clear x) = n_rx x" "n_tx (app_clear x) = n_tx x"
    "s_frame (app_clear x) = s_frame x" "s_table (app_clear x) = s_table x" "s_ip (app_clear x) = s_ip x"
    "s_binds (app_clear x) = s_binds x" "s_conns (app_clear x) = s_conns x" "s_socks (app_clear x) = s_socks x"
    "s_used (app_clear x) = s_used x" for x by (simp_all add: app_clear_def)
  show "n_nic s' = n_nic s" "n_rx s' = n_rx s" "n_tx s' = n_tx s" "s_frame s' = s_frame s" "s_table s' = s_table s"
    "s_ip s' = s_ip s" "s_binds s' = s_binds s" "s_conns s' = s_conns s" "s_socks s' = s_socks s" "s_used s' = s_used s"
    using assms c [of s] c [of s'] by (simp_all add: app_upd_def)
  then show "net_inv s' = net_inv s" by (simp add: net_inv_def)
qed

lemma resolved_app_upd: "resolved s s' \<Longrightarrow> app_upd s s'"
  by (auto simp: resolved_def app_upd_def app_clear_def)

lemma dhcp_recv_spec:
  assumes "length data \<noteq> dhcp_size"
  shows "\<exists>s'. dhcp_recv t data s = Some s' \<and> app_upd s s'"
proof (cases "length data < dhcp_size")
  case True
  then show ?thesis by (simp add: dhcp_recv_def)
next
  case False
  then have l: "dhcp_size < length data" using assms by simp
  obtain v where "dhcp_loop data dhcp_options \<lparr>dv_type = 0, dv_subnet = 0, dv_router = 0, dv_dns = 0, dv_server = s_server_ip s\<rparr> = Some v"
    using dhcp_loop_total [OF l] by blast
  then have "\<exists>s'. parse_options data t s = Some s' \<and> app_upd s s'"
    using l by (simp add: parse_options_def slice_def dhcp_size_def Let_def app_upd_def app_clear_def)
  then show ?thesis using l by (auto simp: dhcp_recv_def slice_def dhcp_size_def)
qed

lemma call_fn_spec:
  assumes "fn = Dns_recv_cb \<or> length data \<noteq> dhcp_size"
  shows "\<exists>s'. call_fn fn ip sp data ctx s = Some s' \<and> app_upd s s'"
proof (cases fn)
  case Dns_recv_cb
  then show ?thesis using dns_recv_cb_spec resolved_app_upd by (simp add: call_fn_def) blast
next
  case Dhcp_recv_offer
  then show ?thesis using assms dhcp_recv_spec by (simp add: call_fn_def dhcp_recv_offer_def)
next
  case Dhcp_recv_ack
  then show ?thesis using assms dhcp_recv_spec by (simp add: call_fn_def dhcp_recv_ack_def)
qed

text \<open>The bound callbacks that are safe for datagrams of every size.\<close>

definition dns_only :: "net \<Rightarrow> bool" where
  "dns_only s \<longleftrightarrow> (\<forall>i < MAX_BINDS. ub_used (s_binds s ! i) \<longrightarrow> ub_fn (s_binds s ! i) = Dns_recv_cb)"

lemma udp_deliver_spec:
  assumes "set is \<subseteq> {..<MAX_BINDS}" "dns_only s \<or> length data \<noteq> dhcp_size"
  shows "\<exists>s'. udp_deliver is ip sp dp data s = Some s' \<and> app_upd s s'"
  using assms
proof (induction "is" arbitrary: s)
  case (Cons i "is")
  obtain s1 where s1: "(if ub_used (s_binds s ! i) \<and> ub_port (s_binds s ! i) = dp
      then call_fn (ub_fn (s_binds s ! i)) ip sp data (ub_ctx (s_binds s ! i)) s else Some s) = Some s1" "app_upd s s1"
    using call_fn_spec [of "ub_fn (s_binds s ! i)" data ip sp "ub_ctx (s_binds s ! i)" s] Cons.prems
    by (cases "ub_used (s_binds s ! i) \<and> ub_port (s_binds s ! i) = dp") (auto simp: dns_only_def)
  have "dns_only s1 \<or> length data \<noteq> dhcp_size" using Cons.prems(2) app_updD(7) [OF s1(2)] by (simp add: dns_only_def)
  then obtain s2 where "udp_deliver is ip sp dp data s1 = Some s2" "app_upd s1 s2" using Cons by auto
  then show ?case using s1 app_upd_trans by (auto simp: Let_def)
qed simp

lemma udp_recv_spec:
  assumes "dns_only s \<or> length pkt < dhcp_size + 8"
  shows "\<exists>s'. udp_recv src dst pkt s = Some s' \<and> app_upd s s'"
proof (cases "length pkt < 8")
  case True
  then show ?thesis by (simp add: udp_recv_def)
next
  case False
  then obtain h where h: "udp_hdr_at pkt = Some h" using udp_hdr_at_ok [of pkt] by auto
  show ?thesis
  proof (cases "unat (ntohs (uh_length h) - 8) > length pkt - 8")
    case True
    then show ?thesis using False h by (simp add: udp_recv_def Let_def)
  next
    case c: False
    let ?data = "take (unat (ntohs (uh_length h) - 8)) (drop 8 pkt)"
    have "slice 8 (unat (ntohs (uh_length h) - 8)) pkt = Some ?data" using False c by (simp add: slice_def)
    then have sl: "slice 8 (unat (ntohs (uh_length h) - 8)) pkt = Some ?data" .
    have "dns_only s \<or> length ?data \<noteq> dhcp_size" using assms False by auto
    moreover have "set [0..<MAX_BINDS] \<subseteq> {..<MAX_BINDS}" by auto
    ultimately obtain s' where "udp_deliver [0..<MAX_BINDS] src (ntohs (uh_src_port h)) (ntohs (uh_dst_port h)) ?data s = Some s'"
      "app_upd s s'" using udp_deliver_spec [of "[0..<MAX_BINDS]" s ?data] by blast
    then show ?thesis using False h c sl by (simp add: udp_recv_def Let_def)
  qed
qed

end
