(* ===== verification/Tcp.thy ===== *)
theory Tcp
  imports Resolver
begin

text \<open>
  TCP (\<^verbatim>\<open>kernel/net/tcp.c\<close>): the receive buffer, segments, and the handler of incoming segments.
  A connection handle is the index of the connection in \<open>s_conns\<close>.
\<close>

definition TCP_FLAG_FIN :: u8 where "TCP_FLAG_FIN = 0x01"
definition TCP_FLAG_SYN :: u8 where "TCP_FLAG_SYN = 0x02"
definition TCP_FLAG_RST :: u8 where "TCP_FLAG_RST = 0x04"
definition TCP_FLAG_PSH :: u8 where "TCP_FLAG_PSH = 0x08"
definition TCP_FLAG_ACK :: u8 where "TCP_FLAG_ACK = 0x10"

record tcp_hdr =
  th_src_port :: u16
  th_dst_port :: u16
  th_seq :: u32
  th_ack :: u32
  th_data_off :: u8
  th_flags :: u8
  th_window :: u16
  th_checksum :: u16
  th_urgent :: u16

definition tcp_hdr_bytes :: "tcp_hdr \<Rightarrow> bytes" where
  "tcp_hdr_bytes h = le_bytes 2 (th_src_port h) @ le_bytes 2 (th_dst_port h) @ le_bytes 4 (th_seq h) @
     le_bytes 4 (th_ack h) @ [th_data_off h, th_flags h] @ le_bytes 2 (th_window h) @
     le_bytes 2 (th_checksum h) @ le_bytes 2 (th_urgent h)"

definition tcp_hdr_at :: "bytes \<Rightarrow> tcp_hdr option" where
  "tcp_hdr_at p = do {
     sp \<leftarrow> slice 0 2 p; dp \<leftarrow> slice 2 2 p; sq \<leftarrow> slice 4 4 p; ak \<leftarrow> slice 8 4 p; df \<leftarrow> slice 12 1 p;
     fl \<leftarrow> slice 13 1 p; wi \<leftarrow> slice 14 2 p; ck \<leftarrow> slice 16 2 p; ur \<leftarrow> slice 18 2 p;
     Some \<lparr>th_src_port = le_word sp, th_dst_port = le_word dp, th_seq = le_word sq, th_ack = le_word ak,
       th_data_off = hd df, th_flags = hd fl, th_window = le_word wi, th_checksum = le_word ck,
       th_urgent = le_word ur\<rparr> }"

subsection \<open>Connections and buffers\<close>

definition set_conn :: "nat \<Rightarrow> (tcp_conn \<Rightarrow> tcp_conn) \<Rightarrow> net \<Rightarrow> net" where
  "set_conn i f s = s\<lparr>s_conns := (s_conns s)[i := f (s_conns s ! i)]\<rparr>"

definition alloc_conn :: "net \<Rightarrow> nat option \<times> net" where
  "alloc_conn s = (case find (\<lambda>i. \<not> tc_in_use (s_conns s ! i)) [0..<MAX_CONNS] of None \<Rightarrow> (None, s)
     | Some i \<Rightarrow> (Some i, set_conn i (\<lambda>c. c\<lparr>tc_in_use := True\<rparr>) s))"

definition alloc_port :: "net \<Rightarrow> u16 \<times> net" where
  "alloc_port s = (s_next_port s, s\<lparr>s_next_port := s_next_port s + 1\<rparr>)"

fun rxbuf_push :: "bytes \<Rightarrow> tcp_conn \<Rightarrow> tcp_conn" where
  "rxbuf_push [] c = c"
| "rxbuf_push (d # ds) c =
     (let nx = (rxbuf_tail c + 1) mod TCP_RXBUF
      in if nx = rxbuf_head c then c
         else rxbuf_push ds (c\<lparr>rxbuf := (rxbuf c)[unat (rxbuf_tail c) := d], rxbuf_tail := nx\<rparr>))"

fun rxbuf_pop :: "nat \<Rightarrow> tcp_conn \<Rightarrow> bytes \<times> tcp_conn" where
  "rxbuf_pop 0 c = ([], c)"
| "rxbuf_pop (Suc n) c =
     (if rxbuf_head c \<noteq> rxbuf_tail c then
        (let b = rxbuf c ! unat (rxbuf_head c);
             (bs, c') = rxbuf_pop n (c\<lparr>rxbuf_head := (rxbuf_head c + 1) mod TCP_RXBUF\<rparr>)
         in (b # bs, c'))
      else ([], c))"

subsection \<open>Segments\<close>

definition tcp_send_seg :: "nat \<Rightarrow> u8 \<Rightarrow> bytes \<Rightarrow> net \<Rightarrow> (bool \<times> net) option" where
  "tcp_send_seg i flags data s =
     (let c = s_conns s ! i
      in if length data + 20 > 1460 + 20 then Some (False, s) else do {
        let hdr = \<lparr>th_src_port = htons (tc_src_port c), th_dst_port = htons (tc_dst_port c),
          th_seq = htonl (snd_seq c), th_ack = (if flags AND TCP_FLAG_ACK \<noteq> 0 then htonl (rcv_nxt c) else 0),
          th_data_off = push_bit 4 (20 div 4), th_flags = flags, th_window = htons (rcv_win c),
          th_checksum = 0, th_urgent = 0\<rparr>;
        buf \<leftarrow> put 0 (tcp_hdr_bytes hdr) (replicate 1480 0);
        buf \<leftarrow> put 20 data buf;
        seg \<leftarrow> slice 0 (20 + length data) buf;
        let csum = ip_pseudo_checksum (ipv4_our_ip s) (tc_dst_ip c) IP_PROTO_TCP seg;
        buf \<leftarrow> put 0 (tcp_hdr_bytes (hdr\<lparr>th_checksum := htons csum\<rparr>)) buf;
        let s = (if flags AND (TCP_FLAG_SYN OR TCP_FLAG_FIN) \<noteq> 0
          then set_conn i (\<lambda>c. c\<lparr>snd_seq := snd_seq c + 1\<rparr>) s
          else set_conn i (\<lambda>c. c\<lparr>snd_seq := snd_seq c + of_nat (length data)\<rparr>) s);
        seg \<leftarrow> slice 0 (20 + length data) buf;
        ipv4_send (tc_dst_ip c) IP_PROTO_TCP seg s
      })"

function tcp_send_loop :: "nat \<Rightarrow> bytes \<Rightarrow> net \<Rightarrow> (bool \<times> net) option" where
  "tcp_send_loop i data s = (if data = [] then Some (True, s) else do {
     let chunk = (if length data > 1460 then 1460 else length data);
     (ok, s) \<leftarrow> tcp_send_seg i (TCP_FLAG_ACK OR TCP_FLAG_PSH) (take chunk data) s;
     if \<not> ok then Some (False, s) else tcp_send_loop i (drop chunk data) s })"
  by pat_completeness auto
termination by (relation "measure (\<lambda>(i, d, s). length d)") auto

declare tcp_send_loop.simps [simp del]

definition tcp_send :: "nat option \<Rightarrow> bytes \<Rightarrow> net \<Rightarrow> (bool \<times> net) option" where
  "tcp_send c data s = (case c of None \<Rightarrow> Some (False, s) | Some i \<Rightarrow>
     if tc_state (s_conns s ! i) \<noteq> TCP_ESTABLISHED then Some (False, s) else tcp_send_loop i data s)"

definition tcp_recv :: "nat option \<Rightarrow> nat \<Rightarrow> net \<Rightarrow> bytes \<times> net" where
  "tcp_recv c n s = (case c of None \<Rightarrow> ([], s) | Some i \<Rightarrow>
     if tc_state (s_conns s ! i) \<noteq> TCP_ESTABLISHED then ([], s)
     else (let (bs, c') = rxbuf_pop n (s_conns s ! i) in (bs, set_conn i (\<lambda>_. c') s)))"

definition tcp_close :: "nat option \<Rightarrow> net \<Rightarrow> net option" where
  "tcp_close c s = (case c of None \<Rightarrow> Some s | Some i \<Rightarrow> do {
     (_, s) \<leftarrow> (if tc_state (s_conns s ! i) = TCP_ESTABLISHED
       then tcp_send_seg i (TCP_FLAG_FIN OR TCP_FLAG_ACK) [] s else Some (False, s));
     Some (set_conn i (\<lambda>c. c\<lparr>tc_state := TCP_CLOSED, tc_in_use := False\<rparr>) s) })"

definition tcp_is_established :: "nat option \<Rightarrow> net \<Rightarrow> bool" where
  "tcp_is_established c s = (case c of None \<Rightarrow> False | Some i \<Rightarrow> tc_state (s_conns s ! i) = TCP_ESTABLISHED)"

subsection \<open>Incoming segments\<close>

definition tcp_match :: "u32 \<Rightarrow> u16 \<Rightarrow> u16 \<Rightarrow> tcp_conn \<Rightarrow> bool" where
  "tcp_match src_ip sport dport c \<longleftrightarrow> tc_in_use c \<and> tc_dst_ip c = src_ip \<and> tc_dst_port c = sport \<and> tc_src_port c = dport"

definition tcp_syn_sent :: "nat \<Rightarrow> u8 \<Rightarrow> u32 \<Rightarrow> u32 \<Rightarrow> net \<Rightarrow> net option" where
  "tcp_syn_sent i flags seq ack s =
     (if flags AND (TCP_FLAG_SYN OR TCP_FLAG_ACK) = TCP_FLAG_SYN OR TCP_FLAG_ACK then do {
        let s = set_conn i (\<lambda>c. c\<lparr>rcv_nxt := seq + 1, snd_una := ack, tc_state := TCP_ESTABLISHED\<rparr>) s;
        (_, s) \<leftarrow> tcp_send_seg i TCP_FLAG_ACK [] s;
        Some s }
      else if flags AND TCP_FLAG_RST \<noteq> 0 then Some (set_conn i (\<lambda>c. c\<lparr>tc_state := TCP_CLOSED\<rparr>) s)
      else Some s)"

definition tcp_established :: "nat \<Rightarrow> u8 \<Rightarrow> u32 \<Rightarrow> u32 \<Rightarrow> bytes \<Rightarrow> net \<Rightarrow> net option" where
  "tcp_established i flags seq ack data s =
     (if flags AND TCP_FLAG_RST \<noteq> 0 then Some (set_conn i (\<lambda>c. c\<lparr>tc_state := TCP_CLOSED\<rparr>) s)
      else do {
        let s = (if flags AND TCP_FLAG_ACK \<noteq> 0 then set_conn i (\<lambda>c. c\<lparr>snd_una := ack\<rparr>) s else s);
        s \<leftarrow> (if length data > 0 \<and> seq = rcv_nxt (s_conns s ! i) then do {
            let s = set_conn i (rxbuf_push data) s;
            let s = set_conn i (\<lambda>c. c\<lparr>rcv_nxt := rcv_nxt c + of_nat (length data)\<rparr>) s;
            (_, s) \<leftarrow> tcp_send_seg i TCP_FLAG_ACK [] s;
            Some s }
          else Some s);
        if flags AND TCP_FLAG_FIN \<noteq> 0 then do {
          let s = set_conn i (\<lambda>c. c\<lparr>rcv_nxt := rcv_nxt c + 1, tc_state := TCP_CLOSE_WAIT\<rparr>) s;
          (_, s) \<leftarrow> tcp_send_seg i TCP_FLAG_ACK [] s;
          (_, s) \<leftarrow> tcp_send_seg i (TCP_FLAG_FIN OR TCP_FLAG_ACK) [] s;
          Some (set_conn i (\<lambda>c. c\<lparr>tc_state := TCP_CLOSED\<rparr>) s) }
        else Some s })"

definition tcp_fin_wait_2 :: "nat \<Rightarrow> u8 \<Rightarrow> net \<Rightarrow> net option" where
  "tcp_fin_wait_2 i flags s =
     (if flags AND TCP_FLAG_FIN \<noteq> 0 then do {
        let s = set_conn i (\<lambda>c. c\<lparr>rcv_nxt := rcv_nxt c + 1\<rparr>) s;
        (_, s) \<leftarrow> tcp_send_seg i TCP_FLAG_ACK [] s;
        Some (set_conn i (\<lambda>c. c\<lparr>tc_state := TCP_CLOSED\<rparr>) s) }
      else Some s)"

definition tcp_input :: "u32 \<Rightarrow> u32 \<Rightarrow> bytes \<Rightarrow> net \<Rightarrow> net option" where
  "tcp_input src_ip dst_ip pkt s = (if length pkt < 20 then Some s else do {
     hdr \<leftarrow> tcp_hdr_at pkt;
     let doff = unat (drop_bit 4 (th_data_off hdr) * 4);
     if doff < 20 \<or> doff > length pkt then Some s else do {
       data \<leftarrow> slice doff (length pkt - doff) pkt;
       let flags = th_flags hdr;
       (case find (\<lambda>i. tcp_match src_ip (ntohs (th_src_port hdr)) (ntohs (th_dst_port hdr)) (s_conns s ! i))
          [0..<MAX_CONNS] of None \<Rightarrow> Some s
        | Some i \<Rightarrow>
          (let seq = ntohl (th_seq hdr); ack = ntohl (th_ack hdr)
           in case tc_state (s_conns s ! i) of
             TCP_SYN_SENT \<Rightarrow> tcp_syn_sent i flags seq ack s
           | TCP_ESTABLISHED \<Rightarrow> tcp_established i flags seq ack data s
           | TCP_FIN_WAIT_1 \<Rightarrow>
               tcp_fin_wait_2 i flags (if flags AND TCP_FLAG_ACK \<noteq> 0
                 then set_conn i (\<lambda>c. c\<lparr>tc_state := TCP_FIN_WAIT_2\<rparr>) s else s)
           | TCP_FIN_WAIT_2 \<Rightarrow> tcp_fin_wait_2 i flags s
           | _ \<Rightarrow> Some s)) } })"

subsection \<open>The receive buffer\<close>

definition rx_count :: "tcp_conn \<Rightarrow> nat" where
  "rx_count c = (unat (rxbuf_tail c) + 4096 - unat (rxbuf_head c)) mod 4096"

definition rx_contents :: "tcp_conn \<Rightarrow> bytes" where
  "rx_contents c = ring (rxbuf c) (unat (rxbuf_head c)) (rx_count c)"

lemma rx_next:
  assumes "(t :: u32) < TCP_RXBUF"
  shows "unat ((t + 1) mod TCP_RXBUF) = (unat t + 1) mod 4096"
proof -
  have "unat t < 4096" using assms by (simp add: TCP_RXBUF_def word_less_nat_alt)
  then have "unat (t + 1) = unat t + 1" by (subst unat_add_lem [THEN iffD1]) simp_all
  then show ?thesis by (simp add: TCP_RXBUF_def unat_mod)
qed

lemma rx_count_less: "rx_count c < 4096"
  by (simp add: rx_count_def)

lemma length_rx_contents [simp]: "length (rx_contents c) = rx_count c"
  by (simp add: rx_contents_def)

lemma conn_nat:
  assumes "conn_inv c"
  shows "unat (rxbuf_head c) < 4096" "unat (rxbuf_tail c) < 4096" "length (rxbuf c) = 4096"
    "(unat (rxbuf_head c) + rx_count c) mod 4096 = unat (rxbuf_tail c)"
proof -
  show h: "unat (rxbuf_head c) < 4096" "unat (rxbuf_tail c) < 4096" "length (rxbuf c) = 4096"
    using assms by (simp_all add: conn_inv_def TCP_RXBUF_def word_less_nat_alt)
  have "(unat (rxbuf_head c) + (unat (rxbuf_tail c) + 4096 - unat (rxbuf_head c))) mod 4096 = unat (rxbuf_tail c)"
    using h by simp
  then show "(unat (rxbuf_head c) + rx_count c) mod 4096 = unat (rxbuf_tail c)"
    unfolding rx_count_def by (simp only: mod_add_right_eq)
qed

lemma ring_dist: "h < 4096 \<Longrightarrow> t < 4096 \<Longrightarrow> (t + 4096 - h) mod 4096 = (if h \<le> t then t - h else t + 4096 - h :: nat)"
  by (simp add: mod_if)

lemma ring_arith:
  fixes h t :: nat
  assumes "h < 4096" "t < 4096"
  shows "(t + 1) mod 4096 = h \<longleftrightarrow> (t + 4096 - h) mod 4096 = 4095"
    "(t + 1) mod 4096 \<noteq> h \<Longrightarrow> ((t + 1) mod 4096 + 4096 - h) mod 4096 = Suc ((t + 4096 - h) mod 4096)"
    "h = t \<longleftrightarrow> (t + 4096 - h) mod 4096 = 0"
    "h \<noteq> t \<Longrightarrow> Suc ((t + 4096 - (h + 1) mod 4096) mod 4096) = (t + 4096 - h) mod 4096"
proof -
  have s: "(x + 1) mod 4096 = (if x = 4095 then 0 else x + 1)" "(x + 1) mod 4096 < 4096" if "x < 4096" for x :: nat
    using that by auto
  note d = ring_dist [OF assms] ring_dist [OF assms(1) s(2) [OF assms(2)]] ring_dist [OF s(2) [OF assms(1)] assms(2)]
  show "(t + 1) mod 4096 = h \<longleftrightarrow> (t + 4096 - h) mod 4096 = 4095" unfolding d unfolding s(1) [OF assms(2)] using assms by (simp split: if_splits; arith)
  show "((t + 1) mod 4096 + 4096 - h) mod 4096 = Suc ((t + 4096 - h) mod 4096)" if "(t + 1) mod 4096 \<noteq> h"
    using that assms unfolding d unfolding s(1) [OF assms(2)] by (cases "t = 4095"; cases "h \<le> t"; cases "h \<le> t + 1"; simp)
  show "h = t \<longleftrightarrow> (t + 4096 - h) mod 4096 = 0" unfolding d using assms by (simp split: if_splits; arith)
  show "Suc ((t + 4096 - (h + 1) mod 4096) mod 4096) = (t + 4096 - h) mod 4096" if "h \<noteq> t"
    using that unfolding d unfolding s(1) [OF assms(1)] using assms by (simp split: if_splits; arith)
qed

lemma rx_step:
  assumes "conn_inv c"
  shows "(rxbuf_tail c + 1) mod TCP_RXBUF = rxbuf_head c \<longleftrightarrow> rx_count c = 4095"
    "rx_count c \<noteq> 4095 \<Longrightarrow>
       conn_inv (c\<lparr>rxbuf := (rxbuf c)[unat (rxbuf_tail c) := d], rxbuf_tail := (rxbuf_tail c + 1) mod TCP_RXBUF\<rparr>) \<and>
       rx_contents (c\<lparr>rxbuf := (rxbuf c)[unat (rxbuf_tail c) := d], rxbuf_tail := (rxbuf_tail c + 1) mod TCP_RXBUF\<rparr>) =
         rx_contents c @ [d]"
    "rxbuf_head c = rxbuf_tail c \<longleftrightarrow> rx_count c = 0"
    "rx_count c \<noteq> 0 \<Longrightarrow> conn_inv (c\<lparr>rxbuf_head := (rxbuf_head c + 1) mod TCP_RXBUF\<rparr>) \<and>
       rx_contents c = rxbuf c ! unat (rxbuf_head c) #
         rx_contents (c\<lparr>rxbuf_head := (rxbuf_head c + 1) mod TCP_RXBUF\<rparr>)"
proof -
  note n = conn_nat [OF assms]
  have lt: "rxbuf_tail c < TCP_RXBUF" "rxbuf_head c < TCP_RXBUF" using assms by (simp_all add: conn_inv_def)
  have m: "x mod TCP_RXBUF < TCP_RXBUF" for x :: u32
    by (simp add: TCP_RXBUF_def word_less_nat_alt unat_mod)
  have full: "(unat (rxbuf_tail c) + 1) mod 4096 = unat (rxbuf_head c) \<longleftrightarrow> rx_count c = 4095"
    unfolding rx_count_def by (rule ring_arith(1) [OF n(1,2)])
  then show *: "(rxbuf_tail c + 1) mod TCP_RXBUF = rxbuf_head c \<longleftrightarrow> rx_count c = 4095"
    by (simp only: word_unat_eq_iff rx_next [OF lt(1)])
  show "rxbuf_head c = rxbuf_tail c \<longleftrightarrow> rx_count c = 0"
    unfolding rx_count_def word_unat_eq_iff by (rule ring_arith(3) [OF n(1,2)])
  show "conn_inv (c\<lparr>rxbuf := (rxbuf c)[unat (rxbuf_tail c) := d], rxbuf_tail := (rxbuf_tail c + 1) mod TCP_RXBUF\<rparr>) \<and>
       rx_contents (c\<lparr>rxbuf := (rxbuf c)[unat (rxbuf_tail c) := d], rxbuf_tail := (rxbuf_tail c + 1) mod TCP_RXBUF\<rparr>) =
         rx_contents c @ [d]" (is "conn_inv ?c \<and> _") if "rx_count c \<noteq> 4095"
  proof
    show "conn_inv ?c" using assms m by (simp add: conn_inv_def)
    have "rx_count ?c = Suc (rx_count c)"
      using ring_arith(2) [OF n(1,2)] that full by (simp add: rx_count_def rx_next [OF lt(1)])
    moreover have "rx_count c < length (rxbuf c)" using rx_count_less n(3) by simp
    ultimately show "rx_contents ?c = rx_contents c @ [d]"
      using ring_push [of "rx_count c" "rxbuf c" "unat (rxbuf_head c)" d] n(3,4)
      by (simp add: rx_contents_def)
  qed
  show "conn_inv (c\<lparr>rxbuf_head := (rxbuf_head c + 1) mod TCP_RXBUF\<rparr>) \<and>
       rx_contents c = rxbuf c ! unat (rxbuf_head c) #
         rx_contents (c\<lparr>rxbuf_head := (rxbuf_head c + 1) mod TCP_RXBUF\<rparr>)" (is "conn_inv ?c \<and> _") if "rx_count c \<noteq> 0"
  proof
    show "conn_inv ?c" using assms m by (simp add: conn_inv_def)
    have "unat (rxbuf_head c) \<noteq> unat (rxbuf_tail c)"
      using that ring_arith(3) [OF n(1,2)] by (simp add: rx_count_def)
    then have "Suc (rx_count ?c) = rx_count c"
      using ring_arith(4) [OF n(1,2)] by (simp add: rx_count_def rx_next [OF lt(2)])
    then show "rx_contents c = rxbuf c ! unat (rxbuf_head c) # rx_contents ?c"
      using ring_pop [of "rxbuf c" "unat (rxbuf_head c)" "rx_count ?c"] n
      by (simp add: rx_contents_def rx_next [OF lt(2)])
  qed
qed

text \<open>
  Pushing keeps a prefix: what fits. Only the buffer and its tail change.
\<close>

lemma rxbuf_push_spec:
  assumes "conn_inv c"
  shows "conn_inv (rxbuf_push ds c) \<and>
    rx_contents (rxbuf_push ds c) = rx_contents c @ take (4095 - rx_count c) ds \<and>
    rxbuf_push ds c = c\<lparr>rxbuf := rxbuf (rxbuf_push ds c), rxbuf_tail := rxbuf_tail (rxbuf_push ds c)\<rparr>"
  using assms
proof (induction ds c rule: rxbuf_push.induct)
  case (2 d ds c)
  let ?c = "c\<lparr>rxbuf := (rxbuf c)[unat (rxbuf_tail c) := d], rxbuf_tail := (rxbuf_tail c + 1) mod TCP_RXBUF\<rparr>"
  note st = rx_step [OF 2(2)]
  show ?case
  proof (cases "rx_count c = 4095")
    case True
    then show ?thesis using 2(2) by (simp add: st(1))
  next
    case False
    then have ne: "(rxbuf_tail c + 1) mod TCP_RXBUF \<noteq> rxbuf_head c" by (simp add: st(1))
    have c: "conn_inv ?c" "rx_contents ?c = rx_contents c @ [d]" using st(2) [OF False] by simp_all
    have n: "rx_count ?c = Suc (rx_count c)" using arg_cong [OF c(2), of length] by simp
    have "4095 - rx_count c = Suc (4095 - rx_count ?c)" using n False rx_count_less [of c] by simp
    moreover have "rxbuf_push (d # ds) c = rxbuf_push ds ?c" using ne by (simp add: Let_def)
    moreover note 2(1) [OF refl ne c(1)]
    ultimately show ?thesis by (simp add: c(2))
  qed
qed simp

lemma rxbuf_pop_spec:
  assumes "conn_inv c"
  shows "\<exists>c'. rxbuf_pop n c = (take n (rx_contents c), c') \<and> conn_inv c' \<and> rx_contents c' = drop n (rx_contents c) \<and>
    c' = c\<lparr>rxbuf_head := rxbuf_head c'\<rparr>"
  using assms
proof (induction n c rule: rxbuf_pop.induct)
  case (2 n c)
  note st = rx_step [OF 2(2)]
  show ?case
  proof (cases "rx_count c = 0")
    case True
    then have "rx_contents c = []" by (simp flip: length_0_conv)
    then show ?thesis using True 2(2) by (simp add: st(3))
  next
    case False
    let ?c = "c\<lparr>rxbuf_head := (rxbuf_head c + 1) mod TCP_RXBUF\<rparr>"
    have c: "conn_inv ?c" "rx_contents c = rxbuf c ! unat (rxbuf_head c) # rx_contents ?c"
      using st(4) [OF False] by simp_all
    obtain c' where "rxbuf_pop n ?c = (take n (rx_contents ?c), c')" "conn_inv c'"
      "rx_contents c' = drop n (rx_contents ?c)" "c' = ?c\<lparr>rxbuf_head := rxbuf_head c'\<rparr>"
      using 2(1) [OF _ refl c(1)] st(3) False by blast
    then show ?thesis using False by (simp add: st(3) c(2))
  qed
qed simp

definition rx_push :: "tcp_conn \<Rightarrow> bytes \<Rightarrow> nat \<times> tcp_conn" where
  "rx_push c ds = (rx_count (rxbuf_push ds c) - rx_count c, rxbuf_push ds c)"

interpretation rxq: byte_queue rx_push "\<lambda>c n. rxbuf_pop n c" rx_contents conn_inv 4095
proof
  show "\<exists>q'. conn_inv q' \<and> rx_push c bs = (min (length bs) (4095 - length (rx_contents c)), q') \<and>
      rx_contents q' = rx_contents c @ take (4095 - length (rx_contents c)) bs" if "conn_inv c" for c bs
  proof -
    note p = rxbuf_push_spec [OF that, of bs]
    then have "length (rx_contents (rxbuf_push bs c)) = length (rx_contents c) + min (length bs) (4095 - rx_count c)"
      by (simp add: min.commute)
    then have "rx_count (rxbuf_push bs c) - rx_count c = min (length bs) (4095 - rx_count c)" by simp
    then show ?thesis using p by (simp add: rx_push_def)
  qed
  show "\<exists>q'. conn_inv q' \<and> rxbuf_pop k c = (take k (rx_contents c), q') \<and> rx_contents q' = drop k (rx_contents c)"
    if "conn_inv c" for c k
    using rxbuf_pop_spec [OF that, of k] by blast
  show "length (rx_contents c) \<le> 4095" for c using rx_count_less [of c] by simp
qed

subsection \<open>Sending\<close>

lemma length_tcp_hdr_bytes [simp]: "length (tcp_hdr_bytes h) = 20"
  by (simp add: tcp_hdr_bytes_def)

lemma tcp_hdr_at_ok: "20 \<le> length p \<Longrightarrow> \<exists>h. tcp_hdr_at p = Some h"
  by (simp add: tcp_hdr_at_def slice_def)

lemma tcp_hdr_round_trip [simp]: "tcp_hdr_at (tcp_hdr_bytes h @ data) = Some h"
  by (simp add: tcp_hdr_at_def tcp_hdr_bytes_def slice_def)

lemma set_conn_sels [simp]:
  "n_nic (set_conn i f s) = n_nic s" "n_rx (set_conn i f s) = n_rx s" "s_ip (set_conn i f s) = s_ip s"
  "n_tx (set_conn i f s) = n_tx s" "s_binds (set_conn i f s) = s_binds s" "s_table (set_conn i f s) = s_table s"
  "s_socks (set_conn i f s) = s_socks s" "s_used (set_conn i f s) = s_used s"
  "s_frame (set_conn i f s) = s_frame s" "s_id (set_conn i f s) = s_id s"
  "s_next_port (set_conn i f s) = s_next_port s"
  "s_conns (set_conn i f s) = (s_conns s)[i := f (s_conns s ! i)]"
  by (simp_all add: set_conn_def)

lemma hop_mac_set_conn [simp]: "hop_mac (set_conn i f s) = hop_mac s"
  by (intro ext) (simp add: hop_mac_def cached_def find_entry_def route_def set_conn_def)

lemma set_conn_twice [simp]:
  "i < length (s_conns s) \<Longrightarrow> set_conn i f (set_conn i g s) = set_conn i (\<lambda>c. f (g c)) s"
  by (simp add: set_conn_def)

lemma set_conn_same: "set_conn i (\<lambda>c. c) s = s"
  by (simp add: set_conn_def)

lemma sent_set_conn:
  assumes "sent s s'"
  shows "sent (set_conn i f s) (set_conn i f s')"
proof -
  obtain fr tx n where "s' = s\<lparr>s_frame := fr, n_tx := n_tx s @ tx, s_id := n\<rparr>" "length fr = length (s_frame s)"
    using assms unfolding sent_def by blast
  then show ?thesis
    unfolding sent_def by (intro exI [of _ fr] exI [of _ tx] exI [of _ n]) (simp add: set_conn_def)
qed

lemma inv_conns: "net_inv s \<Longrightarrow> length (s_conns s) = MAX_CONNS"
  by (simp add: net_inv_def)

lemma inv_conn: "net_inv s \<Longrightarrow> i < MAX_CONNS \<Longrightarrow> conn_inv (s_conns s ! i)"
  by (simp add: net_inv_def)

lemma set_conn_inv:
  assumes "net_inv s" "i < MAX_CONNS" "conn_inv (f (s_conns s ! i))"
  shows "net_inv (set_conn i f s)"
  using assms by (auto simp: net_inv_def set_conn_def dest!: set_update_subset_insert [THEN subsetD])

definition seg_bump :: "u8 \<Rightarrow> bytes \<Rightarrow> tcp_conn \<Rightarrow> tcp_conn" where
  "seg_bump flags data c = c\<lparr>snd_seq := snd_seq c +
     (if flags AND (TCP_FLAG_SYN OR TCP_FLAG_FIN) \<noteq> 0 then 1 else of_nat (length data))\<rparr>"

definition tcp_segment :: "net \<Rightarrow> tcp_conn \<Rightarrow> u8 \<Rightarrow> bytes \<Rightarrow> bytes" where
  "tcp_segment s c flags data =
     (let h = \<lparr>th_src_port = htons (tc_src_port c), th_dst_port = htons (tc_dst_port c),
        th_seq = htonl (snd_seq c), th_ack = (if flags AND TCP_FLAG_ACK \<noteq> 0 then htonl (rcv_nxt c) else 0),
        th_data_off = 0x50, th_flags = flags, th_window = htons (rcv_win c), th_checksum = 0, th_urgent = 0\<rparr>
      in tcp_hdr_bytes (h\<lparr>th_checksum := htons (ip_pseudo_checksum (s_ip s) (tc_dst_ip c) IP_PROTO_TCP
        (tcp_hdr_bytes h @ data))\<rparr>) @ data)"

lemma tcp_send_seg_eq:
  assumes "length data \<le> 1460"
  shows "tcp_send_seg i flags data s = ipv4_send (tc_dst_ip (s_conns s ! i)) IP_PROTO_TCP
    (tcp_segment s (s_conns s ! i) flags data) (set_conn i (seg_bump flags data) s)"
proof -
  have ge: "\<not> length data + 20 > 1460 + 20" using assms by simp
  let ?h = "\<lambda>c. \<lparr>th_src_port = htons (tc_src_port c), th_dst_port = htons (tc_dst_port c),
        th_seq = htonl (snd_seq c), th_ack = (if flags AND TCP_FLAG_ACK \<noteq> 0 then htonl (rcv_nxt c) else 0),
        th_data_off = 0x50, th_flags = flags, th_window = htons (rcv_win c), th_checksum = 0, th_urgent = 0\<rparr>"
  have n: "20 + length data \<le> 1480" using assms by simp
  have df: "push_bit 4 (20 div 4 :: u8) = 0x50" by simp
  have b: "(if flags AND (TCP_FLAG_SYN OR TCP_FLAG_FIN) \<noteq> 0
          then set_conn i (\<lambda>c. c\<lparr>snd_seq := snd_seq c + 1\<rparr>) s
          else set_conn i (\<lambda>c. c\<lparr>snd_seq := snd_seq c + of_nat (length data)\<rparr>) s) = set_conn i (seg_bump flags data) s"
    by (simp add: seg_bump_def set_conn_def)
  note p = put_buffer [OF length_tcp_hdr_bytes n]
  show ?thesis
    unfolding tcp_send_seg_def Let_def if_not_P [OF ge] df b p(1) bind.bind_lunit p(2) p(3)
      p(4) [OF length_tcp_hdr_bytes] ipv4_our_ip_def tcp_segment_def ..
qed

lemma seg_bump_inv: "conn_inv (seg_bump flags data c) = conn_inv c"
  by (simp add: seg_bump_def conn_inv_def)

lemma tcp_send_seg_spec:
  assumes "net_inv s" "i < MAX_CONNS" "length data \<le> 1460"
  shows "\<exists>ok s'. tcp_send_seg i flags data s = Some (ok, s') \<and> sent (set_conn i (seg_bump flags data) s) s'"
proof -
  have "net_inv (set_conn i (seg_bump flags data) s)"
    using assms inv_conn by (intro set_conn_inv) (auto simp: seg_bump_inv)
  then show ?thesis unfolding tcp_send_seg_eq [OF assms(3)] by (rule ipv4_send_spec)
qed

lemma csum_add_append: "even (length xs) \<Longrightarrow> csum_add s (xs @ ys) = csum_add (csum_add s xs) ys"
  by (induction s xs rule: csum_add.induct) simp_all

lemma ip_pseudo_checksum_eq:
  "ip_pseudo_checksum a b p seg = ip_checksum (pseudo_hdr a b p (of_nat (length seg)) @ seg)"
  by (simp add: ip_pseudo_checksum_def ip_checksum_def pseudo_hdr_def csum_add_append flip: append_assoc)

text \<open>A segment that goes out verifies at the receiver.\<close>

lemma tcp_segment_checksum:
  assumes "length data \<le> 1460"
  shows "ip_pseudo_checksum (s_ip s) (tc_dst_ip c) IP_PROTO_TCP (tcp_segment s c flags data) = 0"
proof -
  define h where "h = \<lparr>th_src_port = htons (tc_src_port c), th_dst_port = htons (tc_dst_port c),
        th_seq = htonl (snd_seq c), th_ack = (if flags AND TCP_FLAG_ACK \<noteq> 0 then htonl (rcv_nxt c) else 0),
        th_data_off = 0x50, th_flags = flags, th_window = htons (rcv_win c), th_checksum = 0, th_urgent = 0\<rparr>"
  let ?p = "pseudo_hdr (s_ip s) (tc_dst_ip c) IP_PROTO_TCP (of_nat (20 + length data))"
  let ?x = "?p @ le_bytes 2 (th_src_port h) @ le_bytes 2 (th_dst_port h) @ le_bytes 4 (th_seq h) @
     le_bytes 4 (th_ack h) @ [th_data_off h, th_flags h] @ le_bytes 2 (th_window h)"
  let ?y = "le_bytes 2 (th_urgent h) @ data"
  have z: "le_bytes 2 (0 :: u16) = [0, 0]" by (simp add: le_bytes_def upt_rec)
  have c0: "th_checksum h = 0" by (simp add: h_def)
  have e: "?p @ tcp_hdr_bytes (h\<lparr>th_checksum := htons k\<rparr>) @ data = ?x @ be_bytes 2 k @ ?y" for k
    by (simp add: tcp_hdr_bytes_def)
  have e0: "?p @ tcp_hdr_bytes h @ data = ?x @ [0, 0] @ ?y" by (simp add: tcp_hdr_bytes_def c0 z)
  have ps: "ip_pseudo_checksum (s_ip s) (tc_dst_ip c) IP_PROTO_TCP q = ip_checksum (?p @ q)"
    if "length q = 20 + length data" for q
    using that by (simp add: ip_pseudo_checksum_eq)
  have "tcp_segment s c flags data = tcp_hdr_bytes (h\<lparr>th_checksum := htons (ip_checksum (?p @ tcp_hdr_bytes h @ data))\<rparr>) @ data"
    unfolding tcp_segment_def Let_def h_def [symmetric] by (subst ps) simp_all
  then have "ip_pseudo_checksum (s_ip s) (tc_dst_ip c) IP_PROTO_TCP (tcp_segment s c flags data) =
      ip_checksum (?x @ be_bytes 2 (ip_checksum (?x @ [0, 0] @ ?y)) @ ?y)"
    by (subst ps) (simp_all only: length_append length_tcp_hdr_bytes e e0)
  also have "\<dots> = 0" using assms by (intro checksum_field(1)) (simp_all add: pseudo_hdr_def)
  finally show ?thesis .
qed

text \<open>
  C19: A segment whose destination is reachable leaves in one frame.  Its header carries the
  ports, the flags, the next sequence number to send and, when it acknowledges, the next
  sequence number expected; the checksum verifies at the receiver.  The sequence number
  advances by the bytes sent, or by one for a SYN or FIN; nothing else of the connections changes.
\<close>

theorem tcp_send_seg_correct:
  assumes "net_inv s" "i < MAX_CONNS" "length data \<le> 1460" "n_nic s = Some mac"
    and "hop_mac s (tc_dst_ip (s_conns s ! i)) = Some m"
  shows "\<exists>ok s' ih th. tcp_send_seg i flags data s = Some (ok, s') \<and>
    sent (set_conn i (seg_bump flags data) s) s' \<and>
    n_tx s' = n_tx s @ [eth_frame (s_frame s) m mac ETHERTYPE_IPV4 (ip_hdr_bytes ih @ tcp_hdr_bytes th @ data)] \<and>
    ip_checksum (ip_hdr_bytes ih) = 0 \<and> ih_dst ih = tc_dst_ip (s_conns s ! i) \<and> ih_protocol ih = IP_PROTO_TCP \<and>
    ip_pseudo_checksum (ih_src ih) (ih_dst ih) IP_PROTO_TCP (tcp_hdr_bytes th @ data) = 0 \<and>
    ntohs (th_src_port th) = tc_src_port (s_conns s ! i) \<and> ntohs (th_dst_port th) = tc_dst_port (s_conns s ! i) \<and>
    ntohl (th_seq th) = snd_seq (s_conns s ! i) \<and> th_flags th = flags \<and>
    (flags AND TCP_FLAG_ACK \<noteq> 0 \<longrightarrow> ntohl (th_ack th) = rcv_nxt (s_conns s ! i))"
proof -
  let ?c = "s_conns s ! i" and ?s = "set_conn i (seg_bump flags data) s"
  let ?seg = "tcp_segment s ?c flags data"
  have inv: "net_inv ?s" using assms inv_conn by (intro set_conn_inv) (auto simp: seg_bump_inv)
  obtain th where th: "?seg = tcp_hdr_bytes th @ data" "th_src_port th = htons (tc_src_port ?c)"
    "th_dst_port th = htons (tc_dst_port ?c)" "th_seq th = htonl (snd_seq ?c)" "th_flags th = flags"
    "flags AND TCP_FLAG_ACK \<noteq> 0 \<longrightarrow> th_ack th = htonl (rcv_nxt ?c)"
    by (simp add: tcp_segment_def Let_def)
  have l: "length ?seg \<le> 1480" using assms(3) by (simp add: th(1))
  have hm: "hop_mac ?s (tc_dst_ip ?c) = Some m" and nic: "n_nic ?s = Some mac"
    using assms(4,5) by simp_all
  obtain ok s' ih where "ipv4_send (tc_dst_ip ?c) IP_PROTO_TCP ?seg ?s = Some (ok, s')" "sent ?s s'"
    "n_tx s' = n_tx ?s @ [eth_frame (s_frame ?s) m mac ETHERTYPE_IPV4 (ip_hdr_bytes ih @ ?seg)]"
    "ip_checksum (ip_hdr_bytes ih) = 0" "ih_src ih = s_ip ?s" "ih_dst ih = tc_dst_ip ?c" "ih_protocol ih = IP_PROTO_TCP"
    using ipv4_send_frame [OF inv nic l hm] by blast
  moreover have "ip_pseudo_checksum (s_ip s) (tc_dst_ip ?c) IP_PROTO_TCP (tcp_hdr_bytes th @ data) = 0"
    using tcp_segment_checksum [OF assms(3), of s ?c flags] th(1) by simp
  ultimately show ?thesis
    using th(2-) unfolding tcp_send_seg_eq [OF assms(3)] th(1)
    by (intro exI [of _ ok] exI [of _ s'] exI [of _ ih] exI [of _ th]) simp
qed

definition conn_ex :: tcp_conn where
  "conn_ex = \<lparr>tc_in_use = True, tc_state = TCP_ESTABLISHED, tc_dst_ip = 9, tc_dst_port = 80, tc_src_port = 49152,
     snd_seq = 7, snd_una = 0, rcv_nxt = 5, rcv_win = 4095, rxbuf = replicate 4096 0, rxbuf_head = 0, rxbuf_tail = 0\<rparr>"

definition net_tcp :: net where
  "net_tcp = net_arp\<lparr>s_conns := conn_ex # replicate 3 conn_zero\<rparr>"

lemma net_tcp_inv: "net_inv net_tcp"
  using net_arp_inv by (simp add: net_tcp_def net_inv_def conn_ex_def conn_zero_def conn_inv_def TCP_RXBUF_def
      MAX_CONNS_def)

lemma net_tcp_hop: "hop_mac net_tcp 9 = Some [2, 0, 0, 0, 0, 2]"
  by (simp add: net_tcp_def hop_mac_def route_def cached_def find_entry_def net_arp_def net_ex_def net_zero_def
      ARP_TABLE_SIZE_def upt_rec)

theorem tcp_send_seg_correct_witness:
  "net_inv net_tcp \<and> hop_mac net_tcp 9 = Some [2, 0, 0, 0, 0, 2] \<and> snd_seq (s_conns net_tcp ! 0) = 7 \<and>
   (\<exists>ok s'. tcp_send_seg 0 TCP_FLAG_ACK [104, 105] net_tcp = Some (ok, s') \<and> length (n_tx s') = 1 \<and>
      snd_seq (s_conns s' ! 0) = 9)"
proof -
  have c: "s_conns net_tcp ! 0 = conn_ex" "length (s_conns net_tcp) = 4" "n_tx net_tcp = []"
      "n_nic net_tcp = Some [2, 0, 0, 0, 0, 1]"
    by (simp_all add: net_tcp_def net_arp_def net_ex_def net_zero_def)
  have "hop_mac net_tcp (tc_dst_ip (s_conns net_tcp ! 0)) = Some [2, 0, 0, 0, 0, 2]"
    using net_tcp_hop by (simp add: c conn_ex_def)
  then obtain ok s' f where r: "tcp_send_seg 0 TCP_FLAG_ACK [104, 105] net_tcp = Some (ok, s')"
      "sent (set_conn 0 (seg_bump TCP_FLAG_ACK [104, 105]) net_tcp) s'" "n_tx s' = n_tx net_tcp @ [f]"
    using tcp_send_seg_correct [OF net_tcp_inv, of 0 "[104, 105]" "[2, 0, 0, 0, 0, 1]" "[2, 0, 0, 0, 0, 2]" TCP_FLAG_ACK] c
    by (auto simp: MAX_CONNS_def)
  have "snd_seq (s_conns s' ! 0) = 9"
    using sentD(9) [OF r(2)] c
    by (simp add: seg_bump_def conn_ex_def TCP_FLAG_ACK_def TCP_FLAG_SYN_def TCP_FLAG_FIN_def)
  then show ?thesis using r c net_tcp_inv net_tcp_hop by (simp add: conn_ex_def)
qed

subsection \<open>Receiving\<close>

text \<open>What a segment does to its connection.\<close>

definition est_conn :: "u8 \<Rightarrow> u32 \<Rightarrow> u32 \<Rightarrow> bytes \<Rightarrow> tcp_conn \<Rightarrow> tcp_conn" where
  "est_conn flags seq ack data c =
     (if flags AND TCP_FLAG_RST \<noteq> 0 then c\<lparr>tc_state := TCP_CLOSED\<rparr>
      else let c = (if flags AND TCP_FLAG_ACK \<noteq> 0 then c\<lparr>snd_una := ack\<rparr> else c);
        c = (if data \<noteq> [] \<and> seq = rcv_nxt c
             then (rxbuf_push data c)\<lparr>rcv_nxt := rcv_nxt c + of_nat (length data)\<rparr> else c)
      in if flags AND TCP_FLAG_FIN \<noteq> 0
         then c\<lparr>rcv_nxt := rcv_nxt c + 1, snd_seq := snd_seq c + 1, tc_state := TCP_CLOSED\<rparr> else c)"

definition seg_conn :: "u8 \<Rightarrow> u32 \<Rightarrow> u32 \<Rightarrow> bytes \<Rightarrow> tcp_conn \<Rightarrow> tcp_conn" where
  "seg_conn flags seq ack data c = (case tc_state c of
     TCP_SYN_SENT \<Rightarrow>
       if flags AND (TCP_FLAG_SYN OR TCP_FLAG_ACK) = TCP_FLAG_SYN OR TCP_FLAG_ACK
       then c\<lparr>rcv_nxt := seq + 1, snd_una := ack, tc_state := TCP_ESTABLISHED\<rparr>
       else if flags AND TCP_FLAG_RST \<noteq> 0 then c\<lparr>tc_state := TCP_CLOSED\<rparr> else c
   | TCP_ESTABLISHED \<Rightarrow> est_conn flags seq ack data c
   | TCP_FIN_WAIT_1 \<Rightarrow>
       if flags AND TCP_FLAG_FIN \<noteq> 0 then c\<lparr>rcv_nxt := rcv_nxt c + 1, tc_state := TCP_CLOSED\<rparr>
       else if flags AND TCP_FLAG_ACK \<noteq> 0 then c\<lparr>tc_state := TCP_FIN_WAIT_2\<rparr> else c
   | TCP_FIN_WAIT_2 \<Rightarrow>
       if flags AND TCP_FLAG_FIN \<noteq> 0 then c\<lparr>rcv_nxt := rcv_nxt c + 1, tc_state := TCP_CLOSED\<rparr> else c
   | _ \<Rightarrow> c)"

lemmas tcp_flags = TCP_FLAG_FIN_def TCP_FLAG_SYN_def TCP_FLAG_RST_def TCP_FLAG_PSH_def TCP_FLAG_ACK_def

lemma bump_ack [simp]: "seg_bump TCP_FLAG_ACK [] c = c"
  by (simp add: seg_bump_def tcp_flags)

lemma bump_fin [simp]: "seg_bump (TCP_FLAG_FIN OR TCP_FLAG_ACK) [] c = c\<lparr>snd_seq := snd_seq c + 1\<rparr>"
  by (simp add: seg_bump_def tcp_flags)

lemma ack_spec:
  assumes "net_inv s" "i < MAX_CONNS"
  obtains ok s' where "tcp_send_seg i TCP_FLAG_ACK [] s = Some (ok, s')" "sent s s'"
proof -
  have "set_conn i (seg_bump TCP_FLAG_ACK []) s = s" by (simp add: set_conn_def)
  then show ?thesis using tcp_send_seg_spec [OF assms, of "[]" TCP_FLAG_ACK] that by auto
qed

lemma tcp_syn_sent_spec:
  assumes "net_inv s" "i < MAX_CONNS" "tc_state (s_conns s ! i) = TCP_SYN_SENT"
  shows "\<exists>s'. tcp_syn_sent i flags seq ack s = Some s' \<and> sent (set_conn i (seg_conn flags seq ack data) s) s'"
proof (cases "flags AND (TCP_FLAG_SYN OR TCP_FLAG_ACK) = TCP_FLAG_SYN OR TCP_FLAG_ACK")
  case True
  let ?s = "set_conn i (\<lambda>c. c\<lparr>rcv_nxt := seq + 1, snd_una := ack, tc_state := TCP_ESTABLISHED\<rparr>) s"
  have e: "set_conn i (seg_conn flags seq ack data) s = ?s"
    using True assms(3) by (simp add: set_conn_def seg_conn_def)
  have "net_inv ?s" using assms inv_conn [of s i] by (intro set_conn_inv) (auto simp: conn_inv_def)
  then obtain ok s' where "tcp_send_seg i TCP_FLAG_ACK [] ?s = Some (ok, s')" "sent ?s s'"
    using assms(2) by (rule ack_spec)
  then show ?thesis using True e by (simp add: tcp_syn_sent_def)
next
  case False
  then have "tcp_syn_sent i flags seq ack s = Some (set_conn i (seg_conn flags seq ack data) s)"
    using assms(3) by (simp add: tcp_syn_sent_def set_conn_def seg_conn_def)
  then show ?thesis by simp
qed

lemma tcp_fin_wait_2_spec:
  assumes "net_inv s" "i < MAX_CONNS"
  shows "\<exists>s'. tcp_fin_wait_2 i flags s = Some s' \<and> sent (set_conn i (\<lambda>c. if flags AND TCP_FLAG_FIN \<noteq> 0
      then c\<lparr>rcv_nxt := rcv_nxt c + 1, tc_state := TCP_CLOSED\<rparr> else c) s) s'"
proof (cases "flags AND TCP_FLAG_FIN = 0")
  case True
  then show ?thesis by (simp add: tcp_fin_wait_2_def set_conn_same)
next
  case False
  let ?s = "set_conn i (\<lambda>c. c\<lparr>rcv_nxt := rcv_nxt c + 1\<rparr>) s"
  have "net_inv ?s" using assms inv_conn [of s i] by (intro set_conn_inv) (auto simp: conn_inv_def)
  then obtain ok s' where s': "tcp_send_seg i TCP_FLAG_ACK [] ?s = Some (ok, s')" "sent ?s s'"
    using assms(2) by (rule ack_spec)
  then show ?thesis
    using False sent_set_conn [OF s'(2), of i "\<lambda>c. c\<lparr>tc_state := TCP_CLOSED\<rparr>"] assms inv_conns [OF assms(1)]
    by (simp add: tcp_fin_wait_2_def)
qed

definition est_data :: "u32 \<Rightarrow> bytes \<Rightarrow> tcp_conn \<Rightarrow> tcp_conn" where
  "est_data seq data c = (if data \<noteq> [] \<and> seq = rcv_nxt c
     then (rxbuf_push data c)\<lparr>rcv_nxt := rcv_nxt c + of_nat (length data)\<rparr> else c)"

lemma rxbuf_push_frame [simp]:
  "rcv_nxt (rxbuf_push ds c) = rcv_nxt c \<and> tc_state (rxbuf_push ds c) = tc_state c \<and>
   snd_seq (rxbuf_push ds c) = snd_seq c \<and> tc_in_use (rxbuf_push ds c) = tc_in_use c"
  by (induction ds c rule: rxbuf_push.induct) (simp_all add: Let_def)

lemma est_data_inv: "conn_inv c \<Longrightarrow> conn_inv (est_data seq data c)"
  using rxbuf_push_spec [of c data] by (auto simp: est_data_def conn_inv_def)

lemma est_data_spec:
  assumes "net_inv s" "i < MAX_CONNS"
  shows "\<exists>s'. (if length data > 0 \<and> seq = rcv_nxt (s_conns s ! i) then do {
            let s = set_conn i (rxbuf_push data) s;
            let s = set_conn i (\<lambda>c. c\<lparr>rcv_nxt := rcv_nxt c + of_nat (length data)\<rparr>) s;
            (_, s) \<leftarrow> tcp_send_seg i TCP_FLAG_ACK [] s;
            Some s }
          else Some s) = Some s' \<and> sent (set_conn i (est_data seq data) s) s'"
proof (cases "data \<noteq> [] \<and> seq = rcv_nxt (s_conns s ! i)")
  case True
  let ?s = "set_conn i (\<lambda>c. c\<lparr>rcv_nxt := rcv_nxt c + of_nat (length data)\<rparr>) (set_conn i (rxbuf_push data) s)"
  have e: "set_conn i (est_data seq data) s = ?s"
    using True assms inv_conns [OF assms(1)] by (simp add: set_conn_def est_data_def)
  have "net_inv ?s"
    unfolding e [symmetric] using assms inv_conn [of s i] by (intro set_conn_inv est_data_inv)
  then obtain ok s' where "tcp_send_seg i TCP_FLAG_ACK [] ?s = Some (ok, s')" "sent ?s s'"
    using assms(2) by (rule ack_spec)
  then show ?thesis unfolding e Let_def using True by simp
next
  case False
  then have "set_conn i (est_data seq data) s = s" by (auto simp: est_data_def set_conn_def)
  then show ?thesis using False by auto
qed

definition est_fin :: "u8 \<Rightarrow> tcp_conn \<Rightarrow> tcp_conn" where
  "est_fin flags c = (if flags AND TCP_FLAG_FIN \<noteq> 0
     then c\<lparr>rcv_nxt := rcv_nxt c + 1, snd_seq := snd_seq c + 1, tc_state := TCP_CLOSED\<rparr> else c)"

lemma est_fin_spec:
  assumes "net_inv s" "i < MAX_CONNS"
  shows "\<exists>s'. (if flags AND TCP_FLAG_FIN \<noteq> 0 then do {
          let s = set_conn i (\<lambda>c. c\<lparr>rcv_nxt := rcv_nxt c + 1, tc_state := TCP_CLOSE_WAIT\<rparr>) s;
          (_, s) \<leftarrow> tcp_send_seg i TCP_FLAG_ACK [] s;
          (_, s) \<leftarrow> tcp_send_seg i (TCP_FLAG_FIN OR TCP_FLAG_ACK) [] s;
          Some (set_conn i (\<lambda>c. c\<lparr>tc_state := TCP_CLOSED\<rparr>) s) }
        else Some s) = Some s' \<and> sent (set_conn i (est_fin flags) s) s'"
proof (cases "flags AND TCP_FLAG_FIN = 0")
  case True
  then have "set_conn i (est_fin flags) s = s" by (simp add: est_fin_def set_conn_def)
  then show ?thesis using True by simp
next
  case False
  let ?s = "set_conn i (\<lambda>c. c\<lparr>rcv_nxt := rcv_nxt c + 1, tc_state := TCP_CLOSE_WAIT\<rparr>) s"
  let ?close = "\<lambda>c :: tcp_conn. c\<lparr>tc_state := TCP_CLOSED\<rparr>"
  have inv: "net_inv ?s" using assms inv_conn [of s i] by (intro set_conn_inv) (auto simp: conn_inv_def)
  then obtain ok s1 where s1: "tcp_send_seg i TCP_FLAG_ACK [] ?s = Some (ok, s1)" "sent ?s s1"
    using assms(2) by (rule ack_spec)
  have inv1: "net_inv s1" using sentD(14) [OF s1(2)] inv by simp
  obtain ok' s2 where s2: "tcp_send_seg i (TCP_FLAG_FIN OR TCP_FLAG_ACK) [] s1 = Some (ok', s2)"
    "sent (set_conn i (seg_bump (TCP_FLAG_FIN OR TCP_FLAG_ACK) []) s1) s2"
    using tcp_send_seg_spec [OF inv1 assms(2), of "[]" "TCP_FLAG_FIN OR TCP_FLAG_ACK"] by auto
  have l: "i < length (s_conns s)" "i < length (s_conns s1)" "i < length (s_conns ?s)"
    using inv_conns [OF assms(1)] inv_conns [OF inv1] inv_conns [OF inv] assms(2) by simp_all
  have "sent (set_conn i (seg_bump (TCP_FLAG_FIN OR TCP_FLAG_ACK) []) ?s) s2"
    using sent_trans [OF sent_set_conn [OF s1(2)] s2(2)] .
  from sent_set_conn [OF this, of i ?close] have "sent (set_conn i (est_fin flags) s) (set_conn i ?close s2)"
    using False l by (simp add: est_fin_def [abs_def])
  then show ?thesis using False s1(1) s2(1) by (simp add: Let_def)
qed

lemma tcp_established_spec:
  assumes "net_inv s" "i < MAX_CONNS"
  shows "\<exists>s'. tcp_established i flags seq ack data s = Some s' \<and> sent (set_conn i (est_conn flags seq ack data) s) s'"
proof (cases "flags AND TCP_FLAG_RST = 0")
  case False
  then show ?thesis by (simp add: tcp_established_def est_conn_def set_conn_def)
next
  case True
  let ?una = "\<lambda>c. if flags AND TCP_FLAG_ACK \<noteq> 0 then c\<lparr>snd_una := ack\<rparr> else c"
  have l: "i < length (s_conns s)" using inv_conns [OF assms(1)] assms(2) by simp
  have u: "(if flags AND TCP_FLAG_ACK \<noteq> 0 then set_conn i (\<lambda>c. c\<lparr>snd_una := ack\<rparr>) s else s) = set_conn i ?una s"
    by (simp add: set_conn_same)
  have inv: "net_inv (set_conn i ?una s)"
    using assms inv_conn [of s i] by (intro set_conn_inv) (auto simp: conn_inv_def)
  obtain s1 where s1: "(if length data > 0 \<and> seq = rcv_nxt (s_conns (set_conn i ?una s) ! i) then do {
            let s = set_conn i (rxbuf_push data) (set_conn i ?una s);
            let s = set_conn i (\<lambda>c. c\<lparr>rcv_nxt := rcv_nxt c + of_nat (length data)\<rparr>) s;
            (_, s) \<leftarrow> tcp_send_seg i TCP_FLAG_ACK [] s;
            Some s }
          else Some (set_conn i ?una s)) = Some s1" "sent (set_conn i (est_data seq data) (set_conn i ?una s)) s1"
    using est_data_spec [OF inv assms(2), of data seq] by blast
  have "net_inv (set_conn i (est_data seq data) (set_conn i ?una s))"
    by (rule set_conn_inv [where f = "est_data seq data", OF inv assms(2) est_data_inv [OF inv_conn [OF inv assms(2)]]])
  then have inv1: "net_inv s1" using sentD(14) [OF s1(2)] by simp
  obtain s2 where s2: "(if flags AND TCP_FLAG_FIN \<noteq> 0 then do {
          let s = set_conn i (\<lambda>c. c\<lparr>rcv_nxt := rcv_nxt c + 1, tc_state := TCP_CLOSE_WAIT\<rparr>) s1;
          (_, s) \<leftarrow> tcp_send_seg i TCP_FLAG_ACK [] s;
          (_, s) \<leftarrow> tcp_send_seg i (TCP_FLAG_FIN OR TCP_FLAG_ACK) [] s;
          Some (set_conn i (\<lambda>c. c\<lparr>tc_state := TCP_CLOSED\<rparr>) s) }
        else Some s1) = Some s2" "sent (set_conn i (est_fin flags) s1) s2"
    using est_fin_spec [OF inv1 assms(2), of flags] by blast
  have "est_conn flags seq ack data = (\<lambda>c. est_fin flags (est_data seq data (?una c)))"
    using True by (intro ext) (simp add: est_conn_def est_data_def est_fin_def Let_def)
  then have "set_conn i (est_conn flags seq ack data) s =
      set_conn i (est_fin flags) (set_conn i (est_data seq data) (set_conn i ?una s))" using l by simp
  then have "sent (set_conn i (est_conn flags seq ack data) s) s2"
    using sent_trans [OF sent_set_conn [OF s1(2)] s2(2)] by simp
  moreover have "tcp_established i flags seq ack data s = Some s2"
    unfolding tcp_established_def u unfolding Let_def
    using True s1(1) s2(1) unfolding Let_def by simp
  ultimately show ?thesis by blast
qed

text \<open>The connection a segment belongs to.\<close>

definition seg_target :: "u32 \<Rightarrow> tcp_hdr \<Rightarrow> net \<Rightarrow> nat option" where
  "seg_target src h s = find (\<lambda>i. tcp_match src (ntohs (th_src_port h)) (ntohs (th_dst_port h)) (s_conns s ! i)) [0..<MAX_CONNS]"

definition data_offset :: "tcp_hdr \<Rightarrow> nat" where
  "data_offset h = unat (drop_bit 4 (th_data_off h) * 4)"

lemma tcp_state_spec:
  assumes "net_inv s" "i < MAX_CONNS"
  shows "\<exists>s'. (case tc_state (s_conns s ! i) of
             TCP_SYN_SENT \<Rightarrow> tcp_syn_sent i flags seq ack s
           | TCP_ESTABLISHED \<Rightarrow> tcp_established i flags seq ack data s
           | TCP_FIN_WAIT_1 \<Rightarrow>
               tcp_fin_wait_2 i flags (if flags AND TCP_FLAG_ACK \<noteq> 0
                 then set_conn i (\<lambda>c. c\<lparr>tc_state := TCP_FIN_WAIT_2\<rparr>) s else s)
           | TCP_FIN_WAIT_2 \<Rightarrow> tcp_fin_wait_2 i flags s
           | _ \<Rightarrow> Some s) = Some s' \<and> sent (set_conn i (seg_conn flags seq ack data) s) s'"
proof -
  have l: "i < length (s_conns s)" using inv_conns [OF assms(1)] assms(2) by simp
  show ?thesis
  proof (cases "tc_state (s_conns s ! i)")
    case TCP_SYN_SENT
    then show ?thesis using tcp_syn_sent_spec [OF assms] by simp
  next
    case TCP_ESTABLISHED
    then have "set_conn i (seg_conn flags seq ack data) s = set_conn i (est_conn flags seq ack data) s"
      by (simp add: set_conn_def seg_conn_def)
    then show ?thesis using TCP_ESTABLISHED tcp_established_spec [OF assms] by simp
  next
    case TCP_FIN_WAIT_1
    let ?s = "if flags AND TCP_FLAG_ACK \<noteq> 0 then set_conn i (\<lambda>c. c\<lparr>tc_state := TCP_FIN_WAIT_2\<rparr>) s else s"
    have "net_inv ?s" using assms inv_conn [of s i] by (auto intro!: set_conn_inv simp: conn_inv_def)
    from tcp_fin_wait_2_spec [OF this assms(2), of flags] show ?thesis
      using TCP_FIN_WAIT_1 l by (simp add: set_conn_def seg_conn_def split: if_splits)
  next
    case TCP_FIN_WAIT_2
    then show ?thesis using tcp_fin_wait_2_spec [OF assms, of flags] by (simp add: set_conn_def seg_conn_def)
  qed (simp_all add: set_conn_def seg_conn_def)
qed

text \<open>
  \<open>tcp_input\<close> finds the connection of the segment and makes its transition; apart from the
  segments it sends nothing else changes.
\<close>

lemma tcp_input_spec:
  assumes inv: "net_inv s"
  shows "\<exists>s'. tcp_input src dst pkt s = Some s' \<and>
    (case tcp_hdr_at pkt of None \<Rightarrow> s' = s | Some h \<Rightarrow>
       if data_offset h < 20 \<or> data_offset h > length pkt then s' = s
       else case seg_target src h s of None \<Rightarrow> s' = s | Some i \<Rightarrow>
         i < MAX_CONNS \<and> tcp_match src (ntohs (th_src_port h)) (ntohs (th_dst_port h)) (s_conns s ! i) \<and>
         sent (set_conn i (seg_conn (th_flags h) (ntohl (th_seq h)) (ntohl (th_ack h)) (drop (data_offset h) pkt)) s) s')"
proof (cases "length pkt < 20")
  case True
  then have "tcp_hdr_at pkt = None" by (auto simp: tcp_hdr_at_def slice_def)
  then show ?thesis using True by (simp add: tcp_input_def)
next
  case False
  then obtain h where h: "tcp_hdr_at pkt = Some h" using tcp_hdr_at_ok [of pkt] by auto
  show ?thesis
  proof (cases "data_offset h < 20 \<or> data_offset h > length pkt")
    case True
    then show ?thesis using False h by (auto simp: tcp_input_def data_offset_def Let_def)
  next
    case d: False
    then have sl: "slice (data_offset h) (length pkt - data_offset h) pkt = Some (drop (data_offset h) pkt)"
      by (simp add: slice_def)
    show ?thesis
    proof (cases "seg_target src h s")
      case None
      then show ?thesis using False h d sl by (simp add: tcp_input_def data_offset_def seg_target_def Let_def)
    next
      case (Some i)
      then have i: "i < MAX_CONNS" "tcp_match src (ntohs (th_src_port h)) (ntohs (th_dst_port h)) (s_conns s ! i)"
        by (auto simp: seg_target_def find_upt_Some)
      show ?thesis
        using tcp_state_spec [OF inv i(1), of "th_flags h" "ntohl (th_seq h)" "ntohl (th_ack h)" "drop (data_offset h) pkt"]
          False h d sl Some i
        unfolding tcp_input_def Let_def data_offset_def [symmetric] seg_target_def [symmetric]
        by simp
    qed
  qed
qed

lemma seg_conn_inv: "conn_inv c \<Longrightarrow> conn_inv (seg_conn flags seq ack data c)"
  using rxbuf_push_spec [of "c\<lparr>snd_una := ack\<rparr>" data] rxbuf_push_spec [of c data]
  by (cases "tc_state c") (simp_all add: seg_conn_def est_conn_def conn_inv_def Let_def)

lemma tcp_input_frame:
  assumes "net_inv s"
  shows "\<exists>s' i f. tcp_input src dst pkt s = Some s' \<and> i < MAX_CONNS \<and> sent (set_conn i f s) s' \<and>
    conn_inv (f (s_conns s ! i))"
proof -
  obtain s' where s': "tcp_input src dst pkt s = Some s'"
    "case tcp_hdr_at pkt of None \<Rightarrow> s' = s | Some h \<Rightarrow>
       if data_offset h < 20 \<or> data_offset h > length pkt then s' = s
       else case seg_target src h s of None \<Rightarrow> s' = s | Some i \<Rightarrow>
         i < MAX_CONNS \<and> tcp_match src (ntohs (th_src_port h)) (ntohs (th_dst_port h)) (s_conns s ! i) \<and>
         sent (set_conn i (seg_conn (th_flags h) (ntohl (th_seq h)) (ntohl (th_ack h)) (drop (data_offset h) pkt)) s) s'"
    using tcp_input_spec [OF assms, of src dst pkt] by blast
  consider "s' = s" | i flags seq ack data where "i < MAX_CONNS" "sent (set_conn i (seg_conn flags seq ack data) s) s'"
    using s'(2) by (auto split: option.splits if_splits)
  then show ?thesis
  proof cases
    case 1
    then show ?thesis
      using s'(1) inv_conn [OF assms, of 0] by (intro exI [of _ s] exI [of _ 0] exI [of _ "\<lambda>c. c"]) (simp add: set_conn_same MAX_CONNS_def)
  next
    case 2
    then show ?thesis using s'(1) seg_conn_inv inv_conn [OF assms] by blast
  qed
qed

text \<open>
  C17: A segment for an established connection that neither resets nor ends it.  When it starts
  at the expected sequence number its data is appended to what the receiver may read, as far as
  the buffer has room (4095 bytes in all), and the next expected number advances by the whole
  length.  Data out of order is dropped.  No other connection changes, and the handler returns
  with its invariant intact.
\<close>

theorem tcp_input_data:
  assumes inv: "net_inv s" and h: "tcp_hdr_at pkt = Some h" "20 \<le> data_offset h" "data_offset h \<le> length pkt"
    and i: "seg_target src h s = Some i" "tc_state (s_conns s ! i) = TCP_ESTABLISHED"
    and fl: "th_flags h AND TCP_FLAG_RST = 0" "th_flags h AND TCP_FLAG_FIN = 0"
  shows "\<exists>s'. tcp_input src dst pkt s = Some s' \<and> net_inv s' \<and>
    (let c = s_conns s ! i; c' = s_conns s' ! i; data = drop (data_offset h) pkt
     in tc_state c' = TCP_ESTABLISHED \<and> (\<forall>j. j \<noteq> i \<longrightarrow> s_conns s' ! j = s_conns s ! j) \<and>
       (if data \<noteq> [] \<and> ntohl (th_seq h) = rcv_nxt c
        then rx_contents c' = rx_contents c @ take (4095 - rx_count c) data \<and>
             rcv_nxt c' = rcv_nxt c + of_nat (length data)
        else rx_contents c' = rx_contents c \<and> rcv_nxt c' = rcv_nxt c))"
proof -
  let ?d = "drop (data_offset h) pkt" and ?c = "s_conns s ! i"
  let ?f = "seg_conn (th_flags h) (ntohl (th_seq h)) (ntohl (th_ack h)) ?d"
  obtain s' where s': "tcp_input src dst pkt s = Some s'" "sent (set_conn i ?f s) s'" "i < MAX_CONNS"
    using tcp_input_spec [OF inv, of src dst pkt] h i(1) by auto
  have ci: "conn_inv ?c" "length (s_conns s) = MAX_CONNS" using inv_conn [OF inv s'(3)] inv_conns [OF inv] by simp_all
  have inv': "net_inv s'"
    using sentD(14) [OF s'(2)] set_conn_inv [OF inv s'(3), of ?f] seg_conn_inv [OF ci(1)] by simp
  have cs: "s_conns s' = (s_conns s)[i := ?f ?c]" using sentD(9) [OF s'(2)] by simp
  define c0 where "c0 = (if th_flags h AND TCP_FLAG_ACK \<noteq> 0 then ?c\<lparr>snd_una := ntohl (th_ack h)\<rparr> else ?c)"
  have c0: "conn_inv c0" "rx_contents c0 = rx_contents ?c" "rx_count c0 = rx_count ?c" "rcv_nxt c0 = rcv_nxt ?c"
      "tc_state c0 = TCP_ESTABLISHED"
    using ci(1) i(2) by (simp_all add: c0_def conn_inv_def rx_contents_def rx_count_def)
  have "?f ?c = est_data (ntohl (th_seq h)) ?d c0"
    using i(2) fl by (simp add: seg_conn_def est_conn_def est_data_def c0_def Let_def)
  then have e: "s_conns s' ! i = est_data (ntohl (th_seq h)) ?d c0" using cs ci(2) s'(3) by simp
  have rx: "rx_contents (c\<lparr>rcv_nxt := n\<rparr>) = rx_contents c" for c :: tcp_conn and n
    by (simp add: rx_contents_def rx_count_def)
  have "tc_state (s_conns s' ! i) = TCP_ESTABLISHED"
    "if ?d \<noteq> [] \<and> ntohl (th_seq h) = rcv_nxt ?c
        then rx_contents (s_conns s' ! i) = rx_contents ?c @ take (4095 - rx_count ?c) ?d \<and>
             rcv_nxt (s_conns s' ! i) = rcv_nxt ?c + of_nat (length ?d)
        else rx_contents (s_conns s' ! i) = rx_contents ?c \<and> rcv_nxt (s_conns s' ! i) = rcv_nxt ?c"
    unfolding e using rxbuf_push_spec [OF c0(1), of ?d] c0(2-) by (simp_all add: est_data_def rx)
  then show ?thesis using s'(1) inv' cs unfolding Let_def by simp
qed

theorem tcp_input_data_witness:
  "net_inv net_tcp \<and>
   (\<exists>s'. tcp_input 9 0 ([0, 80, 192, 0, 0, 0, 0, 5, 0, 0, 0, 9, 0x50, 0x10, 0, 0, 0, 0, 0, 0] @ [104, 105]) net_tcp = Some s' \<and>
      rx_contents (s_conns s' ! 0) = [104, 105] \<and> rcv_nxt (s_conns s' ! 0) = 7)"
proof -
  let ?p = "[0, 80, 192, 0, 0, 0, 0, 5, 0, 0, 0, 9, 0x50, 0x10, 0, 0, 0, 0, 0, 0] @ [104, 105] :: bytes"
  define h where "h = \<lparr>th_src_port = htons 80, th_dst_port = htons 49152, th_seq = htonl 5, th_ack = htonl 9,
    th_data_off = 0x50, th_flags = 0x10, th_window = 0, th_checksum = 0, th_urgent = 0\<rparr>"
  have "tcp_hdr_bytes h = take 20 ?p" 
    by (simp add: h_def tcp_hdr_bytes_def) (simp add: le_bytes_def be_bytes_def upt_rec)
  then have h: "tcp_hdr_at ?p = Some h" using tcp_hdr_round_trip [of h "[104, 105]"] by simp
  have c: "s_conns net_tcp ! 0 = conn_ex" by (simp add: net_tcp_def)
  have o: "data_offset h = 20" by (simp add: data_offset_def h_def)
  have t: "seg_target 9 h net_tcp = Some 0"
    by (simp add: seg_target_def MAX_CONNS_def upt_rec c tcp_match_def conn_ex_def h_def)
  have rx: "rx_contents conn_ex = []" "rx_count conn_ex = 0" "tc_state conn_ex = TCP_ESTABLISHED" "rcv_nxt conn_ex = 5"
    by (simp_all add: rx_contents_def rx_count_def conn_ex_def)
  show ?thesis
    using tcp_input_data [OF net_tcp_inv h, of 9 0 0] o t c rx net_tcp_inv
    by (auto simp: h_def tcp_flags Let_def)
qed

subsection \<open>The states of a connection\<close>

definition tcp_states :: "net \<Rightarrow> bool" where
  "tcp_states s \<longleftrightarrow> (\<forall>c \<in> set (s_conns s). tc_state c \<in> {TCP_CLOSED, TCP_SYN_SENT, TCP_ESTABLISHED})"

lemma seg_conn_states:
  assumes "tc_state c \<in> {TCP_CLOSED, TCP_SYN_SENT, TCP_ESTABLISHED}"
  shows "tc_state (seg_conn flags seq ack data c) \<in> {TCP_CLOSED, TCP_SYN_SENT, TCP_ESTABLISHED} \<and>
    (tc_state (seg_conn flags seq ack data c) = TCP_ESTABLISHED \<longrightarrow> tc_state c = TCP_ESTABLISHED \<or>
      tc_state c = TCP_SYN_SENT \<and> flags AND (TCP_FLAG_SYN OR TCP_FLAG_ACK) = TCP_FLAG_SYN OR TCP_FLAG_ACK) \<and>
    (tc_state c = TCP_CLOSED \<longrightarrow> seg_conn flags seq ack data c = c)"
proof -
  have "tc_state (est_conn flags seq ack data c) \<in> {TCP_CLOSED, tc_state c}"
    by (simp add: est_conn_def Let_def split: if_split)
  then show ?thesis using assms by (auto simp: seg_conn_def)
qed



subsection \<open>The calls of a connection\<close>

lemma add_bump: "length data \<le> 1460 \<Longrightarrow> flags AND (TCP_FLAG_SYN OR TCP_FLAG_FIN) = 0 \<Longrightarrow>
    seg_bump flags data c = c\<lparr>snd_seq := snd_seq c + of_nat (length data)\<rparr>"
  by (simp add: seg_bump_def)

lemma tcp_send_loop_spec:
  assumes "net_inv s" "i < MAX_CONNS"
  shows "\<exists>ok s' n. tcp_send_loop i data s = Some (ok, s') \<and>
    sent (set_conn i (\<lambda>c. c\<lparr>snd_seq := snd_seq c + of_nat n\<rparr>) s) s' \<and> (ok \<longrightarrow> n = length data)"
  using assms
proof (induction i data s rule: tcp_send_loop.induct)
  case (1 i data s)
  have l: "i < length (s_conns s)" using inv_conns [OF 1(2)] 1(3) by simp
  show ?case
  proof (cases "data = []")
    case True
    then show ?thesis
      by (intro exI [of _ True] exI [of _ s] exI [of _ 0]) (simp add: tcp_send_loop.simps [of i "[]"] set_conn_same)
  next
    case False
    let ?k = "if length data > 1460 then 1460 else length data"
    let ?fl = "TCP_FLAG_ACK OR TCP_FLAG_PSH"
    let ?up = "\<lambda>n c :: tcp_conn. c\<lparr>snd_seq := snd_seq c + of_nat n\<rparr>"
    have "length (take ?k data) \<le> 1460" by simp
    then obtain ok s1 where s1: "tcp_send_seg i ?fl (take ?k data) s = Some (ok, s1)"
        "sent (set_conn i (seg_bump ?fl (take ?k data)) s) s1"
      using tcp_send_seg_spec [OF 1(2,3)] by blast
    have b: "seg_bump ?fl (take ?k data) = ?up ?k"
      by (intro ext) (simp add: seg_bump_def tcp_flags min_def)
    have inv1: "net_inv s1"
      using sentD(14) [OF s1(2)] set_conn_inv [OF 1(2,3), of "?up ?k"] inv_conn [OF 1(2,3)] unfolding b
      by (simp add: conn_inv_def)
    show ?thesis
    proof (cases ok)
      case f: False
      then have "tcp_send_loop i data s = Some (False, s1)"
        unfolding tcp_send_loop.simps [of i data s] using False s1(1) by simp
      then show ?thesis using s1(2) unfolding b by blast
    next
      case True
      then have e: "tcp_send_loop i data s = tcp_send_loop i (drop ?k data) s1"
        unfolding tcp_send_loop.simps [of i data s] using False s1(1) by simp
      obtain ok' s2 n where s2: "tcp_send_loop i (drop ?k data) s1 = Some (ok', s2)"
          "sent (set_conn i (?up n) s1) s2" "ok' \<longrightarrow> n = length (drop ?k data)"
        using 1(1) [OF False refl s1(1) refl _ inv1 1(3)] True by auto
      have "set_conn i (?up n) (set_conn i (?up ?k) s) = set_conn i (?up (?k + n)) s"
        using l by (simp add: set_conn_def add.assoc)
      then have "sent (set_conn i (?up (?k + n)) s) s2"
        using sent_trans [OF sent_set_conn [OF s1(2)] s2(2)] unfolding b by simp
      moreover have "ok' \<longrightarrow> ?k + n = length data" using s2(3) by simp
      ultimately show ?thesis using s2(1) unfolding e by blast
    qed
  qed
qed

end
