(* ===== verification/Netrecv.thy ===== *)
theory Netrecv
  imports Tcp
begin

text \<open>
  The receive path (\<^verbatim>\<open>ipv4.c\<close>, \<^verbatim>\<open>eth.c\<close>, \<^verbatim>\<open>net.c\<close>), the calls that poll it
  (\<^verbatim>\<open>tcp_connect\<close>, \<^verbatim>\<open>dns_resolve\<close>, \<^verbatim>\<open>dhcp_discover\<close>) and the socket table
  (\<^verbatim>\<open>socket.c\<close>).  The delay loops between two polls have no effect and are left out.
\<close>

definition ipv4_recv :: "bytes \<Rightarrow> bytes \<Rightarrow> net \<Rightarrow> net option" where
  "ipv4_recv src_mac pkt s = (if length pkt < 20 then Some s else do {
     ip \<leftarrow> ip_hdr_at pkt;
     let ihl = unat ((ih_ver_ihl ip AND 0x0f) * 4);
     if ihl < 20 \<or> ihl > length pkt then Some s else do {
       let s = arp_insert (ih_src ip) src_mac s;
       payload \<leftarrow> slice ihl (length pkt - ihl) pkt;
       if ih_protocol ip = IP_PROTO_ICMP then icmp_recv (ih_src ip) payload s
       else if ih_protocol ip = IP_PROTO_UDP then udp_recv (ih_src ip) (ih_dst ip) payload s
       else if ih_protocol ip = IP_PROTO_TCP then tcp_input (ih_src ip) (ih_dst ip) payload s
       else Some s } })"

definition eth_recv :: "bytes \<Rightarrow> net \<Rightarrow> net option" where
  "eth_recv frame s = (if length frame < ETH_HLEN then Some s else do {
     src \<leftarrow> slice 6 6 frame;
     et \<leftarrow> slice 12 2 frame;
     payload \<leftarrow> slice ETH_HLEN (length frame - ETH_HLEN) frame;
     let et = ntohs (le_word et);
     if et = ETHERTYPE_ARP then arp_recv payload s
     else if et = ETHERTYPE_IPV4 then ipv4_recv src payload s
     else Some s })"

definition poll_once :: "net \<Rightarrow> net option" where
  "poll_once s = (if n_nic s = None then Some s else
     (let (f, s) = nic_recv 1536 s in if f \<noteq> [] then eth_recv f s else Some s))"

definition net_poll :: "net \<Rightarrow> net option" where
  "net_poll s = (if n_nic s = None then Some s else
     (let (f, s) = nic_recv 1536 s in if f \<noteq> [] then eth_recv f s else Some s))"

subsection \<open>Calls that poll\<close>

fun tcp_wait :: "nat \<Rightarrow> nat \<Rightarrow> net \<Rightarrow> net option" where
  "tcp_wait 0 i s = Some s"
| "tcp_wait (Suc n) i s =
     (if tc_state (s_conns s ! i) = TCP_SYN_SENT then poll_once s \<bind> tcp_wait n i else Some s)"

definition tcp_connect :: "u32 \<Rightarrow> u16 \<Rightarrow> net \<Rightarrow> (nat option \<times> net) option" where
  "tcp_connect dst_ip dst_port s = (case alloc_conn s of (None, s) \<Rightarrow> Some (None, s)
     | (Some i, s) \<Rightarrow> do {
       let s = set_conn i (\<lambda>c. c\<lparr>tc_state := TCP_CLOSED, tc_dst_ip := dst_ip, tc_dst_port := dst_port\<rparr>) s;
       let (port, s) = alloc_port s;
       let s = set_conn i (\<lambda>c. c\<lparr>tc_src_port := port, snd_seq := 0x12345678, snd_una := 0x12345678, rcv_nxt := 0,
         rcv_win := ucast (TCP_RXBUF - 1), rxbuf_head := 0, rxbuf_tail := 0\<rparr>) s;
       let s = set_conn i (\<lambda>c. c\<lparr>tc_state := TCP_SYN_SENT\<rparr>) s;
       (_, s) \<leftarrow> tcp_send_seg i TCP_FLAG_SYN [] s;
       s \<leftarrow> tcp_wait 300000 i s;
       if tc_state (s_conns s ! i) \<noteq> TCP_ESTABLISHED
       then Some (None, set_conn i (\<lambda>c. c\<lparr>tc_in_use := False\<rparr>) s)
       else Some (Some i, s) })"

fun dns_wait :: "nat \<Rightarrow> net \<Rightarrow> net option" where
  "dns_wait 0 s = Some s"
| "dns_wait (Suc n) s = (if s_got_reply s then Some s else
     if n_nic s = None then None else
       (let (f, s) = nic_recv 1536 s in (if f \<noteq> [] then eth_recv f s else Some s) \<bind> dns_wait n))"

fun dns_attempts :: "nat \<Rightarrow> u32 \<Rightarrow> bytes \<Rightarrow> net \<Rightarrow> net option" where
  "dns_attempts 0 dns_ip q s = Some s"
| "dns_attempts (Suc n) dns_ip q s = (if s_got_reply s then Some s else do {
     (_, s) \<leftarrow> udp_send dns_ip 53000 DNS_PORT q s;
     s \<leftarrow> dns_wait 200000 s;
     dns_attempts n dns_ip q s })"

definition dns_resolve :: "bytes \<Rightarrow> net \<Rightarrow> (u32 option \<times> net) option" where
  "dns_resolve hostname s = (let dns_ip = ipv4_dns s in
     if dns_ip = 0 then Some (None, s) else do {
       let s = s\<lparr>s_query_id := 0x1234, s_got_reply := False\<rparr>;
       q \<leftarrow> dns_query (s_query_id s) hostname;
       let s = udp_bind 53000 Dns_recv_cb 0 s;
       s \<leftarrow> dns_attempts 3 dns_ip q s;
       let s = udp_unbind 53000 s;
       Some (if s_got_reply s then (Some (s_resolved_ip s), s) else (None, s)) })"

fun poll_until :: "(net \<Rightarrow> bool) \<Rightarrow> nat \<Rightarrow> net \<Rightarrow> net option" where
  "poll_until fin 0 s = Some s"
| "poll_until fin (Suc n) s = (if n_nic s = None then Some s else if fin s then Some s else
     (let (f, s) = nic_recv 1536 s in (if f \<noteq> [] then eth_recv f s else Some s) \<bind> poll_until fin n))"

definition dhcp_discover :: "net \<Rightarrow> (bool \<times> net) option" where
  "dhcp_discover s = (case n_nic s of None \<Rightarrow> Some (False, s) | Some mac \<Rightarrow> do {
     let s = s\<lparr>s_xid := 0xdeadbe01, s_got_offer := False, s_got_ack := False\<rparr>;
     let s = udp_bind DHCP_PORT_CLIENT Dhcp_recv_offer 0 s;
     msg \<leftarrow> build_discover mac s;
     let s = ipv4_set_config 0 0 0 0 s;
     (_, s) \<leftarrow> udp_send 0xffffffff DHCP_PORT_CLIENT DHCP_PORT_SERVER msg s;
     s \<leftarrow> poll_until s_got_offer 400000 s;
     if \<not> s_got_offer s then Some (False, udp_unbind DHCP_PORT_CLIENT s) else do {
       let s = udp_unbind DHCP_PORT_CLIENT s;
       let s = udp_bind DHCP_PORT_CLIENT Dhcp_recv_ack 0 s;
       msg \<leftarrow> build_request mac (s_offered_ip s) (s_server_ip s) s;
       let s = ipv4_set_config 0 0 0 0 s;
       (_, s) \<leftarrow> udp_send 0xffffffff DHCP_PORT_CLIENT DHCP_PORT_SERVER msg s;
       s \<leftarrow> poll_until s_got_ack 400000 s;
       let s = udp_unbind DHCP_PORT_CLIENT s;
       if \<not> s_got_ack s then Some (False, s)
       else Some (True, ipv4_set_config (s_offered_ip s) (d_subnet s) (d_gateway s) (d_dns s) s) } })"

subsection \<open>Sockets\<close>

definition sock_alloc :: "net \<Rightarrow> int \<times> net" where
  "sock_alloc s = (case find (\<lambda>i. \<not> s_used s ! i) [0..<MAX_SOCKETS] of None \<Rightarrow> (- 1, s)
     | Some i \<Rightarrow> (int i, s\<lparr>s_used := (s_used s)[i := True], s_socks := (s_socks s)[i := None]\<rparr>))"

definition sock_free :: "int \<Rightarrow> net \<Rightarrow> net" where
  "sock_free idx s = (if idx < 0 \<or> idx \<ge> int MAX_SOCKETS then s
     else s\<lparr>s_socks := (s_socks s)[nat idx := None], s_used := (s_used s)[nat idx := False]\<rparr>)"

definition sock_connect :: "int \<Rightarrow> u32 \<Rightarrow> u16 \<Rightarrow> net \<Rightarrow> (int \<times> net) option" where
  "sock_connect idx ip port s = (if idx < 0 \<or> idx \<ge> int MAX_SOCKETS then Some (- 1, s) else do {
     (c, s) \<leftarrow> tcp_connect ip port s;
     (case c of None \<Rightarrow> Some (- 1, s)
      | Some c \<Rightarrow> Some (0, s\<lparr>s_socks := (s_socks s)[nat idx := Some c]\<rparr>)) })"

definition sock_send :: "int \<Rightarrow> bytes \<Rightarrow> net \<Rightarrow> (int \<times> net) option" where
  "sock_send idx buf s = (if idx < 0 \<or> idx \<ge> int MAX_SOCKETS \<or> s_socks s ! nat idx = None then Some (- 1, s) else do {
     let buf = (if length buf > 65535 then take 65535 buf else buf);
     (ok, s) \<leftarrow> tcp_send (s_socks s ! nat idx) buf s;
     Some (if \<not> ok then (- 1, s) else (int (length buf), s)) })"

definition sock_recv :: "int \<Rightarrow> nat \<Rightarrow> net \<Rightarrow> int \<times> bytes \<times> net" where
  "sock_recv idx n s = (if idx < 0 \<or> idx \<ge> int MAX_SOCKETS \<or> s_socks s ! nat idx = None then (- 1, [], s)
     else (let n = (if n > 65535 then 65535 else n);
               (bs, s) = tcp_recv (s_socks s ! nat idx) n s
           in if bs = [] \<and> \<not> tcp_is_established (s_socks s ! nat idx) s then (- 1, [], s)
              else (int (length bs), bs, s)))"

definition sock_close :: "int \<Rightarrow> net \<Rightarrow> net option" where
  "sock_close idx s = (if idx < 0 \<or> idx \<ge> int MAX_SOCKETS then Some s
     else (let c = s_socks s ! nat idx;
               s = s\<lparr>s_socks := (s_socks s)[nat idx := None], s_used := (s_used s)[nat idx := False]\<rparr>
           in if c \<noteq> None then tcp_close c s else Some s))"

definition sock_is_connected :: "int \<Rightarrow> net \<Rightarrow> bool" where
  "sock_is_connected idx s = (if idx < 0 \<or> idx \<ge> int MAX_SOCKETS then False else s_socks s ! nat idx \<noteq> None)"

subsection \<open>The receive path never faults\<close>

definition conn_id :: "tcp_conn \<Rightarrow> bool \<times> u32 \<times> u16 \<times> u16" where
  "conn_id c = (tc_in_use c, tc_dst_ip c, tc_dst_port c, tc_src_port c)"

text \<open>What receiving leaves alone.\<close>

definition keeps :: "net \<Rightarrow> net \<Rightarrow> bool" where
  "keeps s s' \<longleftrightarrow> n_nic s' = n_nic s \<and> s_ip s' = s_ip s \<and> s_binds s' = s_binds s \<and> s_socks s' = s_socks s \<and>
     s_used s' = s_used s \<and> map conn_id (s_conns s') = map conn_id (s_conns s) \<and> (net_inv s \<longrightarrow> net_inv s')"

lemma keeps_refl [simp]: "keeps s s"
  by (simp add: keeps_def)

lemma keeps_trans: "keeps s s' \<Longrightarrow> keeps s' s'' \<Longrightarrow> keeps s s''"
  by (simp add: keeps_def)

lemma sent_keeps: "sent s s' \<Longrightarrow> keeps s s'"
  using sentD [of s s'] by (simp add: keeps_def)

lemma cache_keeps: "cache_upd s s' \<Longrightarrow> keeps s s'"
  using cache_updD [of s s'] by (simp add: keeps_def)

lemma app_keeps: "app_upd s s' \<Longrightarrow> keeps s s'"
  using app_updD [of s s'] by (simp add: keeps_def)

lemma arp_insert_keeps: "length mac = 6 \<Longrightarrow> keeps s (arp_insert ip mac s)"
  using arp_insert_inv by (simp add: keeps_def arp_insert_slot)

lemma set_conn_keeps:
  assumes "conn_id (f (s_conns s ! i)) = conn_id (s_conns s ! i)" "conn_inv (s_conns s ! i) \<Longrightarrow> conn_inv (f (s_conns s ! i))"
    "i < MAX_CONNS"
  shows "keeps s (set_conn i f s)"
proof -
  have "map conn_id ((s_conns s)[i := f (s_conns s ! i)]) = map conn_id (s_conns s)"
    using assms(1) by (cases "i < length (s_conns s)") (simp_all add: map_update list_update_same_conv list_update_beyond)
  then show ?thesis using assms set_conn_inv [of s i f] inv_conn [of s i] by (auto simp: keeps_def)
qed

lemma rxbuf_push_id [simp]: "conn_id (rxbuf_push ds c) = conn_id c"
  by (induction ds c rule: rxbuf_push.induct) (simp_all add: conn_id_def Let_def)

lemma seg_conn_id: "conn_id (seg_conn flags seq ack data c) = conn_id c"
proof -
  have u: "conn_id (c\<lparr>tc_state := x\<rparr>) = conn_id c" "conn_id (c\<lparr>rcv_nxt := y\<rparr>) = conn_id c"
    "conn_id (c\<lparr>snd_una := y\<rparr>) = conn_id c" "conn_id (c\<lparr>snd_seq := y\<rparr>) = conn_id c" for c :: tcp_conn and x y
    by (simp_all add: conn_id_def)
  show ?thesis by (cases "tc_state c") (simp_all add: seg_conn_def est_conn_def Let_def u)
qed

lemma tcp_input_ok:
  assumes "net_inv s"
  shows "\<exists>s'. tcp_input src dst pkt s = Some s' \<and> keeps s s'"
proof -
  obtain s' where s': "tcp_input src dst pkt s = Some s'"
    "case tcp_hdr_at pkt of None \<Rightarrow> s' = s | Some h \<Rightarrow>
       if data_offset h < 20 \<or> data_offset h > length pkt then s' = s
       else case seg_target src h s of None \<Rightarrow> s' = s | Some i \<Rightarrow>
         i < MAX_CONNS \<and> tcp_match src (ntohs (th_src_port h)) (ntohs (th_dst_port h)) (s_conns s ! i) \<and>
         sent (set_conn i (seg_conn (th_flags h) (ntohl (th_seq h)) (ntohl (th_ack h)) (drop (data_offset h) pkt)) s) s'"
    using tcp_input_spec [OF assms, of src dst pkt] by blast
  consider "s' = s" | i flags seq ack data where "i < MAX_CONNS" "sent (set_conn i (seg_conn flags seq ack data) s) s'"
    using s'(2) by (auto split: option.splits if_splits)
  then have "keeps s s'"
  proof cases
    case (2 i flags seq ack data)
    show ?thesis by (rule keeps_trans [OF set_conn_keeps sent_keeps [OF 2(2)]]) (use seg_conn_id seg_conn_inv 2(1) in auto)
  qed simp
  then show ?thesis using s'(1) by blast
qed

lemma dns_only_cong: "s_binds s = s_binds s' \<Longrightarrow> dns_only s = dns_only s'"
  by (simp add: dns_only_def)

lemma ipv4_recv_ok:
  assumes "net_inv s" "length mac = 6" "dns_only s \<or> length pkt < 20 + 8 + dhcp_size"
  shows "\<exists>s'. ipv4_recv mac pkt s = Some s' \<and> keeps s s'"
proof (cases "length pkt < 20")
  case True
  then show ?thesis by (simp add: ipv4_recv_def)
next
  case False
  then obtain h where h: "ip_hdr_at pkt = Some h" using ip_hdr_at_ok [of pkt] by auto
  define n where "n = unat ((ih_ver_ihl h AND 0x0f) * 4)"
  show ?thesis
  proof (cases "n < 20 \<or> n > length pkt")
    case True
    then show ?thesis using False h unfolding ipv4_recv_def Let_def by (auto simp: n_def)
  next
    case c: False
    let ?s = "arp_insert (ih_src h) mac s" and ?d = "drop n pkt"
    have k: "keeps s ?s" using assms(2) by (rule arp_insert_keeps)
    then have inv: "net_inv ?s" using assms(1) by (simp add: keeps_def)
    have sl: "slice n (length pkt - n) pkt = Some ?d" using c by (simp add: slice_def)
    have "dns_only ?s = dns_only s" by (rule dns_only_cong) (simp add: arp_insert_slot)
    then have d: "dns_only ?s \<or> length ?d < dhcp_size + 8" using assms(3) c by auto
    have "\<exists>s'. icmp_recv (ih_src h) ?d ?s = Some s' \<and> keeps ?s s'"
      using icmp_recv_spec [OF inv] sent_keeps by blast
    moreover have "\<exists>s'. udp_recv (ih_src h) (ih_dst h) ?d ?s = Some s' \<and> keeps ?s s'"
      using udp_recv_spec [OF d] app_keeps by blast
    moreover have "\<exists>s'. tcp_input (ih_src h) (ih_dst h) ?d ?s = Some s' \<and> keeps ?s s'"
      by (rule tcp_input_ok [OF inv])
    ultimately have "\<exists>s'. (if ih_protocol h = IP_PROTO_ICMP then icmp_recv (ih_src h) ?d ?s
       else if ih_protocol h = IP_PROTO_UDP then udp_recv (ih_src h) (ih_dst h) ?d ?s
       else if ih_protocol h = IP_PROTO_TCP then tcp_input (ih_src h) (ih_dst h) ?d ?s
       else Some ?s) = Some s' \<and> keeps ?s s'" by simp
    then obtain s' where "(if ih_protocol h = IP_PROTO_ICMP then icmp_recv (ih_src h) ?d ?s
       else if ih_protocol h = IP_PROTO_UDP then udp_recv (ih_src h) (ih_dst h) ?d ?s
       else if ih_protocol h = IP_PROTO_TCP then tcp_input (ih_src h) (ih_dst h) ?d ?s
       else Some ?s) = Some s'" "keeps ?s s'" by blast
    then have "ipv4_recv mac pkt s = Some s'" "keeps s s'"
      using False h c sl keeps_trans [OF k] unfolding ipv4_recv_def Let_def by (simp_all flip: n_def)
    then show ?thesis by blast
  qed
qed

lemma eth_recv_ok:
  assumes "net_inv s" "dns_only s \<or> length frame < 14 + 20 + 8 + dhcp_size"
  shows "\<exists>s'. eth_recv frame s = Some s' \<and> keeps s s'"
proof (cases "length frame < 14")
  case True
  then show ?thesis by (simp add: eth_recv_def ETH_HLEN_def)
next
  case False
  let ?d = "drop 14 frame" and ?m = "take 6 (drop 6 frame)" and ?t = "take 2 (drop 12 frame)"
  have sl: "slice 6 6 frame = Some ?m" "slice 12 2 frame = Some ?t" "slice 14 (length frame - 14) frame = Some ?d"
    using False by (simp_all add: slice_def)
  have m: "length ?m = 6" using False by simp
  have "dns_only s \<or> length ?d < 20 + 8 + dhcp_size" using assms(2) by auto
  then have "\<exists>s'. ipv4_recv ?m ?d s = Some s' \<and> keeps s s'" by (rule ipv4_recv_ok [OF assms(1) m])
  moreover have "\<exists>s'. arp_recv ?d s = Some s' \<and> keeps s s'"
    using arp_recv_spec [OF assms(1), of ?d] cache_keeps by auto
  ultimately show ?thesis using False sl by (simp add: eth_recv_def ETH_HLEN_def Let_def)
qed

lemma nic_recv_keeps: "nic_recv n s = (f, s') \<Longrightarrow> keeps s s'"
  by (auto simp: nic_recv_def keeps_def net_inv_def split: list.splits)

text \<open>One poll of the network card.\<close>

lemma poll_ok:
  assumes "net_inv s" "dns_only s" "nic_recv 1536 s = (f, s1)"
  shows "\<exists>s'. (if f \<noteq> [] then eth_recv f s1 else Some s1) = Some s' \<and> keeps s s' \<and> net_inv s' \<and> dns_only s'"
proof -
  have k: "keeps s s1" using assms(3) by (rule nic_recv_keeps)
  then have s1: "net_inv s1" "dns_only s1" using assms(1,2) dns_only_cong [of s1 s] by (simp_all add: keeps_def)
  obtain s' where s': "(if f \<noteq> [] then eth_recv f s1 else Some s1) = Some s'" "keeps s1 s'"
    using eth_recv_ok [OF s1(1), of f] s1(2) by (cases "f = []") auto
  moreover have "keeps s s'" using keeps_trans [OF k s'(2)] .
  ultimately show ?thesis using assms(1,2) dns_only_cong [of s' s] by (simp add: keeps_def)
qed

lemma poll_once_ok:
  assumes "net_inv s" "dns_only s"
  shows "\<exists>s'. poll_once s = Some s' \<and> keeps s s' \<and> net_inv s' \<and> dns_only s'"
proof (cases "n_nic s = None")
  case True
  then show ?thesis using assms by (simp add: poll_once_def)
next
  case False
  obtain f s1 where "nic_recv 1536 s = (f, s1)" by fastforce
  then show ?thesis using False poll_ok [OF assms, of f s1] unfolding poll_once_def by auto
qed



subsection \<open>Opening a connection\<close>

lemma tcp_wait_ok:
  assumes "net_inv s" "dns_only s"
  shows "\<exists>s'. tcp_wait n i s = Some s' \<and> keeps s s' \<and> net_inv s' \<and> dns_only s'"
  using assms
proof (induction n arbitrary: s)
  case (Suc n)
  obtain s1 where s1: "poll_once s = Some s1" "keeps s s1" "net_inv s1" "dns_only s1"
    using poll_once_ok [OF Suc.prems] by blast
  then obtain s2 where s2: "tcp_wait n i s1 = Some s2" "keeps s1 s2" "net_inv s2" "dns_only s2" using Suc.IH by blast
  show ?case
  proof (cases "tc_state (s_conns s ! i) = TCP_SYN_SENT")
    case True
    then have "tcp_wait (Suc n) i s = Some s2" using s1(1) s2(1) by simp
    then show ?thesis using keeps_trans [OF s1(2) s2(2)] s2(3,4) by blast
  qed (use Suc.prems in simp)
qed simp

lemma alloc_conn_cases:
  assumes "net_inv s"
  obtains (full) "alloc_conn s = (None, s)" "\<And>i. i < MAX_CONNS \<Longrightarrow> tc_in_use (s_conns s ! i)"
  | (got) i where "alloc_conn s = (Some i, set_conn i (\<lambda>c. c\<lparr>tc_in_use := True\<rparr>) s)" "i < MAX_CONNS"
      "\<not> tc_in_use (s_conns s ! i)"
proof (cases "find (\<lambda>i. \<not> tc_in_use (s_conns s ! i)) [0..<MAX_CONNS]")
  case None
  then have "alloc_conn s = (None, s)" by (simp add: alloc_conn_def)
  with None show ?thesis using full by (simp add: find_upt_None)
next
  case (Some i)
  then have "alloc_conn s = (Some i, set_conn i (\<lambda>c. c\<lparr>tc_in_use := True\<rparr>) s)" by (simp add: alloc_conn_def)
  with Some show ?thesis using got [of i] by (simp add: find_upt_Some)
qed

definition syn_conn :: "u32 \<Rightarrow> u16 \<Rightarrow> u16 \<Rightarrow> tcp_conn \<Rightarrow> tcp_conn" where
  "syn_conn ip port sp c = c\<lparr>tc_in_use := True, tc_dst_ip := ip, tc_dst_port := port,
     tc_src_port := sp, snd_seq := 0x12345678, snd_una := 0x12345678, rcv_nxt := 0, rcv_win := 4095,
     rxbuf_head := 0, rxbuf_tail := 0, tc_state := TCP_SYN_SENT\<rparr>"

lemma set_conn_port: "set_conn i f (s\<lparr>s_next_port := n\<rparr>) = set_conn i f s\<lparr>s_next_port := n\<rparr>"
  by (cases s) (simp add: set_conn_def)

lemma tcp_connect_step:
  assumes "net_inv s" "alloc_conn s = (Some i, set_conn i (\<lambda>c. c\<lparr>tc_in_use := True\<rparr>) s)" "i < MAX_CONNS"
  shows "tcp_connect ip port s = do {
     (_, s) \<leftarrow> tcp_send_seg i TCP_FLAG_SYN [] (set_conn i (syn_conn ip port (s_next_port s)) s\<lparr>s_next_port := s_next_port s + 1\<rparr>);
     s \<leftarrow> tcp_wait 300000 i s;
     if tc_state (s_conns s ! i) \<noteq> TCP_ESTABLISHED
     then Some (None, set_conn i (\<lambda>c. c\<lparr>tc_in_use := False\<rparr>) s)
     else Some (Some i, s) }"
proof -
  have l: "i < length (s_conns s)" using inv_conns [OF assms(1)] assms(3) by simp
  have "set_conn i (\<lambda>c. c\<lparr>tc_state := TCP_SYN_SENT\<rparr>) (set_conn i (\<lambda>c. c\<lparr>tc_src_port := s_next_port s, snd_seq := 0x12345678,
         snd_una := 0x12345678, rcv_nxt := 0, rcv_win := ucast (TCP_RXBUF - 1), rxbuf_head := 0, rxbuf_tail := 0\<rparr>)
       ((set_conn i (\<lambda>c. c\<lparr>tc_state := TCP_CLOSED, tc_dst_ip := ip, tc_dst_port := port\<rparr>)
         (set_conn i (\<lambda>c. c\<lparr>tc_in_use := True\<rparr>) s))\<lparr>s_next_port := s_next_port s + 1\<rparr>)) =
     set_conn i (syn_conn ip port (s_next_port s)) s\<lparr>s_next_port := s_next_port s + 1\<rparr>"
    using l by (simp add: set_conn_port syn_conn_def [abs_def] TCP_RXBUF_def)
  then show ?thesis
    unfolding tcp_connect_def assms(2) prod.case option.case Let_def alloc_port_def set_conn_sels by simp
qed

lemma syn_conn_inv: "conn_inv c \<Longrightarrow> conn_inv (syn_conn ip port sp c)"
  by (simp add: conn_inv_def syn_conn_def TCP_RXBUF_def)

lemma net_inv_port [simp]: "net_inv (s\<lparr>s_next_port := n\<rparr>) = net_inv s"
  by (simp add: net_inv_def)

text \<open>The SYN goes out; the connection is open to its peer.\<close>

lemma syn_sent:
  assumes "net_inv s" "i < MAX_CONNS"
  shows "\<exists>ok s1. tcp_send_seg i TCP_FLAG_SYN [] (set_conn i (syn_conn ip port sp) s\<lparr>s_next_port := n\<rparr>) = Some (ok, s1) \<and>
    net_inv s1 \<and> n_nic s1 = n_nic s \<and> n_rx s1 = n_rx s \<and> s_binds s1 = s_binds s \<and> s_socks s1 = s_socks s \<and>
    s_used s1 = s_used s \<and>
    s_conns s1 = (s_conns s)[i := (syn_conn ip port sp (s_conns s ! i))\<lparr>snd_seq := 0x12345679\<rparr>]"
proof -
  let ?s = "set_conn i (syn_conn ip port sp) s\<lparr>s_next_port := n\<rparr>"
  have l: "i < length (s_conns s)" using inv_conns [OF assms(1)] assms(2) by simp
  have inv: "net_inv ?s" using set_conn_inv [OF assms] syn_conn_inv inv_conn [OF assms] by simp
  obtain ok s1 where s1: "tcp_send_seg i TCP_FLAG_SYN [] ?s = Some (ok, s1)" "sent (set_conn i (seg_bump TCP_FLAG_SYN []) ?s) s1"
    using tcp_send_seg_spec [OF inv assms(2), of "[]" TCP_FLAG_SYN] by auto
  have "net_inv (set_conn i (seg_bump TCP_FLAG_SYN []) ?s)"
    using set_conn_inv [OF inv assms(2)] inv_conn [OF inv assms(2)] by (simp add: seg_bump_inv)
  moreover have "seg_bump TCP_FLAG_SYN [] (syn_conn ip port sp c) = (syn_conn ip port sp c)\<lparr>snd_seq := 0x12345679\<rparr>" for c
    by (simp add: seg_bump_def syn_conn_def tcp_flags)
  ultimately show ?thesis using s1(1) sentD [OF s1(2)] l by simp
qed

lemma tcp_connect_ok:
  assumes "net_inv s" "dns_only s"
  shows "\<exists>r s'. tcp_connect ip port s = Some (r, s') \<and> net_inv s' \<and> dns_only s' \<and>
    s_socks s' = s_socks s \<and> s_used s' = s_used s \<and>
    (\<forall>i. r = Some i \<longrightarrow> i < MAX_CONNS \<and> \<not> tc_in_use (s_conns s ! i) \<and> tc_state (s_conns s' ! i) = TCP_ESTABLISHED)"
  using assms(1)
proof (cases rule: alloc_conn_cases)
  case full
  then show ?thesis using assms by (simp add: tcp_connect_def)
next
  case (got i)
  obtain ok s1 where s1: "tcp_send_seg i TCP_FLAG_SYN [] (set_conn i (syn_conn ip port (s_next_port s)) s\<lparr>s_next_port := s_next_port s + 1\<rparr>) = Some (ok, s1)"
    "net_inv s1" "s_binds s1 = s_binds s" "s_socks s1 = s_socks s" "s_used s1 = s_used s"
    using syn_sent [OF assms(1) got(2), where ip = ip and port = port and sp = "s_next_port s" and n = "s_next_port s + 1"] by auto
  have "dns_only s1" using assms(2) dns_only_cong [OF s1(3)] by simp
  then obtain s2 where s2: "tcp_wait 300000 i s1 = Some s2" "keeps s1 s2" "net_inv s2" "dns_only s2"
    using tcp_wait_ok [OF s1(2)] by blast
  have "net_inv (set_conn i (\<lambda>c. c\<lparr>tc_in_use := False\<rparr>) s2)"
    using set_conn_inv [OF s2(3) got(2)] inv_conn [OF s2(3) got(2)] by (simp add: conn_inv_def)
  moreover have "dns_only (set_conn i (\<lambda>c. c\<lparr>tc_in_use := False\<rparr>) s2)" using s2(4) by (simp add: dns_only_def)
  ultimately show ?thesis
    unfolding tcp_connect_step [OF assms(1) got(1,2)] s1(1)
    using s1 s2 got(2,3) by (cases "tc_state (s_conns s2 ! i) = TCP_ESTABLISHED") (simp_all add: keeps_def)
qed

text \<open>A TCP segment in a frame reaches \<open>tcp_input\<close>.\<close>

lemma eth_recv_tcp:
  assumes "length dst = 6" "length src = 6" "ih_ver_ihl ih = 0x45" "ih_protocol ih = IP_PROTO_TCP"
  shows "eth_recv (dst @ src @ be_bytes 2 ETHERTYPE_IPV4 @ ip_hdr_bytes ih @ seg) s =
    tcp_input (ih_src ih) (ih_dst ih) seg (arp_insert (ih_src ih) src s)"
proof -
  let ?f = "dst @ src @ be_bytes 2 ETHERTYPE_IPV4 @ ip_hdr_bytes ih @ seg"
  have l: "length (be_bytes 2 ETHERTYPE_IPV4) = 2" by simp
  have "ntohs (le_word (be_bytes 2 ETHERTYPE_IPV4)) = ETHERTYPE_IPV4"
    by (simp flip: htons_be)
  moreover have "slice 6 6 ?f = Some src" "slice 12 2 ?f = Some (be_bytes 2 ETHERTYPE_IPV4)"
    "slice 14 (length ?f - 14) ?f = Some (ip_hdr_bytes ih @ seg)" using assms(1,2) by (simp_all add: slice_def)
  moreover have "ETHERTYPE_IPV4 \<noteq> ETHERTYPE_ARP" by (simp add: ETHERTYPE_IPV4_def ETHERTYPE_ARP_def)
  ultimately have e: "eth_recv ?f s = ipv4_recv src (ip_hdr_bytes ih @ seg) s"
    using assms(1,2) by (simp add: eth_recv_def ETH_HLEN_def Let_def)
  have "slice 20 (length seg) (ip_hdr_bytes ih @ seg) = Some seg" by (simp add: slice_def)
  then show ?thesis
    unfolding e using assms(3,4)
    by (simp add: ipv4_recv_def IP_PROTO_TCP_def IP_PROTO_UDP_def IP_PROTO_ICMP_def Let_def)
qed


definition syn_ack :: tcp_hdr where
  "syn_ack = \<lparr>th_src_port = htons 80, th_dst_port = htons 49152, th_seq = htonl 99, th_ack = htonl 0x12345679,
     th_data_off = 0x50, th_flags = 0x12, th_window = 0, th_checksum = 0, th_urgent = 0\<rparr>"

definition ip_ex :: "u8 \<Rightarrow> ip_hdr" where
  "ip_ex proto = \<lparr>ih_ver_ihl = 0x45, ih_dscp_ecn = 0, ih_total_length = htons 40, ih_id = 0, ih_flags_frag = 0, ih_ttl = 64,
     ih_protocol = proto, ih_checksum = 0, ih_src = 9, ih_dst = 0\<rparr>"

definition net_syn :: net where
  "net_syn = net_arp\<lparr>n_rx := [replicate 6 1 @ replicate 6 2 @ be_bytes 2 ETHERTYPE_IPV4 @ ip_hdr_bytes (ip_ex IP_PROTO_TCP) @
     tcp_hdr_bytes syn_ack]\<rparr>"


text \<open>
  The length in the IP header is not looked at, so the bytes that pad a short frame to 60
  bytes count as data: an acknowledgement without data delivers six bytes to the reader.
\<close>

theorem eth_padding_read:
  "\<exists>s'. eth_recv (replicate 6 1 @ replicate 6 2 @ be_bytes 2 ETHERTYPE_IPV4 @ ip_hdr_bytes (ip_ex IP_PROTO_TCP) @
      tcp_hdr_bytes (syn_ack\<lparr>th_seq := htonl 5, th_flags := TCP_FLAG_ACK\<rparr>) @ replicate 6 0) net_tcp = Some s' \<and>
    ntohs (ih_total_length (ip_ex IP_PROTO_TCP)) = 20 + 20 \<and>
    rx_contents (s_conns s' ! 0) = replicate 6 0 \<and> rcv_nxt (s_conns s' ! 0) = 11"
proof -
  define th where "th = syn_ack\<lparr>th_seq := htonl 5, th_flags := TCP_FLAG_ACK\<rparr>"
  let ?s = "arp_insert 9 (replicate 6 2) net_tcp" and ?p = "tcp_hdr_bytes th @ replicate 6 0"
  have ih: "ih_ver_ihl (ip_ex IP_PROTO_TCP) = 0x45" "ih_protocol (ip_ex IP_PROTO_TCP) = IP_PROTO_TCP"
    "ih_src (ip_ex IP_PROTO_TCP) = 9" "ih_dst (ip_ex IP_PROTO_TCP) = 0" by (simp_all add: ip_ex_def)
  have inv: "net_inv ?s" by (rule arp_insert_inv [OF net_tcp_inv]) simp
  have c: "s_conns ?s ! 0 = conn_ex" by (simp add: arp_insert_slot net_tcp_def)
  have o: "data_offset th = 20" by (simp add: data_offset_def th_def syn_ack_def)
  have t: "seg_target 9 th ?s = Some 0"
    by (simp add: seg_target_def MAX_CONNS_def upt_rec c tcp_match_def conn_ex_def th_def syn_ack_def)
  obtain s' where s': "tcp_input 9 0 ?p ?s = Some s'"
    "sent (set_conn 0 (seg_conn TCP_FLAG_ACK 5 (ntohl (th_ack th)) (replicate 6 0)) ?s) s'"
    using tcp_input_spec [OF inv, of 9 0 ?p] o t by (auto simp: th_def)
  have l: "length (s_conns ?s) = 4" by (simp add: arp_insert_slot net_tcp_def)
  define c0 where "c0 = conn_ex\<lparr>snd_una := ntohl (th_ack th)\<rparr>"
  have "s_conns s' ! 0 = (rxbuf_push (replicate 6 0) c0)\<lparr>rcv_nxt := 11\<rparr>"
    using sentD(9) [OF s'(2)] l c by (simp add: seg_conn_def est_conn_def Let_def conn_ex_def tcp_flags c0_def)
  moreover have "conn_inv c0" "rx_contents c0 = []" "rx_count c0 = 0"
    by (simp_all add: c0_def conn_ex_def conn_inv_def rx_contents_def rx_count_def TCP_RXBUF_def)
  then have "rx_contents (rxbuf_push (replicate 6 0) c0) = replicate 6 0"
    using rxbuf_push_spec [of c0 "replicate 6 0"] by simp
  moreover have "rx_contents (c\<lparr>rcv_nxt := n\<rparr>) = rx_contents c" for c :: tcp_conn and n
    by (simp add: rx_contents_def rx_count_def)
  ultimately show ?thesis
    using s'(1) eth_recv_tcp [of "replicate 6 1" "replicate 6 2" "ip_ex IP_PROTO_TCP" ?p net_tcp] ih
    by (simp add: th_def ip_ex_def)
qed

subsection \<open>Name resolution and sockets\<close>

lemma dns_wait_ok:
  assumes "net_inv s" "dns_only s" "n_nic s = Some mac"
  shows "\<exists>s'. dns_wait n s = Some s' \<and> keeps s s' \<and> net_inv s' \<and> dns_only s'"
  using assms
proof (induction n arbitrary: s)
  case (Suc n)
  obtain f s1 where f: "nic_recv 1536 s = (f, s1)" by fastforce
  obtain s2 where s2: "(if f \<noteq> [] then eth_recv f s1 else Some s1) = Some s2" "keeps s s2" "net_inv s2" "dns_only s2"
    using poll_ok [OF Suc.prems(1,2) f] by blast
  moreover have "n_nic s2 = Some mac" using s2(2) Suc.prems(3) by (simp add: keeps_def)
  ultimately obtain s3 where s3: "dns_wait n s2 = Some s3" "keeps s2 s3" "net_inv s3" "dns_only s3" using Suc.IH by blast
  show ?case
  proof (cases "s_got_reply s")
    case False
    then have "dns_wait (Suc n) s = Some s3" using s2(1) s3(1) f Suc.prems(3) by simp
    then show ?thesis using keeps_trans [OF s2(2) s3(2)] s3(3,4) by blast
  qed (use Suc.prems in simp)
qed simp

lemma dns_attempts_ok:
  assumes "net_inv s" "dns_only s" "n_nic s = Some mac"
  shows "\<exists>s'. dns_attempts n ip q s = Some s' \<and> keeps s s' \<and> net_inv s'"
  using assms
proof (induction n arbitrary: s)
  case (Suc n)
  obtain ok s1 where s1: "udp_send ip 53000 DNS_PORT q s = Some (ok, s1)" "sent s s1"
    using udp_send_spec [OF Suc.prems(1)] by blast
  have k1: "keeps s s1" using sent_keeps [OF s1(2)] .
  then have "net_inv s1" "dns_only s1" "n_nic s1 = Some mac"
    using Suc.prems dns_only_cong [of s1 s] by (simp_all add: keeps_def)
  then obtain s2 where s2: "dns_wait 200000 s1 = Some s2" "keeps s1 s2" "net_inv s2" "dns_only s2"
    using dns_wait_ok by blast
  moreover have "n_nic s2 = Some mac" using k1 s2(2) Suc.prems(3) by (simp add: keeps_def)
  ultimately obtain s3 where s3: "dns_attempts n ip q s2 = Some s3" "keeps s2 s3" "net_inv s3" using Suc.IH by blast
  show ?case
  proof (cases "s_got_reply s")
    case False
    then have "dns_attempts (Suc n) ip q s = Some s3" using s1(1) s2(1) s3(1) by simp
    then show ?thesis using keeps_trans [OF k1 keeps_trans [OF s2(2) s3(2)]] s3(3) by blast
  qed (use Suc.prems in simp)
qed simp

lemma dns_only_bind:
  assumes "dns_only s" "length (s_binds s) = MAX_BINDS"
  shows "dns_only (udp_bind port Dns_recv_cb ctx s)"
proof (cases "find (\<lambda>i. \<not> ub_used (s_binds s ! i)) [0..<MAX_BINDS]")
  case None
  then show ?thesis using assms by (simp add: udp_bind_def)
next
  case (Some k)
  then have "k < MAX_BINDS" by (simp add: find_upt_Some)
  then have "ub_used (s_binds (udp_bind port Dns_recv_cb ctx s) ! i) \<longrightarrow>
      ub_fn (s_binds (udp_bind port Dns_recv_cb ctx s) ! i) = Dns_recv_cb" if "i < MAX_BINDS" for i
    using Some assms that by (cases "i = k") (simp_all add: udp_bind_def dns_only_def)
  then show ?thesis by (simp add: dns_only_def)
qed

lemma dns_resolve_ok:
  assumes "net_inv s" "dns_only s" "n_nic s = Some mac" "length host \<le> 494"
  shows "\<exists>r s'. dns_resolve host s = Some (r, s') \<and> net_inv s' \<and> s_used s' = s_used s"
proof (cases "s_dns s = 0")
  case True
  then show ?thesis using assms by (simp add: dns_resolve_def ipv4_dns_def)
next
  case False
  let ?s = "udp_bind 53000 Dns_recv_cb 0 (s\<lparr>s_query_id := 0x1234, s_got_reply := False\<rparr>)"
  obtain q where q: "dns_query 0x1234 host = Some q" using dns_query_eq [OF assms(4)] by blast
  have s0: "net_inv (s\<lparr>s_query_id := 0x1234, s_got_reply := False\<rparr>)" using assms(1) by (simp add: net_inv_def)
  have "dns_only ?s"
    using assms(1,2) by (intro dns_only_bind) (simp_all add: dns_only_def net_inv_def)
  moreover have "n_nic ?s = Some mac" "s_used ?s = s_used s"
    using assms(3) by (simp_all add: udp_bind_def split: option.split)
  ultimately obtain s' where s': "dns_attempts 3 (s_dns s) q ?s = Some s'" "keeps ?s s'" "net_inv s'"
    using dns_attempts_ok [OF udp_bind_inv [OF s0]] by blast
  have "net_inv (udp_unbind 53000 s')" "s_used (udp_unbind 53000 s') = s_used s"
    using udp_unbind_inv [OF s'(3)] s'(2) \<open>s_used ?s = s_used s\<close> by (simp_all add: keeps_def udp_unbind_def)
  then show ?thesis using False q s'(1) by (simp add: dns_resolve_def ipv4_dns_def Let_def)
qed

definition sock_used :: "net \<Rightarrow> nat \<Rightarrow> bool" where
  "sock_used s i \<longleftrightarrow> i < MAX_SOCKETS \<and> s_used s ! i"

lemma sock_alloc_first: "net_inv s \<Longrightarrow>
    find (\<lambda>i. \<not> s_used s ! i) [0..<MAX_SOCKETS] = first_free 0 MAX_SOCKETS (sock_used s)"
  unfolding first_free_def by (rule find_cong) (auto simp: sock_used_def)

lemma set_sock_inv:
  "net_inv s \<Longrightarrow> net_inv (s\<lparr>s_used := (s_used s)[i := b], s_socks := (s_socks s)[i := None]\<rparr>)"
  by (auto simp: net_inv_def dest!: set_update_subset_insert [THEN subsetD])

interpretation socks: slot_table 0 MAX_SOCKETS sock_used sock_alloc "\<lambda>i. sock_free (int i)" net_inv
proof
  fix s assume inv: "net_inv s"
  then have l: "length (s_used s) = MAX_SOCKETS" by (simp add: net_inv_def)
  show "case first_free 0 MAX_SOCKETS (sock_used s) of None \<Rightarrow> sock_alloc s = (- 1, s)
     | Some i \<Rightarrow> \<exists>t'. sock_alloc s = (int i, t') \<and> net_inv t' \<and> sock_used t' = (sock_used s)(i := True)"
    using set_sock_inv [OF inv] l
    by (auto simp: sock_alloc_def sock_alloc_first [OF inv] sock_used_def nth_list_update fun_eq_iff
        split: option.split dest: first_free_less)
  show "net_inv (sock_free (int i) s) \<and> sock_used (sock_free (int i) s) = (sock_used s)(i := False)" if "i < MAX_SOCKETS" for i
  proof -
    have e: "s\<lparr>s_socks := (s_socks s)[i := None], s_used := (s_used s)[i := False]\<rparr> =
        s\<lparr>s_used := (s_used s)[i := False], s_socks := (s_socks s)[i := None]\<rparr>" by (cases s) simp
    have "net_inv (s\<lparr>s_socks := (s_socks s)[i := None], s_used := (s_used s)[i := False]\<rparr>)"
      unfolding e by (rule set_sock_inv [OF inv])
    then show ?thesis using l that by (auto simp: sock_free_def sock_used_def nth_list_update fun_eq_iff)
  qed
qed

lemma tcp_recv_spec:
  assumes "net_inv s" "i < MAX_CONNS" "tc_state (s_conns s ! i) = TCP_ESTABLISHED"
  shows "\<exists>s'. tcp_recv (Some i) n s = (take n (rx_contents (s_conns s ! i)), s') \<and> net_inv s' \<and>
    s_socks s' = s_socks s \<and> rx_contents (s_conns s' ! i) = drop n (rx_contents (s_conns s ! i)) \<and>
    tc_state (s_conns s' ! i) = TCP_ESTABLISHED \<and> (\<forall>j. j \<noteq> i \<longrightarrow> s_conns s' ! j = s_conns s ! j)"
proof -
  have l: "i < length (s_conns s)" using inv_conns [OF assms(1)] assms(2) by simp
  obtain c' where c': "rxbuf_pop n (s_conns s ! i) = (take n (rx_contents (s_conns s ! i)), c')" "conn_inv c'"
    "rx_contents c' = drop n (rx_contents (s_conns s ! i))" "c' = (s_conns s ! i)\<lparr>rxbuf_head := rxbuf_head c'\<rparr>"
    using rxbuf_pop_spec [OF inv_conn [OF assms(1,2)]] by blast
  have "tc_state c' = tc_state (s_conns s ! i)" by (subst c'(4)) simp
  moreover have "net_inv (set_conn i (\<lambda>_. c') s)" using set_conn_inv [OF assms(1,2)] c'(2) by simp
  ultimately show ?thesis using c'(1,3) l assms(3) by (simp add: tcp_recv_def)
qed



end
