(* ===== verification/Blkdev.thy ===== *)
theory Blkdev
  imports Bytes
begin

text \<open>
  Block devices (\<^verbatim>\<open>kernel/block/blkdev.h\<close>) and the partition table (\<^verbatim>\<open>kernel/block/gpt.c\<close>).

  The driver behind a device is a pair of function pointers and is a parameter here: the
  contents of the 512-byte sectors, and for the \<open>n\<close>-th request whether it fails, and then
  after how many sectors.  So are the allocators the file system code asks for buffers:
  \<open>io_mem n\<close> tells whether the \<open>n\<close>-th request for memory is met.  The code relies on no
  more of them than that a request is met or refused; a buffer it gets is used and given back
  before the operation ends.
\<close>

record io =
  io_sec :: "u64 \<Rightarrow> bytes"
  io_fail :: "nat \<Rightarrow> nat option"
  io_n :: nat
  io_mem :: "nat \<Rightarrow> bool"
  io_req :: nat

definition mem_get :: "io \<Rightarrow> bool \<times> io" where
  "mem_get d = (io_mem d (io_req d), d\<lparr>io_req := Suc (io_req d)\<rparr>)"

definition blkdev_read :: "u64 \<Rightarrow> nat \<Rightarrow> io \<Rightarrow> bytes option \<times> io" where
  "blkdev_read lba count d = (case io_fail d (io_n d) of
     None \<Rightarrow> (Some (concat (map (\<lambda>i. io_sec d (lba + of_nat i)) [0..<count])), d\<lparr>io_n := Suc (io_n d)\<rparr>)
   | Some _ \<Rightarrow> (None, d\<lparr>io_n := Suc (io_n d)\<rparr>))"

fun put_sectors :: "u64 \<Rightarrow> nat \<Rightarrow> bytes \<Rightarrow> (u64 \<Rightarrow> bytes) \<Rightarrow> (u64 \<Rightarrow> bytes)" where
  "put_sectors lba 0 bs m = m"
| "put_sectors lba (Suc n) bs m = put_sectors (lba + 1) n (drop 512 bs) (m(lba := take 512 bs))"

definition blkdev_write :: "u64 \<Rightarrow> nat \<Rightarrow> bytes \<Rightarrow> io \<Rightarrow> bool \<times> io" where
  "blkdev_write lba count buf d = (case io_fail d (io_n d) of
     None \<Rightarrow> (True, d\<lparr>io_sec := put_sectors lba count buf (io_sec d), io_n := Suc (io_n d)\<rparr>)
   | Some k \<Rightarrow> (False, d\<lparr>io_sec := put_sectors lba (min k count) buf (io_sec d), io_n := Suc (io_n d)\<rparr>))"

subsection \<open>The partition table\<close>

definition GPT_SIGNATURE :: u64 where "GPT_SIGNATURE = 0x5452415020494645"

record gpt_header =
  gh_signature :: u64
  gh_partition_entry_lba :: u64
  gh_num_partition_entries :: u32
  gh_size_of_partition_entry :: u32

text \<open>The members of the header that are used, at their offsets in the packed structure.\<close>

definition gpt_header_at :: "bytes \<Rightarrow> gpt_header option" where
  "gpt_header_at p = do {
     sg \<leftarrow> slice 0 8 p; el \<leftarrow> slice 72 8 p; ne \<leftarrow> slice 80 4 p; es \<leftarrow> slice 84 4 p;
     Some \<lparr>gh_signature = le_word sg, gh_partition_entry_lba = le_word el, gh_num_partition_entries = le_word ne,
       gh_size_of_partition_entry = le_word es\<rparr> }"

record gpt_partition =
  first_lba :: u64
  last_lba :: u64

text \<open>
  The loop over the entries.  The array \<open>parts\<close> has \<open>max\<close> elements; \<open>buf\<close> is the sector read
  last.
\<close>

function gpt_entries :: "u64 \<Rightarrow> u32 \<Rightarrow> u32 \<Rightarrow> u32 \<Rightarrow> nat \<Rightarrow> bytes \<Rightarrow> gpt_partition list \<Rightarrow> io \<Rightarrow>
    (gpt_partition list \<times> io) option" where
  "gpt_entries entry_lba entry_size entry_count i mx buf parts d =
     (if i < entry_count \<and> length parts < mx then do {
        let per_sector = 512 div entry_size;
        let lba = entry_lba + ucast (i div per_sector);
        let slot = i mod per_sector;
        let (buf', d) = (if slot = 0 then blkdev_read lba 1 d else (Some buf, d));
        (case buf' of None \<Rightarrow> Some (parts, d)
         | Some buf \<Rightarrow> do {
             let e = unat (slot * entry_size);
             guid \<leftarrow> slice e 16 buf;
             if guid = replicate 16 0
             then gpt_entries entry_lba entry_size entry_count (i + 1) mx buf parts d
             else do {
               fl \<leftarrow> slice (e + 32) 8 buf;
               ll \<leftarrow> slice (e + 40) 8 buf;
               gpt_entries entry_lba entry_size entry_count (i + 1) mx buf
                 (parts @ [\<lparr>first_lba = le_word fl, last_lba = le_word ll\<rparr>]) d } }) }
      else Some (parts, d))"
  by pat_completeness auto
termination
  by (relation "measure (\<lambda>(el, es, ec, i, mx, b, p, d). unat (ec - i))") (auto intro: word_loop)

declare gpt_entries.simps [simp del]

definition gpt_read :: "nat \<Rightarrow> io \<Rightarrow> (gpt_partition list \<times> io) option" where
  "gpt_read mx d = (let (ok, d) = mem_get d in if \<not> ok then Some ([], d) else
     (let (r, d) = blkdev_read 1 1 d in case r of None \<Rightarrow> Some ([], d) | Some buf \<Rightarrow> do {
        hdr \<leftarrow> gpt_header_at buf;
        if gh_signature hdr \<noteq> GPT_SIGNATURE then Some ([], d) else do {
          let entry_size = gh_size_of_partition_entry hdr;
          let entry_count = gh_num_partition_entries hdr;
          if entry_size < 128 \<or> entry_size > 512 \<or> 512 mod entry_size \<noteq> 0 \<or> entry_count > 4096 then Some ([], d)
          else gpt_entries (gh_partition_entry_lba hdr) entry_size entry_count 0 mx buf [] d } }))"

text \<open>Sectors hold 512 bytes.\<close>

definition io_inv :: "io \<Rightarrow> bool" where
  "io_inv d \<longleftrightarrow> (\<forall>l. length (io_sec d l) = 512)"

lemma mem_get_sec [simp]: "mem_get d = (ok, d') \<Longrightarrow> io_sec d' = io_sec d"
  by (auto simp: mem_get_def)

lemma length_read:
  "io_inv d \<Longrightarrow> blkdev_read lba n d = (Some b, d') \<Longrightarrow> length b = 512 * n"
  by (auto simp: blkdev_read_def io_inv_def length_concat o_def sum_list_triv split: option.splits)

lemma read_sec: "blkdev_read lba n d = (r, d') \<Longrightarrow> io_sec d' = io_sec d"
  by (auto simp: blkdev_read_def split: option.splits)

text \<open>The entries of a sector lie inside the sector.\<close>

lemma gpt_slot:
  fixes es i :: u32
  assumes "128 \<le> es" "es \<le> 512"
  shows "unat ((i mod (512 div es)) * es) + 128 \<le> 512"
proof -
  let ?e = "unat es" and ?s = "unat (i mod (512 div es))"
  have e: "128 \<le> ?e" "?e \<le> 512" using assms by (simp_all add: word_le_nat_alt)
  have "0 < 512 div ?e" using e by (simp add: div_greater_zero_iff)
  then have "?s < 512 div ?e" by (simp add: unat_mod unat_div)
  then have "?s + 1 \<le> 512 div ?e" by simp
  then have "(?s + 1) * ?e \<le> 512 div ?e * ?e" by (intro mult_le_mono1)
  also have "\<dots> \<le> 512" by simp
  finally have l: "?s * ?e + ?e \<le> 512" by simp
  then have "unat ((i mod (512 div es)) * es) = ?s * ?e" by (intro unat_mult_lem [THEN iffD1]) simp
  then show ?thesis using l e by simp
qed

lemma gpt_entries_ok:
  assumes "io_inv d" "128 \<le> es" "es \<le> 512" "length buf = 512" "length parts \<le> mx"
  shows "\<exists>ps d'. gpt_entries el es ec i mx buf parts d = Some (ps, d') \<and> length ps \<le> mx \<and> io_sec d' = io_sec d"
  using assms
proof (induction el es ec i mx buf parts d rule: gpt_entries.induct)
  case (1 el es ec i mx buf parts d)
  show ?case
  proof (cases "i < ec \<and> length parts < mx")
    case False
    then show ?thesis using "1.prems" by (subst gpt_entries.simps) auto
  next
    case True
    let ?slot = "i mod (512 div es)"
    define e where "e = unat (?slot * es)"
    obtain b d1 where b: "(if ?slot = 0 then blkdev_read (el + ucast (i div (512 div es))) 1 d else (Some buf, d)) = (b, d1)"
      by fastforce
    have d1: "io_sec d1 = io_sec d" using b by (auto split: if_splits dest: read_sec)
    show ?thesis
    proof (cases b)
      case None
      then show ?thesis using True b d1 "1.prems"(5) by (subst gpt_entries.simps) simp
    next
      case (Some buf1)
      have l: "length buf1 = 512"
        using b Some "1.prems"(1,4) length_read [of d _ 1 buf1 d1] by (auto split: if_splits)
      have inv1: "io_inv d1" using "1.prems"(1) d1 by (simp add: io_inv_def)
      have e: "e + 128 \<le> 512" unfolding e_def by (rule gpt_slot [OF "1.prems"(2,3)])
      let ?g = "take 16 (drop e buf1)" and ?f = "take 8 (drop (e + 32) buf1)" and ?l = "take 8 (drop (e + 40) buf1)"
      have sl: "slice e 16 buf1 = Some ?g" "slice (e + 32) 8 buf1 = Some ?f" "slice (e + 40) 8 buf1 = Some ?l"
        using e l by (simp_all add: slice_def)
      let ?p = "if ?g = replicate 16 0 then parts else parts @ [\<lparr>first_lba = le_word ?f, last_lba = le_word ?l\<rparr>]"
      have eq: "gpt_entries el es ec i mx buf parts d = gpt_entries el es ec (i + 1) mx buf1 ?p d1"
        using True b Some sl unfolding e_def by (subst gpt_entries.simps) (simp add: Let_def)
      have "\<exists>ps d'. gpt_entries el es ec (i + 1) mx buf1 ?p d1 = Some (ps, d') \<and> length ps \<le> mx \<and> io_sec d' = io_sec d1"
      proof (cases "?g = replicate 16 0")
        case z: True
        then show ?thesis
          using "1.IH"(1) [OF True refl refl refl b [symmetric] refl Some e_def _ z inv1 "1.prems"(2,3) l "1.prems"(5)] sl(1)
          by simp
      next
        case z: False
        then show ?thesis
          using "1.IH"(2) [OF True refl refl refl b [symmetric] refl Some e_def _ z _ _ inv1 "1.prems"(2,3) l] sl True
          by simp
      qed
      then show ?thesis unfolding eq using d1 by auto
    qed
  qed
qed

text \<open>The partitions a table lists.\<close>

definition gpt_entry :: "(u64 \<Rightarrow> bytes) \<Rightarrow> u64 \<Rightarrow> u32 \<Rightarrow> nat \<Rightarrow> gpt_partition option" where
  "gpt_entry sec el es i =
     (let e = drop ((i mod (512 div unat es)) * unat es) (sec (el + of_nat (i div (512 div unat es))))
      in if take 16 e = replicate 16 0 then None
         else Some \<lparr>first_lba = le_word (take 8 (drop 32 e)), last_lba = le_word (take 8 (drop 40 e))\<rparr>)"

definition gpt_table :: "(u64 \<Rightarrow> bytes) \<Rightarrow> u64 \<Rightarrow> u32 \<Rightarrow> nat \<Rightarrow> nat \<Rightarrow> gpt_partition list" where
  "gpt_table sec el es i n = List.map_filter (gpt_entry sec el es) [i..<n]"

lemma gpt_table_step:
  "i < n \<Longrightarrow> gpt_table sec el es i n =
    (case gpt_entry sec el es i of None \<Rightarrow> [] | Some p \<Rightarrow> [p]) @ gpt_table sec el es (Suc i) n"
  by (simp add: gpt_table_def upt_conv_Cons List.map_filter_simps split: option.split)

lemma gpt_table_end [simp]: "n \<le> i \<Longrightarrow> gpt_table sec el es i n = []"
  by (simp add: gpt_table_def List.map_filter_simps)

lemma gpt_slot_nat:
  fixes es i :: u32
  assumes "128 \<le> es" "es \<le> 512"
  shows "unat ((i mod (512 div es)) * es) = (unat i mod (512 div unat es)) * unat es"
    "ucast (i div (512 div es)) = (of_nat (unat i div (512 div unat es)) :: u64)"
proof -
  let ?e = "unat es" and ?s = "unat (i mod (512 div es))"
  have e: "128 \<le> ?e" "?e \<le> 512" using assms by (simp_all add: word_le_nat_alt)
  have "0 < 512 div ?e" using e by (simp add: div_greater_zero_iff)
  then have "?s < 512 div ?e" by (simp add: unat_mod unat_div)
  then have "(?s + 1) * ?e \<le> 512 div ?e * ?e" by (intro mult_le_mono1) simp
  also have "\<dots> \<le> 512" by simp
  finally have "?s * ?e < 2 ^ LENGTH(32)" by simp
  then show "unat ((i mod (512 div es)) * es) = (unat i mod (512 div unat es)) * unat es"
    by (subst unat_mult_lem [THEN iffD1]) (simp_all add: unat_mod unat_div)
  have "ucast (i div (512 div es)) = (of_nat (unat (i div (512 div es))) :: u64)"
    by simp
  then show "ucast (i div (512 div es)) = (of_nat (unat i div (512 div unat es)) :: u64)"
    by (simp only: unat_div unat_numeral) simp
qed

lemma gpt_entries_all:
  assumes "io_inv d" "128 \<le> es" "es \<le> 512" "length buf = 512" "io_fail d = (\<lambda>_. None)" "length parts \<le> mx"
    "unat i mod (512 div unat es) \<noteq> 0 \<Longrightarrow> buf = io_sec d (el + of_nat (unat i div (512 div unat es)))"
  shows "\<exists>d'. gpt_entries el es ec i mx buf parts d =
    Some (take mx (parts @ gpt_table (io_sec d) el es (unat i) (unat ec)), d')"
  using assms
proof (induction el es ec i mx buf parts d rule: gpt_entries.induct)
  case (1 el es ec i mx buf parts d)
  note pr = "1.prems"
  show ?case
  proof (cases "i < ec \<and> length parts < mx")
    case False
    then have "take mx (parts @ gpt_table (io_sec d) el es (unat i) (unat ec)) = parts"
      using pr(6) by (auto simp: word_less_nat_alt not_less)
    then show ?thesis using False by (subst gpt_entries.simps) auto
  next
    case True
    then have lt: "unat i < unat ec" by (simp add: word_less_nat_alt)
    let ?slot = "i mod (512 div es)" and ?k = "unat i" and ?per = "512 div unat es"
    define e where "e = unat (?slot * es)"
    note nn = gpt_slot_nat [OF pr(2,3), of i]
    let ?buf = "io_sec d (el + of_nat (?k div ?per))"
    obtain b d1 where b: "(if ?slot = 0 then blkdev_read (el + ucast (i div (512 div es))) 1 d else (Some buf, d)) = (b, d1)"
      by fastforce
    have z: "?slot = 0 \<longleftrightarrow> ?k mod ?per = 0" by (simp add: word_unat_eq_iff unat_mod unat_div)
    have bd: "b = Some ?buf" "io_sec d1 = io_sec d" "io_fail d1 = (\<lambda>_. None)"
      using b pr(5,7) z nn(2) by (auto simp: blkdev_read_def split: if_splits)
    have l: "length ?buf = 512" and inv1: "io_inv d1" using pr(1) bd(2) by (simp_all add: io_inv_def)
    have e: "e + 128 \<le> 512" unfolding e_def by (rule gpt_slot [OF pr(2,3)])
    have ee: "e = (?k mod ?per) * unat es" unfolding e_def by (rule nn(1))
    let ?g = "take 16 (drop e ?buf)" and ?f = "take 8 (drop (e + 32) ?buf)" and ?l = "take 8 (drop (e + 40) ?buf)"
    have sl: "slice e 16 ?buf = Some ?g" "slice (e + 32) 8 ?buf = Some ?f" "slice (e + 40) 8 ?buf = Some ?l"
      using e l by (simp_all add: slice_def)
    define p where "p = (if ?g = replicate 16 0 then [] else [\<lparr>first_lba = le_word ?f, last_lba = le_word ?l\<rparr>])"
    have ent: "p = (case gpt_entry (io_sec d) el es ?k of None \<Rightarrow> [] | Some q \<Rightarrow> [q])"
      by (simp add: p_def gpt_entry_def ee Let_def add.commute)
    have eq: "gpt_entries el es ec i mx buf parts d = gpt_entries el es ec (i + 1) mx ?buf (parts @ p) d1"
      using True b bd(1) sl unfolding e_def p_def by (subst gpt_entries.simps) (simp add: Let_def)
    have S: "unat (i + 1) = Suc ?k" using True by (intro unat_Suc_of_less [of i ec]) simp
    have nx: "unat (i + 1) mod ?per \<noteq> 0 \<Longrightarrow> ?buf = io_sec d1 (el + of_nat (unat (i + 1) div ?per))"
      unfolding S bd(2) by (simp add: mod_Suc div_Suc split: if_splits)
    have "\<exists>d'. gpt_entries el es ec (i + 1) mx ?buf (parts @ p) d1 =
        Some (take mx ((parts @ p) @ gpt_table (io_sec d1) el es (unat (i + 1)) (unat ec)), d')"
    proof (cases "?g = replicate 16 0")
      case zz: True
      then show ?thesis
        using "1.IH"(1) [OF True refl refl refl b [symmetric] refl bd(1) e_def _ zz inv1 pr(2,3) l bd(3) pr(6) nx] sl(1)
        by (simp add: p_def)
    next
      case zz: False
      then show ?thesis
        using "1.IH"(2) [OF True refl refl refl b [symmetric] refl bd(1) e_def _ zz _ _ inv1 pr(2,3) l bd(3) _ nx] sl True
        by (simp add: p_def)
    qed
    then show ?thesis unfolding eq S bd(2) gpt_table_step [OF lt] ent by simp
  qed
qed

definition gpt_valid :: "gpt_header \<Rightarrow> bool" where
  "gpt_valid h \<longleftrightarrow> gh_signature h = GPT_SIGNATURE \<and> 128 \<le> gh_size_of_partition_entry h \<and> gh_size_of_partition_entry h \<le> 512 \<and>
     512 mod gh_size_of_partition_entry h = 0 \<and> gh_num_partition_entries h \<le> 4096"

lemma gpt_valid_iff: "gh_signature h = GPT_SIGNATURE \<Longrightarrow>
    (gh_size_of_partition_entry h < 128 \<or> gh_size_of_partition_entry h > 512 \<or>
      512 mod gh_size_of_partition_entry h \<noteq> 0 \<or> gh_num_partition_entries h > 4096) = (\<not> gpt_valid h)"
  unfolding gpt_valid_def not_less [symmetric] by argo

lemma gpt_read_spec:
  assumes "io_inv d"
  shows "\<exists>ps d' h. gpt_read mx d = Some (ps, d') \<and> length ps \<le> mx \<and> io_sec d' = io_sec d \<and>
    gpt_header_at (io_sec d 1) = Some h \<and>
    (io_mem d = (\<lambda>_. True) \<and> io_fail d = (\<lambda>_. None) \<longrightarrow> ps = (if gpt_valid h
       then take mx (gpt_table (io_sec d) (gh_partition_entry_lba h) (gh_size_of_partition_entry h) 0 (unat (gh_num_partition_entries h)))
       else []))"
proof -
  obtain ok d1 where m: "mem_get d = (ok, d1)" by fastforce
  obtain r d2 where r: "blkdev_read 1 1 d1 = (r, d2)" by fastforce
  have s: "io_sec d1 = io_sec d" "io_sec d2 = io_sec d" using mem_get_sec [OF m] read_sec [OF r] by simp_all
  then have inv: "io_inv d1" "io_inv d2" using assms by (simp_all add: io_inv_def)
  have l: "length (io_sec d 1) = 512" using assms by (simp add: io_inv_def)
  then obtain h where h: "gpt_header_at (io_sec d 1) = Some h" by (simp add: gpt_header_at_def slice_def)
  have k: "ok \<and> r = Some (io_sec d 1) \<and> io_fail d2 = (\<lambda>_. None)" if "io_mem d = (\<lambda>_. True)" "io_fail d = (\<lambda>_. None)"
  proof -
    have d1: "ok = io_mem d (io_req d)" "d1 = d\<lparr>io_req := Suc (io_req d)\<rparr>" 
      using m unfolding mem_get_def prod.inject by blast+
    then have "blkdev_read 1 1 d1 = (Some (io_sec d 1), d1\<lparr>io_n := Suc (io_n d1)\<rparr>)"
      using that(2) by (simp add: blkdev_read_def)
    then show ?thesis using r d1(1) that(1) by (auto simp: d1(2) that(2))
  qed
  show ?thesis
  proof (cases "ok \<and> r \<noteq> None")
    case False
    then show ?thesis using m r s h k by (auto simp: gpt_read_def)
  next
    case True
    then have buf: "r = Some (io_sec d 1)" using r s by (auto simp: blkdev_read_def split: option.splits)
    have q: "gpt_read mx d = (if gpt_valid h then gpt_entries (gh_partition_entry_lba h) (gh_size_of_partition_entry h)
        (gh_num_partition_entries h) 0 mx (io_sec d 1) [] d2 else Some ([], d2))"
    proof (cases "gh_signature h = GPT_SIGNATURE")
      case sg: True
      show ?thesis
        using True m r buf h sg gpt_valid_iff [OF sg] by (cases "gpt_valid h") (simp_all add: gpt_read_def Let_def)
    next
      case False
      then show ?thesis using True m r buf h by (simp add: gpt_read_def gpt_valid_def)
    qed
    show ?thesis
    proof (cases "gpt_valid h")
      case False
      then show ?thesis using q s h by auto
    next
      case v: True
      then have v': "128 \<le> gh_size_of_partition_entry h" "gh_size_of_partition_entry h \<le> 512" by (simp_all add: gpt_valid_def)
      obtain ps d' where ps: "gpt_read mx d = Some (ps, d')" "length ps \<le> mx" "io_sec d' = io_sec d"
        using gpt_entries_ok [OF inv(2) v' l, of "[]" mx "gh_partition_entry_lba h" "gh_num_partition_entries h" 0] q v s by auto
      have "ps = take mx (gpt_table (io_sec d) (gh_partition_entry_lba h) (gh_size_of_partition_entry h) 0
          (unat (gh_num_partition_entries h)))" if "io_mem d = (\<lambda>_. True)" "io_fail d = (\<lambda>_. None)"
        using gpt_entries_all [OF inv(2) v' l, of "[]" mx 0 "gh_partition_entry_lba h" "gh_num_partition_entries h"]
          k [OF that] q v s ps(1) by auto
      then show ?thesis using ps h v by auto
    qed
  qed
qed

text \<open>
  C24: Reading the partition table never reads outside the sector buffer nor writes outside the
  array of the caller, whatever the disk holds and whichever requests fail, and it does not
  change the disk.  When no request fails it returns the first entries in use of a valid
  table, up to the number asked for, and nothing for an invalid one.
\<close>

theorem gpt_read_correct:
  assumes "io_inv d"
  shows "\<exists>ps d' h. gpt_read mx d = Some (ps, d') \<and> length ps \<le> mx \<and> io_sec d' = io_sec d \<and>
    gpt_header_at (io_sec d 1) = Some h \<and>
    (io_mem d = (\<lambda>_. True) \<and> io_fail d = (\<lambda>_. None) \<longrightarrow> ps = (if gpt_valid h
       then take mx (gpt_table (io_sec d) (gh_partition_entry_lba h) (gh_size_of_partition_entry h) 0 (unat (gh_num_partition_entries h)))
       else []))"
  by (rule gpt_read_spec [OF assms])

definition io_ex :: "(nat \<Rightarrow> nat option) \<Rightarrow> io" where
  "io_ex f = \<lparr>io_sec = (\<lambda>_. replicate 512 0), io_fail = f, io_n = 0, io_mem = (\<lambda>_. True), io_req = 0\<rparr>"

lemma io_ex_inv: "io_inv (io_ex f)"
  by (simp add: io_inv_def io_ex_def)

theorem gpt_read_correct_witness:
  "io_inv (io_ex (\<lambda>_. None)) \<and> (\<exists>ps d'. gpt_read 4 (io_ex (\<lambda>_. None)) = Some (ps, d') \<and> length ps \<le> 4)"
  using gpt_read_correct [OF io_ex_inv, of 4 "\<lambda>_. None"] io_ex_inv by blast

end
