(* ===== verification/Ext2.thy ===== *)
theory Ext2
  imports Blkdev
begin

text \<open>
  The ext2 file system (\<^verbatim>\<open>kernel/fs/ext2.c\<close>): structures on disk, block input and output,
  inodes, group descriptors and the allocation of blocks and inodes.

  The state is \<open>struct ext2_fs\<close> together with the device and the memory requests (\<open>fs_io\<close>).
  A division by zero and an access outside a buffer are \<open>None\<close>; the failures the code handles
  are values.  A page or buffer that is requested and released within an operation appears as the
  request, which may be refused.
\<close>

subsection \<open>Structures on disk\<close>

definition EXT2_SUPER_MAGIC :: u16 where "EXT2_SUPER_MAGIC = 0xef53"
definition EXT2_ROOT_INO :: u32 where "EXT2_ROOT_INO = 2"
definition EXT2_IMODE_REG :: u16 where "EXT2_IMODE_REG = 0x8000"
definition EXT2_IMODE_DIR :: u16 where "EXT2_IMODE_DIR = 0x4000"

text \<open>
  Of the superblock the 1024 bytes on disk.  The C structure has two more at its end, which are
  neither read from nor written to the disk.
\<close>

record ext2_super =
  s_inodes_count :: u32
  s_blocks_count :: u32
  s_r_blocks_count :: u32
  s_free_blocks_count :: u32
  s_free_inodes_count :: u32
  s_first_data_block :: u32
  s_log_block_size :: u32
  s_log_frag_size :: u32
  s_blocks_per_group :: u32
  s_frags_per_group :: u32
  s_inodes_per_group :: u32
  s_mtime :: u32
  s_wtime :: u32
  s_mnt_count :: u16
  s_max_mnt_count :: u16
  s_magic :: u16
  s_state :: u16
  s_errors :: u16
  s_minor_rev_level :: u16
  s_lastcheck :: u32
  s_checkinterval :: u32
  s_creator_os :: u32
  s_rev_level :: u32
  s_def_resuid :: u16
  s_def_resgid :: u16
  s_first_ino :: u32
  s_inode_size :: u16
  s_pad :: bytes

definition super_of :: "bytes \<Rightarrow> ext2_super" where
  "super_of b = \<lparr>s_inodes_count = fld 0 4 b, s_blocks_count = fld 4 4 b, s_r_blocks_count = fld 8 4 b,
     s_free_blocks_count = fld 12 4 b, s_free_inodes_count = fld 16 4 b, s_first_data_block = fld 20 4 b,
     s_log_block_size = fld 24 4 b, s_log_frag_size = fld 28 4 b, s_blocks_per_group = fld 32 4 b,
     s_frags_per_group = fld 36 4 b, s_inodes_per_group = fld 40 4 b, s_mtime = fld 44 4 b, s_wtime = fld 48 4 b,
     s_mnt_count = fld 52 2 b, s_max_mnt_count = fld 54 2 b, s_magic = fld 56 2 b, s_state = fld 58 2 b,
     s_errors = fld 60 2 b, s_minor_rev_level = fld 62 2 b, s_lastcheck = fld 64 4 b, s_checkinterval = fld 68 4 b,
     s_creator_os = fld 72 4 b, s_rev_level = fld 76 4 b, s_def_resuid = fld 80 2 b, s_def_resgid = fld 82 2 b,
     s_first_ino = fld 84 4 b, s_inode_size = fld 88 2 b, s_pad = take 934 (drop 90 b)\<rparr>"

definition super_bytes :: "ext2_super \<Rightarrow> bytes" where
  "super_bytes s = le_bytes 4 (s_inodes_count s) @ le_bytes 4 (s_blocks_count s) @ le_bytes 4 (s_r_blocks_count s) @
     le_bytes 4 (s_free_blocks_count s) @ le_bytes 4 (s_free_inodes_count s) @ le_bytes 4 (s_first_data_block s) @
     le_bytes 4 (s_log_block_size s) @ le_bytes 4 (s_log_frag_size s) @ le_bytes 4 (s_blocks_per_group s) @
     le_bytes 4 (s_frags_per_group s) @ le_bytes 4 (s_inodes_per_group s) @ le_bytes 4 (s_mtime s) @
     le_bytes 4 (s_wtime s) @ le_bytes 2 (s_mnt_count s) @ le_bytes 2 (s_max_mnt_count s) @ le_bytes 2 (s_magic s) @
     le_bytes 2 (s_state s) @ le_bytes 2 (s_errors s) @ le_bytes 2 (s_minor_rev_level s) @ le_bytes 4 (s_lastcheck s) @
     le_bytes 4 (s_checkinterval s) @ le_bytes 4 (s_creator_os s) @ le_bytes 4 (s_rev_level s) @
     le_bytes 2 (s_def_resuid s) @ le_bytes 2 (s_def_resgid s) @ le_bytes 4 (s_first_ino s) @
     le_bytes 2 (s_inode_size s) @ s_pad s"

record ext2_bgd =
  bg_block_bitmap :: u32
  bg_inode_bitmap :: u32
  bg_inode_table :: u32
  bg_free_blocks_count :: u16
  bg_free_inodes_count :: u16
  bg_used_dirs_count :: u16
  bg_pad :: u16
  bg_reserved :: bytes

definition bgd_of :: "bytes \<Rightarrow> ext2_bgd" where
  "bgd_of b = \<lparr>bg_block_bitmap = fld 0 4 b, bg_inode_bitmap = fld 4 4 b, bg_inode_table = fld 8 4 b,
     bg_free_blocks_count = fld 12 2 b, bg_free_inodes_count = fld 14 2 b, bg_used_dirs_count = fld 16 2 b,
     bg_pad = fld 18 2 b, bg_reserved = take 12 (drop 20 b)\<rparr>"

definition bgd_bytes :: "ext2_bgd \<Rightarrow> bytes" where
  "bgd_bytes g = le_bytes 4 (bg_block_bitmap g) @ le_bytes 4 (bg_inode_bitmap g) @ le_bytes 4 (bg_inode_table g) @
     le_bytes 2 (bg_free_blocks_count g) @ le_bytes 2 (bg_free_inodes_count g) @ le_bytes 2 (bg_used_dirs_count g) @
     le_bytes 2 (bg_pad g) @ bg_reserved g"

record ext2_inode =
  i_mode :: u16
  i_uid :: u16
  i_size :: u32
  i_atime :: u32
  i_ctime :: u32
  i_mtime :: u32
  i_dtime :: u32
  i_gid :: u16
  i_links_count :: u16
  i_blocks :: u32
  i_flags :: u32
  i_osd1 :: u32
  i_block :: "u32 list"
  i_generation :: u32
  i_file_acl :: u32
  i_dir_acl :: u32
  i_faddr :: u32
  i_osd2 :: bytes

definition inode_of :: "bytes \<Rightarrow> ext2_inode" where
  "inode_of b = \<lparr>i_mode = fld 0 2 b, i_uid = fld 2 2 b, i_size = fld 4 4 b, i_atime = fld 8 4 b, i_ctime = fld 12 4 b,
     i_mtime = fld 16 4 b, i_dtime = fld 20 4 b, i_gid = fld 24 2 b, i_links_count = fld 26 2 b, i_blocks = fld 28 4 b,
     i_flags = fld 32 4 b, i_osd1 = fld 36 4 b, i_block = map (\<lambda>k. fld (40 + 4 * k) 4 b) [0..<15],
     i_generation = fld 100 4 b, i_file_acl = fld 104 4 b, i_dir_acl = fld 108 4 b, i_faddr = fld 112 4 b,
     i_osd2 = take 12 (drop 116 b)\<rparr>"

definition inode_bytes :: "ext2_inode \<Rightarrow> bytes" where
  "inode_bytes i = le_bytes 2 (i_mode i) @ le_bytes 2 (i_uid i) @ le_bytes 4 (i_size i) @ le_bytes 4 (i_atime i) @
     le_bytes 4 (i_ctime i) @ le_bytes 4 (i_mtime i) @ le_bytes 4 (i_dtime i) @ le_bytes 2 (i_gid i) @
     le_bytes 2 (i_links_count i) @ le_bytes 4 (i_blocks i) @ le_bytes 4 (i_flags i) @ le_bytes 4 (i_osd1 i) @
     concat (map (le_bytes 4) (i_block i)) @ le_bytes 4 (i_generation i) @ le_bytes 4 (i_file_acl i) @
     le_bytes 4 (i_dir_acl i) @ le_bytes 4 (i_faddr i) @ i_osd2 i"

subsection \<open>Block input and output\<close>

record ext2_fs =
  fs_io :: io
  part_lba :: u64
  block_size :: u32
  inodes_per_group :: u32
  blocks_per_group :: u32
  inode_size :: u32
  first_data_block :: u32
  bgd_block :: u64
  scratch :: bytes
  cached_sb :: ext2_super

definition udiv :: "u32 \<Rightarrow> u32 \<Rightarrow> u32 option" where
  "udiv a b = (if b = 0 then None else Some (a div b))"

definition umod :: "u32 \<Rightarrow> u32 \<Rightarrow> u32 option" where
  "umod a b = (if b = 0 then None else Some (a mod b))"

definition kmalloc_buf :: "ext2_fs \<Rightarrow> bool \<times> ext2_fs" where
  "kmalloc_buf s = (let (ok, d) = mem_get (fs_io s) in (ok, s\<lparr>fs_io := d\<rparr>))"

function read_sectors :: "u64 \<Rightarrow> nat \<Rightarrow> nat \<Rightarrow> bytes \<Rightarrow> io \<Rightarrow> bytes option \<times> io" where
  "read_sectors lba secs k acc d = (if k < secs then
     (let batch = (if secs - k > 8 then 8 else secs - k);
          (r, d) = blkdev_read (lba + of_nat k) batch d
      in case r of None \<Rightarrow> (None, d) | Some b \<Rightarrow> read_sectors lba secs (k + 8) (acc @ b) d)
     else (Some acc, d))"
  by pat_completeness auto
termination by (relation "measure (\<lambda>(lba, secs, k, acc, d). secs - k)") auto

definition read_block :: "u32 \<Rightarrow> ext2_fs \<Rightarrow> bytes option \<times> ext2_fs" where
  "read_block block_no s =
     (let secs_per_block = block_size s div 512;
          lba = part_lba s + ucast block_no * ucast secs_per_block;
          (ok, s) = kmalloc_buf s
      in if \<not> ok then (None, s)
         else (let (r, d) = read_sectors lba (unat secs_per_block) 0 [] (fs_io s)
               in (map_option (take (unat (block_size s))) r, s\<lparr>fs_io := d\<rparr>)))"

function write_sectors :: "u64 \<Rightarrow> nat \<Rightarrow> nat \<Rightarrow> bytes \<Rightarrow> io \<Rightarrow> bool \<times> io" where
  "write_sectors lba secs k buf d = (if k < secs then
     (let batch = (if secs - k > 8 then 8 else secs - k);
          (ok, d) = blkdev_write (lba + of_nat k) batch (drop (k * 512) buf) d
      in if \<not> ok then (False, d) else write_sectors lba secs (k + 8) buf d)
     else (True, d))"
  by pat_completeness auto
termination by (relation "measure (\<lambda>(lba, secs, k, buf, d). secs - k)") auto

declare read_sectors.simps [simp del] write_sectors.simps [simp del]

definition write_block :: "u32 \<Rightarrow> bytes \<Rightarrow> ext2_fs \<Rightarrow> bool \<times> ext2_fs" where
  "write_block block_no buf s =
     (let secs_per_block = block_size s div 512;
          lba = part_lba s + ucast block_no * ucast secs_per_block;
          (ok, s) = kmalloc_buf s
      in if \<not> ok then (False, s)
         else (let (ok, d) = write_sectors lba (unat secs_per_block) 0 buf (fs_io s) in (ok, s\<lparr>fs_io := d\<rparr>)))"

definition write_super :: "ext2_fs \<Rightarrow> bool \<times> ext2_fs" where
  "write_super s =
     (let (ok, s) = kmalloc_buf s
      in if \<not> ok then (False, s)
         else (let (ok, d) = blkdev_write (part_lba s + 2) 2 (super_bytes (cached_sb s)) (fs_io s) in (ok, s\<lparr>fs_io := d\<rparr>)))"

subsection \<open>Inodes and group descriptors\<close>

definition read_inode :: "u32 \<Rightarrow> ext2_fs \<Rightarrow> (ext2_inode option \<times> ext2_fs) option" where
  "read_inode ino s = (if ino = 0 then Some (None, s) else do {
     group \<leftarrow> udiv (ino - 1) (inodes_per_group s);
     index \<leftarrow> umod (ino - 1) (inodes_per_group s);
     let bgds_per_block = block_size s div 32;
     bgd_blk_offset \<leftarrow> udiv group bgds_per_block;
     bgd_entry_slot \<leftarrow> umod group bgds_per_block;
     let (r, s) = read_block (ucast (bgd_block s) + bgd_blk_offset) s;
     (case r of None \<Rightarrow> Some (None, s) | Some tmp \<Rightarrow> do {
        let s = s\<lparr>scratch := tmp\<rparr>;
        b \<leftarrow> slice (unat (bgd_entry_slot * 32)) 32 tmp;
        inodes_per_block \<leftarrow> udiv (block_size s) (inode_size s);
        q \<leftarrow> udiv index inodes_per_block;
        inode_slot \<leftarrow> umod index inodes_per_block;
        let (r, s) = read_block (bg_inode_table (bgd_of b) + q) s;
        (case r of None \<Rightarrow> Some (None, s) | Some tmp \<Rightarrow> do {
           let s = s\<lparr>scratch := tmp\<rparr>;
           b \<leftarrow> slice (unat (inode_slot * inode_size s)) 128 tmp;
           Some (Some (inode_of b), s) }) }) })"

definition write_inode :: "u32 \<Rightarrow> ext2_inode \<Rightarrow> ext2_fs \<Rightarrow> (bool \<times> ext2_fs) option" where
  "write_inode ino inode s = (if ino = 0 then Some (False, s) else do {
     group \<leftarrow> udiv (ino - 1) (inodes_per_group s);
     index \<leftarrow> umod (ino - 1) (inodes_per_group s);
     let bgds_per_block = block_size s div 32;
     bgd_blk_offset \<leftarrow> udiv group bgds_per_block;
     bgd_entry_slot \<leftarrow> umod group bgds_per_block;
     let (ok, s) = kmalloc_buf s;
     if \<not> ok then Some (False, s) else do {
       let (r, s) = read_block (ucast (bgd_block s) + bgd_blk_offset) s;
       (case r of None \<Rightarrow> Some (False, s) | Some tmp \<Rightarrow> do {
          b \<leftarrow> slice (unat (bgd_entry_slot * 32)) 32 tmp;
          inodes_per_block \<leftarrow> udiv (block_size s) (inode_size s);
          q \<leftarrow> udiv index inodes_per_block;
          inode_slot \<leftarrow> umod index inodes_per_block;
          let inode_block = bg_inode_table (bgd_of b) + q;
          let (r, s) = read_block inode_block s;
          (case r of None \<Rightarrow> Some (False, s) | Some tmp \<Rightarrow> do {
             tmp \<leftarrow> put (unat (inode_slot * inode_size s)) (inode_bytes inode) tmp;
             Some (write_block inode_block tmp s) }) }) } })"

definition read_bgd :: "u32 \<Rightarrow> ext2_fs \<Rightarrow> (ext2_bgd option \<times> ext2_fs) option" where
  "read_bgd g s = do {
     let bgds_per_block = block_size s div 32;
     q \<leftarrow> udiv g bgds_per_block;
     slot \<leftarrow> umod g bgds_per_block;
     let (r, s) = read_block (ucast (bgd_block s) + q) s;
     (case r of None \<Rightarrow> Some (None, s) | Some tmp \<Rightarrow> do {
        let s = s\<lparr>scratch := tmp\<rparr>;
        b \<leftarrow> slice (unat (slot * 32)) 32 tmp;
        Some (Some (bgd_of b), s) }) }"

definition write_bgd :: "u32 \<Rightarrow> ext2_bgd \<Rightarrow> ext2_fs \<Rightarrow> (bool \<times> ext2_fs) option" where
  "write_bgd g bgd s = do {
     let bgds_per_block = block_size s div 32;
     q \<leftarrow> udiv g bgds_per_block;
     slot \<leftarrow> umod g bgds_per_block;
     let blk = ucast (bgd_block s) + q;
     let (ok, s) = kmalloc_buf s;
     if \<not> ok then Some (False, s) else do {
       let (r, s) = read_block blk s;
       (case r of None \<Rightarrow> Some (False, s) | Some tmp \<Rightarrow> do {
          tmp \<leftarrow> put (unat (slot * 32)) (bgd_bytes bgd) tmp;
          Some (write_block blk tmp s) }) } }"

subsection \<open>Allocation\<close>

function find_clear :: "u32 \<Rightarrow> bytes \<Rightarrow> u32 \<Rightarrow> u32 option option" where
  "find_clear n bmap i = (if i < n then do {
     b \<leftarrow> rd8 bmap (unat (i div 8));
     if \<not> bit b (unat (i mod 8)) then Some (Some i) else find_clear n bmap (i + 1) }
     else Some None)"
  by pat_completeness auto
termination by (relation "measure (\<lambda>(n, bmap, i). unat (n - i))") (auto intro: word_loop)

declare find_clear.simps [simp del]

definition bmap_set :: "u32 \<Rightarrow> bytes \<Rightarrow> bytes option" where
  "bmap_set k bmap = do {
     b \<leftarrow> rd8 bmap (unat (k div 8));
     Some (bmap[unat (k div 8) := b OR push_bit (unat (k mod 8)) 1]) }"

definition bmap_clear :: "u32 \<Rightarrow> bytes \<Rightarrow> bytes option" where
  "bmap_clear k bmap = do {
     b \<leftarrow> rd8 bmap (unat (k div 8));
     Some (bmap[unat (k div 8) := b AND NOT (push_bit (unat (k mod 8)) 1)]) }"

text \<open>One group of the loop of \<open>alloc_block\<close>: \<open>None\<close> in the result means the loop goes on.\<close>

definition alloc_block_group :: "u32 \<Rightarrow> ext2_fs \<Rightarrow> (u32 option \<times> ext2_fs) option" where
  "alloc_block_group g s = do {
     (bgd, s) \<leftarrow> read_bgd g s;
     (case bgd of None \<Rightarrow> Some (None, s) | Some bgd \<Rightarrow>
       if bg_free_blocks_count bgd = 0 then Some (None, s) else do {
         let (ok, s) = kmalloc_buf s;
         if \<not> ok then Some (Some 0, s) else do {
           let (r, s) = read_block (bg_block_bitmap bgd) s;
           (case r of None \<Rightarrow> Some (None, s) | Some bmap \<Rightarrow> do {
              let blocks_in_group = (if (g + 1) * blocks_per_group s > s_blocks_count (cached_sb s)
                then s_blocks_count (cached_sb s) - g * blocks_per_group s else blocks_per_group s);
              k \<leftarrow> find_clear blocks_in_group bmap 0;
              (case k of None \<Rightarrow> Some (None, s) | Some k \<Rightarrow> do {
                 bmap \<leftarrow> bmap_set k bmap;
                 let (_, s) = write_block (bg_block_bitmap bgd) bmap s;
                 (_, s) \<leftarrow> write_bgd g (bgd\<lparr>bg_free_blocks_count := bg_free_blocks_count bgd - 1\<rparr>) s;
                 let s = s\<lparr>cached_sb := (cached_sb s)\<lparr>s_free_blocks_count := s_free_blocks_count (cached_sb s) - 1\<rparr>\<rparr>;
                 let (_, s) = write_super s;
                 let block_no = g * blocks_per_group s + first_data_block s + k;
                 let (ok, s) = kmalloc_buf s;
                 let s = (if ok then snd (write_block block_no (replicate (unat (block_size s)) 0) s) else s);
                 Some (Some block_no, s) }) }) } }) }"

function alloc_block_loop :: "u32 \<Rightarrow> u32 \<Rightarrow> ext2_fs \<Rightarrow> (u32 \<times> ext2_fs) option" where
  "alloc_block_loop num_groups g s = (if g < num_groups then do {
     (r, s) \<leftarrow> alloc_block_group g s;
     (case r of None \<Rightarrow> alloc_block_loop num_groups (g + 1) s | Some b \<Rightarrow> Some (b, s)) }
     else Some (0, s))"
  by pat_completeness auto
termination by (relation "measure (\<lambda>(n, g, s). unat (n - g))") (auto intro: word_loop)

declare alloc_block_loop.simps [simp del]

definition alloc_block :: "ext2_fs \<Rightarrow> (u32 \<times> ext2_fs) option" where
  "alloc_block s = do {
     num_groups \<leftarrow> udiv (s_blocks_count (cached_sb s) + blocks_per_group s - 1) (blocks_per_group s);
     alloc_block_loop num_groups 0 s }"

definition free_block :: "u32 \<Rightarrow> ext2_fs \<Rightarrow> ext2_fs option" where
  "free_block block_no s = (if block_no < first_data_block s then Some s else do {
     let idx = block_no - first_data_block s;
     g \<leftarrow> udiv idx (blocks_per_group s);
     k \<leftarrow> umod idx (blocks_per_group s);
     (bgd, s) \<leftarrow> read_bgd g s;
     (case bgd of None \<Rightarrow> Some s | Some bgd \<Rightarrow> do {
        let (ok, s) = kmalloc_buf s;
        if \<not> ok then Some s else do {
          let (r, s) = read_block (bg_block_bitmap bgd) s;
          (case r of None \<Rightarrow> Some s | Some bmap \<Rightarrow> do {
             bmap \<leftarrow> bmap_clear k bmap;
             let (_, s) = write_block (bg_block_bitmap bgd) bmap s;
             (_, s) \<leftarrow> write_bgd g (bgd\<lparr>bg_free_blocks_count := bg_free_blocks_count bgd + 1\<rparr>) s;
             let s = s\<lparr>cached_sb := (cached_sb s)\<lparr>s_free_blocks_count := s_free_blocks_count (cached_sb s) + 1\<rparr>\<rparr>;
             let (_, s) = write_super s;
             Some s }) } }) })"

definition alloc_inode_group :: "u32 \<Rightarrow> ext2_fs \<Rightarrow> (u32 option \<times> ext2_fs) option" where
  "alloc_inode_group g s = do {
     (bgd, s) \<leftarrow> read_bgd g s;
     (case bgd of None \<Rightarrow> Some (None, s) | Some bgd \<Rightarrow>
       if bg_free_inodes_count bgd = 0 then Some (None, s) else do {
         let (ok, s) = kmalloc_buf s;
         if \<not> ok then Some (Some 0, s) else do {
           let (r, s) = read_block (bg_inode_bitmap bgd) s;
           (case r of None \<Rightarrow> Some (None, s) | Some bmap \<Rightarrow> do {
              k \<leftarrow> find_clear (inodes_per_group s) bmap 0;
              (case k of None \<Rightarrow> Some (None, s) | Some k \<Rightarrow> do {
                 bmap \<leftarrow> bmap_set k bmap;
                 let (_, s) = write_block (bg_inode_bitmap bgd) bmap s;
                 (_, s) \<leftarrow> write_bgd g (bgd\<lparr>bg_free_inodes_count := bg_free_inodes_count bgd - 1\<rparr>) s;
                 let s = s\<lparr>cached_sb := (cached_sb s)\<lparr>s_free_inodes_count := s_free_inodes_count (cached_sb s) - 1\<rparr>\<rparr>;
                 let (_, s) = write_super s;
                 Some (Some (g * inodes_per_group s + k + 1), s) }) }) } }) }"

function alloc_inode_loop :: "u32 \<Rightarrow> u32 \<Rightarrow> ext2_fs \<Rightarrow> (u32 \<times> ext2_fs) option" where
  "alloc_inode_loop num_groups g s = (if g < num_groups then do {
     (r, s) \<leftarrow> alloc_inode_group g s;
     (case r of None \<Rightarrow> alloc_inode_loop num_groups (g + 1) s | Some i \<Rightarrow> Some (i, s)) }
     else Some (0, s))"
  by pat_completeness auto
termination by (relation "measure (\<lambda>(n, g, s). unat (n - g))") (auto intro: word_loop)

declare alloc_inode_loop.simps [simp del]

definition alloc_inode :: "ext2_fs \<Rightarrow> (u32 \<times> ext2_fs) option" where
  "alloc_inode s = do {
     num_groups \<leftarrow> udiv (s_inodes_count (cached_sb s) + inodes_per_group s - 1) (inodes_per_group s);
     alloc_inode_loop num_groups 0 s }"

definition free_inode :: "u32 \<Rightarrow> ext2_fs \<Rightarrow> ext2_fs option" where
  "free_inode ino s = (if ino < 2 then Some s else do {
     g \<leftarrow> udiv (ino - 1) (inodes_per_group s);
     k \<leftarrow> umod (ino - 1) (inodes_per_group s);
     (bgd, s) \<leftarrow> read_bgd g s;
     (case bgd of None \<Rightarrow> Some s | Some bgd \<Rightarrow> do {
        let (ok, s) = kmalloc_buf s;
        if \<not> ok then Some s else do {
          let (r, s) = read_block (bg_inode_bitmap bgd) s;
          (case r of None \<Rightarrow> Some s | Some bmap \<Rightarrow> do {
             bmap \<leftarrow> bmap_clear k bmap;
             let (_, s) = write_block (bg_inode_bitmap bgd) bmap s;
             (_, s) \<leftarrow> write_bgd g (bgd\<lparr>bg_free_inodes_count := bg_free_inodes_count bgd + 1\<rparr>) s;
             let s = s\<lparr>cached_sb := (cached_sb s)\<lparr>s_free_inodes_count := s_free_inodes_count (cached_sb s) + 1\<rparr>\<rparr>;
             let (_, s) = write_super s;
             Some s }) } }) })"

end
