(* ===== verification/Ext2dir.thy ===== *)
theory Ext2dir
  imports Ext2
begin

text \<open>
  Directories and paths of the ext2 file system, and mounting (\<^verbatim>\<open>kernel/fs/ext2.c\<close>).  A C string
  is the list of its characters without the terminator; reading past the terminator is a fault.
  A directory block is a byte list and an entry the offset of its header.
\<close>

definition slash :: u8 where "slash = 0x2f"

definition dot_char :: u8 where "dot_char = 0x2e"

fun last_slash :: "bytes \<Rightarrow> nat \<Rightarrow> nat \<Rightarrow> nat" where
  "last_slash [] p l = l"
| "last_slash (c # cs) p l = last_slash cs (Suc p) (if c = slash then p else l)"

text \<open>The buffers of the callers have 256 bytes each.\<close>

definition path_split :: "bytes \<Rightarrow> (bytes \<times> bytes) option option" where
  "path_split path = (if path = [] then None else
     (let l = last_slash path 0 0; name = drop (l + 1) path; name_len = length name; par_len = l
      in if name_len = 0 \<or> name_len > 254 then Some None
         else if par_len = 0 then Some (Some ([slash], name))
         else if par_len + 1 > 256 then None
         else Some (Some (take par_len path, name))))"

subsection \<open>Directory entries\<close>

definition de_inode :: "bytes \<Rightarrow> nat \<Rightarrow> u32 option" where
  "de_inode b p = map_option le_word (slice p 4 b)"

definition de_rec_len :: "bytes \<Rightarrow> nat \<Rightarrow> u16 option" where
  "de_rec_len b p = map_option le_word (slice (p + 4) 2 b)"

definition de_name_len :: "bytes \<Rightarrow> nat \<Rightarrow> u8 option" where
  "de_name_len b p = rd8 b (p + 6)"

definition de_name :: "bytes \<Rightarrow> nat \<Rightarrow> u8 \<Rightarrow> bytes option" where
  "de_name b p n = slice (p + 8) (unat n) b"

text \<open>The space an entry needs for a name: eight bytes and the name rounded up to four.\<close>

definition dirent_len :: "u8 \<Rightarrow> u32" where
  "dirent_len nl = 8 + ((ucast nl + 3) AND NOT 3)"

definition dirent_valid :: "bytes \<Rightarrow> nat \<Rightarrow> bool option" where
  "dirent_valid b p = (if p > length b \<or> length b - p < 8 then Some False else do {
     nl \<leftarrow> de_name_len b p;
     rl \<leftarrow> de_rec_len b p;
     Some (\<not> ucast rl < dirent_len nl \<and> \<not> unat rl > length b - p) })"

lemma unat_ucast_8: "unat (ucast (x :: u8) :: u32) = unat x"
  using unat_less [of x] by (simp add: unsigned_ucast_eq take_bit_nat_eq_self)

lemma unat_ucast_16: "unat (ucast (x :: u16) :: u32) = unat x"
  using unat_less [of x] by (simp add: unsigned_ucast_eq take_bit_nat_eq_self)

lemma unat_dirent_len: "unat (dirent_len nl) = 8 + 4 * ((unat nl + 3) div 4)"
proof -
  let ?x = "ucast nl + 3 :: u32"
  have x: "unat ?x = unat nl + 3"
    using unat_less [of nl] by (subst unat_add_lem [THEN iffD1]) (simp_all add: unat_ucast_8)
  have "y AND NOT (mask 2) = push_bit 2 (drop_bit 2 y)" for y :: u32
    by (rule bit_word_eqI) (auto simp: bit_simps not_less le_iff_add)
  from this [of ?x] have "?x AND NOT 3 = push_bit 2 (drop_bit 2 ?x)" by (simp add: mask_eq_exp_minus_1)
  also have "\<dots> = drop_bit 2 ?x * 4" by (simp add: push_bit_eq_mult)
  finally have "unat (?x AND NOT 3) = 4 * ((unat nl + 3) div 4)"
    using x unat_less [of nl] by (simp add: unat_word_ariths drop_bit_eq_div unat_div)
  then show ?thesis
    using unat_less [of nl] unfolding dirent_len_def by (subst unat_add_lem [THEN iffD1]) simp_all
qed

lemma dirent_validD:
  assumes "dirent_valid b p = Some True" "de_rec_len b p = Some rl"
  shows "8 \<le> unat rl" "p + unat rl \<le> length b"
proof -
  obtain nl where nl: "\<not> ucast rl < dirent_len nl" "\<not> unat rl > length b - p" "p \<le> length b"
    using assms by (auto simp: dirent_valid_def split: if_splits bind_splits)
  then have "unat (dirent_len nl) \<le> unat rl" by (simp add: word_less_nat_alt unat_ucast_16)
  then show "8 \<le> unat rl" by (simp add: unat_dirent_len)
  show "p + unat rl \<le> length b" using nl by simp
qed

function add_scan :: "bytes \<Rightarrow> nat \<Rightarrow> bytes \<Rightarrow> u8 \<Rightarrow> u32 \<Rightarrow> u8 \<Rightarrow> bytes option option" where
  "add_scan blk p name name_len child ftype = (if p < length blk then do {
     v \<leftarrow> dirent_valid blk p;
     if \<not> v then Some None else do {
       ino \<leftarrow> de_inode blk p;
       rl \<leftarrow> de_rec_len blk p;
       nl \<leftarrow> de_name_len blk p;
       let actual = dirent_len nl;
       let needed = dirent_len name_len;
       if ino = 0 \<and> ucast rl \<ge> needed then do {
         blk \<leftarrow> put p (le_bytes 4 child) blk;
         blk \<leftarrow> put (p + 6) [name_len, ftype] blk;
         blk \<leftarrow> put (p + 8) (take (unat name_len) name) blk;
         Some (Some blk) }
       else if p + unat rl \<ge> length blk \<and> ino \<noteq> 0 \<and> ucast rl - actual \<ge> needed then do {
         let slack = ucast rl - actual;
         blk \<leftarrow> put (p + 4) (le_bytes 2 (ucast actual :: u16)) blk;
         let ne = p + unat actual;
         blk \<leftarrow> put ne (le_bytes 4 child) blk;
         blk \<leftarrow> put (ne + 4) (le_bytes 2 (ucast slack :: u16)) blk;
         blk \<leftarrow> put (ne + 6) [name_len, ftype] blk;
         blk \<leftarrow> put (ne + 8) (take (unat name_len) name) blk;
         Some (Some blk) }
       else add_scan blk (p + unat rl) name name_len child ftype } }
     else Some None)"
  by pat_completeness auto
termination
  by (relation "measure (\<lambda>(blk, p, n, l, c, f). length blk - p)") (auto dest: dirent_validD)

function remove_scan :: "bytes \<Rightarrow> nat \<Rightarrow> bytes \<Rightarrow> u8 \<Rightarrow> bytes option option" where
  "remove_scan blk p name name_len = (if p < length blk then do {
     v \<leftarrow> dirent_valid blk p;
     if \<not> v then Some None else do {
       ino \<leftarrow> de_inode blk p;
       rl \<leftarrow> de_rec_len blk p;
       nl \<leftarrow> de_name_len blk p;
       nm \<leftarrow> de_name blk p nl;
       if ino \<noteq> 0 \<and> nl = name_len \<and> nm = take (unat name_len) name
       then do { blk \<leftarrow> put p (le_bytes 4 (0 :: u32)) blk; Some (Some blk) }
       else remove_scan blk (p + unat rl) name name_len } }
     else Some None)"
  by pat_completeness auto
termination
  by (relation "measure (\<lambda>(blk, p, n, l). length blk - p)") (auto dest: dirent_validD)

function dir_find_in_block :: "bytes \<Rightarrow> nat \<Rightarrow> bytes \<Rightarrow> u8 \<Rightarrow> u32 option" where
  "dir_find_in_block blk p name name_len = (if p < length blk then do {
     v \<leftarrow> dirent_valid blk p;
     if \<not> v then Some 0 else do {
       ino \<leftarrow> de_inode blk p;
       rl \<leftarrow> de_rec_len blk p;
       nl \<leftarrow> de_name_len blk p;
       nm \<leftarrow> de_name blk p nl;
       if ino \<noteq> 0 \<and> nl = name_len \<and> nm = take (unat name_len) name then Some ino
       else dir_find_in_block blk (p + unat rl) name name_len } }
     else Some 0)"
  by pat_completeness auto
termination
  by (relation "measure (\<lambda>(blk, p, n, l). length blk - p)") (auto dest: dirent_validD)

text \<open>
  The characters written to the buffer of \<open>bufsz\<close> bytes so far are \<open>out\<close>.
\<close>

function list_dir_block :: "bytes \<Rightarrow> nat \<Rightarrow> u32 \<Rightarrow> u32 \<Rightarrow> bytes \<Rightarrow> bytes option" where
  "list_dir_block blk p bufsz flags out = (if p < length blk then do {
     v \<leftarrow> dirent_valid blk p;
     if \<not> v then Some out else do {
       ino \<leftarrow> de_inode blk p;
       rl \<leftarrow> de_rec_len blk p;
       nl \<leftarrow> de_name_len blk p;
       nm \<leftarrow> de_name blk p nl;
       if ino \<noteq> 0 \<and> nl > 0 \<and> \<not> ((nm = [dot_char] \<or> nm = [dot_char, dot_char]) \<and> \<not> bit flags 0) \<and>
          of_nat (length out) + ucast nl + 1 < bufsz
       then if length out + unat nl + 1 \<le> unat bufsz
            then list_dir_block blk (p + unat rl) bufsz flags (out @ nm @ [0x0a]) else None
       else list_dir_block blk (p + unat rl) bufsz flags out } }
     else Some out)"
  by pat_completeness auto
termination
  by (relation "measure (\<lambda>(blk, p, n, f, out). length blk - p)") (auto dest: dirent_validD)

function dotdot_scan :: "bytes \<Rightarrow> nat \<Rightarrow> u32 \<Rightarrow> bytes option option" where
  "dotdot_scan blk p parent = (if p < length blk then do {
     v \<leftarrow> dirent_valid blk p;
     if \<not> v then Some None else do {
       ino \<leftarrow> de_inode blk p;
       rl \<leftarrow> de_rec_len blk p;
       nl \<leftarrow> de_name_len blk p;
       nm \<leftarrow> de_name blk p nl;
       if ino \<noteq> 0 \<and> nl = 2 \<and> nm = [dot_char, dot_char]
       then do { blk \<leftarrow> put p (le_bytes 4 parent) blk; Some (Some blk) }
       else dotdot_scan blk (p + unat rl) parent } }
     else Some None)"
  by pat_completeness auto
termination
  by (relation "measure (\<lambda>(blk, p, n). length blk - p)") (auto dest: dirent_validD)

declare add_scan.simps [simp del] remove_scan.simps [simp del] dir_find_in_block.simps [simp del]
  list_dir_block.simps [simp del] dotdot_scan.simps [simp del]

subsection \<open>Changing directories\<close>

fun dir_add_blocks :: "u32 list \<Rightarrow> bytes \<Rightarrow> u8 \<Rightarrow> u32 \<Rightarrow> u8 \<Rightarrow> ext2_fs \<Rightarrow> (bool \<times> ext2_fs) option" where
  "dir_add_blocks [] name name_len child ftype s = Some (False, s)"
| "dir_add_blocks (bno # bs) name name_len child ftype s = (if bno = 0 then Some (False, s) else
     (let (r, s) = read_block bno s in case r of
        None \<Rightarrow> dir_add_blocks bs name name_len child ftype s
      | Some blk \<Rightarrow> do {
          a \<leftarrow> add_scan blk 0 name name_len child ftype;
          (case a of None \<Rightarrow> dir_add_blocks bs name name_len child ftype s
           | Some blk \<Rightarrow> Some (True, snd (write_block bno blk s))) }))"

definition dir_new_block :: "u32 \<Rightarrow> bytes \<Rightarrow> u8 \<Rightarrow> u32 \<Rightarrow> u8 \<Rightarrow> bytes option" where
  "dir_new_block bs name name_len child ftype = do {
     blk \<leftarrow> put 0 (le_bytes 4 child) (replicate (unat bs) 0);
     blk \<leftarrow> put 4 (le_bytes 2 (ucast bs :: u16)) blk;
     blk \<leftarrow> put 6 [name_len, ftype] blk;
     put 8 (take (unat name_len) name) blk }"

definition dir_add_entry :: "u32 \<Rightarrow> bytes \<Rightarrow> u32 \<Rightarrow> u8 \<Rightarrow> ext2_fs \<Rightarrow> (bool \<times> ext2_fs) option" where
  "dir_add_entry dir_ino name child ftype s = do {
     let name_len = (of_nat (length name) :: u8);
     (di, s) \<leftarrow> read_inode dir_ino s;
     (case di of None \<Rightarrow> Some (False, s) | Some dir_inode \<Rightarrow> do {
        let (ok, s) = kmalloc_buf s;
        if \<not> ok then Some (False, s) else do {
          (added, s) \<leftarrow> dir_add_blocks (take 12 (i_block dir_inode)) name name_len child ftype s;
          if added then Some (True, s) else do {
            (new_bno, s) \<leftarrow> alloc_block s;
            if new_bno = 0 then Some (False, s) else do {
              blk \<leftarrow> dir_new_block (block_size s) name name_len child ftype;
              let (_, s) = write_block new_bno blk s;
              (case find (\<lambda>b. i_block dir_inode ! b = 0) [0..<12] of
                 Some b \<Rightarrow> do {
                   (_, s) \<leftarrow> write_inode dir_ino (dir_inode\<lparr>i_block := (i_block dir_inode)[b := new_bno],
                     i_size := i_size dir_inode + block_size s,
                     i_blocks := i_blocks dir_inode + block_size s div 512\<rparr>) s;
                   Some (True, s) }
               | None \<Rightarrow> do { s \<leftarrow> free_block new_bno s; Some (False, s) }) } } } }) }"

fun dir_remove_blocks :: "u32 list \<Rightarrow> bytes \<Rightarrow> u8 \<Rightarrow> ext2_fs \<Rightarrow> (bool \<times> ext2_fs) option" where
  "dir_remove_blocks [] name name_len s = Some (False, s)"
| "dir_remove_blocks (bno # bs) name name_len s = (if bno = 0 then Some (False, s) else
     (let (r, s) = read_block bno s in case r of
        None \<Rightarrow> dir_remove_blocks bs name name_len s
      | Some blk \<Rightarrow> do {
          a \<leftarrow> remove_scan blk 0 name name_len;
          (case a of None \<Rightarrow> dir_remove_blocks bs name name_len s
           | Some blk \<Rightarrow> Some (True, snd (write_block bno blk s))) }))"

definition dir_remove_entry :: "u32 \<Rightarrow> bytes \<Rightarrow> ext2_fs \<Rightarrow> (bool \<times> ext2_fs) option" where
  "dir_remove_entry dir_ino name s = do {
     let name_len = (of_nat (length name) :: u8);
     (di, s) \<leftarrow> read_inode dir_ino s;
     (case di of None \<Rightarrow> Some (False, s) | Some dir_inode \<Rightarrow> do {
        let (ok, s) = kmalloc_buf s;
        if \<not> ok then Some (False, s)
        else dir_remove_blocks (take 12 (i_block dir_inode)) name name_len s }) }"

subsection \<open>Mounting and lookup\<close>

text \<open>The scratch block is used only after a block has been read into it.\<close>

definition ext2_mount :: "u64 \<Rightarrow> io \<Rightarrow> ext2_fs option \<times> io" where
  "ext2_mount part_offset_lba d =
     (let (ok, d) = mem_get d in if \<not> ok then (None, d) else
      (let (r, d) = blkdev_read (part_offset_lba + 2) 2 d in case r of None \<Rightarrow> (None, d) | Some b \<Rightarrow>
       (let sb = super_of b
        in if s_magic sb \<noteq> EXT2_SUPER_MAGIC then (None, d)
           else if s_log_block_size sb > 2 then (None, d)
           else let bs = push_bit (unat (s_log_block_size sb)) 1024; (ok, d) = mem_get d
             in if \<not> ok then (None, d) else
               let (ok, d) = mem_get d
               in if \<not> ok then (None, d) else
                 (Some \<lparr>fs_io = d, part_lba = part_offset_lba, block_size = bs,
                    inodes_per_group = s_inodes_per_group sb, blocks_per_group = s_blocks_per_group sb,
                    inode_size = (if s_rev_level sb \<ge> 1 then ucast (s_inode_size sb) else 128),
                    first_data_block = s_first_data_block sb, bgd_block = (if bs = 1024 then 2 else 1),
                    scratch = replicate (unat bs) 0, cached_sb = sb\<rparr>, d))))"

fun lookup_blocks :: "u32 list \<Rightarrow> bytes \<Rightarrow> u8 \<Rightarrow> ext2_fs \<Rightarrow> (u32 option \<times> ext2_fs) option" where
  "lookup_blocks [] name name_len s = Some (Some 0, s)"
| "lookup_blocks (bno # bs) name name_len s = (if bno = 0 then Some (Some 0, s) else
     (let (r, s) = read_block bno s in case r of None \<Rightarrow> Some (None, s) | Some blk \<Rightarrow> do {
        let s = s\<lparr>scratch := blk\<rparr>;
        ino \<leftarrow> dir_find_in_block blk 0 name name_len;
        if ino \<noteq> 0 then Some (Some ino, s) else lookup_blocks bs name name_len s }))"

lemma lookup_next: "dropWhile P p = c # q \<Longrightarrow> length q < length p"
  using length_dropWhile_le [of P p] by simp

lemma lookup_rest: "p \<noteq> [] \<Longrightarrow> length (case dropWhile P p of [] \<Rightarrow> [] | c # q \<Rightarrow> q) < length p"
  by (auto split: list.split dest: lookup_next)

function lookup_loop :: "u32 \<Rightarrow> bytes \<Rightarrow> ext2_fs \<Rightarrow> (u32 option \<times> ext2_fs) option" where
  "lookup_loop cur p s = (if p = [] then Some (Some cur, s) else do {
     let comp = takeWhile (\<lambda>c. c \<noteq> slash) p;
     let rest = dropWhile (\<lambda>c. c \<noteq> slash) p;
     let name_len = (of_nat (length comp) :: u8);
     if name_len = 0 then (case rest of [] \<Rightarrow> None | _ # q \<Rightarrow> lookup_loop cur q s)
     else do {
       (ino, s) \<leftarrow> read_inode cur s;
       (case ino of None \<Rightarrow> Some (None, s) | Some ino \<Rightarrow> do {
          (found, s) \<leftarrow> lookup_blocks (take 12 (i_block ino)) comp name_len s;
          (case found of None \<Rightarrow> Some (None, s) | Some found \<Rightarrow>
             if found = 0 then Some (None, s)
             else lookup_loop found (case rest of [] \<Rightarrow> [] | _ # q \<Rightarrow> q) s) }) } })"
  by pat_completeness auto
termination
  by (relation "measure (\<lambda>(c, p, s). length p)") (simp_all add: lookup_next [OF sym] lookup_rest)

declare lookup_loop.simps [simp del]

definition ext2_lookup :: "bytes \<Rightarrow> ext2_fs \<Rightarrow> (u32 option \<times> ext2_fs) option" where
  "ext2_lookup path s = (if path = [] \<or> hd path \<noteq> slash then Some (None, s)
     else lookup_loop EXT2_ROOT_INO (tl path) s)"

definition ext2_lookup_ino :: "bytes \<Rightarrow> ext2_fs \<Rightarrow> (u32 \<times> ext2_fs) option" where
  "ext2_lookup_ino path s = do { (r, s) \<leftarrow> ext2_lookup path s; Some (case r of None \<Rightarrow> 0 | Some ino \<Rightarrow> ino, s) }"

fun list_dir_blocks :: "u32 list \<Rightarrow> u32 \<Rightarrow> u32 \<Rightarrow> bytes \<Rightarrow> ext2_fs \<Rightarrow> (bytes \<times> ext2_fs) option" where
  "list_dir_blocks [] bufsz flags out s = Some (out, s)"
| "list_dir_blocks (bno # bs) bufsz flags out s = (if bno = 0 then Some (out, s) else
     (let (r, s) = read_block bno s in case r of None \<Rightarrow> Some (out, s) | Some blk \<Rightarrow> do {
        let s = s\<lparr>scratch := blk\<rparr>;
        out \<leftarrow> list_dir_block blk 0 bufsz flags out;
        list_dir_blocks bs bufsz flags out s }))"

definition ext2_list_dir :: "u32 \<Rightarrow> u32 \<Rightarrow> u32 \<Rightarrow> ext2_fs \<Rightarrow> (bytes \<times> ext2_fs) option" where
  "ext2_list_dir dir_ino bufsz flags s = (if bufsz = 0 then Some ([], s) else do {
     (di, s) \<leftarrow> read_inode dir_ino s;
     (case di of None \<Rightarrow> Some ([], s)
      | Some inode \<Rightarrow> list_dir_blocks (take 12 (i_block inode)) bufsz flags [] s) })"

end
