(* ===== verification/Ext2file.thy ===== *)
theory Ext2file
  imports Ext2dir
begin

text \<open>
  Files of the ext2 file system (\<^verbatim>\<open>kernel/fs/ext2.c\<close>): reading, writing, truncation, creation,
  removal and renaming, and the attributes of inodes.
\<close>

subsection \<open>Reading\<close>

text \<open>The outcome of looking up a block: its number, leaving the loop, or an error.\<close>

datatype bno_res = Bno u32 | Break | Fail

definition ptr_at :: "bytes \<Rightarrow> u32 \<Rightarrow> u32 option" where
  "ptr_at b k = map_option le_word (slice (4 * unat k) 4 b)"

definition read_bno :: "u32 \<Rightarrow> ext2_inode \<Rightarrow> ext2_fs \<Rightarrow> (bno_res \<times> ext2_fs) option" where
  "read_bno block_idx inode s = (let ptrs = block_size s div 4 in
     if block_idx < 12 then Some (Bno (i_block inode ! unat block_idx), s)
     else if block_idx < 12 + ptrs then
       (let indir = i_block inode ! 12 in
        if indir = 0 then Some (Break, s) else
        (let (r, s) = read_block indir s in case r of None \<Rightarrow> Some (Fail, s) | Some b \<Rightarrow> do {
           let s = s\<lparr>scratch := b\<rparr>;
           n \<leftarrow> ptr_at b (block_idx - 12);
           Some (Bno n, s) }))
     else if block_idx < 12 + ptrs + ptrs * ptrs then do {
       let dbl_idx = block_idx - 12 - ptrs;
       l1_idx \<leftarrow> udiv dbl_idx ptrs;
       l2_idx \<leftarrow> umod dbl_idx ptrs;
       let dbl_bno = i_block inode ! 13;
       if dbl_bno = 0 then Some (Break, s) else
       (let (r, s) = read_block dbl_bno s in case r of None \<Rightarrow> Some (Fail, s) | Some b \<Rightarrow> do {
          let s = s\<lparr>scratch := b\<rparr>;
          indir1 \<leftarrow> ptr_at b l1_idx;
          if indir1 = 0 then Some (Break, s) else
          (let (r, s) = read_block indir1 s in case r of None \<Rightarrow> Some (Fail, s) | Some b \<Rightarrow> do {
             let s = s\<lparr>scratch := b\<rparr>;
             n \<leftarrow> ptr_at b l2_idx;
             Some (Bno n, s) }) }) }
     else Some (Break, s))"

lemma block_off_less: "bs \<noteq> 0 \<Longrightarrow> unat (x mod ucast (bs :: u32) :: u64) < unat bs"
proof -
  assume "bs \<noteq> 0"
  moreover have "unat (ucast bs :: u64) = unat bs"
    using unat_less [of bs] by (simp add: unsigned_ucast_eq take_bit_nat_eq_self)
  moreover have "unat bs \<noteq> 0" using \<open>bs \<noteq> 0\<close> by (simp add: unat_eq_0)
  ultimately show ?thesis by (simp add: unat_mod)
qed

lemma block_step: "bs \<noteq> 0 \<Longrightarrow> w < n \<Longrightarrow> n - (w + (unat bs - unat (x mod ucast (bs :: u32) :: u64))) < n - w"
  using block_off_less [of bs x] by simp

function ext2_read_loop :: "ext2_inode \<Rightarrow> nat \<Rightarrow> nat \<Rightarrow> u64 \<Rightarrow> bytes \<Rightarrow> ext2_fs \<Rightarrow> (int \<times> bytes \<times> ext2_fs) option" where
  "ext2_read_loop inode sz remaining cur_off out s =
     (let bs = block_size s in
      if remaining = 0 then Some (int (sz - remaining), out, s) else if bs = 0 then None else do {
        let block_idx = ucast (cur_off div ucast bs);
        let block_off = unat (cur_off mod ucast bs);
        (r, s) \<leftarrow> read_bno block_idx inode s;
        (case r of Fail \<Rightarrow> Some (- 1, out, s) | Break \<Rightarrow> Some (int (sz - remaining), out, s)
         | Bno block_no \<Rightarrow> do {
             let to_copy = (if unat bs - block_off > remaining then remaining else unat bs - block_off);
             if block_no = 0
             then ext2_read_loop inode sz (remaining - to_copy) (cur_off + of_nat to_copy) (out @ replicate to_copy 0) s
             else (let (r, s) = read_block block_no s in case r of None \<Rightarrow> Some (- 1, out, s) | Some b \<Rightarrow> do {
               let s = s\<lparr>scratch := b\<rparr>;
               d \<leftarrow> slice block_off to_copy b;
               ext2_read_loop inode sz (remaining - to_copy) (cur_off + of_nat to_copy) (out @ d) s }) }) })"
  by pat_completeness auto
termination
  by (relation "measure (\<lambda>(i, z, r, c, out, s). r)") (use block_off_less in auto)

declare ext2_read_loop.simps [simp del]

definition ext2_read :: "u32 \<Rightarrow> u64 \<Rightarrow> u32 \<Rightarrow> ext2_fs \<Rightarrow> (int \<times> bytes \<times> ext2_fs) option" where
  "ext2_read ino off n s = do {
     (r, s) \<leftarrow> read_inode ino s;
     (case r of None \<Rightarrow> Some (- 1, [], s) | Some inode \<Rightarrow>
        (let file_size = ucast (i_size inode) :: u64
         in if off \<ge> file_size then Some (0, [], s)
            else let n = (if off + ucast n > file_size then ucast (file_size - off) else n)
                 in ext2_read_loop inode (unat n) (unat n) off [] s)) }"

definition ext2_file_size :: "u32 \<Rightarrow> ext2_fs \<Rightarrow> (u64 \<times> ext2_fs) option" where
  "ext2_file_size ino s = do {
     (r, s) \<leftarrow> read_inode ino s;
     Some (case r of None \<Rightarrow> 0 | Some inode \<Rightarrow> ucast (i_size inode), s) }"

subsection \<open>Writing\<close>

text \<open>
  The block of pointers in \<open>i_block[k]\<close>, allocated and cleared when there is none.  \<open>False\<close> means
  the loop is left.
\<close>

definition ensure_ptr_block :: "nat \<Rightarrow> ext2_inode \<Rightarrow> ext2_fs \<Rightarrow> (bool \<times> ext2_inode \<times> ext2_fs) option" where
  "ensure_ptr_block k inode s = (if i_block inode ! k \<noteq> 0 then Some (True, inode, s) else do {
     (b, s) \<leftarrow> alloc_block s;
     if b = 0 then Some (False, inode, s) else do {
       let (ok, s) = write_block b (replicate (unat (block_size s)) 0) s;
       if \<not> ok then Some (False, inode, s)
       else Some (True, inode\<lparr>i_block := (i_block inode)[k := b]\<rparr>, s) } })"

text \<open>
  Entry \<open>k\<close> of the block of pointers \<open>p\<close>, allocated when it is zero; \<open>clear\<close> tells whether the
  new block is cleared once more (it is going to hold pointers).
\<close>

definition ptr_entry :: "bool \<Rightarrow> u32 \<Rightarrow> u32 \<Rightarrow> ext2_fs \<Rightarrow> (u32 option \<times> ext2_fs) option" where
  "ptr_entry clear p k s = do {
     let (ok, s) = kmalloc_buf s;
     if \<not> ok then Some (None, s) else
     (let (r, s) = read_block p s in case r of None \<Rightarrow> Some (None, s) | Some buf \<Rightarrow> do {
        b \<leftarrow> ptr_at buf k;
        if b \<noteq> 0 then Some (Some b, s) else do {
          (b, s) \<leftarrow> alloc_block s;
          if b = 0 then Some (None, s) else do {
            let (ok, s) = (if clear then write_block b (replicate (unat (block_size s)) 0) s else (True, s));
            if \<not> ok then Some (None, s) else do {
              buf \<leftarrow> put (4 * unat k) (le_bytes 4 b) buf;
              let (ok, s) = write_block p buf s;
              if \<not> ok then Some (None, s) else Some (Some b, s) } } } }) }"

definition write_bno :: "u32 \<Rightarrow> ext2_inode \<Rightarrow> ext2_fs \<Rightarrow> (u32 option \<times> ext2_inode \<times> ext2_fs) option" where
  "write_bno block_idx inode s = (let ptrs = block_size s div 4 in
     if block_idx < 12 then do {
       let k = unat block_idx;
       if i_block inode ! k \<noteq> 0 then Some (Some (i_block inode ! k), inode, s) else do {
         (b, s) \<leftarrow> alloc_block s;
         if b = 0 then Some (None, inode, s)
         else Some (Some b, inode\<lparr>i_block := (i_block inode)[k := b]\<rparr>, s) } }
     else if block_idx < 12 + ptrs then do {
       (ok, inode, s) \<leftarrow> ensure_ptr_block 12 inode s;
       if \<not> ok then Some (None, inode, s) else do {
         (b, s) \<leftarrow> ptr_entry False (i_block inode ! 12) (block_idx - 12) s;
         Some (b, inode, s) } }
     else if block_idx < 12 + ptrs + ptrs * ptrs then do {
       let dbl_idx = block_idx - 12 - ptrs;
       l1_idx \<leftarrow> udiv dbl_idx ptrs;
       l2_idx \<leftarrow> umod dbl_idx ptrs;
       (ok, inode, s) \<leftarrow> ensure_ptr_block 13 inode s;
       if \<not> ok then Some (None, inode, s) else do {
         (l1, s) \<leftarrow> ptr_entry True (i_block inode ! 13) l1_idx s;
         (case l1 of None \<Rightarrow> Some (None, inode, s) | Some l1_bno \<Rightarrow> do {
            (b, s) \<leftarrow> ptr_entry False l1_bno l2_idx s;
            Some (b, inode, s) }) } }
     else Some (None, inode, s))"

function ext2_write_loop :: "u64 \<Rightarrow> bytes \<Rightarrow> nat \<Rightarrow> ext2_inode \<Rightarrow> ext2_fs \<Rightarrow> (nat \<times> ext2_inode \<times> ext2_fs) option" where
  "ext2_write_loop off src written inode s =
     (let bs = block_size s in
      if \<not> written < length src then Some (written, inode, s) else if bs = 0 then None else do {
        let pos = off + of_nat written;
        let block_idx = ucast (pos div ucast bs);
        let block_off = unat (pos mod ucast bs);
        let to_write = (if unat bs - block_off > length src - written then length src - written else unat bs - block_off);
        (r, inode, s) \<leftarrow> write_bno block_idx inode s;
        (case r of None \<Rightarrow> Some (written, inode, s) | Some bno \<Rightarrow> do {
           let (b, s) = (if block_off > 0 \<or> to_write < unat bs then read_block bno s
             else (Some (replicate (unat bs) 0), s));
           (case b of None \<Rightarrow> Some (written, inode, s) | Some blkbuf \<Rightarrow> do {
              blkbuf \<leftarrow> put block_off (take to_write (drop written src)) blkbuf;
              let (ok, s) = write_block bno blkbuf s;
              if \<not> ok then Some (written, inode, s)
              else ext2_write_loop off src (written + to_write) inode s }) }) })"
  by pat_completeness auto
termination
  by (relation "measure (\<lambda>(off, src, w, i, s). length src - w)") (auto intro: block_step)

declare ext2_write_loop.simps [simp del]

definition used_ptrs :: "ext2_inode \<Rightarrow> u32" where
  "used_ptrs inode = of_nat (length (filter (\<lambda>b. b \<noteq> 0) (take 12 (i_block inode)))) +
     (if i_block inode ! 12 \<noteq> 0 then 1 else 0) + (if i_block inode ! 13 \<noteq> 0 then 1 else 0)"

definition ext2_write :: "u32 \<Rightarrow> u64 \<Rightarrow> bytes \<Rightarrow> ext2_fs \<Rightarrow> (int \<times> ext2_fs) option" where
  "ext2_write ino off buf s = (if ino = 0 \<or> buf = [] then Some (- 1, s) else do {
     (r, s) \<leftarrow> read_inode ino s;
     (case r of None \<Rightarrow> Some (- 1, s) | Some inode \<Rightarrow> do {
        let (ok, s) = kmalloc_buf s;
        if \<not> ok then Some (- 1, s) else do {
          (written, inode, s) \<leftarrow> ext2_write_loop off buf 0 inode s;
          if written > 0 then do {
            let new_end = off + of_nat written;
            let inode = (if new_end > ucast (i_size inode)
              then inode\<lparr>i_size := ucast new_end, i_blocks := used_ptrs inode * (block_size s div 512)\<rparr> else inode);
            (_, s) \<leftarrow> write_inode ino inode s;
            Some (int written, s) }
          else Some (int written, s) } }) })"

subsection \<open>Truncation\<close>

fun free_blocks :: "u32 list \<Rightarrow> ext2_fs \<Rightarrow> ext2_fs option" where
  "free_blocks [] s = Some s"
| "free_blocks (b # bs) s = (if b = 0 then free_blocks bs s else free_block b s \<bind> free_blocks bs)"

text \<open>The direct blocks and the singly indirect ones, as \<open>ext2_truncate\<close> and \<open>ext2_unlink\<close> release them.\<close>

definition free_data :: "ext2_inode \<Rightarrow> ext2_fs \<Rightarrow> (ext2_inode \<times> ext2_fs) option" where
  "free_data inode s = do {
     s \<leftarrow> free_blocks (take 12 (i_block inode)) s;
     let inode = inode\<lparr>i_block := replicate 12 0 @ drop 12 (i_block inode)\<rparr>;
     if i_block inode ! 12 = 0 then Some (inode, s) else do {
       let (ok, s) = kmalloc_buf s;
       s \<leftarrow> (if \<not> ok then Some s else
         (let (r, s) = read_block (i_block inode ! 12) s in case r of None \<Rightarrow> Some s
          | Some indir \<Rightarrow> free_blocks (map (\<lambda>k. fld (4 * k) 4 indir) [0..<unat (block_size s div 4)]) s));
       s \<leftarrow> free_block (i_block inode ! 12) s;
       Some (inode\<lparr>i_block := (i_block inode)[12 := 0]\<rparr>, s) } }"

definition ext2_truncate :: "u32 \<Rightarrow> ext2_fs \<Rightarrow> (bool \<times> ext2_fs) option" where
  "ext2_truncate ino s = (if ino < 2 then Some (False, s) else do {
     (r, s) \<leftarrow> read_inode ino s;
     (case r of None \<Rightarrow> Some (False, s) | Some inode \<Rightarrow> do {
        (inode, s) \<leftarrow> free_data inode s;
        write_inode ino (inode\<lparr>i_size := 0, i_blocks := 0\<rparr>) s }) })"

subsection \<open>Creation, removal and renaming\<close>

definition inode_zero :: ext2_inode where
  "inode_zero = \<lparr>i_mode = 0, i_uid = 0, i_size = 0, i_atime = 0, i_ctime = 0, i_mtime = 0, i_dtime = 0, i_gid = 0,
     i_links_count = 0, i_blocks = 0, i_flags = 0, i_osd1 = 0, i_block = replicate 15 0, i_generation = 0,
     i_file_acl = 0, i_dir_acl = 0, i_faddr = 0, i_osd2 = replicate 12 0\<rparr>"

definition ext2_create :: "bytes \<Rightarrow> u32 \<Rightarrow> u32 \<Rightarrow> ext2_fs \<Rightarrow> (u32 \<times> ext2_fs) option" where
  "ext2_create path uid gid s = do {
     sp \<leftarrow> path_split path;
     (case sp of None \<Rightarrow> Some (0, s) | Some (parent, name) \<Rightarrow> do {
        (parent_ino, s) \<leftarrow> ext2_lookup_ino parent s;
        if parent_ino = 0 then Some (0, s) else do {
          (ex, s) \<leftarrow> ext2_lookup_ino path s;
          if ex \<noteq> 0 then Some (0, s) else do {
            (ino, s) \<leftarrow> alloc_inode s;
            if ino = 0 then Some (0, s) else do {
              let inode = inode_zero\<lparr>i_mode := EXT2_IMODE_REG OR 0x1a4, i_uid := ucast uid, i_gid := ucast gid, i_links_count := 1\<rparr>;
              (ok, s) \<leftarrow> write_inode ino inode s;
              if \<not> ok then do { s \<leftarrow> free_inode ino s; Some (0, s) } else do {
                (ok, s) \<leftarrow> dir_add_entry parent_ino name ino 1 s;
                if \<not> ok then do { s \<leftarrow> free_inode ino s; Some (0, s) }
                else Some (ino, s) } } } } }) }"

definition ext2_mkdir :: "bytes \<Rightarrow> u32 \<Rightarrow> u32 \<Rightarrow> ext2_fs \<Rightarrow> (u32 \<times> ext2_fs) option" where
  "ext2_mkdir path uid gid s = do {
     sp \<leftarrow> path_split path;
     (case sp of None \<Rightarrow> Some (0, s) | Some (parent, name) \<Rightarrow> do {
        (parent_ino, s) \<leftarrow> ext2_lookup_ino parent s;
        if parent_ino = 0 then Some (0, s) else do {
          (ex, s) \<leftarrow> ext2_lookup_ino path s;
          if ex \<noteq> 0 then Some (0, s) else do {
            (ino, s) \<leftarrow> alloc_inode s;
            if ino = 0 then Some (0, s) else do {
              let inode = inode_zero\<lparr>i_mode := EXT2_IMODE_DIR OR 0x1ed, i_uid := ucast uid, i_gid := ucast gid, i_links_count := 2\<rparr>;
              (ok, s) \<leftarrow> write_inode ino inode s;
              if \<not> ok then do { s \<leftarrow> free_inode ino s; Some (0, s) } else do {
                (ok, s) \<leftarrow> dir_add_entry ino [dot_char] ino 2 s;
                (ok, s) \<leftarrow> (if \<not> ok then Some (False, s) else dir_add_entry ino [dot_char, dot_char] parent_ino 2 s);
                if \<not> ok then do { s \<leftarrow> free_inode ino s; Some (0, s) } else do {
                  (ok, s) \<leftarrow> dir_add_entry parent_ino name ino 2 s;
                  if \<not> ok then do { s \<leftarrow> free_inode ino s; Some (0, s) } else do {
                    (par, s) \<leftarrow> read_inode parent_ino s;
                    (case par of None \<Rightarrow> Some (ino, s) | Some par \<Rightarrow> do {
                       (_, s) \<leftarrow> write_inode parent_ino (par\<lparr>i_links_count := i_links_count par + 1\<rparr>) s;
                       Some (ino, s) }) } } } } } } }) }"

definition ext2_unlink :: "bytes \<Rightarrow> ext2_fs \<Rightarrow> (bool \<times> ext2_fs) option" where
  "ext2_unlink path s = do {
     sp \<leftarrow> path_split path;
     (case sp of None \<Rightarrow> Some (False, s) | Some (parent, name) \<Rightarrow> do {
        (parent_ino, s) \<leftarrow> ext2_lookup_ino parent s;
        (ino, s) \<leftarrow> ext2_lookup_ino path s;
        if parent_ino = 0 \<or> ino = 0 then Some (False, s) else do {
          (r, s) \<leftarrow> read_inode ino s;
          (case r of None \<Rightarrow> Some (False, s) | Some inode \<Rightarrow> do {
             let inode = (if i_links_count inode > 0 then inode\<lparr>i_links_count := i_links_count inode - 1\<rparr> else inode);
             s \<leftarrow> (if i_links_count inode = 0 then do {
                 (inode, s) \<leftarrow> free_data inode s;
                 (_, s) \<leftarrow> write_inode ino (inode\<lparr>i_size := 0, i_blocks := 0\<rparr>) s;
                 free_inode ino s }
               else do { (_, s) \<leftarrow> write_inode ino inode s; Some s });
             dir_remove_entry parent_ino name s }) } }) }"

fun dotdot_blocks :: "u32 list \<Rightarrow> u32 \<Rightarrow> ext2_fs \<Rightarrow> ext2_fs option" where
  "dotdot_blocks [] parent s = Some s"
| "dotdot_blocks (bno # bs) parent s = (if bno = 0 then Some s else
     (let (r, s) = read_block bno s in case r of
        None \<Rightarrow> dotdot_blocks bs parent s
      | Some blk \<Rightarrow> do {
          a \<leftarrow> dotdot_scan blk 0 parent;
          (case a of None \<Rightarrow> dotdot_blocks bs parent s
           | Some blk \<Rightarrow> Some (snd (write_block bno blk s))) }))"

definition is_dir :: "ext2_inode \<Rightarrow> bool" where
  "is_dir inode \<longleftrightarrow> i_mode inode AND 0xf000 = 0x4000"

definition ext2_rename :: "bytes \<Rightarrow> bytes \<Rightarrow> ext2_fs \<Rightarrow> (bool \<times> ext2_fs) option" where
  "ext2_rename old_path new_path s = do {
     (src_ino, s) \<leftarrow> ext2_lookup_ino old_path s;
     if src_ino = 0 then Some (False, s) else do {
       (early_dst, s) \<leftarrow> ext2_lookup_ino new_path s;
       if early_dst \<noteq> 0 \<and> early_dst = src_ino then Some (True, s) else do {
         sp \<leftarrow> path_split old_path;
         (case sp of None \<Rightarrow> Some (False, s) | Some (src_parent, src_name) \<Rightarrow> do {
            dp \<leftarrow> path_split new_path;
            (case dp of None \<Rightarrow> Some (False, s) | Some (dst_parent, dst_name) \<Rightarrow> do {
               (src_parent_ino, s) \<leftarrow> ext2_lookup_ino src_parent s;
               (dst_parent_ino, s) \<leftarrow> ext2_lookup_ino dst_parent s;
               if src_parent_ino = 0 \<or> dst_parent_ino = 0 then Some (False, s) else do {
                 (r, s) \<leftarrow> read_inode src_ino s;
                 (case r of None \<Rightarrow> Some (False, s) | Some src_inode \<Rightarrow> do {
                    let ftype = (if is_dir src_inode then 2 else 1);
                    (dst_ino, s) \<leftarrow> ext2_lookup_ino new_path s;
                    (go, s) \<leftarrow> (if dst_ino = 0 then Some (True, s) else do {
                        (r, s) \<leftarrow> read_inode dst_ino s;
                        (case r of None \<Rightarrow> Some (False, s) | Some dst_inode \<Rightarrow>
                           if is_dir dst_inode then Some (False, s)
                           else do { (_, s) \<leftarrow> ext2_unlink new_path s; Some (True, s) }) });
                    if \<not> go then Some (False, s) else do {
                      (ok, s) \<leftarrow> dir_add_entry dst_parent_ino dst_name src_ino ftype s;
                      if \<not> ok then Some (False, s) else do {
                        (ok, s) \<leftarrow> dir_remove_entry src_parent_ino src_name s;
                        if \<not> ok then do { (_, s) \<leftarrow> dir_remove_entry dst_parent_ino dst_name s; Some (False, s) }
                        else if ftype = 2 \<and> src_parent_ino \<noteq> dst_parent_ino then do {
                          let (ok, s) = kmalloc_buf s;
                          s \<leftarrow> (if ok then dotdot_blocks (take 12 (i_block src_inode)) dst_parent_ino s else Some s);
                          Some (True, s) }
                        else Some (True, s) } } }) } }) }) } } }"

subsection \<open>Attributes\<close>

definition ext2_inode_stat :: "u32 \<Rightarrow> ext2_fs \<Rightarrow> ((u16 \<times> u32 \<times> u32) option \<times> ext2_fs) option" where
  "ext2_inode_stat ino s = do {
     (r, s) \<leftarrow> read_inode ino s;
     Some (map_option (\<lambda>inode. (i_mode inode, ucast (i_uid inode), ucast (i_gid inode))) r, s) }"

record ext2_stat =
  st_mode :: u16
  st_nlink :: u16
  st_uid :: u32
  st_gid :: u32
  st_size :: u32
  st_mtime :: u32

definition ext2_stat_full :: "u32 \<Rightarrow> ext2_fs \<Rightarrow> (ext2_stat option \<times> ext2_fs) option" where
  "ext2_stat_full ino s = do {
     (r, s) \<leftarrow> read_inode ino s;
     Some (map_option (\<lambda>inode. \<lparr>st_mode = i_mode inode, st_nlink = i_links_count inode, st_uid = ucast (i_uid inode),
       st_gid = ucast (i_gid inode), st_size = i_size inode, st_mtime = i_mtime inode\<rparr>) r, s) }"

definition ext2_chmod :: "bytes \<Rightarrow> u16 \<Rightarrow> ext2_fs \<Rightarrow> (int \<times> ext2_fs) option" where
  "ext2_chmod path mode s = do {
     (ino, s) \<leftarrow> ext2_lookup_ino path s;
     if ino = 0 then Some (- 1, s) else do {
       (r, s) \<leftarrow> read_inode ino s;
       (case r of None \<Rightarrow> Some (- 1, s) | Some inode \<Rightarrow> do {
          (ok, s) \<leftarrow> write_inode ino (inode\<lparr>i_mode := (i_mode inode AND 0xf000) OR (mode AND 0xfff)\<rparr>) s;
          Some (if ok then 0 else - 1, s) }) } }"

definition ext2_inode_chown :: "u32 \<Rightarrow> u32 \<Rightarrow> u32 \<Rightarrow> ext2_fs \<Rightarrow> (bool \<times> ext2_fs) option" where
  "ext2_inode_chown ino uid gid s = do {
     (r, s) \<leftarrow> read_inode ino s;
     (case r of None \<Rightarrow> Some (False, s) | Some inode \<Rightarrow>
        write_inode ino (inode\<lparr>i_uid := ucast uid, i_gid := ucast gid\<rparr>) s) }"

definition ext2_disk_stats :: "ext2_fs option \<Rightarrow> u64 \<times> u64" where
  "ext2_disk_stats fs = (case fs of None \<Rightarrow> (0, 0) | Some s \<Rightarrow>
     (ucast (s_blocks_count (cached_sb s)) * ucast (block_size s),
      ucast (s_free_blocks_count (cached_sb s)) * ucast (block_size s)))"

end
