(* ===== verification/Ext2safe.thy ===== *)
theory Ext2safe
  imports Ext2file
begin

text \<open>
  No operation of the ext2 file system faults, whatever the disk holds, whichever requests to the
  device fail and whenever memory runs out.  What the code relies on is the geometry of the
  superblock (\<open>geo_ok\<close>): block and inode sizes and counts per group within their bounds.
\<close>

subsection \<open>Well-formed file systems\<close>

record geometry =
  g_part :: u64
  g_bs :: u32
  g_ipg :: u32
  g_bpg :: u32
  g_isz :: u32
  g_fdb :: u32
  g_bgd :: u64
  g_nblk :: u32

definition geo :: "ext2_fs \<Rightarrow> geometry" where
  "geo s = \<lparr>g_part = part_lba s, g_bs = block_size s, g_ipg = inodes_per_group s, g_bpg = blocks_per_group s,
     g_isz = inode_size s, g_fdb = first_data_block s, g_bgd = bgd_block s,
     g_nblk = s_blocks_count (cached_sb s)\<rparr>"

definition geo_ok :: "geometry \<Rightarrow> bool" where
  "geo_ok G \<longleftrightarrow> g_bs G \<in> {1024, 2048, 4096} \<and> 0 < g_ipg G \<and> unat (g_ipg G) \<le> 8 * unat (g_bs G) \<and>
     0 < g_bpg G \<and> unat (g_bpg G) \<le> 8 * unat (g_bs G) \<and> 128 \<le> g_isz G \<and> g_isz G \<le> g_bs G"

definition fs_ok :: "geometry \<Rightarrow> ext2_fs \<Rightarrow> bool" where
  "fs_ok G s \<longleftrightarrow> geo_ok G \<and> geo s = G \<and> io_inv (fs_io s) \<and> length (s_pad (cached_sb s)) = 934"

lemma okD:
  assumes "fs_ok G s"
  shows "part_lba s = g_part G" "block_size s = g_bs G" "inodes_per_group s = g_ipg G" "blocks_per_group s = g_bpg G"
    "inode_size s = g_isz G" "first_data_block s = g_fdb G" "bgd_block s = g_bgd G" "geo_ok G" "io_inv (fs_io s)"
    "length (s_pad (cached_sb s)) = 934" "s_blocks_count (cached_sb s) = g_nblk G"
  using assms by (auto simp: fs_ok_def geo_def)

lemma ok_scratch [simp]: "fs_ok G (s\<lparr>scratch := b\<rparr>) = fs_ok G s"
  by (simp add: fs_ok_def geo_def)

lemma ok_io: "fs_ok G s \<Longrightarrow> io_inv d \<Longrightarrow> fs_ok G (s\<lparr>fs_io := d\<rparr>)"
  by (simp add: fs_ok_def geo_def)

text \<open>A computation that returns in a well-formed state, with a result that satisfies \<open>Q\<close>.\<close>

definition safe :: "geometry \<Rightarrow> ('a \<times> ext2_fs) option \<Rightarrow> ('a \<Rightarrow> bool) \<Rightarrow> bool" where
  "safe G m Q \<longleftrightarrow> (\<exists>r s'. m = Some (r, s') \<and> fs_ok G s' \<and> Q r)"

named_theorems safe_intros

lemma safe_Some [safe_intros]: "fs_ok G s \<Longrightarrow> Q r \<Longrightarrow> safe G (Some (r, s)) Q"
  by (simp add: safe_def)

lemma safe_bind: "safe G m P \<Longrightarrow> (\<And>r s'. P r \<Longrightarrow> fs_ok G s' \<Longrightarrow> safe G (f (r, s')) Q) \<Longrightarrow> safe G (m \<bind> f) Q"
  by (auto simp: safe_def)

lemma safe_weaken: "safe G m P \<Longrightarrow> (\<And>r. P r \<Longrightarrow> Q r) \<Longrightarrow> safe G m Q"
  by (auto simp: safe_def)

lemma safe_if [safe_intros]: "(b \<Longrightarrow> safe G m Q) \<Longrightarrow> (\<not> b \<Longrightarrow> safe G n Q) \<Longrightarrow> safe G (if b then m else n) Q"
  by simp

lemma safe_udiv [safe_intros]: "b \<noteq> 0 \<Longrightarrow> safe G (f (a div b)) Q \<Longrightarrow> safe G (udiv a b \<bind> f) Q"
  by (simp add: udiv_def)

lemma safe_umod [safe_intros]: "b \<noteq> 0 \<Longrightarrow> safe G (f (a mod b)) Q \<Longrightarrow> safe G (umod a b \<bind> f) Q"
  by (simp add: umod_def)

lemma safe_slice [safe_intros]:
  "off + n \<le> length b \<Longrightarrow> (\<And>d. length d = n \<Longrightarrow> safe G (f d) Q) \<Longrightarrow> safe G (slice off n b \<bind> f) Q"
  by (simp add: slice_def)

lemma safe_put [safe_intros]:
  "off + length d \<le> length b \<Longrightarrow> (\<And>b'. length b' = length b \<Longrightarrow> safe G (f b') Q) \<Longrightarrow> safe G (put off d b \<bind> f) Q"
  by (simp add: put_def)

subsection \<open>Block input and output\<close>

lemma put_sectors_length:
  "\<forall>l. length (m l) = 512 \<Longrightarrow> 512 * n \<le> length bs \<Longrightarrow> length (put_sectors lba n bs m l) = 512"
proof (induction lba n bs m rule: put_sectors.induct)
  case (2 lba n bs m)
  have "\<forall>l. length ((m(lba := take 512 bs)) l) = 512" using 2(2,3) by simp
  then show ?case using 2(1,3) by (simp del: fun_upd_apply)
qed simp

lemma blkdev_write_inv:
  assumes "io_inv d" "512 * n \<le> length bs" "blkdev_write lba n bs d = (r, d')"
  shows "io_inv d'"
proof -
  have "length (put_sectors lba k bs (io_sec d) l) = 512" if "k \<le> n" for k l
    using assms(1,2) that by (intro put_sectors_length) (auto simp: io_inv_def)
  then show ?thesis using assms(3) by (auto simp: blkdev_write_def io_inv_def split: option.splits)
qed

lemma blkdev_read_inv: "io_inv d \<Longrightarrow> blkdev_read lba n d = (r, d') \<Longrightarrow> io_inv d'"
  using read_sec [of lba n d r d'] by (simp add: io_inv_def)

lemma mem_get_inv: "io_inv d \<Longrightarrow> mem_get d = (r, d') \<Longrightarrow> io_inv d'"
  using mem_get_sec [of d r d'] by (simp add: io_inv_def)

lemma read_sectors_inv:
  "io_inv d \<Longrightarrow> length acc = 512 * k \<Longrightarrow> read_sectors lba secs k acc d = (r, d') \<Longrightarrow>
    io_inv d' \<and> (\<forall>b. r = Some b \<longrightarrow> 512 * secs \<le> length b)"
proof (induction lba secs k acc d rule: read_sectors.induct)
  case (1 lba secs k acc d)
  show ?case
  proof (cases "k < secs")
    case False
    then show ?thesis using 1(2-4) by (auto simp: read_sectors.simps [of lba secs k])
  next
    case True
    let ?n = "if secs - k > 8 then 8 else secs - k"
    obtain r1 d1 where b: "blkdev_read (lba + of_nat k) ?n d = (r1, d1)" by fastforce
    have inv: "io_inv d1" using blkdev_read_inv [OF 1(2) b] .
    show ?thesis
    proof (cases r1)
      case None
      then show ?thesis using 1(4) True b inv by (simp add: read_sectors.simps [of lba secs k])
    next
      case (Some c)
      have "length c = 512 * ?n" using length_read [OF 1(2) b [unfolded Some]] .
      show ?thesis
      proof (cases "secs - k > 8")
        case big: True
        then have "length (acc @ c) = 512 * (k + 8)" using 1(3) \<open>length c = _\<close> by simp
        then show ?thesis
          using 1(1) [OF True refl b [symmetric] refl Some inv] 1(4) True b Some
          by (simp add: read_sectors.simps [of lba secs k])
      next
        case small: False
        then have "length (acc @ c) = 512 * secs" using 1(3) \<open>length c = _\<close> True by simp
        then show ?thesis
          using 1(4) True b Some inv small
          by (auto simp: read_sectors.simps [of lba secs k] read_sectors.simps [of lba secs "k + 8"] split: if_splits)
      qed
    qed
  qed
qed

lemma write_sectors_inv:
  "io_inv d \<Longrightarrow> 512 * secs \<le> length buf \<Longrightarrow> write_sectors lba secs k buf d = (r, d') \<Longrightarrow> io_inv d'"
proof (induction lba secs k buf d rule: write_sectors.induct)
  case (1 lba secs k buf d)
  show ?case
  proof (cases "k < secs")
    case False
    then show ?thesis using 1(2,4) by (simp add: write_sectors.simps [of lba secs k])
  next
    case True
    let ?n = "if secs - k > 8 then 8 else secs - k"
    obtain r1 d1 where b: "blkdev_write (lba + of_nat k) ?n (drop (k * 512) buf) d = (r1, d1)" by fastforce
    have "512 * ?n \<le> length (drop (k * 512) buf)" using 1(3) True by auto
    then have inv: "io_inv d1" using blkdev_write_inv [OF 1(2) _ b] by blast
    show ?thesis
      using 1(1) [OF True refl b [symmetric] refl _ inv 1(3)] 1(4) True b inv
      by (cases r1) (simp_all add: write_sectors.simps [of lba secs k])
  qed
qed

lemma kmalloc_ok: "fs_ok G s \<Longrightarrow> kmalloc_buf s = (r, s') \<Longrightarrow> fs_ok G s'"
  by (auto simp: kmalloc_buf_def split: prod.splits intro!: ok_io dest: mem_get_inv okD(9))

lemma bs_secs: "geo_ok G \<Longrightarrow> 512 * unat (g_bs G div 512) = unat (g_bs G)"
  by (auto simp: geo_ok_def unat_div)

lemma read_block_ok:
  assumes "fs_ok G s" "read_block n s = (r, s')"
  shows "fs_ok G s'" "r = Some b \<Longrightarrow> length b = unat (g_bs G)"
proof -
  obtain k s1 where k: "kmalloc_buf s = (k, s1)" by fastforce
  have s1: "fs_ok G s1" using kmalloc_ok [OF assms(1) k] .
  obtain r1 d where rd: "read_sectors (part_lba s + ucast n * ucast (block_size s div 512)) (unat (block_size s div 512)) 0 []
      (fs_io s1) = (r1, d)" by fastforce
  have i: "io_inv d" "\<And>b. r1 = Some b \<Longrightarrow> 512 * unat (block_size s div 512) \<le> length b"
    using read_sectors_inv [OF okD(9) [OF s1] _ rd] by auto
  have "r = (if k then map_option (take (unat (block_size s1))) r1 else None)" "s' = (if k then s1\<lparr>fs_io := d\<rparr> else s1)"
    using assms(2) k rd by (auto simp: read_block_def Let_def split: if_splits)
  then show "fs_ok G s'" "r = Some b \<Longrightarrow> length b = unat (g_bs G)"
    using s1 i ok_io [OF s1] bs_secs [OF okD(8) [OF s1]] by (auto simp: okD [OF s1] okD [OF assms(1)] split: if_splits)
qed

lemma write_block_ok:
  assumes "fs_ok G s" "length buf = unat (g_bs G)" "write_block n buf s = (r, s')"
  shows "fs_ok G s'"
proof -
  obtain k s1 where k: "kmalloc_buf s = (k, s1)" by fastforce
  have s1: "fs_ok G s1" using kmalloc_ok [OF assms(1) k] .
  obtain r1 d where wr: "write_sectors (part_lba s + ucast n * ucast (block_size s div 512)) (unat (block_size s div 512)) 0 buf
      (fs_io s1) = (r1, d)" by fastforce
  have "io_inv d"
    using write_sectors_inv [OF okD(9) [OF s1] _ wr] assms(2) bs_secs [OF okD(8) [OF s1]] by (simp add: okD [OF assms(1)])
  then show ?thesis
    using assms(3) k wr s1 ok_io [OF s1] by (auto simp: write_block_def Let_def split: if_splits)
qed

lemma length_super_bytes: "length (super_bytes sb) = 90 + length (s_pad sb)"
  by (simp add: super_bytes_def)

lemma write_super_ok:
  assumes "fs_ok G s" "write_super s = (r, s')"
  shows "fs_ok G s'"
proof -
  obtain k s1 where k: "kmalloc_buf s = (k, s1)" by fastforce
  have s1: "fs_ok G s1" using kmalloc_ok [OF assms(1) k] .
  obtain r1 d where wr: "blkdev_write (part_lba s1 + 2) 2 (super_bytes (cached_sb s1)) (fs_io s1) = (r1, d)" by fastforce
  have "io_inv d"
    using blkdev_write_inv [OF okD(9) [OF s1] _ wr] okD(10) [OF s1] by (simp add: length_super_bytes)
  then show ?thesis using assms(2) k wr s1 ok_io [OF s1] by (auto simp: write_super_def split: if_splits)
qed

lemma safe_kmalloc [safe_intros]:
  "fs_ok G s \<Longrightarrow> (\<And>r s'. fs_ok G s' \<Longrightarrow> safe G (f r s') Q) \<Longrightarrow> safe G (case kmalloc_buf s of (r, s) \<Rightarrow> f r s) Q"
  using kmalloc_ok [of G s] by (auto split: prod.split)

lemma safe_read [safe_intros]:
  "fs_ok G s \<Longrightarrow> (\<And>s'. fs_ok G s' \<Longrightarrow> safe G (f None s') Q) \<Longrightarrow>
    (\<And>b s'. fs_ok G s' \<Longrightarrow> length b = unat (g_bs G) \<Longrightarrow> safe G (f (Some b) s') Q) \<Longrightarrow>
    safe G (case read_block n s of (r, s) \<Rightarrow> f r s) Q"
  using read_block_ok [of G s n] by (auto split: prod.split) (metis option.exhaust)

lemma safe_write [safe_intros]:
  "fs_ok G s \<Longrightarrow> length buf = unat (g_bs G) \<Longrightarrow> (\<And>r s'. fs_ok G s' \<Longrightarrow> safe G (f r s') Q) \<Longrightarrow>
    safe G (case write_block n buf s of (r, s) \<Rightarrow> f r s) Q"
  using write_block_ok [of G s buf n] by (auto split: prod.split)

lemma safe_write_last [safe_intros]:
  "fs_ok G s \<Longrightarrow> length buf = unat (g_bs G) \<Longrightarrow> (\<And>r. Q r) \<Longrightarrow> safe G (Some (write_block n buf s)) Q"
  using write_block_ok [of G s buf n] by (cases "write_block n buf s") (auto simp: safe_def)

lemma safe_super [safe_intros]:
  "fs_ok G s \<Longrightarrow> (\<And>r s'. fs_ok G s' \<Longrightarrow> safe G (f r s') Q) \<Longrightarrow> safe G (case write_super s of (r, s) \<Rightarrow> f r s) Q"
  using write_super_ok [of G s] by (auto split: prod.split)

subsection \<open>Inodes and group descriptors\<close>

definition inode_ok :: "ext2_inode \<Rightarrow> bool" where
  "inode_ok i \<longleftrightarrow> length (i_block i) = 15 \<and> length (i_osd2 i) = 12"

definition bgd_ok :: "ext2_bgd \<Rightarrow> bool" where
  "bgd_ok g \<longleftrightarrow> length (bg_reserved g) = 12"

lemma inode_of_ok: "length b = 128 \<Longrightarrow> inode_ok (inode_of b)"
  by (simp add: inode_ok_def inode_of_def)

lemma bgd_of_ok: "length b = 32 \<Longrightarrow> bgd_ok (bgd_of b)"
  by (simp add: bgd_ok_def bgd_of_def)

lemma length_inode_bytes [simp]: "inode_ok i \<Longrightarrow> length (inode_bytes i) = 128"
  by (simp add: inode_ok_def inode_bytes_def length_concat o_def sum_list_triv)

lemma length_bgd_bytes [simp]: "bgd_ok g \<Longrightarrow> length (bgd_bytes g) = 32"
  by (simp add: bgd_ok_def bgd_bytes_def)

lemma table_slot:
  fixes i sz bs :: u32
  assumes "0 < sz" "sz \<le> bs"
  shows "bs div sz \<noteq> 0" "unat ((i mod (bs div sz)) * sz) + unat sz \<le> unat bs"
    "unat ((i mod (bs div sz)) * sz) = (unat i mod (unat bs div unat sz)) * unat sz"
proof -
  have z: "0 < unat sz" "unat sz \<le> unat bs" using assms by (simp_all add: word_less_nat_alt word_le_nat_alt)
  then have q: "0 < unat bs div unat sz" by (simp add: div_greater_zero_iff)
  then show "bs div sz \<noteq> 0" by (simp add: word_unat_eq_iff unat_div)
  let ?s = "unat i mod (unat bs div unat sz)"
  have "?s + 1 \<le> unat bs div unat sz" using q by (simp add: Suc_le_eq)
  then have "(?s + 1) * unat sz \<le> unat bs div unat sz * unat sz" by (rule mult_le_mono1)
  also have "\<dots> \<le> unat bs" by simp
  finally have le: "?s * unat sz + unat sz \<le> unat bs" by simp
  have "unat (i mod (bs div sz)) = ?s" by (simp add: unat_mod unat_div)
  then show eq: "unat ((i mod (bs div sz)) * sz) = ?s * unat sz"
    using le unat_less [of bs] by (subst unat_mult_lem [THEN iffD1]) simp_all
  show "unat ((i mod (bs div sz)) * sz) + unat sz \<le> unat bs" using le eq by simp
qed

lemma bgd_slot:
  assumes "geo_ok G"
  shows "g_bs G div 32 \<noteq> 0" "unat ((i mod (g_bs G div 32)) * 32) + 32 \<le> unat (g_bs G)"
proof -
  have "(32 :: u32) \<le> g_bs G" using assms by (auto simp: geo_ok_def)
  then show "g_bs G div 32 \<noteq> 0" "unat ((i mod (g_bs G div 32)) * 32) + 32 \<le> unat (g_bs G)"
    using table_slot(1,2) [of 32 "g_bs G"] by simp_all
qed

lemma inode_slot:
  assumes "geo_ok G"
  shows "g_isz G \<noteq> 0" "g_bs G div g_isz G \<noteq> 0"
    "unat ((i mod (g_bs G div g_isz G)) * g_isz G) + 128 \<le> unat (g_bs G)"
proof -
  have sz: "128 \<le> g_isz G" "g_isz G \<le> g_bs G" using assms by (simp_all add: geo_ok_def)
  have "0 < unat (g_isz G)" using sz(1) by (simp add: word_le_nat_alt)
  then have p: "0 < g_isz G" by (simp add: word_less_nat_alt)
  show "g_isz G \<noteq> 0" using p by auto
  show "g_bs G div g_isz G \<noteq> 0" "unat ((i mod (g_bs G div g_isz G)) * g_isz G) + 128 \<le> unat (g_bs G)"
    using table_slot(1) [OF p sz(2)] table_slot(2) [OF p sz(2), of i] sz(1) by (simp_all add: word_le_nat_alt)
qed

lemma geo_nz: "geo_ok G \<Longrightarrow> g_ipg G \<noteq> 0" "geo_ok G \<Longrightarrow> g_bpg G \<noteq> 0"
  by (auto simp: geo_ok_def)

lemmas geo_simps = bgd_slot inode_slot geo_nz

lemma read_inode_safe:
  assumes "fs_ok G s"
  shows "safe G (read_inode ino s) (\<lambda>r. \<forall>i. r = Some i \<longrightarrow> inode_ok i)"
proof -
  note g = okD(8) [OF assms]
  show ?thesis
    unfolding read_inode_def Let_def okD [OF assms]
    by (auto intro!: safe_intros assms inode_of_ok simp: geo_simps [OF g] okD)
qed

lemma safe_read_inode [safe_intros]:
  assumes "fs_ok G s" "\<And>s'. fs_ok G s' \<Longrightarrow> safe G (f (None, s')) Q"
    "\<And>i s'. fs_ok G s' \<Longrightarrow> inode_ok i \<Longrightarrow> safe G (f (Some i, s')) Q"
  shows "safe G (read_inode ino s \<bind> f) Q"
  using assms by (intro safe_bind [OF read_inode_safe]) (metis option.exhaust)+

lemma write_inode_safe [safe_intros]:
  assumes "fs_ok G s" "inode_ok i" "\<And>r. Q r"
  shows "safe G (write_inode ino i s) Q"
proof -
  note g = okD(8) [OF assms(1)]
  show ?thesis
    unfolding write_inode_def Let_def okD [OF assms(1)]
    by (auto intro!: safe_intros assms simp: geo_simps [OF g] okD assms(2))
qed

lemma safe_write_inode [safe_intros]:
  assumes "fs_ok G s" "inode_ok i" "\<And>r s'. fs_ok G s' \<Longrightarrow> safe G (f (r, s')) Q"
  shows "safe G (write_inode ino i s \<bind> f) Q"
  using assms by (intro safe_bind [OF write_inode_safe, where P = "\<lambda>_. True"]) auto

lemma safe_read_bgd [safe_intros]:
  assumes "fs_ok G s" "\<And>s'. fs_ok G s' \<Longrightarrow> safe G (f (None, s')) Q"
    "\<And>d s'. fs_ok G s' \<Longrightarrow> bgd_ok d \<Longrightarrow> safe G (f (Some d, s')) Q"
  shows "safe G (read_bgd g s \<bind> f) Q"
proof -
  have "safe G (read_bgd g s) (\<lambda>r. \<forall>d. r = Some d \<longrightarrow> bgd_ok d)"
    unfolding read_bgd_def Let_def okD [OF assms(1)]
    by (auto intro!: safe_intros assms(1) bgd_of_ok simp: geo_simps [OF okD(8) [OF assms(1)]] okD)
  then show ?thesis using assms by (elim safe_bind) (metis option.exhaust)
qed

lemma safe_write_bgd [safe_intros]:
  assumes "fs_ok G s" "bgd_ok d" "\<And>r s'. fs_ok G s' \<Longrightarrow> safe G (f (r, s')) Q"
  shows "safe G (write_bgd g d s \<bind> f) Q"
proof -
  have "safe G (write_bgd g d s) (\<lambda>_. True)"
    unfolding write_bgd_def Let_def okD [OF assms(1)]
    by (auto intro!: safe_intros assms(1,2) simp: geo_simps [OF okD(8) [OF assms(1)]] okD assms(2))
  then show ?thesis using assms by (elim safe_bind) auto
qed

lemma inode_ok_upd [simp]:
  "inode_ok (i\<lparr>i_mode := a\<rparr>) = inode_ok i" "inode_ok (i\<lparr>i_uid := a\<rparr>) = inode_ok i" "inode_ok (i\<lparr>i_gid := a\<rparr>) = inode_ok i"
  "inode_ok (i\<lparr>i_size := c\<rparr>) = inode_ok i" "inode_ok (i\<lparr>i_blocks := c\<rparr>) = inode_ok i"
  "inode_ok (i\<lparr>i_links_count := a\<rparr>) = inode_ok i"
  "inode_ok i \<Longrightarrow> length bs = 15 \<Longrightarrow> inode_ok (i\<lparr>i_block := bs\<rparr>)"
  by (simp_all add: inode_ok_def)

lemma bgd_ok_upd [simp]:
  "bgd_ok (d\<lparr>bg_free_blocks_count := n\<rparr>) = bgd_ok d" "bgd_ok (d\<lparr>bg_free_inodes_count := n\<rparr>) = bgd_ok d"
  by (simp_all add: bgd_ok_def)

subsection \<open>Allocation\<close>

lemma find_clear_ok:
  assumes "unat n \<le> 8 * length bmap"
  shows "\<exists>r. find_clear n bmap i = Some r \<and> (\<forall>k. r = Some k \<longrightarrow> k < n)"
  using assms
proof (induction n bmap i rule: find_clear.induct)
  case (1 n bmap i)
  show ?case
  proof (cases "i < n")
    case False
    then show ?thesis by (simp add: find_clear.simps [of n bmap i])
  next
    case True
    then have "unat (i div 8) < length bmap" using 1(2) by (simp add: word_less_nat_alt unat_div)
    then show ?thesis
      using 1(1) [OF True _ _ 1(2)] True by (auto simp: find_clear.simps [of n bmap i])
  qed
qed

lemma safe_find_clear [safe_intros]:
  assumes "unat n \<le> 8 * length bmap" "safe G (f None) Q" "\<And>k. k < n \<Longrightarrow> safe G (f (Some k)) Q"
  shows "safe G (find_clear n bmap i \<bind> f) Q"
  using find_clear_ok [OF assms(1), of i] assms(2,3) by (auto, metis option.exhaust)

lemma safe_bmap_set [safe_intros]:
  assumes "unat k < 8 * length bmap" "\<And>b. length b = length bmap \<Longrightarrow> safe G (f b) Q"
  shows "safe G (bmap_set k bmap \<bind> f) Q"
proof -
  have "unat (k div 8) < length bmap" using assms(1) by (simp add: unat_div)
  then show ?thesis using assms(2) by (simp add: bmap_set_def)
qed

lemma safe_bmap_clear [safe_intros]:
  assumes "unat k < 8 * length bmap" "\<And>b. length b = length bmap \<Longrightarrow> safe G (f b) Q"
  shows "safe G (bmap_clear k bmap \<bind> f) Q"
proof -
  have "unat (k div 8) < length bmap" using assms(1) by (simp add: unat_div)
  then show ?thesis using assms(2) by (simp add: bmap_clear_def)
qed

lemma ok_free_blocks [simp]:
  "fs_ok G (s\<lparr>cached_sb := (cached_sb s)\<lparr>s_free_blocks_count := n\<rparr>\<rparr>) = fs_ok G s"
  "fs_ok G (s\<lparr>cached_sb := (cached_sb s)\<lparr>s_free_inodes_count := n\<rparr>\<rparr>) = fs_ok G s"
  by (simp_all add: fs_ok_def geo_def)

lemma ok_write [simp]: "fs_ok G s \<Longrightarrow> length buf = unat (g_bs G) \<Longrightarrow> fs_ok G (snd (write_block n buf s))"
  using write_block_ok [of G s buf n] by (cases "write_block n buf s") auto

text \<open>The last group has at most as many blocks as the others.\<close>

definition group_blocks :: "u32 \<Rightarrow> u32 \<Rightarrow> u32 \<Rightarrow> u32" where
  "group_blocks g bpg count = (if (g + 1) * bpg > count then count - g * bpg else bpg)"

lemma group_blocks_le:
  assumes "0 < bpg" "g < (count + bpg - 1) div bpg"
  shows "unat (group_blocks g bpg count) \<le> unat bpg"
proof (cases "(g + 1) * bpg > count")
  case False
  then show ?thesis by (simp add: group_blocks_def)
next
  case True
  let ?c = "unat count" and ?b = "unat bpg" and ?g = "unat g"
  have b: "0 < ?b" using assms(1) by (simp add: word_less_nat_alt)
  have g: "?g < unat (count + bpg - 1) div ?b" using assms(2) by (simp add: word_less_nat_alt unat_div)
  then have gb: "(?g + 1) * ?b \<le> unat (count + bpg - 1)"
    using b by (metis Suc_eq_plus1 Suc_leI div_times_less_eq_dividend dual_order.trans mult_le_mono1)
  have "unat (count + bpg - 1) = ?c + ?b - 1"
  proof (rule ccontr)
    assume n: "unat (count + bpg - 1) \<noteq> ?c + ?b - 1"
    have e: "count + bpg - 1 = of_nat (?c + ?b - 1)" using b by (simp add: of_nat_diff)
    then have "unat (count + bpg - 1) = (?c + ?b - 1) mod 2 ^ 32" by (simp only: e unat_of_nat) simp
    moreover have "?c + ?b - 1 < 2 * 2 ^ 32" using unat_less [of count] unat_less [of bpg] by simp
    ultimately have "unat (count + bpg - 1) = ?c + ?b - 1 - 2 ^ 32" using n
      by (metis (no_types, lifting) le_mod_geq linorder_not_less mod_less mult_2 less_diff_conv2)
    then have "unat (count + bpg - 1) < ?b" using unat_less [of count] b by simp
    then show False using gb by (simp add: mult_eq_if split: if_splits)
  qed
  then have le: "?g * ?b + ?b \<le> ?c + ?b - 1" using gb by simp
  then have "?g * ?b < ?c" using b by simp
  have m: "unat (g * bpg) = ?g * ?b"
    using \<open>?g * ?b < ?c\<close> unat_less [of count] by (intro unat_mult_lem [THEN iffD1]) simp
  have "unat (g * bpg + bpg) \<le> ?g * ?b + ?b" unfolding m [symmetric] by (simp add: unat_word_ariths(1))
  then have "unat ((g + 1) * bpg) \<le> ?g * ?b + ?b" by (simp add: distrib_right)
  then have "?c < ?g * ?b + ?b" using True by (simp add: word_less_nat_alt)
  moreover have "unat (count - g * bpg) = ?c - ?g * ?b"
    using \<open>?g * ?b < ?c\<close> m by (subst unat_sub) (simp_all add: word_le_nat_alt)
  ultimately show ?thesis using True by (simp add: group_blocks_def)
qed

lemma alloc_block_group_safe:
  assumes "fs_ok G s" "g < (g_nblk G + g_bpg G - 1) div g_bpg G"
  shows "safe G (alloc_block_group g s) (\<lambda>_. True)"
proof -
  note g = okD(8) [OF assms(1)]
  have "unat (group_blocks g (g_bpg G) (g_nblk G)) \<le> unat (g_bpg G)"
    using g assms(2) by (intro group_blocks_le) (simp_all add: geo_ok_def)
  also have "\<dots> \<le> 8 * unat (g_bs G)" using g by (simp add: geo_ok_def)
  finally have "unat (group_blocks g (g_bpg G) (g_nblk G)) \<le> 8 * unat (g_bs G)" .
  moreover from this have "k < group_blocks g (g_bpg G) (g_nblk G) \<Longrightarrow> unat k < 8 * unat (g_bs G)" for k
    by (simp add: word_less_nat_alt)
  ultimately show ?thesis
    unfolding alloc_block_group_def Let_def
    by (auto intro!: safe_intros assms(1) simp: okD group_blocks_def split: if_splits)
qed

lemma alloc_block_loop_safe:
  assumes "fs_ok G s" "n = (g_nblk G + g_bpg G - 1) div g_bpg G"
  shows "safe G (alloc_block_loop n g s) (\<lambda>_. True)"
  using assms
proof (induction n g s rule: alloc_block_loop.induct)
  case (1 n g s)
  show ?case
  proof (cases "g < n")
    case False
    then show ?thesis using 1(2) by (subst alloc_block_loop.simps) (auto intro: safe_intros)
  next
    case True
    have "safe G (alloc_block_group g s) (\<lambda>_. True)"
      using alloc_block_group_safe [OF 1(2)] True 1(3) by simp
    then obtain r s' where r: "alloc_block_group g s = Some (r, s')" "fs_ok G s'" by (auto simp: safe_def)
    show ?thesis
      using 1(1) [OF True r(1) refl _ r(2) 1(3)] r True
      by (subst alloc_block_loop.simps) (cases r, auto intro: safe_intros)
  qed
qed

lemma safe_alloc_block [safe_intros]:
  assumes "fs_ok G s" "\<And>b s'. fs_ok G s' \<Longrightarrow> safe G (f (b, s')) Q"
  shows "safe G (alloc_block s \<bind> f) Q"
proof -
  have "safe G (alloc_block s) (\<lambda>_. True)"
    unfolding alloc_block_def okD [OF assms(1)]
    by (intro safe_intros alloc_block_loop_safe assms(1) refl geo_nz okD(8) [OF assms(1)])
  then show ?thesis using assms by (elim safe_bind) auto
qed

text \<open>Computations that return a state only.\<close>

definition safe0 :: "geometry \<Rightarrow> ext2_fs option \<Rightarrow> bool" where
  "safe0 G m \<longleftrightarrow> (\<exists>s'. m = Some s' \<and> fs_ok G s')"

lemma safe0_iff: "safe0 G m \<longleftrightarrow> safe G (map_option (Pair ()) m) (\<lambda>_. True)"
  by (cases m) (simp_all add: safe0_def safe_def)

lemma safe0_bind [safe_intros]: "safe0 G m \<Longrightarrow> (\<And>s'. fs_ok G s' \<Longrightarrow> safe G (f s') Q) \<Longrightarrow> safe G (m \<bind> f) Q"
  by (auto simp: safe0_def)

lemma map_bind: "map_option f (m \<bind> g) = m \<bind> (\<lambda>x. map_option f (g x))"
  by (cases m) simp_all

lemma map_case_prod: "map_option f (case p of (a, b) \<Rightarrow> g a b) = (case p of (a, b) \<Rightarrow> map_option f (g a b))"
  by (cases p) simp

lemma map_case_option:
  "map_option f (case x of None \<Rightarrow> a | Some y \<Rightarrow> b y) = (case x of None \<Rightarrow> map_option f a | Some y \<Rightarrow> map_option f (b y))"
  by (cases x) simp_all

lemmas safe0_simps = safe0_iff map_bind map_case_prod map_case_option if_distrib [of "map_option (Pair ())"]

lemma mod_bound: "0 < n \<Longrightarrow> unat (n :: u32) \<le> m \<Longrightarrow> unat (i mod n) < m"
  by (metis (no_types, lifting) less_le_trans unat_mod mod_less_divisor unat_gt_0 word_neq_0_conv)

lemma free_block_safe [safe_intros]:
  assumes "fs_ok G s"
  shows "safe0 G (free_block b s)"
proof -
  note g = okD(8) [OF assms]
  have "unat (i mod g_bpg G) < 8 * unat (g_bs G)" for i
    using g by (intro mod_bound) (simp_all add: geo_ok_def)
  then show ?thesis
    unfolding free_block_def Let_def safe0_simps okD [OF assms]
    by (auto intro!: safe_intros assms simp: geo_simps [OF g] okD)
qed

lemma alloc_inode_group_safe:
  assumes "fs_ok G s"
  shows "safe G (alloc_inode_group g s) (\<lambda>_. True)"
proof -
  have "unat (g_ipg G) \<le> 8 * unat (g_bs G)" using okD(8) [OF assms] by (simp add: geo_ok_def)
  moreover from this have "k < g_ipg G \<Longrightarrow> unat k < 8 * unat (g_bs G)" for k by (simp add: word_less_nat_alt)
  ultimately show ?thesis
    unfolding alloc_inode_group_def Let_def
    by (auto intro!: safe_intros assms simp: okD)
qed

lemma alloc_inode_loop_safe:
  assumes "fs_ok G s"
  shows "safe G (alloc_inode_loop n g s) (\<lambda>_. True)"
  using assms
proof (induction n g s rule: alloc_inode_loop.induct)
  case (1 n g s)
  show ?case
  proof (cases "g < n")
    case False
    then show ?thesis using 1(2) by (subst alloc_inode_loop.simps) (auto intro: safe_intros)
  next
    case True
    obtain r s' where r: "alloc_inode_group g s = Some (r, s')" "fs_ok G s'"
      using alloc_inode_group_safe [OF 1(2), of g] by (auto simp: safe_def)
    show ?thesis
      using 1(1) [OF True r(1) refl _ r(2)] r True
      by (subst alloc_inode_loop.simps) (cases r, auto intro: safe_intros)
  qed
qed

lemma safe_alloc_inode [safe_intros]:
  assumes "fs_ok G s" "\<And>b s'. fs_ok G s' \<Longrightarrow> safe G (f (b, s')) Q"
  shows "safe G (alloc_inode s \<bind> f) Q"
proof -
  have "safe G (alloc_inode s) (\<lambda>_. True)"
    unfolding alloc_inode_def okD [OF assms(1)]
    by (intro safe_intros alloc_inode_loop_safe assms(1) geo_nz okD(8) [OF assms(1)])
  then show ?thesis using assms by (elim safe_bind) auto
qed

lemma free_inode_safe [safe_intros]:
  assumes "fs_ok G s"
  shows "safe0 G (free_inode i s)"
proof -
  note g = okD(8) [OF assms]
  have "unat (i mod g_ipg G) < 8 * unat (g_bs G)" for i
    using g by (intro mod_bound) (simp_all add: geo_ok_def)
  then show ?thesis
    unfolding free_inode_def Let_def safe0_simps okD [OF assms]
    by (auto intro!: safe_intros assms simp: geo_simps [OF g] okD)
qed

end
