(* ===== verification/Dirents.thy ===== *)
theory Dirents
  imports Ext2dir
begin

text \<open>
  What the scans of a directory block compute.  \<open>dir_walk\<close> lists the entries of a block that the
  code reaches from an offset, up to the first invalid one, as triples of offset, inode number and name.
  The scans are total on arbitrary bytes: \<open>dirent_valid\<close> keeps every access inside the block.
\<close>

lemma dirent_valid_Some: "\<exists>v. dirent_valid b p = Some v"
proof (cases "p > length b \<or> length b - p < 8")
  case False
  then have "p + 6 < length b" "p + 4 + 2 \<le> length b" by linarith+
  then show ?thesis using False by (simp add: dirent_valid_def de_name_len_def de_rec_len_def slice_def)
qed (auto simp: dirent_valid_def)

lemma dirent_fields:
  assumes "dirent_valid b p = Some True"
  obtains ino rl nl nm where "de_inode b p = Some ino" "de_rec_len b p = Some rl" "de_name_len b p = Some nl"
    "de_name b p nl = Some nm" "length nm = unat nl" "unat (dirent_len nl) \<le> unat rl" "8 + unat nl \<le> unat rl"
    "p + unat rl \<le> length b"
proof -
  obtain nl rl where f: "de_name_len b p = Some nl" "de_rec_len b p = Some rl" "\<not> ucast rl < dirent_len nl"
      "\<not> unat rl > length b - p" "p + 8 \<le> length b"
    using assms by (auto simp: dirent_valid_def split: if_splits bind_splits)
  have l: "unat (dirent_len nl) \<le> unat rl" using f(3) by (simp add: word_less_nat_alt unat_ucast_16)
  then have n: "8 + unat nl \<le> unat rl" unfolding unat_dirent_len by (rule order_trans [rotated]) simp
  have le: "p + unat rl \<le> length b" using f(4,5) by simp
  have "de_inode b p = Some (le_word (take 4 (drop p b)))" using f(5) by (simp add: de_inode_def slice_def)
  moreover have "de_name b p nl = Some (take (unat nl) (drop (p + 8) b))" using n le by (simp add: de_name_def slice_def)
  moreover have "length (take (unat nl) (drop (p + 8) b)) = unat nl" using n le by simp
  ultimately show ?thesis using that f(1,2) l n le by blast
qed

definition ent_ino :: "bytes \<Rightarrow> nat \<Rightarrow> u32" where "ent_ino b p = the (de_inode b p)"
definition ent_rec :: "bytes \<Rightarrow> nat \<Rightarrow> nat" where "ent_rec b p = unat (the (de_rec_len b p))"
definition ent_name :: "bytes \<Rightarrow> nat \<Rightarrow> bytes" where "ent_name b p = the (de_name b p (the (de_name_len b p)))"

lemma ent_fields:
  assumes "dirent_valid b p = Some True"
  shows "de_inode b p = Some (ent_ino b p)" "de_name_len b p = Some (of_nat (length (ent_name b p)))"
    "de_name b p (of_nat (length (ent_name b p))) = Some (ent_name b p)" "length (ent_name b p) < 256"
    "\<exists>rl. de_rec_len b p = Some rl \<and> unat rl = ent_rec b p" "8 + length (ent_name b p) \<le> ent_rec b p"
    "p + ent_rec b p \<le> length b"
proof -
  obtain ino rl nl nm where f: "de_inode b p = Some ino" "de_rec_len b p = Some rl" "de_name_len b p = Some nl"
    "de_name b p nl = Some nm" "length nm = unat nl" "unat (dirent_len nl) \<le> unat rl" "8 + unat nl \<le> unat rl"
    "p + unat rl \<le> length b"
    using assms by (rule dirent_fields)
  have e: "ent_ino b p = ino" "ent_rec b p = unat rl" "ent_name b p = nm"
    using f by (simp_all add: ent_ino_def ent_rec_def ent_name_def)
  have nl: "of_nat (length nm) = nl" using f(5) by simp
  show "de_inode b p = Some (ent_ino b p)" "de_name_len b p = Some (of_nat (length (ent_name b p)))"
    "de_name b p (of_nat (length (ent_name b p))) = Some (ent_name b p)"
    "\<exists>rl. de_rec_len b p = Some rl \<and> unat rl = ent_rec b p" "8 + length (ent_name b p) \<le> ent_rec b p"
    "p + ent_rec b p \<le> length b"
    unfolding e nl using f by simp_all
  show "length (ent_name b p) < 256" unfolding e f(5) using unat_less [of nl] by simp
qed

function dir_walk :: "bytes \<Rightarrow> nat \<Rightarrow> (nat \<times> u32 \<times> bytes) list" where
  "dir_walk b p = (if p < length b \<and> dirent_valid b p = Some True
     then (p, ent_ino b p, ent_name b p) # dir_walk b (p + ent_rec b p) else [])"
  by pat_completeness auto
termination
  by (relation "measure (\<lambda>(b, p). length b - p)") (auto dest: ent_fields(6))

declare dir_walk.simps [simp del]

lemma dir_walk_Nil: "\<not> (p < length b \<and> dirent_valid b p = Some True) \<Longrightarrow> dir_walk b p = []"
  by (simp add: dir_walk.simps [of b p])

lemma dir_walk_Cons: "p < length b \<Longrightarrow> dirent_valid b p = Some True \<Longrightarrow>
    dir_walk b p = (p, ent_ino b p, ent_name b p) # dir_walk b (p + ent_rec b p)"
  by (simp add: dir_walk.simps [of b p])

lemma walk_induct [case_names stop step]:
  assumes "\<And>p. \<not> (p < length b \<and> dirent_valid b p = Some True) \<Longrightarrow> P p"
    "\<And>p. p < length b \<Longrightarrow> dirent_valid b p = Some True \<Longrightarrow> P (p + ent_rec b p) \<Longrightarrow> P p"
  shows "P p"
proof (induction "length b - p" arbitrary: p rule: less_induct)
  case less
  show ?case
  proof (cases "p < length b \<and> dirent_valid b p = Some True")
    case True
    then have "P (p + ent_rec b p)" using ent_fields(6) [of b p] by (intro less) linarith
    then show ?thesis using True assms(2) by blast
  qed (rule assms(1))
qed

subsection \<open>The scans\<close>

lemma name_match:
  assumes "length n < 256" "unat nl \<le> length name"
  shows "(of_nat (length n) = (nl :: u8) \<and> n = take (unat nl) name) \<longleftrightarrow> n = take (unat nl) name"
  using assms by auto

definition matches :: "bytes \<Rightarrow> nat \<times> u32 \<times> bytes \<Rightarrow> bool" where
  "matches name e = (case e of (p, i, n) \<Rightarrow> i \<noteq> 0 \<and> n = name)"

lemma dir_find_walk:
  assumes "unat nl \<le> length name"
  shows "dir_find_in_block b p name nl =
    Some (case find (matches (take (unat nl) name)) (dir_walk b p) of None \<Rightarrow> 0 | Some (q, i, n) \<Rightarrow> i)"
proof (induction p rule: walk_induct [where b = b])
  case (stop p)
  then show ?case
    using dirent_valid_Some [of b p] by (auto simp: dir_find_in_block.simps [of b p] dir_walk_Nil)
next
  case (step p)
  note f = ent_fields [OF step(2)]
  obtain rl where rl: "de_rec_len b p = Some rl" "unat rl = ent_rec b p" using f(5) by blast
  show ?case
    using step f(1-4) rl name_match [OF f(4) assms]
    by (auto simp: dir_find_in_block.simps [of b p] dir_walk_Cons matches_def)
qed

lemma remove_walk:
  assumes "unat nl \<le> length name"
  shows "remove_scan b p name nl =
    Some (case find (matches (take (unat nl) name)) (dir_walk b p) of None \<Rightarrow> None
      | Some (q, i, n) \<Rightarrow> put q (le_bytes 4 (0 :: u32)) b)"
proof (induction p rule: walk_induct [where b = b])
  case (stop p)
  then show ?case
    using dirent_valid_Some [of b p] by (auto simp: remove_scan.simps [of b p] dir_walk_Nil)
next
  case (step p)
  note f = ent_fields [OF step(2)]
  obtain rl where rl: "de_rec_len b p = Some rl" "unat rl = ent_rec b p" using f(5) by blast
  have "put p (le_bytes 4 (0 :: u32)) b \<noteq> None" using f(6,7) by (simp add: put_def)
  then show ?case
    using step f(1-4) rl name_match [OF f(4) assms]
    by (auto simp: remove_scan.simps [of b p] dir_walk_Cons matches_def)
qed

lemma dotdot_walk:
  "dotdot_scan b p parent =
    Some (case find (matches [dot_char, dot_char]) (dir_walk b p) of None \<Rightarrow> None
      | Some (q, i, n) \<Rightarrow> put q (le_bytes 4 parent) b)"
proof (induction p rule: walk_induct [where b = b])
  case (stop p)
  then show ?case
    using dirent_valid_Some [of b p] by (auto simp: dotdot_scan.simps [of b p] dir_walk_Nil)
next
  case (step p)
  note f = ent_fields [OF step(2)]
  obtain rl where rl: "de_rec_len b p = Some rl" "unat rl = ent_rec b p" using f(5) by blast
  have "put p (le_bytes 4 parent) b \<noteq> None" using f(6,7) by (simp add: put_def)
  then show ?case
    using step f(1-4) rl by (auto simp: dotdot_scan.simps [of b p] dir_walk_Cons matches_def)
qed

lemma dir_walk_bound: "(q, i, n) \<in> set (dir_walk b p) \<Longrightarrow> p \<le> q \<and> q + 8 + length n \<le> length b \<and> length n < 256"
proof (induction p rule: walk_induct [where b = b])
  case (step p)
  then show ?case using ent_fields(4,6,7) [OF step(2)] by (auto simp: dir_walk_Cons)
qed (simp add: dir_walk_Nil)

subsection \<open>Changing an entry\<close>

lemma slice_prefix: "take m b' = take m b \<Longrightarrow> length b' = length b \<Longrightarrow> off + n \<le> m \<Longrightarrow> slice off n b' = slice off n b"
proof -
  assume a: "take m b' = take m b" "length b' = length b" "off + n \<le> m"
  then have "take (off + n) b' = take (off + n) b" by (metis min.absorb1 take_take)
  then have "take n (drop off b') = take n (drop off b)" by (metis drop_take add_diff_cancel_left')
  then show ?thesis using a(2) by (simp add: slice_def)
qed

lemma rd8_prefix: "take m b' = take m b \<Longrightarrow> length b' = length b \<Longrightarrow> k < m \<Longrightarrow> rd8 b' k = rd8 b k"
  by (simp add: rd8_def) (metis nth_take)

lemma ent_prefix:
  assumes "dirent_valid b p = Some True" "length b' = length b" "take (p + ent_rec b p) b' = take (p + ent_rec b p) b"
  shows "dirent_valid b' p = Some True" "ent_ino b' p = ent_ino b p" "ent_rec b' p = ent_rec b p"
    "ent_name b' p = ent_name b p"
proof -
  note f = ent_fields [OF assms(1)]
  have "rd8 b' (p + 6) = rd8 b (p + 6)" using f(6) by (intro rd8_prefix [OF assms(3,2)]) simp
  then have n: "de_name_len b' p = de_name_len b p" by (simp add: de_name_len_def)
  have "slice (p + 4) 2 b' = slice (p + 4) 2 b" using f(6) by (intro slice_prefix [OF assms(3,2)]) simp
  then have r: "de_rec_len b' p = de_rec_len b p" by (simp add: de_rec_len_def)
  have "slice p 4 b' = slice p 4 b" using f(6) by (intro slice_prefix [OF assms(3,2)]) simp
  then have i: "de_inode b' p = de_inode b p" by (simp add: de_inode_def)
  have "length (ent_name b p) = unat (of_nat (length (ent_name b p)) :: u8)"
    using f(4) by (simp add: unat_of_nat)
  then have "slice (p + 8) (unat (the (de_name_len b p))) b' = slice (p + 8) (unat (the (de_name_len b p))) b"
    using f(2,6) by (intro slice_prefix [OF assms(3,2)]) simp
  then have m: "ent_name b' p = ent_name b p" by (simp add: ent_name_def de_name_def n)
  have "dirent_valid b' p = dirent_valid b p" by (simp add: dirent_valid_def n r assms(2))
  then show "dirent_valid b' p = Some True" using assms(1) by simp
  show "ent_ino b' p = ent_ino b p" "ent_rec b' p = ent_rec b p" "ent_name b' p = ent_name b p"
    using i r m by (simp_all add: ent_ino_def ent_rec_def)
qed

lemma slice_suffix: "drop p b' = drop p b \<Longrightarrow> length b' = length b \<Longrightarrow> p \<le> off \<Longrightarrow> slice off n b' = slice off n b"
proof -
  assume a: "drop p b' = drop p b" "length b' = length b" "p \<le> off"
  then have "drop off b' = drop off b" by (metis drop_drop le_add_diff_inverse2)
  then show ?thesis using a(2) by (simp add: slice_def)
qed

lemma rd8_suffix: "drop p b' = drop p b \<Longrightarrow> length b' = length b \<Longrightarrow> p \<le> k \<Longrightarrow> rd8 b' k = rd8 b k"
proof -
  assume a: "drop p b' = drop p b" "length b' = length b" "p \<le> k"
  then have "drop p b' ! (k - p) = drop p b ! (k - p)" by simp
  then show ?thesis using a(2,3) by (cases "k < length b") (simp_all add: rd8_def)
qed

lemma walk_suffix: "drop p b' = drop p b \<Longrightarrow> length b' = length b \<Longrightarrow> dir_walk b' p = dir_walk b p"
proof (induction p rule: walk_induct [where b = b])
  case (stop p)
  then have "dirent_valid b' p = dirent_valid b p"
    by (simp add: dirent_valid_def de_name_len_def de_rec_len_def rd8_suffix [OF stop(2,3)] slice_suffix [OF stop(2,3)])
  then show ?case using stop by (simp add: dir_walk_Nil)
next
  case (step p)
  have v: "dirent_valid b' p = dirent_valid b p" "ent_ino b' p = ent_ino b p" "ent_rec b' p = ent_rec b p"
    "ent_name b' p = ent_name b p"
    by (simp_all add: dirent_valid_def de_name_len_def de_rec_len_def de_inode_def de_name_def ent_ino_def ent_rec_def
        ent_name_def rd8_suffix [OF step(4,5)] slice_suffix [OF step(4,5)] step(5))
  have "drop (p + ent_rec b p) b' = drop (p + ent_rec b p) b" using step(4) by (metis add.commute drop_drop)
  then show ?case using step v by (simp add: dir_walk_Cons)
qed

lemma put_split:
  assumes "put q d b = Some b'"
  shows "length b' = length b" "\<And>m. m \<le> q \<Longrightarrow> take m b' = take m b" "\<And>m. q + length d \<le> m \<Longrightarrow> drop m b' = drop m b"
    "slice q (length d) b' = Some d"
proof -
  have e: "b' = take q b @ d @ drop (q + length d) b" "q + length d \<le> length b"
    using assms by (auto simp: put_def split: if_splits)
  show "length b' = length b" "slice q (length d) b' = Some d" using e by (simp_all add: slice_def)
  show "take m b' = take m b" if "m \<le> q" for m using e that by simp
  show "drop m b' = drop m b" if "q + length d \<le> m" for m using e that by (simp add: drop_append)
qed

text \<open>Writing an inode number to an entry.\<close>

lemma put_ino_walk:
  assumes "(q, i, n) \<in> set (dir_walk b p)" "put q (le_bytes 4 x) b = Some b'"
  shows "dir_walk b' p = map (\<lambda>(r, j, m). (r, if r = q then x else j, m)) (dir_walk b p)"
  using assms(1)
proof (induction p rule: walk_induct [where b = b])
  case (stop p)
  then show ?case by (simp add: dir_walk_Nil)
next
  case (step p)
  note s = put_split [OF assms(2)] and f = ent_fields [OF step(2)]
  show ?case
  proof (cases "p = q")
    case True
    have d: "drop (p + 4) b' = drop (p + 4) b" using s(3) [of "p + 4"] True by simp
    have v: "dirent_valid b' p = dirent_valid b p" "ent_rec b' p = ent_rec b p" "ent_name b' p = ent_name b p"
      by (simp_all add: dirent_valid_def de_name_len_def de_rec_len_def de_inode_def de_name_def ent_rec_def
        ent_name_def rd8_suffix [OF d s(1)] slice_suffix [OF d s(1)] s(1))
    have i: "ent_ino b' p = x" using s(4) True by (simp add: ent_ino_def de_inode_def)
    have "drop (p + ent_rec b p) b' = drop (p + ent_rec b p) b" using s(3) True f(6) by simp
    then have w: "dir_walk b' (p + ent_rec b p) = dir_walk b (p + ent_rec b p)" using s(1) by (rule walk_suffix)
    have "r \<noteq> q" if "(r, j, m) \<in> set (dir_walk b (p + ent_rec b p))" for r j m
      using dir_walk_bound [OF that] f(6) True by simp
    then have "map (\<lambda>(r, j, m). (r, if r = q then x else j, m)) (dir_walk b (p + ent_rec b p)) = dir_walk b (p + ent_rec b p)"
      by (auto intro: map_idI)
    then show ?thesis using step v i w s(1) True by (simp add: dir_walk_Cons)
  next
    case False
    then have m: "(q, i, n) \<in> set (dir_walk b (p + ent_rec b p))" using step by (simp add: dir_walk_Cons)
    have "take (p + ent_rec b p) b' = take (p + ent_rec b p) b" using dir_walk_bound [OF m] by (intro s(2)) simp
    note e = ent_prefix [OF step(2) s(1) this]
    show ?thesis using step(1,2) step(3) [OF m] e False s(1) by (simp add: dir_walk_Cons)
  qed
qed

subsection \<open>Adding an entry\<close>

lemma slice_put:
  assumes "put q d b = Some b'" "off + n \<le> q \<or> q + length d \<le> off"
  shows "slice off n b' = slice off n b"
  using assms(2)
proof
  assume "off + n \<le> q"
  then show ?thesis by (intro slice_prefix [of q] put_split [OF assms(1)]) simp_all
next
  assume "q + length d \<le> off"
  then show ?thesis by (intro slice_suffix [of off] put_split [OF assms(1)]) simp_all
qed

lemma rd8_slice: "slice k n b = Some (x # xs) \<Longrightarrow> rd8 b k = Some x"
proof -
  assume "slice k n b = Some (x # xs)"
  then have a: "k + n \<le> length b" "take n (drop k b) = x # xs" by (auto simp: slice_def split: if_splits)
  then have "0 < n" by (cases n) simp_all
  then have "k < length b" "b ! k = take n (drop k b) ! 0" using a(1) by simp_all
  then show ?thesis unfolding a(2) by (simp add: rd8_def)
qed

lemma rd8_put:
  assumes "put q d b = Some b'" "k < q \<or> q + length d \<le> k"
  shows "rd8 b' k = rd8 b k"
  using assms(2)
proof
  assume "k < q"
  then show ?thesis by (intro rd8_prefix [of q] put_split [OF assms(1)]) simp_all
next
  assume "q + length d \<le> k"
  then show ?thesis by (intro rd8_suffix [of k] put_split [OF assms(1)]) simp_all
qed

lemma ent_written:
  assumes "de_inode b p = Some child" "de_rec_len b p = Some rl" "de_name_len b p = Some nl" "de_name b p nl = Some name"
    "unat (dirent_len nl) \<le> unat rl" "p + unat rl \<le> length b"
  shows "dirent_valid b p = Some True" "ent_ino b p = child" "ent_rec b p = unat rl" "ent_name b p = name"
proof -
  have "8 \<le> unat rl" using assms(5) by (simp add: unat_dirent_len)
  then show "dirent_valid b p = Some True"
    using assms(2,3,5,6) by (auto simp: dirent_valid_def word_less_nat_alt unat_ucast_16)
  show "ent_ino b p = child" "ent_rec b p = unat rl" "ent_name b p = name"
    using assms(1-4) by (simp_all add: ent_ino_def ent_rec_def ent_name_def)
qed

definition walk_added :: "nat \<Rightarrow> bytes \<Rightarrow> u32 \<Rightarrow> bytes \<Rightarrow> bytes \<Rightarrow> bool" where
  "walk_added p name child b b' \<longleftrightarrow> (\<exists>q W1 W2. dir_walk b' p = W1 @ (q, child, name) # W2 \<and>
     (dir_walk b p = W1 @ W2 \<or> (\<exists>m. dir_walk b p = W1 @ (q, 0, m) # W2)))"

lemma walk_added_here: "dir_walk b' p = (q, child, name) # W \<Longrightarrow> dir_walk b p = (q, 0, m) # W \<Longrightarrow> walk_added p name child b b'"
  unfolding walk_added_def by (intro exI [of _ q] exI [of _ "[]"] exI [of _ W]) simp

lemma walk_added_end: "dir_walk b' p = [e, (q, child, name)] \<Longrightarrow> dir_walk b p = [e] \<Longrightarrow> walk_added p name child b b'"
  unfolding walk_added_def by (intro exI [of _ q] exI [of _ "[e]"] exI [of _ "[]"]) simp

lemma walk_added_Cons:
  "walk_added r name child b b' \<Longrightarrow> dir_walk b' p = e # dir_walk b' r \<Longrightarrow> dir_walk b p = e # dir_walk b r \<Longrightarrow>
    walk_added p name child b b'"
  unfolding walk_added_def
proof (elim exE conjE)
  fix q W1 W2
  assume "dir_walk b' p = e # dir_walk b' r" "dir_walk b p = e # dir_walk b r" "dir_walk b' r = W1 @ (q, child, name) # W2"
    "dir_walk b r = W1 @ W2 \<or> (\<exists>m. dir_walk b r = W1 @ (q, 0, m) # W2)"
  then show "\<exists>q W1 W2. dir_walk b' p = W1 @ (q, child, name) # W2 \<and>
     (dir_walk b p = W1 @ W2 \<or> (\<exists>m. dir_walk b p = W1 @ (q, 0, m) # W2))"
    by (intro exI [of _ q] exI [of _ "e # W1"] exI [of _ W2]) auto
qed

lemma add_reuse:
  assumes v: "dirent_valid b p = Some True" and i: "ent_ino b p = 0" and l: "length name = unat nl"
    and n: "unat (dirent_len nl) \<le> ent_rec b p"
    and puts: "put p (le_bytes 4 child) b = Some b1" "put (p + 6) [nl, ft] b1 = Some b2" "put (p + 8) name b2 = Some b'"
  shows "length b' = length b" "take p b' = take p b" "walk_added p name child b b'"
proof -
  note f = ent_fields [OF v]
  note s1 = put_split [OF puts(1)] and s2 = put_split [OF puts(2)] and s3 = put_split [OF puts(3)]
  obtain rl where rl: "de_rec_len b p = Some rl" "unat rl = ent_rec b p" using f(5) by blast
  show len: "length b' = length b" using s1(1) s2(1) s3(1) by simp
  show "take p b' = take p b" using s1(2) s2(2) s3(2) by simp
  have w1: "de_inode b' p = Some child"
    using s1(4) by (simp add: de_inode_def slice_put [OF puts(3)] slice_put [OF puts(2)])
  have w2: "de_rec_len b' p = Some rl"
    using rl(1) by (simp add: de_rec_len_def slice_put [OF puts(3)] slice_put [OF puts(2)] slice_put [OF puts(1)])
  have w3: "de_name_len b' p = Some nl"
    using rd8_slice [OF s2(4)] by (simp add: de_name_len_def rd8_put [OF puts(3)])
  have w4: "de_name b' p nl = Some name" using s3(4) l by (simp add: de_name_def)
  have w5: "unat (dirent_len nl) \<le> unat rl" "p + unat rl \<le> length b'" using n f(7) len unfolding rl(2) by simp_all
  note e = ent_written [OF w1 w2 w3 w4 w5]
  have "unat (dirent_len nl) \<ge> 8 + unat nl" unfolding unat_dirent_len by simp
  then have "drop (p + ent_rec b p) b' = drop (p + ent_rec b p) b"
    using s1(3) s2(3) s3(3) n l by simp
  then have "dir_walk b' (p + ent_rec b p) = dir_walk b (p + ent_rec b p)" using len by (rule walk_suffix)
  moreover have "p < length b" using f(6,7) by linarith
  ultimately show "walk_added p name child b b'"
    using v i e rl(2) len by (intro walk_added_here [where W = "dir_walk b (p + ent_rec b p)"]) (simp_all add: dir_walk_Cons)
qed

lemma u16_bytes: "x < 65536 \<Longrightarrow> unat (ucast (x :: u32) :: u16) = unat x"
  by (simp add: unsigned_ucast_eq take_bit_nat_eq_self word_less_nat_alt)

lemma add_append:
  assumes v: "dirent_valid b p = Some True" and last: "p + ent_rec b p = length b" and l: "length name = unat nl"
    and rl: "de_rec_len b p = Some rl" and ol: "de_name_len b p = Some ol"
    and n: "unat (dirent_len nl) \<le> unat rl - unat (dirent_len ol)"
    and puts: "put (p + 4) (le_bytes 2 (ucast (dirent_len ol) :: u16)) b = Some b1"
      "put (p + unat (dirent_len ol)) (le_bytes 4 child) b1 = Some b2"
      "put (p + unat (dirent_len ol) + 4) (le_bytes 2 (ucast (ucast rl - dirent_len ol) :: u16)) b2 = Some b3"
      "put (p + unat (dirent_len ol) + 6) [nl, ft] b3 = Some b4"
      "put (p + unat (dirent_len ol) + 8) name b4 = Some b'"
  shows "length b' = length b" "take p b' = take p b" "walk_added p name child b b'"
proof -
  let ?a = "unat (dirent_len ol)"
  note f = ent_fields [OF v]
  note s1 = put_split [OF puts(1)] and s2 = put_split [OF puts(2)] and s3 = put_split [OF puts(3)]
    and s4 = put_split [OF puts(4)] and s5 = put_split [OF puts(5)]
  note o = slice_put [OF puts(1)] slice_put [OF puts(2)] slice_put [OF puts(3)] slice_put [OF puts(4)] slice_put [OF puts(5)]
  note o' = rd8_put [OF puts(1)] rd8_put [OF puts(2)] rd8_put [OF puts(3)] rd8_put [OF puts(4)] rd8_put [OF puts(5)]
  have a: "8 + unat ol \<le> ?a" unfolding unat_dirent_len by simp
  have ar: "?a \<le> unat rl" "?a \<le> 264"
    using n unat_less [of ol] unfolding unat_dirent_len by simp_all
  have nm: "ent_name b p = the (de_name b p ol)" using ol by (simp add: ent_name_def)
  obtain nm where nm': "de_name b p ol = Some nm" using f(3) ol f(2) by auto
  have r: "ent_rec b p = unat rl" using rl by (simp add: ent_rec_def)
  show len: "length b' = length b" using s1(1) s2(1) s3(1) s4(1) s5(1) by simp
  show "take p b' = take p b" using s1(2) s2(2) s3(2) s4(2) s5(2) by simp
  have sub: "unat (ucast rl - dirent_len ol :: u32) = unat rl - ?a"
    using ar(1) by (subst unat_sub) (simp_all add: word_le_nat_alt unat_ucast_16)
  have u1: "unat (ucast (dirent_len ol) :: u16) = ?a" using ar(2) by (intro u16_bytes) (simp add: word_less_nat_alt)
  have u2: "unat (ucast (ucast rl - dirent_len ol :: u32) :: u16) = unat rl - ?a"
    using unat_less [of rl] sub by (subst u16_bytes) (simp_all add: word_less_nat_alt)
  have "de_inode b' p = Some (ent_ino b p)" using f(1) a by (simp add: de_inode_def o)
  moreover have "de_rec_len b' p = Some (ucast (dirent_len ol))" using s1(4) a by (simp add: de_rec_len_def o)
  moreover have "de_name_len b' p = Some ol" using ol a by (simp add: de_name_len_def o')
  moreover have "de_name b' p ol = Some (ent_name b p)" using nm' nm a by (simp add: de_name_def o)
  moreover have "?a \<le> unat (ucast (dirent_len ol) :: u16)" "p + unat (ucast (dirent_len ol) :: u16) \<le> length b'"
    unfolding u1 using ar r last len by simp_all
  ultimately have old: "dirent_valid b' p = Some True" "ent_ino b' p = ent_ino b p" "ent_rec b' p = ?a" "ent_name b' p = ent_name b p"
    using ent_written [of b' p "ent_ino b p" "ucast (dirent_len ol)" ol "ent_name b p"] unfolding u1 by blast+
  let ?sl = "ucast (ucast rl - dirent_len ol :: u32) :: u16"
  have "de_inode b' (p + ?a) = Some child" using s2(4) by (simp add: de_inode_def o)
  moreover have "de_rec_len b' (p + ?a) = Some ?sl" using s3(4) by (simp add: de_rec_len_def o)
  moreover have "de_name_len b' (p + ?a) = Some nl" using rd8_slice [OF s4(4)] by (simp add: de_name_len_def o')
  moreover have "de_name b' (p + ?a) nl = Some name" using s5(4) l by (simp add: de_name_def)
  moreover have "unat (dirent_len nl) \<le> unat ?sl" "p + ?a + unat ?sl \<le> length b'"
    unfolding u2 using n ar r last len by simp_all
  ultimately have new: "dirent_valid b' (p + ?a) = Some True" "ent_ino b' (p + ?a) = child"
    "ent_rec b' (p + ?a) = unat rl - ?a" "ent_name b' (p + ?a) = name"
    using ent_written [of b' "p + ?a" child ?sl nl name] unfolding u2 by blast+
  have "dir_walk b' (p + ?a) = [(p + ?a, child, name)]"
    using new last len r ar ent_fields(6) [OF new(1)] by (simp add: dir_walk_Cons dir_walk_Nil)
  then have "dir_walk b' p = [(p, ent_ino b p, ent_name b p), (p + ?a, child, name)]"
    using old len last f(6) by (simp add: dir_walk_Cons)
  moreover have "dir_walk b p = [(p, ent_ino b p, ent_name b p)]"
    using v last f(6) by (simp add: dir_walk_Cons dir_walk_Nil)
  ultimately show "walk_added p name child b b'" by (rule walk_added_end)
qed

lemma add_scan_stop:
  assumes "\<not> (p < length b \<and> dirent_valid b p = Some True)"
  shows "add_scan b p name nl child ft = Some None"
proof -
  obtain v where "dirent_valid b p = Some v" using dirent_valid_Some by blast
  then show ?thesis using assms by (subst add_scan.simps) auto
qed

lemma add_scan_step:
  assumes "p < length b" "dirent_valid b p = Some True" "de_rec_len b p = Some rl" "de_name_len b p = Some ol"
  shows "add_scan b p name nl child ft =
    (if ent_ino b p = 0 \<and> dirent_len nl \<le> ucast rl then do {
       b \<leftarrow> put p (le_bytes 4 child) b; b \<leftarrow> put (p + 6) [nl, ft] b;
       b \<leftarrow> put (p + 8) (take (unat nl) name) b; Some (Some b) }
     else if length b \<le> p + unat rl \<and> ent_ino b p \<noteq> 0 \<and> dirent_len nl \<le> ucast rl - dirent_len ol then do {
       b \<leftarrow> put (p + 4) (le_bytes 2 (ucast (dirent_len ol) :: u16)) b;
       b \<leftarrow> put (p + unat (dirent_len ol)) (le_bytes 4 child) b;
       b \<leftarrow> put (p + unat (dirent_len ol) + 4) (le_bytes 2 (ucast (ucast rl - dirent_len ol) :: u16)) b;
       b \<leftarrow> put (p + unat (dirent_len ol) + 6) [nl, ft] b;
       b \<leftarrow> put (p + unat (dirent_len ol) + 8) (take (unat nl) name) b; Some (Some b) }
     else add_scan b (p + unat rl) name nl child ft)"
  by (subst add_scan.simps) (simp add: assms ent_fields(1) [OF assms(2)] Let_def)

lemma add_scan_room:
  assumes "dirent_valid b p = Some True" "de_rec_len b p = Some rl" "de_name_len b p = Some ol"
    "dirent_len nl \<le> ucast rl - dirent_len ol"
  shows "unat (dirent_len nl) \<le> unat rl - unat (dirent_len ol)"
proof -
  obtain rl' nl' where "de_rec_len b p = Some rl'" "de_name_len b p = Some nl'" "unat (dirent_len nl') \<le> unat rl'"
    using assms(1) by (rule dirent_fields)
  then have "unat (dirent_len ol) \<le> unat rl" using assms(2,3) by simp
  then have "unat (ucast rl - dirent_len ol :: u32) = unat rl - unat (dirent_len ol)"
    by (subst unat_sub) (simp_all add: word_le_nat_alt unat_ucast_16)
  then show ?thesis using assms(4) by (simp add: word_le_nat_alt)
qed

lemma add_scan_walk:
  assumes "add_scan b p name nl child ft = Some (Some b')" "length name = unat nl"
  shows "length b' = length b \<and> take p b' = take p b \<and> walk_added p name child b b'"
  using assms(1)
proof (induction p rule: walk_induct [where b = b])
  case (stop p)
  then show ?case by (simp add: add_scan_stop)
next
  case (step p)
  note f = ent_fields [OF step(2)]
  obtain rl where rl: "de_rec_len b p = Some rl" "unat rl = ent_rec b p" using f(5) by blast
  obtain ol where ol: "de_name_len b p = Some ol" using f(2) by blast
  note add = step(4) [unfolded add_scan_step [OF step(1,2) rl(1) ol]]
  let ?reuse = "ent_ino b p = 0 \<and> dirent_len nl \<le> ucast rl"
  let ?split = "length b \<le> p + unat rl \<and> ent_ino b p \<noteq> 0 \<and> dirent_len nl \<le> ucast rl - dirent_len ol"
  consider (reuse) ?reuse | (split) "\<not> ?reuse" ?split | (skip) "\<not> ?reuse" "\<not> ?split" by blast
  then show ?case
  proof cases
    case reuse
    then have n: "unat (dirent_len nl) \<le> ent_rec b p" by (simp add: word_le_nat_alt unat_ucast_16 rl(2))
    obtain b1 b2 where "put p (le_bytes 4 child) b = Some b1" "put (p + 6) [nl, ft] b1 = Some b2"
        "put (p + 8) name b2 = Some b'"
      using add reuse assms(2) by (auto split: bind_splits)
    with add_reuse [OF step(2) _ assms(2) n] reuse show ?thesis by blast
  next
    case split
    have last: "p + ent_rec b p = length b" using split f(7) rl(2) by simp
    have n: "unat (dirent_len nl) \<le> unat rl - unat (dirent_len ol)"
      using split by (intro add_scan_room [OF step(2) rl(1) ol]) simp
    obtain b1 b2 b3 b4 where
      "put (p + 4) (le_bytes 2 (ucast (dirent_len ol) :: u16)) b = Some b1"
      "put (p + unat (dirent_len ol)) (le_bytes 4 child) b1 = Some b2"
      "put (p + unat (dirent_len ol) + 4) (le_bytes 2 (ucast (ucast rl - dirent_len ol) :: u16)) b2 = Some b3"
      "put (p + unat (dirent_len ol) + 6) [nl, ft] b3 = Some b4"
      "put (p + unat (dirent_len ol) + 8) name b4 = Some b'"
      using add split assms(2) by (auto split: bind_splits)
    from add_append [OF step(2) last assms(2) rl(1) ol n this] show ?thesis by blast
  next
    case skip
    then have "add_scan b (p + ent_rec b p) name nl child ft = Some (Some b')"
      using add unfolding rl(2) by (auto split: if_splits)
    from step(3) [OF this] have h: "length b' = length b" "take (p + ent_rec b p) b' = take (p + ent_rec b p) b"
      "walk_added (p + ent_rec b p) name child b b'" by simp_all
    note e = ent_prefix [OF step(2) h(1,2)]
    have "take p b' = take p b" using h(2) by (metis le_add1 min.absorb1 take_take)
    then show ?thesis
      using walk_added_Cons [OF h(3)] e h(1) step(1,2) by (simp add: dir_walk_Cons)
  qed
qed

text \<open>The scan of a block never leaves it, and keeps its size.\<close>

lemma put_ex: "off + length d \<le> length b \<Longrightarrow> (\<And>b'. length b' = length b \<Longrightarrow> \<exists>r. f b' = Some r) \<Longrightarrow> \<exists>r. put off d b \<bind> f = Some r"
  by (simp add: put_def)

lemma if_ex: "(c \<Longrightarrow> \<exists>r. x = Some r) \<Longrightarrow> (\<not> c \<Longrightarrow> \<exists>r. y = Some r) \<Longrightarrow> \<exists>r. (if c then x else y) = Some r"
  by simp

lemma add_scan_ok:
  assumes "length name = unat nl"
  shows "\<exists>r. add_scan b p name nl child ft = Some r"
proof (induction p rule: walk_induct [where b = b])
  case (stop p)
  then show ?case by (simp add: add_scan_stop)
next
  case (step p)
  note f = ent_fields [OF step(2)]
  obtain rl where rl: "de_rec_len b p = Some rl" "unat rl = ent_rec b p" using f(5) by blast
  obtain ol where ol: "de_name_len b p = Some ol" using f(2) by blast
  have nl: "8 + unat nl \<le> unat (dirent_len nl)" "8 + unat ol \<le> unat (dirent_len ol)" unfolding unat_dirent_len by simp_all
  have "8 + unat nl \<le> unat rl" if "dirent_len nl \<le> ucast rl"
    using that nl by (simp add: word_le_nat_alt unat_ucast_16)
  moreover have "unat (dirent_len ol) + (8 + unat nl) \<le> unat rl" if "dirent_len nl \<le> ucast rl - dirent_len ol"
    using add_scan_room [OF step(2) rl(1) ol that] nl by simp
  moreover have "p + unat rl \<le> length b" using f(7) rl(2) by simp
  ultimately have b: "dirent_len nl \<le> ucast rl \<Longrightarrow> p + (8 + unat nl) \<le> length b"
    "dirent_len nl \<le> ucast rl - dirent_len ol \<Longrightarrow> p + unat (dirent_len ol) + (8 + unat nl) \<le> length b"
    by linarith+
  have "p + 8 \<le> length b" using f(6,7) by linarith
  with b show ?case
    using step(3) assms unfolding add_scan_step [OF step(1,2) rl(1) ol] rl(2) [symmetric]
    by (intro if_ex put_ex) (simp_all del: unat_dirent_len)
qed

subsection \<open>A block as a finite map\<close>

definition used_names :: "(nat \<times> u32 \<times> bytes) list \<Rightarrow> bytes list" where
  "used_names w = map (snd \<circ> snd) (filter (\<lambda>(p, i, n). i \<noteq> 0) w)"

definition walk_map :: "(nat \<times> u32 \<times> bytes) list \<Rightarrow> bytes \<rightharpoonup> u32" where
  "walk_map w name = map_option (fst \<circ> snd) (find (matches name) w)"

definition dir_map :: "bytes \<Rightarrow> bytes \<rightharpoonup> u32" where
  "dir_map b = walk_map (dir_walk b 0)"

definition dir_unique :: "bytes \<Rightarrow> bool" where
  "dir_unique b \<longleftrightarrow> distinct (used_names (dir_walk b 0))"

lemma walk_map_simps [simp]:
  "walk_map [] name = None"
  "walk_map ((p, i, n) # w) name = (if i \<noteq> 0 \<and> n = name then Some i else walk_map w name)"
  by (simp_all add: walk_map_def matches_def)

lemma used_names_simps [simp]:
  "used_names [] = []" "used_names ((p, i, n) # w) = (if i \<noteq> 0 then n # used_names w else used_names w)"
  "used_names (v @ w) = used_names v @ used_names w"
  by (simp_all add: used_names_def)

lemma walk_map_None: "walk_map w name = None \<longleftrightarrow> name \<notin> set (used_names w)"
  by (induction w) (auto split: if_splits)

lemma walk_map_append: "walk_map (v @ w) name = (case walk_map v name of None \<Rightarrow> walk_map w name | Some i \<Rightarrow> Some i)"
  by (induction v) auto

lemma walk_map_insert:
  assumes "child \<noteq> 0" "walk_map (v @ w) name = None"
  shows "walk_map (v @ (q, child, name) # w) = (walk_map (v @ w))(name \<mapsto> child)"
  using assms by (intro ext) (auto simp: walk_map_append split: option.splits)

lemma walk_map_hole: "walk_map (v @ (q, 0, m) # w) = walk_map (v @ w)"
  by (intro ext) (simp add: walk_map_append split: option.split)

lemma find_split: "find P xs = Some x \<Longrightarrow> \<exists>v w. xs = v @ x # w \<and> P x \<and> (\<forall>y\<in>set v. \<not> P y)"
proof (induction xs)
  case (Cons y ys)
  show ?case
  proof (cases "P y")
    case True
    then show ?thesis using Cons(2) by (intro exI [of _ "[]"] exI [of _ ys]) simp
  next
    case False
    then obtain v w where "ys = v @ x # w \<and> P x \<and> (\<forall>y\<in>set v. \<not> P y)" using Cons by auto
    then show ?thesis using False by (intro exI [of _ "y # v"] exI [of _ w]) simp
  qed
qed simp

text \<open>The offsets of the entries are distinct.\<close>

lemma walk_offsets: "distinct (map fst (dir_walk b p))"
proof (induction p rule: walk_induct [where b = b])
  case (step p)
  then show ?case using ent_fields(6) [OF step(2)] by (auto simp: dir_walk_Cons dest: dir_walk_bound)
qed (simp add: dir_walk_Nil)

lemma walk_upd:
  fixes v :: "(nat \<times> u32 \<times> bytes) list"
  assumes "distinct (map fst (v @ (q, i, n) # w))"
  shows "map (\<lambda>(r, j, m). (r, if r = q then x else j, m)) (v @ (q, i, n) # w) = v @ (q, x, n) # w"
proof -
  have "map (\<lambda>(r, j, m). (r, if r = q then x else j, m)) u = u" if "q \<notin> fst ` set u" for u :: "(nat \<times> u32 \<times> bytes) list"
    using that by (intro map_idI) force
  then show ?thesis using assms by simp
qed

lemma remove_scan_walk:
  assumes "remove_scan b 0 name nl = Some (Some b')" "length name = unat nl"
  shows "\<exists>v w q i. dir_walk b 0 = v @ (q, i, name) # w \<and> i \<noteq> 0 \<and> dir_walk b' 0 = v @ (q, 0, name) # w \<and> length b' = length b"
proof -
  obtain q i n where f: "find (matches name) (dir_walk b 0) = Some (q, i, n)" and p: "put q (le_bytes 4 (0 :: u32)) b = Some b'"
    using assms by (auto simp: remove_walk split: option.splits)
  obtain v w where w: "dir_walk b 0 = v @ (q, i, n) # w" "matches name (q, i, n)" using find_split [OF f] by blast
  have "(q, i, n) \<in> set (dir_walk b 0)" using w by simp
  from put_ino_walk [OF this p] have "dir_walk b' 0 = v @ (q, 0, n) # w"
    using walk_upd [of v q i n w 0] walk_offsets [of b 0] unfolding w(1) by simp
  then show ?thesis using w put_split(1) [OF p] by (auto simp: matches_def)
qed

lemma walk_map_remove:
  assumes "i \<noteq> 0" "distinct (used_names (v @ (q, i, name) # w))"
  shows "walk_map (v @ (q, 0, name) # w) = (walk_map (v @ (q, i, name) # w))(name := None)"
proof -
  have n: "walk_map v name = None" "walk_map w name = None" using assms unfolding walk_map_None by auto
  show ?thesis by (rule ext) (use n assms(1) in \<open>auto simp: walk_map_append split: option.splits\<close>)
qed

lemma dir_find_map:
  "length name = unat nl \<Longrightarrow> dir_find_in_block b 0 name nl = Some (case dir_map b name of None \<Rightarrow> 0 | Some i \<Rightarrow> i)"
  by (simp add: dir_find_walk dir_map_def walk_map_def split: option.split)

lemma add_scan_map:
  assumes "add_scan b 0 name nl child ft = Some (Some b')" "length name = unat nl" "child \<noteq> 0"
    "dir_map b name = None" "dir_unique b"
  shows "dir_map b' = (dir_map b)(name \<mapsto> child)" "dir_unique b'" "length b' = length b"
proof -
  have "walk_added 0 name child b b'" and len: "length b' = length b" using add_scan_walk [OF assms(1,2)] by simp_all
  then obtain q v w where w: "dir_walk b' 0 = v @ (q, child, name) # w"
    "dir_walk b 0 = v @ w \<or> (\<exists>m. dir_walk b 0 = v @ (q, 0, m) # w)" by (auto simp: walk_added_def)
  then have m: "dir_map b = walk_map (v @ w)" and u: "used_names (dir_walk b 0) = used_names (v @ w)"
    by (auto simp: dir_map_def walk_map_hole)
  have "walk_map (v @ w) name = None" using assms(4) m by simp
  then show "dir_map b' = (dir_map b)(name \<mapsto> child)"
    unfolding m dir_map_def [of b'] w(1) by (rule walk_map_insert [OF assms(3)])
  have "distinct (used_names (v @ w))" "name \<notin> set (used_names (v @ w))"
    using assms(5) \<open>walk_map (v @ w) name = None\<close> unfolding dir_unique_def u walk_map_None by simp_all
  then show "dir_unique b'" unfolding dir_unique_def w(1) using assms(3) by simp
  show "length b' = length b" by (rule len)
qed

lemma remove_scan_map:
  assumes "remove_scan b 0 name nl = Some (Some b')" "length name = unat nl" "dir_unique b"
  shows "dir_map b' = (dir_map b)(name := None)" "dir_unique b'" "length b' = length b"
proof -
  obtain v w q i where w: "dir_walk b 0 = v @ (q, i, name) # w" "i \<noteq> 0" "dir_walk b' 0 = v @ (q, 0, name) # w"
      "length b' = length b"
    using remove_scan_walk [OF assms(1,2)] by blast
  show "dir_map b' = (dir_map b)(name := None)"
    using assms(3) walk_map_remove [OF w(2)] unfolding dir_map_def dir_unique_def w(1,3) by blast
  show "dir_unique b'" using assms(3) w(2) unfolding dir_unique_def w(1,3) by auto
  show "length b' = length b" by (rule w(4))
qed

lemma remove_scan_None:
  "length name = unat nl \<Longrightarrow> (remove_scan b 0 name nl = Some None) = (dir_map b name = None)"
proof -
  assume l: "length name = unat nl"
  have "put q (le_bytes 4 (0 :: u32)) b \<noteq> None" if "find (matches name) (dir_walk b 0) = Some (q, i, n)" for q i n
  proof -
    have "(q, i, n) \<in> set (dir_walk b 0)" using find_split [OF that] by auto
    from dir_walk_bound [OF this] show ?thesis by (simp add: put_def)
  qed
  then show ?thesis using l by (force simp: remove_walk dir_map_def walk_map_def split: option.split)
qed

lemma dir_new_block_map:
  assumes "bs \<in> {1024, 2048, 4096}" "length name = unat nl" "child \<noteq> 0"
  shows "\<exists>b. dir_new_block bs name nl child ft = Some b \<and> length b = unat bs \<and> dir_unique b \<and> dir_map b = [name \<mapsto> child]"
proof -
  let ?z = "replicate (unat bs) 0 :: bytes"
  have n: "unat nl < 256" using unat_less [of nl] by simp
  have bs: "1024 \<le> unat bs" "unat bs \<le> 4096" using assms(1) by auto
  obtain b1 where p1: "put 0 (le_bytes 4 child) ?z = Some b1" using bs by (simp add: put_def)
  then have l1: "length b1 = unat bs" by (auto dest: length_put)
  obtain b2 where p2: "put 4 (le_bytes 2 (ucast bs :: u16)) b1 = Some b2" using bs l1 by (simp add: put_def)
  then have l2: "length b2 = unat bs" using l1 by (auto dest: length_put)
  obtain b3 where p3: "put 6 [nl, ft] b2 = Some b3" using bs l2 by (simp add: put_def)
  then have l3: "length b3 = unat bs" using l2 by (auto dest: length_put)
  obtain b where p4: "put 8 name b3 = Some b" using bs l3 n assms(2) by (simp add: put_def)
  then have len: "length b = unat bs" using l3 by (auto dest: length_put)
  note o = slice_put [OF p2] slice_put [OF p3] slice_put [OF p4] rd8_put [OF p4]
  have u: "unat (ucast bs :: u16) = unat bs" using bs by (intro u16_bytes) (simp add: word_less_nat_alt)
  have "de_inode b 0 = Some child" using put_split(4) [OF p1] by (simp add: de_inode_def o)
  moreover have "de_rec_len b 0 = Some (ucast bs)" using put_split(4) [OF p2] by (simp add: de_rec_len_def o)
  moreover have "de_name_len b 0 = Some nl" using rd8_slice [OF put_split(4) [OF p3]] by (simp add: de_name_len_def o)
  moreover have "de_name b 0 nl = Some name" using put_split(4) [OF p4] assms(2) by (simp add: de_name_def)
  moreover have "unat (dirent_len nl) \<le> unat (ucast bs :: u16)" "0 + unat (ucast bs :: u16) \<le> length b"
    unfolding u unat_dirent_len using bs n len by simp_all
  ultimately have e: "dirent_valid b 0 = Some True" "ent_ino b 0 = child" "ent_rec b 0 = unat bs" "ent_name b 0 = name"
    using ent_written [of b 0 child "ucast bs" nl name] unfolding u by blast+
  have "0 < length b" using bs len by linarith
  then have w: "dir_walk b 0 = [(0, child, name)]" using e len by (simp add: dir_walk_Cons dir_walk_Nil)
  have "dir_map b = [name \<mapsto> child]" "dir_unique b"
    using assms(3) by (auto simp: dir_map_def dir_unique_def w)
  moreover have "dir_new_block bs name nl child ft = Some b"
    using p1 p2 p3 p4 assms(2) by (simp add: dir_new_block_def)
  ultimately show ?thesis using len by blast
qed


text \<open>A block of 24 bytes with one free entry, and the name \<open>a\<close>.\<close>

definition dir_ex :: bytes where
  "dir_ex = [0, 0, 0, 0, 24, 0, 0, 0] @ replicate 16 0"


end
