(* ===== verification/Fssafe.thy ===== *)
theory Fssafe
  imports Ext2safe Dirents
begin

text \<open>
  The operations of the ext2 file system on directories, files and paths never fault.  They rely on
  the geometry of the superblock and on paths of at most 256 characters; the buffers for the
  parts of a path have 256 bytes and lengths of components are kept in eight bits.
\<close>

subsection \<open>Directories\<close>

lemma safe_put_result:
  "safe G (f None) Q \<Longrightarrow> (\<And>b'. length b' = length b \<Longrightarrow> safe G (f (Some b')) Q) \<Longrightarrow> safe G (f (put q d b)) Q"
  by (cases "put q d b") (auto dest: length_put)

lemma safe_add_scan [safe_intros]:
  assumes "length name = unat nl" "safe G (f None) Q" "\<And>b'. length b' = length b \<Longrightarrow> safe G (f (Some b')) Q"
  shows "safe G (add_scan b p name nl child ft \<bind> f) Q"
proof -
  obtain r where r: "add_scan b p name nl child ft = Some r" using add_scan_ok [OF assms(1)] by blast
  show ?thesis
  proof (cases r)
    case (Some b')
    then show ?thesis using r add_scan_walk [of b p name nl child ft b'] assms(1,3) by simp
  qed (simp add: r assms(2))
qed

lemma safe_remove_scan [safe_intros]:
  assumes "length name = unat nl" "safe G (f None) Q" "\<And>b'. length b' = length b \<Longrightarrow> safe G (f (Some b')) Q"
  shows "safe G (remove_scan b p name nl \<bind> f) Q"
proof -
  have l: "unat nl \<le> length name" using assms(1) by simp
  show ?thesis
    using assms by (auto simp: remove_walk [OF l] split: option.split intro: safe_put_result)
qed

lemma safe_dotdot_scan [safe_intros]:
  assumes "safe G (f None) Q" "\<And>b'. length b' = length b \<Longrightarrow> safe G (f (Some b')) Q"
  shows "safe G (dotdot_scan b p parent \<bind> f) Q"
  using assms by (auto simp: dotdot_walk split: option.split intro: safe_put_result)

lemma safe_find [safe_intros]:
  assumes "length name = unat nl" "\<And>i. safe G (f i) Q"
  shows "safe G (dir_find_in_block b p name nl \<bind> f) Q"
proof -
  have l: "unat nl \<le> length name" using assms(1) by simp
  show ?thesis using assms(2) by (simp add: dir_find_walk [OF l])
qed

lemma safe_dir_new_block [safe_intros]:
  assumes "geo_ok G" "length name = unat nl" "\<And>b. length b = unat (g_bs G) \<Longrightarrow> safe G (f b) Q"
  shows "safe G (dir_new_block (g_bs G) name nl child ft \<bind> f) Q"
proof -
  have "unat nl < 256" using unat_less [of nl] by simp
  moreover have "1024 \<le> unat (g_bs G)" using assms(1) by (auto simp: geo_ok_def)
  ultimately show ?thesis
    unfolding dir_new_block_def by (auto intro!: safe_put assms(3) simp: assms(2) Option.bind_assoc)
qed

lemma dir_add_blocks_safe:
  assumes "fs_ok G s" "length name = unat nl"
  shows "safe G (dir_add_blocks bs name nl child ft s) (\<lambda>_. True)"
  using assms(1)
proof (induction bs arbitrary: s)
  case (Cons b bs)
  then show ?case unfolding dir_add_blocks.simps Let_def by (auto intro!: safe_intros assms(2))
qed (auto intro: safe_intros)

lemma dir_remove_blocks_safe:
  assumes "fs_ok G s" "length name = unat nl"
  shows "safe G (dir_remove_blocks bs name nl s) (\<lambda>_. True)"
  using assms(1)
proof (induction bs arbitrary: s)
  case (Cons b bs)
  then show ?case unfolding dir_remove_blocks.simps Let_def by (auto intro!: safe_intros assms(2))
qed (auto intro: safe_intros)

lemma dotdot_blocks_safe [safe_intros]:
  assumes "fs_ok G s"
  shows "safe0 G (dotdot_blocks bs parent s)"
  using assms
proof (induction bs arbitrary: s)
  case (Cons b bs)
  then show ?case unfolding dotdot_blocks.simps Let_def safe0_simps
    by (auto intro!: safe_intros simp: Cons.IH [unfolded safe0_iff])
qed (auto simp: safe0_def)

lemma lookup_blocks_safe:
  assumes "fs_ok G s" "length name = unat nl"
  shows "safe G (lookup_blocks bs name nl s) (\<lambda>_. True)"
  using assms(1)
proof (induction bs arbitrary: s)
  case (Cons b bs)
  then show ?case unfolding lookup_blocks.simps Let_def by (auto intro!: safe_intros assms(2))
qed (auto intro: safe_intros)

lemma safe_True: "safe G m (\<lambda>_. True) \<Longrightarrow> (\<And>r s. fs_ok G s \<Longrightarrow> safe G (f (r, s)) Q) \<Longrightarrow> safe G (m \<bind> f) Q"
  by (rule safe_bind)

lemmas safe_blocks [safe_intros] = safe_True [OF dir_add_blocks_safe] safe_True [OF lookup_blocks_safe]

text \<open>A name of at most 255 characters is represented by its length in eight bits.\<close>

lemma name_length: "length name < 256 \<Longrightarrow> length name = unat (of_nat (length name) :: u8)"
  by (simp add: unat_of_nat)

lemma dir_add_entry_safe:
  assumes "fs_ok G s" "length name < 256"
  shows "safe G (dir_add_entry dir_ino name child ft s) (\<lambda>_. True)"
  unfolding dir_add_entry_def Let_def
  by (auto intro!: safe_intros assms name_length simp: okD inode_ok_def split: option.split)

lemma dir_remove_entry_safe:
  assumes "fs_ok G s" "length name < 256"
  shows "safe G (dir_remove_entry dir_ino name s) (\<lambda>_. True)"
  unfolding dir_remove_entry_def Let_def
  by (auto intro!: safe_intros dir_remove_blocks_safe assms name_length)

lemmas safe_entries [safe_intros] = safe_True [OF dir_add_entry_safe] safe_True [OF dir_remove_entry_safe]

subsection \<open>Paths\<close>

lemma lookup_loop_safe:
  assumes "fs_ok G s" "length p < 256"
  shows "safe G (lookup_loop cur p s) (\<lambda>_. True)"
  using assms
proof (induction "length p" arbitrary: cur p s rule: less_induct)
  case less
  let ?c = "takeWhile (\<lambda>c. c \<noteq> slash) p" and ?r = "dropWhile (\<lambda>c. c \<noteq> slash) p"
  let ?q = "case ?r of [] \<Rightarrow> [] | _ # q \<Rightarrow> q"
  show ?case
  proof (cases "p = []")
    case True
    then show ?thesis using less(2) by (subst lookup_loop.simps) (simp add: safe_Some)
  next
    case False
    have c: "length ?c < 256" using less(3) length_takeWhile_le [of "\<lambda>c. c \<noteq> slash" p] by simp
    have q: "length ?q < length p" "length ?q < 256" using lookup_rest [OF False] less(3) by (auto intro: less_trans)
    have z: "(of_nat (length ?c) = (0 :: u8)) = (?c = [])"
      unfolding unat_eq_0 [symmetric] name_length [OF c, symmetric] by simp
    have r: "?r \<noteq> []" if "?c = []" using that False by (cases p) (auto split: if_splits)
    have rest: "safe G (lookup_loop cur' ?q s') (\<lambda>_. True)" if "fs_ok G s'" for cur' s'
      using less(1) [OF q(1) that q(2)] .
    show ?thesis
    proof (cases "?c = []")
      case True
      then obtain x q' where "?r = x # q'" using r by (cases ?r) auto
      then show ?thesis using rest [OF less(2)] True False z by (subst lookup_loop.simps) (simp add: Let_def)
    next
      case nonempty: False
      show ?thesis
        unfolding lookup_loop.simps [of cur p] Let_def z
        using False nonempty less(2) name_length [OF c]
        by (simp, intro safe_read_inode) (auto intro!: safe_intros rest split: option.split)
    qed
  qed
qed

lemma ext2_lookup_safe:
  assumes "fs_ok G s" "length path \<le> 256"
  shows "safe G (ext2_lookup path s) (\<lambda>_. True)"
  using assms unfolding ext2_lookup_def by (cases path) (auto intro!: safe_intros lookup_loop_safe)

lemmas safe_lookup [safe_intros] = safe_True [OF ext2_lookup_safe]

lemma ext2_lookup_ino_safe:
  assumes "fs_ok G s" "length path \<le> 256"
  shows "safe G (ext2_lookup_ino path s) (\<lambda>_. True)"
  unfolding ext2_lookup_ino_def by (auto intro!: safe_intros assms)

lemmas safe_lookup_ino [safe_intros] = safe_True [OF ext2_lookup_ino_safe]

lemma last_slash_bound: "l \<le> p + length cs \<Longrightarrow> last_slash cs p l \<le> p + length cs"
  by (induction cs p l rule: last_slash.induct) auto

lemma last_slash_le: "last_slash cs 0 0 \<le> length cs"
  using last_slash_bound [of 0 0 cs] by simp

lemma safe_path_split [safe_intros]:
  assumes "path \<noteq> []" "length path \<le> 256" "safe G (f None) Q"
    "\<And>parent name. length parent \<le> 256 \<Longrightarrow> length name < 256 \<Longrightarrow> safe G (f (Some (parent, name))) Q"
  shows "safe G (path_split path \<bind> f) Q"
  using assms last_slash_le [of path] by (auto simp: path_split_def Let_def)

subsection \<open>Listing\<close>

lemma list_dir_block_ok:
  assumes "unat bufsz + 256 < 2 ^ 32" "length out \<le> unat bufsz"
  shows "\<exists>out'. list_dir_block b p bufsz flags out = Some out' \<and> length out' \<le> unat bufsz"
  using assms(2)
proof (induction p arbitrary: out rule: walk_induct [where b = b])
  case (stop p)
  then show ?case
    using dirent_valid_Some [of b p] by (auto simp: list_dir_block.simps [of b p])
next
  case (step p)
  note f = ent_fields [OF step(2)]
  let ?nl = "of_nat (length (ent_name b p)) :: u8"
  obtain rl where rl: "de_rec_len b p = Some rl" "unat rl = ent_rec b p" using f(5) by blast
  have nl: "unat ?nl = length (ent_name b p)" using name_length [OF f(4)] by simp
  have o: "unat (of_nat (length out) :: u32) = length out" using assms(1) step(4) by (simp add: unat_of_nat)
  have "unat (of_nat (length out) + ucast ?nl :: u32) = length out + length (ent_name b p)"
    using assms(1) step(4) f(4) by (subst unat_add_lem [THEN iffD1]) (simp_all add: unat_ucast_8 nl o)
  then have "unat (of_nat (length out) + ucast ?nl + 1 :: u32) = length out + length (ent_name b p) + 1"
    using assms(1) step(4) f(4) by (subst unat_add_lem [THEN iffD1]) simp_all
  then have c: "(of_nat (length out) + ucast ?nl + 1 < bufsz) = (length out + length (ent_name b p) + 1 < unat bufsz)"
    by (simp add: word_less_nat_alt)
  show ?case
    using step(1,2,4) step(3) [of out] step(3) [of "out @ ent_name b p @ [0x0a]"]
    unfolding list_dir_block.simps [of b p]
    by (simp add: f(1-3) rl nl c)
qed

lemma list_dir_blocks_safe:
  assumes "fs_ok G s" "unat bufsz + 256 < 2 ^ 32" "length out \<le> unat bufsz"
  shows "safe G (list_dir_blocks bs bufsz flags out s) (\<lambda>out. length out \<le> unat bufsz)"
  using assms(1,3)
proof (induction bs arbitrary: s out)
  case (Cons b bs)
  show ?case
    unfolding list_dir_blocks.simps Let_def
  proof (intro safe_intros Cons.prems)
    fix blk s'
    assume s': "fs_ok G s'"
    obtain out' where "list_dir_block blk 0 bufsz flags out = Some out'" "length out' \<le> unat bufsz"
      using list_dir_block_ok [OF assms(2) Cons.prems(2)] by blast
    then show "safe G (case Some blk of None \<Rightarrow> Some (out, s') | Some blk \<Rightarrow>
        list_dir_block blk 0 bufsz flags out \<bind> (\<lambda>out. list_dir_blocks bs bufsz flags out (s'\<lparr>scratch := blk\<rparr>)))
        (\<lambda>out. length out \<le> unat bufsz)"
      using Cons.IH s' by simp
  qed (auto intro: safe_intros Cons.prems)
qed (auto intro: safe_intros)

lemma ext2_list_dir_safe:
  assumes "fs_ok G s" "unat bufsz + 256 < 2 ^ 32"
  shows "safe G (ext2_list_dir dir_ino bufsz flags s) (\<lambda>out. length out \<le> unat bufsz)"
  unfolding ext2_list_dir_def by (auto intro!: safe_intros list_dir_blocks_safe assms)

subsection \<open>Files\<close>

lemma safe_case_option [safe_intros]:
  "(x = None \<Longrightarrow> safe G a Q) \<Longrightarrow> (\<And>y. x = Some y \<Longrightarrow> safe G (b y) Q) \<Longrightarrow>
    safe G (case x of None \<Rightarrow> a | Some y \<Rightarrow> b y) Q"
  by (cases x) simp_all

lemma safe_case_if [safe_intros]:
  "(c \<Longrightarrow> safe G (case x of (r, s) \<Rightarrow> f r s) Q) \<Longrightarrow> (\<not> c \<Longrightarrow> safe G (case y of (r, s) \<Rightarrow> f r s) Q) \<Longrightarrow>
    safe G (case (if c then x else y) of (r, s) \<Rightarrow> f r s) Q"
  by simp

lemma safe0_intros [safe_intros]:
  "fs_ok G s \<Longrightarrow> safe0 G (Some s)"
  "(c \<Longrightarrow> safe0 G m) \<Longrightarrow> (\<not> c \<Longrightarrow> safe0 G n) \<Longrightarrow> safe0 G (if c then m else n)"
  "safe0 G m \<Longrightarrow> (\<And>s. fs_ok G s \<Longrightarrow> safe0 G (g s)) \<Longrightarrow> safe0 G (m \<bind> g)"
  by (auto simp: safe0_def)

lemma safe0_write_inode [safe_intros]:
  assumes "fs_ok G s" "inode_ok i" "\<And>r s. fs_ok G s \<Longrightarrow> safe0 G (h (r, s))"
  shows "safe0 G (write_inode ino i s \<bind> h)"
  using write_inode_safe [OF assms(1,2), of "\<lambda>_. True" ino] assms(3) by (auto simp: safe_def)

lemma safe0_read [safe_intros]:
  "fs_ok G s \<Longrightarrow> (\<And>s'. fs_ok G s' \<Longrightarrow> safe0 G (f None s')) \<Longrightarrow>
    (\<And>b s'. fs_ok G s' \<Longrightarrow> length b = unat (g_bs G) \<Longrightarrow> safe0 G (f (Some b) s')) \<Longrightarrow>
    safe0 G (case read_block n s of (r, s) \<Rightarrow> f r s)"
  using read_block_ok [of G s n] by (auto split: prod.split) (metis option.exhaust)

text \<open>Computations with two results.\<close>

definition safe2 :: "geometry \<Rightarrow> ('a \<times> 'b \<times> ext2_fs) option \<Rightarrow> ('a \<Rightarrow> 'b \<Rightarrow> bool) \<Rightarrow> bool" where
  "safe2 G m Q \<longleftrightarrow> (\<exists>a b s'. m = Some (a, b, s') \<and> fs_ok G s' \<and> Q a b)"

lemma safe2_iff: "safe2 G m Q \<longleftrightarrow> safe G (map_option (\<lambda>(a, b, s). ((a, b), s)) m) (\<lambda>(a, b). Q a b)"
  by (cases m) (auto simp: safe2_def safe_def)

lemma safe2_bind:
  "safe2 G m P \<Longrightarrow> (\<And>a b s'. P a b \<Longrightarrow> fs_ok G s' \<Longrightarrow> safe G (f (a, b, s')) Q) \<Longrightarrow> safe G (m \<bind> f) Q"
  by (auto simp: safe2_def)

lemma map_case_bno:
  "map_option f (case x of Bno b \<Rightarrow> u b | Break \<Rightarrow> v | Fail \<Rightarrow> w) =
    (case x of Bno b \<Rightarrow> map_option f (u b) | Break \<Rightarrow> map_option f v | Fail \<Rightarrow> map_option f w)"
  by (cases x) simp_all

lemmas safe2_simps = map_bind map_case_prod map_case_option map_case_bno
  if_distrib [of "map_option (\<lambda>(a, b, s). ((a, b), s))"]

lemma ptrs_bound:
  assumes "geo_ok G"
  shows "g_bs G div 4 \<noteq> 0" "4 * unat (g_bs G div 4) = unat (g_bs G)" "unat (g_bs G div 4) \<le> 1024"
  using assms by (auto simp: geo_ok_def unat_div)

lemma safe_ptr_at [safe_intros]:
  assumes "geo_ok G" "length b = unat (g_bs G)" "k < g_bs G div 4" "\<And>n. safe G (f n) Q"
  shows "safe G (ptr_at b k \<bind> f) Q"
proof -
  have "4 * unat k + 4 \<le> length b"
    using assms(3) ptrs_bound(2) [OF assms(1)] assms(2) by (simp add: word_less_nat_alt)
  then show ?thesis using assms(4) by (simp add: ptr_at_def slice_def)
qed

text \<open>The range tests of the code bound the index into a block of pointers.\<close>

lemma indirect_bound:
  assumes "\<not> i < 12" "i < 12 + (n :: u32)" "unat n \<le> 1024"
  shows "i - 12 < n"
proof -
  have "unat (12 + n) = 12 + unat n" using assms(3) by (subst unat_add_lem [THEN iffD1]) simp_all
  then have "12 \<le> unat i" "unat i < 12 + unat n" using assms(1,2) by (simp_all add: word_less_nat_alt)
  then show ?thesis by (simp add: word_less_nat_alt unat_sub word_le_nat_alt)
qed

lemma double_bound:
  assumes "\<not> i < 12 + (n :: u32)" "i < 12 + n + n * n" "unat n \<le> 1024" "n \<noteq> 0"
  shows "(i - 12 - n) div n < n" "(i - 12 - n) mod n < n"
proof -
  have n: "0 < unat n" using assms(4) by (simp add: unat_gt_0)
  have a: "unat (12 + n) = 12 + unat n" using assms(3) by (subst unat_add_lem [THEN iffD1]) simp_all
  have "unat n * unat n \<le> 1024 * 1024" using assms(3) by (rule mult_le_mono [OF _ assms(3)])
  then have m: "unat (n * n) = unat n * unat n" by (subst unat_mult_lem [THEN iffD1]) simp_all
  then have "unat (12 + n + n * n) = 12 + unat n + unat n * unat n"
    using a \<open>unat n * unat n \<le> _\<close> assms(3) by (subst unat_add_lem [THEN iffD1]) simp_all
  then have i: "12 + unat n \<le> unat i" "unat i < 12 + unat n + unat n * unat n"
    using assms(1,2) a by (simp_all add: word_less_nat_alt)
  have "unat (i - (12 + n)) = unat i - (12 + unat n)" using i(1) a by (subst unat_sub) (simp_all add: word_le_nat_alt)
  then have "unat (i - 12 - n) < unat n * unat n" using i by (simp add: diff_diff_eq)
  then have "unat (i - 12 - n) div unat n < unat n" using n by (simp add: div_less_iff_less_mult)
  then show "(i - 12 - n) div n < n" by (simp add: word_less_nat_alt unat_div)
  show "(i - 12 - n) mod n < n" using n by (simp add: word_less_nat_alt unat_mod)
qed

lemma read_bno_safe:
  assumes "fs_ok G s"
  shows "safe G (read_bno k inode s) (\<lambda>_. True)"
proof -
  note g = okD(8) [OF assms] and p = ptrs_bound [OF okD(8) [OF assms]]
  show ?thesis
    unfolding read_bno_def Let_def okD [OF assms]
    using indirect_bound [OF _ _ p(3), of k] double_bound [OF _ _ p(3,1), of k] p(1)
    by (auto intro!: safe_intros assms g)
qed

text \<open>A read stays inside the buffer of the caller, and its result tells how much of it is filled.\<close>

definition read_res :: "nat \<Rightarrow> int \<Rightarrow> bytes \<Rightarrow> bool" where
  "read_res n r out \<longleftrightarrow> length out \<le> n \<and> (r = - 1 \<or> r = int (length out))"

lemma ext2_read_loop_safe:
  assumes "fs_ok G s" "length out + remaining = sz"
  shows "safe2 G (ext2_read_loop inode sz remaining off out s) (read_res sz)"
  using assms
proof (induction remaining arbitrary: off out s rule: less_induct)
  case (less remaining)
  let ?bs = "g_bs G" and ?off = "unat (off mod ucast (g_bs G))"
  define n where "n = (if unat ?bs - ?off > remaining then remaining else unat ?bs - ?off)"
  note g = okD(8) [OF less(2)]
  have bs: "?bs \<noteq> 0" using g by (auto simp: geo_ok_def)
  have off: "?off < unat ?bs" using block_off_less [OF bs] .
  show ?case
  proof (cases "remaining = 0")
    case True
    then show ?thesis using less(2,3) by (subst ext2_read_loop.simps) (auto simp: safe2_def read_res_def)
  next
    case False
    have n: "remaining - n < remaining" "n \<le> remaining" "?off + n \<le> unat ?bs" using False off by (auto simp: n_def)
    have rec: "safe2 G (ext2_read_loop inode sz (remaining - length d) o' (out @ d) s') (read_res sz)"
      if "fs_ok G s'" "n = length d" for o' d s'
      using less(1) [OF n(1) that(1)] less(3) that(2) n(2) by simp
    have hole: "safe2 G (ext2_read_loop inode sz (remaining - n) o' (out @ replicate n 0) s') (read_res sz)"
      if "fs_ok G s'" for o' s'
      using rec [OF that, of "replicate n 0"] by simp
    have e: "read_res sz (int (sz - remaining)) out" "read_res sz (- 1) out"
      using less(3) by (auto simp: read_res_def)
    show ?thesis
      unfolding ext2_read_loop.simps [of inode sz remaining] Let_def okD [OF less(2)] n_def [symmetric] safe2_iff safe2_simps
      using False bs n(3) e less(2)
      by (auto intro!: safe_intros safe_True [OF read_bno_safe] rec [unfolded safe2_iff] hole [unfolded safe2_iff]
        split: bno_res.split)
  qed
qed

lemma unat_ucast_32: "unat (ucast (x :: u32) :: u64) = unat x"
  using unat_less [of x] by (simp add: unsigned_ucast_eq take_bit_nat_eq_self)

lemma ext2_read_safe:
  assumes "fs_ok G s"
  shows "safe2 G (ext2_read ino off n s) (read_res (unat n))"
proof -
  have le: "unat (ucast (fs - off) :: u32) \<le> unat n" if "off < fs" "off + ucast n > fs" for fs :: u64
  proof -
    have "fs - off \<le> ucast n"
      using that by unat_arith
    then have "unat (fs - off) \<le> unat n"
      by (simp add: word_le_nat_alt unat_ucast_32)
    then show ?thesis using unat_less [of n] by (simp add: unsigned_ucast_eq take_bit_nat_eq_self)
  qed
  have w: "safe2 G m (read_res a) \<Longrightarrow> a \<le> b \<Longrightarrow> safe2 G m (read_res b)" for m a b
    by (fastforce simp: safe2_def read_res_def)
  have r: "safe G (map_option (\<lambda>(a, b, s). ((a, b), s)) (ext2_read_loop i (unat k) (unat k) off [] s')) (\<lambda>(a, b). read_res (unat n) a b)"
    if "fs_ok G s'" "unat k \<le> unat n" for i k s'
    using w [OF ext2_read_loop_safe [OF that(1), of "[]"] that(2)] unfolding safe2_iff by simp
  show ?thesis
    unfolding ext2_read_def Let_def safe2_iff safe2_simps
    by (auto intro!: safe_intros assms r le simp: read_res_def not_le)
qed

lemma ensure_ptr_block_safe:
  assumes "fs_ok G s" "inode_ok i"
  shows "safe2 G (ensure_ptr_block k i s) (\<lambda>_ i. inode_ok i)"
  unfolding ensure_ptr_block_def Let_def safe2_iff safe2_simps
  using assms by (auto intro!: safe_intros simp: okD inode_ok_def)

lemma ptr_entry_safe:
  assumes "fs_ok G s" "k < g_bs G div 4"
  shows "safe G (ptr_entry c p k s) (\<lambda>_. True)"
proof -
  note g = okD(8) [OF assms(1)]
  have "4 * unat k + 4 \<le> unat (g_bs G)" using assms(2) ptrs_bound(2) [OF g] by (simp add: word_less_nat_alt)
  then show ?thesis
    unfolding ptr_entry_def Let_def
    by (cases c) (auto intro!: safe_intros assms g simp: okD)
qed

lemma write_bno_safe:
  assumes "fs_ok G s" "inode_ok i"
  shows "safe2 G (write_bno k i s) (\<lambda>_ i. inode_ok i)"
proof -
  note p = ptrs_bound [OF okD(8) [OF assms(1)]]
  show ?thesis
    unfolding write_bno_def Let_def okD [OF assms(1)] safe2_iff safe2_simps
    using indirect_bound [OF _ _ p(3), of k] double_bound [OF _ _ p(3,1), of k] p(1) assms
    by (auto intro!: safe_intros safe2_bind [OF ensure_ptr_block_safe] safe_True [OF ptr_entry_safe] simp: inode_ok_def)
qed

lemma ext2_write_loop_safe:
  assumes "fs_ok G s" "inode_ok i" "w \<le> length src"
  shows "safe2 G (ext2_write_loop off src w i s) (\<lambda>w i. inode_ok i \<and> w \<le> length src)"
  using assms
proof (induction "length src - w" arbitrary: w i s rule: less_induct)
  case less
  let ?bs = "g_bs G" and ?off = "unat ((off + of_nat w) mod ucast (g_bs G))"
  define n where "n = (if unat ?bs - ?off > length src - w then length src - w else unat ?bs - ?off)"
  note g = okD(8) [OF less(2)]
  have bs: "?bs \<noteq> 0" using g by (auto simp: geo_ok_def)
  have off: "?off < unat ?bs" using block_off_less [OF bs] .
  show ?case
  proof (cases "w < length src")
    case False
    then show ?thesis using less(2-4) by (subst ext2_write_loop.simps) (auto simp: safe2_def)
  next
    case True
    have n: "length src - (w + n) < length src - w" "w + n \<le> length src" "?off + n \<le> unat ?bs"
      using True off by (auto simp: n_def)
    have rec: "safe2 G (ext2_write_loop off src (w + n) i' s') (\<lambda>w i. inode_ok i \<and> w \<le> length src)"
      if "fs_ok G s'" "inode_ok i'" for i' s'
      using less(1) [OF n(1) that n(2)] .
    show ?thesis
      unfolding ext2_write_loop.simps [of off src w] Let_def okD [OF less(2)] n_def [symmetric] safe2_iff safe2_simps
      using True bs n(2,3) less(2-4)
      by (auto intro!: safe_intros safe2_bind [OF write_bno_safe] rec [unfolded safe2_iff] simp: min_def)
  qed
qed

lemma ext2_write_safe:
  assumes "fs_ok G s"
  shows "safe G (ext2_write ino off buf s) (\<lambda>r. r \<le> int (length buf))"
  unfolding ext2_write_def Let_def
  by (auto intro!: safe_intros assms safe2_bind [OF ext2_write_loop_safe])

lemma free_blocks_safe [safe_intros]:
  assumes "fs_ok G s"
  shows "safe0 G (free_blocks bs s)"
  using assms
proof (induction bs arbitrary: s)
  case (Cons b bs)
  then show ?case by (auto intro: safe_intros)
qed (auto intro: safe_intros)

lemma free_data_safe:
  assumes "fs_ok G s" "inode_ok i"
  shows "safe G (free_data i s) inode_ok"
proof -
  have i: "inode_ok (i\<lparr>i_block := replicate 12 0 @ drop 12 (i_block i)\<rparr>)" using assms(2) by (simp add: inode_ok_def)
  show ?thesis
    unfolding free_data_def Let_def
    using i assms(1) by (auto intro!: safe_intros simp: inode_ok_def)
qed

lemmas safe_free_data = safe_bind [OF free_data_safe]

lemma safe0_free_data [safe_intros]:
  assumes "fs_ok G s" "inode_ok i" "\<And>i s. inode_ok i \<Longrightarrow> fs_ok G s \<Longrightarrow> safe0 G (f (i, s))"
  shows "safe0 G (free_data i s \<bind> f)"
  using free_data_safe [OF assms(1,2)] assms(3) by (auto simp: safe_def)

lemma ext2_truncate_safe:
  assumes "fs_ok G s"
  shows "safe G (ext2_truncate ino s) (\<lambda>_. True)"
  unfolding ext2_truncate_def by (auto intro!: safe_intros safe_free_data assms)

lemma inode_zero_ok: "inode_ok inode_zero"
  by (simp add: inode_ok_def inode_zero_def)

subsection \<open>Operations on paths\<close>

lemma ext2_create_safe:
  assumes "fs_ok G s" "path \<noteq> []" "length path \<le> 256"
  shows "safe G (ext2_create path uid gid s) (\<lambda>_. True)"
  unfolding ext2_create_def Let_def by (auto intro!: safe_intros assms simp: inode_zero_ok)

lemma ext2_mkdir_safe:
  assumes "fs_ok G s" "path \<noteq> []" "length path \<le> 256"
  shows "safe G (ext2_mkdir path uid gid s) (\<lambda>_. True)"
  unfolding ext2_mkdir_def Let_def by (auto intro!: safe_intros assms simp: inode_zero_ok)

lemma ext2_unlink_safe:
  assumes "fs_ok G s" "path \<noteq> []" "length path \<le> 256"
  shows "safe G (ext2_unlink path s) (\<lambda>_. True)"
  unfolding ext2_unlink_def Let_def
  by (auto intro!: safe_intros assms dir_remove_entry_safe)

lemmas safe_unlink [safe_intros] = safe_True [OF ext2_unlink_safe]

lemma ext2_rename_safe:
  assumes "fs_ok G s" "old \<noteq> []" "length old \<le> 256" "new \<noteq> []" "length new \<le> 256"
  shows "safe G (ext2_rename old new s) (\<lambda>_. True)"
proof -
  have replace: "safe G (if dst = 0 then Some (True, s) else do {
      (r, s) \<leftarrow> read_inode dst s;
      (case r of None \<Rightarrow> Some (False, s) | Some i \<Rightarrow>
         if is_dir i then Some (False, s) else do { (_, s) \<leftarrow> ext2_unlink new s; Some (True, s) }) }) (\<lambda>_. True)"
    if "fs_ok G s" for dst s
    using that assms(4,5) by (auto intro!: safe_intros)
  show ?thesis
    unfolding ext2_rename_def Let_def
    by (auto intro!: safe_intros safe_True [OF replace] assms)
qed

lemma ext2_chmod_safe:
  assumes "fs_ok G s" "length path \<le> 256"
  shows "safe G (ext2_chmod path mode s) (\<lambda>_. True)"
  unfolding ext2_chmod_def by (auto intro!: safe_intros assms)

lemma ext2_inode_chown_safe:
  assumes "fs_ok G s"
  shows "safe G (ext2_inode_chown ino uid gid s) (\<lambda>_. True)"
  unfolding ext2_inode_chown_def by (auto intro!: safe_intros assms)

lemma ext2_stat_safe:
  assumes "fs_ok G s"
  shows "safe G (ext2_inode_stat ino s) (\<lambda>_. True)" "safe G (ext2_stat_full ino s) (\<lambda>_. True)"
    "safe G (ext2_file_size ino s) (\<lambda>_. True)"
  unfolding ext2_inode_stat_def ext2_stat_full_def ext2_file_size_def by (auto intro!: safe_intros assms)

end
