(* ===== verification/Ext2io.thy ===== *)
theory Ext2io
  imports Fssafe
begin

text \<open>
  What the ext2 file system keeps on a disk: the byte layout of its structures round trips, and on a
  device that serves its requests a block, an inode or a file reads back as it was written.
\<close>

subsection \<open>Layout\<close>

lemma fld_skip: "length xs \<le> off \<Longrightarrow> fld off n (xs @ ys) = fld (off - length xs) n ys"
  by (simp add: fld_def)

lemma fld_here: "length xs = n \<Longrightarrow> fld 0 n (xs @ ys) = le_word xs"
  by (simp add: fld_def)

lemma super_of_bytes: "length (s_pad s) = 934 \<Longrightarrow> super_of (super_bytes s) = s"
  by (cases s) (simp add: super_of_def super_bytes_def fld_skip fld_here)

lemma bgd_of_bytes: "bgd_ok g \<Longrightarrow> bgd_of (bgd_bytes g) = g"
  by (cases g) (simp add: bgd_of_def bgd_bytes_def fld_skip fld_here bgd_ok_def)

lemma fld_words: "k < length ws \<Longrightarrow> fld (4 * k) 4 (concat (map (le_bytes 4) ws) @ ys) = (ws ! k :: u32)"
proof (induction ws arbitrary: k)
  case (Cons w ws)
  show ?case
  proof (cases k)
    case (Suc j)
    then have "(fld (4 * k) 4 (concat (map (le_bytes 4) (w # ws)) @ ys) :: u32) =
        fld (4 * j) 4 (concat (map (le_bytes 4) ws) @ ys)"
      by (simp add: fld_skip)
    then show ?thesis using Cons Suc by simp
  qed (simp add: fld_here)
qed simp

lemma length_words [simp]: "length (concat (map (le_bytes 4) ws)) = 4 * length ws"
  by (induction ws) simp_all

lemma inode_of_bytes:
  assumes "inode_ok i"
  shows "inode_of (inode_bytes i) = i"
proof -
  have "map (\<lambda>k. fld (40 + 4 * k) 4 (inode_bytes i)) [0..<15] = map ((!) (i_block i)) [0..<length (i_block i)]"
    using assms by (intro map_cong) (auto simp: inode_bytes_def fld_skip fld_words inode_ok_def)
  also have "\<dots> = i_block i" by (rule map_nth)
  finally have b: "map (\<lambda>k. fld (40 + 4 * k) 4 (inode_bytes i)) [0..<15] = i_block i" .
  show ?thesis
    unfolding inode_of_def b using assms
    by (cases i) (simp add: inode_bytes_def fld_skip fld_here inode_ok_def)
qed

subsection \<open>Blocks\<close>

definition good :: "ext2_fs \<Rightarrow> bool" where
  "good s \<longleftrightarrow> io_fail (fs_io s) = (\<lambda>_. None) \<and> io_mem (fs_io s) = (\<lambda>_. True)"

definition fblk :: "ext2_fs \<Rightarrow> u32 \<Rightarrow> bytes" where
  "fblk s n = concat (map (\<lambda>i. io_sec (fs_io s) (part_lba s + ucast n * ucast (block_size s div 512) + of_nat i))
     [0..<unat (block_size s div 512)])"

lemma length_concat_const: "(\<And>x. x \<in> set xs \<Longrightarrow> length (f x) = n) \<Longrightarrow> length (concat (map f xs)) = n * length xs"
  by (induction xs) simp_all

lemma length_blk:
  assumes "fs_ok G s"
  shows "length (fblk s n) = unat (g_bs G)"
proof -
  have "length (io_sec (fs_io s) l) = 512" for l using okD(9) [OF assms] by (simp add: io_inv_def)
  then show ?thesis
    unfolding fblk_def using bs_secs [OF okD(8) [OF assms]]
    by (subst length_concat_const [of _ _ 512]) (simp_all add: okD [OF assms])
qed

lemma secs_le:
  assumes "geo_ok G"
  shows "0 < unat (g_bs G div 512)" "unat (g_bs G div 512) \<le> 8"
  using assms by (auto simp: geo_ok_def unat_div)

lemma read_sectors_once:
  assumes "0 < n" "n \<le> 8"
  shows "read_sectors lba n 0 [] d = blkdev_read lba n d"
  using assms
  by (cases "blkdev_read lba n d")
    (simp add: read_sectors.simps [of lba n 0] read_sectors.simps [of lba n 8] split: option.split)

lemma write_sectors_once:
  assumes "0 < n" "n \<le> 8"
  shows "write_sectors lba n 0 b d = blkdev_write lba n b d"
  using assms
  by (cases "blkdev_write lba n b d") (simp add: write_sectors.simps [of lba n 0] write_sectors.simps [of lba n 8])

text \<open>A step that leaves the disk as it is.\<close>

definition quiet :: "geometry \<Rightarrow> ext2_fs \<Rightarrow> ext2_fs \<Rightarrow> bool" where
  "quiet G s s' \<longleftrightarrow> fs_ok G s' \<and> good s' \<and> fblk s' = fblk s"

lemma quiet_refl: "fs_ok G s \<Longrightarrow> good s \<Longrightarrow> quiet G s s"
  by (simp add: quiet_def)

lemma quiet_scratch [simp]: "quiet G s (s'\<lparr>scratch := b\<rparr>) = quiet G s s'"
  by (simp add: quiet_def good_def fblk_def [abs_def])

lemma quiet_trans: "quiet G s s' \<Longrightarrow> quiet G s' s'' \<Longrightarrow> quiet G s s''"
  by (simp add: quiet_def)

lemma kmalloc_good:
  assumes "fs_ok G s" "good s"
  shows "\<exists>s'. kmalloc_buf s = (True, s') \<and> quiet G s s' \<and> fs_io s' = fs_io s\<lparr>io_req := Suc (io_req (fs_io s))\<rparr> \<and>
    part_lba s' = part_lba s \<and> block_size s' = block_size s"
proof -
  let ?s = "s\<lparr>fs_io := (fs_io s)\<lparr>io_req := Suc (io_req (fs_io s))\<rparr>\<rparr>"
  have e: "kmalloc_buf s = (True, ?s)" using assms(2) by (simp add: kmalloc_buf_def mem_get_def good_def)
  moreover have "quiet G s ?s"
    using kmalloc_ok [OF assms(1) e] assms(2) by (simp add: quiet_def good_def fblk_def [abs_def])
  ultimately show ?thesis by simp
qed

lemma read_block_good:
  assumes "fs_ok G s" "good s"
  shows "\<exists>s'. read_block n s = (Some (fblk s n), s') \<and> quiet G s s'"
proof -
  note g = okD(8) [OF assms(1)]
  obtain s1 where s1: "kmalloc_buf s = (True, s1)" "quiet G s s1"
      "fs_io s1 = fs_io s\<lparr>io_req := Suc (io_req (fs_io s))\<rparr>" "part_lba s1 = part_lba s" "block_size s1 = block_size s"
    using kmalloc_good [OF assms] by blast
  have ok1: "fs_ok G s1" "good s1" using s1(2) by (simp_all add: quiet_def)
  let ?lba = "part_lba s + ucast n * ucast (block_size s div 512)" and ?n = "unat (block_size s div 512)"
  have n: "0 < ?n" "?n \<le> 8" using secs_le [OF g] by (simp_all add: okD [OF assms(1)])
  let ?d = "(fs_io s1)\<lparr>io_n := Suc (io_n (fs_io s1))\<rparr>"
  have "blkdev_read ?lba ?n (fs_io s1) = (Some (fblk s n), ?d)"
    using ok1(2) by (simp add: blkdev_read_def good_def fblk_def s1(3))
  then have e: "read_block n s = (Some (take (unat (block_size s)) (fblk s n)), s1\<lparr>fs_io := ?d\<rparr>)"
    using s1(1,5) by (simp add: read_block_def read_sectors_once [OF n])
  have q: "quiet G s (s1\<lparr>fs_io := ?d\<rparr>)"
    using read_block_ok(1) [OF assms(1) e] s1 by (simp add: quiet_def good_def fblk_def [abs_def])
  show ?thesis using e q length_blk [OF assms(1), of n] by (simp add: okD [OF assms(1)])
qed

lemma put_sectors_other: "(\<And>i. i < n \<Longrightarrow> l \<noteq> lba + of_nat i) \<Longrightarrow> put_sectors lba n bs m l = m l"
proof (induction lba n bs m rule: put_sectors.induct)
  case (2 lba n bs m)
  have "l \<noteq> lba + 1 + of_nat i" if "i < n" for i using 2(2) [of "Suc i"] that by (simp add: ac_simps)
  moreover have "l \<noteq> lba" using 2(2) [of 0] by simp
  moreover have "put_sectors (lba + 1) n (drop 512 bs) (m(lba := take 512 bs)) l = (m(lba := take 512 bs)) l"
    using calculation by (intro 2(1))
  ultimately show ?case by simp
qed simp

lemma put_sectors_at:
  assumes "i < n" "n \<le> 8"
  shows "put_sectors lba n bs m (lba + of_nat i) = take 512 (drop (512 * i) bs)"
  using assms
proof (induction n arbitrary: lba bs m i)
  case (Suc n)
  show ?case
  proof (cases i)
    case 0
    have "lba \<noteq> lba + 1 + of_nat j" if "j < n" for j
    proof
      assume "lba = lba + 1 + of_nat j"
      then have "(of_nat (Suc j) :: u64) = 0" by (simp add: ac_simps)
      then show False using that Suc(3) by (simp add: word_unat_eq_iff unat_of_nat del: of_nat_Suc)
    qed
    then show ?thesis using 0 put_sectors_other [of n lba "lba + 1"] by simp
  next
    case (Suc j)
    have "put_sectors (lba + 1) n (drop 512 bs) (m(lba := take 512 bs)) (lba + 1 + of_nat j) =
        take 512 (drop (512 * j) (drop 512 bs))"
      using Suc.IH [of j "lba + 1"] Suc.prems Suc by simp
    then show ?thesis using Suc by (simp add: ac_simps)
  qed
qed simp

lemma concat_chunks: "length bs = k * n \<Longrightarrow> concat (map (\<lambda>i. take k (drop (k * i) bs)) [0..<n]) = bs"
proof (induction n arbitrary: bs)
  case (Suc n)
  have "concat (map (\<lambda>i. take k (drop (k * i) bs)) [0..<Suc n]) =
      take k bs @ concat (map (\<lambda>i. take k (drop (k * i) (drop k bs))) [0..<n])"
    by (simp add: upt_conv_Cons map_Suc_upt [symmetric] o_def ac_simps del: upt_Suc)
  also have "concat (map (\<lambda>i. take k (drop (k * i) (drop k bs))) [0..<n]) = drop k bs"
    using Suc(2) by (intro Suc(1)) simp
  finally show ?case by simp
qed simp

text \<open>The sectors of two blocks are disjoint.\<close>

lemma sectors_disjoint:
  fixes n m :: u32
  assumes "n \<noteq> m" "i < unat k" "j < unat k" "unat (k :: u32) \<le> 8"
  shows "part + ucast n * ucast k + of_nat i \<noteq> (part + ucast m * ucast k + of_nat j :: u64)"
proof
  assume "part + ucast n * ucast k + of_nat i = (part + ucast m * ucast k + of_nat j :: u64)"
  then have e: "ucast n * ucast k + of_nat i = (ucast m * ucast k + of_nat j :: u64)" by (simp add: ac_simps)
  have u: "unat (ucast x * ucast k + of_nat y :: u64) = unat x * unat k + y" if "y < unat k" for x :: u32 and y
  proof -
    have "unat x * unat k \<le> 2 ^ 32 * 8" using unat_less [of x] assms(4) by (intro mult_mono) simp_all
    then have "unat (ucast x * ucast k :: u64) = unat x * unat k"
      by (subst unat_mult_lem [THEN iffD1]) (simp_all add: unat_ucast_32)
    then show ?thesis
      using \<open>unat x * unat k \<le> _\<close> that assms(4)
      by (subst unat_add_lem [THEN iffD1]) (simp_all add: unat_of_nat)
  qed
  have "unat n * unat k + i = unat m * unat k + j" using arg_cong [OF e, of unat] u assms(2,3) by simp
  then have "(unat n * unat k + i) div unat k = (unat m * unat k + j) div unat k" by simp
  then have "unat n = unat m" using assms(2,3) by simp
  then show False using assms(1) by (simp add: word_unat_eq_iff)
qed

lemma write_block_good:
  assumes "fs_ok G s" "good s" "length b = unat (g_bs G)"
  shows "\<exists>s'. write_block n b s = (True, s') \<and> fs_ok G s' \<and> good s' \<and> fblk s' = (fblk s)(n := b)"
proof -
  note g = okD(8) [OF assms(1)]
  obtain s1 where s1: "kmalloc_buf s = (True, s1)" "quiet G s s1"
      "fs_io s1 = fs_io s\<lparr>io_req := Suc (io_req (fs_io s))\<rparr>" "part_lba s1 = part_lba s" "block_size s1 = block_size s"
    using kmalloc_good [OF assms(1,2)] by blast
  have ok1: "fs_ok G s1" "good s1" using s1(2) by (simp_all add: quiet_def)
  let ?k = "block_size s div 512"
  let ?lba = "part_lba s + ucast n * ucast ?k" and ?n = "unat ?k"
  have k: "0 < ?n" "?n \<le> 8" using secs_le [OF g] by (simp_all add: okD [OF assms(1)])
  let ?d = "(fs_io s1)\<lparr>io_sec := put_sectors ?lba ?n b (io_sec (fs_io s)), io_n := Suc (io_n (fs_io s1))\<rparr>"
  have "blkdev_write ?lba ?n b (fs_io s1) = (True, ?d)"
    using ok1(2) by (simp add: blkdev_write_def good_def s1(3))
  then have e: "write_block n b s = (True, s1\<lparr>fs_io := ?d\<rparr>)"
    using s1(1) by (simp add: write_block_def Let_def write_sectors_once [OF k])
  have "fblk (s1\<lparr>fs_io := ?d\<rparr>) m = ((fblk s)(n := b)) m" for m
  proof (cases "m = n")
    case True
    have "fblk (s1\<lparr>fs_io := ?d\<rparr>) n = concat (map (\<lambda>i. take 512 (drop (512 * i) b)) [0..<?n])"
      unfolding fblk_def using k(2) s1(4,5) by (intro arg_cong [where f = concat] map_cong) (simp_all add: put_sectors_at)
    also have "\<dots> = b" using assms(3) bs_secs [OF g] by (intro concat_chunks) (simp add: okD [OF assms(1)])
    finally show ?thesis using True by simp
  next
    case False
    have "put_sectors ?lba ?n b (io_sec (fs_io s)) (part_lba s + ucast m * ucast ?k + of_nat i) =
        io_sec (fs_io s) (part_lba s + ucast m * ucast ?k + of_nat i)" if "i < ?n" for i
      using sectors_disjoint [OF False that _ k(2)] by (intro put_sectors_other) blast
    then have "fblk (s1\<lparr>fs_io := ?d\<rparr>) m = fblk s m"
      unfolding fblk_def using s1(4,5) by (intro arg_cong [where f = concat] map_cong) simp_all
    then show ?thesis using False by simp
  qed
  moreover have "good (s1\<lparr>fs_io := ?d\<rparr>)" using ok1(2) by (simp add: good_def)
  ultimately show ?thesis using e write_block_ok [OF assms(1,3) e] by blast
qed

text \<open>Rules for computations on such a device.\<close>

lemma run_read:
  assumes "fs_ok G s" "good s" "\<And>s'. quiet G s s' \<Longrightarrow> P (f (Some (fblk s n)) s')"
  shows "P (case read_block n s of (r, s) \<Rightarrow> f r s)"
  using read_block_good [OF assms(1,2), of n] assms(3) by auto

lemma run_kmalloc:
  assumes "fs_ok G s" "good s" "\<And>s'. quiet G s s' \<Longrightarrow> P (f True s')"
  shows "P (case kmalloc_buf s of (r, s) \<Rightarrow> f r s)"
  using kmalloc_good [OF assms(1,2)] assms(3) by auto

lemma quietD: "quiet G s s' \<Longrightarrow> fs_ok G s'" "quiet G s s' \<Longrightarrow> good s'" "quiet G s s' \<Longrightarrow> fblk s' = fblk s"
  by (simp_all add: quiet_def)

subsection \<open>Inodes\<close>

text \<open>Where an inode lies, in terms of the contents of the blocks.\<close>

definition bgd_blk :: "geometry \<Rightarrow> u32 \<Rightarrow> u32" where
  "bgd_blk G ino = ucast (g_bgd G) + (ino - 1) div g_ipg G div (g_bs G div 32)"

definition inode_blk :: "geometry \<Rightarrow> (u32 \<Rightarrow> bytes) \<Rightarrow> u32 \<Rightarrow> u32" where
  "inode_blk G B ino = bg_inode_table (bgd_of (take 32 (drop (unat ((ino - 1) div g_ipg G mod (g_bs G div 32) * 32))
     (B (bgd_blk G ino))))) + (ino - 1) mod g_ipg G div (g_bs G div g_isz G)"

definition inode_off :: "geometry \<Rightarrow> u32 \<Rightarrow> nat" where
  "inode_off G ino = unat ((ino - 1) mod g_ipg G mod (g_bs G div g_isz G) * g_isz G)"

definition inode_at :: "geometry \<Rightarrow> (u32 \<Rightarrow> bytes) \<Rightarrow> u32 \<Rightarrow> ext2_inode" where
  "inode_at G B ino = inode_of (take 128 (drop (inode_off G ino) (B (inode_blk G B ino))))"

definition inode_upd :: "geometry \<Rightarrow> u32 \<Rightarrow> ext2_inode \<Rightarrow> (u32 \<Rightarrow> bytes) \<Rightarrow> u32 \<Rightarrow> bytes" where
  "inode_upd G ino i B = (let b = inode_blk G B ino; k = inode_off G ino
     in B(b := take k (B b) @ inode_bytes i @ drop (k + 128) (B b)))"

lemma inode_off_bound: "geo_ok G \<Longrightarrow> inode_off G ino + 128 \<le> unat (g_bs G)"
  by (simp add: inode_off_def inode_slot)

lemma inode_at_ok:
  assumes "fs_ok G s"
  shows "inode_ok (inode_at G (fblk s) ino)"
  using inode_off_bound [OF okD(8) [OF assms], of ino] length_blk [OF assms]
  by (simp add: inode_at_def inode_of_ok)

lemma read_inode_good:
  assumes "fs_ok G s" "good s" "ino \<noteq> 0"
  shows "\<exists>s'. read_inode ino s = Some (Some (inode_at G (fblk s) ino), s') \<and> quiet G s s'"
proof -
  note g = okD(8) [OF assms(1)]
  obtain s1 where s1: "read_block (bgd_blk G ino) s = (Some (fblk s (bgd_blk G ino)), s1)" "quiet G s s1"
    using read_block_good [OF assms(1,2)] by blast
  let ?s1 = "s1\<lparr>scratch := fblk s (bgd_blk G ino)\<rparr>"
  have q1: "quiet G s ?s1" using s1(2) by simp
  obtain s2 where s2: "read_block (inode_blk G (fblk s) ino) ?s1 = (Some (fblk s (inode_blk G (fblk s) ino)), s2)" "quiet G ?s1 s2"
    using read_block_good [OF quietD(1,2) [OF q1]] quietD(3) [OF q1] by metis
  have "read_inode ino s = Some (Some (inode_at G (fblk s) ino), s2\<lparr>scratch := fblk s (inode_blk G (fblk s) ino)\<rparr>)"
    using assms(3) s1(1) s2(1) inode_off_bound [OF g, of ino] geo_simps [OF g] length_blk [OF assms(1)]
    unfolding read_inode_def okD [OF assms(1)]
    by (simp add: udiv_def umod_def Let_def slice_def bgd_blk_def inode_blk_def inode_off_def inode_at_def
        okD [OF quietD(1) [OF s1(2)]] okD [OF quietD(1) [OF s2(2)]])
  then show ?thesis using quiet_trans [OF q1 s2(2)] by simp
qed

lemma write_inode_good:
  assumes "fs_ok G s" "good s" "ino \<noteq> 0" "inode_ok i"
  shows "\<exists>s'. write_inode ino i s = Some (True, s') \<and> fs_ok G s' \<and> good s' \<and> fblk s' = inode_upd G ino i (fblk s)"
proof -
  note g = okD(8) [OF assms(1)]
  let ?b = "inode_blk G (fblk s) ino" and ?k = "inode_off G ino"
  obtain s0 where s0: "kmalloc_buf s = (True, s0)" "quiet G s s0" using kmalloc_good [OF assms(1,2)] by blast
  note q0 = quietD [OF s0(2)]
  obtain s1 where s1: "read_block (bgd_blk G ino) s0 = (Some (fblk s (bgd_blk G ino)), s1)" "quiet G s0 s1"
    using read_block_good [OF q0(1,2)] q0(3) by metis
  note q1 = quietD [OF s1(2)]
  obtain s2 where s2: "read_block ?b s1 = (Some (fblk s ?b), s2)" "quiet G s1 s2"
    using read_block_good [OF q1(1,2)] q1(3) q0(3) by metis
  note q2 = quietD [OF s2(2)]
  let ?t = "take ?k (fblk s ?b) @ inode_bytes i @ drop (?k + 128) (fblk s ?b)"
  have p: "put ?k (inode_bytes i) (fblk s ?b) = Some ?t" "length ?t = unat (g_bs G)"
    using inode_off_bound [OF g, of ino] length_blk [OF assms(1), of ?b] assms(4) by (simp_all add: put_def)
  obtain s3 where s3: "write_block ?b ?t s2 = (True, s3)" "fs_ok G s3" "good s3" "fblk s3 = (fblk s2)(?b := ?t)"
    using write_block_good [OF q2(1,2) p(2)] by blast
  have "write_inode ino i s = Some (True, s3)"
    using assms(3) s0(1) s1(1) s2(1) p(1) s3(1) geo_simps [OF g] length_blk [OF assms(1)]
    unfolding write_inode_def okD [OF assms(1)]
    by (simp add: udiv_def umod_def Let_def slice_def bgd_blk_def inode_blk_def inode_off_def
        okD [OF q0(1)] okD [OF q1(1)] okD [OF q2(1)])
  moreover have "fblk s3 = inode_upd G ino i (fblk s)" using s3(4) q0(3) q1(3) q2(3) by (simp add: inode_upd_def Let_def)
  ultimately show ?thesis using s3(2,3) by blast
qed

subsection \<open>A file as an array of bytes\<close>

text \<open>Byte \<open>p\<close> of a file, in its direct blocks.\<close>

definition fbyte :: "nat \<Rightarrow> (u32 \<Rightarrow> bytes) \<Rightarrow> ext2_inode \<Rightarrow> nat \<Rightarrow> u8" where
  "fbyte bs B i p = B (i_block i ! (p div bs)) ! (p mod bs)"

lemma bs_pos: "geo_ok G \<Longrightarrow> g_bs G \<noteq> 0" "geo_ok G \<Longrightarrow> 0 < unat (g_bs G)" "geo_ok G \<Longrightarrow> unat (g_bs G) \<le> 4096"
  by (auto simp: geo_ok_def)

lemma div_same:
  fixes p q bs :: nat
  assumes "p \<le> q" "q < p + (bs - p mod bs)" "0 < bs"
  shows "p div bs = q div bs" "q mod bs = p mod bs + (q - p)"
proof -
  have p: "bs * (p div bs) + p mod bs = p" "p mod bs < bs" using assms(3) by simp_all
  have "bs * (p div bs) \<le> q" using p assms(1) by linarith
  moreover have "q < bs * Suc (p div bs)" unfolding mult_Suc_right using p assms(2) by linarith
  ultimately have "q div bs = p div bs" by (rule div_nat_eqI)
  then show d: "p div bs = q div bs" by simp
  show "q mod bs = p mod bs + (q - p)" using p(1) assms(1) by (metis d add_diff_inverse_nat add_left_imp_eq group_cancel.add1
    mult_div_mod_eq not_less)
qed

lemma upt_join: "i \<le> j \<Longrightarrow> j \<le> k \<Longrightarrow> [i..<j] @ [j..<k] = [i..<k]"
  using upt_add_eq_append [of i j "k - j"] by simp

lemma fbyte_chunk:
  assumes "0 < bs" "length (B (i_block i ! (p div bs))) = bs" "n \<le> bs - p mod bs"
  shows "take n (drop (p mod bs) (B (i_block i ! (p div bs)))) = map (fbyte bs B i) [p..<p + n]"
proof (rule nth_equalityI)
  show "length (take n (drop (p mod bs) (B (i_block i ! (p div bs))))) = length (map (fbyte bs B i) [p..<p + n])"
    using assms by simp
  fix j
  assume "j < length (take n (drop (p mod bs) (B (i_block i ! (p div bs)))))"
  then have j: "j < n" by simp
  have "p div bs = (p + j) div bs" "(p + j) mod bs = p mod bs + j"
    using div_same [of p "p + j" bs] assms(1,3) j by simp_all
  then show "take n (drop (p mod bs) (B (i_block i ! (p div bs)))) ! j = map (fbyte bs B i) [p..<p + n] ! j"
    using assms j by (simp add: fbyte_def)
qed

lemma direct_index:
  assumes "geo_ok G" "unat off div unat (g_bs G) < 12"
  shows "unat (ucast (off div ucast (g_bs G) :: u64) :: u32) = unat off div unat (g_bs G)"
    "unat (off mod ucast (g_bs G) :: u64) = unat off mod unat (g_bs G)"
  using assms(2)
  by (simp_all add: unat_mod unat_ucast_32 unsigned_ucast_eq unat_div take_bit_nat_eq_self less_trans [of _ 12])

lemma ext2_read_direct:
  assumes "fs_ok G s" "good s" "n \<le> 12" "\<forall>k<n. i_block i ! k \<noteq> 0" "unat off + rem \<le> n * unat (g_bs G)"
    "length out + rem = sz"
  shows "\<exists>s'. ext2_read_loop i sz rem off out s =
    Some (int sz, out @ map (fbyte (unat (g_bs G)) (fblk s) i) [unat off..<unat off + rem], s') \<and> quiet G s s'"
  using assms
proof (induction rem arbitrary: off out s rule: less_induct)
  case (less rem)
  note g = okD(8) [OF less(2)] and bs = bs_pos [OF okD(8) [OF less(2)]]
  let ?bs = "unat (g_bs G)"
  show ?case
  proof (cases "rem = 0")
    case True
    then show ?thesis using less(2,3,7) quiet_refl [OF less(2,3)] by (subst ext2_read_loop.simps) simp
  next
    case False
    let ?o = "unat off mod ?bs"
    have o: "?o < ?bs" using bs(2) by simp
    have "unat off < n * ?bs" using less(6) False by simp
    then have k: "unat off div ?bs < n" using bs(2) by (simp add: div_less_iff_less_mult)
    then have k12: "unat off div ?bs < 12" using less(4) by simp
    note ix = direct_index [OF g k12]
    define c where "c = (if ?bs - unat (off mod ucast (g_bs G)) > rem then rem else ?bs - unat (off mod ucast (g_bs G)))"
    have c: "0 < c" "c \<le> rem" "?o + c \<le> ?bs" using False o unfolding c_def ix(2) by auto
    let ?b = "i_block i ! (unat off div ?bs)"
    have b: "?b \<noteq> 0" using less(5) k by blast
    obtain s1 where s1: "read_block ?b s = (Some (fblk s ?b), s1)" "quiet G s s1"
      using read_block_good [OF less(2,3)] by blast
    let ?s1 = "s1\<lparr>scratch := fblk s ?b\<rparr>"
    have q1: "quiet G s ?s1" using s1(2) by simp
    let ?d = "map (fbyte ?bs (fblk s) i) [unat off..<unat off + c]"
    have d: "slice ?o c (fblk s ?b) = Some ?d"
      using fbyte_chunk [OF bs(2), of "fblk s" i "unat off" c] c length_blk [OF less(2), of ?b]
      by (simp add: slice_def)
    have off: "unat (off + of_nat c) = unat off + c"
    proof -
      have "unat off + c \<le> 12 * 4096" using less(4,6) c(2) bs(3) mult_le_mono [of n 12 ?bs 4096] by linarith
      then show ?thesis by (subst unat_add_lem [THEN iffD1]) (simp_all add: unat_of_nat)
    qed
    have "\<exists>s'. ext2_read_loop i sz (rem - c) (off + of_nat c) (out @ ?d) ?s1 =
        Some (int sz, (out @ ?d) @ map (fbyte ?bs (fblk ?s1) i) [unat (off + of_nat c)..<unat (off + of_nat c) + (rem - c)], s') \<and>
        quiet G ?s1 s'"
      using c less(4-7) off by (intro less(1) quietD(1,2) [OF q1]) auto
    then obtain s' where s': "ext2_read_loop i sz (rem - c) (off + of_nat c) (out @ ?d) ?s1 =
        Some (int sz, (out @ ?d) @ map (fbyte ?bs (fblk s) i) [unat off + c..<unat off + rem], s')" "quiet G ?s1 s'"
      unfolding quietD(3) [OF q1] off using c(2) by auto
    have "ext2_read_loop i sz rem off out s = ext2_read_loop i sz (rem - c) (off + of_nat c) (out @ ?d) ?s1"
      unfolding ext2_read_loop.simps [of i sz rem off out s] read_bno_def Let_def okD [OF less(2)] c_def [symmetric]
      using False bs(1) k12 ix s1(1) b d by (simp add: word_less_nat_alt)
    moreover have "?d @ map (fbyte ?bs (fblk s) i) [unat off + c..<unat off + rem] =
        map (fbyte ?bs (fblk s) i) [unat off..<unat off + rem]"
      unfolding map_append [symmetric] using c(2) by (subst upt_join) simp_all
    ultimately show ?thesis using s' quiet_trans [OF q1] by auto
  qed
qed

definition patch :: "nat \<Rightarrow> bytes \<Rightarrow> bytes \<Rightarrow> bytes" where
  "patch o' d b = take o' b @ d @ drop (o' + length d) b"

lemma fbyte_upd:
  assumes "0 < bs" "length (B (i_block i ! (q div bs))) = bs" "length d \<le> bs - q mod bs"
    "distinct (take n (i_block i))" "n \<le> length (i_block i)" "q < n * bs" "p < n * bs"
  shows "fbyte bs (B(i_block i ! (q div bs) := patch (q mod bs) d (B (i_block i ! (q div bs))))) i p =
    (if q \<le> p \<and> p < q + length d then d ! (p - q) else fbyte bs B i p)"
proof -
  let ?b = "i_block i ! (q div bs)"
  have qp: "q div bs < n" "p div bs < n" using assms(1,6,7) by (simp_all add: div_less_iff_less_mult)
  have q: "bs * (q div bs) + q mod bs = q" "q mod bs < bs" using assms(1) by simp_all
  have p: "bs * (p div bs) + p mod bs = p" "p mod bs < bs" using assms(1) by simp_all
  show ?thesis
  proof (cases "p div bs = q div bs")
    case True
    then have e: "(q \<le> p) = (q mod bs \<le> p mod bs)" "(p < q + length d) = (p mod bs < q mod bs + length d)"
      "q \<le> p \<Longrightarrow> p - q = p mod bs - q mod bs"
      using p q by (metis add_le_cancel_left, metis add.assoc add_less_cancel_left, metis add_diff_cancel_left)
    show ?thesis
      unfolding fbyte_def True e(1,2)
      using assms(2,3) p(2) q(2) e by (auto simp: patch_def nth_append min_def)
  next
    case False
    have "i_block i ! (p div bs) \<noteq> ?b"
      using assms(4,5) False qp nth_eq_iff_index_eq [OF assms(4), of "p div bs" "q div bs"] by simp
    moreover have "\<not> (q \<le> p \<and> p < q + length d)"
      using div_same(1) [of q p bs] assms(1,3) False by fastforce
    ultimately show ?thesis by (auto simp: fbyte_def)
  qed
qed

lemma length_patch: "o' + length d \<le> length b \<Longrightarrow> length (patch o' d b) = length b"
  by (simp add: patch_def)

lemma ext2_write_direct:
  assumes "fs_ok G s" "good s" "n \<le> 12" "\<forall>k<n. i_block i ! k \<noteq> 0" "distinct (take n (i_block i))" "n \<le> length (i_block i)"
    "unat off + length src \<le> n * unat (g_bs G)" "w \<le> length src"
  shows "\<exists>s'. ext2_write_loop off src w i s = Some (length src, i, s') \<and> fs_ok G s' \<and> good s' \<and>
    (\<forall>p < n * unat (g_bs G). fbyte (unat (g_bs G)) (fblk s') i p =
      (if unat off + w \<le> p \<and> p < unat off + length src then src ! (p - unat off) else fbyte (unat (g_bs G)) (fblk s) i p)) \<and>
    (\<forall>b. b \<notin> set (take n (i_block i)) \<longrightarrow> fblk s' b = fblk s b)"
  using assms(1,2,8)
proof (induction "length src - w" arbitrary: w s rule: less_induct)
  case less
  note g = okD(8) [OF less(2)] and bs = bs_pos [OF okD(8) [OF less(2)]]
  let ?bs = "unat (g_bs G)"
  show ?case
  proof (cases "w < length src")
    case False
    then show ?thesis using less(2-4) by (subst ext2_write_loop.simps) auto
  next
    case True
    let ?pos = "off + of_nat w"
    have "unat off + length src \<le> 12 * 4096" using assms(3,7) bs(3) mult_le_mono [of n 12 ?bs 4096] by linarith
    then have pos: "unat ?pos = unat off + w" using True by (subst unat_add_lem [THEN iffD1]) (simp_all add: unat_of_nat)
    let ?q = "unat off + w" and ?o = "(unat off + w) mod ?bs"
    have o: "?o < ?bs" using bs(2) by simp
    have q: "?q < n * ?bs" using assms(7) True by simp
    then have k: "?q div ?bs < n" using bs(2) by (simp add: div_less_iff_less_mult)
    then have k12: "unat ?pos div ?bs < 12" using assms(3) pos by simp
    note ix = direct_index [OF g k12, unfolded pos]
    define c where "c = (if ?bs - unat (?pos mod ucast (g_bs G)) > length src - w then length src - w
      else ?bs - unat (?pos mod ucast (g_bs G)))"
    have c: "0 < c" "w + c \<le> length src" "?o + c \<le> ?bs" using True o unfolding c_def ix(2) by auto
    let ?b = "i_block i ! (?q div ?bs)" and ?d = "take c (drop w src)"
    let ?t = "patch ?o ?d (fblk s ?b)"
    have b: "?b \<noteq> 0" using assms(4) k by blast
    have d: "length ?d = c" using c by simp
    have lb: "length (fblk s ?b) = ?bs" by (rule length_blk [OF less(2)])
    have t: "length ?t = ?bs" using c(3) d lb by (simp add: length_patch)
    obtain s1 where s1: "(if 0 < unat (?pos mod ucast (g_bs G)) \<or> c < ?bs then read_block ?b s else (Some (replicate ?bs 0), s)) =
        (Some (if 0 < ?o \<or> c < ?bs then fblk s ?b else replicate ?bs 0), s1)" "quiet G s s1"
      using read_block_good [OF less(2,3), of ?b] quiet_refl [OF less(2,3)]
      unfolding ix(2) by (cases "0 < ?o \<or> c < ?bs") auto
    have p: "put ?o ?d (if 0 < ?o \<or> c < ?bs then fblk s ?b else replicate ?bs 0) = Some ?t"
      using c d lb by (auto simp: put_def patch_def)
    obtain s2 where s2: "write_block ?b ?t s1 = (True, s2)" "fs_ok G s2" "good s2" "fblk s2 = (fblk s)(?b := ?t)"
      using write_block_good [OF quietD(1,2) [OF s1(2)] t] quietD(3) [OF s1(2)] by metis
    have step: "ext2_write_loop off src w i s = ext2_write_loop off src (w + c) i s2"
      unfolding ext2_write_loop.simps [of off src w i s] write_bno_def Let_def okD [OF less(2)] c_def [symmetric]
      using True bs(1) k12 ix b s1(1) p s2(1) pos by (simp add: word_less_nat_alt)
    have "length src - (w + c) < length src - w" using c(1) True by linarith
    from less(1) [OF this s2(2,3) c(2)]
    obtain s' where s': "ext2_write_loop off src (w + c) i s2 = Some (length src, i, s')" "fs_ok G s'" "good s'"
      "\<And>p. p < n * ?bs \<Longrightarrow> fbyte ?bs (fblk s') i p =
        (if unat off + (w + c) \<le> p \<and> p < unat off + length src then src ! (p - unat off) else fbyte ?bs (fblk s2) i p)"
      "\<And>b. b \<notin> set (take n (i_block i)) \<Longrightarrow> fblk s' b = fblk s2 b"
      by blast
    have "fbyte ?bs (fblk s') i p = (if unat off + w \<le> p \<and> p < unat off + length src then src ! (p - unat off)
        else fbyte ?bs (fblk s) i p)" if "p < n * ?bs" for p
    proof -
      have "fbyte ?bs (fblk s2) i p = (if ?q \<le> p \<and> p < ?q + c then ?d ! (p - ?q) else fbyte ?bs (fblk s) i p)"
        unfolding s2(4) using fbyte_upd [of ?bs "fblk s" i ?q ?d n p] bs(2) lb c(3) d assms(5,6) q that by simp
      then show ?thesis unfolding s'(4) [OF that] using c(2) by (auto simp: add.assoc nth_drop)
    qed
    moreover have "?b \<in> set (take n (i_block i))" using k assms(6) by (metis in_set_conv_nth length_take min.absorb2 nth_take)
    then have "fblk s' b = fblk s b" if "b \<notin> set (take n (i_block i))" for b using s'(5) [OF that] s2(4) that by auto
    ultimately show ?thesis using step s'(1-3) by auto
  qed
qed

subsection \<open>Writing and reading a file\<close>

lemma inode_at_frame:
  assumes "B' (bgd_blk G ino) = B (bgd_blk G ino)" "B' (inode_blk G B ino) = B (inode_blk G B ino)"
  shows "inode_blk G B' ino = inode_blk G B ino" "inode_at G B' ino = inode_at G B ino"
proof -
  show e: "inode_blk G B' ino = inode_blk G B ino" unfolding inode_blk_def assms(1) ..
  show "inode_at G B' ino = inode_at G B ino" unfolding inode_at_def e assms(2) ..
qed

lemma inode_at_upd:
  assumes "inode_blk G B ino \<noteq> bgd_blk G ino" "inode_ok i" "inode_off G ino + 128 \<le> length (B (inode_blk G B ino))"
  shows "inode_blk G (inode_upd G ino i B) ino = inode_blk G B ino" "inode_at G (inode_upd G ino i B) ino = i"
proof -
  have "inode_upd G ino i B (bgd_blk G ino) = B (bgd_blk G ino)"
    using assms(1) by (simp add: inode_upd_def Let_def)
  then show e: "inode_blk G (inode_upd G ino i B) ino = inode_blk G B ino" by (simp add: inode_blk_def)
  show "inode_at G (inode_upd G ino i B) ino = i"
    unfolding inode_at_def e using assms(2,3) by (simp add: inode_upd_def Let_def inode_of_bytes)
qed

text \<open>
  The first \<open>n\<close> blocks of the file are direct blocks that are there, each used once, and neither hold
  the inode nor its group descriptor.
\<close>

definition file_direct :: "geometry \<Rightarrow> (u32 \<Rightarrow> bytes) \<Rightarrow> u32 \<Rightarrow> nat \<Rightarrow> bool" where
  "file_direct G B ino n \<longleftrightarrow> (let bs = take n (i_block (inode_at G B ino)) in n \<le> 12 \<and> 0 \<notin> set bs \<and> distinct bs \<and>
     inode_blk G B ino \<noteq> bgd_blk G ino \<and> inode_blk G B ino \<notin> set bs \<and> bgd_blk G ino \<notin> set bs)"

definition file_data :: "geometry \<Rightarrow> (u32 \<Rightarrow> bytes) \<Rightarrow> u32 \<Rightarrow> nat \<Rightarrow> bytes" where
  "file_data G B ino n = map (fbyte (unat (g_bs G)) B (inode_at G B ino)) [0..<n * unat (g_bs G)]"

lemma file_directD:
  assumes "fs_ok G s" "file_direct G (fblk s) ino n"
  shows "n \<le> 12" "\<forall>k<n. i_block (inode_at G (fblk s) ino) ! k \<noteq> 0" "distinct (take n (i_block (inode_at G (fblk s) ino)))"
    "n \<le> length (i_block (inode_at G (fblk s) ino))" "inode_blk G (fblk s) ino \<noteq> bgd_blk G ino"
    "inode_blk G (fblk s) ino \<notin> set (take n (i_block (inode_at G (fblk s) ino)))"
    "bgd_blk G ino \<notin> set (take n (i_block (inode_at G (fblk s) ino)))"
proof -
  have l: "length (i_block (inode_at G (fblk s) ino)) = 15" using inode_at_ok [OF assms(1)] by (simp add: inode_ok_def)
  show "n \<le> 12" "distinct (take n (i_block (inode_at G (fblk s) ino)))" "inode_blk G (fblk s) ino \<noteq> bgd_blk G ino"
    "inode_blk G (fblk s) ino \<notin> set (take n (i_block (inode_at G (fblk s) ino)))"
    "bgd_blk G ino \<notin> set (take n (i_block (inode_at G (fblk s) ino)))"
    using assms(2) by (simp_all add: file_direct_def Let_def)
  then show "n \<le> length (i_block (inode_at G (fblk s) ino))" using l by simp
  then have "i_block (inode_at G (fblk s) ino) ! k \<in> set (take n (i_block (inode_at G (fblk s) ino)))" if "k < n" for k
    using that nth_mem [of k "take n (i_block (inode_at G (fblk s) ino))"] by simp
  moreover have "0 \<notin> set (take n (i_block (inode_at G (fblk s) ino)))" using assms(2) by (simp add: file_direct_def Let_def)
  ultimately show "\<forall>k<n. i_block (inode_at G (fblk s) ino) ! k \<noteq> 0" by metis
qed

lemma ext2_read_file:
  assumes "fs_ok G s" "good s" "ino \<noteq> 0" "file_direct G (fblk s) ino n" "0 < unat m"
    "unat off + unat m \<le> unat (i_size (inode_at G (fblk s) ino))" "unat off + unat m \<le> n * unat (g_bs G)"
  shows "\<exists>s'. ext2_read ino off m s =
    Some (int (unat m), take (unat m) (drop (unat off) (file_data G (fblk s) ino n)), s') \<and> quiet G s s'"
proof -
  let ?i = "inode_at G (fblk s) ino" and ?bs = "unat (g_bs G)"
  note f = file_directD [OF assms(1,4)]
  obtain s1 where s1: "read_inode ino s = Some (Some ?i, s1)" "quiet G s s1"
    using read_inode_good [OF assms(1-3)] by blast
  note q = quietD [OF s1(2)]
  have sz: "unat (ucast (i_size ?i) :: u64) = unat (i_size ?i)" by (rule unat_ucast_32)
  have lt: "\<not> off \<ge> ucast (i_size ?i)" using assms(5,6) sz by (simp add: word_le_nat_alt)
  have "unat (off + ucast m) = unat off + unat m"
    using assms(6) unat_less [of "i_size ?i"] by (subst unat_add_lem [THEN iffD1]) (simp_all add: unat_ucast_32)
  then have le: "\<not> off + ucast m > ucast (i_size ?i)" using assms(6) sz by (simp add: word_less_nat_alt)
  obtain s2 where s2: "ext2_read_loop ?i (unat m) (unat m) off [] s1 =
      Some (int (unat m), map (fbyte ?bs (fblk s) ?i) [unat off..<unat off + unat m], s2)" "quiet G s1 s2"
    using ext2_read_direct [OF q(1,2) f(1,2) assms(7), of "[]" "unat m"] unfolding q(3) by auto
  have "take (unat m) (drop (unat off) (file_data G (fblk s) ino n)) = map (fbyte ?bs (fblk s) ?i) [unat off..<unat off + unat m]"
    using assms(7) by (simp add: file_data_def drop_map take_map drop_upt take_upt)
  then show ?thesis
    using s1(1) s2(1) lt le quiet_trans [OF s1(2) s2(2)] by (simp add: ext2_read_def Let_def)
qed

lemma ext2_write_file:
  assumes "fs_ok G s" "good s" "ino \<noteq> 0" "file_direct G (fblk s) ino n" "buf \<noteq> []"
    "unat off + length buf \<le> n * unat (g_bs G)"
  shows "\<exists>s'. ext2_write ino off buf s = Some (int (length buf), s') \<and> fs_ok G s' \<and> good s' \<and>
    file_direct G (fblk s') ino n \<and>
    file_data G (fblk s') ino n = patch (unat off) buf (file_data G (fblk s) ino n) \<and>
    unat (i_size (inode_at G (fblk s') ino)) = max (unat (i_size (inode_at G (fblk s) ino))) (unat off + length buf)"
proof -
  let ?i = "inode_at G (fblk s) ino" and ?bs = "unat (g_bs G)"
  note g = okD(8) [OF assms(1)] and bs = bs_pos [OF okD(8) [OF assms(1)]]
  note f = file_directD [OF assms(1,4)]
  obtain s1 where s1: "read_inode ino s = Some (Some ?i, s1)" "quiet G s s1"
    using read_inode_good [OF assms(1-3)] by blast
  obtain s2 where s2: "kmalloc_buf s1 = (True, s2)" "quiet G s1 s2"
    using kmalloc_good [OF quietD(1,2) [OF s1(2)]] by blast
  note q = quietD [OF quiet_trans [OF s1(2) s2(2)]]
  obtain s3 where s3: "ext2_write_loop off buf 0 ?i s2 = Some (length buf, ?i, s3)" "fs_ok G s3" "good s3"
    "\<forall>p < n * ?bs. fbyte ?bs (fblk s3) ?i p =
      (if unat off \<le> p \<and> p < unat off + length buf then buf ! (p - unat off) else fbyte ?bs (fblk s) ?i p)"
    "\<forall>b. b \<notin> set (take n (i_block ?i)) \<longrightarrow> fblk s3 b = fblk s b"
    using ext2_write_direct [OF q(1,2) f(1-4) assms(6), of 0] unfolding q(3) by auto
  have fr: "fblk s3 (bgd_blk G ino) = fblk s (bgd_blk G ino)" "fblk s3 (inode_blk G (fblk s) ino) = fblk s (inode_blk G (fblk s) ino)"
    using s3(5) f(6,7) by blast+
  note at3 = inode_at_frame [OF fr]
  let ?e = "off + of_nat (length buf)"
  define j where "j = (if ?e > ucast (i_size ?i)
      then ?i\<lparr>i_size := ucast ?e, i_blocks := used_ptrs ?i * (g_bs G div 512)\<rparr> else ?i)"
  have jok: "inode_ok j" and jb: "i_block j = i_block ?i" using inode_at_ok [OF assms(1), of ino] by (simp_all add: j_def)
  obtain s4 where s4: "write_inode ino j s3 = Some (True, s4)" "fs_ok G s4" "good s4" "fblk s4 = inode_upd G ino j (fblk s3)"
    using write_inode_good [OF s3(2,3) assms(3) jok] by blast
  have "inode_off G ino + 128 \<le> length (fblk s3 (inode_blk G (fblk s3) ino))"
    using inode_off_bound [OF g] length_blk [OF s3(2)] by simp
  then have at4: "inode_blk G (fblk s4) ino = inode_blk G (fblk s) ino" "inode_at G (fblk s4) ino = j"
    unfolding s4(4) using inode_at_upd [of G "fblk s3" ino j] jok at3(1) f(5) by simp_all
  have b4: "fblk s4 b = fblk s3 b" if "b \<noteq> inode_blk G (fblk s) ino" for b
    using that by (simp add: s4(4) inode_upd_def Let_def at3(1))
  have w: "ext2_write ino off buf s = Some (int (length buf), s4)"
    using assms(3,5) s1(1) s2(1) s3(1) s4(1)
    by (cases "?e > ucast (i_size ?i)") (simp_all add: ext2_write_def Let_def j_def okD [OF s3(2)])
  have d: "file_direct G (fblk s4) ino n" using assms(4) by (simp add: file_direct_def at4 jb Let_def)
  have "fbyte ?bs (fblk s4) j p = fbyte ?bs (fblk s3) ?i p" if "p < n * ?bs" for p
  proof -
    have k: "p div ?bs < n" using that bs(2) by (simp add: div_less_iff_less_mult)
    then have "i_block ?i ! (p div ?bs) \<in> set (take n (i_block ?i))"
      using f(4) nth_mem [of "p div ?bs" "take n (i_block ?i)"] by simp
    then have "i_block ?i ! (p div ?bs) \<noteq> inode_blk G (fblk s) ino" using f(6) by metis
    then show ?thesis by (simp add: fbyte_def jb b4)
  qed
  then have p: "fbyte ?bs (fblk s4) j p = (if unat off \<le> p \<and> p < unat off + length buf then buf ! (p - unat off)
      else fbyte ?bs (fblk s) ?i p)" if "p < n * ?bs" for p
    using s3(4) that by simp
  have data: "file_data G (fblk s4) ino n = patch (unat off) buf (file_data G (fblk s) ino n)"
    using assms(6) by (intro nth_equalityI) (auto simp: file_data_def at4(2) patch_def p nth_append min_def)
  have e: "unat ?e = unat off + length buf" "unat off + length buf < 2 ^ 32"
  proof -
    show l: "unat off + length buf < 2 ^ 32" using assms(6) f(1) bs(3) mult_le_mono [of n 12 ?bs 4096] by simp
    then show "unat ?e = unat off + length buf" by (subst unat_add_lem [THEN iffD1]) (simp_all add: unat_of_nat)
  qed
  have "unat (i_size j) = max (unat (i_size ?i)) (unat off + length buf)"
    using e by (simp add: j_def word_less_nat_alt unat_ucast_32 unsigned_ucast_eq take_bit_nat_eq_self max_def)
  then show ?thesis using w s4(2,3) d data at4(2) by simp
qed

text \<open>
  C26: In its direct blocks a file is an array of bytes: a write replaces the bytes from the
  offset on by those given, leaves all others as they are and sets the size to cover them, and a
  read of that range afterwards returns exactly the bytes written.
\<close>

theorem ext2_write_read:
  assumes "fs_ok G s" "good s" "ino \<noteq> 0" "file_direct G (fblk s) ino n" "buf \<noteq> []"
    "unat off + length buf \<le> n * unat (g_bs G)"
  shows "\<exists>s'. ext2_write ino off buf s = Some (int (length buf), s') \<and>
    file_data G (fblk s') ino n = patch (unat off) buf (file_data G (fblk s) ino n) \<and>
    unat (i_size (inode_at G (fblk s') ino)) = max (unat (i_size (inode_at G (fblk s) ino))) (unat off + length buf) \<and>
    (\<exists>s''. ext2_read ino off (of_nat (length buf)) s' = Some (int (length buf), buf, s''))"
proof -
  obtain s' where s': "ext2_write ino off buf s = Some (int (length buf), s')" "fs_ok G s'" "good s'"
    "file_direct G (fblk s') ino n" "file_data G (fblk s') ino n = patch (unat off) buf (file_data G (fblk s) ino n)"
    "unat (i_size (inode_at G (fblk s') ino)) = max (unat (i_size (inode_at G (fblk s) ino))) (unat off + length buf)"
    using ext2_write_file [OF assms] by blast
  have "length buf \<le> 12 * 4096"
    using assms(6) file_directD(1) [OF assms(1,4)] bs_pos(3) [OF okD(8) [OF assms(1)]]
      mult_le_mono [of n 12 "unat (g_bs G)" 4096] by linarith
  then have u: "unat (of_nat (length buf) :: u32) = length buf" by (simp add: unat_of_nat)
  have "take (length buf) (drop (unat off) (patch (unat off) buf (file_data G (fblk s) ino n))) = buf"
    using assms(6) by (simp add: patch_def file_data_def)
  then show ?thesis
    using s' ext2_read_file [OF s'(2,3) assms(3) s'(4), of "of_nat (length buf)" off] assms(5,6) by (auto simp: u)
qed

text \<open>A file system whose inode 12 has block 20.\<close>

definition inode_ex :: ext2_inode where
  "inode_ex = inode_zero\<lparr>i_size := 1024, i_block := 20 # replicate 14 0\<rparr>"

definition fs_ex :: ext2_fs where
  "fs_ex = \<lparr>fs_io = (io_ex (\<lambda>_. None))\<lparr>io_sec := (\<lambda>_. replicate 512 0)(
       4 := replicate 8 0 @ le_bytes 4 (5 :: u32) @ replicate 500 0, 12 := replicate 384 0 @ inode_bytes inode_ex)\<rparr>,
     part_lba = 0, block_size = 1024, inodes_per_group = 16, blocks_per_group = 8192, inode_size = 128,
     first_data_block = 1, bgd_block = 2, scratch = [], cached_sb = super_of (replicate 1024 0)\<rparr>"

lemma inode_ex_ok: "inode_ok inode_ex"
  by (simp add: inode_ex_def inode_ok_def inode_zero_def)

lemma fs_ex_ok: "fs_ok (geo fs_ex) fs_ex" "good fs_ex" "g_bs (geo fs_ex) = 1024"
  by (simp_all add: fs_ok_def geo_def fs_ex_def io_inv_def geo_ok_def good_def io_ex_def super_of_def
      length_inode_bytes [OF inode_ex_ok])

lemma fs_ex_file: "inode_at (geo fs_ex) (fblk fs_ex) 12 = inode_ex" "file_direct (geo fs_ex) (fblk fs_ex) 12 1"
proof -
  let ?G = "geo fs_ex"
  have b: "fblk fs_ex 2 = (replicate 8 0 @ le_bytes 4 (5 :: u32) @ replicate 500 0) @ replicate 512 0"
    "fblk fs_ex 6 = (replicate 384 0 @ inode_bytes inode_ex) @ replicate 512 0"
    by (simp_all add: fblk_def fs_ex_def upt_conv_Cons)
  have g: "bgd_blk ?G 12 = 2" by (simp add: bgd_blk_def geo_def fs_ex_def)
  have i: "inode_blk ?G (fblk fs_ex) 12 = 6" unfolding inode_blk_def g b by (simp add: geo_def fs_ex_def bgd_of_def fld_def)
  have o: "inode_off ?G 12 = 384" by (simp add: inode_off_def geo_def fs_ex_def)
  show a: "inode_at ?G (fblk fs_ex) 12 = inode_ex"
    unfolding inode_at_def i b o by (simp add: length_inode_bytes [OF inode_ex_ok] inode_of_bytes [OF inode_ex_ok])
  show "file_direct ?G (fblk fs_ex) 12 1" unfolding file_direct_def a g i by (simp add: inode_ex_def)
qed

theorem ext2_write_read_witness:
  "fs_ok (geo fs_ex) fs_ex \<and> good fs_ex \<and> file_direct (geo fs_ex) (fblk fs_ex) 12 1 \<and>
    (\<exists>s' s''. ext2_write 12 3 [0x41, 0x42] fs_ex = Some (2, s') \<and> ext2_read 12 3 2 s' = Some (2, [0x41, 0x42], s''))"
  using ext2_write_read [OF fs_ex_ok(1,2) _ fs_ex_file(2), of "[0x41, 0x42]" 3] fs_ex_ok fs_ex_file(2) by auto

end
