(* ===== verification/Vfs.thy ===== *)
theory Vfs
  imports Ext2file Interfaces
begin

text \<open>
  The virtual file system (\<^verbatim>\<open>kernel/fs/vfs.c\<close>): resolution of paths, the table of open files and
  the calls on paths and open files.  Every entry point holds the file system lock until it
  returns, so it is one step.  Of the current process its working directory and effective ids
  matter; without a process the kernel's own directory and the ids of root are used.  Path arguments
  are C strings.
\<close>

definition VFS_MAX_OPEN :: nat where "VFS_MAX_OPEN = 16"

record vfs_file =
  vf_in_use :: bool
  vf_inode :: u32
  vf_offset :: u64

record proc_ctx =
  pc_cwd :: bytes
  pc_euid :: u32
  pc_egid :: u32

record vfs =
  s_root_fs :: "ext2_fs option"
  s_files :: "vfs_file list"
  s_kernel_cwd :: bytes
  v_proc :: "proc_ctx option"

definition vfs_zero :: "proc_ctx option \<Rightarrow> vfs" where
  "vfs_zero p = \<lparr>s_root_fs = None, s_files = replicate VFS_MAX_OPEN \<lparr>vf_in_use = False, vf_inode = 0, vf_offset = 0\<rparr>,
     s_kernel_cwd = [slash], v_proc = p\<rparr>"

text \<open>Whether a disk was found is a parameter of the start-up.\<close>

definition vfs_init :: "bool \<Rightarrow> io \<Rightarrow> vfs \<Rightarrow> (bool \<times> vfs) option" where
  "vfs_init disk d v = (if \<not> disk then Some (False, v) else do {
     (parts, d) \<leftarrow> gpt_read 4 d;
     (case parts of [] \<Rightarrow> Some (False, v) | p # _ \<Rightarrow>
        (let (fs, d) = ext2_mount (first_lba p) d
         in Some (fs \<noteq> None, v\<lparr>s_root_fs := fs\<rparr>))) })"

subsection \<open>Path resolution\<close>

lemma path_rest_shorter:
  assumes "dropWhile (\<lambda>c. c = slash) p \<noteq> []"
  shows "length (dropWhile (\<lambda>c. c \<noteq> slash) (dropWhile (\<lambda>c. c = slash) p)) < length p"
proof -
  let ?q = "dropWhile (\<lambda>c. c = slash) p"
  obtain c q' where q: "?q = c # q'" using assms by (cases ?q) auto
  have "c \<noteq> slash" using hd_dropWhile [of "\<lambda>c. c = slash" p] assms q by simp
  then have "dropWhile (\<lambda>c. c \<noteq> slash) ?q = dropWhile (\<lambda>c. c \<noteq> slash) q'" by (simp add: q)
  then have "length (dropWhile (\<lambda>c. c \<noteq> slash) ?q) \<le> length q'" by (simp add: length_dropWhile_le)
  also have "\<dots> < length ?q" by (simp add: q)
  also have "\<dots> \<le> length p" by (rule length_dropWhile_le)
  finally show ?thesis .
qed

function normalise :: "nat \<Rightarrow> bytes \<Rightarrow> bytes \<Rightarrow> bytes" where
  "normalise outsz p out =
     (let q = dropWhile (\<lambda>c. c = slash) p
      in if q = [] then out
         else let comp = takeWhile (\<lambda>c. c \<noteq> slash) q; rest = dropWhile (\<lambda>c. c \<noteq> slash) q
           in if comp = [dot_char] then normalise outsz rest out
              else if comp = [dot_char, dot_char] then normalise outsz rest (take (last_slash out 0 0) out)
              else if length out + length comp + 1 \<ge> outsz then out
              else normalise outsz rest (out @ slash # comp))"
  by pat_completeness auto
termination
  by (relation "measure (\<lambda>(n, p, out). length p)") (auto intro: path_rest_shorter)

declare normalise.simps [simp del]

definition cur_cwd :: "vfs \<Rightarrow> bytes" where
  "cur_cwd v = (case v_proc v of None \<Rightarrow> s_kernel_cwd v | Some p \<Rightarrow> pc_cwd p)"

definition vfs_resolve :: "bytes \<Rightarrow> nat \<Rightarrow> vfs \<Rightarrow> bytes" where
  "vfs_resolve path outsz v =
     (let tmp = (if path \<noteq> [] \<and> hd path = slash then take 511 path
        else (let t = take 511 (cur_cwd v);
                  t = (if (t = [] \<or> last t \<noteq> slash) \<and> length t < 511 then t @ [slash] else t)
              in t @ take (511 - length t) path));
          out = normalise outsz tmp []
      in if out = [] then [slash] else out)"

subsection \<open>Open files\<close>

definition vfs_slot :: "u32 \<Rightarrow> u64 \<Rightarrow> vfs \<Rightarrow> int \<times> vfs" where
  "vfs_slot ino off v = (case find (\<lambda>i. \<not> vf_in_use (s_files v ! i)) [0..<VFS_MAX_OPEN] of None \<Rightarrow> (- 1, v)
     | Some i \<Rightarrow> (int i, v\<lparr>s_files := (s_files v)[i := \<lparr>vf_in_use = True, vf_inode = ino, vf_offset = off\<rparr>]\<rparr>))"

definition vfs_open :: "bytes \<Rightarrow> vfs \<Rightarrow> (int \<times> vfs) option" where
  "vfs_open path v = (case s_root_fs v of None \<Rightarrow> Some (- 1, v) | Some fs \<Rightarrow> do {
     (r, fs) \<leftarrow> ext2_lookup (vfs_resolve path 512 v) fs;
     let v = v\<lparr>s_root_fs := Some fs\<rparr>;
     Some (case r of None \<Rightarrow> (- 1, v) | Some ino \<Rightarrow> vfs_slot ino 0 v) })"

definition vfs_fd_ok :: "int \<Rightarrow> vfs \<Rightarrow> bool" where
  "vfs_fd_ok fd v \<longleftrightarrow> \<not> (fd < 0 \<or> fd \<ge> int VFS_MAX_OPEN \<or> \<not> vf_in_use (s_files v ! nat fd))"

definition vfs_advance :: "int \<Rightarrow> int \<Rightarrow> vfs \<Rightarrow> vfs" where
  "vfs_advance fd n v = (if n > 0 then
     v\<lparr>s_files := (s_files v)[nat fd := (s_files v ! nat fd)\<lparr>vf_offset := vf_offset (s_files v ! nat fd) + of_int n\<rparr>]\<rparr> else v)"

definition vfs_read :: "int \<Rightarrow> u32 \<Rightarrow> vfs \<Rightarrow> (int \<times> bytes \<times> vfs) option" where
  "vfs_read fd n v = (if \<not> vfs_fd_ok fd v then Some (- 1, [], v) else do {
     let f = s_files v ! nat fd;
     fs \<leftarrow> s_root_fs v;
     (r, d, fs) \<leftarrow> ext2_read (vf_inode f) (vf_offset f) n fs;
     Some (r, d, vfs_advance fd r (v\<lparr>s_root_fs := Some fs\<rparr>)) })"

definition vfs_close :: "int \<Rightarrow> vfs \<Rightarrow> vfs" where
  "vfs_close fd v = (if fd < 0 \<or> fd \<ge> int VFS_MAX_OPEN then v
     else v\<lparr>s_files := (s_files v)[nat fd := (s_files v ! nat fd)\<lparr>vf_in_use := False\<rparr>]\<rparr>)"

definition vfs_write :: "int \<Rightarrow> bytes \<Rightarrow> vfs \<Rightarrow> (int \<times> vfs) option" where
  "vfs_write fd buf v = (if \<not> vfs_fd_ok fd v then Some (- 1, v) else do {
     let f = s_files v ! nat fd;
     fs \<leftarrow> s_root_fs v;
     (r, fs) \<leftarrow> ext2_write (vf_inode f) (vf_offset f) buf fs;
     Some (r, vfs_advance fd r (v\<lparr>s_root_fs := Some fs\<rparr>)) })"

definition proc_uid :: "vfs \<Rightarrow> u32" where
  "proc_uid v = (case v_proc v of None \<Rightarrow> 0 | Some p \<Rightarrow> pc_euid p)"

definition proc_gid :: "vfs \<Rightarrow> u32" where
  "proc_gid v = (case v_proc v of None \<Rightarrow> 0 | Some p \<Rightarrow> pc_egid p)"

definition vfs_open_ex :: "bytes \<Rightarrow> u32 \<Rightarrow> vfs \<Rightarrow> (int \<times> vfs) option" where
  "vfs_open_ex path flags v = (case s_root_fs v of None \<Rightarrow> Some (- 1, v) | Some fs \<Rightarrow> do {
     let abuf = vfs_resolve path 512 v;
     (r, fs) \<leftarrow> ext2_lookup abuf fs;
     (ino, fs) \<leftarrow> (case r of
         None \<Rightarrow> if flags AND 0x40 = 0 then Some (0, fs) else ext2_create abuf (proc_uid v) (proc_gid v) fs
       | Some ino \<Rightarrow> if flags AND 0x200 \<noteq> 0 then do { (_, fs) \<leftarrow> ext2_truncate ino fs; Some (ino, fs) } else Some (ino, fs));
     if r = None \<and> ino = 0 then Some (- 1, v\<lparr>s_root_fs := Some fs\<rparr>)
     else if find (\<lambda>i. \<not> vf_in_use (s_files v ! i)) [0..<VFS_MAX_OPEN] = None then Some (- 1, v\<lparr>s_root_fs := Some fs\<rparr>)
     else do {
       (off, fs) \<leftarrow> (if flags AND 0x400 \<noteq> 0 then ext2_file_size ino fs else Some (0, fs));
       Some (vfs_slot ino off (v\<lparr>s_root_fs := Some fs\<rparr>)) } })"

subsection \<open>Calls on paths\<close>

definition vfs_file_size :: "bytes \<Rightarrow> vfs \<Rightarrow> (u64 \<times> vfs) option" where
  "vfs_file_size path v = (case s_root_fs v of None \<Rightarrow> Some (- 1, v) | Some fs \<Rightarrow> do {
     (r, fs) \<leftarrow> ext2_lookup (vfs_resolve path 512 v) fs;
     (case r of None \<Rightarrow> Some (- 1, v\<lparr>s_root_fs := Some fs\<rparr>) | Some ino \<Rightarrow> do {
        (n, fs) \<leftarrow> ext2_file_size ino fs; Some (n, v\<lparr>s_root_fs := Some fs\<rparr>) }) })"

definition vfs_listdir :: "bytes \<Rightarrow> u32 \<Rightarrow> u32 \<Rightarrow> vfs \<Rightarrow> (bytes \<times> vfs) option" where
  "vfs_listdir path bufsz flags v = (case s_root_fs v of None \<Rightarrow> Some ([], v) | Some fs \<Rightarrow> do {
     (r, fs) \<leftarrow> ext2_lookup (vfs_resolve path 512 v) fs;
     (case r of None \<Rightarrow> Some ([], v\<lparr>s_root_fs := Some fs\<rparr>) | Some ino \<Rightarrow> do {
        (n, fs) \<leftarrow> ext2_list_dir ino bufsz flags fs; Some (n, v\<lparr>s_root_fs := Some fs\<rparr>) }) })"

definition vfs_creat :: "bytes \<Rightarrow> vfs \<Rightarrow> (int \<times> vfs) option" where
  "vfs_creat path v = (case s_root_fs v of None \<Rightarrow> Some (- 1, v) | Some fs \<Rightarrow> do {
     (ino, fs) \<leftarrow> ext2_create (vfs_resolve path 512 v) (proc_uid v) (proc_gid v) fs;
     Some (if ino \<noteq> 0 then 0 else - 1, v\<lparr>s_root_fs := Some fs\<rparr>) })"

definition vfs_mkdir :: "bytes \<Rightarrow> vfs \<Rightarrow> (int \<times> vfs) option" where
  "vfs_mkdir path v = (case s_root_fs v of None \<Rightarrow> Some (- 1, v) | Some fs \<Rightarrow> do {
     (ino, fs) \<leftarrow> ext2_mkdir (vfs_resolve path 512 v) (proc_uid v) (proc_gid v) fs;
     Some (if ino \<noteq> 0 then 0 else - 1, v\<lparr>s_root_fs := Some fs\<rparr>) })"

definition vfs_unlink :: "bytes \<Rightarrow> vfs \<Rightarrow> (int \<times> vfs) option" where
  "vfs_unlink path v = (case s_root_fs v of None \<Rightarrow> Some (- 1, v) | Some fs \<Rightarrow> do {
     (ok, fs) \<leftarrow> ext2_unlink (vfs_resolve path 512 v) fs;
     Some (if ok then 0 else - 1, v\<lparr>s_root_fs := Some fs\<rparr>) })"

definition vfs_chdir :: "bytes \<Rightarrow> vfs \<Rightarrow> (int \<times> vfs) option" where
  "vfs_chdir path v = (case s_root_fs v of None \<Rightarrow> Some (- 1, v) | Some fs \<Rightarrow> do {
     let abuf = vfs_resolve path 512 v;
     (r, fs) \<leftarrow> ext2_lookup abuf fs;
     let v = v\<lparr>s_root_fs := Some fs\<rparr>;
     Some (if r = None then (- 1, v) else
       (0, case v_proc v of None \<Rightarrow> v\<lparr>s_kernel_cwd := take 255 abuf\<rparr>
           | Some p \<Rightarrow> v\<lparr>v_proc := Some (p\<lparr>pc_cwd := take 255 abuf\<rparr>)\<rparr>)) })"

definition vfs_getcwd :: "nat \<Rightarrow> vfs \<Rightarrow> int \<times> bytes" where
  "vfs_getcwd n v = (if n = 0 then (- 1, []) else (0, take (n - 1) (cur_cwd v)))"

definition vfs_file_stat :: "bytes \<Rightarrow> vfs \<Rightarrow> ((u16 \<times> u32 \<times> u32) option \<times> vfs) option" where
  "vfs_file_stat path v = (case s_root_fs v of None \<Rightarrow> Some (None, v) | Some fs \<Rightarrow> do {
     (r, fs) \<leftarrow> ext2_lookup (vfs_resolve path 512 v) fs;
     (case r of None \<Rightarrow> Some (None, v\<lparr>s_root_fs := Some fs\<rparr>) | Some ino \<Rightarrow> do {
        (st, fs) \<leftarrow> ext2_inode_stat ino fs; Some (st, v\<lparr>s_root_fs := Some fs\<rparr>) }) })"

definition vfs_chown :: "bytes \<Rightarrow> u32 \<Rightarrow> u32 \<Rightarrow> vfs \<Rightarrow> (int \<times> vfs) option" where
  "vfs_chown path uid gid v = (case s_root_fs v of None \<Rightarrow> Some (- 1, v) | Some fs \<Rightarrow> do {
     (r, fs) \<leftarrow> ext2_lookup (vfs_resolve path 512 v) fs;
     (case r of None \<Rightarrow> Some (- 1, v\<lparr>s_root_fs := Some fs\<rparr>) | Some ino \<Rightarrow> do {
        (ok, fs) \<leftarrow> ext2_inode_chown ino uid gid fs; Some (if ok then 0 else - 1, v\<lparr>s_root_fs := Some fs\<rparr>) }) })"

definition vfs_chmod :: "bytes \<Rightarrow> u16 \<Rightarrow> vfs \<Rightarrow> (int \<times> vfs) option" where
  "vfs_chmod path mode v = (case s_root_fs v of None \<Rightarrow> Some (- 1, v) | Some fs \<Rightarrow> do {
     (r, fs) \<leftarrow> ext2_chmod (vfs_resolve path 512 v) mode fs;
     Some (r, v\<lparr>s_root_fs := Some fs\<rparr>) })"

definition vfs_stat :: "bytes \<Rightarrow> vfs \<Rightarrow> (ext2_stat option \<times> vfs) option" where
  "vfs_stat path v = (case s_root_fs v of None \<Rightarrow> Some (None, v) | Some fs \<Rightarrow> do {
     (r, fs) \<leftarrow> ext2_lookup (vfs_resolve path 512 v) fs;
     (case r of None \<Rightarrow> Some (None, v\<lparr>s_root_fs := Some fs\<rparr>) | Some ino \<Rightarrow> do {
        (st, fs) \<leftarrow> ext2_stat_full ino fs; Some (st, v\<lparr>s_root_fs := Some fs\<rparr>) }) })"

definition vfs_rename :: "bytes \<Rightarrow> bytes \<Rightarrow> vfs \<Rightarrow> (int \<times> vfs) option" where
  "vfs_rename old_path new_path v = (case s_root_fs v of None \<Rightarrow> Some (- 1, v) | Some fs \<Rightarrow> do {
     (ok, fs) \<leftarrow> ext2_rename (vfs_resolve old_path 512 v) (vfs_resolve new_path 512 v) fs;
     Some (if ok then 0 else - 1, v\<lparr>s_root_fs := Some fs\<rparr>) })"

definition vfs_disk_stats :: "vfs \<Rightarrow> u64 \<times> u64" where
  "vfs_disk_stats v = ext2_disk_stats (s_root_fs v)"

end
