(* ===== verification/Vfspath.thy ===== *)
theory Vfspath
  imports Vfs
begin

text \<open>
  Path resolution of the virtual file system against a reference: the components of the path, read
  from left to right on a stack that \<^verbatim>\<open>..\<close> pops.
\<close>

fun split_path :: "bytes \<Rightarrow> bytes list" where
  "split_path [] = [[]]"
| "split_path (c # cs) = (if c = slash then [] # split_path cs
     else (case split_path cs of [] \<Rightarrow> [[c]] | x # xs \<Rightarrow> (c # x) # xs))"

definition components :: "bytes \<Rightarrow> bytes list" where
  "components p = filter (\<lambda>c. c \<noteq> []) (split_path p)"

definition push_comp :: "bytes list \<Rightarrow> bytes \<Rightarrow> bytes list" where
  "push_comp st c = (if c = [dot_char] then st else if c = [dot_char, dot_char] then butlast st else st @ [c])"

definition join_path :: "bytes list \<Rightarrow> bytes" where
  "join_path st = concat (map (Cons slash) st)"

definition norm_path :: "bytes \<Rightarrow> bytes" where
  "norm_path p = (let st = foldl push_comp [] (components p) in if st = [] then [slash] else join_path st)"

subsection \<open>Components\<close>

lemma split_path_neq [simp]: "split_path p \<noteq> []"
  by (induction p) (auto split: list.split)

lemma split_no_slash: "slash \<notin> set c \<Longrightarrow> split_path c = [c]"
  by (induction c) auto

lemma split_path_append: "slash \<notin> set c \<Longrightarrow> split_path (c @ slash # p) = c # split_path p"
  by (induction c) auto

lemma components_simps [simp]:
  "components [] = []" "components (slash # p) = components p"
  "slash \<notin> set c \<Longrightarrow> c \<noteq> [] \<Longrightarrow> components c = [c]"
  "slash \<notin> set c \<Longrightarrow> c \<noteq> [] \<Longrightarrow> components (c @ slash # p) = c # components p"
  by (simp_all add: components_def split_no_slash split_path_append)

lemma components_skip: "components (dropWhile (\<lambda>c. c = slash) p) = components p"
  by (induction p) auto

lemma no_slash_takeWhile: "slash \<notin> set (takeWhile (\<lambda>c. c \<noteq> slash) p)"
  by (auto dest: set_takeWhileD)

lemma components_step:
  assumes "q = dropWhile (\<lambda>c. c = slash) p" "q \<noteq> []"
  shows "components p = takeWhile (\<lambda>c. c \<noteq> slash) q # components (dropWhile (\<lambda>c. c \<noteq> slash) q)"
proof -
  let ?c = "takeWhile (\<lambda>c. c \<noteq> slash) q" and ?r = "dropWhile (\<lambda>c. c \<noteq> slash) q"
  have "hd q \<noteq> slash" using assms hd_dropWhile [of "\<lambda>c. c = slash" p] by simp
  then have c: "?c \<noteq> []" using assms(2) by (cases q) auto
  note n = no_slash_takeWhile [of q]
  have "components (?c @ ?r) = ?c # components ?r"
  proof (cases ?r)
    case Nil
    then show ?thesis unfolding Nil append_Nil2 using n c by simp
  next
    case (Cons x r)
    then have "x = slash" using hd_dropWhile [of "\<lambda>c. c \<noteq> slash" q] by simp
    then show ?thesis using n c Cons by simp
  qed
  then show ?thesis using components_skip [of p] assms(1) by simp
qed

lemma components_set: "c \<in> set (components p) \<Longrightarrow> c \<noteq> [] \<and> slash \<notin> set c"
proof -
  have "c \<in> set (split_path p) \<Longrightarrow> slash \<notin> set c"
    by (induction p arbitrary: c) (force split: list.splits if_splits)+
  then show "c \<in> set (components p) \<Longrightarrow> c \<noteq> [] \<and> slash \<notin> set c" by (simp add: components_def)
qed

subsection \<open>The code's loop\<close>

lemma last_slash_no: "slash \<notin> set cs \<Longrightarrow> last_slash cs p l = l"
  by (induction cs p l rule: last_slash.induct) auto

lemma last_slash_append: "last_slash (xs @ slash # cs) p l = last_slash cs (Suc (p + length xs)) (p + length xs)"
  by (induction xs p l rule: last_slash.induct) auto

lemma join_simps [simp]: "join_path [] = []" "join_path (st @ [c]) = join_path st @ slash # c"
  by (simp_all add: join_path_def)

lemma pop_join:
  assumes "\<forall>c\<in>set st. slash \<notin> set c"
  shows "take (last_slash (join_path st) 0 0) (join_path st) = join_path (butlast st)"
proof (cases st rule: rev_cases)
  case (snoc xs c)
  then show ?thesis using assms by (simp add: last_slash_append last_slash_no)
qed simp

lemma push_comp_ok: "\<forall>c\<in>set st. slash \<notin> set c \<Longrightarrow> slash \<notin> set c \<Longrightarrow> \<forall>d\<in>set (push_comp st c). slash \<notin> set d"
  by (auto simp: push_comp_def dest: in_set_butlastD)

lemma length_pop: "length (join_path (butlast st)) \<le> length (join_path st)"
  by (cases st rule: rev_cases) auto

lemma normalise_eq:
  assumes "\<forall>c\<in>set st. slash \<notin> set c" "length (join_path st) + length p < n" "p = [] \<or> hd p = slash"
  shows "normalise n p (join_path st) = join_path (foldl push_comp st (components p))"
  using assms
proof (induction "length p" arbitrary: p st rule: less_induct)
  case less
  let ?q = "dropWhile (\<lambda>c. c = slash) p"
  let ?c = "takeWhile (\<lambda>c. c \<noteq> slash) ?q" and ?r = "dropWhile (\<lambda>c. c \<noteq> slash) ?q"
  show ?case
  proof (cases "?q = []")
    case True
    then have "components p = []" unfolding components_skip [of p, symmetric] True by simp
    then show ?thesis using True by (simp add: normalise.simps [of n p])
  next
    case False
    have len: "length ?r < length p" using path_rest_shorter [OF False] .
    have "p \<noteq> []" using False by auto
    then have "length ?q < length p"
      using less(4) length_dropWhile_le [of "\<lambda>c. c = slash" "tl p"] by (cases p) auto
    then have sum: "length ?c + length ?r < length p"
      by (metis length_append takeWhile_dropWhile_id)
    have r: "?r = [] \<or> hd ?r = slash" using hd_dropWhile [of "\<lambda>c. c \<noteq> slash" ?q] by blast
    note n = no_slash_takeWhile [of ?q]
    have st: "\<forall>d\<in>set (push_comp st ?c). slash \<notin> set d" using push_comp_ok [OF less(2) n] .
    have room: "\<not> length (join_path st) + length ?c + 1 \<ge> n" using less(3) sum by simp
    have "length (join_path (push_comp st ?c)) + length ?r < n"
      using less(3) sum len length_pop [of st] by (auto simp: push_comp_def)
    note rec = less(1) [OF len st this r]
    have "normalise n p (join_path st) = normalise n ?r (join_path (push_comp st ?c))"
      unfolding normalise.simps [of n p] Let_def push_comp_def pop_join [OF less(2)] if_not_P [OF False] if_not_P [OF room] by simp
    then show ?thesis unfolding rec components_step [OF refl False] by simp
  qed
qed

lemma normalise_norm: "length p < n \<Longrightarrow> p \<noteq> [] \<Longrightarrow> hd p = slash \<Longrightarrow>
    (let out = normalise n p [] in if out = [] then [slash] else out) = norm_path p"
  using normalise_eq [of "[]" p n] by (auto simp: norm_path_def join_path_def Let_def)

text \<open>The path the code works on: the argument, or the directory of the caller and the argument.\<close>

definition full_path :: "bytes \<Rightarrow> bytes \<Rightarrow> bytes" where
  "full_path cwd p = (if p \<noteq> [] \<and> hd p = slash then p
     else if cwd = [] \<or> last cwd \<noteq> slash then cwd @ slash # p else cwd @ p)"

lemma vfs_resolve_norm:
  assumes "cur_cwd v = [] \<or> hd (cur_cwd v) = slash" "length (cur_cwd v) < 511"
  shows "vfs_resolve path 512 v = norm_path (take 511 (full_path (cur_cwd v) path))"
proof -
  let ?c = "cur_cwd v"
  let ?t = "take 511 (full_path ?c path)"
  have c: "take 511 ?c = ?c" using assms(2) by simp
  have "full_path ?c path \<noteq> []" "hd (full_path ?c path) = slash"
    using assms(1) by (auto simp: full_path_def hd_append)
  then have t: "?t \<noteq> []" "hd ?t = slash" "length ?t < 512" by (simp_all add: hd_take)
  have "vfs_resolve path 512 v = (let out = normalise 512 ?t [] in if out = [] then [slash] else out)"
    using assms(2) unfolding vfs_resolve_def full_path_def c by (auto simp: Let_def take_Cons')
  also have "\<dots> = norm_path ?t" using normalise_norm [OF t(3,1,2)] .
  finally show ?thesis .
qed

subsection \<open>Normal forms\<close>

definition normal_comp :: "bytes \<Rightarrow> bool" where
  "normal_comp c \<longleftrightarrow> c \<noteq> [] \<and> slash \<notin> set c \<and> c \<noteq> [dot_char] \<and> c \<noteq> [dot_char, dot_char]"

lemma foldl_normal:
  "\<forall>c\<in>set cs. c \<noteq> [] \<and> slash \<notin> set c \<Longrightarrow> \<forall>c\<in>set st. normal_comp c \<Longrightarrow> \<forall>c\<in>set (foldl push_comp st cs). normal_comp c"
proof (induction cs arbitrary: st)
  case (Cons c cs)
  have "\<forall>d\<in>set (push_comp st c). normal_comp d"
    using Cons.prems by (auto simp: push_comp_def normal_comp_def dest: in_set_butlastD)
  then show ?case using Cons by simp
qed simp

lemma components_join: "\<forall>c\<in>set st. normal_comp c \<Longrightarrow> components (join_path st) = st"
proof (induction st)
  case (Cons c st)
  then have c: "c \<noteq> []" "slash \<notin> set c" by (simp_all add: normal_comp_def)
  show ?case
  proof (cases st)
    case Nil
    then show ?thesis using c by (simp add: join_path_def)
  next
    case (Cons d ds)
    then have "join_path (c # st) = slash # c @ slash # tl (join_path st)" "join_path st = slash # tl (join_path st)"
      by (simp_all add: join_path_def)
    then show ?thesis
      using Cons.IH Cons.prems c components_simps(2) [of "tl (join_path st)"] by (metis components_simps(2,4) list.set_intros(2))
  qed
qed simp

lemma foldl_normal_id: "\<forall>c\<in>set cs. normal_comp c \<Longrightarrow> foldl push_comp st cs = st @ cs"
  by (induction cs arbitrary: st) (auto simp: push_comp_def normal_comp_def)

lemma norm_path_stack:
  obtains st where "\<forall>c\<in>set st. normal_comp c" "norm_path p = (if st = [] then [slash] else join_path st)"
proof
  show "\<forall>c\<in>set (foldl push_comp [] (components p)). normal_comp c"
    using components_set by (intro foldl_normal) auto
qed (simp add: norm_path_def Let_def)

lemma norm_path_idem: "norm_path (norm_path p) = norm_path p"
proof -
  obtain st where st: "\<forall>c\<in>set st. normal_comp c" "norm_path p = (if st = [] then [slash] else join_path st)"
    by (rule norm_path_stack)
  have "components (norm_path p) = st" using st components_join [OF st(1)] components_simps(1,2) by auto
  then have "foldl push_comp [] (components (norm_path p)) = st" using foldl_normal_id [OF st(1), of "[]"] by simp
  then show ?thesis unfolding norm_path_def [of "norm_path p"] using st(2) by simp
qed

lemma length_components: "p = [] \<or> hd p = slash \<Longrightarrow> length (join_path (components p)) \<le> length p"
proof (induction "length p" arbitrary: p rule: less_induct)
  case less
  let ?q = "dropWhile (\<lambda>c. c = slash) p"
  let ?c = "takeWhile (\<lambda>c. c \<noteq> slash) ?q" and ?r = "dropWhile (\<lambda>c. c \<noteq> slash) ?q"
  show ?case
  proof (cases "?q = []")
    case True
    then have "components p = []" unfolding components_skip [of p, symmetric] True by simp
    then show ?thesis by simp
  next
    case False
    have "length ?q < length p"
      using less(2) False length_dropWhile_le [of "\<lambda>c. c = slash" "tl p"] by (cases p) auto
    moreover have "length ?c + length ?r = length ?q" by (metis length_append takeWhile_dropWhile_id)
    moreover have "length (join_path (components ?r)) \<le> length ?r"
      using path_rest_shorter [OF False] hd_dropWhile [of "\<lambda>c. c \<noteq> slash" ?q] by (intro less(1)) blast+
    ultimately show ?thesis unfolding components_step [OF refl False] by (simp add: join_path_def)
  qed
qed

lemma length_foldl_push: "length (join_path (foldl push_comp st cs)) \<le> length (join_path st) + length (join_path cs)"
proof (induction cs arbitrary: st)
  case (Cons c cs)
  have "length (join_path (push_comp st c)) \<le> length (join_path st) + Suc (length c)"
    using length_pop [of st] by (simp add: push_comp_def)
  then show ?case using Cons [of "push_comp st c"] by (simp add: join_path_def)
qed simp

lemma length_norm_path: "p \<noteq> [] \<Longrightarrow> hd p = slash \<Longrightarrow> length (norm_path p) \<le> length p"
  using length_components [of p] length_foldl_push [of "[]" "components p"] by (cases p) (auto simp: norm_path_def Let_def)

lemma norm_path_slash: "norm_path p \<noteq> [] \<and> hd (norm_path p) = slash"
proof -
  obtain st where "norm_path p = (if st = [] then [slash] else join_path st)" by (rule norm_path_stack)
  then show ?thesis by (cases st) (auto simp: join_path_def)
qed

lemma full_path_slash: "cwd = [] \<or> hd cwd = slash \<Longrightarrow> full_path cwd p \<noteq> [] \<and> hd (full_path cwd p) = slash"
  by (auto simp: full_path_def hd_append)

lemma vfs_resolve_length:
  assumes "cur_cwd v = [] \<or> hd (cur_cwd v) = slash" "length (cur_cwd v) < 511"
  shows "length (vfs_resolve path 512 v) \<le> 511" "vfs_resolve path 512 v \<noteq> []" "hd (vfs_resolve path 512 v) = slash"
proof -
  let ?t = "take 511 (full_path (cur_cwd v) path)"
  have "?t \<noteq> []" "hd ?t = slash" using full_path_slash [OF assms(1), of path] by (simp_all add: hd_take)
  then have "length (norm_path ?t) \<le> length ?t" by (rule length_norm_path)
  then show "length (vfs_resolve path 512 v) \<le> 511" unfolding vfs_resolve_norm [OF assms] by simp
  show "vfs_resolve path 512 v \<noteq> []" "hd (vfs_resolve path 512 v) = slash"
    unfolding vfs_resolve_norm [OF assms] using norm_path_slash by blast+
qed

text \<open>
  C28: Path resolution is the reference: the components of the absolute path, cut to 511
  characters, from left to right on a stack, where \<^verbatim>\<open>.\<close> is skipped and \<^verbatim>\<open>..\<close> removes the last.
  The guard against overflow never drops a component.  The result is absolute, fits its buffer
  of 512 bytes, has no empty, \<^verbatim>\<open>.\<close> or \<^verbatim>\<open>..\<close> component, and resolving it again changes nothing.
\<close>

theorem vfs_resolve_correct:
  assumes "cur_cwd v = [] \<or> hd (cur_cwd v) = slash" "length (cur_cwd v) < 511"
  shows "vfs_resolve path 512 v = norm_path (take 511 (full_path (cur_cwd v) path)) \<and>
    length (vfs_resolve path 512 v) \<le> 511 \<and> hd (vfs_resolve path 512 v) = slash \<and>
    (\<forall>c\<in>set (components (vfs_resolve path 512 v)). normal_comp c) \<and>
    vfs_resolve (vfs_resolve path 512 v) 512 v = vfs_resolve path 512 v"
proof (intro conjI)
  let ?r = "vfs_resolve path 512 v"
  note r = vfs_resolve_length [OF assms, of path]
  show e: "?r = norm_path (take 511 (full_path (cur_cwd v) path))" by (rule vfs_resolve_norm [OF assms])
  show "length ?r \<le> 511" "hd ?r = slash" by (rule r)+
  obtain st where st: "\<forall>c\<in>set st. normal_comp c" "?r = (if st = [] then [slash] else join_path st)"
    unfolding e by (rule norm_path_stack)
  have "components ?r = st" using st components_join [OF st(1)] components_simps(1,2) by auto
  then show "\<forall>c\<in>set (components ?r). normal_comp c" using st(1) by simp
  have "take 511 (full_path (cur_cwd v) ?r) = ?r" using r by (simp add: full_path_def)
  then have "vfs_resolve ?r 512 v = norm_path ?r" unfolding vfs_resolve_norm [OF assms, of ?r] by simp
  then show "vfs_resolve ?r 512 v = ?r" using norm_path_idem e by metis
qed

text \<open>The path \<^verbatim>\<open>../b//./c\<close> from the directory \<^verbatim>\<open>/a\<close>.\<close>

definition vfs_ex :: vfs where
  "vfs_ex = (vfs_zero None)\<lparr>s_kernel_cwd := [slash, 0x61]\<rparr>"

theorem vfs_resolve_correct_witness:
  "cur_cwd vfs_ex = [slash, 0x61] \<and>
    vfs_resolve [dot_char, dot_char, slash, 0x62, slash, slash, dot_char, slash, 0x63] 512 vfs_ex =
      [slash, 0x62, slash, 0x63]"
proof -
  have c: "cur_cwd vfs_ex = [slash, 0x61]" by (simp add: vfs_ex_def cur_cwd_def vfs_zero_def)
  have n: "norm_path (take 511 (full_path [slash, 0x61] [dot_char, dot_char, slash, 0x62, slash, slash, dot_char, slash, 0x63])) =
      [slash, 0x62, slash, 0x63]" by code_simp
  show ?thesis
    using vfs_resolve_correct [of vfs_ex "[dot_char, dot_char, slash, 0x62, slash, slash, dot_char, slash, 0x63]"] n
    unfolding c by simp
qed

end
