(* ===== verification/Vfssafe.thy ===== *)
theory Vfssafe
  imports Ext2io Vfspath
begin

text \<open>
  No call of the virtual file system faults.  The calls are a step relation on the state; the
  invariant keeps the table of open files, the mounted file system and the working directories
  well formed.
\<close>

subsection \<open>The invariant\<close>

definition cwd_ok :: "bytes \<Rightarrow> bool" where
  "cwd_ok c \<longleftrightarrow> (c = [] \<or> hd c = slash) \<and> length c < 256"

definition vfs_inv :: "vfs \<Rightarrow> bool" where
  "vfs_inv v \<longleftrightarrow> length (s_files v) = VFS_MAX_OPEN \<and> cwd_ok (s_kernel_cwd v) \<and>
     (case v_proc v of None \<Rightarrow> True | Some p \<Rightarrow> cwd_ok (pc_cwd p)) \<and>
     (case s_root_fs v of None \<Rightarrow> \<forall>f\<in>set (s_files v). \<not> vf_in_use f | Some fs \<Rightarrow> fs_ok (geo fs) fs)"

definition vsafe :: "('a \<times> vfs) option \<Rightarrow> bool" where
  "vsafe m \<longleftrightarrow> (\<exists>r v. m = Some (r, v) \<and> vfs_inv v)"

lemma vsafe_Some [safe_intros]: "vfs_inv v \<Longrightarrow> vsafe (Some (r, v))"
  by (simp add: vsafe_def)

lemma vsafe_run:
  "safe G m P \<Longrightarrow> (\<And>r fs. fs_ok G fs \<Longrightarrow> vsafe (f (r, fs))) \<Longrightarrow> vsafe (m \<bind> f)"
  by (auto simp: safe_def)

lemma vsafe_if [safe_intros]: "(c \<Longrightarrow> vsafe m) \<Longrightarrow> (\<not> c \<Longrightarrow> vsafe n) \<Longrightarrow> vsafe (if c then m else n)"
  by simp

lemma vsafe_option [safe_intros]:
  "(x = None \<Longrightarrow> vsafe m) \<Longrightarrow> (\<And>y. x = Some y \<Longrightarrow> vsafe (n y)) \<Longrightarrow> vsafe (case x of None \<Rightarrow> m | Some y \<Rightarrow> n y)"
  by (cases x) simp_all

lemma vfs_inv_root [safe_intros]: "vfs_inv v \<Longrightarrow> fs_ok G fs \<Longrightarrow> vfs_inv (v\<lparr>s_root_fs := Some fs\<rparr>)"
  by (auto simp: vfs_inv_def fs_ok_def)

lemma vfs_invD:
  assumes "vfs_inv v"
  shows "length (s_files v) = VFS_MAX_OPEN" "cwd_ok (cur_cwd v)"
    "s_root_fs v = Some fs \<Longrightarrow> fs_ok (geo fs) fs"
  using assms by (auto simp: vfs_inv_def cur_cwd_def split: option.splits)

lemma resolve_neq: "vfs_inv v \<Longrightarrow> vfs_resolve path 512 v \<noteq> []"
  using vfs_invD(2) [of v] by (intro vfs_resolve_length) (auto simp: cwd_ok_def)

subsection \<open>Calls\<close>

datatype vfs_call = COpen bytes | COpenEx bytes u32 | CRead int u32 | CWrite int bytes | CClose int | CFileSize bytes
  | CListdir bytes u32 u32 | CCreat bytes | CMkdir bytes | CUnlink bytes | CChdir bytes | CFileStat bytes
  | CChown bytes u32 u32 | CChmod bytes u16 | CStat bytes | CRename bytes bytes

fun vfs_do :: "vfs_call \<Rightarrow> vfs \<Rightarrow> vfs option" where
  "vfs_do (COpen p) v = map_option snd (vfs_open p v)"
| "vfs_do (COpenEx p fl) v = map_option snd (vfs_open_ex p fl v)"
| "vfs_do (CRead fd n) v = map_option (snd \<circ> snd) (vfs_read fd n v)"
| "vfs_do (CWrite fd b) v = map_option snd (vfs_write fd b v)"
| "vfs_do (CClose fd) v = Some (vfs_close fd v)"
| "vfs_do (CFileSize p) v = map_option snd (vfs_file_size p v)"
| "vfs_do (CListdir p n fl) v = map_option snd (vfs_listdir p n fl v)"
| "vfs_do (CCreat p) v = map_option snd (vfs_creat p v)"
| "vfs_do (CMkdir p) v = map_option snd (vfs_mkdir p v)"
| "vfs_do (CUnlink p) v = map_option snd (vfs_unlink p v)"
| "vfs_do (CChdir p) v = map_option snd (vfs_chdir p v)"
| "vfs_do (CFileStat p) v = map_option snd (vfs_file_stat p v)"
| "vfs_do (CChown p uid gid) v = map_option snd (vfs_chown p uid gid v)"
| "vfs_do (CChmod p m) v = map_option snd (vfs_chmod p m v)"
| "vfs_do (CStat p) v = map_option snd (vfs_stat p v)"
| "vfs_do (CRename p q) v = map_option snd (vfs_rename p q v)"

text \<open>The paths a call names, and the calls that are covered: each resolves to at most 256 characters.\<close>

fun call_paths :: "vfs_call \<Rightarrow> bytes list" where
  "call_paths (COpen p) = [p]" | "call_paths (COpenEx p fl) = [p]" | "call_paths (CRead fd n) = []"
| "call_paths (CWrite fd b) = []" | "call_paths (CClose fd) = []" | "call_paths (CFileSize p) = [p]"
| "call_paths (CListdir p n fl) = [p]" | "call_paths (CCreat p) = [p]" | "call_paths (CMkdir p) = [p]"
| "call_paths (CUnlink p) = [p]" | "call_paths (CChdir p) = [p]" | "call_paths (CFileStat p) = [p]"
| "call_paths (CChown p uid gid) = [p]" | "call_paths (CChmod p m) = [p]" | "call_paths (CStat p) = [p]"
| "call_paths (CRename p q) = [p, q]"

definition call_ok :: "vfs_call \<Rightarrow> vfs \<Rightarrow> bool" where
  "call_ok c v \<longleftrightarrow> (\<forall>p\<in>set (call_paths c). length (vfs_resolve p 512 v) \<le> 256) \<and>
     (case c of CListdir p n fl \<Rightarrow> unat n + 256 < 2 ^ 32 | _ \<Rightarrow> True)"

subsection \<open>Each call returns in a well-formed state\<close>

lemma vfs_slot_inv:
  assumes "vfs_inv v" "s_root_fs v = Some fs"
  shows "vfs_inv (snd (vfs_slot ino off v))"
  using assms by (auto simp: vfs_slot_def vfs_inv_def split: option.split)

lemma vsafe_slot [safe_intros]:
  "vfs_inv v \<Longrightarrow> s_root_fs v = Some fs \<Longrightarrow> vsafe (Some (vfs_slot ino off v))"
  using vfs_slot_inv [of v fs ino off] by (cases "vfs_slot ino off v") (simp add: vsafe_def)

lemma vfs_advance_inv:
  assumes "vfs_inv v" "s_root_fs v = Some fs"
  shows "vfs_inv (vfs_advance fd n v)"
  using assms by (auto simp: vfs_advance_def vfs_inv_def)

lemmas vsafe_calls = vsafe_run [OF ext2_lookup_safe] vsafe_run [OF ext2_create_safe] vsafe_run [OF ext2_mkdir_safe]
  vsafe_run [OF ext2_unlink_safe] vsafe_run [OF ext2_rename_safe] vsafe_run [OF ext2_chmod_safe]
  vsafe_run [OF ext2_inode_chown_safe] vsafe_run [OF ext2_stat_safe(1)] vsafe_run [OF ext2_stat_safe(2)]
  vsafe_run [OF ext2_stat_safe(3)] vsafe_run [OF ext2_list_dir_safe]

lemmas vcall_intros = vsafe_calls safe_intros resolve_neq vfs_invD(3)

lemma vfs_open_safe:
  assumes "vfs_inv v" "length (vfs_resolve path 512 v) \<le> 256"
  shows "vsafe (vfs_open path v)"
  unfolding vfs_open_def
  by (auto simp: Let_def intro!: vcall_intros assms split: option.split)

lemma vfs_path_calls_safe:
  assumes "vfs_inv v" "length (vfs_resolve path 512 v) \<le> 256"
  shows "vsafe (vfs_creat path v)" "vsafe (vfs_mkdir path v)" "vsafe (vfs_unlink path v)" "vsafe (vfs_file_size path v)"
    "vsafe (vfs_file_stat path v)" "vsafe (vfs_chown path uid gid v)" "vsafe (vfs_chmod path mode v)" "vsafe (vfs_stat path v)"
    "unat n + 256 < 2 ^ 32 \<Longrightarrow> vsafe (vfs_listdir path n fl v)"
  unfolding vfs_creat_def vfs_mkdir_def vfs_unlink_def vfs_file_size_def vfs_file_stat_def vfs_chown_def vfs_chmod_def
    vfs_stat_def vfs_listdir_def
  by (auto intro!: vcall_intros assms)

lemma vfs_rename_safe:
  assumes "vfs_inv v" "length (vfs_resolve old 512 v) \<le> 256" "length (vfs_resolve new 512 v) \<le> 256"
  shows "vsafe (vfs_rename old new v)"
  unfolding vfs_rename_def by (auto intro!: vcall_intros assms)

lemma vfs_chdir_safe:
  assumes "vfs_inv v" "length (vfs_resolve path 512 v) \<le> 256"
  shows "vsafe (vfs_chdir path v)"
proof -
  have "hd (vfs_resolve path 512 v) = slash"
    using vfs_invD(2) [OF assms(1)] by (intro vfs_resolve_length) (auto simp: cwd_ok_def)
  then have c: "cwd_ok (take 255 (vfs_resolve path 512 v))" by (simp add: cwd_ok_def hd_take)
  have cwd: "vfs_inv (case v_proc (v\<lparr>s_root_fs := Some fs\<rparr>) of
        None \<Rightarrow> v\<lparr>s_root_fs := Some fs, s_kernel_cwd := take 255 (vfs_resolve path 512 v)\<rparr>
      | Some p \<Rightarrow> v\<lparr>s_root_fs := Some fs, v_proc := Some (p\<lparr>pc_cwd := take 255 (vfs_resolve path 512 v)\<rparr>)\<rparr>)"
    if "fs_ok G fs" for G fs
    using vfs_inv_root [OF assms(1) that] c by (auto simp: vfs_inv_def split: option.split)
  show ?thesis
    unfolding vfs_chdir_def Let_def if_distrib [of Some]
    by (auto intro!: vcall_intros cwd assms simp del: vfs.select_convs)
qed

lemma vfs_open_ex_safe:
  assumes "vfs_inv v" "length (vfs_resolve path 512 v) \<le> 256"
  shows "vsafe (vfs_open_ex path fl v)"
proof -
  have sel: "safe G (case r of
         None \<Rightarrow> if fl AND 0x40 = 0 then Some (0, fs) else ext2_create (vfs_resolve path 512 v) (proc_uid v) (proc_gid v) fs
       | Some ino \<Rightarrow> if fl AND 0x200 \<noteq> 0 then do { (_, fs) \<leftarrow> ext2_truncate ino fs; Some (ino, fs) } else Some (ino, fs))
       (\<lambda>_. True)"
    if "fs_ok G fs" for G r fs
    using that by (auto intro!: safe_intros ext2_create_safe safe_True [OF ext2_truncate_safe] resolve_neq assms)
  have off: "safe G (if fl AND 0x400 \<noteq> 0 then ext2_file_size ino fs else Some (0, fs)) (\<lambda>_. True)"
    if "fs_ok G fs" for G ino fs
    using that by (auto intro!: safe_intros ext2_stat_safe)
  show ?thesis
    unfolding vfs_open_ex_def Let_def
    by (auto intro!: vcall_intros vsafe_run [OF sel] vsafe_run [OF off] assms)
qed

lemma fd_root:
  assumes "vfs_inv v" "vfs_fd_ok fd v"
  obtains fs where "s_root_fs v = Some fs" "fs_ok (geo fs) fs"
proof -
  have "s_files v ! nat fd \<in> set (s_files v)" "vf_in_use (s_files v ! nat fd)"
    using assms by (auto simp: vfs_fd_ok_def vfs_inv_def)
  then show ?thesis using assms(1) that by (auto simp: vfs_inv_def split: option.splits)
qed

lemma vfs_read_safe:
  assumes "vfs_inv v"
  shows "\<exists>r d v'. vfs_read fd n v = Some (r, d, v') \<and> vfs_inv v' \<and> length d \<le> unat n"
proof (cases "vfs_fd_ok fd v")
  case True
  obtain fs where fs: "s_root_fs v = Some fs" "fs_ok (geo fs) fs" using fd_root [OF assms True] .
  let ?f = "s_files v ! nat fd"
  obtain r d fs' where r: "ext2_read (vf_inode ?f) (vf_offset ?f) n fs = Some (r, d, fs')" "fs_ok (geo fs) fs'" "length d \<le> unat n"
    using ext2_read_safe [OF fs(2)] by (fastforce simp: safe2_def read_res_def)
  then show ?thesis
    using True fs vfs_advance_inv [OF vfs_inv_root [OF assms r(2)]] by (simp add: vfs_read_def Let_def)
qed (simp add: vfs_read_def assms)

lemma vfs_write_safe:
  assumes "vfs_inv v"
  shows "vsafe (vfs_write fd buf v)"
proof (cases "vfs_fd_ok fd v")
  case True
  obtain fs where fs: "s_root_fs v = Some fs" "fs_ok (geo fs) fs" using fd_root [OF assms True] .
  show ?thesis
    using True fs
    by (auto simp: vfs_write_def Let_def intro!: vsafe_run [OF ext2_write_safe] vsafe_Some vfs_advance_inv vfs_inv_root assms)
qed (simp add: vfs_write_def assms vsafe_Some)

lemma vfs_close_inv: "vfs_inv v \<Longrightarrow> vfs_inv (vfs_close fd v)"
  by (auto simp: vfs_close_def vfs_inv_def split: option.splits dest!: set_update_subset_insert [THEN subsetD])

lemma vsafe_ex: "vsafe m \<Longrightarrow> \<exists>v. (\<exists>a. m = Some (a, v)) \<and> vfs_inv v"
  by (auto simp: vsafe_def)

lemma vfs_do_safe:
  assumes "vfs_inv v" "call_ok c v"
  shows "\<exists>v'. vfs_do c v = Some v' \<and> vfs_inv v'"
proof -
  note p = assms(2) [unfolded call_ok_def]
  show ?thesis
  proof (cases c)
    case (CRead fd n)
    then show ?thesis using vfs_read_safe [OF assms(1), of fd n] by auto
  next
    case (CClose fd)
    then show ?thesis using vfs_close_inv [OF assms(1)] by simp
  qed (use p in \<open>auto intro!: vsafe_ex vfs_open_safe vfs_open_ex_safe vfs_write_safe vfs_path_calls_safe vfs_chdir_safe vfs_rename_safe assms(1)\<close>)
qed

subsection \<open>Mounting\<close>

lemma length_super_pad: "length b = 1024 \<Longrightarrow> length (s_pad (super_of b)) = 934"
  by (simp add: super_of_def)

lemma ext2_mount_ok:
  assumes "io_inv d" "ext2_mount lba d = (Some fs, d')" "geo_ok (geo fs)"
  shows "fs_ok (geo fs) fs"
proof -
  obtain a d1 where m1: "mem_get d = (a, d1)" by fastforce
  obtain r d2 where r: "blkdev_read (lba + 2) 2 d1 = (r, d2)" by fastforce
  obtain b d3 where m2: "mem_get d2 = (b, d3)" by fastforce
  obtain c d4 where m3: "mem_get d3 = (c, d4)" by fastforce
  note i1 = mem_get_inv [OF assms(1) m1]
  note i4 = mem_get_inv [OF mem_get_inv [OF blkdev_read_inv [OF i1 r] m2] m3]
  obtain bs where bs: "r = Some bs" "cached_sb fs = super_of bs" "fs_io fs = d4"
    using assms(2) m1 r m2 m3 by (auto simp: ext2_mount_def Let_def split: if_splits option.splits)
  then have "length bs = 1024" using length_read [OF i1, of "lba + 2" 2 bs d2] r by simp
  then show ?thesis using assms(3) bs i4 by (simp add: fs_ok_def length_super_pad)
qed

lemma vfs_zero_inv: "(case p of None \<Rightarrow> True | Some q \<Rightarrow> cwd_ok (pc_cwd q)) \<Longrightarrow> vfs_inv (vfs_zero p)"
  by (simp add: vfs_inv_def vfs_zero_def cwd_ok_def)

lemma vfs_init_ok:
  assumes "io_inv d" "vfs_inv v" "s_root_fs v = None"
  shows "\<exists>b v'. vfs_init disk d v = Some (b, v') \<and> (b \<longrightarrow> s_root_fs v' \<noteq> None) \<and>
    ((b \<longrightarrow> geo_ok (geo (the (s_root_fs v')))) \<longrightarrow> vfs_inv v')"
proof (cases disk)
  case True
  obtain ps d1 where g: "gpt_read 4 d = Some (ps, d1)" "io_sec d1 = io_sec d" using gpt_read_spec [OF assms(1), of 4] by auto
  then have i: "io_inv d1" using assms(1) by (simp add: io_inv_def)
  show ?thesis
  proof (cases ps)
    case Nil
    then show ?thesis using g True assms by (auto simp: vfs_init_def)
  next
    case (Cons p ps')
    obtain fs d2 where m: "ext2_mount (first_lba p) d1 = (fs, d2)" by fastforce
    have e: "vfs_init disk d v = Some (fs \<noteq> None, v\<lparr>s_root_fs := fs\<rparr>)"
      using g Cons True m by (simp add: vfs_init_def)
    have "vfs_inv (v\<lparr>s_root_fs := fs\<rparr>)" if "fs \<noteq> None \<longrightarrow> geo_ok (geo (the fs))"
    proof (cases fs)
      case None
      then show ?thesis using assms(2,3) by (simp add: vfs_inv_def)
    next
      case (Some f)
      then have "fs_ok (geo f) f" using ext2_mount_ok [OF i] m that by simp
      then show ?thesis using vfs_inv_root [OF assms(2)] Some by simp
    qed
    then show ?thesis unfolding e by auto
  qed
qed (auto simp: vfs_init_def assms)

subsection \<open>Sequences of calls\<close>

inductive vfs_step :: "vfs \<Rightarrow> vfs \<Rightarrow> bool" where
  "call_ok c v \<Longrightarrow> vfs_do c v = Some v' \<Longrightarrow> vfs_step v v'"

inductive_cases vfs_stepE: "vfs_step v v'"

lemma vfs_steps_inv: "vfs_step\<^sup>*\<^sup>* v v' \<Longrightarrow> vfs_inv v \<Longrightarrow> vfs_inv v'"
proof (induction rule: rtranclp_induct)
  case (step y z)
  from step(2) obtain c where "call_ok c y" "vfs_do c y = Some z" by (rule vfs_stepE)
  then show ?case using vfs_do_safe [of y c] step by auto
qed simp


text \<open>
  A disk with one partition from sector 10 and in it a superblock for blocks of 1024 bytes; all
  other sectors are zero.
\<close>

definition super_ex :: ext2_super where
  "super_ex = (super_of (replicate 1024 0))\<lparr>s_inodes_count := 16, s_blocks_count := 64, s_first_data_block := 1,
     s_blocks_per_group := 8192, s_inodes_per_group := 16, s_magic := EXT2_SUPER_MAGIC\<rparr>"

definition disk_ex :: io where
  "disk_ex = (io_ex (\<lambda>_. None))\<lparr>io_sec := (\<lambda>_. replicate 512 0)(
     1 := le_bytes 8 GPT_SIGNATURE @ replicate 64 0 @ le_bytes 8 (2 :: u64) @ le_bytes 4 (4 :: u32) @
       le_bytes 4 (128 :: u32) @ replicate 424 0,
     2 := replicate 16 1 @ replicate 16 0 @ le_bytes 8 (10 :: u64) @ le_bytes 8 (100 :: u64) @ replicate 464 0,
     12 := take 512 (super_bytes super_ex), 13 := drop 512 (super_bytes super_ex))\<rparr>"

lemma super_ex_pad: "length (s_pad super_ex) = 934"
  by (simp add: super_ex_def super_of_def)

lemma super_ex_sel: "s_magic super_ex = EXT2_SUPER_MAGIC" "s_log_block_size super_ex = 0" "s_blocks_count super_ex = 64"
  "s_inodes_per_group super_ex = 16" "s_blocks_per_group super_ex = 8192" "s_rev_level super_ex = 0"
  "s_first_data_block super_ex = 1"
  by (simp_all add: super_ex_def super_of_def fld_def le_word_zeros)

lemma disk_ex_inv: "io_inv disk_ex"
  by (simp add: io_inv_def disk_ex_def io_ex_def length_super_bytes super_ex_pad)

lemma gpt_read_ex: "\<exists>ps. gpt_read 4 disk_ex = Some (\<lparr>first_lba = 10, last_lba = 100\<rparr> # ps, disk_ex\<lparr>io_n := 2, io_req := 1\<rparr>)"
proof -
  let ?h = "le_bytes 8 GPT_SIGNATURE @ replicate 64 0 @ le_bytes 8 (2 :: u64) @ le_bytes 4 (4 :: u32) @
       le_bytes 4 (128 :: u32) @ replicate 424 0"
  let ?s = "replicate 16 1 @ replicate 16 0 @ le_bytes 8 (10 :: u64) @ le_bytes 8 (100 :: u64) @ replicate 464 0 :: bytes"
  have h: "gpt_header_at ?h = Some \<lparr>gh_signature = GPT_SIGNATURE, gh_partition_entry_lba = 2,
      gh_num_partition_entries = 4, gh_size_of_partition_entry = 128\<rparr>"
    by (simp add: gpt_header_at_def slice_def)
  show ?thesis
    by (simp add: gpt_read_def mem_get_def blkdev_read_def disk_ex_def io_ex_def h gpt_entries.simps slice_def)
qed

lemma disk_ex_sel: "io_sec disk_ex 12 = take 512 (super_bytes super_ex)" "io_sec disk_ex 13 = drop 512 (super_bytes super_ex)"
  "io_fail disk_ex = (\<lambda>_. None)" "io_mem disk_ex = (\<lambda>_. True)"
  by (simp_all add: disk_ex_def io_ex_def)

lemma mount_ex:
  "\<exists>fs d. ext2_mount 10 (disk_ex\<lparr>io_n := 2, io_req := 1\<rparr>) = (Some fs, d) \<and> geo fs = \<lparr>g_part = 10, g_bs = 1024, g_ipg = 16,
    g_bpg = 8192, g_isz = 128, g_fdb = 1, g_bgd = 2, g_nblk = 64\<rparr>"
proof -
  let ?d = "disk_ex\<lparr>io_n := 2, io_req := 2\<rparr>"
  have s: "super_of (super_bytes super_ex) = super_ex" by (rule super_of_bytes [OF super_ex_pad])
  have r: "blkdev_read 12 2 ?d = (Some (super_bytes super_ex), disk_ex\<lparr>io_n := 3, io_req := 2\<rparr>)"
    by (simp add: blkdev_read_def disk_ex_sel upt_conv_Cons)
  have "ext2_mount 10 (disk_ex\<lparr>io_n := 2, io_req := 1\<rparr>) =
      (Some \<lparr>fs_io = disk_ex\<lparr>io_n := 3, io_req := 4\<rparr>, part_lba = 10, block_size = 1024, inodes_per_group = 16,
        blocks_per_group = 8192, inode_size = 128, first_data_block = 1, bgd_block = 2, scratch = replicate 1024 0,
        cached_sb = super_ex\<rparr>, disk_ex\<lparr>io_n := 3, io_req := 4\<rparr>)"
    using r s by (simp add: ext2_mount_def mem_get_def disk_ex_sel super_ex_sel Let_def numeral_2_eq_2 [symmetric])
  then show ?thesis by (simp add: geo_def super_ex_sel)
qed


end
