(* ===== verification/Usermem.thy ===== *)
theory Usermem
  imports Spaces
begin

text \<open>
  What a process sees of its memory.  \<open>ubyte s r va\<close> is the byte at the user address \<open>va\<close> in
  the space with root \<open>r\<close>, if a page is mapped there.  The lemmas say how that view changes
  when spaces are created, pages are filled through the direct map and pages are mapped.
\<close>

definition ubyte :: "kmm \<Rightarrow> u64 \<Rightarrow> u64 \<Rightarrow> u8 option" where
  "ubyte s r va = map_option (\<lambda>pa. kmem s (direct_map s + pa)) (translate (ent s) r va)"

subsection \<open>User pages\<close>

lemma translate_user:
  assumes inv: "mm_inv R s" and r: "r \<in> R" and va: "idx 3 va < 256"
  shows "translate (ent s) r va = map_option (\<lambda>f. f + (va AND 0xfff)) (tab (ent s) 0 r (idxs va))"
proof -
  let ?K = "active_pml4_phys s" and ?E = "ent s"
  let ?e3 = "?E r (idx 3 va)" let ?e2 = "?E (frame ?e3) (idx 2 va)" let ?e1 = "?E (frame ?e2) (idx 1 va)"
  have pt: "pt_inv ?E (avail (mm_pmm s)) ?K R" and ri: "r \<in> insert ?K R" and rK: "r \<noteq> ?K"
    using inv r mm_inv_root [OF inv] by (auto simp: mm_inv_def)
  have 3: "\<not> large ?e3" if "present ?e3" using pt_invD(4) [OF pt ri _ that] by simp
  have o: "owned ?K r [idx 3 va]" "owned ?K r [idx 3 va, idx 2 va]" using rK va by (auto simp: owned_def)
  have 2: "\<not> large ?e2" if "present ?e3" "present ?e2"
    using pt_invD(6) [OF pt ri r o(1), of "frame ?e3" "idx 2 va"] that 3 by (simp add: child_def)
  have 1: "\<not> large ?e1" if "present ?e3" "present ?e2" "present ?e1"
    using pt_invD(6) [OF pt ri r o(2), of "frame ?e2" "idx 1 va"] that 3 2 by (simp add: child_def)
  show ?thesis
    using 1 2 3 by (simp add: translate_unfold Let_def idxs_def child_def numeral_2_eq_2 numeral_3_eq_3)
qed

lemma user_leaf:
  assumes inv: "mm_inv R s" and r: "r \<in> R" and va: "idx 3 va < 256" and f: "tab (ent s) 0 r (idxs va) = Some f"
  shows "f \<in> page_frames" "f \<notin> avail (mm_pmm s)" "r' \<in> R \<Longrightarrow> f \<notin> table_frames r' s" "f \<in> space_frames r s"
    "r' \<in> insert (active_pml4_phys s) R \<Longrightarrow> r' \<noteq> r \<Longrightarrow> f \<notin> space_frames r' s"
proof -
  let ?K = "active_pml4_phys s"
  have pt: "pt_inv (ent s) (avail (mm_pmm s)) ?K R" and ri: "r \<in> insert ?K R" and rK: "r \<noteq> ?K"
    using inv r mm_inv_root [OF inv] by (auto simp: mm_inv_def)
  have o: "owned ?K r (idxs va)" using rK va by (simp add: owned_def idxs_def)
  show "f \<in> page_frames" "f \<notin> avail (mm_pmm s)" using pt_invD(2) [OF pt ri o f] by simp_all
  show "f \<in> space_frames r s" using o f by (auto simp: space_frames_def)
  show "f \<notin> table_frames r' s" if "r' \<in> R"
    using pt_invD(3) [OF pt ri _ o _ f, of r'] that by (fastforce simp: table_frames_def idxs_def)
  show "f \<notin> space_frames r' s" if "r' \<in> insert ?K R" "r' \<noteq> r"
    using pt_invD(3) [OF pt ri that(1) o _ f] that(2) by (auto simp: space_frames_def)
qed

lemma ubyte_user:
  assumes "mm_inv R s" "r \<in> R" "idx 3 va < 256"
  shows "ubyte s r va = map_option (\<lambda>f. frame_byte s f (va AND 0xfff)) (tab (ent s) 0 r (idxs va))"
  using translate_user [OF assms] by (simp add: ubyte_def frame_byte_def option.map_comp o_def add.assoc)

lemma page_offset_less: "va AND 0xfff < (4096 :: u64)"
  by (rule le_less_trans [of _ "0xfff"]) (simp_all add: word_and_le1)

text \<open>A view is kept when the tables of a space and the pages it maps are.\<close>

lemma ubyte_keep:
  assumes "mm_inv R s" "r \<in> R" "idx 3 va < 256"
    and tr: "translate (ent s') r va = translate (ent s) r va" and dm: "direct_map s' = direct_map s"
    and same: "\<And>f. f \<in> page_frames \<Longrightarrow> f \<notin> avail (mm_pmm s) \<Longrightarrow> f \<in> space_frames r s \<Longrightarrow> same_frame s s' f"
  shows "ubyte s' r va = ubyte s r va"
proof (cases "tab (ent s) 0 r (idxs va)")
  case None
  then show ?thesis using tr translate_user [OF assms(1-3)] by (simp add: ubyte_def)
next
  case (Some f)
  have "same_frame s s' f" using same user_leaf [OF assms(1-3) Some] by blast
  then show ?thesis
    using Some tr dm page_offset_less [of va] translate_user [OF assms(1-3)]
    by (simp add: ubyte_def same_frame_def frame_byte_def add.assoc)
qed

subsection \<open>Writing data pages\<close>

lemma same_frame_ent:
  assumes "mm_ok s" "f \<in> page_frames" "same_frame s s' f" "direct_map s' = direct_map s" "j < 512"
  shows "ent s' f j = ent s f j"
proof -
  have "kmem s' (direct_map s + f + 8 * j + of_nat i) = kmem s (direct_map s + f + 8 * j + of_nat i)" if "i < 8" for i
  proof -
    have u: "unat (of_nat i :: u64) = i" "unat j < 512" "unat (8 * j) = 8 * unat j"
      using that assms(5) by (simp_all add: unat_of_nat_less word_less_nat_alt unat_mult_lem [THEN iffD1])
    then have "unat (8 * j + of_nat i) = 8 * unat j + i" using that by (subst unat_add_lem [THEN iffD1]) simp_all
    then have "8 * j + of_nat i < 4096" using u that by (simp add: word_less_nat_alt)
    then show ?thesis using assms(3,4) by (simp add: same_frame_def frame_byte_def add.assoc)
  qed
  then show ?thesis unfolding ent_def rd64_def ld64_def assms(4) by (simp cong: ld_bytes_cong)
qed

lemma mm_inv_data:
  assumes inv: "mm_inv R s" and eq: "same_regs s s'" "mm_pmm s' = mm_pmm s"
    and same: "\<And>r f. r \<in> insert (active_pml4_phys s) R \<Longrightarrow> f \<in> table_frames r s \<Longrightarrow> same_frame s s' f"
  shows "mm_inv R s'"
    "r \<in> insert (active_pml4_phys s) R \<Longrightarrow> translate (ent s') r va = translate (ent s) r va"
    "r \<in> insert (active_pml4_phys s) R \<Longrightarrow> space_frames r s' = space_frames r s"
    "r \<in> insert (active_pml4_phys s) R \<Longrightarrow> owned (active_pml4_phys s) r q \<Longrightarrow>
       tab (ent s') 0 r q = tab (ent s) 0 r q"
proof -
  let ?K = "active_pml4_phys s" and ?A = "avail (mm_pmm s)" and ?E = "ent s" and ?E' = "ent s'"
  have ok: "mm_ok s" and pt: "pt_inv ?E ?A ?K R" using inv by (auto simp: mm_inv_def)
  have K': "active_pml4_phys s' = ?K" "direct_map s' = direct_map s" using eq(1) by (auto simp: same_regs_def)
  have E: "?E' f j = ?E f j" if "r \<in> insert ?K R" "pth q" "length q \<le> 3" "tab ?E 0 r q = Some f" "j < 512" for r q f j
    using pt that(1-4)
  proof (rule tab_owner)
    fix r' assume "r' \<in> insert ?K R" "owned ?K r' q" "tab ?E 0 r' q = Some f"
    then have "same_frame s s' f" using same [of r' f] that(3) by (auto simp: table_frames_def)
    moreover have "f \<in> page_frames" using tab_frame [OF pt that(1-4)] by simp
    ultimately show ?thesis using same_frame_ent [OF ok] K' that(5) by blast
  qed
  then have st: "same_tables ?E ?E' r" if "r \<in> insert ?K R" for r using that by (auto simp: same_tables_def)
  have own: "pth q \<and> length q \<le> 4" if "owned ?K r q" for r q using that by (auto simp: owned_def split: if_splits)
  have T: "tab ?E' 0 r q = tab ?E 0 r q" if "r \<in> insert ?K R" "owned ?K r q" for r q
    using tab_same [OF st [OF that(1)]] own [OF that(2)] by blast
  have top: "?E' r i = ?E r i" if "r \<in> insert ?K R" "i < 512" for r i using E [OF that(1), of "[]"] that(2) by simp
  have "pt_inv ?E' ?A ?K R"
  proof (rule pt_invI)
    show "?K \<notin> R" using mm_inv_root [OF inv] .
    fix r assume r: "r \<in> insert ?K R"
    show "f \<in> page_frames - ?A" if "owned ?K r q" "tab ?E' 0 r q = Some f" for q f
      using pt_invD(2) [OF pt r that(1)] that(2) T [OF r that(1)] by simp
    show "r = r' \<and> q = q'" if "r' \<in> insert ?K R" "owned ?K r q" "owned ?K r' q'" "tab ?E' 0 r q = Some f"
        "tab ?E' 0 r' q' = Some f" for r' q q' f
      using pt_invD(3) [OF pt r that(1-3)] that T [OF r that(2)] T [OF that(1,3)] by simp
    show "\<not> large (?E' r i)" if "i < 512" "present (?E' r i)" for i
      using pt_invD(4) [OF pt r that(1)] that top [OF r that(1)] by simp
  next
    fix r i assume a: "r \<in> R" "i < (512 :: u64)" "256 \<le> i" "present (?E' r i)"
    then show "?E' r i = ?E' ?K i" using pt_invD(5) [OF pt insertI2 a(1-3)] top by simp
  next
    fix r q f i assume a: "r \<in> R" "owned ?K r q" "q \<noteq> []" "length q \<le> 2" "tab ?E' 0 r q = Some f"
      "i < (512 :: u64)" "present (?E' f i)"
    then have "tab ?E 0 r q = Some f" using T [of r q] by simp
    moreover then have "?E' f i = ?E f i" using E [of r q f i] a own [OF a(2)] by simp
    ultimately show "\<not> large (?E' f i)" using pt_invD(6) [OF pt insertI2 a(1) a(2-4)] a by simp
  qed
  then show "mm_inv R s'" using ok eq by (simp add: mm_inv_def mm_ok_def same_regs_def)
  show "translate ?E' r va = translate ?E r va" if "r \<in> insert ?K R"
    using translate_same [OF st [OF that]] pt_invD(4) [OF pt that] by blast
  show "space_frames r s' = space_frames r s" if "r \<in> insert ?K R"
    using T [OF that] by (auto simp: space_frames_def K')
  show "tab ?E' 0 r q = tab ?E 0 r q" if "r \<in> insert ?K R" "owned ?K r q" using T that .
qed

text \<open>Filling a page frame that belongs to no space.\<close>

definition fill_frame :: "u64 \<Rightarrow> u64 \<Rightarrow> bytes \<Rightarrow> kmm \<Rightarrow> kmm" where
  "fill_frame f off bs s = s\<lparr>kmem := st_bytes (direct_map s + f + off) bs
     (memset (direct_map s + f) 0 4096 (kmem s))\<rparr>"

lemma fill_frame_sel [simp]:
  "mm_pmm (fill_frame f off bs s) = mm_pmm s" "active_pml4_phys (fill_frame f off bs s) = active_pml4_phys s"
  "direct_map (fill_frame f off bs s) = direct_map s" "direct_map_size (fill_frame f off bs s) = direct_map_size s"
  "cr3 (fill_frame f off bs s) = cr3 s"
  by (simp_all add: fill_frame_def)

lemma fill_frame_bytes:
  assumes ok: "mm_ok s" and f: "f \<in> page_frames" and b: "unat off + length bs \<le> 4096"
  shows "j < 4096 \<Longrightarrow> frame_byte (fill_frame f off bs s) f j =
      (if off \<le> j \<and> unat j < unat off + length bs then bs ! (unat j - unat off) else 0)"
    "g \<in> page_frames \<Longrightarrow> g \<noteq> f \<Longrightarrow> same_frame s (fill_frame f off bs s) g"
proof -
  let ?dm = "direct_map s" and ?m = "memset (direct_map s + f) 0 4096 (kmem s)"
  have bound: "unat ?dm + unat f + 4096 \<le> 2 ^ 64" using mm_ok_bound [OF ok f, of 4096] by simp
  have f0: "unat (?dm + f) = unat ?dm + unat f" using unat_frame_byte [OF ok f, of 0] by simp
  have fo: "unat (?dm + f + off) = unat ?dm + unat f + unat off" if "bs \<noteq> []"
  proof (rule unat_frame_byte [OF ok f])
    have "0 < length bs" using that by simp
    then have "unat off < 4096" using b by linarith
    then show "off < 4096" by (simp add: word_less_nat_alt)
  qed
  have m: "?m x = (if unat (x - (?dm + f)) < 4096 then 0 else kmem s x)" for x
    by (simp add: memset_eq st_bytes_def)
  show "frame_byte (fill_frame f off bs s) f j =
      (if off \<le> j \<and> unat j < unat off + length bs then bs ! (unat j - unat off) else 0)" if j: "j < 4096"
  proof -
    have z: "?m (?dm + f + j) = 0" using j by (simp add: m word_less_nat_alt)
    have d: "?dm + f + j - (?dm + f + off) = j - off" by simp
    have fb: "frame_byte (fill_frame f off bs s) f j =
        (if unat (j - off) < length bs then bs ! unat (j - off) else 0)"
      using z by (simp add: frame_byte_def fill_frame_def st_bytes_def d)
    show ?thesis
    proof (cases "off \<le> j")
      case True
      then have "unat (j - off) = unat j - unat off" "unat off \<le> unat j"
        by (simp_all add: unat_sub word_le_nat_alt)
      then show ?thesis using fb True by auto
    next
      case False
      then have "unat j < unat off" by (simp add: word_le_nat_alt)
      then have "unat (j - off) = unat j + 2 ^ 64 - unat off"
        using unat_less [of off] by (simp add: unat_sub_if')
      moreover have "unat off \<le> 4096" using b by simp
      ultimately have "\<not> unat (j - off) < length bs" using b by simp
      then show ?thesis using fb False by simp
    qed
  qed
  show "same_frame s (fill_frame f off bs s) g" if g: "g \<in> page_frames" "g \<noteq> f"
    unfolding same_frame_def frame_byte_def
  proof (intro allI impI)
    fix j :: u64 assume j: "j < 4096"
    let ?x = "?dm + g + j"
    have u: "unat ?x = unat ?dm + unat g + unat j" "unat j < 4096"
      using unat_frame_byte [OF ok g(1) j] j by (simp_all add: word_less_nat_alt)
    have ap: "unat f + 4096 \<le> unat g \<or> unat g + 4096 \<le> unat f" using frames_apart [OF f g(1)] g(2) by auto
    have "st_bytes (?dm + f + off) bs ?m ?x = ?m ?x"
    proof (cases "bs = []")
      case False
      then show ?thesis using fo u ap b bound by (intro st_bytes_other) auto
    qed (simp add: st_bytes_def)
    also have "?m ?x = kmem s ?x"
      unfolding memset_eq using f0 u ap bound by (intro st_bytes_other) auto
    finally show "kmem (fill_frame f off bs s) (direct_map (fill_frame f off bs s) + g + j) = kmem s ?x"
      by (simp add: fill_frame_def)
  qed
qed

subsection \<open>Mapping a user page\<close>

lemma vmm_space_map_frames:
  assumes inv: "mm_inv R s" and r: "r \<in> R" and m: "vmm_space_map r virt phys flags s = Some (ok, s')"
  shows "f \<in> page_frames \<Longrightarrow> f \<notin> avail (mm_pmm s) \<Longrightarrow> f \<notin> table_frames r s' \<Longrightarrow> same_frame s s' f"
    "same_regs s s'"
    "phys \<in> page_frames \<Longrightarrow> flags AND PAGE_MASK = 0 \<Longrightarrow>
       space_frames r s' \<subseteq> space_frames r s \<union> avail (mm_pmm s) \<union> {phys}"
    "table_frames r s' \<subseteq> space_frames r s \<union> avail (mm_pmm s)"
proof -
  let ?K = "active_pml4_phys s" and ?e = "(phys AND PAGE_MASK) OR flags OR PAGE_PRESENT"
  let ?x = "if flags AND VMM_USER \<noteq> 0 then VMM_USER else 0"
  have ri: "r \<in> insert ?K R" using r by simp
  have e: "frame ?e = phys" if "phys \<in> page_frames" "flags AND PAGE_MASK = 0"
    using frame_entry [OF that(1), of "flags OR PAGE_PRESENT"] that(2)
    by (simp add: PAGE_PRESENT_def PAGE_MASK_def bit.conj_disj_distrib2 or.assoc)
  have sub: "table_frames r t \<subseteq> space_frames r t" for t by (auto simp: table_frames_def space_frames_def)
  have gf: "space_frames r t \<subseteq> space_frames r s \<union> avail (mm_pmm s)" if "grow R r s t" for t
  proof -
    have "space_frames r t = space_frames r s \<union> (avail (mm_pmm s) - avail (mm_pmm t))"
      using that ri unfolding grow_def by (metis (no_types, lifting))
    then show ?thesis by blast
  qed
  have "(\<forall>f \<in> page_frames. f \<notin> avail (mm_pmm s) \<longrightarrow> f \<notin> table_frames r s' \<longrightarrow> same_frame s s' f) \<and> same_regs s s' \<and>
    (phys \<in> page_frames \<longrightarrow> flags AND PAGE_MASK = 0 \<longrightarrow>
       space_frames r s' \<subseteq> space_frames r s \<union> avail (mm_pmm s) \<union> {phys}) \<and>
    table_frames r s' \<subseteq> space_frames r s \<union> avail (mm_pmm s)"
  proof (cases "256 \<le> idx 3 virt")
    case True
    then have "s' = s" using m by (simp add: vmm_space_map_eq)
    then show ?thesis using sub [of s] by (auto simp: same_frame_def same_regs_def)
  next
    case False
    have mp: "mappable ?K r virt" "map_path r virt ?e ?x s = Some (ok, s')"
      using m False by (auto simp add: mappable_def vmm_space_map_eq)
    have x: "entry_flags ?x" by simp
    show ?thesis
    proof (cases rule: map_path_grow [OF inv ri mp(1) x, where e = ?e])
      case (1 s1)
      then have "s' = s1" "grow R r s s1" using mp(2) by simp_all
      then show ?thesis using gf [of s1] sub [of s1] unfolding grow_def by blast
    next
      case (2 t s1)
      have inv1: "mm_inv R s1" and rg: "same_regs s s1" using 2(2) by (simp_all add: grow_def)
      have K1: "active_pml4_phys s1 = ?K" "direct_map s1 = direct_map s" using rg by (simp_all add: same_regs_def)
      have s': "s' = wr64 (direct_map s1 + t) (idx 0 virt) ?e s1" using mp(2) 2 K1 by simp
      have ri1: "r \<in> insert (active_pml4_phys s1) R" and mp1: "mappable (active_pml4_phys s1) r virt"
        using ri mp(1) K1 by simp_all
      note l = leaf_ok [OF inv1 ri1 mp1 2(3)]
      have T: "tab (ent s') 0 r q = tab (ent s1) 0 r q" if "pth q" "length q \<le> 3" for q
        using tab_leaf [OF l(1) l(2) ri1 that, of ?e] s' by simp
      have tf: "table_frames r s' = table_frames r s1"
        using T by (auto simp: table_frames_def owned_def s' split: if_splits)
      have "owned ?K r (pre virt 0)" using l(1) K1 by (simp add: leaf_slot_def)
      then have t: "t \<in> table_frames r s1" using 2(3) K1 by (auto simp: table_frames_def)
      have "same_frame s s' f" if f: "f \<in> page_frames" "f \<notin> avail (mm_pmm s)" "f \<notin> table_frames r s'" for f
      proof (rule same_frame_trans)
        show "same_frame s s1 f" using 2(2) f tf unfolding grow_def by blast
        show "same_frame s1 s' f"
          using same_frame_wr64 [of s1 t f "idx 0 virt" ?e] inv1 l(3) f tf t s' by (auto simp: mm_inv_def)
      qed
      moreover have "same_regs s s'" using rg by (simp add: s' same_regs_def)
      moreover have "space_frames r s' \<subseteq> insert (frame ?e) (space_frames r s1)"
        using leaf_space_frames(3) [OF inv1 r _ 2(3) ri1 refl, of ?e] False s' by simp
      ultimately show ?thesis using gf [OF 2(2)] sub [of s1] tf e by blast
    qed
  qed
  then show "f \<in> page_frames \<Longrightarrow> f \<notin> avail (mm_pmm s) \<Longrightarrow> f \<notin> table_frames r s' \<Longrightarrow> same_frame s s' f"
    "same_regs s s'"
    "phys \<in> page_frames \<Longrightarrow> flags AND PAGE_MASK = 0 \<Longrightarrow>
       space_frames r s' \<subseteq> space_frames r s \<union> avail (mm_pmm s) \<union> {phys}"
    "table_frames r s' \<subseteq> space_frames r s \<union> avail (mm_pmm s)" by blast+
qed

lemma alloc_unowned:
  assumes inv: "mm_inv R s" and al: "pmm_alloc_page (mm_pmm s) = (f, p)" "f \<noteq> PMM_ALLOC_FAILED"
  shows "mm_inv R (s\<lparr>mm_pmm := p\<rparr>)" "f \<in> page_frames" "f \<in> avail (mm_pmm s)" "avail p = avail (mm_pmm s) - {f}"
    "r \<in> insert (active_pml4_phys s) R \<Longrightarrow> f \<notin> space_frames r s"
proof -
  have pinv: "pmm_inv (mm_pmm s)" using inv by (simp add: mm_inv_def mm_ok_def)
  then have c: "f \<in> page_frames" "f \<in> avail (mm_pmm s)" "avail p = avail (mm_pmm s) - {f}" "pmm_inv p"
    by (cases rule: pmm_pages.alloc_cases; use al in simp)+
  then show "f \<in> page_frames" "f \<in> avail (mm_pmm s)" "avail p = avail (mm_pmm s) - {f}" by simp_all
  have free: "space_frames r s \<inter> avail (mm_pmm s) = {}" if "r \<in> insert (active_pml4_phys s) R" for r
    using tab_mem_frames(2) [OF inv that] by (auto simp: space_frames_def)
  then show "f \<notin> space_frames r s" if "r \<in> insert (active_pml4_phys s) R" using that c(2) by blast
  show "mm_inv R (s\<lparr>mm_pmm := p\<rparr>)" by (rule mm_inv_pmm [OF inv c(4)]) (use free c(3) in auto)
qed

lemma vmm_space_map_user:
  assumes inv: "mm_inv R s" and r: "r \<in> R" and phys: "phys \<in> page_frames" "phys \<notin> avail (mm_pmm s)"
    "\<forall>r' \<in> insert (active_pml4_phys s) R. phys \<notin> space_frames r' s" and flags: "flags AND PAGE_MASK = 0"
  obtains ok s' where "vmm_space_map r virt phys flags s = Some (ok, s')" "mm_inv R s'" "same_regs s s'"
    "avail (mm_pmm s') \<subseteq> avail (mm_pmm s)"
    "\<And>r' va. r' \<in> R \<Longrightarrow> idx 3 va < 256 \<Longrightarrow> ubyte s' r' va =
       (if ok \<and> r' = r \<and> idxs va = idxs virt then Some (frame_byte s phys (va AND 0xfff)) else ubyte s r' va)"
    "\<And>r' va. r' \<in> insert (active_pml4_phys s) R \<Longrightarrow> r' \<noteq> r \<Longrightarrow> translate (ent s') r' va = translate (ent s) r' va"
    "space_frames r s' \<subseteq> space_frames r s \<union> avail (mm_pmm s) \<union> {phys}"
    "\<And>f. f \<in> page_frames \<Longrightarrow> f \<notin> avail (mm_pmm s) \<Longrightarrow> f \<notin> space_frames r s \<Longrightarrow> same_frame s s' f"
    "\<not> ok \<Longrightarrow> idx 3 virt < 256 \<Longrightarrow> avail (mm_pmm s') = {}"
    "\<And>r'. r' \<in> insert (active_pml4_phys s) R \<Longrightarrow> r' \<noteq> r \<Longrightarrow> space_frames r' s' = space_frames r' s"
proof -
  let ?K = "active_pml4_phys s"
  obtain ok s' where m: "vmm_space_map r virt phys flags s = Some (ok, s')" "mm_inv R s'"
    "avail (mm_pmm s') \<subseteq> avail (mm_pmm s)"
    and tr: "\<forall>va. translate (ent s') r va =
       (if ok \<and> idxs va = idxs virt then Some (phys + (va AND 0xfff)) else translate (ent s) r va)"
    and fl: "\<not> ok \<longrightarrow> 256 \<le> idx 3 virt \<or> avail (mm_pmm s') = {}"
    and ot: "\<forall>r' \<in> insert ?K R. r' \<noteq> r \<longrightarrow> space_frames r' s' = space_frames r' s \<and>
       (\<forall>va. translate (ent s') r' va = translate (ent s) r' va)"
    using vmm_space_map_spec [OF inv r phys flags, of virt] by (elim exE conjE)
  note fr = vmm_space_map_frames [OF inv r m(1)]
  have rg: "same_regs s s'" using fr(2) .
  have K': "active_pml4_phys s' = ?K" using rg by (simp add: same_regs_def)
  have sub: "space_frames r s' \<subseteq> space_frames r s \<union> avail (mm_pmm s) \<union> {phys}" using fr(3) flags phys(1) by blast
  have u: "ubyte s' r' va =
      (if ok \<and> r' = r \<and> idxs va = idxs virt then Some (frame_byte s phys (va AND 0xfff)) else ubyte s r' va)"
    if a: "r' \<in> R" "idx 3 va < 256" for r' va
  proof -
    have T: "translate (ent s') r' va = (if ok \<and> r' = r \<and> idxs va = idxs virt then Some (phys + (va AND 0xfff))
        else translate (ent s) r' va)" using tr ot a(1) by (cases "r' = r") auto
    show ?thesis
    proof (cases "tab (ent s') 0 r' (idxs va)")
      case None
      then show ?thesis using T translate_user [OF m(2) a] by (auto simp: ubyte_def split: if_splits)
    next
      case (Some f)
      note lf = user_leaf [OF m(2) a Some]
      have tf: "translate (ent s') r' va = Some (f + (va AND 0xfff))"
        using Some translate_user [OF m(2) a] by simp
      have use: "f = phys" if "ok \<and> r' = r \<and> idxs va = idxs virt" using T that tf by simp
      have old: "tab (ent s) 0 r' (idxs va) = Some f" if "\<not> (ok \<and> r' = r \<and> idxs va = idxs virt)"
      proof -
        have "map_option (\<lambda>f. f + (va AND 0xfff)) (tab (ent s) 0 r' (idxs va)) = Some (f + (va AND 0xfff))"
          using T that tf translate_user [OF inv a] by presburger
        then show ?thesis by auto
      qed
      have "f \<notin> avail (mm_pmm s)" using use old user_leaf(2) [OF inv a] phys(2) by blast
      then have "same_frame s s' f" using fr(1) lf(1) lf(3) [OF r] by blast
      then have "frame_byte s' f (va AND 0xfff) = frame_byte s f (va AND 0xfff)"
        using page_offset_less by (simp add: same_frame_def)
      then show ?thesis
        using use old ubyte_user [OF m(2) a] ubyte_user [OF inv a] Some by auto
    qed
  qed
  have k: "same_frame s s' f" if a: "f \<in> page_frames" "f \<notin> avail (mm_pmm s)" "f \<notin> space_frames r s" for f
  proof (rule fr(1) [OF a(1,2)])
    show "f \<notin> table_frames r s'" using fr(4) a by blast
  qed
  show ?thesis by (rule that [OF m(1,2) rg m(3) u _ sub k]) (use ot fl in auto)
qed

subsection \<open>A new space\<close>

lemma memcpy_loop_other:
  "(\<And>k. i \<le> k \<Longrightarrow> k < n \<Longrightarrow> x \<noteq> d + k) \<Longrightarrow> memcpy_loop d a n i m x = m x"
proof (induction d a n i m rule: memcpy_loop.induct)
  case (1 d a n i m)
  show ?case
  proof (cases "i < n")
    case True
    have "memcpy_loop d a n (i + 1) (m(d + i := m (a + i))) x = (m(d + i := m (a + i))) x"
    proof (rule "1.IH" [OF True])
      fix k assume k: "i + 1 \<le> k" "k < n"
      have "i \<le> k" using k(1) unat_Suc_of_less [OF True] by (simp add: word_le_nat_alt)
      then show "x \<noteq> d + k" using 1(2) k(2) by blast
    qed
    then show ?thesis using 1(2) [of i] True by (subst memcpy_loop.simps) simp
  next
    case False
    then show ?thesis by (subst memcpy_loop.simps) simp
  qed
qed

lemma memcpy_other: "\<not> unat (x - d) < unat n \<Longrightarrow> memcpy d a n m x = m x"
  unfolding memcpy_def by (rule memcpy_loop_other) (auto simp: word_less_nat_alt)

lemma vmm_space_create_user:
  assumes inv: "mm_inv R s" and z: "0 \<notin> avail (mm_pmm s)"
  obtains (fail) "vmm_space_create s = Some (0, s)" "avail (mm_pmm s) = {}"
  | (ok) r s' where "vmm_space_create s = Some (r, s')" "r \<noteq> 0" "r \<in> avail (mm_pmm s)" "r \<notin> insert (active_pml4_phys s) R"
    "avail (mm_pmm s') = avail (mm_pmm s) - {r}" "mm_inv (insert r R) s'" "same_regs s s'" "space_frames r s' = {r}"
    "\<And>va. idx 3 va < 256 \<Longrightarrow> ubyte s' r va = None"
    "\<And>r' va. r' \<in> R \<Longrightarrow> idx 3 va < 256 \<Longrightarrow> ubyte s' r' va = ubyte s r' va"
    "\<And>r' va. r' \<in> insert (active_pml4_phys s) R \<Longrightarrow> translate (ent s') r' va = translate (ent s) r' va"
    "\<And>r'. r' \<in> insert (active_pml4_phys s) R \<Longrightarrow> space_frames r' s' = space_frames r' s"
    "\<And>f. f \<in> page_frames \<Longrightarrow> f \<notin> avail (mm_pmm s) \<Longrightarrow> same_frame s s' f"
proof (cases "avail (mm_pmm s) = {}")
  case True
  then show ?thesis using fail vmm_space_create_spec [OF inv z] by auto
next
  case False
  let ?K = "active_pml4_phys s" and ?dm = "direct_map s"
  from vmm_space_create_spec [OF inv z] False obtain r s' where
    c: "vmm_space_create s = Some (r, s')" "r \<noteq> 0" "r \<in> avail (mm_pmm s)"
      "avail (mm_pmm s') = avail (mm_pmm s) - {r}" "mm_inv (insert r R) s'" "space_frames r s' = {r}"
    and tr: "\<forall>va. translate (ent s') r va = (if idx 3 va < 256 then None else translate (ent s) ?K va)"
    and ots: "\<forall>r' \<in> insert ?K R. space_frames r' s' = space_frames r' s \<and>
      (\<forall>va. translate (ent s') r' va = translate (ent s) r' va)" by (auto simp del: ball_simps insert_iff)
  have ot: "translate (ent s') r' va = translate (ent s) r' va" "space_frames r' s' = space_frames r' s"
    if "r' \<in> insert ?K R" for r' va using ots that by blast+
  have ok: "mm_ok s" using inv by (simp add: mm_inv_def)
  obtain p where al: "pmm_alloc_page (mm_pmm s) = (r, p)" "r \<noteq> PMM_ALLOC_FAILED"
    using c(1,2) by (auto simp: vmm_space_create_def Let_def split: prod.splits if_splits bind_splits)
  note un = alloc_unowned [OF inv al]
  have nR: "r \<notin> insert ?K R"
    using un(3) tab_mem_frames(2) [OF inv _ owned_Nil] by fastforce
  have s': "same_regs s s'" "kmem s' = memcpy (?dm + r + 8 * 256) (?dm + ?K + 8 * 256) (256 * 8)
      (memset (?dm + r) 0 (256 * 8) (kmem s))"
    using c(1) al by (auto simp: vmm_space_create_def phys_to_virt_def same_regs_def Let_def split: if_splits)
  have fr: "same_frame s s' f" if f: "f \<in> page_frames" "f \<notin> avail (mm_pmm s)" for f
    unfolding same_frame_def frame_byte_def
  proof (intro allI impI)
    fix j :: u64 assume j: "j < 4096"
    let ?x = "?dm + f + j"
    have "f \<noteq> r" using f(2) c(3) by auto
    then have ap: "unat f + 4096 \<le> unat r \<or> unat r + 4096 \<le> unat f" using frames_apart [OF f(1) un(2)] by auto
    have x: "unat ?x = unat ?dm + unat f + unat j" "unat j < 4096"
      using unat_frame_byte [OF ok f(1) j] j by (simp_all add: word_less_nat_alt)
    have r0: "unat (?dm + r) = unat ?dm + unat r" "unat (?dm + r + 2048) = unat ?dm + unat r + 2048"
      using unat_frame_byte [OF ok un(2), of 0] unat_frame_byte [OF ok un(2), of 2048] by simp_all
    have bound: "unat ?dm + unat r + 4096 \<le> 2 ^ 64" using mm_ok_bound [OF ok un(2), of 4096] by simp
    have "\<not> unat (?x - (?dm + r + 2048)) < 2048"
      using r0 x ap bound by (intro out_of_range) auto
    then have "kmem s' ?x = memset (?dm + r) 0 (256 * 8) (kmem s) ?x"
      unfolding s'(2) by (intro memcpy_other) simp
    also have "\<dots> = kmem s ?x" unfolding memset_eq using r0 x ap bound by (intro st_bytes_other) auto
    finally show "kmem s' (direct_map s' + f + j) = kmem s ?x" using s'(1) by (simp add: same_regs_def)
  qed
  have "ubyte s' r' va = ubyte s r' va" if a: "r' \<in> R" "idx 3 va < 256" for r' va
    using ubyte_keep [OF inv a ot(1)] fr s'(1) a(1) by (simp add: same_regs_def)
  moreover have "ubyte s' r va = None" if "idx 3 va < 256" for va using tr that by (simp add: ubyte_def)
  ultimately show ?thesis by (intro that(2) [OF c(1-3) nR c(4,5) s'(1) c(6)]) (use ot fr in auto)
qed

end
