(* ===== verification/Elf.thy ===== *)
theory Elf
  imports Usermem
begin

text \<open>
  The loader of executables (\<^verbatim>\<open>kernel/exec/elf.c\<close>): an ELF64 image, which comes from a file of any
  user, is checked, copied into fresh page frames and mapped into a new address space.  The image
  is the buffer the file was read into; reading outside that buffer is a fault (\<open>None\<close>).  The
  serial messages are left out.
\<close>

subsection \<open>The file format\<close>

definition ELFMAG0 :: u8 where "ELFMAG0 = 0x7f"
definition ELFMAG1 :: u8 where "ELFMAG1 = 0x45"
definition ELFMAG2 :: u8 where "ELFMAG2 = 0x4c"
definition ELFMAG3 :: u8 where "ELFMAG3 = 0x46"
definition ELFCLASS64 :: u8 where "ELFCLASS64 = 2"
definition ET_EXEC :: u16 where "ET_EXEC = 2"
definition EM_X86_64 :: u16 where "EM_X86_64 = 62"
definition PT_LOAD :: u32 where "PT_LOAD = 1"
definition PF_W :: u32 where "PF_W = 2"

record elf64_ehdr =
  e_ident :: bytes
  e_type :: u16
  e_machine :: u16
  e_version :: u32
  e_entry :: u64
  e_phoff :: u64
  e_shoff :: u64
  e_flags :: u32
  e_ehsize :: u16
  e_phentsize :: u16
  e_phnum :: u16
  e_shentsize :: u16
  e_shnum :: u16
  e_shstrndx :: u16

definition ehdr_of :: "bytes \<Rightarrow> elf64_ehdr" where
  "ehdr_of b = \<lparr>e_ident = take 16 b, e_type = fld 16 2 b, e_machine = fld 18 2 b, e_version = fld 20 4 b,
     e_entry = fld 24 8 b, e_phoff = fld 32 8 b, e_shoff = fld 40 8 b, e_flags = fld 48 4 b,
     e_ehsize = fld 52 2 b, e_phentsize = fld 54 2 b, e_phnum = fld 56 2 b, e_shentsize = fld 58 2 b,
     e_shnum = fld 60 2 b, e_shstrndx = fld 62 2 b\<rparr>"

record elf64_phdr =
  p_type :: u32
  p_flags :: u32
  p_offset :: u64
  p_vaddr :: u64
  p_paddr :: u64
  p_filesz :: u64
  p_memsz :: u64
  p_align :: u64

definition phdr_of :: "bytes \<Rightarrow> elf64_phdr" where
  "phdr_of b = \<lparr>p_type = fld 0 4 b, p_flags = fld 4 4 b, p_offset = fld 8 8 b, p_vaddr = fld 16 8 b,
     p_paddr = fld 24 8 b, p_filesz = fld 32 8 b, p_memsz = fld 40 8 b, p_align = fld 48 8 b\<rparr>"

record elf_load_result =
  entry :: u64
  user_sp :: u64
  er_cr3 :: u64

subsection \<open>The loader\<close>

definition PAGE_SIZE :: u64 where "PAGE_SIZE = 4096"
definition USER_STACK_PAGES :: u64 where "USER_STACK_PAGES = 4"
definition USER_STACK_TOP :: u64 where "USER_STACK_TOP = 0x800000000000"
definition USER_STACK_BASE :: u64 where "USER_STACK_BASE = USER_STACK_TOP - USER_STACK_PAGES * PAGE_SIZE"

definition div_ceil :: "u64 \<Rightarrow> u64 \<Rightarrow> u64" where
  "div_ceil n d = (n + d - 1) div d"

text \<open>
  One page of a segment: the result says whether the loop goes on, with the new position in the
  file data and the number of bytes left.
\<close>

definition elf_page :: "bytes \<Rightarrow> u64 \<Rightarrow> elf64_phdr \<Rightarrow> u64 \<Rightarrow> u64 \<Rightarrow> u64 \<Rightarrow> u64 \<Rightarrow> u64 \<Rightarrow> kmm \<Rightarrow>
    (bool \<times> u64 \<times> u64 \<times> kmm) option" where
  "elf_page img root ph flags vbase p src bytes_left s =
     (let (phys, q) = pmm_alloc_page (mm_pmm s); s = s\<lparr>mm_pmm := q\<rparr>
      in if phys = PMM_ALLOC_FAILED then Some (False, src, bytes_left, s) else do {
        let page_virt = vmm_direct_map_base s + phys;
        let s = s\<lparr>kmem := memset page_virt 0 PAGE_SIZE (kmem s)\<rparr>;
        let virt_page = vbase + p * PAGE_SIZE;
        let page_off = (if p = 0 then p_vaddr ph - vbase else 0);
        let copy_len = (if bytes_left > PAGE_SIZE - page_off then PAGE_SIZE - page_off else bytes_left);
        (src, bytes_left, s) \<leftarrow> (if copy_len > 0 then do {
            bs \<leftarrow> slice (unat src) (unat copy_len) img;
            Some (src + copy_len, bytes_left - copy_len, s\<lparr>kmem := st_bytes (page_virt + page_off) bs (kmem s)\<rparr>)
          } else Some (src, bytes_left, s));
        (ok, s) \<leftarrow> vmm_space_map root virt_page phys flags s;
        Some (ok, src, bytes_left, s)
      })"

function elf_pages :: "bytes \<Rightarrow> u64 \<Rightarrow> elf64_phdr \<Rightarrow> u64 \<Rightarrow> u64 \<Rightarrow> u64 \<Rightarrow> u64 \<Rightarrow> u64 \<Rightarrow> u64 \<Rightarrow> kmm \<Rightarrow>
    (bool \<times> kmm) option" where
  "elf_pages img root ph flags vbase npages p src bytes_left s =
     (if p < npages then do {
        (ok, src, bytes_left, s) \<leftarrow> elf_page img root ph flags vbase p src bytes_left s;
        if \<not> ok then Some (False, s)
        else elf_pages img root ph flags vbase npages (p + 1) src bytes_left s
      } else Some (True, s))"
  by pat_completeness auto
termination
  by (relation "measure (\<lambda>(img, root, ph, flags, vbase, npages, p, rest). unat (npages - p))")
    (auto simp: word_loop)

declare elf_pages.simps [simp del]

text \<open>One program header: the result is false when the image is rejected or memory runs out.\<close>

definition elf_segment :: "bytes \<Rightarrow> u64 \<Rightarrow> elf64_ehdr \<Rightarrow> u64 \<Rightarrow> u16 \<Rightarrow> kmm \<Rightarrow> (bool \<times> kmm) option" where
  "elf_segment img sz eh root i s =
     (let phdr_off = e_phoff eh + ucast i * ucast (e_phentsize eh)
      in if phdr_off < e_phoff eh \<or> phdr_off > sz \<or> sz - phdr_off < 56 then Some (False, s) else do {
        b \<leftarrow> slice (unat phdr_off) 56 img;
        let ph = phdr_of b;
        if p_type ph \<noteq> PT_LOAD \<or> p_memsz ph = 0 then Some (True, s)
        else if p_offset ph > sz \<or> sz - p_offset ph < p_filesz ph then Some (False, s)
        else do {
          let flags = (if p_flags ph AND PF_W \<noteq> 0 then VMM_USER OR VMM_WRITABLE else VMM_USER);
          let vbase = p_vaddr ph AND NOT (PAGE_SIZE - 1);
          let vend = p_vaddr ph + p_memsz ph;
          if vend < p_vaddr ph \<or> p_vaddr ph \<ge> USER_STACK_TOP \<or> vend > USER_STACK_TOP then Some (False, s)
          else elf_pages img root ph flags vbase (div_ceil (vend - vbase) PAGE_SIZE) 0
            (p_offset ph) (p_filesz ph) s
        }
      })"

function elf_segments :: "bytes \<Rightarrow> u64 \<Rightarrow> elf64_ehdr \<Rightarrow> u64 \<Rightarrow> u16 \<Rightarrow> kmm \<Rightarrow> (bool \<times> kmm) option" where
  "elf_segments img sz eh root i s =
     (if i < e_phnum eh then do {
        (ok, s) \<leftarrow> elf_segment img sz eh root i s;
        if \<not> ok then Some (False, s) else elf_segments img sz eh root (i + 1) s
      } else Some (True, s))"
  by pat_completeness auto
termination
  by (relation "measure (\<lambda>(img, sz, eh, root, i, s). unat (e_phnum eh - i))") (auto simp: word_loop)

declare elf_segments.simps [simp del]

function elf_stack :: "u64 \<Rightarrow> u64 \<Rightarrow> kmm \<Rightarrow> (bool \<times> kmm) option" where
  "elf_stack root p s =
     (if p < USER_STACK_PAGES then
        (let (phys, q) = pmm_alloc_page (mm_pmm s); s = s\<lparr>mm_pmm := q\<rparr>
         in if phys = PMM_ALLOC_FAILED then Some (False, s) else do {
           let pv = vmm_direct_map_base s + phys;
           let s = s\<lparr>kmem := memset pv 0 PAGE_SIZE (kmem s)\<rparr>;
           let virt = USER_STACK_BASE + p * PAGE_SIZE;
           (ok, s) \<leftarrow> vmm_space_map root virt phys (VMM_USER OR VMM_WRITABLE) s;
           if \<not> ok then Some (False, s) else elf_stack root (p + 1) s
         })
      else Some (True, s))"
  by pat_completeness auto
termination
  by (relation "measure (\<lambda>(root, p, s). unat (USER_STACK_PAGES - p))") (auto simp: word_loop)

declare elf_stack.simps [simp del]

definition elf_header_ok :: "elf64_ehdr \<Rightarrow> bool" where
  "elf_header_ok eh \<longleftrightarrow>
     \<not> (e_ident eh ! 0 \<noteq> ELFMAG0 \<or> e_ident eh ! 1 \<noteq> ELFMAG1 \<or> e_ident eh ! 2 \<noteq> ELFMAG2 \<or> e_ident eh ! 3 \<noteq> ELFMAG3) \<and>
     e_ident eh ! 4 = ELFCLASS64 \<and> e_type eh = ET_EXEC \<and> e_machine eh = EM_X86_64 \<and>
     \<not> (e_phoff eh = 0 \<or> e_phnum eh = 0)"

text \<open>\<open>None\<close> as the image is the null pointer; \<open>None\<close> in the result is the answer false.\<close>

definition elf_load :: "bytes option \<Rightarrow> u64 \<Rightarrow> kmm \<Rightarrow> (elf_load_result option \<times> kmm) option" where
  "elf_load imgp sz s =
     (if imgp = None \<or> sz < 64 then Some (None, s) else do {
        img \<leftarrow> imgp;
        b \<leftarrow> slice 0 64 img;
        let eh = ehdr_of b;
        if \<not> elf_header_ok eh then Some (None, s) else do {
        (root, s) \<leftarrow> vmm_space_create s;
        if root = 0 then Some (None, s) else do {
        (ok, s) \<leftarrow> elf_segments img sz eh root 0 s;
        if \<not> ok then Some (None, s) else do {
        (ok, s) \<leftarrow> elf_stack root 0 s;
        if \<not> ok then Some (None, s) else
        Some (Some \<lparr>entry = e_entry eh, user_sp = USER_STACK_TOP - 16, er_cr3 = root\<rparr>, s) } } } })"

subsection \<open>What an image means\<close>

text \<open>
  The images the loader accepts, and the memory that an accepted image describes.  Segments are
  page-wise: a later one replaces the pages of an earlier one that it meets, and the stack
  replaces both.
\<close>

definition elf_phdr :: "bytes \<Rightarrow> nat \<Rightarrow> elf64_phdr" where
  "elf_phdr img i =
     (let eh = ehdr_of (take 64 img)
      in phdr_of (take 56 (drop (unat (e_phoff eh) + i * unat (e_phentsize eh)) img)))"

definition loads :: "elf64_phdr \<Rightarrow> bool" where
  "loads ph \<longleftrightarrow> p_type ph = PT_LOAD \<and> p_memsz ph \<noteq> 0"

definition phdr_valid :: "bytes \<Rightarrow> u64 \<Rightarrow> nat \<Rightarrow> bool" where
  "phdr_valid img sz i \<longleftrightarrow>
     (let eh = ehdr_of (take 64 img); ph = elf_phdr img i
      in unat (e_phoff eh) + i * unat (e_phentsize eh) + 56 \<le> unat sz \<and>
         (loads ph \<longrightarrow> unat (p_offset ph) + unat (p_filesz ph) \<le> unat sz \<and>
            unat (p_vaddr ph) + unat (p_memsz ph) \<le> 2 ^ 47))"

definition elf_valid :: "bytes \<Rightarrow> u64 \<Rightarrow> bool" where
  "elf_valid img sz \<longleftrightarrow> 64 \<le> sz \<and> elf_header_ok (ehdr_of (take 64 img)) \<and>
     (\<forall>i < unat (e_phnum (ehdr_of (take 64 img))). phdr_valid img sz i)"

definition seg_covers :: "elf64_phdr \<Rightarrow> u64 \<Rightarrow> bool" where
  "seg_covers ph va \<longleftrightarrow> unat (p_vaddr ph) div 4096 \<le> unat va div 4096 \<and>
     unat va div 4096 < (unat (p_vaddr ph) + unat (p_memsz ph) + 4095) div 4096"

definition seg_byte :: "bytes \<Rightarrow> elf64_phdr \<Rightarrow> u64 \<Rightarrow> u8" where
  "seg_byte img ph va =
     (if unat (p_vaddr ph) \<le> unat va \<and> unat va < unat (p_vaddr ph) + unat (p_filesz ph)
      then img ! (unat (p_offset ph) + (unat va - unat (p_vaddr ph))) else 0)"

definition in_stack :: "u64 \<Rightarrow> bool" where
  "in_stack va \<longleftrightarrow> USER_STACK_BASE \<le> va \<and> va < USER_STACK_TOP"

fun seg_view :: "bytes \<Rightarrow> nat \<Rightarrow> u64 \<Rightarrow> u8 option" where
  "seg_view img 0 va = None"
| "seg_view img (Suc i) va =
     (let ph = elf_phdr img i
      in if loads ph \<and> seg_covers ph va then Some (seg_byte img ph va) else seg_view img i va)"

definition elf_view :: "bytes \<Rightarrow> u64 \<Rightarrow> u8 option" where
  "elf_view img va =
     (if in_stack va then Some 0 else seg_view img (unat (e_phnum (ehdr_of (take 64 img)))) va)"

subsection \<open>Page numbers and table indices\<close>

lemma table_bit: "bit (idx k va) n \<longleftrightarrow> n < 9 \<and> bit va (12 + 9 * k + n)"
proof -
  have "INDEX_MASK = mask 9" by (simp add: INDEX_MASK_def mask_eq_exp_minus_1)
  show ?thesis unfolding idx_def \<open>INDEX_MASK = mask 9\<close> by (auto simp: bit_simps)
qed

lemma unat_div_page: "unat (va :: u64) div 4096 = unat (drop_bit 12 va)"
  by (simp add: drop_bit_eq_div unat_div)

lemma high_bits:
  assumes "unat (va :: u64) < 2 ^ 47"
  shows "47 \<le> n \<Longrightarrow> \<not> bit va n"
proof -
  have "take_bit 47 va = va" using assms by (simp add: take_bit_eq_mod word_unat_eq_iff unat_mod)
  then show "\<not> bit va n" if "47 \<le> n" using that by (metis bit_take_bit_iff not_less)
qed

lemma idxs_page:
  assumes "unat va < 2 ^ 47" "unat vb < 2 ^ 47"
  shows "idxs va = idxs vb \<longleftrightarrow> unat va div 4096 = unat vb div 4096"
proof
  assume e: "idxs va = idxs vb"
  have "bit (drop_bit 12 va) n = bit (drop_bit 12 vb) n" if "n < 64" for n
  proof (cases "n < 36")
    case True
    have k: "idx (n div 9) va = idx (n div 9) vb"
    proof -
      have "n div 9 = 0 \<or> n div 9 = 1 \<or> n div 9 = 2 \<or> n div 9 = 3" using True by auto
      then show ?thesis using e by (auto simp: idxs_def)
    qed
    have "12 + 9 * (n div 9) + n mod 9 = 12 + n" by simp
    then show ?thesis using table_bit [of "n div 9" va "n mod 9"] table_bit [of "n div 9" vb "n mod 9"] k
      by (simp add: bit_drop_bit_eq add.commute)
  next
    case False
    then show ?thesis using high_bits [OF assms(1), of "12 + n"] high_bits [OF assms(2), of "12 + n"]
      by (simp add: bit_drop_bit_eq)
  qed
  then have "drop_bit 12 va = drop_bit 12 vb" by (intro bit_word_eqI) simp
  then show "unat va div 4096 = unat vb div 4096" by (simp add: unat_div_page)
next
  assume "unat va div 4096 = unat vb div 4096"
  then have d: "drop_bit 12 va = drop_bit 12 vb" by (simp add: unat_div_page word_unat_eq_iff)
  have "idx k va = idx k vb" for k
  proof -
    have "drop_bit (12 + 9 * k) va = drop_bit (9 * k) (drop_bit 12 va)" for va :: u64
      by (simp add: drop_bit_drop_bit add.commute)
    then show ?thesis unfolding idx_def d by (simp only: d)
  qed
  then show "idxs va = idxs vb" by (simp add: idxs_def)
qed

lemma idx3_low:
  assumes "unat va < 2 ^ 47"
  shows "idx 3 va < 256"
proof -
  have e: "idx 3 va = take_bit 8 (idx 3 va)"
  proof (rule bit_word_eqI)
    fix n assume "n < LENGTH(64)"
    show "bit (idx 3 va) n = bit (take_bit 8 (idx 3 va)) n"
      using high_bits [OF assms, of "39 + n"] by (cases "n < 8") (auto simp: table_bit bit_take_bit_iff)
  qed
  have "unat (take_bit 8 (idx 3 va)) < 256" by (simp add: take_bit_eq_mod unat_mod)
  then show ?thesis by (subst e) (simp add: word_less_nat_alt)
qed

lemma unat_page_offset: "unat (va AND 0xfff :: u64) = unat va mod 4096"
proof -
  have "va AND 0xfff = take_bit 12 va" by (simp add: take_bit_eq_mask mask_eq_exp_minus_1)
  then show ?thesis by (simp add: take_bit_eq_mod unat_mod)
qed

lemma unat_page_base: "unat (va AND NOT 0xfff :: u64) = unat va div 4096 * 4096"
proof -
  have "va AND NOT 0xfff = push_bit 12 (drop_bit 12 va)"
  proof (rule bit_word_eqI)
    fix n assume "n < LENGTH(64)"
    have m: "(0xfff :: u64) = mask 12" by (simp add: mask_eq_exp_minus_1)
    show "bit (va AND NOT 0xfff) n = bit (push_bit 12 (drop_bit 12 va)) n"
      unfolding m using \<open>n < LENGTH(64)\<close> by (auto simp: bit_simps)
  qed
  also have "\<dots> = va - (va AND 0xfff)"
    using bits_ident [of 12 va] by (simp add: eq_diff_eq take_bit_eq_mask mask_eq_exp_minus_1)
  finally have "va AND NOT 0xfff = va - (va AND 0xfff)" .
  moreover have "va AND 0xfff \<le> va" by (simp add: word_and_le2)
  ultimately show ?thesis by (simp add: unat_sub unat_page_offset minus_mod_eq_div_mult)
qed

subsection \<open>Loading one page\<close>

text \<open>
  \<open>loading R r s0 s U\<close>: since \<open>s0\<close>, when \<open>R\<close> were the process spaces, the space \<open>r\<close> has been
  created and filled so that its user memory is \<open>U\<close>; the page frames used for that were free,
  and no page in use, no translation of another space and no register has changed.
\<close>

definition loading :: "u64 set \<Rightarrow> u64 \<Rightarrow> kmm \<Rightarrow> kmm \<Rightarrow> (u64 \<Rightarrow> u8 option) \<Rightarrow> bool" where
  "loading R r s0 s U \<longleftrightarrow> mm_inv R s0 \<and> mm_inv (insert r R) s \<and> same_regs s0 s \<and>
     r \<notin> insert (active_pml4_phys s0) R \<and> avail (mm_pmm s) \<subseteq> avail (mm_pmm s0) \<and>
     space_frames r s \<subseteq> avail (mm_pmm s0) \<and>
     (\<forall>f \<in> page_frames. f \<notin> avail (mm_pmm s0) \<longrightarrow> same_frame s0 s f) \<and>
     (\<forall>r' \<in> insert (active_pml4_phys s0) R. space_frames r' s = space_frames r' s0 \<and>
        (\<forall>va. translate (ent s) r' va = translate (ent s0) r' va)) \<and>
     (\<forall>va. unat va < 2 ^ 47 \<longrightarrow> ubyte s r va = U va)"

lemma loadingD:
  assumes "loading R r s0 s U"
  shows "mm_inv R s0" "mm_inv (insert r R) s" "same_regs s0 s" "r \<notin> insert (active_pml4_phys s0) R"
    "avail (mm_pmm s) \<subseteq> avail (mm_pmm s0)" "space_frames r s \<subseteq> avail (mm_pmm s0)"
    "f \<in> page_frames \<Longrightarrow> f \<notin> avail (mm_pmm s0) \<Longrightarrow> same_frame s0 s f"
    "r' \<in> insert (active_pml4_phys s0) R \<Longrightarrow> space_frames r' s = space_frames r' s0"
    "r' \<in> insert (active_pml4_phys s0) R \<Longrightarrow> translate (ent s) r' va = translate (ent s0) r' va"
    "unat va < 2 ^ 47 \<Longrightarrow> ubyte s r va = U va"
  using assms unfolding loading_def by blast+

lemma loadingI:
  assumes "mm_inv R s0" "mm_inv (insert r R) s" "same_regs s0 s" "r \<notin> insert (active_pml4_phys s0) R"
    "avail (mm_pmm s) \<subseteq> avail (mm_pmm s0)" "space_frames r s \<subseteq> avail (mm_pmm s0)"
    "\<And>f. f \<in> page_frames \<Longrightarrow> f \<notin> avail (mm_pmm s0) \<Longrightarrow> same_frame s0 s f"
    "\<And>r'. r' \<in> insert (active_pml4_phys s0) R \<Longrightarrow> space_frames r' s = space_frames r' s0"
    "\<And>r' va. r' \<in> insert (active_pml4_phys s0) R \<Longrightarrow> translate (ent s) r' va = translate (ent s0) r' va"
    "\<And>va. unat va < 2 ^ 47 \<Longrightarrow> ubyte s r va = U va"
  shows "loading R r s0 s U"
  using assms unfolding loading_def by blast

lemma loading_cong:
  assumes "loading R r s0 s U" "\<And>va. unat va < 2 ^ 47 \<Longrightarrow> U va = V va"
  shows "loading R r s0 s V"
  using assms unfolding loading_def by auto

text \<open>The contents of a page that is cleared and then filled from offset \<open>off\<close> with \<open>bs\<close>.\<close>

definition page_byte :: "nat \<Rightarrow> bytes \<Rightarrow> nat \<Rightarrow> u8" where
  "page_byte off bs j = (if off \<le> j \<and> j < off + length bs then bs ! (j - off) else 0)"

lemma load_page:
  assumes ld: "loading R r s0 s U" and al: "pmm_alloc_page (mm_pmm s) = (phys, q)" "phys \<noteq> PMM_ALLOC_FAILED"
    and off: "unat off + length bs \<le> 4096" and virt: "unat virt < 2 ^ 47" and fl: "flags AND PAGE_MASK = 0"
  obtains ok s' where "vmm_space_map r virt phys flags (fill_frame phys off bs (s\<lparr>mm_pmm := q\<rparr>)) = Some (ok, s')"
    "ok \<Longrightarrow> loading R r s0 s' (\<lambda>va. if unat va div 4096 = unat virt div 4096
       then Some (page_byte (unat off) bs (unat va mod 4096)) else U va)"
    "\<not> ok \<Longrightarrow> loading R r s0 s' U \<and> avail (mm_pmm s') = {}"
proof -
  note L = loadingD [OF ld]
  let ?R = "insert r R" and ?K = "active_pml4_phys s0" and ?A = "avail (mm_pmm s0)"
  define s1 where "s1 = s\<lparr>mm_pmm := q\<rparr>"
  define s2 where "s2 = fill_frame phys off bs s1"
  have K: "active_pml4_phys s = ?K" using L(3) by (simp add: same_regs_def)
  note un = alloc_unowned [OF L(2) al, unfolded K, folded s1_def]
  have s1: "active_pml4_phys s1 = ?K" "direct_map s1 = direct_map s" "ent s1 = ent s" "same_regs s s1"
    "mm_pmm s1 = q" by (simp_all add: s1_def K same_regs_def)
  have sf1: "space_frames x s1 = space_frames x s" "table_frames x s1 \<subseteq> space_frames x s" for x
    by (auto simp: space_frames_def table_frames_def s1 K)
  have ok1: "mm_ok s1" using un(1) by (simp add: mm_inv_def)
  note fb = fill_frame_bytes [OF ok1 un(2) off, folded s2_def]
  have rg2: "same_regs s1 s2" "mm_pmm s2 = mm_pmm s1" by (simp_all add: s2_def same_regs_def)
  have keep: "same_frame s1 s2 f" if "x \<in> insert (active_pml4_phys s1) ?R" "f \<in> table_frames x s1" for x f
  proof (rule fb(2))
    have x: "x \<in> insert (active_pml4_phys s) ?R" "f \<in> space_frames x s" using that sf1 s1(1) K by auto
    show "f \<in> page_frames" using tab_mem_frames(1) [OF L(2) x(1)] x(2) by (auto simp: space_frames_def)
    show "f \<noteq> phys" using un(5) x K by auto
  qed
  have d1: "mm_inv ?R s2" by (rule mm_inv_data(1) [OF un(1) rg2]) (rule keep)
  have d2: "translate (ent s2) x va = translate (ent s) x va" "space_frames x s2 = space_frames x s1"
    if "x \<in> insert ?K ?R" for x va
  proof -
    have x: "x \<in> insert (active_pml4_phys s1) ?R" using that by (simp add: s1)
    show "translate (ent s2) x va = translate (ent s) x va"
      using mm_inv_data(2) [OF un(1) rg2 _ x, of va] keep by (simp add: s1(3) del: insert_iff)
    show "space_frames x s2 = space_frames x s1"
      using mm_inv_data(3) [OF un(1) rg2 _ x] keep by (simp del: insert_iff)
  qed
  have K2: "active_pml4_phys s2 = ?K" "direct_map s2 = direct_map s" "avail (mm_pmm s2) = avail (mm_pmm s) - {phys}"
    using un(4) by (simp_all add: s2_def s1)
  have sf2: "space_frames x s2 = space_frames x s" "translate (ent s2) x va = translate (ent s) x va"
    if "x \<in> insert ?K ?R" for x va using d2 [OF that] sf1 by simp_all
  have sm: "same_frame s s2 f" if "f \<in> page_frames" "f \<noteq> phys" for f using fb(2) [OF that] by (simp add: s1_def)
  have u2: "ubyte s2 x va = ubyte s x va" if "x \<in> ?R" "idx 3 va < 256" for x va
  proof (rule ubyte_keep [OF L(2) that])
    show "translate (ent s2) x va = translate (ent s) x va" using sf2 that(1) by blast
    show "same_frame s s2 f" if "f \<in> page_frames" "f \<notin> avail (mm_pmm s)" for f
      using sm [OF that(1)] that(2) un(3) by auto
  qed (rule K2(2))
  have ph: "phys \<notin> avail (mm_pmm s2)" "\<forall>x \<in> insert (active_pml4_phys s2) ?R. phys \<notin> space_frames x s2"
    using K2 sf2 un(5) by auto
  obtain ok s' where m: "vmm_space_map r virt phys flags s2 = Some (ok, s')" "mm_inv ?R s'" "same_regs s2 s'"
    "avail (mm_pmm s') \<subseteq> avail (mm_pmm s2)"
    and ub: "\<And>x va. x \<in> ?R \<Longrightarrow> idx 3 va < 256 \<Longrightarrow> ubyte s' x va =
       (if ok \<and> x = r \<and> idxs va = idxs virt then Some (frame_byte s2 phys (va AND 0xfff)) else ubyte s2 x va)"
    and tr: "\<And>x va. x \<in> insert (active_pml4_phys s2) ?R \<Longrightarrow> x \<noteq> r \<Longrightarrow> translate (ent s') x va = translate (ent s2) x va"
    and sf: "space_frames r s' \<subseteq> space_frames r s2 \<union> avail (mm_pmm s2) \<union> {phys}"
    and fr: "\<And>f. f \<in> page_frames \<Longrightarrow> f \<notin> avail (mm_pmm s2) \<Longrightarrow> f \<notin> space_frames r s2 \<Longrightarrow> same_frame s2 s' f"
    and no: "\<not> ok \<Longrightarrow> idx 3 virt < 256 \<Longrightarrow> avail (mm_pmm s') = {}"
    and so: "\<And>x. x \<in> insert (active_pml4_phys s2) ?R \<Longrightarrow> x \<noteq> r \<Longrightarrow> space_frames x s' = space_frames x s2"
    by (rule vmm_space_map_user [OF d1 insertI1 un(2) ph fl, of virt], rule that)
  have avs: "phys \<in> ?A" using un(3) L(5) by auto
  have "loading R r s0 s' (\<lambda>va. if ok \<and> unat va div 4096 = unat virt div 4096
       then Some (page_byte (unat off) bs (unat va mod 4096)) else U va)"
  proof (rule loadingI [OF L(1) m(2) _ L(4)])
    show "same_regs s0 s'" using L(3) m(3) K2 rg2(1) s1(4) by (simp add: same_regs_def)
    show "avail (mm_pmm s') \<subseteq> ?A" using m(4) K2(3) L(5) by auto
    show "space_frames r s' \<subseteq> ?A" using sf sf2(1) [of r] L(6) K2(3) L(5) avs by auto
    fix f assume f: "f \<in> page_frames" "f \<notin> ?A"
    have "f \<noteq> phys" using f avs by auto
    moreover have "f \<notin> avail (mm_pmm s2)" "f \<notin> space_frames r s2" using f K2(3) L(5) sf2(1) [of r] L(6) by auto
    then have "same_frame s2 s' f" using fr [OF f(1)] by blast
    ultimately show "same_frame s0 s' f" using L(7) [OF f] sm [OF f(1)] by (blast intro: same_frame_trans)
  next
    fix x assume x: "x \<in> insert ?K R"
    then have "x \<noteq> r" using L(4) by auto
    then show "space_frames x s' = space_frames x s0" "translate (ent s') x va = translate (ent s0) x va" for va
      using x so [of x] tr [of x va] sf2 [of x] K2(1) L(8,9) [OF x] by auto
  next
    fix va :: u64 assume va: "unat va < 2 ^ 47"
    note lo = idx3_low [OF va]
    have "frame_byte s2 phys (va AND 0xfff) = page_byte (unat off) bs (unat va mod 4096)"
      using fb(1) [OF page_offset_less [of va]] by (simp add: page_byte_def unat_page_offset word_le_nat_alt)
    then show "ubyte s' r va = (if ok \<and> unat va div 4096 = unat virt div 4096
       then Some (page_byte (unat off) bs (unat va mod 4096)) else U va)"
      using ub [OF insertI1 lo] u2 [OF insertI1 lo] L(10) [OF va] idxs_page [OF va virt] by simp
  qed
  then show ?thesis
    using that [OF m(1) [unfolded s2_def s1_def]] no idx3_low [OF virt] by (cases ok) simp_all
qed

lemma loading_alloc_fail:
  assumes ld: "loading R r s0 s U" and al: "pmm_alloc_page (mm_pmm s) = (PMM_ALLOC_FAILED, q)"
  shows "s\<lparr>mm_pmm := q\<rparr> = s" "avail (mm_pmm s) = {}"
proof -
  have "pmm_inv (mm_pmm s)" using loadingD(2) [OF ld] by (simp add: mm_inv_def mm_ok_def)
  then have "q = mm_pmm s \<and> avail (mm_pmm s) = {}" by (cases rule: pmm_pages.alloc_cases) (use al in auto)
  then show "s\<lparr>mm_pmm := q\<rparr> = s" "avail (mm_pmm s) = {}" by simp_all
qed

subsection \<open>Loading a segment\<close>

text \<open>The file bytes copied before page \<open>k\<close> of a segment that starts at offset \<open>d\<close> of its first page.\<close>

definition copied :: "nat \<Rightarrow> nat \<Rightarrow> nat \<Rightarrow> nat" where
  "copied F d k = (if k = 0 then 0 else min F (4096 * k - d))"

definition first_off :: "nat \<Rightarrow> nat \<Rightarrow> nat" where
  "first_off d k = (if k = 0 then d else 0)"

lemma copied_step:
  assumes "d < 4096"
  shows "copied F d (Suc k) = copied F d k + min (F - copied F d k) (4096 - first_off d k)" "copied F d k \<le> F"
  using assms by (auto simp: copied_def first_off_def min_def)

lemma seg_page_byte:
  fixes va :: u64
  assumes va: "unat va div 4096 = unat (p_vaddr ph) div 4096 + k"
    and len: "unat (p_offset ph) + unat (p_filesz ph) \<le> length img"
  defines "d \<equiv> unat (p_vaddr ph) mod 4096" and "F \<equiv> unat (p_filesz ph)"
  defines "bs \<equiv> take (min (F - copied F d k) (4096 - first_off d k)) (drop (unat (p_offset ph) + copied F d k) img)"
  shows "page_byte (first_off d k) bs (unat va mod 4096) = seg_byte img ph va"
proof -
  let ?a = "unat (p_vaddr ph)" and ?O = "unat (p_offset ph)" and ?v = "unat va"
  define j where "j = ?v mod 4096"
  define c where "c = copied F d k"
  define n where "n = min (F - c) (4096 - first_off d k)"
  have "?a div 4096 * 4096 + d = ?a" "?v div 4096 * 4096 + j = ?v" unfolding d_def j_def by simp_all
  then have v: "?v + d = ?a + 4096 * k + j" using va by simp
  have dj: "d < 4096" "j < 4096" unfolding d_def j_def by simp_all
  have cF: "c \<le> F" unfolding c_def using copied_step(2) [OF dj(1)] .
  have lb: "length bs = n" using len cF unfolding bs_def c_def [symmetric] n_def [symmetric]
    by (simp add: F_def n_def)
  have nth: "bs ! i = img ! (?O + c + i)" if "i < n" for i
    using that len cF unfolding bs_def c_def [symmetric] n_def [symmetric] by (simp add: F_def n_def)
  have e: "page_byte (first_off d k) bs j = (if first_off d k \<le> j \<and> j < first_off d k + n
      then img ! (?O + c + (j - first_off d k)) else 0)"
    unfolding page_byte_def lb using nth by auto
  show ?thesis
  proof (cases "k = 0")
    case True
    then have z: "c = 0" "first_off d k = d" "n = min F (4096 - d)" "?v + d = ?a + j"
      using v by (simp_all add: c_def copied_def first_off_def n_def)
    have "?O + j - d = ?O + ?v - ?a" if "d \<le> j" using z(4) that by arith
    then show ?thesis unfolding j_def [symmetric] e seg_byte_def F_def [symmetric] using z dj by auto
  next
    case False
    then have f0: "first_off d k = 0" "c = min F (4096 * k - d)" "4096 \<le> 4096 * k"
      by (simp_all add: c_def copied_def first_off_def)
    have av: "?a \<le> ?v" "?v - ?a = 4096 * k - d + j" using v f0(3) dj by linarith+
    have "j < n \<longleftrightarrow> ?v < ?a + F" using av f0 dj unfolding n_def by auto
    moreover have "c = 4096 * k - d" if "j < n" using that f0(2) unfolding n_def by auto
    ultimately show ?thesis unfolding j_def [symmetric] e seg_byte_def F_def [symmetric] using f0(1) av
      by (auto simp: add.assoc)
  qed
qed

lemma elf_page_eq:
  assumes "pmm_alloc_page (mm_pmm s) = (phys, q)" "phys \<noteq> PMM_ALLOC_FAILED"
    and "unat src + unat cl \<le> length img"
    and "po = (if p = 0 then p_vaddr ph - vbase else 0)"
    and "cl = (if bl > PAGE_SIZE - po then PAGE_SIZE - po else bl)"
  shows "elf_page img root ph flags vbase p src bl s = do {
    (ok, s) \<leftarrow> vmm_space_map root (vbase + p * PAGE_SIZE) phys flags
      (fill_frame phys po (take (unat cl) (drop (unat src) img)) (s\<lparr>mm_pmm := q\<rparr>));
    Some (ok, src + cl, bl - cl, s) }"
proof (cases "cl = 0")
  case True
  have "st_bytes x [] m = m" for x m by (simp add: st_bytes_def)
  then show ?thesis
    unfolding elf_page_def Let_def assms(1) prod.case if_not_P [OF assms(2)] assms(4) [symmetric] assms(5) [symmetric]
    by (simp add: True fill_frame_def vmm_direct_map_base_def PAGE_SIZE_def)
next
  case False
  then have "0 < cl" using word_gt_0 by blast
  then show ?thesis
    unfolding elf_page_def Let_def assms(1) prod.case if_not_P [OF assms(2)] assms(4) [symmetric] assms(5) [symmetric]
    using assms(3) by (simp add: slice_ok fill_frame_def vmm_direct_map_base_def PAGE_SIZE_def)
qed

text \<open>The view of a space in which the first \<open>k\<close> pages of a segment have been loaded.\<close>

definition with_pages :: "bytes \<Rightarrow> elf64_phdr \<Rightarrow> nat \<Rightarrow> (u64 \<Rightarrow> u8 option) \<Rightarrow> u64 \<Rightarrow> u8 option" where
  "with_pages img ph k U va =
     (if unat (p_vaddr ph) div 4096 \<le> unat va div 4096 \<and> unat va div 4096 < unat (p_vaddr ph) div 4096 + k
      then Some (seg_byte img ph va) else U va)"

lemma elf_page_ok:
  assumes ld: "loading R r s0 s (with_pages img ph k U)" and sz: "unat (p_offset ph) + unat (p_filesz ph) \<le> unat sz" "unat (sz :: u64) \<le> length img"
    and fl: "flags AND PAGE_MASK = 0" and vb: "unat vbase = unat (p_vaddr ph) div 4096 * 4096"
    and p: "unat p = k" and v: "unat (p_vaddr ph) div 4096 * 4096 + 4096 * k < 2 ^ 47"
  defines "d \<equiv> unat (p_vaddr ph) mod 4096" and "F \<equiv> unat (p_filesz ph)"
  assumes src: "unat src = unat (p_offset ph) + copied F d k" and bl: "unat bl = F - copied F d k"
  shows "\<exists>ok src' bl' s'. elf_page img r ph flags vbase p src bl s = Some (ok, src', bl', s') \<and>
    (ok \<longrightarrow> loading R r s0 s' (with_pages img ph (Suc k) U) \<and>
       unat src' = unat (p_offset ph) + copied F d (Suc k) \<and> unat bl' = F - copied F d (Suc k)) \<and>
    (\<not> ok \<longrightarrow> avail (mm_pmm s') = {} \<and> (\<exists>V. loading R r s0 s' V))"
proof -
  obtain phys q where al: "pmm_alloc_page (mm_pmm s) = (phys, q)" by fastforce
  show ?thesis
  proof (cases "phys = PMM_ALLOC_FAILED")
    case True
    note lf = loading_alloc_fail [OF ld al [unfolded True]]
    have "elf_page img r ph flags vbase p src bl s = Some (False, src, bl, s)"
      unfolding elf_page_def using al True lf(1) by simp
    then show ?thesis using lf(2) ld by auto
  next
    case False
    let ?a = "unat (p_vaddr ph)"
    have len: "unat (p_offset ph) + unat (p_filesz ph) \<le> length img" using sz by linarith
    define po where "po = (if p = 0 then p_vaddr ph - vbase else 0)"
    define cl where "cl = (if bl > PAGE_SIZE - po then PAGE_SIZE - po else bl)"
    have dl: "d < 4096" by (simp add: d_def)
    have "vbase \<le> p_vaddr ph" unfolding word_le_nat_alt vb by simp
    then have po: "unat po = first_off d k"
      using p by (auto simp: po_def first_off_def unat_sub vb d_def minus_div_mult_eq_mod unat_eq_0)
    have le: "first_off d k \<le> 4096" using dl by (simp add: first_off_def)
    then have "po \<le> PAGE_SIZE" using po by (simp add: PAGE_SIZE_def word_le_nat_alt)
    then have "unat (PAGE_SIZE - po) = 4096 - first_off d k" by (simp add: unat_sub po) (simp add: PAGE_SIZE_def)
    then have cl: "unat cl = min (F - copied F d k) (4096 - first_off d k)"
      using bl by (auto simp: cl_def word_less_nat_alt)
    have cF: "copied F d k \<le> F" using copied_step(2) [OF dl] .
    have rd: "unat src + unat cl \<le> length img" using src cl len cF by (simp add: F_def)
    let ?bs = "take (unat cl) (drop (unat src) img)" and ?virt = "vbase + p * PAGE_SIZE"
    have "unat (p * PAGE_SIZE) = 4096 * k"
      using p v by (subst unat_mult_lem [THEN iffD1]) (simp_all add: PAGE_SIZE_def)
    then have vu: "unat ?virt = ?a div 4096 * 4096 + 4096 * k"
      using v vb by (subst unat_add_lem [THEN iffD1]) simp_all
    then have vd: "unat ?virt div 4096 = ?a div 4096 + k" "unat ?virt < 2 ^ 47" using v by simp_all
    have ob: "unat po + length ?bs \<le> 4096" using po cl le by simp
    obtain ok s' where m: "vmm_space_map r ?virt phys flags (fill_frame phys po ?bs (s\<lparr>mm_pmm := q\<rparr>)) = Some (ok, s')"
      "ok \<Longrightarrow> loading R r s0 s' (\<lambda>va. if unat va div 4096 = unat ?virt div 4096
         then Some (page_byte (unat po) ?bs (unat va mod 4096)) else with_pages img ph k U va)"
      "\<not> ok \<Longrightarrow> loading R r s0 s' (with_pages img ph k U) \<and> avail (mm_pmm s') = {}"
      by (rule load_page [OF ld al False ob vd(2) fl], rule that)
    have "loading R r s0 s' (with_pages img ph (Suc k) U)" if ok
    proof (rule loading_cong [OF m(2) [OF that]])
      fix va :: u64
      have "page_byte (unat po) ?bs (unat va mod 4096) = seg_byte img ph va" if "unat va div 4096 = ?a div 4096 + k"
        using seg_page_byte [OF that len] unfolding po cl src d_def F_def .
      then show "(if unat va div 4096 = unat ?virt div 4096
         then Some (page_byte (unat po) ?bs (unat va mod 4096)) else with_pages img ph k U va) =
         with_pages img ph (Suc k) U va" unfolding vd(1) with_pages_def by auto
    qed
    moreover have "unat (src + cl) = unat (p_offset ph) + copied F d (Suc k)"
    proof -
      have "unat src + unat cl < 2 ^ 64" using src cl cF sz(1) unat_less [of sz] by (simp add: F_def)
      then show ?thesis using src cl copied_step(1) [OF dl] by (simp add: unat_add_lem [THEN iffD1])
    qed
    moreover have "unat (bl - cl) = F - copied F d (Suc k)"
    proof -
      have "cl \<le> bl" using cl bl by (simp add: word_le_nat_alt)
      then show ?thesis using bl cl copied_step(1) [OF dl, of F k] by (simp add: unat_sub)
    qed
    ultimately show ?thesis
      using m(1,3) unfolding elf_page_eq [OF al False rd po_def cl_def] by auto
  qed
qed

lemma elf_pages_ok:
  assumes ld: "loading R r s0 s (with_pages img ph k U)"
    and sz: "unat (p_offset ph) + unat (p_filesz ph) \<le> unat sz" "unat (sz :: u64) \<le> length img"
    and fl: "flags AND PAGE_MASK = 0" and vb: "unat vbase = unat (p_vaddr ph) div 4096 * 4096"
    and p: "unat p = k" "p \<le> npages" and v: "unat (p_vaddr ph) div 4096 * 4096 + 4096 * unat npages \<le> 2 ^ 47"
  defines "d \<equiv> unat (p_vaddr ph) mod 4096" and "F \<equiv> unat (p_filesz ph)"
  assumes src: "unat src = unat (p_offset ph) + copied F d k" and bl: "unat bl = F - copied F d k"
  shows "\<exists>ok s'. elf_pages img r ph flags vbase npages p src bl s = Some (ok, s') \<and>
    (ok \<longrightarrow> loading R r s0 s' (with_pages img ph (unat npages) U)) \<and>
    (\<not> ok \<longrightarrow> avail (mm_pmm s') = {} \<and> (\<exists>V. loading R r s0 s' V))"
  using ld p src bl
proof (induction "unat npages - unat p" arbitrary: p k src bl s)
  case 0
  then have "npages = p" by (simp add: word_le_nat_alt word_unat_eq_iff)
  then show ?case using 0(2,3) by (subst elf_pages.simps) auto
next
  case (Suc n)
  have lt: "p < npages" using Suc(2) by (simp add: word_less_nat_alt)
  have k: "k < unat npages" using lt Suc(4) by (simp add: word_less_nat_alt)
  then have vk: "unat (p_vaddr ph) div 4096 * 4096 + 4096 * k < 2 ^ 47" using v by linarith
  obtain ok src' bl' s' where e: "elf_page img r ph flags vbase p src bl s = Some (ok, src', bl', s')"
    "ok \<Longrightarrow> loading R r s0 s' (with_pages img ph (Suc k) U)"
    "ok \<Longrightarrow> unat src' = unat (p_offset ph) + copied F d (Suc k)" "ok \<Longrightarrow> unat bl' = F - copied F d (Suc k)"
    "\<not> ok \<Longrightarrow> avail (mm_pmm s') = {} \<and> (\<exists>V. loading R r s0 s' V)"
    using elf_page_ok [OF Suc(3) sz fl vb Suc(4) vk, folded d_def F_def, OF Suc(6,7)] by blast
  show ?case
  proof (cases ok)
    case False
    then show ?thesis using e lt by (subst elf_pages.simps) auto
  next
    case True
    have p1: "unat (p + 1) = Suc k" using unat_Suc_of_less [OF lt] Suc(4) by simp
    have "n = unat npages - unat (p + 1)" "p + 1 \<le> npages" using Suc(2,4) p1 k by (simp_all add: word_le_nat_alt)
    then show ?thesis
      using Suc(1) [OF _ e(2) [OF True] p1 _ e(3,4) [OF True]] e(1) True lt by (subst elf_pages.simps) simp
  qed
qed

subsection \<open>Loading an image\<close>

lemma seg_flags: "(if c then VMM_USER OR VMM_WRITABLE else VMM_USER) AND PAGE_MASK = 0"
  by (simp add: VMM_USER_def VMM_WRITABLE_def PAGE_MASK_def)

lemma phdr_place:
  fixes eh :: elf64_ehdr and i :: u16 and sz :: u64
  defines "off \<equiv> e_phoff eh + ucast i * ucast (e_phentsize eh)"
  shows "\<not> (off < e_phoff eh \<or> off > sz \<or> sz - off < 56) \<longleftrightarrow>
      unat (e_phoff eh) + unat i * unat (e_phentsize eh) + 56 \<le> unat sz"
    "unat (e_phoff eh) + unat i * unat (e_phentsize eh) + 56 \<le> unat sz \<Longrightarrow>
      unat off = unat (e_phoff eh) + unat i * unat (e_phentsize eh)"
proof -
  let ?P = "unat (e_phoff eh)" and ?m = "unat i * unat (e_phentsize eh)"
  have u: "unat i < 2 ^ 16" "unat (e_phentsize eh) < 2 ^ 16" using unat_less [of i] unat_less [of "e_phentsize eh"] by simp_all
  then have "?m < 2 ^ 16 * 2 ^ 16" by (intro mult_strict_mono) simp_all
  then have m: "?m < 2 ^ 32" by simp
  have um: "unat (ucast i * ucast (e_phentsize eh) :: u64) = ?m"
  proof -
    have uc: "unat (ucast x :: u64) = unat x" for x :: u16
      using unat_less [of x] by (simp add: unsigned_ucast_eq take_bit_nat_eq_self)
    show ?thesis using m by (subst unat_mult_lem [THEN iffD1]) (simp_all add: uc)
  qed
  have P: "?P < 2 ^ 64" using unat_less [of "e_phoff eh"] by simp
  have off: "unat off = (if ?P + ?m < 2 ^ 64 then ?P + ?m else ?P + ?m - 2 ^ 64)"
    unfolding off_def using um P m by (simp add: unat_plus_if' )
  show "\<not> (off < e_phoff eh \<or> off > sz \<or> sz - off < 56) \<longleftrightarrow> ?P + ?m + 56 \<le> unat sz"
  proof (cases "off \<le> sz")
    case True
    then have "unat (sz - off) = unat sz - unat off" "unat off \<le> unat sz" by (simp_all add: unat_sub word_le_nat_alt)
    then show ?thesis using off P m unat_less [of sz] by (auto simp: word_less_nat_alt split: if_splits)
  next
    case False
    then show ?thesis using off P m unat_less [of sz] by (auto simp: word_less_nat_alt word_le_nat_alt split: if_splits)
  qed
  show "unat off = ?P + ?m" if "?P + ?m + 56 \<le> unat sz" using that off unat_less [of sz] by simp
qed

lemma segment_range:
  fixes ph :: elf64_phdr
  assumes "p_memsz ph \<noteq> 0"
  defines "a \<equiv> unat (p_vaddr ph)" and "m \<equiv> unat (p_memsz ph)" and "vend \<equiv> p_vaddr ph + p_memsz ph"
    and "vbase \<equiv> p_vaddr ph AND NOT (PAGE_SIZE - 1)"
  shows "\<not> (vend < p_vaddr ph \<or> p_vaddr ph \<ge> USER_STACK_TOP \<or> vend > USER_STACK_TOP) \<longleftrightarrow> a + m \<le> 2 ^ 47"
    "unat vbase = a div 4096 * 4096"
    "a + m \<le> 2 ^ 47 \<Longrightarrow> unat (div_ceil (vend - vbase) PAGE_SIZE) + a div 4096 = (a + m + 4095) div 4096"
    "a + m \<le> 2 ^ 47 \<Longrightarrow> a div 4096 * 4096 + 4096 * unat (div_ceil (vend - vbase) PAGE_SIZE) \<le> 2 ^ 47"
proof -
  have m0: "0 < m" using assms(1) by (simp add: m_def unat_gt_0)
  have lt: "a < 2 ^ 64" "m < 2 ^ 64" unfolding a_def m_def using unat_less [of "p_vaddr ph"] unat_less [of "p_memsz ph"] by simp_all
  have ve: "unat vend = (if a + m < 2 ^ 64 then a + m else a + m - 2 ^ 64)"
    using lt by (simp add: vend_def a_def m_def unat_plus_if')
  show "\<not> (vend < p_vaddr ph \<or> p_vaddr ph \<ge> USER_STACK_TOP \<or> vend > USER_STACK_TOP) \<longleftrightarrow> a + m \<le> 2 ^ 47"
    using ve lt m0 unfolding word_less_nat_alt word_le_nat_alt a_def [symmetric]
    by (auto simp: USER_STACK_TOP_def split: if_splits)
  have "PAGE_SIZE - 1 = 0xfff" by (simp add: PAGE_SIZE_def)
  then show vb: "unat vbase = a div 4096 * 4096" unfolding vbase_def a_def by (simp only: unat_page_base)
  assume le: "a + m \<le> 2 ^ 47"
  have v: "unat vend = a + m" using ve le by simp
  have "vbase \<le> vend" unfolding word_le_nat_alt v vb by (rule trans_le_add1) simp
  then have df: "unat (vend - vbase) = a + m - a div 4096 * 4096" by (simp add: unat_sub v vb)
  have "div_ceil (vend - vbase) PAGE_SIZE = (vend - vbase + 4095) div 4096" by (simp add: div_ceil_def PAGE_SIZE_def add.commute)
  moreover have "unat (vend - vbase + 4095) = a + m - a div 4096 * 4096 + 4095"
    using le df by (subst unat_add_lem [THEN iffD1]) simp_all
  ultimately have n: "unat (div_ceil (vend - vbase) PAGE_SIZE) = (a + m - a div 4096 * 4096 + 4095) div 4096"
    by (simp only: unat_div) simp
  have "a div 4096 * 4096 \<le> a" by simp
  then have "a + m + 4095 = (a + m - a div 4096 * 4096 + 4095) + a div 4096 * 4096" by linarith
  then have "(a + m + 4095) div 4096 = (a + m - a div 4096 * 4096 + 4095) div 4096 + a div 4096"
    by (metis div_mult_self1 add.commute zero_neq_numeral)
  then show s: "unat (div_ceil (vend - vbase) PAGE_SIZE) + a div 4096 = (a + m + 4095) div 4096" using n by simp
  have "(a + m + 4095) div 4096 \<le> (2 ^ 47 + 4095) div 4096" using le by (intro div_le_mono) simp
  then show "a div 4096 * 4096 + 4096 * unat (div_ceil (vend - vbase) PAGE_SIZE) \<le> 2 ^ 47" using s by simp
qed

definition with_segment :: "bytes \<Rightarrow> nat \<Rightarrow> (u64 \<Rightarrow> u8 option) \<Rightarrow> u64 \<Rightarrow> u8 option" where
  "with_segment img i U va =
     (let ph = elf_phdr img i in if loads ph \<and> seg_covers ph va then Some (seg_byte img ph va) else U va)"

lemma elf_segment_ok:
  assumes ld: "loading R r s0 s U" and sz: "unat (sz :: u64) \<le> length img" and eh: "eh = ehdr_of (take 64 img)"
  shows "\<exists>ok s'. elf_segment img sz eh r i s = Some (ok, s') \<and>
    (ok \<longrightarrow> phdr_valid img sz (unat i) \<and> loading R r s0 s' (with_segment img (unat i) U)) \<and>
    (\<not> ok \<longrightarrow> (\<exists>V. loading R r s0 s' V) \<and> (phdr_valid img sz (unat i) \<longrightarrow> avail (mm_pmm s') = {}))"
proof -
  define off where "off = e_phoff eh + ucast i * ucast (e_phentsize eh)"
  define ph where "ph = elf_phdr img (unat i)"
  note pl = phdr_place [of eh i sz, folded off_def]
  show ?thesis
  proof (cases "off < e_phoff eh \<or> off > sz \<or> sz - off < 56")
    case True
    then have "elf_segment img sz eh r i s = Some (False, s)" by (simp add: elf_segment_def off_def)
    moreover have "\<not> phdr_valid img sz (unat i)" using True pl(1) by (auto simp: phdr_valid_def Let_def eh)
    ultimately show ?thesis using ld by auto
  next
    case False
    then have in_sz: "unat (e_phoff eh) + unat i * unat (e_phentsize eh) + 56 \<le> unat sz" using pl(1) by blast
    have "slice (unat off) 56 img = Some (take 56 (drop (unat off) img))"
      using in_sz pl(2) sz by (intro slice_ok) simp
    moreover have "phdr_of (take 56 (drop (unat off) img)) = ph"
      using pl(2) [OF in_sz] by (simp add: ph_def elf_phdr_def Let_def eh)
    ultimately have e: "elf_segment img sz eh r i s =
        (if p_type ph \<noteq> PT_LOAD \<or> p_memsz ph = 0 then Some (True, s)
        else if p_offset ph > sz \<or> sz - p_offset ph < p_filesz ph then Some (False, s)
        else if p_vaddr ph + p_memsz ph < p_vaddr ph \<or> p_vaddr ph \<ge> USER_STACK_TOP \<or>
          p_vaddr ph + p_memsz ph > USER_STACK_TOP then Some (False, s)
          else elf_pages img r ph (if p_flags ph AND PF_W \<noteq> 0 then VMM_USER OR VMM_WRITABLE else VMM_USER)
            (p_vaddr ph AND NOT (PAGE_SIZE - 1))
            (div_ceil (p_vaddr ph + p_memsz ph - (p_vaddr ph AND NOT (PAGE_SIZE - 1))) PAGE_SIZE) 0
            (p_offset ph) (p_filesz ph) s)"
      unfolding elf_segment_def Let_def off_def [symmetric] if_not_P [OF False] by simp
    have val: "phdr_valid img sz (unat i) \<longleftrightarrow> (loads ph \<longrightarrow>
        unat (p_offset ph) + unat (p_filesz ph) \<le> unat sz \<and> unat (p_vaddr ph) + unat (p_memsz ph) \<le> 2 ^ 47)"
      using in_sz by (simp add: phdr_valid_def Let_def eh ph_def)
    show ?thesis
    proof (cases "loads ph")
      case False
      then have "elf_segment img sz eh r i s = Some (True, s)" using e by (auto simp: loads_def)
      moreover have "with_segment img (unat i) U = U"
        using False by (intro ext) (simp add: with_segment_def ph_def [symmetric] Let_def)
      ultimately show ?thesis using ld val False by auto
    next
      case l: True
      then have ms: "p_memsz ph \<noteq> 0" and l': "\<not> (p_type ph \<noteq> PT_LOAD \<or> p_memsz ph = 0)" by (simp_all add: loads_def)
      note sr = segment_range [OF ms]
      have fd: "\<not> (p_offset ph > sz \<or> sz - p_offset ph < p_filesz ph) \<longleftrightarrow>
          unat (p_offset ph) + unat (p_filesz ph) \<le> unat sz"
        by (cases "p_offset ph \<le> sz") (auto simp: unat_sub word_less_nat_alt word_le_nat_alt)
      show ?thesis
      proof (cases "unat (p_offset ph) + unat (p_filesz ph) \<le> unat sz \<and> unat (p_vaddr ph) + unat (p_memsz ph) \<le> 2 ^ 47")
        case False
        then have "elf_segment img sz eh r i s = Some (False, s)" using e fd sr(1) l' by auto
        then show ?thesis using False val l ld by auto
      next
        case True
        let ?vb = "p_vaddr ph AND NOT (PAGE_SIZE - 1)"
        let ?np = "div_ceil (p_vaddr ph + p_memsz ph - ?vb) PAGE_SIZE"
        let ?fl = "if p_flags ph AND PF_W \<noteq> 0 then VMM_USER OR VMM_WRITABLE else VMM_USER"
        have w0: "with_pages img ph 0 U = U" by (intro ext) (auto simp: with_pages_def)
        have wn: "with_pages img ph (unat ?np) U = with_segment img (unat i) U"
          using sr(3) True l by (intro ext) (simp add: with_pages_def with_segment_def ph_def [symmetric] Let_def seg_covers_def add.commute)
        have "elf_segment img sz eh r i s = elf_pages img r ph ?fl ?vb ?np 0 (p_offset ph) (p_filesz ph) s"
          using e fd sr(1) l' True by auto
        moreover have "\<exists>ok s'. elf_pages img r ph ?fl ?vb ?np 0 (p_offset ph) (p_filesz ph) s = Some (ok, s') \<and>
            (ok \<longrightarrow> loading R r s0 s' (with_pages img ph (unat ?np) U)) \<and>
            (\<not> ok \<longrightarrow> avail (mm_pmm s') = {} \<and> (\<exists>V. loading R r s0 s' V))"
          by (rule elf_pages_ok [where k = 0 and U = U and sz = sz])
            (use ld w0 True sz sr seg_flags in \<open>simp_all add: copied_def\<close>)
        ultimately obtain ok s' where "elf_segment img sz eh r i s = Some (ok, s')"
          "ok \<longrightarrow> loading R r s0 s' (with_segment img (unat i) U)"
          "\<not> ok \<longrightarrow> avail (mm_pmm s') = {} \<and> (\<exists>V. loading R r s0 s' V)" unfolding wn by auto
        then show ?thesis using val True l by (intro exI [of _ ok] exI [of _ s']) simp
      qed
    qed
  qed
qed

lemma elf_segments_ok:
  assumes ld: "loading R r s0 s (seg_view img (unat i))" and sz: "unat (sz :: u64) \<le> length img"
    and eh: "eh = ehdr_of (take 64 img)" and i: "i \<le> e_phnum eh"
  shows "\<exists>ok s'. elf_segments img sz eh r i s = Some (ok, s') \<and>
    (ok \<longrightarrow> (\<forall>j. unat i \<le> j \<longrightarrow> j < unat (e_phnum eh) \<longrightarrow> phdr_valid img sz j) \<and>
       loading R r s0 s' (seg_view img (unat (e_phnum eh)))) \<and>
    (\<not> ok \<longrightarrow> (\<exists>V. loading R r s0 s' V) \<and>
       ((\<forall>j < unat (e_phnum eh). phdr_valid img sz j) \<longrightarrow> avail (mm_pmm s') = {}))"
  using ld i
proof (induction "unat (e_phnum eh) - unat i" arbitrary: i s)
  case 0
  then have "i = e_phnum eh" by (simp add: word_le_nat_alt word_unat_eq_iff)
  then show ?case using 0(2) by (subst elf_segments.simps) auto
next
  case (Suc n)
  have lt: "i < e_phnum eh" using Suc(2) by (simp add: word_less_nat_alt)
  then have lt': "unat i < unat (e_phnum eh)" by (simp add: word_less_nat_alt)
  obtain ok s' where e: "elf_segment img sz eh r i s = Some (ok, s')"
    "ok \<Longrightarrow> phdr_valid img sz (unat i)" "ok \<Longrightarrow> loading R r s0 s' (with_segment img (unat i) (seg_view img (unat i)))"
    "\<not> ok \<Longrightarrow> (\<exists>V. loading R r s0 s' V) \<and> (phdr_valid img sz (unat i) \<longrightarrow> avail (mm_pmm s') = {})"
    using elf_segment_ok [OF Suc(3) sz eh, of i] by blast
  show ?case
  proof (cases ok)
    case False
    have "elf_segments img sz eh r i s = Some (False, s')" using e(1) False lt by (subst elf_segments.simps) simp
    then show ?thesis using e(4) [OF False] lt' by auto
  next
    case True
    have i1: "unat (i + 1) = Suc (unat i)" using unat_Suc_of_less [OF lt] .
    have "with_segment img (unat i) (seg_view img (unat i)) = seg_view img (unat (i + 1))"
      unfolding i1 by (intro ext) (simp add: with_segment_def)
    then have l: "loading R r s0 s' (seg_view img (unat (i + 1)))" using e(3) True by simp
    have n: "n = unat (e_phnum eh) - unat (i + 1)" "i + 1 \<le> e_phnum eh" using Suc(2) i1 lt' by (simp_all add: word_le_nat_alt)
    have eq: "elf_segments img sz eh r i s = elf_segments img sz eh r (i + 1) s'"
      using e(1) True lt by (subst elf_segments.simps) simp
    have all: "(\<forall>j. unat (i + 1) \<le> j \<longrightarrow> j < unat (e_phnum eh) \<longrightarrow> phdr_valid img sz j) \<Longrightarrow>
        \<forall>j. unat i \<le> j \<longrightarrow> j < unat (e_phnum eh) \<longrightarrow> phdr_valid img sz j"
      unfolding i1 using e(2) [OF True] by (metis Suc_leI le_neq_implies_less)
    show ?thesis using Suc(1) [OF n(1) l n(2)] all unfolding eq by blast
  qed
qed

lemma elf_stack_ok:
  assumes ld: "loading R r s0 s (\<lambda>va. if unat USER_STACK_BASE \<le> unat va \<and> unat va < unat USER_STACK_BASE + 4096 * unat p
      then Some 0 else U va)" and p: "p \<le> USER_STACK_PAGES"
  shows "\<exists>ok s'. elf_stack r p s = Some (ok, s') \<and>
    (ok \<longrightarrow> loading R r s0 s' (\<lambda>va. if in_stack va then Some 0 else U va)) \<and>
    (\<not> ok \<longrightarrow> (\<exists>V. loading R r s0 s' V) \<and> avail (mm_pmm s') = {})"
  using ld p
proof (induction "4 - unat p" arbitrary: p s)
  case 0
  then have "p = USER_STACK_PAGES" by (simp add: word_le_nat_alt word_unat_eq_iff USER_STACK_PAGES_def)
  moreover have "unat USER_STACK_BASE \<le> unat va \<and> unat va < unat USER_STACK_BASE + 16384 \<longleftrightarrow> in_stack va" for va
    by (simp add: in_stack_def word_le_nat_alt word_less_nat_alt USER_STACK_BASE_def USER_STACK_TOP_def
        USER_STACK_PAGES_def PAGE_SIZE_def)
  ultimately show ?case using 0(2) by (subst elf_stack.simps) (auto simp: USER_STACK_PAGES_def)
next
  case (Suc n)
  let ?V = "\<lambda>k va. if unat USER_STACK_BASE \<le> unat va \<and> unat va < unat USER_STACK_BASE + 4096 * k then Some 0 else U va"
  let ?virt = "USER_STACK_BASE + p * PAGE_SIZE"
  have lt: "p < USER_STACK_PAGES" "unat p < 4" using Suc(2) by (simp_all add: word_less_nat_alt USER_STACK_PAGES_def)
  have base: "unat USER_STACK_BASE = 4096 * (2 ^ 35 - 4)"
    by (simp add: USER_STACK_BASE_def USER_STACK_TOP_def USER_STACK_PAGES_def PAGE_SIZE_def)
  have "unat (p * PAGE_SIZE) = 4096 * unat p"
    using lt by (subst unat_mult_lem [THEN iffD1]) (simp_all add: PAGE_SIZE_def)
  then have vu: "unat ?virt = 4096 * (2 ^ 35 - 4 + unat p)"
    using base lt(2) by (subst unat_add_lem [THEN iffD1]) simp_all
  then have v: "unat ?virt < 2 ^ 47" "unat ?virt div 4096 = 2 ^ 35 - 4 + unat p" using lt(2) by simp_all
  obtain phys q where al: "pmm_alloc_page (mm_pmm s) = (phys, q)" by fastforce
  show ?case
  proof (cases "phys = PMM_ALLOC_FAILED")
    case True
    note lf = loading_alloc_fail [OF Suc(3) al [unfolded True]]
    have "elf_stack r p s = Some (False, s)" using al True lf(1) lt by (subst elf_stack.simps) simp
    then show ?thesis using lf(2) Suc(3) by auto
  next
    case False
    have ob: "unat (0 :: u64) + length ([] :: bytes) \<le> 4096" by simp
    have fl: "(VMM_USER OR VMM_WRITABLE) AND PAGE_MASK = 0" by (simp add: VMM_USER_def VMM_WRITABLE_def PAGE_MASK_def)
    obtain ok s' where m: "vmm_space_map r ?virt phys (VMM_USER OR VMM_WRITABLE)
        (fill_frame phys 0 [] (s\<lparr>mm_pmm := q\<rparr>)) = Some (ok, s')"
      "ok \<Longrightarrow> loading R r s0 s' (\<lambda>va. if unat va div 4096 = unat ?virt div 4096
         then Some (page_byte (unat (0 :: u64)) [] (unat va mod 4096)) else ?V (unat p) va)"
      "\<not> ok \<Longrightarrow> loading R r s0 s' (?V (unat p)) \<and> avail (mm_pmm s') = {}"
      by (rule load_page [OF Suc(3) al False ob v(1) fl], rule that)
    have ff: "fill_frame phys 0 [] t = t\<lparr>kmem := memset (direct_map t + phys) 0 4096 (kmem t)\<rparr>" for t
      by (simp add: fill_frame_def st_bytes_def)
    show ?thesis
    proof (cases ok)
      case no: False
      have "elf_stack r p s = Some (False, s')"
        using al False lt m(1) no unfolding ff
        by (subst elf_stack.simps) (simp add: vmm_direct_map_base_def PAGE_SIZE_def)
      then show ?thesis using m(3) [OF no] by auto
    next
      case True
      have p1: "unat (p + 1) = Suc (unat p)" using unat_Suc_of_less [OF lt(1)] .
      have l: "loading R r s0 s' (?V (unat (p + 1)))"
      proof (rule loading_cong [OF m(2) [OF True]])
        fix va :: u64
        have "unat va div 4096 = 2 ^ 35 - 4 + unat p \<longleftrightarrow>
            4096 * (2 ^ 35 - 4) + 4096 * unat p \<le> unat va \<and> unat va < 4096 * (2 ^ 35 - 4) + 4096 * unat p + 4096" by auto
        then show "(if unat va div 4096 = unat ?virt div 4096
          then Some (page_byte (unat (0 :: u64)) [] (unat va mod 4096)) else ?V (unat p) va) = ?V (unat (p + 1)) va"
          unfolding v(2) p1 base by (auto simp: page_byte_def)
      qed
      have n: "n = 4 - unat (p + 1)" "p + 1 \<le> USER_STACK_PAGES"
        using Suc(2) p1 lt(2) by (simp_all add: word_le_nat_alt USER_STACK_PAGES_def)
      have "elf_stack r p s = elf_stack r (p + 1) s'"
        using al False lt m(1) True unfolding ff
        by (subst elf_stack.simps) (simp add: vmm_direct_map_base_def PAGE_SIZE_def)
      then show ?thesis using Suc(1) [OF n(1) l n(2)] by simp
    qed
  qed
qed

lemma loading_start:
  assumes inv: "mm_inv R s" and z: "0 \<notin> avail (mm_pmm s)"
  obtains (fail) "vmm_space_create s = Some (0, s)" "avail (mm_pmm s) = {}"
  | (ok) r s' where "vmm_space_create s = Some (r, s')" "r \<noteq> 0" "loading R r s s' (\<lambda>_. None)"
  using assms
proof (cases rule: vmm_space_create_user)
  case fail
  then show ?thesis using that(1) by blast
next
  case (ok r s')
  have "loading R r s s' (\<lambda>_. None)"
    by (rule loadingI [OF inv ok(6,7,4)]) (use ok idx3_low in auto)
  then show ?thesis using that(2) ok(1,2) by blast
qed

text \<open>
  C29: Loading an executable works for every image, whatever its bytes, and never faults: no read
  leaves the buffer, and no kernel panic is possible.  It succeeds exactly for well-formed images
  as long as memory lasts.  Then the new space shows the process the segments of the image, with
  zero bytes where the file has none, and a stack of zero bytes, and maps nothing else below
  the kernel half.  Whatever the outcome, no page that was in use changes and no other
  address space changes its translations.
\<close>

theorem elf_load_correct:
  assumes "mm_inv R s" "0 \<notin> avail (mm_pmm s)" "unat sz \<le> length img"
  shows "\<exists>res s'. elf_load (Some img) sz s = Some (res, s') \<and>
    (case res of
       Some out \<Rightarrow> elf_valid img sz \<and> entry out = e_entry (ehdr_of (take 64 img)) \<and>
         user_sp out = USER_STACK_TOP - 16 \<and> er_cr3 out \<notin> insert (active_pml4_phys s) R \<and>
         mm_inv (insert (er_cr3 out) R) s' \<and>
         (\<forall>va. unat va < 2 ^ 47 \<longrightarrow> ubyte s' (er_cr3 out) va = elf_view img va)
     | None \<Rightarrow> (elf_valid img sz \<longrightarrow> avail (mm_pmm s') = {}) \<and> (\<exists>R'. R \<subseteq> R' \<and> mm_inv R' s')) \<and>
    (\<forall>f \<in> page_frames. f \<notin> avail (mm_pmm s) \<longrightarrow> same_frame s s' f) \<and>
    (\<forall>r' \<in> insert (active_pml4_phys s) R. \<forall>va. translate (ent s') r' va = translate (ent s) r' va)"
proof -
  let ?eh = "ehdr_of (take 64 img)"
  have same: "(\<forall>f \<in> page_frames. f \<notin> avail (mm_pmm s) \<longrightarrow> same_frame s s f) \<and>
    (\<forall>r' \<in> insert (active_pml4_phys s) R. \<forall>va. translate (ent s) r' va = translate (ent s) r' va)"
    by (simp add: same_frame_def)
  show ?thesis
  proof (cases "64 \<le> sz \<and> elf_header_ok ?eh")
    case False
    have "elf_load (Some img) sz s = Some (None, s)"
    proof (cases "sz < 64")
      case sz: False
      then have "64 \<le> length img" using assms(3) by (simp add: word_less_nat_alt)
      then show ?thesis using False sz by (simp add: elf_load_def slice_ok)
    qed (simp add: elf_load_def)
    then show ?thesis using False same assms(1) by (intro exI [of _ None] exI [of _ s]) (auto simp: elf_valid_def)
  next
    case hd: True
    then have len: "64 \<le> length img" "\<not> sz < 64" using assms(3) by (auto simp: word_le_nat_alt not_less)
    have load: "elf_load (Some img) sz s = do {
        (root, s) \<leftarrow> vmm_space_create s;
        if root = 0 then Some (None, s) else do {
        (ok, s) \<leftarrow> elf_segments img sz ?eh root 0 s;
        if \<not> ok then Some (None, s) else do {
        (ok, s) \<leftarrow> elf_stack root 0 s;
        if \<not> ok then Some (None, s) else
        Some (Some \<lparr>entry = e_entry ?eh, user_sp = USER_STACK_TOP - 16, er_cr3 = root\<rparr>, s) } } }"
      using hd len by (simp add: elf_load_def slice_ok Let_def cong: if_cong)
    from assms(1,2) show ?thesis
    proof (cases rule: loading_start)
      case fail
      then show ?thesis using same assms(1) unfolding load by (intro exI [of _ None] exI [of _ s]) auto
    next
      case (ok r s1)
      have keeps: "(\<exists>R'. R \<subseteq> R' \<and> mm_inv R' s') \<and> (\<forall>f \<in> page_frames. f \<notin> avail (mm_pmm s) \<longrightarrow> same_frame s s' f) \<and>
          (\<forall>r' \<in> insert (active_pml4_phys s) R. \<forall>va. translate (ent s') r' va = translate (ent s) r' va)"
        if "loading R r s s' V" for s' V using loadingD(2,7,9) [OF that] by blast
      have l0: "loading R r s s1 (seg_view img (unat (0 :: u16)))"
        using ok(3) by (rule loading_cong) simp
      obtain b s2 where g: "elf_segments img sz ?eh r 0 s1 = Some (b, s2)"
        "b \<longrightarrow> (\<forall>j < unat (e_phnum ?eh). phdr_valid img sz j) \<and> loading R r s s2 (seg_view img (unat (e_phnum ?eh)))"
        "\<not> b \<longrightarrow> (\<exists>V. loading R r s s2 V) \<and> ((\<forall>j < unat (e_phnum ?eh). phdr_valid img sz j) \<longrightarrow> avail (mm_pmm s2) = {})"
        using elf_segments_ok [OF l0 assms(3) refl] by auto
      show ?thesis
      proof (cases b)
        case False
        then obtain V where "loading R r s s2 V" using g(3) by blast
        then show ?thesis using g False ok(1,2) keeps unfolding load
          by (intro exI [of _ None] exI [of _ s2]) (auto simp: elf_valid_def)
      next
        case True
        then have val: "elf_valid img sz" and l2: "loading R r s s2 (\<lambda>va.
            if unat USER_STACK_BASE \<le> unat va \<and> unat va < unat USER_STACK_BASE + 4096 * unat (0 :: u64)
            then Some 0 else seg_view img (unat (e_phnum ?eh)) va)"
          using g(2) hd by (auto simp: elf_valid_def elim!: loading_cong)
        obtain c s3 where k: "elf_stack r 0 s2 = Some (c, s3)"
          "c \<longrightarrow> loading R r s s3 (elf_view img)"
          "\<not> c \<longrightarrow> (\<exists>V. loading R r s s3 V) \<and> avail (mm_pmm s3) = {}"
          using elf_stack_ok [OF l2] by (auto simp: elf_view_def [abs_def])
        let ?out = "\<lparr>entry = e_entry ?eh, user_sp = USER_STACK_TOP - 16, er_cr3 = r\<rparr>"
        have res: "elf_load (Some img) sz s = Some (if c then Some ?out else None, s3)"
          unfolding load using ok(1,2) g(1) True k(1) by simp
        show ?thesis
        proof (cases c)
          case False
          then show ?thesis using res k(3) keeps by (intro exI [of _ None] exI [of _ s3]) auto
        next
          case c: True
          then have l3: "loading R r s s3 (elf_view img)" using k(2) by simp
          then show ?thesis using res c val keeps [OF l3] loadingD(2,4,10) [OF l3]
            by (intro exI [of _ "Some ?out"] exI [of _ s3]) simp
        qed
      qed
    qed
  qed
qed

text \<open>A program header table that runs past the end of the image is refused.\<close>

definition elf_ex :: bytes where
  "elf_ex = [0x7f, 0x45, 0x4c, 0x46, 2] @ replicate 11 0 @ [2, 0, 62, 0] @ replicate 12 0 @ [64] @ replicate 21 0 @
     [56, 0, 1] @ replicate 7 0"

theorem elf_load_correct_witness:
  "mm_inv {0x2000} mm_ex \<and> 0 \<notin> avail (mm_pmm mm_ex) \<and> unat (64 :: u64) \<le> length elf_ex \<and> \<not> elf_valid elf_ex 64 \<and>
   (\<exists>s'. elf_load (Some elf_ex) 64 mm_ex = Some (None, s') \<and>
      (\<forall>f \<in> page_frames. f \<noteq> 0x3000 \<longrightarrow> same_frame mm_ex s' f))"
proof -
  have a: "0 \<notin> avail (mm_pmm mm_ex)" "avail (mm_pmm mm_ex) = {0x3000}" by (simp_all add: mm_ex_def pmm_ex_avail)
  have l: "unat (64 :: u64) \<le> length elf_ex" by (simp add: elf_ex_def)
  have "e_phnum (ehdr_of (take 64 elf_ex)) = 1" "e_phoff (ehdr_of (take 64 elf_ex)) = 64"
    by code_simp+
  then have v: "\<not> elf_valid elf_ex 64" by (auto simp: elf_valid_def phdr_valid_def Let_def)
  show ?thesis using elf_load_correct [OF mm_ex_inv a(1) l] a l v mm_ex_inv by (auto split: option.splits)
qed

end
