(* ===== verification/Kroot.thy ===== *)
theory Kroot
  imports Kalloc
begin

text \<open>The kernel's own page table stays the same when the heap grows or shrinks.\<close>

abbreviation kroot :: "heap \<Rightarrow> u64" where
  "kroot h \<equiv> active_pml4_phys (hp_mm h)"

lemma wr64_root [simp]: "active_pml4_phys (wr64 t i v s) = active_pml4_phys s"
  by (simp add: wr64_def)

lemma clear_table_root [simp]: "active_pml4_phys (clear_table t s) = active_pml4_phys s"
proof -
  have "active_pml4_phys (fold (\<lambda>i. wr64 t (of_nat i) 0) is s) = active_pml4_phys s" for "is"
    by (induction "is" arbitrary: s) simp_all
  then show ?thesis by (simp add: clear_table_def)
qed

lemma ensure_table_root: "ensure_table t i s = Some (r, s') \<Longrightarrow> active_pml4_phys s' = active_pml4_phys s"
  unfolding ensure_table_def by (auto simp: Let_def split: if_splits prod.splits bind_splits)

lemma vmm_map_root: "vmm_map v p f s = Some (ok, s') \<Longrightarrow> active_pml4_phys s' = active_pml4_phys s"
  unfolding vmm_map_def Let_def
  by (auto dest!: ensure_table_root split: if_splits prod.splits bind_splits)

lemma heap_mm [simp]:
  "hp_mm (hset b f h) = hp_mm h" "hp_mm (free_list_add b h) = hp_mm h" "hp_mm (free_list_remove b h) = hp_mm h"
  "hp_mm (merge_next b n h) = hp_mm h"
  by (simp_all add: hset_def free_list_add_def free_list_remove_def merge_next_def Let_def)

lemma kmalloc_take_root: "kmalloc_take tot b h = (p, h') \<Longrightarrow> hp_mm h' = hp_mm h"
  by (auto simp: kmalloc_take_def Let_def split: if_splits)

lemma expand_root: "expand h = Some (ok, h') \<Longrightarrow> kroot h' = kroot h"
  unfolding expand_def Let_def
  by (auto dest!: vmm_map_root split: if_splits prod.splits bind_splits)

lemma expand_pages_root: "expand_pages i n h = Some (ok, h') \<Longrightarrow> kroot h' = kroot h"
proof (induction i n h rule: expand_pages.induct)
  case (1 i n h)
  show ?case
  proof (cases "i < n")
    case True
    then obtain ok1 h1 where e: "expand h = Some (ok1, h1)" using "1.prems" by (subst (asm) expand_pages.simps) (auto split: bind_splits)
    show ?thesis using "1.prems" "1.IH" [OF True e refl] expand_root [OF e] True e
      by (subst (asm) expand_pages.simps) (auto split: if_splits)
  next
    case False
    then show ?thesis using "1.prems" by (subst (asm) expand_pages.simps) simp
  qed
qed

lemma kmalloc_root: "kmalloc n h = Some (p, h') \<Longrightarrow> kroot h' = kroot h"
  unfolding kmalloc_def kmalloc_locked_def Let_def
  by (auto dest!: expand_pages_root kmalloc_take_root split: if_splits prod.splits bind_splits)

lemma kfree_root: "kfree p h = Some h' \<Longrightarrow> hp_mm h' = hp_mm h"
  unfolding kfree_def kfree_locked_def Let_def by (auto split: if_splits)

end
