(* ===== verification/Sched.thy ===== *)
theory Sched
  imports Kroot
begin

text \<open>
  Threads and the scheduler (\<^verbatim>\<open>kernel/sched/thread.c\<close>, \<^verbatim>\<open>kernel/sched/sched.c\<close>).  A thread structure
  lives at its address; \<open>thr\<close> is the memory behind those pointers and \<open>alive\<close> says which of
  them are allocated.  A dereference of any other pointer is a fault (\<open>None\<close>), and so is a
  panic or a loop that does not end.  The contents of a fresh allocation are what the memory held
  before.  The queues are linked through the thread structures as in the C code.

  Code that runs under \<^verbatim>\<open>rq_lock\<close> is atomic.  Every operation that uses the executing processor
  takes its local APIC identifier as argument.  \<open>stk\<close> is the memory of the kernel stacks by
  64-bit words, \<open>tss_rsp0\<close> the stack field of the one task state segment and \<open>cpu_cr3\<close> the page
  table register of each processor.  The end-of-interrupt write, the installation of the
  interrupt gate, the GS base and the serial messages are left out.
\<close>

subsection \<open>State\<close>

datatype thread_state = THREAD_READY | THREAD_RUNNING | THREAD_BLOCKED | THREAD_DEAD

record thread =
  rsp :: u64
  kstack :: u64
  kstack_size :: u64
  kstack_top :: u64
  state :: thread_state
  tid :: u32
  is_idle :: bool
  is_user :: bool
  on_cpu :: bool
  th_cr3 :: u64
  run_next :: u64
  wait_next :: u64
  sleep_next :: u64
  sleep_deadline :: u64
  process :: u64

record sched =
  sc_heap :: heap
  thr :: "u64 \<Rightarrow> thread"
  alive :: "u64 \<Rightarrow> bool"
  stk :: "u64 \<Rightarrow> u64"
  next_tid :: u32
  rq_head :: u64
  rq_tail :: u64
  g_ticks :: u64
  sleep_head :: u64
  cpu_current :: "nat \<Rightarrow> u64"
  cpu_idle :: "nat \<Rightarrow> u64"
  reap_pending :: "nat \<Rightarrow> u64"
  tss_rsp0 :: u64
  kernel_rsp :: "nat \<Rightarrow> u64"
  cpu_cr3 :: "nat \<Rightarrow> u64"

definition MAX_CPUS :: u32 where "MAX_CPUS = 64"
definition THREAD_SIZE :: u64 where "THREAD_SIZE = 96"
definition THREAD_KSTACK_SIZE :: u64 where "THREAD_KSTACK_SIZE = 65536"

definition tget :: "u64 \<Rightarrow> sched \<Rightarrow> thread option" where
  "tget t s = (if alive s t then Some (thr s t) else None)"

definition tset :: "u64 \<Rightarrow> (thread \<Rightarrow> thread) \<Rightarrow> sched \<Rightarrow> sched option" where
  "tset t f s = (if alive s t then Some (s\<lparr>thr := (thr s)(t := f (thr s t))\<rparr>) else None)"

definition sc_kmalloc :: "u64 \<Rightarrow> sched \<Rightarrow> (u64 \<times> sched) option" where
  "sc_kmalloc n s = do { (p, h) \<leftarrow> kmalloc n (sc_heap s); Some (p, s\<lparr>sc_heap := h\<rparr>) }"

definition sc_kfree :: "u64 \<Rightarrow> sched \<Rightarrow> sched option" where
  "sc_kfree p s = do { h \<leftarrow> kfree p (sc_heap s); Some (s\<lparr>sc_heap := h\<rparr>) }"

subsection \<open>The run queue\<close>

definition rq_add :: "u64 \<Rightarrow> sched \<Rightarrow> sched option" where
  "rq_add t s = do {
     s \<leftarrow> tset t (\<lambda>x. x\<lparr>run_next := 0\<rparr>) s;
     s \<leftarrow> (if rq_tail s \<noteq> 0 then tset (rq_tail s) (\<lambda>x. x\<lparr>run_next := t\<rparr>) s else Some (s\<lparr>rq_head := t\<rparr>));
     Some (s\<lparr>rq_tail := t\<rparr>) }"

definition rq_take :: "sched \<Rightarrow> (u64 \<times> sched) option" where
  "rq_take s =
     (if rq_head s = 0 then Some (0, s) else do {
        let t = rq_head s;
        x \<leftarrow> tget t s;
        let s = s\<lparr>rq_head := run_next x\<rparr>;
        let s = (if rq_head s = 0 then s\<lparr>rq_tail := 0\<rparr> else s);
        s \<leftarrow> tset t (\<lambda>x. x\<lparr>run_next := 0\<rparr>) s;
        Some (t, s) })"

definition sched_add :: "u64 \<Rightarrow> sched \<Rightarrow> sched option" where
  "sched_add t s = rq_add t s"

subsection \<open>Threads\<close>

definition alloc_thread :: "sched \<Rightarrow> (u64 \<times> sched) option" where
  "alloc_thread s = do {
     (t, s) \<leftarrow> sc_kmalloc THREAD_SIZE s;
     if t = 0 then None else
     Some (t, s\<lparr>alive := (alive s)(t := True),
       thr := (thr s)(t := (thr s t)\<lparr>rsp := 0, kstack := 0, kstack_size := 0, kstack_top := 0,
         state := THREAD_READY, tid := next_tid s, is_idle := False, is_user := False, th_cr3 := 0,
         run_next := 0, wait_next := 0, on_cpu := False\<rparr>),
       next_tid := next_tid s + 1\<rparr>) }"

text \<open>The stack of a new thread.\<close>

definition alloc_kstack :: "u64 \<Rightarrow> sched \<Rightarrow> (u64 \<times> sched) option" where
  "alloc_kstack t s = do {
     s \<leftarrow> tset t (\<lambda>x. x\<lparr>kstack_size := THREAD_KSTACK_SIZE\<rparr>) s;
     (k, s) \<leftarrow> sc_kmalloc THREAD_KSTACK_SIZE s;
     s \<leftarrow> tset t (\<lambda>x. x\<lparr>kstack := k\<rparr>) s;
     if k = 0 then None else do {
     s \<leftarrow> tset t (\<lambda>x. x\<lparr>kstack_top := k + THREAD_KSTACK_SIZE\<rparr>) s;
     Some (k + THREAD_KSTACK_SIZE, s) } }"

definition FRAME_QWORDS :: nat where "FRAME_QWORDS = 20"

text \<open>Words of the initial frame, by index.\<close>

definition put_frame :: "u64 \<Rightarrow> (nat \<times> u64) list \<Rightarrow> sched \<Rightarrow> sched" where
  "put_frame fr vs s = s\<lparr>stk := fold (\<lambda>(i, v) m. m(fr + 8 * of_nat i := v)) vs (stk s)\<rparr>"

definition zero_frame :: "u64 \<Rightarrow> sched \<Rightarrow> sched" where
  "zero_frame fr s = put_frame fr (map (\<lambda>i. (i, 0)) [0..<FRAME_QWORDS]) s"

definition thread_create :: "u64 \<Rightarrow> u64 \<Rightarrow> u64 \<Rightarrow> sched \<Rightarrow> (u64 \<times> sched) option" where
  "thread_create trampoline fn arg s = do {
     (t, s) \<leftarrow> alloc_thread s;
     (stack_top, s) \<leftarrow> alloc_kstack t s;
     let frame = stack_top - 8 * of_nat FRAME_QWORDS;
     let s = zero_frame frame s;
     let s = put_frame frame [(8, fn), (9, arg), (15, trampoline), (16, 0x08), (17, 0x202), (18, stack_top), (19, 0x10)] s;
     s \<leftarrow> tset t (\<lambda>x. x\<lparr>rsp := frame\<rparr>) s;
     s \<leftarrow> sched_add t s;
     Some (t, s) }"

definition thread_create_current :: "sched \<Rightarrow> (u64 \<times> sched) option" where
  "thread_create_current s = do {
     (t, s) \<leftarrow> alloc_thread s;
     s \<leftarrow> tset t (\<lambda>x. x\<lparr>state := THREAD_RUNNING\<rparr>) s;
     Some (t, s) }"

definition thread_create_idle :: "sched \<Rightarrow> (u64 \<times> sched) option" where
  "thread_create_idle s = do {
     (t, s) \<leftarrow> alloc_thread s;
     (_, s) \<leftarrow> alloc_kstack t s;
     s \<leftarrow> tset t (\<lambda>x. x\<lparr>is_idle := True, state := THREAD_RUNNING\<rparr>) s;
     Some (t, s) }"

definition thread_create_user :: "u64 \<Rightarrow> u64 \<Rightarrow> u64 \<Rightarrow> sched \<Rightarrow> (u64 \<times> sched) option" where
  "thread_create_user entry_rip usp root s = do {
     (t, s) \<leftarrow> alloc_thread s;
     (stack_top, s) \<leftarrow> alloc_kstack t s;
     s \<leftarrow> tset t (\<lambda>x. x\<lparr>is_user := True, th_cr3 := root\<rparr>) s;
     let frame = stack_top - 8 * of_nat FRAME_QWORDS;
     let s = zero_frame frame s;
     let s = put_frame frame [(15, entry_rip), (16, 0x33), (17, 0x202), (18, usp), (19, 0x2b)] s;
     s \<leftarrow> tset t (\<lambda>x. x\<lparr>rsp := frame\<rparr>) s;
     Some (t, s) }"

subsection \<open>Scheduling\<close>

definition current_cpu_id :: "u32 \<Rightarrow> nat option" where
  "current_cpu_id lapic = (if lapic \<ge> MAX_CPUS then None else Some (unat lapic))"

definition sched_current :: "u32 \<Rightarrow> sched \<Rightarrow> u64 option" where
  "sched_current lapic s = do { cpu \<leftarrow> current_cpu_id lapic; Some (cpu_current s cpu) }"

definition sched_current_process :: "u32 \<Rightarrow> sched \<Rightarrow> u64 option" where
  "sched_current_process lapic s = do {
     t \<leftarrow> sched_current lapic s;
     if t = 0 then Some 0 else do { x \<leftarrow> tget t s; Some (process x) } }"

definition sched_init :: "u32 \<Rightarrow> sched \<Rightarrow> sched option" where
  "sched_init lapic s = do {
     (bsp, s) \<leftarrow> thread_create_current s;
     cpu \<leftarrow> current_cpu_id lapic;
     let s = s\<lparr>cpu_current := (cpu_current s)(cpu := bsp)\<rparr>;
     s \<leftarrow> tset bsp (\<lambda>x. x\<lparr>on_cpu := True\<rparr>) s;
     (idle, s) \<leftarrow> thread_create_idle s;
     Some (s\<lparr>cpu_idle := (cpu_idle s)(cpu := idle)\<rparr>) }"

text \<open>
  The waker waits until the thread has left its processor; \<open>sched_wake\<close> is what happens then.
\<close>

definition sched_wake_waits :: "u64 \<Rightarrow> sched \<Rightarrow> bool" where
  "sched_wake_waits t s = on_cpu (thr s t)"

definition sched_wake :: "u64 \<Rightarrow> sched \<Rightarrow> sched option" where
  "sched_wake t s = do {
     s \<leftarrow> tset t (\<lambda>x. x\<lparr>state := THREAD_READY\<rparr>) s;
     rq_add t s }"

text \<open>The thread that died on this processor before the last switch.\<close>

definition sched_reap :: "nat \<Rightarrow> sched \<Rightarrow> sched option" where
  "sched_reap cpu s =
     (if reap_pending s cpu \<noteq> 0 then do {
        let dead = reap_pending s cpu;
        let s = s\<lparr>reap_pending := (reap_pending s)(cpu := 0)\<rparr>;
        x \<leftarrow> tget dead s;
        s \<leftarrow> (if is_user x \<and> th_cr3 x \<noteq> 0 then do {
            mm \<leftarrow> vmm_space_destroy (th_cr3 x) (hp_mm (sc_heap s));
            tset dead (\<lambda>x. x\<lparr>th_cr3 := 0\<rparr>) (s\<lparr>sc_heap := (sc_heap s)\<lparr>hp_mm := mm\<rparr>\<rparr>)
          } else Some s);
        s \<leftarrow> sc_kfree (kstack x) s;
        s \<leftarrow> sc_kfree dead s;
        Some (s\<lparr>alive := (alive s)(dead := False)\<rparr>)
      } else Some s)"

text \<open>
  The pointer into the list of sleepers: \<open>sp\<close> is 0 for the head of the list and otherwise the
  thread whose link is meant.
\<close>

definition sleep_link :: "u64 \<Rightarrow> sched \<Rightarrow> u64 option" where
  "sleep_link sp s = (if sp = 0 then Some (sleep_head s) else do { x \<leftarrow> tget sp s; Some (sleep_next x) })"

definition set_sleep_link :: "u64 \<Rightarrow> u64 \<Rightarrow> sched \<Rightarrow> sched option" where
  "set_sleep_link sp t s =
     (if sp = 0 then Some (s\<lparr>sleep_head := t\<rparr>) else tset sp (\<lambda>x. x\<lparr>sleep_next := t\<rparr>) s)"

partial_function (option) wake_sleepers :: "u64 \<Rightarrow> sched \<Rightarrow> sched option" where
  "wake_sleepers sp s = do {
     st \<leftarrow> sleep_link sp s;
     if st = 0 then Some s else do {
     x \<leftarrow> tget st s;
     if sleep_deadline x \<le> g_ticks s then do {
       s \<leftarrow> set_sleep_link sp (sleep_next x) s;
       s \<leftarrow> tset st (\<lambda>x. x\<lparr>sleep_next := 0, state := THREAD_READY\<rparr>) s;
       s \<leftarrow> rq_add st s;
       wake_sleepers sp s
     } else wake_sleepers st s } }"

definition sched_requeue :: "nat \<Rightarrow> u64 \<Rightarrow> sched \<Rightarrow> sched option" where
  "sched_requeue cpu cur s = do {
     x \<leftarrow> tget cur s;
     if state x = THREAD_RUNNING \<and> \<not> is_idle x then do {
       s \<leftarrow> tset cur (\<lambda>x. x\<lparr>state := THREAD_READY\<rparr>) s;
       rq_add cur s
     } else if state x = THREAD_DEAD then Some (s\<lparr>reap_pending := (reap_pending s)(cpu := cur)\<rparr>)
     else Some s }"

definition sched_pick :: "nat \<Rightarrow> u64 \<Rightarrow> sched \<Rightarrow> (u64 \<times> sched) option" where
  "sched_pick cpu cur s = do {
     (nxt, s) \<leftarrow> rq_take s;
     let nxt = (if nxt = 0 then cpu_idle s cpu else nxt);
     s \<leftarrow> tset nxt (\<lambda>x. x\<lparr>state := THREAD_RUNNING\<rparr>) s;
     s \<leftarrow> (if cur \<noteq> nxt then tset cur (\<lambda>x. x\<lparr>on_cpu := False\<rparr>) s else Some s);
     s \<leftarrow> tset nxt (\<lambda>x. x\<lparr>on_cpu := True\<rparr>) s;
     Some (nxt, s\<lparr>cpu_current := (cpu_current s)(cpu := nxt)\<rparr>) }"

definition sched_enter :: "nat \<Rightarrow> u64 \<Rightarrow> sched \<Rightarrow> (u64 \<times> sched) option" where
  "sched_enter cpu nxt s = do {
     x \<leftarrow> tget nxt s;
     let s = (if is_user x \<and> th_cr3 x \<noteq> 0 then
         s\<lparr>tss_rsp0 := kstack_top x, kernel_rsp := (kernel_rsp s)(cpu := kstack_top x),
           cpu_cr3 := (cpu_cr3 s)(cpu := th_cr3 x)\<rparr>
       else s\<lparr>cpu_cr3 := (cpu_cr3 s)(cpu := vmm_pml4_phys (hp_mm (sc_heap s)))\<rparr>);
     Some (rsp x, s) }"

definition sched_tick :: "u32 \<Rightarrow> u64 \<Rightarrow> sched \<Rightarrow> (u64 \<times> sched) option" where
  "sched_tick lapic old_rsp s = do {
     cpu \<leftarrow> current_cpu_id lapic;
     s \<leftarrow> sched_reap cpu s;
     let cur = cpu_current s cpu;
     s \<leftarrow> tset cur (\<lambda>x. x\<lparr>rsp := old_rsp\<rparr>) s;
     let s = s\<lparr>g_ticks := g_ticks s + 1\<rparr>;
     s \<leftarrow> wake_sleepers 0 s;
     s \<leftarrow> sched_requeue cpu cur s;
     (nxt, s) \<leftarrow> sched_pick cpu cur s;
     sched_enter cpu nxt s }"

text \<open>
  The part of \<^verbatim>\<open>sched_sleep_ms\<close> under the lock; then the thread gives up the processor through the
  timer's interrupt vector.  The answer is false when the caller does not sleep.
\<close>

definition sleep_enqueue :: "u32 \<Rightarrow> u64 \<Rightarrow> sched \<Rightarrow> (bool \<times> sched) option" where
  "sleep_enqueue lapic ms s = do {
     t \<leftarrow> sched_current lapic s;
     if t = 0 then Some (False, s) else do {
     x \<leftarrow> tget t s;
     if is_idle x then Some (False, s) else do {
     s \<leftarrow> tset t (\<lambda>x. x\<lparr>sleep_deadline := g_ticks s + ms, state := THREAD_BLOCKED, sleep_next := sleep_head s\<rparr>) s;
     Some (True, s\<lparr>sleep_head := t\<rparr>) } } }"

definition sched_sleep_ms :: "u32 \<Rightarrow> u64 \<Rightarrow> u64 \<Rightarrow> sched \<Rightarrow> (u64 \<times> sched) option" where
  "sched_sleep_ms lapic ms old_rsp s = do {
     (sleeps, s) \<leftarrow> sleep_enqueue lapic ms s;
     if sleeps then sched_tick lapic old_rsp s else Some (old_rsp, s) }"

definition sched_ap_prepare :: "u32 \<Rightarrow> sched \<Rightarrow> sched option" where
  "sched_ap_prepare cpu_id s =
     (if cpu_id \<ge> MAX_CPUS then Some s else do {
        (idle, s) \<leftarrow> thread_create_idle s;
        Some (s\<lparr>cpu_idle := (cpu_idle s)(unat cpu_id := idle)\<rparr>) })"

definition sched_ap_enter :: "u32 \<Rightarrow> sched \<Rightarrow> sched option" where
  "sched_ap_enter lapic s = do {
     cpu \<leftarrow> current_cpu_id lapic;
     s \<leftarrow> (if cpu_idle s cpu = 0 then do {
         (idle, s) \<leftarrow> thread_create_idle s;
         Some (s\<lparr>cpu_idle := (cpu_idle s)(cpu := idle)\<rparr>)
       } else Some s);
     let idle = cpu_idle s cpu;
     let s = s\<lparr>cpu_current := (cpu_current s)(cpu := idle)\<rparr>;
     tset idle (\<lambda>x. x\<lparr>on_cpu := True\<rparr>) s }"

definition thread_exit :: "u32 \<Rightarrow> u64 \<Rightarrow> sched \<Rightarrow> (u64 \<times> sched) option" where
  "thread_exit lapic old_rsp s = do {
     t \<leftarrow> sched_current lapic s;
     s \<leftarrow> tset t (\<lambda>x. x\<lparr>state := THREAD_DEAD\<rparr>) s;
     sched_tick lapic old_rsp s }"

definition thread_yield :: "u32 \<Rightarrow> u64 \<Rightarrow> sched \<Rightarrow> (u64 \<times> sched) option" where
  "thread_yield lapic old_rsp s = sched_tick lapic old_rsp s"

end
