(* ===== verification/Schedspec.thy ===== *)
theory Schedspec
  imports Sched
begin

text \<open>
  What the scheduler does, on lists: an abstract scheduler whose run queue and list of sleepers
  are lists of threads, and the proof that the linked lists of the code implement it.
\<close>

subsection \<open>Linked lists\<close>

fun chain :: "(u64 \<Rightarrow> u64) \<Rightarrow> u64 \<Rightarrow> u64 list \<Rightarrow> bool" where
  "chain nx p [] \<longleftrightarrow> p = 0"
| "chain nx p (x # xs) \<longleftrightarrow> p = x \<and> x \<noteq> 0 \<and> chain nx (nx x) xs"

lemma last_notin_butlast: "distinct xs \<Longrightarrow> last xs \<notin> set (butlast xs)"
  by (cases xs rule: rev_cases) auto

lemma chain_cong: "(\<And>x. x \<in> set xs \<Longrightarrow> nx x = ny x) \<Longrightarrow> chain nx p xs = chain ny p xs"
  by (induction xs arbitrary: p) auto

lemma chain_unique: "chain nx p xs \<Longrightarrow> chain nx p ys \<Longrightarrow> xs = ys"
proof (induction xs arbitrary: p ys)
  case Nil
  then show ?case by (cases ys) auto
next
  case (Cons x xs)
  then show ?case by (cases ys) auto
qed

lemma chain_suffix: "chain nx p (us @ x # vs) \<Longrightarrow> chain nx x (x # vs)"
  by (induction us arbitrary: p) auto

lemma chain_distinct: "chain nx p xs \<Longrightarrow> distinct xs"
proof (induction xs arbitrary: p)
  case (Cons x xs)
  have "x \<notin> set xs"
  proof
    assume "x \<in> set xs"
    then obtain us vs where xs: "xs = us @ x # vs" by (meson split_list)
    then have "chain nx x (x # vs)" using Cons.prems chain_suffix [of nx "nx x" us x vs] by simp
    then have "x # xs = x # vs" using Cons.prems chain_unique by auto
    then show False using xs by simp
  qed
  then show ?case using Cons by auto
qed simp

lemma chain_zero: "chain nx p xs \<Longrightarrow> 0 \<notin> set xs"
  by (induction xs arbitrary: p) auto

lemma chain_snoc:
  assumes "chain nx p xs" "t \<notin> set xs" "t \<noteq> 0"
    and "\<And>x. x \<in> set (butlast xs) \<Longrightarrow> ny x = nx x" "xs \<noteq> [] \<Longrightarrow> ny (last xs) = t" "ny t = 0"
  shows "chain ny (if xs = [] then t else p) (xs @ [t])"
  using assms
proof (induction xs arbitrary: p)
  case (Cons x xs)
  have "chain ny (if xs = [] then t else nx x) (xs @ [t])"
    using Cons by (intro Cons.IH) (auto split: if_splits)
  moreover have "ny x = (if xs = [] then t else nx x)" using Cons.prems by (auto split: if_splits)
  ultimately show ?case using Cons.prems by auto
qed simp

lemma chain_unlink:
  assumes "chain nx p (us @ x # vs)" "\<And>y. y \<in> set (butlast us @ vs) \<Longrightarrow> ny y = nx y"
    "us \<noteq> [] \<Longrightarrow> ny (last us) = nx x"
  shows "chain ny (if us = [] then nx x else p) (us @ vs)"
  using assms
proof (induction us arbitrary: p)
  case Nil
  then show ?case using chain_cong [of vs ny nx] by auto
next
  case (Cons u us)
  have "chain ny (if us = [] then nx x else nx u) (us @ vs)"
    using Cons by (intro Cons.IH) (auto split: if_splits)
  moreover have "ny u = (if us = [] then nx x else nx u)" using Cons.prems by (auto split: if_splits)
  ultimately show ?case using Cons.prems by auto
qed

lemma chain_link: "chain nx p (us @ vs) \<Longrightarrow> (if us = [] then p else nx (last us)) = (case vs of [] \<Rightarrow> 0 | v # _ \<Rightarrow> v)"
  by (induction us arbitrary: p) (auto split: list.split if_splits)

subsection \<open>The abstract scheduler\<close>

text \<open>Threads are compared without their links.\<close>

definition bare :: "thread \<Rightarrow> thread" where
  "bare x = x\<lparr>run_next := 0, sleep_next := 0\<rparr>"

lemma bare_sel [simp]:
  "rsp (bare x) = rsp x" "kstack (bare x) = kstack x" "kstack_top (bare x) = kstack_top x" "state (bare x) = state x"
  "tid (bare x) = tid x" "is_idle (bare x) = is_idle x" "is_user (bare x) = is_user x" "on_cpu (bare x) = on_cpu x"
  "th_cr3 (bare x) = th_cr3 x" "wait_next (bare x) = wait_next x" "sleep_deadline (bare x) = sleep_deadline x"
  "process (bare x) = process x"
  by (simp_all add: bare_def)

record asched =
  runq :: "u64 list"
  sleepq :: "u64 list"
  ticks :: u64
  ath :: "u64 \<Rightarrow> thread"
  aalive :: "u64 \<Rightarrow> bool"
  acur :: "nat \<Rightarrow> u64"
  aidle :: "nat \<Rightarrow> u64"
  areap :: "nat \<Rightarrow> u64"
  aheap :: heap

definition aset :: "u64 \<Rightarrow> (thread \<Rightarrow> thread) \<Rightarrow> asched \<Rightarrow> asched" where
  "aset t f a = a\<lparr>ath := (ath a)(t := f (ath a t))\<rparr>"

lemma aset_sel [simp]:
  "runq (aset t f a) = runq a" "sleepq (aset t f a) = sleepq a" "ticks (aset t f a) = ticks a"
  "aalive (aset t f a) = aalive a" "acur (aset t f a) = acur a" "aidle (aset t f a) = aidle a"
  "areap (aset t f a) = areap a" "aheap (aset t f a) = aheap a" "ath (aset t f a) = (ath a)(t := f (ath a t))"
  by (simp_all add: aset_def)

definition aenq :: "u64 \<Rightarrow> asched \<Rightarrow> asched" where
  "aenq t a = a\<lparr>runq := runq a @ [t]\<rparr>"

lemma aenq_sel [simp]:
  "runq (aenq t a) = runq a @ [t]" "sleepq (aenq t a) = sleepq a" "ticks (aenq t a) = ticks a"
  "aalive (aenq t a) = aalive a" "acur (aenq t a) = acur a" "aidle (aenq t a) = aidle a"
  "areap (aenq t a) = areap a" "aheap (aenq t a) = aheap a" "ath (aenq t a) = ath a"
  by (simp_all add: aenq_def)

definition due :: "asched \<Rightarrow> u64 \<Rightarrow> bool" where
  "due a t \<longleftrightarrow> sleep_deadline (ath a t) \<le> ticks a"

definition awake :: "u64 list \<Rightarrow> u64 list \<Rightarrow> asched \<Rightarrow> asched" where
  "awake ds xs a = a\<lparr>sleepq := ds @ filter (\<lambda>t. \<not> due a t) xs, runq := runq a @ filter (due a) xs,
     ath := (\<lambda>t. if t \<in> set xs \<and> due a t then (ath a t)\<lparr>state := THREAD_READY\<rparr> else ath a t)\<rparr>"

definition areap_dead :: "nat \<Rightarrow> asched \<Rightarrow> asched option" where
  "areap_dead c a =
     (if areap a c = 0 then Some a else do {
        let d = areap a c;
        let x = ath a d;
        let h = aheap a;
        h \<leftarrow> (if is_user x \<and> th_cr3 x \<noteq> 0
             then do { mm \<leftarrow> vmm_space_destroy (th_cr3 x) (hp_mm h); Some (h\<lparr>hp_mm := mm\<rparr>) } else Some h);
        h \<leftarrow> kfree (kstack x) h;
        h \<leftarrow> kfree d h;
        Some (a\<lparr>areap := (areap a)(c := 0), aalive := (aalive a)(d := False), aheap := h,
          ath := (ath a)(d := (if is_user x \<and> th_cr3 x \<noteq> 0 then x\<lparr>th_cr3 := 0\<rparr> else x))\<rparr>) })"

definition arequeue :: "nat \<Rightarrow> asched \<Rightarrow> asched" where
  "arequeue c a =
     (let t = acur a c; x = ath a t
      in if state x = THREAD_RUNNING \<and> \<not> is_idle x then aenq t (aset t (\<lambda>x. x\<lparr>state := THREAD_READY\<rparr>) a)
         else if state x = THREAD_DEAD then a\<lparr>areap := (areap a)(c := t)\<rparr> else a)"

definition achosen :: "nat \<Rightarrow> asched \<Rightarrow> u64" where
  "achosen c a = (case runq a of [] \<Rightarrow> aidle a c | t # _ \<Rightarrow> t)"

definition apick :: "nat \<Rightarrow> asched \<Rightarrow> asched" where
  "apick c a =
     (let t = acur a c; n = achosen c a; a = a\<lparr>runq := tl (runq a)\<rparr>;
          a = aset n (\<lambda>x. x\<lparr>state := THREAD_RUNNING\<rparr>) a;
          a = (if t \<noteq> n then aset t (\<lambda>x. x\<lparr>on_cpu := False\<rparr>) a else a);
          a = aset n (\<lambda>x. x\<lparr>on_cpu := True\<rparr>) a
      in a\<lparr>acur := (acur a)(c := n)\<rparr>)"

definition atick :: "nat \<Rightarrow> u64 \<Rightarrow> asched \<Rightarrow> asched option" where
  "atick c r a = do {
     a \<leftarrow> areap_dead c a;
     let a = aset (acur a c) (\<lambda>x. x\<lparr>rsp := r\<rparr>) a;
     let a = a\<lparr>ticks := ticks a + 1\<rparr>;
     let a = awake [] (sleepq a) a;
     let a = arequeue c a;
     Some (apick c a) }"

subsection \<open>The representation\<close>

definition srep :: "sched \<Rightarrow> asched \<Rightarrow> bool" where
  "srep s a \<longleftrightarrow> chain (\<lambda>t. run_next (thr s t)) (rq_head s) (runq a) \<and>
     rq_tail s = (if runq a = [] then 0 else last (runq a)) \<and>
     chain (\<lambda>t. sleep_next (thr s t)) (sleep_head s) (sleepq a) \<and>
     g_ticks s = ticks a \<and> (\<forall>t. bare (thr s t) = ath a t) \<and> alive s = aalive a \<and>
     cpu_current s = acur a \<and> cpu_idle s = aidle a \<and> reap_pending s = areap a \<and> sc_heap s = aheap a"

lemma srepD:
  assumes "srep s a"
  shows "chain (\<lambda>t. run_next (thr s t)) (rq_head s) (runq a)" "rq_tail s = (if runq a = [] then 0 else last (runq a))"
    "chain (\<lambda>t. sleep_next (thr s t)) (sleep_head s) (sleepq a)" "g_ticks s = ticks a" "bare (thr s t) = ath a t"
    "alive s = aalive a" "cpu_current s = acur a" "cpu_idle s = aidle a" "reap_pending s = areap a" "sc_heap s = aheap a"
    "distinct (runq a)" "distinct (sleepq a)" "0 \<notin> set (runq a)" "0 \<notin> set (sleepq a)"
  using assms chain_distinct chain_zero unfolding srep_def by blast+

text \<open>The fields of a thread that the abstraction keeps.\<close>

lemma srep_sel:
  assumes "srep s a"
  shows "rsp (ath a t) = rsp (thr s t)" "kstack (ath a t) = kstack (thr s t)" "state (ath a t) = state (thr s t)"
    "is_idle (ath a t) = is_idle (thr s t)" "is_user (ath a t) = is_user (thr s t)" "on_cpu (ath a t) = on_cpu (thr s t)"
    "th_cr3 (ath a t) = th_cr3 (thr s t)" "sleep_deadline (ath a t) = sleep_deadline (thr s t)"
    "wait_next (ath a t) = wait_next (thr s t)" "kstack_top (ath a t) = kstack_top (thr s t)"
  using srepD(5) [OF assms, of t, symmetric] by simp_all

lemma tset_rep:
  assumes r: "srep s a" and al: "aalive a t"
    and f: "\<And>x. run_next (f x) = run_next x" "\<And>x. sleep_next (f x) = sleep_next x" "\<And>x. bare (f x) = f (bare x)"
  obtains s' where "tset t f s = Some s'" "srep s' (aset t f a)"
proof
  let ?s = "s\<lparr>thr := (thr s)(t := f (thr s t))\<rparr>"
  show "tset t f s = Some ?s" using al srepD(6) [OF r] by (simp add: tset_def)
  have "run_next (thr ?s x) = run_next (thr s x)" "sleep_next (thr ?s x) = sleep_next (thr s x)" for x
    using f(1,2) by simp_all
  then show "srep ?s (aset t f a)" using r f(3) by (auto simp: srep_def)
qed

text \<open>A change of the links of the run queue only.\<close>

lemma srep_runq:
  assumes r: "srep s a" and eq: "\<And>x. bare (m x) = bare (thr s x)" "\<And>x. sleep_next (m x) = sleep_next (thr s x)"
    and q: "chain (\<lambda>x. run_next (m x)) h q" "tp = (if q = [] then 0 else last q)"
  shows "srep (s\<lparr>thr := m, rq_head := h, rq_tail := tp\<rparr>) (a\<lparr>runq := q\<rparr>)"
  using srepD [OF r] eq q by (simp add: srep_def)

lemma rq_add_rep:
  assumes r: "srep s a" and t: "aalive a t" "t \<noteq> 0" "t \<notin> set (runq a)" and al: "\<And>x. x \<in> set (runq a) \<Longrightarrow> aalive a x"
  obtains s' where "rq_add t s = Some s'" "srep s' (aenq t a)"
proof -
  note R = srepD [OF r]
  let ?l = "last (runq a)"
  show ?thesis
  proof (cases "runq a = []")
    case True
    let ?m = "(thr s)(t := (thr s t)\<lparr>run_next := 0\<rparr>)"
    have "rq_add t s = Some (s\<lparr>thr := ?m, rq_head := t, rq_tail := t\<rparr>)"
      using True R(2,6) t by (simp add: rq_add_def tset_def)
    moreover have "srep (s\<lparr>thr := ?m, rq_head := t, rq_tail := t\<rparr>) (a\<lparr>runq := [t]\<rparr>)"
      by (rule srep_runq [OF r]) (use t(2) in \<open>simp_all add: bare_def\<close>)
    ultimately show ?thesis using that True by (simp add: aenq_def)
  next
    case False
    then have l: "?l \<in> set (runq a)" by simp
    then have l2: "?l \<noteq> t" "?l \<noteq> 0" using t(3) R(13) by metis+
    let ?m = "(thr s)(t := (thr s t)\<lparr>run_next := 0\<rparr>, ?l := (thr s ?l)\<lparr>run_next := t\<rparr>)"
    have "rq_add t s = Some (s\<lparr>thr := ?m, rq_head := rq_head s, rq_tail := t\<rparr>)"
      using False R(2,6) t al [OF l] l2 by (simp add: rq_add_def tset_def)
    moreover have "chain (\<lambda>x. run_next (?m x)) (if runq a = [] then t else rq_head s) (runq a @ [t])"
    proof (rule chain_snoc [OF R(1) t(3,2)])
      fix x assume x: "x \<in> set (butlast (runq a))"
      have "x \<noteq> ?l" using x last_notin_butlast [OF R(11)] by auto
      moreover have "x \<noteq> t" using x t(3) in_set_butlastD by metis
      ultimately show "run_next (?m x) = run_next (thr s x)" by simp
    qed (use l2 in simp_all)
    then have "srep (s\<lparr>thr := ?m, rq_head := rq_head s, rq_tail := t\<rparr>) (a\<lparr>runq := runq a @ [t]\<rparr>)"
      using False by (intro srep_runq [OF r]) (simp_all add: bare_def)
    ultimately show ?thesis using that by (simp add: aenq_def)
  qed
qed

lemma rq_take_rep:
  assumes r: "srep s a" and al: "\<And>x. x \<in> set (runq a) \<Longrightarrow> aalive a x"
  obtains s' where "rq_take s = Some (case runq a of [] \<Rightarrow> 0 | t # _ \<Rightarrow> t, s')" "srep s' (a\<lparr>runq := tl (runq a)\<rparr>)"
proof -
  note R = srepD [OF r]
  show ?thesis
  proof (cases "runq a")
    case Nil
    then have "rq_head s = 0" using R(1) by simp
    then show ?thesis using that [of s] r Nil by (simp add: rq_take_def srep_def)
  next
    case (Cons t q)
    then have h: "rq_head s = t" "t \<noteq> 0" "chain (\<lambda>t. run_next (thr s t)) (run_next (thr s t)) q" "t \<notin> set q"
      using R(1,11) by auto
    have z: "run_next (thr s t) = 0 \<longleftrightarrow> q = []" using h(3) by (cases q) auto
    let ?m = "(thr s)(t := (thr s t)\<lparr>run_next := 0\<rparr>)" and ?tl = "if q = [] then 0 else rq_tail s"
    have "alive s t" using al [of t] Cons R(6) by simp
    then have "rq_take s = Some (t, s\<lparr>thr := ?m, rq_head := run_next (thr s t), rq_tail := ?tl\<rparr>)"
      using h(1,2) z by (cases "q = []") (simp_all add: rq_take_def tget_def tset_def)
    moreover have "chain (\<lambda>x. run_next (?m x)) (run_next (thr s t)) q"
      using h(3) by (rule chain_cong [THEN iffD2, rotated]) (use h(4) in auto)
    then have "srep (s\<lparr>thr := ?m, rq_head := run_next (thr s t), rq_tail := ?tl\<rparr>) (a\<lparr>runq := q\<rparr>)"
      using Cons R(2) by (intro srep_runq [OF r]) (simp_all add: bare_def)
    ultimately show ?thesis using that Cons by simp
  qed
qed

lemma sleep_linkE:
  assumes r: "srep s a" and q: "sleepq a = ds @ xs" and al: "\<And>x. x \<in> set ds \<Longrightarrow> aalive a x"
  shows "sleep_link (if ds = [] then 0 else last ds) s = Some (case xs of [] \<Rightarrow> 0 | x # _ \<Rightarrow> x)"
proof (cases "ds = []")
  case True
  then show ?thesis using srepD(3) [OF r] q by (cases xs) (auto simp: sleep_link_def)
next
  case False
  then have l: "last ds \<in> set ds" by simp
  have "last ds \<noteq> 0" "alive s (last ds)" using srepD(6,14) [OF r] q al [OF l] l by auto
  moreover have "sleep_next (thr s (last ds)) = (case xs of [] \<Rightarrow> 0 | x # _ \<Rightarrow> x)"
    using chain_link [of "\<lambda>t. sleep_next (thr s t)" "sleep_head s" ds xs] srepD(3) [OF r] q False by simp
  ultimately show ?thesis using False by (simp add: sleep_link_def tget_def)
qed

lemma unlink_rep:
  assumes r: "srep s a" and q: "sleepq a = ds @ x # xs" and al: "\<And>y. y \<in> set (ds @ [x]) \<Longrightarrow> aalive a y"
  obtains s1 s2 where "set_sleep_link (if ds = [] then 0 else last ds) (sleep_next (thr s x)) s = Some s1"
    "tset x (\<lambda>x. x\<lparr>sleep_next := 0, state := THREAD_READY\<rparr>) s1 = Some s2"
    "srep s2 (aset x (\<lambda>x. x\<lparr>state := THREAD_READY\<rparr>) (a\<lparr>sleepq := ds @ xs\<rparr>))"
proof -
  note R = srepD [OF r]
  let ?nx = "sleep_next (thr s x)" and ?l = "last ds"
  let ?m1 = "if ds = [] then thr s else (thr s)(?l := (thr s ?l)\<lparr>sleep_next := ?nx\<rparr>)"
  let ?h1 = "if ds = [] then ?nx else sleep_head s"
  let ?m2 = "?m1(x := (?m1 x)\<lparr>sleep_next := 0, state := THREAD_READY\<rparr>)"
  have d: "distinct (ds @ x # xs)" using R(12) q by simp
  have lx: "?l \<in> set ds" "?l \<noteq> x" "?l \<noteq> 0" "?l \<notin> set xs" if "ds \<noteq> []"
  proof -
    show l: "?l \<in> set ds" using that by simp
    then show "?l \<noteq> x" "?l \<notin> set xs" using d by (metis distinct_append not_distinct_conv_prefix disjoint_iff list.set_intros)+
    show "?l \<noteq> 0" using l R(14) q by (metis Un_iff set_append)
  qed
  have s1: "set_sleep_link (if ds = [] then 0 else ?l) ?nx s = Some (s\<lparr>thr := ?m1, sleep_head := ?h1\<rparr>)"
    using lx al R(6) by (cases "ds = []") (simp_all add: set_sleep_link_def tset_def)
  have s2: "tset x (\<lambda>x. x\<lparr>sleep_next := 0, state := THREAD_READY\<rparr>) (s\<lparr>thr := ?m1, sleep_head := ?h1\<rparr>) =
      Some (s\<lparr>thr := ?m2, sleep_head := ?h1\<rparr>)"
    using al [of x] R(6) by (simp add: tset_def)
  have "chain (\<lambda>y. sleep_next (?m2 y)) ?h1 (ds @ xs)"
  proof (rule chain_unlink [OF R(3) [unfolded q]])
    fix y assume y: "y \<in> set (butlast ds @ xs)"
    have "y \<noteq> ?l" if "ds \<noteq> []" using that y lx(4) [OF that] last_notin_butlast [of ds] d by auto
    moreover have "y \<noteq> x" using y d in_set_butlastD [of y ds] by auto
    ultimately show "sleep_next (?m2 y) = sleep_next (thr s y)" by simp
  qed (use lx in simp)
  moreover have "chain (\<lambda>y. run_next (?m2 y)) (rq_head s) (runq a)"
    using R(1) by (rule chain_cong [THEN iffD2, rotated]) simp
  moreover have "bare (?m2 y) = (if y = x then (ath a x)\<lparr>state := THREAD_READY\<rparr> else ath a y)" for y
    using lx(2) by (auto simp: R(5) [symmetric] bare_def)
  ultimately have "srep (s\<lparr>thr := ?m2, sleep_head := ?h1\<rparr>) (aset x (\<lambda>x. x\<lparr>state := THREAD_READY\<rparr>) (a\<lparr>sleepq := ds @ xs\<rparr>))"
    using R(2,4,6-10) by (simp add: srep_def)
  then show ?thesis using that s1 s2 by blast
qed

lemma wake_sleepers_rep:
  assumes "srep s a" "sleepq a = ds @ xs" "\<And>x. x \<in> set (runq a) \<union> set (sleepq a) \<Longrightarrow> aalive a x"
    "set (runq a) \<inter> set (sleepq a) = {}"
  obtains s' where "wake_sleepers (if ds = [] then 0 else last ds) s = Some s'" "srep s' (awake ds xs a)"
  using assms
proof (induction xs arbitrary: ds s a thesis)
  case Nil
  have "sleep_link (if ds = [] then 0 else last ds) s = Some 0"
    using sleep_linkE [OF Nil(2,3)] Nil(4) Nil(3) by auto
  moreover have "srep s (awake ds [] a)" using Nil(2,3) by (simp add: awake_def srep_def)
  ultimately show ?case using Nil(1) [of s] wake_sleepers.simps [of "if ds = [] then 0 else last ds" s] by simp
next
  case (Cons x xs)
  let ?sp = "if ds = [] then 0 else last ds"
  have al: "\<And>y. y \<in> set (ds @ [x]) \<Longrightarrow> aalive a y" "aalive a x" using Cons.prems(3,4) by auto
  have link: "sleep_link ?sp s = Some x" using sleep_linkE [OF Cons.prems(2,3)] al by auto
  have x0: "x \<noteq> 0" "tget x s = Some (thr s x)"
    using srepD(6,14) [OF Cons.prems(2)] Cons.prems(3) al(2) by (auto simp: tget_def)
  have due: "sleep_deadline (thr s x) \<le> g_ticks s \<longleftrightarrow> due a x"
    using srepD(4) [OF Cons.prems(2)] srep_sel(8) [OF Cons.prems(2)] by (simp add: due_def)
  show ?case
  proof (cases "due a x")
    case False
    have "wake_sleepers ?sp s = wake_sleepers x s"
      using link x0 due False by (subst wake_sleepers.simps) simp
    moreover have "awake (ds @ [x]) xs a = awake ds (x # xs) a" using False by (simp add: awake_def fun_eq_iff)
    moreover obtain s' where "wake_sleepers (if ds @ [x] = [] then 0 else last (ds @ [x])) s = Some s'"
      "srep s' (awake (ds @ [x]) xs a)"
      by (rule Cons.IH [where ds = "ds @ [x]" and s = s and a = a]) (use Cons.prems in auto)
    ultimately show ?thesis using Cons.prems(1) by simp
  next
    case True
    obtain s1 s2 where u: "set_sleep_link ?sp (sleep_next (thr s x)) s = Some s1"
      "tset x (\<lambda>x. x\<lparr>sleep_next := 0, state := THREAD_READY\<rparr>) s1 = Some s2"
      "srep s2 (aset x (\<lambda>x. x\<lparr>state := THREAD_READY\<rparr>) (a\<lparr>sleepq := ds @ xs\<rparr>))"
      by (rule unlink_rep [OF Cons.prems(2,3) al(1)])
    let ?a2 = "aset x (\<lambda>x. x\<lparr>state := THREAD_READY\<rparr>) (a\<lparr>sleepq := ds @ xs\<rparr>)"
    obtain s3 where s3: "rq_add x s2 = Some s3" "srep s3 (aenq x ?a2)"
      by (rule rq_add_rep [OF u(3)]) (use Cons.prems x0(1) al in auto)
    have d: "distinct (ds @ x # xs)" using srepD(12) [OF Cons.prems(2)] Cons.prems(3) by simp
    have dd: "due (aenq x ?a2) = due a" by (intro ext) (simp add: due_def)
    have aw: "awake ds xs (aenq x ?a2) = awake ds (x # xs) a"
      unfolding awake_def dd by (rule asched.equality) (use True d in \<open>auto simp: fun_eq_iff\<close>)
    obtain s' where "wake_sleepers ?sp s3 = Some s'" "srep s' (awake ds xs (aenq x ?a2))"
      by (rule Cons.IH [OF _ s3(2)]) (use Cons.prems d in auto)
    moreover have "wake_sleepers ?sp s = wake_sleepers ?sp s3"
      using link x0 due True u s3(1) by (subst wake_sleepers.simps) simp
    ultimately show ?thesis using Cons.prems(1) aw by simp
  qed
qed

subsection \<open>A tick\<close>

lemma sched_reap_rep:
  assumes r: "srep s a" and c: "areap_dead c a = Some a'"
    and q: "areap a c \<noteq> 0 \<Longrightarrow> aalive a (areap a c)"
  obtains s' where "sched_reap c s = Some s'" "srep s' a'"
proof (cases "areap a c = 0")
  case True
  then show ?thesis using that [of s] r c srepD(9) [OF r] by (simp add: areap_dead_def sched_reap_def)
next
  case False
  note R = srepD [OF r]
  let ?d = "areap a c"
  define x where "x = thr s ?d"
  define u where "u \<longleftrightarrow> is_user x \<and> th_cr3 x \<noteq> 0"
  have sx: "ath a ?d = bare x" using R(5) [of ?d] by (simp add: x_def)
  obtain h1 h2 h3 where h: "(if u then do { mm \<leftarrow> vmm_space_destroy (th_cr3 x) (hp_mm (aheap a)); Some ((aheap a)\<lparr>hp_mm := mm\<rparr>) }
      else Some (aheap a)) = Some h1" "kfree (kstack x) h1 = Some h2" "kfree ?d h2 = Some h3"
    and a': "a' = a\<lparr>areap := (areap a)(c := 0), aalive := (aalive a)(?d := False), aheap := h3,
      ath := (ath a)(?d := (if u then (bare x)\<lparr>th_cr3 := 0\<rparr> else bare x))\<rparr>"
    using c False unfolding areap_dead_def Let_def sx u_def by (auto split: bind_splits if_splits)
  have al: "alive s ?d" using q [OF False] R(6) by simp
  let ?m = "if u then (thr s)(?d := x\<lparr>th_cr3 := 0\<rparr>) else thr s"
  let ?s' = "s\<lparr>reap_pending := (reap_pending s)(c := 0), thr := ?m, sc_heap := h3, alive := (alive s)(?d := False)\<rparr>"
  have "sched_reap c s = Some ?s'"
  proof (cases u)
    case True
    then obtain mm where mm: "vmm_space_destroy (th_cr3 x) (hp_mm (sc_heap s)) = Some mm" "h1 = (sc_heap s)\<lparr>hp_mm := mm\<rparr>"
      using h(1) R(10) by (auto split: bind_splits)
    then show ?thesis using True False al h(2,3) R(9)
      by (simp add: sched_reap_def tget_def tset_def sc_kfree_def x_def u_def Let_def)
  next
    case u: False
    then show ?thesis using False al h R(9,10)
      by (auto simp: sched_reap_def tget_def tset_def sc_kfree_def x_def u_def Let_def)
  qed
  moreover have "srep ?s' a'"
  proof -
    have "run_next (?m t) = run_next (thr s t)" "sleep_next (?m t) = sleep_next (thr s t)" for t by (simp_all add: x_def)
    moreover have "bare (?m t) = ath a' t" for t
      using R(5) [of t] sx by (auto simp: a' bare_def)
    ultimately show ?thesis using R(1-4,6-10) unfolding srep_def a' by simp
  qed
  ultimately show ?thesis using that by blast
qed

lemma sched_requeue_rep:
  assumes r: "srep s a" and t: "t = acur a c" "aalive a t" "t \<noteq> 0"
    and q: "state (ath a t) = THREAD_RUNNING \<Longrightarrow> \<not> is_idle (ath a t) \<Longrightarrow> t \<notin> set (runq a)"
    and al: "\<And>x. x \<in> set (runq a) \<Longrightarrow> aalive a x"
  obtains s' where "sched_requeue c t s = Some s'" "srep s' (arequeue c a)"
proof -
  note S = srep_sel [OF r, of t]
  have tg: "tget t s = Some (thr s t)" using t(2) srepD(6) [OF r] by (simp add: tget_def)
  show ?thesis
  proof (cases "state (thr s t) = THREAD_RUNNING \<and> \<not> is_idle (thr s t)")
    case True
    obtain s1 where s1: "tset t (\<lambda>x. x\<lparr>state := THREAD_READY\<rparr>) s = Some s1" "srep s1 (aset t (\<lambda>x. x\<lparr>state := THREAD_READY\<rparr>) a)"
      by (rule tset_rep [OF r t(2), where f = "\<lambda>x. x\<lparr>state := THREAD_READY\<rparr>"]) (auto simp: bare_def)
    obtain s2 where s2: "rq_add t s1 = Some s2" "srep s2 (aenq t (aset t (\<lambda>x. x\<lparr>state := THREAD_READY\<rparr>) a))"
      by (rule rq_add_rep [OF s1(2)]) (use t q al S True in auto)
    have "arequeue c a = aenq t (aset t (\<lambda>x. x\<lparr>state := THREAD_READY\<rparr>) a)"
      using True S t(1) by (simp add: arequeue_def Let_def)
    then show ?thesis using that [of s2] s1 s2 tg True by (simp add: sched_requeue_def)
  next
    case False
    show ?thesis
    proof (cases "state (thr s t) = THREAD_DEAD")
      case True
      then show ?thesis
        using that [of "s\<lparr>reap_pending := (reap_pending s)(c := t)\<rparr>"] tg r S t(1)
        by (simp add: sched_requeue_def arequeue_def Let_def srep_def)
    next
      case nd: False
      then have "sched_requeue c t s = Some s" using False tg by (auto simp: sched_requeue_def)
      moreover have "arequeue c a = a" using nd False S t(1) by (auto simp: arequeue_def Let_def)
      ultimately show ?thesis using that r by simp
    qed
  qed
qed

lemma srep_cur: "srep s a \<Longrightarrow> srep (s\<lparr>cpu_current := (cpu_current s)(c := n)\<rparr>) (a\<lparr>acur := (acur a)(c := n)\<rparr>)"
  by (simp add: srep_def)

lemma sched_pick_rep:
  assumes r: "srep s a" and t: "t = acur a c" "aalive a t"
    and al: "\<And>x. x \<in> set (runq a) \<Longrightarrow> aalive a x" and idle: "runq a = [] \<Longrightarrow> aalive a (aidle a c)"
  obtains s' where "sched_pick c t s = Some (achosen c a, s')" "srep s' (apick c a)"
proof -
  let ?n = "achosen c a" and ?a1 = "a\<lparr>runq := tl (runq a)\<rparr>"
  obtain s1 where s1: "rq_take s = Some (case runq a of [] \<Rightarrow> 0 | t # _ \<Rightarrow> t, s1)" "srep s1 ?a1"
    by (rule rq_take_rep [OF r al])
  have n: "(if (case runq a of [] \<Rightarrow> 0 | t # _ \<Rightarrow> t) = 0 then cpu_idle s1 c else (case runq a of [] \<Rightarrow> 0 | t # _ \<Rightarrow> t)) = ?n"
    using srepD(8) [OF s1(2)] srepD(13) [OF r] by (auto simp: achosen_def split: list.splits)
  have aln: "aalive a ?n" using al idle by (auto simp: achosen_def split: list.splits)
  let ?f = "\<lambda>x. x\<lparr>state := THREAD_RUNNING\<rparr>" and ?g = "\<lambda>x. x\<lparr>on_cpu := False\<rparr>" and ?h = "\<lambda>x. x\<lparr>on_cpu := True\<rparr>"
  obtain s2 where s2: "tset ?n ?f s1 = Some s2" "srep s2 (aset ?n ?f ?a1)"
    by (rule tset_rep [OF s1(2), where f = ?f]) (use aln in \<open>auto simp: bare_def\<close>)
  let ?a3 = "if t \<noteq> ?n then aset t ?g (aset ?n ?f ?a1) else aset ?n ?f ?a1"
  obtain s3 where s3: "(if t \<noteq> ?n then tset t ?g s2 else Some s2) = Some s3" "srep s3 ?a3"
  proof (cases "t = ?n")
    case True
    then show ?thesis using that [of s2] s2 by simp
  next
    case False
    show ?thesis by (rule tset_rep [OF s2(2), of t ?g]) (use t(2) that False in \<open>auto simp: bare_def\<close>)
  qed
  obtain s4 where s4: "tset ?n ?h s3 = Some s4" "srep s4 (aset ?n ?h ?a3)"
    by (rule tset_rep [OF s3(2), where f = ?h]) (use aln in \<open>auto simp: bare_def\<close>)
  have "sched_pick c t s = Some (?n, s4\<lparr>cpu_current := (cpu_current s4)(c := ?n)\<rparr>)"
    unfolding sched_pick_def Let_def s1(1) using s2(1) s3(1) s4(1) n by simp
  moreover have "srep (s4\<lparr>cpu_current := (cpu_current s4)(c := ?n)\<rparr>) (apick c a)"
    using srep_cur [OF s4(2)] unfolding apick_def Let_def t(1) [symmetric] .
  ultimately show ?thesis using that by blast
qed

end
