(* ===== verification/Schedinv.thy ===== *)
theory Schedinv
  imports Schedspec
begin

text \<open>
  The invariant of the scheduler: where a thread can be, what its state says about it, and which
  memory and which address space it owns; every operation keeps it.
\<close>

subsection \<open>The invariant\<close>

text \<open>
  \<open>mem_ok\<close>: every thread structure and every kernel stack is an allocated region of its own, and
  every user thread has an address space of its own; idle threads are kernel threads.
\<close>

definition mem_ok :: "u64 set \<Rightarrow> (u64 \<Rightarrow> nat option) \<Rightarrow> asched \<Rightarrow> bool" where
  "mem_ok R L a \<longleftrightarrow> heap_ok R (aheap a) L \<and>
     (\<forall>t. aalive a t \<longrightarrow> t \<noteq> 0 \<and> L t \<noteq> None \<and>
        (kstack (ath a t) \<noteq> 0 \<longrightarrow> L (kstack (ath a t)) \<noteq> None \<and> \<not> aalive a (kstack (ath a t))) \<and>
        (is_user (ath a t) \<and> th_cr3 (ath a t) \<noteq> 0 \<longrightarrow> th_cr3 (ath a t) \<in> R) \<and>
        (is_idle (ath a t) \<longrightarrow> \<not> is_user (ath a t))) \<and>
     (\<forall>t u. aalive a t \<longrightarrow> aalive a u \<longrightarrow> t \<noteq> u \<longrightarrow> kstack (ath a t) = kstack (ath a u) \<longrightarrow> kstack (ath a t) = 0) \<and>
     (\<forall>t u. aalive a t \<longrightarrow> aalive a u \<longrightarrow> t \<noteq> u \<longrightarrow> is_user (ath a t) \<longrightarrow> is_user (ath a u) \<longrightarrow>
        th_cr3 (ath a t) = th_cr3 (ath a u) \<longrightarrow> th_cr3 (ath a t) = 0)"

text \<open>
  The places of threads; \<open>C\<close> are the processors that run, \<open>P\<close> the threads that have been created
  but not started.
\<close>

definition runq_ok :: "asched \<Rightarrow> bool" where
  "runq_ok a \<longleftrightarrow> distinct (runq a) \<and> (\<forall>t \<in> set (runq a). aalive a t \<and> state (ath a t) = THREAD_READY \<and>
     \<not> on_cpu (ath a t) \<and> \<not> is_idle (ath a t))"

definition sleepq_ok :: "asched \<Rightarrow> bool" where
  "sleepq_ok a \<longleftrightarrow> distinct (sleepq a) \<and> (\<forall>t \<in> set (sleepq a). aalive a t \<and> state (ath a t) = THREAD_BLOCKED \<and>
     \<not> on_cpu (ath a t) \<and> \<not> is_idle (ath a t))"

definition cur_ok :: "nat set \<Rightarrow> asched \<Rightarrow> bool" where
  "cur_ok C a \<longleftrightarrow> C \<subseteq> {..<64} \<and> inj_on (acur a) C \<and>
     (\<forall>c \<in> C. aalive a (acur a c) \<and> on_cpu (ath a (acur a c)) \<and> state (ath a (acur a c)) \<noteq> THREAD_READY \<and>
        (is_idle (ath a (acur a c)) \<longrightarrow> acur a c = aidle a c \<and> state (ath a (acur a c)) = THREAD_RUNNING)) \<and>
     (\<forall>t. aalive a t \<longrightarrow> on_cpu (ath a t) \<longrightarrow> t \<in> acur a ` C)"

definition idle_ok :: "nat set \<Rightarrow> asched \<Rightarrow> bool" where
  "idle_ok C a \<longleftrightarrow> (\<forall>c \<in> C. aidle a c \<noteq> 0) \<and>
     (\<forall>c. aidle a c \<noteq> 0 \<longrightarrow> aalive a (aidle a c) \<and> is_idle (ath a (aidle a c)) \<and> state (ath a (aidle a c)) = THREAD_RUNNING) \<and>
     (\<forall>c d. aidle a c = aidle a d \<longrightarrow> aidle a c \<noteq> 0 \<longrightarrow> c = d)"

definition reap_ok :: "asched \<Rightarrow> bool" where
  "reap_ok a \<longleftrightarrow> (\<forall>c. areap a c \<noteq> 0 \<longrightarrow> aalive a (areap a c) \<and> state (ath a (areap a c)) = THREAD_DEAD \<and>
        \<not> on_cpu (ath a (areap a c)) \<and> \<not> is_idle (ath a (areap a c))) \<and>
     (\<forall>c d. areap a c = areap a d \<longrightarrow> areap a c \<noteq> 0 \<longrightarrow> c = d)"

definition ready_ok :: "u64 set \<Rightarrow> asched \<Rightarrow> bool" where
  "ready_ok P a \<longleftrightarrow> (\<forall>t. aalive a t \<longrightarrow> state (ath a t) = THREAD_READY \<longrightarrow> t \<in> set (runq a) \<or> t \<in> P) \<and>
     (\<forall>t \<in> P. aalive a t \<and> state (ath a t) = THREAD_READY \<and> \<not> on_cpu (ath a t) \<and> \<not> is_idle (ath a t) \<and> t \<notin> set (runq a))"

definition place_ok :: "nat set \<Rightarrow> u64 set \<Rightarrow> asched \<Rightarrow> bool" where
  "place_ok C P a \<longleftrightarrow> runq_ok a \<and> sleepq_ok a \<and> cur_ok C a \<and> idle_ok C a \<and> reap_ok a \<and> ready_ok P a"

lemmas place_ok_defs = place_ok_def runq_ok_def sleepq_ok_def cur_ok_def idle_ok_def reap_ok_def ready_ok_def

definition ainv :: "u64 set \<Rightarrow> (u64 \<Rightarrow> nat option) \<Rightarrow> nat set \<Rightarrow> u64 set \<Rightarrow> asched \<Rightarrow> bool" where
  "ainv R L C P a \<longleftrightarrow> mem_ok R L a \<and> place_ok C P a"

lemma place_okD:
  assumes "place_ok C P a"
  shows "C \<subseteq> {..<64}" "distinct (runq a)" "distinct (sleepq a)"
    "t \<in> set (runq a) \<Longrightarrow> aalive a t \<and> state (ath a t) = THREAD_READY \<and> \<not> on_cpu (ath a t) \<and> \<not> is_idle (ath a t)"
    "t \<in> set (sleepq a) \<Longrightarrow> aalive a t \<and> state (ath a t) = THREAD_BLOCKED \<and> \<not> on_cpu (ath a t) \<and> \<not> is_idle (ath a t)"
    "c \<in> C \<Longrightarrow> aalive a (acur a c) \<and> on_cpu (ath a (acur a c)) \<and> state (ath a (acur a c)) \<noteq> THREAD_READY \<and>
       (is_idle (ath a (acur a c)) \<longrightarrow> acur a c = aidle a c \<and> state (ath a (acur a c)) = THREAD_RUNNING)"
    "inj_on (acur a) C" "aalive a t \<Longrightarrow> on_cpu (ath a t) \<Longrightarrow> t \<in> acur a ` C"
    "c \<in> C \<Longrightarrow> aalive a (aidle a c) \<and> is_idle (ath a (aidle a c)) \<and> state (ath a (aidle a c)) = THREAD_RUNNING"
    "aidle a c = aidle a d \<Longrightarrow> aidle a c \<noteq> 0 \<Longrightarrow> c = d"
    "areap a c \<noteq> 0 \<Longrightarrow> aalive a (areap a c) \<and> state (ath a (areap a c)) = THREAD_DEAD \<and>
       \<not> on_cpu (ath a (areap a c)) \<and> \<not> is_idle (ath a (areap a c))"
    "areap a c = areap a d \<Longrightarrow> areap a c \<noteq> 0 \<Longrightarrow> c = d"
    "aalive a t \<Longrightarrow> state (ath a t) = THREAD_READY \<Longrightarrow> t \<in> set (runq a) \<or> t \<in> P"
    "t \<in> P \<Longrightarrow> aalive a t \<and> state (ath a t) = THREAD_READY \<and> \<not> on_cpu (ath a t) \<and> \<not> is_idle (ath a t) \<and> t \<notin> set (runq a)"
    "aidle a c \<noteq> 0 \<Longrightarrow> aalive a (aidle a c) \<and> is_idle (ath a (aidle a c)) \<and> state (ath a (aidle a c)) = THREAD_RUNNING"
    "c \<in> C \<Longrightarrow> aidle a c \<noteq> 0"
proof -
  from assms have *: "runq_ok a" "sleepq_ok a" "cur_ok C a" "idle_ok C a" "reap_ok a" "ready_ok P a"
    by (auto simp: place_ok_def)
  show "distinct (runq a)"
    "t \<in> set (runq a) \<Longrightarrow> aalive a t \<and> state (ath a t) = THREAD_READY \<and> \<not> on_cpu (ath a t) \<and> \<not> is_idle (ath a t)"
    using *(1) unfolding runq_ok_def by blast+
  show "distinct (sleepq a)"
    "t \<in> set (sleepq a) \<Longrightarrow> aalive a t \<and> state (ath a t) = THREAD_BLOCKED \<and> \<not> on_cpu (ath a t) \<and> \<not> is_idle (ath a t)"
    using *(2) unfolding sleepq_ok_def by blast+
  show "C \<subseteq> {..<64}" "c \<in> C \<Longrightarrow> aalive a (acur a c) \<and> on_cpu (ath a (acur a c)) \<and> state (ath a (acur a c)) \<noteq> THREAD_READY \<and>
       (is_idle (ath a (acur a c)) \<longrightarrow> acur a c = aidle a c \<and> state (ath a (acur a c)) = THREAD_RUNNING)"
    "inj_on (acur a) C" "aalive a t \<Longrightarrow> on_cpu (ath a t) \<Longrightarrow> t \<in> acur a ` C"
    using *(3) unfolding cur_ok_def by blast+
  show "c \<in> C \<Longrightarrow> aalive a (aidle a c) \<and> is_idle (ath a (aidle a c)) \<and> state (ath a (aidle a c)) = THREAD_RUNNING"
    "aidle a c = aidle a d \<Longrightarrow> aidle a c \<noteq> 0 \<Longrightarrow> c = d"
    "aidle a c \<noteq> 0 \<Longrightarrow> aalive a (aidle a c) \<and> is_idle (ath a (aidle a c)) \<and> state (ath a (aidle a c)) = THREAD_RUNNING"
    "c \<in> C \<Longrightarrow> aidle a c \<noteq> 0" using *(4) unfolding idle_ok_def by blast+
  show "areap a c \<noteq> 0 \<Longrightarrow> aalive a (areap a c) \<and> state (ath a (areap a c)) = THREAD_DEAD \<and>
       \<not> on_cpu (ath a (areap a c)) \<and> \<not> is_idle (ath a (areap a c))"
    "areap a c = areap a d \<Longrightarrow> areap a c \<noteq> 0 \<Longrightarrow> c = d"
    using *(5) unfolding reap_ok_def by blast+
  show "aalive a t \<Longrightarrow> state (ath a t) = THREAD_READY \<Longrightarrow> t \<in> set (runq a) \<or> t \<in> P"
    "t \<in> P \<Longrightarrow> aalive a t \<and> state (ath a t) = THREAD_READY \<and> \<not> on_cpu (ath a t) \<and> \<not> is_idle (ath a t) \<and> t \<notin> set (runq a)"
    using *(6) unfolding ready_ok_def by blast+
qed

lemma place_okI:
  assumes "C \<subseteq> {..<64}" "distinct (runq a)" "distinct (sleepq a)"
    "\<And>t. t \<in> set (runq a) \<Longrightarrow> aalive a t \<and> state (ath a t) = THREAD_READY \<and> \<not> on_cpu (ath a t) \<and> \<not> is_idle (ath a t)"
    "\<And>t. t \<in> set (sleepq a) \<Longrightarrow> aalive a t \<and> state (ath a t) = THREAD_BLOCKED \<and> \<not> on_cpu (ath a t) \<and> \<not> is_idle (ath a t)"
    "\<And>c. c \<in> C \<Longrightarrow> aalive a (acur a c) \<and> on_cpu (ath a (acur a c)) \<and> state (ath a (acur a c)) \<noteq> THREAD_READY \<and>
       (is_idle (ath a (acur a c)) \<longrightarrow> acur a c = aidle a c \<and> state (ath a (acur a c)) = THREAD_RUNNING)"
    "inj_on (acur a) C" "\<And>t. aalive a t \<Longrightarrow> on_cpu (ath a t) \<Longrightarrow> t \<in> acur a ` C"
    "\<And>c. aidle a c \<noteq> 0 \<Longrightarrow> aalive a (aidle a c) \<and> is_idle (ath a (aidle a c)) \<and> state (ath a (aidle a c)) = THREAD_RUNNING"
    "\<And>c d. aidle a c = aidle a d \<Longrightarrow> aidle a c \<noteq> 0 \<Longrightarrow> c = d"
    "\<And>c. areap a c \<noteq> 0 \<Longrightarrow> aalive a (areap a c) \<and> state (ath a (areap a c)) = THREAD_DEAD \<and>
       \<not> on_cpu (ath a (areap a c)) \<and> \<not> is_idle (ath a (areap a c))"
    "\<And>c d. areap a c = areap a d \<Longrightarrow> areap a c \<noteq> 0 \<Longrightarrow> c = d"
    "\<And>t. aalive a t \<Longrightarrow> state (ath a t) = THREAD_READY \<Longrightarrow> t \<in> set (runq a) \<or> t \<in> P"
    "\<And>t. t \<in> P \<Longrightarrow> aalive a t \<and> state (ath a t) = THREAD_READY \<and> \<not> on_cpu (ath a t) \<and> \<not> is_idle (ath a t) \<and> t \<notin> set (runq a)"
    "\<And>c. c \<in> C \<Longrightarrow> aidle a c \<noteq> 0"
  shows "place_ok C P a"
proof -
  have "runq_ok a" unfolding runq_ok_def using assms(2,4) by blast
  moreover have "sleepq_ok a" unfolding sleepq_ok_def using assms(3,5) by blast
  moreover have "cur_ok C a" unfolding cur_ok_def using assms(1,6,7,8) by blast
  moreover have "idle_ok C a" unfolding idle_ok_def using assms(9,10,15) by blast
  moreover have "reap_ok a" unfolding reap_ok_def using assms(11,12) by blast
  moreover have "ready_ok P a" unfolding ready_ok_def using assms(13,14) by blast
  ultimately show ?thesis by (simp add: place_ok_def)
qed

subsection \<open>Waking and switching\<close>

lemma place_ok_ticks: "place_ok C P (a\<lparr>ticks := n\<rparr>) = place_ok C P a"
  by (simp add: place_ok_defs)

lemma place_ok_rsp: "place_ok C P (aset t (\<lambda>x. x\<lparr>rsp := r\<rparr>) a) = place_ok C P a"
proof -
  have "state (ath (aset t (\<lambda>x. x\<lparr>rsp := r\<rparr>) a) u) = state (ath a u)"
    "on_cpu (ath (aset t (\<lambda>x. x\<lparr>rsp := r\<rparr>) a) u) = on_cpu (ath a u)"
    "is_idle (ath (aset t (\<lambda>x. x\<lparr>rsp := r\<rparr>) a) u) = is_idle (ath a u)" for u
    by simp_all
  then show ?thesis unfolding place_ok_defs by (simp only: aset_sel)
qed

lemma awake_sel:
  "runq (awake ds xs a) = runq a @ filter (due a) xs" "sleepq (awake ds xs a) = ds @ filter (\<lambda>t. \<not> due a t) xs"
  "ticks (awake ds xs a) = ticks a" "aalive (awake ds xs a) = aalive a" "acur (awake ds xs a) = acur a"
  "aidle (awake ds xs a) = aidle a" "areap (awake ds xs a) = areap a" "aheap (awake ds xs a) = aheap a"
  "ath (awake ds xs a) t = (if t \<in> set xs \<and> due a t then (ath a t)\<lparr>state := THREAD_READY\<rparr> else ath a t)"
  by (simp_all add: awake_def)

lemma awake_fields:
  "on_cpu (ath (awake ds xs a) t) = on_cpu (ath a t)" "is_idle (ath (awake ds xs a) t) = is_idle (ath a t)"
  "kstack (ath (awake ds xs a) t) = kstack (ath a t)" "is_user (ath (awake ds xs a) t) = is_user (ath a t)"
  "th_cr3 (ath (awake ds xs a) t) = th_cr3 (ath a t)" "rsp (ath (awake ds xs a) t) = rsp (ath a t)"
  "state (ath (awake ds xs a) t) = (if t \<in> set xs \<and> due a t then THREAD_READY else state (ath a t))"
  by (simp_all add: awake_sel)

lemma place_ok_awake:
  assumes "place_ok C P a"
  shows "place_ok C P (awake [] (sleepq a) a)"
proof -
  note I = place_okD [OF assms]
  have ne: "t \<notin> set (sleepq a)" if "state (ath a t) \<noteq> THREAD_BLOCKED \<or> on_cpu (ath a t) \<or> is_idle (ath a t)" for t
    using I(5) that by blast
  show ?thesis
  proof (rule place_okI; (unfold awake_sel(1-8) awake_fields)?)
    show "distinct (runq a @ filter (due a) (sleepq a))" using I(2,3,4) ne by auto
    fix c assume c: "c \<in> C"
    show "aalive a (acur a c) \<and> on_cpu (ath a (acur a c)) \<and>
        (if acur a c \<in> set (sleepq a) \<and> due a (acur a c) then THREAD_READY else state (ath a (acur a c))) \<noteq> THREAD_READY \<and>
        (is_idle (ath a (acur a c)) \<longrightarrow> acur a c = aidle a c \<and>
          (if acur a c \<in> set (sleepq a) \<and> due a (acur a c) then THREAD_READY else state (ath a (acur a c))) = THREAD_RUNNING)"
      using I(6) [OF c] ne [of "acur a c"] by auto
  next
    fix c
    show "aalive a (aidle a c) \<and> is_idle (ath a (aidle a c)) \<and>
        (if aidle a c \<in> set (sleepq a) \<and> due a (aidle a c) then THREAD_READY else state (ath a (aidle a c))) = THREAD_RUNNING" if "aidle a c \<noteq> 0"
      using I(15) [OF that] ne [of "aidle a c"] by auto
    show "aalive a (areap a c) \<and>
        (if areap a c \<in> set (sleepq a) \<and> due a (areap a c) then THREAD_READY else state (ath a (areap a c))) = THREAD_DEAD \<and>
        \<not> on_cpu (ath a (areap a c)) \<and> \<not> is_idle (ath a (areap a c))" if "areap a c \<noteq> 0"
      using I(11) [OF that] ne [of "areap a c"] by auto
  next
    fix t
    show "aalive a t \<and> (if t \<in> set (sleepq a) \<and> due a t then THREAD_READY else state (ath a t)) = THREAD_READY \<and>
        \<not> on_cpu (ath a t) \<and> \<not> is_idle (ath a t) \<and> t \<notin> set (runq a @ filter (due a) (sleepq a))" if "t \<in> P"
      using I(14) [OF that] ne [of t] by auto
    show "aalive a t \<and> (if t \<in> set (sleepq a) \<and> due a t then THREAD_READY else state (ath a t)) = THREAD_READY \<and>
        \<not> on_cpu (ath a t) \<and> \<not> is_idle (ath a t)" if "t \<in> set (runq a @ filter (due a) (sleepq a))"
      using I(4,5) [of t] that by auto
    show "aalive a t \<and> (if t \<in> set (sleepq a) \<and> due a t then THREAD_READY else state (ath a t)) = THREAD_BLOCKED \<and>
        \<not> on_cpu (ath a t) \<and> \<not> is_idle (ath a t)" if "t \<in> set ([] @ filter (\<lambda>t. \<not> due a t) (sleepq a))"
      using I(5) [of t] that by auto
    show "t \<in> set (runq a @ filter (due a) (sleepq a)) \<or> t \<in> P" if "aalive a t"
        "(if t \<in> set (sleepq a) \<and> due a t then THREAD_READY else state (ath a t)) = THREAD_READY"
      using I(13) [OF that(1)] that(2) by (auto split: if_splits)
  qed (fact I(1,7,8,10,12,16) | use I(3) in simp)+
qed

text \<open>The switch as a whole.\<close>

definition akeeps :: "nat \<Rightarrow> asched \<Rightarrow> bool" where
  "akeeps c a \<longleftrightarrow> state (ath a (acur a c)) = THREAD_RUNNING \<and> \<not> is_idle (ath a (acur a c))"

definition aqueue :: "nat \<Rightarrow> asched \<Rightarrow> u64 list" where
  "aqueue c a = runq a @ (if akeeps c a then [acur a c] else [])"

definition anext :: "nat \<Rightarrow> asched \<Rightarrow> u64" where
  "anext c a = (case aqueue c a of [] \<Rightarrow> aidle a c | t # _ \<Rightarrow> t)"

definition aswitch :: "nat \<Rightarrow> asched \<Rightarrow> asched" where
  "aswitch c a = a\<lparr>runq := tl (aqueue c a), acur := (acur a)(c := anext c a),
     areap := (if state (ath a (acur a c)) = THREAD_DEAD then (areap a)(c := acur a c) else areap a),
     ath := (\<lambda>u. if u = anext c a then (ath a u)\<lparr>state := THREAD_RUNNING, on_cpu := True\<rparr>
       else if u = acur a c then (ath a u)\<lparr>state := (if akeeps c a then THREAD_READY else state (ath a u)), on_cpu := False\<rparr>
       else ath a u)\<rparr>"

lemma arequeue_eq:
  "arequeue c a = a\<lparr>runq := aqueue c a,
     areap := (if state (ath a (acur a c)) = THREAD_DEAD then (areap a)(c := acur a c) else areap a),
     ath := (if akeeps c a then (ath a)(acur a c := (ath a (acur a c))\<lparr>state := THREAD_READY\<rparr>) else ath a)\<rparr>"
proof (cases "akeeps c a")
  case True
  then have "state (ath a (acur a c)) = THREAD_RUNNING \<and> \<not> is_idle (ath a (acur a c))" by (simp add: akeeps_def)
  then show ?thesis using True by (simp add: arequeue_def aqueue_def Let_def aenq_def aset_def)
next
  case False
  then have *: "\<not> (state (ath a (acur a c)) = THREAD_RUNNING \<and> \<not> is_idle (ath a (acur a c)))" by (simp add: akeeps_def)
  show ?thesis using False unfolding arequeue_def Let_def if_not_P [OF *] by (simp add: aqueue_def)
qed

lemma aswitch_eq: "apick c (arequeue c a) = aswitch c a"
proof -
  let ?t = "acur a c" and ?n = "anext c a"
  define m where "m = (if akeeps c a then (ath a)(?t := (ath a ?t)\<lparr>state := THREAD_READY\<rparr>) else ath a)"
  define b where "b = arequeue c a"
  have b: "runq b = aqueue c a" "acur b = acur a" "ath b = m" "b = a\<lparr>runq := aqueue c a,
     areap := (if state (ath a ?t) = THREAD_DEAD then (areap a)(c := ?t) else areap a), ath := m\<rparr>"
    unfolding b_def m_def by (simp_all add: arequeue_eq)
  have i: "aidle b = aidle a" by (simp add: b(4))
  have n: "achosen c b = ?n" unfolding achosen_def anext_def b(1) i ..
  have "(\<lambda>u. if u = ?n then (ath a u)\<lparr>state := THREAD_RUNNING, on_cpu := True\<rparr>
       else if u = ?t then (ath a u)\<lparr>state := (if akeeps c a then THREAD_READY else state (ath a u)), on_cpu := False\<rparr>
       else ath a u) =
     (if ?t \<noteq> ?n then m(?n := (m ?n)\<lparr>state := THREAD_RUNNING\<rparr>, ?t := (m ?t)\<lparr>on_cpu := False\<rparr>,
         ?n := (m ?n)\<lparr>state := THREAD_RUNNING, on_cpu := True\<rparr>)
      else m(?n := (m ?n)\<lparr>state := THREAD_RUNNING\<rparr>, ?n := (m ?n)\<lparr>state := THREAD_RUNNING, on_cpu := True\<rparr>))"
    unfolding m_def by (cases "?t = ?n"; cases "akeeps c a") (simp_all add: fun_eq_iff)
  then have "aswitch c a = b\<lparr>runq := tl (aqueue c a), ath :=
      (if ?t \<noteq> ?n then m(?n := (m ?n)\<lparr>state := THREAD_RUNNING\<rparr>, ?t := (m ?t)\<lparr>on_cpu := False\<rparr>,
         ?n := (m ?n)\<lparr>state := THREAD_RUNNING, on_cpu := True\<rparr>)
      else m(?n := (m ?n)\<lparr>state := THREAD_RUNNING\<rparr>, ?n := (m ?n)\<lparr>state := THREAD_RUNNING, on_cpu := True\<rparr>)),
      acur := (acur a)(c := ?n)\<rparr>"
    unfolding aswitch_def b(4) by simp
  moreover have "apick c b = b\<lparr>runq := tl (aqueue c a), ath :=
      (if ?t \<noteq> ?n then m(?n := (m ?n)\<lparr>state := THREAD_RUNNING\<rparr>, ?t := (m ?t)\<lparr>on_cpu := False\<rparr>,
         ?n := (m ?n)\<lparr>state := THREAD_RUNNING, on_cpu := True\<rparr>)
      else m(?n := (m ?n)\<lparr>state := THREAD_RUNNING\<rparr>, ?n := (m ?n)\<lparr>state := THREAD_RUNNING, on_cpu := True\<rparr>)),
      acur := (acur a)(c := ?n)\<rparr>"
    unfolding apick_def Let_def n b(1,2) by (cases "?t = ?n") (simp_all add: aset_def b(2,3))
  ultimately show ?thesis unfolding b_def by simp
qed

lemma aswitch_sel:
  "runq (aswitch c a) = tl (aqueue c a)" "sleepq (aswitch c a) = sleepq a" "acur (aswitch c a) = (acur a)(c := anext c a)"
  "aidle (aswitch c a) = aidle a" "aalive (aswitch c a) = aalive a" "aheap (aswitch c a) = aheap a"
  "areap (aswitch c a) = (if state (ath a (acur a c)) = THREAD_DEAD then (areap a)(c := acur a c) else areap a)"
  "ticks (aswitch c a) = ticks a"
  by (simp_all add: aswitch_def)

lemma aswitch_fields:
  "is_idle (ath (aswitch c a) u) = is_idle (ath a u)" "kstack (ath (aswitch c a) u) = kstack (ath a u)"
  "is_user (ath (aswitch c a) u) = is_user (ath a u)" "th_cr3 (ath (aswitch c a) u) = th_cr3 (ath a u)"
  "rsp (ath (aswitch c a) u) = rsp (ath a u)"
  "on_cpu (ath (aswitch c a) u) = (if u = anext c a then True else if u = acur a c then False else on_cpu (ath a u))"
  "state (ath (aswitch c a) u) = (if u = anext c a then THREAD_RUNNING
     else if u = acur a c \<and> akeeps c a then THREAD_READY else state (ath a u))"
  by (simp_all add: aswitch_def)

text \<open>The thread that is chosen: the head of the queue, the thread itself or the idle thread.\<close>

lemma anext_cases:
  assumes I: "place_ok C P a" and c: "c \<in> C"
  obtains (queue) "runq a = anext c a # tl (runq a)" "anext c a \<in> set (runq a)" "anext c a \<noteq> acur a c"
      "tl (aqueue c a) = tl (runq a) @ (if akeeps c a then [acur a c] else [])"
  | (self) "runq a = []" "akeeps c a" "anext c a = acur a c" "tl (aqueue c a) = []"
  | (idle) "runq a = []" "\<not> akeeps c a" "anext c a = aidle a c" "tl (aqueue c a) = []"
proof (cases "runq a")
  case Nil
  then show ?thesis using self idle by (cases "akeeps c a") (simp_all add: anext_def aqueue_def)
next
  case (Cons t q)
  then have "state (ath a t) = THREAD_READY" using place_okD(4) [OF I, of t] by simp
  then have "t \<noteq> acur a c" using place_okD(6) [OF I c] by auto
  then show ?thesis using queue Cons by (simp add: anext_def aqueue_def)
qed

lemma place_ok_aswitch:
  assumes I: "place_ok C P a" and c: "c \<in> C" and rp: "areap a c = 0"
  shows "place_ok C P (aswitch c a)"
proof -
  let ?t = "acur a c" and ?n = "anext c a"
  note D = place_okD [OF I]
  have cur: "aalive a ?t" "on_cpu (ath a ?t)" "state (ath a ?t) \<noteq> THREAD_READY"
    "is_idle (ath a ?t) \<Longrightarrow> ?t = aidle a c \<and> state (ath a ?t) = THREAD_RUNNING" using D(6) [OF c] by auto
  have tq: "?t \<notin> set (runq a)" "?t \<notin> set (sleepq a)" "?t \<notin> P" using cur D(4,5,14) by blast+
  have other: "acur a d \<noteq> ?t" if "d \<in> C" "d \<noteq> c" for d using D(7) c that by (auto simp: inj_on_def)
  have oidle: "acur a d \<noteq> aidle a c" if "d \<in> C" "d \<noteq> c" for d
    using D(6) [OF that(1)] D(9) [OF c] D(10) [of d c] D(16) [OF that(1)] that by metis
  have kp: "akeeps c a \<longleftrightarrow> state (ath a ?t) = THREAD_RUNNING \<and> \<not> is_idle (ath a ?t)" by (simp add: akeeps_def)
  have n: "aalive a ?n" "?n \<notin> set (sleepq a)" "?n \<notin> P" "\<And>d. d \<in> C \<Longrightarrow> d \<noteq> c \<Longrightarrow> acur a d \<noteq> ?n"
    "state (ath a ?n) \<noteq> THREAD_DEAD" "is_idle (ath a ?n) \<Longrightarrow> ?n = aidle a c" "?n \<notin> set (tl (aqueue c a))"
    "?n \<noteq> ?t \<Longrightarrow> on_cpu (ath a ?n) \<Longrightarrow> False"
  proof -
    have "aalive a ?n \<and> ?n \<notin> set (sleepq a) \<and> ?n \<notin> P \<and> (\<forall>d \<in> C. d \<noteq> c \<longrightarrow> acur a d \<noteq> ?n) \<and>
      state (ath a ?n) \<noteq> THREAD_DEAD \<and> (is_idle (ath a ?n) \<longrightarrow> ?n = aidle a c) \<and> ?n \<notin> set (tl (aqueue c a)) \<and>
      (?n \<noteq> ?t \<longrightarrow> \<not> on_cpu (ath a ?n))"
      using I c
    proof (cases rule: anext_cases)
      case queue
      note q = D(4) [OF queue(2)]
      have "acur a d \<noteq> ?n" if "d \<in> C" for d using D(6) [OF that] q by metis
      moreover have "?n \<notin> set (tl (runq a))" using D(2) queue(1) by (metis distinct.simps(2))
      ultimately show ?thesis using q D(5,14) [of ?n] queue by auto
    next
      case self
      then show ?thesis using cur tq other kp by auto
    next
      case idle
      have "on_cpu (ath a (aidle a c)) \<Longrightarrow> aidle a c = ?t"
        using D(8) [of "aidle a c"] D(9) [OF c] oidle by (metis imageE)
      then show ?thesis using D(9) [OF c] D(5,14) [of "aidle a c"] oidle idle by auto
    qed
    then show "aalive a ?n" "?n \<notin> set (sleepq a)" "?n \<notin> P" "\<And>d. d \<in> C \<Longrightarrow> d \<noteq> c \<Longrightarrow> acur a d \<noteq> ?n"
      "state (ath a ?n) \<noteq> THREAD_DEAD" "is_idle (ath a ?n) \<Longrightarrow> ?n = aidle a c" "?n \<notin> set (tl (aqueue c a))"
      "?n \<noteq> ?t \<Longrightarrow> on_cpu (ath a ?n) \<Longrightarrow> False" by blast+
  qed
  have q: "distinct (tl (aqueue c a))" "u \<in> set (tl (aqueue c a)) \<Longrightarrow> u \<in> set (runq a) \<or> u = ?t \<and> akeeps c a"
    "u \<in> set (runq a) \<or> u = ?t \<and> akeeps c a \<Longrightarrow> u \<noteq> ?n \<Longrightarrow> u \<in> set (tl (aqueue c a))" for u
  proof -
    have "distinct (aqueue c a)" using D(2) tq(1) by (simp add: aqueue_def)
    then show "distinct (tl (aqueue c a))" by (rule distinct_tl)
    have s: "set (aqueue c a) = set (runq a) \<union> (if akeeps c a then {?t} else {})" by (simp add: aqueue_def)
    then show "u \<in> set (runq a) \<or> u = ?t \<and> akeeps c a" if "u \<in> set (tl (aqueue c a))"
      using list.set_sel(2) [of "aqueue c a" u] that by (cases "aqueue c a = []") (auto split: if_splits)
    show "u \<in> set (tl (aqueue c a))" if "u \<in> set (runq a) \<or> u = ?t \<and> akeeps c a" "u \<noteq> ?n"
    proof -
      have u: "u \<in> set (aqueue c a)" using s that(1) by auto
      then obtain h r where hr: "aqueue c a = h # r" by (cases "aqueue c a") auto
      then have "h = ?n" by (simp add: anext_def)
      then show ?thesis using u that(2) hr by simp
    qed
  qed
  show ?thesis
  proof (rule place_okI; (unfold aswitch_sel aswitch_fields)?)
    fix u
    show "aalive a u \<and> (if u = ?n then THREAD_RUNNING else if u = ?t \<and> akeeps c a then THREAD_READY else state (ath a u)) = THREAD_READY \<and>
        \<not> (if u = ?n then True else if u = ?t then False else on_cpu (ath a u)) \<and> \<not> is_idle (ath a u)"
      if "u \<in> set (tl (aqueue c a))"
      using q(2) [OF that] D(4) [of u] n(7) that cur(1) kp by auto
    show "aalive a u \<and> (if u = ?n then THREAD_RUNNING else if u = ?t \<and> akeeps c a then THREAD_READY else state (ath a u)) = THREAD_BLOCKED \<and>
        \<not> (if u = ?n then True else if u = ?t then False else on_cpu (ath a u)) \<and> \<not> is_idle (ath a u)"
      if "u \<in> set (sleepq a)" using D(5) [OF that] n(2) tq(2) that by auto
    show "u \<in> set (tl (aqueue c a)) \<or> u \<in> P" if "aalive a u"
      "(if u = ?n then THREAD_RUNNING else if u = ?t \<and> akeeps c a then THREAD_READY else state (ath a u)) = THREAD_READY"
      using D(13) [OF that(1)] that(2) q(3) [of u] by (auto split: if_splits)
    show "aalive a u \<and> (if u = ?n then THREAD_RUNNING else if u = ?t \<and> akeeps c a then THREAD_READY else state (ath a u)) = THREAD_READY \<and>
        \<not> (if u = ?n then True else if u = ?t then False else on_cpu (ath a u)) \<and> \<not> is_idle (ath a u) \<and> u \<notin> set (tl (aqueue c a))"
      if "u \<in> P" using D(14) [OF that] n(3) tq(3) that q(2) [of u] by auto
    show "u \<in> (acur a)(c := ?n) ` C" if "aalive a u" "if u = ?n then True else if u = ?t then False else on_cpu (ath a u)"
    proof (cases "u = ?n")
      case True
      then show ?thesis using c by auto
    next
      case False
      then have "u \<noteq> ?t" "u \<in> acur a ` C" using that D(8) [of u] by (auto split: if_splits)
      then show ?thesis by auto
    qed
  next
    fix d assume d: "d \<in> C"
    show "aalive a (((acur a)(c := ?n)) d) \<and>
        (if ((acur a)(c := ?n)) d = ?n then True else if ((acur a)(c := ?n)) d = ?t then False else on_cpu (ath a (((acur a)(c := ?n)) d))) \<and>
        (if ((acur a)(c := ?n)) d = ?n then THREAD_RUNNING else if ((acur a)(c := ?n)) d = ?t \<and> akeeps c a then THREAD_READY
         else state (ath a (((acur a)(c := ?n)) d))) \<noteq> THREAD_READY \<and>
        (is_idle (ath a (((acur a)(c := ?n)) d)) \<longrightarrow> ((acur a)(c := ?n)) d = aidle a d \<and>
         (if ((acur a)(c := ?n)) d = ?n then THREAD_RUNNING else if ((acur a)(c := ?n)) d = ?t \<and> akeeps c a then THREAD_READY
         else state (ath a (((acur a)(c := ?n)) d))) = THREAD_RUNNING)"
      using D(6) [OF d] n(1,4,6) other d by (cases "d = c") auto
  next
    fix d
    show "aalive a (aidle a d) \<and> is_idle (ath a (aidle a d)) \<and>
        (if aidle a d = ?n then THREAD_RUNNING else if aidle a d = ?t \<and> akeeps c a then THREAD_READY else state (ath a (aidle a d))) = THREAD_RUNNING" if "aidle a d \<noteq> 0"
      using D(15) [OF that] kp by auto
    show "aalive a ((if state (ath a ?t) = THREAD_DEAD then (areap a)(c := ?t) else areap a) d) \<and>
        (if (if state (ath a ?t) = THREAD_DEAD then (areap a)(c := ?t) else areap a) d = ?n then THREAD_RUNNING
         else if (if state (ath a ?t) = THREAD_DEAD then (areap a)(c := ?t) else areap a) d = ?t \<and> akeeps c a then THREAD_READY
         else state (ath a ((if state (ath a ?t) = THREAD_DEAD then (areap a)(c := ?t) else areap a) d))) = THREAD_DEAD \<and>
        \<not> (if (if state (ath a ?t) = THREAD_DEAD then (areap a)(c := ?t) else areap a) d = ?n then True
           else if (if state (ath a ?t) = THREAD_DEAD then (areap a)(c := ?t) else areap a) d = ?t then False
           else on_cpu (ath a ((if state (ath a ?t) = THREAD_DEAD then (areap a)(c := ?t) else areap a) d))) \<and>
        \<not> is_idle (ath a ((if state (ath a ?t) = THREAD_DEAD then (areap a)(c := ?t) else areap a) d))"
      if "(if state (ath a ?t) = THREAD_DEAD then (areap a)(c := ?t) else areap a) d \<noteq> 0"
    proof (cases "state (ath a ?t) = THREAD_DEAD \<and> d = c")
      case True
      then have "?t \<noteq> ?n" "\<not> is_idle (ath a ?t)" "\<not> akeeps c a" using n(5) cur(4) kp by auto
      then show ?thesis using True cur(1) by simp
    next
      case False
      then have e: "(if state (ath a ?t) = THREAD_DEAD then (areap a)(c := ?t) else areap a) d = areap a d" by auto
      have r: "areap a d \<noteq> 0" using that e by simp
      note z = D(11) [OF r]
      have "areap a d \<noteq> ?n" "areap a d \<noteq> ?t" using z n(5) cur(2) by auto
      then show ?thesis unfolding e using z by simp
    qed
  next
    fix d e assume de:
      "(if state (ath a ?t) = THREAD_DEAD then (areap a)(c := ?t) else areap a) d =
       (if state (ath a ?t) = THREAD_DEAD then (areap a)(c := ?t) else areap a) e"
      "(if state (ath a ?t) = THREAD_DEAD then (areap a)(c := ?t) else areap a) d \<noteq> 0"
    have ne: "areap a d \<noteq> ?t" if "?t \<noteq> 0" for d using D(11) [of d] cur(2) that by metis
    show "d = e"
    proof (cases "state (ath a ?t) = THREAD_DEAD")
      case True
      then show ?thesis using de D(12) [of d e] ne [of d] ne [of e] by (auto split: if_splits)
    next
      case False
      then show ?thesis using de D(12) [of d e] by simp
    qed
  next
    show "inj_on ((acur a)(c := ?n)) C"
      using D(7) n(4) unfolding inj_on_def fun_upd_apply by metis
  qed (fact D(1) D(3) D(10) D(16) q(1))+
qed

end
