(* ===== verification/Schedstep.thy ===== *)
theory Schedstep
  imports Schedinv
begin

text \<open>
  The operations of the scheduler keep its invariant and never fault; the steps of the machine as
  a transition relation.
\<close>

subsection \<open>Dead threads\<close>

lemma mem_okD:
  assumes "mem_ok R L a"
  shows "heap_ok R (aheap a) L" "aalive a t \<Longrightarrow> t \<noteq> 0" "aalive a t \<Longrightarrow> L t \<noteq> None"
    "aalive a t \<Longrightarrow> kstack (ath a t) \<noteq> 0 \<Longrightarrow> L (kstack (ath a t)) \<noteq> None \<and> \<not> aalive a (kstack (ath a t))"
    "aalive a t \<Longrightarrow> is_user (ath a t) \<Longrightarrow> th_cr3 (ath a t) \<noteq> 0 \<Longrightarrow> th_cr3 (ath a t) \<in> R"
    "aalive a t \<Longrightarrow> aalive a u \<Longrightarrow> t \<noteq> u \<Longrightarrow> kstack (ath a t) = kstack (ath a u) \<Longrightarrow> kstack (ath a t) = 0"
    "aalive a t \<Longrightarrow> aalive a u \<Longrightarrow> t \<noteq> u \<Longrightarrow> is_user (ath a t) \<Longrightarrow> is_user (ath a u) \<Longrightarrow>
        th_cr3 (ath a t) = th_cr3 (ath a u) \<Longrightarrow> th_cr3 (ath a t) = 0"
    "aalive a t \<Longrightarrow> is_idle (ath a t) \<Longrightarrow> \<not> is_user (ath a t)"
  using assms unfolding mem_ok_def by blast+

lemma mem_okI:
  assumes "heap_ok R (aheap a) L" "\<And>t. aalive a t \<Longrightarrow> t \<noteq> 0 \<and> L t \<noteq> None"
    "\<And>t. aalive a t \<Longrightarrow> kstack (ath a t) \<noteq> 0 \<Longrightarrow> L (kstack (ath a t)) \<noteq> None \<and> \<not> aalive a (kstack (ath a t))"
    "\<And>t. aalive a t \<Longrightarrow> is_user (ath a t) \<Longrightarrow> th_cr3 (ath a t) \<noteq> 0 \<Longrightarrow> th_cr3 (ath a t) \<in> R"
    "\<And>t u. aalive a t \<Longrightarrow> aalive a u \<Longrightarrow> t \<noteq> u \<Longrightarrow> kstack (ath a t) = kstack (ath a u) \<Longrightarrow> kstack (ath a t) = 0"
    "\<And>t u. aalive a t \<Longrightarrow> aalive a u \<Longrightarrow> t \<noteq> u \<Longrightarrow> is_user (ath a t) \<Longrightarrow> is_user (ath a u) \<Longrightarrow>
        th_cr3 (ath a t) = th_cr3 (ath a u) \<Longrightarrow> th_cr3 (ath a t) = 0"
    "\<And>t. aalive a t \<Longrightarrow> is_idle (ath a t) \<Longrightarrow> \<not> is_user (ath a t)"
  shows "mem_ok R L a"
  using assms unfolding mem_ok_def by blast

lemma place_ok_dead:
  assumes I: "place_ok C P a" and c: "c \<in> C" and d: "d = areap a c" "d \<noteq> 0"
    and b: "runq b = runq a" "sleepq b = sleepq a" "acur b = acur a" "aidle b = aidle a"
      "areap b = (areap a)(c := 0)" "aalive b = (aalive a)(d := False)"
      "\<And>u. state (ath b u) = state (ath a u)" "\<And>u. on_cpu (ath b u) = on_cpu (ath a u)"
      "\<And>u. is_idle (ath b u) = is_idle (ath a u)"
  shows "place_ok C P b"
proof -
  note D = place_okD [OF I]
  have dd: "aalive a d" "state (ath a d) = THREAD_DEAD" "\<not> on_cpu (ath a d)" "\<not> is_idle (ath a d)"
    using D(11) [of c] d by auto
  have nd: "d \<notin> set (runq a)" "d \<notin> set (sleepq a)" "d \<notin> P" using D(4,5,14) [of d] dd by auto
  show ?thesis
  proof (rule place_okI; (unfold b)?)
    fix e assume e: "e \<in> C"
    have "acur a e \<noteq> d" using D(6) [OF e] dd by auto
    then show "((aalive a)(d := False)) (acur a e) \<and> on_cpu (ath a (acur a e)) \<and> state (ath a (acur a e)) \<noteq> THREAD_READY \<and>
       (is_idle (ath a (acur a e)) \<longrightarrow> acur a e = aidle a e \<and> state (ath a (acur a e)) = THREAD_RUNNING)"
      using D(6) [OF e] by simp
  next
    fix e
    have "aidle a e \<noteq> d" if "aidle a e \<noteq> 0" using D(15) [OF that] dd by auto
    then show "((aalive a)(d := False)) (aidle a e) \<and> is_idle (ath a (aidle a e)) \<and> state (ath a (aidle a e)) = THREAD_RUNNING"
      if "aidle a e \<noteq> 0" using D(15) [OF that] that by simp
    show "((aalive a)(d := False)) (((areap a)(c := 0)) e) \<and> state (ath a (((areap a)(c := 0)) e)) = THREAD_DEAD \<and>
       \<not> on_cpu (ath a (((areap a)(c := 0)) e)) \<and> \<not> is_idle (ath a (((areap a)(c := 0)) e))"
      if "((areap a)(c := 0)) e \<noteq> 0"
    proof -
      have ec: "e \<noteq> c" "areap a e \<noteq> 0" using that by (auto split: if_splits)
      then have "areap a e \<noteq> d" using D(12) [of e c] d by auto
      then show ?thesis using D(11) [OF ec(2)] ec by simp
    qed
  next
    fix e f assume "((areap a)(c := 0)) e = ((areap a)(c := 0)) f" "((areap a)(c := 0)) e \<noteq> 0"
    then show "e = f" using D(12) [of e f] by (auto split: if_splits)
  next
    fix t
    show "((aalive a)(d := False)) t \<and> state (ath a t) = THREAD_READY \<and> \<not> on_cpu (ath a t) \<and> \<not> is_idle (ath a t)"
      if "t \<in> set (runq a)" using D(4) [OF that] nd(1) that by auto
    show "((aalive a)(d := False)) t \<and> state (ath a t) = THREAD_BLOCKED \<and> \<not> on_cpu (ath a t) \<and> \<not> is_idle (ath a t)"
      if "t \<in> set (sleepq a)" using D(5) [OF that] nd(2) that by auto
    show "((aalive a)(d := False)) t \<and> state (ath a t) = THREAD_READY \<and> \<not> on_cpu (ath a t) \<and> \<not> is_idle (ath a t) \<and> t \<notin> set (runq a)"
      if "t \<in> P" using D(14) [OF that] nd(3) that by auto
    show "t \<in> set (runq a) \<or> t \<in> P" if "((aalive a)(d := False)) t" "state (ath a t) = THREAD_READY"
      using D(13) [of t] that by (auto split: if_splits)
    show "t \<in> acur a ` C" if "((aalive a)(d := False)) t" "on_cpu (ath a t)"
      using D(8) [of t] that by (auto split: if_splits)
  qed (fact D(1) D(2) D(3) D(7) D(10) D(16))+
qed

definition reaped_spaces :: "nat \<Rightarrow> asched \<Rightarrow> u64 set" where
  "reaped_spaces c a = (if areap a c \<noteq> 0 \<and> is_user (ath a (areap a c)) then {th_cr3 (ath a (areap a c))} - {0} else {})"

text \<open>What a switch keeps: the kernel's page table, and the address space, the stack and the process of every thread that lives on.\<close>

definition stays :: "asched \<Rightarrow> asched \<Rightarrow> bool" where
  "stays a b \<longleftrightarrow> kroot (aheap b) = kroot (aheap a) \<and>
     (\<forall>t. aalive b t \<longrightarrow> aalive a t \<and> is_user (ath b t) = is_user (ath a t) \<and> th_cr3 (ath b t) = th_cr3 (ath a t) \<and>
        kstack (ath b t) = kstack (ath a t) \<and> process (ath b t) = process (ath a t))"

lemma stays_trans: "stays a b \<Longrightarrow> stays b c \<Longrightarrow> stays a c"
  by (simp add: stays_def)

text \<open>The allocated regions after a thread that died has been given back.\<close>

definition reaped_regions :: "nat \<Rightarrow> asched \<Rightarrow> (u64 \<Rightarrow> nat option) \<Rightarrow> u64 \<Rightarrow> nat option" where
  "reaped_regions c a L =
     (if areap a c = 0 then L
      else (let k = kstack (ath a (areap a c)) in (if k = 0 then L else L(k := None))(areap a c := None)))"

lemma kfree_null: "kfree 0 h = Some h"
  by (simp add: kfree_def)

lemma areap_dead_ok:
  assumes I: "ainv R L C P a" and c: "c \<in> C"
  obtains L' b where "areap_dead c a = Some b" "ainv (R - reaped_spaces c a) L' C P b" "areap b c = 0"
    "runq b = runq a" "sleepq b = sleepq a" "acur b = acur a" "ticks b = ticks a" "aidle b = aidle a"
    "\<And>t. aalive b t \<Longrightarrow> ath b t = ath a t" "aalive b = (\<lambda>t. aalive a t \<and> t \<noteq> areap a c)"
    "stays a b" "L' = reaped_regions c a L"
proof (cases "areap a c = 0")
  case True
  moreover have "aalive a = (\<lambda>t. aalive a t \<and> t \<noteq> 0)"
    using I mem_okD(2) [of R L a] by (auto simp: ainv_def fun_eq_iff)
  ultimately show ?thesis using that [of a L] I by (simp add: areap_dead_def reaped_spaces_def reaped_regions_def stays_def)
next
  case False
  define d x u where "d = areap a c" and "x = ath a d" and "u \<longleftrightarrow> is_user x \<and> th_cr3 x \<noteq> 0"
  have M: "mem_ok R L a" and pl: "place_ok C P a" using I by (simp_all add: ainv_def)
  note m = mem_okD [OF M]
  have d: "d \<noteq> 0" "aalive a d" using False place_okD(11) [OF pl] by (simp_all add: d_def)
  have R': "R - reaped_spaces c a = (if u then R - {th_cr3 x} else R)"
    using False by (auto simp: reaped_spaces_def u_def x_def d_def)
  obtain h1 where h1: "(if u then do { mm \<leftarrow> vmm_space_destroy (th_cr3 x) (hp_mm (aheap a)); Some ((aheap a)\<lparr>hp_mm := mm\<rparr>) }
      else Some (aheap a)) = Some h1" "heap_ok (R - reaped_spaces c a) h1 L" "kroot h1 = kroot (aheap a)"
  proof (cases u)
    case True
    then have "th_cr3 x \<in> R" "th_cr3 x \<noteq> 0" using m(5) [OF d(2)] by (auto simp: u_def x_def)
    then obtain mm where "vmm_space_destroy (th_cr3 x) (hp_mm (aheap a)) = Some mm"
      "heap_ok (R - {th_cr3 x}) ((aheap a)\<lparr>hp_mm := mm\<rparr>) L" "freed (hp_mm (aheap a)) mm (space_frames (th_cr3 x) (hp_mm (aheap a)))"
      using heap_ok_destroy [OF m(1), of "th_cr3 x"] by blast
    then show ?thesis using that [of "(aheap a)\<lparr>hp_mm := mm\<rparr>"] True freedD(4) unfolding R' by simp
  next
    case u: False
    then show ?thesis using that m(1) unfolding R' by simp
  qed
  let ?L1 = "if kstack x = 0 then L else L(kstack x := None)"
  obtain h2 where h2: "kfree (kstack x) h1 = Some h2" "heap_ok (R - reaped_spaces c a) h2 ?L1"
    using kfree_spec [OF h1(2), of "kstack x"] m(4) [OF d(2)] h1(2) that
    by (cases "kstack x = 0") (auto simp: kfree_null x_def)
  have ds: "kstack x \<noteq> 0 \<Longrightarrow> \<not> aalive a (kstack x)" using m(4) [OF d(2)] by (auto simp: x_def)
  then have Ld: "?L1 d \<noteq> None" using m(3) [OF d(2)] d(2) by auto
  obtain h3 where h3: "kfree d h2 = Some h3" "heap_ok (R - reaped_spaces c a) h3 (?L1(d := None))"
    using kfree_spec [OF h2(2) Ld] by blast
  let ?b = "a\<lparr>areap := (areap a)(c := 0), aalive := (aalive a)(d := False), aheap := h3,
      ath := (ath a)(d := (if u then x\<lparr>th_cr3 := 0\<rparr> else x))\<rparr>"
  have e: "areap_dead c a = Some ?b"
    using False h1(1) h2(1) h3(1) unfolding areap_dead_def Let_def d_def [symmetric] x_def [symmetric] u_def [symmetric]
    by simp
  have th: "ath ?b t = ath a t" if "aalive ?b t" for t using that by (auto split: if_splits)
  have al: "aalive ?b = (\<lambda>t. aalive a t \<and> t \<noteq> areap a c)" by (auto simp: d_def fun_eq_iff)
  have ab: "aalive ?b t \<longleftrightarrow> aalive a t \<and> t \<noteq> d" for t by simp
  have "place_ok C P ?b" by (rule place_ok_dead [OF pl c, of d]) (use d in \<open>auto simp: d_def x_def\<close>)
  moreover have "mem_ok (R - reaped_spaces c a) (?L1(d := None)) ?b"
  proof (rule mem_okI)
    show "heap_ok (R - reaped_spaces c a) (aheap ?b) (?L1(d := None))" using h3(2) by simp
    fix t assume t: "aalive ?b t"
    then have t': "aalive a t" "t \<noteq> d" "ath ?b t = ath a t" using ab [of t] th [of t] by blast+
    show "t \<noteq> 0 \<and> (?L1(d := None)) t \<noteq> None" using m(2,3) [OF t'(1)] t' ds by auto
    show "th_cr3 (ath ?b t) \<in> R - reaped_spaces c a" if "is_user (ath ?b t)" "th_cr3 (ath ?b t) \<noteq> 0"
      using m(5) [OF t'(1)] m(7) [OF t'(1) d(2) t'(2)] that t'(3) unfolding R' by (auto simp: u_def x_def)
    show "(?L1(d := None)) (kstack (ath ?b t)) \<noteq> None \<and> \<not> aalive ?b (kstack (ath ?b t))" if "kstack (ath ?b t) \<noteq> 0"
    proof -
      have k: "kstack (ath a t) \<noteq> 0" using that t'(3) by simp
      have "kstack (ath a t) \<noteq> d" using m(4) [OF t'(1) k] d(2) by auto
      moreover have "kstack (ath a t) \<noteq> kstack x" using m(6) [OF t'(1) d(2) t'(2)] k by (auto simp: x_def)
      ultimately show ?thesis using m(4) [OF t'(1) k] t'(3) by simp
    qed
    show "\<not> is_user (ath ?b t)" if "is_idle (ath ?b t)" using m(8) [OF t'(1)] that unfolding t'(3) .
    fix v assume v: "aalive ?b v" "t \<noteq> v"
    then have v': "aalive a v" "ath ?b v = ath a v" using ab [of v] th [of v] by blast+
    show "kstack (ath ?b t) = 0" if "kstack (ath ?b t) = kstack (ath ?b v)"
      using m(6) [OF t'(1) v'(1) v(2)] that unfolding t'(3) v'(2) .
    show "th_cr3 (ath ?b t) = 0" if "is_user (ath ?b t)" "is_user (ath ?b v)" "th_cr3 (ath ?b t) = th_cr3 (ath ?b v)"
      using m(7) [OF t'(1) v'(1) v(2)] that unfolding t'(3) v'(2) .
  qed
  ultimately have "ainv (R - reaped_spaces c a) (?L1(d := None)) C P ?b" by (simp add: ainv_def)
  moreover have "stays a ?b"
    using h1(3) kfree_root [OF h2(1)] kfree_root [OF h3(1)] by (simp add: stays_def)
  moreover have "?L1(d := None) = reaped_regions c a L" using False by (simp add: reaped_regions_def Let_def x_def d_def)
  ultimately show ?thesis using that [OF e] th al by simp
qed

subsection \<open>A tick\<close>

lemma mem_ok_aset:
  assumes "\<And>x. kstack (f x) = kstack x" "\<And>x. is_user (f x) = is_user x" "\<And>x. th_cr3 (f x) = th_cr3 x"
    "\<And>x. is_idle (f x) = is_idle x"
  shows "mem_ok R L (aset t f a) = mem_ok R L a"
proof -
  have "kstack (ath (aset t f a) u) = kstack (ath a u)" "is_user (ath (aset t f a) u) = is_user (ath a u)"
    "th_cr3 (ath (aset t f a) u) = th_cr3 (ath a u)" "is_idle (ath (aset t f a) u) = is_idle (ath a u)" for u
    using assms by simp_all
  then show ?thesis unfolding mem_ok_def by (simp only: aset_sel(4,8))
qed

lemma mem_ok_fields:
  "mem_ok R L (awake ds xs a) = mem_ok R L a" "mem_ok R L (aswitch c a) = mem_ok R L a"
  "mem_ok R L (a\<lparr>ticks := n\<rparr>) = mem_ok R L a"
  unfolding mem_ok_def awake_sel(4,8) awake_fields aswitch_sel aswitch_fields by simp_all

text \<open>The state in which the next thread is chosen.\<close>

definition aready :: "nat \<Rightarrow> u64 \<Rightarrow> asched \<Rightarrow> asched" where
  "aready c r a = (let a = (aset (acur a c) (\<lambda>x. x\<lparr>rsp := r\<rparr>) a)\<lparr>ticks := ticks a + 1\<rparr> in awake [] (sleepq a) a)"

lemma aready_ok:
  assumes "ainv R L C P a"
  shows "ainv R L C P (aready c r a)"
  using assms place_ok_awake [of C P "(aset (acur a c) (\<lambda>x. x\<lparr>rsp := r\<rparr>) a)\<lparr>ticks := ticks a + 1\<rparr>"]
  by (simp add: ainv_def aready_def mem_ok_fields mem_ok_aset place_ok_ticks place_ok_rsp Let_def)

lemma aready_sel:
  "acur (aready c r a) = acur a" "aidle (aready c r a) = aidle a" "areap (aready c r a) = areap a"
  "aalive (aready c r a) = aalive a" "\<exists>us. runq (aready c r a) = runq a @ us" "ticks (aready c r a) = ticks a + 1"
  by (auto simp: aready_def awake_sel Let_def)

lemma aready_keeps:
  "aheap (aready c r a) = aheap a" "is_user (ath (aready c r a) t) = is_user (ath a t)"
  "th_cr3 (ath (aready c r a) t) = th_cr3 (ath a t)" "kstack (ath (aready c r a) t) = kstack (ath a t)"
  "process (ath (aready c r a) t) = process (ath a t)"
  by (simp_all add: aready_def Let_def awake_sel(8,9) awake_fields)

lemma stays_switch: "stays a (aswitch c (aready c r a))"
proof -
  have "process (ath (aswitch c x) t) = process (ath x t)" for x t by (simp add: aswitch_def)
  then show ?thesis by (simp add: stays_def aswitch_sel aswitch_fields aready_keeps aready_sel)
qed

lemma atick_eq: "areap_dead c a = Some b \<Longrightarrow> atick c r a = Some (aswitch c (aready c r b))"
  by (simp add: atick_def Let_def aready_def aswitch_eq [symmetric])

lemma atick_ok:
  assumes I: "ainv R L C P a" and c: "c \<in> C"
  obtains L' b us where "atick c r a = Some b" "ainv (R - reaped_spaces c a) L' C P b"
    "acur b = (acur a)(c := (case runq a @ us of [] \<Rightarrow> aidle a c | t # _ \<Rightarrow> t))" "runq b = tl (runq a @ us)" "stays a b"
    "L' = reaped_regions c a L"
proof -
  obtain L' a1 where a1: "areap_dead c a = Some a1" "ainv (R - reaped_spaces c a) L' C P a1" "areap a1 c = 0"
    "runq a1 = runq a" "acur a1 = acur a" "aidle a1 = aidle a" "stays a a1" "L' = reaped_regions c a L"
    using I c by (rule areap_dead_ok)
  let ?a2 = "aready c r a1"
  have "ainv (R - reaped_spaces c a) L' C P ?a2" using a1(2) by (rule aready_ok)
  then have "ainv (R - reaped_spaces c a) L' C P (aswitch c ?a2)"
    using place_ok_aswitch [of C P ?a2 c] c a1(3) by (simp add: ainv_def mem_ok_fields aready_sel)
  moreover obtain us where us: "aqueue c ?a2 = runq a @ us" using aready_sel(5) [of c r a1] a1(4) by (auto simp: aqueue_def)
  have "acur (aswitch c ?a2) = (acur a)(c := (case runq a @ us of [] \<Rightarrow> aidle a c | t # _ \<Rightarrow> t))"
    unfolding aswitch_sel anext_def us aready_sel a1(5,6) ..
  ultimately show ?thesis using that [OF atick_eq [OF a1(1)], of L' us] us stays_trans [OF a1(7) stays_switch] a1(8)
    by (simp add: aswitch_sel)
qed

text \<open>The concrete tick follows the abstract one.\<close>

lemma current_cpu: "c < 64 \<Longrightarrow> current_cpu_id (of_nat c) = Some c"
  by (simp add: current_cpu_id_def MAX_CPUS_def word_le_nat_alt unat_of_nat)

lemma tick_sim:
  assumes r: "srep s a" and b: "areap_dead c a = Some b" and c: "c < 64" and rp: "areap a c \<noteq> 0 \<Longrightarrow> aalive a (areap a c)"
    and al: "\<And>x. x \<in> {acur b c, aidle b c} \<union> set (runq b) \<union> set (sleepq b) \<Longrightarrow> aalive b x"
    and z: "acur b c \<noteq> 0" and dj: "set (runq b) \<inter> set (sleepq b) = {}"
    and q: "state (ath b (acur b c)) = THREAD_RUNNING \<Longrightarrow> acur b c \<notin> set (runq b) \<union> set (sleepq b)"
  obtains s' where "srep s' (aswitch c (aready c old b))"
    "sched_tick (of_nat c) old s = Some (rsp (ath (aswitch c (aready c old b)) (anext c (aready c old b))), s')"
    "cpu_cr3 s' c = (let x = ath (aswitch c (aready c old b)) (anext c (aready c old b))
      in if is_user x \<and> th_cr3 x \<noteq> 0 then th_cr3 x else vmm_pml4_phys (hp_mm (aheap b)))"
proof -
  obtain s1 where s1: "sched_reap c s = Some s1" "srep s1 b" using r b rp by (rule sched_reap_rep)
  let ?t = "acur b c" and ?f = "\<lambda>x. x\<lparr>rsp := old\<rparr>"
  have t: "aalive b ?t" using al by simp
  obtain s2 where s2: "tset ?t ?f s1 = Some s2" "srep s2 (aset ?t ?f b)"
    by (rule tset_rep [OF s1(2) t, where f = ?f]) (auto simp: bare_def)
  let ?a3 = "(aset ?t ?f b)\<lparr>ticks := ticks b + 1\<rparr>"
  have s3: "srep (s2\<lparr>g_ticks := g_ticks s2 + 1\<rparr>) ?a3" using s2(2) by (simp add: srep_def)
  let ?a4 = "aready c old b"
  obtain s4 where s4: "wake_sleepers 0 (s2\<lparr>g_ticks := g_ticks s2 + 1\<rparr>) = Some s4" "srep s4 ?a4"
    by (rule wake_sleepers_rep [OF s3, of "[]" "sleepq ?a3"]) (use al dj in \<open>auto simp: aready_def Let_def\<close>)
  have q4: "set (runq ?a4) \<subseteq> set (runq b) \<union> set (sleepq b)" by (auto simp: aready_def Let_def awake_sel)
  have k: "?t \<notin> set (runq ?a4)" if "state (ath ?a4 ?t) = THREAD_RUNNING"
    using that q q4 unfolding aready_def Let_def awake_fields by (auto split: if_splits)
  obtain s5 where s5: "sched_requeue c ?t s4 = Some s5" "srep s5 (arequeue c ?a4)"
    by (rule sched_requeue_rep [OF s4(2), of ?t c]) (use t z k q4 al in \<open>auto simp: aready_sel\<close>)
  let ?a5 = "arequeue c ?a4" and ?n = "anext c ?a4"
  have a5: "acur ?a5 = acur b" "aalive ?a5 = aalive b" "aidle ?a5 = aidle b" "runq ?a5 = aqueue c ?a4"
    by (simp_all add: arequeue_eq aready_sel)
  have n: "achosen c ?a5 = ?n" unfolding achosen_def anext_def a5 aready_sel ..
  have q5: "set (aqueue c ?a4) \<subseteq> insert ?t (set (runq b) \<union> set (sleepq b))"
    using q4 by (auto simp: aqueue_def aready_sel)
  obtain s6 where s6: "sched_pick c ?t s5 = Some (?n, s6)" "srep s6 (aswitch c ?a4)"
    by (rule sched_pick_rep [OF s5(2)]) (use q5 al in \<open>auto simp: a5 n aswitch_eq\<close>)
  have "aalive b ?n" using q5 al by (auto simp: anext_def aready_sel split: list.split)
  then have n2: "tget ?n s6 = Some (thr s6 ?n)" using srepD(6) [OF s6(2)] by (simp add: tget_def aswitch_sel aready_sel)
  let ?x = "thr s6 ?n"
  define s7 where "s7 = (if is_user ?x \<and> th_cr3 ?x \<noteq> 0 then
         s6\<lparr>tss_rsp0 := kstack_top ?x, kernel_rsp := (kernel_rsp s6)(c := kstack_top ?x),
           cpu_cr3 := (cpu_cr3 s6)(c := th_cr3 ?x)\<rparr>
       else s6\<lparr>cpu_cr3 := (cpu_cr3 s6)(c := vmm_pml4_phys (hp_mm (sc_heap s6)))\<rparr>)"
  have "sched_enter c ?n s6 = Some (rsp ?x, s7)" unfolding sched_enter_def n2 s7_def by simp
  moreover have "cpu_current s1 c = ?t" using srepD(7) [OF s1(2)] by simp
  ultimately have "sched_tick (of_nat c) old s = Some (rsp ?x, s7)"
    unfolding sched_tick_def using s1(1) s2(1) s4(1) s5(1) s6(1) by (simp add: current_cpu [OF c] Let_def)
  moreover have "srep s7 (aswitch c ?a4)" using s6(2) by (auto simp: s7_def srep_def)
  moreover have h: "aheap (aswitch c ?a4) = aheap b" by (simp add: aswitch_sel aready_def Let_def awake_sel)
  have "cpu_cr3 s7 c = (let x = ath (aswitch c ?a4) ?n in if is_user x \<and> th_cr3 x \<noteq> 0 then th_cr3 x else vmm_pml4_phys (hp_mm (aheap b)))"
    using srep_sel [OF s6(2), of ?n] srepD(10) [OF s6(2)] h by (simp add: s7_def Let_def)
  moreover have "rsp ?x = rsp (ath (aswitch c ?a4) ?n)" using srep_sel [OF s6(2)] by simp
  ultimately show ?thesis using that by simp
qed

lemma sched_tick_rep:
  assumes r: "srep s a" and I: "ainv R L C P a" and c: "c \<in> C"
  obtains s' b where "atick c old a = Some b" "srep s' b" "sched_tick (of_nat c) old s = Some (rsp (ath b (acur b c)), s')"
    "cpu_cr3 s' c = (let x = ath b (acur b c) in if is_user x \<and> th_cr3 x \<noteq> 0 then th_cr3 x else vmm_pml4_phys (hp_mm (aheap b)))"
proof -
  obtain L' a1 where a1: "areap_dead c a = Some a1" "ainv (R - reaped_spaces c a) L' C P a1"
    using I c by (rule areap_dead_ok)
  have p1: "place_ok C P a1" and pl: "place_ok C P a" using I a1(2) by (simp_all add: ainv_def)
  note D = place_okD [OF p1]
  have z: "aalive a1 t \<Longrightarrow> t \<noteq> 0" for t using a1(2) mem_okD(2) [of _ L' a1] by (auto simp: ainv_def)
  obtain s' where s': "srep s' (aswitch c (aready c old a1))"
    "sched_tick (of_nat c) old s = Some (rsp (ath (aswitch c (aready c old a1)) (anext c (aready c old a1))), s')"
    "cpu_cr3 s' c = (let x = ath (aswitch c (aready c old a1)) (anext c (aready c old a1))
      in if is_user x \<and> th_cr3 x \<noteq> 0 then th_cr3 x else vmm_pml4_phys (hp_mm (aheap a1)))"
  proof (rule tick_sim [OF r a1(1)])
    show "c < 64" using D(1) c by auto
    show "aalive a (areap a c)" if "areap a c \<noteq> 0" using place_okD(11) [OF pl that] by simp
    show "aalive a1 x" if "x \<in> {acur a1 c, aidle a1 c} \<union> set (runq a1) \<union> set (sleepq a1)" for x
      using that D(4-6,9) c by auto
    show "acur a1 c \<noteq> 0" using z D(6) [OF c] by blast
    show "set (runq a1) \<inter> set (sleepq a1) = {}" using D(4,5) by fastforce
    show "acur a1 c \<notin> set (runq a1) \<union> set (sleepq a1)" using D(4,5,6) c by blast
  qed
  have "acur (aswitch c (aready c old a1)) c = anext c (aready c old a1)" "aheap (aswitch c (aready c old a1)) = aheap a1"
    by (simp_all add: aswitch_sel aready_def Let_def awake_sel)
  note e = this
  show ?thesis by (rule that [OF atick_eq [OF a1(1)] s'(1)]) (simp_all only: e s'(2,3))
qed

subsection \<open>Going to sleep\<close>

definition asleep :: "nat \<Rightarrow> u64 \<Rightarrow> asched \<Rightarrow> asched" where
  "asleep c ms a = (aset (acur a c) (\<lambda>x. x\<lparr>sleep_deadline := ticks a + ms, state := THREAD_BLOCKED\<rparr>) a)\<lparr>sleepq := acur a c # sleepq a\<rparr>"

lemma sleep_enqueue_rep:
  assumes r: "srep s a" and c: "c < 64" and t: "aalive a (acur a c)" "acur a c \<noteq> 0" "\<not> is_idle (ath a (acur a c))"
    "acur a c \<notin> set (sleepq a)"
  obtains s' where "sleep_enqueue (of_nat c) ms s = Some (True, s')" "srep s' (asleep c ms a)"
proof -
  note R = srepD [OF r]
  let ?t = "acur a c"
  let ?m = "(thr s)(?t := (thr s ?t)\<lparr>sleep_deadline := g_ticks s + ms, state := THREAD_BLOCKED, sleep_next := sleep_head s\<rparr>)"
  let ?s = "s\<lparr>thr := ?m, sleep_head := ?t\<rparr>"
  have "sleep_enqueue (of_nat c) ms s = Some (True, ?s)"
    using t R(6,7) srep_sel(4) [OF r, of ?t] by (simp add: sleep_enqueue_def sched_current_def current_cpu [OF c] tget_def tset_def)
  moreover have "srep ?s (asleep c ms a)"
  proof -
    have "chain (\<lambda>x. sleep_next (?m x)) (sleep_head s) (sleepq a)"
      using R(3) by (rule chain_cong [THEN iffD2, rotated]) (use t(4) in auto)
    then have "chain (\<lambda>x. sleep_next (?m x)) ?t (?t # sleepq a)" using t(2) by simp
    moreover have "chain (\<lambda>x. run_next (?m x)) (rq_head s) (runq a)"
      using R(1) by (rule chain_cong [THEN iffD2, rotated]) simp
    moreover have "bare (?m x) = ath (asleep c ms a) x" for x
      using R(4) R(5) [of x] R(5) [of ?t, symmetric] by (auto simp: asleep_def bare_def)
    ultimately show ?thesis using R(2,4,6-10) unfolding srep_def by (simp add: asleep_def)
  qed
  ultimately show ?thesis using that by blast
qed

lemma areap_dead_asleep:
  assumes "areap a c \<noteq> acur a c"
  shows "areap_dead c (asleep c ms a) = map_option (asleep c ms) (areap_dead c a)"
proof (cases "areap a c = 0")
  case True
  then show ?thesis by (simp add: areap_dead_def asleep_def)
next
  case False
  have "areap (asleep c ms a) = areap a" "aheap (asleep c ms a) = aheap a" "ath (asleep c ms a) (areap a c) = ath a (areap a c)"
    using assms by (simp_all add: asleep_def)
  note e = this
  show ?thesis unfolding areap_dead_def e if_not_P [OF False] Let_def using assms
    by (auto simp: map_option_bind asleep_def aset_def fun_upd_twist split: bind_splits intro!: Option.bind_cong)
qed

text \<open>A thread that gives up the processor to sleep is off the processor and on the list.\<close>

lemma place_ok_perm:
  assumes "place_ok C P a" "distinct q" "set q = set (runq a)"
  shows "place_ok C P (a\<lparr>runq := q\<rparr>)"
  using assms by (simp add: place_ok_defs)

lemma place_ok_cons_sleep:
  assumes I: "place_ok C P a" and t: "aalive a t" "state (ath a t) = THREAD_BLOCKED" "\<not> on_cpu (ath a t)" "\<not> is_idle (ath a t)"
    "t \<notin> set (sleepq a)"
  shows "place_ok C P (a\<lparr>sleepq := t # sleepq a\<rparr>)"
  using I t by (simp add: place_ok_defs)

lemma place_ok_curstate:
  assumes I: "place_ok C P a" and c: "c \<in> C" and t: "\<not> is_idle (ath a (acur a c))"
    and f: "\<And>x. on_cpu (f x) = on_cpu x" "\<And>x. is_idle (f x) = is_idle x" "state (f (ath a (acur a c))) \<noteq> THREAD_READY"
  shows "place_ok C P (aset (acur a c) f a)"
proof -
  note D = place_okD [OF I]
  let ?t = "acur a c" and ?b = "aset (acur a c) f a"
  have e: "on_cpu (ath ?b u) = on_cpu (ath a u)" "is_idle (ath ?b u) = is_idle (ath a u)"
    "state (ath ?b u) = (if u = ?t then state (f (ath a ?t)) else state (ath a u))" for u using f by simp_all
  note cur = D(6) [OF c]
  have nq: "?t \<notin> set (runq a)" "?t \<notin> set (sleepq a)" "?t \<notin> P" using cur D(4,5,14) by blast+
  have o: "acur a d = ?t \<Longrightarrow> d \<in> C \<Longrightarrow> d = c" for d using D(7) c by (auto simp: inj_on_def)
  show ?thesis
  proof (rule place_okI; (unfold e aset_sel(1-8))?)
    fix d assume d: "d \<in> C"
    show "aalive a (acur a d) \<and> on_cpu (ath a (acur a d)) \<and>
      (if acur a d = ?t then state (f (ath a ?t)) else state (ath a (acur a d))) \<noteq> THREAD_READY \<and>
      (is_idle (ath a (acur a d)) \<longrightarrow> acur a d = aidle a d \<and>
        (if acur a d = ?t then state (f (ath a ?t)) else state (ath a (acur a d))) = THREAD_RUNNING)"
      using D(6) [OF d] f(3) t by auto
  next
    fix u
    show "aalive a u \<and> (if u = ?t then state (f (ath a ?t)) else state (ath a u)) = THREAD_READY \<and> \<not> on_cpu (ath a u) \<and> \<not> is_idle (ath a u)"
      if "u \<in> set (runq a)" using D(4) [OF that] nq that by auto
    show "aalive a u \<and> (if u = ?t then state (f (ath a ?t)) else state (ath a u)) = THREAD_BLOCKED \<and> \<not> on_cpu (ath a u) \<and> \<not> is_idle (ath a u)"
      if "u \<in> set (sleepq a)" using D(5) [OF that] nq that by auto
    show "aalive a u \<and> (if u = ?t then state (f (ath a ?t)) else state (ath a u)) = THREAD_READY \<and> \<not> on_cpu (ath a u) \<and>
        \<not> is_idle (ath a u) \<and> u \<notin> set (runq a)"
      if "u \<in> P" using D(14) [OF that] nq that by auto
    show "u \<in> set (runq a) \<or> u \<in> P" if "aalive a u" "(if u = ?t then state (f (ath a ?t)) else state (ath a u)) = THREAD_READY"
      using D(13) [of u] that f(3) by (auto split: if_splits)
  next
    fix d
    show "aalive a (aidle a d) \<and> is_idle (ath a (aidle a d)) \<and>
      (if aidle a d = ?t then state (f (ath a ?t)) else state (ath a (aidle a d))) = THREAD_RUNNING" if "aidle a d \<noteq> 0"
      using D(15) [OF that] t by auto
    show "aalive a (areap a d) \<and> (if areap a d = ?t then state (f (ath a ?t)) else state (ath a (areap a d))) = THREAD_DEAD \<and>
       \<not> on_cpu (ath a (areap a d)) \<and> \<not> is_idle (ath a (areap a d))" if "areap a d \<noteq> 0"
      using D(11) [OF that] cur by auto
  qed (fact D(1) D(2) D(3) D(7) D(8) D(10) D(12) D(16))+
qed

lemma aswitch_ath:
  "ath (aswitch c a) u = (if u = anext c a then (ath a u)\<lparr>state := THREAD_RUNNING, on_cpu := True\<rparr>
     else if u = acur a c then (ath a u)\<lparr>state := (if akeeps c a then THREAD_READY else state (ath a u)), on_cpu := False\<rparr>
     else ath a u)"
  by (simp add: aswitch_def)

lemma aswitch_sleepq: "aswitch c (a\<lparr>sleepq := q\<rparr>) = (aswitch c a)\<lparr>sleepq := q\<rparr>"
proof -
  have "akeeps c (a\<lparr>sleepq := q\<rparr>) = akeeps c a" by (simp add: akeeps_def)
  then have k: "akeeps c (a\<lparr>sleepq := q\<rparr>) = akeeps c a" "aqueue c (a\<lparr>sleepq := q\<rparr>) = aqueue c a" by (simp_all add: aqueue_def)
  have n: "anext c (a\<lparr>sleepq := q\<rparr>) = anext c a" unfolding anext_def k by (simp split: list.split)
  show ?thesis
    by (rule asched.equality) (auto simp: aswitch_sel k n aswitch_ath fun_eq_iff)
qed

lemma aready_asleep:
  fixes ms b c defines "f \<equiv> \<lambda>x. x\<lparr>sleep_deadline := ticks b + ms, state := THREAD_BLOCKED\<rparr>"
    and "g \<equiv> \<lambda>x. x\<lparr>sleep_deadline := ticks b + ms\<rparr>" and "t \<equiv> acur b c"
  assumes t: "t \<notin> set (sleepq b)"
  shows "\<not> ticks b + ms \<le> ticks b + 1 \<Longrightarrow>
      aready c r (asleep c ms b) = (aready c r (aset t f b))\<lparr>sleepq := t # sleepq (aready c r (aset t f b))\<rparr>"
    "ticks b + ms \<le> ticks b + 1 \<Longrightarrow> runq (aready c r (aset t g b)) = runq b @ us \<Longrightarrow>
      aready c r (asleep c ms b) = (aset t (\<lambda>x. x\<lparr>state := THREAD_READY\<rparr>) (aready c r (aset t g b)))\<lparr>runq := runq b @ t # us\<rparr>"
proof -
  define X Y Z where "X = (aset t (\<lambda>x. x\<lparr>rsp := r\<rparr>) (asleep c ms b))\<lparr>ticks := ticks b + 1\<rparr>"
    and "Y = (aset t (\<lambda>x. x\<lparr>rsp := r\<rparr>) (aset t f b))\<lparr>ticks := ticks b + 1\<rparr>"
    and "Z = (aset t (\<lambda>x. x\<lparr>rsp := r\<rparr>) (aset t g b))\<lparr>ticks := ticks b + 1\<rparr>"
  have e: "aready c r (asleep c ms b) = awake [] (t # sleepq b) X" "aready c r (aset t f b) = awake [] (sleepq b) Y"
    "aready c r (aset t g b) = awake [] (sleepq b) Z"
    by (simp_all add: aready_def X_def Y_def Z_def asleep_def t_def Let_def)
  have d: "due Y = due X" "due Z = due X" "due X t \<longleftrightarrow> ticks b + ms \<le> ticks b + 1"
    by (simp_all add: due_def X_def Y_def Z_def f_def g_def asleep_def fun_eq_iff t_def)
  have X: "X = Y\<lparr>sleepq := t # sleepq b\<rparr>" by (simp add: X_def Y_def asleep_def f_def t_def)
  have Z: "Y = aset t (\<lambda>x. x\<lparr>state := THREAD_BLOCKED\<rparr>) Z" by (rule asched.equality) (simp_all add: Z_def Y_def f_def g_def fun_eq_iff)
  show "aready c r (asleep c ms b) = (aready c r (aset t f b))\<lparr>sleepq := t # sleepq (aready c r (aset t f b))\<rparr>"
    if "\<not> ticks b + ms \<le> ticks b + 1"
  proof -
    have nd: "\<not> due X t" using that d(3) by simp
    then have "(\<lambda>u. if u \<in> set (t # sleepq b) \<and> due X u then (ath X u)\<lparr>state := THREAD_READY\<rparr> else ath X u) =
        (\<lambda>u. if u \<in> set (sleepq b) \<and> due X u then (ath Y u)\<lparr>state := THREAD_READY\<rparr> else ath Y u)"
      by (auto simp: X fun_eq_iff)
    then show ?thesis unfolding e awake_def d using nd by (simp add: X)
  qed
  show "aready c r (asleep c ms b) = (aset t (\<lambda>x. x\<lparr>state := THREAD_READY\<rparr>) (aready c r (aset t g b)))\<lparr>runq := runq b @ t # us\<rparr>"
    if "ticks b + ms \<le> ticks b + 1" "runq (aready c r (aset t g b)) = runq b @ us"
  proof -
    have dd: "due X t" using that d(3) by simp
    have us: "us = filter (due X) (sleepq b)" "runq Z = runq b" "sleepq Z = sleepq b" "runq X = runq b"
      using that(2) unfolding e awake_sel d by (simp_all add: Z_def X_def asleep_def)
    have "(\<lambda>u. if u \<in> set (t # sleepq b) \<and> due X u then (ath X u)\<lparr>state := THREAD_READY\<rparr> else ath X u) =
        (\<lambda>u. if u \<in> set (sleepq b) \<and> due X u then (ath Z u)\<lparr>state := THREAD_READY\<rparr> else ath Z u)
          (t := ((\<lambda>u. if u \<in> set (sleepq b) \<and> due X u then (ath Z u)\<lparr>state := THREAD_READY\<rparr> else ath Z u) t)\<lparr>state := THREAD_READY\<rparr>)"
      using dd t by (auto simp: X Z fun_eq_iff)
    note th = this
    show ?thesis
    proof (rule asched.equality)
      show "ath (aready c r (asleep c ms b)) =
        ath ((aset t (\<lambda>x. x\<lparr>state := THREAD_READY\<rparr>) (aready c r (aset t g b)))\<lparr>runq := runq b @ t # us\<rparr>)"
        unfolding e awake_def d using th by simp
      show "runq (aready c r (asleep c ms b)) =
        runq ((aset t (\<lambda>x. x\<lparr>state := THREAD_READY\<rparr>) (aready c r (aset t g b)))\<lparr>runq := runq b @ t # us\<rparr>)"
        unfolding e awake_def d using us dd by simp
      show "sleepq (aready c r (asleep c ms b)) =
        sleepq ((aset t (\<lambda>x. x\<lparr>state := THREAD_READY\<rparr>) (aready c r (aset t g b)))\<lparr>runq := runq b @ t # us\<rparr>)"
        unfolding e awake_def d using dd by simp
    qed (simp_all add: e awake_def X Z)
  qed
qed

lemma place_ok_sleep:
  assumes I: "place_ok C P b" and c: "c \<in> C" and rp: "areap b c = 0"
    and t: "\<not> is_idle (ath b (acur b c))" "state (ath b (acur b c)) = THREAD_RUNNING"
  shows "place_ok C P (aswitch c (aready c r (asleep c ms b)))"
proof -
  let ?t = "acur b c"
  let ?f = "\<lambda>x. x\<lparr>sleep_deadline := ticks b + ms, state := THREAD_BLOCKED\<rparr>"
    and ?g = "\<lambda>x. x\<lparr>sleep_deadline := ticks b + ms\<rparr>"
  note D = place_okD [OF I]
  note cur = D(6) [OF c]
  have ns: "?t \<notin> set (sleepq b)" using D(5) cur by blast
  have ready: "place_ok C P (aready c r a)" if "place_ok C P a" for a
    using place_ok_awake [of C P "(aset (acur a c) (\<lambda>x. x\<lparr>rsp := r\<rparr>) a)\<lparr>ticks := ticks a + 1\<rparr>"] that
    by (simp add: aready_def place_ok_ticks place_ok_rsp Let_def)
  show ?thesis
  proof (cases "ticks b + ms \<le> ticks b + 1")
    case False
    define a where "a = aready c r (aset ?t ?f b)"
    have a: "place_ok C P a" unfolding a_def by (rule ready, rule place_ok_curstate [OF I c t(1)]) simp_all
    have sl: "?t \<notin> set (sleepq a)" using ns by (auto simp: a_def aready_def Let_def awake_sel)
    have sel: "acur a = acur b" "aalive a = aalive b" "areap a = areap b" by (simp_all add: a_def aready_sel)
    have th: "state (ath a ?t) = THREAD_BLOCKED" "is_idle (ath a ?t) = is_idle (ath b ?t)"
      using ns by (simp_all add: a_def aready_def Let_def awake_fields)
    have "place_ok C P (aswitch c a)" using place_ok_aswitch [OF a c] rp sel by simp
    moreover have "anext c a \<noteq> ?t"
      using a c
    proof (cases rule: anext_cases)
      case self
      then show ?thesis using th sel by (simp add: akeeps_def)
    next
      case idle
      then show ?thesis using place_okD(9) [OF a c] th(2) t(1) by auto
    qed (simp add: sel)
    then have "state (ath (aswitch c a) ?t) = THREAD_BLOCKED" "\<not> on_cpu (ath (aswitch c a) ?t)"
      "\<not> is_idle (ath (aswitch c a) ?t)"
      unfolding aswitch_fields using th t(1) by (simp_all add: akeeps_def sel)
    ultimately have "place_ok C P ((aswitch c a)\<lparr>sleepq := ?t # sleepq (aswitch c a)\<rparr>)"
      using cur sl by (intro place_ok_cons_sleep) (simp_all add: aswitch_sel sel)
    then show ?thesis
      unfolding aready_asleep(1) [OF ns False] a_def [symmetric] aswitch_sleepq aswitch_sel .
  next
    case True
    define a where "a = aready c r (aset ?t ?g b)"
    have a: "place_ok C P a" unfolding a_def by (rule ready, rule place_ok_curstate [OF I c t(1)]) (use t in simp_all)
    obtain us where us: "runq a = runq b @ us" using aready_sel(5) [of c r "aset ?t ?g b"] by (auto simp: a_def)
    have sel: "acur a = acur b" "aalive a = aalive b" "areap a = areap b" "aidle a = aidle b" by (simp_all add: a_def aready_sel)
    have th: "state (ath a ?t) = THREAD_RUNNING" "is_idle (ath a ?t) = is_idle (ath b ?t)" "on_cpu (ath a ?t)"
      using ns t(2) cur by (simp_all add: a_def aready_def Let_def awake_fields)
    define x where "x = (aset ?t (\<lambda>x. x\<lparr>state := THREAD_READY\<rparr>) a)\<lparr>runq := runq b @ ?t # us\<rparr>"
    have x: "aready c r (asleep c ms b) = x" unfolding x_def a_def by (rule aready_asleep(2) [OF ns True us [unfolded a_def]])
    have xs: "runq x = runq b @ ?t # us" "sleepq x = sleepq a" "ticks x = ticks a" "acur x = acur b" "aidle x = aidle b"
      "areap x = areap b" "aalive x = aalive b" "aheap x = aheap a" "\<And>u. ath x u = (if u = ?t then (ath a u)\<lparr>state := THREAD_READY\<rparr> else ath a u)"
      by (simp_all add: x_def sel)
    have k: "\<not> akeeps c x" "akeeps c a" using th t(1) by (simp_all add: akeeps_def xs sel)
    have aq: "aqueue c x = runq b @ ?t # us" "aqueue c a = runq b @ us @ [?t]" using k us by (simp_all add: aqueue_def xs sel)
    show ?thesis
    proof (cases "runq b")
      case Nil
      have n: "anext c x = ?t" using Nil by (simp add: anext_def aq)
      have "aswitch c x = a"
      proof (rule asched.equality)
        show "ath (aswitch c x) = ath a"
          using th by (auto simp: aswitch_ath n xs)
      qed (use Nil us in \<open>simp_all add: aswitch_sel aq n xs sel\<close>)
      then show ?thesis using a x by simp
    next
      case (Cons h q)
      have n: "anext c x = h" "anext c a = h" using Cons by (simp_all add: anext_def aq)
      have "state (ath b h) = THREAD_READY" using D(4) [of h] Cons by simp
      then have ht: "h \<noteq> ?t" using t(2) by auto
      have "aswitch c x = (aswitch c a)\<lparr>runq := q @ ?t # us\<rparr>"
      proof (rule asched.equality)
        show "ath (aswitch c x) = ath ((aswitch c a)\<lparr>runq := q @ ?t # us\<rparr>)"
          using ht k by (auto simp: aswitch_ath n xs sel)
        show "areap (aswitch c x) = areap ((aswitch c a)\<lparr>runq := q @ ?t # us\<rparr>)"
          using th by (simp add: aswitch_sel xs sel)
      qed (use Cons in \<open>simp_all add: aswitch_sel aq n xs sel\<close>)
      moreover have "place_ok C P ((aswitch c a)\<lparr>runq := q @ ?t # us\<rparr>)"
      proof (rule place_ok_perm)
        show "place_ok C P (aswitch c a)" using place_ok_aswitch [OF a c] rp sel by simp
        then show "distinct (q @ ?t # us)" using place_okD(2) Cons aq(2) by (fastforce simp: aswitch_sel)
        show "set (q @ ?t # us) = set (runq (aswitch c a))" using Cons aq(2) by (auto simp: aswitch_sel)
      qed
      ultimately show ?thesis using x by simp
    qed
  qed
qed

lemma mem_ok_aready: "mem_ok R L (aready c r a) = mem_ok R L a"
  by (simp add: aready_def Let_def mem_ok_fields mem_ok_aset)

lemma mem_ok_asleep: "mem_ok R L (asleep c ms a) = mem_ok R L a"
proof -
  have "mem_ok R L (a\<lparr>sleepq := q\<rparr>) = mem_ok R L a" for a q by (simp add: mem_ok_def)
  then show ?thesis by (simp add: asleep_def mem_ok_aset)
qed

lemma sched_sleep_rep:
  assumes r: "srep s a" and I: "ainv R L C P a" and c: "c \<in> C"
    and t: "\<not> is_idle (ath a (acur a c))" "state (ath a (acur a c)) = THREAD_RUNNING"
  obtains s' b L' us where "sched_sleep_ms (of_nat c) ms old s = Some (rsp (ath b (acur b c)), s')" "srep s' b"
    "ainv (R - reaped_spaces c a) L' C P b"
    "acur b = (acur a)(c := (case runq a @ us of [] \<Rightarrow> aidle a c | t # _ \<Rightarrow> t))" "runq b = tl (runq a @ us)"
    "stays a b" "L' = reaped_regions c a L"
    "cpu_cr3 s' c = (let x = ath b (acur b c) in if is_user x \<and> th_cr3 x \<noteq> 0 then th_cr3 x else vmm_pml4_phys (hp_mm (aheap b)))"
proof -
  obtain L' a1 where a1: "areap_dead c a = Some a1" "ainv (R - reaped_spaces c a) L' C P a1" "areap a1 c = 0"
    "runq a1 = runq a" "sleepq a1 = sleepq a" "acur a1 = acur a" "aidle a1 = aidle a" "\<forall>t. aalive a1 t \<longrightarrow> ath a1 t = ath a t"
    "stays a a1" "L' = reaped_regions c a L"
    by (rule areap_dead_ok [OF I c]) blast
  have p1: "place_ok C P a1" and pl: "place_ok C P a" and m1: "mem_ok (R - reaped_spaces c a) L' a1" and m: "mem_ok R L a"
    using I a1(2) by (simp_all add: ainv_def)
  note D = place_okD [OF p1] and E = place_okD [OF pl]
  let ?t = "acur a c"
  have cur: "aalive a ?t" "on_cpu (ath a ?t)" "aalive a1 ?t" using E(6) [OF c] D(6) [OF c] a1(6) by simp_all
  have c64: "c < 64" using D(1) c by auto
  have nq: "?t \<notin> set (sleepq a)" "?t \<notin> set (runq a)" using E(4,5) cur by blast+
  obtain s1 where s1: "sleep_enqueue (of_nat c) ms s = Some (True, s1)" "srep s1 (asleep c ms a)"
    using mem_okD(2) [OF m cur(1)] by (rule sleep_enqueue_rep [OF r c64 cur(1) _ t(1) nq(1)])
  have "areap a c \<noteq> ?t" using E(11) [of c] cur(2) mem_okD(2) [OF m cur(1)] by metis
  then have rd: "areap_dead c (asleep c ms a) = Some (asleep c ms a1)"
    using areap_dead_asleep [of a c ms] a1(1) by simp
  have sel: "acur (asleep c ms a1) = acur a" "runq (asleep c ms a1) = runq a" "sleepq (asleep c ms a1) = ?t # sleepq a"
    "aidle (asleep c ms a1) = aidle a" "aalive (asleep c ms a1) = aalive a1" "state (ath (asleep c ms a1) ?t) = THREAD_BLOCKED"
    using a1 by (simp_all add: asleep_def)
  let ?b = "aswitch c (aready c old (asleep c ms a1))" and ?n = "anext c (aready c old (asleep c ms a1))"
  obtain s2 where s2: "srep s2 ?b" "sched_tick (of_nat c) old s1 = Some (rsp (ath ?b ?n), s2)"
    "cpu_cr3 s2 c = (let x = ath ?b ?n in if is_user x \<and> th_cr3 x \<noteq> 0 then th_cr3 x else vmm_pml4_phys (hp_mm (aheap (asleep c ms a1))))"
  proof (rule tick_sim [OF s1(2) rd c64, where old = old])
    show "aalive (asleep c ms a) (areap (asleep c ms a) c)" if "areap (asleep c ms a) c \<noteq> 0"
      using that E(11) [of c] by (simp add: asleep_def)
    show "aalive (asleep c ms a1) x" if "x \<in> {acur (asleep c ms a1) c, aidle (asleep c ms a1) c} \<union>
        set (runq (asleep c ms a1)) \<union> set (sleepq (asleep c ms a1))" for x
      using that D(4,5,9) c cur(3) unfolding sel a1(4,5,7) by auto
    show "acur (asleep c ms a1) c \<noteq> 0" using mem_okD(2) [OF m cur(1)] by (simp add: sel)
    show "set (runq (asleep c ms a1)) \<inter> set (sleepq (asleep c ms a1)) = {}" using E(4,5) nq unfolding sel by fastforce
  qed (simp_all add: sel)
  have "state (ath a1 ?t) = THREAD_RUNNING" "\<not> is_idle (ath a1 ?t)" using a1(8) cur(3) t by simp_all
  then have "place_ok C P ?b" using place_ok_sleep [OF p1 c a1(3), of old ms] a1(6) by simp
  then have inv: "ainv (R - reaped_spaces c a) L' C P ?b"
    using m1 by (simp add: ainv_def mem_ok_fields mem_ok_aready mem_ok_asleep)
  obtain us where us: "aqueue c (aready c old (asleep c ms a1)) = runq a @ us"
    using aready_sel(5) [of c old "asleep c ms a1"] sel by (auto simp: aqueue_def)
  have "acur ?b = (acur a)(c := (case runq a @ us of [] \<Rightarrow> aidle a c | t # _ \<Rightarrow> t))" "runq ?b = tl (runq a @ us)"
    unfolding aswitch_sel anext_def us aready_sel sel by (rule refl)+
  moreover have "sched_sleep_ms (of_nat c) ms old s = Some (rsp (ath ?b (acur ?b c)), s2)"
    using s1(1) s2(2) by (simp add: sched_sleep_ms_def aswitch_sel)
  moreover have "stays a ?b"
  proof (rule stays_trans [OF a1(9)], rule stays_trans [OF _ stays_switch])
    show "stays a1 (asleep c ms a1)" by (simp add: stays_def asleep_def)
  qed
  moreover have "acur ?b c = ?n" "aheap ?b = aheap (asleep c ms a1)" by (simp_all add: aswitch_sel aready_keeps)
  then have "cpu_cr3 s2 c = (let x = ath ?b (acur ?b c) in if is_user x \<and> th_cr3 x \<noteq> 0 then th_cr3 x else vmm_pml4_phys (hp_mm (aheap ?b)))"
    by (simp only: s2(3))
  ultimately show ?thesis using that s2(1) inv a1(10) by blast
qed

end
