(* ===== verification/Schedops.thy ===== *)
theory Schedops
  imports Schedstep
begin

text \<open>
  The other operations of the scheduler: waking, starting and creating threads, and bringing
  processors up.
\<close>

subsection \<open>Making threads ready\<close>

lemma place_ok_ready:
  assumes I: "place_ok C P a" and t: "aalive a t" "\<not> on_cpu (ath a t)" "\<not> is_idle (ath a t)"
    "t \<notin> set (sleepq a)" "t \<notin> set (runq a)" "state (ath a t) \<noteq> THREAD_DEAD"
  shows "place_ok C (P - {t}) (aenq t (aset t (\<lambda>x. x\<lparr>state := THREAD_READY\<rparr>) a))"
proof -
  note D = place_okD [OF I]
  let ?b = "aenq t (aset t (\<lambda>x. x\<lparr>state := THREAD_READY\<rparr>) a)"
  have e: "on_cpu (ath ?b u) = on_cpu (ath a u)" "is_idle (ath ?b u) = is_idle (ath a u)"
    "state (ath ?b u) = (if u = t then THREAD_READY else state (ath a u))" for u by simp_all
  show ?thesis
  proof (rule place_okI; (unfold e aenq_sel(1-8) aset_sel(1-8))?)
    show "distinct (runq a @ [t])" using D(2) t(5) by simp
    fix u
    show "aalive a u \<and> (if u = t then THREAD_READY else state (ath a u)) = THREAD_READY \<and> \<not> on_cpu (ath a u) \<and> \<not> is_idle (ath a u)"
      if "u \<in> set (runq a @ [t])" using that D(4) [of u] t by auto
    show "aalive a u \<and> (if u = t then THREAD_READY else state (ath a u)) = THREAD_BLOCKED \<and> \<not> on_cpu (ath a u) \<and> \<not> is_idle (ath a u)"
      if "u \<in> set (sleepq a)" using that D(5) [of u] t by auto
    show "u \<in> set (runq a @ [t]) \<or> u \<in> P - {t}" if "aalive a u" "(if u = t then THREAD_READY else state (ath a u)) = THREAD_READY"
      using D(13) [of u] that by (auto split: if_splits)
    show "aalive a u \<and> (if u = t then THREAD_READY else state (ath a u)) = THREAD_READY \<and> \<not> on_cpu (ath a u) \<and> \<not> is_idle (ath a u) \<and>
        u \<notin> set (runq a @ [t])"
      if "u \<in> P - {t}" using that D(14) [of u] by auto
  next
    fix c assume c: "c \<in> C"
    have "acur a c \<noteq> t" using D(6) [OF c] t(2) by auto
    then show "aalive a (acur a c) \<and> on_cpu (ath a (acur a c)) \<and>
      (if acur a c = t then THREAD_READY else state (ath a (acur a c))) \<noteq> THREAD_READY \<and>
      (is_idle (ath a (acur a c)) \<longrightarrow> acur a c = aidle a c \<and>
        (if acur a c = t then THREAD_READY else state (ath a (acur a c))) = THREAD_RUNNING)"
      using D(6) [OF c] by auto
  next
    fix c
    show "aalive a (aidle a c) \<and> is_idle (ath a (aidle a c)) \<and>
      (if aidle a c = t then THREAD_READY else state (ath a (aidle a c))) = THREAD_RUNNING" if "aidle a c \<noteq> 0"
      using D(15) [OF that] t by auto
    show "aalive a (areap a c) \<and> (if areap a c = t then THREAD_READY else state (ath a (areap a c))) = THREAD_DEAD \<and>
       \<not> on_cpu (ath a (areap a c)) \<and> \<not> is_idle (ath a (areap a c))" if "areap a c \<noteq> 0"
      using D(11) [OF that] t by auto
  qed (fact D(1) D(3) D(7) D(8) D(10) D(12) D(16))+
qed

lemma mem_ok_aenq: "mem_ok R L (aenq t a) = mem_ok R L a"
  by (simp add: mem_ok_def)

lemma runq_alive: "place_ok C P a \<Longrightarrow> x \<in> set (runq a) \<union> set (sleepq a) \<Longrightarrow> aalive a x"
  using place_okD(4,5) by blast

text \<open>A blocked thread that no sleep list holds becomes ready.\<close>

lemma sched_wake_rep:
  assumes r: "srep s a" and I: "ainv R L C P a" and t: "aalive a t" "\<not> on_cpu (ath a t)" "\<not> is_idle (ath a t)"
    "t \<notin> set (sleepq a)" "state (ath a t) = THREAD_BLOCKED"
  obtains s' where "sched_wake t s = Some s'" "srep s' (aenq t (aset t (\<lambda>x. x\<lparr>state := THREAD_READY\<rparr>) a))"
    "ainv R L C P (aenq t (aset t (\<lambda>x. x\<lparr>state := THREAD_READY\<rparr>) a))"
proof -
  have pl: "place_ok C P a" and m: "mem_ok R L a" using I by (simp_all add: ainv_def)
  let ?f = "\<lambda>x. x\<lparr>state := THREAD_READY\<rparr>"
  have nq: "t \<notin> set (runq a)" "t \<notin> P" using place_okD(4,14) [OF pl, of t] t(5) by auto
  obtain s1 where s1: "tset t ?f s = Some s1" "srep s1 (aset t ?f a)"
    by (rule tset_rep [OF r t(1), where f = ?f]) (auto simp: bare_def)
  obtain s2 where s2: "rq_add t s1 = Some s2" "srep s2 (aenq t (aset t ?f a))"
    by (rule rq_add_rep [OF s1(2)]) (use t(1) nq mem_okD(2) [OF m t(1)] runq_alive [OF pl] in auto)
  have "place_ok C P (aenq t (aset t ?f a))" using place_ok_ready [OF pl t(1-4) nq(1)] t(5) nq(2) by simp
  moreover have "mem_ok R L (aenq t (aset t ?f a))" using m by (simp add: mem_ok_aenq mem_ok_aset)
  ultimately show ?thesis using that s1(1) s2 by (simp add: sched_wake_def ainv_def)
qed

text \<open>A thread that has been created is put on the run queue.\<close>

lemma sched_add_rep:
  assumes r: "srep s a" and I: "ainv R L C P a" and t: "t \<in> P"
  obtains s' where "sched_add t s = Some s'" "srep s' (aenq t a)" "ainv R L C (P - {t}) (aenq t a)"
proof -
  have pl: "place_ok C P a" and m: "mem_ok R L a" using I by (simp_all add: ainv_def)
  note p = place_okD(14) [OF pl t]
  have "(ath a t)\<lparr>state := THREAD_READY\<rparr> = ath a t" by (rule thread.equality) (use p in simp_all)
  then have "aset t (\<lambda>x. x\<lparr>state := THREAD_READY\<rparr>) a = a" by (simp add: aset_def)
  moreover have "t \<notin> set (sleepq a)" using place_okD(5) [OF pl, of t] p by auto
  ultimately have "place_ok C (P - {t}) (aenq t a)" using place_ok_ready [OF pl, of t] p by simp
  moreover have "mem_ok R L (aenq t a)" using m by (simp add: mem_ok_aenq)
  moreover obtain s2 where "rq_add t s = Some s2" "srep s2 (aenq t a)"
    by (rule rq_add_rep [OF r]) (use p mem_okD(2) [OF m] runq_alive [OF pl] in auto)
  ultimately show ?thesis using that by (simp add: sched_add_def ainv_def)
qed

subsection \<open>New threads\<close>

definition anew :: "u64 \<Rightarrow> thread \<Rightarrow> heap \<Rightarrow> asched \<Rightarrow> asched" where
  "anew t x h a = a\<lparr>aheap := h, aalive := (aalive a)(t := True), ath := (ath a)(t := x)\<rparr>"

lemma anew_sel [simp]:
  "runq (anew t x h a) = runq a" "sleepq (anew t x h a) = sleepq a" "ticks (anew t x h a) = ticks a"
  "acur (anew t x h a) = acur a" "aidle (anew t x h a) = aidle a" "areap (anew t x h a) = areap a"
  "aheap (anew t x h a) = h" "aalive (anew t x h a) = (aalive a)(t := True)" "ath (anew t x h a) = (ath a)(t := x)"
  by (simp_all add: anew_def)

lemma aset_anew: "aset t f (anew t x h a) = anew t (f x) h a" "(anew t x h a)\<lparr>aheap := h'\<rparr> = anew t x h' a"
  by (simp_all add: anew_def aset_def)

lemma place_ok_anew:
  assumes I: "place_ok C P a" and t: "\<not> aalive a t" "\<not> on_cpu x"
    and r: "state x = THREAD_READY \<Longrightarrow> \<not> is_idle x \<and> P' = insert t P" "state x \<noteq> THREAD_READY \<Longrightarrow> P' = P"
  shows "place_ok C P' (anew t x h a)"
proof -
  note D = place_okD [OF I]
  have n: "u \<in> set (runq a) \<union> set (sleepq a) \<union> P \<union> acur a ` C \<union> (range (aidle a) - {0}) \<union> (range (areap a) - {0}) \<Longrightarrow> u \<noteq> t" for u
    using D(4,5,6,11,14,15) t(1) by auto
  show ?thesis
  proof (rule place_okI; (unfold anew_sel)?)
    fix u
    show "((aalive a)(t := True)) u \<and> state (((ath a)(t := x)) u) = THREAD_READY \<and> \<not> on_cpu (((ath a)(t := x)) u) \<and> \<not> is_idle (((ath a)(t := x)) u)"
      if "u \<in> set (runq a)" using that D(4) [OF that] n [of u] by simp
    show "((aalive a)(t := True)) u \<and> state (((ath a)(t := x)) u) = THREAD_BLOCKED \<and> \<not> on_cpu (((ath a)(t := x)) u) \<and> \<not> is_idle (((ath a)(t := x)) u)"
      if "u \<in> set (sleepq a)" using that D(5) [OF that] n [of u] by simp
    show "u \<in> acur a ` C" if "((aalive a)(t := True)) u" "on_cpu (((ath a)(t := x)) u)"
      using that t(2) D(8) [of u] by (auto split: if_splits)
    show "u \<in> set (runq a) \<or> u \<in> P'" if "((aalive a)(t := True)) u" "state (((ath a)(t := x)) u) = THREAD_READY"
      using that D(13) [of u] r by (cases "state x = THREAD_READY") (auto split: if_splits)
    show "((aalive a)(t := True)) u \<and> state (((ath a)(t := x)) u) = THREAD_READY \<and> \<not> on_cpu (((ath a)(t := x)) u) \<and>
        \<not> is_idle (((ath a)(t := x)) u) \<and> u \<notin> set (runq a)" if "u \<in> P'"
    proof (cases "u = t")
      case True
      then have "state x = THREAD_READY" using r(2) that n [of t] by (cases "state x = THREAD_READY") auto
      then show ?thesis using True r(1) t(2) n [of t] by auto
    next
      case False
      then have "u \<in> P" using r that by (cases "state x = THREAD_READY") auto
      then show ?thesis using False D(14) [of u] by simp
    qed
  next
    fix c assume c: "c \<in> C"
    then show "((aalive a)(t := True)) (acur a c) \<and> on_cpu (((ath a)(t := x)) (acur a c)) \<and>
      state (((ath a)(t := x)) (acur a c)) \<noteq> THREAD_READY \<and>
      (is_idle (((ath a)(t := x)) (acur a c)) \<longrightarrow> acur a c = aidle a c \<and> state (((ath a)(t := x)) (acur a c)) = THREAD_RUNNING)"
      using D(6) [OF c] n [of "acur a c"] by simp
  next
    fix c
    show "((aalive a)(t := True)) (aidle a c) \<and> is_idle (((ath a)(t := x)) (aidle a c)) \<and>
      state (((ath a)(t := x)) (aidle a c)) = THREAD_RUNNING" if "aidle a c \<noteq> 0"
      using D(15) [OF that] that n [of "aidle a c"] by simp
    show "((aalive a)(t := True)) (areap a c) \<and> state (((ath a)(t := x)) (areap a c)) = THREAD_DEAD \<and>
      \<not> on_cpu (((ath a)(t := x)) (areap a c)) \<and> \<not> is_idle (((ath a)(t := x)) (areap a c))" if "areap a c \<noteq> 0"
      using D(11) [OF that] that n [of "areap a c"] by simp
  qed (fact D(1) D(2) D(3) D(7) D(10) D(12) D(16))+
qed

lemma mem_ok_anew:
  assumes m: "mem_ok R L a" and h: "heap_ok R h L'" "\<And>p. L p \<noteq> None \<Longrightarrow> L' p \<noteq> None"
    and t: "t \<noteq> 0" "L t = None" "L' t \<noteq> None"
    and k: "kstack x \<noteq> 0 \<Longrightarrow> L (kstack x) = None \<and> L' (kstack x) \<noteq> None \<and> kstack x \<noteq> t"
    and r: "is_user x \<Longrightarrow> th_cr3 x \<noteq> 0 \<Longrightarrow> th_cr3 x \<in> R \<and> (\<forall>u. aalive a u \<longrightarrow> is_user (ath a u) \<longrightarrow> th_cr3 (ath a u) \<noteq> th_cr3 x)"
    and i: "is_idle x \<Longrightarrow> \<not> is_user x"
  shows "mem_ok R L' (anew t x h a)"
proof -
  note M = mem_okD [OF m]
  have nt: "\<not> aalive a t" "aalive a u \<Longrightarrow> u \<noteq> t" "aalive a u \<Longrightarrow> kstack (ath a u) \<noteq> t" for u
    using M(3) [of t] M(3) [of u] M(4) [of u] t by auto
  have nk: "aalive a u \<Longrightarrow> kstack x \<noteq> 0 \<Longrightarrow> u \<noteq> kstack x \<and> kstack (ath a u) \<noteq> kstack x" for u
    using M(3) [of u] M(4) [of u] k by auto
  show ?thesis
  proof (rule mem_okI; (unfold anew_sel)?)
    fix u assume u: "((aalive a)(t := True)) u"
    show "u \<noteq> 0 \<and> L' u \<noteq> None" using u M(2,3) [of u] h(2) [of u] t by (auto split: if_splits)
    show "L' (kstack (((ath a)(t := x)) u)) \<noteq> None \<and> \<not> ((aalive a)(t := True)) (kstack (((ath a)(t := x)) u))"
      if "kstack (((ath a)(t := x)) u) \<noteq> 0"
    proof (cases "u = t")
      case True
      then show ?thesis using that k nk [of "kstack x"] by auto
    next
      case False
      then show ?thesis using that u M(4) [of u] h(2) nt(3) [of u] by auto
    qed
    show "th_cr3 (((ath a)(t := x)) u) \<in> R" if "is_user (((ath a)(t := x)) u)" "th_cr3 (((ath a)(t := x)) u) \<noteq> 0"
      using that u M(5) [of u] r by (cases "u = t") auto
    show "\<not> is_user (((ath a)(t := x)) u)" if "is_idle (((ath a)(t := x)) u)"
      using that u M(8) [of u] i by (cases "u = t") auto
    fix v assume v: "((aalive a)(t := True)) v" "u \<noteq> v"
    have al: "u \<noteq> t \<Longrightarrow> aalive a u" "v \<noteq> t \<Longrightarrow> aalive a v" using u v by simp_all
    show "kstack (((ath a)(t := x)) u) = 0" if "kstack (((ath a)(t := x)) u) = kstack (((ath a)(t := x)) v)"
    proof (rule ccontr)
      assume z: "kstack (((ath a)(t := x)) u) \<noteq> 0"
      consider "u = t" "v \<noteq> t" | "u \<noteq> t" "v = t" | "u \<noteq> t" "v \<noteq> t" using v(2) by blast
      then show False
        using that z by cases (use nk [of u] nk [of v] M(6) [of u v] al v(2) in simp_all)
    qed
    show "th_cr3 (((ath a)(t := x)) u) = 0" if "is_user (((ath a)(t := x)) u)" "is_user (((ath a)(t := x)) v)"
        "th_cr3 (((ath a)(t := x)) u) = th_cr3 (((ath a)(t := x)) v)"
    proof (rule ccontr)
      assume z: "th_cr3 (((ath a)(t := x)) u) \<noteq> 0"
      consider "u = t" "v \<noteq> t" | "u \<noteq> t" "v = t" | "u \<noteq> t" "v \<noteq> t" using v(2) by blast
      then show False
        using that z by cases (use r M(7) [of u v] al v(2) in \<open>auto simp: fun_upd_apply\<close>)
    qed
  qed (use h in simp)
qed

subsection \<open>Allocating a thread\<close>

text \<open>The panic of the allocation: the heap can neither find nor get memory for the thread or its stack.\<close>

definition thread_oom :: "heap \<Rightarrow> bool" where
  "thread_oom h \<longleftrightarrow> (\<exists>h'. kmalloc THREAD_SIZE h = Some (0, h') \<and> heap_stuck h') \<or>
     (\<exists>t h1 h2. kmalloc THREAD_SIZE h = Some (t, h1) \<and> kmalloc THREAD_KSTACK_SIZE h1 = Some (0, h2) \<and> heap_stuck h2)"

lemma sc_kmalloc_spec:
  assumes "heap_ok R (sc_heap s) L" "n \<noteq> 0" "unat n + 4152 \<le> 2 ^ 64"
  obtains (panic) h where "kmalloc n (sc_heap s) = Some (0, h)" "sc_kmalloc n s = Some (0, s\<lparr>sc_heap := h\<rparr>)" "heap_stuck h"
  | (ok) p h m where "kmalloc n (sc_heap s) = Some (p, h)" "sc_kmalloc n s = Some (p, s\<lparr>sc_heap := h\<rparr>)" "p \<noteq> 0" "L p = None" "heap_ok R h (L(p \<mapsto> m))"
      "kroot h = kroot (sc_heap s)"
proof -
  obtain p h where k: "kmalloc n (sc_heap s) = Some (p, h)"
    "if p = 0 then heap_ok R h L \<and> (n = 0 \<or> unat n + 4152 > 2 ^ 64 \<or> heap_stuck h)
     else L p = None \<and> (\<exists>m. unat n \<le> m \<and> heap_ok R h (L(p \<mapsto> m)))"
    using kmalloc_spec [OF assms(1), of n] by blast
  show ?thesis
  proof (cases "p = 0")
    case True
    then have "heap_stuck h" using k(2) assms(2,3) by auto
    then show ?thesis using panic k(1) True by (simp add: sc_kmalloc_def)
  next
    case False
    then obtain m where "L p = None" "heap_ok R h (L(p \<mapsto> m))" using k(2) by auto
    then show ?thesis using ok [of p h m] k(1) False kmalloc_root [OF k(1)] by (simp add: sc_kmalloc_def)
  qed
qed

lemma srep_anew:
  assumes r: "srep s a" and t: "t \<notin> set (runq a) \<union> set (sleepq a)"
  shows "srep (s\<lparr>sc_heap := h, alive := (alive s)(t := True), thr := (thr s)(t := x), next_tid := n\<rparr>) (anew t (bare x) h a)"
proof -
  note R = srepD [OF r]
  have "chain (\<lambda>u. run_next (((thr s)(t := x)) u)) (rq_head s) (runq a)"
    using R(1) by (rule chain_cong [THEN iffD2, rotated]) (use t in auto)
  moreover have "chain (\<lambda>u. sleep_next (((thr s)(t := x)) u)) (sleep_head s) (sleepq a)"
    using R(3) by (rule chain_cong [THEN iffD2, rotated]) (use t in auto)
  ultimately show ?thesis using R(2,4,6-10) R(5) unfolding srep_def by simp
qed

lemma alloc_thread_rep:
  assumes r: "srep s a" and m: "mem_ok R L a" and q: "\<And>u. u \<in> set (runq a) \<union> set (sleepq a) \<Longrightarrow> aalive a u"
  obtains (panic) h where "kmalloc THREAD_SIZE (aheap a) = Some (0, h)" "heap_stuck h" "alloc_thread s = None"
  | (ok) t s' x h n where "kmalloc THREAD_SIZE (aheap a) = Some (t, h)" "alloc_thread s = Some (t, s')" "srep s' (anew t x h a)" "t \<noteq> 0" "L t = None"
      "heap_ok R h (L(t \<mapsto> n))" "kstack x = 0" "state x = THREAD_READY" "\<not> is_idle x" "\<not> is_user x" "\<not> on_cpu x"
      "th_cr3 x = 0" "kroot h = kroot (aheap a)" "cpu_cr3 s' = cpu_cr3 s"
proof -
  note M = mem_okD [OF m]
  have h: "heap_ok R (sc_heap s) L" using M(1) srepD(10) [OF r] by simp
  show ?thesis
  proof (rule sc_kmalloc_spec [OF h, of THREAD_SIZE])
    show "THREAD_SIZE \<noteq> 0" "unat THREAD_SIZE + 4152 \<le> 2 ^ 64" by (simp_all add: THREAD_SIZE_def)
  next
    fix h assume "kmalloc THREAD_SIZE (sc_heap s) = Some (0, h)" "sc_kmalloc THREAD_SIZE s = Some (0, s\<lparr>sc_heap := h\<rparr>)" "heap_stuck h"
    then show ?thesis using panic srepD(10) [OF r] by (simp add: alloc_thread_def)
  next
    fix t h n assume km: "kmalloc THREAD_SIZE (sc_heap s) = Some (t, h)" and k: "sc_kmalloc THREAD_SIZE s = Some (t, s\<lparr>sc_heap := h\<rparr>)" "t \<noteq> 0" "L t = None"
      "heap_ok R h (L(t \<mapsto> n))" "kroot h = kroot (sc_heap s)"
    let ?x = "(thr s t)\<lparr>rsp := 0, kstack := 0, kstack_size := 0, kstack_top := 0,
         state := THREAD_READY, tid := next_tid s, is_idle := False, is_user := False, th_cr3 := 0,
         run_next := 0, wait_next := 0, on_cpu := False\<rparr>"
    let ?s = "s\<lparr>sc_heap := h, alive := (alive s)(t := True), thr := (thr s)(t := ?x), next_tid := next_tid s + 1\<rparr>"
    have "\<not> aalive a t" using M(3) [of t] k(3) by auto
    then have "t \<notin> set (runq a) \<union> set (sleepq a)" using q by blast
    then have "srep ?s (anew t (bare ?x) h a)" by (rule srep_anew [OF r])
    moreover have "alloc_thread s = Some (t, ?s)" using k(1,2) by (simp add: alloc_thread_def)
    ultimately show ?thesis using k km srepD(10) [OF r] by (intro ok [of t h ?s "bare ?x" n]) simp_all
  qed
qed

lemma srep_heap: "srep s a \<Longrightarrow> srep (s\<lparr>sc_heap := h\<rparr>) (a\<lparr>aheap := h\<rparr>)"
  by (simp add: srep_def)

lemma alloc_kstack_rep:
  assumes r: "srep s (anew t x h a)" and hp: "heap_ok R h L"
  obtains (panic) h' where "kmalloc THREAD_KSTACK_SIZE h = Some (0, h')" "heap_stuck h'" "alloc_kstack t s = None"
  | (ok) s' x' h' k n where "alloc_kstack t s = Some (k + THREAD_KSTACK_SIZE, s')" "srep s' (anew t x' h' a)"
      "k \<noteq> 0" "L k = None" "heap_ok R h' (L(k \<mapsto> n))" "kroot h' = kroot h" "cpu_cr3 s' = cpu_cr3 s"
      "x' = x\<lparr>kstack_size := THREAD_KSTACK_SIZE, kstack := k, kstack_top := k + THREAD_KSTACK_SIZE\<rparr>"
proof -
  let ?f = "\<lambda>x. x\<lparr>kstack_size := THREAD_KSTACK_SIZE\<rparr>"
  obtain s1 where s1: "tset t ?f s = Some s1" "srep s1 (aset t ?f (anew t x h a))"
    by (rule tset_rep [OF r, where f = ?f]) (auto simp: bare_def)
  have c1: "cpu_cr3 s1 = cpu_cr3 s" using s1(1) by (auto simp: tset_def split: if_splits)
  have r1: "srep s1 (anew t (?f x) h a)" using s1(2) by (simp add: aset_anew)
  have hp1: "heap_ok R (sc_heap s1) L" using hp srepD(10) [OF r1] by simp
  show ?thesis
  proof (rule sc_kmalloc_spec [OF hp1, of THREAD_KSTACK_SIZE])
    show "THREAD_KSTACK_SIZE \<noteq> 0" "unat THREAD_KSTACK_SIZE + 4152 \<le> 2 ^ 64" by (simp_all add: THREAD_KSTACK_SIZE_def)
  next
    fix h' assume km: "kmalloc THREAD_KSTACK_SIZE (sc_heap s1) = Some (0, h')" and k: "sc_kmalloc THREAD_KSTACK_SIZE s1 = Some (0, s1\<lparr>sc_heap := h'\<rparr>)" "heap_stuck h'"
    have "alloc_kstack t s = None" unfolding alloc_kstack_def s1(1) using k(1) by (auto simp: tset_def)
    then show ?thesis using panic km k(2) srepD(10) [OF r1] by simp
  next
    fix k h' n assume "kmalloc THREAD_KSTACK_SIZE (sc_heap s1) = Some (k, h')" and k: "sc_kmalloc THREAD_KSTACK_SIZE s1 = Some (k, s1\<lparr>sc_heap := h'\<rparr>)" "k \<noteq> 0" "L k = None"
      "heap_ok R h' (L(k \<mapsto> n))" "kroot h' = kroot (sc_heap s1)"
    have r2: "srep (s1\<lparr>sc_heap := h'\<rparr>) (anew t (?f x) h' a)" using srep_heap [OF r1, of h'] by (simp add: aset_anew)
    let ?g = "\<lambda>x. x\<lparr>kstack := k\<rparr>" and ?e = "\<lambda>x. x\<lparr>kstack_top := k + THREAD_KSTACK_SIZE\<rparr>"
    obtain s3 where s3: "tset t ?g (s1\<lparr>sc_heap := h'\<rparr>) = Some s3" "srep s3 (aset t ?g (anew t (?f x) h' a))"
      by (rule tset_rep [OF r2, where f = ?g]) (auto simp: bare_def)
    then have r3: "srep s3 (anew t (?g (?f x)) h' a)" by (simp add: aset_anew)
    obtain s4 where s4: "tset t ?e s3 = Some s4" "srep s4 (aset t ?e (anew t (?g (?f x)) h' a))"
      by (rule tset_rep [OF r3, where f = ?e]) (auto simp: bare_def)
    have "alloc_kstack t s = Some (k + THREAD_KSTACK_SIZE, s4)"
      unfolding alloc_kstack_def s1(1) using k(1,2) s3(1) s4(1) by simp
    moreover have "cpu_cr3 s4 = cpu_cr3 s" using s3(1) s4(1) c1 by (auto simp: tset_def split: if_splits)
    ultimately show ?thesis using ok [of k s4 "?e (?g (?f x))" h' n] s4(2) k srepD(10) [OF r1] by (simp add: aset_anew)
  qed
qed

text \<open>Both together: a thread with a stack, or a panic because the heap is exhausted.\<close>

lemma thread_alloc_rep:
  assumes r: "srep s a" and m: "mem_ok R L a" and q: "\<And>u. u \<in> set (runq a) \<union> set (sleepq a) \<Longrightarrow> aalive a u"
  obtains (panic) "alloc_thread s = None \<or> (\<exists>t s1. alloc_thread s = Some (t, s1) \<and> alloc_kstack t s1 = None)"
      "thread_oom (aheap a)"
  | (ok) t s1 top s2 x h L' where "alloc_thread s = Some (t, s1)" "alloc_kstack t s1 = Some (top, s2)" "srep s2 (anew t x h a)"
      "state x = THREAD_READY" "\<not> is_idle x" "\<not> is_user x" "\<not> on_cpu x" "\<not> aalive a t"
      "\<And>x'. kstack x' = kstack x \<Longrightarrow> (is_user x' \<Longrightarrow> th_cr3 x' \<noteq> 0 \<Longrightarrow> th_cr3 x' \<in> R \<and>
          (\<forall>u. aalive a u \<longrightarrow> is_user (ath a u) \<longrightarrow> th_cr3 (ath a u) \<noteq> th_cr3 x')) \<Longrightarrow>
          (is_idle x' \<Longrightarrow> \<not> is_user x') \<Longrightarrow> mem_ok R L' (anew t x' h a)"
      "kroot h = kroot (aheap a)" "cpu_cr3 s2 = cpu_cr3 s"
      "\<And>p. L p \<noteq> None \<Longrightarrow> L' p = L p" "L t = None" "L (kstack x) = None"
proof (rule alloc_thread_rep [OF r m q])
  fix u assume "u \<in> set (runq a) \<union> set (sleepq a)"
  then show "u \<in> set (runq a) \<union> set (sleepq a)" .
next
  fix h assume "kmalloc THREAD_SIZE (aheap a) = Some (0, h)" "heap_stuck h" "alloc_thread s = None"
  then show ?thesis using panic unfolding thread_oom_def by blast
next
  fix t h s1 x n
  assume km: "kmalloc THREAD_SIZE (aheap a) = Some (t, h)" and t: "alloc_thread s = Some (t, s1)" "srep s1 (anew t x h a)" "t \<noteq> 0" "L t = None"
      "heap_ok R h (L(t \<mapsto> n))" "kstack x = 0" "state x = THREAD_READY" "\<not> is_idle x" "\<not> is_user x" "\<not> on_cpu x"
      "th_cr3 x = 0" "kroot h = kroot (aheap a)" "cpu_cr3 s1 = cpu_cr3 s"
  show ?thesis
  proof (rule alloc_kstack_rep [OF t(2,5)])
    fix h' assume "kmalloc THREAD_KSTACK_SIZE h = Some (0, h')" "heap_stuck h'" "alloc_kstack t s1 = None"
    then show ?thesis using panic t(1) km unfolding thread_oom_def by blast
  next
    fix s2 x' h' k n'
    assume k: "alloc_kstack t s1 = Some (k + THREAD_KSTACK_SIZE, s2)" "srep s2 (anew t x' h' a)"
      "k \<noteq> 0" "(L(t \<mapsto> n)) k = None" "heap_ok R h' ((L(t \<mapsto> n))(k \<mapsto> n'))" "kroot h' = kroot h" "cpu_cr3 s2 = cpu_cr3 s1"
      "x' = x\<lparr>kstack_size := THREAD_KSTACK_SIZE, kstack := k, kstack_top := k + THREAD_KSTACK_SIZE\<rparr>"
    let ?L = "(L(t \<mapsto> n))(k \<mapsto> n')"
    have kt: "k \<noteq> t" "L k = None" using k(4) by (auto split: if_splits)
    have na: "\<not> aalive a t" using mem_okD(3) [OF m, of t] t(4) by auto
    show ?thesis
    proof (rule ok [OF t(1) k(1,2)])
      fix y :: thread assume y: "kstack y = kstack x'"
        "is_user y \<Longrightarrow> th_cr3 y \<noteq> 0 \<Longrightarrow> th_cr3 y \<in> R \<and> (\<forall>u. aalive a u \<longrightarrow> is_user (ath a u) \<longrightarrow> th_cr3 (ath a u) \<noteq> th_cr3 y)"
        "is_idle y \<Longrightarrow> \<not> is_user y"
      show "mem_ok R ?L (anew t y h' a)"
        by (rule mem_ok_anew [OF m k(5) _ t(3,4)]) (use y kt k(3,8) in auto)
    qed (use t k na kt in auto)
  qed
qed

end
