(* ===== verification/Schedsafe.thy ===== *)
theory Schedsafe
  imports Schedops
begin

text \<open>
  The scheduler as a transition system.  A state is reached from the start-up code by timer ticks
  on any processor, by the calls of the threads that run, by wake-ups from other kernel code, by
  the creation of threads, by processors that come up and by the rest of the kernel using the heap.
\<close>

subsection \<open>The page table of each processor\<close>

definition root_of :: "nat \<Rightarrow> sched \<Rightarrow> u64" where
  "root_of c s = (let x = thr s (cpu_current s c) in if is_user x \<and> th_cr3 x \<noteq> 0 then th_cr3 x else kroot (sc_heap s))"

definition aroot :: "nat \<Rightarrow> asched \<Rightarrow> u64" where
  "aroot c a = (let x = ath a (acur a c) in if is_user x \<and> th_cr3 x \<noteq> 0 then th_cr3 x else kroot (aheap a))"

definition cr3_ok :: "nat set \<Rightarrow> sched \<Rightarrow> bool" where
  "cr3_ok C s \<longleftrightarrow> (\<forall>c \<in> C. cpu_cr3 s c = root_of c s)"

lemma root_of_rep: "srep s a \<Longrightarrow> root_of c s = aroot c a"
  using srep_sel [of s a] srepD(7,10) [of s a] by (simp add: root_of_def aroot_def Let_def)

lemma cr3_ok_rep: "srep s a \<Longrightarrow> cr3_ok C s \<longleftrightarrow> (\<forall>c \<in> C. cpu_cr3 s c = aroot c a)"
  by (simp add: cr3_ok_def root_of_rep)

lemma aroot_keeps: "stays a b \<Longrightarrow> acur b c = acur a c \<Longrightarrow> aalive b (acur b c) \<Longrightarrow> aroot c b = aroot c a"
  by (simp add: stays_def aroot_def Let_def)

text \<open>A switch loads the page table of one processor only.\<close>

lemma tset_cr3: "tset t f s = Some s' \<Longrightarrow> cpu_cr3 s' = cpu_cr3 s"
  by (auto simp: tset_def split: if_splits)

lemma rq_add_cr3: "rq_add t s = Some s' \<Longrightarrow> cpu_cr3 s' = cpu_cr3 s"
  by (auto simp: rq_add_def dest!: tset_cr3 split: if_splits bind_splits)

lemma rq_take_cr3: "rq_take s = Some (t, s') \<Longrightarrow> cpu_cr3 s' = cpu_cr3 s"
  by (auto simp: rq_take_def Let_def dest!: tset_cr3 split: if_splits bind_splits)

lemma sched_reap_cr3: "sched_reap c s = Some s' \<Longrightarrow> cpu_cr3 s' = cpu_cr3 s"
  by (auto simp: sched_reap_def sc_kfree_def Let_def dest!: tset_cr3 split: if_splits bind_splits)

lemma wake_sleepers_cr3:
  assumes "wake_sleepers sp s = Some s'"
  shows "cpu_cr3 s' = cpu_cr3 s"
proof (rule wake_sleepers.raw_induct [where P = "\<lambda>sp s s'. cpu_cr3 s' = cpu_cr3 s", OF _ assms])
  fix f sp and s s' :: sched
  assume f: "\<And>sp s s'. f sp s = Some s' \<Longrightarrow> cpu_cr3 s' = cpu_cr3 s"
    and e: "sleep_link sp s \<bind> (\<lambda>st. if st = 0 then Some s else tget st s \<bind> (\<lambda>x.
      if sleep_deadline x \<le> g_ticks s then set_sleep_link sp (sleep_next x) s \<bind> (\<lambda>s.
        tset st (\<lambda>x. x\<lparr>sleep_next := 0, state := THREAD_READY\<rparr>) s \<bind> (\<lambda>s. rq_add st s \<bind> f sp))
      else f st s)) = Some s'"
  have set: "set_sleep_link sp t s = Some s1 \<Longrightarrow> cpu_cr3 s1 = cpu_cr3 s" for t s1
    by (auto simp: set_sleep_link_def dest!: tset_cr3 split: if_splits)
  show "cpu_cr3 s' = cpu_cr3 s"
    using e by (auto dest!: set tset_cr3 rq_add_cr3 f split: if_splits bind_splits)
qed

lemma sched_requeue_cr3: "sched_requeue c t s = Some s' \<Longrightarrow> cpu_cr3 s' = cpu_cr3 s"
  by (auto simp: sched_requeue_def dest!: tset_cr3 rq_add_cr3 split: if_splits bind_splits)

lemma sched_pick_cr3: "sched_pick c t s = Some (n, s') \<Longrightarrow> cpu_cr3 s' = cpu_cr3 s"
  by (auto simp: sched_pick_def Let_def dest!: tset_cr3 rq_take_cr3 split: if_splits bind_splits)

lemma sched_enter_cr3: "sched_enter c n s = Some (r, s') \<Longrightarrow> d \<noteq> c \<Longrightarrow> cpu_cr3 s' d = cpu_cr3 s d"
  by (auto simp: sched_enter_def Let_def split: if_splits bind_splits)

lemma sched_tick_cr3:
  assumes "sched_tick (of_nat c) r s = Some (r', s')" "c < 64" "d \<noteq> c"
  shows "cpu_cr3 s' d = cpu_cr3 s d"
  using assms(1) unfolding sched_tick_def current_cpu [OF assms(2)]
  by (auto simp: Let_def dest!: sched_reap_cr3 tset_cr3 wake_sleepers_cr3 sched_requeue_cr3 sched_pick_cr3
      sched_enter_cr3 [OF _ assms(3)] split: bind_splits)

lemma sleep_enqueue_cr3: "sleep_enqueue l ms s = Some (b, s') \<Longrightarrow> cpu_cr3 s' = cpu_cr3 s"
  by (auto simp: sleep_enqueue_def dest!: tset_cr3 split: if_splits bind_splits)

lemma sched_sleep_cr3:
  assumes "sched_sleep_ms (of_nat c) ms r s = Some (r', s')" "c < 64" "d \<noteq> c"
  shows "cpu_cr3 s' d = cpu_cr3 s d"
  using assms(1) unfolding sched_sleep_ms_def
  by (auto dest!: sleep_enqueue_cr3 sched_tick_cr3 [OF _ assms(2,3)] split: bind_splits if_splits)

subsection \<open>The invariant of the machine\<close>

definition sched_inv :: "u64 set \<Rightarrow> nat set \<Rightarrow> u64 set \<Rightarrow> sched \<Rightarrow> bool" where
  "sched_inv R C P s \<longleftrightarrow> cr3_ok C s \<and> (\<exists>L a. srep s a \<and> ainv R L C P a)"

definition run_queue :: "sched \<Rightarrow> u64 list \<Rightarrow> bool" where
  "run_queue s us \<longleftrightarrow> chain (\<lambda>t. run_next (thr s t)) (rq_head s) us"

definition sleepers :: "sched \<Rightarrow> u64 list \<Rightarrow> bool" where
  "sleepers s us \<longleftrightarrow> chain (\<lambda>t. sleep_next (thr s t)) (sleep_head s) us"

lemma run_queue_rep: "srep s a \<Longrightarrow> run_queue s us \<longleftrightarrow> us = runq a"
  using srepD(1) [of s a] chain_unique by (auto simp: run_queue_def)

lemma sleepers_rep: "srep s a \<Longrightarrow> sleepers s us \<longleftrightarrow> us = sleepq a"
  using srepD(3) [of s a] chain_unique by (auto simp: sleepers_def)

text \<open>The space that a tick gives back.\<close>

definition dead_space :: "nat \<Rightarrow> sched \<Rightarrow> u64 set" where
  "dead_space c s = (let d = reap_pending s c in
     if d \<noteq> 0 \<and> is_user (thr s d) then {th_cr3 (thr s d)} - {0} else {})"

lemma dead_space_rep: "srep s a \<Longrightarrow> dead_space c s = reaped_spaces c a"
  using srepD(9) [of s a] srep_sel [of s a] by (simp add: dead_space_def reaped_spaces_def Let_def)

text \<open>The effect of a switch on processor \<open>c\<close>.\<close>

definition switched :: "nat \<Rightarrow> asched \<Rightarrow> asched \<Rightarrow> bool" where
  "switched c a b \<longleftrightarrow> (\<exists>us. acur b = (acur a)(c := (case runq a @ us of [] \<Rightarrow> aidle a c | t # _ \<Rightarrow> t)) \<and>
     runq b = tl (runq a @ us))"

lemma switched_root:
  assumes "cr3_ok W s" "srep s a" "srep s' b" "ainv R L C P b" "switched c a b" "stays a b"
    "cpu_cr3 s' c = aroot c b" "\<And>d. d \<noteq> c \<Longrightarrow> cpu_cr3 s' d = cpu_cr3 s d" "W \<subseteq> C"
  shows "cr3_ok (insert c W) s'"
  unfolding cr3_ok_rep [OF assms(3)]
proof
  fix d assume d: "d \<in> insert c W"
  show "cpu_cr3 s' d = aroot d b"
  proof (cases "d = c")
    case False
    then have "acur b d = acur a d" using assms(5) by (auto simp: switched_def)
    moreover have "aalive b (acur b d)" using assms(4,9) d False place_okD(6) by (auto simp: ainv_def)
    ultimately have "aroot d b = aroot d a" using aroot_keeps [OF assms(6)] by simp
    then show ?thesis using assms(1,8) d False unfolding cr3_ok_rep [OF assms(2)] by simp
  qed (use assms(7) in simp)
qed

lemma tick_step_on:
  assumes r: "srep s a" and I: "ainv R L C P a" and k: "cr3_ok W s" "W \<subseteq> C" and c: "c \<in> C"
  obtains s' b L' where "sched_tick (of_nat c) old s = Some (rsp (thr s' (cpu_current s' c)), s')" "srep s' b" "atick c old a = Some b"
    "ainv (R - dead_space c s) L' C P b" "cr3_ok (insert c W) s'" "switched c a b" "stays a b" "L' = reaped_regions c a L"
proof -
  have c64: "c < 64" using I c place_okD(1) by (auto simp: ainv_def)
  obtain s' b where t: "atick c old a = Some b" "srep s' b" "sched_tick (of_nat c) old s = Some (rsp (ath b (acur b c)), s')"
    "cpu_cr3 s' c = (let x = ath b (acur b c) in if is_user x \<and> th_cr3 x \<noteq> 0 then th_cr3 x else vmm_pml4_phys (hp_mm (aheap b)))"
    using r I c by (rule sched_tick_rep)
  obtain L' b' us where b: "atick c old a = Some b'" "ainv (R - reaped_spaces c a) L' C P b'"
    "acur b' = (acur a)(c := (case runq a @ us of [] \<Rightarrow> aidle a c | t # _ \<Rightarrow> t))" "runq b' = tl (runq a @ us)" "stays a b'"
    "L' = reaped_regions c a L"
    using I c by (rule atick_ok)
  have e: "b' = b" using t(1) b(1) by simp
  have sw: "switched c a b" using b(3,4) e unfolding switched_def by blast
  have "cpu_cr3 s' c = aroot c b" using t(4) unfolding aroot_def vmm_pml4_phys_def .
  then have "cr3_ok (insert c W) s'"
    using switched_root [OF k(1) r t(2) _ sw _ _ _ k(2)] b(2,5) e sched_tick_cr3 [OF t(3) c64] by blast
  moreover have "rsp (ath b (acur b c)) = rsp (thr s' (cpu_current s' c))"
    using srep_sel(1) [OF t(2)] srepD(7) [OF t(2)] by simp
  ultimately show ?thesis using that t b(2,5,6) sw e dead_space_rep [OF r] by simp
qed

lemma tick_step:
  assumes r: "srep s a" and I: "ainv R L C P a" and k: "cr3_ok C s" and c: "c \<in> C"
  obtains s' b L' where "sched_tick (of_nat c) old s = Some (rsp (thr s' (cpu_current s' c)), s')" "srep s' b" "atick c old a = Some b"
    "ainv (R - dead_space c s) L' C P b" "cr3_ok C s'" "switched c a b" "stays a b" "L' = reaped_regions c a L"
  by (rule tick_step_on [OF r I k subset_refl c, of old]) (rule that, simp_all add: insert_absorb [OF c])

lemma sleep_step_on:
  assumes r: "srep s a" and I: "ainv R L C P a" and k: "cr3_ok W s" "W \<subseteq> C" and c: "c \<in> C"
    and t: "\<not> is_idle (thr s (cpu_current s c))" "state (thr s (cpu_current s c)) = THREAD_RUNNING"
  obtains s' b L' where "sched_sleep_ms (of_nat c) ms old s = Some (rsp (thr s' (cpu_current s' c)), s')" "srep s' b"
    "ainv (R - dead_space c s) L' C P b" "cr3_ok (insert c W) s'" "switched c a b" "stays a b" "L' = reaped_regions c a L"
proof -
  have c64: "c < 64" using I c place_okD(1) by (auto simp: ainv_def)
  have t': "\<not> is_idle (ath a (acur a c))" "state (ath a (acur a c)) = THREAD_RUNNING"
    using t srep_sel [OF r] srepD(7) [OF r] by simp_all
  obtain s' b L' us where b: "sched_sleep_ms (of_nat c) ms old s = Some (rsp (ath b (acur b c)), s')" "srep s' b"
    "ainv (R - reaped_spaces c a) L' C P b"
    "acur b = (acur a)(c := (case runq a @ us of [] \<Rightarrow> aidle a c | t # _ \<Rightarrow> t))" "runq b = tl (runq a @ us)" "stays a b" "L' = reaped_regions c a L"
    "cpu_cr3 s' c = (let x = ath b (acur b c) in if is_user x \<and> th_cr3 x \<noteq> 0 then th_cr3 x else vmm_pml4_phys (hp_mm (aheap b)))"
    using r I c t' by (rule sched_sleep_rep)
  have sw: "switched c a b" using b(4,5) unfolding switched_def by blast
  have "cpu_cr3 s' c = aroot c b" using b(8) unfolding aroot_def vmm_pml4_phys_def .
  then have "cr3_ok (insert c W) s'"
    using switched_root [OF k(1) r b(2) b(3) sw b(6)] sched_sleep_cr3 [OF b(1) c64] k(2) by blast
  moreover have "rsp (ath b (acur b c)) = rsp (thr s' (cpu_current s' c))"
    using srep_sel(1) [OF b(2)] srepD(7) [OF b(2)] by simp
  ultimately show ?thesis using that b(1-3,6,7) sw dead_space_rep [OF r] by simp
qed

lemma sleep_step:
  assumes r: "srep s a" and I: "ainv R L C P a" and k: "cr3_ok C s" and c: "c \<in> C"
    and t: "\<not> is_idle (thr s (cpu_current s c))" "state (thr s (cpu_current s c)) = THREAD_RUNNING"
  obtains s' b L' where "sched_sleep_ms (of_nat c) ms old s = Some (rsp (thr s' (cpu_current s' c)), s')" "srep s' b"
    "ainv (R - dead_space c s) L' C P b" "cr3_ok C s'" "switched c a b" "stays a b" "L' = reaped_regions c a L"
  by (rule sleep_step_on [OF r I k subset_refl c t, of ms old]) (rule that, simp_all add: insert_absorb [OF c])

subsection \<open>Threads that block, exit and wake up\<close>

lemma cr3_ok_same:
  assumes "cr3_ok C s" "srep s a" "srep s' b" "cpu_cr3 s' = cpu_cr3 s" "\<And>c. c \<in> C \<Longrightarrow> aroot c b = aroot c a"
  shows "cr3_ok C s'"
  using assms(1) unfolding cr3_ok_rep [OF assms(2)] cr3_ok_rep [OF assms(3)] assms(4) using assms(5) by simp

lemma aroot_aset:
  assumes "\<And>x. is_user (f x) = is_user x" "\<And>x. th_cr3 (f x) = th_cr3 x"
  shows "aroot c (aset t f a) = aroot c a"
  using assms by (auto simp: aroot_def Let_def)

lemma curstate_step:
  assumes r: "srep s a" and I: "ainv R L C P a" and k: "cr3_ok W s" and c: "c \<in> C"
    and t: "\<not> is_idle (thr s (cpu_current s c))"
    and f: "\<And>x. run_next (f x) = run_next x" "\<And>x. sleep_next (f x) = sleep_next x" "\<And>x. bare (f x) = f (bare x)"
      "\<And>x. on_cpu (f x) = on_cpu x" "\<And>x. is_idle (f x) = is_idle x" "\<And>x. state (f x) \<noteq> THREAD_READY"
      "\<And>x. kstack (f x) = kstack x" "\<And>x. is_user (f x) = is_user x" "\<And>x. th_cr3 (f x) = th_cr3 x"
  obtains s' where "tset (cpu_current s c) f s = Some s'" "srep s' (aset (acur a c) f a)"
    "ainv R L C P (aset (acur a c) f a)" "cr3_ok W s'"
proof -
  have pl: "place_ok C P a" and m: "mem_ok R L a" using I by (simp_all add: ainv_def)
  have cur: "cpu_current s c = acur a c" using srepD(7) [OF r] by simp
  have al: "aalive a (acur a c)" using place_okD(6) [OF pl c] by simp
  obtain s' where s': "tset (acur a c) f s = Some s'" "srep s' (aset (acur a c) f a)"
    by (rule tset_rep [OF r al, where f = f]) (use f in auto)
  have "\<not> is_idle (ath a (acur a c))" using t srep_sel(4) [OF r] cur by simp
  then have "place_ok C P (aset (acur a c) f a)" by (rule place_ok_curstate [OF pl c]) (use f in auto)
  moreover have "mem_ok R L (aset (acur a c) f a)" using m mem_ok_aset [of f] f(5,7-9) by simp
  moreover have "cr3_ok W s'" using k r s'(2) tset_cr3 [OF s'(1)] by (rule cr3_ok_same) (use aroot_aset f in auto)
  ultimately show ?thesis using that s' cur by (simp add: ainv_def)
qed

lemma exit_step:
  assumes r: "srep s a" and I: "ainv R L C P a" and k: "cr3_ok C s" and c: "c \<in> C"
    and t: "\<not> is_idle (thr s (cpu_current s c))"
  obtains s' b L' where "thread_exit (of_nat c) old s = Some (rsp (thr s' (cpu_current s' c)), s')" "srep s' b"
    "ainv (R - dead_space c s) L' C P b" "cr3_ok C s'" "switched c a b" "stays a b" "L' = reaped_regions c a L"
proof -
  have c64: "c < 64" using I c place_okD(1) by (auto simp: ainv_def)
  let ?f = "\<lambda>x. x\<lparr>state := THREAD_DEAD\<rparr>" and ?t = "acur a c"
  obtain s1 where s1: "tset (cpu_current s c) ?f s = Some s1" "srep s1 (aset ?t ?f a)" "ainv R L C P (aset ?t ?f a)" "cr3_ok C s1"
    by (rule curstate_step [OF r I k c t, where f = ?f]) (auto simp: bare_def)
  obtain s' b L' where b: "sched_tick (of_nat c) old s1 = Some (rsp (thr s' (cpu_current s' c)), s')" "srep s' b"
    "atick c old (aset ?t ?f a) = Some b" "ainv (R - dead_space c s1) L' C P b" "cr3_ok C s'" "switched c (aset ?t ?f a) b"
    "stays (aset ?t ?f a) b" "L' = reaped_regions c (aset ?t ?f a) L"
    by (rule tick_step [OF s1(2,3,4) c, where old = old])
  have "dead_space c s1 = dead_space c s"
    unfolding dead_space_rep [OF s1(2)] dead_space_rep [OF r] by (simp add: reaped_spaces_def)
  moreover have "switched c a b" using b(6) unfolding switched_def aset_sel .
  moreover have "thread_exit (of_nat c) old s = Some (rsp (thr s' (cpu_current s' c)), s')"
    using s1(1) b(1) by (simp add: thread_exit_def sched_current_def current_cpu [OF c64])
  moreover have "stays a b" using b(7) by (simp add: stays_def)
  moreover have "reaped_regions c (aset ?t ?f a) L = reaped_regions c a L" by (simp add: reaped_regions_def)
  ultimately show ?thesis using that b by simp
qed

lemma aroot_aenq: "aroot c (aenq t a) = aroot c a"
  unfolding aroot_def aenq_sel ..

lemma wake_step:
  assumes r: "srep s a" and I: "ainv R L C P a" and k: "cr3_ok W s"
    and t: "alive s t" "\<not> sched_wake_waits t s" "\<not> is_idle (thr s t)" "state (thr s t) = THREAD_BLOCKED"
      "\<And>us. sleepers s us \<Longrightarrow> t \<notin> set us"
  obtains s' b where "sched_wake t s = Some s'" "srep s' b" "ainv R L C P b" "cr3_ok W s'" "runq b = runq a @ [t]"
proof -
  let ?b = "aenq t (aset t (\<lambda>x. x\<lparr>state := THREAD_READY\<rparr>) a)"
  have t': "aalive a t" "\<not> on_cpu (ath a t)" "\<not> is_idle (ath a t)" "t \<notin> set (sleepq a)" "state (ath a t) = THREAD_BLOCKED"
    using t srep_sel [OF r, of t] srepD(6) [OF r] sleepers_rep [OF r] by (simp_all add: sched_wake_waits_def)
  obtain s' where s': "sched_wake t s = Some s'" "srep s' ?b" "ainv R L C P ?b"
    by (rule sched_wake_rep [OF r I t'])
  have "cpu_cr3 s' = cpu_cr3 s" using s'(1) by (auto simp: sched_wake_def dest!: tset_cr3 rq_add_cr3 split: bind_splits)
  with k r s'(2) have "cr3_ok W s'" by (rule cr3_ok_same) (simp add: aroot_aenq aroot_aset)
  then show ?thesis using that s' by simp
qed

lemma start_step:
  assumes r: "srep s a" and I: "ainv R L C P a" and k: "cr3_ok W s" and t: "t \<in> P"
  obtains s' b where "sched_add t s = Some s'" "srep s' b" "ainv R L C (P - {t}) b" "cr3_ok W s'" "runq b = runq a @ [t]"
proof -
  obtain s' where s': "sched_add t s = Some s'" "srep s' (aenq t a)" "ainv R L C (P - {t}) (aenq t a)"
    by (rule sched_add_rep [OF r I t])
  have "cpu_cr3 s' = cpu_cr3 s" using s'(1) by (simp add: sched_add_def rq_add_cr3)
  with k r s'(2) have "cr3_ok W s'" by (rule cr3_ok_same) (simp add: aroot_aenq)
  then show ?thesis using that s' by simp
qed

subsection \<open>New threads\<close>

lemma srep_frame [simp]:
  "srep (put_frame fr vs s) a = srep s a" "srep (zero_frame fr s) a = srep s a"
  "cpu_cr3 (put_frame fr vs s) = cpu_cr3 s" "cpu_cr3 (zero_frame fr s) = cpu_cr3 s"
  by (simp_all add: put_frame_def zero_frame_def srep_def)

lemma tset_anew:
  assumes "srep s (anew t x h a)"
    and "\<And>x. run_next (f x) = run_next x" "\<And>x. sleep_next (f x) = sleep_next x" "\<And>x. bare (f x) = f (bare x)"
  obtains s' where "tset t f s = Some s'" "srep s' (anew t (f x) h a)" "cpu_cr3 s' = cpu_cr3 s"
proof (rule tset_rep [OF assms(1), of t f])
  fix s' assume "tset t f s = Some s'" "srep s' (aset t f (anew t x h a))"
  then show ?thesis using that tset_cr3 by (simp add: aset_anew)
qed (use assms(2-) in auto)

lemma aroot_anew:
  assumes "ainv R L C P a" "c \<in> C" "\<not> aalive a t" "kroot h = kroot (aheap a)"
  shows "aroot c (anew t x h a) = aroot c a"
proof -
  have "acur a c \<noteq> t" using assms(1-3) place_okD(6) by (auto simp: ainv_def)
  then show ?thesis using assms(4) by (auto simp: aroot_def Let_def)
qed

lemma create_step:
  assumes r: "srep s a" and I: "ainv R L C P a" and k: "cr3_ok C s"
  obtains "thread_create tr fn arg s = None" "thread_oom (sc_heap s)"
  | t s' b L' where "thread_create tr fn arg s = Some (t, s')" "srep s' b" "ainv R L' C P b" "cr3_ok C s'"
    "runq b = runq a @ [t]" "\<not> aalive a t"
proof -
  have pl: "place_ok C P a" and m: "mem_ok R L a" using I by (simp_all add: ainv_def)
  show ?thesis
  proof (rule thread_alloc_rep [OF r m])
    fix u assume "u \<in> set (runq a) \<union> set (sleepq a)"
    then show "aalive a u" by (rule runq_alive [OF pl])
  next
    assume oom: "thread_oom (aheap a)" and "alloc_thread s = None \<or> (\<exists>t s1. alloc_thread s = Some (t, s1) \<and> alloc_kstack t s1 = None)"
    then have "thread_create tr fn arg s = None" by (auto simp: thread_create_def)
    then show ?thesis using that oom srepD(10) [OF r] by simp
  next
    fix t s1 top s2 x h L'
    assume o: "alloc_thread s = Some (t, s1)" "alloc_kstack t s1 = Some (top, s2)" "srep s2 (anew t x h a)"
      "state x = THREAD_READY" "\<not> is_idle x" "\<not> is_user x" "\<not> on_cpu x" "\<not> aalive a t"
      and mo: "\<And>x'. kstack x' = kstack x \<Longrightarrow> (is_user x' \<Longrightarrow> th_cr3 x' \<noteq> 0 \<Longrightarrow> th_cr3 x' \<in> R \<and>
          (\<forall>u. aalive a u \<longrightarrow> is_user (ath a u) \<longrightarrow> th_cr3 (ath a u) \<noteq> th_cr3 x')) \<Longrightarrow>
          (is_idle x' \<Longrightarrow> \<not> is_user x') \<Longrightarrow> mem_ok R L' (anew t x' h a)"
      and kr: "kroot h = kroot (aheap a)" "cpu_cr3 s2 = cpu_cr3 s"
    let ?fr = "top - 8 * of_nat FRAME_QWORDS" and ?vs = "[(8, fn), (9, arg), (15, tr), (16, 0x08), (17, 0x202), (18, top), (19, 0x10)]"
    let ?g = "\<lambda>x. x\<lparr>rsp := ?fr\<rparr>"
    have "srep (put_frame ?fr ?vs (zero_frame ?fr s2)) (anew t x h a)" using o(3) by simp
    then obtain s3 where s3: "tset t ?g (put_frame ?fr ?vs (zero_frame ?fr s2)) = Some s3" "srep s3 (anew t (?g x) h a)"
      "cpu_cr3 s3 = cpu_cr3 (put_frame ?fr ?vs (zero_frame ?fr s2))"
      by (rule tset_anew [where f = ?g]) (auto simp: bare_def)
    let ?a3 = "anew t (?g x) h a"
    have "place_ok C (insert t P) ?a3" by (rule place_ok_anew [OF pl o(8)]) (use o in auto)
    moreover have "mem_ok R L' ?a3" by (rule mo) (use o in auto)
    ultimately have i3: "ainv R L' C (insert t P) ?a3" by (simp add: ainv_def)
    have k3: "cr3_ok C s3" using k r s3(2) by (rule cr3_ok_same) (use kr s3(3) aroot_anew [OF I _ o(8)] in auto)
    obtain s4 b where s4: "sched_add t s3 = Some s4" "srep s4 b" "ainv R L' C (insert t P - {t}) b" "cr3_ok C s4" "runq b = runq ?a3 @ [t]"
      by (rule start_step [OF s3(2) i3 k3, of t]) simp
    have "t \<notin> P" using place_okD(14) [OF pl, of t] o(8) by blast
    then have "ainv R L' C P b" using s4(3) by simp
    moreover have "thread_create tr fn arg s = Some (t, s4)"
      using o(1,2) s3(1) s4(1) by (simp add: thread_create_def Let_def)
    ultimately show ?thesis using that s4 o(8) by simp
  qed
qed

lemma create_user_step_on:
  assumes r: "srep s a" and I: "ainv R L C P a" and k: "cr3_ok W s" "W \<subseteq> C"
    and rt: "root \<in> R" "\<And>u. alive s u \<Longrightarrow> is_user (thr s u) \<Longrightarrow> th_cr3 (thr s u) \<noteq> root"
  obtains "thread_create_user rip usp root s = None" "thread_oom (sc_heap s)"
  | t s' b L' where "thread_create_user rip usp root s = Some (t, s')" "srep s' b" "ainv R L' C (insert t P) b" "cr3_ok W s'"
    "runq b = runq a" "\<not> aalive a t" "\<And>p. L p \<noteq> None \<Longrightarrow> L' p = L p" "L t = None" "L (kstack (ath b t)) = None"
    "\<And>u. u \<noteq> t \<Longrightarrow> ath b u = ath a u" "aalive b = (aalive a)(t := True)" "acur b = acur a"
    "is_user (ath b t)" "th_cr3 (ath b t) = root" "sleepq b = sleepq a"
proof -
  have pl: "place_ok C P a" and m: "mem_ok R L a" using I by (simp_all add: ainv_def)
  show ?thesis
  proof (rule thread_alloc_rep [OF r m])
    fix u assume "u \<in> set (runq a) \<union> set (sleepq a)"
    then show "aalive a u" by (rule runq_alive [OF pl])
  next
    assume oom: "thread_oom (aheap a)" and "alloc_thread s = None \<or> (\<exists>t s1. alloc_thread s = Some (t, s1) \<and> alloc_kstack t s1 = None)"
    then have "thread_create_user rip usp root s = None" by (auto simp: thread_create_user_def)
    then show ?thesis using that oom srepD(10) [OF r] by simp
  next
    fix t s1 top s2 x h L'
    assume o: "alloc_thread s = Some (t, s1)" "alloc_kstack t s1 = Some (top, s2)" "srep s2 (anew t x h a)"
      "state x = THREAD_READY" "\<not> is_idle x" "\<not> is_user x" "\<not> on_cpu x" "\<not> aalive a t"
      and mo: "\<And>x'. kstack x' = kstack x \<Longrightarrow> (is_user x' \<Longrightarrow> th_cr3 x' \<noteq> 0 \<Longrightarrow> th_cr3 x' \<in> R \<and>
          (\<forall>u. aalive a u \<longrightarrow> is_user (ath a u) \<longrightarrow> th_cr3 (ath a u) \<noteq> th_cr3 x')) \<Longrightarrow>
          (is_idle x' \<Longrightarrow> \<not> is_user x') \<Longrightarrow> mem_ok R L' (anew t x' h a)"
      and kr: "kroot h = kroot (aheap a)" "cpu_cr3 s2 = cpu_cr3 s"
      and nw: "\<And>p. L p \<noteq> None \<Longrightarrow> L' p = L p" "L t = None" "L (kstack x) = None"
    let ?fr = "top - 8 * of_nat FRAME_QWORDS" and ?vs = "[(15, rip), (16, 0x33), (17, 0x202), (18, usp), (19, 0x2b)]"
    let ?f = "\<lambda>x. x\<lparr>is_user := True, th_cr3 := root\<rparr>" and ?g = "\<lambda>x. x\<lparr>rsp := ?fr\<rparr>"
    obtain s3 where s3: "tset t ?f s2 = Some s3" "srep s3 (anew t (?f x) h a)" "cpu_cr3 s3 = cpu_cr3 s2"
      by (rule tset_anew [OF o(3), where f = ?f]) (auto simp: bare_def)
    have "srep (put_frame ?fr ?vs (zero_frame ?fr s3)) (anew t (?f x) h a)" using s3(2) by simp
    then obtain s4 where s4: "tset t ?g (put_frame ?fr ?vs (zero_frame ?fr s3)) = Some s4" "srep s4 (anew t (?g (?f x)) h a)"
      "cpu_cr3 s4 = cpu_cr3 (put_frame ?fr ?vs (zero_frame ?fr s3))"
      by (rule tset_anew [where f = ?g]) (auto simp: bare_def)
    let ?b = "anew t (?g (?f x)) h a"
    have "place_ok C (insert t P) ?b" by (rule place_ok_anew [OF pl o(8)]) (use o in auto)
    moreover have "th_cr3 (ath a u) \<noteq> root" if "aalive a u" "is_user (ath a u)" for u
      using rt(2) [of u] that srep_sel [OF r, of u] srepD(6) [OF r] by simp
    then have "mem_ok R L' ?b" using rt(1) o(5) by (intro mo) auto
    moreover have "cr3_ok W s4" using k(1) r s4(2) by (rule cr3_ok_same) (use kr s3(3) s4(3) aroot_anew [OF I _ o(8)] k(2) in auto)
    moreover have "thread_create_user rip usp root s = Some (t, s4)"
      using o(1,2) s3(1) s4(1) by (simp add: thread_create_user_def Let_def)
    moreover have "L (kstack (ath ?b t)) = None" "is_user (ath ?b t)" "th_cr3 (ath ?b t) = root" using nw(3) by simp_all
    ultimately show ?thesis using that(2) [of t s4 ?b L'] s4(2) o(8) nw by (simp add: ainv_def)
  qed
qed

lemma create_user_step:
  assumes r: "srep s a" and I: "ainv R L C P a" and k: "cr3_ok C s"
    and rt: "root \<in> R" "\<And>u. alive s u \<Longrightarrow> is_user (thr s u) \<Longrightarrow> th_cr3 (thr s u) \<noteq> root"
  obtains "thread_create_user rip usp root s = None" "thread_oom (sc_heap s)"
  | t s' b L' where "thread_create_user rip usp root s = Some (t, s')" "srep s' b" "ainv R L' C (insert t P) b" "cr3_ok C s'"
    "runq b = runq a" "\<not> aalive a t" "\<And>p. L p \<noteq> None \<Longrightarrow> L' p = L p" "L t = None" "L (kstack (ath b t)) = None"
    "\<And>u. u \<noteq> t \<Longrightarrow> ath b u = ath a u" "aalive b = (aalive a)(t := True)" "acur b = acur a"
    "is_user (ath b t)" "th_cr3 (ath b t) = root" "sleepq b = sleepq a"
proof (rule create_user_step_on [OF r I k subset_refl rt(1), of rip usp])
  show "th_cr3 (thr s u) \<noteq> root" if "alive s u" "is_user (thr s u)" for u using that by (rule rt(2))
qed (rule that(1), assumption+, rule that(2))

subsection \<open>Processors that come up\<close>

lemma idle_step:
  assumes r: "srep s a" and m: "mem_ok R L a" and q: "\<And>u. u \<in> set (runq a) \<union> set (sleepq a) \<Longrightarrow> aalive a u"
  obtains "thread_create_idle s = None" "thread_oom (sc_heap s)"
  | t s' x h L' where "thread_create_idle s = Some (t, s')" "srep s' (anew t x h a)" "mem_ok R L' (anew t x h a)"
    "\<not> aalive a t" "t \<noteq> 0" "state x = THREAD_RUNNING" "is_idle x" "\<not> on_cpu x" "\<not> is_user x" "kroot h = kroot (aheap a)"
    "cpu_cr3 s' = cpu_cr3 s"
proof (rule thread_alloc_rep [OF r m q])
  fix u assume "u \<in> set (runq a) \<union> set (sleepq a)"
  then show "u \<in> set (runq a) \<union> set (sleepq a)" .
next
  assume oom: "thread_oom (aheap a)" and "alloc_thread s = None \<or> (\<exists>t s1. alloc_thread s = Some (t, s1) \<and> alloc_kstack t s1 = None)"
  then have "thread_create_idle s = None" by (auto simp: thread_create_idle_def)
  then show ?thesis using that oom srepD(10) [OF r] by simp
next
  fix t s1 top s2 x h L'
  assume o: "alloc_thread s = Some (t, s1)" "alloc_kstack t s1 = Some (top, s2)" "srep s2 (anew t x h a)"
      "state x = THREAD_READY" "\<not> is_idle x" "\<not> is_user x" "\<not> on_cpu x" "\<not> aalive a t"
      and mo: "\<And>x'. kstack x' = kstack x \<Longrightarrow> (is_user x' \<Longrightarrow> th_cr3 x' \<noteq> 0 \<Longrightarrow> th_cr3 x' \<in> R \<and>
          (\<forall>u. aalive a u \<longrightarrow> is_user (ath a u) \<longrightarrow> th_cr3 (ath a u) \<noteq> th_cr3 x')) \<Longrightarrow>
          (is_idle x' \<Longrightarrow> \<not> is_user x') \<Longrightarrow> mem_ok R L' (anew t x' h a)"
      and kr: "kroot h = kroot (aheap a)" "cpu_cr3 s2 = cpu_cr3 s"
  let ?f = "\<lambda>x. x\<lparr>is_idle := True, state := THREAD_RUNNING\<rparr>"
  obtain s3 where s3: "tset t ?f s2 = Some s3" "srep s3 (anew t (?f x) h a)" "cpu_cr3 s3 = cpu_cr3 s2"
    by (rule tset_anew [OF o(3), where f = ?f]) (auto simp: bare_def)
  have m': "mem_ok R L' (anew t (?f x) h a)" by (rule mo) (use o in auto)
  moreover have "t \<noteq> 0" using mem_okD(2) [OF m', of t] by simp
  moreover have "thread_create_idle s = Some (t, s3)" using o(1,2) s3(1) by (simp add: thread_create_idle_def)
  ultimately show ?thesis using that(2) [of t s3 "?f x" h L'] s3 o kr by simp
qed

lemma place_ok_setidle:
  assumes I: "place_ok C P a" and t: "aalive a t" "is_idle (ath a t)" "state (ath a t) = THREAD_RUNNING" "\<And>d. aidle a d \<noteq> t" "t \<noteq> 0"
    and c: "c \<notin> C"
  shows "place_ok C P (a\<lparr>aidle := (aidle a)(c := t)\<rparr>)"
proof -
  have i: "idle_ok C (a\<lparr>aidle := (aidle a)(c := t)\<rparr>)"
    using I t c unfolding place_ok_def idle_ok_def by (auto split: if_splits)
  have "cur_ok C (a\<lparr>aidle := (aidle a)(c := t)\<rparr>)"
    using I c unfolding place_ok_def cur_ok_def by auto
  then show ?thesis using I i by (simp add: place_ok_def runq_ok_def sleepq_ok_def reap_ok_def ready_ok_def)
qed

lemma place_ok_online:
  assumes I: "place_ok C P a" and c: "c \<notin> C" "c < 64" "aidle a c \<noteq> 0"
    and t: "aalive a t" "\<not> on_cpu (ath a t)" "state (ath a t) = THREAD_RUNNING" "is_idle (ath a t) \<Longrightarrow> t = aidle a c"
  shows "place_ok (insert c C) P (aset t (\<lambda>x. x\<lparr>on_cpu := True\<rparr>) (a\<lparr>acur := (acur a)(c := t)\<rparr>))"
proof -
  note D = place_okD [OF I]
  let ?b = "aset t (\<lambda>x. x\<lparr>on_cpu := True\<rparr>) (a\<lparr>acur := (acur a)(c := t)\<rparr>)"
  have e: "runq ?b = runq a" "sleepq ?b = sleepq a" "aalive ?b = aalive a" "aidle ?b = aidle a" "areap ?b = areap a"
    "acur ?b = (acur a)(c := t)" "on_cpu (ath ?b u) = (u = t \<or> on_cpu (ath a u))" "is_idle (ath ?b u) = is_idle (ath a u)"
    "state (ath ?b u) = state (ath a u)" for u by simp_all
  have n: "t \<notin> set (runq a)" "t \<notin> set (sleepq a)" "t \<notin> P" "\<And>d. d \<in> C \<Longrightarrow> acur a d \<noteq> t" "\<And>d. areap a d \<noteq> 0 \<Longrightarrow> areap a d \<noteq> t"
    using D(4,5,6,11,14) t by auto
  show ?thesis
  proof (rule place_okI; (unfold e)?)
    show "insert c C \<subseteq> {..<64}" using D(1) c by auto
    show "inj_on ((acur a)(c := t)) (insert c C)" using D(7) n(4) c(1) by (auto simp: inj_on_def)
    fix d
    show "aalive a (((acur a)(c := t)) d) \<and> (((acur a)(c := t)) d = t \<or> on_cpu (ath a (((acur a)(c := t)) d))) \<and>
       state (ath a (((acur a)(c := t)) d)) \<noteq> THREAD_READY \<and>
       (is_idle (ath a (((acur a)(c := t)) d)) \<longrightarrow> ((acur a)(c := t)) d = aidle a d \<and> state (ath a (((acur a)(c := t)) d)) = THREAD_RUNNING)"
      if "d \<in> insert c C" using that D(6) [of d] t by auto
    show "aidle a d \<noteq> 0" if "d \<in> insert c C" using that D(16) c by auto
    show "aalive a (areap a d) \<and> state (ath a (areap a d)) = THREAD_DEAD \<and> \<not> (areap a d = t \<or> on_cpu (ath a (areap a d))) \<and>
       \<not> is_idle (ath a (areap a d))" if "areap a d \<noteq> 0" using D(11) [OF that] n(5) [OF that] by auto
  next
    fix u
    show "aalive a u \<and> state (ath a u) = THREAD_READY \<and> \<not> (u = t \<or> on_cpu (ath a u)) \<and> \<not> is_idle (ath a u)"
      if "u \<in> set (runq a)" using that D(4) [OF that] n by auto
    show "aalive a u \<and> state (ath a u) = THREAD_BLOCKED \<and> \<not> (u = t \<or> on_cpu (ath a u)) \<and> \<not> is_idle (ath a u)"
      if "u \<in> set (sleepq a)" using that D(5) [OF that] n by auto
    show "u \<in> (acur a)(c := t) ` insert c C" if "aalive a u" "u = t \<or> on_cpu (ath a u)"
      using that D(8) [of u] c(1) by auto
    show "aalive a u \<and> state (ath a u) = THREAD_READY \<and> \<not> (u = t \<or> on_cpu (ath a u)) \<and> \<not> is_idle (ath a u) \<and> u \<notin> set (runq a)"
      if "u \<in> P" using that D(14) [OF that] n by auto
  qed (fact D(2) D(3) D(10) D(12) D(13) D(15))+
qed

lemma mem_ok_cpu: "mem_ok R L (a\<lparr>acur := f\<rparr>) = mem_ok R L a" "mem_ok R L (a\<lparr>aidle := g\<rparr>) = mem_ok R L a"
  by (simp_all add: mem_ok_def)

lemma srep_idle: "srep s a \<Longrightarrow> srep (s\<lparr>cpu_idle := (cpu_idle s)(c := n)\<rparr>) (a\<lparr>aidle := (aidle a)(c := n)\<rparr>)"
  by (simp add: srep_def)

lemma place_ok_idle_new:
  assumes I: "place_ok C P a" and t: "\<not> aalive a t" "t \<noteq> 0" "state x = THREAD_RUNNING" "is_idle x" "\<not> on_cpu x" and c: "c \<notin> C"
  shows "place_ok C P ((anew t x h a)\<lparr>aidle := (aidle a)(c := t)\<rparr>)"
proof -
  have "place_ok C P (anew t x h a)" by (rule place_ok_anew [OF I t(1,5)]) (use t in auto)
  moreover have "aidle a d \<noteq> t" for d using place_okD(15) [OF I, of d] t(1,2) by auto
  ultimately show ?thesis using place_ok_setidle [of C P "anew t x h a" t c] t c by simp
qed

lemma aroot_idle: "aroot c (a\<lparr>aidle := g\<rparr>) = aroot c a"
  by (auto simp: aroot_def Let_def)

lemma prepare_step:
  assumes r: "srep s a" and I: "ainv R L C P a" and k: "cr3_ok C s" and c: "c \<notin> C" "c < 64"
  obtains "sched_ap_prepare (of_nat c) s = None" "thread_oom (sc_heap s)"
  | s' b L' where "sched_ap_prepare (of_nat c) s = Some s'" "srep s' b" "ainv R L' C P b" "cr3_ok C s'" "runq b = runq a"
    "aidle b c \<noteq> 0" "cpu_cr3 s' = cpu_cr3 s" "kroot (aheap b) = kroot (aheap a)"
proof -
  have pl: "place_ok C P a" and m: "mem_ok R L a" using I by (simp_all add: ainv_def)
  have lt: "\<not> MAX_CPUS \<le> of_nat c" "unat (of_nat c :: u32) = c" using c(2) by (simp_all add: MAX_CPUS_def word_le_nat_alt unat_of_nat)
  show ?thesis
  proof (rule idle_step [OF r m])
    fix u assume "u \<in> set (runq a) \<union> set (sleepq a)"
    then show "aalive a u" by (rule runq_alive [OF pl])
  next
    assume "thread_create_idle s = None" "thread_oom (sc_heap s)"
    then show ?thesis using that lt by (simp add: sched_ap_prepare_def)
  next
    fix t s' x h L'
    assume o: "thread_create_idle s = Some (t, s')" "srep s' (anew t x h a)" "mem_ok R L' (anew t x h a)"
    "\<not> aalive a t" "t \<noteq> 0" "state x = THREAD_RUNNING" "is_idle x" "\<not> on_cpu x" "\<not> is_user x" "kroot h = kroot (aheap a)"
    "cpu_cr3 s' = cpu_cr3 s"
    let ?s = "s'\<lparr>cpu_idle := (cpu_idle s')(c := t)\<rparr>" and ?b = "(anew t x h a)\<lparr>aidle := (aidle a)(c := t)\<rparr>"
    have b: "srep ?s ?b" using srep_idle [OF o(2)] by simp
    have "place_ok C P ?b" by (rule place_ok_idle_new [OF pl o(4-8) c(1)])
    then have i: "ainv R L' C P ?b" using o(3) by (simp add: ainv_def mem_ok_cpu)
    have "aroot d ?b = aroot d a" if "d \<in> C" for d
      using aroot_anew [OF I that o(4,10), of x] by (simp add: aroot_idle)
    then have "cr3_ok C ?s" using cr3_ok_same [OF k r b] o(11) by simp
    moreover have "sched_ap_prepare (of_nat c) s = Some ?s" using o(1) lt by (simp add: sched_ap_prepare_def)
    ultimately show ?thesis using that(2) [of ?s ?b L'] b i o(5,10,11) by simp
  qed
qed

lemma online_step:
  assumes r: "srep s a" and I: "ainv R L C P a" and k: "cr3_ok C s" and c: "c \<notin> C" "c < 64" "aidle a c \<noteq> 0"
    and t: "aalive a t" "\<not> on_cpu (ath a t)" "state (ath a t) = THREAD_RUNNING" "is_idle (ath a t) \<Longrightarrow> t = aidle a c"
      "\<not> is_user (ath a t)"
    and kr: "cpu_cr3 s c = kroot (aheap a)"
  obtains s' b where "tset t (\<lambda>x. x\<lparr>on_cpu := True\<rparr>) (s\<lparr>cpu_current := (cpu_current s)(c := t)\<rparr>) = Some s'" "srep s' b"
    "ainv R L (insert c C) P b" "cr3_ok (insert c C) s'" "runq b = runq a"
proof -
  let ?f = "\<lambda>x. x\<lparr>on_cpu := True\<rparr>" and ?a = "a\<lparr>acur := (acur a)(c := t)\<rparr>"
  have m: "mem_ok R L a" and pl: "place_ok C P a" using I by (simp_all add: ainv_def)
  obtain s' where s': "tset t ?f (s\<lparr>cpu_current := (cpu_current s)(c := t)\<rparr>) = Some s'" "srep s' (aset t ?f ?a)"
    by (rule tset_rep [OF srep_cur [OF r, of c t], where f = ?f]) (use t(1) in \<open>auto simp: bare_def\<close>)
  have b: "place_ok (insert c C) P (aset t ?f ?a)" by (rule place_ok_online [OF pl c t(1-4)])
  have "mem_ok R L (aset t ?f ?a)" using m by (simp add: mem_ok_aset mem_ok_cpu)
  moreover have "cr3_ok (insert c C) s'"
    unfolding cr3_ok_rep [OF s'(2)]
  proof
    fix d assume d: "d \<in> insert c C"
    have cr: "cpu_cr3 s' = cpu_cr3 s" using tset_cr3 [OF s'(1)] by simp
    show "cpu_cr3 s' d = aroot d (aset t ?f ?a)"
    proof (cases "d = c")
      case True
      then show ?thesis using kr t(5) cr by (simp add: aroot_def)
    next
      case False
      then have "aroot d (aset t ?f ?a) = aroot d a" by (auto simp: aroot_def Let_def)
      then show ?thesis using k d False cr unfolding cr3_ok_rep [OF r] by simp
    qed
  qed
  ultimately show ?thesis using that s' b by (simp add: ainv_def)
qed

lemma enter_step:
  assumes r: "srep s a" and I: "ainv R L C P a" and k: "cr3_ok C s" and c: "c \<notin> C" "c < 64"
    and kr: "cpu_cr3 s c = kroot (sc_heap s)"
  obtains "sched_ap_enter (of_nat c) s = None" "thread_oom (sc_heap s)"
  | s' b L' where "sched_ap_enter (of_nat c) s = Some s'" "srep s' b" "ainv R L' (insert c C) P b" "cr3_ok (insert c C) s'" "runq b = runq a"
proof -
  let ?go = "\<lambda>s. tset (cpu_idle s c) (\<lambda>x. x\<lparr>on_cpu := True\<rparr>) (s\<lparr>cpu_current := (cpu_current s)(c := cpu_idle s c)\<rparr>)"
  have lt: "\<not> MAX_CPUS \<le> of_nat c" "unat (of_nat c :: u32) = c" using c(2) by (simp_all add: MAX_CPUS_def word_le_nat_alt unat_of_nat)
  have e: "sched_ap_enter (of_nat c) s = (if cpu_idle s c = 0 then sched_ap_prepare (of_nat c) s else Some s) \<bind> ?go"
    by (simp add: sched_ap_enter_def current_cpu [OF c(2)] sched_ap_prepare_def lt Let_def)
  note fin = that
  have go: thesis if s1: "(if cpu_idle s c = 0 then sched_ap_prepare (of_nat c) s else Some s) = Some s1" "srep s1 a1"
    "ainv R L1 C P a1" "cr3_ok C s1" "runq a1 = runq a" "aidle a1 c \<noteq> 0" "cpu_cr3 s1 = cpu_cr3 s" "kroot (aheap a1) = kroot (aheap a)" for s1 a1 L1
  proof -
    have pl: "place_ok C P a1" and m: "mem_ok R L1 a1" using s1(3) by (simp_all add: ainv_def)
    note D = place_okD [OF pl]
    let ?i = "aidle a1 c"
    have i: "aalive a1 ?i" "is_idle (ath a1 ?i)" "state (ath a1 ?i) = THREAD_RUNNING" using D(15) [OF s1(6)] by auto
    have "\<not> on_cpu (ath a1 ?i)"
    proof
      assume "on_cpu (ath a1 ?i)"
      then obtain d where d: "d \<in> C" "?i = acur a1 d" using D(8) [OF i(1)] by auto
      then have "acur a1 d = aidle a1 d" using D(6) [OF d(1)] i(2) by simp
      then show False using D(10) [of c d] s1(6) d c(1) by auto
    qed
    moreover have "\<not> is_user (ath a1 ?i)" using mem_okD(8) [OF m i(1,2)] .
    moreover have "cpu_cr3 s1 c = kroot (aheap a1)" using kr s1(7,8) srepD(10) [OF r] by simp
    ultimately obtain s' b where b: "tset ?i (\<lambda>x. x\<lparr>on_cpu := True\<rparr>) (s1\<lparr>cpu_current := (cpu_current s1)(c := ?i)\<rparr>) = Some s'" "srep s' b"
      "ainv R L1 (insert c C) P b" "cr3_ok (insert c C) s'" "runq b = runq a1"
      using online_step [OF s1(2-4) c s1(6) i(1) _ i(3)] i(2) by metis
    then have "sched_ap_enter (of_nat c) s = Some s'" unfolding e s1(1) using srepD(8) [OF s1(2)] by simp
    then show ?thesis using fin b s1(5) by simp
  qed
  show ?thesis
  proof (cases "cpu_idle s c = 0")
    case False
    then show ?thesis using go [of s a L] r I k srepD(8) [OF r] by simp
  next
    case True
    show ?thesis
    proof (rule prepare_step [OF r I k c])
      assume "sched_ap_prepare (of_nat c) s = None" "thread_oom (sc_heap s)"
      then show ?thesis using that True unfolding e by simp
    next
      fix s' b L' assume "sched_ap_prepare (of_nat c) s = Some s'" "srep s' b" "ainv R L' C P b" "cr3_ok C s'" "runq b = runq a"
        "aidle b c \<noteq> 0" "cpu_cr3 s' = cpu_cr3 s" "kroot (aheap b) = kroot (aheap a)"
      then show ?thesis using go [of s' b L'] True by simp
    qed
  qed
qed

subsection \<open>Start-up\<close>

text \<open>The state in which the start-up code calls the scheduler: no threads, empty queues.\<close>

definition boot_state :: "nat \<Rightarrow> sched \<Rightarrow> bool" where
  "boot_state c s \<longleftrightarrow> alive s = (\<lambda>_. False) \<and> rq_head s = 0 \<and> rq_tail s = 0 \<and> sleep_head s = 0 \<and>
     cpu_idle s = (\<lambda>_. 0) \<and> reap_pending s = (\<lambda>_. 0) \<and> (\<exists>L. heap_ok {} (sc_heap s) L) \<and> cpu_cr3 s c = kroot (sc_heap s)"

definition init_oom :: "heap \<Rightarrow> bool" where
  "init_oom h \<longleftrightarrow> (\<exists>h'. kmalloc THREAD_SIZE h = Some (0, h') \<and> heap_stuck h') \<or>
     (\<exists>t h'. kmalloc THREAD_SIZE h = Some (t, h') \<and> thread_oom h')"

lemma boot_rep:
  assumes "boot_state c s"
  obtains a L where "srep s a" "ainv {} L {} {} a" "runq a = []" "sleepq a = []" "cpu_cr3 s c = kroot (aheap a)"
proof -
  obtain L where h: "heap_ok {} (sc_heap s) L" using assms by (auto simp: boot_state_def)
  let ?a = "\<lparr>runq = [], sleepq = [], ticks = g_ticks s, ath = (\<lambda>t. bare (thr s t)), aalive = (\<lambda>_. False),
    acur = cpu_current s, aidle = (\<lambda>_. 0), areap = (\<lambda>_. 0), aheap = sc_heap s\<rparr>"
  have "srep s ?a" using assms by (simp add: boot_state_def srep_def)
  moreover have "ainv {} L {} {} ?a" using h by (simp add: ainv_def mem_ok_def place_ok_defs)
  ultimately show ?thesis using that assms by (simp add: boot_state_def)
qed

lemma init_step:
  assumes b: "boot_state c s" and c: "c < 64"
  obtains "sched_init (of_nat c) s = None" "init_oom (sc_heap s)"
  | s' where "sched_init (of_nat c) s = Some s'" "sched_inv {} {c} {} s'"
proof -
  obtain a L where a: "srep s a" "ainv {} L {} {} a" "runq a = []" "sleepq a = []" "cpu_cr3 s c = kroot (aheap a)"
    using b by (rule boot_rep)
  have m: "mem_ok {} L a" and pl: "place_ok {} {} a" using a(2) by (simp_all add: ainv_def)
  note H = srepD(10) [OF a(1)]
  show ?thesis
  proof (rule alloc_thread_rep [OF a(1) m])
    fix h assume "kmalloc THREAD_SIZE (aheap a) = Some (0, h)" "heap_stuck h" "alloc_thread s = None"
    then have "sched_init (of_nat c) s = None" "init_oom (sc_heap s)"
      using H by (auto simp: sched_init_def thread_create_current_def init_oom_def)
    then show ?thesis using that by blast
  next
    fix t h s1 x n
    assume o: "kmalloc THREAD_SIZE (aheap a) = Some (t, h)" "alloc_thread s = Some (t, s1)" "srep s1 (anew t x h a)" "t \<noteq> 0" "L t = None"
      "heap_ok {} h (L(t \<mapsto> n))" "kstack x = 0" "state x = THREAD_READY" "\<not> is_idle x" "\<not> is_user x" "\<not> on_cpu x"
      "th_cr3 x = 0" "kroot h = kroot (aheap a)" "cpu_cr3 s1 = cpu_cr3 s"
    have na: "\<not> aalive a t" using mem_okD(3) [OF m, of t] o(5) by auto
    let ?f = "\<lambda>x. x\<lparr>state := THREAD_RUNNING\<rparr>" and ?g = "\<lambda>x. x\<lparr>on_cpu := True\<rparr>"
    obtain s2 where s2: "tset t ?f s1 = Some s2" "srep s2 (anew t (?f x) h a)" "cpu_cr3 s2 = cpu_cr3 s1"
      by (rule tset_anew [OF o(3), where f = ?f]) (auto simp: bare_def)
    define a1 where "a1 = anew t (?f x) h a"
    have m1: "mem_ok {} (L(t \<mapsto> n)) a1" unfolding a1_def by (rule mem_ok_anew [OF m o(6) _ o(4,5)]) (use o in auto)
    have p1: "place_ok {} {} a1" unfolding a1_def by (rule place_ok_anew [OF pl na]) (use o in auto)
    let ?a2 = "aset t ?g (a1\<lparr>acur := (acur a1)(c := t)\<rparr>)"
    have r1: "srep s2 a1" using s2(2) by (simp add: a1_def)
    obtain s3 where s3: "tset t ?g (s2\<lparr>cpu_current := (cpu_current s2)(c := t)\<rparr>) = Some s3" "srep s3 ?a2"
      by (rule tset_rep [OF srep_cur [OF r1, of c t], where f = ?g]) (auto simp: a1_def bare_def)
    have c3: "cpu_cr3 s3 = cpu_cr3 s" using tset_cr3 [OF s3(1)] s2(3) o(14) by simp
    have m2: "mem_ok {} (L(t \<mapsto> n)) ?a2" using m1 by (simp add: mem_ok_aset mem_ok_cpu)
    have i: "sched_init (of_nat c) s = thread_create_idle s3 \<bind> (\<lambda>(i, s). Some (s\<lparr>cpu_idle := (cpu_idle s)(c := i)\<rparr>))"
      using o(2) s2(1) s3(1) by (simp add: sched_init_def thread_create_current_def current_cpu [OF c] Let_def)
    have hh: "sc_heap s3 = h" using srepD(10) [OF s3(2)] by (simp add: a1_def)
    show ?thesis
    proof (rule idle_step [OF s3(2) m2])
      assume "thread_create_idle s3 = None" "thread_oom (sc_heap s3)"
      then have "sched_init (of_nat c) s = None" "init_oom (sc_heap s)" using i hh H o(1) by (auto simp: init_oom_def)
      then show ?thesis using that by blast
    next
      fix j s4 y h' L'
      assume w: "thread_create_idle s3 = Some (j, s4)" "srep s4 (anew j y h' ?a2)" "mem_ok {} L' (anew j y h' ?a2)"
        "\<not> aalive ?a2 j" "j \<noteq> 0" "state y = THREAD_RUNNING" "is_idle y" "\<not> on_cpu y" "\<not> is_user y" "kroot h' = kroot (aheap ?a2)"
        "cpu_cr3 s4 = cpu_cr3 s3"
      let ?s = "s4\<lparr>cpu_idle := (cpu_idle s4)(c := j)\<rparr>" and ?b = "(anew j y h' ?a2)\<lparr>aidle := (aidle a1)(c := j)\<rparr>"
      have jt: "j \<noteq> t" "\<not> aalive a1 j" using w(4) by (auto simp: a1_def)
      have rb: "srep ?s ?b" using srep_idle [OF w(2), of c j] by simp
      define a4 where "a4 = (anew j y h' a1)\<lparr>aidle := (aidle a1)(c := j)\<rparr>"
      have "place_ok {} {} a4" unfolding a4_def by (rule place_ok_idle_new [OF p1 jt(2) w(5-8)]) simp
      then have "place_ok {c} {} (aset t ?g (a4\<lparr>acur := (acur a4)(c := t)\<rparr>))"
        by (rule place_ok_online) (use c w(5) o jt in \<open>simp_all add: a4_def a1_def\<close>)
      moreover have "aset t ?g (a4\<lparr>acur := (acur a4)(c := t)\<rparr>) = ?b"
        by (rule asched.equality) (use jt in \<open>auto simp: a4_def fun_eq_iff\<close>)
      ultimately have ib: "ainv {} L' {c} {} ?b" using w(3) by (simp add: ainv_def mem_ok_cpu)
      have "aroot c ?b = kroot h'" using jt(1) o(10) by (simp add: aroot_def a1_def)
      then have "cr3_ok {c} ?s"
        unfolding cr3_ok_rep [OF rb] using w(10,11) c3 a(5) o(13) by (simp add: a1_def)
      then have "sched_inv {} {c} {} ?s" using rb ib unfolding sched_inv_def by blast
      moreover have "sched_init (of_nat c) s = Some ?s" using i w(1) by simp
      ultimately show ?thesis using that by blast
    qed (use a in \<open>simp_all add: a1_def\<close>)
  qed (use a in simp_all)
qed

end
