(* ===== verification/Schedlive.thy ===== *)
theory Schedlive
  imports Schedsafe
begin

text \<open>
  The scheduler as a transition system, and its properties: no thread runs on two processors, no
  operation faults, no processor uses a page table that has been freed, and a thread that is
  ready gets a processor after as many ticks as there are threads before it.
\<close>

subsection \<open>Steps\<close>

text \<open>
  The rest of the kernel uses the heap and the address spaces: it may do so in any way that keeps
  the heap well formed, the kernel's page table, and the regions and spaces of the threads.
\<close>

definition sched_rely :: "u64 set \<Rightarrow> u64 set \<Rightarrow> sched \<Rightarrow> heap \<Rightarrow> bool" where
  "sched_rely R R' s h \<longleftrightarrow> kroot h = kroot (sc_heap s) \<and>
     (\<forall>L. heap_ok R (sc_heap s) L \<longrightarrow> (\<exists>L'. heap_ok R' h L' \<and>
        (\<forall>t. alive s t \<longrightarrow> (L t \<noteq> None \<longrightarrow> L' t \<noteq> None) \<and>
           (L (kstack (thr s t)) \<noteq> None \<longrightarrow> L' (kstack (thr s t)) \<noteq> None) \<and>
           (is_user (thr s t) \<longrightarrow> th_cr3 (thr s t) \<in> R \<longrightarrow> th_cr3 (thr s t) \<in> R'))))"

text \<open>
  A configuration is made of the address spaces, the processors that run, the threads that have
  been created but not started, and the state of the scheduler.  The label of a step is the
  processor that switches threads, if any.
\<close>

type_synonym sconf = "u64 set \<times> nat set \<times> u64 set \<times> sched"

inductive sched_step :: "sconf \<Rightarrow> nat option \<Rightarrow> sconf \<Rightarrow> bool" where
  tick: "c \<in> C \<Longrightarrow> sched_tick (of_nat c) old s = Some (new, s') \<Longrightarrow>
    sched_step (R, C, P, s) (Some c) (R - dead_space c s, C, P, s')"
| sleep: "c \<in> C \<Longrightarrow> \<not> is_idle (thr s (cpu_current s c)) \<Longrightarrow> state (thr s (cpu_current s c)) = THREAD_RUNNING \<Longrightarrow>
    sched_sleep_ms (of_nat c) ms old s = Some (new, s') \<Longrightarrow>
    sched_step (R, C, P, s) (Some c) (R - dead_space c s, C, P, s')"
| exit: "c \<in> C \<Longrightarrow> \<not> is_idle (thr s (cpu_current s c)) \<Longrightarrow> thread_exit (of_nat c) old s = Some (new, s') \<Longrightarrow>
    sched_step (R, C, P, s) (Some c) (R - dead_space c s, C, P, s')"
| block: "c \<in> C \<Longrightarrow> \<not> is_idle (thr s (cpu_current s c)) \<Longrightarrow>
    tset (cpu_current s c) (\<lambda>x. x\<lparr>state := THREAD_BLOCKED, wait_next := w\<rparr>) s = Some s' \<Longrightarrow>
    sched_step (R, C, P, s) None (R, C, P, s')"
| wake: "alive s t \<Longrightarrow> \<not> sched_wake_waits t s \<Longrightarrow> \<not> is_idle (thr s t) \<Longrightarrow> state (thr s t) = THREAD_BLOCKED \<Longrightarrow>
    sleepers s zs \<Longrightarrow> t \<notin> set zs \<Longrightarrow> sched_wake t s = Some s' \<Longrightarrow> sched_step (R, C, P, s) None (R, C, P, s')"
| create: "thread_create tr fn arg s = Some (t, s') \<Longrightarrow> sched_step (R, C, P, s) None (R, C, P, s')"
| create_user: "root \<in> R \<Longrightarrow> (\<And>u. alive s u \<Longrightarrow> is_user (thr s u) \<Longrightarrow> th_cr3 (thr s u) \<noteq> root) \<Longrightarrow>
    thread_create_user rip usp root s = Some (t, s') \<Longrightarrow> sched_step (R, C, P, s) None (R, C, insert t P, s')"
| start: "t \<in> P \<Longrightarrow> sched_add t s = Some s' \<Longrightarrow> sched_step (R, C, P, s) None (R, C, P - {t}, s')"
| prepare: "c \<notin> C \<Longrightarrow> c < 64 \<Longrightarrow> sched_ap_prepare (of_nat c) s = Some s' \<Longrightarrow> sched_step (R, C, P, s) None (R, C, P, s')"
| enter: "c \<notin> C \<Longrightarrow> c < 64 \<Longrightarrow> cpu_cr3 s c = kroot (sc_heap s) \<Longrightarrow> sched_ap_enter (of_nat c) s = Some s' \<Longrightarrow>
    sched_step (R, C, P, s) None (R, insert c C, P, s')"
| other: "sched_rely R R' s h \<Longrightarrow> sched_step (R, C, P, s) None (R', C, P, s\<lparr>sc_heap := h\<rparr>)"

inductive_cases sched_stepE: "sched_step (R, C, P, s) l (R', C', P', s')"

inductive sched_run :: "sconf \<Rightarrow> nat option list \<Rightarrow> sconf \<Rightarrow> bool" where
  nil: "sched_run x [] x"
| cons: "sched_step x l y \<Longrightarrow> sched_run y ls z \<Longrightarrow> sched_run x (l # ls) z"

lemma rely_inv:
  assumes r: "srep s a" and I: "ainv R L C P a" and k: "cr3_ok C s" and rl: "sched_rely R R' s h"
  obtains b L' where "srep (s\<lparr>sc_heap := h\<rparr>) b" "ainv R' L' C P b" "cr3_ok C (s\<lparr>sc_heap := h\<rparr>)" "runq b = runq a" "acur b = acur a"
proof -
  have m: "mem_ok R L a" and pl: "place_ok C P a" using I by (simp_all add: ainv_def)
  note M = mem_okD [OF m]
  have hp: "heap_ok R (sc_heap s) L" and kr: "kroot h = kroot (aheap a)" using M(1) srepD(10) [OF r] rl by (simp_all add: sched_rely_def)
  then obtain L' where L': "heap_ok R' h L'" "\<And>t. aalive a t \<Longrightarrow> (L t \<noteq> None \<longrightarrow> L' t \<noteq> None) \<and>
      (L (kstack (ath a t)) \<noteq> None \<longrightarrow> L' (kstack (ath a t)) \<noteq> None) \<and> (is_user (ath a t) \<longrightarrow> th_cr3 (ath a t) \<in> R \<longrightarrow> th_cr3 (ath a t) \<in> R')"
    using rl srepD(6) [OF r] srep_sel [OF r] unfolding sched_rely_def by metis
  let ?b = "a\<lparr>aheap := h\<rparr>"
  have "mem_ok R' L' ?b" 
  proof (rule mem_okI)
    fix t assume t: "aalive ?b t"
    then have t': "aalive a t" by simp
    show "t \<noteq> 0 \<and> L' t \<noteq> None" using M(2,3) [OF t'] L'(2) [OF t'] by blast
    show "L' (kstack (ath ?b t)) \<noteq> None \<and> \<not> aalive ?b (kstack (ath ?b t))" if "kstack (ath ?b t) \<noteq> 0"
      using M(4) [OF t'] L'(2) [OF t'] that by auto
    show "th_cr3 (ath ?b t) \<in> R'" if "is_user (ath ?b t)" "th_cr3 (ath ?b t) \<noteq> 0"
      using M(5) [OF t'] L'(2) [OF t'] that by simp
    show "\<not> is_user (ath ?b t)" if "is_idle (ath ?b t)" using M(8) [OF t'] that by simp
    fix u assume u: "aalive ?b u" "t \<noteq> u"
    show "kstack (ath ?b t) = 0" if "kstack (ath ?b t) = kstack (ath ?b u)"
      using M(6) [OF t' _ u(2)] u(1) that by simp
    show "th_cr3 (ath ?b t) = 0" if "is_user (ath ?b t)" "is_user (ath ?b u)" "th_cr3 (ath ?b t) = th_cr3 (ath ?b u)"
      using M(7) [OF t' _ u(2)] u(1) that by simp
  qed (use L'(1) in simp)
  moreover have "place_ok C P ?b" using pl by (simp add: place_ok_defs)
  moreover have rb: "srep (s\<lparr>sc_heap := h\<rparr>) ?b" by (rule srep_heap [OF r])
  moreover have "cr3_ok C (s\<lparr>sc_heap := h\<rparr>)" by (rule cr3_ok_same [OF k r rb]) (use kr in \<open>auto simp: aroot_def Let_def\<close>)
  ultimately show ?thesis using that by (simp add: ainv_def)
qed

text \<open>A step without a switch only adds to the end of the run queue.\<close>

definition effect :: "nat option \<Rightarrow> asched \<Rightarrow> asched \<Rightarrow> bool" where
  "effect l a b \<longleftrightarrow> (case l of None \<Rightarrow> (\<exists>us. runq b = runq a @ us) | Some c \<Rightarrow> switched c a b)"

lemma effect_none: "runq b = runq a \<Longrightarrow> effect None a b" "runq b = runq a @ [t] \<Longrightarrow> effect None a b"
  by (simp_all add: effect_def)

lemma step_spec:
  assumes st: "sched_step (R, C, P, s) l (R', C', P', s')" and r: "srep s a" and I: "ainv R L C P a" and k: "cr3_ok C s"
  shows "\<exists>L' b. srep s' b \<and> ainv R' L' C' P' b \<and> cr3_ok C' s' \<and> effect l a b"
  using st
proof (cases rule: sched_stepE [consumes 1, case_names tick sleep exit block wake create create_user start prepare enter other])
  case (tick c old new)
  then have g: "c \<in> C" by simp
  obtain s'' b L' where b: "sched_tick (of_nat c) old s = Some (rsp (thr s'' (cpu_current s'' c)), s'')" "srep s'' b"
    "ainv (R - dead_space c s) L' C P b" "cr3_ok C s''" "switched c a b"
    by (rule tick_step [OF r I k g, of old])
  then show ?thesis using tick by (intro exI [of _ L'] exI [of _ b]) (simp add: effect_def)
next
  case (sleep c ms old new)
  then have g: "c \<in> C" "\<not> is_idle (thr s (cpu_current s c))" "state (thr s (cpu_current s c)) = THREAD_RUNNING" by simp_all
  obtain s'' b L' where b: "sched_sleep_ms (of_nat c) ms old s = Some (rsp (thr s'' (cpu_current s'' c)), s'')" "srep s'' b"
    "ainv (R - dead_space c s) L' C P b" "cr3_ok C s''" "switched c a b"
    by (rule sleep_step [OF r I k g, of ms old])
  then show ?thesis using sleep by (intro exI [of _ L'] exI [of _ b]) (simp add: effect_def)
next
  case (exit c old new)
  then have g: "c \<in> C" "\<not> is_idle (thr s (cpu_current s c))" by simp_all
  obtain s'' b L' where b: "thread_exit (of_nat c) old s = Some (rsp (thr s'' (cpu_current s'' c)), s'')" "srep s'' b"
    "ainv (R - dead_space c s) L' C P b" "cr3_ok C s''" "switched c a b"
    by (rule exit_step [OF r I k g, of old])
  then show ?thesis using exit by (intro exI [of _ L'] exI [of _ b]) (simp add: effect_def)
next
  case (block c w)
  then have g: "c \<in> C" "\<not> is_idle (thr s (cpu_current s c))" by simp_all
  let ?f = "\<lambda>x. x\<lparr>state := THREAD_BLOCKED, wait_next := w\<rparr>"
  obtain s'' where b: "tset (cpu_current s c) ?f s = Some s''" "srep s'' (aset (acur a c) ?f a)"
    "ainv R L C P (aset (acur a c) ?f a)" "cr3_ok C s''"
    by (rule curstate_step [OF r I k g, where f = ?f]) (auto simp: bare_def)
  then show ?thesis using block by (intro exI [of _ L] exI [of _ "aset (acur a c) ?f a"]) (simp add: effect_def)
next
  case (wake t zs)
  have "\<And>us. sleepers s us \<Longrightarrow> t \<notin> set us" using wake sleepers_rep [OF r] by auto
  with r I k wake(2-5) obtain s'' b where b: "sched_wake t s = Some s''" "srep s'' b" "ainv R L C P b" "cr3_ok C s''" "runq b = runq a @ [t]"
    by (rule wake_step)
  then show ?thesis using wake by (intro exI [of _ L] exI [of _ b]) (simp add: effect_def)
next
  case (create tr fn arg t)
  show ?thesis
  proof (rule create_step [OF r I k, of tr fn arg])
    assume "thread_create tr fn arg s = None"
    then show ?thesis using create by simp
  next
    fix t' s'' b L' assume "thread_create tr fn arg s = Some (t', s'')" "srep s'' b" "ainv R L' C P b" "cr3_ok C s''" "runq b = runq a @ [t']"
    then show ?thesis using create effect_none by (intro exI [of _ L'] exI [of _ b]) simp
  qed
next
  case (create_user root rip usp t)
  show ?thesis
  proof (rule create_user_step [OF r I k, of root rip usp])
    show "root \<in> R" "\<And>u. alive s u \<Longrightarrow> is_user (thr s u) \<Longrightarrow> th_cr3 (thr s u) \<noteq> root" using create_user by auto
  next
    assume "thread_create_user rip usp root s = None"
    then show ?thesis using create_user by simp
  next
    fix t' s'' b L' assume "thread_create_user rip usp root s = Some (t', s'')" "srep s'' b" "ainv R L' C (insert t' P) b" "cr3_ok C s''" "runq b = runq a"
    then show ?thesis using create_user effect_none by (intro exI [of _ L'] exI [of _ b]) simp
  qed
next
  case (start t)
  obtain s'' b where b: "sched_add t s = Some s''" "srep s'' b" "ainv R L C (P - {t}) b" "cr3_ok C s''" "runq b = runq a @ [t]"
    by (rule start_step [OF r I k start(2)])
  then show ?thesis using start effect_none by (intro exI [of _ L] exI [of _ b]) simp
next
  case (prepare c)
  show ?thesis
  proof (rule prepare_step [OF r I k prepare(2,3)])
    assume "sched_ap_prepare (of_nat c) s = None"
    then show ?thesis using prepare by simp
  next
    fix s'' b L' assume "sched_ap_prepare (of_nat c) s = Some s''" "srep s'' b" "ainv R L' C P b" "cr3_ok C s''" "runq b = runq a"
    then show ?thesis using prepare effect_none by (intro exI [of _ L'] exI [of _ b]) simp
  qed
next
  case (enter c)
  show ?thesis
  proof (rule enter_step [OF r I k enter(2,3,4)])
    assume "sched_ap_enter (of_nat c) s = None"
    then show ?thesis using enter by simp
  next
    fix s'' b L' assume "sched_ap_enter (of_nat c) s = Some s''" "srep s'' b" "ainv R L' (insert c C) P b" "cr3_ok (insert c C) s''" "runq b = runq a"
    then show ?thesis using enter effect_none by (intro exI [of _ L'] exI [of _ b]) simp
  qed
next
  case (other h)
  obtain b L' where "srep (s\<lparr>sc_heap := h\<rparr>) b" "ainv R' L' C P b" "cr3_ok C (s\<lparr>sc_heap := h\<rparr>)" "runq b = runq a" "acur b = acur a"
    by (rule rely_inv [OF r I k other(2)])
  then show ?thesis using other effect_none by (intro exI [of _ L'] exI [of _ b]) simp
qed

lemma run_spec:
  assumes "sched_run x ls y" "x = (R, C, P, s)" "y = (R', C', P', s')" "srep s a" "ainv R L C P a" "cr3_ok C s"
  shows "\<exists>L' b. srep s' b \<and> ainv R' L' C' P' b \<and> cr3_ok C' s'"
  using assms
proof (induction arbitrary: R C P s a L rule: sched_run.induct)
  case (nil x)
  then show ?case by blast
next
  case (cons x l y ls z)
  obtain R1 C1 P1 s1 where y: "y = (R1, C1, P1, s1)" by (cases y)
  obtain L1 b1 where "srep s1 b1" "ainv R1 L1 C1 P1 b1" "cr3_ok C1 s1"
    using step_spec [OF _ cons.prems(3-5)] cons.hyps(1) cons.prems(1) y by blast
  then show ?case using cons.IH [OF y cons.prems(2)] by blast
qed

subsection \<open>Frames of new threads\<close>

definition frame_of :: "sched \<Rightarrow> u64 \<Rightarrow> u64 list" where
  "frame_of s t = map (\<lambda>i. stk s (rsp (thr s t) + 8 * of_nat i)) [0..<FRAME_QWORDS]"

lemma frame_put:
  assumes "stk s' = stk (put_frame fr vs (zero_frame fr s))" "rsp (thr s' t) = fr" "set (map fst vs) \<subseteq> {..<20}"
  shows "frame_of s' t = map (\<lambda>i. case map_of (rev vs) i of None \<Rightarrow> 0 | Some v \<Rightarrow> v) [0..<20]"
proof -
  have inj: "fr + 8 * of_nat i = fr + 8 * of_nat j \<longleftrightarrow> i = j" if "i < 20" "j < 20" for i j :: nat
  proof -
    have "unat (8 * of_nat i :: u64) = 8 * i" "unat (8 * of_nat j :: u64) = 8 * j"
      using that by (simp_all add: unat_word_ariths unat_of_nat)
    then have "8 * of_nat i = (8 * of_nat j :: u64) \<longleftrightarrow> 8 * i = 8 * j" by (metis word_unat_eq_iff)
    then show ?thesis by simp
  qed
  have put: "fold (\<lambda>(i, v) m. m(fr + 8 * of_nat i := v)) vs m (fr + 8 * of_nat j) =
      (case map_of (rev vs) j of None \<Rightarrow> m (fr + 8 * of_nat j) | Some v \<Rightarrow> v)"
    if "set (map fst vs) \<subseteq> {..<20}" "j < 20" for vs and m :: "u64 \<Rightarrow> u64" and j
    using that(1)
  proof (induction vs arbitrary: m)
    case (Cons w vs)
    obtain i v where w: "w = (i, v)" by (cases w)
    then have "i < 20" using Cons.prems by simp
    then show ?case using Cons w inj [of i j] that(2) by (auto simp: map_add_def split: option.splits)
  qed simp
  have z: "fold (\<lambda>(i, v) m. m(fr + 8 * of_nat i := v)) (map (\<lambda>i. (i, 0)) [0..<20]) m (fr + 8 * of_nat j) = 0" if "j < 20" for m :: "u64 \<Rightarrow> u64" and j
    using that put [of "map (\<lambda>i. (i, 0)) [0..<20]" j m] by (simp add: rev_map map_of_map_restrict restrict_map_def lessThan_atLeast0)
  have "stk s' (fr + 8 * of_nat i) = (case map_of (rev vs) i of None \<Rightarrow> 0 | Some v \<Rightarrow> v)" if "i < 20" for i
    unfolding assms(1) put_frame_def zero_frame_def using put [OF assms(3) that] z [OF that]
    by (simp add: FRAME_QWORDS_def split: option.split)
  then show ?thesis unfolding frame_of_def assms(2) by (intro map_cong) (simp_all add: FRAME_QWORDS_def)
qed

lemma rq_add_fields:
  assumes "rq_add t s = Some s'"
  shows "stk s' = stk s" "rsp (thr s' u) = rsp (thr s u)" "kstack (thr s' u) = kstack (thr s u)" "kstack_top (thr s' u) = kstack_top (thr s u)"
    "is_user (thr s' u) = is_user (thr s u)"
  using assms by (auto simp: rq_add_def tset_def split: if_splits bind_splits)

lemma thread_create_frame:
  assumes "thread_create tr fn arg s = Some (t, s')"
  shows "rsp (thr s' t) = kstack (thr s' t) + THREAD_KSTACK_SIZE - 160" "kstack (thr s' t) \<noteq> 0"
    "frame_of s' t = [0, 0, 0, 0, 0, 0, 0, 0, fn, arg, 0, 0, 0, 0, 0, tr, 0x08, 0x202, kstack (thr s' t) + THREAD_KSTACK_SIZE, 0x10]"
proof -
  obtain s1 s2 top s3 where e: "alloc_thread s = Some (t, s1)" "alloc_kstack t s1 = Some (top, s2)"
    "tset t (\<lambda>x. x\<lparr>rsp := top - 8 * of_nat FRAME_QWORDS\<rparr>)
       (put_frame (top - 8 * of_nat FRAME_QWORDS) [(8, fn), (9, arg), (15, tr), (16, 0x08), (17, 0x202), (18, top), (19, 0x10)]
         (zero_frame (top - 8 * of_nat FRAME_QWORDS) s2)) = Some s3"
    "sched_add t s3 = Some s'"
    using assms by (auto simp: thread_create_def Let_def split: bind_splits)
  let ?fr = "top - 8 * of_nat FRAME_QWORDS"
  have top: "top = kstack (thr s2 t) + THREAD_KSTACK_SIZE" and nz: "kstack (thr s2 t) \<noteq> 0"
    using e(2) by (auto simp: alloc_kstack_def tset_def sc_kmalloc_def split: bind_splits if_splits)
  note f = rq_add_fields [OF e(4) [unfolded sched_add_def]]
  have k: "kstack (thr s' t) = kstack (thr s2 t)" and r: "rsp (thr s' t) = ?fr"
    using e(3) by (auto simp: f tset_def put_frame_def zero_frame_def split: if_splits)
  then show "rsp (thr s' t) = kstack (thr s' t) + THREAD_KSTACK_SIZE - 160" "kstack (thr s' t) \<noteq> 0"
    using top nz by (simp_all add: FRAME_QWORDS_def)
  have "stk s' = stk (put_frame ?fr [(8, fn), (9, arg), (15, tr), (16, 0x08), (17, 0x202), (18, top), (19, 0x10)] (zero_frame ?fr s2))"
    using e(3) by (auto simp: f tset_def split: if_splits)
  from frame_put [OF this r] show "frame_of s' t = [0, 0, 0, 0, 0, 0, 0, 0, fn, arg, 0, 0, 0, 0, 0, tr, 0x08, 0x202, kstack (thr s' t) + THREAD_KSTACK_SIZE, 0x10]"
    using top k by (simp add: upt_rec)
qed

lemma thread_create_user_frame:
  assumes "thread_create_user rip usp root s = Some (t, s')"
  shows "rsp (thr s' t) = kstack (thr s' t) + THREAD_KSTACK_SIZE - 160" "is_user (thr s' t)" "th_cr3 (thr s' t) = root"
    "frame_of s' t = [0, 0, 0, 0, 0, 0, 0, 0, 0, 0, 0, 0, 0, 0, 0, rip, 0x33, 0x202, usp, 0x2b]"
proof -
  obtain s1 s2 top s3 where e: "alloc_thread s = Some (t, s1)" "alloc_kstack t s1 = Some (top, s2)"
    "tset t (\<lambda>x. x\<lparr>is_user := True, th_cr3 := root\<rparr>) s2 = Some s3"
    "tset t (\<lambda>x. x\<lparr>rsp := top - 8 * of_nat FRAME_QWORDS\<rparr>)
       (put_frame (top - 8 * of_nat FRAME_QWORDS) [(15, rip), (16, 0x33), (17, 0x202), (18, usp), (19, 0x2b)]
         (zero_frame (top - 8 * of_nat FRAME_QWORDS) s3)) = Some s'"
    using assms by (auto simp: thread_create_user_def Let_def split: bind_splits)
  let ?fr = "top - 8 * of_nat FRAME_QWORDS"
  have top: "top = kstack (thr s2 t) + THREAD_KSTACK_SIZE"
    using e(2) by (auto simp: alloc_kstack_def tset_def sc_kmalloc_def split: bind_splits if_splits)
  have k: "kstack (thr s' t) = kstack (thr s2 t)" and r: "rsp (thr s' t) = ?fr"
    and "is_user (thr s' t)" "th_cr3 (thr s' t) = root"
    using e(3,4) by (auto simp: tset_def put_frame_def zero_frame_def split: if_splits)
  then show "rsp (thr s' t) = kstack (thr s' t) + THREAD_KSTACK_SIZE - 160" "is_user (thr s' t)" "th_cr3 (thr s' t) = root"
    using top by (simp_all add: FRAME_QWORDS_def)
  have "stk s' = stk (put_frame ?fr [(15, rip), (16, 0x33), (17, 0x202), (18, usp), (19, 0x2b)] (zero_frame ?fr s3))"
    using e(4) by (auto simp: tset_def split: if_splits)
  from frame_put [OF this r] show "frame_of s' t = [0, 0, 0, 0, 0, 0, 0, 0, 0, 0, 0, 0, 0, 0, 0, rip, 0x33, 0x202, usp, 0x2b]"
    by (simp add: upt_rec)
qed

subsection \<open>Properties of the scheduler\<close>

lemma root_in_use:
  assumes "heap_ok R h L" "r \<in> insert (kroot h) R"
  shows "r \<notin> avail (mm_pmm (hp_mm h))"
proof -
  have "mm_inv R (hp_mm h)" using assms(1) by (rule heap_okE)
  then have "pt_inv (ent (hp_mm h)) (avail (mm_pmm (hp_mm h))) (kroot h) R" by (simp add: mm_inv_def)
  from pt_invD(2) [OF this assms(2), of "[]" r] show ?thesis by simp
qed

lemma inv_facts:
  assumes "srep s a" "ainv R L C P a" "cr3_ok C s"
  shows "inj_on (cpu_current s) C"
    "\<exists>us zs. run_queue s us \<and> sleepers s zs \<and> distinct (us @ zs) \<and>
       (\<forall>t \<in> set (us @ zs). alive s t \<and> t \<notin> cpu_current s ` C)"
    "c \<in> C \<Longrightarrow> alive s (cpu_current s c) \<and> state (thr s (cpu_current s c)) \<noteq> THREAD_READY"
    "c \<in> C \<Longrightarrow> cpu_cr3 s c = root_of c s \<and> cpu_cr3 s c \<notin> avail (mm_pmm (hp_mm (sc_heap s)))"
    "alive s t \<Longrightarrow> alive s u \<Longrightarrow> t \<noteq> u \<Longrightarrow> kstack (thr s t) = kstack (thr s u) \<Longrightarrow> kstack (thr s t) = 0"
proof -
  have pl: "place_ok C P a" and m: "mem_ok R L a" using assms(2) by (simp_all add: ainv_def)
  note D = place_okD [OF pl] and S = srepD [OF assms(1)] and X = srep_sel [OF assms(1)] and M = mem_okD [OF m]
  show "inj_on (cpu_current s) C" using D(7) S(7) by simp
  have dj: "set (runq a) \<inter> set (sleepq a) = {}" using D(4,5) by fastforce
  have nc: "t \<notin> acur a ` C" if "t \<in> set (runq a @ sleepq a)" for t
  proof
    assume "t \<in> acur a ` C"
    then have "on_cpu (ath a t)" using D(6) by blast
    then show False using that D(4,5) by auto
  qed
  have "run_queue s (runq a)" "sleepers s (sleepq a)" using run_queue_rep [OF assms(1)] sleepers_rep [OF assms(1)] by simp_all
  moreover have "distinct (runq a @ sleepq a)" using D(2,3) dj by simp
  moreover have "\<forall>t \<in> set (runq a @ sleepq a). alive s t \<and> t \<notin> cpu_current s ` C"
    using nc runq_alive [OF pl] unfolding S(6) S(7) set_append by blast
  ultimately show "\<exists>us zs. run_queue s us \<and> sleepers s zs \<and> distinct (us @ zs) \<and>
       (\<forall>t \<in> set (us @ zs). alive s t \<and> t \<notin> cpu_current s ` C)" by blast
  show "c \<in> C \<Longrightarrow> alive s (cpu_current s c) \<and> state (thr s (cpu_current s c)) \<noteq> THREAD_READY"
    using D(6) [of c] S(6,7) X by simp
  show "cpu_cr3 s c = root_of c s \<and> cpu_cr3 s c \<notin> avail (mm_pmm (hp_mm (sc_heap s)))" if c: "c \<in> C"
  proof -
    have e: "cpu_cr3 s c = root_of c s" using assms(3) c by (simp add: cr3_ok_def)
    have "aroot c a \<in> insert (kroot (aheap a)) R" using M(5) [of "acur a c"] D(6) [OF c] by (auto simp: aroot_def Let_def)
    then show ?thesis using root_in_use [OF M(1)] e root_of_rep [OF assms(1)] S(10) by simp
  qed
  show "alive s t \<Longrightarrow> alive s u \<Longrightarrow> t \<noteq> u \<Longrightarrow> kstack (thr s t) = kstack (thr s u) \<Longrightarrow> kstack (thr s t) = 0"
    using M(6) [of t u] S(6) X by simp
qed


text \<open>
  C31: The timer tick implements the abstract scheduler: reap, tick, wake the sleepers that are due in
  the order of the list, put the running thread at the end of the queue, take the first thread or
  the idle thread.  It returns the saved stack pointer of the thread it has chosen.
\<close>

theorem sched_tick_refines:
  assumes "srep s a" "ainv R L C P a" "cr3_ok C s" "c \<in> C"
  shows "\<exists>s' b L'. sched_tick (of_nat c) old s = Some (rsp (thr s' (cpu_current s' c)), s') \<and>
    atick c old a = Some b \<and> srep s' b \<and> ainv (R - dead_space c s) L' C P b \<and> cr3_ok C s'"
proof -
  obtain s' b L' where "sched_tick (of_nat c) old s = Some (rsp (thr s' (cpu_current s' c)), s')" "srep s' b" "atick c old a = Some b"
    "ainv (R - dead_space c s) L' C P b" "cr3_ok C s'" "switched c a b"
    using assms by (rule tick_step)
  then show ?thesis by blast
qed


text \<open>Positions in the run queue.\<close>

definition switches :: "nat option list \<Rightarrow> nat" where
  "switches ls = length (filter (\<lambda>l. l \<noteq> None) ls)"

lemma run_position:
  assumes "sched_run x ls y" "x = (R, C, P, s)" "y = (R', C', P', s')" "srep s a" "ainv R L C P a" "cr3_ok C s"
    "runq a = us @ t # vs" "switches ls \<le> length us"
  shows "\<exists>L' b ws. srep s' b \<and> ainv R' L' C' P' b \<and> cr3_ok C' s' \<and> runq b = drop (switches ls) us @ t # ws"
  using assms
proof (induction arbitrary: R C P s a L us vs rule: sched_run.induct)
  case (nil x)
  then show ?case by (intro exI [of _ L] exI [of _ a] exI [of _ vs]) (simp add: switches_def)
next
  case (cons x l y ls z)
  obtain R1 C1 P1 s1 where y: "y = (R1, C1, P1, s1)" by (cases y)
  obtain L1 b1 where b: "srep s1 b1" "ainv R1 L1 C1 P1 b1" "cr3_ok C1 s1" "effect l a b1"
    using step_spec [OF _ cons.prems(3-5)] cons.hyps(1) cons.prems(1) y by blast
  show ?case
  proof (cases l)
    case None
    then obtain ws where "runq b1 = us @ t # (vs @ ws)" using b(4) cons.prems(6) by (auto simp: effect_def)
    moreover have "switches ls \<le> length us" "switches (l # ls) = switches ls" using cons.prems(7) None by (simp_all add: switches_def)
    ultimately show ?thesis using cons.IH [OF y cons.prems(2) b(1-3)] by metis
  next
    case (Some c)
    then have n: "switches (l # ls) = Suc (switches ls)" by (simp add: switches_def)
    then obtain u us' where us: "us = u # us'" using cons.prems(7) by (cases us) auto
    then obtain ws where "runq b1 = us' @ t # (vs @ ws)" using b(4) cons.prems(6) Some by (auto simp: effect_def switched_def)
    moreover have "switches ls \<le> length us'" "drop (switches (l # ls)) us = drop (switches ls) us'"
      using cons.prems(7) n us by simp_all
    ultimately show ?thesis using cons.IH [OF y cons.prems(2) b(1-3)] by metis
  qed
qed

text \<open>
  C33: A thread that is ready is dispatched: if it is behind \<open>n\<close> threads in the run queue, then after
  \<open>n\<close> switches on whatever processors, with whatever other steps in between, the next switch on any
  processor gives it that processor.
\<close>

theorem sched_fifo:
  assumes "sched_inv R C P s" "run_queue s (us @ t # vs)" "sched_run (R, C, P, s) ls (R', C', P', s')"
    "switches ls = length us" "sched_step (R', C', P', s') (Some c) (R'', C'', P'', s'')"
  shows "cpu_current s'' c = t"
proof -
  obtain L a where a: "srep s a" "ainv R L C P a" "cr3_ok C s" using assms(1) by (auto simp: sched_inv_def)
  have "runq a = us @ t # vs" using assms(2) run_queue_rep [OF a(1)] by simp
  then obtain L' b ws where b: "srep s' b" "ainv R' L' C' P' b" "cr3_ok C' s'" "runq b = t # ws"
    using run_position [OF assms(3) refl refl a, of us t vs] assms(4) by auto
  obtain d where d: "srep s'' d" "effect (Some c) b d" using step_spec [OF assms(5) b(1-3)] by blast
  then have "acur d c = t" using b(4) by (auto simp: effect_def switched_def)
  then show ?thesis using srepD(7) [OF d(1)] by simp
qed

text \<open>
  C34: Start-up on processor \<open>c\<close> either panics because the heap is exhausted or establishes the
  invariant with that processor running.
\<close>

theorem sched_init_correct:
  assumes "boot_state c s" "c < 64"
  shows "(sched_init (of_nat c) s = None \<and> init_oom (sc_heap s)) \<or>
    (\<exists>s'. sched_init (of_nat c) s = Some s' \<and> sched_inv {} {c} {} s')"
  by (rule init_step [OF assms]) auto

text \<open>
  C35: A new kernel thread is a fresh structure with a stack of its own at the end of the run queue, and
  the frame on its stack makes the first switch to it jump to the trampoline in kernel mode with
  interrupts enabled and the function and its argument in the registers the trampoline reads.
\<close>

theorem thread_create_correct:
  assumes "sched_inv R C P s"
  shows "(thread_create tr fn arg s = None \<and> thread_oom (sc_heap s)) \<or>
    (\<exists>t s'. thread_create tr fn arg s = Some (t, s') \<and>
      sched_inv R C P s' \<and> \<not> alive s t \<and> alive s' t \<and> kstack (thr s' t) \<noteq> 0 \<and>
      (\<exists>us. run_queue s us \<and> run_queue s' (us @ [t])) \<and>
      rsp (thr s' t) = kstack (thr s' t) + THREAD_KSTACK_SIZE - 160 \<and>
      frame_of s' t = [0, 0, 0, 0, 0, 0, 0, 0, fn, arg, 0, 0, 0, 0, 0, tr, 0x08, 0x202, kstack (thr s' t) + THREAD_KSTACK_SIZE, 0x10])"
proof -
  obtain L a where a: "srep s a" "ainv R L C P a" "cr3_ok C s" using assms by (auto simp: sched_inv_def)
  show ?thesis
  proof (rule create_step [OF a, of tr fn arg])
    fix t s' b L'
    assume c: "thread_create tr fn arg s = Some (t, s')"
      and b: "srep s' b" "ainv R L' C P b" "cr3_ok C s'" "runq b = runq a @ [t]" "\<not> aalive a t"
    have "aalive b t" using b(2,4) place_okD(4) [of C P b t] by (auto simp: ainv_def)
    moreover have "sched_inv R C P s'" using b(1-3) by (auto simp: sched_inv_def)
    ultimately show ?thesis using c b thread_create_frame [OF c] srepD(6) [OF a(1)] srepD(6) [OF b(1)]
        run_queue_rep [OF a(1)] run_queue_rep [OF b(1)] by auto
  qed simp
qed

text \<open>
  A new user thread has the address space of its process, is not on the run queue yet, and its
  frame makes the first switch to it enter user mode at the entry point with interrupts enabled
  and the user stack.
\<close>

lemma thread_create_user_correct:
  assumes "sched_inv R C P s" "root \<in> R" "\<forall>u. alive s u \<longrightarrow> is_user (thr s u) \<longrightarrow> th_cr3 (thr s u) \<noteq> root"
  shows "(thread_create_user rip usp root s = None \<and> thread_oom (sc_heap s)) \<or>
    (\<exists>t s'. thread_create_user rip usp root s = Some (t, s') \<and>
      sched_inv R C (insert t P) s' \<and> \<not> alive s t \<and> alive s' t \<and> is_user (thr s' t) \<and> th_cr3 (thr s' t) = root \<and>
      (\<exists>us. run_queue s us \<and> run_queue s' us) \<and>
      rsp (thr s' t) = kstack (thr s' t) + THREAD_KSTACK_SIZE - 160 \<and>
      frame_of s' t = [0, 0, 0, 0, 0, 0, 0, 0, 0, 0, 0, 0, 0, 0, 0, rip, 0x33, 0x202, usp, 0x2b])"
proof -
  obtain L a where a: "srep s a" "ainv R L C P a" "cr3_ok C s" using assms(1) by (auto simp: sched_inv_def)
  show ?thesis
  proof (rule create_user_step [OF a assms(2), of rip usp])
    show "th_cr3 (thr s u) \<noteq> root" if "alive s u" "is_user (thr s u)" for u using assms(3) that by blast
  next
    fix t s' b L'
    assume c: "thread_create_user rip usp root s = Some (t, s')"
      and b: "srep s' b" "ainv R L' C (insert t P) b" "cr3_ok C s'" "runq b = runq a" "\<not> aalive a t"
    have "aalive b t" using b(2) place_okD(14) [of C "insert t P" b t] by (auto simp: ainv_def)
    moreover have "sched_inv R C (insert t P) s'" using b(1-3) by (auto simp: sched_inv_def)
    ultimately show ?thesis using c b thread_create_user_frame [OF c] srepD(6) [OF a(1)] srepD(6) [OF b(1)]
        run_queue_rep [OF a(1)] run_queue_rep [OF b(1)] by auto
  qed simp
qed

subsection \<open>Examples\<close>

text \<open>Two threads: the idle thread runs, the other one is ready.\<close>

definition idle_ex :: u64 where "idle_ex = HEAP_VIRT_BASE + 40"
definition ready_ex :: u64 where "ready_ex = HEAP_VIRT_BASE + 2088"

definition heap2_ex :: heap where
  "heap2_ex = heap_ex\<lparr>hp_blk := (\<lambda>b. \<lparr>b_magic = HEAP_MAGIC, b_flags = BLOCK_USED, b_size = 2048,
     b_prev = (if b = HEAP_VIRT_BASE then 0 else HEAP_VIRT_BASE), b_next_free = 0, b_prev_free = 0\<rparr>),
     heap_last := HEAP_VIRT_BASE + 2048\<rparr>"

lemma heap2_ex_ok: "heap_ok {} heap2_ex [idle_ex \<mapsto> 2008, ready_ex \<mapsto> 2008]"
proof -
  have "rep heap2_ex [HEAP_VIRT_BASE, HEAP_VIRT_BASE + 2048] [] {}"
    by (simp add: rep_def heap2_ex_def heap_ex_def blk_ok_def HEAP_VIRT_BASE_def is_free_def BLOCK_FREE_def BLOCK_USED_def)
  moreover have "live (hp_blk heap2_ex) [HEAP_VIRT_BASE, HEAP_VIRT_BASE + 2048] = [idle_ex \<mapsto> 2008, ready_ex \<mapsto> 2008]"
  proof
    fix p
    have "p - 40 = HEAP_VIRT_BASE \<longleftrightarrow> p = idle_ex" "p - 40 = HEAP_VIRT_BASE + 2048 \<longleftrightarrow> p = ready_ex"
      by (auto simp: algebra_simps idle_ex_def ready_ex_def)
    then show "live (hp_blk heap2_ex) [HEAP_VIRT_BASE, HEAP_VIRT_BASE + 2048] p = [idle_ex \<mapsto> 2008, ready_ex \<mapsto> 2008] p"
      by (simp add: live_def heap2_ex_def is_free_def BLOCK_FREE_def BLOCK_USED_def BLOCK_SIZE_def)
  qed
  moreover have "backed heap2_ex [0x7000]"
    using mm_tab_translate(1) ex_frames
    by (simp add: backed_def heap2_ex_def heap_ex_def heap_page_def HEAP_VIRT_BASE_def pmm_ex_avail)
  moreover have "mm_inv {} (hp_mm heap2_ex)" "apart {} heap2_ex [0x7000]"
    using mm_tab_inv by (simp_all add: heap2_ex_def heap_ex_def apart_def)
  ultimately show ?thesis unfolding heap_ok_def by blast
qed

definition thread_ex :: thread where
  "thread_ex = \<lparr>rsp = 0, kstack = 0, kstack_size = 0, kstack_top = 0, state = THREAD_READY, tid = 1, is_idle = False,
     is_user = False, on_cpu = False, th_cr3 = 0, run_next = 0, wait_next = 0, sleep_next = 0, sleep_deadline = 0, process = 0\<rparr>"

definition sched_ex :: sched where
  "sched_ex = \<lparr>sc_heap = heap2_ex,
     thr = (\<lambda>t. if t = idle_ex then thread_ex\<lparr>state := THREAD_RUNNING, is_idle := True, on_cpu := True\<rparr> else thread_ex),
     alive = (\<lambda>t. t = idle_ex \<or> t = ready_ex), stk = (\<lambda>_. 0), next_tid = 2, rq_head = ready_ex, rq_tail = ready_ex,
     g_ticks = 0, sleep_head = 0, cpu_current = (\<lambda>_. idle_ex), cpu_idle = (\<lambda>c. if c = 0 then idle_ex else 0),
     reap_pending = (\<lambda>_. 0), tss_rsp0 = 0, kernel_rsp = (\<lambda>_. 0), cpu_cr3 = (\<lambda>_. kroot heap2_ex)\<rparr>"

definition asched_ex :: asched where
  "asched_ex = \<lparr>runq = [ready_ex], sleepq = [], ticks = 0, ath = (\<lambda>t. bare (thr sched_ex t)), aalive = alive sched_ex,
     acur = (\<lambda>_. idle_ex), aidle = (\<lambda>c. if c = 0 then idle_ex else 0), areap = (\<lambda>_. 0), aheap = heap2_ex\<rparr>"

lemma ex_distinct: "idle_ex \<noteq> 0" "ready_ex \<noteq> 0" "idle_ex \<noteq> ready_ex"
  by (simp_all add: idle_ex_def ready_ex_def HEAP_VIRT_BASE_def)

lemma sched_ex_rep: "srep sched_ex asched_ex"
  using ex_distinct by (simp add: srep_def asched_ex_def sched_ex_def thread_ex_def)

lemma sched_ex_ainv: "ainv {} [idle_ex \<mapsto> 2008, ready_ex \<mapsto> 2008] {0} {} asched_ex"
  using ex_distinct heap2_ex_ok
  by (auto simp: ainv_def mem_ok_def place_ok_defs asched_ex_def sched_ex_def thread_ex_def split: if_splits)

lemma sched_ex_cr3: "cr3_ok {0} sched_ex"
  by (simp add: cr3_ok_def root_of_def sched_ex_def thread_ex_def)

lemma sched_ex_inv: "sched_inv {} {0} {} sched_ex"
  unfolding sched_inv_def using sched_ex_rep sched_ex_ainv sched_ex_cr3 by blast

lemma sched_ex_tick: "\<exists>s'. sched_step ({}, {0}, {}, sched_ex) (Some 0) ({}, {0}, {}, s')"
proof -
  obtain r s' where "sched_tick (of_nat 0) 7 sched_ex = Some (r, s')"
    by (rule tick_step [OF sched_ex_rep sched_ex_ainv sched_ex_cr3, of 0 7]) auto
  from sched_step.tick [OF _ this, of "{0}" "{}" "{}"] show ?thesis by auto
qed


theorem sched_tick_refines_witness:
  "srep sched_ex asched_ex \<and> (\<exists>s' b. sched_tick (of_nat 0) 7 sched_ex = Some (rsp (thr s' (cpu_current s' 0)), s') \<and>
     atick 0 7 asched_ex = Some b \<and> srep s' b)"
  using sched_tick_refines [OF sched_ex_rep sched_ex_ainv sched_ex_cr3, of 0 7] sched_ex_rep by blast


theorem sched_fifo_witness:
  "sched_inv {} {0} {} sched_ex \<and> run_queue sched_ex [ready_ex] \<and>
   (\<exists>s'. sched_step ({}, {0}, {}, sched_ex) (Some 0) ({}, {0}, {}, s') \<and> cpu_current s' 0 = ready_ex)"
proof -
  have q: "run_queue sched_ex ([] @ ready_ex # [])" using run_queue_rep [OF sched_ex_rep] by (simp add: asched_ex_def)
  have z: "switches [] = length ([] :: u64 list)" by (simp add: switches_def)
  obtain s' where s': "sched_step ({}, {0}, {}, sched_ex) (Some 0) ({}, {0}, {}, s')" using sched_ex_tick by blast
  from sched_fifo [OF sched_ex_inv q sched_run.nil z this] show ?thesis using s' sched_ex_inv q by auto
qed

definition boot_ex :: sched where
  "boot_ex = sched_ex\<lparr>alive := (\<lambda>_. False), rq_head := 0, rq_tail := 0, cpu_idle := (\<lambda>_. 0)\<rparr>"

theorem sched_init_correct_witness:
  "boot_state 0 boot_ex \<and> ((sched_init (of_nat 0) boot_ex = None \<and> init_oom heap2_ex) \<or>
     (\<exists>s'. sched_init (of_nat 0) boot_ex = Some s' \<and> sched_inv {} {0} {} s'))"
proof -
  have b: "boot_state 0 boot_ex" using heap2_ex_ok by (auto simp: boot_state_def boot_ex_def sched_ex_def)
  moreover have "sc_heap boot_ex = heap2_ex" by (simp add: boot_ex_def sched_ex_def)
  ultimately show ?thesis using sched_init_correct [OF b] by auto
qed

theorem thread_create_correct_witness:
  "sched_inv {} {0} {} sched_ex \<and> ((thread_create 1 2 3 sched_ex = None \<and> thread_oom (sc_heap sched_ex)) \<or>
    (\<exists>t s'. thread_create 1 2 3 sched_ex = Some (t, s') \<and> sched_inv {} {0} {} s' \<and> frame_of s' t ! 15 = 1))"
proof -
  have "([0, 0, 0, 0, 0, 0, 0, 0, 2, 3, 0, 0, 0, 0, 0, 1, 0x08, 0x202, x, 0x10] :: u64 list) ! 15 = 1" for x by simp
  then show ?thesis using thread_create_correct [OF sched_ex_inv, of 1 2 3] sched_ex_inv by metis
qed

end
