(* ===== verification/Waiting.thy ===== *)
theory Waiting
  imports Schedlive
begin

text \<open>
  Threads that wait for an event: they are blocked, in no queue of the scheduler, and linked by
  \<open>wait_next\<close> into the wait list of a mutex or of a process.  The scheduler leaves them alone until
  they are woken.
\<close>

definition blocked :: "sched \<Rightarrow> u64 \<Rightarrow> bool" where
  "blocked s t \<longleftrightarrow> alive s t \<and> state (thr s t) = THREAD_BLOCKED \<and> \<not> is_idle (thr s t) \<and>
     (\<forall>zs. sleepers s zs \<longrightarrow> t \<notin> set zs)"

definition wait_list :: "sched \<Rightarrow> u64 \<Rightarrow> u64 list \<Rightarrow> bool" where
  "wait_list s p ws \<longleftrightarrow> chain (\<lambda>t. wait_next (thr s t)) p ws"

lemma wait_list_cong:
  "(\<And>t. t \<in> set ws \<Longrightarrow> wait_next (thr s' t) = wait_next (thr s t)) \<Longrightarrow> wait_list s' p ws = wait_list s p ws"
  unfolding wait_list_def by (rule chain_cong)

lemma wait_list_simps [simp]:
  "wait_list s p [] \<longleftrightarrow> p = 0"
  "wait_list s p (t # ws) \<longleftrightarrow> p = t \<and> t \<noteq> 0 \<and> wait_list s (wait_next (thr s t)) ws"
  by (simp_all add: wait_list_def)

lemma wait_list_distinct: "wait_list s p ws \<Longrightarrow> distinct ws"
  unfolding wait_list_def by (rule chain_distinct)

lemma wait_list_zero: "wait_list s 0 ws \<longleftrightarrow> ws = []"
  by (cases ws) auto

lemma wait_list_nonzero: "p \<noteq> 0 \<Longrightarrow> wait_list s p ws \<Longrightarrow> \<exists>vs. ws = p # vs"
  by (cases ws) auto

lemma blocked_rep:
  assumes "srep s a"
  shows "blocked s t \<longleftrightarrow> aalive a t \<and> state (ath a t) = THREAD_BLOCKED \<and> \<not> is_idle (ath a t) \<and> t \<notin> set (sleepq a)"
  using srep_sel [OF assms] srepD(6) [OF assms] sleepers_rep [OF assms] by (auto simp: blocked_def)

subsection \<open>The timer tick\<close>

lemma atick_blocked:
  assumes I: "ainv R L C P a" and c: "c \<in> C" and b: "atick c old a = Some b"
    and t: "aalive a t" "state (ath a t) = THREAD_BLOCKED" "\<not> is_idle (ath a t)" "t \<notin> set (sleepq a)"
  shows "aalive b t \<and> state (ath b t) = THREAD_BLOCKED \<and> \<not> is_idle (ath b t) \<and> t \<notin> set (sleepq b) \<and>
    wait_next (ath b t) = wait_next (ath a t)"
proof -
  obtain L' a1 where a1: "areap_dead c a = Some a1" "ainv (R - reaped_spaces c a) L' C P a1"
    "sleepq a1 = sleepq a" "acur a1 = acur a" "\<forall>t. aalive a1 t \<longrightarrow> ath a1 t = ath a t" "aalive a1 = (\<lambda>t. aalive a t \<and> t \<noteq> areap a c)"
    using I c by (rule areap_dead_ok) blast
  have pl: "place_ok C P a" using I by (simp add: ainv_def)
  have "t \<noteq> areap a c" using place_okD(11) [OF pl, of c] t(2) mem_okD(2) [of R L a t] I t(1) by (auto simp: ainv_def)
  then have t1: "aalive a1 t" "ath a1 t = ath a t" using a1(5,6) t(1) by auto
  define d where "d = aready c old a1"
  have d: "state (ath d t) = THREAD_BLOCKED" "is_idle (ath d t) = is_idle (ath a t)" "t \<notin> set (sleepq d)"
    "wait_next (ath d t) = wait_next (ath a t)" "aalive d t"
    using t1 t a1(3) by (auto simp: d_def aready_def Let_def awake_sel)
  have pd: "place_ok C P d" using aready_ok [OF a1(2)] by (simp add: d_def ainv_def)
  have ne: "t \<noteq> anext c d"
    using pd c
  proof (cases rule: anext_cases)
    case queue
    then show ?thesis using place_okD(4) [OF pd, of "anext c d"] d(1) by auto
  next
    case self
    then show ?thesis using d(1) by (auto simp: akeeps_def)
  next
    case idle
    then show ?thesis using place_okD(9) [OF pd c] d(2) t(3) by auto
  qed
  have "b = aswitch c d" using atick_eq [OF a1(1)] b by (simp add: d_def)
  moreover have "ath (aswitch c d) t = (if t = acur d c then (ath d t)\<lparr>on_cpu := False\<rparr> else ath d t)"
    using ne d(1) by (auto simp: aswitch_def akeeps_def)
  ultimately show ?thesis using d t(3) by (cases "t = acur d c") (simp_all add: aswitch_sel)
qed

lemma tick_blocked:
  assumes "sched_inv R C P s" "c \<in> C" "sched_tick (of_nat c) old s = Some (new, s')"
  shows "sched_inv (R - dead_space c s) C P s'"
    "blocked s t \<Longrightarrow> blocked s' t \<and> wait_next (thr s' t) = wait_next (thr s t)"
proof -
  obtain L a where a: "srep s a" "ainv R L C P a" "cr3_ok C s" using assms(1) by (auto simp: sched_inv_def)
  obtain s'' b L' where "sched_tick (of_nat c) old s = Some (rsp (thr s'' (cpu_current s'' c)), s'')" "srep s'' b"
    "atick c old a = Some b" "ainv (R - dead_space c s) L' C P b" "cr3_ok C s''" "switched c a b"
    using a assms(2) by (rule tick_step)
  then have b: "srep s' b" "atick c old a = Some b" "ainv (R - dead_space c s) L' C P b" "cr3_ok C s'" using assms(3) by simp_all
  show "sched_inv (R - dead_space c s) C P s'" using b unfolding sched_inv_def by blast
  assume t: "blocked s t"
  have "aalive b t \<and> state (ath b t) = THREAD_BLOCKED \<and> \<not> is_idle (ath b t) \<and> t \<notin> set (sleepq b) \<and>
      wait_next (ath b t) = wait_next (ath a t)"
    using atick_blocked [OF a(2) assms(2) b(2)] t blocked_rep [OF a(1)] by blast
  then show "blocked s' t \<and> wait_next (thr s' t) = wait_next (thr s t)"
    using blocked_rep [OF b(1)] srep_sel(9) [OF a(1)] srep_sel(9) [OF b(1)] by simp
qed

subsection \<open>Blocking and waking\<close>

lemma sleepers_cong:
  assumes "\<And>t. sleep_next (thr s' t) = sleep_next (thr s t)" "sleep_head s' = sleep_head s"
  shows "sleepers s' = sleepers s"
  unfolding sleepers_def fun_eq_iff using chain_cong assms by metis

lemma block_self:
  assumes "sched_inv R C P s" "c \<in> C" "\<not> is_idle (thr s (cpu_current s c))"
  obtains s' where "tset (cpu_current s c) (\<lambda>x. x\<lparr>wait_next := w, state := THREAD_BLOCKED\<rparr>) s = Some s'"
    "sched_inv R C P s'" "blocked s' (cpu_current s c)" "wait_next (thr s' (cpu_current s c)) = w" "alive s' = alive s"
    "\<And>u. u \<noteq> cpu_current s c \<Longrightarrow> thr s' u = thr s u" "\<And>u. blocked s u \<Longrightarrow> blocked s' u"
proof -
  let ?t = "cpu_current s c" and ?f = "\<lambda>x. x\<lparr>wait_next := w, state := THREAD_BLOCKED\<rparr>"
  obtain L a where a: "srep s a" "ainv R L C P a" "cr3_ok C s" using assms(1) by (auto simp: sched_inv_def)
  obtain s' where s': "tset ?t ?f s = Some s'" "srep s' (aset (acur a c) ?f a)"
    "ainv R L C P (aset (acur a c) ?f a)" "cr3_ok C s'"
    by (rule curstate_step [OF a assms(2,3), where f = ?f]) (auto simp: bare_def)
  have pl: "place_ok C P a" using a(2) by (simp add: ainv_def)
  have eq: "alive s ?t" "s' = s\<lparr>thr := (thr s)(?t := ?f (thr s ?t))\<rparr>" using s'(1) by (auto simp: tset_def split: if_splits)
  have sl: "sleepers s' = sleepers s" by (rule sleepers_cong) (simp_all add: eq(2))
  have "?t \<notin> set zs" if "sleepers s zs" for zs
    using that sleepers_rep [OF a(1)] place_okD(5) [OF pl, of ?t] place_okD(6) [OF pl assms(2)] srepD(7) [OF a(1)] by auto
  then have "blocked s' ?t" using sl eq assms(3) by (simp add: blocked_def)
  moreover have "blocked s' u" if "blocked s u" for u
    using that calculation sl eq(2) by (cases "u = ?t") (auto simp: blocked_def)
  moreover have "sched_inv R C P s'" using s'(2-4) by (auto simp: sched_inv_def)
  ultimately show ?thesis using that [OF s'(1)] eq(2) by simp
qed

lemma link_thread:
  assumes "sched_inv R C P s" "alive s t"
  obtains s' where "tset t (\<lambda>x. x\<lparr>wait_next := w\<rparr>) s = Some s'"
    "sched_inv R C P s'" "wait_next (thr s' t) = w" "alive s' = alive s" "on_cpu (thr s' t) = on_cpu (thr s t)"
    "\<And>u. u \<noteq> t \<Longrightarrow> thr s' u = thr s u" "\<And>u. blocked s' u = blocked s u"
proof -
  let ?f = "\<lambda>x. x\<lparr>wait_next := w\<rparr>"
  obtain L a where a: "srep s a" "ainv R L C P a" "cr3_ok C s" using assms(1) by (auto simp: sched_inv_def)
  have al: "aalive a t" using assms(2) srepD(6) [OF a(1)] by simp
  obtain s' where s': "tset t ?f s = Some s'" "srep s' (aset t ?f a)"
    by (rule tset_rep [OF a(1) al, where f = ?f]) (auto simp: bare_def)
  have "mem_ok R L (aset t ?f a)" using a(2) by (simp add: ainv_def mem_ok_aset)
  moreover have "place_ok C P (aset t ?f a)"
  proof -
    have e: "on_cpu (ath (aset t ?f a) u) = on_cpu (ath a u)" "state (ath (aset t ?f a) u) = state (ath a u)"
      "is_idle (ath (aset t ?f a) u) = is_idle (ath a u)" for u by simp_all
    have "place_ok C P a" using a(2) by (simp add: ainv_def)
    then show ?thesis unfolding place_ok_defs e aset_sel(1-8) .
  qed
  moreover have "cr3_ok C s'" by (rule cr3_ok_same [OF a(3,1) s'(2) tset_cr3 [OF s'(1)]]) (simp add: aroot_aset)
  ultimately have i: "sched_inv R C P s'" using s'(2) by (auto simp: sched_inv_def ainv_def)
  have eq: "s' = s\<lparr>thr := (thr s)(t := ?f (thr s t))\<rparr>" using s'(1) by (auto simp: tset_def split: if_splits)
  have sl: "sleepers s' = sleepers s" by (rule sleepers_cong) (simp_all add: eq)
  have "blocked s' u = blocked s u" for u by (simp add: blocked_def sl) (simp add: eq)
  then show ?thesis using that [OF s'(1) i] eq by simp
qed

lemma rq_add_waits:
  assumes "rq_add t s = Some s'"
  shows "wait_next (thr s' u) = wait_next (thr s u)" "state (thr s' u) = state (thr s u)" "is_idle (thr s' u) = is_idle (thr s u)"
    "on_cpu (thr s' u) = on_cpu (thr s u)" "sleep_next (thr s' u) = sleep_next (thr s u)"
    "process (thr s' u) = process (thr s u)" "alive s' = alive s" "sleep_head s' = sleep_head s"
  using assms by (auto simp: rq_add_def tset_def split: if_splits)

lemma wake_thread:
  assumes "sched_inv R C P s" "blocked s t" "\<not> sched_wake_waits t s"
  obtains s' where "sched_wake t s = Some s'" "sched_inv R C P s'" "alive s' = alive s" "state (thr s' t) = THREAD_READY"
    "\<And>u. wait_next (thr s' u) = wait_next (thr s u)" "\<And>u. on_cpu (thr s' u) = on_cpu (thr s u)"
    "\<And>u. u \<noteq> t \<Longrightarrow> blocked s' u = blocked s u" "\<exists>us. run_queue s us \<and> run_queue s' (us @ [t])"
proof -
  obtain L a where a: "srep s a" "ainv R L C P a" "cr3_ok C s" using assms(1) by (auto simp: sched_inv_def)
  have t: "alive s t" "\<not> is_idle (thr s t)" "state (thr s t) = THREAD_BLOCKED" "\<And>us. sleepers s us \<Longrightarrow> t \<notin> set us"
    using assms(2) by (auto simp: blocked_def)
  obtain s' b where s': "sched_wake t s = Some s'" "srep s' b" "ainv R L C P b" "cr3_ok C s'" "runq b = runq a @ [t]"
    by (rule wake_step [OF a t(1) assms(3) t(2-4)])
  let ?s = "s\<lparr>thr := (thr s)(t := (thr s t)\<lparr>state := THREAD_READY\<rparr>)\<rparr>"
  have q: "rq_add t ?s = Some s'" using s'(1) t(1) by (simp add: sched_wake_def tset_def)
  note F = rq_add_waits [OF q]
  have sl: "sleepers s' = sleepers s" by (rule sleepers_cong) (simp_all add: F)
  have "blocked s' u = blocked s u" if "u \<noteq> t" for u using that by (simp add: blocked_def sl F)
  moreover have "run_queue s (runq a) \<and> run_queue s' (runq a @ [t])"
    using run_queue_rep [OF a(1)] run_queue_rep [OF s'(2)] s'(5) by simp
  moreover have "sched_inv R C P s'" using s' by (auto simp: sched_inv_def)
  moreover have "wait_next (thr s' u) = wait_next (thr s u)" "on_cpu (thr s' u) = on_cpu (thr s u)" "state (thr s' t) = THREAD_READY" for u
    by (simp_all add: F)
  ultimately show ?thesis using that [OF s'(1)] F(7) by auto
qed

end
