(* ===== verification/Spinlock.thy ===== *)
theory Spinlock
  imports Prelude
begin

text \<open>
  Spin locks (\<^verbatim>\<open>kernel/sync/spinlock.c\<close>).  The lock word is changed by the atomic exchange only.
  The processors that use one lock are a transition system: each has a stack of contexts, the
  code that runs on top of the code it has interrupted, and its flags register.  One turn of the
  loop in \<^verbatim>\<open>spinlock_acquire\<close> is one step.
\<close>

unbundle bit_operations_syntax

subsection \<open>Operations\<close>

record spinlock = sl_locked :: u32

definition SPINLOCK_INIT :: spinlock where "SPINLOCK_INIT = \<lparr>sl_locked = 0\<rparr>"

definition xchg32 :: "u32 \<Rightarrow> spinlock \<Rightarrow> u32 \<times> spinlock" where
  "xchg32 v l = (sl_locked l, l\<lparr>sl_locked := v\<rparr>)"

text \<open>One turn of the loop: the answer says whether the loop ends.\<close>

definition spinlock_spin :: "spinlock \<Rightarrow> bool \<times> spinlock" where
  "spinlock_spin l = (let (r, l) = xchg32 1 l in (\<not> r \<noteq> 0, l))"

definition spinlock_try_acquire :: "spinlock \<Rightarrow> bool \<times> spinlock" where
  "spinlock_try_acquire l = (let (r, l) = xchg32 1 l in (r = 0, l))"

definition spinlock_release :: "spinlock \<Rightarrow> spinlock" where
  "spinlock_release l = l\<lparr>sl_locked := 0\<rparr>"

text \<open>The flags register: the interrupt flag, \<^verbatim>\<open>pushfq; cli\<close> and \<^verbatim>\<open>popfq\<close>.\<close>

definition IF_FLAG :: u64 where "IF_FLAG = 0x200"

definition irq_save :: "u64 \<Rightarrow> u64 \<times> u64" where
  "irq_save rflags = (rflags, rflags AND NOT IF_FLAG)"

definition spinlock_release_irqrestore :: "u64 \<Rightarrow> spinlock \<Rightarrow> u64 \<times> spinlock" where
  "spinlock_release_irqrestore flags l = (flags, spinlock_release l)"

subsection \<open>Processors\<close>

text \<open>
  A context is outside, in the loop, or in the critical section; with the saved flags when it
  took the lock with interrupts switched off.
\<close>

datatype lphase = Away | Spin "u64 option" | Hold "u64 option"

record lmachine =
  lk :: spinlock
  ctxs :: "nat \<Rightarrow> lphase list"
  saved :: "nat \<Rightarrow> u64 list"
  rflags :: "nat \<Rightarrow> u64"

definition set_top :: "nat \<Rightarrow> lphase \<Rightarrow> lmachine \<Rightarrow> lmachine" where
  "set_top c p m = m\<lparr>ctxs := (ctxs m)(c := p # tl (ctxs m c))\<rparr>"

text \<open>The lock is at rest, every processor runs one context outside the critical section.\<close>

definition lock_start :: "lmachine \<Rightarrow> bool" where
  "lock_start m \<longleftrightarrow> lk m = SPINLOCK_INIT \<and> (\<forall>c. ctxs m c = [Away])"

inductive lock_step :: "bool \<Rightarrow> lmachine \<Rightarrow> lmachine \<Rightarrow> bool" for plain where
  acquire: "plain \<Longrightarrow> ctxs m c = Away # r \<Longrightarrow> lock_step plain m (set_top c (Spin None) m)"
| acquire_irqsave: "ctxs m c = Away # r \<Longrightarrow> irq_save (rflags m c) = (f, f') \<Longrightarrow>
    lock_step plain m (set_top c (Spin (Some f)) (m\<lparr>rflags := (rflags m)(c := f')\<rparr>))"
| spin: "ctxs m c = Spin x # r \<Longrightarrow> spinlock_spin (lk m) = (ok, l) \<Longrightarrow>
    lock_step plain m (set_top c (if ok then Hold x else Spin x) (m\<lparr>lk := l\<rparr>))"
| trylock: "plain \<Longrightarrow> ctxs m c = Away # r \<Longrightarrow> spinlock_try_acquire (lk m) = (ok, l) \<Longrightarrow>
    lock_step plain m (set_top c (if ok then Hold None else Away) (m\<lparr>lk := l\<rparr>))"
| release: "ctxs m c = Hold None # r \<Longrightarrow> lock_step plain m (set_top c Away (m\<lparr>lk := spinlock_release (lk m)\<rparr>))"
| release_irqrestore: "ctxs m c = Hold (Some f) # r \<Longrightarrow> spinlock_release_irqrestore f (lk m) = (f', l) \<Longrightarrow>
    lock_step plain m (set_top c Away (m\<lparr>lk := l, rflags := (rflags m)(c := f')\<rparr>))"
| compute: "f AND IF_FLAG = rflags m c AND IF_FLAG \<or> hd (ctxs m c) = Away \<Longrightarrow>
    lock_step plain m (m\<lparr>rflags := (rflags m)(c := f)\<rparr>)"
| interrupt: "rflags m c AND IF_FLAG \<noteq> 0 \<Longrightarrow>
    lock_step plain m (m\<lparr>ctxs := (ctxs m)(c := Away # ctxs m c), saved := (saved m)(c := rflags m c # saved m c),
      rflags := (rflags m)(c := rflags m c AND NOT IF_FLAG)\<rparr>)"
| iret: "ctxs m c = Away # p # r \<Longrightarrow> saved m c = f # fs \<Longrightarrow>
    lock_step plain m (m\<lparr>ctxs := (ctxs m)(c := p # r), saved := (saved m)(c := fs), rflags := (rflags m)(c := f)\<rparr>)"

inductive_cases lock_stepE: "lock_step plain m m'"

definition lock_reach :: "bool \<Rightarrow> lmachine \<Rightarrow> lmachine \<Rightarrow> bool" where
  "lock_reach plain = (lock_step plain)\<^sup>*\<^sup>*"

lemma lock_reach_refl: "lock_reach plain m m"
  by (simp add: lock_reach_def)

lemma lock_reach_step: "lock_reach plain m n \<Longrightarrow> lock_step plain n k \<Longrightarrow> lock_reach plain m k"
  unfolding lock_reach_def by (rule rtranclp.rtrancl_into_rtrancl)

subsection \<open>Mutual exclusion\<close>

text \<open>The contexts in the critical section, as pairs of processor and depth from the bottom.\<close>

definition is_hold :: "lphase \<Rightarrow> bool" where "is_hold p \<longleftrightarrow> (\<exists>x. p = Hold x)"

definition holders :: "lmachine \<Rightarrow> (nat \<times> nat) set" where
  "holders m = {(c, i). i < length (ctxs m c) \<and> is_hold (rev (ctxs m c) ! i)}"

lemma holders_ctxs: "ctxs m' = ctxs m \<Longrightarrow> holders m' = holders m"
  by (simp add: holders_def)

lemma holders_top:
  assumes "ctxs m c = p # r" "ctxs m' = (ctxs m)(c := q # r)"
  shows "holders m' = (if is_hold q then insert (c, length r) (holders m) else holders m - {(c, length r)})"
  using assms by (auto simp: holders_def nth_append less_Suc_eq split: if_splits)

lemma holders_push:
  assumes "ctxs m' = (ctxs m)(c := Away # ctxs m c)"
  shows "holders m' = holders m"
  using assms by (auto simp: holders_def is_hold_def nth_append less_Suc_eq split: if_splits)

lemma holders_pop:
  assumes "ctxs m c = Away # r" "ctxs m' = (ctxs m)(c := r)"
  shows "holders m' = holders m"
  using assms by (auto simp: holders_def is_hold_def nth_append less_Suc_eq split: if_splits)

definition lock_inv :: "lmachine \<Rightarrow> bool" where
  "lock_inv m \<longleftrightarrow> (if sl_locked (lk m) = 0 then holders m = {} else \<exists>c i. holders m = {(c, i)})"

lemma start_inv: "lock_start m \<Longrightarrow> lock_inv m"
  by (auto simp: lock_start_def lock_inv_def SPINLOCK_INIT_def holders_def is_hold_def less_Suc_eq)

lemma top_hold_unique:
  assumes "lock_inv m" "ctxs m c = Hold x # r"
  shows "holders m = {(c, length r)}" "sl_locked (lk m) \<noteq> 0"
proof -
  have "(c, length r) \<in> holders m" using assms(2) by (auto simp: holders_def is_hold_def nth_append)
  then show "holders m = {(c, length r)}" "sl_locked (lk m) \<noteq> 0"
    using assms(1) by (auto simp: lock_inv_def split: if_splits)
qed

lemma top_not_hold: "ctxs m c = p # r \<Longrightarrow> \<not> is_hold p \<Longrightarrow> (c, length r) \<notin> holders m"
  by (auto simp: holders_def nth_append)

lemma step_inv: "lock_step plain m m' \<Longrightarrow> lock_inv m \<Longrightarrow> lock_inv m'"
proof (induction rule: lock_step.induct)
  case (acquire m c r)
  then have "holders (set_top c (Spin None) m) = holders m"
    using holders_top [of m c Away r "set_top c (Spin None) m" "Spin None"] top_not_hold [of m c Away r]
    by (simp add: set_top_def is_hold_def)
  then show ?case using acquire by (simp add: lock_inv_def set_top_def)
next
  case (acquire_irqsave m c r f f')
  let ?m = "set_top c (Spin (Some f)) (m\<lparr>rflags := (rflags m)(c := f')\<rparr>)"
  have "holders ?m = holders m"
    using acquire_irqsave holders_top [of m c Away r ?m "Spin (Some f)"] top_not_hold [of m c Away r]
    by (simp add: set_top_def is_hold_def)
  then show ?case using acquire_irqsave by (simp add: lock_inv_def set_top_def)
next
  case (spin m c x r ok l)
  let ?q = "if ok then Hold x else Spin x"
  let ?m = "set_top c ?q (m\<lparr>lk := l\<rparr>)"
  have "holders ?m = (if is_hold ?q then insert (c, length r) (holders m) else holders m - {(c, length r)})"
    using spin by (intro holders_top) (simp_all add: set_top_def)
  moreover have "(c, length r) \<notin> holders m" using spin by (intro top_not_hold) (auto simp: is_hold_def)
  ultimately have "holders ?m = (if ok then insert (c, length r) (holders m) else holders m)" by (simp add: is_hold_def)
  then show ?case using spin by (auto simp: lock_inv_def set_top_def spinlock_spin_def xchg32_def split: if_splits)
next
  case (trylock m c r ok l)
  let ?q = "if ok then Hold None else Away"
  let ?m = "set_top c ?q (m\<lparr>lk := l\<rparr>)"
  have "holders ?m = (if is_hold ?q then insert (c, length r) (holders m) else holders m - {(c, length r)})"
    using trylock by (intro holders_top) (simp_all add: set_top_def)
  moreover have "(c, length r) \<notin> holders m" using trylock by (intro top_not_hold) (auto simp: is_hold_def)
  ultimately have "holders ?m = (if ok then insert (c, length r) (holders m) else holders m)" by (simp add: is_hold_def)
  then show ?case using trylock by (auto simp: lock_inv_def set_top_def spinlock_try_acquire_def xchg32_def split: if_splits)
next
  case (release m c r)
  let ?m = "set_top c Away (m\<lparr>lk := spinlock_release (lk m)\<rparr>)"
  have "holders ?m = holders m - {(c, length r)}"
    using release holders_top [of m c "Hold None" r ?m Away] by (simp add: set_top_def is_hold_def)
  then show ?case using top_hold_unique [OF release(2,1)] by (simp add: lock_inv_def set_top_def spinlock_release_def)
next
  case (release_irqrestore m c f r f' l)
  let ?m = "set_top c Away (m\<lparr>lk := l, rflags := (rflags m)(c := f')\<rparr>)"
  have "holders ?m = holders m - {(c, length r)}"
    using release_irqrestore holders_top [of m c "Hold (Some f)" r ?m Away] by (simp add: set_top_def is_hold_def)
  then have "holders ?m = {}" using top_hold_unique(1) [OF release_irqrestore(3,1)] by simp
  then show ?case using release_irqrestore(2)
    by (auto simp: lock_inv_def set_top_def spinlock_release_irqrestore_def spinlock_release_def)
next
  case (compute f m c)
  then show ?case using holders_ctxs [of "m\<lparr>rflags := (rflags m)(c := f)\<rparr>" m] by (simp add: lock_inv_def)
next
  case (interrupt m c)
  then show ?case using holders_push [of _ m c] by (simp add: lock_inv_def)
next
  case (iret m c p r f fs)
  then show ?case using holders_pop [of m c "p # r"] by (simp add: lock_inv_def)
qed

lemma reach_inv: "lock_reach plain m m' \<Longrightarrow> lock_inv m \<Longrightarrow> lock_inv m'"
  unfolding lock_reach_def by (induction rule: rtranclp_induct) (auto intro: step_inv)

subsection \<open>Interrupts\<close>

text \<open>
  When every context takes the lock with interrupts off, a context that spins or holds it runs
  with the interrupt flag clear, so it is the top of its processor.
\<close>

definition irq_inv :: "lmachine \<Rightarrow> bool" where
  "irq_inv m \<longleftrightarrow> (\<forall>c. \<exists>p n. ctxs m c = p # replicate n Away \<and>
     (p \<noteq> Away \<longrightarrow> rflags m c AND IF_FLAG = 0 \<and> p \<noteq> Spin None \<and> p \<noteq> Hold None))"

lemma start_irq_inv: "lock_start m \<Longrightarrow> irq_inv m"
  unfolding lock_start_def irq_inv_def by (auto intro!: exI [of _ Away] exI [of _ 0])

lemma irq_ctx: "irq_inv m \<Longrightarrow> \<exists>p n. ctxs m c = p # replicate n Away"
  unfolding irq_inv_def by blast

lemma irq_invD: "irq_inv m \<Longrightarrow> ctxs m c = p # r \<Longrightarrow> \<exists>n. r = replicate n Away"
  unfolding irq_inv_def by (metis list.inject)

lemma if_cleared: "(x AND NOT IF_FLAG) AND IF_FLAG = 0"
  by (rule bit_eqI) (auto simp: bit_simps)

lemma irq_inv_top:
  assumes "irq_inv m" "ctxs m c = p # r" "ctxs m' = (ctxs m)(c := q # r)" "\<And>d. d \<noteq> c \<Longrightarrow> rflags m' d = rflags m d"
    and "q \<noteq> Away \<Longrightarrow> rflags m' c AND IF_FLAG = 0 \<and> q \<noteq> Spin None \<and> q \<noteq> Hold None"
  shows "irq_inv m'"
  unfolding irq_inv_def
proof
  fix d
  obtain n where "r = replicate n Away" using irq_invD [OF assms(1,2)] by blast
  then show "\<exists>p n. ctxs m' d = p # replicate n Away \<and>
     (p \<noteq> Away \<longrightarrow> rflags m' d AND IF_FLAG = 0 \<and> p \<noteq> Spin None \<and> p \<noteq> Hold None)"
    using assms by (cases "d = c") (auto simp: irq_inv_def)
qed

lemma irq_topD:
  "irq_inv m \<Longrightarrow> ctxs m c = p # r \<Longrightarrow> p \<noteq> Away \<Longrightarrow> rflags m c AND IF_FLAG = 0 \<and> p \<noteq> Spin None \<and> p \<noteq> Hold None"
  unfolding irq_inv_def by (metis list.inject)

lemma step_irq_inv: "lock_step False m m' \<Longrightarrow> irq_inv m \<Longrightarrow> irq_inv m'"
proof (induction rule: lock_step.induct)
  case (acquire_irqsave m c r f f')
  then show ?case
    by (intro irq_inv_top [OF acquire_irqsave(3,1), where q = "Spin (Some f)"]) (auto simp: set_top_def irq_save_def if_cleared)
next
  case (spin m c x r ok l)
  then show ?case using irq_topD [OF spin(3,1)]
    by (intro irq_inv_top [OF spin(3,1), where q = "if ok then Hold x else Spin x"]) (auto simp: set_top_def split: if_splits)
next
  case (release m c r)
  then show ?case using irq_topD [of m c "Hold None" r] by simp
next
  case (release_irqrestore m c f r f' l)
  then show ?case by (intro irq_inv_top [OF release_irqrestore(3,1), where q = Away]) (auto simp: set_top_def)
next
  case (compute f m c)
  obtain p n where p: "ctxs m c = p # replicate n Away" using irq_ctx [OF compute(2)] by blast
  then show ?case using compute irq_topD [OF compute(2) p] by (intro irq_inv_top [OF compute(2) p, where q = p]) auto
next
  case (interrupt m c)
  obtain p n where p: "ctxs m c = p # replicate n Away" using irq_ctx [OF interrupt(2)] by blast
  then have "p = Away" using interrupt irq_topD [of m c] by blast
  then have "ctxs m c = replicate (Suc n) Away" using p by simp
  then show ?case using interrupt unfolding irq_inv_def by (auto intro!: exI [of _ Away] exI [of _ "Suc n"])
next
  case (iret m c p r f fs)
  obtain n where "p # r = replicate n Away" using irq_invD [OF iret(3,1)] by blast
  then have "p = Away" "\<exists>n. r = replicate n Away" by (auto simp: Cons_replicate_eq)
  then show ?case using iret unfolding irq_inv_def by (auto intro!: exI [of _ Away])
qed auto

lemma reach_irq_inv: "lock_reach False m m' \<Longrightarrow> irq_inv m \<Longrightarrow> irq_inv m'"
  unfolding lock_reach_def by (induction rule: rtranclp_induct) (auto intro: step_irq_inv)

lemma irq_holder_top:
  assumes "irq_inv m" "(c, i) \<in> holders m"
  shows "\<exists>f r. ctxs m c = Hold (Some f) # r \<and> rflags m c AND IF_FLAG = 0"
proof -
  obtain p n where p: "ctxs m c = p # replicate n Away" using irq_ctx [OF assms(1)] by blast
  have "i = n" "is_hold p" using assms(2) p
    by (auto simp: holders_def nth_append less_Suc_eq is_hold_def split: if_splits)
  then obtain x where "p = Hold x" by (auto simp: is_hold_def)
  then show ?thesis using p irq_topD [OF assms(1) p] by (cases x) auto
qed

lemma holder_pos: "Hold y \<in> set r \<Longrightarrow> ctxs m c = q @ r \<Longrightarrow> \<exists>i < length r. (c, i) \<in> holders m"
proof -
  assume "Hold y \<in> set r" "ctxs m c = q @ r"
  then obtain i where "i < length r" "rev r ! i = Hold y" by (metis in_set_conv_nth length_rev set_rev)
  then show ?thesis using \<open>ctxs m c = q @ r\<close> by (auto simp: holders_def is_hold_def nth_append intro!: exI [of _ i])
qed

text \<open>A context that spins above one that holds the lock stays in the loop.\<close>

lemma step_stuck:
  assumes "lock_step plain m m'" "lock_inv m" "ctxs m c = q @ Spin x # r" "Hold y \<in> set r"
  shows "\<exists>q'. ctxs m' c = q' @ Spin x # r"
proof -
  have l: "sl_locked (lk m) \<noteq> 0"
    using holder_pos [OF assms(4), of m c "q @ [Spin x]"] assms(2,3) by (auto simp: lock_inv_def split: if_splits)
  have top: "\<exists>q'. ctxs (set_top d p m'') c = q' @ Spin x # r"
    if "ctxs m'' = ctxs m" "d = c \<Longrightarrow> q \<noteq> [] \<or> p = Spin x" for d p m''
    using that assms(3) by (cases q) (auto simp: set_top_def)
  from assms(1) show ?thesis
  proof (cases rule: lock_stepE [consumes 1, case_names acquire save spin trylock release restore compute interrupt iret])
    case (spin d z t ok l)
    then have "\<not> ok" using \<open>sl_locked (lk m) \<noteq> 0\<close> by (simp add: spinlock_spin_def xchg32_def)
    then show ?thesis using spin assms(3) by (auto intro!: top)
  next
    case (iret d p t f fs)
    then show ?thesis using assms(3) by (cases q) (auto, metis)
  qed (use assms(3) in \<open>auto intro!: top simp: append_eq_Cons_conv\<close>)
qed

lemma reach_stuck:
  assumes "lock_reach plain m m'" "lock_inv m" "ctxs m c = q @ Spin x # r" "Hold y \<in> set r"
  shows "lock_inv m' \<and> (\<exists>q'. ctxs m' c = q' @ Spin x # r)"
  using assms unfolding lock_reach_def
proof (induction rule: rtranclp_induct)
  case (step m1 m2)
  then show ?case using step_inv step_stuck [OF step(2)] by blast
qed auto

subsection \<open>Properties\<close>

text \<open>
  C39: At most one context is in the critical section of a spin lock, on whichever processors and
  in whichever interrupt handlers it is used, and the lock word tells whether there is one.
  When the lock is always taken with interrupts off, the context that holds it runs on its
  processor, so a context that spins never waits for code it has interrupted itself, and
  takes the lock on its first try after the release.
\<close>

theorem spinlock_excludes:
  assumes "lock_start m" "lock_reach plain m n"
  shows "(\<forall>h k. h \<in> holders n \<longrightarrow> k \<in> holders n \<longrightarrow> h = k) \<and> (sl_locked (lk n) \<noteq> 0 \<longleftrightarrow> holders n \<noteq> {}) \<and>
    (\<not> plain \<longrightarrow> ctxs n c = Spin x # r \<longrightarrow> (d, i) \<in> holders n \<longrightarrow>
       d \<noteq> c \<and> rflags n d AND IF_FLAG = 0 \<and>
       (\<exists>n1 n2. lock_step plain n n1 \<and> holders n1 = {} \<and> lock_step plain n1 n2 \<and> ctxs n2 c = Hold x # r))"
proof -
  have I: "lock_inv n" using assms reach_inv start_inv by blast
  have "d \<noteq> c \<and> rflags n d AND IF_FLAG = 0 \<and>
       (\<exists>n1 n2. lock_step plain n n1 \<and> holders n1 = {} \<and> lock_step plain n1 n2 \<and> ctxs n2 c = Hold x # r)"
    if p: "\<not> plain" and sp: "ctxs n c = Spin x # r" and h: "(d, i) \<in> holders n"
  proof -
    have "irq_inv n" using assms p reach_irq_inv start_irq_inv by auto
    then obtain f t where t: "ctxs n d = Hold (Some f) # t" "rflags n d AND IF_FLAG = 0" using irq_holder_top [OF _ h] by blast
    have ne: "d \<noteq> c" using t sp by auto
    let ?n1 = "set_top d Away (n\<lparr>lk := spinlock_release (lk n), rflags := (rflags n)(d := f)\<rparr>)"
    let ?n2 = "set_top c (if True then Hold x else Spin x) (?n1\<lparr>lk := \<lparr>sl_locked = 1\<rparr>\<rparr>)"
    have 1: "lock_step plain n ?n1"
      by (rule lock_step.release_irqrestore [OF t(1)]) (simp add: spinlock_release_irqrestore_def)
    have "lock_inv ?n1" by (rule step_inv [OF 1 I])
    then have 2: "holders ?n1 = {}" by (simp add: lock_inv_def set_top_def spinlock_release_def)
    have 3: "lock_step plain ?n1 ?n2"
      by (rule lock_step.spin [of _ c x r]) (use sp ne in \<open>auto simp: set_top_def spinlock_spin_def xchg32_def spinlock_release_def\<close>)
    have "ctxs ?n2 c = Hold x # r" using sp ne by (simp add: set_top_def)
    then show ?thesis using ne t(2) 1 2 3 by blast
  qed
  then show ?thesis using I by (auto simp: lock_inv_def split: if_splits)
qed

text \<open>
  C40: A spin lock taken with interrupts enabled deadlocks when a handler on the same processor
  takes it too: the handler spins forever above the code it has interrupted, and from then on no
  context ever enters the critical section again.
\<close>

theorem spinlock_self_deadlock:
  assumes "lock_start m" "lock_reach plain m n" "ctxs n c = Spin x # r" "Hold y \<in> set r" "lock_reach plain n n'"
  shows "(\<exists>q. ctxs n' c = q @ Spin x # r) \<and> holders n' = holders n \<and> sl_locked (lk n') \<noteq> 0"
proof -
  have I: "lock_inv n" using assms reach_inv start_inv by blast
  obtain q where q: "ctxs n' c = q @ Spin x # r" and I': "lock_inv n'"
    using reach_stuck [OF assms(5) I, of c "[]" x r y] assms(3,4) by auto
  obtain i where i: "i < length r" "rev r ! i = Hold y" using assms(4) by (metis in_set_conv_nth length_rev set_rev)
  have "(c, i) \<in> holders n" "(c, i) \<in> holders n'"
    using i assms(3) q by (auto simp: holders_def is_hold_def nth_append)
  then show ?thesis using I I' q by (auto simp: lock_inv_def split: if_splits)
qed

text \<open>Two processors; on the first a handler interrupts the code that holds the lock.\<close>

definition lock_ex :: lmachine where
  "lock_ex = \<lparr>lk = SPINLOCK_INIT, ctxs = (\<lambda>_. [Away]), saved = (\<lambda>_. []), rflags = (\<lambda>_. 0x202)\<rparr>"

lemma lock_ex_start: "lock_start lock_ex"
  by (simp add: lock_start_def lock_ex_def)

theorem spinlock_excludes_witness:
  "\<exists>n. lock_reach False lock_ex n \<and> (\<forall>h k. h \<in> holders n \<longrightarrow> k \<in> holders n \<longrightarrow> h = k) \<and>
     ctxs n 1 = [Spin (Some 0x202)] \<and> (0, 0) \<in> holders n \<and>
     (\<exists>n1 n2. lock_step False n n1 \<and> holders n1 = {} \<and> lock_step False n1 n2 \<and> ctxs n2 1 = [Hold (Some 0x202)])"
proof -
  let ?a = "set_top 0 (Spin (Some 0x202)) (lock_ex\<lparr>rflags := (rflags lock_ex)(0 := 2)\<rparr>)"
  let ?b = "set_top 0 (Hold (Some 0x202)) (?a\<lparr>lk := \<lparr>sl_locked = 1\<rparr>\<rparr>)"
  let ?n = "set_top 1 (Spin (Some 0x202)) (?b\<lparr>rflags := (rflags ?b)(1 := 2)\<rparr>)"
  have 1: "lock_step False lock_ex ?a"
    by (rule acquire_irqsave [of _ 0 "[]"]) (simp_all add: lock_ex_def irq_save_def IF_FLAG_def)
  have 2: "lock_step False ?a ?b"
    using lock_step.spin [of ?a 0 "Some 0x202" "[]" True "\<lparr>sl_locked = 1\<rparr>" False]
    by (simp add: set_top_def lock_ex_def spinlock_spin_def xchg32_def SPINLOCK_INIT_def)
  have 3: "lock_step False ?b ?n"
    by (rule acquire_irqsave [of _ 1 "[]"]) (simp_all add: set_top_def lock_ex_def irq_save_def IF_FLAG_def)
  have r: "lock_reach False lock_ex ?n"
    by (rule lock_reach_step [OF lock_reach_step [OF lock_reach_step [OF lock_reach_refl 1] 2] 3])
  have "ctxs ?n 1 = [Spin (Some 0x202)]" "(0, 0) \<in> holders ?n"
    by (simp_all add: set_top_def lock_ex_def holders_def is_hold_def)
  then show ?thesis using r spinlock_excludes [OF lock_ex_start r, of 1 "Some 0x202" "[]" 0 0]
    by (intro exI [of _ ?n]) simp
qed

theorem spinlock_self_deadlock_witness:
  "\<exists>n. lock_reach True lock_ex n \<and> (\<forall>n'. lock_reach True n n' \<longrightarrow> (\<exists>q. ctxs n' 0 = q @ [Spin None, Hold None]))"
proof -
  let ?a = "set_top 0 (Spin None) lock_ex"
  let ?b = "set_top 0 (Hold None) (?a\<lparr>lk := \<lparr>sl_locked = 1\<rparr>\<rparr>)"
  let ?c = "?b\<lparr>ctxs := (ctxs ?b)(0 := Away # ctxs ?b 0), saved := (saved ?b)(0 := rflags ?b 0 # saved ?b 0),
    rflags := (rflags ?b)(0 := rflags ?b 0 AND NOT IF_FLAG)\<rparr>"
  let ?n = "set_top 0 (Spin None) ?c"
  have 1: "lock_step True lock_ex ?a" by (rule acquire [of _ _ 0 "[]"]) (simp_all add: lock_ex_def)
  have 2: "lock_step True ?a ?b"
    using lock_step.spin [of ?a 0 None "[]" True "\<lparr>sl_locked = 1\<rparr>" True]
    by (simp add: set_top_def lock_ex_def spinlock_spin_def xchg32_def SPINLOCK_INIT_def)
  have 3: "lock_step True ?b ?c" by (rule interrupt) (simp add: set_top_def lock_ex_def IF_FLAG_def)
  have 4: "lock_step True ?c ?n" by (rule acquire [of _ _ 0 "[Hold None]"]) (simp_all add: set_top_def lock_ex_def)
  have r: "lock_reach True lock_ex ?n"
    by (rule lock_reach_step [OF lock_reach_step [OF lock_reach_step [OF lock_reach_step [OF lock_reach_refl 1] 2] 3] 4])
  have "ctxs ?n 0 = [Spin None, Hold None]" by (simp add: set_top_def lock_ex_def)
  then show ?thesis using r spinlock_self_deadlock [OF lock_ex_start r, of 0 None "[Hold None]" None] by auto
qed

end
