(* ===== verification/Mutex.thy ===== *)
theory Mutex
  imports Waiting Spinlock
begin

text \<open>
  Blocking mutexes (\<^verbatim>\<open>kernel/sync/mutex.c\<close>).  The code between the acquisition and the release of
  the spin lock of the mutex is atomic; what a thread does between two such sections is a step of
  its own, so other threads and processors run in between.
\<close>

subsection \<open>Operations\<close>

record mutex =
  m_locked :: bool
  m_owner :: u64
  m_waiters :: u64

definition MUTEX_INIT :: mutex where "MUTEX_INIT = \<lparr>m_locked = False, m_owner = 0, m_waiters = 0\<rparr>"

text \<open>
  \<open>mutex_lock\<close> from the acquisition of the spin lock to its release: the thread either has the
  mutex or is on the list of waiters and goes on to give up the processor.
\<close>

definition mutex_lock :: "u32 \<Rightarrow> mutex \<Rightarrow> sched \<Rightarrow> (bool \<times> mutex \<times> sched) option" where
  "mutex_lock lapic m s = do {
     cur \<leftarrow> sched_current lapic s;
     if m_locked m then do {
       s \<leftarrow> tset cur (\<lambda>x. x\<lparr>wait_next := m_waiters m, state := THREAD_BLOCKED\<rparr>) s;
       Some (False, m\<lparr>m_waiters := cur\<rparr>, s)
     } else Some (True, m\<lparr>m_locked := True, m_owner := cur\<rparr>, s) }"

text \<open>\<open>mutex_unlock\<close> up to the release of the spin lock; the thread it returns is woken then.\<close>

definition mutex_unlock :: "mutex \<Rightarrow> sched \<Rightarrow> (u64 \<times> mutex \<times> sched) option" where
  "mutex_unlock m s =
     (let m = m\<lparr>m_locked := False, m_owner := 0\<rparr>
      in if m_waiters m \<noteq> 0 then do {
           let woken = m_waiters m;
           x \<leftarrow> tget woken s;
           let m = m\<lparr>m_waiters := wait_next x\<rparr>;
           s \<leftarrow> tset woken (\<lambda>x. x\<lparr>wait_next := 0\<rparr>) s;
           Some (woken, m, s)
         } else Some (0, m, s))"

definition mutex_try_lock :: "u32 \<Rightarrow> mutex \<Rightarrow> sched \<Rightarrow> (bool \<times> mutex) option" where
  "mutex_try_lock lapic m s =
     (if m_locked m then Some (False, m) else do {
        cur \<leftarrow> sched_current lapic s;
        Some (True, m\<lparr>m_locked := True, m_owner := cur\<rparr>) })"

subsection \<open>Threads that use a mutex\<close>

text \<open>
  Where a thread stands: outside, on the list of waiters, taken off it but not woken yet, woken and
  about to look at the mutex again, or in the critical section.
\<close>

datatype mphase = Outside | Waits | Popped | Woken | Inside

type_synonym mconf = "mutex \<times> (u64 \<Rightarrow> mphase) \<times> sconf"

inductive mutex_step :: "mconf \<Rightarrow> mconf \<Rightarrow> bool" where
  lock: "c \<in> C \<Longrightarrow> t = cpu_current s c \<Longrightarrow> \<not> is_idle (thr s t) \<Longrightarrow> ph t \<in> {Outside, Woken} \<Longrightarrow>
    mutex_lock (of_nat c) m s = Some (ok, m', s') \<Longrightarrow>
    mutex_step (m, ph, R, C, P, s) (m', ph(t := if ok then Inside else Waits), R, C, P, s')"
| trylock: "c \<in> C \<Longrightarrow> t = cpu_current s c \<Longrightarrow> ph t = Outside \<Longrightarrow> mutex_try_lock (of_nat c) m s = Some (ok, m') \<Longrightarrow>
    mutex_step (m, ph, R, C, P, s) (m', ph(t := if ok then Inside else Outside), R, C, P, s)"
| unlock: "c \<in> C \<Longrightarrow> t = cpu_current s c \<Longrightarrow> ph t = Inside \<Longrightarrow> mutex_unlock m s = Some (w, m', s') \<Longrightarrow>
    mutex_step (m, ph, R, C, P, s) (m', (if w = 0 then ph(t := Outside) else ph(t := Outside, w := Popped)), R, C, P, s')"
| wake: "ph w = Popped \<Longrightarrow> \<not> sched_wake_waits w s \<Longrightarrow> sched_wake w s = Some s' \<Longrightarrow>
    mutex_step (m, ph, R, C, P, s) (m, ph(w := Woken), R, C, P, s')"
| tick: "c \<in> C \<Longrightarrow> sched_tick (of_nat c) old s = Some (new, s') \<Longrightarrow> (\<And>t. ph t \<noteq> Outside \<Longrightarrow> alive s' t) \<Longrightarrow>
    mutex_step (m, ph, R, C, P, s) (m, ph, R - dead_space c s, C, P, s')"
| other: "sched_step (R, C, P, s) l (R', C', P', s') \<Longrightarrow> (\<And>t. ph t \<noteq> Outside \<Longrightarrow> alive s' t) \<Longrightarrow>
    (\<And>t. ph t \<in> {Waits, Popped} \<Longrightarrow> blocked s' t \<and> wait_next (thr s' t) = wait_next (thr s t)) \<Longrightarrow>
    mutex_step (m, ph, R, C, P, s) (m, ph, R', C', P', s')"

inductive_cases mutex_stepE: "mutex_step (m, ph, R, C, P, s) (m', ph', R', C', P', s')"

subsection \<open>Invariant\<close>

definition mutex_inv :: "mutex \<Rightarrow> (u64 \<Rightarrow> mphase) \<Rightarrow> sched \<Rightarrow> bool" where
  "mutex_inv m ph s \<longleftrightarrow>
     (\<forall>t. ph t \<noteq> Outside \<longrightarrow> alive s t) \<and> (\<forall>t. ph t \<in> {Waits, Popped} \<longrightarrow> blocked s t) \<and>
     (if m_locked m then {t. ph t = Inside} = {m_owner m} else {t. ph t = Inside} = {}) \<and>
     (\<exists>ws. wait_list s (m_waiters m) ws \<and> set ws = {t. ph t = Waits} \<and>
        (ws \<noteq> [] \<longrightarrow> m_locked m \<or> (\<exists>t. ph t \<in> {Popped, Woken})))"

lemma mutex_invD:
  assumes "mutex_inv m ph s"
  shows "ph t \<noteq> Outside \<Longrightarrow> alive s t" "ph t = Waits \<Longrightarrow> blocked s t" "ph t = Popped \<Longrightarrow> blocked s t"
    "m_locked m \<Longrightarrow> {t. ph t = Inside} = {m_owner m}" "\<not> m_locked m \<Longrightarrow> {t. ph t = Inside} = {}"
  using assms by (auto simp: mutex_inv_def)

lemma mutex_inv_waiters:
  assumes "mutex_inv m ph s"
  obtains ws where "wait_list s (m_waiters m) ws" "set ws = {t. ph t = Waits}"
    "ws \<noteq> [] \<Longrightarrow> m_locked m \<or> (\<exists>t. ph t \<in> {Popped, Woken})"
  using assms by (auto simp: mutex_inv_def)

lemma mutex_inv_frame:
  assumes I: "mutex_inv m ph s" and al: "\<And>t. ph t \<noteq> Outside \<Longrightarrow> alive s' t"
    and bl: "\<And>t. ph t \<in> {Waits, Popped} \<Longrightarrow> blocked s' t \<and> wait_next (thr s' t) = wait_next (thr s t)"
  shows "mutex_inv m ph s'"
proof -
  obtain ws where ws: "wait_list s (m_waiters m) ws" "set ws = {t. ph t = Waits}"
    "ws \<noteq> [] \<Longrightarrow> m_locked m \<or> (\<exists>t. ph t \<in> {Popped, Woken})" using I by (rule mutex_inv_waiters) blast
  have "wait_list s' (m_waiters m) ws = wait_list s (m_waiters m) ws"
    by (rule wait_list_cong) (use ws(2) bl in auto)
  then show ?thesis using I al bl ws unfolding mutex_inv_def by (intro conjI exI [of _ ws]) auto
qed

lemma cpu_lt: "sched_inv R C P s \<Longrightarrow> c \<in> C \<Longrightarrow> sched_current (of_nat c) s = Some (cpu_current s c)"
  using place_okD(1) by (fastforce simp: sched_inv_def ainv_def sched_current_def current_cpu)

lemma lock_inv_taken:
  assumes I: "mutex_inv m ph s" and l: "\<not> m_locked m" and t: "ph t \<in> {Outside, Woken}" "alive s t"
  shows "mutex_inv (m\<lparr>m_locked := True, m_owner := t\<rparr>) (ph(t := Inside)) s"
proof -
  note D = mutex_invD [OF I]
  obtain ws where ws: "wait_list s (m_waiters m) ws" "set ws = {t. ph t = Waits}"
    "ws \<noteq> [] \<Longrightarrow> m_locked m \<or> (\<exists>t. ph t \<in> {Popped, Woken})" using I by (rule mutex_inv_waiters) blast
  have "{u. (ph(t := Inside)) u = Inside} = {t}" using D(5) [OF l] by auto
  moreover have "set ws = {u. (ph(t := Inside)) u = Waits}" using ws(2) t(1) by auto
  ultimately show ?thesis using ws(1) t(2) D(1-3) unfolding mutex_inv_def by (auto intro!: exI [of _ ws])
qed

lemma lock_inv_waits:
  assumes I: "mutex_inv m ph s" and l: "m_locked m" and t: "ph t \<in> {Outside, Woken}" "t \<noteq> 0"
    and s': "blocked s' t" "wait_next (thr s' t) = m_waiters m" "alive s' = alive s" "\<And>u. u \<noteq> t \<Longrightarrow> thr s' u = thr s u"
      "\<And>u. blocked s u \<Longrightarrow> blocked s' u"
  shows "mutex_inv (m\<lparr>m_waiters := t\<rparr>) (ph(t := Waits)) s'"
proof -
  note D = mutex_invD [OF I]
  obtain ws where ws: "wait_list s (m_waiters m) ws" "set ws = {t. ph t = Waits}"
    using I by (rule mutex_inv_waiters)
  have "t \<notin> set ws" using ws(2) t(1) by auto
  then have "wait_list s' (m_waiters m) ws = wait_list s (m_waiters m) ws"
    by (intro wait_list_cong) (metis s'(4))
  then have "wait_list s' t (t # ws)" using ws(1) s'(2) t(2) by simp
  moreover have "set (t # ws) = {u. (ph(t := Waits)) u = Waits}" using ws(2) by auto
  moreover have "{u. (ph(t := Waits)) u = Inside} = {u. ph u = Inside}" using t(1) by auto
  moreover have "alive s' t" using s'(1) by (simp add: blocked_def)
  ultimately show ?thesis using D(1-4) l s'(1,3,5) unfolding mutex_inv_def
    by (auto intro!: exI [of _ "t # ws"])
qed

lemma unlock_inv:
  assumes I: "mutex_inv m ph s" and t: "ph t = Inside" and S: "sched_inv R C P s"
    and u: "mutex_unlock m s = Some (w, m', s')"
  shows "mutex_inv m' (if w = 0 then ph(t := Outside) else ph(t := Outside, w := Popped)) s' \<and> sched_inv R C P s'"
proof -
  note D = mutex_invD [OF I]
  obtain ws where ws: "wait_list s (m_waiters m) ws" "set ws = {t. ph t = Waits}"
    using I by (rule mutex_inv_waiters)
  have l: "m_locked m" using D(5) t by auto
  then have own: "{t. ph t = Inside} = {m_owner m}" using D(4) by simp
  then have t': "m_owner m = t" using t by (metis mem_Collect_eq singletonD)
  have out: "{u. (ph(t := Outside)) u = Inside} = {}" using own t' by auto
  show ?thesis
  proof (cases "m_waiters m = 0")
    case True
    then have "ws = []" using ws(1) by (simp add: wait_list_zero)
    moreover have "w = 0" "m' = m\<lparr>m_locked := False, m_owner := 0\<rparr>" "s' = s" using u True by (auto simp: mutex_unlock_def Let_def)
    ultimately show ?thesis using D(1-3) S ws out t unfolding mutex_inv_def by auto
  next
    case False
    then obtain vs where vs: "ws = m_waiters m # vs" using wait_list_nonzero ws(1) by blast
    let ?w = "m_waiters m"
    have w: "ph ?w = Waits" using vs ws(2) by auto
    then have al: "alive s ?w" using D(1) by simp
    obtain s1 where s1: "tset ?w (\<lambda>x. x\<lparr>wait_next := 0\<rparr>) s = Some s1" "sched_inv R C P s1" "alive s1 = alive s"
      "\<forall>u. u \<noteq> ?w \<longrightarrow> thr s1 u = thr s u" "\<forall>u. blocked s1 u = blocked s u"
      by (rule link_thread [OF S al, of 0]) blast
    have e: "w = ?w" "m' = m\<lparr>m_locked := False, m_owner := 0, m_waiters := wait_next (thr s ?w)\<rparr>" "s' = s1"
      using u False al s1(1) by (auto simp: mutex_unlock_def tget_def Let_def)
    have wt: "w \<noteq> t" "w \<noteq> 0" using w t e(1) False by auto
    let ?ph = "ph(t := Outside, w := Popped)"
    have "distinct ws" using ws(1) by (rule wait_list_distinct)
    then have "?w \<notin> set vs" using vs by simp
    then have "wait_list s1 (wait_next (thr s ?w)) vs = wait_list s (wait_next (thr s ?w)) vs"
      by (intro wait_list_cong) (metis s1(4))
    then have "wait_list s1 (m_waiters m') vs" using ws(1) vs e(2) by simp
    moreover have "t \<notin> set vs" using ws(2) vs t by force
    then have "set vs = {u. ?ph u = Waits}" using ws(2) vs \<open>?w \<notin> set vs\<close> e(1) by (auto split: if_splits)
    moreover have "{u. ?ph u = Inside} = {}" using out by auto
    moreover have "\<exists>u. ?ph u \<in> {Popped, Woken}" by (intro exI [of _ w]) simp
    moreover have "?ph u \<noteq> Outside \<Longrightarrow> alive s1 u" "?ph u \<in> {Waits, Popped} \<Longrightarrow> blocked s1 u" for u
      using D(1-3) [of u] D(1,2) [of w] w e(1) s1(3,5) by (auto split: if_splits)
    ultimately have "mutex_inv m' ?ph s1" using e(2) unfolding mutex_inv_def by (intro conjI exI [of _ vs]) simp_all
    then show ?thesis using wt e(3) s1(2) by simp
  qed
qed

lemma current_alive:
  assumes "sched_inv R C P s" "c \<in> C"
  shows "alive s (cpu_current s c)" "cpu_current s c \<noteq> 0"
proof -
  obtain L a where a: "srep s a" "ainv R L C P a" using assms(1) by (auto simp: sched_inv_def)
  then have "aalive a (cpu_current s c)" using place_okD(6) [of C P a c] assms(2) srepD(7) [OF a(1)] by (simp add: ainv_def)
  then show "alive s (cpu_current s c)" "cpu_current s c \<noteq> 0"
    using mem_okD(2) [of R L a "cpu_current s c"] a srepD(6) [OF a(1)] by (auto simp: ainv_def)
qed

lemma mutex_lock_inv:
  assumes I: "mutex_inv m ph s" and S: "sched_inv R C P s" and c: "c \<in> C" and t: "t = cpu_current s c"
    and g: "\<not> is_idle (thr s t)" "ph t \<in> {Outside, Woken}" and e: "mutex_lock (of_nat c) m s = Some (ok, m', s')"
  shows "mutex_inv m' (ph(t := if ok then Inside else Waits)) s' \<and> sched_inv R C P s'"
proof (cases "m_locked m")
  case True
  obtain s1 where s1: "tset t (\<lambda>x. x\<lparr>wait_next := m_waiters m, state := THREAD_BLOCKED\<rparr>) s = Some s1"
    "sched_inv R C P s1" "blocked s1 t" "wait_next (thr s1 t) = m_waiters m" "alive s1 = alive s"
    "\<forall>u. u \<noteq> t \<longrightarrow> thr s1 u = thr s u" "\<forall>u. blocked s u \<longrightarrow> blocked s1 u"
    unfolding t by (rule block_self [OF S c g(1) [unfolded t], of "m_waiters m"]) blast
  then have "ok = False" "m' = m\<lparr>m_waiters := t\<rparr>" "s' = s1" using e True cpu_lt [OF S c] t by (auto simp: mutex_lock_def)
  then show ?thesis
    using lock_inv_waits [OF I True g(2) _ s1(3-5)] s1(2,6,7) current_alive(2) [OF S c] t by simp
next
  case False
  then have "ok = True" "m' = m\<lparr>m_locked := True, m_owner := t\<rparr>" "s' = s"
    using e cpu_lt [OF S c] t by (auto simp: mutex_lock_def)
  then show ?thesis using lock_inv_taken [OF I False g(2)] current_alive(1) [OF S c] t S by simp
qed

lemma mutex_try_lock_inv:
  assumes I: "mutex_inv m ph s" and S: "sched_inv R C P s" and c: "c \<in> C" and t: "t = cpu_current s c"
    and g: "ph t = Outside" and e: "mutex_try_lock (of_nat c) m s = Some (ok, m')"
  shows "mutex_inv m' (ph(t := if ok then Inside else Outside)) s"
proof (cases "m_locked m")
  case True
  then have "\<not> ok" "m' = m" using e by (auto simp: mutex_try_lock_def)
  moreover have "ph(t := Outside) = ph" using g by (metis fun_upd_triv)
  ultimately show ?thesis using I by simp
next
  case False
  then have "ok" "m' = m\<lparr>m_locked := True, m_owner := t\<rparr>" using e t cpu_lt [OF S c] by (auto simp: mutex_try_lock_def)
  then show ?thesis using lock_inv_taken [OF I False] g current_alive(1) [OF S c] t by simp
qed

lemma mutex_wake_inv:
  assumes I: "mutex_inv m ph s" and S: "sched_inv R C P s" and w: "ph w = Popped" "\<not> sched_wake_waits w s"
    and e: "sched_wake w s = Some s'"
  shows "mutex_inv m (ph(w := Woken)) s' \<and> sched_inv R C P s'"
proof -
  note D = mutex_invD [OF I]
  obtain ws where ws: "wait_list s (m_waiters m) ws" "set ws = {t. ph t = Waits}" using I by (rule mutex_inv_waiters)
  obtain s1 where "sched_wake w s = Some s1" "sched_inv R C P s1" "alive s1 = alive s"
    "\<forall>u. wait_next (thr s1 u) = wait_next (thr s u)" "\<forall>u. u \<noteq> w \<longrightarrow> blocked s1 u = blocked s u"
    by (rule wake_thread [OF S D(3) [OF w(1)] w(2)]) blast
  then have s1: "sched_inv R C P s'" "alive s' = alive s"
    "\<forall>u. wait_next (thr s' u) = wait_next (thr s u)" "\<forall>u. u \<noteq> w \<longrightarrow> blocked s' u = blocked s u" using e by simp_all
  have 1: "wait_list s' (m_waiters m) ws" using ws(1) wait_list_cong [of ws s' s] s1(3) by blast
  have 2: "set ws = {u. (ph(w := Woken)) u = Waits}" "{u. (ph(w := Woken)) u = Inside} = {u. ph u = Inside}"
    using ws(2) w(1) by auto
  have 3: "\<exists>u. (ph(w := Woken)) u \<in> {Popped, Woken}" by (intro exI [of _ w]) simp
  have 4: "alive s' u" if "(ph(w := Woken)) u \<noteq> Outside" for u using that D(1) [of u] w(1) s1(2) by (simp split: if_splits)
  have 5: "blocked s' u" if "(ph(w := Woken)) u \<in> {Waits, Popped}" for u
    using that D(2,3) [of u] s1(4) by (auto split: if_splits)
  have "mutex_inv m (ph(w := Woken)) s'"
    unfolding mutex_inv_def 2(2) using 1 2(1) 3 4 5 D(4,5) by (intro conjI exI [of _ ws]) simp_all
  then show ?thesis using s1(1) by simp
qed

lemma mutex_step_inv:
  assumes st: "mutex_step (m, ph, R, C, P, s) (m', ph', R', C', P', s')" and I: "mutex_inv m ph s" and S: "sched_inv R C P s"
  shows "mutex_inv m' ph' s' \<and> sched_inv R' C' P' s'"
  using st
proof (cases rule: mutex_stepE [consumes 1, case_names lock trylock unlock wake tick other])
  case (lock c ok)
  then show ?thesis using mutex_lock_inv [OF I S _ refl, of c ok m' s'] by simp
next
  case (trylock c ok)
  then show ?thesis using mutex_try_lock_inv [OF I S _ refl, of c ok m'] S by simp
next
  case (unlock c w)
  then show ?thesis using unlock_inv [OF I _ S] by simp
next
  case (wake w)
  then show ?thesis using mutex_wake_inv [OF I S] by simp
next
  case (tick c old new)
  then have "sched_inv (R - dead_space c s) C P s'" using tick_blocked(1) [OF S] by simp
  moreover have "mutex_inv m ph s'"
    using tick tick_blocked(2) [OF S, of c old new s'] mutex_invD(2,3) [OF I] by (intro mutex_inv_frame [OF I]) auto
  ultimately show ?thesis using tick by simp
next
  case (other l)
  obtain L a where a: "srep s a" "ainv R L C P a" "cr3_ok C s" using S by (auto simp: sched_inv_def)
  have "sched_step (R, C, P, s) l (R', C', P', s')" using other by simp
  then obtain L' b where "srep s' b" "ainv R' L' C' P' b" "cr3_ok C' s'" using step_spec [OF _ a] by blast
  then have "sched_inv R' C' P' s'" by (auto simp: sched_inv_def)
  moreover have "mutex_inv m ph s'" using other by (intro mutex_inv_frame [OF I]) auto
  ultimately show ?thesis using other by simp
qed

lemma mutex_run_inv:
  assumes "mutex_step\<^sup>*\<^sup>* x y" "x = (m, ph, R, C, P, s)" "y = (m', ph', R', C', P', s')" "mutex_inv m ph s" "sched_inv R C P s"
  shows "mutex_inv m' ph' s' \<and> sched_inv R' C' P' s'"
  using assms(1,3)
proof (induction arbitrary: m' ph' R' C' P' s' rule: rtranclp_induct)
  case base
  then show ?case using assms by simp
next
  case (step y z)
  obtain m1 ph1 R1 C1 P1 s1 where y: "y = (m1, ph1, R1, C1, P1, s1)" by (metis prod_cases6)
  have "mutex_inv m1 ph1 s1" "sched_inv R1 C1 P1 s1" using step.IH [OF y] by simp_all
  then show ?case using mutex_step_inv [of m1 ph1 R1 C1 P1 s1] step.hyps(2) step.prems y by simp
qed

subsection \<open>Properties\<close>



end
