(* ===== verification/Uaccess.thy ===== *)
theory Uaccess
  imports Elf Kalloc
begin

text \<open>
  Copying between the kernel and user memory (\<^verbatim>\<open>kernel/mem/uaccess.c\<close>).  The copy is \<^verbatim>\<open>rep movsb\<close>
  under the page tables of the current process: it goes on byte by byte until the count is used
  up or an access faults; the exception table makes the handler resume behind the instruction, and
  the count that is left tells the caller.  A read faults where no page is mapped.  A write also
  faults on a page that is not writable when the processor has write protection switched on for
  the kernel, which the code leaves as it finds it: \<open>wp\<close> is that bit.
\<close>

subsection \<open>Operations\<close>

definition USER_ADDR_LIMIT :: u64 where "USER_ADDR_LIMIT = 0x800000000000"

definition user_range_ok :: "u64 \<Rightarrow> u64 \<Rightarrow> bool" where
  "user_range_ok addr len \<longleftrightarrow> addr + len \<ge> addr \<and> addr + len \<le> USER_ADDR_LIMIT"

text \<open>The exception table as a list of pairs of fault and fixup addresses.\<close>

fun extable_lookup :: "(u64 \<times> u64) list \<Rightarrow> u64 \<Rightarrow> u64" where
  "extable_lookup [] rip = 0"
| "extable_lookup ((fault, fixup) # es) rip = (if fault = rip then fixup else extable_lookup es rip)"

text \<open>The bytes that \<^verbatim>\<open>rep movsb\<close> reads from user memory before it ends or faults.\<close>

fun movsb_in :: "kmm \<Rightarrow> u64 \<Rightarrow> u64 \<Rightarrow> nat \<Rightarrow> bytes" where
  "movsb_in s r a 0 = []"
| "movsb_in s r a (Suc n) = (case ubyte s r a of None \<Rightarrow> [] | Some b \<Rightarrow> b # movsb_in s r (a + 1) n)"

definition copy_from_user :: "u64 \<Rightarrow> u64 \<Rightarrow> u64 \<Rightarrow> kmm \<Rightarrow> bool \<times> bytes" where
  "copy_from_user r user_src len s =
     (if \<not> user_range_ok user_src len then (False, [])
      else let bs = movsb_in s r user_src (unat len) in (unat len - length bs = 0, bs))"

text \<open>Whether every table on the way to a page allows writing.\<close>

definition uwritable :: "kmm \<Rightarrow> u64 \<Rightarrow> u64 \<Rightarrow> bool" where
  "uwritable s r va \<longleftrightarrow> (\<forall>k \<in> set [0..<4]. case tab (ent s) 0 r (take k (idxs va)) of None \<Rightarrow> False
     | Some t \<Rightarrow> ent s t (idxs va ! k) AND PAGE_WRITABLE \<noteq> 0)"

text \<open>\<^verbatim>\<open>rep movsb\<close> to user memory: the number of bytes left and the memory.\<close>

fun movsb_out :: "bool \<Rightarrow> u64 \<Rightarrow> u64 \<Rightarrow> bytes \<Rightarrow> kmm \<Rightarrow> nat \<times> kmm" where
  "movsb_out wp r a [] s = (0, s)"
| "movsb_out wp r a (b # bs) s =
     (case translate (ent s) r a of None \<Rightarrow> (Suc (length bs), s)
      | Some pa \<Rightarrow> if wp \<and> \<not> uwritable s r a then (Suc (length bs), s)
          else movsb_out wp r (a + 1) bs (s\<lparr>kmem := (kmem s)(direct_map s + pa := b)\<rparr>))"

definition copy_to_user :: "bool \<Rightarrow> u64 \<Rightarrow> u64 \<Rightarrow> bytes \<Rightarrow> kmm \<Rightarrow> bool \<times> kmm" where
  "copy_to_user wp r user_dst src s =
     (if \<not> user_range_ok user_dst (of_nat (length src)) then (False, s)
      else let (n, s) = movsb_out wp r user_dst src s in (n = 0, s))"

text \<open>The bytes that have been stored are part of the result, also when the answer is \<open>-1\<close>.\<close>

fun strncpy_from_user :: "u64 \<Rightarrow> u64 \<Rightarrow> nat \<Rightarrow> nat \<Rightarrow> kmm \<Rightarrow> int \<times> bytes" where
  "strncpy_from_user r s 0 i mm = (- 1, [])"
| "strncpy_from_user r s (Suc left) i mm =
     (let (ok, bs) = copy_from_user r (s + of_nat i) 1 mm
      in if \<not> ok then (- 1, [])
         else if hd bs = 0 then (int i, [0])
         else let (n, cs) = strncpy_from_user r s left (Suc i) mm in (n, hd bs # cs))"

subsection \<open>Ranges\<close>

lemma range_ok_iff: "user_range_ok a n \<longleftrightarrow> unat a + unat n \<le> 2 ^ 47"
proof
  assume r: "user_range_ok a n"
  then have "unat a + unat n < 2 ^ 64"
    using no_olen_add_nat [of a n] word_le_nat_alt by (auto simp: user_range_ok_def no_olen_add_nat)
  then show "unat a + unat n \<le> 2 ^ 47"
    using r unat_add_lem [of a n] by (simp add: user_range_ok_def USER_ADDR_LIMIT_def word_le_nat_alt)
next
  assume b: "unat a + unat n \<le> 2 ^ 47"
  then have "unat (a + n) = unat a + unat n" by (intro unat_add_lem [THEN iffD1]) simp
  then show "user_range_ok a n" using b by (simp add: user_range_ok_def USER_ADDR_LIMIT_def word_le_nat_alt)
qed

lemma in_range:
  assumes "user_range_ok a n" "i < unat n"
  shows "unat (a + of_nat i) = unat a + i" "unat (a + of_nat i) < 2 ^ 47"
proof -
  have b: "unat a + unat n \<le> 2 ^ 47" using assms(1) by (simp add: range_ok_iff)
  have i: "unat (of_nat i :: u64) = i" using assms(2) unat_less [of n] by (intro unat_of_nat_less) simp
  then show "unat (a + of_nat i) = unat a + i" using b assms(2) by (subst unat_add_lem [THEN iffD1]) simp_all
  then show "unat (a + of_nat i) < 2 ^ 47" using b assms(2) by simp
qed

subsection \<open>Reading\<close>

lemma movsb_in_length: "length (movsb_in s r a n) \<le> n"
  by (induction n arbitrary: a) (auto split: option.splits)

lemma movsb_in_nth: "i < length (movsb_in s r a n) \<Longrightarrow> ubyte s r (a + of_nat i) = Some (movsb_in s r a n ! i)"
proof (induction n arbitrary: a i)
  case (Suc n)
  show ?case
  proof (cases i)
    case 0
    then show ?thesis using Suc.prems by (auto split: option.splits)
  next
    case (Suc k)
    then show ?thesis using Suc.IH [of k "a + 1"] Suc.prems by (auto split: option.splits simp: ac_simps)
  qed
qed simp

lemma movsb_in_full: "length (movsb_in s r a n) = n \<longleftrightarrow> (\<forall>i < n. ubyte s r (a + of_nat i) \<noteq> None)"
proof (induction n arbitrary: a)
  case (Suc n)
  have "(\<forall>i < Suc n. ubyte s r (a + of_nat i) \<noteq> None) \<longleftrightarrow>
      ubyte s r a \<noteq> None \<and> (\<forall>i < n. ubyte s r (a + 1 + of_nat i) \<noteq> None)"
    by (subst All_less_Suc2) (simp add: add.assoc)
  then show ?case using Suc [of "a + 1"] movsb_in_length [of s r "a + 1" n] by (auto split: option.splits)
qed simp

subsection \<open>Writing\<close>

text \<open>Storing one byte in a page of a process.\<close>

definition user_store :: "u64 \<Rightarrow> u64 \<Rightarrow> u8 \<Rightarrow> kmm \<Rightarrow> kmm" where
  "user_store f off b s = s\<lparr>kmem := (kmem s)(direct_map s + (f + off) := b)\<rparr>"

lemma user_store_sel [simp]:
  "mm_pmm (user_store f off b s) = mm_pmm s" "direct_map (user_store f off b s) = direct_map s"
  "active_pml4_phys (user_store f off b s) = active_pml4_phys s" "same_regs s (user_store f off b s)"
  by (simp_all add: user_store_def same_regs_def)

lemma user_store_byte:
  assumes "mm_ok s" "f \<in> page_frames" "g \<in> page_frames" "off < 4096" "j < 4096"
  shows "frame_byte (user_store f off b s) g j = (if g = f \<and> j = off then b else frame_byte s g j)"
proof -
  have "direct_map s + g + j = direct_map s + f + off \<longleftrightarrow> g = f \<and> j = off"
  proof
    assume "direct_map s + g + j = direct_map s + f + off"
    then have "unat (direct_map s + g + j) = unat (direct_map s + f + off)" by (rule arg_cong)
    then have e: "unat g + unat j = unat f + unat off"
      unfolding unat_frame_byte [OF assms(1,3,5)] unat_frame_byte [OF assms(1,2,4)] by linarith
    have "unat j < 4096" "unat off < 4096" using assms(4,5) by (simp_all add: word_less_nat_alt)
    then have "g = f" using frames_apart [OF assms(2,3)] e by auto
    then show "g = f \<and> j = off" using e by (simp add: word_unat_eq_iff)
  qed simp
  then show ?thesis by (auto simp: frame_byte_def user_store_def add.assoc)
qed

lemma user_store_ok:
  assumes inv: "mm_inv R s" and r: "r \<in> R" and va: "unat va < 2 ^ 47" and f: "tab (ent s) 0 r (idxs va) = Some f"
    and s': "s' = user_store f (va AND 0xfff) b s"
  shows "mm_inv R s'"
    "r' \<in> insert (active_pml4_phys s) R \<Longrightarrow> translate (ent s') r' vb = translate (ent s) r' vb"
    "r' \<in> insert (active_pml4_phys s) R \<Longrightarrow> space_frames r' s' = space_frames r' s"
    "r' \<in> R \<Longrightarrow> unat vb < 2 ^ 47 \<Longrightarrow> ubyte s' r' vb = (if r' = r \<and> vb = va then Some b else ubyte s r' vb)"
    "g \<in> page_frames \<Longrightarrow> g \<noteq> f \<Longrightarrow> same_frame s s' g"
    "unat vb < 2 ^ 47 \<Longrightarrow> uwritable s' r vb = uwritable s r vb"
proof -
  let ?K = "active_pml4_phys s"
  have ok: "mm_ok s" and pt: "pt_inv (ent s) (avail (mm_pmm s)) ?K R" and rK: "r \<noteq> ?K"
    using inv r mm_inv_root [OF inv] by (auto simp: mm_inv_def)
  have i3: "idx 3 v < 256" if "unat v < 2 ^ 47" for v by (rule idx3_low [OF that])
  note leaf = user_leaf [OF inv r i3 [OF va] f]
  have sf: "same_frame s s' g" if "g \<in> page_frames" "g \<noteq> f" for g
    using user_store_byte [OF ok leaf(1) that(1) page_offset_less] that(2) by (simp add: same_frame_def s')
  then show "g \<in> page_frames \<Longrightarrow> g \<noteq> f \<Longrightarrow> same_frame s s' g" .
  have tf: "g \<in> page_frames \<and> g \<noteq> f" if "x \<in> insert ?K R" "g \<in> table_frames x s" for x g
  proof -
    have q: "\<exists>q. owned ?K x q \<and> length q \<le> 3 \<and> tab (ent s) 0 x q = Some g" using that(2) by (auto simp: table_frames_def)
    then have "g \<in> page_frames" using pt_invD(2) [OF pt that(1)] by blast
    moreover have "owned ?K r (idxs va)" using i3 [OF va] rK by (simp add: owned_def idxs_def)
    then have "g \<noteq> f" using q pt_invD(3) [OF pt insertI2 [OF r] that(1)] f by (fastforce simp: idxs_def)
    ultimately show ?thesis by simp
  qed
  have dat: "same_regs s s'" "mm_pmm s' = mm_pmm s" by (simp_all add: s')
  have tab_same: "\<And>x g. x \<in> insert ?K R \<Longrightarrow> g \<in> table_frames x s \<Longrightarrow> same_frame s s' g" using sf tf by blast
  note D = mm_inv_data [OF inv dat tab_same]
  show inv': "mm_inv R s'" by (rule D(1))
  show tr: "translate (ent s') r' vb = translate (ent s) r' vb" if "r' \<in> insert ?K R" for r' vb by (rule D(2) [OF _ _ that])
  show "space_frames r' s' = space_frames r' s" if "r' \<in> insert ?K R" by (rule D(3) [OF _ _ that])
  show "ubyte s' r' vb = (if r' = r \<and> vb = va then Some b else ubyte s r' vb)" if r': "r' \<in> R" and vb: "unat vb < 2 ^ 47"
  proof (cases "tab (ent s) 0 r' (idxs vb)")
    case None
    moreover have "translate (ent s') r' vb = translate (ent s) r' vb" using tr r' by simp
    ultimately show ?thesis using f translate_user [OF inv r' i3 [OF vb]] by (auto simp: ubyte_def)
  next
    case (Some g)
    note leaf' = user_leaf [OF inv r' i3 [OF vb] Some]
    have "ubyte s' r' vb = Some (frame_byte s' g (vb AND 0xfff))" "ubyte s r' vb = Some (frame_byte s g (vb AND 0xfff))"
      using translate_user [OF inv r' i3 [OF vb]] Some tr [of r' vb] r'
      by (simp_all add: ubyte_def frame_byte_def s' add.assoc)
    moreover have "frame_byte s' g (vb AND 0xfff) = (if g = f \<and> vb AND 0xfff = va AND 0xfff then b else frame_byte s g (vb AND 0xfff))"
      unfolding s' by (rule user_store_byte [OF ok leaf(1) leaf'(1) page_offset_less page_offset_less])
    moreover have "g = f \<and> vb AND 0xfff = va AND 0xfff \<longleftrightarrow> r' = r \<and> vb = va"
    proof
      assume e: "g = f \<and> vb AND 0xfff = va AND 0xfff"
      have "owned ?K r (idxs va)" "owned ?K r' (idxs vb)"
        using i3 [OF va] i3 [OF vb] rK r' mm_inv_root [OF inv] by (auto simp: owned_def idxs_def)
      then have "r' = r \<and> idxs vb = idxs va" using pt_invD(3) [OF pt insertI2 [OF r'] insertI2 [OF r], of "idxs vb" "idxs va" f] Some f e by simp
      moreover have "unat vb mod 4096 = unat va mod 4096" using e unat_page_offset by metis
      ultimately show "r' = r \<and> vb = va" using idxs_page [OF vb va] by (metis div_mult_mod_eq word_unat_eq_iff)
    qed (use Some f in auto)
    ultimately show ?thesis by auto
  qed
  show "uwritable s' r vb = uwritable s r vb" if vb: "unat vb < 2 ^ 47"
  proof -
    have "(case tab (ent s') 0 r (take k (idxs vb)) of None \<Rightarrow> False | Some t \<Rightarrow> ent s' t (idxs vb ! k) AND PAGE_WRITABLE \<noteq> 0) =
      (case tab (ent s) 0 r (take k (idxs vb)) of None \<Rightarrow> False | Some t \<Rightarrow> ent s t (idxs vb ! k) AND PAGE_WRITABLE \<noteq> 0)"
      if k: "k < 4" for k
    proof -
      have o: "owned ?K r (take k (idxs vb))" "length (take k (idxs vb)) \<le> 3" "idxs vb ! k < 512"
        using i3 [OF vb] rK k by (auto simp: owned_def idxs_def pth_def take_Cons' nth_Cons' split: if_splits)
      have e: "tab (ent s') 0 r (take k (idxs vb)) = tab (ent s) 0 r (take k (idxs vb))" by (rule D(4) [OF _ _ insertI2 [OF r] o(1)])
      have "ent s' t (idxs vb ! k) = ent s t (idxs vb ! k)" if t: "tab (ent s) 0 r (take k (idxs vb)) = Some t" for t
      proof -
        have tt: "t \<in> table_frames r s" using o t by (auto simp: table_frames_def)
        then have "same_frame s s' t" "t \<in> page_frames" using tab_same [of r t] tf [of r t] r by simp_all
        then show ?thesis using same_frame_ent [OF ok _ _ _ o(3)] by (simp add: s')
      qed
      then show ?thesis by (simp add: e split: option.splits)
    qed
    then show ?thesis unfolding uwritable_def by (intro ball_cong refl) simp
  qed
qed

text \<open>
  From \<open>s\<close> to \<open>s'\<close> the bytes \<open>bs\<close> have been stored at the user address \<open>a\<close> of the process with
  page tables \<open>r\<close>, and nothing else has changed: no other user byte of any process, no page that
  does not belong to this process, no page table and no register.
\<close>

definition user_wrote :: "u64 set \<Rightarrow> u64 \<Rightarrow> u64 \<Rightarrow> bytes \<Rightarrow> kmm \<Rightarrow> kmm \<Rightarrow> bool" where
  "user_wrote R r a bs s s' \<longleftrightarrow> mm_inv R s' \<and> same_regs s s' \<and> mm_pmm s' = mm_pmm s \<and>
     (\<forall>x \<in> insert (active_pml4_phys s) R. space_frames x s' = space_frames x s \<and> (\<forall>v. translate (ent s') x v = translate (ent s) x v)) \<and>
     (\<forall>x \<in> R. \<forall>v. unat v < 2 ^ 47 \<longrightarrow> ubyte s' x v =
        (if x = r \<and> unat a \<le> unat v \<and> unat v < unat a + length bs then Some (bs ! (unat v - unat a)) else ubyte s x v)) \<and>
     (\<forall>g \<in> page_frames. g \<notin> space_frames r s \<longrightarrow> same_frame s s' g) \<and>
     (\<forall>v. unat v < 2 ^ 47 \<longrightarrow> uwritable s' r v = uwritable s r v)"

lemma wrote_nil: "mm_inv R s \<Longrightarrow> user_wrote R r a [] s s"
  by (auto simp: user_wrote_def same_regs_def same_frame_def)

lemma wrote_cons:
  assumes inv: "mm_inv R s" and r: "r \<in> R" and b: "unat a + Suc (length bs) \<le> 2 ^ 47"
    and f: "translate (ent s) r a = Some pa" and w: "user_wrote R r (a + 1) bs (s\<lparr>kmem := (kmem s)(direct_map s + pa := x)\<rparr>) s'"
  shows "user_wrote R r a (x # bs) s s'"
proof -
  let ?K = "active_pml4_phys s"
  have a: "unat a < 2 ^ 47" using b by simp
  obtain g where g: "tab (ent s) 0 r (idxs a) = Some g" "pa = g + (a AND 0xfff)"
    using f translate_user [OF inv r idx3_low [OF a]] by auto
  define t where "t = user_store g (a AND 0xfff) x s"
  have e: "s\<lparr>kmem := (kmem s)(direct_map s + pa := x)\<rparr> = t" by (simp add: t_def user_store_def g(2))
  note T = user_store_ok [OF inv r a g(1) t_def]
  note w' = w [unfolded e user_wrote_def]
  have K: "active_pml4_phys t = ?K" by (simp add: t_def)
  have sf: "space_frames v s' = space_frames v s" if "v \<in> insert ?K R" for v using w' T(3) [OF that] that K by auto
  have tr: "translate (ent s') v va = translate (ent s) v va" if "v \<in> insert ?K R" for v va using w' T(2) [OF that] that K by auto
  have a1: "unat (a + 1) = unat a + 1" using b by (subst unat_add_lem [THEN iffD1]) simp_all
  have by': "ubyte s' v va = (if v = r \<and> unat a \<le> unat va \<and> unat va < unat a + length (x # bs)
      then Some ((x # bs) ! (unat va - unat a)) else ubyte s v va)" if v: "v \<in> R" "unat va < 2 ^ 47" for v va
  proof -
    have 1: "ubyte s' v va = (if v = r \<and> unat a + 1 \<le> unat va \<and> unat va < unat a + 1 + length bs
        then Some (bs ! (unat va - (unat a + 1))) else ubyte t v va)" using w' v a1 by simp
    have 2: "ubyte t v va = (if v = r \<and> va = a then Some x else ubyte s v va)" using T(4) [OF v] .
    have "unat va \<le> unat a \<Longrightarrow> unat a \<le> unat va \<Longrightarrow> va = a" by (simp add: word_unat_eq_iff)
    then consider "v = r" "va = a" | "v = r" "unat a < unat va" "unat va < unat a + length (x # bs)" "va \<noteq> a"
      | "\<not> (v = r \<and> unat a \<le> unat va \<and> unat va < unat a + length (x # bs))" by force
    then show ?thesis
    proof cases
      case 1
      then show ?thesis using 2 \<open>ubyte s' v va = _\<close> by simp
    next
      case 2
      then show ?thesis using \<open>ubyte s' v va = _\<close> by (simp add: nth_Cons')
    next
      case 3
      then have n: "\<not> (v = r \<and> va = a)" "\<not> (v = r \<and> unat a + 1 \<le> unat va \<and> unat va < unat a + 1 + length bs)" by auto
      show ?thesis unfolding 1 2 if_not_P [OF n(1)] if_not_P [OF n(2)] if_not_P [OF 3] ..
    qed
  qed
  have gf: "g \<in> space_frames r s" using user_leaf(4) [OF inv r idx3_low [OF a] g(1)] .
  have "same_frame s s' h" if "h \<in> page_frames" "h \<notin> space_frames r s" for h
  proof (rule same_frame_trans)
    show "same_frame s t h" using T(5) [OF that(1)] that(2) gf by blast
    have "h \<notin> space_frames r t" using T(3) [of r] r that(2) by simp
    then show "same_frame t s' h" using w' that(1) by blast
  qed
  moreover have "same_regs s s'" using w' by (simp add: same_regs_def t_def user_store_def)
  moreover have "uwritable s' r v = uwritable s r v" if "unat v < 2 ^ 47" for v using w' T(6) [OF that] that by simp
  moreover have "mm_inv R s'" "mm_pmm s' = mm_pmm s" using w' by (simp_all add: t_def)
  ultimately show ?thesis unfolding user_wrote_def using sf tr by' by blast
qed

lemma movsb_out_spec:
  assumes "mm_inv R s" "r \<in> R" "unat a + length bs \<le> 2 ^ 47" "movsb_out wp r a bs s = (n, s')"
  shows "n \<le> length bs \<and> user_wrote R r a (take (length bs - n) bs) s s' \<and>
    (n = 0 \<longleftrightarrow> (\<forall>i < length bs. ubyte s r (a + of_nat i) \<noteq> None \<and> (wp \<longrightarrow> uwritable s r (a + of_nat i))))"
  using assms
proof (induction bs arbitrary: a s)
  case Nil
  then show ?case using wrote_nil by simp
next
  case (Cons b bs)
  have all: "(\<forall>i < length (b # bs). Q (a + of_nat i)) \<longleftrightarrow> Q a \<and> (\<forall>i < length bs. Q (a + 1 + of_nat i))" for Q :: "u64 \<Rightarrow> bool"
    by (subst length_Cons, subst All_less_Suc2) (simp add: add.assoc)
  have ub: "ubyte s r a \<noteq> None \<longleftrightarrow> translate (ent s) r a \<noteq> None" by (simp add: ubyte_def)
  show ?case
  proof (cases "translate (ent s) r a = None \<or> wp \<and> \<not> uwritable s r a")
    case True
    then have "n = Suc (length bs)" "s' = s" using Cons.prems(4) by (auto split: option.splits)
    then show ?thesis using True wrote_nil [OF Cons.prems(1)] ub unfolding all [of "\<lambda>v. ubyte s r v \<noteq> None \<and> (wp \<longrightarrow> uwritable s r v)"] by auto
  next
    case False
    then obtain pa where pa: "translate (ent s) r a = Some pa" by auto
    let ?t = "s\<lparr>kmem := (kmem s)(direct_map s + pa := b)\<rparr>"
    have a: "unat a < 2 ^ 47" using Cons.prems(3) by simp
    obtain g where g: "tab (ent s) 0 r (idxs a) = Some g" "pa = g + (a AND 0xfff)"
      using pa translate_user [OF Cons.prems(1,2) idx3_low [OF a]] by auto
    have t: "?t = user_store g (a AND 0xfff) b s" by (simp add: user_store_def g(2))
    note T = user_store_ok [OF Cons.prems(1,2) a g(1) t]
    have a1: "unat (a + 1) = unat a + 1" using Cons.prems(3) by (subst unat_add_lem [THEN iffD1]) simp_all
    have m: "movsb_out wp r (a + 1) bs ?t = (n, s')" using Cons.prems(4) False pa by (auto split: if_splits)
    have IH: "n \<le> length bs \<and> user_wrote R r (a + 1) (take (length bs - n) bs) ?t s' \<and>
      (n = 0 \<longleftrightarrow> (\<forall>i < length bs. ubyte ?t r (a + 1 + of_nat i) \<noteq> None \<and> (wp \<longrightarrow> uwritable ?t r (a + 1 + of_nat i))))"
      by (rule Cons.IH [OF T(1) Cons.prems(2) _ m]) (use Cons.prems(3) a1 in simp)
    have e: "ubyte ?t r (a + 1 + of_nat i) \<noteq> None \<longleftrightarrow> ubyte s r (a + 1 + of_nat i) \<noteq> None"
      "uwritable ?t r (a + 1 + of_nat i) = uwritable s r (a + 1 + of_nat i)" if "i < length bs" for i
    proof -
      have i: "unat (of_nat (Suc i) :: u64) = Suc i" using that Cons.prems(3) by (intro unat_of_nat_less) simp
      have "unat (a + of_nat (Suc i)) = unat a + Suc i" using i that Cons.prems(3) by (subst unat_add_lem [THEN iffD1]) simp_all
      then have b: "unat (a + 1 + of_nat i) < 2 ^ 47" using that Cons.prems(3) by (simp add: add.assoc)
      show "ubyte ?t r (a + 1 + of_nat i) \<noteq> None \<longleftrightarrow> ubyte s r (a + 1 + of_nat i) \<noteq> None" using T(2) [of r] Cons.prems(2) by (simp add: ubyte_def)
      show "uwritable ?t r (a + 1 + of_nat i) = uwritable s r (a + 1 + of_nat i)" by (rule T(6) [OF b])
    qed
    have "user_wrote R r a (b # take (length bs - n) bs) s s'"
      by (rule wrote_cons [OF Cons.prems(1,2) _ pa]) (use IH Cons.prems(3) in auto)
    moreover have "take (length (b # bs) - n) (b # bs) = b # take (length bs - n) bs" using IH by (simp add: Suc_diff_le)
    ultimately show ?thesis using IH e pa False ub unfolding all [of "\<lambda>v. ubyte s r v \<noteq> None \<and> (wp \<longrightarrow> uwritable s r v)"] by auto
  qed
qed

text \<open>A copy to user memory keeps the heap of the kernel.\<close>

lemma heap_ok_wrote:
  assumes ok: "heap_ok R h L" and w: "user_wrote R r a bs (hp_mm h) mm"
  shows "heap_ok R (h\<lparr>hp_mm := mm\<rparr>) L" "active_pml4_phys mm = active_pml4_phys (hp_mm h)"
proof -
  obtain fs bs' fl where h: "mm_inv R (hp_mm h)" "backed h fs" "rep h bs' fl {}" "live (hp_blk h) bs' = L" "apart R h fs"
    using ok by (rule heap_okE)
  have mm: "mm_inv R mm" "mm_pmm mm = mm_pmm (hp_mm h)" "active_pml4_phys mm = active_pml4_phys (hp_mm h)"
    "\<And>x v. x \<in> insert (active_pml4_phys (hp_mm h)) R \<Longrightarrow> translate (ent mm) x v = translate (ent (hp_mm h)) x v"
    "\<And>x. x \<in> R \<Longrightarrow> space_frames x mm = space_frames x (hp_mm h)"
    using w by (auto simp: user_wrote_def same_regs_def)
  then show "active_pml4_phys mm = active_pml4_phys (hp_mm h)" by simp
  have "vmm_virt_to_phys mm va = vmm_virt_to_phys (hp_mm h) va" for va
    using vmm_virt_to_phys_eq [OF mm(1)] vmm_virt_to_phys_eq [OF h(1)] mm(3,4) by simp
  then have "backed (h\<lparr>hp_mm := mm\<rparr>) fs" using h(2) mm(2) by (simp add: backed_def)
  moreover have "apart R (h\<lparr>hp_mm := mm\<rparr>) fs" using h(5) mm(5) by (simp add: apart_def)
  ultimately show "heap_ok R (h\<lparr>hp_mm := mm\<rparr>) L" unfolding heap_ok_def using mm(1) h(3,4) by (auto simp: rep_mm)
qed

subsection \<open>Strings\<close>

text \<open>The string \<open>xs\<close> stands at the user address \<open>a\<close>, with its terminator, in user memory.\<close>

definition user_cstr :: "kmm \<Rightarrow> u64 \<Rightarrow> u64 \<Rightarrow> bytes \<Rightarrow> bool" where
  "user_cstr s r a xs \<longleftrightarrow> unat a + length xs < 2 ^ 47 \<and> 0 \<notin> set xs \<and>
     (\<forall>i \<le> length xs. ubyte s r (a + of_nat i) = Some ((xs @ [0]) ! i))"

lemma user_cstr_Nil: "user_cstr s r a [] \<longleftrightarrow> unat a < 2 ^ 47 \<and> ubyte s r a = Some 0"
  by (simp add: user_cstr_def)

lemma user_cstr_Cons:
  "user_cstr s r a (x # xs) \<longleftrightarrow> unat a < 2 ^ 47 \<and> x \<noteq> 0 \<and> ubyte s r a = Some x \<and> user_cstr s r (a + 1) xs"
proof (cases "unat a < 2 ^ 47 - 1")
  case True
  then have "unat (a + 1) = unat a + 1" by (subst unat_add_lem [THEN iffD1]) simp_all
  moreover have "(\<forall>i \<le> length (x # xs). ubyte s r (a + of_nat i) = Some (((x # xs) @ [0]) ! i)) \<longleftrightarrow>
      ubyte s r a = Some x \<and> (\<forall>i \<le> length xs. ubyte s r (a + 1 + of_nat i) = Some ((xs @ [0]) ! i))"
    unfolding less_Suc_eq_le [symmetric] by (subst length_Cons, subst All_less_Suc2) (simp add: add.assoc)
  ultimately show ?thesis by (auto simp: user_cstr_def)
next
  case False
  have "\<not> user_cstr s r (a + 1) xs" if "unat a < 2 ^ 47"
  proof -
    have "unat (a + 1) = 2 ^ 47" using that False by (subst unat_add_lem [THEN iffD1]) simp_all
    then show ?thesis by (simp add: user_cstr_def)
  qed
  then show ?thesis using False by (auto simp: user_cstr_def)
qed

lemma copy_byte: "copy_from_user r a 1 s =
  (if unat a < 2 ^ 47 then (case ubyte s r a of None \<Rightarrow> (False, []) | Some b \<Rightarrow> (True, [b])) else (False, []))"
  by (auto simp: copy_from_user_def range_ok_iff split: option.splits)

lemma strncpy_shift:
  "strncpy_from_user r a n (Suc i) s = (let (k, bs) = strncpy_from_user r (a + 1) n i s in (if k < 0 then - 1 else k + 1, bs))"
proof (induction n arbitrary: i)
  case (Suc n)
  have e: "a + 1 + of_nat i = a + of_nat (Suc i)" by (simp add: add.assoc)
  show ?case unfolding strncpy_from_user.simps e using Suc [of "Suc i"] by (auto simp: Let_def split: prod.splits)
qed simp

lemma strncpy_spec:
  "strncpy_from_user r a n 0 s = (k, bs) \<Longrightarrow> length bs \<le> n \<and>
    (if k < 0 then k = - 1 \<and> (\<forall>xs. user_cstr s r a xs \<longrightarrow> n \<le> length xs)
     else \<exists>xs. user_cstr s r a xs \<and> length xs < n \<and> k = int (length xs) \<and> bs = xs @ [0])"
proof (induction n arbitrary: a k bs)
  case (Suc n)
  show ?case
  proof (cases "unat a < 2 ^ 47 \<and> ubyte s r a \<noteq> None")
    case False
    then have "k = - 1" "bs = []" using Suc.prems by (auto simp: copy_byte split: if_splits)
    moreover have "\<not> user_cstr s r a xs" for xs using False by (cases xs) (auto simp: user_cstr_Nil user_cstr_Cons)
    ultimately show ?thesis by simp
  next
    case True
    then obtain b where b: "ubyte s r a = Some b" by auto
    show ?thesis
    proof (cases "b = 0")
      case True
      then have "k = 0" "bs = [0]" using Suc.prems b \<open>_ \<and> _\<close> by (auto simp: copy_byte)
      then show ?thesis using True b \<open>_ \<and> _\<close> by (auto simp: user_cstr_Nil intro!: exI [of _ "[]"])
    next
      case False
      obtain k' bs' where k': "strncpy_from_user r (a + 1) n 0 s = (k', bs')" by fastforce
      then have e: "k = (if k' < 0 then - 1 else k' + 1)" "bs = b # bs'"
        using Suc.prems b True False by (auto simp: copy_byte strncpy_shift)
      note IH = Suc.IH [OF k']
      have cs: "user_cstr s r a xs \<longleftrightarrow> (\<exists>ys. xs = b # ys \<and> user_cstr s r (a + 1) ys)" for xs
        using b True False by (cases xs) (auto simp: user_cstr_Nil user_cstr_Cons)
      show ?thesis
      proof (cases "k' < 0")
        case True
        then show ?thesis using IH e cs by auto
      next
        case False
        then obtain xs where "user_cstr s r (a + 1) xs" "length xs < n" "k' = int (length xs)" "bs' = xs @ [0]"
          using IH by auto
        then show ?thesis using IH e cs False by (auto intro!: exI [of _ "b # xs"])
      qed
    qed
  qed
qed simp

subsection \<open>Properties\<close>

text \<open>
  C36: A copy to user memory changes the bytes of the range it is given, or a front part of them
  when it fails, and nothing else: no address above the user half of the address space, no byte of
  another process, no page of the kernel, no page table, no register.  It succeeds exactly when
  the range neither wraps nor leaves the user half and every page in it is mapped (and may be
  written, where the processor checks that for the kernel).  The kernel heap stays well formed.
\<close>

theorem copy_to_user_correct:
  assumes "heap_ok R h L" "r \<in> R" "length bs < 2 ^ 64" "copy_to_user wp r a bs (hp_mm h) = (ok, mm)"
  shows "(ok \<longleftrightarrow> unat a + length bs \<le> 2 ^ 47 \<and>
      (\<forall>i < length bs. ubyte (hp_mm h) r (a + of_nat i) \<noteq> None \<and> (wp \<longrightarrow> uwritable (hp_mm h) r (a + of_nat i)))) \<and>
    (\<exists>k \<le> length bs. (ok \<longrightarrow> k = length bs) \<and> user_wrote R r a (take k bs) (hp_mm h) mm) \<and>
    heap_ok R (h\<lparr>hp_mm := mm\<rparr>) L"
proof -
  have inv: "mm_inv R (hp_mm h)" using assms(1) by (rule heap_okE)
  have n: "unat (of_nat (length bs) :: u64) = length bs" using assms(3) by (intro unat_of_nat_less) simp
  have r: "user_range_ok a (of_nat (length bs)) \<longleftrightarrow> unat a + length bs \<le> 2 ^ 47" by (simp add: range_ok_iff n)
  show ?thesis
  proof (cases "unat a + length bs \<le> 2 ^ 47")
    case False
    then have "\<not> ok" "mm = hp_mm h" using assms(4) r by (auto simp: copy_to_user_def)
    then show ?thesis using False assms(1) wrote_nil [OF inv, of r a] by (auto intro!: exI [of _ 0])
  next
    case True
    obtain m where m: "movsb_out wp r a bs (hp_mm h) = (m, mm)" "ok \<longleftrightarrow> m = 0"
      using assms(4) True r by (auto simp: copy_to_user_def split: prod.splits)
    note S = movsb_out_spec [OF inv assms(2) True m(1)]
    then show ?thesis using True m(2) heap_ok_wrote(1) [OF assms(1)] by (auto intro!: exI [of _ "length bs - m"])
  qed
qed

text \<open>
  C37: Copying a string from user memory stores at most as many bytes as the buffer has.  It returns
  the length of the string exactly when a terminated string that fits stands there in mapped user
  memory, and then the buffer holds the string with its terminator; otherwise the answer is \<open>-1\<close>.
\<close>

theorem strncpy_from_user_correct:
  "strncpy_from_user r a n 0 s = (k, bs) \<Longrightarrow> length bs \<le> n \<and>
    (k = - 1 \<and> (\<forall>xs. user_cstr s r a xs \<longrightarrow> n \<le> length xs) \<or>
     (\<exists>xs. user_cstr s r a xs \<and> length xs < n \<and> k = int (length xs) \<and> bs = xs @ [0]))"
  using strncpy_spec [of r a n s k bs] by (auto split: if_splits)

subsection \<open>Instances\<close>

text \<open>
  The machine of the earlier examples with a process whose page tables at \<open>0x2000\<close> map the page at
  \<open>0x400000\<close>, for reading and writing, to the frame at \<open>0xb000\<close>.
\<close>

definition mm_user :: kmm where
  "mm_user = wr64 (direct_map mm_ex + 0xa000) 0 0xb007 (wr64 (direct_map mm_ex + 0x9000) 2 0xa007
     (wr64 (direct_map mm_ex + 0x8000) 0 0x9007 (wr64 (direct_map mm_ex + 0x2000) 0 0x8007 (mm_tab 0x7003))))"

lemma mm_user_sel [simp]: "mm_pmm mm_user = pmm_ex" "active_pml4_phys mm_user = 0x1000"
  "direct_map mm_user = direct_map mm_ex"
  by (simp_all add: mm_user_def)

lemma mm_user_ok: "mm_ok mm_user"
  using mm_tab_ok by (simp add: mm_user_def)

lemma user_ex_frames:
  "0x2000 \<in> page_frames" "0x8000 \<in> page_frames" "0x9000 \<in> page_frames" "0xa000 \<in> page_frames" "0xb000 \<in> page_frames"
  by (simp_all add: page_frames_def OS_PAGE_SIZE_def PMM_MAX_PHYS_BYTES_eq)

lemma ent_mm_user:
  assumes "f \<in> page_frames" "i < 512"
  shows "ent mm_user f i = (if f = 0xa000 \<and> i = 0 then 0xb007 else if f = 0x9000 \<and> i = 2 then 0xa007
    else if f = 0x8000 \<and> i = 0 then 0x9007 else if f = 0x2000 \<and> i = 0 then 0x8007
    else if f = 0x6000 \<and> i = 0 then 0x7003 else if f = 0x5000 \<and> i = 0 then 0x6003
    else if f = 0x4000 \<and> i = 0 then 0x5003 else if f = 0x1000 \<and> i = 288 then 0x4003 else 0)"
proof -
  note w = ent_wr64 [OF _ _ assms(1) _ assms(2)]
  let ?d = "direct_map mm_ex"
  let ?s1 = "wr64 (?d + 0x2000) 0 0x8007 (mm_tab 0x7003)"
  let ?s2 = "wr64 (?d + 0x8000) 0 0x9007 ?s1"
  let ?s3 = "wr64 (?d + 0x9000) 2 0xa007 ?s2"
  have 1: "ent ?s1 f i = (if f = 0x2000 \<and> i = 0 then 0x8007 else ent (mm_tab 0x7003) f i)"
    using w [of "mm_tab 0x7003" "0x2000" 0 "0x8007"] mm_tab_ok user_ex_frames by simp
  have 2: "ent ?s2 f i = (if f = 0x8000 \<and> i = 0 then 0x9007 else ent ?s1 f i)"
    using w [of ?s1 "0x8000" 0 "0x9007"] by (simp add: mm_tab_ok user_ex_frames)
  have 3: "ent ?s3 f i = (if f = 0x9000 \<and> i = 2 then 0xa007 else ent ?s2 f i)"
    using w [of ?s2 "0x9000" 2 "0xa007"] by (simp add: mm_tab_ok user_ex_frames)
  have "ent mm_user f i = (if f = 0xa000 \<and> i = 0 then 0xb007 else ent ?s3 f i)"
    unfolding mm_user_def using w [of ?s3 "0xa000" 0 "0xb007"] by (simp add: mm_tab_ok user_ex_frames)
  then show ?thesis unfolding 1 2 3 ent_mm_tab [OF assms] .
qed

lemma user_ex_entries:
  "present 0x8007" "present 0x9007" "present 0xa007" "present 0xb007"
  "\<not> large 0x8007" "\<not> large 0x9007" "\<not> large 0xa007" "\<not> large 0xb007"
  "frame 0x8007 = 0x8000" "frame 0x9007 = 0x9000" "frame 0xa007 = 0xa000" "frame 0xb007 = 0xb000"
  by (simp_all add: present_def large_def frame_def PAGE_PRESENT_def PAGE_LARGE_def PAGE_MASK_def)

lemma child_user_ex:
  "child d 0x8007 = Some 0x8000" "child d 0x9007 = Some 0x9000" "child d 0xa007 = Some 0xa000" "child d 0xb007 = Some 0xb000"
  "child d 0x7003 = Some 0x7000"
  by (simp_all add: child_def user_ex_entries ex_entries)

lemmas ex_tables = ent_mm_user ex_frames user_ex_frames child_ex_entries child_user_ex

lemma child_mm_user:
  assumes "f \<in> page_frames" "i < 512"
  shows "child d (ent mm_user f i) = Some g \<longleftrightarrow> (f, i, g) \<in> {(0x1000, 288, 0x4000), (0x4000, 0, 0x5000), (0x5000, 0, 0x6000),
    (0x6000, 0, 0x7000), (0x2000, 0, 0x8000), (0x8000, 0, 0x9000), (0x9000, 2, 0xa000), (0xa000, 0, 0xb000)}"
  unfolding ent_mm_user [OF assms] by (auto simp: child_ex_entries child_user_ex)

text \<open>The space and the path of each table and page of the example.\<close>

definition owner_ex :: "u64 \<Rightarrow> u64 \<times> u64 list" where
  "owner_ex f = the (map_of [(0x1000, 0x1000, []), (0x4000, 0x1000, [288]), (0x5000, 0x1000, [288, 0]), (0x6000, 0x1000, [288, 0, 0]),
     (0x2000, 0x2000, []), (0x8000, 0x2000, [0]), (0x9000, 0x2000, [0, 0]), (0xa000, 0x2000, [0, 0, 2]), (0xb000, 0x2000, [0, 0, 2, 0])] f)"

lemma owner_step:
  assumes "(f, i, g) \<in> {(0x1000, 288, 0x4000), (0x4000, 0, 0x5000), (0x5000, 0, 0x6000),
    (0x6000, 0, 0x7000), (0x2000, 0, 0x8000), (0x8000, 0, 0x9000), (0x9000, 2, 0xa000), (0xa000, 0, 0xb000 :: u64)}"
    "owner_ex f = (r, q)" "g \<noteq> 0x7000"
  shows "owner_ex g = (r, q @ [i])"
  using assms(1)
  apply (elim insertE)
  using assms(2,3) by (simp_all add: owner_ex_def)

lemma tab_mm_user:
  assumes "tab (ent mm_user) 0 r q = Some f" "owned 0x1000 r q" "r \<in> {0x1000, 0x2000}"
  shows "owner_ex f = (r, q) \<and> f \<in> {0x1000, 0x4000, 0x5000, 0x6000, 0x2000, 0x8000, 0x9000, 0xa000, 0xb000}"
  using assms(1,2)
proof (induction q arbitrary: f rule: rev_induct)
  case Nil
  then show ?case using assms(3) by (auto simp: owner_ex_def)
next
  case (snoc i q)
  obtain g where g: "tab (ent mm_user) 0 r q = Some g" "child (length q) (ent mm_user g i) = Some f"
    using snoc.prems(1) by (auto simp: tab_snoc split: option.splits)
  have "owned 0x1000 r q" using snoc.prems(2) assms(3) by (auto simp: owned_def split: if_splits)
  then have o: "owner_ex g = (r, q)" "g \<in> {0x1000, 0x4000, 0x5000, 0x6000, 0x2000, 0x8000, 0x9000, 0xa000, 0xb000}"
    using snoc.IH [OF g(1)] by simp_all
  have i: "i < 512" using snoc.prems(2) by (auto simp: owned_def split: if_splits)
  have gp: "g \<in> page_frames" using o(2) ex_frames user_ex_frames by auto
  have t: "(g, i, f) \<in> {(0x1000, 288, 0x4000), (0x4000, 0, 0x5000), (0x5000, 0, 0x6000),
    (0x6000, 0, 0x7000), (0x2000, 0, 0x8000), (0x8000, 0, 0x9000), (0x9000, 2, 0xa000), (0xa000, 0, 0xb000)}"
    by (rule child_mm_user [OF gp i, THEN iffD1, OF g(2)])
  have "f \<noteq> 0x7000"
  proof
    assume "f = 0x7000"
    then have "g = 0x6000" using t by auto
    then have "r = 0x1000" "length q = 3" using o(1) by (auto simp: owner_ex_def)
    then show False using snoc.prems(2) by (simp add: owned_def)
  qed
  then show ?case using owner_step [OF t o(1)] t by auto
qed

lemma mm_user_inv: "mm_inv {0x2000} mm_user"
proof -
  have "pt_inv (ent mm_user) {0x3000} 0x1000 {0x2000}"
  proof (rule pt_invI)
    fix r q f assume "r \<in> insert 0x1000 {0x2000}" "owned 0x1000 r q" "tab (ent mm_user) 0 r q = Some f"
    then show "f \<in> page_frames - {0x3000}" using tab_mm_user [of r q f] ex_frames user_ex_frames by auto
  next
    fix r r' q q' f
    assume a: "r \<in> insert 0x1000 {0x2000}" "r' \<in> insert 0x1000 {0x2000}" "owned 0x1000 r q" "owned 0x1000 r' q'"
      "tab (ent mm_user) 0 r q = Some f" "tab (ent mm_user) 0 r' q' = Some f"
    have "owner_ex f = (r, q)" using tab_mm_user [OF a(5,3,1)] by (rule conjunct1)
    moreover have "owner_ex f = (r', q')" using tab_mm_user [OF a(6,4,2)] by (rule conjunct1)
    ultimately show "r = r' \<and> q = q'" by simp
  next
    fix r i assume "r \<in> insert (0x1000 :: u64) {0x2000}" "i < 512" "present (ent mm_user r i)"
    then show "\<not> large (ent mm_user r i)" by (auto simp: ex_tables ex_entries user_ex_entries split: if_splits)
  next
    fix r i assume "r \<in> {0x2000 :: u64}" "i < 512" "256 \<le> i" "present (ent mm_user r i)"
    then show "ent mm_user r i = ent mm_user 0x1000 i" by (auto simp: ex_tables ex_entries split: if_splits)
  next
    fix r q f i assume a: "r \<in> {0x2000 :: u64}" "owned 0x1000 r q" "q \<noteq> []" "length q \<le> 2" "tab (ent mm_user) 0 r q = Some f"
      "i < 512" "present (ent mm_user f i)"
    have "f \<in> page_frames" using tab_mm_user [OF a(5,2)] a(1) ex_frames user_ex_frames by auto
    then show "\<not> large (ent mm_user f i)"
      using a(6,7) by (simp add: ent_mm_user ex_entries user_ex_entries split: if_splits)
  qed auto
  then show ?thesis using mm_user_ok by (simp add: mm_inv_def pmm_ex_avail)
qed

lemma mm_user_translate: "translate (ent mm_user) 0x2000 0x400000 = Some 0xb000" "translate (ent mm_user) 0x2000 0x400001 = Some 0xb001"
  by (simp_all add: translate_unfold Let_def idx_def INDEX_MASK_def ex_tables ex_entries user_ex_entries)

lemma mm_user_kernel: "vmm_virt_to_phys mm_user 0xffff900000000000 = Some (Some 0x7000)"
  by (simp add: vmm_virt_to_phys_eq [OF mm_user_inv] translate_unfold Let_def idx_def INDEX_MASK_def ex_tables ex_entries)

lemma mm_user_writable: "uwritable mm_user 0x2000 0x400000"
proof -
  have i: "idxs 0x400000 = [0, 0, 2, 0]" by (simp add: idxs_def idx_def INDEX_MASK_def)
  have e: "ent mm_user 0x2000 0 = 0x8007" "ent mm_user 0x8000 0 = 0x9007" "ent mm_user 0x9000 2 = 0xa007" "ent mm_user 0xa000 0 = 0xb007"
    by (simp_all add: ent_mm_user user_ex_frames)
  have "set [0..<4] = {0, Suc 0, Suc (Suc 0), Suc (Suc (Suc 0))}" by (simp add: upt_rec)
  then show ?thesis unfolding uwritable_def i by (simp add: e child_user_ex PAGE_WRITABLE_def)
qed

definition heap_user :: heap where "heap_user = heap_ex\<lparr>hp_mm := mm_user\<rparr>"

lemma heap_user_ok: "heap_ok {0x2000} heap_user [HEAP_VIRT_BASE + 40 \<mapsto> 4056]"
proof -
  obtain fs bs fl where h: "rep heap_ex bs fl {}" "live (hp_blk heap_ex) bs = [HEAP_VIRT_BASE + 40 \<mapsto> 4056]"
    using heap_ex_ok by (rule heap_okE)
  then have "rep heap_user bs fl {}" "live (hp_blk heap_user) bs = [HEAP_VIRT_BASE + 40 \<mapsto> 4056]"
    by (simp_all add: heap_user_def rep_mm)
  moreover have "backed heap_user [0x7000]"
    using mm_user_kernel ex_frames
    by (simp add: backed_def heap_user_def heap_ex_def heap_page_def HEAP_VIRT_BASE_def pmm_ex_avail)
  moreover have "0x7000 \<notin> space_frames 0x2000 mm_user"
    using tab_mm_user [of "0x2000" _ "0x7000"] by (auto simp: space_frames_def)
  then have "apart {0x2000} heap_user [0x7000]" by (simp add: apart_def heap_user_def)
  moreover have "mm_inv {0x2000} (hp_mm heap_user)" using mm_user_inv by (simp add: heap_user_def)
  ultimately show ?thesis unfolding heap_ok_def by blast
qed

theorem copy_to_user_correct_witness:
  "heap_ok {0x2000} heap_user [HEAP_VIRT_BASE + 40 \<mapsto> 4056] \<and>
   (\<exists>mm. copy_to_user True 0x2000 0x400000 [65] mm_user = (True, mm) \<and> ubyte mm 0x2000 0x400000 = Some 65)"
proof -
  obtain ok mm where c: "copy_to_user True 0x2000 0x400000 [65] (hp_mm heap_user) = (ok, mm)" by fastforce
  have "(ok \<longleftrightarrow> unat (0x400000 :: u64) + length [65 :: u8] \<le> 2 ^ 47 \<and>
      (\<forall>i < length [65 :: u8]. ubyte (hp_mm heap_user) 0x2000 (0x400000 + of_nat i) \<noteq> None \<and>
         (True \<longrightarrow> uwritable (hp_mm heap_user) 0x2000 (0x400000 + of_nat i)))) \<and>
    (\<exists>k \<le> length [65 :: u8]. (ok \<longrightarrow> k = length [65 :: u8]) \<and> user_wrote {0x2000} 0x2000 0x400000 (take k [65]) (hp_mm heap_user) mm) \<and>
    heap_ok {0x2000} (heap_user\<lparr>hp_mm := mm\<rparr>) [HEAP_VIRT_BASE + 40 \<mapsto> 4056]"
    by (rule copy_to_user_correct [OF heap_user_ok _ _ c]) simp_all
  moreover have "ubyte mm_user 0x2000 0x400000 \<noteq> None" using mm_user_translate by (simp add: ubyte_def)
  ultimately have "ok" "user_wrote {0x2000} 0x2000 0x400000 [65] mm_user mm" using mm_user_writable by (auto simp: heap_user_def)
  then have "ubyte mm 0x2000 0x400000 = Some 65" by (simp add: user_wrote_def)
  then show ?thesis using c \<open>ok\<close> heap_user_ok by (auto simp: heap_user_def)
qed

theorem strncpy_from_user_correct_witness:
  "strncpy_from_user 0x2000 0x400000 4 0 mm_user = (0, [0]) \<and> (\<exists>xs. user_cstr mm_user 0x2000 0x400000 xs \<and> xs @ [0] = [0])"
proof -
  have "kmem mm_user (direct_map mm_ex + 0xb000) = 0"
    by (simp add: mm_user_def mm_tab_def wr64_def st64_def st_bytes_def mm_ex_def)
  then have b: "ubyte mm_user 0x2000 0x400000 = Some 0" using mm_user_translate by (simp add: ubyte_def)
  then have "strncpy_from_user 0x2000 0x400000 4 0 mm_user = (0, [0])" using strncpy_from_user.simps(2) [of "0x2000" "0x400000" 3 0 mm_user] by (simp add: copy_byte)
  moreover from strncpy_from_user_correct [OF this] have "\<exists>xs. user_cstr mm_user 0x2000 0x400000 xs \<and> xs @ [0] = [0]" by auto
  ultimately show ?thesis by blast
qed

end
