(* ===== verification/Spec2Isabelle.thy ===== *)
theory Spec2Isabelle
  imports Pmm Cred Fd Pipe Kstring Kalloc Netrecv Vfssafe Elf Mutex Uaccess
begin

text \<open>
  A verification of the AetherOS kernel: a 64-bit kernel for x86 in C with paging, a heap,
  preemptive threads on several processors, user processes, an ext2 file system and a TCP/IP stack.

  \<^bold>\<open>How the parts work together.\<close>  The boot loader hands the kernel a memory map.  The page allocator
  keeps one bit per page frame; the virtual memory manager builds page tables from its frames,
  for the kernel and for each process; the heap maps pages as it grows, and all other parts take
  their structures from it.  The scheduler switches threads at timer ticks, loads their page
  tables and gives back the stacks, structures and address spaces of dead threads.  Spin
  locks protect the shared data, mutexes and wait lists put threads to sleep.  The loader makes
  an address space out of an executable that the file system has read through the block
  device.  System calls move data between user memory and the kernel by \<^verbatim>\<open>copy_from_user\<close> and
  \<^verbatim>\<open>copy_to_user\<close> and reach files, pipes and sockets through the descriptor table.

  \<^bold>\<open>How C is rendered.\<close>  Integers are words of their width, so arithmetic wraps as in the code.
  Structures are records, enumerations datatypes.  State is passed explicitly.  A panic, an access
  outside an object, a dereference of memory that is not allocated, a division by zero and a loop
  that does not end are \<open>None\<close>; error codes are ordinary values.  A lock that a public operation
  holds from start to end makes it one step; where threads or processors interleave inside an operation (spin
  locks, mutexes, the scheduler) the steps are transition relations.  Loops are structural
  recursion over what they consume, functions with a measure, or, where the C loop may run
  forever (linked lists, strings without terminator), \<open>partial_function (option)\<close> with
  a proof that it returns.  Waiting loops with a bound in the C code (ARP, DNS, DHCP and TCP
  polling) have that bound as their recursion argument; no other fuel is used.

  \<^bold>\<open>Theories and source files.\<close>

  \<^item> \<^theory_text>\<open>Prelude\<close>, \<^theory_text>\<open>Bytes\<close>: names for C types, lemmas on lists, words and loops, byte order,
    bounded buffers.  \<^theory_text>\<open>Interfaces\<close>, \<^theory_text>\<open>Allocator\<close>: the contracts that several parts share, as
    locales: tables of slots, byte queues, page and memory allocators, with what their clients
    get from them.  Each is interpreted on the operations of the code.
  \<^item> \<^theory_text>\<open>Bootinfo\<close> (\<^verbatim>\<open>include/os/bootinfo.h\<close>), \<^theory_text>\<open>Pmm\<close> (\<^verbatim>\<open>kernel/mem/pmm.c\<close>): \<^verbatim>\<open>pmm_init\<close> marks
    exactly the usable pages free, allocation returns a free page and marks it, a double release panics.
  \<^item> \<^theory_text>\<open>Vmm\<close> (\<^verbatim>\<open>kernel/mem/vmm.c\<close>) holds the operations on page tables as memory words,
    \<^theory_text>\<open>Paging\<close> what tables mean and the invariant that all spaces together are a forest over
    distinct frames, \<^theory_text>\<open>Spaces\<close> that mapping, unmapping, creation and destruction of a
    space implement updates of the translation and keep the invariant, \<^theory_text>\<open>Usermem\<close> the
    memory a process sees.
  \<^item> \<^theory_text>\<open>Kheap\<close>, \<^theory_text>\<open>Kalloc\<close>, \<^theory_text>\<open>Kroot\<close> (\<^verbatim>\<open>kernel/mem/heap.c\<close>): blocks that tile the heap and the free
    list; \<^verbatim>\<open>kmalloc\<close> and \<^verbatim>\<open>kfree\<close> satisfy the allocator contract for every client session.
  \<^item> \<^theory_text>\<open>Uaccess\<close> (\<^verbatim>\<open>kernel/mem/uaccess.c\<close>): copies stay inside the user range given and
    in the address space of the process.  \<^theory_text>\<open>Kstring\<close> (\<^verbatim>\<open>kernel/lib/string.c\<close>).
  \<^item> \<^theory_text>\<open>Elf\<close> (\<^verbatim>\<open>kernel/exec/elf.c\<close>): for an arbitrary image the loader returns, and a loaded space has byte
    by byte the contents the image describes.
  \<^item> \<^theory_text>\<open>Sched\<close> (\<^verbatim>\<open>kernel/sched/thread.c\<close>, \<^verbatim>\<open>kernel/sched/sched.c\<close>) holds the operations on linked
    structures, \<^theory_text>\<open>Schedspec\<close> a scheduler on lists that they implement, \<^theory_text>\<open>Schedinv\<close>, \<^theory_text>\<open>Schedstep\<close>,
    \<^theory_text>\<open>Schedops\<close> and \<^theory_text>\<open>Schedsafe\<close> the invariant and that each operation keeps it, \<^theory_text>\<open>Schedlive\<close>
    the transition system with safety, termination and fairness.
  \<^item> \<^theory_text>\<open>Spinlock\<close> (\<^verbatim>\<open>kernel/sync/spinlock.c\<close>), \<^theory_text>\<open>Waiting\<close> and \<^theory_text>\<open>Mutex\<close> (\<^verbatim>\<open>kernel/sync/mutex.c\<close>): mutual
    exclusion under every interleaving of processors and interrupts, no lost wake-up, and the
    deadlock of a plain lock that an interrupt handler takes.
  \<^item> \<^theory_text>\<open>Cred\<close> (\<^verbatim>\<open>kernel/security/cred.c\<close>), \<^theory_text>\<open>Fd\<close> (\<^verbatim>\<open>kernel/proc/fd.c\<close>), \<^theory_text>\<open>Pipe\<close> (\<^verbatim>\<open>kernel/proc/pipe.c\<close>):
    no sequence of calls gains an id, descriptors are distinct slots, a pipe is a byte stream.
  \<^item> \<^theory_text>\<open>Blkdev\<close> (\<^verbatim>\<open>kernel/block\<close>), \<^theory_text>\<open>Ext2\<close>, \<^theory_text>\<open>Ext2dir\<close>, \<^theory_text>\<open>Ext2file\<close> (\<^verbatim>\<open>kernel/fs/ext2.c\<close>) and \<^theory_text>\<open>Vfs\<close>
    (\<^verbatim>\<open>kernel/fs/vfs.c\<close>) hold the file system; \<^theory_text>\<open>Ext2safe\<close>, \<^theory_text>\<open>Fssafe\<close> and \<^theory_text>\<open>Vfssafe\<close> show that no
    call faults whatever the disk holds and whichever requests fail, \<^theory_text>\<open>Dirents\<close> that a directory
    block is a finite map, \<^theory_text>\<open>Ext2io\<close> that files read back what was written, \<^theory_text>\<open>Vfspath\<close> that
    path resolution equals a reference on a stack of components.
  \<^item> \<^theory_text>\<open>Netstate\<close>, \<^theory_text>\<open>Checksum\<close>, \<^theory_text>\<open>Link\<close>, \<^theory_text>\<open>Ip\<close>, \<^theory_text>\<open>Resolver\<close>, \<^theory_text>\<open>Tcp\<close>, \<^theory_text>\<open>Netrecv\<close> (\<^verbatim>\<open>kernel/net\<close>): whatever frame
    arrives, the handlers stay inside their buffers; segments and packets are well formed, the handshake
    succeeds, data in order is delivered, replies of the resolver are understood.

  \<^bold>\<open>Parameters.\<close>  The disk driver is a function that says what the sectors hold and which requests
  fail; the network card delivers a list of frames and says which it sends; of the memory map only its
  documented format is assumed.  Nothing is assumed of their behaviour beyond that.  The write
  protection bit of the processor is a parameter of the copies to user memory.

  \<^bold>\<open>Bounds.\<close>  The theorems on the file system calls concern paths that resolve to at most 256
  characters: longer ones overflow the buffers of \<^verbatim>\<open>path_split\<close>.  \<^theory_text>\<open>Ext2io\<close> concerns the direct
  blocks of a file on a device that serves its requests.  The other theorems have no bounds but those of
  the code (64 processors, 64 GiB of page frames, the sizes of its tables).

  \<^bold>\<open>Not modelled.\<close>  System calls and processes; device drivers (ACPI, AHCI, NVMe, e1000, PCI, keyboard,
  serial port, frame buffer) and the desktop, which consist of input and output; interrupt
  and descriptor tables, processor start-up and other assembly; the boot loader, which calls
  firmware; the tests; user programs and their library, which run outside the kernel; messages on the
  serial port; the batching of sectors for the disk drivers in \<^verbatim>\<open>vfs.c\<close>.
\<close>

end
